(* ===== verification/Prelude.thy ===== *)
theory Prelude
  imports
    Main
    "HOL-Library.Word"
    "HOL-Library.Char_ord"
    "HOL-Library.List_Lexorder"
    "HOL-Library.Product_Lexorder"
begin

unbundle bit_operations_syntax

text \<open>
  Shared ground of the development: the machine types of the Rust code, its
  \<^verbatim>\<open>Result\<close> type, byte strings with little- and big-endian integer layouts, bounds-checked
  slices, and the fact collections the component theories add to.

  Conventions: \<^verbatim>\<open>u8\<close> to \<^verbatim>\<open>u64\<close> and \<^verbatim>\<open>Uuid\<close> are words of their width (\<^verbatim>\<open>Uuid\<close>'s derived
  order on its 16 big-endian bytes is the unsigned order of the 128-bit number).
  \<^verbatim>\<open>i64\<close> and \<^verbatim>\<open>f64\<close> are their bit patterns, each in a type of its own, since their orders
  are not the unsigned one. \<^verbatim>\<open>usize\<close> is \<^typ>\<open>nat\<close>: it only counts elements of objects in
  memory. A Rust \<^verbatim>\<open>String\<close> is its UTF-8 bytes, one \<^typ>\<open>char\<close> each, ordered
  lexicographically by byte as Rust orders strings.
\<close>

named_theorems res_simps \<open>unfolding of the result type's operations\<close>
named_theorems byte_simps \<open>lengths and round trips of integer byte layouts\<close>
named_theorems slice_simps \<open>bounds-checked slices and overwrites\<close>

type_synonym u8 = "8 word"
type_synonym u16 = "16 word"
type_synonym u32 = "32 word"
type_synonym u64 = "64 word"
type_synonym uuid = "128 word"
type_synonym bytes = "u8 list"

section \<open>Results\<close>

text \<open>
  The error codes of \<^verbatim>\<open>error.rs\<close> that the modelled code raises. The formatted message
  arguments are not modelled. \<open>Panic\<close> is a Rust panic, \<open>Io\<close> an operating-system error,
  \<open>Postcard\<close> a serialisation error of the \<^verbatim>\<open>postcard\<close> crate, \<open>Message\<close> an error without a code, \<open>Diverges\<close> a
  call that does not return. The codes of a
  family are indexed by their number: \<open>Prs 1\<close> is \<^verbatim>\<open>Prs001\<close>, \<open>Internal 20\<close> is \<^verbatim>\<open>Int020\<close>.
\<close>

datatype error_code =
    Prs nat | Qry nat | Stg nat | Wal nat | Api nat | Internal nat
  | Panic | Io | Postcard | Message | Diverges

type_synonym 'a result = "error_code + 'a"

abbreviation Ok :: "'a \<Rightarrow> 'a result" where "Ok \<equiv> Inr"
abbreviation Err :: "error_code \<Rightarrow> 'a result" where "Err \<equiv> Inl"

text \<open>Rust's \<^verbatim>\<open>?\<close> operator and \<^verbatim>\<open>ok_or_else\<close>.\<close>

definition and_then :: "'a result \<Rightarrow> ('a \<Rightarrow> 'b result) \<Rightarrow> 'b result" where
  "and_then r f = (case r of Inl e \<Rightarrow> Inl e | Inr x \<Rightarrow> f x)"

definition ok_or :: "error_code \<Rightarrow> 'a option \<Rightarrow> 'a result" where
  "ok_or e x = (case x of None \<Rightarrow> Inl e | Some y \<Rightarrow> Inr y)"

lemma and_then_simps [simp, res_simps]:
  "and_then (Inl e) f = Inl e"
  "and_then (Inr x) f = f x"
  by (simp_all add: and_then_def)

lemma ok_or_simps [simp, res_simps]:
  "ok_or e None = Inl e"
  "ok_or e (Some x) = Inr x"
  by (simp_all add: ok_or_def)

lemma and_then_eq_Inr:
  "and_then r f = Inr y \<longleftrightarrow> (\<exists>x. r = Inr x \<and> f x = Inr y)"
  by (cases r) auto

lemma and_then_cong [fundef_cong]:
  "r = s \<Longrightarrow> (\<And>x. s = Inr x \<Longrightarrow> f x = g x) \<Longrightarrow> and_then r f = and_then s g"
  by (cases s) auto

lemma ok_or_eq_Inr [simp]: "ok_or e x = Inr y \<longleftrightarrow> x = Some y"
  by (cases x) auto

text \<open>\<^verbatim>\<open>iter().map(f).collect::<Result<Vec<_>>>()\<close>: the first error wins.\<close>

fun collect_map :: "('a \<Rightarrow> 'b result) \<Rightarrow> 'a list \<Rightarrow> 'b list result" where
  "collect_map f [] = Inr []"
| "collect_map f (x # xs) =
     and_then (f x) (\<lambda>y. and_then (collect_map f xs) (\<lambda>ys. Inr (y # ys)))"

lemma collect_map_cong [fundef_cong]:
  "xs = ys \<Longrightarrow> (\<And>x. x \<in> set ys \<Longrightarrow> f x = g x) \<Longrightarrow> collect_map f xs = collect_map g ys"
  by (induction ys arbitrary: xs) simp_all

lemma collect_map_Inr:
  "(\<And>x. x \<in> set xs \<Longrightarrow> f x = Inr (g x)) \<Longrightarrow> collect_map f xs = Inr (map g xs)"
  by (induction xs) auto

lemma collect_map_append:
  "collect_map f (xs @ ys) =
     and_then (collect_map f xs) (\<lambda>as. and_then (collect_map f ys) (\<lambda>bs. Inr (as @ bs)))"
proof (induction xs)
  case Nil
  then show ?case by (cases "collect_map f ys") auto
next
  case (Cons x xs)
  then show ?case
    by (cases "f x"; cases "collect_map f xs"; cases "collect_map f ys") auto
qed

lemma collect_map_eq_InrD:
  "collect_map f xs = Inr ys \<Longrightarrow> length ys = length xs \<and> (\<forall>i < length xs. f (xs ! i) = Inr (ys ! i))"
proof (induction xs arbitrary: ys)
  case Nil
  then show ?case by simp
next
  case (Cons x xs)
  then obtain y zs where "f x = Inr y" "collect_map f xs = Inr zs" "ys = y # zs"
    by (auto simp: and_then_eq_Inr)
  with Cons.IH [of zs] show ?case by (auto simp: nth_Cons split: nat.splits)
qed

section \<open>Signed integers and floats\<close>

datatype i64 = I64 (cast_unsigned: "64 word")

definition i64_val :: "i64 \<Rightarrow> int" where
  "i64_val n = sint (cast_unsigned n)"

definition i64_of_int :: "int \<Rightarrow> i64" where
  "i64_of_int k = I64 (word_of_int k)"

definition i64_MAX :: i64 where "i64_MAX = I64 0x7FFFFFFFFFFFFFFF"
definition i64_MIN :: i64 where "i64_MIN = I64 0x8000000000000000"
definition u64_MAX :: u64 where "u64_MAX = 0xFFFFFFFFFFFFFFFF"
definition u32_MAX :: nat where "u32_MAX = 0xFFFFFFFF"

lemma i64_val_inject: "i64_val a = i64_val b \<longleftrightarrow> a = b"
  by (cases a; cases b) (auto simp: i64_val_def intro: signed_word_eqI)

instantiation i64 :: linorder
begin

definition less_eq_i64 :: "i64 \<Rightarrow> i64 \<Rightarrow> bool" where
  "a \<le> b \<longleftrightarrow> i64_val a \<le> i64_val b"

definition less_i64 :: "i64 \<Rightarrow> i64 \<Rightarrow> bool" where
  "a < b \<longleftrightarrow> i64_val a < i64_val b"

instance
  by standard (auto simp: less_eq_i64_def less_i64_def i64_val_inject)

end

lemma i64_MIN_le [simp]: "i64_MIN \<le> n"
proof -
  have "- (2 ^ 63) \<le> sint (cast_unsigned n)"
    using sint_greater_eq [of "cast_unsigned n"] by simp
  then show ?thesis by (simp add: less_eq_i64_def i64_val_def i64_MIN_def)
qed

lemma i64_le_MAX [simp]: "n \<le> i64_MAX"
proof -
  have "sint (cast_unsigned n) < 2 ^ 63"
    using sint_lt [of "cast_unsigned n"] by simp
  then show ?thesis by (simp add: less_eq_i64_def i64_val_def i64_MAX_def)
qed

text \<open>
  \<^verbatim>\<open>i64::try_from(t).unwrap_or(i64::MAX)\<close> for \<^verbatim>\<open>t: u64\<close> and
  \<^verbatim>\<open>u64::try_from(t).unwrap_or(0)\<close> for \<^verbatim>\<open>t: i64\<close>.
\<close>

definition i64_from_u64_or_max :: "u64 \<Rightarrow> i64" where
  "i64_from_u64_or_max t = (if t \<le> 0x7FFFFFFFFFFFFFFF then I64 t else i64_MAX)"

definition u64_from_i64_or_zero :: "i64 \<Rightarrow> u64" where
  "u64_from_i64_or_zero t = (if i64_val t < 0 then 0 else cast_unsigned t)"

definition u64_saturating_add :: "u64 \<Rightarrow> u64 \<Rightarrow> u64" where
  "u64_saturating_add a b = (if unat a + unat b < 2 ^ 64 then a + b else u64_MAX)"

text \<open>Flipping the top bit of a 64-bit word adds \<open>2 ^ 63\<close> modulo \<open>2 ^ 64\<close>.\<close>

lemma mod_wrap_64:
  assumes "(2::int) ^ 63 \<le> u" and "u < 2 ^ 64"
  shows "(u + 2 ^ 63) mod 2 ^ 64 = u - 2 ^ 63"
proof -
  have "(u + 2 ^ 63) mod 2 ^ 64 = ((u - 2 ^ 63) + 2 ^ 64) mod 2 ^ 64"
    by (simp add: algebra_simps)
  also have "\<dots> = (u - 2 ^ 63) mod 2 ^ 64"
    by (rule mod_add_self2)
  also have "\<dots> = u - 2 ^ 63"
    using assms by (intro mod_pos_pos_trivial) simp_all
  finally show ?thesis .
qed

lemma uint_64_bounds: "0 \<le> uint (x :: u64)" "uint (x :: u64) < 2 ^ 64"
  using uint_lt2p [of x] by simp_all

lemma sint_64:
  "sint (x :: u64) = (if x < 0x8000000000000000 then uint x else uint x - 2 ^ 64)"
proof -
  have s: "sint x = (uint x + 2 ^ 63) mod 2 ^ 64 - 2 ^ 63"
    by (simp add: sint_uint signed_take_bit_eq_take_bit_shift take_bit_eq_mod)
  show ?thesis
  proof (cases "uint x < 2 ^ 63")
    case True
    then show ?thesis using s by (simp add: word_less_def)
  next
    case False
    then show ?thesis
      using s uint_64_bounds [of x] mod_wrap_64 [of "uint x"] by (simp add: word_less_def)
  qed
qed

lemma minus_top_64: "x - (2 :: u64) ^ 63 = x + 2 ^ 63"
proof -
  have z: "(2 :: u64) ^ 63 + 2 ^ 63 = 0" by simp
  have "x - (2 :: u64) ^ 63 = x - 2 ^ 63 + (2 ^ 63 + 2 ^ 63)"
    by (simp only: z add_0_right)
  also have "\<dots> = x + 2 ^ 63"
    by (simp only: diff_add_cancel add.assoc [symmetric])
  finally show ?thesis .
qed

lemma xor_top_64: "(x :: u64) XOR 2 ^ 63 = x + 2 ^ 63"
proof (cases "bit x 63")
  case False
  then have "x AND 2 ^ 63 = 0"
    by (simp only: and_exp_eq_0_iff_not_bit simp_thms)
  then show ?thesis by (simp only: disjunctive_add_eq_xor)
next
  case True
  then have n: "NOT x AND 2 ^ 63 = 0"
    by (simp only: and_exp_eq_0_iff_not_bit bit_not_iff) simp
  show ?thesis
    unfolding minus_top_64 [symmetric] disjunctive_diff_eq_and_not [OF n]
      disjunctive_and_not_eq_xor [OF n] ..
qed

lemma uint_xor_top: "uint ((x :: u64) XOR 0x8000000000000000) = sint x + 2 ^ 63"
proof -
  have e: "uint (x XOR 0x8000000000000000) = (uint x + 2 ^ 63) mod 2 ^ 64"
    using xor_top_64 [of x] by (simp add: uint_word_ariths)
  show ?thesis
  proof (cases "uint x < 2 ^ 63")
    case True
    then show ?thesis using e by (simp add: sint_64 word_less_def)
  next
    case False
    then show ?thesis
      using e uint_64_bounds [of x] mod_wrap_64 [of "uint x"]
      by (simp add: sint_64 word_less_def)
  qed
qed

lemma uint_not_64: "uint (NOT (x :: u64)) = 2 ^ 64 - 1 - uint x"
proof -
  have "uint (NOT x) = (- uint x - 1) mod 2 ^ 64"
    by (simp add: not_eq_complement uint_word_ariths mod_diff_left_eq mod_minus_eq)
  also have "\<dots> = ((2 ^ 64 - 1 - uint x) - 2 ^ 64) mod 2 ^ 64"
    by (rule arg_cong [where f = "\<lambda>k. k mod 2 ^ 64"]) simp
  also have "\<dots> = (2 ^ 64 - 1 - uint x) mod 2 ^ 64"
    by (rule minus_mod_self2)
  also have "\<dots> = 2 ^ 64 - 1 - uint x"
    using uint_64_bounds [of x] by (intro mod_pos_pos_trivial) linarith+
  finally show ?thesis .
qed

text \<open>
  An IEEE 754 binary64 number. Two non-NaN floats compare as their sign-and-magnitude
  readings (so the two zeros are equal), \<^verbatim>\<open>total_cmp\<close> orders \<open>-0.0\<close> before \<open>0.0\<close>.
\<close>

datatype f64 = F64 (to_bits: "64 word")

definition is_sign_negative :: "f64 \<Rightarrow> bool" where
  "is_sign_negative f \<longleftrightarrow> 0x8000000000000000 \<le> to_bits f"

definition is_nan :: "f64 \<Rightarrow> bool" where
  "is_nan f \<longleftrightarrow> 0x7FF0000000000000 < (to_bits f AND 0x7FFFFFFFFFFFFFFF)"

definition f64_num :: "f64 \<Rightarrow> int" where
  "f64_num f = (if is_sign_negative f then 2 ^ 63 - uint (to_bits f) else uint (to_bits f))"

definition f64_total :: "f64 \<Rightarrow> int" where
  "f64_total f = (if is_sign_negative f then 2 ^ 63 - 1 - uint (to_bits f) else uint (to_bits f))"

definition f64_eq :: "f64 \<Rightarrow> f64 \<Rightarrow> bool" where
  "f64_eq a b \<longleftrightarrow> \<not> is_nan a \<and> \<not> is_nan b \<and> f64_num a = f64_num b"

section \<open>Integers as bytes\<close>

primrec nat_to_le :: "nat \<Rightarrow> nat \<Rightarrow> bytes" where
  "nat_to_le 0 x = []"
| "nat_to_le (Suc n) x = of_nat x # nat_to_le n (x div 256)"

primrec le_to_nat :: "bytes \<Rightarrow> nat" where
  "le_to_nat [] = 0"
| "le_to_nat (b # bs) = unat b + 256 * le_to_nat bs"

primrec nat_to_be :: "nat \<Rightarrow> nat \<Rightarrow> bytes" where
  "nat_to_be 0 x = []"
| "nat_to_be (Suc n) x = of_nat (x div 256 ^ n) # nat_to_be n (x mod 256 ^ n)"

lemma length_nat_to_le [simp, byte_simps]: "length (nat_to_le n x) = n"
  by (induction n arbitrary: x) simp_all

lemma length_nat_to_be [simp, byte_simps]: "length (nat_to_be n x) = n"
  by (induction n arbitrary: x) simp_all

lemma unat_bounds:
  "unat (w2 :: u16) < 256 ^ 2" "unat (w4 :: u32) < 256 ^ 4"
  "unat (w8 :: u64) < 256 ^ 8" "unat (w16 :: uuid) < 256 ^ 16"
  using unsigned_less [where ?'a = nat, of w2] unsigned_less [where ?'a = nat, of w4]
    unsigned_less [where ?'a = nat, of w8] unsigned_less [where ?'a = nat, of w16]
  by simp_all

lemma unat_of_nat_u8 [simp]: "unat (of_nat x :: u8) = x mod 256"
  by (simp add: unat_of_nat)

lemma unat_u8_less [simp]: "unat (b :: u8) < 256"
  using unsigned_less [where ?'a = nat, of b] by simp

lemma of_nat_unat_u8: "(of_nat (unat (b :: u8) + 256 * k) :: u8) = b"
proof -
  have "unat (of_nat (unat b + 256 * k) :: u8) = unat b"
    by (simp only: unat_of_nat_u8) simp
  then show ?thesis by (rule word_unat_eq_iff [THEN iffD2])
qed

lemma le_to_nat_to_le [byte_simps]: "le_to_nat (nat_to_le n x) = x mod 256 ^ n"
  by (induction n arbitrary: x) (simp_all add: mod_mult2_eq [symmetric] add.commute mod_mult2_eq)

lemma le_to_nat_less: "le_to_nat bs < 256 ^ length bs"
proof (induction bs)
  case Nil
  then show ?case by simp
next
  case (Cons b bs)
  have "unat b + 256 * le_to_nat bs < 256 * (le_to_nat bs + 1)" by simp
  also have "\<dots> \<le> 256 * 256 ^ length bs" using Cons by (intro mult_le_mono) simp_all
  finally show ?case by simp
qed

lemma nat_to_le_to_nat [byte_simps]: "length bs = n \<Longrightarrow> nat_to_le n (le_to_nat bs) = bs"
proof (induction bs arbitrary: n)
  case Nil
  then show ?case by simp
next
  case (Cons b bs)
  have "(unat b + 256 * le_to_nat bs) div 256 = le_to_nat bs" by simp
  with Cons show ?case
    using of_nat_unat_u8 [of b "le_to_nat bs"] by (auto simp del: of_nat_add of_nat_mult)
qed

text \<open>Big-endian layouts of the same width compare as the numbers do.\<close>

lemma nat_to_be_less:
  "x < 256 ^ n \<Longrightarrow> y < 256 ^ n \<Longrightarrow> nat_to_be n x < nat_to_be n y \<longleftrightarrow> x < y"
proof (induction n arbitrary: x y)
  case 0
  then show ?case by simp
next
  case (Suc n)
  let ?p = "256 ^ n :: nat"
  have d: "x div ?p < 256" "y div ?p < 256"
    using Suc.prems by (simp_all add: less_mult_imp_div_less mult.commute)
  have xy: "x = x div ?p * ?p + x mod ?p" "y = y div ?p * ?p + y mod ?p"
    by (simp_all only: div_mult_mod_eq)
  have m: "x mod ?p < ?p" "y mod ?p < ?p" by simp_all
  have hd: "(of_nat (x div ?p) :: u8) < of_nat (y div ?p) \<longleftrightarrow> x div ?p < y div ?p"
    "(of_nat (x div ?p) :: u8) = of_nat (y div ?p) \<longleftrightarrow> x div ?p = y div ?p"
    using d by (simp_all add: word_less_nat_alt word_unat_eq_iff)
  have "x < y \<longleftrightarrow> x div ?p < y div ?p \<or> x div ?p = y div ?p \<and> x mod ?p < y mod ?p"
  proof (cases "x div ?p = y div ?p")
    case True
    then show ?thesis using xy by (metis add_less_cancel_left less_irrefl)
  next
    case False
    then show ?thesis by (metis div_le_mono linorder_neqE_nat not_le order.asym)
  qed
  with Suc.IH [OF m] hd show ?case by simp
qed

lemma nat_to_be_inject:
  "x < 256 ^ n \<Longrightarrow> y < 256 ^ n \<Longrightarrow> nat_to_be n x = nat_to_be n y \<longleftrightarrow> x = y"
  using nat_to_be_less [of x n y] nat_to_be_less [of y n x] by (metis less_irrefl linorder_neqE_nat)

definition u16_to_le :: "u16 \<Rightarrow> bytes" where "u16_to_le w = nat_to_le 2 (unat w)"
definition u32_to_le :: "u32 \<Rightarrow> bytes" where "u32_to_le w = nat_to_le 4 (unat w)"
definition u64_to_le :: "u64 \<Rightarrow> bytes" where "u64_to_le w = nat_to_le 8 (unat w)"
definition u64_to_be :: "u64 \<Rightarrow> bytes" where "u64_to_be w = nat_to_be 8 (unat w)"
definition uuid_as_bytes :: "uuid \<Rightarrow> bytes" where "uuid_as_bytes w = nat_to_be 16 (unat w)"

definition u16_from_le :: "bytes \<Rightarrow> u16" where "u16_from_le bs = of_nat (le_to_nat bs)"
definition u32_from_le :: "bytes \<Rightarrow> u32" where "u32_from_le bs = of_nat (le_to_nat bs)"
definition u64_from_le :: "bytes \<Rightarrow> u64" where "u64_from_le bs = of_nat (le_to_nat bs)"

lemma length_to_le [simp, byte_simps]:
  "length (u16_to_le w2) = 2"
  "length (u32_to_le w4) = 4"
  "length (u64_to_le w8) = 8"
  "length (u64_to_be w8) = 8"
  "length (uuid_as_bytes w16) = 16"
  by (simp_all add: u16_to_le_def u32_to_le_def u64_to_le_def u64_to_be_def uuid_as_bytes_def)

lemma from_to_le [simp, byte_simps]:
  "u16_from_le (u16_to_le w2) = w2"
  "u32_from_le (u32_to_le w4) = w4"
  "u64_from_le (u64_to_le w8) = w8"
  using unat_bounds
  by (simp_all add: u16_from_le_def u16_to_le_def u32_from_le_def u32_to_le_def
      u64_from_le_def u64_to_le_def le_to_nat_to_le)

lemma to_from_le [byte_simps]:
  "length bs = 2 \<Longrightarrow> u16_to_le (u16_from_le bs) = bs"
  "length bs = 4 \<Longrightarrow> u32_to_le (u32_from_le bs) = bs"
  "length bs = 8 \<Longrightarrow> u64_to_le (u64_from_le bs) = bs"
  using le_to_nat_less [of bs]
  by (simp_all add: u16_from_le_def u16_to_le_def u32_from_le_def u32_to_le_def
      u64_from_le_def u64_to_le_def unat_of_nat nat_to_le_to_nat)

lemma u64_to_be_less: "u64_to_be a < u64_to_be b \<longleftrightarrow> a < b"
  using unat_bounds(3) [of a] unat_bounds(3) [of b]
  by (simp add: u64_to_be_def nat_to_be_less word_less_nat_alt)

lemma uuid_as_bytes_less: "uuid_as_bytes a < uuid_as_bytes b \<longleftrightarrow> a < b"
  using unat_bounds(4) [of a] unat_bounds(4) [of b]
  by (simp add: uuid_as_bytes_def nat_to_be_less word_less_nat_alt)

lemma u64_to_be_inject [simp]: "u64_to_be a = u64_to_be b \<longleftrightarrow> a = b"
  using u64_to_be_less by (metis less_irrefl linorder_less_linear)

lemma uuid_as_bytes_inject [simp]: "uuid_as_bytes a = uuid_as_bytes b \<longleftrightarrow> a = b"
  using uuid_as_bytes_less by (metis less_irrefl linorder_less_linear)

text \<open>The bytes of a string, and that their order is the string's.\<close>

definition as_bytes :: "string \<Rightarrow> bytes" where
  "as_bytes s = map (\<lambda>c. of_nat (of_char c)) s"

lemma of_char_u8_less: "(of_nat (of_char c) :: u8) < of_nat (of_char d) \<longleftrightarrow> c < d"
  by (simp only: word_less_nat_alt unat_of_nat_u8 of_char_mod_256 less_char_def)

lemma of_char_u8_inject: "(of_nat (of_char c) :: u8) = of_nat (of_char d) \<longleftrightarrow> c = d"
  using of_char_u8_less by (metis less_irrefl linorder_less_linear)

lemma as_bytes_less: "as_bytes s < as_bytes t \<longleftrightarrow> s < t"
  unfolding as_bytes_def
proof (induction s arbitrary: t)
  case Nil
  then show ?case by (cases t) simp_all
next
  case (Cons c s)
  then show ?case by (cases t) (simp_all only: list.map Cons_less_Cons Nil_less_Cons of_char_u8_less
      of_char_u8_inject not_less_Nil)
qed

lemma as_bytes_inject [simp]: "as_bytes s = as_bytes t \<longleftrightarrow> s = t"
  using as_bytes_less by (metis less_irrefl linorder_less_linear)

section \<open>Slices\<close>

text \<open>\<^verbatim>\<open>xs.get(a..b)\<close> and an in-place \<^verbatim>\<open>copy_from_slice\<close> at \<^verbatim>\<open>a\<close> (bounds checked by the caller).\<close>

definition slice_get :: "'a list \<Rightarrow> nat \<Rightarrow> nat \<Rightarrow> 'a list option" where
  "slice_get xs a b = (if a \<le> b \<and> b \<le> length xs then Some (take (b - a) (drop a xs)) else None)"

definition elem_get :: "'a list \<Rightarrow> nat \<Rightarrow> 'a option" where
  "elem_get xs i = (if i < length xs then Some (xs ! i) else None)"

definition overwrite :: "'a list \<Rightarrow> nat \<Rightarrow> 'a list \<Rightarrow> 'a list" where
  "overwrite xs a ys = take a xs @ ys @ drop (a + length ys) xs"

text \<open>\<^verbatim>\<open>xs.get_mut(a..b).ok_or(e)?.copy_from_slice(ys)\<close>, where \<open>b - a\<close> is the length of \<open>ys\<close>.\<close>

definition copy_at :: "error_code \<Rightarrow> 'a list \<Rightarrow> nat \<Rightarrow> 'a list \<Rightarrow> 'a list result" where
  "copy_at e xs a ys = (if a + length ys \<le> length xs then Inr (overwrite xs a ys) else Inl e)"

lemma length_overwrite [simp, slice_simps]:
  "a + length ys \<le> length xs \<Longrightarrow> length (overwrite xs a ys) = length xs"
  by (simp add: overwrite_def)

lemma nth_overwrite:
  "a + length ys \<le> length xs \<Longrightarrow> i < length xs \<Longrightarrow>
   overwrite xs a ys ! i = (if a \<le> i \<and> i < a + length ys then ys ! (i - a) else xs ! i)"
  by (auto simp: overwrite_def nth_append)

lemma slice_get_Some [slice_simps]:
  "a \<le> b \<Longrightarrow> b \<le> length xs \<Longrightarrow> slice_get xs a b = Some (take (b - a) (drop a xs))"
  by (simp add: slice_get_def)

lemma slice_get_eqI:
  assumes "b = a + length ys" and "b \<le> length xs"
    and "\<And>i. i < length ys \<Longrightarrow> xs ! (a + i) = ys ! i"
  shows "slice_get xs a b = Some ys"
  using assms by (auto simp: slice_get_def intro: nth_equalityI)

lemma slice_get_overwrite_same [slice_simps]:
  "a + length ys \<le> length xs \<Longrightarrow> slice_get (overwrite xs a ys) a (a + length ys) = Some ys"
  by (rule slice_get_eqI) (simp_all add: nth_overwrite)

lemma slice_get_overwrite_disjoint [slice_simps]:
  assumes "a + length ys \<le> length xs" and "d \<le> a \<or> a + length ys \<le> c" and "d \<le> length xs"
  shows "slice_get (overwrite xs a ys) c d = slice_get xs c d"
proof (cases "c \<le> d")
  case True
  then have "take (d - c) (drop c (overwrite xs a ys)) = take (d - c) (drop c xs)"
    using assms by (intro nth_equalityI) (auto simp: nth_overwrite)
  with True assms show ?thesis by (simp add: slice_get_def)
qed (simp add: slice_get_def)

lemma slice_get_append:
  "a = length xs \<Longrightarrow> b = a + length ys \<Longrightarrow> slice_get (xs @ ys @ zs) a b = Some ys"
  by (simp add: slice_get_def)

end
