(* ===== verification/Graph_Types.thy ===== *)
theory Graph_Types
  imports Prelude
begin

text \<open>
  The entity-attribute-value model of \<^verbatim>\<open>src/graph/types.rs\<close>: values with their equality, hash
  and total order, facts with transaction and valid time, and the fact constructors.
  Main results: \<^verbatim>\<open>Ord for Value\<close> is a total preorder whose equivalence is equality of values
  except that all NaNs are equivalent, and values that are equal hash alike.
\<close>

section \<open>Values\<close>

datatype value_t =
    VString string
  | VInteger i64
  | VFloat f64
  | VBoolean bool
  | VRef uuid
  | VKeyword string
  | VNull

text \<open>\<^verbatim>\<open>#[derive(PartialEq)]\<close>: structural, with IEEE equality on floats.\<close>

fun value_eq :: "value_t \<Rightarrow> value_t \<Rightarrow> bool" where
  "value_eq (VString a) (VString b) = (a = b)"
| "value_eq (VInteger a) (VInteger b) = (a = b)"
| "value_eq (VFloat a) (VFloat b) = f64_eq a b"
| "value_eq (VBoolean a) (VBoolean b) = (a = b)"
| "value_eq (VRef a) (VRef b) = (a = b)"
| "value_eq (VKeyword a) (VKeyword b) = (a = b)"
| "value_eq VNull VNull = True"
| "value_eq _ _ = False"

datatype ordering = Less | Equal | Greater

definition cmp_of :: "'a :: linorder \<Rightarrow> 'a \<Rightarrow> ordering" where
  "cmp_of a b = (if a < b then Less else if a = b then Equal else Greater)"

fun discriminant :: "value_t \<Rightarrow> nat" where
  "discriminant (VString _) = 0"
| "discriminant (VInteger _) = 1"
| "discriminant (VFloat _) = 2"
| "discriminant (VBoolean _) = 3"
| "discriminant (VRef _) = 4"
| "discriminant (VKeyword _) = 5"
| "discriminant VNull = 6"

text \<open>The float arm: NaN is greater than every other float and equal to itself.\<close>

definition f64_cmp :: "f64 \<Rightarrow> f64 \<Rightarrow> ordering" where
  "f64_cmp a b =
     (if is_nan a \<and> is_nan b then Equal
      else if is_nan a then Greater
      else if is_nan b then Less
      else cmp_of (f64_num a) (f64_num b))"

fun value_cmp :: "value_t \<Rightarrow> value_t \<Rightarrow> ordering" where
  "value_cmp (VString a) (VString b) = cmp_of a b"
| "value_cmp (VInteger a) (VInteger b) = cmp_of a b"
| "value_cmp (VFloat a) (VFloat b) = f64_cmp a b"
| "value_cmp (VBoolean a) (VBoolean b) = cmp_of a b"
| "value_cmp (VRef a) (VRef b) = cmp_of a b"
| "value_cmp (VKeyword a) (VKeyword b) = cmp_of a b"
| "value_cmp VNull VNull = Equal"
| "value_cmp a b = cmp_of (discriminant a) (discriminant b)"

text \<open>
  \<^verbatim>\<open>impl Hash for Value\<close>: the words fed to the hasher, in order. A hasher is a function of
  this sequence, so two values hash alike under every hasher iff their sequences agree.
\<close>

datatype hash_item = HDisc nat | HBytes string | HI64 i64 | HU8 nat | HU64 u64 | HBool bool | HUuid uuid

definition f64_neg :: "f64 \<Rightarrow> f64" where
  "f64_neg f = F64 (to_bits f XOR 0x8000000000000000)"

fun value_hash :: "value_t \<Rightarrow> hash_item list" where
  "value_hash (VString s) = [HDisc 0, HBytes s]"
| "value_hash (VInteger i) = [HDisc 1, HI64 i]"
| "value_hash (VFloat f) =
     HDisc 2 #
     (if is_nan f then [HU8 0]
      else if f64_num f = 0 then [HU8 2, HU64 0]
      else if is_sign_negative f then [HU8 1, HU64 (to_bits (f64_neg f))]
      else [HU8 2, HU64 (to_bits f)])"
| "value_hash (VBoolean b) = [HDisc 3, HBool b]"
| "value_hash (VRef r) = [HDisc 4, HUuid r]"
| "value_hash (VKeyword k) = [HDisc 5, HBytes k]"
| "value_hash VNull = [HDisc 6]"

text \<open>The accessors of \<^verbatim>\<open>impl Value\<close>.\<close>

fun as_string :: "value_t \<Rightarrow> string option" where
  "as_string (VString s) = Some s"
| "as_string _ = None"

fun as_integer :: "value_t \<Rightarrow> i64 option" where
  "as_integer (VInteger i) = Some i"
| "as_integer _ = None"

fun as_float :: "value_t \<Rightarrow> f64 option" where
  "as_float (VFloat f) = Some f"
| "as_float _ = None"

fun as_boolean :: "value_t \<Rightarrow> bool option" where
  "as_boolean (VBoolean b) = Some b"
| "as_boolean _ = None"

fun value_as_ref :: "value_t \<Rightarrow> uuid option" where
  "value_as_ref (VRef r) = Some r"
| "value_as_ref _ = None"

fun value_as_keyword :: "value_t \<Rightarrow> string option" where
  "value_as_keyword (VKeyword k) = Some k"
| "value_as_keyword _ = None"

definition is_null :: "value_t \<Rightarrow> bool" where
  "is_null v = (v = VNull)"

section \<open>Facts\<close>

definition VALID_TIME_FOREVER :: i64 where
  "VALID_TIME_FOREVER = i64_MAX"

record fact =
  entity :: uuid
  attribute :: string
  val :: value_t
  tx_id :: u64
  tx_count :: u64
  valid_from :: i64
  valid_to :: i64
  asserted :: bool

definition fact_new :: "uuid \<Rightarrow> string \<Rightarrow> value_t \<Rightarrow> u64 \<Rightarrow> fact" where
  "fact_new e a v tx =
     \<lparr>entity = e, attribute = a, val = v, tx_id = tx, tx_count = 0,
      valid_from = i64_from_u64_or_max tx, valid_to = VALID_TIME_FOREVER, asserted = True\<rparr>"

definition fact_with_valid_time ::
    "uuid \<Rightarrow> string \<Rightarrow> value_t \<Rightarrow> u64 \<Rightarrow> u64 \<Rightarrow> i64 \<Rightarrow> i64 \<Rightarrow> fact" where
  "fact_with_valid_time e a v tx txc vf vt =
     \<lparr>entity = e, attribute = a, val = v, tx_id = tx, tx_count = txc,
      valid_from = vf, valid_to = vt, asserted = True\<rparr>"

definition fact_retract :: "uuid \<Rightarrow> string \<Rightarrow> value_t \<Rightarrow> u64 \<Rightarrow> fact" where
  "fact_retract e a v tx =
     \<lparr>entity = e, attribute = a, val = v, tx_id = tx, tx_count = 0,
      valid_from = i64_from_u64_or_max tx, valid_to = VALID_TIME_FOREVER, asserted = False\<rparr>"

definition is_asserted :: "fact \<Rightarrow> bool" where
  "is_asserted f = asserted f"

record transact_options =
  opt_valid_from :: "i64 option"
  opt_valid_to :: "i64 option"

definition default_options :: transact_options where
  "default_options = \<lparr>opt_valid_from = None, opt_valid_to = None\<rparr>"

section \<open>The order on values\<close>

fun rev_ordering :: "ordering \<Rightarrow> ordering" where
  "rev_ordering Less = Greater"
| "rev_ordering Equal = Equal"
| "rev_ordering Greater = Less"

lemma cmp_of_simps [simp]:
  "cmp_of a b = Less \<longleftrightarrow> a < b"
  "cmp_of a b = Equal \<longleftrightarrow> a = b"
  "cmp_of a b = Greater \<longleftrightarrow> b < a"
  by (auto simp: cmp_of_def)

lemma cmp_of_rev: "cmp_of b a = rev_ordering (cmp_of a b)"
  by (auto simp: cmp_of_def)

text \<open>
  The order is read off a key: the discriminant, then a component per variant. NaN gets the
  number \<open>2 ^ 63\<close>, above every float's.
\<close>

definition f64_cmp_key :: "f64 \<Rightarrow> int" where
  "f64_cmp_key f = (if is_nan f then 2 ^ 63 else f64_num f)"

lemma f64_num_less: "f64_num f < 2 ^ 63"
proof -
  have "uint (to_bits f) < 2 ^ 63" if "\<not> is_sign_negative f"
    using that by (simp add: is_sign_negative_def word_le_def)
  moreover have "2 ^ 63 \<le> uint (to_bits f)" if "is_sign_negative f"
    using that by (simp add: is_sign_negative_def word_le_def)
  ultimately show ?thesis by (cases "is_sign_negative f") (simp_all add: f64_num_def)
qed

lemma f64_cmp_key: "f64_cmp a b = cmp_of (f64_cmp_key a) (f64_cmp_key b)"
  using f64_num_less [of a] f64_num_less [of b]
  by (auto simp: f64_cmp_def f64_cmp_key_def cmp_of_def)

definition value_key :: "value_t \<Rightarrow> nat \<times> string \<times> int \<times> uuid" where
  "value_key v =
     (discriminant v,
      case v of VString s \<Rightarrow> s | VKeyword k \<Rightarrow> k | _ \<Rightarrow> [],
      case v of VInteger i \<Rightarrow> i64_val i | VFloat f \<Rightarrow> f64_cmp_key f
        | VBoolean b \<Rightarrow> (if b then 1 else 0) | _ \<Rightarrow> 0,
      case v of VRef r \<Rightarrow> r | _ \<Rightarrow> 0)"

lemma value_cmp_key: "value_cmp a b = cmp_of (value_key a) (value_key b)"
  by (cases a; cases b)
     (auto simp: value_key_def f64_cmp_key cmp_of_def less_i64_def i64_val_inject less_bool_def)

lemma value_key_eq_iff:
  "value_key a = value_key b \<longleftrightarrow>
     a = b \<or> (\<exists>f g. a = VFloat f \<and> b = VFloat g \<and> f64_cmp_key f = f64_cmp_key g)"
  by (cases a; cases b) (auto simp: value_key_def i64_val_inject)

lemma f64_cmp_key_eq_iff:
  "f64_cmp_key f = f64_cmp_key g \<longleftrightarrow> f64_eq f g \<or> is_nan f \<and> is_nan g"
  using f64_num_less [of f] f64_num_less [of g] by (auto simp: f64_cmp_key_def f64_eq_def)

lemma value_eq_refl_iff: "value_eq a a \<longleftrightarrow> \<not> (\<exists>f. a = VFloat f \<and> is_nan f)"
  by (cases a) (auto simp: f64_eq_def)

lemma value_eq_iff:
  "value_eq a b \<longleftrightarrow>
     (\<exists>f g. a = VFloat f \<and> b = VFloat g \<and> f64_eq f g) \<or> a = b \<and> (\<forall>f. a \<noteq> VFloat f)"
  by (cases a; cases b) auto

text \<open>
  \<^verbatim>\<open>Ord for Value\<close> is a total order up to its own \<open>Equal\<close>: comparing is reflexive, swapping
  the arguments reverses the result (so any two values are comparable), and
  less-or-equal is transitive. Sorted runs, binary search and \<^verbatim>\<open>BTreeMap\<close> rely on it.
\<close>

lemma value_cmp_total_order:
  "value_cmp a a = Equal \<and> value_cmp b a = rev_ordering (value_cmp a b) \<and>
   (value_cmp a b \<noteq> Greater \<longrightarrow> value_cmp b c \<noteq> Greater \<longrightarrow> value_cmp a c \<noteq> Greater)"
  using cmp_of_rev [of "value_key b" "value_key a"]
  by (auto simp: value_cmp_key not_less intro: order_trans)

text \<open>
  \<open>value_cmp\<close> answers \<open>Equal\<close> exactly on values that are \<^verbatim>\<open>==\<close> and on two NaNs. So the
  order agrees with equality on every value but NaN, where \<^verbatim>\<open>==\<close> is not even reflexive
  although the type claims \<^verbatim>\<open>Eq\<close>.
\<close>

lemma value_cmp_Equal_iff:
  "value_cmp a b = Equal \<longleftrightarrow>
     value_eq a b \<or> (\<exists>f g. a = VFloat f \<and> b = VFloat g \<and> is_nan f \<and> is_nan g)"
  by (auto simp: value_cmp_key value_key_eq_iff f64_cmp_key_eq_iff value_eq_iff f64_eq_def)

section \<open>Hashing\<close>

lemma f64_num_sign:
  "is_sign_negative f \<Longrightarrow> f64_num f \<le> 0"
  "\<not> is_sign_negative f \<Longrightarrow> 0 \<le> f64_num f"
  by (auto simp: f64_num_def is_sign_negative_def word_le_def)

lemma f64_num_inject:
  assumes "f64_num f = f64_num g" and "f64_num f \<noteq> 0"
  shows "f = g"
proof -
  have sign: "is_sign_negative f = is_sign_negative g"
    using assms f64_num_sign [of f] f64_num_sign [of g] by linarith
  with assms have "uint (to_bits f) = uint (to_bits g)"
    by (simp add: f64_num_def split: if_splits)
  then show ?thesis by (cases f; cases g) (simp add: word_uint_eq_iff)
qed

text \<open>
  Values that are \<^verbatim>\<open>==\<close> feed the hasher the same words (the contract between \<^verbatim>\<open>Hash\<close> and
  \<^verbatim>\<open>Eq\<close> that \<^verbatim>\<open>HashMap\<close> joins rely on), including \<open>0.0\<close> and \<open>-0.0\<close>.
\<close>

lemma value_eq_imp_hash_eq:
  assumes "value_eq a b"
  shows "value_hash a = value_hash b"
proof -
  consider (float) f g where "a = VFloat f" "b = VFloat g" "f64_eq f g" | (same) "a = b"
    using assms by (auto simp: value_eq_iff)
  then show ?thesis
  proof cases
    case float
    then have n: "f64_num f = f64_num g" "\<not> is_nan f" "\<not> is_nan g"
      by (simp_all add: f64_eq_def)
    show ?thesis
    proof (cases "f64_num f = 0")
      case True
      with n float show ?thesis by simp
    next
      case False
      with n have "f = g" by (intro f64_num_inject)
      with float show ?thesis by simp
    qed
  qed simp
qed

end
