(* ===== verification/Ordered_Map.thy ===== *)
theory Ordered_Map
  imports Prelude
begin

text \<open>
  The standard library's \<^verbatim>\<open>BTreeMap<K, V>\<close> as the components use it: \<^verbatim>\<open>insert\<close>, \<^verbatim>\<open>get\<close>,
  \<^verbatim>\<open>is_empty\<close>, \<^verbatim>\<open>len\<close>, in-order iteration and bounded \<^verbatim>\<open>range\<close>. A map is its in-order entry
  list, strictly ascending by key. The locale states the contract that the index code
  relies on, and the interpretation discharges it for the entry lists.
\<close>

type_synonym ('k, 'v) btreemap = "('k \<times> 'v) list"

definition ascending :: "('k :: linorder, 'v) btreemap \<Rightarrow> bool" where
  "ascending m \<longleftrightarrow> sorted_wrt (<) (map fst m)"

fun btm_insert :: "'k :: linorder \<Rightarrow> 'v \<Rightarrow> ('k, 'v) btreemap \<Rightarrow> ('k, 'v) btreemap" where
  "btm_insert k v [] = [(k, v)]"
| "btm_insert k v ((a, b) # m) =
     (if k < a then (k, v) # (a, b) # m
      else if k = a then (k, v) # m
      else (a, b) # btm_insert k v m)"

fun btm_get :: "('k :: linorder, 'v) btreemap \<Rightarrow> 'k \<Rightarrow> 'v option" where
  "btm_get [] k = None"
| "btm_get ((a, b) # m) k = (if k = a then Some b else btm_get m k)"

text \<open>
  \<^verbatim>\<open>range(a..b)\<close> panics when \<open>b < a\<close>; \<^verbatim>\<open>range(a..=b)\<close> panics then too; \<^verbatim>\<open>range(a..)\<close>
  never does. This is the documented behaviour; the library's implementation returns nothing
  for such a range of a map that never held an entry.
\<close>

definition btm_range :: "('k :: linorder, 'v) btreemap \<Rightarrow> 'k \<Rightarrow> 'k \<Rightarrow> ('k \<times> 'v) list result" where
  "btm_range m a b =
     (if b < a then Err Panic else Ok (filter (\<lambda>(k, v). a \<le> k \<and> k < b) m))"

definition btm_range_incl ::
    "('k :: linorder, 'v) btreemap \<Rightarrow> 'k \<Rightarrow> 'k \<Rightarrow> ('k \<times> 'v) list result" where
  "btm_range_incl m a b =
     (if b < a then Err Panic else Ok (filter (\<lambda>(k, v). a \<le> k \<and> k \<le> b) m))"

definition btm_range_from :: "('k :: linorder, 'v) btreemap \<Rightarrow> 'k \<Rightarrow> ('k \<times> 'v) list" where
  "btm_range_from m a = filter (\<lambda>(k, v). a \<le> k) m"

lemma ascending_Nil [simp]: "ascending []"
  by (simp add: ascending_def)

lemma ascending_Cons:
  "ascending ((k, v) # m) \<longleftrightarrow> (\<forall>(a, b) \<in> set m. k < a) \<and> ascending m"
  by (auto simp: ascending_def)

lemma set_btm_insert_subset: "set (btm_insert k v m) \<subseteq> insert (k, v) (set m)"
  by (induction m) (auto split: if_splits)

lemma ascending_btm_insert: "ascending m \<Longrightarrow> ascending (btm_insert k v m)"
proof (induction m)
  case Nil
  then show ?case by (simp add: ascending_def)
next
  case (Cons e m)
  obtain a b where e: "e = (a, b)" by (cases e)
  show ?case
  proof (cases "k \<le> a")
    case True
    with Cons.prems show ?thesis by (auto simp: e ascending_Cons)
  next
    case False
    with Cons show ?thesis
      using set_btm_insert_subset [of k v m] by (auto simp: e ascending_Cons)
  qed
qed

lemma btm_get_insert:
  "btm_get (btm_insert k v m) a = (if a = k then Some v else btm_get m a)"
  by (induction m) auto

lemma btm_get_in_set: "ascending m \<Longrightarrow> btm_get m k = Some v \<longleftrightarrow> (k, v) \<in> set m"
  by (induction m) (auto simp: ascending_Cons split: if_splits)

lemma set_btm_insert:
  "ascending m \<Longrightarrow> set (btm_insert k v m) = insert (k, v) {(a, b) \<in> set m. a \<noteq> k}"
  by (auto simp: btm_get_in_set [symmetric] ascending_btm_insert btm_get_insert split: if_splits)

lemma btm_insert_not_empty [simp]: "btm_insert k v m \<noteq> []"
  by (induction m) (auto split: if_splits)

lemma ascending_filter: "ascending m \<Longrightarrow> ascending (filter P m)"
  unfolding ascending_def by (induction m) auto

lemma ascending_distinct_keys: "ascending m \<Longrightarrow> distinct (map fst m)"
  unfolding ascending_def by (induction m) auto

text \<open>
  The contract: lookups after an insertion, the invariant, and that a range returns exactly
  the entries between its bounds, each key once and in order.
\<close>

locale ordered_map =
  fixes empty :: 'm
    and insert :: "'k :: linorder \<Rightarrow> 'v \<Rightarrow> 'm \<Rightarrow> 'm"
    and get :: "'m \<Rightarrow> 'k \<Rightarrow> 'v option"
    and range_from :: "'m \<Rightarrow> 'k \<Rightarrow> ('k \<times> 'v) list"
    and invar :: "'m \<Rightarrow> bool"
  assumes get_empty: "get empty k = None"
    and get_insert: "invar m \<Longrightarrow> get (insert k v m) a = (if a = k then Some v else get m a)"
    and invar_empty: "invar empty"
    and invar_insert: "invar m \<Longrightarrow> invar (insert k v m)"
    and range_from_sorted: "invar m \<Longrightarrow> sorted_wrt (<) (map fst (range_from m a))"
    and range_from_set: "invar m \<Longrightarrow> set (range_from m a) = {(k, v). get m k = Some v \<and> a \<le> k}"
begin

text \<open>A map filled from a list of entries holds, for each key, the last one inserted.\<close>

lemma invar_fold: "invar m \<Longrightarrow> invar (fold (\<lambda>(k, v). insert k v) xs m)"
  by (induction xs arbitrary: m) (auto simp: invar_insert)

lemma get_fold:
  "invar m \<Longrightarrow> get (fold (\<lambda>(k, v). insert k v) xs m) a =
     (case map_of (rev xs) a of None \<Rightarrow> get m a | Some v \<Rightarrow> Some v)"
proof (induction xs arbitrary: m)
  case Nil
  then show ?case by simp
next
  case (Cons x xs)
  obtain k v where x: "x = (k, v)" by (cases x)
  have "invar (insert k v m)" using Cons.prems by (rule invar_insert)
  from Cons.IH [OF this] Cons.prems show ?case
    by (auto simp: x get_insert map_add_def split: option.splits)
qed

lemma get_fold_distinct:
  "distinct (map fst xs) \<Longrightarrow> (k, v) \<in> set xs \<Longrightarrow>
   get (fold (\<lambda>(k, v). insert k v) xs empty) k = Some v"
  using map_of_is_SomeI [of "rev xs" k v]
  by (simp add: get_fold invar_empty rev_map [symmetric])

end

interpretation btm: ordered_map "[]" btm_insert btm_get btm_range_from ascending
proof unfold_locales
  fix m :: "('k :: linorder, 'v) btreemap" and a
  show "ascending m \<Longrightarrow> sorted_wrt (<) (map fst (btm_range_from m a))"
    using ascending_filter [of m] by (simp add: btm_range_from_def ascending_def)
  show "ascending m \<Longrightarrow> set (btm_range_from m a) = {(k, v). btm_get m k = Some v \<and> a \<le> k}"
    by (auto simp: btm_range_from_def btm_get_in_set)
qed (simp_all add: btm_get_insert ascending_btm_insert)

text \<open>
  Walking \<^verbatim>\<open>range(a..)\<close> and stopping at the first key outside a block of keys visits exactly
  the block, when the block is convex from \<open>a\<close> on.
\<close>

lemma takeWhile_filter_block:
  assumes "ascending m"
    and "\<And>k k'. a \<le> k \<Longrightarrow> k < k' \<Longrightarrow> P k' \<Longrightarrow> P k"
  shows "takeWhile (\<lambda>(k, v). P k) (btm_range_from m a) = filter (\<lambda>(k, v). a \<le> k \<and> P k) m"
  using assms(1)
proof (induction m)
  case Nil
  then show ?case by (simp add: btm_range_from_def)
next
  case (Cons e m)
  obtain k v where e: "e = (k, v)" by (cases e)
  from Cons.prems have m: "ascending m" and lt: "\<forall>(k', v') \<in> set m. k < k'"
    by (auto simp: e ascending_Cons)
  show ?case
  proof (cases "a \<le> k \<and> \<not> P k")
    case True
    have "filter (\<lambda>(k, v). a \<le> k \<and> P k) m = []"
      using True lt assms(2) by (fastforce simp: filter_empty_conv)
    with True show ?thesis by (simp add: e btm_range_from_def)
  next
    case False
    with Cons.IH [OF m] show ?thesis by (auto simp: e btm_range_from_def)
  qed
qed

end
