(* ===== verification/Index.thy ===== *)
theory Index
  imports Graph_Types Ordered_Map
begin

unbundle bit_operations_syntax

text \<open>
  The canonical value encoding, the four index keys with their derived orders, and the
  in-memory covering indexes of \<^verbatim>\<open>src/storage/index.rs\<close>.
  Main results: the encoding orders non-NaN values as the comment promises and identifies
  exactly the NaNs (with one subnormal); the index lookups by attribute, attribute and
  value, and entity and attribute return exactly the entries they name.
\<close>

section \<open>Canonical value encoding\<close>

record fact_ref =
  page_id :: u64
  slot_index :: u32

definition encode_i64_bits :: "i64 \<Rightarrow> u64" where
  "encode_i64_bits n = cast_unsigned n XOR 0x8000000000000000"

definition encode_f64_bits :: "f64 \<Rightarrow> u64" where
  "encode_f64_bits f =
     (if is_nan f then 0x7FF8000000000000
      else let raw = to_bits f in
        if drop_bit 63 raw = 0 then raw XOR 0x8000000000000000 else NOT raw)"

fun encode_value :: "value_t \<Rightarrow> bytes" where
  "encode_value VNull = [0x00]"
| "encode_value (VBoolean b) = [0x01, if b then 1 else 0]"
| "encode_value (VInteger n) = 0x02 # u64_to_be (encode_i64_bits n)"
| "encode_value (VFloat f) = 0x03 # u64_to_be (encode_f64_bits f)"
| "encode_value (VString s) = 0x04 # as_bytes s"
| "encode_value (VKeyword k) = 0x05 # as_bytes k"
| "encode_value (VRef r) = 0x06 # uuid_as_bytes r"

section \<open>Index keys\<close>

record eavt_key =
  ek_entity :: uuid
  ek_attribute :: string
  ek_valid_from :: i64
  ek_valid_to :: i64
  ek_tx_count :: u64

record aevt_key =
  ae_attribute :: string
  ae_entity :: uuid
  ae_valid_from :: i64
  ae_valid_to :: i64
  ae_tx_count :: u64

record avet_key =
  av_attribute :: string
  av_value_bytes :: bytes
  av_valid_from :: i64
  av_valid_to :: i64
  av_entity :: uuid
  av_tx_count :: u64

record vaet_key =
  va_ref_target :: uuid
  va_attribute :: string
  va_valid_from :: i64
  va_valid_to :: i64
  va_source_entity :: uuid
  va_tx_count :: u64

text \<open>\<^verbatim>\<open>#[derive(PartialOrd, Ord)]\<close> compares the fields lexicographically in declaration order.\<close>

definition eavt_tuple :: "('z :: linorder) eavt_key_scheme \<Rightarrow> uuid \<times> string \<times> i64 \<times> i64 \<times> u64 \<times> 'z" where
  "eavt_tuple k = (ek_entity k, ek_attribute k, ek_valid_from k, ek_valid_to k, ek_tx_count k,
     eavt_key.more k)"

definition aevt_tuple :: "('z :: linorder) aevt_key_scheme \<Rightarrow> string \<times> uuid \<times> i64 \<times> i64 \<times> u64 \<times> 'z" where
  "aevt_tuple k = (ae_attribute k, ae_entity k, ae_valid_from k, ae_valid_to k, ae_tx_count k,
     aevt_key.more k)"

definition avet_tuple ::
    "('z :: linorder) avet_key_scheme \<Rightarrow> string \<times> bytes \<times> i64 \<times> i64 \<times> uuid \<times> u64 \<times> 'z" where
  "avet_tuple k = (av_attribute k, av_value_bytes k, av_valid_from k, av_valid_to k, av_entity k,
     av_tx_count k, avet_key.more k)"

definition vaet_tuple ::
    "('z :: linorder) vaet_key_scheme \<Rightarrow> uuid \<times> string \<times> i64 \<times> i64 \<times> uuid \<times> u64 \<times> 'z" where
  "vaet_tuple k = (va_ref_target k, va_attribute k, va_valid_from k, va_valid_to k,
     va_source_entity k, va_tx_count k, vaet_key.more k)"

lemma eavt_tuple_inject: "eavt_tuple a = eavt_tuple b \<longleftrightarrow> a = b"
  by (cases a; cases b) (auto simp: eavt_tuple_def)

lemma aevt_tuple_inject: "aevt_tuple a = aevt_tuple b \<longleftrightarrow> a = b"
  by (cases a; cases b) (auto simp: aevt_tuple_def)

lemma avet_tuple_inject: "avet_tuple a = avet_tuple b \<longleftrightarrow> a = b"
  by (cases a; cases b) (auto simp: avet_tuple_def)

lemma vaet_tuple_inject: "vaet_tuple a = vaet_tuple b \<longleftrightarrow> a = b"
  by (cases a; cases b) (auto simp: vaet_tuple_def)

instantiation eavt_key_ext :: (linorder) linorder
begin

definition less_eq_eavt_key_ext :: "'a eavt_key_scheme \<Rightarrow> 'a eavt_key_scheme \<Rightarrow> bool" where
  "a \<le> b \<longleftrightarrow> eavt_tuple a \<le> eavt_tuple b"

definition less_eavt_key_ext :: "'a eavt_key_scheme \<Rightarrow> 'a eavt_key_scheme \<Rightarrow> bool" where
  "a < b \<longleftrightarrow> eavt_tuple a < eavt_tuple b"

instance
  by standard (unfold less_eq_eavt_key_ext_def less_eavt_key_ext_def eavt_tuple_inject [symmetric],
      auto simp del: less_eq_prod_simp less_prod_simp)

end

instantiation aevt_key_ext :: (linorder) linorder
begin

definition less_eq_aevt_key_ext :: "'a aevt_key_scheme \<Rightarrow> 'a aevt_key_scheme \<Rightarrow> bool" where
  "a \<le> b \<longleftrightarrow> aevt_tuple a \<le> aevt_tuple b"

definition less_aevt_key_ext :: "'a aevt_key_scheme \<Rightarrow> 'a aevt_key_scheme \<Rightarrow> bool" where
  "a < b \<longleftrightarrow> aevt_tuple a < aevt_tuple b"

instance
  by standard (unfold less_eq_aevt_key_ext_def less_aevt_key_ext_def aevt_tuple_inject [symmetric],
      auto simp del: less_eq_prod_simp less_prod_simp)

end

instantiation avet_key_ext :: (linorder) linorder
begin

definition less_eq_avet_key_ext :: "'a avet_key_scheme \<Rightarrow> 'a avet_key_scheme \<Rightarrow> bool" where
  "a \<le> b \<longleftrightarrow> avet_tuple a \<le> avet_tuple b"

definition less_avet_key_ext :: "'a avet_key_scheme \<Rightarrow> 'a avet_key_scheme \<Rightarrow> bool" where
  "a < b \<longleftrightarrow> avet_tuple a < avet_tuple b"

instance
  by standard (unfold less_eq_avet_key_ext_def less_avet_key_ext_def avet_tuple_inject [symmetric],
      auto simp del: less_eq_prod_simp less_prod_simp)

end

instantiation vaet_key_ext :: (linorder) linorder
begin

definition less_eq_vaet_key_ext :: "'a vaet_key_scheme \<Rightarrow> 'a vaet_key_scheme \<Rightarrow> bool" where
  "a \<le> b \<longleftrightarrow> vaet_tuple a \<le> vaet_tuple b"

definition less_vaet_key_ext :: "'a vaet_key_scheme \<Rightarrow> 'a vaet_key_scheme \<Rightarrow> bool" where
  "a < b \<longleftrightarrow> vaet_tuple a < vaet_tuple b"

instance
  by standard (unfold less_eq_vaet_key_ext_def less_vaet_key_ext_def vaet_tuple_inject [symmetric],
      auto simp del: less_eq_prod_simp less_prod_simp)

end

section \<open>The four in-memory indexes\<close>

record indexes =
  eavt :: "(eavt_key, fact_ref) btreemap"
  aevt :: "(aevt_key, fact_ref) btreemap"
  avet :: "(avet_key, fact_ref) btreemap"
  vaet :: "(vaet_key, fact_ref) btreemap"

definition indexes_new :: indexes where
  "indexes_new = \<lparr>eavt = [], aevt = [], avet = [], vaet = []\<rparr>"

definition eavt_key_of :: "fact \<Rightarrow> eavt_key" where
  "eavt_key_of f =
     \<lparr>ek_entity = entity f, ek_attribute = attribute f, ek_valid_from = valid_from f,
      ek_valid_to = valid_to f, ek_tx_count = tx_count f\<rparr>"

definition aevt_key_of :: "fact \<Rightarrow> aevt_key" where
  "aevt_key_of f =
     \<lparr>ae_attribute = attribute f, ae_entity = entity f, ae_valid_from = valid_from f,
      ae_valid_to = valid_to f, ae_tx_count = tx_count f\<rparr>"

definition avet_key_of :: "fact \<Rightarrow> avet_key" where
  "avet_key_of f =
     \<lparr>av_attribute = attribute f, av_value_bytes = encode_value (val f),
      av_valid_from = valid_from f, av_valid_to = valid_to f, av_entity = entity f,
      av_tx_count = tx_count f\<rparr>"

definition vaet_key_of :: "uuid \<Rightarrow> fact \<Rightarrow> vaet_key" where
  "vaet_key_of target f =
     \<lparr>va_ref_target = target, va_attribute = attribute f, va_valid_from = valid_from f,
      va_valid_to = valid_to f, va_source_entity = entity f, va_tx_count = tx_count f\<rparr>"

definition indexes_insert :: "fact \<Rightarrow> fact_ref \<Rightarrow> indexes \<Rightarrow> indexes" where
  "indexes_insert f r ix =
     ix\<lparr>eavt := btm_insert (eavt_key_of f) r (eavt ix),
        aevt := btm_insert (aevt_key_of f) r (aevt ix),
        avet := btm_insert (avet_key_of f) r (avet ix),
        vaet := (case val f of
            VRef target \<Rightarrow> btm_insert (vaet_key_of target f) r (vaet ix)
          | _ \<Rightarrow> vaet ix)\<rparr>"

definition max_uuid :: uuid where
  "max_uuid = 0xFFFFFFFFFFFFFFFFFFFFFFFFFFFFFFFF"

definition lookup_eavt_entity :: "indexes \<Rightarrow> uuid \<Rightarrow> fact_ref list result" where
  "lookup_eavt_entity ix e =
     (let start = \<lparr>ek_entity = e, ek_attribute = [], ek_valid_from = i64_MIN,
                   ek_valid_to = i64_MIN, ek_tx_count = 0\<rparr>;
          end_k = \<lparr>ek_entity = e, ek_attribute = ''zzzzzzzzzzzzzzzzzz'', ek_valid_from = i64_MAX,
                   ek_valid_to = i64_MAX, ek_tx_count = u64_MAX\<rparr>
      in and_then (btm_range (eavt ix) start end_k) (\<lambda>es. Ok (map snd es)))"

definition lookup_eavt_entity_attr :: "indexes \<Rightarrow> uuid \<Rightarrow> string \<Rightarrow> fact_ref list result" where
  "lookup_eavt_entity_attr ix e a =
     (let start = \<lparr>ek_entity = e, ek_attribute = a, ek_valid_from = i64_MIN,
                   ek_valid_to = i64_MIN, ek_tx_count = 0\<rparr>;
          end_k = \<lparr>ek_entity = e, ek_attribute = a, ek_valid_from = i64_MAX,
                   ek_valid_to = i64_MAX, ek_tx_count = u64_MAX\<rparr>
      in and_then (btm_range_incl (eavt ix) start end_k) (\<lambda>es. Ok (map snd es)))"

definition lookup_aevt_attr :: "indexes \<Rightarrow> string \<Rightarrow> fact_ref list result" where
  "lookup_aevt_attr ix a =
     (let start = \<lparr>ae_attribute = a, ae_entity = 0, ae_valid_from = i64_MIN,
                   ae_valid_to = i64_MIN, ae_tx_count = 0\<rparr>;
          end_k = \<lparr>ae_attribute = a, ae_entity = max_uuid, ae_valid_from = i64_MAX,
                   ae_valid_to = i64_MAX, ae_tx_count = u64_MAX\<rparr>
      in and_then (btm_range_incl (aevt ix) start end_k) (\<lambda>es. Ok (map snd es)))"

definition lookup_avet_attr_value :: "indexes \<Rightarrow> string \<Rightarrow> value_t \<Rightarrow> fact_ref list result" where
  "lookup_avet_attr_value ix a v =
     (let start = \<lparr>av_attribute = a, av_value_bytes = encode_value v, av_valid_from = i64_MIN,
                   av_valid_to = i64_MIN, av_entity = 0, av_tx_count = 0\<rparr>;
          end_k = \<lparr>av_attribute = a, av_value_bytes = encode_value v, av_valid_from = i64_MAX,
                   av_valid_to = i64_MAX, av_entity = max_uuid, av_tx_count = u64_MAX\<rparr>
      in and_then (btm_range_incl (avet ix) start end_k) (\<lambda>es. Ok (map snd es)))"

text \<open>\<^verbatim>\<open>char::MAX\<close> (U+10FFFF) in UTF-8.\<close>

definition char_MAX_utf8 :: string where
  "char_MAX_utf8 = [CHR 0xF4, CHR 0x8F, CHR 0xBF, CHR 0xBF]"

definition lookup_vaet_ref :: "indexes \<Rightarrow> uuid \<Rightarrow> fact_ref list result" where
  "lookup_vaet_ref ix t =
     (let start = \<lparr>va_ref_target = t, va_attribute = [], va_valid_from = i64_MIN,
                   va_valid_to = i64_MIN, va_source_entity = 0, va_tx_count = 0\<rparr>;
          end_k = \<lparr>va_ref_target = t, va_attribute = char_MAX_utf8, va_valid_from = i64_MAX,
                   va_valid_to = i64_MAX, va_source_entity = max_uuid, va_tx_count = u64_MAX\<rparr>
      in and_then (btm_range_incl (vaet ix) start end_k) (\<lambda>es. Ok (map snd es)))"

section \<open>Order of the encoding\<close>

lemma uint_encode_i64_bits: "uint (encode_i64_bits n) = i64_val n + 2 ^ 63"
  by (simp add: encode_i64_bits_def i64_val_def uint_xor_top)

lemma drop_bit_63_eq_0: "drop_bit 63 (w :: u64) = 0 \<longleftrightarrow> w < 0x8000000000000000"
proof -
  have "unat (drop_bit 63 w) = unat w div 2 ^ 63"
    unfolding unat_drop_bit_eq by (rule drop_bit_eq_div)
  then have "drop_bit 63 w = 0 \<longleftrightarrow> unat w div 2 ^ 63 = 0"
    by (metis unat_0_iff)
  then show ?thesis
    by (simp add: div_eq_0_iff word_less_nat_alt)
qed

lemma uint_encode_f64_bits:
  assumes "\<not> is_nan f"
  shows "uint (encode_f64_bits f) = f64_total f + 2 ^ 63"
proof (cases "to_bits f < 0x8000000000000000")
  case True
  then have "sint (to_bits f) = uint (to_bits f)" by (simp add: sint_64)
  with True assms show ?thesis
    by (auto simp: encode_f64_bits_def drop_bit_63_eq_0 uint_xor_top f64_total_def
        is_sign_negative_def dest: leD)
next
  case False
  then have "0x8000000000000000 \<le> to_bits f" by simp
  with False assms show ?thesis
    by (simp add: encode_f64_bits_def drop_bit_63_eq_0 uint_not_64 f64_total_def
        is_sign_negative_def Let_def)
qed

lemma encode_i64_bits_less: "encode_i64_bits a < encode_i64_bits b \<longleftrightarrow> a < b"
  by (simp add: word_less_def uint_encode_i64_bits less_i64_def)

lemma encode_i64_bits_inject: "encode_i64_bits a = encode_i64_bits b \<longleftrightarrow> a = b"
  using encode_i64_bits_less by (metis less_irrefl linorder_less_linear)

lemma encode_f64_bits_less:
  "\<not> is_nan a \<Longrightarrow> \<not> is_nan b \<Longrightarrow> encode_f64_bits a < encode_f64_bits b \<longleftrightarrow> f64_total a < f64_total b"
  by (simp add: word_less_def uint_encode_f64_bits)

lemma f64_total_inject: "f64_total a = f64_total b \<longleftrightarrow> a = b"
proof -
  have "a = b" if eq: "f64_total a = f64_total b"
  proof -
    have s: "is_sign_negative f \<longleftrightarrow> f64_total f < 0" for f
      by (auto simp: f64_total_def is_sign_negative_def word_le_def)
    from eq have "is_sign_negative a = is_sign_negative b" by (simp add: s)
    with eq have "uint (to_bits a) = uint (to_bits b)"
      by (simp add: f64_total_def split: if_splits)
    then show ?thesis by (cases a; cases b) (simp add: word_uint_eq_iff)
  qed
  then show ?thesis by auto
qed

text \<open>
  The order of the encodings, as the comment of \<^verbatim>\<open>encode_value\<close> describes it: variants in the
  order of their type byte, and within a variant the order of its values (floats by
  \<^verbatim>\<open>total_cmp\<close>). It is not \<^verbatim>\<open>Ord for Value\<close>, which ranks the variants differently.
\<close>

fun enc_disc :: "value_t \<Rightarrow> nat" where
  "enc_disc VNull = 0"
| "enc_disc (VBoolean _) = 1"
| "enc_disc (VInteger _) = 2"
| "enc_disc (VFloat _) = 3"
| "enc_disc (VString _) = 4"
| "enc_disc (VKeyword _) = 5"
| "enc_disc (VRef _) = 6"

fun natural_less :: "value_t \<Rightarrow> value_t \<Rightarrow> bool" where
  "natural_less (VBoolean a) (VBoolean b) = (a < b)"
| "natural_less (VInteger a) (VInteger b) = (a < b)"
| "natural_less (VFloat a) (VFloat b) = (f64_total a < f64_total b)"
| "natural_less (VString a) (VString b) = (a < b)"
| "natural_less (VKeyword a) (VKeyword b) = (a < b)"
| "natural_less (VRef a) (VRef b) = (a < b)"
| "natural_less a b = (enc_disc a < enc_disc b)"

fun value_is_nan :: "value_t \<Rightarrow> bool" where
  "value_is_nan (VFloat f) = is_nan f"
| "value_is_nan _ = False"

lemma encode_value_order_aux:
  assumes "\<not> value_is_nan a" and "\<not> value_is_nan b"
  shows "encode_value a < encode_value b \<longleftrightarrow> natural_less a b"
  using assms
  by (cases a; cases b)
     (auto simp: u64_to_be_less encode_i64_bits_less encode_f64_bits_less as_bytes_less
       uuid_as_bytes_less less_bool_def)

text \<open>\<^verbatim>\<open>total_cmp\<close> refines the numeric order by putting \<open>-0.0\<close> below \<open>0.0\<close>.\<close>

lemma f64_total_num:
  "f64_total a < f64_total b \<longleftrightarrow> f64_num a < f64_num b \<or> a = F64 0x8000000000000000 \<and> b = F64 0"
proof -
  have neg: "is_sign_negative f \<longleftrightarrow> 2 ^ 63 \<le> uint (to_bits f)" for f by (simp add: is_sign_negative_def word_le_def)
  have zero: "f = F64 0 \<longleftrightarrow> uint (to_bits f) = 0" "f = F64 0x8000000000000000 \<longleftrightarrow> uint (to_bits f) = 2 ^ 63" for f
    by (cases f; simp add: word_uint_eq_iff)+
  have "(if 2 ^ 63 \<le> x then 2 ^ 63 - 1 - x else x) < (if 2 ^ 63 \<le> y then 2 ^ 63 - 1 - y else y) \<longleftrightarrow>
      (if 2 ^ 63 \<le> x then 2 ^ 63 - x else x) < (if 2 ^ 63 \<le> y then 2 ^ 63 - y else y) \<or> x = 2 ^ 63 \<and> y = 0"
    if "0 \<le> x" "0 \<le> y" for x y :: int using that by auto
  then show ?thesis unfolding f64_total_def f64_num_def neg zero by simp
qed

text \<open>\<^verbatim>\<open>Ord for Value\<close> puts strings before integers, the encoding after them.\<close>

lemma orders_differ: "encode_value (VInteger i) < encode_value (VString s)" "value_cmp (VString s) (VInteger i) = Less"
  by (simp_all add: encode_value_order_aux cmp_of_def)

text \<open>
  C39. On values other than NaN, byte-wise comparison of encodings puts values of different
  types in the order of the type bytes (nil, booleans, integers, floats, strings, keywords,
  references), and values of one type in the order of \<^verbatim>\<open>Ord for Value\<close>, except that \<open>-0.0\<close>,
  equal to \<open>0.0\<close> there, comes before it. Across types the two orders differ
  (\<open>orders_differ\<close>).
\<close>

theorem encode_value_preserves_order:
  assumes "\<not> value_is_nan a" and "\<not> value_is_nan b"
  shows "encode_value a < encode_value b \<longleftrightarrow>
    (if discriminant a = discriminant b
     then value_cmp a b = Less \<or> a = VFloat (F64 0x8000000000000000) \<and> b = VFloat (F64 0)
     else enc_disc a < enc_disc b)"
  unfolding encode_value_order_aux [OF assms]
  using assms by (cases a; cases b) (auto simp: cmp_of_def f64_cmp_def f64_total_num)

theorem encode_value_preserves_order_witness:
  "encode_value (VInteger (i64_of_int (- 5))) < encode_value (VInteger (i64_of_int 3)) \<and>
   encode_value (VInteger (i64_of_int 3)) < encode_value (VString '''') \<and>
   encode_value (VFloat (F64 0x8000000000000000)) < encode_value (VFloat (F64 0))"
proof -
  have "value_cmp (VInteger (i64_of_int (- 5))) (VInteger (i64_of_int 3)) = Less" by code_simp
  then show ?thesis by (simp add: encode_value_preserves_order is_nan_def del: encode_value.simps)
qed

fun nan_canonical :: "value_t \<Rightarrow> value_t" where
  "nan_canonical (VFloat f) = (if is_nan f then VFloat (F64 0x8007FFFFFFFFFFFF) else VFloat f)"
| "nan_canonical v = v"

lemma encode_nan_subnormal: "encode_f64_bits (F64 0x8007FFFFFFFFFFFF) = 0x7FF8000000000000"
  by (simp add: encode_f64_bits_def is_nan_def drop_bit_63_eq_0)

lemma encode_nan_canonical: "encode_value (nan_canonical v) = encode_value v"
  by (cases v) (simp_all add: encode_nan_subnormal, simp add: encode_f64_bits_def)

lemma nan_canonical_not_nan: "\<not> value_is_nan (nan_canonical v)"
  by (cases v) (simp_all add: is_nan_def)

lemma natural_less_linear: "a = b \<or> natural_less a b \<or> natural_less b a"
  by (cases a; cases b) (auto simp: f64_total_inject [symmetric])

text \<open>
  Two values share an encoding exactly when they are the same value once every NaN is read
  as the negative subnormal \<open>0x8007FFFFFFFFFFFF\<close>: all NaNs collapse onto that one number,
  and nothing else does (\<open>-0.0\<close> and \<open>0.0\<close> stay apart).
\<close>

lemma encode_value_eq_iff:
  "encode_value a = encode_value b \<longleftrightarrow> nan_canonical a = nan_canonical b"
proof
  assume eq: "encode_value a = encode_value b"
  let ?a = "nan_canonical a" and ?b = "nan_canonical b"
  have "\<not> natural_less ?a ?b" "\<not> natural_less ?b ?a"
    using eq encode_value_order_aux [of ?a ?b] encode_value_order_aux [of ?b ?a]
    by (simp_all add: nan_canonical_not_nan encode_nan_canonical)
  then show "?a = ?b" using natural_less_linear by blast
qed (metis encode_nan_canonical)

section \<open>Lookups in the in-memory indexes\<close>

lemma u64_le_MAX [simp]: "(x :: u64) \<le> u64_MAX"
  using unat_bounds(3) [of x] by (simp add: u64_MAX_def word_le_nat_alt)

lemma le_max_uuid [simp]: "x \<le> max_uuid"
  using unat_bounds(4) [of x] by (simp add: max_uuid_def word_le_nat_alt)

lemma extreme_iffs [simp]:
  "i64_MIN < n \<longleftrightarrow> n \<noteq> i64_MIN" "n < i64_MAX \<longleftrightarrow> n \<noteq> i64_MAX"
  "(x :: u64) < u64_MAX \<longleftrightarrow> x \<noteq> u64_MAX" "r < max_uuid \<longleftrightarrow> r \<noteq> max_uuid"
  by (auto simp: order.strict_iff_order)

lemma extreme_negs [simp]:
  "\<not> n < i64_MIN" "\<not> i64_MAX < n" "n \<le> i64_MIN \<longleftrightarrow> n = i64_MIN" "i64_MAX \<le> n \<longleftrightarrow> n = i64_MAX"
  by (auto simp: not_less intro: order_antisym)

lemma word_zero_less_iff [simp]: "0 < (x :: u64) \<longleftrightarrow> x \<noteq> 0" "0 < (r :: uuid) \<longleftrightarrow> r \<noteq> 0"
  by (simp_all add: word_neq_0_conv)

text \<open>
  A key lies between the bounds a lookup builds exactly when its leading fields are the
  ones looked up: the remaining fields of the bounds are the extremes of their types.
\<close>

lemma eavt_bounds:
  "\<lparr>ek_entity = e, ek_attribute = a, ek_valid_from = i64_MIN, ek_valid_to = i64_MIN,
    ek_tx_count = 0\<rparr> \<le> k \<and>
   k \<le> \<lparr>ek_entity = e, ek_attribute = a, ek_valid_from = i64_MAX, ek_valid_to = i64_MAX,
    ek_tx_count = u64_MAX\<rparr> \<longleftrightarrow> ek_entity k = e \<and> ek_attribute k = a"
  by (cases k) (auto simp: less_eq_eavt_key_ext_def eavt_tuple_def)

lemma aevt_bounds:
  "\<lparr>ae_attribute = a, ae_entity = 0, ae_valid_from = i64_MIN, ae_valid_to = i64_MIN,
    ae_tx_count = 0\<rparr> \<le> k \<and>
   k \<le> \<lparr>ae_attribute = a, ae_entity = max_uuid, ae_valid_from = i64_MAX, ae_valid_to = i64_MAX,
    ae_tx_count = u64_MAX\<rparr> \<longleftrightarrow> ae_attribute k = a"
  by (cases k) (auto simp: less_eq_aevt_key_ext_def aevt_tuple_def)

lemma avet_bounds:
  "\<lparr>av_attribute = a, av_value_bytes = bs, av_valid_from = i64_MIN, av_valid_to = i64_MIN,
    av_entity = 0, av_tx_count = 0\<rparr> \<le> k \<and>
   k \<le> \<lparr>av_attribute = a, av_value_bytes = bs, av_valid_from = i64_MAX, av_valid_to = i64_MAX,
    av_entity = max_uuid, av_tx_count = u64_MAX\<rparr> \<longleftrightarrow>
   av_attribute k = a \<and> av_value_bytes k = bs"
  by (cases k) (auto simp: less_eq_avet_key_ext_def avet_tuple_def)

lemmas key_order_defs =
  less_eq_eavt_key_ext_def less_eavt_key_ext_def eavt_tuple_def
  less_eq_aevt_key_ext_def less_aevt_key_ext_def aevt_tuple_def
  less_eq_avet_key_ext_def less_avet_key_ext_def avet_tuple_def
  less_eq_vaet_key_ext_def less_vaet_key_ext_def vaet_tuple_def

lemma lookup_eavt_entity_attr_eq:
  "lookup_eavt_entity_attr ix e a =
     Ok (map snd (filter (\<lambda>(k, r). ek_entity k = e \<and> ek_attribute k = a) (eavt ix)))"
  unfolding lookup_eavt_entity_attr_def Let_def btm_range_incl_def eavt_bounds
  by (simp add: key_order_defs)

lemma lookup_aevt_attr_eq:
  "lookup_aevt_attr ix a = Ok (map snd (filter (\<lambda>(k, r). ae_attribute k = a) (aevt ix)))"
  unfolding lookup_aevt_attr_def Let_def btm_range_incl_def aevt_bounds
  by (simp add: key_order_defs)

lemma lookup_avet_attr_value_eq:
  "lookup_avet_attr_value ix a v =
     Ok (map snd (filter (\<lambda>(k, r). av_attribute k = a \<and> av_value_bytes k = encode_value v) (avet ix)))"
  unfolding lookup_avet_attr_value_def Let_def btm_range_incl_def avet_bounds
  by (simp add: key_order_defs)

text \<open>The invariant of the four maps, kept by insertion.\<close>

definition indexes_inv :: "indexes \<Rightarrow> bool" where
  "indexes_inv ix \<longleftrightarrow> ascending (eavt ix) \<and> ascending (aevt ix) \<and> ascending (avet ix) \<and> ascending (vaet ix)"

lemma indexes_inv_new [simp]: "indexes_inv indexes_new"
  by (simp add: indexes_inv_def indexes_new_def)

lemma indexes_inv_insert: "indexes_inv ix \<Longrightarrow> indexes_inv (indexes_insert f r ix)"
  by (auto simp: indexes_inv_def indexes_insert_def ascending_btm_insert split: value_t.splits)

text \<open>
  After a fact is inserted, looking up its attribute and value in AVET finds its
  reference.
\<close>

lemma lookup_avet_after_insert:
  assumes "indexes_inv ix"
  shows "\<exists>refs. lookup_avet_attr_value (indexes_insert f r ix) (attribute f) (val f) = Ok refs \<and> r \<in> set refs"
proof -
  have "avet (indexes_insert f r ix) = btm_insert (avet_key_of f) r (avet ix)"
    by (simp add: indexes_insert_def)
  moreover have "(avet_key_of f, r) \<in> set (btm_insert (avet_key_of f) r (avet ix))"
    using assms by (simp add: set_btm_insert indexes_inv_def)
  ultimately show ?thesis
    by (force simp: lookup_avet_attr_value_eq avet_key_of_def)
qed

end
