(* ===== verification/Fact_Storage.thy ===== *)
theory Fact_Storage
  imports Index "HOL-Library.AList"
begin

text \<open>
  The in-memory fact store of \<^verbatim>\<open>src/graph/storage.rs\<close>: the append-only log with its duplicate
  set and pending indexes, the transaction counter, transact and retract, loading with
  duplicate suppression, the two temporal views (as-of and net-asserted) and the
  index-driven lookups.

  Every method of \<^verbatim>\<open>FactStorage\<close> takes the store's lock for its whole effect, so a method is
  one state-passing function; lock poisoning is not modelled. The wall clock
  (\<^verbatim>\<open>tx_id_now\<close>) is an argument \<open>now\<close>. The committed readers are trait objects: records of
  functions here, provided by the storage layer.
\<close>

section \<open>State\<close>

type_synonym pending_key = "uuid \<times> string \<times> bytes \<times> i64 \<times> i64 \<times> u64 \<times> bool"

definition pending_key :: "fact \<Rightarrow> pending_key" where
  "pending_key f =
     (entity f, attribute f, encode_value (val f), valid_from f, valid_to f, tx_count f, asserted f)"

text \<open>\<^verbatim>\<open>trait CommittedFactReader\<close> and \<^verbatim>\<open>trait CommittedIndexReader\<close>.\<close>

record fact_reader =
  resolve :: "fact_ref \<Rightarrow> fact result"
  stream_all :: "fact list result"
  committed_page_count :: u64

record index_reader =
  range_scan_eavt :: "eavt_key \<Rightarrow> eavt_key option \<Rightarrow> fact_ref list result"
  range_scan_aevt :: "aevt_key \<Rightarrow> aevt_key option \<Rightarrow> fact_ref list result"
  range_scan_avet :: "avet_key \<Rightarrow> avet_key option \<Rightarrow> fact_ref list result"
  range_scan_vaet :: "vaet_key \<Rightarrow> vaet_key option \<Rightarrow> fact_ref list result"

record fact_data =
  facts :: "fact list"
  pending_keys :: "pending_key set"
  pending_indexes :: indexes
  committed :: "fact_reader option"
  committed_index_reader :: "index_reader option"

record fact_storage =
  data :: fact_data
  tx_counter :: u64

definition fact_data_new :: fact_data where
  "fact_data_new =
     \<lparr>facts = [], pending_keys = {}, pending_indexes = indexes_new, committed = None,
      committed_index_reader = None\<rparr>"

definition fact_storage_new :: fact_storage where
  "fact_storage_new = \<lparr>data = fact_data_new, tx_counter = 0\<rparr>"

section \<open>Writing\<close>

definition pending_refs :: "nat \<Rightarrow> nat \<Rightarrow> fact_ref list result" where
  "pending_refs base count =
     collect_map (\<lambda>i.
       let pos = base + i in
       if pos \<le> u32_MAX then Ok \<lparr>page_id = 0, slot_index = of_nat pos\<rparr> else Err (Internal 45))
     [0..<count]"

text \<open>The loop shared by \<^verbatim>\<open>transact\<close>, \<^verbatim>\<open>transact_batch\<close> and \<^verbatim>\<open>retract\<close>: register and append.\<close>

definition register :: "fact_ref \<times> fact \<Rightarrow> fact_data \<Rightarrow> fact_data" where
  "register = (\<lambda>(r, f) d.
     d\<lparr>pending_keys := insert (pending_key f) (pending_keys d),
       pending_indexes := indexes_insert f r (pending_indexes d)\<rparr>)"

definition append_facts :: "fact list \<Rightarrow> fact_data \<Rightarrow> fact_data result" where
  "append_facts fs d =
     and_then (pending_refs (length (facts d)) (length fs)) (\<lambda>refs.
       let d' = fold register (zip refs fs) d in
       Ok (d'\<lparr>facts := facts d' @ fs\<rparr>))"

text \<open>
  \<^verbatim>\<open>fetch_add(1)\<close> wraps the counter; the value handed out saturates. The counter is claimed
  before the lock, so it advances even if appending then fails.
\<close>

definition next_tx_count :: "fact_storage \<Rightarrow> u64" where
  "next_tx_count s = u64_saturating_add (tx_counter s) 1"

definition allocate_tx_count :: "fact_storage \<Rightarrow> u64 \<times> fact_storage" where
  "allocate_tx_count s = (next_tx_count s, s\<lparr>tx_counter := tx_counter s + 1\<rparr>)"

definition assert_fact ::
    "u64 \<Rightarrow> u64 \<Rightarrow> transact_options \<Rightarrow> uuid \<Rightarrow> string \<Rightarrow> value_t \<Rightarrow> fact" where
  "assert_fact now txc opts e a v =
     fact_with_valid_time e a v now txc
       (case opt_valid_from opts of Some t \<Rightarrow> t | None \<Rightarrow> i64_from_u64_or_max now)
       (case opt_valid_to opts of Some t \<Rightarrow> t | None \<Rightarrow> VALID_TIME_FOREVER)"

definition transact ::
    "u64 \<Rightarrow> (uuid \<times> string \<times> value_t) list \<Rightarrow> transact_options option \<Rightarrow> fact_storage
     \<Rightarrow> u64 result \<times> fact_storage" where
  "transact now tuples opts s =
     (let (txc, s1) = allocate_tx_count s;
          o1 = (case opts of Some x \<Rightarrow> x | None \<Rightarrow> default_options);
          fs = map (\<lambda>(e, a, v). assert_fact now txc o1 e a v) tuples
      in case append_facts fs (data s1) of
           Inl err \<Rightarrow> (Err err, s1)
         | Inr d \<Rightarrow> (Ok now, s1\<lparr>data := d\<rparr>))"

definition transact_batch ::
    "u64 \<Rightarrow> (uuid \<times> string \<times> value_t \<times> transact_options option) list \<Rightarrow> transact_options option
     \<Rightarrow> fact_storage \<Rightarrow> (u64 \<times> u64) result \<times> fact_storage" where
  "transact_batch now tuples opts s =
     (let (txc, s1) = allocate_tx_count s;
          dflt = (case opts of Some x \<Rightarrow> x | None \<Rightarrow> default_options);
          fs = map (\<lambda>(e, a, v, per_fact).
                 assert_fact now txc (case per_fact of Some x \<Rightarrow> x | None \<Rightarrow> dflt) e a v) tuples
      in case append_facts fs (data s1) of
           Inl err \<Rightarrow> (Err err, s1)
         | Inr d \<Rightarrow> (Ok (now, txc), s1\<lparr>data := d\<rparr>))"

definition retract ::
    "u64 \<Rightarrow> (uuid \<times> string \<times> value_t) list \<Rightarrow> fact_storage
     \<Rightarrow> (u64 \<times> u64) result \<times> fact_storage" where
  "retract now tuples s =
     (let (txc, s1) = allocate_tx_count s;
          fs = map (\<lambda>(e, a, v). (fact_retract e a v now)\<lparr>tx_count := txc\<rparr>) tuples
      in case append_facts fs (data s1) of
           Inl err \<Rightarrow> (Err err, s1)
         | Inr d \<Rightarrow> (Ok (now, txc), s1\<lparr>data := d\<rparr>))"

definition load_fact :: "fact \<Rightarrow> fact_storage \<Rightarrow> bool result \<times> fact_storage" where
  "load_fact f s =
     (let d = data s in
      if pending_key f \<in> pending_keys d then (Ok False, s)
      else case pending_refs (length (facts d)) 1 of
             Inl err \<Rightarrow> (Err err, s)
           | Inr [] \<Rightarrow> (Err (Internal 45), s)
           | Inr (r # rs) \<Rightarrow>
               (let r' = last (r # rs); d' = register (r', f) d
                in (Ok True, s\<lparr>data := d'\<lparr>facts := facts d' @ [f]\<rparr>\<rparr>)))"

text \<open>The facts a batch really adds: new keys only, each key once, in order.\<close>

fun new_facts :: "pending_key set \<Rightarrow> fact list \<Rightarrow> fact list" where
  "new_facts seen [] = []"
| "new_facts seen (f # fs) =
     (if pending_key f \<in> seen then new_facts seen fs
      else f # new_facts (insert (pending_key f) seen) fs)"

definition load_facts :: "fact list \<Rightarrow> fact_storage \<Rightarrow> nat result \<times> fact_storage" where
  "load_facts fs s =
     (let d = data s; new = new_facts (pending_keys d) fs in
      case pending_refs (length (facts d)) (length new) of
        Inl err \<Rightarrow> (Err err, s)
      | Inr refs \<Rightarrow>
          (Ok (length new),
           s\<lparr>data := fold (\<lambda>(f, r) d. let d' = register (r, f) d in d'\<lparr>facts := facts d' @ [f]\<rparr>)
                       (zip new refs) d\<rparr>))"

definition restore_tx_counter :: "fact_storage \<Rightarrow> fact_storage" where
  "restore_tx_counter s =
     s\<lparr>tx_counter := max (tx_counter s) (fold max (map tx_count (facts (data s))) 0)\<rparr>"

definition current_tx_count :: "fact_storage \<Rightarrow> u64" where
  "current_tx_count s = tx_counter s"

definition restore_tx_counter_from :: "u64 \<Rightarrow> fact_storage \<Rightarrow> fact_storage" where
  "restore_tx_counter_from m s = s\<lparr>tx_counter := m\<rparr>"

definition clear :: "fact_storage \<Rightarrow> fact_storage" where
  "clear s =
     s\<lparr>data := (data s)\<lparr>facts := [], pending_keys := {}, pending_indexes := indexes_new,
                  committed := None, committed_index_reader := None\<rparr>,
       tx_counter := 0\<rparr>"

definition replace_pending_indexes :: "indexes \<Rightarrow> fact_storage \<Rightarrow> fact_storage" where
  "replace_pending_indexes ix s = s\<lparr>data := (data s)\<lparr>pending_indexes := ix\<rparr>\<rparr>"

definition set_committed_reader :: "fact_reader \<Rightarrow> fact_storage \<Rightarrow> fact_storage" where
  "set_committed_reader r s = s\<lparr>data := (data s)\<lparr>committed := Some r\<rparr>\<rparr>"

definition set_committed_index_reader :: "index_reader \<Rightarrow> fact_storage \<Rightarrow> fact_storage" where
  "set_committed_index_reader r s = s\<lparr>data := (data s)\<lparr>committed_index_reader := Some r\<rparr>\<rparr>"

definition pending_indexes_snapshot :: "fact_storage \<Rightarrow> indexes" where
  "pending_indexes_snapshot s = pending_indexes (data s)"

definition pending_index_counts :: "fact_storage \<Rightarrow> nat \<times> nat \<times> nat \<times> nat" where
  "pending_index_counts s =
     (let ix = pending_indexes (data s)
      in (length (eavt ix), length (aevt ix), length (avet ix), length (vaet ix)))"

text \<open>\<^verbatim>\<open>CheckpointGuard\<close>: what a checkpoint reads and publishes under the exclusive lock.\<close>

definition guard_pending_facts :: "fact_storage \<Rightarrow> fact list" where
  "guard_pending_facts s = facts (data s)"

definition guard_publish :: "fact_reader \<Rightarrow> index_reader \<Rightarrow> fact_storage \<Rightarrow> fact_storage" where
  "guard_publish r ir s =
     s\<lparr>data := (data s)\<lparr>committed := Some r, committed_index_reader := Some ir, facts := [],
                  pending_keys := {}, pending_indexes := indexes_new\<rparr>\<rparr>"

section \<open>Reading\<close>

datatype as_of = Counter u64 | Timestamp i64 | AsOfSlot string

definition all_facts :: "fact_data \<Rightarrow> fact list result" where
  "all_facts d =
     (case committed d of
        None \<Rightarrow> Ok (facts d)
      | Some loader \<Rightarrow> and_then (stream_all loader) (\<lambda>fs. Ok (fs @ facts d)))"

definition get_all_facts :: "fact_storage \<Rightarrow> fact list result" where
  "get_all_facts s = all_facts (data s)"

definition filter_facts_as_of :: "fact list \<Rightarrow> as_of \<Rightarrow> fact list" where
  "filter_facts_as_of fs ao =
     filter (\<lambda>f. case ao of
         Counter n \<Rightarrow> tx_count f \<le> n
       | Timestamp t \<Rightarrow> tx_id f \<le> u64_from_i64_or_zero t
       | AsOfSlot _ \<Rightarrow> False) fs"

definition get_facts_as_of :: "as_of \<Rightarrow> fact_storage \<Rightarrow> fact list result" where
  "get_facts_as_of ao s = and_then (get_all_facts s) (\<lambda>fs. Ok (filter_facts_as_of fs ao))"

definition get_asserted_facts :: "fact_storage \<Rightarrow> fact list result" where
  "get_asserted_facts s = and_then (get_all_facts s) (\<lambda>fs. Ok (filter is_asserted fs))"

text \<open>
  \<^verbatim>\<open>net_asserted_facts\<close>: one pass builds the latest retraction per triple and the winning
  assertion per validity window, a second pass marks the winners newer than the retraction.
\<close>

type_synonym eav_key = "uuid \<times> string \<times> bytes"
type_synonym window_key = "uuid \<times> string \<times> bytes \<times> i64 \<times> i64"

definition eav_of :: "fact \<Rightarrow> eav_key" where
  "eav_of f = (entity f, attribute f, encode_value (val f))"

definition window_of :: "fact \<Rightarrow> window_key" where
  "window_of f = (entity f, attribute f, encode_value (val f), valid_from f, valid_to f)"

fun window_eav :: "window_key \<Rightarrow> eav_key" where
  "window_eav (e, a, v, _, _) = (e, a, v)"

definition net_scan ::
    "nat \<times> fact \<Rightarrow> (eav_key \<times> u64) list \<times> (window_key \<times> nat \<times> u64) list
     \<Rightarrow> (eav_key \<times> u64) list \<times> (window_key \<times> nat \<times> u64) list" where
  "net_scan = (\<lambda>(idx, f) (max_retract_tx, by_window).
     if asserted f then
       (max_retract_tx,
        AList.update (window_of f)
          (case map_of by_window (window_of f) of
             None \<Rightarrow> (idx, tx_count f)
           | Some winner \<Rightarrow> if tx_count f > snd winner then (idx, tx_count f) else winner)
          by_window)
     else
       (AList.update (eav_of f)
          (case map_of max_retract_tx (eav_of f) of
             None \<Rightarrow> tx_count f
           | Some m \<Rightarrow> max m (tx_count f))
          max_retract_tx,
        by_window))"

definition net_mark ::
    "(eav_key \<times> u64) list \<Rightarrow> window_key \<times> nat \<times> u64 \<Rightarrow> bool list \<Rightarrow> bool list" where
  "net_mark max_retract_tx = (\<lambda>(w, idx, txc) keep.
     let retract_tx = (case map_of max_retract_tx (window_eav w) of None \<Rightarrow> 0 | Some t \<Rightarrow> t) in
     if txc > retract_tx \<and> idx < length keep then keep[idx := True] else keep)"

definition net_asserted_facts :: "fact list \<Rightarrow> fact list" where
  "net_asserted_facts fs =
     (let (max_retract_tx, by_window) = fold net_scan (zip [0..<length fs] fs) ([], []);
          keep = fold (net_mark max_retract_tx) by_window (replicate (length fs) False)
      in map fst (filter snd (zip fs keep)))"

section \<open>Index-driven lookups\<close>

definition resolve_fact_ref :: "fact_data \<Rightarrow> fact_ref \<Rightarrow> fact result" where
  "resolve_fact_ref d r =
     (if page_id r = 0 then ok_or (Internal 45) (elem_get (facts d) (unat (slot_index r)))
      else case committed d of
             Some loader \<Rightarrow> resolve loader r
           | None \<Rightarrow> Err (Internal 46))"

definition eavt_min :: "uuid \<Rightarrow> string \<Rightarrow> eavt_key" where
  "eavt_min e a =
     \<lparr>ek_entity = e, ek_attribute = a, ek_valid_from = i64_MIN, ek_valid_to = i64_MIN, ek_tx_count = 0\<rparr>"

definition aevt_min :: "string \<Rightarrow> aevt_key" where
  "aevt_min a =
     \<lparr>ae_attribute = a, ae_entity = 0, ae_valid_from = i64_MIN, ae_valid_to = i64_MIN, ae_tx_count = 0\<rparr>"

text \<open>The string \<^verbatim>\<open>format!("{attribute}\0")\<close>: the least string above \<open>a\<close>.\<close>

definition attr_succ :: "string \<Rightarrow> string" where
  "attr_succ a = a @ [CHR 0x00]"

definition entity_facts :: "fact_data \<Rightarrow> uuid \<Rightarrow> fact list result" where
  "entity_facts d e =
     (let start = eavt_min e []; end_k = eavt_min (e + 1) [] in
      if eavt (pending_indexes d) = [] \<and> committed_index_reader d = None then
        (case committed d of
           None \<Rightarrow> Ok (filter (\<lambda>f. entity f = e) (facts d))
         | Some loader \<Rightarrow>
             and_then (stream_all loader) (\<lambda>cs.
               Ok (filter (\<lambda>f. entity f = e) (facts d) @ filter (\<lambda>f. entity f = e) cs)))
      else
        and_then (btm_range (eavt (pending_indexes d)) start end_k) (\<lambda>es.
        and_then (collect_map (\<lambda>(k, r). resolve_fact_ref d r)
                    (takeWhile (\<lambda>(k, r). ek_entity k = e) es)) (\<lambda>pending.
        case committed_index_reader d of
          None \<Rightarrow> Ok pending
        | Some reader \<Rightarrow>
            and_then (range_scan_eavt reader start (Some end_k)) (\<lambda>refs.
            and_then (collect_map (resolve_fact_ref d) refs) (\<lambda>cs. Ok (pending @ cs))))))"

definition entity_attribute_facts :: "fact_data \<Rightarrow> uuid \<Rightarrow> string \<Rightarrow> fact list result" where
  "entity_attribute_facts d e a =
     (let matches = (\<lambda>f. entity f = e \<and> attribute f = a);
          start = eavt_min e a; end_k = eavt_min e (attr_succ a) in
      if eavt (pending_indexes d) = [] \<and> committed_index_reader d = None then
        (case committed d of
           None \<Rightarrow> Ok (filter matches (facts d))
         | Some loader \<Rightarrow>
             and_then (stream_all loader) (\<lambda>cs. Ok (filter matches (facts d) @ filter matches cs)))
      else
        and_then (collect_map (\<lambda>(k, r). resolve_fact_ref d r)
                    (takeWhile (\<lambda>(k, r). ek_entity k = e \<and> ek_attribute k = a)
                      (btm_range_from (eavt (pending_indexes d)) start))) (\<lambda>pending.
        case committed_index_reader d of
          None \<Rightarrow> Ok pending
        | Some reader \<Rightarrow>
            and_then (range_scan_eavt reader start (Some end_k)) (\<lambda>refs.
            and_then (collect_map (resolve_fact_ref d) refs) (\<lambda>cs.
            Ok (pending @ filter matches cs)))))"

definition attribute_facts :: "fact_data \<Rightarrow> string \<Rightarrow> fact list result" where
  "attribute_facts d a =
     (if aevt (pending_indexes d) = [] \<and> committed_index_reader d = None then
        and_then (all_facts d) (\<lambda>fs. Ok (filter (\<lambda>f. attribute f = a) fs))
      else
        let start = aevt_min a; end_k = aevt_min (attr_succ a) in
        and_then (btm_range (aevt (pending_indexes d)) start end_k) (\<lambda>es.
        and_then (collect_map (\<lambda>(k, r). resolve_fact_ref d r) es) (\<lambda>pending.
        case committed_index_reader d of
          None \<Rightarrow> Ok pending
        | Some reader \<Rightarrow>
            and_then (range_scan_aevt reader start (Some end_k)) (\<lambda>refs.
            and_then (collect_map (resolve_fact_ref d) refs) (\<lambda>cs.
            Ok (pending @ filter (\<lambda>f. attribute f = a) cs))))))"

datatype lookup =
    LEntity uuid
  | LEntityAttribute uuid string
  | LAttribute string

fun run_lookup :: "fact_data \<Rightarrow> lookup \<Rightarrow> fact list result" where
  "run_lookup d (LEntity e) = entity_facts d e"
| "run_lookup d (LEntityAttribute e a) = entity_attribute_facts d e a"
| "run_lookup d (LAttribute a) = attribute_facts d a"

definition get_facts_for_lookups :: "lookup list \<Rightarrow> fact_storage \<Rightarrow> fact list result" where
  "get_facts_for_lookups ls s =
     and_then (collect_map (run_lookup (data s)) ls) (\<lambda>fss. Ok (concat fss))"

end
