(* ===== verification/Temporal_Views.thy ===== *)
theory Temporal_Views
  imports Fact_Storage
begin

text \<open>
  Correctness of the two temporal views of the fact log. The net-asserted view
  (\<^verbatim>\<open>net_asserted_facts\<close>, two hash maps and a marking pass) is characterised by the rule its
  comment states; from that: duplicated records never change it, it is idempotent, a
  retraction removes its triple and a later assertion brings it back. The as-of view is
  stable: later transactions never change what a past point shows.
\<close>

section \<open>The net-asserted view\<close>

text \<open>
  The specification. A record wins its validity window if it is an assertion, no assertion
  of the window has a higher transaction count, and it is the first of those that tie. It
  is kept if, besides, every retraction of its triple is older.
\<close>


definition best_in_window :: "fact list \<Rightarrow> nat \<Rightarrow> bool" where
  "best_in_window fs i \<longleftrightarrow> i < length fs \<and> asserted (fs ! i) \<and>
     (\<forall>j < length fs. asserted (fs ! j) \<longrightarrow> window_of (fs ! j) = window_of (fs ! i) \<longrightarrow>
        tx_count (fs ! j) < tx_count (fs ! i) \<or> tx_count (fs ! j) = tx_count (fs ! i) \<and> i \<le> j)"

definition not_retracted :: "fact list \<Rightarrow> fact \<Rightarrow> bool" where
  "not_retracted fs f \<longleftrightarrow> 0 < tx_count f \<and>
     (\<forall>r \<in> set fs. \<not> asserted r \<longrightarrow> eav_of r = eav_of f \<longrightarrow> tx_count r < tx_count f)"

definition retract_ok :: "fact list \<Rightarrow> eav_key \<Rightarrow> u64 option \<Rightarrow> bool" where
  "retract_ok fs k m \<longleftrightarrow> (case m of
      None \<Rightarrow> (\<forall>r \<in> set fs. \<not> asserted r \<longrightarrow> eav_of r \<noteq> k)
    | Some t \<Rightarrow> (\<exists>r \<in> set fs. \<not> asserted r \<and> eav_of r = k \<and> tx_count r = t) \<and>
                (\<forall>r \<in> set fs. \<not> asserted r \<longrightarrow> eav_of r = k \<longrightarrow> tx_count r \<le> t))"

definition window_ok :: "fact list \<Rightarrow> window_key \<Rightarrow> (nat \<times> u64) option \<Rightarrow> bool" where
  "window_ok fs w m \<longleftrightarrow> (case m of
      None \<Rightarrow> (\<forall>f \<in> set fs. asserted f \<longrightarrow> window_of f \<noteq> w)
    | Some (i, t) \<Rightarrow> best_in_window fs i \<and> window_of (fs ! i) = w \<and> tx_count (fs ! i) = t)"

definition net_inv :: "fact list \<Rightarrow> (eav_key \<times> u64) list \<times> (window_key \<times> nat \<times> u64) list \<Rightarrow> bool" where
  "net_inv fs = (\<lambda>(mr, bw). distinct (map fst bw) \<and>
     (\<forall>k. retract_ok fs k (map_of mr k)) \<and> (\<forall>w. window_ok fs w (map_of bw w)))"

lemma best_in_window_unique:
  "best_in_window fs i \<Longrightarrow> best_in_window fs j \<Longrightarrow> window_of (fs ! i) = window_of (fs ! j) \<Longrightarrow> i = j"
  unfolding best_in_window_def by (metis le_antisym less_asym less_irrefl)

lemma best_in_windowD:
  "best_in_window fs i \<Longrightarrow> i < length fs" "best_in_window fs i \<Longrightarrow> asserted (fs ! i)"
  by (simp_all add: best_in_window_def)

lemma best_in_window_snoc:
  "best_in_window fs i \<Longrightarrow>
     \<not> asserted f \<or> window_of f \<noteq> window_of (fs ! i) \<or> tx_count f \<le> tx_count (fs ! i) \<Longrightarrow>
     best_in_window (fs @ [f]) i"
  unfolding best_in_window_def
  by (auto simp: nth_append less_Suc_eq order.order_iff_strict)

lemma best_in_window_new:
  assumes "asserted f"
    and "\<And>j. j < length fs \<Longrightarrow> asserted (fs ! j) \<Longrightarrow> window_of (fs ! j) = window_of f \<Longrightarrow>
      tx_count (fs ! j) < tx_count f"
  shows "best_in_window (fs @ [f]) (length fs)"
  unfolding best_in_window_def using assms by (auto simp: nth_append less_Suc_eq)

lemma window_ok_other:
  "window_ok fs w m \<Longrightarrow> \<not> asserted f \<or> window_of f \<noteq> w \<Longrightarrow> window_ok (fs @ [f]) w m"
  using best_in_window_snoc [of fs _ f]
  by (auto simp: window_ok_def nth_append best_in_window_def split: option.splits)

lemma window_ok_same:
  assumes ok: "window_ok fs (window_of f) m" and f: "asserted f"
  shows "window_ok (fs @ [f]) (window_of f)
    (Some (case m of None \<Rightarrow> (length fs, tx_count f)
      | Some winner \<Rightarrow> if tx_count f > snd winner then (length fs, tx_count f) else winner))"
proof -
  have new: "window_ok (fs @ [f]) (window_of f) (Some (length fs, tx_count f))"
    if "\<And>j. j < length fs \<Longrightarrow> asserted (fs ! j) \<Longrightarrow> window_of (fs ! j) = window_of f \<Longrightarrow>
      tx_count (fs ! j) < tx_count f"
  proof -
    have "best_in_window (fs @ [f]) (length fs)"
      by (rule best_in_window_new [OF f]) (rule that)
    then show ?thesis by (simp add: window_ok_def)
  qed
  show ?thesis
  proof (cases m)
    case None
    with ok have "window_ok (fs @ [f]) (window_of f) (Some (length fs, tx_count f))"
      by (intro new) (auto simp: window_ok_def)
    with None show ?thesis by simp
  next
    case (Some p)
    obtain i t where p: "p = (i, t)" by (cases p)
    with ok Some have i: "best_in_window fs i" "window_of (fs ! i) = window_of f" "tx_count (fs ! i) = t"
      by (auto simp: window_ok_def)
    show ?thesis
    proof (cases "tx_count f > t")
      case True
      with i have "window_ok (fs @ [f]) (window_of f) (Some (length fs, tx_count f))"
        by (intro new) (auto simp: best_in_window_def)
      with True Some p show ?thesis by simp
    next
      case False
      with i have "best_in_window (fs @ [f]) i" by (intro best_in_window_snoc) auto
      with False Some p i show ?thesis
        by (auto simp: window_ok_def nth_append best_in_window_def)
    qed
  qed
qed

lemma retract_ok_other:
  "retract_ok fs k m \<Longrightarrow> asserted f \<or> eav_of f \<noteq> k \<Longrightarrow> retract_ok (fs @ [f]) k m"
  by (auto simp: retract_ok_def split: option.splits)

lemma retract_ok_same:
  "retract_ok fs (eav_of f) m \<Longrightarrow> \<not> asserted f \<Longrightarrow>
   retract_ok (fs @ [f]) (eav_of f) (Some (case m of None \<Rightarrow> tx_count f | Some t \<Rightarrow> max t (tx_count f)))"
  by (cases m) (auto simp: retract_ok_def max_def)

lemma net_inv_step:
  assumes "net_inv fs (mr, bw)"
  shows "net_inv (fs @ [f]) (net_scan (length fs, f) (mr, bw))"
proof -
  from assms have d: "distinct (map fst bw)"
    and r: "\<And>k. retract_ok fs k (map_of mr k)" and w: "\<And>w. window_ok fs w (map_of bw w)"
    by (auto simp: net_inv_def simp del: split_paired_All)
  show ?thesis
  proof (cases "asserted f")
    case True
    have "window_ok (fs @ [f]) k (map_of (snd (net_scan (length fs, f) (mr, bw))) k)" for k
      using window_ok_same [OF w True] window_ok_other [OF w [of k], of f] True
      by (simp add: net_scan_def update_conv)
    with True d r show ?thesis
      by (simp add: net_inv_def net_scan_def distinct_update retract_ok_other del: split_paired_All)
  next
    case False
    have "retract_ok (fs @ [f]) k (map_of (fst (net_scan (length fs, f) (mr, bw))) k)" for k
      using retract_ok_same [OF r False] retract_ok_other [OF r [of k], of f] False
      by (simp add: net_scan_def update_conv)
    with False d w show ?thesis
      by (simp add: net_inv_def net_scan_def window_ok_other del: split_paired_All)
  qed
qed

lemma net_inv_scan: "net_inv fs (fold net_scan (zip [0..<length fs] fs) ([], []))"
proof (induction fs rule: rev_induct)
  case Nil
  then show ?case by (simp add: net_inv_def retract_ok_def window_ok_def)
next
  case (snoc f fs)
  then show ?case
    using net_inv_step [of fs _ _ f]
    by (cases "fold net_scan (zip [0..<length fs] fs) ([], [])") simp
qed

lemma length_net_mark [simp]: "length (net_mark mr e keep) = length keep"
  by (cases e) (simp add: net_mark_def Let_def)

definition beats_retraction :: "(eav_key \<times> u64) list \<Rightarrow> window_key \<Rightarrow> u64 \<Rightarrow> bool" where
  "beats_retraction mr w t \<longleftrightarrow> (case map_of mr (window_eav w) of None \<Rightarrow> 0 | Some r \<Rightarrow> r) < t"

lemma net_mark_nth1:
  "i < length keep \<Longrightarrow>
   net_mark mr (w, j, t) keep ! i \<longleftrightarrow> keep ! i \<or> j = i \<and> beats_retraction mr w t"
  by (auto simp: net_mark_def beats_retraction_def Let_def nth_list_update)

lemma net_mark_nth:
  "i < length keep \<Longrightarrow>
   fold (net_mark mr) bw keep ! i \<longleftrightarrow>
     keep ! i \<or> (\<exists>e \<in> set bw. fst (snd e) = i \<and> beats_retraction mr (fst e) (snd (snd e)))"
proof (induction bw arbitrary: keep)
  case Nil
  then show ?case by simp
next
  case (Cons e bw)
  from Cons.prems have "i < length (net_mark mr e keep)" by simp
  from Cons.IH [OF this] Cons.prems show ?case
    using net_mark_nth1 [of i keep mr "fst e" "fst (snd e)" "snd (snd e)"] by auto
qed

lemma length_fold_net_mark [simp]: "length (fold (net_mark mr) bw keep) = length keep"
  by (induction bw arbitrary: keep) simp_all

lemma window_eav_of [simp]: "window_eav (window_of f) = eav_of f"
  by (simp add: window_of_def eav_of_def)

lemma retract_ok_less:
  "retract_ok fs (eav_of f) m \<Longrightarrow>
   (case m of None \<Rightarrow> 0 | Some t \<Rightarrow> t) < tx_count f \<longleftrightarrow> not_retracted fs f"
  by (cases m) (auto simp: retract_ok_def not_retracted_def word_gt_0 intro: le_less_trans)

lemma net_inv_member:
  assumes "net_inv fs (mr, bw)"
  shows "(w, i, t) \<in> set bw \<longleftrightarrow>
    best_in_window fs i \<and> w = window_of (fs ! i) \<and> t = tx_count (fs ! i)"
proof -
  have "(w, i, t) \<in> set bw \<longleftrightarrow> map_of bw w = Some (i, t)" and ok: "window_ok fs w (map_of bw w)"
    using assms by (auto simp: net_inv_def map_of_eq_Some_iff simp del: split_paired_All)
  moreover have "map_of bw w = Some (i, t)"
    if "best_in_window fs i" "w = window_of (fs ! i)" "t = tx_count (fs ! i)"
  proof (cases "map_of bw w")
    case None
    with ok that show ?thesis
      using best_in_windowD [OF that(1)] nth_mem [of i fs] by (auto simp: window_ok_def)
  next
    case (Some p)
    obtain j u where p: "p = (j, u)" by (cases p)
    with ok Some have j: "best_in_window fs j" "window_of (fs ! j) = w" "tx_count (fs ! j) = u"
      by (simp_all add: window_ok_def)
    have "i = j" by (rule best_in_window_unique [OF that(1) j(1)]) (simp add: that(2) j(2))
    with Some p j that(3) show ?thesis by simp
  qed
  ultimately show ?thesis by (auto simp: window_ok_def)
qed

lemma net_asserted_facts_eq:
  "net_asserted_facts fs =
     map ((!) fs) (filter (\<lambda>i. best_in_window fs i \<and> not_retracted fs (fs ! i)) [0..<length fs])"
proof -
  obtain mr bw where st: "fold net_scan (zip [0..<length fs] fs) ([], []) = (mr, bw)"
    by (metis prod.exhaust)
  have inv: "net_inv fs (mr, bw)" using net_inv_scan [of fs] st by simp
  then have r: "\<And>k. retract_ok fs k (map_of mr k)"
    by (simp add: net_inv_def del: split_paired_All)
  let ?keep = "fold (net_mark mr) bw (replicate (length fs) False)"
  have keep: "?keep ! i \<longleftrightarrow> best_in_window fs i \<and> not_retracted fs (fs ! i)" if "i < length fs" for i
  proof -
    have "?keep ! i \<longleftrightarrow> (\<exists>w t. (w, i, t) \<in> set bw \<and> beats_retraction mr w t)"
      using that by (force simp: net_mark_nth)
    also have "\<dots> \<longleftrightarrow> best_in_window fs i \<and> not_retracted fs (fs ! i)"
      using retract_ok_less [OF r, of "fs ! i"]
      by (auto simp: net_inv_member [OF inv] beats_retraction_def)
    finally show ?thesis .
  qed
  have "zip fs ?keep = map (\<lambda>i. (fs ! i, ?keep ! i)) [0..<length fs]"
    by (rule nth_equalityI) simp_all
  then have "net_asserted_facts fs = map ((!) fs) (filter (\<lambda>i. ?keep ! i) [0..<length fs])"
    by (simp add: net_asserted_facts_def st filter_map o_def)
  also have "\<dots> = map ((!) fs) (filter (\<lambda>i. best_in_window fs i \<and> not_retracted fs (fs ! i)) [0..<length fs])"
    by (rule arg_cong [where f = "map ((!) fs)"], rule filter_cong) (simp_all add: keep)
  finally show ?thesis .
qed
text \<open>
  C5. \<^verbatim>\<open>net_asserted_facts\<close> returns, in log order, exactly the records that win their validity
  window and are newer than every retraction of their entity-attribute-value triple.
\<close>

theorem net_asserted_facts_spec:
  "net_asserted_facts fs =
     map ((!) fs) (filter (\<lambda>i. best_in_window fs i \<and> not_retracted fs (fs ! i)) [0..<length fs])"
  by (rule net_asserted_facts_eq)

lemma in_net_iff:
  "f \<in> set (net_asserted_facts fs) \<longleftrightarrow>
     (\<exists>i < length fs. fs ! i = f \<and> best_in_window fs i) \<and> not_retracted fs f"
  by (auto simp: net_asserted_facts_eq)

lemma in_netD:
  assumes "f \<in> set (net_asserted_facts fs)"
  shows "f \<in> set fs" "asserted f" "not_retracted fs f"
  using assms by (auto simp: in_net_iff best_in_window_def)

lemma not_retractedD:
  "not_retracted fs f \<Longrightarrow> r \<in> set fs \<Longrightarrow> \<not> asserted r \<Longrightarrow> eav_of r = eav_of f \<Longrightarrow>
   tx_count r < tx_count f"
  by (simp add: not_retracted_def)

lemma best_in_window_append:
  assumes "set ds \<subseteq> set fs"
  shows "best_in_window (fs @ ds) i \<longleftrightarrow> best_in_window fs i"
proof
  assume b: "best_in_window (fs @ ds) i"
  show "best_in_window fs i"
  proof (cases "i < length fs")
    case True
    have "tx_count (fs ! j) < tx_count (fs ! i) \<or> tx_count (fs ! j) = tx_count (fs ! i) \<and> i \<le> j"
      if "j < length fs" "asserted (fs ! j)" "window_of (fs ! j) = window_of (fs ! i)" for j
      using b that True unfolding best_in_window_def
      by (elim conjE) (drule spec [of _ j], simp add: nth_append)
    with b True show ?thesis by (simp add: best_in_window_def nth_append)
  next
    case False
    then have "(fs @ ds) ! i \<in> set fs"
      using b assms nth_mem [of "i - length fs" ds] by (auto simp: best_in_window_def nth_append)
    then obtain j where j: "j < length fs" "fs ! j = (fs @ ds) ! i"
      by (auto simp: in_set_conv_nth)
    moreover have "(fs @ ds) ! j = fs ! j" using j by (simp add: nth_append)
    ultimately have "i \<le> j" using b unfolding best_in_window_def
      by (elim conjE) (drule spec [of _ j], simp)
    with j False show ?thesis by simp
  qed
next
  assume b: "best_in_window fs i"
  then have i: "i < length fs" "(fs @ ds) ! i = fs ! i" by (simp_all add: best_in_window_def nth_append)
  have "tx_count ((fs @ ds) ! j) < tx_count (fs ! i) \<or> tx_count ((fs @ ds) ! j) = tx_count (fs ! i) \<and> i \<le> j"
    if j: "j < length (fs @ ds)" "asserted ((fs @ ds) ! j)" "window_of ((fs @ ds) ! j) = window_of (fs ! i)" for j
  proof -
    have "(fs @ ds) ! j \<in> set fs" using j(1) assms nth_mem [of j "fs @ ds"] by auto
    then obtain k0 where k0: "k0 < length fs" "fs ! k0 = (fs @ ds) ! j" by (auto simp: in_set_conv_nth)
    define k where "k = (if j < length fs then j else k0)"
    have k: "k < length fs" "k \<le> j" "fs ! k = (fs @ ds) ! j"
      using k0 by (auto simp: k_def nth_append)
    with b j show ?thesis
      unfolding best_in_window_def by (elim conjE) (drule spec [of _ k], auto)
  qed
  with b i show "best_in_window (fs @ ds) i" by (simp add: best_in_window_def)
qed

text \<open>
  Duplicated input records never change the view: a duplicate assertion ties with the
  original and loses, a duplicate retraction leaves the maximum unchanged.
  \<^verbatim>\<open>selective_fact_fetch\<close> relies on this instead of deduplicating.
\<close>

lemma net_asserted_facts_duplicates:
  assumes "set ds \<subseteq> set fs"
  shows "net_asserted_facts (fs @ ds) = net_asserted_facts fs"
proof -
  have r: "not_retracted (fs @ ds) f = not_retracted fs f" for f
    using assms by (auto simp: not_retracted_def)
  let ?P = "\<lambda>fs i. best_in_window fs i \<and> not_retracted fs (fs ! i)"
  have low: "?P (fs @ ds) i = ?P fs i" if "i < length fs" for i
    using that by (simp add: best_in_window_append [OF assms] r nth_append)
  have high: "\<not> ?P (fs @ ds) i" if "length fs \<le> i" for i
    using that by (auto simp: best_in_window_append [OF assms] dest: best_in_windowD)
  have "filter (?P (fs @ ds)) [0..<length (fs @ ds)] = filter (?P fs) [0..<length fs]"
    unfolding length_append upt_add_eq_append [OF le0] filter_append
    using high by (auto simp: filter_empty_conv intro!: filter_cong low)
  then show ?thesis
    unfolding net_asserted_facts_eq by (auto simp: nth_append)
qed

lemma distinct_windows_net: "distinct (map window_of (net_asserted_facts fs))"
proof -
  have "inj_on (\<lambda>i. window_of (fs ! i))
      (set (filter (\<lambda>i. best_in_window fs i \<and> not_retracted fs (fs ! i)) [0..<length fs]))"
    by (rule inj_onI) (auto intro: best_in_window_unique)
  then show ?thesis
    by (simp add: net_asserted_facts_eq distinct_map o_def)
qed

lemma net_asserted_facts_id:
  assumes d: "distinct (map window_of fs)"
    and a: "\<And>f. f \<in> set fs \<Longrightarrow> asserted f \<and> 0 < tx_count f"
  shows "net_asserted_facts fs = fs"
proof -
  have best: "best_in_window fs i" if "i < length fs" for i
    using that a d by (auto simp: best_in_window_def distinct_conv_nth)
  have nr: "not_retracted fs (fs ! i)" if "i < length fs" for i
    using that a by (auto simp: not_retracted_def)
  have "filter (\<lambda>i. best_in_window fs i \<and> not_retracted fs (fs ! i)) [0..<length fs] = [0..<length fs]"
    using best nr by (auto simp: filter_id_conv)
  then show ?thesis
    by (simp only: net_asserted_facts_eq map_nth)
qed

text \<open>
  The view has one record per validity window, all of them assertions, and applying it
  to its own result changes nothing.
\<close>

lemma net_asserted_facts_normal:
  "distinct (map window_of (net_asserted_facts fs)) \<and>
   list_all asserted (net_asserted_facts fs) \<and>
   net_asserted_facts (net_asserted_facts fs) = net_asserted_facts fs"
proof -
  have a: "asserted f \<and> 0 < tx_count f" if "f \<in> set (net_asserted_facts fs)" for f
    using that by (auto simp: in_net_iff not_retracted_def best_in_window_def)
  then have "net_asserted_facts (net_asserted_facts fs) = net_asserted_facts fs"
    by (intro net_asserted_facts_id distinct_windows_net)
  with a show ?thesis by (auto simp: distinct_windows_net list_all_iff)
qed

section \<open>Writes\<close>

text \<open>The three writers as one step, and runs of \<open>n\<close> writes.\<close>

inductive write_step :: "fact_storage \<Rightarrow> fact_storage \<Rightarrow> bool" where
  transact: "write_step s (snd (transact now tuples opts s))"
| transact_batch: "write_step s (snd (transact_batch now batch opts s))"
| retract: "write_step s (snd (retract now tuples s))"

inductive writes :: "nat \<Rightarrow> fact_storage \<Rightarrow> fact_storage \<Rightarrow> bool" where
  none: "writes 0 s s"
| more: "writes n s t \<Longrightarrow> write_step t u \<Longrightarrow> writes (Suc n) s u"

lemma fold_register [simp]:
  "facts (fold register rs d) = facts d" "committed (fold register rs d) = committed d"
  "committed_index_reader (fold register rs d) = committed_index_reader d"
  by (induction rs arbitrary: d) (simp_all add: register_def split_beta)

lemma append_facts_Inr:
  assumes "append_facts fs d = Inr d'"
  shows "facts d' = facts d @ fs" "committed d' = committed d"
    "committed_index_reader d' = committed_index_reader d"
  using assms by (auto simp: append_facts_def Let_def and_then_eq_Inr)

lemma allocate_tx_count_simps [simp]:
  "fst (allocate_tx_count s) = next_tx_count s"
  "data (snd (allocate_tx_count s)) = data s"
  "tx_counter (snd (allocate_tx_count s)) = tx_counter s + 1"
  by (simp_all add: allocate_tx_count_def)

lemma tx_count_new [simp]:
  "tx_count (assert_fact now c opts e a v) = c"
  "asserted (assert_fact now c opts e a v)"
  by (simp_all add: assert_fact_def fact_with_valid_time_def)

lemmas write_defs = transact_def transact_batch_def retract_def split_beta Let_def

lemma write_stepE:
  assumes "write_step s t"
  obtains fs where "tx_counter t = tx_counter s + 1" "facts (data t) = facts (data s) @ fs"
    "committed (data t) = committed (data s)" "\<forall>f \<in> set fs. tx_count f = next_tx_count s"
proof -
  have "\<exists>fs. tx_counter t = tx_counter s + 1 \<and> facts (data t) = facts (data s) @ fs \<and>
    committed (data t) = committed (data s) \<and> (\<forall>f \<in> set fs. tx_count f = next_tx_count s)"
    using assms
    by cases (auto simp: write_defs append_facts_Inr split: sum.splits
      intro: exI [of _ "[]"] exI [where P = "\<lambda>fs. _ @ gs = _ @ fs \<and> _ fs" for gs])
  with that show thesis by blast
qed

lemma next_tx_count_greater:
  assumes "tx_counter s \<noteq> u64_MAX"
  shows "next_tx_count s = tx_counter s + 1" "tx_counter s < next_tx_count s"
    "unat (next_tx_count s) = unat (tx_counter s) + 1"
proof -
  have "unat (tx_counter s) \<noteq> 2 ^ 64 - 1"
    using assms by (auto simp: u64_MAX_def word_unat_eq_iff)
  then have b: "unat (tx_counter s) + 1 < 2 ^ 64"
    using unat_bounds(3) [of "tx_counter s"] by simp
  then show n: "next_tx_count s = tx_counter s + 1"
    by (simp add: next_tx_count_def u64_saturating_add_def)
  have u: "unat (tx_counter s + 1) = unat (tx_counter s) + 1"
    using b by (simp add: unat_word_ariths(1))
  then show "unat (next_tx_count s) = unat (tx_counter s) + 1" by (simp add: n)
  show "tx_counter s < next_tx_count s" using u by (simp add: n word_less_nat_alt)
qed

lemma get_all_facts_extend:
  assumes "facts (data t) = facts (data s) @ fs" "committed (data t) = committed (data s)"
  shows "get_all_facts t = and_then (get_all_facts s) (\<lambda>gs. Ok (gs @ fs))"
  using assms
  by (cases "committed (data s)"; cases "stream_all (the (committed (data s)))")
    (simp_all add: get_all_facts_def all_facts_def)

lemma write_step_as_of:
  assumes w: "write_step s t" and c: "tx_counter s \<noteq> u64_MAX" and n: "n \<le> tx_counter s"
  shows "get_facts_as_of (Counter n) t = get_facts_as_of (Counter n) s"
proof -
  obtain fs where "tx_counter t = tx_counter s + 1"
    and t: "facts (data t) = facts (data s) @ fs" "committed (data t) = committed (data s)"
    and new: "\<forall>f \<in> set fs. tx_count f = next_tx_count s"
    using w by (rule write_stepE)
  have "filter_facts_as_of fs (Counter n) = []"
    using new next_tx_count_greater(2) [OF c] n by (auto simp: filter_facts_as_of_def filter_empty_conv)
  then have "filter_facts_as_of (gs @ fs) (Counter n) = filter_facts_as_of gs (Counter n)" for gs
    by (simp add: filter_facts_as_of_def)
  then show ?thesis
    by (cases "get_all_facts s") (simp_all add: get_facts_as_of_def get_all_facts_extend [OF t])
qed

lemma writes_counter:
  "writes k s t \<Longrightarrow> unat (tx_counter s) + k < 2 ^ 64 \<Longrightarrow>
   unat (tx_counter t) = unat (tx_counter s) + k"
proof (induction rule: writes.induct)
  case (more n s t u)
  then have "tx_counter t \<noteq> u64_MAX" by (auto simp: u64_MAX_def)
  from next_tx_count_greater [OF this] more show ?case
    by (auto elim!: write_stepE)
qed simp

text \<open>
  C7. A past point never changes: after any number of transactions and retractions, the view
  as of a transaction count already reached is the one that was visible then, errors
  included, as long as the 64-bit counter does not wrap.
\<close>

theorem as_of_stable:
  assumes "writes k s t" and "unat (tx_counter s) + k < 2 ^ 64" and "n \<le> tx_counter s"
  shows "get_facts_as_of (Counter n) t = get_facts_as_of (Counter n) s"
  using assms
proof (induction rule: writes.induct)
  case (more k s t u)
  have c: "unat (tx_counter t) = unat (tx_counter s) + k"
    using writes_counter [OF more.hyps(1)] more.prems by simp
  then have "tx_counter t \<noteq> u64_MAX" "n \<le> tx_counter t"
    using more.prems by (auto simp: u64_MAX_def word_le_nat_alt)
  with more show ?case by (simp add: write_step_as_of)
qed simp

theorem as_of_stable_witness:
  "get_facts_as_of (Counter 0)
     (snd (retract 8 [(1, '':a'', VNull)] (snd (transact 7 [(1, '':a'', VNull)] None fact_storage_new)))) =
   get_facts_as_of (Counter 0) fact_storage_new"
proof (rule as_of_stable)
  show "writes (Suc (Suc 0)) fact_storage_new
    (snd (retract 8 [(1, '':a'', VNull)] (snd (transact 7 [(1, '':a'', VNull)] None fact_storage_new))))"
    by (rule writes.more [OF writes.more [OF writes.none write_step.transact] write_step.retract])
qed (simp_all add: fact_storage_new_def)

section \<open>What a write makes visible\<close>

definition counted :: "fact_storage \<Rightarrow> fact list \<Rightarrow> bool" where
  "counted s fs \<longleftrightarrow> (\<forall>f \<in> set fs. tx_count f \<le> tx_counter s)"

text \<open>
  A retraction takes effect: once \<^verbatim>\<open>retract\<close> has succeeded, no record of any of the
  retracted triples is visible in the net view, in whichever validity window it was
  asserted. The premise is what \<^verbatim>\<open>restore_tx_counter\<close> establishes on opening a store.
\<close>

lemma retract_removes:
  assumes ok: "retract now tuples s = (Ok r, t)" and c: "tx_counter s \<noteq> u64_MAX"
    and old: "get_all_facts s = Ok fs" "counted s fs" and tup: "(e, a, v) \<in> set tuples"
  shows "\<exists>gs. get_all_facts t = Ok gs \<and>
    (\<forall>f \<in> set (net_asserted_facts gs). eav_of f \<noteq> (e, a, encode_value v))"
proof -
  let ?new = "map (\<lambda>(e, a, v). (fact_retract e a v now)\<lparr>tx_count := next_tx_count s\<rparr>) tuples"
  from ok have "facts (data t) = facts (data s) @ ?new" "committed (data t) = committed (data s)"
    by (auto simp: write_defs append_facts_Inr split: sum.splits)
  then have all: "get_all_facts t = Ok (fs @ ?new)" by (simp add: get_all_facts_extend old)
  let ?r = "(fact_retract e a v now)\<lparr>tx_count := next_tx_count s\<rparr>"
  have r: "?r \<in> set (fs @ ?new)" "\<not> asserted ?r" "eav_of ?r = (e, a, encode_value v)"
    "tx_count ?r = next_tx_count s"
    using tup by (auto simp: fact_retract_def eav_of_def intro: rev_image_eqI)
  have "eav_of f \<noteq> (e, a, encode_value v)" if f: "f \<in> set (net_asserted_facts (fs @ ?new))" for f
  proof
    assume "eav_of f = (e, a, encode_value v)"
    with not_retractedD [OF in_netD(3) [OF f] r(1,2)] r(3,4)
    have "next_tx_count s < tx_count f" by simp
    moreover have "tx_count f \<le> next_tx_count s"
      using in_netD(1) [OF f] old next_tx_count_greater(2) [OF c]
      by (auto simp: counted_def dest!: bspec)
    ultimately show False by simp
  qed
  with all show ?thesis by blast
qed

lemma ex_best_in_window:
  assumes "f \<in> set fs" and "asserted f"
  obtains i where "best_in_window fs i" "window_of (fs ! i) = window_of f"
proof -
  obtain mr bw where "fold net_scan (zip [0..<length fs] fs) ([], []) = (mr, bw)"
    by (metis prod.exhaust)
  with net_inv_scan [of fs] have "window_ok fs (window_of f) (map_of bw (window_of f))"
    by (simp add: net_inv_def del: split_paired_All)
  with assms that show thesis by (auto simp: window_ok_def split: option.splits)
qed

text \<open>The newest assertion of a window is the record the net view shows for it.\<close>

lemma newest_visible:
  assumes f: "f \<in> set fs" "asserted f" "0 < tx_count f"
    and newest: "\<And>g. g \<in> set fs \<Longrightarrow> tx_count g < tx_count f \<or> tx_count g = tx_count f \<and> asserted g"
  shows "\<exists>g \<in> set (net_asserted_facts fs). window_of g = window_of f \<and> tx_count g = tx_count f"
proof -
  obtain i where i: "best_in_window fs i" "window_of (fs ! i) = window_of f"
    using f(1,2) by (rule ex_best_in_window)
  then have len: "i < length fs" and "tx_count f \<le> tx_count (fs ! i)"
    using f by (auto simp: best_in_window_def in_set_conv_nth intro: less_imp_le)
  then have t: "tx_count (fs ! i) = tx_count f"
    using newest [of "fs ! i"] by auto
  have "not_retracted fs (fs ! i)"
    using f(3) newest by (auto simp: not_retracted_def t)
  with i len have "fs ! i \<in> set (net_asserted_facts fs)" by (auto simp: in_net_iff)
  with i(2) t show ?thesis by blast
qed

text \<open>
  A transaction takes effect: after \<^verbatim>\<open>transact_batch\<close> has succeeded, each fact of the
  batch is visible in the net view, in the validity window its own options (or else the
  transaction's) give it and with the count the call returned, even if an earlier
  transaction had retracted it.
\<close>

lemma transact_batch_visible:
  assumes ok: "transact_batch now tuples opts s = (Ok (tx, txc), t)" and c: "tx_counter s \<noteq> u64_MAX"
    and old: "get_all_facts s = Ok fs" "counted s fs" and tup: "(e, a, v, o1) \<in> set tuples"
  shows "\<exists>gs f. get_all_facts t = Ok gs \<and> f \<in> set (net_asserted_facts gs) \<and> tx_count f = txc \<and>
    window_of f = window_of (assert_fact now txc
      (case o1 of Some x \<Rightarrow> x | None \<Rightarrow> case opts of Some x \<Rightarrow> x | None \<Rightarrow> default_options) e a v)"
proof -
  let ?mk = "\<lambda>(e, a, v, o1). assert_fact now txc
      (case o1 of Some x \<Rightarrow> x | None \<Rightarrow> case opts of Some x \<Rightarrow> x | None \<Rightarrow> default_options) e a v"
  let ?f = "?mk (e, a, v, o1)" and ?gs = "fs @ map ?mk tuples"
  from ok have txc: "txc = next_tx_count s"
    and "facts (data t) = facts (data s) @ map ?mk tuples" "committed (data t) = committed (data s)"
    by (auto simp: write_defs append_facts_Inr split: sum.splits)
  then have all: "get_all_facts t = Ok ?gs" by (simp add: get_all_facts_extend old)
  have "?f \<in> set ?gs" using tup by force
  moreover have "0 < txc" using next_tx_count_greater(3) [OF c] by (simp add: txc word_less_nat_alt)
  moreover have "tx_count g < txc \<or> tx_count g = txc \<and> asserted g" if "g \<in> set ?gs" for g
    using that old(2) next_tx_count_greater(2) [OF c]
    by (auto simp: counted_def txc split_beta dest!: bspec)
  ultimately have "\<exists>g \<in> set (net_asserted_facts ?gs). window_of g = window_of ?f \<and> tx_count g = tx_count ?f"
    by (intro newest_visible) auto
  with all show ?thesis by auto
qed

end
