(* ===== verification/Storage_Lookups.thy ===== *)
theory Storage_Lookups
  imports Temporal_Views "HOL-Library.Multiset"
begin

text \<open>
  The invariant of the in-memory store (the pending indexes and the duplicate set are the
  ones the log determines) and what it gives: loading is idempotent, and the index-driven
  lookups return exactly the matching facts of the log.
\<close>

section \<open>The indexes a log determines\<close>

definition slot_ref :: "nat \<Rightarrow> fact_ref" where
  "slot_ref i = \<lparr>page_id = 0, slot_index = of_nat i\<rparr>"

definition index_of :: "fact list \<Rightarrow> indexes" where
  "index_of fs = fold (\<lambda>(i, f). indexes_insert f (slot_ref i)) (zip [0..<length fs] fs) indexes_new"

definition store_inv :: "fact_data \<Rightarrow> bool" where
  "store_inv d \<longleftrightarrow> length (facts d) \<le> 2 ^ 32 \<and> pending_keys d = pending_key ` set (facts d) \<and>
     pending_indexes d = index_of (facts d)"

lemma pending_refs_eq:
  "pending_refs base n =
     (if n = 0 \<or> base + n \<le> 2 ^ 32 then Ok (map (\<lambda>i. slot_ref (base + i)) [0..<n]) else Err (Internal 45))"
proof (induction n)
  case 0
  then show ?case by (simp add: pending_refs_def)
next
  case (Suc n)
  have "pending_refs base (Suc n) = and_then (pending_refs base n) (\<lambda>rs.
      and_then (if base + n \<le> u32_MAX then Ok (slot_ref (base + n)) else Err (Internal 45)) (\<lambda>r. Ok (rs @ [r])))"
    by (simp add: pending_refs_def collect_map_append Let_def slot_ref_def)
  with Suc show ?case by (auto simp: u32_MAX_def)
qed

lemma index_of_append:
  "index_of (fs @ gs) =
     fold (\<lambda>(i, f). indexes_insert f (slot_ref i)) (zip [length fs..<length fs + length gs] gs) (index_of fs)"
  by (simp add: index_of_def upt_add_eq_append [OF le0])

lemma index_of_snoc: "index_of (fs @ [f]) = indexes_insert f (slot_ref (length fs)) (index_of fs)"
  by (simp add: index_of_append)

lemma fold_register_append:
  assumes "pending_keys d = pending_key ` set fs" "pending_indexes d = index_of fs"
    and "rs = map (\<lambda>i. slot_ref (length fs + i)) [0..<length gs]"
  shows "pending_keys (fold register (zip rs gs) d) = pending_key ` set (fs @ gs)"
    "pending_indexes (fold register (zip rs gs) d) = index_of (fs @ gs)"
proof -
  have "pending_keys (fold register (zip rs gs) d) = pending_key ` set (fs @ gs) \<and>
    pending_indexes (fold register (zip rs gs) d) = index_of (fs @ gs)"
    using assms(3)
  proof (induction gs arbitrary: rs rule: rev_induct)
    case Nil
    with assms(1,2) show ?case by simp
  next
    case (snoc g gs)
    then show ?case by (simp add: register_def index_of_snoc flip: append_assoc)
  qed
  then show "pending_keys (fold register (zip rs gs) d) = pending_key ` set (fs @ gs)"
    "pending_indexes (fold register (zip rs gs) d) = index_of (fs @ gs)" by simp_all
qed

lemma append_facts_inv:
  assumes "store_inv d" "append_facts fs d = Ok d'"
  shows "store_inv d'"
  using assms fold_register_append [of d "facts d" _ fs] 
  by (auto simp: append_facts_def store_inv_def pending_refs_eq Let_def split: if_splits)

lemma facts_register [simp]: "facts (register x d) = facts d"
  by (cases x) (simp add: register_def)

lemma register_facts_update: "register x (d\<lparr>facts := y\<rparr>) = (register x d)\<lparr>facts := y\<rparr>"
  by (cases x; cases d) (simp add: register_def)

lemma load_fold_eq:
  "length refs = length gs \<Longrightarrow>
   fold (\<lambda>(f, r) d. let d' = register (r, f) d in d'\<lparr>facts := facts d' @ [f]\<rparr>) (zip gs refs) d =
   (fold register (zip refs gs) d)\<lparr>facts := facts d @ gs\<rparr>"
proof (induction gs arbitrary: refs d)
  case Nil
  then show ?case by simp
next
  case (Cons g gs)
  then obtain r rs where "refs = r # rs" by (cases refs) auto
  have comm: "fold register xs (d\<lparr>facts := y\<rparr>) = (fold register xs d)\<lparr>facts := y\<rparr>" for xs d y
    by (induction xs arbitrary: d) (simp_all add: register_facts_update)
  from Cons \<open>refs = r # rs\<close> show ?case
    by (simp add: Let_def comm)
qed

lemma load_facts_eq:
  "load_facts fs s =
     (let new = new_facts (pending_keys (data s)) fs in
      case append_facts new (data s) of
        Inl err \<Rightarrow> (Err err, s) | Inr d \<Rightarrow> (Ok (length new), s\<lparr>data := d\<rparr>))"
proof -
  have len: "pending_refs b n = Ok rs \<Longrightarrow> length rs = n" for b n rs
    by (auto simp: pending_refs_eq split: if_splits)
  show ?thesis
    unfolding load_facts_def append_facts_def Let_def
    by (cases "pending_refs (length (facts (data s))) (length (new_facts (pending_keys (data s)) fs))")
      (simp_all add: load_fold_eq [unfolded Let_def facts_register] len)
qed

text \<open>\<^verbatim>\<open>load_fact\<close> is \<^verbatim>\<open>load_facts\<close> on one fact.\<close>

lemma load_fact_eq:
  "load_fact f s = (case load_facts [f] s of (r, t) \<Rightarrow> (map_sum id (\<lambda>n. n = 1) r, t))"
  by (auto simp: load_fact_def load_facts_eq append_facts_def Let_def pending_refs_eq)

section \<open>Every operation keeps the invariant\<close>

inductive store_step :: "fact_storage \<Rightarrow> fact_storage \<Rightarrow> bool" where
  writing: "write_step s t \<Longrightarrow> store_step s t"
| allocate: "store_step s (snd (allocate_tx_count s))"
| load: "store_step s (snd (load_facts fs s))"
| load1: "store_step s (snd (load_fact f s))"
| restore: "store_step s (restore_tx_counter s)"
| restore_from: "store_step s (restore_tx_counter_from m s)"
| clear: "store_step s (clear s)"
| reader: "store_step s (set_committed_reader r s)"
| index_reader: "store_step s (set_committed_index_reader ir s)"
| publish: "store_step s (guard_publish r ir s)"

inductive reachable :: "fact_storage \<Rightarrow> bool" where
  start: "reachable fact_storage_new"
| step: "reachable s \<Longrightarrow> store_step s t \<Longrightarrow> reachable t"

lemma store_inv_empty:
  "facts d = [] \<Longrightarrow> pending_keys d = {} \<Longrightarrow> pending_indexes d = indexes_new \<Longrightarrow> store_inv d"
  by (simp add: store_inv_def index_of_def)

lemma load_facts_inv: "store_inv (data s) \<Longrightarrow> store_inv (data (snd (load_facts fs s)))"
  by (auto simp: load_facts_eq Let_def append_facts_inv split: sum.splits)

lemma write_step_inv: "write_step s t \<Longrightarrow> store_inv (data s) \<Longrightarrow> store_inv (data t)"
  by (induction rule: write_step.induct)
    (auto simp: write_defs append_facts_inv split: sum.splits)

lemma store_step_inv:
  assumes "store_step s t" "store_inv (data s)"
  shows "store_inv (data t)"
  using assms
proof cases
  case (load1 f)
  with assms(2) load_facts_inv [of s "[f]"] show ?thesis by (simp add: load_fact_eq split_beta)
next
  case writing
  then show ?thesis using assms(2) by (rule write_step_inv)
next
  case load
  with assms(2) show ?thesis by (simp add: load_facts_inv)
qed (simp_all add: restore_tx_counter_def restore_tx_counter_from_def clear_def set_committed_reader_def
    set_committed_index_reader_def guard_publish_def store_inv_def index_of_def)

lemma reachable_inv: "reachable s \<Longrightarrow> store_inv (data s)"
  by (induction rule: reachable.induct)
    (simp_all add: store_step_inv store_inv_empty fact_storage_new_def fact_data_new_def)

text \<open>
  C38. In every reachable store the log has at most \<open>2 ^ 32\<close> records, the duplicate set is
  the set of keys of the log, and the four pending indexes are the ones obtained by
  inserting the log's records in order, each under its own slot.
\<close>

theorem reachable_store_inv:
  assumes "reachable s"
  shows "length (facts (data s)) \<le> 2 ^ 32 \<and> pending_keys (data s) = pending_key ` set (facts (data s)) \<and>
    pending_indexes (data s) = index_of (facts (data s))"
  using reachable_inv [OF assms] by (simp add: store_inv_def)

theorem reachable_store_inv_witness:
  "length (facts (data (snd (transact 7 [(1, '':a'', VNull)] None fact_storage_new)))) \<le> 2 ^ 32 \<and>
   pending_keys (data (snd (transact 7 [(1, '':a'', VNull)] None fact_storage_new))) =
     pending_key ` set (facts (data (snd (transact 7 [(1, '':a'', VNull)] None fact_storage_new)))) \<and>
   pending_indexes (data (snd (transact 7 [(1, '':a'', VNull)] None fact_storage_new))) =
     index_of (facts (data (snd (transact 7 [(1, '':a'', VNull)] None fact_storage_new))))"
  by (rule reachable_store_inv)
    (rule reachable.step [OF reachable.start store_step.writing [OF write_step.transact]])

section \<open>Loading\<close>

lemma new_facts_subset: "set (new_facts seen fs) \<subseteq> set fs"
  by (induction seen fs rule: new_facts.induct) auto

lemma new_facts_keys:
  "pending_key ` set (new_facts seen fs) = pending_key ` set fs - seen"
  by (induction seen fs rule: new_facts.induct) auto

lemma new_facts_distinct: "distinct (map pending_key (new_facts seen fs))"
  by (induction seen fs rule: new_facts.induct) (simp_all add: new_facts_keys)

lemma new_facts_seen: "pending_key ` set fs \<subseteq> seen \<Longrightarrow> new_facts seen fs = []"
  by (induction seen fs rule: new_facts.induct) auto

text \<open>
  Replaying is idempotent: once a batch has loaded, the log has no duplicates among the
  new records and every record of the batch is present under its key, and loading the
  same batch (or any part of it) again adds nothing and changes nothing.
\<close>

lemma load_facts_idempotent:
  assumes "reachable s" and "load_facts fs s = (Ok n, t)" and "set gs \<subseteq> set fs"
  shows "facts (data t) = facts (data s) @ new_facts (pending_keys (data s)) fs \<and>
    distinct (map pending_key (new_facts (pending_keys (data s)) fs)) \<and>
    pending_key ` set fs \<subseteq> pending_keys (data t) \<and> load_facts gs t = (Ok 0, t)"
proof -
  let ?new = "new_facts (pending_keys (data s)) fs"
  from assms(2) obtain d where d: "append_facts ?new (data s) = Ok d" "t = s\<lparr>data := d\<rparr>"
    by (auto simp: load_facts_eq Let_def split: sum.splits)
  have inv: "store_inv (data s)" using assms(1) by (rule reachable_inv)
  have t: "facts (data t) = facts (data s) @ ?new" and "store_inv (data t)"
    using append_facts_Inr(1) [OF d(1)] append_facts_inv [OF inv d(1)] by (simp_all add: d(2))
  then have "pending_keys (data t) = pending_key ` set (facts (data s) @ ?new)"
    by (simp add: store_inv_def)
  also have "\<dots> = pending_keys (data s) \<union> pending_key ` set fs"
    using inv by (auto simp: store_inv_def image_Un new_facts_keys)
  finally have keys: "pending_keys (data t) = pending_keys (data s) \<union> pending_key ` set fs" .
  with assms(3) have "new_facts (pending_keys (data t)) gs = []"
    by (intro new_facts_seen) auto
  then have "load_facts gs t = (Ok 0, t)"
    by (cases t) (simp add: load_facts_eq append_facts_def pending_refs_eq)
  with t keys show ?thesis by (simp add: new_facts_distinct)
qed

section \<open>Lookups\<close>

text \<open>
  Each index of a log is a map filled in log order, so it holds the last record of each key.
\<close>

definition keyed :: "('k \<Rightarrow> 'v) \<Rightarrow> 'k list \<Rightarrow> ('v \<times> fact_ref) list" where
  "keyed key fs = zip (map key fs) (map slot_ref [0..<length fs])"

lemma eavt_index_of: "eavt (index_of fs) = fold (\<lambda>(k, v). btm_insert k v) (keyed eavt_key_of fs) []"
  by (induction fs rule: rev_induct)
    (simp_all add: index_of_snoc keyed_def indexes_insert_def index_of_def indexes_new_def split: value_t.splits)

lemma aevt_index_of: "aevt (index_of fs) = fold (\<lambda>(k, v). btm_insert k v) (keyed aevt_key_of fs) []"
  by (induction fs rule: rev_induct)
    (simp_all add: index_of_snoc keyed_def indexes_insert_def index_of_def indexes_new_def split: value_t.splits)

lemma filled_map_mset:
  fixes kvs :: "('k :: linorder \<times> 'v) list"
  assumes "distinct (map fst kvs)"
  shows "mset (fold (\<lambda>(k, v). btm_insert k v) kvs []) = mset kvs"
proof -
  let ?m = "fold (\<lambda>(k, v). btm_insert k v) kvs []"
  have asc: "ascending ?m" by (rule btm.invar_fold) simp
  have "(k, v) \<in> set ?m \<longleftrightarrow> (k, v) \<in> set kvs" for k v
    using assms map_of_eq_Some_iff [of "rev kvs" k v]
    by (auto simp: btm_get_in_set [OF asc, symmetric] btm.get_fold rev_map [symmetric]
      split: option.splits dest: eq_key_imp_eq_value)
  then have "set ?m = set kvs" by auto
  then show ?thesis
    using assms ascending_distinct_keys [OF asc]
    by (simp add: set_eq_iff_mset_eq_distinct [symmetric] distinct_map)
qed

lemma resolve_slot:
  assumes "store_inv d" "i < length (facts d)"
  shows "resolve_fact_ref d (slot_ref i) = Ok (facts d ! i)"
  using assms by (simp add: resolve_fact_ref_def slot_ref_def store_inv_def elem_get_def unat_of_nat)

lemma keyed_map: "keyed key fs = map (\<lambda>i. (key (fs ! i), slot_ref i)) [0..<length fs]"
  by (rule nth_equalityI) (simp_all add: keyed_def)

lemma filter_nth: "map ((!) fs) (filter (\<lambda>i. P (fs ! i)) [0..<length fs]) = filter P fs"
proof -
  have "filter P fs = filter P (map ((!) fs) [0..<length fs])" by (simp only: map_nth)
  then show ?thesis by (simp add: filter_map o_def)
qed

text \<open>Resolving the entries of a block of an index gives the facts of the log in the block.\<close>

lemma collect_block:
  assumes inv: "store_inv d" and m: "mset m = mset (keyed key (facts d))"
  shows "\<exists>gs. collect_map (\<lambda>(k, r). resolve_fact_ref d r) (filter (\<lambda>(k, r). P k) m) = Ok gs \<and>
    mset gs = filter_mset (\<lambda>f. P (key f)) (mset (facts d))"
proof -
  let ?get = "\<lambda>(k, r). facts d ! unat (slot_index r)"
  have get: "?get (key (facts d ! i), slot_ref i) = facts d ! i" if "i < length (facts d)" for i
    using that inv by (simp add: slot_ref_def store_inv_def unat_of_nat)
  have "collect_map (\<lambda>(k, r). resolve_fact_ref d r) (filter (\<lambda>(k, r). P k) m) =
      Ok (map ?get (filter (\<lambda>(k, r). P k) m))"
  proof (rule collect_map_Inr)
    fix e assume "e \<in> set (filter (\<lambda>(k, r). P k) m)"
    then have "e \<in> set (keyed key (facts d))" using mset_eq_setD [OF m] by auto
    then show "(case e of (k, r) \<Rightarrow> resolve_fact_ref d r) = Ok (?get e)"
      using resolve_slot [OF inv] get by (auto simp: keyed_map)
  qed
  moreover have "mset (map ?get (filter (\<lambda>(k, r). P k) m)) =
      mset (map ?get (filter (\<lambda>(k, r). P k) (keyed key (facts d))))"
    using m by (simp add: mset_filter)
  moreover have "map ?get (filter (\<lambda>(k, r). P k) (keyed key (facts d))) =
      map ((!) (facts d)) (filter (\<lambda>i. P (key (facts d ! i))) [0..<length (facts d)])"
    using get by (simp add: keyed_map filter_map o_def)
  ultimately show ?thesis by (simp add: filter_nth [where P = "\<lambda>f. P (key f)"])
qed

lemma less_attr_succ: "s < attr_succ a \<longleftrightarrow> s \<le> a"
proof (induction a arbitrary: s)
  case Nil
  have "\<not> c < CHR 0x00" for c by (simp add: less_char_def)
  then show ?case by (cases s) (auto simp: attr_succ_def)
next
  case (Cons c a)
  then show ?case by (cases s) (auto simp: attr_succ_def)
qed

lemma uuid_succ: "e \<noteq> max_uuid \<Longrightarrow> x < e + 1 \<longleftrightarrow> x \<le> (e :: uuid)"
proof -
  assume "e \<noteq> max_uuid"
  then have "unat e \<noteq> 2 ^ 128 - 1" by (auto simp: max_uuid_def word_unat_eq_iff)
  then have "unat e + 1 < 2 ^ 128" using unat_bounds(4) [of e] by simp
  then have "unat (e + 1) = unat e + 1" by (simp add: unat_word_ariths(1))
  then show ?thesis by (auto simp: word_less_nat_alt word_le_nat_alt)
qed

lemma Nil_less_iff [simp]: "([] :: 'a :: order list) < s \<longleftrightarrow> s \<noteq> []"
  by (cases s) simp_all

lemma entity_bounds:
  "e \<noteq> max_uuid \<Longrightarrow> eavt_min e [] \<le> k \<and> k < eavt_min (e + 1) [] \<longleftrightarrow> ek_entity k = e"
  using uuid_succ [of e "ek_entity k"]
  by (cases k) (auto simp: eavt_min_def key_order_defs order.order_iff_strict)

lemma entity_attribute_bounds:
  "eavt_min e a \<le> k \<and> k < eavt_min e (attr_succ a) \<longleftrightarrow> ek_entity k = e \<and> ek_attribute k = a"
  using less_attr_succ [of "ek_attribute k" a]
  by (cases k) (auto simp: eavt_min_def key_order_defs less_attr_succ)

lemma attribute_bounds:
  "aevt_min a \<le> k \<and> k < aevt_min (attr_succ a) \<longleftrightarrow> ae_attribute k = a"
  using less_attr_succ [of "ae_attribute k" a]
  by (cases k) (auto simp: aevt_min_def key_order_defs less_attr_succ)

section \<open>The committed side\<close>

text \<open>
  What the store relies on of its committed readers: they are installed together, the fact
  reader streams the committed facts, and a range scan of an index, once resolved, gives
  the committed facts whose key is in the range (references into committed pages never
  have page 0).
\<close>

definition scan_ok :: "(fact_ref \<Rightarrow> fact result) \<Rightarrow> fact_ref list result \<Rightarrow> fact multiset \<Rightarrow> bool" where
  "scan_ok res scan expected \<longleftrightarrow> (\<exists>refs gs. scan = Ok refs \<and> (\<forall>r \<in> set refs. page_id r \<noteq> 0) \<and>
     collect_map res refs = Ok gs \<and> mset gs = expected)"

definition committed_ok :: "fact_data \<Rightarrow> fact list \<Rightarrow> bool" where
  "committed_ok d cs \<longleftrightarrow> (case committed d of
      None \<Rightarrow> committed_index_reader d = None \<and> cs = []
    | Some l \<Rightarrow> stream_all l = Ok cs \<and> (\<exists>ir. committed_index_reader d = Some ir \<and>
        (\<forall>a b. scan_ok (resolve l) (range_scan_eavt ir a (Some b))
           (filter_mset (\<lambda>f. a \<le> eavt_key_of f \<and> eavt_key_of f < b) (mset cs))) \<and>
        (\<forall>a b. scan_ok (resolve l) (range_scan_aevt ir a (Some b))
           (filter_mset (\<lambda>f. a \<le> aevt_key_of f \<and> aevt_key_of f < b) (mset cs)))))"

fun lookup_matches :: "lookup \<Rightarrow> fact \<Rightarrow> bool" where
  "lookup_matches (LEntity e) f \<longleftrightarrow> entity f = e"
| "lookup_matches (LEntityAttribute e a) f \<longleftrightarrow> entity f = e \<and> attribute f = a"
| "lookup_matches (LAttribute a) f \<longleftrightarrow> attribute f = a"

lemma lookup_matches_eta:
  "lookup_matches (LEntity e) = (\<lambda>f. entity f = e)"
  "lookup_matches (LEntityAttribute e a) = (\<lambda>f. entity f = e \<and> attribute f = a)"
  "lookup_matches (LAttribute a) = (\<lambda>f. attribute f = a)"
  by (simp_all add: fun_eq_iff)

lemma resolve_committed:
  "committed d = Some l \<Longrightarrow> \<forall>r \<in> set refs. page_id r \<noteq> 0 \<Longrightarrow>
   collect_map (resolve_fact_ref d) refs = collect_map (resolve l) refs"
  by (induction refs) (simp_all add: resolve_fact_ref_def)

lemma committed_scan:
  assumes "committed d = Some l" "scan_ok (resolve l) scan ms"
  obtains refs gs where "scan = Ok refs" "collect_map (resolve_fact_ref d) refs = Ok gs" "mset gs = ms"
  using assms resolve_committed [OF assms(1)] by (auto simp: scan_ok_def)

lemma committed_someE:
  assumes "committed_ok d cs" "committed d = Some l"
  obtains ir where "committed_index_reader d = Some ir"
    "\<forall>a b. scan_ok (resolve l) (range_scan_eavt ir a (Some b))
       (filter_mset (\<lambda>f. a \<le> eavt_key_of f \<and> eavt_key_of f < b) (mset cs))"
    "\<forall>a b. scan_ok (resolve l) (range_scan_aevt ir a (Some b))
       (filter_mset (\<lambda>f. a \<le> aevt_key_of f \<and> aevt_key_of f < b) (mset cs))"
  using assms by (auto simp: committed_ok_def)

lemma key_of_fields [simp]:
  "ek_entity (eavt_key_of f) = entity f" "ek_attribute (eavt_key_of f) = attribute f"
  "ae_attribute (aevt_key_of f) = attribute f"
  by (simp_all add: eavt_key_of_def aevt_key_of_def)

lemma entity_facts_exact:
  assumes inv: "store_inv d" and keys: "distinct (map eavt_key_of (facts d))"
    and c: "committed_ok d cs" and e: "e \<noteq> max_uuid"
  shows "\<exists>gs. entity_facts d e = Ok gs \<and>
    mset gs = filter_mset (\<lambda>f. entity f = e) (mset (facts d @ cs))"
proof -
  have m: "mset (eavt (pending_indexes d)) = mset (keyed eavt_key_of (facts d))"
    using inv keys by (simp add: store_inv_def eavt_index_of filled_map_mset keyed_def)
  let ?b = "filter (\<lambda>(k, v). ek_entity k = e) (eavt (pending_indexes d))"
  have r: "btm_range (eavt (pending_indexes d)) (eavt_min e []) (eavt_min (e + 1) []) = Ok ?b"
    using uuid_succ [OF e, of e] unfolding btm_range_def entity_bounds [OF e]
    by (auto simp: eavt_min_def key_order_defs)
  have t: "takeWhile (\<lambda>(k, r). ek_entity k = e) ?b = ?b"
    by (auto simp: takeWhile_eq_all_conv)
  obtain ps where ps: "collect_map (\<lambda>(k, r). resolve_fact_ref d r) ?b = Ok ps"
    "mset ps = filter_mset (\<lambda>f. entity f = e) (mset (facts d))"
    using collect_block [OF inv m, of "\<lambda>k. ek_entity k = e"] by (auto simp: eavt_key_of_def)
  show ?thesis
  proof (cases "committed d")
    case None
    with c show ?thesis
      by (auto simp: entity_facts_def committed_ok_def r t ps Let_def)
  next
    case (Some l)
    obtain ir where ir: "committed_index_reader d = Some ir"
      and ev: "\<forall>a b. scan_ok (resolve l) (range_scan_eavt ir a (Some b))
        (filter_mset (\<lambda>f. a \<le> eavt_key_of f \<and> eavt_key_of f < b) (mset cs))"
      and ae: "\<forall>a b. scan_ok (resolve l) (range_scan_aevt ir a (Some b))
        (filter_mset (\<lambda>f. a \<le> aevt_key_of f \<and> aevt_key_of f < b) (mset cs))"
      using c Some by (rule committed_someE)
    have "scan_ok (resolve l) (range_scan_eavt ir (eavt_min e []) (Some (eavt_min (e + 1) [])))
        (filter_mset (\<lambda>f. entity f = e) (mset cs))"
      using ev [rule_format, of "eavt_min e []" "eavt_min (e + 1) []"]
      unfolding entity_bounds [OF e] by simp
    then obtain refs gs where "range_scan_eavt ir (eavt_min e []) (Some (eavt_min (e + 1) [])) = Ok refs"
      "collect_map (resolve_fact_ref d) refs = Ok gs" "mset gs = filter_mset (\<lambda>f. entity f = e) (mset cs)"
      using committed_scan [OF Some] by blast
    with ir show ?thesis by (simp add: entity_facts_def r t ps)
  qed
qed

lemma entity_attribute_facts_exact:
  assumes inv: "store_inv d" and keys: "distinct (map eavt_key_of (facts d))" and c: "committed_ok d cs"
  shows "\<exists>gs. entity_attribute_facts d e a = Ok gs \<and>
    mset gs = filter_mset (\<lambda>f. entity f = e \<and> attribute f = a) (mset (facts d @ cs))"
proof -
  let ?P = "\<lambda>f. entity f = e \<and> attribute f = a" and ?Q = "\<lambda>k. ek_entity k = e \<and> ek_attribute k = a"
  let ?m = "eavt (pending_indexes d)"
  have m: "mset ?m = mset (keyed eavt_key_of (facts d))" and asc: "ascending ?m"
    using inv keys btm.invar_fold [of "[]"]
    by (simp_all add: store_inv_def eavt_index_of filled_map_mset keyed_def)
  have "takeWhile (\<lambda>(k, r). ?Q k) (btm_range_from ?m (eavt_min e a)) =
      filter (\<lambda>(k, r). eavt_min e a \<le> k \<and> ?Q k) ?m"
    by (rule takeWhile_filter_block [OF asc])
      (metis entity_attribute_bounds order.strict_trans)
  also have "\<dots> = filter (\<lambda>(k, r). ?Q k) ?m"
    by (rule filter_cong) (auto simp: entity_attribute_bounds [symmetric])
  finally have t: "takeWhile (\<lambda>(k, r). ?Q k) (btm_range_from ?m (eavt_min e a)) = filter (\<lambda>(k, r). ?Q k) ?m" .
  obtain ps where ps: "collect_map (\<lambda>(k, r). resolve_fact_ref d r) (filter (\<lambda>(k, r). ?Q k) ?m) = Ok ps"
    "mset ps = filter_mset ?P (mset (facts d))"
    using collect_block [OF inv m, of ?Q] by (auto simp: eavt_key_of_def)
  show ?thesis
  proof (cases "committed d")
    case None
    with c show ?thesis by (auto simp: entity_attribute_facts_def committed_ok_def t ps Let_def)
  next
    case (Some l)
    obtain ir where ir: "committed_index_reader d = Some ir"
      and ev: "\<forall>a b. scan_ok (resolve l) (range_scan_eavt ir a (Some b))
        (filter_mset (\<lambda>f. a \<le> eavt_key_of f \<and> eavt_key_of f < b) (mset cs))"
      and ae: "\<forall>a b. scan_ok (resolve l) (range_scan_aevt ir a (Some b))
        (filter_mset (\<lambda>f. a \<le> aevt_key_of f \<and> aevt_key_of f < b) (mset cs))"
      using c Some by (rule committed_someE)
    have "scan_ok (resolve l) (range_scan_eavt ir (eavt_min e a) (Some (eavt_min e (attr_succ a))))
        (filter_mset ?P (mset cs))"
      using ev [rule_format, of "eavt_min e a" "eavt_min e (attr_succ a)"]
      unfolding entity_attribute_bounds by simp
    then obtain refs gs where "range_scan_eavt ir (eavt_min e a) (Some (eavt_min e (attr_succ a))) = Ok refs"
      "collect_map (resolve_fact_ref d) refs = Ok gs" "mset gs = filter_mset ?P (mset cs)"
      using committed_scan [OF Some] by blast
    with ir show ?thesis by (simp add: entity_attribute_facts_def t ps filter_filter_mset)
  qed
qed

lemma attribute_facts_exact:
  assumes inv: "store_inv d" and keys: "distinct (map aevt_key_of (facts d))" and c: "committed_ok d cs"
  shows "\<exists>gs. attribute_facts d a = Ok gs \<and>
    mset gs = filter_mset (\<lambda>f. attribute f = a) (mset (facts d @ cs))"
proof -
  let ?m = "aevt (pending_indexes d)"
  have m: "mset ?m = mset (keyed aevt_key_of (facts d))"
    using inv keys by (simp add: store_inv_def aevt_index_of filled_map_mset keyed_def)
  have r: "btm_range ?m (aevt_min a) (aevt_min (attr_succ a)) = Ok (filter (\<lambda>(k, v). ae_attribute k = a) ?m)"
    using less_attr_succ [of a a] unfolding btm_range_def attribute_bounds
    by (auto simp: aevt_min_def key_order_defs)
  obtain ps where ps: "collect_map (\<lambda>(k, r). resolve_fact_ref d r) (filter (\<lambda>(k, v). ae_attribute k = a) ?m) = Ok ps"
    "mset ps = filter_mset (\<lambda>f. attribute f = a) (mset (facts d))"
    using collect_block [OF inv m, of "\<lambda>k. ae_attribute k = a"] by (auto simp: aevt_key_of_def)
  show ?thesis
  proof (cases "committed d")
    case None
    with c show ?thesis by (auto simp: attribute_facts_def all_facts_def committed_ok_def r ps Let_def)
  next
    case (Some l)
    obtain ir where ir: "committed_index_reader d = Some ir"
      and ev: "\<forall>a b. scan_ok (resolve l) (range_scan_eavt ir a (Some b))
        (filter_mset (\<lambda>f. a \<le> eavt_key_of f \<and> eavt_key_of f < b) (mset cs))"
      and ae: "\<forall>a b. scan_ok (resolve l) (range_scan_aevt ir a (Some b))
        (filter_mset (\<lambda>f. a \<le> aevt_key_of f \<and> aevt_key_of f < b) (mset cs))"
      using c Some by (rule committed_someE)
    have "scan_ok (resolve l) (range_scan_aevt ir (aevt_min a) (Some (aevt_min (attr_succ a))))
        (filter_mset (\<lambda>f. attribute f = a) (mset cs))"
      using ae [rule_format, of "aevt_min a" "aevt_min (attr_succ a)"]
      unfolding attribute_bounds by simp
    then obtain refs gs where "range_scan_aevt ir (aevt_min a) (Some (aevt_min (attr_succ a))) = Ok refs"
      "collect_map (resolve_fact_ref d) refs = Ok gs" "mset gs = filter_mset (\<lambda>f. attribute f = a) (mset cs)"
      using committed_scan [OF Some] by blast
    with ir show ?thesis by (simp add: attribute_facts_def r ps filter_filter_mset)
  qed
qed

lemma lookups_exact:
  assumes "reachable s" and "distinct (map eavt_key_of (facts (data s)))"
    and "distinct (map aevt_key_of (facts (data s)))" and "committed_ok (data s) cs"
    and "LEntity max_uuid \<notin> set ls"
  shows "\<exists>gs. get_facts_for_lookups ls s = Ok gs \<and>
    mset gs = (\<Sum>l \<leftarrow> ls. filter_mset (lookup_matches l) (mset (facts (data s) @ cs)))"
proof -
  let ?all = "mset (facts (data s) @ cs)"
  have inv: "store_inv (data s)" using assms(1) by (rule reachable_inv)
  have one: "\<exists>gs. run_lookup (data s) l = Ok gs \<and> mset gs = filter_mset (lookup_matches l) ?all"
    if "l \<in> set ls" for l
  proof (cases l)
    case (LEntity e)
    with that assms(5) have "e \<noteq> max_uuid" by auto
    from entity_facts_exact [OF inv assms(2,4) this] LEntity show ?thesis by (simp add: lookup_matches_eta)
  next
    case (LEntityAttribute e a)
    with entity_attribute_facts_exact [OF inv assms(2,4)] show ?thesis by (simp add: lookup_matches_eta)
  next
    case (LAttribute a)
    with attribute_facts_exact [OF inv assms(3,4)] show ?thesis by (simp add: lookup_matches_eta)
  qed
  have "\<exists>gss. collect_map (run_lookup (data s)) ls = Ok gss \<and>
      mset (concat gss) = (\<Sum>l \<leftarrow> ls. filter_mset (lookup_matches l) ?all)"
    using one
  proof (induction ls)
    case Nil
    then show ?case by simp
  next
    case (Cons l ls)
    from Cons.prems obtain g where "run_lookup (data s) l = Ok g" "mset g = filter_mset (lookup_matches l) ?all"
      by (meson list.set_intros(1))
    moreover from Cons.IH Cons.prems obtain gss where "collect_map (run_lookup (data s)) ls = Ok gss"
      "mset (concat gss) = (\<Sum>l \<leftarrow> ls. filter_mset (lookup_matches l) ?all)"
      by (meson list.set_intros(2))
    ultimately show ?case by simp
  qed
  then show ?thesis by (auto simp: get_facts_for_lookups_def)
qed

text \<open>
  C4. Index-driven retrieval is exact. In a reachable store whose pending records have
  pairwise different EAVT and AEVT keys and whose committed readers keep their contract,
  \<^verbatim>\<open>get_facts_for_lookups\<close> succeeds and returns, for each lookup, exactly the pending and
  committed records that match it, with their multiplicities. The entity lookup of the
  greatest UUID is excluded: the code computes its upper bound by wrapping to zero.
\<close>

theorem get_facts_for_lookups_exact:
  assumes "reachable s" and "distinct (map eavt_key_of (facts (data s)))"
    and "distinct (map aevt_key_of (facts (data s)))" and "committed_ok (data s) cs"
    and "LEntity max_uuid \<notin> set ls"
  shows "\<exists>gs. get_facts_for_lookups ls s = Ok gs \<and>
    mset gs = (\<Sum>l \<leftarrow> ls. filter_mset (lookup_matches l) (mset (facts (data s) @ cs)))"
  using assms by (rule lookups_exact)

theorem get_facts_for_lookups_exact_witness:
  "\<exists>gs. get_facts_for_lookups [LEntity 1, LAttribute '':a''] (snd (transact 7 [(1, '':a'', VNull)] None fact_storage_new)) = Ok gs \<and>
    mset gs = (\<Sum>l \<leftarrow> [LEntity 1, LAttribute '':a'']. filter_mset (lookup_matches l)
      (mset (facts (data (snd (transact 7 [(1, '':a'', VNull)] None fact_storage_new))) @ [])))"
proof (rule get_facts_for_lookups_exact)
  show "reachable (snd (transact 7 [(1, '':a'', VNull)] None fact_storage_new))"
    by (rule reachable.step [OF reachable.start store_step.writing [OF write_step.transact]])
qed (simp_all add: write_defs append_facts_def pending_refs_eq fact_storage_new_def fact_data_new_def
  committed_ok_def max_uuid_def register_def)

text \<open>
  C40. The excluded case. In a reachable store with any pending record, looking up the entity
  with the greatest UUID calls \<^verbatim>\<open>BTreeMap::range\<close> with an end below its start, which panics,
  where every other entity is answered.
\<close>

theorem entity_facts_max_uuid_panics:
  assumes "reachable s" and "facts (data s) \<noteq> []"
  shows "entity_facts (data s) max_uuid = Err Panic"
proof -
  obtain fs f where fs: "facts (data s) = fs @ [f]" using assms(2) by (metis rev_exhaust)
  have "eavt (pending_indexes (data s)) \<noteq> []"
    using reachable_inv [OF assms(1)] by (simp add: store_inv_def fs index_of_snoc indexes_insert_def)
  moreover have "max_uuid + 1 = 0" by (simp add: max_uuid_def)
  ultimately show ?thesis
    by (simp add: entity_facts_def btm_range_def eavt_min_def key_order_defs max_uuid_def)
qed

theorem entity_facts_max_uuid_panics_witness:
  "entity_facts (data (snd (transact 7 [(1, '':a'', VNull)] None fact_storage_new))) max_uuid = Err Panic"
proof (rule entity_facts_max_uuid_panics)
  show "reachable (snd (transact 7 [(1, '':a'', VNull)] None fact_storage_new))"
    by (rule reachable.step [OF reachable.start store_step.writing [OF write_step.transact]])
qed (simp add: write_defs append_facts_def pending_refs_eq fact_storage_new_def fact_data_new_def)

end
