(* ===== verification/Datalog_Types.thy ===== *)
theory Datalog_Types
  imports Fact_Storage
begin

text \<open>
  The syntax trees of the query language, \<^verbatim>\<open>src/query/datalog/types.rs\<close>: EDN values,
  expressions, patterns, where clauses, queries, rules and commands, with their helper
  methods. A compiled regular expression is determined by its pattern string, which is what
  \<^verbatim>\<open>BinOp\<close>'s own equality and hash look at, so \<open>Matches\<close> carries the string only.
\<close>

section \<open>EDN values\<close>

datatype edn_value =
    Keyword string
  | Symbol string
  | EString string
  | EInteger i64
  | EFloat f64
  | EBoolean bool
  | Uuid uuid
  | Vector "edn_value list"
  | List "edn_value list"
  | Map "(edn_value \<times> edn_value) list"
  | Nil_edn
  | BindSlot string

fun as_variable :: "edn_value \<Rightarrow> string option" where
  "as_variable (Symbol s) = (if take 1 s = ''?'' then Some s else None)"
| "as_variable _ = None"

definition is_variable :: "edn_value \<Rightarrow> bool" where
  "is_variable v = (case v of Symbol s \<Rightarrow> take 1 s = ''?'' | _ \<Rightarrow> False)"

fun edn_as_keyword :: "edn_value \<Rightarrow> string option" where
  "edn_as_keyword (Keyword k) = Some k"
| "edn_as_keyword _ = None"

definition is_keyword :: "edn_value \<Rightarrow> bool" where
  "is_keyword v = (case v of Keyword _ \<Rightarrow> True | _ \<Rightarrow> False)"

fun as_vector :: "edn_value \<Rightarrow> edn_value list option" where
  "as_vector (Vector v) = Some v"
| "as_vector _ = None"

definition is_vector :: "edn_value \<Rightarrow> bool" where
  "is_vector v = (case v of Vector _ \<Rightarrow> True | _ \<Rightarrow> False)"

fun as_list :: "edn_value \<Rightarrow> edn_value list option" where
  "as_list (List l) = Some l"
| "as_list _ = None"

definition is_list :: "edn_value \<Rightarrow> bool" where
  "is_list v = (case v of List _ \<Rightarrow> True | _ \<Rightarrow> False)"

fun as_map :: "edn_value \<Rightarrow> (edn_value \<times> edn_value) list option" where
  "as_map (Map m) = Some m"
| "as_map _ = None"

definition is_map :: "edn_value \<Rightarrow> bool" where
  "is_map v = (case v of Map _ \<Rightarrow> True | _ \<Rightarrow> False)"

section \<open>Expressions and find specifications\<close>

datatype window_func = WSum | WCount | WMin | WMax | WAvg | WRank | WRowNumber | WUdf string

datatype sort_order = Asc | Desc

record window_spec =
  ws_func :: window_func
  ws_var :: "string option"
  ws_partition_by :: "string option"
  ws_order_by :: string
  ws_order :: sort_order

definition func_name :: "window_spec \<Rightarrow> string" where
  "func_name ws = (case ws_func ws of
      WSum \<Rightarrow> ''sum'' | WCount \<Rightarrow> ''count'' | WMin \<Rightarrow> ''min'' | WMax \<Rightarrow> ''max'' | WAvg \<Rightarrow> ''avg''
    | WRank \<Rightarrow> ''rank'' | WRowNumber \<Rightarrow> ''row-number'' | WUdf name \<Rightarrow> name)"

datatype bin_op =
    Lt | Gt | Lte | Gte | EqOp | Neq
  | Add | Sub | Mul | Div
  | StartsWith | EndsWith | Contains
  | Matches string

datatype unary_op = StringQ | IntegerQ | FloatQ | BooleanQ | NilQ | UUdf string

datatype expr =
    Var string
  | Lit value_t
  | Slot string
  | BinOp bin_op expr expr
  | UnaryOp unary_op expr

datatype find_spec =
    FVariable string
  | FAggregate string string
  | FWindow window_spec

fun display_name :: "find_spec \<Rightarrow> string" where
  "display_name (FVariable v) = v"
| "display_name (FAggregate func v) = ''('' @ func @ '' '' @ v @ '')''"
| "display_name (FWindow ws) = (case ws_var ws of
      Some v \<Rightarrow> ''('' @ func_name ws @ '' '' @ v @ '' :over ...)''
    | None \<Rightarrow> ''('' @ func_name ws @ '' :over ...)'')"

fun find_var :: "find_spec \<Rightarrow> string" where
  "find_var (FVariable v) = v"
| "find_var (FAggregate func v) = v"
| "find_var (FWindow ws) = (case ws_var ws of Some v \<Rightarrow> v | None \<Rightarrow> ''__window_var'')"

section \<open>Patterns\<close>

datatype pseudo_attr = ValidFrom | ValidTo | TxCount | TxId | ValidAtAttr

fun from_keyword :: "string \<Rightarrow> pseudo_attr option" where
  "from_keyword k =
     (if k = '':db/valid-from'' then Some ValidFrom
      else if k = '':db/valid-to'' then Some ValidTo
      else if k = '':db/tx-count'' then Some TxCount
      else if k = '':db/tx-id'' then Some TxId
      else if k = '':db/valid-at'' then Some ValidAtAttr
      else None)"

fun pseudo_as_keyword :: "pseudo_attr \<Rightarrow> string" where
  "pseudo_as_keyword ValidFrom = '':db/valid-from''"
| "pseudo_as_keyword ValidTo = '':db/valid-to''"
| "pseudo_as_keyword TxCount = '':db/tx-count''"
| "pseudo_as_keyword TxId = '':db/tx-id''"
| "pseudo_as_keyword ValidAtAttr = '':db/valid-at''"

definition is_per_fact :: "pseudo_attr \<Rightarrow> bool" where
  "is_per_fact p = (case p of ValidAtAttr \<Rightarrow> False | _ \<Rightarrow> True)"

datatype attribute_spec = Real edn_value | Pseudo pseudo_attr

record pattern =
  pat_entity :: edn_value
  pat_attribute :: attribute_spec
  pat_value :: edn_value
  pat_valid_from :: "i64 option"
  pat_valid_to :: "i64 option"

definition pattern_new :: "edn_value \<Rightarrow> edn_value \<Rightarrow> edn_value \<Rightarrow> pattern" where
  "pattern_new e a v = \<lparr>pat_entity = e, pat_attribute = Real a, pat_value = v,
     pat_valid_from = None, pat_valid_to = None\<rparr>"

definition pattern_pseudo :: "edn_value \<Rightarrow> pseudo_attr \<Rightarrow> edn_value \<Rightarrow> pattern" where
  "pattern_pseudo e p v = \<lparr>pat_entity = e, pat_attribute = Pseudo p, pat_value = v,
     pat_valid_from = None, pat_valid_to = None\<rparr>"

definition pattern_with_valid_time ::
    "edn_value \<Rightarrow> edn_value \<Rightarrow> edn_value \<Rightarrow> i64 option \<Rightarrow> i64 option \<Rightarrow> pattern" where
  "pattern_with_valid_time e a v vf vt = \<lparr>pat_entity = e, pat_attribute = Real a, pat_value = v,
     pat_valid_from = vf, pat_valid_to = vt\<rparr>"

text \<open>The error is a message string, not a code.\<close>

definition from_edn :: "edn_value list \<Rightarrow> pattern option" where
  "from_edn vs = (case vs of [e, a, v] \<Rightarrow> Some (pattern_new e a v) | _ \<Rightarrow> None)"

section \<open>Clauses, queries, rules\<close>

datatype where_clause =
    PatternC pattern
  | RuleInvocation string "edn_value list"
  | Not "where_clause list"
  | NotJoin "string list" "where_clause list"
  | ExprC expr "string option"
  | Or "where_clause list list"
  | OrJoin "string list" "where_clause list list"

fun rule_invocations :: "where_clause \<Rightarrow> string list" where
  "rule_invocations (PatternC _) = []"
| "rule_invocations (RuleInvocation p _) = [p]"
| "rule_invocations (Not cs) = concat (map rule_invocations cs)"
| "rule_invocations (NotJoin _ cs) = concat (map rule_invocations cs)"
| "rule_invocations (ExprC _ _) = []"
| "rule_invocations (Or bs) = concat (map (\<lambda>b. concat (map rule_invocations b)) bs)"
| "rule_invocations (OrJoin _ bs) = concat (map (\<lambda>b. concat (map rule_invocations b)) bs)"

fun has_negated_invocation :: "where_clause \<Rightarrow> bool" where
  "has_negated_invocation (Not cs) = list_ex (\<lambda>c. case c of RuleInvocation _ _ \<Rightarrow> True | _ \<Rightarrow> False) cs"
| "has_negated_invocation (NotJoin _ cs) = list_ex (\<lambda>c. case c of RuleInvocation _ _ \<Rightarrow> True | _ \<Rightarrow> False) cs"
| "has_negated_invocation _ = False"

datatype valid_at = VTimestamp i64 | AnyValidTime | VSlot string

record datalog_query =
  find :: "find_spec list"
  where_clauses :: "where_clause list"
  query_as_of :: "as_of option"
  query_valid_at :: "valid_at option"
  with_vars :: "string list"
  max_derived_facts :: "nat option"
  max_results :: "nat option"

definition query_new :: "find_spec list \<Rightarrow> where_clause list \<Rightarrow> datalog_query" where
  "query_new f w = \<lparr>find = f, where_clauses = w, query_as_of = None, query_valid_at = None,
     with_vars = [], max_derived_facts = None, max_results = None\<rparr>"

definition from_patterns :: "find_spec list \<Rightarrow> pattern list \<Rightarrow> datalog_query" where
  "from_patterns f ps = query_new f (map PatternC ps)"

definition get_patterns :: "datalog_query \<Rightarrow> pattern list" where
  "get_patterns q =
     List.map_filter (\<lambda>c. case c of PatternC p \<Rightarrow> Some p | _ \<Rightarrow> None) (where_clauses q)"

definition has_binding_mechanism :: "datalog_query \<Rightarrow> bool" where
  "has_binding_mechanism q \<longleftrightarrow>
     where_clauses q \<noteq> [] \<or> list_ex (\<lambda>f. case f of FAggregate _ _ \<Rightarrow> True | _ \<Rightarrow> False) (find q)"

fun clause_invocations :: "where_clause \<Rightarrow> (string \<times> edn_value list) list" where
  "clause_invocations (RuleInvocation p args) = [(p, args)]"
| "clause_invocations (Not inner) = concat (map clause_invocations inner)"
| "clause_invocations (NotJoin _ inner) = concat (map clause_invocations inner)"
| "clause_invocations (PatternC _) = []"
| "clause_invocations (ExprC _ _) = []"
| "clause_invocations (Or bs) = concat (map (\<lambda>b. concat (map clause_invocations b)) bs)"
| "clause_invocations (OrJoin _ bs) = concat (map (\<lambda>b. concat (map clause_invocations b)) bs)"

definition get_rule_invocations :: "datalog_query \<Rightarrow> (string \<times> edn_value list) list" where
  "get_rule_invocations q = concat (map clause_invocations (where_clauses q))"

definition get_top_level_rule_invocations :: "datalog_query \<Rightarrow> (string \<times> edn_value list) list" where
  "get_top_level_rule_invocations q =
     List.map_filter (\<lambda>c. case c of RuleInvocation p args \<Rightarrow> Some (p, args) | _ \<Rightarrow> None) (where_clauses q)"

definition uses_rules :: "datalog_query \<Rightarrow> bool" where
  "uses_rules q = list_ex (\<lambda>c. rule_invocations c \<noteq> []) (where_clauses q)"

record rule =
  rule_head :: "edn_value list"
  rule_body :: "where_clause list"

record transaction =
  trans_facts :: "pattern list"
  trans_valid_from :: "i64 option"
  trans_valid_to :: "i64 option"

definition transaction_new :: "pattern list \<Rightarrow> transaction" where
  "transaction_new fs = \<lparr>trans_facts = fs, trans_valid_from = None, trans_valid_to = None\<rparr>"

datatype datalog_command =
    QueryCmd datalog_query
  | RuleCmd rule
  | TransactCmd transaction
  | RetractCmd transaction

section \<open>Properties\<close>

lemma clause_invocations_names: "map fst (clause_invocations c) = rule_invocations c"
  by (induction c rule: rule_invocations.induct) (auto simp: map_concat intro!: arg_cong [where f = concat])

lemma from_keyword_as_keyword [simp]: "from_keyword (pseudo_as_keyword p) = Some p"
  by (cases p) simp_all

text \<open>
  The two collectors of rule invocations agree: \<^verbatim>\<open>uses_rules\<close> sends a query to the rule
  evaluator exactly when \<^verbatim>\<open>get_rule_invocations\<close> finds something for it to evaluate, at any
  depth of negation and disjunction, and the top-level invocations are among them.
\<close>

lemma uses_rules_iff:
  "(uses_rules q \<longleftrightarrow> get_rule_invocations q \<noteq> []) \<and>
   set (get_top_level_rule_invocations q) \<subseteq> set (get_rule_invocations q)"
proof
  have "clause_invocations c = [] \<longleftrightarrow> rule_invocations c = []" for c
    by (metis clause_invocations_names list.map_disc_iff)
  then show "uses_rules q \<longleftrightarrow> get_rule_invocations q \<noteq> []"
    by (auto simp: uses_rules_def get_rule_invocations_def list_ex_iff)
  show "set (get_top_level_rule_invocations q) \<subseteq> set (get_rule_invocations q)"
    unfolding get_top_level_rule_invocations_def get_rule_invocations_def
    by (force simp: map_filter_def split: where_clause.splits)
qed

end
