(* ===== verification/Matcher.thy ===== *)
theory Matcher
  imports Datalog_Types Index Fact_Storage "HOL-Library.AList" "HOL-Library.Sublist"
begin

text \<open>
  The pattern matcher, \<^verbatim>\<open>src/query/datalog/matcher.rs\<close>: matching one pattern against the facts,
  joining rows of bindings with a further pattern by hash join or by nested loop, and the
  hidden keys that tie a pseudo-attribute pattern to the fact the row came from.

  A row (\<^verbatim>\<open>Bindings\<close>, a \<^verbatim>\<open>HashMap\<close>) is an association list in iteration order. The \<^verbatim>\<open>uuid\<close> crate
  (parsing, name-based identifiers, printing) is a record of functions that every
  definition using it takes as its first argument.

  Shown: the hash join computes what the nested loop computes; the rows of a list of
  patterns are the solutions of the patterns; so their order does not matter.
\<close>

section \<open>Values and terms\<close>

type_synonym bindings = "(string \<times> value_t) list"

record uuid_ops =
  parse_str :: "string \<Rightarrow> uuid option"
  new_v5_oid :: "bytes \<Rightarrow> uuid"
  uuid_to_string :: "uuid \<Rightarrow> string"

definition edn_to_value :: "edn_value \<Rightarrow> value_t option" where
  "edn_to_value e = (case e of
      EString s \<Rightarrow> Some (VString s)
    | EInteger i \<Rightarrow> Some (VInteger i)
    | EFloat f \<Rightarrow> Some (VFloat f)
    | EBoolean b \<Rightarrow> Some (VBoolean b)
    | Keyword k \<Rightarrow> Some (VKeyword k)
    | Uuid u \<Rightarrow> Some (VRef u)
    | Nil_edn \<Rightarrow> Some VNull
    | _ \<Rightarrow> None)"

definition keyword_id :: "uuid_ops \<Rightarrow> string \<Rightarrow> uuid" where
  "keyword_id U k =
     (case parse_str U (dropWhile (\<lambda>c. c = CHR '':'') k) of
        Some u \<Rightarrow> u
      | None \<Rightarrow> new_v5_oid U (as_bytes k))"

definition edn_to_entity_id :: "uuid_ops \<Rightarrow> edn_value \<Rightarrow> uuid option" where
  "edn_to_entity_id U e = (case e of
      Keyword k \<Rightarrow> Some (keyword_id U k)
    | Uuid u \<Rightarrow> Some u
    | _ \<Rightarrow> None)"

fun value_to_edn :: "value_t \<Rightarrow> edn_value" where
  "value_to_edn (VString s) = EString s"
| "value_to_edn (VInteger i) = EInteger i"
| "value_to_edn (VFloat f) = EFloat f"
| "value_to_edn (VBoolean b) = EBoolean b"
| "value_to_edn (VRef u) = Uuid u"
| "value_to_edn (VKeyword k) = Keyword k"
| "value_to_edn VNull = Nil_edn"

fun normalize_join_value :: "uuid_ops \<Rightarrow> value_t \<Rightarrow> value_t" where
  "normalize_join_value U (VKeyword k) = VRef (keyword_id U k)"
| "normalize_join_value U v = v"

section \<open>Matching one fact\<close>

text \<open>The constants of \<^verbatim>\<open>match_component\<close>, which bind nothing.\<close>

fun match_constant :: "uuid_ops \<Rightarrow> edn_value \<Rightarrow> value_t \<Rightarrow> bool" where
  "match_constant U (Keyword k) v = (case v of
      VKeyword fk \<Rightarrow> k = fk
    | VRef u \<Rightarrow> keyword_id U k = u
    | _ \<Rightarrow> False)"
| "match_constant U (EString s) v = (case v of VString fs \<Rightarrow> s = fs | _ \<Rightarrow> False)"
| "match_constant U (EInteger i) v = (case v of VInteger fi \<Rightarrow> i = fi | _ \<Rightarrow> False)"
| "match_constant U (EFloat f) v = (case v of VFloat ff \<Rightarrow> f64_eq f ff | _ \<Rightarrow> False)"
| "match_constant U (EBoolean b) v = (case v of VBoolean fb \<Rightarrow> b = fb | _ \<Rightarrow> False)"
| "match_constant U (Uuid u) v = (case v of
      VRef e \<Rightarrow> u = e
    | VKeyword k \<Rightarrow> u = keyword_id U k
    | _ \<Rightarrow> False)"
| "match_constant U Nil_edn v = (v = VNull)"
| "match_constant U _ v = False"

definition is_wildcard :: "string \<Rightarrow> bool" where
  "is_wildcard s \<longleftrightarrow> s = ''_'' \<or> prefix ''?_'' s"

definition match_component ::
    "uuid_ops \<Rightarrow> edn_value \<Rightarrow> value_t \<Rightarrow> bindings \<Rightarrow> bindings option" where
  "match_component U c v b = (case c of
      Symbol s \<Rightarrow>
        if is_wildcard s then Some b
        else if prefix ''?'' s then
          (case map_of b s of
             Some existing \<Rightarrow> if value_eq existing v then Some b else None
           | None \<Rightarrow> Some (AList.update s v b))
        else None
    | _ \<Rightarrow> if match_constant U c v then Some b else None)"

definition hidden_entries :: "uuid_ops \<Rightarrow> fact \<Rightarrow> bindings" where
  "hidden_entries U f =
     (let eid = uuid_to_string U (entity f) in
      [(''__fvf_'' @ eid, VInteger (valid_from f)),
       (''__fvt_'' @ eid, VInteger (valid_to f)),
       (''__ftc_'' @ eid, VInteger (I64 (tx_count f))),
       (''__fti_'' @ eid, VInteger (I64 (tx_id f)))])"

definition pseudo_value :: "value_t \<Rightarrow> fact \<Rightarrow> pseudo_attr \<Rightarrow> value_t" where
  "pseudo_value valid_at_value f p = (case p of
      ValidFrom \<Rightarrow> VInteger (valid_from f)
    | ValidTo \<Rightarrow> VInteger (valid_to f)
    | TxCount \<Rightarrow> VInteger (I64 (tx_count f))
    | TxId \<Rightarrow> VInteger (I64 (tx_id f))
    | ValidAtAttr \<Rightarrow> valid_at_value)"

definition extend_row :: "bindings \<Rightarrow> bindings \<Rightarrow> bindings" where
  "extend_row b new = fold (\<lambda>(k, v). AList.update k v) new b"

datatype matcher_storage = Owned fact_storage | Slice "fact list"

record pattern_matcher =
  matcher_storage :: matcher_storage
  valid_at_value :: value_t
  matcher_indexes :: indexes

definition matcher_new :: "fact_storage \<Rightarrow> pattern_matcher" where
  "matcher_new s = \<lparr>matcher_storage = Owned s, valid_at_value = VNull,
     matcher_indexes = pending_indexes_snapshot s\<rparr>"

definition from_slice_with_valid_at :: "fact list \<Rightarrow> value_t \<Rightarrow> pattern_matcher" where
  "from_slice_with_valid_at fs v = \<lparr>matcher_storage = Slice fs, valid_at_value = v,
     matcher_indexes = indexes_new\<rparr>"

definition with_valid_at :: "value_t \<Rightarrow> pattern_matcher \<Rightarrow> pattern_matcher" where
  "with_valid_at v m = m\<lparr>valid_at_value := v\<rparr>"

definition get_facts :: "pattern_matcher \<Rightarrow> fact list" where
  "get_facts m = (case matcher_storage m of
      Owned s \<Rightarrow> (case get_asserted_facts s of Inr fs \<Rightarrow> fs | Inl _ \<Rightarrow> [])
    | Slice fs \<Rightarrow> fs)"

definition match_fact_against_pattern ::
    "uuid_ops \<Rightarrow> pattern_matcher \<Rightarrow> fact \<Rightarrow> pattern \<Rightarrow> bindings option" where
  "match_fact_against_pattern U m f p =
     Option.bind (match_component U (pat_entity p) (VRef (entity f)) []) (\<lambda>b1.
     case pat_attribute p of
       Real attr_edn \<Rightarrow>
         Option.bind (match_component U attr_edn (VKeyword (attribute f)) b1) (\<lambda>b2.
         Option.bind (match_component U (pat_value p) (val f) b2) (\<lambda>b3.
         Some (extend_row b3 (hidden_entries U f))))
     | Pseudo ps \<Rightarrow> match_component U (pat_value p) (pseudo_value (valid_at_value m) f ps) b1)"

definition match_pattern :: "uuid_ops \<Rightarrow> pattern_matcher \<Rightarrow> pattern \<Rightarrow> bindings list" where
  "match_pattern U m p = List.map_filter (\<lambda>f. match_fact_against_pattern U m f p) (get_facts m)"

section \<open>Extending a row\<close>

definition apply_binding_to_component :: "bindings \<Rightarrow> edn_value \<Rightarrow> edn_value" where
  "apply_binding_to_component b c = (case c of
      Symbol s \<Rightarrow>
        if prefix ''?'' s then (case map_of b s of Some v \<Rightarrow> value_to_edn v | None \<Rightarrow> c) else c
    | _ \<Rightarrow> c)"

definition apply_bindings_to_pattern :: "bindings \<Rightarrow> pattern \<Rightarrow> pattern" where
  "apply_bindings_to_pattern b p =
     p\<lparr>pat_entity := apply_binding_to_component b (pat_entity p),
       pat_attribute := (case pat_attribute p of
          Real e \<Rightarrow> Real (apply_binding_to_component b e) | Pseudo ps \<Rightarrow> Pseudo ps),
       pat_value := apply_binding_to_component b (pat_value p)\<rparr>"

definition consistent :: "bindings \<Rightarrow> bindings \<Rightarrow> bool" where
  "consistent existing new \<longleftrightarrow> list_all (\<lambda>(var, v).
     prefix ''__f'' var \<or> (case map_of existing var of Some ev \<Rightarrow> value_eq ev v | None \<Rightarrow> True)) new"

definition scan_fact :: "uuid_ops \<Rightarrow> pattern_matcher \<Rightarrow> pattern \<Rightarrow> bindings \<Rightarrow> fact \<Rightarrow> bindings option" where
  "scan_fact U m p existing f =
     Option.bind (match_fact_against_pattern U m f (apply_bindings_to_pattern existing p)) (\<lambda>additional.
       if consistent existing additional then Some (extend_row existing additional) else None)"

definition match_pattern_with_bindings_scan ::
    "uuid_ops \<Rightarrow> pattern_matcher \<Rightarrow> pattern \<Rightarrow> bindings \<Rightarrow> bindings list" where
  "match_pattern_with_bindings_scan U m p existing = List.map_filter (scan_fact U m p existing) (get_facts m)"

text \<open>The hidden key a per-fact pseudo-attribute reads; \<open>None\<close> for \<^verbatim>\<open>:db/valid-at\<close>.\<close>

definition hidden_key :: "uuid_ops \<Rightarrow> pseudo_attr \<Rightarrow> uuid \<Rightarrow> string option" where
  "hidden_key U ps u = (case ps of
      ValidFrom \<Rightarrow> Some (''__fvf_'' @ uuid_to_string U u)
    | ValidTo \<Rightarrow> Some (''__fvt_'' @ uuid_to_string U u)
    | TxCount \<Rightarrow> Some (''__ftc_'' @ uuid_to_string U u)
    | TxId \<Rightarrow> Some (''__fti_'' @ uuid_to_string U u)
    | ValidAtAttr \<Rightarrow> None)"

definition match_pattern_with_bindings ::
    "uuid_ops \<Rightarrow> pattern_matcher \<Rightarrow> pattern \<Rightarrow> bindings \<Rightarrow> bindings list" where
  "match_pattern_with_bindings U m p existing =
     (let scan = match_pattern_with_bindings_scan U m p existing in
      case pat_attribute p of
        Real _ \<Rightarrow> scan
      | Pseudo ps \<Rightarrow>
          (case edn_to_entity_id U (apply_binding_to_component existing (pat_entity p)) of
             None \<Rightarrow> scan
           | Some u \<Rightarrow>
               (case hidden_key U ps u of
                  None \<Rightarrow> scan
                | Some k \<Rightarrow>
                    (case map_of existing k of
                       None \<Rightarrow> scan
                     | Some stored \<Rightarrow>
                         (case match_component U (pat_value p) stored existing of
                            Some b \<Rightarrow> [b]
                          | None \<Rightarrow> [])))))"

section \<open>Joining rows with a pattern\<close>

definition bound_variable :: "bindings \<Rightarrow> edn_value \<Rightarrow> string option" where
  "bound_variable b c = (case c of
      Symbol s \<Rightarrow> if prefix ''?'' s \<and> map_of b s \<noteq> None then Some s else None
    | _ \<Rightarrow> None)"

fun join_var :: "bindings list \<Rightarrow> pattern \<Rightarrow> string option" where
  "join_var [] p = None"
| "join_var (b # bs) p = (case pat_attribute p of
      Pseudo _ \<Rightarrow> None
    | Real _ \<Rightarrow> (case bound_variable b (pat_entity p) of
        Some s \<Rightarrow> Some s | None \<Rightarrow> bound_variable b (pat_value p)))"

text \<open>
  The build side: a \<^verbatim>\<open>HashMap\<close> from values to rows. Keys that are equal hash alike
  (\<open>value_eq_imp_hash_eq\<close>), so finding a key is finding an entry equal to it.
\<close>

fun hm_get :: "(value_t \<times> bindings list) list \<Rightarrow> value_t \<Rightarrow> bindings list option" where
  "hm_get [] k = None"
| "hm_get ((k', bs) # m) k = (if value_eq k k' then Some bs else hm_get m k)"

fun hm_push :: "value_t \<Rightarrow> bindings \<Rightarrow> (value_t \<times> bindings list) list \<Rightarrow> (value_t \<times> bindings list) list" where
  "hm_push k b [] = [(k, [b])]"
| "hm_push k b ((k', bs) # m) = (if value_eq k k' then (k', bs @ [b]) # m else (k', bs) # hm_push k b m)"

definition build_side :: "uuid_ops \<Rightarrow> string \<Rightarrow> bindings list \<Rightarrow> (value_t \<times> bindings list) list" where
  "build_side U jvar cands = fold (\<lambda>b m. case map_of b jvar of
      Some v \<Rightarrow> hm_push (normalize_join_value U v) b m | None \<Rightarrow> m) cands []"

fun merge_candidate :: "uuid_ops \<Rightarrow> bindings \<Rightarrow> bindings \<Rightarrow> bindings option" where
  "merge_candidate U [] merged = Some merged"
| "merge_candidate U ((var, v) # cs) merged =
     (if prefix ''__f'' var then merge_candidate U cs (AList.update var v merged)
      else case map_of merged var of
        Some mv \<Rightarrow>
          if value_eq (normalize_join_value U mv) (normalize_join_value U v)
          then merge_candidate U cs merged else None
      | None \<Rightarrow> merge_candidate U cs (AList.update var v merged))"

definition probe_row ::
    "uuid_ops \<Rightarrow> pattern_matcher \<Rightarrow> pattern \<Rightarrow> string \<Rightarrow> (value_t \<times> bindings list) list \<Rightarrow> bindings \<Rightarrow> bindings list" where
  "probe_row U m p jvar side existing =
     (case map_of existing jvar of
        None \<Rightarrow> match_pattern_with_bindings U m p existing
      | Some pv \<Rightarrow>
          (case hm_get side (normalize_join_value U pv) of
             None \<Rightarrow> []
           | Some cs \<Rightarrow> List.map_filter (\<lambda>c. merge_candidate U c existing) cs))"

definition join_with_pattern ::
    "uuid_ops \<Rightarrow> pattern_matcher \<Rightarrow> bindings list \<Rightarrow> pattern \<Rightarrow> bindings list" where
  "join_with_pattern U m rows p =
     (case join_var rows p of
        None \<Rightarrow> concat (map (match_pattern_with_bindings U m p) rows)
      | Some jvar \<Rightarrow>
          let side = build_side U jvar (match_pattern U m p)
          in concat (map (probe_row U m p jvar side) rows))"

definition match_patterns_seeded ::
    "uuid_ops \<Rightarrow> pattern_matcher \<Rightarrow> pattern list \<Rightarrow> bindings list \<Rightarrow> bindings list" where
  "match_patterns_seeded U m ps seed =
     (if seed = [] then [] else fold (\<lambda>p rows. join_with_pattern U m rows p) ps seed)"

fun match_patterns :: "uuid_ops \<Rightarrow> pattern_matcher \<Rightarrow> pattern list \<Rightarrow> bindings list" where
  "match_patterns U m [] = [[]]"
| "match_patterns U m (p # ps) = fold (\<lambda>p rows. join_with_pattern U m rows p) ps (match_pattern U m p)"

section \<open>Index hints\<close>

datatype index_hint = HEavt | HAevt | HAvet | HVaet

definition lookup_with_hint :: "pattern_matcher \<Rightarrow> pattern \<Rightarrow> index_hint \<Rightarrow> fact_ref list result" where
  "lookup_with_hint m p hint = (case hint of
      HEavt \<Rightarrow> (case pat_entity p of Uuid u \<Rightarrow> lookup_eavt_entity (matcher_indexes m) u | _ \<Rightarrow> Ok [])
    | HAevt \<Rightarrow> (case pat_attribute p of Real (Keyword a) \<Rightarrow> lookup_aevt_attr (matcher_indexes m) a | _ \<Rightarrow> Ok [])
    | HAvet \<Rightarrow>
        (let attr_bound = (case pat_attribute p of Real (Keyword a) \<Rightarrow> Some a | _ \<Rightarrow> None);
             value_bound = (case pat_value p of
                 Keyword k \<Rightarrow> Some (VKeyword k) | EString s \<Rightarrow> Some (VString s)
               | EInteger i \<Rightarrow> Some (VInteger i) | EFloat f \<Rightarrow> Some (VFloat f)
               | EBoolean b \<Rightarrow> Some (VBoolean b) | Uuid u \<Rightarrow> Some (VRef u) | _ \<Rightarrow> None)
         in case (attr_bound, value_bound) of
              (Some a, Some v) \<Rightarrow> lookup_avet_attr_value (matcher_indexes m) a v
            | _ \<Rightarrow> Ok [])
    | HVaet \<Rightarrow> (case pat_value p of Uuid u \<Rightarrow> lookup_vaet_ref (matcher_indexes m) u | _ \<Rightarrow> Ok []))"

definition match_pattern_with_hint ::
    "uuid_ops \<Rightarrow> pattern_matcher \<Rightarrow> pattern \<Rightarrow> index_hint \<Rightarrow> bindings list result" where
  "match_pattern_with_hint U m p hint =
     and_then (lookup_with_hint m p hint) (\<lambda>refs.
       if refs = [] then Ok (match_pattern U m p)
       else Ok (List.map_filter (\<lambda>f. match_fact_against_pattern U m f p) (get_facts m)))"

definition match_with_hint_seeded ::
    "uuid_ops \<Rightarrow> pattern_matcher \<Rightarrow> bindings list \<Rightarrow> pattern \<Rightarrow> index_hint \<Rightarrow> bindings list result" where
  "match_with_hint_seeded U m seed p hint =
     (if seed = [] then Ok []
      else if seed = [[]] then match_pattern_with_hint U m p hint
      else Ok (join_with_pattern U m seed p))"

fun match_patterns_with_hints ::
    "uuid_ops \<Rightarrow> pattern_matcher \<Rightarrow> (pattern \<times> index_hint) list \<Rightarrow> bindings list result" where
  "match_patterns_with_hints U m [] = Ok [[]]"
| "match_patterns_with_hints U m ((p, h) # ps) =
     and_then (match_pattern_with_hint U m p h) (\<lambda>rows.
       Ok (fold (\<lambda>(p, _) rows. join_with_pattern U m rows p) ps rows))"

section \<open>The build side\<close>

lemma value_eq_PER:
  "value_eq a b \<Longrightarrow> value_eq b a"
  "value_eq a b \<Longrightarrow> value_eq b c \<Longrightarrow> value_eq a c"
  by (cases a; cases b; auto simp: f64_eq_def)
     (cases a; cases b; cases c; auto simp: f64_eq_def)

lemma hm_get_push:
  "hm_get (hm_push q b m) k =
     (if value_eq k q then Some ((case hm_get m k of Some bs \<Rightarrow> bs | None \<Rightarrow> []) @ [b]) else hm_get m k)"
proof (induction m)
  case (Cons e m)
  obtain k' bs where e: "e = (k', bs)" by (cases e)
  show ?case
  proof (cases "value_eq q k'")
    case True
    then have "value_eq k q \<longleftrightarrow> value_eq k k'" using value_eq_PER by blast
    with True show ?thesis by (simp add: e)
  next
    case False
    then have "\<not> (value_eq k q \<and> value_eq k k')" using value_eq_PER by blast
    with False Cons show ?thesis by (auto simp: e)
  qed
qed simp

definition joins :: "uuid_ops \<Rightarrow> string \<Rightarrow> value_t \<Rightarrow> bindings \<Rightarrow> bool" where
  "joins U j k b \<longleftrightarrow> (case map_of b j of Some v \<Rightarrow> value_eq k (normalize_join_value U v) | None \<Rightarrow> False)"

lemma build_side_get:
  "hm_get (build_side U j cs) k = (if filter (joins U j k) cs = [] then None else Some (filter (joins U j k) cs))"
proof (induction cs rule: rev_induct)
  case (snoc b cs)
  have b: "joins U j k b \<longleftrightarrow> (\<exists>v. map_of b j = Some v \<and> value_eq k (normalize_join_value U v))"
    by (auto simp: joins_def split: option.split)
  from snoc show ?case
    by (cases "map_of b j") (auto simp: build_side_def hm_get_push b)
qed (simp add: build_side_def)

section \<open>A pattern against a fact\<close>

definition var_of :: "edn_value \<Rightarrow> string option" where
  "var_of c = (case c of Symbol s \<Rightarrow> if \<not> is_wildcard s \<and> prefix ''?'' s then Some s else None | _ \<Rightarrow> None)"

definition component_ok :: "uuid_ops \<Rightarrow> edn_value \<Rightarrow> value_t \<Rightarrow> bool" where
  "component_ok U c v \<longleftrightarrow> (case c of Symbol s \<Rightarrow> is_wildcard s \<or> prefix ''?'' s | _ \<Rightarrow> match_constant U c v)"

fun vars_row :: "(edn_value \<times> value_t) list \<Rightarrow> bindings" where
  "vars_row [] = []"
| "vars_row ((c, v) # cs) = (case var_of c of Some s \<Rightarrow> (s, v) # vars_row cs | None \<Rightarrow> vars_row cs)"

fun match_all :: "uuid_ops \<Rightarrow> (edn_value \<times> value_t) list \<Rightarrow> bindings \<Rightarrow> bindings option" where
  "match_all U [] b = Some b"
| "match_all U ((c, v) # cs) b = Option.bind (match_component U c v b) (match_all U cs)"

fun real_attribute :: "pattern \<Rightarrow> edn_value option" where
  "real_attribute p = (case pat_attribute p of Real a \<Rightarrow> Some a | Pseudo _ \<Rightarrow> None)"

definition pairs :: "pattern \<Rightarrow> edn_value \<Rightarrow> fact \<Rightarrow> (edn_value \<times> value_t) list" where
  "pairs p a f = [(pat_entity p, VRef (entity f)), (a, VKeyword (attribute f)), (pat_value p, val f)]"

lemma update_new: "map_of b k = None \<Longrightarrow> AList.update k v b = b @ [(k, v)]"
  by (induction b) auto

lemma match_component_cases:
  "match_component U c v b = (case var_of c of
     Some s \<Rightarrow> (case map_of b s of Some x \<Rightarrow> if value_eq x v then Some b else None
                | None \<Rightarrow> Some (AList.update s v b))
   | None \<Rightarrow> if component_ok U c v then Some b else None)"
  by (cases c) (auto simp: match_component_def var_of_def component_ok_def split: option.split)

lemma match_all_linear:
  assumes "distinct (map fst (vars_row cs))" "\<forall>s \<in> fst ` set (vars_row cs). map_of b s = None"
  shows "match_all U cs b = (if list_all (\<lambda>(c, v). component_ok U c v) cs then Some (b @ vars_row cs) else None)"
  using assms
proof (induction cs arbitrary: b)
  case (Cons cv cs)
  obtain c v where cv: "cv = (c, v)" by (cases cv)
  show ?case
  proof (cases "var_of c")
    case None
    with Cons show ?thesis by (simp add: cv match_component_cases)
  next
    case (Some s)
    then have ok: "component_ok U c v" by (auto simp: var_of_def component_ok_def split: edn_value.splits if_splits)
    from Some Cons.prems have b: "map_of b s = None" "\<forall>t \<in> fst ` set (vars_row cs). map_of (b @ [(s, v)]) t = None"
      "distinct (map fst (vars_row cs))" by (auto simp: cv map_add_def)
    from Some ok b(1) Cons.IH [OF b(3,2)] show ?thesis by (simp add: cv match_component_cases update_new)
  qed
qed simp


lemma hidden_entries_keys:
  "distinct (map fst (hidden_entries U f))" "k \<in> fst ` set (hidden_entries U f) \<Longrightarrow> prefix ''__f'' k"
  by (auto simp: hidden_entries_def Let_def)

lemma extend_row_append [simp]: "extend_row b (xs @ ys) = extend_row (extend_row b xs) ys"
  by (simp add: extend_row_def)

lemma extend_row_Nil [simp]: "extend_row b [] = b" "extend_row b ((k, v) # xs) = extend_row (AList.update k v b) xs"
  by (simp_all add: extend_row_def)

lemma extend_row_new:
  "distinct (map fst xs) \<Longrightarrow> \<forall>k \<in> fst ` set xs. map_of b k = None \<Longrightarrow> extend_row b xs = b @ xs"
proof (induction xs arbitrary: b)
  case (Cons x xs)
  obtain k v where x: "x = (k, v)" by (cases x)
  from Cons.prems have p: "distinct (map fst xs)" "map_of b k = None" "\<forall>t \<in> fst ` set xs. map_of (b @ [(k, v)]) t = None"
    by (auto simp: x map_add_def)
  from Cons.IH [OF p(1,3)] p(2) show ?case by (simp add: x update_new)
qed simp

lemma vars_row_var: "s \<in> fst ` set (vars_row cs) \<Longrightarrow> prefix ''?'' s \<and> \<not> prefix ''?_'' s \<and> \<not> prefix ''__f'' s"
  by (induction cs rule: vars_row.induct)
     (auto simp: var_of_def is_wildcard_def prefix_def split: option.splits edn_value.splits if_splits)

definition linear_pattern :: "pattern \<Rightarrow> bool" where
  "linear_pattern p \<longleftrightarrow> (case pat_attribute p of
     Real a \<Rightarrow> distinct (List.map_filter var_of [pat_entity p, a, pat_value p]) | Pseudo _ \<Rightarrow> True)"

lemma vars_row_names: "map fst (vars_row cs) = List.map_filter var_of (map fst cs)"
  by (induction cs rule: vars_row.induct) (auto split: option.split)

lemma linear_pairs: "linear_pattern p \<Longrightarrow> pat_attribute p = Real a \<Longrightarrow> distinct (map fst (vars_row (pairs p a f)))"
  unfolding vars_row_names by (simp add: linear_pattern_def pairs_def)

lemma match_fact_real:
  assumes "pat_attribute p = Real a" "distinct (map fst (vars_row (pairs p a f)))"
  shows "match_fact_against_pattern U m f p =
    (if list_all (\<lambda>(c, v). component_ok U c v) (pairs p a f)
     then Some (vars_row (pairs p a f) @ hidden_entries U f) else None)"
proof -
  have "match_fact_against_pattern U m f p =
      map_option (\<lambda>b. extend_row b (hidden_entries U f)) (match_all U (pairs p a f) [])"
    using assms(1) by (auto simp: match_fact_against_pattern_def pairs_def split: bind_splits)
  moreover have "extend_row (vars_row (pairs p a f)) (hidden_entries U f) = vars_row (pairs p a f) @ hidden_entries U f"
    using hidden_entries_keys(1) [of U f] hidden_entries_keys(2) [of _ U f] vars_row_var [of _ "pairs p a f"]
    by (intro extend_row_new) (auto simp: map_of_eq_None_iff)
  ultimately show ?thesis using match_all_linear [OF assms(2), of "[]" U] by simp
qed

lemma merge_candidate_eq:
  assumes "distinct (map fst vr)" "\<forall>s \<in> fst ` set vr. \<not> prefix ''__f'' s" "\<forall>s \<in> fst ` set hid. prefix ''__f'' s"
  shows "merge_candidate U (vr @ hid) b =
    (if \<forall>(s, v) \<in> set vr. \<forall>x. map_of b s = Some x \<longrightarrow> value_eq (normalize_join_value U x) (normalize_join_value U v)
     then Some (extend_row b (filter (\<lambda>(s, v). map_of b s = None) vr @ hid)) else None)"
  using assms(1,2)
proof (induction vr arbitrary: b)
  case Nil
  show ?case using assms(3) by (induction hid arbitrary: b) auto
next
  case (Cons e vr)
  obtain s v where e: "e = (s, v)" by (cases e)
  have s: "s \<notin> fst ` set vr" "distinct (map fst vr)" "\<not> prefix ''__f'' s" "\<forall>s \<in> fst ` set vr. \<not> prefix ''__f'' s"
    using Cons.prems by (auto simp: e)
  show ?case
  proof (cases "map_of b s")
    case (Some x)
    with s Cons.IH [OF s(2,4), of b] show ?thesis by (auto simp: e)
  next
    case None
    have upd: "map_of (AList.update s v b) t = map_of b t" if "(t, w) \<in> set vr" for t w
      using that s(1) by (force simp: update_conv)
    have "filter (\<lambda>(t, w). map_of (AList.update s v b) t = None) vr = filter (\<lambda>(t, w). map_of b t = None) vr"
      using upd by (intro filter_cong) auto
    moreover have "(\<forall>(t, w) \<in> set vr. \<forall>x. map_of (AList.update s v b) t = Some x \<longrightarrow>
          value_eq (normalize_join_value U x) (normalize_join_value U w)) \<longleftrightarrow>
        (\<forall>(t, w) \<in> set vr. \<forall>x. map_of b t = Some x \<longrightarrow>
          value_eq (normalize_join_value U x) (normalize_join_value U w))"
      using upd by (intro ball_cong) auto
    ultimately show ?thesis
      using None s(3) Cons.IH [OF s(2,4), of "AList.update s v b"] by (simp add: e)
  qed
qed

text \<open>The entries of a row and a fact that meet in a variable agree.\<close>

definition agrees :: "uuid_ops \<Rightarrow> bindings \<Rightarrow> bindings \<Rightarrow> bool" where
  "agrees U b vr \<longleftrightarrow> (\<forall>(s, v) \<in> set vr. \<forall>x. map_of b s = Some x \<longrightarrow>
     value_eq (normalize_join_value U x) (normalize_join_value U v))"

definition row_keywords :: "bindings list \<Rightarrow> string set" where
  "row_keywords rows = {k. \<exists>b \<in> set rows. VKeyword k \<in> snd ` set b}"

definition fact_keywords :: "fact list \<Rightarrow> string set" where
  "fact_keywords fs = {k. \<exists>f \<in> set fs. k = attribute f \<or> val f = VKeyword k}"

definition no_wildcards :: "bindings \<Rightarrow> bool" where
  "no_wildcards b \<longleftrightarrow> (\<forall>s. prefix ''?_'' s \<longrightarrow> map_of b s = None)"

lemma match_constant_value:
  assumes "\<forall>k l. x = VKeyword k \<longrightarrow> y = VKeyword l \<longrightarrow> keyword_id U k = keyword_id U l \<longrightarrow> k = l"
  shows "match_constant U (value_to_edn x) y \<longleftrightarrow> value_eq (normalize_join_value U x) (normalize_join_value U y)"
  using assms by (cases x; cases y) auto

lemma apply_binding_var:
  assumes "no_wildcards b"
  shows "var_of (apply_binding_to_component b c) =
      (case var_of c of Some s \<Rightarrow> if map_of b s = None then Some s else None | None \<Rightarrow> None)"
    "component_ok U (apply_binding_to_component b c) v \<longleftrightarrow>
       component_ok U c v \<and> (\<forall>s x. var_of c = Some s \<longrightarrow> map_of b s = Some x \<longrightarrow> match_constant U (value_to_edn x) v)"
proof -
  have edn: "var_of (value_to_edn x) = None" "component_ok U (value_to_edn x) v = match_constant U (value_to_edn x) v" for x
    by (cases x; simp add: var_of_def component_ok_def)+
  have wild: "is_wildcard s \<Longrightarrow> prefix ''?'' s \<Longrightarrow> map_of b s = None" for s
    using assms by (auto simp: is_wildcard_def no_wildcards_def)
  show "var_of (apply_binding_to_component b c) =
      (case var_of c of Some s \<Rightarrow> if map_of b s = None then Some s else None | None \<Rightarrow> None)"
    by (cases c) (auto simp: apply_binding_to_component_def edn var_of_def [of "Symbol _"] wild split: option.split,
      auto simp: var_of_def)
  show "component_ok U (apply_binding_to_component b c) v \<longleftrightarrow>
       component_ok U c v \<and> (\<forall>s x. var_of c = Some s \<longrightarrow> map_of b s = Some x \<longrightarrow> match_constant U (value_to_edn x) v)"
    by (cases c) (auto simp: apply_binding_to_component_def edn var_of_def [of "Symbol _"] component_ok_def [of _ "Symbol _"] wild split: option.split,
      auto simp: var_of_def)
qed

lemma resolved_pairs:
  assumes "no_wildcards b"
  shows "vars_row (map (\<lambda>(c, v). (apply_binding_to_component b c, v)) cs) =
      filter (\<lambda>(s, v). map_of b s = None) (vars_row cs)"
    "list_all (\<lambda>(c, v). component_ok U c v) (map (\<lambda>(c, v). (apply_binding_to_component b c, v)) cs) \<longleftrightarrow>
      list_all (\<lambda>(c, v). component_ok U c v) cs \<and>
      (\<forall>(s, v) \<in> set (vars_row cs). \<forall>x. map_of b s = Some x \<longrightarrow> match_constant U (value_to_edn x) v)"
  by (induction cs rule: vars_row.induct) (auto simp: apply_binding_var [OF assms] split: option.splits)

lemma vars_row_values: "(s, v) \<in> set (vars_row cs) \<Longrightarrow> \<exists>c. (c, v) \<in> set cs \<and> var_of c = Some s"
  by (induction cs rule: vars_row.induct) (auto split: option.splits)

definition row_step :: "uuid_ops \<Rightarrow> pattern \<Rightarrow> edn_value \<Rightarrow> bindings \<Rightarrow> fact \<Rightarrow> bindings option" where
  "row_step U p a b f =
     (if list_all (\<lambda>(c, v). component_ok U c v) (pairs p a f) \<and> agrees U b (vars_row (pairs p a f))
      then Some (extend_row b (filter (\<lambda>(s, v). map_of b s = None) (vars_row (pairs p a f)) @ hidden_entries U f))
      else None)"

definition keywords_apart :: "uuid_ops \<Rightarrow> fact list \<Rightarrow> bindings list \<Rightarrow> bool" where
  "keywords_apart U fs rows \<longleftrightarrow> inj_on (keyword_id U) (fact_keywords fs \<union> row_keywords rows)"

lemma agrees_constants:
  assumes "keywords_apart U fs rows" "b \<in> set rows" "f \<in> set fs"
  shows "(\<forall>(s, v) \<in> set (vars_row (pairs p a f)). \<forall>x. map_of b s = Some x \<longrightarrow> match_constant U (value_to_edn x) v) \<longleftrightarrow>
    agrees U b (vars_row (pairs p a f))"
proof -
  have "match_constant U (value_to_edn x) v \<longleftrightarrow> value_eq (normalize_join_value U x) (normalize_join_value U v)"
    if "(s, v) \<in> set (vars_row (pairs p a f))" "map_of b s = Some x" for s v x
  proof (rule match_constant_value, intro allI impI)
    fix k l assume kl: "x = VKeyword k" "v = VKeyword l" and id: "keyword_id U k = keyword_id U l"
    have "VKeyword k \<in> snd ` set b" using map_of_SomeD [OF that(2)] kl(1) by force
    then have "k \<in> row_keywords rows" using assms(2) by (auto simp: row_keywords_def)
    moreover have "l \<in> fact_keywords fs"
      using vars_row_values [OF that(1)] assms(3) kl(2) by (auto simp: pairs_def fact_keywords_def)
    ultimately show "k = l" using assms(1) id by (auto simp: keywords_apart_def dest: inj_onD)
  qed
  then show ?thesis by (auto simp: agrees_def)
qed

lemma scan_fact_step:
  assumes p: "linear_pattern p" "pat_attribute p = Real a" and b: "no_wildcards b"
    and k: "keywords_apart U fs rows" "b \<in> set rows" "f \<in> set fs"
  shows "scan_fact U m p b f = row_step U p a b f"
proof -
  let ?q = "apply_bindings_to_pattern b p" and ?a = "apply_binding_to_component b a"
  let ?new = "filter (\<lambda>(s, v). map_of b s = None) (vars_row (pairs p a f))"
  have q: "pat_attribute ?q = Real ?a" "pairs ?q ?a f = map (\<lambda>(c, v). (apply_binding_to_component b c, v)) (pairs p a f)"
    using p(2) by (simp_all add: apply_bindings_to_pattern_def pairs_def)
  have "distinct (map fst (vars_row (pairs ?q ?a f)))"
    unfolding q(2) resolved_pairs(1) [OF b] using linear_pairs [OF p, of f] by (rule distinct_map_filter)
  note mf = match_fact_real [OF q(1) this, of U m]
  have "consistent b (?new @ hidden_entries U f)"
    using hidden_entries_keys(2) [of _ U f] by (force simp: consistent_def list_all_iff)
  with mf show ?thesis
    unfolding q(2) resolved_pairs(2) [OF b] resolved_pairs(1) [OF b] agrees_constants [OF k]
    by (simp add: scan_fact_def row_step_def)
qed

lemma map_filter_mask:
  assumes "\<And>x. x \<in> set xs \<Longrightarrow> \<not> P x \<Longrightarrow> g x = None"
  shows "List.map_filter g (filter P xs) = List.map_filter g xs"
  using assms by (induction xs) (auto split: option.split)

lemma map_filter_comp:
  "List.map_filter g (List.map_filter h xs) = List.map_filter (\<lambda>x. Option.bind (h x) g) xs"
  by (induction xs) (auto split: option.split)

lemma map_filter_cong:
  "(\<And>x. x \<in> set xs \<Longrightarrow> g x = h x) \<Longrightarrow> List.map_filter g xs = List.map_filter h xs"
  by (induction xs) (auto split: option.split)

lemma probe_row_scan:
  assumes p: "linear_pattern p" "pat_attribute p = Real a" and b: "no_wildcards b"
    and k: "keywords_apart U (get_facts m) rows" "b \<in> set rows"
    and j: "\<And>f. j \<in> fst ` set (vars_row (pairs p a f))"
  shows "probe_row U m p j (build_side U j (match_pattern U m p)) b = match_pattern_with_bindings U m p b"
proof (cases "map_of b j")
  case None
  then show ?thesis by (simp add: probe_row_def)
next
  case (Some x)
  let ?key = "normalize_join_value U x"
  have mp: "match_fact_against_pattern U m f p =
      (if list_all (\<lambda>(c, v). component_ok U c v) (pairs p a f)
       then Some (vars_row (pairs p a f) @ hidden_entries U f) else None)" for f
    using match_fact_real [OF p(2) linear_pairs [OF p]] .
  have merge: "merge_candidate U (vars_row (pairs p a f) @ hidden_entries U f) b =
      (if agrees U b (vars_row (pairs p a f))
       then Some (extend_row b (filter (\<lambda>(s, v). map_of b s = None) (vars_row (pairs p a f)) @ hidden_entries U f))
       else None)" for f
    unfolding agrees_def using vars_row_var [of _ "pairs p a f"] hidden_entries_keys(2) [of _ U f]
    by (intro merge_candidate_eq linear_pairs [OF p]) auto
  have dropped: "merge_candidate U c b = None" if c: "c \<in> set (match_pattern U m p)" "\<not> joins U j ?key c" for c
  proof -
    obtain f where f: "c = vars_row (pairs p a f) @ hidden_entries U f"
      using c(1) mp by (auto simp: match_pattern_def map_filter_def split: if_splits)
    obtain v where v: "(j, v) \<in> set (vars_row (pairs p a f))" using j [of f] by force
    then have "map_of (vars_row (pairs p a f)) j = Some v" using linear_pairs [OF p, of f] by simp
    then have "map_of c j = Some v" by (simp add: f)
    then have "\<not> value_eq ?key (normalize_join_value U v)" using c(2) by (simp add: joins_def)
    then have "\<not> agrees U b (vars_row (pairs p a f))" using v Some by (auto simp: agrees_def)
    then show ?thesis by (simp add: f merge)
  qed
  have "probe_row U m p j (build_side U j (match_pattern U m p)) b =
      List.map_filter (\<lambda>c. merge_candidate U c b) (filter (joins U j ?key) (match_pattern U m p))"
    using Some by (simp add: probe_row_def build_side_get)
  also have "\<dots> = List.map_filter (\<lambda>c. merge_candidate U c b) (match_pattern U m p)"
    using dropped by (rule map_filter_mask)
  also have "\<dots> = List.map_filter (row_step U p a b) (get_facts m)"
    unfolding match_pattern_def map_filter_comp by (rule map_filter_cong) (simp add: mp merge row_step_def)
  also have "\<dots> = match_pattern_with_bindings U m p b"
    using p(2) scan_fact_step [OF p b k]
    by (simp add: match_pattern_with_bindings_def match_pattern_with_bindings_scan_def) (rule map_filter_cong, simp)
  finally show ?thesis .
qed

lemma join_var_bound:
  assumes "join_var (b # rows) p = Some j" "no_wildcards b"
  shows "\<exists>a. pat_attribute p = Real a \<and> (\<forall>f. j \<in> fst ` set (vars_row (pairs p a f)))"
proof -
  have bound: "var_of c = Some s" if "bound_variable b c = Some s" for c s
    using that assms(2)
    by (auto simp: bound_variable_def var_of_def is_wildcard_def no_wildcards_def split: edn_value.splits if_splits)
  from assms(1) show ?thesis
    by (auto dest!: bound simp: pairs_def split: attribute_spec.splits option.splits)
qed

lemma join_nested_loop:
  assumes "linear_pattern p" and "\<forall>b \<in> set rows. no_wildcards b" and "keywords_apart U (get_facts m) rows"
  shows "join_with_pattern U m rows p = concat (map (match_pattern_with_bindings U m p) rows)"
proof (cases "join_var rows p")
  case None
  then show ?thesis by (simp add: join_with_pattern_def)
next
  case (Some j)
  then obtain b bs where r: "rows = b # bs" by (cases rows) auto
  obtain a where a: "pat_attribute p = Real a" "\<And>f. j \<in> fst ` set (vars_row (pairs p a f))"
    using join_var_bound [of b bs p j] Some assms(2) r by auto
  have "map (probe_row U m p j (build_side U j (match_pattern U m p))) rows = map (match_pattern_with_bindings U m p) rows"
    using probe_row_scan [OF assms(1) a(1) _ assms(3) _ a(2)] assms(2) by (intro map_cong) auto
  then have "concat (map (probe_row U m p j (build_side U j (match_pattern U m p))) rows) =
      concat (map (match_pattern_with_bindings U m p) rows)" by (rule arg_cong)
  then show ?thesis using Some by (simp add: join_with_pattern_def Let_def)
qed

section \<open>Rows are solutions\<close>

definition same :: "uuid_ops \<Rightarrow> value_t \<Rightarrow> value_t \<Rightarrow> bool" where
  "same U x y \<longleftrightarrow> value_eq (normalize_join_value U x) (normalize_join_value U y)"

definition solves :: "uuid_ops \<Rightarrow> (string \<rightharpoonup> value_t) \<Rightarrow> pattern \<Rightarrow> fact \<Rightarrow> bool" where
  "solves U \<sigma> p f \<longleftrightarrow> (case pat_attribute p of
      Real a \<Rightarrow> list_all (\<lambda>(c, v). component_ok U c v) (pairs p a f) \<and>
        (\<forall>s v. (s, v) \<in> set (vars_row (pairs p a f)) \<longrightarrow> (\<exists>x. \<sigma> s = Some x \<and> same U x v))
    | Pseudo _ \<Rightarrow> False)"

definition solution :: "uuid_ops \<Rightarrow> fact list \<Rightarrow> (string \<rightharpoonup> value_t) \<Rightarrow> pattern list \<Rightarrow> bool" where
  "solution U fs \<sigma> ps \<longleftrightarrow> (\<forall>p \<in> set ps. \<exists>f \<in> set fs. solves U \<sigma> p f)"

definition compatible :: "uuid_ops \<Rightarrow> (string \<rightharpoonup> value_t) \<Rightarrow> bindings \<Rightarrow> bool" where
  "compatible U \<sigma> b \<longleftrightarrow> (\<forall>s x. prefix ''?'' s \<longrightarrow> map_of b s = Some x \<longrightarrow> (\<exists>y. \<sigma> s = Some y \<and> same U x y))"

definition pattern_vars :: "pattern \<Rightarrow> string set" where
  "pattern_vars p = set (List.map_filter var_of ([pat_entity p, pat_value p] @
     (case pat_attribute p of Real a \<Rightarrow> [a] | Pseudo _ \<Rightarrow> [])))"

definition row_inv :: "uuid_ops \<Rightarrow> fact list \<Rightarrow> pattern list \<Rightarrow> bindings \<Rightarrow> bool" where
  "row_inv U fs qs b \<longleftrightarrow> no_wildcards b \<and> (\<forall>k. VKeyword k \<in> snd ` set b \<longrightarrow> k \<in> fact_keywords fs) \<and>
     solution U fs (map_of b) qs \<and> (\<forall>s. prefix ''?'' s \<longrightarrow> map_of b s \<noteq> None \<longrightarrow> (\<exists>q \<in> set qs. s \<in> pattern_vars q)) \<and>
     distinct (map fst b) \<and> (\<forall>k \<in> fst ` set b. prefix ''?'' k \<or> prefix ''__f'' k)"

lemma same_PER:
  shows same_sym: "same U x y \<Longrightarrow> same U y x"
    and same_trans: "same U x y \<Longrightarrow> same U y z \<Longrightarrow> same U x z"
    and same_refl: "same U x x \<longleftrightarrow> \<not> value_is_nan x"
  subgoal by (simp add: same_def value_eq_PER(1))
  subgoal unfolding same_def by (rule value_eq_PER(2))
  subgoal by (cases x) (simp_all add: same_def value_eq_refl_iff)
  done

lemma map_of_extend_row:
  "distinct (map fst xs) \<Longrightarrow> map_of (extend_row b xs) = map_of b ++ map_of xs"
  by (induction xs arbitrary: b) (auto simp: update_conv' map_add_upd_left dom_map_of_conv_image_fst)

lemma update_values: "v' \<in> snd ` set (AList.update k v b) \<Longrightarrow> v' = v \<or> v' \<in> snd ` set b"
  by (induction b) (auto split: if_splits)

lemma extend_row_values: "v' \<in> snd ` set (extend_row b xs) \<Longrightarrow> v' \<in> snd ` set b \<or> v' \<in> snd ` set xs"
proof (induction xs arbitrary: b)
  case (Cons x xs)
  obtain k v where x: "x = (k, v)" by (cases x)
  from Cons.prems have "v' \<in> snd ` set (extend_row (AList.update k v b) xs)" by (simp add: x)
  from Cons.IH [OF this] show ?case using update_values [of v' k v b] by (auto simp: x)
qed simp

lemma distinct_extend_row: "distinct (map fst b) \<Longrightarrow> distinct (map fst (extend_row b xs))"
  by (induction xs arbitrary: b) (auto simp: distinct_update)

lemma extend_row_keys: "fst ` set (extend_row b xs) = fst ` set b \<union> fst ` set xs"
proof (induction xs arbitrary: b)
  case (Cons x xs)
  obtain k v where x: "x = (k, v)" by (cases x)
  have "fst ` set (AList.update k v b) = insert k (fst ` set b)" by (induction b) auto
  with Cons show ?case by (simp add: x)
qed simp

lemma vars_row_pattern_vars:
  assumes "pat_attribute p = Real a"
  shows "fst ` set (vars_row (pairs p a f)) = pattern_vars p"
proof -
  have "fst ` set (vars_row (pairs p a f)) = set (map fst (vars_row (pairs p a f)))" by simp
  also have "\<dots> = set (List.map_filter var_of [pat_entity p, a, pat_value p])"
    unfolding vars_row_names by (simp add: pairs_def)
  finally show ?thesis using assms by (auto simp: pattern_vars_def map_filter_def)
qed

lemma row_step_lookup:
  assumes p: "linear_pattern p" "pat_attribute p = Real a" and st: "row_step U p a b f = Some b'" and s: "\<not> prefix ''__f'' s"
  shows "map_of b' s = (case map_of b s of Some x \<Rightarrow> Some x | None \<Rightarrow> map_of (vars_row (pairs p a f)) s)"
proof -
  let ?vr = "vars_row (pairs p a f)"
  let ?new = "filter (\<lambda>(s, v). map_of b s = None) ?vr"
  have d: "distinct (map fst ?vr)" using linear_pairs [OF p] .
  have "b' = extend_row (extend_row b ?new) (hidden_entries U f)" using st by (auto simp: row_step_def split: if_splits)
  then have b': "map_of b' s = (map_of b ++ map_of ?new ++ map_of (hidden_entries U f)) s"
    using distinct_map_filter [OF d] hidden_entries_keys(1) [of U f] by (simp add: map_of_extend_row)
  have h: "map_of (hidden_entries U f) s = None" using s hidden_entries_keys(2) [of s U f] by (auto simp: map_of_eq_None_iff)
  have "map_of (filter (\<lambda>(s, v). map_of b s = None) vr) s = (if map_of b s = None then map_of vr s else None)" for vr :: bindings
    by (induction vr) auto
  then show ?thesis by (auto simp: b' map_add_def h split: option.splits)
qed

lemma solves_mono:
  assumes "solves U (map_of b) q f" "\<And>s x. \<not> prefix ''__f'' s \<Longrightarrow> map_of b s = Some x \<Longrightarrow> map_of b' s = Some x"
  shows "solves U (map_of b') q f"
proof (cases "pat_attribute q")
  case (Real a)
  have "\<exists>x. map_of b' s = Some x \<and> same U x v" if sv: "(s, v) \<in> set (vars_row (pairs q a f))" for s v
  proof -
    have "\<forall>s v. (s, v) \<in> set (vars_row (pairs q a f)) \<longrightarrow> (\<exists>x. map_of b s = Some x \<and> same U x v)"
      using assms(1) Real by (simp add: solves_def)
    then obtain x where "map_of b s = Some x" "same U x v" using sv by blast
    moreover have "\<not> prefix ''__f'' s" using vars_row_var [of s "pairs q a f"] sv by force
    ultimately show ?thesis using assms(2) by blast
  qed
  with Real assms(1) show ?thesis by (auto simp: solves_def)
qed (use assms in \<open>simp add: solves_def\<close>)

lemma row_step_inv:
  assumes p: "linear_pattern p" "pat_attribute p = Real a" and st: "row_step U p a b f = Some b'"
    and inv: "row_inv U fs qs b" and f: "f \<in> set fs" "\<not> value_is_nan (val f)"
  shows "row_inv U fs (qs @ [p]) b'"
proof -
  let ?vr = "vars_row (pairs p a f)"
  note look = row_step_lookup [OF p st]
  have ok: "list_all (\<lambda>(c, v). component_ok U c v) (pairs p a f)" "agrees U b ?vr"
    "b' = extend_row b (filter (\<lambda>(s, v). map_of b s = None) ?vr @ hidden_entries U f)"
    using st by (auto simp: row_step_def split: if_splits)
  have vr: "\<exists>c. (c, v) \<in> set (pairs p a f)" "prefix ''?'' s" "\<not> prefix ''?_'' s" "\<not> prefix ''__f'' s"
    if "(s, v) \<in> set ?vr" for s v
    using vars_row_values [OF that] vars_row_var [of s "pairs p a f"] that by force+
  have keep: "map_of b' s = Some x" if "\<not> prefix ''__f'' s" "map_of b s = Some x" for s x
    using look [OF that(1)] that(2) by simp
  have "no_wildcards b'"
    unfolding no_wildcards_def
  proof (intro allI impI)
    fix s :: string assume w: "prefix ''?_'' s"
    then have n: "\<not> prefix ''__f'' s" by (auto simp: prefix_def)
    have "map_of ?vr s = None" using vr(3) [of s] w by (auto simp: map_of_eq_None_iff)
    with look [OF n] inv w show "map_of b' s = None" by (simp add: row_inv_def no_wildcards_def)
  qed
  moreover have "k \<in> fact_keywords fs" if "VKeyword k \<in> snd ` set b'" for k
  proof -
    have "VKeyword k \<in> snd ` set b \<or> VKeyword k \<in> snd ` set ?vr \<or> VKeyword k \<in> snd ` set (hidden_entries U f)"
      using extend_row_values [of "VKeyword k" b] that unfolding ok(3) by fastforce
    then consider "VKeyword k \<in> snd ` set b" | s where "(s, VKeyword k) \<in> set ?vr"
      by (auto simp: hidden_entries_def Let_def)
    then show ?thesis
    proof cases
      case 1
      then show ?thesis using inv by (auto simp: row_inv_def)
    next
      case 2
      from vr(1) [OF 2] f(1) show ?thesis by (auto simp: pairs_def fact_keywords_def)
    qed
  qed
  moreover have "solution U fs (map_of b') (qs @ [p])"
  proof -
    have "\<exists>x. map_of b' s = Some x \<and> same U x v" if sv: "(s, v) \<in> set ?vr" for s v
    proof (cases "map_of b s")
      case None
      have "map_of ?vr s = Some v" using linear_pairs [OF p, of f] sv by simp
      moreover have "same U v v" using vr(1) [OF sv] f(2) by (auto simp: pairs_def same_refl)
      ultimately show ?thesis using look [OF vr(4) [OF sv]] None by simp
    next
      case (Some x)
      then show ?thesis using ok(2) sv keep [OF vr(4) [OF sv]] by (auto simp: agrees_def same_def)
    qed
    then have "solves U (map_of b') p f" using ok(1) p(2) by (auto simp: solves_def)
    then show ?thesis using inv f(1) solves_mono [OF _ keep] by (fastforce simp: row_inv_def solution_def)
  qed
  moreover have "\<exists>q \<in> set (qs @ [p]). s \<in> pattern_vars q" if s: "prefix ''?'' s" "map_of b' s \<noteq> None" for s
  proof (cases "map_of b s")
    case None
    have "\<not> prefix ''__f'' s" using s(1) by (auto simp: prefix_def)
    then have "map_of ?vr s \<noteq> None" using look None s(2) by simp
    then have "s \<in> fst ` set ?vr" by (simp add: map_of_eq_None_iff)
    then show ?thesis unfolding vars_row_pattern_vars [OF p(2)] by simp
  qed (use inv s in \<open>auto simp: row_inv_def\<close>)
  moreover have "distinct (map fst b')" using inv unfolding ok(3) by (simp add: row_inv_def distinct_extend_row del: extend_row_append)
  moreover have "prefix ''?'' k \<or> prefix ''__f'' k" if "k \<in> fst ` set b'" for k
  proof -
    have "k \<in> fst ` set b \<or> k \<in> fst ` set ?vr \<or> k \<in> fst ` set (hidden_entries U f)"
      using that unfolding ok(3) extend_row_keys by auto
    then show ?thesis using inv vars_row_var [of k "pairs p a f"] hidden_entries_keys(2) [of k U f]
      by (auto simp: row_inv_def)
  qed
  ultimately show ?thesis by (simp add: row_inv_def)
qed

lemma row_step_complete:
  assumes p: "linear_pattern p" "pat_attribute p = Real a" and sol: "solves U \<sigma> p f" and c: "compatible U \<sigma> b"
  shows "\<exists>b'. row_step U p a b f = Some b' \<and> compatible U \<sigma> b'"
proof -
  let ?vr = "vars_row (pairs p a f)"
  have \<sigma>: "\<exists>y. \<sigma> s = Some y \<and> same U y v" if "(s, v) \<in> set ?vr" for s v
  proof -
    have "\<forall>s v. (s, v) \<in> set ?vr \<longrightarrow> (\<exists>y. \<sigma> s = Some y \<and> same U y v)" using sol p(2) by (simp add: solves_def)
    then show ?thesis using that by blast
  qed
  have "same U x v" if "(s, v) \<in> set ?vr" "map_of b s = Some x" for s v x
  proof -
    have "prefix ''?'' s" using vars_row_var [of s "pairs p a f"] that(1) by force
    then show ?thesis using \<sigma> [OF that(1)] c that(2) same_trans by (fastforce simp: compatible_def)
  qed
  then have "agrees U b ?vr" by (auto simp: agrees_def same_def)
  then obtain b' where b': "row_step U p a b f = Some b'"
    using sol p(2) by (auto simp: row_step_def solves_def)
  have "\<exists>y. \<sigma> s = Some y \<and> same U x y" if s: "prefix ''?'' s" "map_of b' s = Some x" for s x
  proof (cases "map_of b s")
    case None
    have "\<not> prefix ''__f'' s" using s(1) by (auto simp: prefix_def)
    then have "map_of ?vr s = Some x" using row_step_lookup [OF p b'] None s(2) by simp
    then show ?thesis using \<sigma> [OF map_of_SomeD] same_sym by blast
  next
    case (Some z)
    have "\<not> prefix ''__f'' s" using s(1) by (auto simp: prefix_def)
    then have "z = x" using row_step_lookup [OF p b'] Some s(2) by simp
    then show ?thesis using c s(1) Some by (auto simp: compatible_def)
  qed
  with b' show ?thesis by (auto simp: compatible_def)
qed

lemma nested_rows:
  assumes "pat_attribute p = Real a" "linear_pattern p" "no_wildcards b" "keywords_apart U (get_facts m) rows" "b \<in> set rows"
  shows "match_pattern_with_bindings U m p b = List.map_filter (row_step U p a b) (get_facts m)"
  using assms(1) scan_fact_step [OF assms(2,1,3,4,5)]
  by (simp add: match_pattern_with_bindings_def match_pattern_with_bindings_scan_def) (rule map_filter_cong, simp)

lemma first_rows:
  assumes "pat_attribute p = Real a" "linear_pattern p"
  shows "match_pattern U m p = List.map_filter (row_step U p a []) (get_facts m)"
  unfolding match_pattern_def
proof (rule map_filter_cong)
  fix f
  have "extend_row (vars_row (pairs p a f)) (hidden_entries U f) = vars_row (pairs p a f) @ hidden_entries U f"
    using hidden_entries_keys(1) [of U f] hidden_entries_keys(2) [of _ U f] vars_row_var [of _ "pairs p a f"]
    by (intro extend_row_new) (auto simp: map_of_eq_None_iff)
  moreover have "extend_row [] (vars_row (pairs p a f)) = vars_row (pairs p a f)"
    using extend_row_new [of "vars_row (pairs p a f)" "[]"] linear_pairs [OF assms(2,1), of f] by simp
  ultimately show "match_fact_against_pattern U m f p = row_step U p a [] f"
    using match_fact_real [OF assms(1) linear_pairs [OF assms(2,1)], of U m f]
    by (simp add: row_step_def agrees_def)
qed

definition plain_pattern :: "pattern \<Rightarrow> bool" where
  "plain_pattern p \<longleftrightarrow> linear_pattern p \<and> (\<exists>a. pat_attribute p = Real a)"

lemma row_keywords_facts:
  "\<forall>b \<in> set rows. row_inv U fs qs b \<Longrightarrow> inj_on (keyword_id U) (fact_keywords fs) \<Longrightarrow> keywords_apart U fs rows"
proof -
  assume inv: "\<forall>b \<in> set rows. row_inv U fs qs b" and inj: "inj_on (keyword_id U) (fact_keywords fs)"
  have "row_keywords rows \<subseteq> fact_keywords fs" using inv by (force simp: row_keywords_def row_inv_def)
  with inj show ?thesis by (simp add: keywords_apart_def Un_absorb2)
qed

lemma set_map_filter: "y \<in> set (List.map_filter g xs) \<longleftrightarrow> (\<exists>x \<in> set xs. g x = Some y)"
  by (force simp: map_filter_def)

lemma joined_rows:
  assumes facts: "\<forall>f \<in> set (get_facts m). \<not> value_is_nan (val f)" and inj: "inj_on (keyword_id U) (fact_keywords (get_facts m))"
    and ps: "\<forall>p \<in> set ps. plain_pattern p" and rows: "\<forall>b \<in> set rows. row_inv U (get_facts m) qs b"
  shows "(\<forall>b \<in> set (fold (\<lambda>p rows. join_with_pattern U m rows p) ps rows). row_inv U (get_facts m) (qs @ ps) b) \<and>
    (\<forall>\<sigma>. solution U (get_facts m) \<sigma> ps \<longrightarrow> (\<exists>b \<in> set rows. compatible U \<sigma> b) \<longrightarrow>
      (\<exists>b \<in> set (fold (\<lambda>p rows. join_with_pattern U m rows p) ps rows). compatible U \<sigma> b))"
  using ps rows
proof (induction ps arbitrary: rows qs)
  case (Cons p ps)
  let ?fs = "get_facts m"
  obtain a where a: "pat_attribute p = Real a" "linear_pattern p" using Cons.prems(1) by (auto simp: plain_pattern_def)
  have apart: "keywords_apart U ?fs rows" using row_keywords_facts [OF Cons.prems(2) inj] .
  have nw: "\<forall>b \<in> set rows. no_wildcards b" using Cons.prems(2) by (auto simp: row_inv_def)
  define rows' where "rows' = join_with_pattern U m rows p"
  have rows': "b' \<in> set rows' \<longleftrightarrow> (\<exists>b \<in> set rows. \<exists>f \<in> set ?fs. row_step U p a b f = Some b')" for b'
    using nested_rows [OF a _ apart] nw unfolding rows'_def join_nested_loop [OF a(2) nw apart]
    by (auto simp: set_map_filter)
  have "\<forall>b' \<in> set rows'. row_inv U ?fs (qs @ [p]) b'"
    using rows' row_step_inv [OF a(2,1)] Cons.prems(2) facts by blast
  note IH = Cons.IH [OF _ this]
  have "\<exists>b' \<in> set rows'. compatible U \<sigma> b'" if "solution U ?fs \<sigma> (p # ps)" "\<exists>b \<in> set rows. compatible U \<sigma> b" for \<sigma>
    using that row_step_complete [OF a(2,1), of U \<sigma>] by (force simp: solution_def rows')
  with IH Cons.prems(1) show ?case
    by (auto simp: rows'_def [symmetric] solution_def)
qed simp

text \<open>
  C27. The hash join is the nested loop: joining rows with a pattern gives, row by row and in
  the same order, what matching the pattern against every fact under each row's bindings
  gives. The pattern uses each variable once; the rows bind no wildcard; and no two
  keywords in play denote the same entity.
\<close>

theorem hash_join_is_nested_loop:
  assumes "linear_pattern p" and "\<forall>b \<in> set rows. no_wildcards b" and "keywords_apart U (get_facts m) rows"
  shows "join_with_pattern U m rows p = concat (map (match_pattern_with_bindings U m p) rows)"
  using assms by (rule join_nested_loop)

definition sample_uuid_ops :: uuid_ops where
  "sample_uuid_ops = \<lparr>parse_str = \<lambda>s. None, new_v5_oid = \<lambda>bs. of_nat (length bs), uuid_to_string = \<lambda>u. ''x''\<rparr>"

definition sample_matcher :: pattern_matcher where
  "sample_matcher = from_slice_with_valid_at
     [fact_new 1 '':knows'' (VRef 2) 0, fact_new 2 '':name'' (VString ''Bo'') 0] VNull"

definition sample_patterns :: "pattern list" where
  "sample_patterns = [pattern_new (Symbol ''?a'') (Keyword '':knows'') (Symbol ''?b''),
     pattern_new (Symbol ''?b'') (Keyword '':name'') (Symbol ''?n'')]"

lemma sample_facts:
  "get_facts sample_matcher = [fact_new 1 '':knows'' (VRef 2) 0, fact_new 2 '':name'' (VString ''Bo'') 0]"
  by (simp add: sample_matcher_def get_facts_def from_slice_with_valid_at_def)

lemma sample_keywords: "fact_keywords (get_facts sample_matcher) = {'':knows'', '':name''}"
  by (auto simp: sample_facts fact_keywords_def fact_new_def)

lemma sample_ids: "inj_on (keyword_id sample_uuid_ops) {'':knows'', '':name''}"
  by (simp add: keyword_id_def sample_uuid_ops_def as_bytes_def)

lemma sample_plain: "\<forall>p \<in> set sample_patterns. plain_pattern p"
  by (simp add: sample_patterns_def plain_pattern_def linear_pattern_def pattern_new_def var_of_def is_wildcard_def)

theorem hash_join_is_nested_loop_witness:
  "join_with_pattern sample_uuid_ops sample_matcher [[(''?b'', VRef 2)]] (sample_patterns ! 1) =
     match_pattern_with_bindings sample_uuid_ops sample_matcher (sample_patterns ! 1) [(''?b'', VRef 2)]"
  using hash_join_is_nested_loop [of "sample_patterns ! 1" "[[(''?b'', VRef 2)]]" sample_uuid_ops sample_matcher]
    sample_plain sample_ids
  by (simp add: sample_patterns_def plain_pattern_def no_wildcards_def keywords_apart_def sample_keywords row_keywords_def)

lemma match_patterns_rows:
  assumes "\<forall>f \<in> set (get_facts m). \<not> value_is_nan (val f)" "inj_on (keyword_id U) (fact_keywords (get_facts m))"
    and "\<forall>p \<in> set ps. plain_pattern p"
  shows "(\<forall>b \<in> set (match_patterns U m ps). row_inv U (get_facts m) ps b) \<and>
    (\<forall>\<sigma>. solution U (get_facts m) \<sigma> ps \<longrightarrow> (\<exists>b \<in> set (match_patterns U m ps). compatible U \<sigma> b))"
proof (cases ps)
  case Nil
  then show ?thesis by (simp add: row_inv_def no_wildcards_def solution_def compatible_def)
next
  case (Cons p qs)
  obtain a where a: "pat_attribute p = Real a" "linear_pattern p" using assms(3) Cons by (auto simp: plain_pattern_def)
  have start: "row_inv U (get_facts m) [] []" "compatible U \<sigma> []" for \<sigma>
    by (simp_all add: row_inv_def no_wildcards_def solution_def compatible_def)
  have rows: "b \<in> set (match_pattern U m p) \<longleftrightarrow> (\<exists>f \<in> set (get_facts m). row_step U p a [] f = Some b)" for b
    by (simp add: first_rows [OF a] set_map_filter)
  have "\<forall>b \<in> set (match_pattern U m p). row_inv U (get_facts m) [p] b"
    using rows row_step_inv [OF a(2,1) _ start(1)] assms(1) by force
  note J = joined_rows [OF assms(1,2) _ this, of qs]
  have "\<exists>b \<in> set (match_pattern U m p). compatible U \<sigma> b" if "solution U (get_facts m) \<sigma> ps" for \<sigma>
    using that row_step_complete [OF a(2,1) _ start(2)] by (force simp: solution_def rows Cons)
  then show ?thesis using J assms(3) by (auto simp: Cons solution_def)
qed

text \<open>
  C28. The rows of a list of patterns are its solutions. Every row gives each pattern a fact it
  matches with the row's values; and whenever values for the variables let every pattern
  match some fact, there is a row with those values. Values are compared the way joins
  compare them, a keyword and the entity it names being the same. The patterns are over
  stored attributes and use each variable once, no stored value is NaN, and the stored
  keywords name different entities.
\<close>

theorem match_patterns_solutions:
  assumes "\<forall>f \<in> set (get_facts m). \<not> value_is_nan (val f)"
    and "inj_on (keyword_id U) (fact_keywords (get_facts m))" and "\<forall>p \<in> set ps. plain_pattern p"
  shows "(\<forall>b \<in> set (match_patterns U m ps). solution U (get_facts m) (map_of b) ps) \<and>
    (\<forall>\<sigma>. solution U (get_facts m) \<sigma> ps \<longrightarrow> (\<exists>b \<in> set (match_patterns U m ps). compatible U \<sigma> b))"
  using match_patterns_rows [OF assms] by (auto simp: row_inv_def)

lemma sample_row:
  "\<exists>b. b \<in> set (match_patterns sample_uuid_ops sample_matcher sample_patterns)"
proof -
  have "match_patterns sample_uuid_ops sample_matcher sample_patterns \<noteq> []" by code_simp
  then show ?thesis by (metis last_in_set)
qed

theorem match_patterns_solutions_witness:
  "\<exists>b. b \<in> set (match_patterns sample_uuid_ops sample_matcher sample_patterns) \<and>
     solution sample_uuid_ops (get_facts sample_matcher) (map_of b) sample_patterns"
proof -
  obtain b where b: "b \<in> set (match_patterns sample_uuid_ops sample_matcher sample_patterns)" using sample_row by blast
  have "\<forall>f \<in> set (get_facts sample_matcher). \<not> value_is_nan (val f)" by (simp add: sample_facts fact_new_def)
  from match_patterns_solutions [OF this _ sample_plain, of sample_uuid_ops, THEN conjunct1] sample_ids b show ?thesis
    by (auto simp: sample_keywords)
qed

lemma match_patterns_same_rows:
  assumes "\<forall>f \<in> set (get_facts m). \<not> value_is_nan (val f)"
    and "inj_on (keyword_id U) (fact_keywords (get_facts m))" and "\<forall>p \<in> set ps. plain_pattern p"
    and "set qs = set ps" and "b \<in> set (match_patterns U m ps)"
  shows "\<exists>c \<in> set (match_patterns U m qs). \<forall>s. prefix ''?'' s \<longrightarrow> rel_option (same U) (map_of b s) (map_of c s)"
proof -
  let ?fs = "get_facts m"
  have qs: "\<forall>p \<in> set qs. plain_pattern p" using assms(3,4) by simp
  have b: "row_inv U ?fs ps b" using match_patterns_rows [OF assms(1,2,3)] assms(5) by blast
  then have "solution U ?fs (map_of b) qs" using assms(4) by (simp add: row_inv_def solution_def)
  then obtain c where c: "c \<in> set (match_patterns U m qs)" "compatible U (map_of b) c" "row_inv U ?fs qs c"
    using match_patterns_rows [OF assms(1,2) qs] by blast
  have "rel_option (same U) (map_of b s) (map_of c s)" if s: "prefix ''?'' s" for s
  proof (cases "map_of c s")
    case None
    have "map_of b s = None"
    proof (rule ccontr)
      assume "map_of b s \<noteq> None"
      then obtain q where q: "q \<in> set qs" "s \<in> pattern_vars q" using b s assms(4) by (auto simp: row_inv_def)
      then obtain f where f: "solves U (map_of c) q f" using c(3) by (auto simp: row_inv_def solution_def)
      then obtain a where a: "pat_attribute q = Real a" by (auto simp: solves_def split: attribute_spec.splits)
      then obtain v where "(s, v) \<in> set (vars_row (pairs q a f))"
        using q(2) vars_row_pattern_vars [OF a, of f] by force
      then have "\<exists>x. map_of c s = Some x" using f a by (simp add: solves_def) blast
      then show False using None by simp
    qed
    with None show ?thesis by simp
  next
    case (Some x)
    then show ?thesis using c(2) s same_sym by (fastforce simp: compatible_def)
  qed
  with c(1) show ?thesis by blast
qed

text \<open>
  The order of the patterns does not matter: whatever rearrangement of them (with or
  without repetition) is matched, every row of one order appears in the other, with the same
  variables bound to the same values. This is what lets the optimizer sort patterns.
\<close>

lemma match_patterns_order:
  assumes "\<forall>f \<in> set (get_facts m). \<not> value_is_nan (val f)"
    and "inj_on (keyword_id U) (fact_keywords (get_facts m))" and "\<forall>p \<in> set ps. plain_pattern p"
    and "set qs = set ps" and "b \<in> set (match_patterns U m ps)"
  shows "\<exists>c \<in> set (match_patterns U m qs). \<forall>s. prefix ''?'' s \<longrightarrow> rel_option (same U) (map_of b s) (map_of c s)"
  using assms by (rule match_patterns_same_rows)

end
