(* ===== verification/Optimizer.thy ===== *)
theory Optimizer
  imports Matcher "HOL-Library.Multiset"
begin

text \<open>
  The query optimizer, \<^verbatim>\<open>src/query/datalog/optimizer.rs\<close>: choice of an index per pattern, the
  stable sort of patterns by selectivity, and the placement of expressions and negations at
  the earliest point where their variables are bound. The build without the \<^verbatim>\<open>wasm\<close> feature
  is modelled (the other one does not sort).

  Shown: a plan holds every clause it was given exactly once, never evaluates a clause
  before its variables are bound, and defers a clause only when it must; sorting patterns
  does not change the rows they match.
\<close>

section \<open>Index selection and cost\<close>

definition is_entity_literal :: "edn_value \<Rightarrow> bool" where
  "is_entity_literal v = (case v of Uuid _ \<Rightarrow> True | _ \<Rightarrow> False)"

definition attr_is_index_bound :: "attribute_spec \<Rightarrow> bool" where
  "attr_is_index_bound a = (case a of Real e \<Rightarrow> \<not> is_variable e | Pseudo _ \<Rightarrow> False)"

definition selectivity_score :: "pattern \<Rightarrow> nat" where
  "selectivity_score p =
     of_bool (\<not> is_variable (pat_entity p)) + of_bool (attr_is_index_bound (pat_attribute p)) +
     of_bool (\<not> is_variable (pat_value p))"

definition select_index :: "pattern \<Rightarrow> index_hint" where
  "select_index p =
     (let e_bound = \<not> is_variable (pat_entity p);
          a_bound = attr_is_index_bound (pat_attribute p);
          v_bound = \<not> is_variable (pat_value p)
      in if e_bound then HEavt
         else if a_bound \<and> v_bound then HAvet
         else if a_bound then HAevt
         else if v_bound \<and> is_entity_literal (pat_value p) then HVaet
         else HEavt)"

definition pattern_cost :: "pattern \<Rightarrow> u64" where
  "pattern_cost p =
     (let n = selectivity_score p in if n = 3 then 1 else if n = 2 then 10 else if n = 1 then 100 else 10000)"

definition branch_cost :: "where_clause list \<Rightarrow> u64" where
  "branch_cost branch =
     (case List.map_filter (\<lambda>c. case c of PatternC p \<Rightarrow> Some (pattern_cost p) | _ \<Rightarrow> None) branch of
        [] \<Rightarrow> 0
      | c # cs \<Rightarrow> fold min cs c)"

fun clause_cost :: "where_clause \<Rightarrow> u64" where
  "clause_cost (PatternC p) = pattern_cost p"
| "clause_cost (ExprC _ _) = 0"
| "clause_cost (Not body) = branch_cost body"
| "clause_cost (NotJoin _ clauses) = branch_cost clauses"
| "clause_cost (Or branches) = sum_list (map branch_cost branches)"
| "clause_cost (OrJoin _ branches) = sum_list (map branch_cost branches)"
| "clause_cost (RuleInvocation _ _) = u64_MAX"

section \<open>Variables\<close>

fun expr_vars :: "expr \<Rightarrow> string list" where
  "expr_vars (Var s) = [s]"
| "expr_vars (Lit _) = []"
| "expr_vars (Slot _) = []"
| "expr_vars (BinOp _ l r) = expr_vars l @ expr_vars r"
| "expr_vars (UnaryOp _ e) = expr_vars e"

definition pattern_bound_vars :: "pattern \<Rightarrow> string list" where
  "pattern_bound_vars p =
     List.map_filter as_variable
       (pat_entity p # (case pat_attribute p of Real a \<Rightarrow> [a] | Pseudo _ \<Rightarrow> []) @ [pat_value p])"

fun clause_ref_vars1 :: "where_clause \<Rightarrow> string set" where
  "clause_ref_vars1 (PatternC p) = set (pattern_bound_vars p)"
| "clause_ref_vars1 (ExprC e binding) = set (expr_vars e) \<union> set_option binding"
| "clause_ref_vars1 (Not inner) = \<Union> (set (map clause_ref_vars1 inner))"
| "clause_ref_vars1 (NotJoin _ inner) = \<Union> (set (map clause_ref_vars1 inner))"
| "clause_ref_vars1 (RuleInvocation _ args) = set (List.map_filter as_variable args)"
| "clause_ref_vars1 (Or _) = {}"
| "clause_ref_vars1 (OrJoin _ _) = {}"

definition clause_ref_vars :: "where_clause list \<Rightarrow> string set" where
  "clause_ref_vars clauses = \<Union> (set (map clause_ref_vars1 clauses))"

section \<open>Planning\<close>

type_synonym planned = "(where_clause \<times> index_hint option) list"

definition bound_vars :: "where_clause \<Rightarrow> string set" where
  "bound_vars c = (case c of PatternC p \<Rightarrow> set (pattern_bound_vars p) | _ \<Rightarrow> {})"

definition insert_at :: "nat \<Rightarrow> 'a \<Rightarrow> 'a list \<Rightarrow> 'a list" where
  "insert_at i x xs = take i xs @ x # drop i xs"

text \<open>The position after the first pattern at which the required variables are bound.\<close>

fun bound_position :: "string set \<Rightarrow> string set \<Rightarrow> nat \<Rightarrow> planned \<Rightarrow> nat option" where
  "bound_position required bound pos [] = None"
| "bound_position required bound pos ((c, _) # xs) = (case c of
      PatternC p \<Rightarrow>
        let bound' = bound \<union> set (pattern_bound_vars p) in
        if required \<subseteq> bound' then Some (pos + 1) else bound_position required bound' (pos + 1) xs
    | _ \<Rightarrow> bound_position required bound (pos + 1) xs)"

definition place_expr ::
    "where_clause \<Rightarrow> planned \<times> where_clause list \<times> string set \<Rightarrow> planned \<times> where_clause list \<times> string set" where
  "place_expr c st = (case st of (result, deferred, placeable) \<Rightarrow>
     let (vars, out) = (case c of ExprC e b \<Rightarrow> (set (expr_vars e), set_option b) | _ \<Rightarrow> ({}, {})) in
     if \<not> vars \<subseteq> placeable then (result, deferred @ [c], placeable)
     else
       let insert_pos = (if vars = {} then length result
                         else case bound_position vars {} 0 result of Some i \<Rightarrow> i | None \<Rightarrow> length result)
       in (insert_at insert_pos (c, None) result, deferred, placeable \<union> out))"

definition required_vars :: "where_clause \<Rightarrow> string set" where
  "required_vars c = (case c of
      Not body \<Rightarrow> Set.filter (\<lambda>v. \<not> prefix ''?_'' v) (clause_ref_vars body)
    | NotJoin join_vars _ \<Rightarrow> set (filter (\<lambda>v. \<not> prefix ''?_'' v) join_vars)
    | _ \<Rightarrow> {})"

definition place_not :: "where_clause \<Rightarrow> planned \<times> where_clause list \<Rightarrow> planned \<times> where_clause list" where
  "place_not c st = (case st of (result, deferred) \<Rightarrow>
     let required = required_vars c in
     if required = {} then (insert_at 0 (c, None) result, deferred)
     else case bound_position required {} 0 result of
       Some pos \<Rightarrow> (insert_at pos (c, None) result, deferred)
     | None \<Rightarrow> (result, deferred @ [c]))"

definition is_pattern :: "where_clause \<Rightarrow> bool" where
  "is_pattern c = (case c of PatternC _ \<Rightarrow> True | _ \<Rightarrow> False)"

definition is_expr :: "where_clause \<Rightarrow> bool" where
  "is_expr c = (case c of ExprC _ _ \<Rightarrow> True | _ \<Rightarrow> False)"

definition is_not :: "where_clause \<Rightarrow> bool" where
  "is_not c = (case c of Not _ \<Rightarrow> True | NotJoin _ _ \<Rightarrow> True | _ \<Rightarrow> False)"

definition pattern_rank :: "where_clause \<Rightarrow> int" where
  "pattern_rank c = (case c of PatternC p \<Rightarrow> - int (selectivity_score p) | _ \<Rightarrow> 0)"

definition hint_of :: "where_clause \<Rightarrow> index_hint option" where
  "hint_of c = (case c of PatternC p \<Rightarrow> Some (select_index p) | _ \<Rightarrow> None)"

definition plan :: "where_clause list \<Rightarrow> planned \<times> where_clause list" where
  "plan clauses =
     (let patterns = sort_key pattern_rank (filter is_pattern clauses);
          result0 = map (\<lambda>c. (c, hint_of c)) patterns;
          placeable0 = \<Union> (set (map (\<lambda>(c, _). bound_vars c) result0));
          (result1, deferred1, _) = fold place_expr (filter is_expr clauses) (result0, [], placeable0);
          nots = sort_key (\<lambda>c. - int (unat (clause_cost c))) (filter is_not clauses)
      in fold place_not nots (result1, deferred1))"

section \<open>Every clause once\<close>

lemma mset_insert_at: "mset (insert_at i x xs) = add_mset x (mset xs)"
  by (simp add: insert_at_def) (metis append_take_drop_id mset_append)

lemma place_expr_mset:
  assumes "place_expr c (r, d, s) = (r', d', s')"
  shows "mset (map fst r') + mset d' = add_mset c (mset (map fst r) + mset d)"
  using assms by (auto simp: place_expr_def Let_def mset_insert_at split: prod.splits if_splits)

lemma place_not_mset:
  assumes "place_not c (r, d) = (r', d')"
  shows "mset (map fst r') + mset d' = add_mset c (mset (map fst r) + mset d)"
  using assms by (auto simp: place_not_def Let_def mset_insert_at split: prod.splits if_splits option.splits)

lemma fold_place_expr_mset:
  "fold place_expr cs (r, d, s) = (r', d', s') \<Longrightarrow>
     mset (map fst r') + mset d' = mset cs + mset (map fst r) + mset d"
proof (induction cs arbitrary: r d s)
  case (Cons c cs)
  obtain r1 d1 s1 where st: "place_expr c (r, d, s) = (r1, d1, s1)" by (cases "place_expr c (r, d, s)")
  with Cons.IH [of r1 d1 s1] Cons.prems place_expr_mset [OF st] show ?case by simp
qed simp

lemma fold_place_not_mset:
  "fold place_not cs (r, d) = (r', d') \<Longrightarrow>
     mset (map fst r') + mset d' = mset cs + mset (map fst r) + mset d"
proof (induction cs arbitrary: r d)
  case (Cons c cs)
  obtain r1 d1 where st: "place_not c (r, d) = (r1, d1)" by (cases "place_not c (r, d)")
  with Cons.IH [of r1 d1] Cons.prems place_not_mset [OF st] show ?case by simp
qed simp

definition plannable :: "where_clause \<Rightarrow> bool" where
  "plannable c \<longleftrightarrow> is_pattern c \<or> is_expr c \<or> is_not c"

lemma plannable_parts:
  "mset (filter plannable cs) = mset (filter is_pattern cs) + mset (filter is_expr cs) + mset (filter is_not cs)"
  by (induction cs) (auto simp: plannable_def is_pattern_def is_expr_def is_not_def split: where_clause.splits)

lemma plan_stages:
  assumes "plan cs = (r, d)"
  obtains r1 d1 s1 where
    "fold place_expr (filter is_expr cs) (map (\<lambda>c. (c, hint_of c)) (sort_key pattern_rank (filter is_pattern cs)), [],
       \<Union> (bound_vars ` set (filter is_pattern cs))) = (r1, d1, s1)"
    "fold place_not (sort_key (\<lambda>c. - int (unat (clause_cost c))) (filter is_not cs)) (r1, d1) = (r, d)"
  using assms by (auto simp: plan_def Let_def image_image split: prod.splits)

lemma plan_mset:
  assumes "plan cs = (r, d)"
  shows "mset (map fst r) + mset d = mset (filter plannable cs)"
proof -
  obtain r1 d1 s1 where st:
    "fold place_expr (filter is_expr cs) (map (\<lambda>c. (c, hint_of c)) (sort_key pattern_rank (filter is_pattern cs)), [],
       \<Union> (bound_vars ` set (filter is_pattern cs))) = (r1, d1, s1)"
    "fold place_not (sort_key (\<lambda>c. - int (unat (clause_cost c))) (filter is_not cs)) (r1, d1) = (r, d)"
    using plan_stages [OF assms] .
  have p: "mset (filter plannable cs) = mset (filter is_not cs) + (mset (filter is_expr cs) + mset (filter is_pattern cs))"
    by (simp add: plannable_parts del: mset_filter)
  from fold_place_expr_mset [OF st(1)] fold_place_not_mset [OF st(2)] show ?thesis
    by (simp add: p comp_def del: mset_filter)
qed

section \<open>No clause before its variables\<close>

definition outputs :: "where_clause list \<Rightarrow> string set" where
  "outputs cs = \<Union> (set (map (\<lambda>c. case c of ExprC _ b \<Rightarrow> set_option b | _ \<Rightarrow> bound_vars c) cs))"

definition pattern_outputs :: "where_clause list \<Rightarrow> string set" where
  "pattern_outputs cs = \<Union> (set (map bound_vars cs))"

text \<open>What a clause may rely on when the clauses before it in the plan have run.\<close>

definition ready :: "where_clause list \<Rightarrow> where_clause \<Rightarrow> index_hint option \<Rightarrow> bool" where
  "ready before c hint \<longleftrightarrow> hint = hint_of c \<and> (case c of
      ExprC e _ \<Rightarrow> set (expr_vars e) \<subseteq> outputs before
    | _ \<Rightarrow> required_vars c \<subseteq> pattern_outputs before)"

definition safe_plan :: "planned \<Rightarrow> bool" where
  "safe_plan r \<longleftrightarrow> (\<forall>ys c h zs. r = ys @ (c, h) # zs \<longrightarrow> ready (map fst ys) c h)"

lemma outputs_mono:
  "set cs \<subseteq> set ds \<Longrightarrow> outputs cs \<subseteq> outputs ds" "set cs \<subseteq> set ds \<Longrightarrow> pattern_outputs cs \<subseteq> pattern_outputs ds"
  by (auto simp: outputs_def pattern_outputs_def)

lemma ready_mono: "ready cs c h \<Longrightarrow> set cs \<subseteq> set ds \<Longrightarrow> ready ds c h"
  using outputs_mono [of cs ds] by (auto simp: ready_def split: where_clause.splits)

lemma safe_plan_insert:
  assumes "safe_plan (as @ bs)" "ready (map fst as) c h"
  shows "safe_plan (as @ (c, h) # bs)"
  unfolding safe_plan_def
proof (intro allI impI)
  fix ys c' h' zs assume eq: "as @ (c, h) # bs = ys @ (c', h') # zs"
  then consider us where "as = ys @ (c', h') # us" "zs = us @ (c, h) # bs"
    | "ys = as" "c' = c" "h' = h" "zs = bs" | us where "ys = as @ (c, h) # us" "bs = us @ (c', h') # zs"
    by (auto simp: append_eq_append_conv2 Cons_eq_append_conv append_eq_Cons_conv)
  then show "ready (map fst ys) c' h'"
  proof cases
    case (1 us)
    then have "as @ bs = ys @ (c', h') # (us @ bs)" by simp
    then show ?thesis using assms(1) unfolding safe_plan_def by blast
  next
    case 2
    then show ?thesis using assms(2) by simp
  next
    case (3 us)
    then have "as @ bs = (as @ us) @ (c', h') # zs" by simp
    then have "ready (map fst (as @ us)) c' h'" using assms(1) unfolding safe_plan_def by blast
    then show ?thesis by (rule ready_mono) (auto simp: 3)
  qed
qed

lemma safe_plan_insert_at:
  "safe_plan r \<Longrightarrow> ready (map fst (take i r)) c h \<Longrightarrow> safe_plan (insert_at i (c, h) r)"
  unfolding insert_at_def by (rule safe_plan_insert) simp_all

lemma bound_position_Cons:
  "bound_position req bound k ((c, h) # r) =
     (if is_pattern c \<and> req \<subseteq> bound \<union> bound_vars c then Some (k + 1)
      else bound_position req (bound \<union> bound_vars c) (k + 1) r)"
  by (cases c) (simp_all add: is_pattern_def bound_vars_def Let_def)

lemma pattern_outputs_Cons [simp]: "pattern_outputs (c # cs) = bound_vars c \<union> pattern_outputs cs" "pattern_outputs [] = {}"
  by (simp_all add: pattern_outputs_def)

lemma bound_position_Some:
  assumes "bound_position req bound k r = Some i"
  shows "k \<le> i \<and> req \<subseteq> bound \<union> pattern_outputs (map fst (take (i - k) r))"
  using assms
proof (induction r arbitrary: bound k)
  case (Cons x r)
  obtain c h where x: "x = (c, h)" by (cases x)
  show ?case
  proof (cases "is_pattern c \<and> req \<subseteq> bound \<union> bound_vars c")
    case True
    with Cons.prems have "i = Suc k" unfolding x bound_position_Cons by simp
    with True show ?thesis by (simp add: x)
  next
    case False
    with Cons.prems have "bound_position req (bound \<union> bound_vars c) (k + 1) r = Some i"
      unfolding x bound_position_Cons by (simp split: if_splits)
    from Cons.IH [OF this] have IH: "k + 1 \<le> i" "req \<subseteq> bound \<union> bound_vars c \<union> pattern_outputs (map fst (take (i - (k + 1)) r))"
      by auto
    from IH(1) have "i - k = Suc (i - (k + 1))" by linarith
    with IH show ?thesis by (auto simp: x)
  qed
qed simp

lemma bound_position_None:
  assumes "bound_position req bound k r = None" "\<not> req \<subseteq> bound"
  shows "\<not> req \<subseteq> bound \<union> pattern_outputs (map fst r)"
  using assms
proof (induction r arbitrary: bound k)
  case (Cons x r)
  obtain c h where x: "x = (c, h)" by (cases x)
  have "bound_vars c = {}" if "\<not> is_pattern c"
    using that by (auto simp: is_pattern_def bound_vars_def split: where_clause.splits)
  with Cons.prems have "bound_position req (bound \<union> bound_vars c) (k + 1) r = None" "\<not> req \<subseteq> bound \<union> bound_vars c"
    unfolding x bound_position_Cons by (auto split: if_splits)
  from Cons.IH [OF this] show ?case by (simp add: x Un_assoc)
qed simp

lemma pattern_outputs_subset: "pattern_outputs cs \<subseteq> outputs cs"
  unfolding outputs_def pattern_outputs_def
  by (auto simp: bound_vars_def split: where_clause.splits)

text \<open>The invariant of the two placement loops.\<close>

definition plan_inv :: "string set \<Rightarrow> planned \<Rightarrow> where_clause list \<Rightarrow> bool" where
  "plan_inv B r d \<longleftrightarrow> safe_plan r \<and> pattern_outputs (map fst r) = B \<and>
     (\<forall>c \<in> set d. case c of ExprC e _ \<Rightarrow> \<not> set (expr_vars e) \<subseteq> B | _ \<Rightarrow> \<not> required_vars c \<subseteq> B)"

lemma outputs_insert_at:
  "outputs (map fst (insert_at i (c, h) r)) = outputs [c] \<union> outputs (map fst r)"
  "pattern_outputs (map fst (insert_at i (c, h) r)) = bound_vars c \<union> pattern_outputs (map fst r)"
proof -
  have "set (map fst (insert_at i (c, h) r)) = insert c (set (map fst r))"
    by (metis list.simps(9) mset.simps(2) mset_insert_at mset_map set_mset_add_mset_insert set_mset_mset fst_conv)
  then show "outputs (map fst (insert_at i (c, h) r)) = outputs [c] \<union> outputs (map fst r)"
    "pattern_outputs (map fst (insert_at i (c, h) r)) = bound_vars c \<union> pattern_outputs (map fst r)"
    by (simp_all only: outputs_def pattern_outputs_def set_map [of _ "map fst _"] image_insert Union_insert) simp_all
qed

lemma place_expr_inv:
  assumes inv: "plan_inv B r d" and s: "B \<subseteq> s" "s \<subseteq> outputs (map fst r)" and c: "is_expr c"
    and st: "place_expr c (r, d, s) = (r', d', s')"
  shows "plan_inv B r' d' \<and> B \<subseteq> s' \<and> s' \<subseteq> outputs (map fst r')"
proof -
  obtain e b where ce: "c = ExprC e b" using c by (auto simp: is_expr_def split: where_clause.splits)
  show ?thesis
  proof (cases "set (expr_vars e) \<subseteq> s")
    case False
    then have "r' = r" "d' = d @ [c]" "s' = s" using st by (auto simp: place_expr_def ce)
    moreover have "\<not> set (expr_vars e) \<subseteq> B" using False s(1) by blast
    ultimately show ?thesis using inv s by (auto simp: plan_inv_def ce)
  next
    case True
    define i where "i = (if set (expr_vars e) = {} then length r
      else case bound_position (set (expr_vars e)) {} 0 r of Some i \<Rightarrow> i | None \<Rightarrow> length r)"
    have st': "r' = insert_at i (c, None) r" "d' = d" "s' = s \<union> set_option b"
      using st True by (auto simp: place_expr_def ce i_def Let_def)
    have "set (expr_vars e) \<subseteq> outputs (map fst (take i r))"
    proof (cases "i = length r")
      case True
      with \<open>set (expr_vars e) \<subseteq> s\<close> s(2) show ?thesis by simp
    next
      case False
      then have "bound_position (set (expr_vars e)) {} 0 r = Some i" by (auto simp: i_def split: if_splits option.splits)
      from bound_position_Some [OF this] show ?thesis using pattern_outputs_subset by fastforce
    qed
    then have "ready (map fst (take i r)) c None" by (simp add: ready_def ce hint_of_def)
    then have "safe_plan r'" using inv st'(1) by (simp add: plan_inv_def safe_plan_insert_at)
    then show ?thesis using inv s by (auto simp: st' plan_inv_def outputs_insert_at ce bound_vars_def outputs_def [of "[_]"])
  qed
qed

lemma place_not_inv:
  assumes inv: "plan_inv B r d" and c: "is_not c" and st: "place_not c (r, d) = (r', d')"
  shows "plan_inv B r' d'"
proof -
  have h: "hint_of c = None" "bound_vars c = {}" "ready ys c None \<longleftrightarrow> required_vars c \<subseteq> pattern_outputs ys" for ys
    using c by (auto simp: is_not_def hint_of_def bound_vars_def ready_def split: where_clause.splits)
  have placed: "plan_inv B (insert_at i (c, None) r) d" if "required_vars c \<subseteq> pattern_outputs (map fst (take i r))" for i
    using inv safe_plan_insert_at [of r i c None] that by (simp add: plan_inv_def outputs_insert_at h)
  show ?thesis
  proof (cases "required_vars c = {}")
    case True
    then show ?thesis using st placed [of 0] by (auto simp: place_not_def)
  next
    case req: False
    show ?thesis
    proof (cases "bound_position (required_vars c) {} 0 r")
      case None
      have "\<not> required_vars c \<subseteq> B" using bound_position_None [OF None] req inv by (simp add: plan_inv_def)
      moreover have "r' = r" "d' = d @ [c]" using st None req by (auto simp: place_not_def)
      ultimately show ?thesis using inv c by (auto simp: plan_inv_def is_not_def split: where_clause.splits)
    next
      case (Some i)
      then show ?thesis using st req placed [of i] bound_position_Some [OF Some] by (auto simp: place_not_def)
    qed
  qed
qed

lemma fold_place_expr_inv:
  assumes "plan_inv B r d" "B \<subseteq> s" "s \<subseteq> outputs (map fst r)" "\<forall>c \<in> set cs. is_expr c"
    "fold place_expr cs (r, d, s) = (r', d', s')"
  shows "plan_inv B r' d'"
  using assms
proof (induction cs arbitrary: r d s)
  case (Cons c cs)
  obtain r1 d1 s1 where st: "place_expr c (r, d, s) = (r1, d1, s1)" by (cases "place_expr c (r, d, s)")
  from place_expr_inv [OF Cons.prems(1-3) _ st] Cons.prems(4,5) Cons.IH [of r1 d1 s1] show ?case by (simp add: st)
qed simp

lemma fold_place_not_inv:
  assumes "plan_inv B r d" "\<forall>c \<in> set cs. is_not c" "fold place_not cs (r, d) = (r', d')"
  shows "plan_inv B r' d'"
  using assms
proof (induction cs arbitrary: r d)
  case (Cons c cs)
  obtain r1 d1 where st: "place_not c (r, d) = (r1, d1)" by (cases "place_not c (r, d)")
  from place_not_inv [OF Cons.prems(1) _ st] Cons.prems(2,3) Cons.IH [of r1 d1] show ?case by (simp add: st)
qed simp

lemma plan_invariant:
  assumes "plan cs = (r, d)"
  shows "plan_inv (pattern_outputs cs) r d"
proof -
  let ?ps = "sort_key pattern_rank (filter is_pattern cs)"
  let ?r0 = "map (\<lambda>c. (c, hint_of c)) ?ps"
  obtain r1 d1 s1 where st: "fold place_expr (filter is_expr cs) (?r0, [], \<Union> (bound_vars ` set (filter is_pattern cs))) = (r1, d1, s1)"
    "fold place_not (sort_key (\<lambda>c. - int (unat (clause_cost c))) (filter is_not cs)) (r1, d1) = (r, d)"
    using plan_stages [OF assms] .
  have B: "\<Union> (bound_vars ` set (filter is_pattern cs)) = pattern_outputs cs"
  proof -
    have "bound_vars c = {}" if "\<not> is_pattern c" for c
      using that by (auto simp: is_pattern_def bound_vars_def split: where_clause.splits)
    then show ?thesis by (force simp: pattern_outputs_def)
  qed
  have ps: "map fst ?r0 = ?ps" by (simp add: comp_def)
  have out: "pattern_outputs ?ps = pattern_outputs cs"
    unfolding B [symmetric] by (simp add: pattern_outputs_def [of ?ps])
  have rdy: "ready ys c (hint_of c)" if "c \<in> set ?ps" for ys c
    using that by (auto simp: ready_def is_pattern_def required_vars_def split: where_clause.splits)
  have "safe_plan ?r0"
    unfolding safe_plan_def
  proof (intro allI impI)
    fix ys c h zs assume "?r0 = ys @ (c, h) # zs"
    then have "(c, h) \<in> set ?r0" by (metis in_set_conv_decomp)
    then have "c \<in> set ?ps" "h = hint_of c" by auto
    then show "ready (map fst ys) c h" using rdy by simp
  qed
  then have "plan_inv (pattern_outputs cs) ?r0 []" by (simp add: plan_inv_def ps out del: map_map)
  moreover have "pattern_outputs cs \<subseteq> outputs (map fst ?r0)" using pattern_outputs_subset [of ?ps] by (simp add: ps out del: map_map)
  ultimately have "plan_inv (pattern_outputs cs) r1 d1"
    by (rule fold_place_expr_inv [OF _ subset_refl _ _ st(1) [unfolded B]]) simp
  then show ?thesis by (rule fold_place_not_inv [OF _ _ st(2)]) simp
qed

text \<open>
  Planning loses, repeats and invents no clause: the plan and the deferred clauses together
  are exactly the patterns, expressions and negations of the input.
\<close>

lemma plan_permutation:
  "mset (map fst (fst (plan cs))) + mset (snd (plan cs)) = mset (filter plannable cs)"
  by (rule plan_mset) simp

text \<open>
  C34. A plan is safe to run from left to right: each pattern has the index chosen for it; when
  an expression is reached, all its variables are bound by patterns and expressions before
  it; when a negation is reached, every variable it needs is bound by patterns before it.
  And nothing is deferred without need: a deferred clause needs a variable that no pattern
  of the query binds.
\<close>

theorem plan_safe:
  "safe_plan (fst (plan cs)) \<and>
   list_all (\<lambda>c. case c of
      ExprC e _ \<Rightarrow> \<not> set (expr_vars e) \<subseteq> pattern_outputs cs
    | _ \<Rightarrow> \<not> required_vars c \<subseteq> pattern_outputs cs) (snd (plan cs))"
  using plan_invariant [of cs "fst (plan cs)" "snd (plan cs)"] by (simp add: plan_inv_def list_all_iff)

section \<open>Sorting patterns keeps the answers\<close>

definition patterns_of :: "where_clause list \<Rightarrow> pattern list" where
  "patterns_of cs = List.map_filter (\<lambda>c. case c of PatternC p \<Rightarrow> Some p | _ \<Rightarrow> None) cs"

lemma in_patterns_of: "p \<in> set (patterns_of cs) \<longleftrightarrow> PatternC p \<in> set cs"
  by (induction cs) (auto simp: patterns_of_def split: where_clause.splits)

lemma plan_patterns: "set (patterns_of (map fst (fst (plan cs)))) = set (patterns_of cs)"
proof -
  let ?r = "fst (plan cs)" and ?d = "snd (plan cs)"
  have "set (map fst ?r) \<union> set ?d = set (filter plannable cs)"
    using arg_cong [OF plan_mset [of cs ?r ?d], of set_mset] by simp
  moreover have "PatternC p \<notin> set ?d" for p
  proof
    assume "PatternC p \<in> set ?d"
    with plan_invariant [of cs ?r ?d] have "\<not> required_vars (PatternC p) \<subseteq> pattern_outputs cs"
      by (auto simp: plan_inv_def)
    then show False by (simp add: required_vars_def)
  qed
  ultimately have "PatternC p \<in> set (map fst ?r) \<longleftrightarrow> PatternC p \<in> set cs" for p
    by (fastforce simp: plannable_def is_pattern_def)
  then show ?thesis by (auto simp: in_patterns_of simp del: set_map)
qed

text \<open>
  With pseudo-attributes the order matters: a pattern that reads the validity of an entity's
  facts ranges over all of them when it comes first, and over the fact matched before it when
  it comes later. The plan puts stored attributes first, so it can drop answers of the written
  order.
\<close>

definition pseudo_clauses :: "where_clause list" where
  "pseudo_clauses = [PatternC (pattern_pseudo (Symbol ''?e'') ValidFrom (Symbol ''?t'')),
     PatternC (pattern_new (Symbol ''?e'') (Keyword '':a'') (Symbol ''?v''))]"

definition pseudo_matcher :: pattern_matcher where
  "pseudo_matcher = from_slice_with_valid_at [fact_with_valid_time 1 '':a'' VNull 5 1 (i64_of_int 1) VALID_TIME_FOREVER,
     fact_with_valid_time 1 '':b'' VNull 5 1 (i64_of_int 2) VALID_TIME_FOREVER] VNull"

lemma plan_changes_pseudo_answers:
  "map (\<lambda>b. map_of b ''?t'') (match_patterns sample_uuid_ops pseudo_matcher (patterns_of pseudo_clauses)) =
     [Some (VInteger (i64_of_int 1)), Some (VInteger (i64_of_int 2))]"
  "map (\<lambda>b. map_of b ''?t'') (match_patterns sample_uuid_ops pseudo_matcher (patterns_of (map fst (fst (plan pseudo_clauses))))) =
     [Some (VInteger (i64_of_int 1))]"
  by code_simp+

text \<open>
  C26. The optimizer's order is as good as the one written. For patterns over stored attributes
  that use each variable once: every row the patterns match in the order of the query is
  matched in the order of the plan, with the same values, and the other way round. No stored
  value is NaN, and the stored keywords name different entities. Patterns with
  pseudo-attributes are excluded, see \<open>plan_changes_pseudo_answers\<close>.
\<close>

theorem plan_keeps_answers:
  assumes "\<forall>f \<in> set (get_facts m). \<not> value_is_nan (val f)"
    and "inj_on (keyword_id U) (fact_keywords (get_facts m))" and "\<forall>p \<in> set (patterns_of cs). plain_pattern p"
  defines "planned \<equiv> match_patterns U m (patterns_of (map fst (fst (plan cs))))"
    and "written \<equiv> match_patterns U m (patterns_of cs)"
  shows "(\<forall>b \<in> set written. \<exists>c \<in> set planned. \<forall>s. prefix ''?'' s \<longrightarrow> rel_option (same U) (map_of b s) (map_of c s)) \<and>
    (\<forall>b \<in> set planned. \<exists>c \<in> set written. \<forall>s. prefix ''?'' s \<longrightarrow> rel_option (same U) (map_of b s) (map_of c s))"
  using match_patterns_same_rows [OF assms(1,2,3) plan_patterns [of cs]]
    match_patterns_same_rows [OF assms(1,2) _ plan_patterns [of cs, symmetric]] assms(3)
  unfolding planned_def written_def plan_patterns by blast

definition sample_clauses :: "where_clause list" where
  "sample_clauses = ExprC (BinOp Gt (Var ''?n'') (Lit VNull)) None # map PatternC sample_patterns"

lemma sample_clauses_patterns: "patterns_of sample_clauses = sample_patterns"
  by (simp add: sample_clauses_def patterns_of_def sample_patterns_def)

theorem plan_keeps_answers_witness:
  "\<exists>b. b \<in> set (match_patterns sample_uuid_ops sample_matcher (patterns_of sample_clauses)) \<and>
     (\<exists>c \<in> set (match_patterns sample_uuid_ops sample_matcher (patterns_of (map fst (fst (plan sample_clauses))))).
       \<forall>s. prefix ''?'' s \<longrightarrow> rel_option (same sample_uuid_ops) (map_of b s) (map_of c s))"
proof -
  obtain b where b: "b \<in> set (match_patterns sample_uuid_ops sample_matcher (patterns_of sample_clauses))"
    using sample_row unfolding sample_clauses_patterns by blast
  have "\<forall>f \<in> set (get_facts sample_matcher). \<not> value_is_nan (val f)" by (simp add: sample_facts fact_new_def)
  moreover have "inj_on (keyword_id sample_uuid_ops) (fact_keywords (get_facts sample_matcher))"
    using sample_ids by (simp add: sample_keywords)
  moreover have "\<forall>p \<in> set (patterns_of sample_clauses). plain_pattern p"
    using sample_plain by (simp add: sample_clauses_patterns)
  ultimately show ?thesis using plan_keeps_answers [THEN conjunct1] b by blast
qed

end
