(* ===== verification/Float64.thy ===== *)
theory Float64
  imports Prelude Graph_Types
begin

text \<open>
  The arithmetic of \<^verbatim>\<open>f64\<close> that expressions and aggregates use: addition, subtraction,
  multiplication and division rounded to nearest, ties to even, and the casts from and to
  integers. A finite number is \<open>(-1) ^ s * m * 2 ^ q\<close> with an integer mantissa \<open>m\<close>; every
  operation computes the exact result as a ratio of integers times a power of two and
  rounds once. A NaN result is the quiet NaN; Rust leaves its payload open.
\<close>

unbundle bit_operations_syntax

section \<open>Taking numbers apart\<close>

definition f64_inf :: "bool \<Rightarrow> f64" where
  "f64_inf neg = F64 (if neg then 0xFFF0000000000000 else 0x7FF0000000000000)"

definition f64_zero :: "bool \<Rightarrow> f64" where
  "f64_zero neg = F64 (if neg then 0x8000000000000000 else 0)"

definition f64_nan :: f64 where
  "f64_nan = F64 0x7FF8000000000000"

definition f64_abs_bits :: "f64 \<Rightarrow> int" where
  "f64_abs_bits f = uint (to_bits f AND 0x7FFFFFFFFFFFFFFF)"

definition is_infinite :: "f64 \<Rightarrow> bool" where
  "is_infinite f \<longleftrightarrow> f64_abs_bits f = 0x7FF0000000000000"

definition is_zero :: "f64 \<Rightarrow> bool" where
  "is_zero f \<longleftrightarrow> f64_abs_bits f = 0"

definition f64_mant :: "f64 \<Rightarrow> int" where
  "f64_mant f = (let b = f64_abs_bits f in if b div 2 ^ 52 = 0 then b else b mod 2 ^ 52 + 2 ^ 52)"

definition f64_exp :: "f64 \<Rightarrow> int" where
  "f64_exp f = (let e = f64_abs_bits f div 2 ^ 52 in if e = 0 then - 1074 else e - 1075)"

definition f64_signed :: "f64 \<Rightarrow> int" where
  "f64_signed f = (if is_sign_negative f then - f64_mant f else f64_mant f)"

section \<open>Rounding\<close>

function bit_length :: "int \<Rightarrow> int" where
  "bit_length n = (if n \<le> 0 then 0 else bit_length (n div 2) + 1)"
  by auto
termination
  by (relation "measure nat") auto

declare bit_length.simps [simp del]

definition round_half_even :: "int \<Rightarrow> int \<Rightarrow> int" where
  "round_half_even n d =
     (let q = n div d; r = n mod d in
      if 2 * r < d then q else if d < 2 * r then q + 1 else if even q then q else q + 1)"

text \<open>The number nearest to \<open>n / d * 2 ^ q\<close>, for \<open>n\<close> and \<open>d\<close> positive.\<close>

definition f64_round :: "bool \<Rightarrow> int \<Rightarrow> int \<Rightarrow> int \<Rightarrow> f64" where
  "f64_round neg n d q =
     (let k = bit_length n - bit_length d;
          at_least = (if 0 \<le> k then d * 2 ^ nat k \<le> n else d \<le> n * 2 ^ nat (- k));
          e = q + (if at_least then k else k - 1);
          p = max (e - 52) (- 1074);
          m = (if p \<le> q then round_half_even (n * 2 ^ nat (q - p)) d
               else round_half_even n (d * 2 ^ nat (p - q)));
          b = (p + 1074) * 2 ^ 52 + m
      in if 0x7FF0000000000000 \<le> b then f64_inf neg
         else F64 (word_of_int (b + (if neg then 2 ^ 63 else 0))))"

definition f64_of_int :: "int \<Rightarrow> f64" where
  "f64_of_int k = (if k = 0 then f64_zero False else f64_round (k < 0) \<bar>k\<bar> 1 0)"

section \<open>Operations\<close>

definition f64_add :: "f64 \<Rightarrow> f64 \<Rightarrow> f64" where
  "f64_add a b =
     (if is_nan a \<or> is_nan b then f64_nan
      else if is_infinite a then
        (if is_infinite b \<and> is_sign_negative a \<noteq> is_sign_negative b then f64_nan else a)
      else if is_infinite b then b
      else
        let q = min (f64_exp a) (f64_exp b);
            s = f64_signed a * 2 ^ nat (f64_exp a - q) + f64_signed b * 2 ^ nat (f64_exp b - q)
        in if s = 0 then f64_zero (is_sign_negative a \<and> is_sign_negative b)
           else f64_round (s < 0) \<bar>s\<bar> 1 q)"

definition f64_sub :: "f64 \<Rightarrow> f64 \<Rightarrow> f64" where
  "f64_sub a b = f64_add a (F64 (to_bits b XOR 0x8000000000000000))"

definition f64_mul :: "f64 \<Rightarrow> f64 \<Rightarrow> f64" where
  "f64_mul a b =
     (let neg = (is_sign_negative a \<noteq> is_sign_negative b) in
      if is_nan a \<or> is_nan b then f64_nan
      else if is_infinite a \<or> is_infinite b then
        (if is_zero a \<or> is_zero b then f64_nan else f64_inf neg)
      else if is_zero a \<or> is_zero b then f64_zero neg
      else f64_round neg (f64_mant a * f64_mant b) 1 (f64_exp a + f64_exp b))"

definition f64_div :: "f64 \<Rightarrow> f64 \<Rightarrow> f64" where
  "f64_div a b =
     (let neg = (is_sign_negative a \<noteq> is_sign_negative b) in
      if is_nan a \<or> is_nan b then f64_nan
      else if is_infinite a then (if is_infinite b then f64_nan else f64_inf neg)
      else if is_infinite b then f64_zero neg
      else if is_zero b then (if is_zero a then f64_nan else f64_inf neg)
      else if is_zero a then f64_zero neg
      else f64_round neg (f64_mant a) (f64_mant b) (f64_exp a - f64_exp b))"

definition f64_of_i64 :: "i64 \<Rightarrow> f64" where
  "f64_of_i64 n = f64_of_int (i64_val n)"

text \<open>The cast \<^verbatim>\<open>as i64\<close>: toward zero, saturating, NaN to zero.\<close>

definition f64_to_i64 :: "f64 \<Rightarrow> i64" where
  "f64_to_i64 f =
     (if is_nan f then I64 0
      else if is_infinite f then (if is_sign_negative f then i64_MIN else i64_MAX)
      else
        let m = f64_mant f; q = f64_exp f;
            t = (if 0 \<le> q then m * 2 ^ nat q else m div 2 ^ nat (- q));
            v = (if is_sign_negative f then - t else t)
        in if v < - (2 ^ 63) then i64_MIN else if 2 ^ 63 - 1 < v then i64_MAX else i64_of_int v)"

definition f64_lt :: "f64 \<Rightarrow> f64 \<Rightarrow> bool" where
  "f64_lt a b \<longleftrightarrow> \<not> is_nan a \<and> \<not> is_nan b \<and> f64_num a < f64_num b"

definition f64_partial_cmp :: "f64 \<Rightarrow> f64 \<Rightarrow> ordering option" where
  "f64_partial_cmp a b = (if is_nan a \<or> is_nan b then None else Some (cmp_of (f64_num a) (f64_num b)))"

end
