(* ===== verification/Expressions.thy ===== *)
theory Expressions
  imports Optimizer Float64
begin

text \<open>
  Functions and expressions: \<^verbatim>\<open>src/query/datalog/functions.rs\<close> (comparison of values, the
  function registry, batch and window aggregates) and the expression evaluator of
  \<^verbatim>\<open>src/query/datalog/executor.rs\<close> (\<^verbatim>\<open>is_truthy\<close> to \<^verbatim>\<open>apply_expr_clauses\<close>) with its copy in
  \<^verbatim>\<open>src/query/datalog/evaluator.rs\<close>.

  The \<^verbatim>\<open>regex\<close> crate is an argument, the test whether a text matches a pattern. A
  user-defined aggregate is the function from the values it was stepped over, and their
  number, to its result: its type-erased accumulator is observable only through it.

  Shown: what each operator returns, when evaluation panics, that the two copies of the
  expression pass agree, and where window and batch aggregates agree.
\<close>

section \<open>Comparing values\<close>

definition value_lt :: "value_t \<Rightarrow> value_t \<Rightarrow> bool" where
  "value_lt a b = (case (a, b) of
      (VInteger x, VInteger y) \<Rightarrow> x < y
    | (VFloat x, VFloat y) \<Rightarrow> f64_lt x y
    | (VInteger x, VFloat y) \<Rightarrow> f64_lt (f64_of_i64 x) y
    | (VFloat x, VInteger y) \<Rightarrow> f64_lt x (f64_of_i64 y)
    | (VString x, VString y) \<Rightarrow> x < y
    | _ \<Rightarrow> False)"

definition unwrap_or_equal :: "ordering option \<Rightarrow> ordering" where
  "unwrap_or_equal c = (case c of Some x \<Rightarrow> x | None \<Rightarrow> Equal)"

definition fn_value_cmp :: "value_t \<Rightarrow> value_t \<Rightarrow> ordering" where
  "fn_value_cmp a b = (case (a, b) of
      (VInteger x, VInteger y) \<Rightarrow> cmp_of x y
    | (VFloat x, VFloat y) \<Rightarrow> unwrap_or_equal (f64_partial_cmp x y)
    | (VInteger x, VFloat y) \<Rightarrow> unwrap_or_equal (f64_partial_cmp (f64_of_i64 x) y)
    | (VFloat x, VInteger y) \<Rightarrow> unwrap_or_equal (f64_partial_cmp x (f64_of_i64 y))
    | (VString x, VString y) \<Rightarrow> cmp_of x y
    | _ \<Rightarrow> Equal)"

section \<open>The function registry\<close>

datatype agg_state =
    ASum f64 bool
  | ACount i64
  | AMinMax "value_t option"
  | AAvg f64 nat

record window_ops =
  wo_init :: agg_state
  wo_step :: "agg_state \<Rightarrow> value_t \<Rightarrow> agg_state"
  wo_finalise :: "agg_state \<Rightarrow> value_t"

datatype agg_impl = Builtin window_ops | Udf "value_t list \<Rightarrow> nat \<Rightarrow> value_t"

record aggregate_desc =
  agg_impl :: agg_impl
  agg_is_builtin :: bool

record predicate_desc =
  pred_f :: "value_t \<Rightarrow> bool"
  pred_is_builtin :: bool

record function_registry =
  aggregates :: "(string \<times> aggregate_desc) list"
  predicates :: "(string \<times> predicate_desc) list"

definition i64_saturating_add :: "i64 \<Rightarrow> i64 \<Rightarrow> i64" where
  "i64_saturating_add a b =
     (let s = i64_val a + i64_val b in
      if s < - (2 ^ 63) then i64_MIN else if 2 ^ 63 - 1 < s then i64_MAX else i64_of_int s)"

definition count_ops :: window_ops where
  "count_ops = \<lparr>wo_init = ACount (i64_of_int 0),
     wo_step = (\<lambda>st v. if v = VNull then st else
       case st of ACount n \<Rightarrow> ACount (i64_saturating_add n (i64_of_int 1)) | _ \<Rightarrow> st),
     wo_finalise = (\<lambda>st. case st of ACount n \<Rightarrow> VInteger n | _ \<Rightarrow> VNull)\<rparr>"

definition sum_ops :: window_ops where
  "sum_ops = \<lparr>wo_init = ASum (f64_zero False) False,
     wo_step = (\<lambda>st v. case st of
         ASum t flt \<Rightarrow> (case v of
             VInteger i \<Rightarrow> ASum (f64_add t (f64_of_i64 i)) flt
           | VFloat f \<Rightarrow> ASum (f64_add t f) True
           | _ \<Rightarrow> st)
       | _ \<Rightarrow> st),
     wo_finalise = (\<lambda>st. case st of
         ASum t flt \<Rightarrow> if flt then VFloat t else VInteger (f64_to_i64 t)
       | _ \<Rightarrow> VNull)\<rparr>"

definition extremum_ops :: "(value_t \<Rightarrow> value_t \<Rightarrow> bool) \<Rightarrow> window_ops" where
  "extremum_ops better = \<lparr>wo_init = AMinMax None,
     wo_step = (\<lambda>st v. if v = VNull then st else
       case st of
         AMinMax None \<Rightarrow> AMinMax (Some v)
       | AMinMax (Some cur) \<Rightarrow> if better v cur then AMinMax (Some v) else st
       | _ \<Rightarrow> st),
     wo_finalise = (\<lambda>st. case st of
         AMinMax (Some v) \<Rightarrow> v
       | _ \<Rightarrow> VNull)\<rparr>"

definition avg_ops :: window_ops where
  "avg_ops = \<lparr>wo_init = AAvg (f64_zero False) 0,
     wo_step = (\<lambda>st v. case st of
         AAvg s n \<Rightarrow> (case v of
             VInteger i \<Rightarrow> AAvg (f64_add s (f64_of_i64 i)) (n + 1)
           | VFloat f \<Rightarrow> AAvg (f64_add s f) (n + 1)
           | _ \<Rightarrow> st)
       | _ \<Rightarrow> st),
     wo_finalise = (\<lambda>st. case st of
         AAvg s n \<Rightarrow> if n = 0 then VNull else VFloat (f64_div s (f64_of_int (int n)))
       | _ \<Rightarrow> VNull)\<rparr>"

definition stub_ops :: window_ops where
  "stub_ops = \<lparr>wo_init = ACount (i64_of_int 0), wo_step = (\<lambda>st v. st), wo_finalise = (\<lambda>st. VNull)\<rparr>"

definition builtin_predicates :: "string list" where
  "builtin_predicates = [''string?'', ''integer?'', ''float?'', ''boolean?'', ''nil?'',
     ''starts-with?'', ''ends-with?'', ''contains?'', ''matches?'']"

definition with_builtins :: function_registry where
  "with_builtins = \<lparr>
     aggregates = map (\<lambda>(n, ops). (n, \<lparr>agg_impl = Builtin ops, agg_is_builtin = True\<rparr>))
       [(''count'', count_ops), (''sum'', sum_ops), (''min'', extremum_ops value_lt),
        (''max'', extremum_ops (\<lambda>v cur. value_lt cur v)), (''avg'', avg_ops),
        (''count-distinct'', stub_ops), (''sum-distinct'', stub_ops)],
     predicates = map (\<lambda>n. (n, \<lparr>pred_f = (\<lambda>_. False), pred_is_builtin = True\<rparr>)) builtin_predicates\<rparr>"

definition get_aggregate :: "function_registry \<Rightarrow> string \<Rightarrow> aggregate_desc option" where
  "get_aggregate reg name = map_of (aggregates reg) name"

definition is_known :: "function_registry \<Rightarrow> string \<Rightarrow> bool" where
  "is_known reg name \<longleftrightarrow> map_of (aggregates reg) name \<noteq> None"

definition is_window_compatible :: "function_registry \<Rightarrow> string \<Rightarrow> bool" where
  "is_window_compatible reg name \<longleftrightarrow>
     name \<noteq> ''count-distinct'' \<and> name \<noteq> ''sum-distinct'' \<and> map_of (aggregates reg) name \<noteq> None"

definition register_aggregate_desc ::
    "string \<Rightarrow> aggregate_desc \<Rightarrow> function_registry \<Rightarrow> unit result \<times> function_registry" where
  "register_aggregate_desc name d reg =
     (if map_of (aggregates reg) name \<noteq> None then (Err (Internal 40), reg)
      else (Ok (), reg\<lparr>aggregates := AList.update name d (aggregates reg)\<rparr>))"

definition register_predicate_desc ::
    "string \<Rightarrow> predicate_desc \<Rightarrow> function_registry \<Rightarrow> unit result \<times> function_registry" where
  "register_predicate_desc name d reg =
     (if map_of (predicates reg) name \<noteq> None then (Err (Internal 40), reg)
      else (Ok (), reg\<lparr>predicates := AList.update name d (predicates reg)\<rparr>))"

definition get_predicate :: "function_registry \<Rightarrow> string \<Rightarrow> predicate_desc option" where
  "get_predicate reg name =
     (case map_of (predicates reg) name of
        Some d \<Rightarrow> if pred_is_builtin d then None else Some d
      | None \<Rightarrow> None)"

section \<open>Batch aggregates\<close>

text \<open>
  A \<^verbatim>\<open>BTreeSet\<close> of values: ascending in the order of \<^verbatim>\<open>Ord\<close>, one value of each class of equals.
\<close>

fun vset_insert :: "value_t \<Rightarrow> value_t list \<Rightarrow> value_t list" where
  "vset_insert v [] = [v]"
| "vset_insert v (w # ws) = (case value_cmp v w of
      Less \<Rightarrow> v # w # ws | Equal \<Rightarrow> v # ws | Greater \<Rightarrow> w # vset_insert v ws)"

definition vset_of :: "value_t list \<Rightarrow> value_t list" where
  "vset_of vs = fold vset_insert vs []"

definition i64_of_len :: "nat \<Rightarrow> i64" where
  "i64_of_len n = (if n < 2 ^ 63 then i64_of_int (int n) else i64_MAX)"

fun sum_floats :: "value_t list \<Rightarrow> f64 \<Rightarrow> f64 result" where
  "sum_floats [] s = Ok s"
| "sum_floats (VFloat f # vs) s = sum_floats vs (f64_add s f)"
| "sum_floats (VInteger i # vs) s = sum_floats vs (f64_add s (f64_of_i64 i))"
| "sum_floats (_ # vs) s = Err (Internal 41)"

fun sum_ints :: "value_t list \<Rightarrow> i64 \<Rightarrow> i64 result" where
  "sum_ints [] s = Ok s"
| "sum_ints (VInteger i # vs) s = sum_ints vs (i64_saturating_add s i)"
| "sum_ints (_ # vs) s = Err (Internal 41)"

definition is_float :: "value_t \<Rightarrow> bool" where
  "is_float v = (case v of VFloat _ \<Rightarrow> True | _ \<Rightarrow> False)"

definition sum_values :: "value_t list \<Rightarrow> value_t result" where
  "sum_values vs =
     (if vs = [] then Ok (VInteger (i64_of_int 0))
      else if list_ex is_float vs then and_then (sum_floats vs (f64_zero False)) (\<lambda>s. Ok (VFloat s))
      else and_then (sum_ints vs (i64_of_int 0)) (\<lambda>s. Ok (VInteger s)))"

text \<open>One step of the fold of \<^verbatim>\<open>min\<close> (with \<open>Greater\<close>) and \<^verbatim>\<open>max\<close> (with \<open>Less\<close>).\<close>

fun extremum_loop :: "ordering \<Rightarrow> value_t \<Rightarrow> value_t list \<Rightarrow> value_t result" where
  "extremum_loop replace acc [] = Ok acc"
| "extremum_loop replace acc (v # vs) =
     and_then (case (acc, v) of
         (VInteger a, VInteger b) \<Rightarrow> Ok (cmp_of a b)
       | (VFloat a, VFloat b) \<Rightarrow> Ok (unwrap_or_equal (f64_partial_cmp a b))
       | (VString a, VString b) \<Rightarrow> Ok (cmp_of a b)
       | _ \<Rightarrow> Err (Internal 44)) (\<lambda>ord.
     extremum_loop replace (if ord = replace then v else acc) vs)"

definition extremum :: "ordering \<Rightarrow> value_t list \<Rightarrow> value_t result" where
  "extremum replace vs = (case vs of
      [] \<Rightarrow> Err (Internal 42)
    | first # rest \<Rightarrow>
        if list_ex (\<lambda>v. discriminant v \<noteq> discriminant first) rest then Err (Internal 43)
        else extremum_loop replace first vs)"

fun avg_loop :: "value_t list \<Rightarrow> f64 \<times> nat \<Rightarrow> f64 \<times> nat" where
  "avg_loop [] sc = sc"
| "avg_loop (v # vs) (s, c) = avg_loop vs (case v of
      VInteger i \<Rightarrow> (f64_add s (f64_of_i64 i), c + 1)
    | VFloat f \<Rightarrow> (f64_add s f, c + 1)
    | _ \<Rightarrow> (s, c))"

definition apply_builtin_aggregate :: "string \<Rightarrow> value_t list \<Rightarrow> value_t result" where
  "apply_builtin_aggregate name vs =
     (if name = ''count'' then Ok (VInteger (i64_of_len (length vs)))
      else if name = ''count-distinct'' then Ok (VInteger (i64_of_len (length (vset_of vs))))
      else if name = ''sum'' then sum_values vs
      else if name = ''sum-distinct'' then sum_values (vset_of vs)
      else if name = ''min'' then extremum Greater vs
      else if name = ''max'' then extremum Less vs
      else if name = ''avg'' then
        (if vs = [] then Ok VNull
         else let (s, c) = avg_loop vs (f64_zero False, 0)
              in Ok (if c = 0 then VNull else VFloat (f64_div s (f64_of_int (int c)))))
      else Err (Internal 29))"

section \<open>Expressions\<close>

definition is_truthy :: "value_t \<Rightarrow> bool" where
  "is_truthy v = (case v of
      VBoolean b \<Rightarrow> b
    | VInteger i \<Rightarrow> i64_val i \<noteq> 0
    | VFloat f \<Rightarrow> \<not> f64_eq f (f64_zero False)
    | _ \<Rightarrow> False)"

definition to_float :: "value_t \<Rightarrow> f64 option" where
  "to_float v = (case v of VInteger i \<Rightarrow> Some (f64_of_i64 i) | VFloat f \<Rightarrow> Some f | _ \<Rightarrow> None)"

definition to_float_pair :: "value_t \<Rightarrow> value_t \<Rightarrow> (f64 \<times> f64) option" where
  "to_float_pair l r = Option.bind (to_float l) (\<lambda>a. Option.bind (to_float r) (\<lambda>b. Some (a, b)))"

definition expr_eq :: "uuid_ops \<Rightarrow> value_t \<Rightarrow> value_t \<Rightarrow> bool" where
  "expr_eq U l r = (case (l, r) of
      (VKeyword k, VRef u) \<Rightarrow> keyword_id U k = u
    | (VRef u, VKeyword k) \<Rightarrow> keyword_id U k = u
    | _ \<Rightarrow> value_eq l r)"

text \<open>
  The outcome of an evaluation: a value, \<open>Ok None\<close> for \<^verbatim>\<open>Err(())\<close> (the row is dropped), or a
  panic. Division of the least integer by \<open>-1\<close> is not representable, and Rust's \<^verbatim>\<open>/\<close> panics
  on it in every build.
\<close>

type_synonym outcome = "value_t option result"

definition compare_op :: "bin_op \<Rightarrow> ordering \<Rightarrow> bool" where
  "compare_op op c = (case op of
      Lt \<Rightarrow> c = Less | Gt \<Rightarrow> c = Greater | Lte \<Rightarrow> c \<noteq> Greater | Gte \<Rightarrow> c \<noteq> Less | _ \<Rightarrow> False)"

definition eval_order :: "bin_op \<Rightarrow> value_t \<Rightarrow> value_t \<Rightarrow> outcome" where
  "eval_order op l r = (case (l, r) of
      (VString a, VString b) \<Rightarrow> Ok (Some (VBoolean (compare_op op (cmp_of a b))))
    | _ \<Rightarrow> (case to_float_pair l r of
        None \<Rightarrow> Ok None
      | Some (a, b) \<Rightarrow> Ok (Some (VBoolean (case f64_partial_cmp a b of
            None \<Rightarrow> False | Some c \<Rightarrow> compare_op op c)))))"

definition int_quot :: "int \<Rightarrow> int \<Rightarrow> int" where
  "int_quot a b = (if (a < 0) = (b < 0) then \<bar>a\<bar> div \<bar>b\<bar> else - (\<bar>a\<bar> div \<bar>b\<bar>))"

definition eval_int :: "bin_op \<Rightarrow> i64 \<Rightarrow> i64 \<Rightarrow> outcome" where
  "eval_int op a b = (case op of
      Add \<Rightarrow> Ok (Some (VInteger (I64 (cast_unsigned a + cast_unsigned b))))
    | Sub \<Rightarrow> Ok (Some (VInteger (I64 (cast_unsigned a - cast_unsigned b))))
    | Mul \<Rightarrow> Ok (Some (VInteger (I64 (cast_unsigned a * cast_unsigned b))))
    | Div \<Rightarrow>
        if i64_val b = 0 then Ok None
        else if a = i64_MIN \<and> i64_val b = - 1 then Err Panic
        else Ok (Some (VInteger (i64_of_int (int_quot (i64_val a) (i64_val b)))))
    | _ \<Rightarrow> Ok None)"

definition not_nan :: "f64 \<Rightarrow> outcome" where
  "not_nan f = Ok (if is_nan f then None else Some (VFloat f))"

definition eval_float :: "bin_op \<Rightarrow> f64 \<Rightarrow> f64 \<Rightarrow> outcome" where
  "eval_float op a b = (case op of
      Add \<Rightarrow> not_nan (f64_add a b)
    | Sub \<Rightarrow> not_nan (f64_sub a b)
    | Mul \<Rightarrow> not_nan (f64_mul a b)
    | Div \<Rightarrow> Ok (if f64_eq b (f64_zero False) \<or> is_nan b then None else Some (VFloat (f64_div a b)))
    | _ \<Rightarrow> Ok None)"

definition eval_arith :: "bin_op \<Rightarrow> value_t \<Rightarrow> value_t \<Rightarrow> outcome" where
  "eval_arith op l r = (case (l, r) of
      (VInteger a, VInteger b) \<Rightarrow> eval_int op a b
    | _ \<Rightarrow> (case to_float_pair l r of None \<Rightarrow> Ok None | Some (a, b) \<Rightarrow> eval_float op a b))"

definition eval_string :: "(string \<Rightarrow> string \<Rightarrow> bool) \<Rightarrow> value_t \<Rightarrow> value_t \<Rightarrow> outcome" where
  "eval_string test l r = (case (l, r) of
      (VString s, VString t) \<Rightarrow> Ok (Some (VBoolean (test s t)))
    | _ \<Rightarrow> Ok None)"

fun eval_binop :: "uuid_ops \<Rightarrow> (string \<Rightarrow> string \<Rightarrow> bool) \<Rightarrow> bin_op \<Rightarrow> value_t \<Rightarrow> value_t \<Rightarrow> outcome" where
  "eval_binop U re EqOp l r = Ok (Some (VBoolean (expr_eq U l r)))"
| "eval_binop U re Neq l r = Ok (Some (VBoolean (\<not> expr_eq U l r)))"
| "eval_binop U re StartsWith l r = eval_string (\<lambda>s t. prefix t s) l r"
| "eval_binop U re EndsWith l r = eval_string (\<lambda>s t. suffix t s) l r"
| "eval_binop U re Contains l r = eval_string (\<lambda>s t. sublist t s) l r"
| "eval_binop U re (Matches pat) l r = eval_string (\<lambda>s t. re pat s) l r"
| "eval_binop U re Lt l r = eval_order Lt l r"
| "eval_binop U re Gt l r = eval_order Gt l r"
| "eval_binop U re Lte l r = eval_order Lte l r"
| "eval_binop U re Gte l r = eval_order Gte l r"
| "eval_binop U re Add l r = eval_arith Add l r"
| "eval_binop U re Sub l r = eval_arith Sub l r"
| "eval_binop U re Mul l r = eval_arith Mul l r"
| "eval_binop U re Div l r = eval_arith Div l r"

fun eval_unary :: "function_registry \<Rightarrow> unary_op \<Rightarrow> value_t \<Rightarrow> value_t option" where
  "eval_unary reg StringQ v = Some (VBoolean (case v of VString _ \<Rightarrow> True | _ \<Rightarrow> False))"
| "eval_unary reg IntegerQ v = Some (VBoolean (case v of VInteger _ \<Rightarrow> True | _ \<Rightarrow> False))"
| "eval_unary reg FloatQ v = Some (VBoolean (case v of VFloat _ \<Rightarrow> True | _ \<Rightarrow> False))"
| "eval_unary reg BooleanQ v = Some (VBoolean (case v of VBoolean _ \<Rightarrow> True | _ \<Rightarrow> False))"
| "eval_unary reg NilQ v = Some (VBoolean (v = VNull))"
| "eval_unary reg (UUdf name) v = map_option (\<lambda>d. VBoolean (pred_f d v)) (get_predicate reg name)"

text \<open>What every evaluation takes: the \<^verbatim>\<open>uuid\<close> crate, the regex test and the registry.\<close>

record eval_env =
  uuids :: uuid_ops
  is_match :: "string \<Rightarrow> string \<Rightarrow> bool"
  fn_registry :: function_registry

fun eval_expr :: "eval_env \<Rightarrow> expr \<Rightarrow> bindings \<Rightarrow> outcome" where
  "eval_expr E (Var v) b = Ok (map_of b v)"
| "eval_expr E (Lit v) b = Ok (Some v)"
| "eval_expr E (UnaryOp op arg) b =
     and_then (eval_expr E arg b) (\<lambda>v. Ok (Option.bind v (eval_unary (fn_registry E) op)))"
| "eval_expr E (BinOp op lhs rhs) b =
     and_then (eval_expr E lhs b) (\<lambda>l. case l of None \<Rightarrow> Ok None | Some lv \<Rightarrow>
     and_then (eval_expr E rhs b) (\<lambda>r. case r of None \<Rightarrow> Ok None | Some rv \<Rightarrow>
       eval_binop (uuids E) (is_match E) op lv rv))"
| "eval_expr E (Slot _) b = Ok None"

section \<open>Expression clauses over rows\<close>

fun filter_map_result :: "('a \<Rightarrow> 'b option result) \<Rightarrow> 'a list \<Rightarrow> 'b list result" where
  "filter_map_result f [] = Ok []"
| "filter_map_result f (x # xs) =
     and_then (f x) (\<lambda>y. and_then (filter_map_result f xs) (\<lambda>ys.
       Ok (case y of Some z \<Rightarrow> z # ys | None \<Rightarrow> ys)))"

text \<open>One clause on one row: \<open>None\<close> when the row is dropped.\<close>

definition expr_on_row :: "eval_env \<Rightarrow> where_clause \<Rightarrow> bindings \<Rightarrow> bindings option result" where
  "expr_on_row E c b = (case c of
      ExprC e out \<Rightarrow> and_then (eval_expr E e b) (\<lambda>v. Ok (case v of
          None \<Rightarrow> None
        | Some w \<Rightarrow> (case out of
            Some var \<Rightarrow> Some (AList.update var w b)
          | None \<Rightarrow> if is_truthy w then Some b else None)))
    | _ \<Rightarrow> Ok (Some b))"

definition unknown_predicate :: "function_registry \<Rightarrow> where_clause \<Rightarrow> bool" where
  "unknown_predicate reg c = (case c of
      ExprC (UnaryOp (UUdf name) _) _ \<Rightarrow> get_predicate reg name = None
    | _ \<Rightarrow> False)"

fun expr_passes :: "eval_env \<Rightarrow> where_clause list \<Rightarrow> bindings list \<Rightarrow> bindings list result" where
  "expr_passes E [] bs = Ok bs"
| "expr_passes E (c # cs) bs =
     and_then (filter_map_result (expr_on_row E c) bs) (expr_passes E cs)"

definition apply_expr_clauses ::
    "eval_env \<Rightarrow> bindings list \<Rightarrow> where_clause list \<Rightarrow> bindings list result" where
  "apply_expr_clauses E bs cs =
     (if list_ex (unknown_predicate (fn_registry E)) cs then Err (Qry 7) else expr_passes E cs bs)"

text \<open>The evaluator's copy runs all clauses on a row before the next row.\<close>

fun exprs_on_row :: "eval_env \<Rightarrow> where_clause list \<Rightarrow> bindings \<Rightarrow> bindings option result" where
  "exprs_on_row E [] b = Ok (Some b)"
| "exprs_on_row E (c # cs) b =
     and_then (expr_on_row E c b) (\<lambda>r. case r of None \<Rightarrow> Ok None | Some b' \<Rightarrow> exprs_on_row E cs b')"

definition apply_expr_clauses_in_evaluator ::
    "eval_env \<Rightarrow> bindings list \<Rightarrow> where_clause list \<Rightarrow> bindings list result" where
  "apply_expr_clauses_in_evaluator E bs cs = filter_map_result (exprs_on_row E cs) bs"

section \<open>What operators return\<close>

definition is_arith :: "bin_op \<Rightarrow> bool" where
  "is_arith op \<longleftrightarrow> op = Add \<or> op = Sub \<or> op = Mul \<or> op = Div"

definition is_integer :: "value_t \<Rightarrow> bool" where
  "is_integer v = (case v of VInteger _ \<Rightarrow> True | _ \<Rightarrow> False)"

lemma eval_parts_ok:
  "eval_string t l r \<noteq> Err e" "eval_order op l r \<noteq> Err e" "eval_float op x y \<noteq> Err e"
  by (auto simp: eval_string_def eval_order_def eval_float_def not_nan_def split: value_t.splits option.splits bin_op.splits)

lemma eval_arith_Err:
  "eval_arith op l r = Err e \<longleftrightarrow> e = Panic \<and> op = Div \<and> l = VInteger i64_MIN \<and> (\<exists>b. r = VInteger b \<and> i64_val b = - 1)"
  by (auto simp: eval_arith_def eval_int_def eval_parts_ok split: value_t.splits option.splits bin_op.splits)

text \<open>
  C30. Evaluation fails hard in exactly one case: dividing the least integer by \<open>-1\<close>. The code
  guards division by zero but not this overflow, on which Rust panics.
\<close>

theorem eval_binop_panics_iff:
  "eval_binop U re op l r = Err e \<longleftrightarrow>
     e = Panic \<and> op = Div \<and> l = VInteger i64_MIN \<and> (\<exists>b. r = VInteger b \<and> i64_val b = - 1)"
  by (cases op) (simp_all add: eval_parts_ok eval_arith_Err)

lemma eval_arith_type:
  assumes "eval_arith op l r = Ok (Some v)"
  shows "(if is_integer l \<and> is_integer r then is_integer v else is_float v) \<and> (op \<noteq> Div \<longrightarrow> \<not> value_is_nan v)"
  using assms
  by (auto simp: eval_arith_def eval_int_def eval_float_def not_nan_def is_integer_def is_float_def
      split: value_t.splits option.splits bin_op.splits if_splits)

text \<open>
  C33. Results have the type the operator promises: arithmetic on two integers gives an integer,
  any other arithmetic that succeeds gives a float, which is never NaN for addition,
  subtraction and multiplication; every other operator gives a boolean.
\<close>

theorem eval_binop_type:
  assumes "eval_binop U re op l r = Ok (Some v)"
  shows "if is_arith op
    then (if is_integer l \<and> is_integer r then is_integer v else is_float v) \<and> (op \<noteq> Div \<longrightarrow> \<not> value_is_nan v)
    else \<exists>b. v = VBoolean b"
proof -
  have str: "\<exists>b. v = VBoolean b" if "eval_string t l r = Ok (Some v)" for t
    using that by (auto simp: eval_string_def split: value_t.splits)
  have ord: "\<exists>b. v = VBoolean b" if "eval_order op l r = Ok (Some v)" for op
    using that by (auto simp: eval_order_def split: value_t.splits option.splits)
  show ?thesis using assms str ord eval_arith_type [of op l r v] by (cases op) (auto simp: is_arith_def)
qed

theorem eval_binop_type_witness:
  "\<exists>v. eval_binop \<lparr>parse_str = \<lambda>s. None, new_v5_oid = \<lambda>b. 0, uuid_to_string = \<lambda>u. []\<rparr> (\<lambda>p s. False)
     Add (VInteger (I64 1)) (VInteger (I64 2)) = Ok (Some v) \<and> is_integer v"
  using eval_binop_type [of "\<lparr>parse_str = \<lambda>s. None, new_v5_oid = \<lambda>b. 0, uuid_to_string = \<lambda>u. []\<rparr>" "\<lambda>p s. False"
     Add "VInteger (I64 1)" "VInteger (I64 2)" "VInteger (I64 3)"]
  by (simp add: eval_arith_def eval_int_def is_integer_def is_arith_def)

section \<open>The two expression passes agree\<close>

lemma eval_binop_Err: "eval_binop U re op l r = Err e \<Longrightarrow> e = Panic"
  by (cases op) (simp_all add: eval_parts_ok eval_arith_Err)

lemma eval_expr_Err: "eval_expr E e b = Err x \<Longrightarrow> x = Panic"
  by (induction e arbitrary: x) (auto simp: and_then_def dest: eval_binop_Err split: sum.splits option.splits)

lemma expr_on_row_Err: "expr_on_row E c b = Err x \<Longrightarrow> x = Panic"
  by (auto simp: expr_on_row_def and_then_def dest: eval_expr_Err split: where_clause.splits sum.splits)

lemma exprs_on_row_Err: "exprs_on_row E cs b = Err x \<Longrightarrow> x = Panic"
  by (induction E cs b rule: exprs_on_row.induct)
     (auto simp: and_then_def dest: expr_on_row_Err split: sum.splits option.splits)

lemma filter_map_result_Err:
  "filter_map_result f xs = Err e \<Longrightarrow> (\<And>x e. f x = Err e \<Longrightarrow> e = Panic) \<Longrightarrow> e = Panic"
  by (induction f xs rule: filter_map_result.induct) (auto simp: and_then_def split: sum.splits)

lemma filter_map_result_cong:
  "(\<And>x. x \<in> set xs \<Longrightarrow> f x = g x) \<Longrightarrow> filter_map_result f xs = filter_map_result g xs"
  by (induction xs) simp_all

lemma filter_map_result_comp:
  assumes f: "\<And>x e. f x = Err e \<Longrightarrow> e = Panic" and g: "\<And>x e. g x = Err e \<Longrightarrow> e = Panic"
  shows "and_then (filter_map_result f xs) (filter_map_result g) =
    filter_map_result (\<lambda>x. and_then (f x) (\<lambda>y. case y of None \<Rightarrow> Ok None | Some z \<Rightarrow> g z)) xs"
proof (induction xs)
  case (Cons x xs)
  have fx: "e = Panic" if "filter_map_result f xs = Err e" for e
    using filter_map_result_Err [OF that] f by blast
  have gx: "e = Panic" if "filter_map_result g ys = Err e" for e ys
    using filter_map_result_Err [OF that] g by blast
  show ?case
  proof (cases "f x")
    case (Inl e)
    then show ?thesis by simp
  next
    case (Inr y)
    show ?thesis
    proof (cases y)
      case None
      with Inr Cons show ?thesis by (cases "filter_map_result f xs") (simp_all add: and_then_def split: sum.splits)
    next
      case (Some z)
      with Inr Cons [symmetric] show ?thesis
        by (cases "filter_map_result f xs"; cases "g z") (auto dest: f g fx gx)
    qed
  qed
qed simp

lemma expr_passes_rows: "expr_passes E cs bs = filter_map_result (exprs_on_row E cs) bs"
proof (induction cs arbitrary: bs)
  case Nil
  have "filter_map_result (\<lambda>b. Ok (Some b)) bs = Ok bs" for bs :: "bindings list" by (induction bs) auto
  then show ?case by simp
next
  case (Cons c cs)
  have "expr_passes E (c # cs) bs = and_then (filter_map_result (expr_on_row E c) bs) (filter_map_result (exprs_on_row E cs))"
    using Cons by (simp cong: and_then_cong)
  also have "exprs_on_row E (c # cs) = (\<lambda>b. and_then (expr_on_row E c b) (\<lambda>r. case r of None \<Rightarrow> Ok None | Some b' \<Rightarrow> exprs_on_row E cs b'))"
    by (rule ext) simp
  then have "and_then (filter_map_result (expr_on_row E c) bs) (filter_map_result (exprs_on_row E cs)) =
      filter_map_result (exprs_on_row E (c # cs)) bs"
    using filter_map_result_comp [of "expr_on_row E c" "exprs_on_row E cs" bs] expr_on_row_Err exprs_on_row_Err by simp
  finally show ?case .
qed

text \<open>
  The two copies of the expression pass agree: running clause after clause over all rows, as
  the executor does, and all clauses on a row before the next, as the rule evaluator does,
  give the same rows in the same order and panic on the same inputs, once the executor's
  check has found every named predicate registered.
\<close>

lemma expression_passes_agree:
  assumes "\<not> list_ex (unknown_predicate (fn_registry E)) cs"
  shows "apply_expr_clauses E bs cs = apply_expr_clauses_in_evaluator E bs cs"
  using assms by (simp add: apply_expr_clauses_def apply_expr_clauses_in_evaluator_def expr_passes_rows)

definition sample_env :: eval_env where
  "sample_env = \<lparr>uuids = sample_uuid_ops, is_match = (\<lambda>p s. False), fn_registry = with_builtins\<rparr>"

section \<open>Window and batch aggregates\<close>

definition window_run :: "window_ops \<Rightarrow> value_t list \<Rightarrow> value_t" where
  "window_run ops vs = wo_finalise ops (fold (\<lambda>v st. wo_step ops st v) vs (wo_init ops))"

lemma i64_val_of_int: "- (2 ^ 63) \<le> k \<Longrightarrow> k < 2 ^ 63 \<Longrightarrow> i64_val (i64_of_int k) = k"
  by (simp add: i64_val_def i64_of_int_def sint_sbintrunc' signed_take_bit_int_eq_self)

lemma i64_of_len_min: "i64_of_len n = i64_of_int (min (int n) (2 ^ 63 - 1))"
  by (auto simp: i64_of_len_def i64_MAX_def i64_of_int_def min_def)

lemma i64_of_len_Suc: "i64_saturating_add (i64_of_len n) (i64_of_int 1) = i64_of_len (Suc n)"
proof -
  have v: "i64_val (i64_of_len n) = min (int n) (2 ^ 63 - 1)"
    unfolding i64_of_len_min by (rule i64_val_of_int) auto
  have one: "i64_val (i64_of_int 1) = 1" by (rule i64_val_of_int) simp_all
  have m: "i64_MAX = i64_of_int (2 ^ 63 - 1)" by (simp add: i64_MAX_def i64_of_int_def)
  show ?thesis
    unfolding i64_saturating_add_def v one Let_def m i64_of_len_min [of "Suc n"]
    by (auto simp: min_def intro: arg_cong [where f = i64_of_int])
qed

lemma window_count: "\<forall>v \<in> set vs. v \<noteq> VNull \<Longrightarrow> window_run count_ops vs = VInteger (i64_of_len (length vs))"
proof -
  assume nn: "\<forall>v \<in> set vs. v \<noteq> VNull"
  have "fold (\<lambda>v st. wo_step count_ops st v) vs (ACount (i64_of_len n)) = ACount (i64_of_len (n + length vs))" for n
    using nn by (induction vs arbitrary: n) (simp_all add: count_ops_def i64_of_len_Suc)
  from this [of 0] show ?thesis by (simp add: window_run_def i64_of_len_def) (simp add: count_ops_def i64_of_len_def)
qed

lemma window_avg:
  "fold (\<lambda>v st. wo_step avg_ops st v) vs (AAvg s n) = (case avg_loop vs (s, n) of (s', n') \<Rightarrow> AAvg s' n')"
  by (induction vs arbitrary: s n) (auto simp: avg_ops_def split: value_t.splits)

lemma window_sum_float:
  "sum_floats vs s = Ok t \<Longrightarrow>
     fold (\<lambda>v st. wo_step sum_ops st v) vs (ASum s b) = ASum t (b \<or> list_ex is_float vs)"
  by (induction vs s arbitrary: b rule: sum_floats.induct) (auto simp: sum_ops_def is_float_def)

definition step_order :: "value_t \<Rightarrow> value_t \<Rightarrow> ordering result" where
  "step_order acc v = (case (acc, v) of
      (VInteger a, VInteger b) \<Rightarrow> Ok (cmp_of a b)
    | (VFloat a, VFloat b) \<Rightarrow> Ok (unwrap_or_equal (f64_partial_cmp a b))
    | (VString a, VString b) \<Rightarrow> Ok (cmp_of a b)
    | _ \<Rightarrow> Err (Internal 44))"

lemma extremum_loop_Cons:
  "extremum_loop r acc (v # vs) =
     and_then (step_order acc v) (\<lambda>ord. extremum_loop r (if ord = r then v else acc) vs)"
  by (simp add: step_order_def)

lemma step_order_lt:
  assumes "step_order acc v = Ok ord"
  shows "value_lt v acc \<longleftrightarrow> ord = Greater" "value_lt acc v \<longleftrightarrow> ord = Less" "v \<noteq> VNull"
  using assms
  by (auto simp: step_order_def value_lt_def f64_lt_def f64_partial_cmp_def unwrap_or_equal_def cmp_of_def
      split: value_t.splits if_splits)

lemma extremum_step:
  assumes "extremum_loop r acc vs = Ok m"
    "r = Greater \<and> better = value_lt \<or> r = Less \<and> better = (\<lambda>v cur. value_lt cur v)"
  shows "fold (\<lambda>v st. wo_step (extremum_ops better) st v) vs (AMinMax (Some acc)) = AMinMax (Some m)"
  using assms(1)
proof (induction vs arbitrary: acc)
  case (Cons v vs)
  from Cons.prems obtain ord where o: "step_order acc v = Ok ord"
      "extremum_loop r (if ord = r then v else acc) vs = Ok m"
    unfolding extremum_loop_Cons by (auto simp: and_then_eq_Inr)
  have "better v acc \<longleftrightarrow> ord = r" "v \<noteq> VNull" using step_order_lt [OF o(1)] assms(2) by auto
  then have "wo_step (extremum_ops better) (AMinMax (Some acc)) v = AMinMax (Some (if ord = r then v else acc))"
    by (simp add: extremum_ops_def)
  then show ?case using Cons.IH [OF o(2)] by simp
qed simp

lemma extremum_window:
  assumes "extremum r vs = Ok m"
    "r = Greater \<and> better = value_lt \<or> r = Less \<and> better = (\<lambda>v cur. value_lt cur v)"
  shows "window_run (extremum_ops better) vs = m"
proof -
  obtain v ws where vs: "vs = v # ws" "extremum_loop r v (v # ws) = Ok m"
    using assms(1) by (auto simp: extremum_def split: list.splits if_splits)
  then obtain ord where "step_order v v = Ok ord" unfolding extremum_loop_Cons by (auto simp: and_then_eq_Inr)
  then have "v \<noteq> VNull" "wo_step (extremum_ops better) (AMinMax None) v = AMinMax (Some v)"
    using step_order_lt(3) by (auto simp: extremum_ops_def)
  moreover have "wo_step (extremum_ops better) (AMinMax (Some v)) v = AMinMax (Some v)"
    by (simp add: extremum_ops_def)
  ultimately have "fold (\<lambda>v st. wo_step (extremum_ops better) st v) vs (AMinMax None) = AMinMax (Some m)"
    using extremum_step [OF vs(2) assms(2)] by (simp add: vs(1))
  then show ?thesis by (simp add: window_run_def) (simp add: extremum_ops_def)
qed

text \<open>
  An aggregate over a window that spans the whole group gives what the aggregate over the
  group gives, when that succeeds: for counts, minima, maxima and averages, and for sums in
  which some value is a float.
\<close>

lemma window_agrees_with_batch:
  assumes "apply_builtin_aggregate name vs = Ok v" and "vs \<noteq> []" and "\<forall>w \<in> set vs. w \<noteq> VNull"
    and "name \<in> {''count'', ''min'', ''max'', ''avg''} \<or> name = ''sum'' \<and> list_ex is_float vs"
    and "get_aggregate with_builtins name = Some \<lparr>agg_impl = Builtin ops, agg_is_builtin = True\<rparr>"
  shows "window_run ops vs = v"
proof -
  have ops: "ops = the (map_of [(''count'', count_ops), (''sum'', sum_ops), (''min'', extremum_ops value_lt),
        (''max'', extremum_ops (\<lambda>v cur. value_lt cur v)), (''avg'', avg_ops)] name)"
    using assms(4,5) by (auto simp: get_aggregate_def with_builtins_def split: if_splits)
  consider "name = ''count''" | "name = ''min''" | "name = ''max''" | "name = ''avg''" | "name = ''sum''" "list_ex is_float vs"
    using assms(4) by blast
  then show ?thesis
  proof cases
    case 1
    then show ?thesis using assms(1) window_count [OF assms(3)] by (simp add: apply_builtin_aggregate_def ops)
  next
    case 2
    then show ?thesis using assms(1) extremum_window [of Greater vs v value_lt] by (simp add: apply_builtin_aggregate_def ops)
  next
    case 3
    then show ?thesis using assms(1) extremum_window [of Less vs v "\<lambda>v cur. value_lt cur v"]
      by (simp add: apply_builtin_aggregate_def ops)
  next
    case 4
    obtain s n where sn: "avg_loop vs (f64_zero False, 0) = (s, n)" by (cases "avg_loop vs (f64_zero False, 0)")
    have "fold (\<lambda>v st. wo_step avg_ops st v) vs (AAvg (f64_zero False) 0) = AAvg s n" by (simp add: window_avg sn)
    then show ?thesis using 4 assms(1,2) sn
      by (simp add: apply_builtin_aggregate_def ops window_run_def) (simp add: avg_ops_def)
  next
    case 5
    then obtain t where t: "sum_floats vs (f64_zero False) = Ok t" "v = VFloat t"
      using assms(1,2) by (auto simp: apply_builtin_aggregate_def sum_values_def and_then_eq_Inr)
    have "fold (\<lambda>v st. wo_step sum_ops st v) vs (ASum (f64_zero False) False) = ASum t True"
      using window_sum_float [OF t(1)] 5(2) by simp
    then show ?thesis using 5(1) t(2) by (simp add: ops window_run_def) (simp add: sum_ops_def)
  qed
qed

text \<open>
  Sums of integers are the exception: the batch sum adds in 64-bit integers, the window sum in
  floats, and they differ from \<open>2 ^ 53\<close> on. With the two values \<open>2 ^ 53\<close> and \<open>1\<close> the window
  loses the \<open>1\<close>.
\<close>

lemma window_sum_loses_precision:
  "apply_builtin_aggregate ''sum'' [VInteger (I64 9007199254740992), VInteger (I64 1)] = Ok (VInteger (I64 9007199254740993)) \<and>
   window_run sum_ops [VInteger (I64 9007199254740992), VInteger (I64 1)] = VInteger (I64 9007199254740992)"
  by code_simp

end
