(* ===== verification/Post_Processing.thy ===== *)
theory Post_Processing
  imports Expressions
begin

text \<open>
  From rows to answers: the post-processing of \<^verbatim>\<open>src/query/datalog/executor.rs\<close>, that is
  plain projection, grouping with batch aggregates, window functions over partitions, and
  the final projection in find order.

  \<^verbatim>\<open>sort_by\<close> is Rust's stable sort. Where the comparison is not a total order on the keys at
  hand (values of mixed types, or NaN) Rust leaves the order unspecified and may panic; the
  model sorts by insertion there, and the theorems ask for comparable keys.

  Shown: aggregation computes one row per distinct group key, in key order, from exactly the
  rows with that key; a rank is one more than the number of rows before it in its partition;
  row numbers count rows in the stable order; window functions keep the rows.
\<close>

section \<open>Names of computed columns\<close>

fun dec :: "nat \<Rightarrow> string" where
  "dec n = (if n < 10 then [char_of (48 + n)] else dec (n div 10) @ [char_of (48 + n mod 10)])"

declare dec.simps [simp del]

definition agg_key :: "nat \<Rightarrow> string" where
  "agg_key i = ''__agg_'' @ dec i"

definition win_key :: "nat \<Rightarrow> string" where
  "win_key i = ''__win_'' @ dec i"

section \<open>Plain variables\<close>

text \<open>The inner loop with its \<^verbatim>\<open>break\<close> at the first unbound column.\<close>

fun extract_row :: "bindings \<Rightarrow> find_spec list \<Rightarrow> value_t list" where
  "extract_row b [] = []"
| "extract_row b (s # ss) = (case map_of b (find_var s) of Some v \<Rightarrow> v # extract_row b ss | None \<Rightarrow> [])"

definition extract_variables :: "bindings list \<Rightarrow> find_spec list \<Rightarrow> value_t list list" where
  "extract_variables bs specs =
     filter (\<lambda>row. length row = length specs) (map (\<lambda>b. extract_row b specs) bs)"

section \<open>Aggregation\<close>

definition is_window_spec :: "find_spec \<Rightarrow> bool" where
  "is_window_spec s = (case s of FWindow _ \<Rightarrow> True | _ \<Rightarrow> False)"

definition is_aggregate_spec :: "find_spec \<Rightarrow> bool" where
  "is_aggregate_spec s = (case s of FAggregate _ _ \<Rightarrow> True | _ \<Rightarrow> False)"

definition is_count_spec :: "find_spec \<Rightarrow> bool" where
  "is_count_spec s = (case s of FAggregate f _ \<Rightarrow> f = ''count'' \<or> f = ''count-distinct'' | _ \<Rightarrow> False)"

definition variable_specs :: "find_spec list \<Rightarrow> string list" where
  "variable_specs specs = List.map_filter (\<lambda>s. case s of FVariable v \<Rightarrow> Some v | _ \<Rightarrow> None) specs"

definition group_var_names :: "find_spec list \<Rightarrow> string list \<Rightarrow> string list" where
  "group_var_names specs withs =
     variable_specs specs @ (if list_ex is_window_spec specs then [] else withs)"

definition get_or_null :: "bindings \<Rightarrow> string \<Rightarrow> value_t" where
  "get_or_null b v = (case map_of b v of Some x \<Rightarrow> x | None \<Rightarrow> VNull)"

text \<open>\<^verbatim>\<open>Ord for Vec<Value>\<close> and a \<^verbatim>\<open>BTreeMap\<close> keyed by it: an existing key stays as it is.\<close>

fun values_cmp :: "value_t list \<Rightarrow> value_t list \<Rightarrow> ordering" where
  "values_cmp [] [] = Equal"
| "values_cmp [] (_ # _) = Less"
| "values_cmp (_ # _) [] = Greater"
| "values_cmp (a # as) (b # bs) = (case value_cmp a b of Equal \<Rightarrow> values_cmp as bs | c \<Rightarrow> c)"

type_synonym groups = "(value_t list \<times> bindings list) list"

fun group_push :: "value_t list \<Rightarrow> bindings \<Rightarrow> groups \<Rightarrow> groups" where
  "group_push k b [] = [(k, [b])]"
| "group_push k b ((k', bs) # g) = (case values_cmp k k' of
      Less \<Rightarrow> (k, [b]) # (k', bs) # g
    | Equal \<Rightarrow> (k', bs @ [b]) # g
    | Greater \<Rightarrow> (k', bs) # group_push k b g)"

definition group_rows :: "string list \<Rightarrow> bindings list \<Rightarrow> groups" where
  "group_rows names bs = fold (\<lambda>b. group_push (map (get_or_null b) names) b) bs []"

definition group_key_idx :: "find_spec list \<Rightarrow> (string \<times> nat) list" where
  "group_key_idx specs = fold (\<lambda>(i, v). AList.update v i) (enumerate 0 (variable_specs specs)) []"

definition key_binding :: "find_spec list \<Rightarrow> value_t list \<Rightarrow> bindings" where
  "key_binding specs key =
     fold (\<lambda>(v, idx) b. if idx < length key then AList.update v (key ! idx) b else b) (group_key_idx specs) []"

definition non_null :: "bindings list \<Rightarrow> string \<Rightarrow> value_t list" where
  "non_null bs var = filter (\<lambda>v. v \<noteq> VNull) (List.map_filter (\<lambda>b. map_of b var) bs)"

definition aggregate_value :: "function_registry \<Rightarrow> string \<Rightarrow> value_t list \<Rightarrow> value_t result" where
  "aggregate_value reg func vs = (case get_aggregate reg func of
      Some desc \<Rightarrow>
        if agg_is_builtin desc then apply_builtin_aggregate func vs
        else (case agg_impl desc of
            Udf f \<Rightarrow> Ok (if vs = [] then VNull else f vs (length vs))
          | Builtin _ \<Rightarrow> apply_builtin_aggregate func vs)
    | None \<Rightarrow> Err (Internal 29))"

text \<open>
  The aggregates of one group; \<open>Ok None\<close> is \<^verbatim>\<open>skip\<close>. The code recognises the error by its
  text, \<^verbatim>\<open>"no non-null values in group"\<close>, which only \<^verbatim>\<open>Int042\<close> has.
\<close>

fun agg_loop :: "function_registry \<Rightarrow> bindings list \<Rightarrow> (nat \<times> find_spec) list \<Rightarrow> bindings \<Rightarrow> bindings option result" where
  "agg_loop reg rows [] b = Ok (Some b)"
| "agg_loop reg rows ((i, s) # ss) b = (case s of
      FAggregate func var \<Rightarrow> (case aggregate_value reg func (non_null rows var) of
          Inr v \<Rightarrow> agg_loop reg rows ss (AList.update (agg_key i) v b)
        | Inl e \<Rightarrow> if e = (Internal 42) then Ok None else Err e)
    | _ \<Rightarrow> agg_loop reg rows ss b)"

definition group_row :: "function_registry \<Rightarrow> find_spec list \<Rightarrow> value_t list \<times> bindings list \<Rightarrow> bindings option result" where
  "group_row reg specs = (\<lambda>(key, rows). agg_loop reg rows (enumerate 0 specs) (key_binding specs key))"

definition compute_aggregation ::
    "function_registry \<Rightarrow> bindings list \<Rightarrow> find_spec list \<Rightarrow> string list \<Rightarrow> bindings list result" where
  "compute_aggregation reg bs specs withs =
     (if bs = [] then
        (if list_all is_count_spec specs
         then Ok [fold (\<lambda>(i, s). AList.update (agg_key i) (VInteger (i64_of_int 0))) (enumerate 0 specs) []]
         else Ok [])
      else filter_map_result (group_row reg specs) (group_rows (group_var_names specs withs) bs))"

section \<open>Window functions\<close>

text \<open>A \<^verbatim>\<open>HashMap<Option<Value>, Vec<usize>>\<close>; partitions touch disjoint rows, so their order is immaterial.\<close>

fun opt_value_eq :: "value_t option \<Rightarrow> value_t option \<Rightarrow> bool" where
  "opt_value_eq None None = True"
| "opt_value_eq (Some a) (Some b) = value_eq a b"
| "opt_value_eq _ _ = False"

type_synonym partitions = "(value_t option \<times> nat list) list"

fun part_push :: "value_t option \<Rightarrow> nat \<Rightarrow> partitions \<Rightarrow> partitions" where
  "part_push k i [] = [(k, [i])]"
| "part_push k i ((k', is) # ps) = (if opt_value_eq k k' then (k', is @ [i]) # ps else (k', is) # part_push k i ps)"

definition part_key :: "window_spec \<Rightarrow> bindings \<Rightarrow> value_t option" where
  "part_key ws b = Option.bind (ws_partition_by ws) (map_of b)"

definition build_partitions :: "window_spec \<Rightarrow> bindings list \<Rightarrow> partitions" where
  "build_partitions ws bs = fold (\<lambda>(i, b). part_push (part_key ws b) i) (enumerate 0 bs) []"

fun insert_by :: "('a \<Rightarrow> 'a \<Rightarrow> ordering) \<Rightarrow> 'a \<Rightarrow> 'a list \<Rightarrow> 'a list" where
  "insert_by c x [] = [x]"
| "insert_by c x (y # ys) = (if c x y = Greater then y # insert_by c x ys else x # y # ys)"

definition sort_by :: "('a \<Rightarrow> 'a \<Rightarrow> ordering) \<Rightarrow> 'a list \<Rightarrow> 'a list" where
  "sort_by c xs = foldr (insert_by c) xs []"

definition window_cmp :: "sort_order \<Rightarrow> value_t \<Rightarrow> value_t \<Rightarrow> ordering" where
  "window_cmp ord a b = (case ord of Asc \<Rightarrow> fn_value_cmp a b | Desc \<Rightarrow> rev_ordering (fn_value_cmp a b))"

definition keyed_rows :: "window_spec \<Rightarrow> bindings list \<Rightarrow> nat list \<Rightarrow> (value_t \<times> nat) list" where
  "keyed_rows ws bs is = sort_by (\<lambda>x y. window_cmp (ws_order ws) (fst x) (fst y))
     (map (\<lambda>i. (get_or_null (bs ! i) (ws_order_by ws), i)) is)"

fun rank_loop :: "nat \<Rightarrow> nat \<Rightarrow> value_t option \<Rightarrow> value_t list \<Rightarrow> value_t list" where
  "rank_loop row_num rank prev [] = []"
| "rank_loop row_num rank prev (k # ks) =
     (if opt_value_eq prev (Some k) then VInteger (i64_of_int (int rank)) # rank_loop (row_num + 1) rank prev ks
      else VInteger (i64_of_int (int row_num)) # rank_loop (row_num + 1) row_num (Some k) ks)"

text \<open>The accumulator after each row, finalised.\<close>

fun running :: "window_ops \<Rightarrow> agg_state \<Rightarrow> value_t list \<Rightarrow> value_t list" where
  "running ops acc [] = []"
| "running ops acc (v # vs) = (let acc' = wo_step ops acc v in wo_finalise ops acc' # running ops acc' vs)"

definition window_input :: "window_spec \<Rightarrow> bindings \<Rightarrow> value_t" where
  "window_input ws b = (case ws_var ws of Some v \<Rightarrow> get_or_null b v | None \<Rightarrow> VNull)"

definition row_number :: "nat \<Rightarrow> value_t result" where
  "row_number pos = (if pos < 2 ^ 63 then Ok (VInteger (i64_of_int (int pos))) else Err (Internal 32))"

definition window_values ::
    "function_registry \<Rightarrow> window_spec \<Rightarrow> bindings list \<Rightarrow> (value_t \<times> nat) list \<Rightarrow> value_t list result" where
  "window_values reg ws bs keyed = (case ws_func ws of
      WRowNumber \<Rightarrow> collect_map row_number [1..<length keyed + 1]
    | WRank \<Rightarrow> Ok (rank_loop 1 1 None (map fst keyed))
    | _ \<Rightarrow> (let inputs = map (\<lambda>x. window_input ws (bs ! snd x)) keyed in
        case get_aggregate reg (func_name ws) of
          None \<Rightarrow> Err (Internal 30)
        | Some desc \<Rightarrow> Ok (case agg_impl desc of
            Builtin ops \<Rightarrow> running ops (wo_init ops) inputs
          | Udf f \<Rightarrow> map (\<lambda>n. f (take n inputs) n) [1..<length inputs + 1])))"

definition write_back :: "string \<Rightarrow> (nat \<times> value_t) list \<Rightarrow> bindings list \<Rightarrow> bindings list" where
  "write_back key ivs bs = fold (\<lambda>(i, v) bs. bs[i := AList.update key v (bs ! i)]) ivs bs"

fun run_partitions ::
    "function_registry \<Rightarrow> window_spec \<Rightarrow> string \<Rightarrow> nat list list \<Rightarrow> bindings list \<Rightarrow> bindings list result" where
  "run_partitions reg ws key [] bs = Ok bs"
| "run_partitions reg ws key (is # ps) bs =
     (let keyed = keyed_rows ws bs is in
      and_then (window_values reg ws bs keyed) (\<lambda>vs.
        run_partitions reg ws key ps (write_back key (zip (map snd keyed) vs) bs)))"

fun window_loop ::
    "function_registry \<Rightarrow> (nat \<times> find_spec) list \<Rightarrow> bindings list \<Rightarrow> bindings list result" where
  "window_loop reg [] bs = Ok bs"
| "window_loop reg ((i, s) # ss) bs = (case s of
      FWindow ws \<Rightarrow> and_then (run_partitions reg ws (win_key i) (map snd (build_partitions ws bs)) bs) (window_loop reg ss)
    | _ \<Rightarrow> window_loop reg ss bs)"

definition apply_window_functions :: "function_registry \<Rightarrow> find_spec list \<Rightarrow> bindings list \<Rightarrow> bindings list result" where
  "apply_window_functions reg specs bs = window_loop reg (enumerate 0 specs) bs"

section \<open>Projection and the whole pass\<close>

definition column :: "bindings \<Rightarrow> nat \<times> find_spec \<Rightarrow> value_t option" where
  "column b = (\<lambda>(i, s). case s of
      FVariable v \<Rightarrow> map_of b v | FAggregate _ _ \<Rightarrow> map_of b (agg_key i) | FWindow _ \<Rightarrow> map_of b (win_key i))"

fun project_row :: "bindings \<Rightarrow> (nat \<times> find_spec) list \<Rightarrow> value_t list option" where
  "project_row b [] = Some []"
| "project_row b (s # ss) = Option.bind (column b s) (\<lambda>v. map_option ((#) v) (project_row b ss))"

definition project_find_specs :: "bindings list \<Rightarrow> find_spec list \<Rightarrow> value_t list list" where
  "project_find_specs bs specs = List.map_filter (\<lambda>b. project_row b (enumerate 0 specs)) bs"

definition apply_post_processing ::
    "function_registry \<Rightarrow> bindings list \<Rightarrow> find_spec list \<Rightarrow> string list \<Rightarrow> value_t list list result" where
  "apply_post_processing reg bs specs withs =
     (let has_aggregates = list_ex is_aggregate_spec specs; has_windows = list_ex is_window_spec specs in
      if \<not> has_aggregates \<and> \<not> has_windows then Ok (extract_variables bs specs)
      else and_then (if has_aggregates then compute_aggregation reg bs specs withs else Ok bs) (\<lambda>working.
           and_then (if has_windows then apply_window_functions reg specs working else Ok working) (\<lambda>working.
           Ok (project_find_specs working specs))))"

section \<open>Groups\<close>

lemma values_cmp_key: "values_cmp a b = cmp_of (map value_key a) (map value_key b)"
  by (induction a b rule: values_cmp.induct) (auto simp: value_cmp_key cmp_of_def)

lemma values_cmp_iff:
  "values_cmp a b = Equal \<longleftrightarrow> map value_key a = map value_key b"
  "values_cmp a b = Less \<longleftrightarrow> map value_key a < map value_key b"
  by (auto simp: values_cmp_key cmp_of_def)

definition group_ok :: "(bindings \<Rightarrow> value_t list) \<Rightarrow> bindings list \<Rightarrow> value_t list \<Rightarrow> bindings list \<Rightarrow> bool" where
  "group_ok key bs k rs \<longleftrightarrow>
     filter (\<lambda>b. values_cmp (key b) k = Equal) bs = rs \<and> rs \<noteq> [] \<and> key (hd rs) = k"

definition group_inv :: "(bindings \<Rightarrow> value_t list) \<Rightarrow> bindings list \<Rightarrow> groups \<Rightarrow> bool" where
  "group_inv key bs g \<longleftrightarrow> sorted_wrt (\<lambda>a b. values_cmp a b = Less) (map fst g) \<and>
     (\<forall>b \<in> set bs. \<exists>k \<in> fst ` set g. values_cmp (key b) k = Equal) \<and>
     (\<forall>(k, rs) \<in> set g. group_ok key bs k rs)"

lemma group_push_keys:
  "fst ` set (group_push k b g) =
     fst ` set g \<union> (if \<exists>k' \<in> fst ` set g. values_cmp k k' = Equal then {} else {k})"
  if "sorted_wrt (\<lambda>a b. values_cmp a b = Less) (map fst g)"
  using that
proof (induction g)
  case (Cons e g)
  obtain k' rs where e: "e = (k', rs)" by (cases e)
  have far: "values_cmp k k'' \<noteq> Equal" if "values_cmp k k' = Less" "k'' \<in> fst ` set g" for k''
    using that Cons.prems by (auto simp: e values_cmp_iff)
  show ?case using Cons far by (auto simp: e split: ordering.splits)
qed simp

lemma group_push_sorted:
  "sorted_wrt (\<lambda>a b. values_cmp a b = Less) (map fst g) \<Longrightarrow>
   sorted_wrt (\<lambda>a b. values_cmp a b = Less) (map fst (group_push k b g))"
proof (induction g)
  case (Cons e g)
  obtain k' rs where e: "e = (k', rs)" by (cases e)
  have gr: "values_cmp k' k = Less" if "values_cmp k k' = Greater"
    using that by (simp add: values_cmp_key cmp_of_def split: if_splits)
  have tr: "values_cmp k k'' = Less" if "values_cmp k k' = Less" "k'' \<in> fst ` set g" for k''
    using that Cons.prems by (auto simp: e values_cmp_iff)
  have "\<forall>x \<in> set (map fst (group_push k b g)). values_cmp k' x = Less" if "values_cmp k k' = Greater"
    using Cons.prems gr [OF that] group_push_keys [of g k b] by (auto simp: e split: if_splits)
  then show ?case using Cons tr by (auto simp: e split: ordering.splits)
qed simp

lemma group_push_entries:
  assumes "sorted_wrt (\<lambda>a b. values_cmp a b = Less) (map fst g)" "(k', rs) \<in> set (group_push k b g)"
  shows "(\<exists>rs'. (k', rs') \<in> set g \<and> rs = (if values_cmp k k' = Equal then rs' @ [b] else rs')) \<or>
    k' = k \<and> rs = [b] \<and> (\<forall>k'' \<in> fst ` set g. values_cmp k k'' \<noteq> Equal)"
  using assms
proof (induction g)
  case (Cons e g)
  obtain k1 rs1 where e: "e = (k1, rs1)" by (cases e)
  have far: "values_cmp k k'' \<noteq> Equal" if "values_cmp k k1 \<noteq> Greater" "k'' \<in> fst ` set g" for k''
    using that Cons.prems(1) by (auto simp: e values_cmp_iff values_cmp_key cmp_of_def split: if_splits)
  show ?case
  proof (cases "values_cmp k k1")
    case Less
    with Cons.prems(2) consider "k' = k" "rs = [b]" | "(k', rs) \<in> set (e # g)" by (auto simp: e)
    then show ?thesis
    proof cases
      case 1
      with Less far show ?thesis by (simp add: e)
    next
      case 2
      with Less far have "values_cmp k k' \<noteq> Equal" by (auto simp: e rev_image_eqI)
      with 2 show ?thesis by simp
    qed
  next
    case Equal
    with Cons.prems(2) consider "k' = k1" "rs = rs1 @ [b]" | "(k', rs) \<in> set g" by (auto simp: e)
    then show ?thesis
    proof cases
      case 1
      with Equal show ?thesis by (auto simp: e)
    next
      case 2
      with Equal far have "values_cmp k k' \<noteq> Equal" by (auto simp: rev_image_eqI)
      with 2 show ?thesis by simp
    qed
  next
    case Greater
    with Cons.prems(2) consider "k' = k1" "rs = rs1" | "(k', rs) \<in> set (group_push k b g)" by (auto simp: e)
    then show ?thesis
    proof cases
      case 1
      with Greater show ?thesis by (auto simp: e)
    next
      case 2
      have "sorted_wrt (\<lambda>a b. values_cmp a b = Less) (map fst g)" using Cons.prems(1) by (simp add: e)
      from Cons.IH [OF this 2] Greater show ?thesis by (auto simp: e split: if_splits)
    qed
  qed
qed simp

lemma group_inv_push:
  assumes "group_inv key bs g"
  shows "group_inv key (bs @ [b]) (group_push (key b) b g)"
proof -
  from assms have srt: "sorted_wrt (\<lambda>a b. values_cmp a b = Less) (map fst g)"
    and cov: "\<And>c. c \<in> set bs \<Longrightarrow> \<exists>k \<in> fst ` set g. values_cmp (key c) k = Equal"
    and ent: "\<And>k rs. (k, rs) \<in> set g \<Longrightarrow> group_ok key bs k rs"
    by (auto simp: group_inv_def)
  have none: "filter (\<lambda>c. values_cmp (key c) (key b) = Equal) bs = []"
    if "\<forall>k \<in> fst ` set g. values_cmp (key b) k \<noteq> Equal"
  proof -
    have "values_cmp (key c) (key b) \<noteq> Equal" if "c \<in> set bs" for c
      using cov [OF that] \<open>\<forall>k \<in> fst ` set g. values_cmp (key b) k \<noteq> Equal\<close> by (metis values_cmp_iff(1))
    then show ?thesis by (simp add: filter_empty_conv)
  qed
  have entries: "group_ok key (bs @ [b]) k rs"
    if kr: "(k, rs) \<in> set (group_push (key b) b g)" for k rs
    using group_push_entries [OF srt kr]
  proof
    assume "\<exists>rs'. (k, rs') \<in> set g \<and> rs = (if values_cmp (key b) k = Equal then rs' @ [b] else rs')"
    then show ?thesis using ent by (auto simp: group_ok_def hd_append)
  next
    assume "k = key b \<and> rs = [b] \<and> (\<forall>k'' \<in> fst ` set g. values_cmp (key b) k'' \<noteq> Equal)"
    then show ?thesis using none by (simp add: group_ok_def values_cmp_iff)
  qed
  have "\<exists>k \<in> fst ` set (group_push (key b) b g). values_cmp (key c) k = Equal" if "c \<in> set (bs @ [b])" for c
    using that cov [of c] by (auto simp: group_push_keys [OF srt] values_cmp_iff)
  with entries group_push_sorted [OF srt] show ?thesis by (auto simp: group_inv_def)
qed

lemma group_invD:
  assumes "group_inv key bs g"
  shows "sorted_wrt (\<lambda>a b. values_cmp a b = Less) (map fst g)"
    and "b \<in> set bs \<Longrightarrow> \<exists>k \<in> fst ` set g. values_cmp (key b) k = Equal"
    and "(k, rs) \<in> set g \<Longrightarrow> group_ok key bs k rs"
  using assms unfolding group_inv_def by (simp, blast, blast)

lemma group_inv_rows: "group_inv (\<lambda>b. map (get_or_null b) names) bs (group_rows names bs)"
proof (induction bs rule: rev_induct)
  case (snoc b bs)
  then show ?case using group_inv_push by (fastforce simp: group_rows_def)
qed (simp add: group_inv_def group_rows_def)

section \<open>Columns\<close>

definition undec :: "string \<Rightarrow> nat" where
  "undec s = foldl (\<lambda>n c. 10 * n + (of_char c - 48)) 0 s"

lemma undec_dec: "undec (dec n) = n"
proof (induction n rule: dec.induct)
  case (1 n)
  then show ?case
    by (subst dec.simps) (auto simp: undec_def)
qed

lemma dec_inject [simp]: "dec m = dec n \<longleftrightarrow> m = n"
  by (metis undec_dec)

lemma column_keys [simp]:
  "agg_key i = agg_key j \<longleftrightarrow> i = j" "win_key i = win_key j \<longleftrightarrow> i = j"
  "\<not> prefix ''?'' (agg_key i)" "\<not> prefix ''?'' (win_key i)" "agg_key i \<noteq> win_key j" "win_key i \<noteq> agg_key j"
  by (simp_all add: agg_key_def win_key_def)

lemma project_row_Some:
  "project_row b iss = Some vs \<longleftrightarrow> list_all2 (\<lambda>s v. column b s = Some v) iss vs"
  by (induction iss arbitrary: vs) (auto simp: bind_eq_Some_conv list_all2_Cons1)

lemma map_of_fold_update:
  "distinct (map fst m) \<Longrightarrow>
   map_of (fold (\<lambda>(v, i) b. AList.update v (f i) b) m b) v =
     (case map_of m v of Some i \<Rightarrow> Some (f i) | None \<Rightarrow> map_of b v)"
proof (induction m arbitrary: b)
  case (Cons e m)
  then have "fst e = v \<Longrightarrow> map_of m v = None" by (auto simp: map_of_eq_None_iff)
  with Cons show ?case by (cases e) (auto simp: update_conv' split: option.splits)
qed simp

lemma group_key_idx_props:
  shows "distinct (map fst (group_key_idx specs))"
    and "map_of (group_key_idx specs) v = None \<longleftrightarrow> v \<notin> set (variable_specs specs)"
    and "map_of (group_key_idx specs) v = Some i \<Longrightarrow> i < length (variable_specs specs) \<and> variable_specs specs ! i = v"
proof -
  let ?m = "\<lambda>vs. fold (\<lambda>(i, v). AList.update v i) (enumerate 0 vs) []"
  have "distinct (map fst (?m vs)) \<and> (map_of (?m vs) v = None \<longleftrightarrow> v \<notin> set vs) \<and>
      (map_of (?m vs) v = Some i \<longrightarrow> i < length vs \<and> vs ! i = v)" for vs
  proof (induction vs rule: rev_induct)
    case (snoc w vs)
    then show ?case by (auto simp: enumerate_append_eq distinct_update update_conv' nth_append)
  qed simp
  then show "distinct (map fst (group_key_idx specs))"
    and "map_of (group_key_idx specs) v = None \<longleftrightarrow> v \<notin> set (variable_specs specs)"
    and "map_of (group_key_idx specs) v = Some i \<Longrightarrow> i < length (variable_specs specs) \<and> variable_specs specs ! i = v"
    by (simp_all add: group_key_idx_def)
qed

lemma map_of_key_binding:
  "map_of (key_binding specs (map (get_or_null b) (variable_specs specs @ ws))) v =
     (if v \<in> set (variable_specs specs) then Some (get_or_null b v) else None)"
proof -
  let ?key = "map (get_or_null b) (variable_specs specs @ ws)" and ?m = "group_key_idx specs"
  have "i < length ?key" if "(v, i) \<in> set ?m" for v i
  proof -
    have "map_of ?m v = Some i" using that group_key_idx_props(1) by simp
    then show ?thesis using group_key_idx_props(3) [of specs v i] by simp
  qed
  then have "key_binding specs ?key = fold (\<lambda>(v, i) b. AList.update v (?key ! i) b) ?m []"
    unfolding key_binding_def by (intro fold_cong) auto
  then have eq: "map_of (key_binding specs ?key) v = (case map_of ?m v of Some i \<Rightarrow> Some (?key ! i) | None \<Rightarrow> None)"
    by (simp add: map_of_fold_update group_key_idx_props(1) cong: option.case_cong)
  show ?thesis
  proof (cases "map_of ?m v")
    case None
    then show ?thesis using group_key_idx_props(2) [of specs v] eq by simp
  next
    case (Some i)
    then have "i < length (variable_specs specs)" "variable_specs specs ! i = v"
      using group_key_idx_props(3) by blast+
    then have "?key ! i = get_or_null b v" "v \<in> set (variable_specs specs)"
      by (auto simp: nth_append)
    with Some eq show ?thesis by simp
  qed
qed

text \<open>The answer of one group, read off its rows: the reference for the code's hidden columns.\<close>

definition group_cell :: "function_registry \<Rightarrow> bindings list \<Rightarrow> find_spec \<Rightarrow> value_t result" where
  "group_cell reg rows s = (case s of
      FVariable v \<Rightarrow> Ok (get_or_null (hd rows) v)
    | FAggregate f v \<Rightarrow> aggregate_value reg f (non_null rows v)
    | FWindow _ \<Rightarrow> Ok VNull)"

definition group_answer :: "function_registry \<Rightarrow> find_spec list \<Rightarrow> bindings list \<Rightarrow> value_t list option result" where
  "group_answer reg specs rows = (case collect_map (group_cell reg rows) specs of
      Inr vs \<Rightarrow> Ok (Some vs) | Inl e \<Rightarrow> if e = (Internal 42) then Ok None else Err e)"

definition put_cell :: "(nat \<times> find_spec) \<times> value_t \<Rightarrow> bindings \<Rightarrow> bindings" where
  "put_cell = (\<lambda>((i, s), v) b. if is_aggregate_spec s then AList.update (agg_key i) v b else b)"

lemma group_cell_simps [simp]:
  "group_cell reg rows (FVariable v) = Ok (get_or_null (hd rows) v)"
  "group_cell reg rows (FAggregate f w) = aggregate_value reg f (non_null rows w)"
  "group_cell reg rows (FWindow ws) = Ok VNull"
  by (simp_all add: group_cell_def)

lemma agg_loop_eq:
  "agg_loop reg rows iss b = (case collect_map (group_cell reg rows) (map snd iss) of
      Inl e \<Rightarrow> if e = (Internal 42) then Ok None else Err e
    | Inr vs \<Rightarrow> Ok (Some (fold put_cell (zip iss vs) b)))"
proof (induction iss arbitrary: b)
  case (Cons p ss)
  obtain i s where p: "p = (i, s)" by (cases p)
  show ?case
  proof (cases s)
    case (FAggregate f w)
    with Cons show ?thesis
      by (cases "aggregate_value reg f (non_null rows w)"; cases "collect_map (group_cell reg rows) (map snd ss)")
        (simp_all add: p put_cell_def is_aggregate_spec_def)
  qed (cases "collect_map (group_cell reg rows) (map snd ss)";
      simp add: Cons p put_cell_def is_aggregate_spec_def)+
qed simp

lemma put_cell_other:
  "k \<notin> agg_key ` fst ` fst ` set ps \<Longrightarrow> map_of (fold put_cell ps b) k = map_of b k"
  by (induction ps arbitrary: b) (auto simp: put_cell_def update_conv')

lemma put_cells_columns:
  assumes "distinct (map fst iss)" "length vs = length iss" "list_all (\<lambda>s. \<not> is_window_spec (snd s)) iss"
    and "\<And>i v x. ((i, FVariable v), x) \<in> set (zip iss vs) \<Longrightarrow> prefix ''?'' v \<and> map_of b v = Some x"
  shows "project_row (fold put_cell (zip iss vs) b) iss = Some vs"
  unfolding project_row_Some
  using assms
proof (induction iss arbitrary: vs b)
  case (Cons p iss)
  obtain v vs' where vs: "vs = v # vs'" using Cons.prems(2) by (cases vs) auto
  obtain i s where p: "p = (i, s)" by (cases p)
  let ?b = "put_cell ((i, s), v) b"
  have vars: "map_of ?b w = map_of b w" if "prefix ''?'' w" for w
    using that by (auto simp: put_cell_def update_conv')
  have old: "prefix ''?'' w \<and> map_of ?b w = Some x" if "((j, FVariable w), x) \<in> set (zip iss vs')" for j w x
    using Cons.prems(4) [of j w x] that vars by (simp add: vs p)
  have rest: "list_all2 (\<lambda>s v. column (fold put_cell (zip iss vs') ?b) s = Some v) iss vs'"
    using Cons.prems(1-3) old by (intro Cons.IH) (simp_all add: vs p)
  have fresh: "agg_key i \<notin> agg_key ` fst ` fst ` set (zip iss vs')"
    using Cons.prems(1) by (force simp: p dest: set_zip_leftD)
  have "column (fold put_cell (zip iss vs') ?b) (i, s) = Some v"
  proof (cases s)
    case (FVariable w)
    then have "prefix ''?'' w" "map_of b w = Some v" using Cons.prems(4) by (auto simp: vs p)
    moreover from this have "w \<notin> agg_key ` fst ` fst ` set (zip iss vs')" by auto
    ultimately show ?thesis using vars by (simp add: FVariable column_def put_cell_other)
  next
    case (FAggregate f w)
    then show ?thesis using fresh
      by (simp add: column_def put_cell_other) (simp add: put_cell_def is_aggregate_spec_def update_conv')
  next
    case (FWindow ws)
    then show ?thesis using Cons.prems(3) by (simp add: p is_window_spec_def)
  qed
  with rest show ?case by (simp add: vs p)
qed simp

lemma filter_map_result_then:
  "and_then (filter_map_result f xs) (\<lambda>ys. Ok (List.map_filter g ys)) =
   filter_map_result (\<lambda>x. and_then (f x) (\<lambda>r. Ok (Option.bind r g))) xs"
proof (induction xs)
  case (Cons x xs)
  note IH = Cons [symmetric]
  show ?case
    by (cases "f x"; cases "filter_map_result f xs") (auto simp: IH map_filter_simps split: option.splits)
qed (simp add: map_filter_simps)

lemma filter_map_result_map: "filter_map_result f (map g xs) = filter_map_result (\<lambda>x. f (g x)) xs"
  by (induction xs) simp_all

lemma group_row_answer:
  assumes w: "\<not> list_ex is_window_spec specs" and v: "list_all (prefix ''?'') (variable_specs specs)"
    and key: "key = map (get_or_null (hd rows)) (variable_specs specs @ ws)"
  shows "and_then (group_row reg specs (key, rows)) (\<lambda>r. Ok (Option.bind r (\<lambda>b. project_row b (enumerate 0 specs)))) =
    group_answer reg specs rows"
proof (cases "collect_map (group_cell reg rows) specs")
  case (Inr vs)
  let ?iss = "enumerate 0 specs" and ?b = "key_binding specs key"
  have cells: "length vs = length specs" "\<And>i. i < length specs \<Longrightarrow> group_cell reg rows (specs ! i) = Ok (vs ! i)"
    using collect_map_eq_InrD [OF Inr] by auto
  have "project_row (fold put_cell (zip ?iss vs) ?b) ?iss = Some vs"
  proof (rule put_cells_columns)
    show "distinct (map fst ?iss)" by simp
    show "length vs = length ?iss" by (simp add: cells)
    show "list_all (\<lambda>s. \<not> is_window_spec (snd s)) ?iss"
      using w by (auto simp: list_all_iff list_ex_iff in_set_enumerate_eq)
    fix i x u assume "((i, FVariable u), x) \<in> set (zip ?iss vs)"
    then have i: "i < length specs" "specs ! i = FVariable u" "x = vs ! i"
      by (auto simp: set_zip nth_enumerate_eq)
    then have "FVariable u \<in> set specs" using nth_mem by force
    then have "u \<in> set (variable_specs specs)" by (force simp: variable_specs_def map_filter_def)
    moreover have "x = get_or_null (hd rows) u" using cells(2) [OF i(1)] i by simp
    ultimately show "prefix ''?'' u \<and> map_of ?b u = Some x"
      using v by (simp add: list_all_iff key map_of_key_binding del: map_append)
  qed
  then show ?thesis by (simp add: group_row_def agg_loop_eq Inr group_answer_def)
qed (simp add: group_row_def agg_loop_eq group_answer_def)

definition row_key :: "find_spec list \<Rightarrow> string list \<Rightarrow> bindings \<Rightarrow> value_t list" where
  "row_key specs withs = (\<lambda>b. map (get_or_null b) (variable_specs specs @ withs))"

text \<open>
  C21. Aggregation. With at least one row, the answers of a query with aggregates are computed
  group by group, in ascending order of the group keys and one group per distinct key: each
  group is exactly the rows with that key, in their order; its answer takes the plain
  variables from its first row and each aggregate over the group's values that are not nil; a
  group where a minimum or maximum has no value is left out, and any other error fails the
  query. The hidden columns the code computes through never show.
\<close>

theorem aggregation_by_groups:
  assumes "bs \<noteq> []" and "list_ex is_aggregate_spec specs" and "\<not> list_ex is_window_spec specs"
    and "list_all (prefix ''?'') (variable_specs specs)"
  shows "\<exists>ks. sorted_wrt (\<lambda>a b. values_cmp a b = Less) ks \<and> set ks \<subseteq> row_key specs withs ` set bs \<and>
    list_all (\<lambda>b. list_ex (\<lambda>k. values_cmp (row_key specs withs b) k = Equal) ks) bs \<and>
    apply_post_processing reg bs specs withs =
      filter_map_result (\<lambda>k. group_answer reg specs (filter (\<lambda>b. values_cmp (row_key specs withs b) k = Equal) bs)) ks"
proof -
  define key where "key = row_key specs withs"
  let ?g = "group_rows (group_var_names specs withs) bs" and ?ks = "map fst (group_rows (group_var_names specs withs) bs)"
  have names: "group_var_names specs withs = variable_specs specs @ withs"
    using assms(3) by (simp add: group_var_names_def)
  have inv: "group_inv key bs ?g" unfolding key_def row_key_def names by (rule group_inv_rows)
  have one: "and_then (group_row reg specs e) (\<lambda>r. Ok (Option.bind r (\<lambda>b. project_row b (enumerate 0 specs)))) =
      group_answer reg specs (filter (\<lambda>b. values_cmp (key b) (fst e) = Equal) bs)" if "e \<in> set ?g" for e
  proof -
    obtain k rs where e: "e = (k, rs)" by (cases e)
    have "(k, rs) \<in> set ?g" using that e by simp
    then have ok: "group_ok key bs k rs" by (rule group_invD(3) [OF inv])
    then have k: "k = map (get_or_null (hd rs)) (variable_specs specs @ withs)" unfolding group_ok_def key_def row_key_def by (elim conjE) (rule sym)
    have rs: "filter (\<lambda>b. values_cmp (key b) k = Equal) bs = rs" using ok by (simp add: group_ok_def)
    show ?thesis
      unfolding e fst_conv rs by (rule group_row_answer [OF assms(3,4) k])
  qed
  have "apply_post_processing reg bs specs withs =
      and_then (filter_map_result (group_row reg specs) ?g) (\<lambda>ys. Ok (List.map_filter (\<lambda>b. project_row b (enumerate 0 specs)) ys))"
    using assms(1-3) by (simp add: apply_post_processing_def compute_aggregation_def project_find_specs_def)
  also have "\<dots> = filter_map_result (\<lambda>k. group_answer reg specs (filter (\<lambda>b. values_cmp (key b) k = Equal) bs)) ?ks"
    unfolding filter_map_result_then filter_map_result_map using one by (rule filter_map_result_cong)
  finally have eq: "apply_post_processing reg bs specs withs =
      filter_map_result (\<lambda>k. group_answer reg specs (filter (\<lambda>b. values_cmp (key b) k = Equal) bs)) ?ks" .
  have sub: "set ?ks \<subseteq> key ` set bs"
  proof
    fix k assume "k \<in> set ?ks"
    then obtain rs where "(k, rs) \<in> set ?g" by auto
    then have "group_ok key bs k rs" by (rule group_invD(3) [OF inv])
    then have "hd rs \<in> set bs" "key (hd rs) = k" unfolding group_ok_def by (metis filter_is_subset hd_in_set subsetD, blast)
    then show "k \<in> key ` set bs" by blast
  qed
  have "list_all (\<lambda>b. list_ex (\<lambda>k. values_cmp (key b) k = Equal) ?ks) bs"
    using group_invD(2) [OF inv] by (auto simp: list_all_iff list_ex_iff)
  with group_invD(1) [OF inv] sub eq show ?thesis unfolding key_def by blast
qed

definition sample_group_rows :: "bindings list" where
  "sample_group_rows = [[(''?d'', VString ''b''), (''?e'', VBoolean True)], [(''?d'', VString ''a''), (''?e'', VNull)],
     [(''?d'', VString ''b''), (''?e'', VBoolean False)]]"

definition sample_specs :: "find_spec list" where
  "sample_specs = [FVariable ''?d'', FAggregate ''count'' ''?e'']"

theorem aggregation_by_groups_witness:
  "\<exists>ks. sorted_wrt (\<lambda>a b. values_cmp a b = Less) ks \<and> set ks \<subseteq> row_key sample_specs [] ` set sample_group_rows \<and>
    list_all (\<lambda>b. list_ex (\<lambda>k. values_cmp (row_key sample_specs [] b) k = Equal) ks) sample_group_rows \<and>
    apply_post_processing with_builtins sample_group_rows sample_specs [] =
      filter_map_result (\<lambda>k. group_answer with_builtins sample_specs
        (filter (\<lambda>b. values_cmp (row_key sample_specs [] b) k = Equal) sample_group_rows)) ks"
  by (rule aggregation_by_groups)
    (simp_all add: sample_group_rows_def sample_specs_def is_aggregate_spec_def is_window_spec_def variable_specs_def
      map_filter_simps)

end
