(* ===== verification/Window_Functions.thy ===== *)
theory Window_Functions
  imports Post_Processing
begin

text \<open>
  What the window functions of \<^verbatim>\<open>src/query/datalog/executor.rs\<close> compute: the stable sort, the
  partitions, the running values, and the ranks and row numbers they give each row.
\<close>

section \<open>The stable sort\<close>

lemma rev_ordering_iff [simp]:
  "rev_ordering c = Less \<longleftrightarrow> c = Greater" "rev_ordering c = Greater \<longleftrightarrow> c = Less" "rev_ordering c = Equal \<longleftrightarrow> c = Equal"
  by (cases c; simp)+

text \<open>
  Sorting pairs of a key and a position by the key alone, stably, is sorting them by key and
  then position, whenever the comparison is a total order on the keys.
\<close>

definition preorder_on_keys :: "(value_t \<Rightarrow> value_t \<Rightarrow> ordering) \<Rightarrow> value_t set \<Rightarrow> bool" where
  "preorder_on_keys c K \<longleftrightarrow> (\<forall>a \<in> K. \<forall>b \<in> K. c b a = rev_ordering (c a b)) \<and>
     (\<forall>a \<in> K. \<forall>b \<in> K. \<forall>d \<in> K. c a b \<noteq> Greater \<longrightarrow> c b d \<noteq> Greater \<longrightarrow> c a d \<noteq> Greater)"

definition precedes :: "(value_t \<Rightarrow> value_t \<Rightarrow> ordering) \<Rightarrow> value_t \<times> nat \<Rightarrow> value_t \<times> nat \<Rightarrow> bool" where
  "precedes c x y \<longleftrightarrow> c (fst x) (fst y) = Less \<or> c (fst x) (fst y) = Equal \<and> snd x < snd y"

lemma preorder_on_keysD:
  assumes "preorder_on_keys c K" "a \<in> K" "b \<in> K"
  shows "c b a = rev_ordering (c a b)" "c a a = Equal"
    and "d \<in> K \<Longrightarrow> c a b \<noteq> Greater \<Longrightarrow> c b d \<noteq> Greater \<Longrightarrow> c a d \<noteq> Greater"
proof -
  show "c b a = rev_ordering (c a b)" using assms unfolding preorder_on_keys_def by blast
  have "c a a = rev_ordering (c a a)" using assms unfolding preorder_on_keys_def by blast
  then show "c a a = Equal" by (cases "c a a") simp_all
  show "d \<in> K \<Longrightarrow> c a b \<noteq> Greater \<Longrightarrow> c b d \<noteq> Greater \<Longrightarrow> c a d \<noteq> Greater"
    using assms unfolding preorder_on_keys_def by blast
qed

lemma precedes_trans:
  assumes p: "preorder_on_keys c K" and k: "fst x \<in> K" "fst y \<in> K" "fst z \<in> K"
    and xy: "precedes c x y" and yz: "precedes c y z"
  shows "precedes c x z"
proof -
  note D = preorder_on_keysD [OF p]
  have le: "c (fst x) (fst z) \<noteq> Greater"
    using D(3) [OF k(1,2,3)] xy yz by (auto simp: precedes_def)
  show ?thesis
  proof (cases "c (fst x) (fst z)")
    case Equal
    have "c (fst x) (fst y) = Equal \<and> c (fst y) (fst z) = Equal"
    proof -
      have zx: "c (fst z) (fst x) = Equal" using Equal D(1) [OF k(1,3)] by simp
      have "c (fst z) (fst y) \<noteq> Greater" using D(3) [OF k(3,1,2)] zx xy by (auto simp: precedes_def)
      moreover have "c (fst y) (fst x) \<noteq> Greater" using D(3) [OF k(2,3,1)] zx yz by (auto simp: precedes_def)
      ultimately show ?thesis
        using xy yz D(1) [OF k(1,2)] D(1) [OF k(2,3)] by (auto simp: precedes_def)
    qed
    with xy yz Equal show ?thesis by (auto simp: precedes_def)
  qed (use le in \<open>auto simp: precedes_def\<close>)
qed

lemma set_insert_by [simp]: "set (insert_by c x ys) = insert x (set ys)"
  by (induction ys) auto

lemma mset_sort_by [simp]: "set (sort_by c xs) = set xs" "length (sort_by c xs) = length xs"
proof -
  have "length (insert_by c x ys) = Suc (length ys)" for x and ys :: "'a list" by (induction ys) auto
  then show "length (sort_by c xs) = length xs" by (induction xs) (simp_all add: sort_by_def)
qed (induction xs; simp add: sort_by_def)

lemma insert_by_precedes:
  assumes p: "preorder_on_keys c K" and K: "fst x \<in> K" "fst ` set ys \<subseteq> K"
    and srt: "sorted_wrt (precedes c) ys" and pos: "\<forall>y \<in> set ys. snd x < snd y"
  shows "sorted_wrt (precedes c) (insert_by (\<lambda>x y. c (fst x) (fst y)) x ys)"
  using K(2) srt pos
proof (induction ys)
  case (Cons y ys)
  note D = preorder_on_keysD [OF p K(1)]
  have y: "fst y \<in> K" using Cons.prems by simp
  show ?case
  proof (cases "c (fst x) (fst y) = Greater")
    case True
    then have yx: "precedes c y x" using D(1) [OF y] by (simp add: precedes_def)
    with Cons True show ?thesis by simp
  next
    case False
    then have xy: "precedes c x y" using Cons.prems(3) by (cases "c (fst x) (fst y)") (auto simp: precedes_def)
    moreover have "precedes c x z" if "z \<in> set ys" for z
      using precedes_trans [OF p K(1) y _ xy, of z] Cons.prems(1,2) that by auto
    ultimately show ?thesis using False Cons.prems(2) by simp
  qed
qed simp

lemma sort_by_precedes:
  assumes p: "preorder_on_keys c (fst ` set xs)" and pos: "sorted_wrt (<) (map snd xs)"
  shows "sorted_wrt (precedes c) (sort_by (\<lambda>x y. c (fst x) (fst y)) xs)"
proof -
  have "fst ` set ys \<subseteq> fst ` set xs \<Longrightarrow> sorted_wrt (<) (map snd ys) \<Longrightarrow>
      sorted_wrt (precedes c) (sort_by (\<lambda>x y. c (fst x) (fst y)) ys)" for ys
  proof (induction ys)
    case (Cons y ys)
    then show ?case
      using insert_by_precedes [OF p, of y "sort_by (\<lambda>x y. c (fst x) (fst y)) ys"]
      by (simp add: sort_by_def [of _ "y # ys"]) (simp add: sort_by_def [symmetric])
  qed (simp add: sort_by_def)
  with pos show ?thesis by blast
qed

text \<open>In a list sorted by a strict order, a position is the number of elements that precede it.\<close>

lemma sorted_position:
  assumes srt: "sorted_wrt R xs" and irr: "\<And>x y. x \<in> set xs \<Longrightarrow> y \<in> set xs \<Longrightarrow> R x y \<Longrightarrow> \<not> R y x"
    and i: "i < length xs"
  shows "card {x \<in> set xs. R x (xs ! i)} = i"
proof -
  have d: "distinct xs"
    unfolding distinct_conv_nth using srt irr
    by (metis nat_neq_iff nth_mem sorted_wrt_nth_less)
  have "{x \<in> set xs. R x (xs ! i)} = (!) xs ` {0..<i}"
  proof
    show "{x \<in> set xs. R x (xs ! i)} \<subseteq> (!) xs ` {0..<i}"
    proof
      fix x assume "x \<in> {x \<in> set xs. R x (xs ! i)}"
      then obtain j where j: "j < length xs" "x = xs ! j" "R (xs ! j) (xs ! i)" by (auto simp: in_set_conv_nth)
      have "\<not> i < j" using j irr [of "xs ! j" "xs ! i"] sorted_wrt_nth_less [OF srt, of i j] i by auto
      moreover have "i \<noteq> j" using j irr [of "xs ! j" "xs ! i"] i by auto
      ultimately show "x \<in> (!) xs ` {0..<i}" using j by auto
    qed
    show "(!) xs ` {0..<i} \<subseteq> {x \<in> set xs. R x (xs ! i)}"
      using i sorted_wrt_nth_less [OF srt] by auto
  qed
  moreover have "inj_on ((!) xs) {0..<i}" using d i by (auto simp: inj_on_def nth_eq_iff_index_eq)
  ultimately show ?thesis by (simp add: card_image)
qed

section \<open>Keys that can be compared\<close>

definition comparable :: "value_t list \<Rightarrow> bool" where
  "comparable vs \<longleftrightarrow> list_all (\<lambda>v. case v of VInteger _ \<Rightarrow> True | _ \<Rightarrow> False) vs \<or>
     list_all (\<lambda>v. case v of VString _ \<Rightarrow> True | _ \<Rightarrow> False) vs \<or>
     list_all (\<lambda>v. case v of VFloat f \<Rightarrow> \<not> is_nan f | _ \<Rightarrow> False) vs"

lemma comparable_value_key:
  assumes "comparable vs" "a \<in> set vs" "b \<in> set vs"
  shows "fn_value_cmp a b = cmp_of (value_key a) (value_key b)" "value_eq a b \<longleftrightarrow> fn_value_cmp a b = Equal"
proof -
  consider (int) x y where "a = VInteger x" "b = VInteger y" | (str) x y where "a = VString x" "b = VString y"
    | (flt) x y where "a = VFloat x" "b = VFloat y" "\<not> is_nan x" "\<not> is_nan y"
    using assms by (cases a; cases b) (fastforce simp: comparable_def list_all_iff)+
  then have "fn_value_cmp a b = value_cmp a b \<and> (value_eq a b \<longleftrightarrow> fn_value_cmp a b = Equal)"
    by cases (auto simp: fn_value_cmp_def unwrap_or_equal_def f64_partial_cmp_def f64_cmp_def f64_eq_def cmp_of_def)
  then show "fn_value_cmp a b = cmp_of (value_key a) (value_key b)" "value_eq a b \<longleftrightarrow> fn_value_cmp a b = Equal"
    by (simp_all add: value_cmp_key)
qed

lemma comparable_preorder:
  assumes "comparable vs"
  shows "preorder_on_keys (window_cmp ord) (set vs)"
    and "a \<in> set vs \<Longrightarrow> b \<in> set vs \<Longrightarrow> value_eq a b \<longleftrightarrow> window_cmp ord a b = Equal"
proof -
  note K = comparable_value_key [OF assms]
  show "preorder_on_keys (window_cmp ord) (set vs)"
    by (cases ord) (auto simp: preorder_on_keys_def window_cmp_def K(1) cmp_of_def split: if_splits)
  show "a \<in> set vs \<Longrightarrow> b \<in> set vs \<Longrightarrow> value_eq a b \<longleftrightarrow> window_cmp ord a b = Equal"
    using K(2) by (cases ord; cases "fn_value_cmp a b") (auto simp: window_cmp_def)
qed

section \<open>Partitions\<close>

lemma opt_value_eq_PER:
  "opt_value_eq a b \<Longrightarrow> opt_value_eq b a" "opt_value_eq a b \<Longrightarrow> opt_value_eq b c \<Longrightarrow> opt_value_eq a c"
  by (cases a; cases b; auto intro: value_eq_PER) (cases a; cases b; cases c; auto intro: value_eq_PER)

text \<open>Two rows share a partition when they are the same row or their keys are equal.\<close>

definition same_partition :: "value_t option list \<Rightarrow> nat \<Rightarrow> nat \<Rightarrow> bool" where
  "same_partition ks i j \<longleftrightarrow> i = j \<or> opt_value_eq (ks ! i) (ks ! j)"

definition part_inv :: "value_t option list \<Rightarrow> partitions \<Rightarrow> bool" where
  "part_inv ks ps \<longleftrightarrow> sorted_wrt (\<lambda>p q. \<not> opt_value_eq (fst p) (fst q)) ps \<and> distinct (concat (map snd ps)) \<and>
     set (concat (map snd ps)) = {0..<length ks} \<and>
     (\<forall>(k, is) \<in> set ps. sorted_wrt (<) is \<and> is \<noteq> [] \<and> k = ks ! hd is \<and>
       (\<forall>i \<in> set is. \<forall>j < length ks. j \<in> set is \<longleftrightarrow> same_partition ks i j))"

lemma part_push_indices: "mset (concat (map snd (part_push k i ps))) = add_mset i (mset (concat (map snd ps)))"
  by (induction ps) auto

lemma part_push_keys:
  "map fst (part_push k i ps) = map fst ps @ (if \<exists>k' \<in> set (map fst ps). opt_value_eq k k' then [] else [k])"
  by (induction ps) (auto, force)

lemma part_push_pairwise:
  "sorted_wrt (\<lambda>p q. \<not> opt_value_eq (fst p) (fst q)) ps \<Longrightarrow>
   sorted_wrt (\<lambda>p q. \<not> opt_value_eq (fst p) (fst q)) (part_push k i ps)"
  unfolding sorted_wrt_map [of "\<lambda>p q. \<not> opt_value_eq p q" fst, symmetric] part_push_keys
  by (auto simp: sorted_wrt_append dest: opt_value_eq_PER(1))

lemma part_push_entries:
  assumes "sorted_wrt (\<lambda>p q. \<not> opt_value_eq (fst p) (fst q)) ps" "(k', is) \<in> set (part_push k i ps)"
  shows "(\<exists>is'. (k', is') \<in> set ps \<and> is = (if opt_value_eq k k' then is' @ [i] else is')) \<or>
    k' = k \<and> is = [i] \<and> (\<forall>k'' \<in> fst ` set ps. \<not> opt_value_eq k k'')"
  using assms
proof (induction ps)
  case (Cons p ps)
  obtain k1 is1 where p: "p = (k1, is1)" by (cases p)
  show ?case
  proof (cases "opt_value_eq k k1")
    case True
    have far: "\<not> opt_value_eq k k''" if "k'' \<in> fst ` set ps" for k''
    proof -
      have "\<not> opt_value_eq k1 k''" using that Cons.prems(1) by (auto simp: p)
      with True show ?thesis using opt_value_eq_PER by blast
    qed
    from True Cons.prems(2) consider "k' = k1" "is = is1 @ [i]" | "(k', is) \<in> set ps" by (auto simp: p)
    then show ?thesis
    proof cases
      case 2
      with far have "\<not> opt_value_eq k k'" by (auto simp: rev_image_eqI)
      with 2 show ?thesis by simp
    qed (use True in \<open>auto simp: p\<close>)
  next
    case False
    with Cons.prems(2) consider "k' = k1" "is = is1" | "(k', is) \<in> set (part_push k i ps)" by (auto simp: p)
    then show ?thesis
    proof cases
      case 2
      from Cons.prems(1) have "sorted_wrt (\<lambda>p q. \<not> opt_value_eq (fst p) (fst q)) ps" by (simp add: p)
      from Cons.IH [OF this 2] False show ?thesis by (auto simp: p split: if_splits)
    qed (use False in \<open>auto simp: p\<close>)
  qed
qed simp

lemma part_inv_push:
  assumes inv: "part_inv ks ps"
  shows "part_inv (ks @ [k]) (part_push k (length ks) ps)"
proof -
  let ?n = "length ks"
  from inv have pw: "sorted_wrt (\<lambda>p q. \<not> opt_value_eq (fst p) (fst q)) ps"
    and d: "distinct (concat (map snd ps))" and s: "set (concat (map snd ps)) = {0..<?n}"
    and ent: "\<And>k' is. (k', is) \<in> set ps \<Longrightarrow> sorted_wrt (<) is \<and> is \<noteq> [] \<and> k' = ks ! hd is \<and>
      (\<forall>i \<in> set is. \<forall>j < ?n. j \<in> set is \<longleftrightarrow> same_partition ks i j)"
    unfolding part_inv_def by (simp, simp, simp, blast)
  have below: "i < ?n" if "(k', is) \<in> set ps" "i \<in> set is" for k' "is" i
    using s that by fastforce
  have idx: "set (concat (map snd (part_push k ?n ps))) = insert ?n {0..<?n}"
    using part_push_indices [of k ?n ps] s by (metis set_mset_add_mset_insert set_mset_mset)
  have dist: "distinct (concat (map snd (part_push k ?n ps)))"
    using part_push_indices [of k ?n ps] d s
    by (metis atLeastLessThan_iff distinct.simps(2) less_irrefl mset.simps(2) mset_eq_imp_distinct_iff)
  have same_old: "same_partition (ks @ [k]) i j \<longleftrightarrow> same_partition ks i j" if "i < ?n" "j < ?n" for i j
    using that by (simp add: same_partition_def nth_append)
  have same_new: "same_partition (ks @ [k]) i ?n \<longleftrightarrow> opt_value_eq k k'" "same_partition (ks @ [k]) ?n i \<longleftrightarrow> opt_value_eq k k'"
    if e: "(k', is) \<in> set ps" and i: "i \<in> set is" for k' "is" i
  proof -
    have h: "hd is \<in> set is" "hd is < ?n" "k' = ks ! hd is" using ent [OF e] below [OF e] by auto
    then have "same_partition ks (hd is) i" using ent [OF e] below [OF e i] i by blast
    then have "hd is = i \<or> opt_value_eq k' (ks ! i)" by (simp add: same_partition_def h)
    then have "opt_value_eq k (ks ! i) \<longleftrightarrow> opt_value_eq k k'" using opt_value_eq_PER h(3) by blast
    then show "same_partition (ks @ [k]) i ?n \<longleftrightarrow> opt_value_eq k k'" "same_partition (ks @ [k]) ?n i \<longleftrightarrow> opt_value_eq k k'"
      using below [OF e i] opt_value_eq_PER(1) by (auto simp: same_partition_def nth_append)
  qed
  have "sorted_wrt (<) is \<and> is \<noteq> [] \<and> k' = (ks @ [k]) ! hd is \<and>
      (\<forall>i \<in> set is. \<forall>j < length (ks @ [k]). j \<in> set is \<longleftrightarrow> same_partition (ks @ [k]) i j)"
    if "(k', is) \<in> set (part_push k ?n ps)" for k' "is"
    using part_push_entries [OF pw that]
  proof
    assume "\<exists>is'. (k', is') \<in> set ps \<and> is = (if opt_value_eq k k' then is' @ [?n] else is')"
    then obtain is' where e: "(k', is') \<in> set ps" and iss: "is = (if opt_value_eq k k' then is' @ [?n] else is')" by blast
    note E = ent [OF e] and B = below [OF e]
    have old: "j \<in> set is' \<longleftrightarrow> same_partition (ks @ [k]) i j" if "i \<in> set is'" "j < ?n" for i j
      using E same_old [OF B [OF that(1)] that(2)] that by blast
    have new: "j \<in> set is' \<longleftrightarrow> same_partition (ks @ [k]) ?n j" if "opt_value_eq k k'" "j < ?n" for j
    proof
      assume "j \<in> set is'" then show "same_partition (ks @ [k]) ?n j" using same_new(2) [OF e] that by blast
    next
      assume "same_partition (ks @ [k]) ?n j"
      then have "opt_value_eq k (ks ! j)" using that by (simp add: same_partition_def nth_append)
      then have "opt_value_eq (ks ! hd is') (ks ! j)" using that E opt_value_eq_PER by blast
      then show "j \<in> set is'" using E that(2) by (auto simp: same_partition_def)
    qed
    have nn: "?n \<notin> set is'" using B by blast
    have nself: "same_partition (ks @ [k]) ?n ?n" by (simp add: same_partition_def)
    have srt: "sorted_wrt (<) (is' @ [?n])" using E B by (auto simp: sorted_wrt_append)
    have hd: "hd is' < ?n" using E B by auto
    show ?thesis
    proof (cases "opt_value_eq k k'")
      case True
      have "j \<in> set (is' @ [?n]) \<longleftrightarrow> same_partition (ks @ [k]) i j"
        if "i \<in> set (is' @ [?n])" "j < Suc ?n" for i j
        using that old [of i j] new [OF True, of j] same_new(1) [OF e, of i] True nself
        by (cases "j = ?n"; cases "i = ?n") auto
      with True srt E hd show ?thesis by (simp add: iss nth_append hd_append)
    next
      case False
      have "j \<in> set is' \<longleftrightarrow> same_partition (ks @ [k]) i j" if "i \<in> set is'" "j < Suc ?n" for i j
        using that old [of i j] same_new(1) [OF e, of i] False nn by (cases "j = ?n") auto
      with False E hd show ?thesis by (simp add: iss nth_append)
    qed
  next
    assume *: "k' = k \<and> is = [?n] \<and> (\<forall>k'' \<in> fst ` set ps. \<not> opt_value_eq k k'')"
    have "\<not> same_partition (ks @ [k]) ?n j" if "j < ?n" for j
    proof -
      have "j \<in> set (concat (map snd ps))" using that s by simp
      then obtain k'' is'' where "(k'', is'') \<in> set ps" "j \<in> set is''" by auto
      then show ?thesis using same_new(2) * by force
    qed
    with * show ?thesis by (auto simp: less_Suc_eq same_partition_def)
  qed
  then show ?thesis
    using part_push_pairwise [OF pw] dist idx unfolding part_inv_def by (auto simp: atLeastLessThanSuc)
qed

lemma part_inv_build: "part_inv (map (part_key ws) bs) (build_partitions ws bs)"
proof (induction bs rule: rev_induct)
  case (snoc b bs)
  then show ?case using part_inv_push by (fastforce simp: build_partitions_def enumerate_append_eq)
qed (simp add: part_inv_def build_partitions_def)

section \<open>Ranks\<close>

definition before_count :: "(value_t \<Rightarrow> value_t \<Rightarrow> ordering) \<Rightarrow> value_t list \<Rightarrow> value_t \<Rightarrow> nat" where
  "before_count c vs x = length (filter (\<lambda>y. c y x = Less) vs)"

text \<open>In a list sorted by the comparison, a key not equal to the one before it has rank its position.\<close>

lemma before_count_first:
  assumes p: "preorder_on_keys c K" and K: "set (pre @ x # ks) \<subseteq> K"
    and srt: "sorted_wrt (\<lambda>a b. c a b \<noteq> Greater) (pre @ x # ks)"
    and new: "pre \<noteq> [] \<Longrightarrow> c (last pre) x \<noteq> Equal"
  shows "before_count c (pre @ x # ks) x = length pre"
proof -
  note D = preorder_on_keysD [OF p]
  have x: "x \<in> K" using K by simp
  have "c y x = Less" if "y \<in> set pre" for y
  proof -
    have y: "y \<in> K" using that K by auto
    have yx: "c y x \<noteq> Greater" using srt that by (auto simp: sorted_wrt_append)
    have "c y x \<noteq> Equal"
    proof
      assume "c y x = Equal"
      then have xy: "c x y = Equal" using D(1) [OF y x] by simp
      have ne: "pre \<noteq> []" using that by auto
      then have l: "last pre \<in> K" "c (last pre) x \<noteq> Greater" using K srt by (auto simp: sorted_wrt_append)
      have "c y (last pre) \<noteq> Greater"
      proof (cases "y = last pre")
        case True
        then show ?thesis using D(2) [OF y y] by simp
      next
        case False
        obtain zs z where z: "pre = zs @ [z]" using ne by (metis rev_exhaust)
        with False that have "y \<in> set zs" by auto
        with srt show ?thesis by (auto simp: sorted_wrt_append z)
      qed
      with xy have "c x (last pre) \<noteq> Greater" using D(3) [OF x y l(1)] by simp
      then have "c (last pre) x \<noteq> Less" using D(1) [OF l(1) x] by auto
      with l(2) new [OF ne] show False by (cases "c (last pre) x") auto
    qed
    with yx show ?thesis by (cases "c y x") auto
  qed
  moreover have "c y x \<noteq> Less" if "y \<in> set (x # ks)" for y
  proof -
    have "y \<in> K" using that K by auto
    moreover have "c x y \<noteq> Greater" using that srt D(2) [OF x x] by (auto simp: sorted_wrt_append)
    ultimately show ?thesis using D(1) [OF x, of y] by auto
  qed
  ultimately show ?thesis by (simp add: before_count_def filter_empty_conv)
qed

lemma before_count_equal:
  assumes p: "preorder_on_keys c K" and K: "set vs \<subseteq> K" "x \<in> K" "y \<in> K" and eq: "c x y = Equal"
  shows "before_count c vs x = before_count c vs y"
proof -
  note D = preorder_on_keysD [OF p]
  have "c z x = Less \<longleftrightarrow> c z y = Less" if "z \<in> K" for z
  proof -
    have yx: "c y x = Equal" using D(1) [OF K(2,3)] eq by simp
    have "c z x = Less \<longleftrightarrow> c x z = Greater" "c z y = Less \<longleftrightarrow> c y z = Greater"
      using D(1) [OF that K(2)] D(1) [OF that K(3)] by simp_all
    moreover have "c x z \<noteq> Greater \<longleftrightarrow> c y z \<noteq> Greater"
      using D(3) [OF K(2,3) that] D(3) [OF K(3,2) that] eq yx by auto
    ultimately show ?thesis by blast
  qed
  then show ?thesis unfolding before_count_def using K(1) by (intro arg_cong [where f = length] filter_cong) auto
qed

lemma rank_loop_counts:
  assumes p: "preorder_on_keys c K" and veq: "\<And>a b. a \<in> K \<Longrightarrow> b \<in> K \<Longrightarrow> value_eq a b \<longleftrightarrow> c a b = Equal"
    and K: "set (pre @ ks) \<subseteq> K" and srt: "sorted_wrt (\<lambda>a b. c a b \<noteq> Greater) (pre @ ks)"
    and prev: "case prev of None \<Rightarrow> pre = [] | Some q \<Rightarrow> pre \<noteq> [] \<and> q \<in> K \<and> c q (last pre) = Equal \<and>
      rank = before_count c (pre @ ks) q + 1"
  shows "rank_loop (length pre + 1) rank prev ks =
    map (\<lambda>x. VInteger (i64_of_int (int (before_count c (pre @ ks) x + 1)))) ks"
  using K srt prev
proof (induction ks arbitrary: pre rank prev)
  case (Cons x ks)
  note D = preorder_on_keysD [OF p]
  have x: "x \<in> K" using Cons.prems(1) by simp
  let ?all = "pre @ x # ks"
  show ?case
  proof (cases "opt_value_eq prev (Some x)")
    case True
    then obtain q where q: "prev = Some q" "value_eq q x" by (cases prev) auto
    with Cons.prems(3) have qK: "q \<in> K" and r: "rank = before_count c ?all q + 1" by auto
    have qx: "c q x = Equal" using veq [OF qK x] q(2) by simp
    then have "before_count c ?all q = before_count c ?all x"
      using before_count_equal [OF p Cons.prems(1) qK x] by blast
    moreover have "rank_loop (length (pre @ [x]) + 1) rank prev ks =
        map (\<lambda>y. VInteger (i64_of_int (int (before_count c ((pre @ [x]) @ ks) y + 1)))) ks"
      using Cons.prems(1,2) qK qx r q(1) by (intro Cons.IH) simp_all
    ultimately show ?thesis using True r by simp
  next
    case False
    have "before_count c ?all x = length pre"
    proof (rule before_count_first [OF p Cons.prems(1,2)])
      assume ne: "pre \<noteq> []"
      then obtain q where q: "prev = Some q" "q \<in> K" "c q (last pre) = Equal"
        using Cons.prems(3) by (cases prev) auto
      show "c (last pre) x \<noteq> Equal"
      proof
        assume lx: "c (last pre) x = Equal"
        have l: "last pre \<in> K" using ne Cons.prems(1) by auto
        have "c q x \<noteq> Greater" using D(3) [OF q(2) l x] q lx by simp
        moreover have "c x q \<noteq> Greater"
          using D(3) [OF x l q(2)] D(1) [OF q(2) l] D(1) [OF l x] q lx by simp
        ultimately have "c q x = Equal" using D(1) [OF q(2) x] by (cases "c q x") auto
        with False q veq [OF q(2) x] show False by simp
      qed
    qed
    moreover have "rank_loop (length (pre @ [x]) + 1) (length pre + 1) (Some x) ks =
        map (\<lambda>y. VInteger (i64_of_int (int (before_count c ((pre @ [x]) @ ks) y + 1)))) ks"
      using Cons.prems(1,2) x D(2) [OF x x] calculation by (intro Cons.IH) simp_all
    ultimately show ?thesis using False by simp
  qed
qed simp

section \<open>What a window writes\<close>

text \<open>A window over query variables; and rows that agree on query variables.\<close>

definition plain_window :: "window_spec \<Rightarrow> bool" where
  "plain_window ws \<longleftrightarrow> prefix ''?'' (ws_order_by ws) \<and> pred_option (prefix ''?'') (ws_var ws) \<and>
     pred_option (prefix ''?'') (ws_partition_by ws)"

definition vars_agree :: "bindings list \<Rightarrow> bindings list \<Rightarrow> bool" where
  "vars_agree = list_all2 (\<lambda>b b'. \<forall>k. prefix ''?'' k \<longrightarrow> map_of b' k = map_of b k)"

lemma vars_agreeD:
  "vars_agree bs bs' \<Longrightarrow> length bs' = length bs"
  "vars_agree bs bs' \<Longrightarrow> i < length bs \<Longrightarrow> prefix ''?'' k \<Longrightarrow> map_of (bs' ! i) k = map_of (bs ! i) k"
  by (auto simp: vars_agree_def list_all2_conv_all_nth)

lemma vars_agree_trans: "vars_agree bs bs' \<Longrightarrow> vars_agree bs' bs'' \<Longrightarrow> vars_agree bs bs''"
  by (auto simp: vars_agree_def list_all2_conv_all_nth)

lemma keyed_rows_props [simp]:
  "length (keyed_rows ws bs is) = length is"
  "set (keyed_rows ws bs is) = (\<lambda>i. (get_or_null (bs ! i) (ws_order_by ws), i)) ` set is"
  "distinct is \<Longrightarrow> distinct (map snd (keyed_rows ws bs is))"
proof -
  show "length (keyed_rows ws bs is) = length is"
    "set (keyed_rows ws bs is) = (\<lambda>i. (get_or_null (bs ! i) (ws_order_by ws), i)) ` set is"
    by (simp_all add: keyed_rows_def)
  then have "snd ` set (keyed_rows ws bs is) = set is" by (simp add: image_image)
  then show "distinct is \<Longrightarrow> distinct (map snd (keyed_rows ws bs is))"
    by (metis \<open>length (keyed_rows ws bs is) = length is\<close> card_distinct distinct_card length_map set_map)
qed

lemma window_agree:
  assumes "vars_agree bs bs'" "plain_window ws"
  shows "build_partitions ws bs' = build_partitions ws bs"
    and "set is \<subseteq> {..<length bs} \<Longrightarrow> keyed_rows ws bs' is = keyed_rows ws bs is"
    and "set (map snd keyed) \<subseteq> {..<length bs} \<Longrightarrow> window_values reg ws bs' keyed = window_values reg ws bs keyed"
proof -
  note V = vars_agreeD [OF assms(1)]
  have "map (part_key ws) bs' = map (part_key ws) bs"
    using V assms(2) by (cases "ws_partition_by ws") (auto simp: part_key_def plain_window_def intro!: nth_equalityI)
  moreover have "build_partitions ws cs = fold (\<lambda>(i, k). part_push k i) (enumerate 0 (map (part_key ws) cs)) []" for cs
    by (auto simp: build_partitions_def enumerate_eq_zip zip_map2 fold_map o_def intro!: fold_cong)
  ultimately show "build_partitions ws bs' = build_partitions ws bs" by simp
  have g: "get_or_null (bs' ! i) k = get_or_null (bs ! i) k" if "i < length bs" "prefix ''?'' k" for i k
    using V(2) [OF that] by (simp add: get_or_null_def)
  show "set is \<subseteq> {..<length bs} \<Longrightarrow> keyed_rows ws bs' is = keyed_rows ws bs is"
    unfolding keyed_rows_def using g assms(2) by (intro arg_cong [where f = "sort_by _"] map_cong) (auto simp: plain_window_def)
  assume "set (map snd keyed) \<subseteq> {..<length bs}"
  then have "map (\<lambda>x. window_input ws (bs' ! snd x)) keyed = map (\<lambda>x. window_input ws (bs ! snd x)) keyed"
    using g assms(2) by (intro map_cong) (auto simp: window_input_def plain_window_def split: option.splits)
  then show "window_values reg ws bs' keyed = window_values reg ws bs keyed"
    unfolding window_values_def by presburger
qed

lemma length_rank_loop [simp]: "length (rank_loop m r p ks) = length ks"
  by (induction m r p ks rule: rank_loop.induct) auto

lemma length_running [simp]: "length (running ops acc vs) = length vs"
  by (induction ops acc vs rule: running.induct) (auto simp: Let_def)

lemma length_window_values: "window_values reg ws bs keyed = Ok vs \<Longrightarrow> length vs = length keyed"
  by (auto simp: window_values_def Let_def simp del: upt_Suc dest!: collect_map_eq_InrD
      split: window_func.splits option.splits agg_impl.splits)

lemma write_back_props:
  assumes "distinct (map fst ivs)" "fst ` set ivs \<subseteq> {..<length bs}"
  shows "length (write_back key ivs bs) = length bs"
    and "j < length bs \<Longrightarrow> write_back key ivs bs ! j =
      (case map_of ivs j of Some v \<Rightarrow> AList.update key v (bs ! j) | None \<Rightarrow> bs ! j)"
proof -
  have "length (write_back key ivs bs) = length bs \<and> (\<forall>j < length bs. write_back key ivs bs ! j =
      (case map_of ivs j of Some v \<Rightarrow> AList.update key v (bs ! j) | None \<Rightarrow> bs ! j))"
    using assms
  proof (induction ivs arbitrary: bs)
    case (Cons iv ivs)
    obtain i v where iv: "iv = (i, v)" by (cases iv)
    let ?bs = "bs[i := AList.update key v (bs ! i)]"
    have "write_back key (iv # ivs) bs = write_back key ivs ?bs" by (simp add: write_back_def iv)
    moreover have "map_of ivs i = None" using Cons.prems(1) by (auto simp: iv map_of_eq_None_iff)
    moreover have "distinct (map fst ivs)" "fst ` set ivs \<subseteq> {..<length ?bs}" using Cons.prems by (auto simp: iv)
    note Cons.IH [OF this]
    ultimately show ?case using Cons.prems by (auto simp: iv nth_list_update split: option.splits)
  qed (simp add: write_back_def)
  then show "length (write_back key ivs bs) = length bs"
    and "j < length bs \<Longrightarrow> write_back key ivs bs ! j =
      (case map_of ivs j of Some v \<Rightarrow> AList.update key v (bs ! j) | None \<Rightarrow> bs ! j)" by blast+
qed

lemma run_partitions_frame:
  assumes "run_partitions reg ws key iss bs = Ok bs'" "distinct (concat iss)" "set (concat iss) \<subseteq> {..<length bs}"
  shows "length bs' = length bs" "k \<noteq> key \<Longrightarrow> j < length bs \<Longrightarrow> map_of (bs' ! j) k = map_of (bs ! j) k"
    and "j < length bs \<Longrightarrow> j \<notin> set (concat iss) \<Longrightarrow> bs' ! j = bs ! j"
proof -
  have "length bs' = length bs \<and> (\<forall>j < length bs. (\<forall>k. k \<noteq> key \<longrightarrow> map_of (bs' ! j) k = map_of (bs ! j) k) \<and>
      (j \<notin> set (concat iss) \<longrightarrow> bs' ! j = bs ! j))"
    using assms
  proof (induction iss arbitrary: bs)
    case (Cons "is" iss)
    let ?keyed = "keyed_rows ws bs is"
    obtain vs where vs: "window_values reg ws bs ?keyed = Ok vs"
      and run: "run_partitions reg ws key iss (write_back key (zip (map snd ?keyed) vs) bs) = Ok bs'"
      using Cons.prems(1) by (auto simp: Let_def and_then_eq_Inr)
    let ?ivs = "zip (map snd ?keyed) vs"
    have len: "length vs = length is" using length_window_values [OF vs] by simp
    have fst: "map fst ?ivs = map snd ?keyed" by (simp add: len)
    have "set (map snd ?keyed) = set is" by (simp add: image_image)
    then have fset: "fst ` set ?ivs = set is" by (metis fst set_map)
    have W: "distinct (map fst ?ivs)" "fst ` set ?ivs \<subseteq> {..<length bs}"
      using Cons.prems(2,3) unfolding fst fset by auto
    note wb = write_back_props [OF W]
    have upd: "map_of (write_back key ?ivs bs ! j) k = map_of (bs ! j) k" if "j < length bs" "k \<noteq> key" for j k
      using wb(2) [OF that(1)] that(2) by (simp add: update_conv' split: option.splits)
    have out: "write_back key ?ivs bs ! j = bs ! j" if "j < length bs" "j \<notin> set is" for j
    proof -
      have "map_of ?ivs j = None" using that(2) fset by (simp add: map_of_eq_None_iff)
      with wb(2) [OF that(1)] show ?thesis by simp
    qed
    have "distinct (concat iss)" "set (concat iss) \<subseteq> {..<length (write_back key ?ivs bs)}"
      using Cons.prems(2,3) wb(1) by auto
    from Cons.IH [OF run this] show ?case using upd out wb(1) by auto
  qed simp
  then show "length bs' = length bs" "k \<noteq> key \<Longrightarrow> j < length bs \<Longrightarrow> map_of (bs' ! j) k = map_of (bs ! j) k"
    and "j < length bs \<Longrightarrow> j \<notin> set (concat iss) \<Longrightarrow> bs' ! j = bs ! j" by blast+
qed

lemma vars_agreeI:
  "length bs' = length bs \<Longrightarrow> (\<And>j k. j < length bs \<Longrightarrow> prefix ''?'' k \<Longrightarrow> map_of (bs' ! j) k = map_of (bs ! j) k) \<Longrightarrow>
   vars_agree bs bs'"
  by (simp add: vars_agree_def list_all2_conv_all_nth)

lemma run_partitions_values:
  assumes "run_partitions reg ws key iss bs = Ok bs'" "distinct (concat iss)" "set (concat iss) \<subseteq> {..<length bs}"
    and "plain_window ws" "\<not> prefix ''?'' key" "is \<in> set iss" "p < length is"
  shows "\<exists>vs. window_values reg ws bs (keyed_rows ws bs is) = Ok vs \<and>
    map_of (bs' ! snd (keyed_rows ws bs is ! p)) key = Some (vs ! p)"
  using assms
proof (induction iss arbitrary: bs)
  case (Cons is0 iss)
  let ?keyed = "keyed_rows ws bs is0"
  obtain vs where vs: "window_values reg ws bs ?keyed = Ok vs"
    and run: "run_partitions reg ws key iss (write_back key (zip (map snd ?keyed) vs) bs) = Ok bs'"
    using Cons.prems(1) by (auto simp: Let_def and_then_eq_Inr)
  let ?bs = "write_back key (zip (map snd ?keyed) vs) bs"
  have one: "run_partitions reg ws key [is0] bs = Ok ?bs" by (simp add: Let_def vs)
  note fr = run_partitions_frame [OF one]
  have d: "distinct is0" "set is0 \<subseteq> {..<length bs}" "distinct (concat iss)" "set (concat iss) \<subseteq> {..<length bs}"
    "set is0 \<inter> set (concat iss) = {}" using Cons.prems(2,3) by auto
  have len: "length ?bs = length bs" "length vs = length is0" using fr(1) d length_window_values [OF vs] by auto
  have va: "vars_agree bs ?bs"
    using fr(2) d Cons.prems(5) len by (intro vars_agreeI) auto
  show ?case
  proof (cases "is = is0")
    case True
    let ?j = "snd (?keyed ! p)"
    have p: "p < length is0" using Cons.prems(7) True by simp
    have "?keyed ! p \<in> set ?keyed" using p by (intro nth_mem) simp
    then have j: "?j \<in> set is0" by auto
    then have jl: "?j < length bs" "?j \<notin> set (concat iss)" using d by auto
    have dk: "distinct (map snd ?keyed)" using d(1) by simp
    have "(?j, vs ! p) \<in> set (zip (map snd ?keyed) vs)"
      using p len by (auto simp: set_zip intro!: exI [of _ p])
    then have "map_of (zip (map snd ?keyed) vs) ?j = Some (vs ! p)"
      using dk by (intro map_of_is_SomeI) (simp_all add: len)
    moreover have "fst ` set (zip (map snd ?keyed) vs) \<subseteq> {..<length bs}"
      using d(2) by (auto dest!: set_zip_leftD subsetD)
    ultimately have "map_of (?bs ! ?j) key = Some (vs ! p)"
      using write_back_props(2) [of "zip (map snd ?keyed) vs" bs ?j key] dk jl(1) by (simp add: len update_conv')
    moreover have "bs' ! ?j = ?bs ! ?j"
      using run_partitions_frame(3) [OF run d(3)] d(4) jl len by simp
    ultimately show ?thesis using vs True by simp
  next
    case False
    then have i: "is \<in> set iss" using Cons.prems(6) by simp
    then have sub: "set is \<subseteq> {..<length bs}" using d(4) by auto
    have "\<exists>vs. window_values reg ws ?bs (keyed_rows ws ?bs is) = Ok vs \<and>
        map_of (bs' ! snd (keyed_rows ws ?bs is ! p)) key = Some (vs ! p)"
      using run d(3,4) len Cons.prems(4,5,7) i by (intro Cons.IH) simp_all
    moreover have "keyed_rows ws ?bs is = keyed_rows ws bs is" by (rule window_agree(2) [OF va Cons.prems(4) sub])
    moreover have "window_values reg ws ?bs (keyed_rows ws bs is) = window_values reg ws bs (keyed_rows ws bs is)"
      using sub by (intro window_agree(3) [OF va Cons.prems(4)]) auto
    ultimately show ?thesis by simp
  qed
qed simp

lemma partition_indices:
  "distinct (concat (map snd (build_partitions ws bs)))"
  "set (concat (map snd (build_partitions ws bs))) = {..<length bs}"
  using part_inv_build [of ws bs] by (auto simp: part_inv_def)

lemma window_step_frame:
  assumes "run_partitions reg ws key (map snd (build_partitions ws bs)) bs = Ok bs'"
  shows "length bs' = length bs" "k \<noteq> key \<Longrightarrow> j < length bs \<Longrightarrow> map_of (bs' ! j) k = map_of (bs ! j) k"
  using run_partitions_frame [OF assms] partition_indices [of ws bs] by auto

lemma window_loop_frame:
  assumes "window_loop reg iss bs = Ok bs'"
  shows "length bs' = length bs \<and>
    (\<forall>j < length bs. \<forall>k. k \<notin> win_key ` fst ` set iss \<longrightarrow> map_of (bs' ! j) k = map_of (bs ! j) k)"
  using assms
proof (induction iss arbitrary: bs)
  case (Cons p iss)
  obtain i s where p: "p = (i, s)" by (cases p)
  show ?case
  proof (cases s)
    case (FWindow ws)
    obtain bs1 where step: "run_partitions reg ws (win_key i) (map snd (build_partitions ws bs)) bs = Ok bs1"
      and rest: "window_loop reg iss bs1 = Ok bs'"
      using Cons.prems by (auto simp: p FWindow and_then_eq_Inr)
    from Cons.IH [OF rest] window_step_frame [OF step] show ?thesis by (auto simp: p)
  qed (use Cons in \<open>auto simp: p\<close>)
qed simp

lemma window_loop_values:
  assumes "window_loop reg iss bs = Ok bs'" "distinct (map fst iss)" "(i, FWindow ws) \<in> set iss" "plain_window ws" "r < length bs"
  shows "\<exists>is p vs. is \<in> snd ` set (build_partitions ws bs) \<and> p < length is \<and>
    window_values reg ws bs (keyed_rows ws bs is) = Ok vs \<and> snd (keyed_rows ws bs is ! p) = r \<and>
    map_of (bs' ! r) (win_key i) = Some (vs ! p)"
  using assms
proof (induction iss arbitrary: bs)
  case (Cons q iss)
  obtain j s where q: "q = (j, s)" by (cases q)
  have d: "distinct (map fst iss)" using Cons.prems(2) by simp
  show ?case
  proof (cases "q = (i, FWindow ws)")
    case True
    obtain bs1 where step: "run_partitions reg ws (win_key i) (map snd (build_partitions ws bs)) bs = Ok bs1"
      and rest: "window_loop reg iss bs1 = Ok bs'"
      using Cons.prems(1) by (auto simp: True and_then_eq_Inr)
    have "r \<in> set (concat (map snd (build_partitions ws bs)))"
      using Cons.prems(5) by (simp only: partition_indices lessThan_iff)
    then obtain "is" where i: "is \<in> set (map snd (build_partitions ws bs))" "r \<in> set is" by auto
    then have "r \<in> set (map snd (keyed_rows ws bs is))" by (simp add: image_image)
    then obtain p where "p < length (map snd (keyed_rows ws bs is))" "map snd (keyed_rows ws bs is) ! p = r"
      by (metis in_set_conv_nth)
    then have p: "p < length is" "snd (keyed_rows ws bs is ! p) = r" by simp_all
    obtain vs where "window_values reg ws bs (keyed_rows ws bs is) = Ok vs" "map_of (bs1 ! r) (win_key i) = Some (vs ! p)"
      using run_partitions_values [OF step _ _ Cons.prems(4) _ i(1) p(1)] partition_indices [of ws bs] p(2) by auto
    moreover have "map_of (bs' ! r) (win_key i) = map_of (bs1 ! r) (win_key i)"
    proof -
      have "win_key i \<notin> win_key ` fst ` set iss" using Cons.prems(2) True by (auto simp: rev_image_eqI)
      then show ?thesis
        using window_loop_frame [OF rest] window_step_frame(1) [OF step] Cons.prems(5) by auto
    qed
    ultimately show ?thesis using i p by (auto simp: image_iff) 
  next
    case False
    then have mem: "(i, FWindow ws) \<in> set iss" using Cons.prems(3) by simp
    obtain bs1 where rest: "window_loop reg iss bs1 = Ok bs'" and va: "vars_agree bs bs1"
    proof (cases s)
      case (FWindow ws')
      obtain bs1 where step: "run_partitions reg ws' (win_key j) (map snd (build_partitions ws' bs)) bs = Ok bs1"
        and "window_loop reg iss bs1 = Ok bs'"
        using Cons.prems(1) by (auto simp: q FWindow and_then_eq_Inr)
      moreover have "vars_agree bs bs1"
        using window_step_frame [OF step] by (intro vars_agreeI) (blast, metis column_keys(4))
      ultimately show ?thesis using that by blast
    qed (use Cons.prems(1) that in \<open>auto simp: q vars_agree_def list_all2_conv_all_nth\<close>)
    have len: "length bs1 = length bs" using va by (rule vars_agreeD(1))
    have parts: "build_partitions ws bs1 = build_partitions ws bs" by (rule window_agree(1) [OF va Cons.prems(4)])
    obtain "is" p vs where W: "is \<in> snd ` set (build_partitions ws bs)" "p < length is"
      "window_values reg ws bs1 (keyed_rows ws bs1 is) = Ok vs" "snd (keyed_rows ws bs1 is ! p) = r"
      "map_of (bs' ! r) (win_key i) = Some (vs ! p)"
      using Cons.IH [OF rest d mem Cons.prems(4)] Cons.prems(5) len parts by auto
    have sub: "set is \<subseteq> {..<length bs}" using W(1) partition_indices(2) [of ws bs] by auto
    have keyed: "keyed_rows ws bs1 is = keyed_rows ws bs is" by (rule window_agree(2) [OF va Cons.prems(4) sub])
    have "window_values reg ws bs1 (keyed_rows ws bs is) = window_values reg ws bs (keyed_rows ws bs is)"
      using sub by (intro window_agree(3) [OF va Cons.prems(4)]) auto
    then show ?thesis using W by (auto simp: keyed)
  qed
qed simp

section \<open>Ranks and row numbers\<close>

definition order_key :: "window_spec \<Rightarrow> bindings \<Rightarrow> value_t" where
  "order_key ws b = get_or_null b (ws_order_by ws)"

lemma keyed_rows_sorted:
  assumes "comparable (map (order_key ws) bs)" "sorted_wrt (<) is" "set is \<subseteq> {..<length bs}"
  shows "sorted_wrt (precedes (window_cmp (ws_order ws))) (keyed_rows ws bs is)"
proof -
  let ?xs = "map (\<lambda>i. (get_or_null (bs ! i) (ws_order_by ws), i)) is"
  have sub: "fst ` set ?xs \<subseteq> set (map (order_key ws) bs)" using assms(3) by (auto simp: order_key_def)
  have "preorder_on_keys (window_cmp (ws_order ws)) (fst ` set ?xs)"
    using comparable_preorder(1) [OF assms(1)] sub unfolding preorder_on_keys_def by (meson subsetD)
  moreover have "sorted_wrt (<) (map snd ?xs)" using assms(2) by (simp add: o_def)
  ultimately show ?thesis unfolding keyed_rows_def by (rule sort_by_precedes)
qed

lemma card_keyed: "card {x \<in> set (keyed_rows ws bs is). P x} = card {q \<in> set is. P (order_key ws (bs ! q), q)}"
proof -
  have "{x \<in> set (keyed_rows ws bs is). P x} =
      (\<lambda>q. (order_key ws (bs ! q), q)) ` {q \<in> set is. P (order_key ws (bs ! q), q)}"
    by (auto simp: order_key_def)
  then show ?thesis by (simp add: card_image inj_on_def)
qed

lemma length_keyed:
  assumes "distinct is"
  shows "length (filter P (keyed_rows ws bs is)) = card {q \<in> set is. P (order_key ws (bs ! q), q)}"
proof -
  have "distinct (filter P (keyed_rows ws bs is))"
    using keyed_rows_props(3) [OF assms, of ws bs] by (simp add: distinct_map)
  then have "length (filter P (keyed_rows ws bs is)) = card {x \<in> set (keyed_rows ws bs is). P x}"
    by (simp only: distinct_card [symmetric] set_filter)
  also have "\<dots> = card {q \<in> set is. P (order_key ws (bs ! q), q)}" by (rule card_keyed)
  finally show ?thesis .
qed

lemma precedes_asym:
  assumes "preorder_on_keys c K" "fst x \<in> K" "fst y \<in> K" "precedes c x y"
  shows "\<not> precedes c y x"
  using preorder_on_keysD(1) [OF assms(1-3)] assms(4) by (auto simp: precedes_def)

text \<open>
  C22. Window ranks. When the order keys of the rows can be compared (all integers, all strings
  or all floats other than NaN), the rank a window gives a row is one more than the number of
  rows of its partition with a key strictly before its own, so ties share a rank and leave a
  gap; its row number also counts the ties that come earlier among the rows. Neither depends
  on the order in which partitions are visited or on other columns of the query.
\<close>

theorem window_ranks:
  assumes "apply_window_functions reg specs bs = Ok bs'" and "i < length specs" and "specs ! i = FWindow ws"
    and "plain_window ws" and "comparable (map (order_key ws) bs)" and "r < length bs"
  shows "(ws_func ws = WRank \<longrightarrow> map_of (bs' ! r) (win_key i) = Some (VInteger (i64_of_int (1 + int (card
      {q. q < length bs \<and> same_partition (map (part_key ws) bs) r q \<and>
          window_cmp (ws_order ws) (order_key ws (bs ! q)) (order_key ws (bs ! r)) = Less}))))) \<and>
    (ws_func ws = WRowNumber \<longrightarrow> map_of (bs' ! r) (win_key i) = Some (VInteger (i64_of_int (1 + int (card
      {q. q < length bs \<and> same_partition (map (part_key ws) bs) r q \<and>
          precedes (window_cmp (ws_order ws)) (order_key ws (bs ! q), q) (order_key ws (bs ! r), r)})))))"
proof -
  let ?c = "window_cmp (ws_order ws)" and ?K = "set (map (order_key ws) bs)" and ?k = "\<lambda>q. order_key ws (bs ! q)"
  have "(i, FWindow ws) \<in> set (enumerate 0 specs)"
    using assms(2,3) by (simp add: in_set_enumerate_eq)
  then obtain "is" p vs where mem_is: "is \<in> snd ` set (build_partitions ws bs)" and p: "p < length is"
    and vs: "window_values reg ws bs (keyed_rows ws bs is) = Ok vs" and r: "snd (keyed_rows ws bs is ! p) = r"
    and win: "map_of (bs' ! r) (win_key i) = Some (vs ! p)"
    using window_loop_values [of reg "enumerate 0 specs" bs bs' i ws r] assms(1,4,6)
    by (auto simp: apply_window_functions_def)
  let ?keyed = "keyed_rows ws bs is"
  have at: "?keyed ! p = (?k r, r)"
  proof -
    have "?keyed ! p \<in> set ?keyed" using p by (intro nth_mem) simp
    then show ?thesis using r by (auto simp: order_key_def)
  qed
  have ri: "r \<in> set is"
    using at p keyed_rows_props(2) [of ws bs "is"] nth_mem [of p ?keyed] by auto
  obtain k where kis: "(k, is) \<in> set (build_partitions ws bs)" using mem_is by auto
  then have srt: "sorted_wrt (<) is" and mem: "\<And>q. q < length bs \<Longrightarrow> q \<in> set is \<longleftrightarrow> same_partition (map (part_key ws) bs) r q"
    using part_inv_build [of ws bs] ri unfolding part_inv_def by (auto dest!: bspec)
  have sub: "set is \<subseteq> {..<length bs}" using mem_is partition_indices(2) [of ws bs] by auto
  have d: "distinct is" using srt by (simp add: strict_sorted_iff)
  have part: "{q \<in> set is. Q q} = {q. q < length bs \<and> same_partition (map (part_key ws) bs) r q \<and> Q q}" for Q
    using sub mem by auto
  note pre = comparable_preorder(1) [OF assms(5), of "ws_order ws"] comparable_preorder(2) [OF assms(5), where ord = "ws_order ws"]
  have K: "fst ` set ?keyed \<subseteq> ?K" using sub by (auto simp: order_key_def)
  note S = keyed_rows_sorted [OF assms(5) srt sub]
  have "vs ! p = VInteger (i64_of_int (1 + int (card {q \<in> set is. ?c (?k q) (?k r) = Less})))" if "ws_func ws = WRank"
  proof -
    have "sorted_wrt (\<lambda>a b. ?c a b \<noteq> Greater) (map fst ?keyed)"
      using S unfolding sorted_wrt_map by (rule sorted_wrt_mono_rel [rotated]) (auto simp: precedes_def)
    then have loop: "rank_loop (length ([] :: value_t list) + 1) 1 None (map fst ?keyed) =
        map (\<lambda>x. VInteger (i64_of_int (int (before_count ?c ([] @ map fst ?keyed) x + 1)))) (map fst ?keyed)"
      using K pre(2) by (intro rank_loop_counts [OF pre(1)]) auto
    have count: "before_count ?c (map fst ?keyed) (?k r) = card {q \<in> set is. ?c (?k q) (?k r) = Less}"
      using length_keyed [OF d, of "\<lambda>x. ?c (fst x) (?k r) = Less" ws bs]
      by (simp add: before_count_def filter_map o_def)
    have "vs = rank_loop 1 1 None (map fst ?keyed)" using vs that by (simp add: window_values_def)
    also have "\<dots> ! p = VInteger (i64_of_int (int (before_count ?c (map fst ?keyed) (?k r) + 1)))"
      using loop p at by simp
    finally show ?thesis unfolding count by (simp add: algebra_simps)
  qed
  moreover have "vs ! p = VInteger (i64_of_int (1 + int (card {q \<in> set is. precedes ?c (?k q, q) (?k r, r)})))"
    if "ws_func ws = WRowNumber"
  proof -
    have "\<not> precedes ?c y x" if "x \<in> set ?keyed" "y \<in> set ?keyed" "precedes ?c x y" for x y
      using precedes_asym [OF pre(1) _ _ that(3)] K that(1,2) by (meson image_subset_iff)
    then have "card {x \<in> set ?keyed. precedes ?c x (?keyed ! p)} = p"
      using p by (intro sorted_position [OF S]) (blast, simp)
    moreover have "card {x \<in> set ?keyed. precedes ?c x (?k r, r)} = card {q \<in> set is. precedes ?c (?k q, q) (?k r, r)}"
      by (rule card_keyed)
    moreover have "row_number (p + 1) = Ok (vs ! p)"
      using vs that collect_map_eq_InrD [of row_number "[1..<length ?keyed + 1]" vs] p
      by (simp add: window_values_def del: upt_Suc)
    ultimately show ?thesis using at by (simp add: row_number_def split: if_splits)
  qed
  ultimately show ?thesis using win part by simp
qed

definition sample_window :: window_spec where
  "sample_window = \<lparr>ws_func = WRank, ws_var = None, ws_partition_by = None, ws_order_by = ''?x'', ws_order = Asc\<rparr>"

definition sample_rows :: "bindings list" where
  "sample_rows = map (\<lambda>n. [(''?x'', VInteger (i64_of_int n))]) [7, 3, 7, 5]"

theorem window_ranks_witness:
  "\<exists>bs'. apply_window_functions with_builtins [FWindow sample_window] sample_rows = Ok bs' \<and>
     map_of (bs' ! 2) (win_key 0) = Some (VInteger (i64_of_int (1 + int (card
      {q. q < length sample_rows \<and> same_partition (map (part_key sample_window) sample_rows) 2 q \<and>
          window_cmp (ws_order sample_window) (order_key sample_window (sample_rows ! q))
            (order_key sample_window (sample_rows ! 2)) = Less}))))"
proof -
  obtain bs' where run: "apply_window_functions with_builtins [FWindow sample_window] sample_rows = Ok bs'"
    by (simp add: apply_window_functions_def sample_window_def sample_rows_def Let_def window_values_def
        build_partitions_def part_key_def)
  have "comparable (map (order_key sample_window) sample_rows)"
    by (simp add: comparable_def sample_rows_def order_key_def sample_window_def get_or_null_def)
  moreover have "plain_window sample_window" "ws_func sample_window = WRank"
    by (simp_all add: plain_window_def sample_window_def)
  ultimately show ?thesis
    using window_ranks [OF run, of 0 sample_window 2] run by (simp add: sample_rows_def)
qed

text \<open>
  The comparison the windows sort with is no total order on values of different types: two
  integers are ordered, but each of them compares as equal to a string or to nil, so equality
  is not transitive. Rust's sort leaves the order of such rows unspecified and may panic.
\<close>

lemma window_order_not_total:
  assumes "x < y"
  shows "fn_value_cmp (VInteger x) (VInteger y) = Less \<and>
    fn_value_cmp (VInteger x) VNull = Equal \<and> fn_value_cmp VNull (VInteger y) = Equal \<and>
    \<not> preorder_on_keys (window_cmp ord) {VInteger x, VInteger y, VNull}"
proof -
  have c: "fn_value_cmp (VInteger x) (VInteger y) = Less" "fn_value_cmp (VInteger x) VNull = Equal"
    "fn_value_cmp VNull (VInteger y) = Equal" "fn_value_cmp (VInteger y) VNull = Equal"
    "fn_value_cmp VNull (VInteger x) = Equal" "fn_value_cmp (VInteger y) (VInteger x) = Greater"
    using assms by (auto simp: fn_value_cmp_def cmp_of_def)
  then have "\<exists>a \<in> {VInteger x, VInteger y}. \<exists>b \<in> {VInteger x, VInteger y}.
      window_cmp ord a VNull \<noteq> Greater \<and> window_cmp ord VNull b \<noteq> Greater \<and> window_cmp ord a b = Greater"
    by (cases ord) (auto simp: window_cmp_def)
  then have "\<not> preorder_on_keys (window_cmp ord) {VInteger x, VInteger y, VNull}"
    unfolding preorder_on_keys_def by blast
  with c show ?thesis by blast
qed

end
