(* ===== verification/Negation.thy ===== *)
theory Negation
  imports Expressions
begin

text \<open>
  Negation: substitution of a row into a pattern and the test of \<^verbatim>\<open>not-join\<close> bodies
  (\<^verbatim>\<open>src/query/datalog/evaluator.rs\<close>), and the \<^verbatim>\<open>not\<close> and \<^verbatim>\<open>not-join\<close> filters of
  \<^verbatim>\<open>src/query/datalog/executor.rs\<close>, with the precomputed exclusion sets of queries without
  rules and the per-row tests of queries with rules.

  A \<^verbatim>\<open>HashSet\<close> of keys is a list searched with the equality of values. Every function that
  evaluates an expression returns a result, for the panic an expression can raise.

  Shown: the exclusion set decides as the per-row test does, and the one value on which the
  two differ.
\<close>

section \<open>Substituting a row\<close>

fun ev_value_to_edn :: "value_t \<Rightarrow> edn_value" where
  "ev_value_to_edn (VString s) = EString s"
| "ev_value_to_edn (VInteger i) = EInteger i"
| "ev_value_to_edn (VFloat f) = EFloat f"
| "ev_value_to_edn (VBoolean b) = EBoolean b"
| "ev_value_to_edn (VRef u) = Uuid u"
| "ev_value_to_edn (VKeyword k) = Keyword k"
| "ev_value_to_edn VNull = Symbol ''nil''"

definition substitute_value :: "bindings \<Rightarrow> edn_value \<Rightarrow> edn_value" where
  "substitute_value b v = (case as_variable v of
      Some var \<Rightarrow> (case map_of b var of Some x \<Rightarrow> ev_value_to_edn x | None \<Rightarrow> v)
    | None \<Rightarrow> v)"

definition substitute_pattern :: "bindings \<Rightarrow> pattern \<Rightarrow> pattern" where
  "substitute_pattern b p =
     p\<lparr>pat_entity := substitute_value b (pat_entity p),
       pat_attribute := (case pat_attribute p of Real e \<Rightarrow> Real (substitute_value b e) | Pseudo ps \<Rightarrow> Pseudo ps),
       pat_value := substitute_value b (pat_value p)\<rparr>"

definition rule_invocation_to_pattern :: "string \<Rightarrow> edn_value list \<Rightarrow> pattern result" where
  "rule_invocation_to_pattern pred args = (case args of
      [a0] \<Rightarrow> Ok (pattern_new a0 (Keyword ('':'' @ pred)) (Symbol ''?_rule_value''))
    | [a0, a1] \<Rightarrow> Ok (pattern_new a0 (Keyword ('':'' @ pred)) a1)
    | _ \<Rightarrow> Err (Internal 28))"

text \<open>\<^verbatim>\<open>entry(k).or_insert(v)\<close> for every entry of \<open>outer\<close>.\<close>

definition or_insert_all :: "bindings \<Rightarrow> bindings \<Rightarrow> bindings" where
  "or_insert_all outer nb = fold (\<lambda>(k, v) r. if map_of r k = None then AList.update k v r else r) outer nb"

definition body_patterns :: "where_clause list \<Rightarrow> pattern list" where
  "body_patterns cs = List.map_filter (\<lambda>c. case c of PatternC p \<Rightarrow> Some p | _ \<Rightarrow> None) cs"

definition body_exprs :: "where_clause list \<Rightarrow> where_clause list" where
  "body_exprs cs = filter is_expr cs"

section \<open>Bodies against one row\<close>

definition result_to_option :: "'a result \<Rightarrow> 'a option" where
  "result_to_option r = (case r of Inr x \<Rightarrow> Some x | Inl _ \<Rightarrow> None)"

definition body_rows :: "uuid_ops \<Rightarrow> fact list \<Rightarrow> value_t \<Rightarrow> pattern list \<Rightarrow> bindings \<Rightarrow> bindings list" where
  "body_rows U fs vat ps outer =
     (if ps = [] then [outer]
      else map (or_insert_all outer) (match_patterns U (from_slice_with_valid_at fs vat) ps))"

definition evaluate_not_join ::
    "eval_env \<Rightarrow> string list \<Rightarrow> where_clause list \<Rightarrow> bindings \<Rightarrow> fact list \<Rightarrow> value_t \<Rightarrow> bool result" where
  "evaluate_not_join E join_vars cs b fs vat =
     (let partial = extend_row [] (List.map_filter (\<lambda>v. map_option (Pair v) (map_of b v)) join_vars);
          substituted = List.map_filter (\<lambda>c. case c of
              PatternC p \<Rightarrow> Some (substitute_pattern partial p)
            | RuleInvocation pred args \<Rightarrow>
                map_option (substitute_pattern partial) (result_to_option (rule_invocation_to_pattern pred args))
            | _ \<Rightarrow> None) cs
      in and_then (apply_expr_clauses_in_evaluator E (body_rows (uuids E) fs vat substituted partial) (body_exprs cs))
           (\<lambda>rows. Ok (rows \<noteq> [])))"

text \<open>\<^verbatim>\<open>unwrap_or_default\<close>: an error is no row; a panic stays a panic.\<close>

definition unwrap_or_default :: "'a list result \<Rightarrow> 'a list result" where
  "unwrap_or_default r = (case r of Inl e \<Rightarrow> if e = Panic then Err Panic else Ok [] | Inr xs \<Rightarrow> Ok xs)"

definition not_body_matches ::
    "eval_env \<Rightarrow> where_clause list \<Rightarrow> bindings \<Rightarrow> fact list \<Rightarrow> value_t \<Rightarrow> bool result" where
  "not_body_matches E body outer fs vat =
     and_then (unwrap_or_default (apply_expr_clauses E
         (body_rows (uuids E) fs vat (map (substitute_pattern outer) (body_patterns body)) outer) body))
       (\<lambda>rows. Ok (rows \<noteq> []))"

definition resolve_arg :: "bindings \<Rightarrow> edn_value \<Rightarrow> edn_value" where
  "resolve_arg b a = (case a of
      Symbol s \<Rightarrow> if prefix ''?'' s then (case map_of b s of Some v \<Rightarrow> value_to_edn v | None \<Rightarrow> a) else a
    | _ \<Rightarrow> a)"

definition not_clause_violated_via_rules ::
    "eval_env \<Rightarrow> where_clause list \<Rightarrow> bindings \<Rightarrow> fact list \<Rightarrow> value_t \<Rightarrow> bool result" where
  "not_clause_violated_via_rules E body b fs vat =
     (let substituted = List.map_filter (\<lambda>c. case c of
              PatternC p \<Rightarrow> Some (substitute_pattern b p)
            | RuleInvocation pred args \<Rightarrow>
                map_option (substitute_pattern b)
                  (result_to_option (rule_invocation_to_pattern pred (map (resolve_arg b) args)))
            | _ \<Rightarrow> None) body
      in and_then (unwrap_or_default (apply_expr_clauses E (body_rows (uuids E) fs vat substituted b) body))
           (\<lambda>rows. Ok (rows \<noteq> [])))"

section \<open>Filtering rows\<close>

definition filter_result :: "('a \<Rightarrow> bool result) \<Rightarrow> 'a list \<Rightarrow> 'a list result" where
  "filter_result P = filter_map_result (\<lambda>x. and_then (P x) (\<lambda>b. Ok (if b then Some x else None)))"

text \<open>Keeping the rows a test does not reject.\<close>

definition reject_rows :: "(bindings \<Rightarrow> bool result) \<Rightarrow> bindings list \<Rightarrow> bindings list result" where
  "reject_rows test = filter_result (\<lambda>b. and_then (test b) (\<lambda>x. Ok (\<not> x)))"

definition apply_not_clause_derived ::
    "eval_env \<Rightarrow> bindings list \<Rightarrow> where_clause list \<Rightarrow> fact list \<Rightarrow> value_t \<Rightarrow> bindings list result" where
  "apply_not_clause_derived E bs body fs vat =
     reject_rows (\<lambda>b. not_clause_violated_via_rules E body b fs vat) bs"

definition apply_not_join_clause_derived ::
    "eval_env \<Rightarrow> bindings list \<Rightarrow> string list \<Rightarrow> where_clause list \<Rightarrow> fact list \<Rightarrow> value_t \<Rightarrow> bindings list result" where
  "apply_not_join_clause_derived E bs join_vars cs fs vat =
     reject_rows (\<lambda>b. evaluate_not_join E join_vars cs b fs vat) bs"

section \<open>Exclusion sets\<close>

type_synonym key = "(string \<times> value_t) list"

fun normalize_value :: "uuid_ops \<Rightarrow> value_t \<Rightarrow> value_t" where
  "normalize_value U (VKeyword k) = VRef (keyword_id U k)"
| "normalize_value U v = v"

definition key_eq :: "key \<Rightarrow> key \<Rightarrow> bool" where
  "key_eq = list_all2 (\<lambda>(k, v) (k', v'). k = k' \<and> value_eq v v')"

definition has_key :: "key list \<Rightarrow> key \<Rightarrow> bool" where
  "has_key ks k \<longleftrightarrow> list_ex (key_eq k) ks"

definition normalized :: "uuid_ops \<Rightarrow> bindings \<Rightarrow> key" where
  "normalized U b = map (\<lambda>(k, v). (k, normalize_value U v)) b"

text \<open>The entries of a row for the given variables, in their order.\<close>

definition project :: "uuid_ops \<Rightarrow> string list \<Rightarrow> bindings \<Rightarrow> key" where
  "project U vars b = List.map_filter (\<lambda>v. map_option (\<lambda>x. (v, normalize_value U x)) (map_of b v)) vars"

definition exclusion_key :: "uuid_ops \<Rightarrow> bindings \<Rightarrow> key" where
  "exclusion_key U b = sort_key fst (normalized U (filter (\<lambda>(k, v). \<not> prefix ''__f'' k) b))"

text \<open>
  The rows of a body bind the same variables, so any member of the exclusion set serves as
  the sample that names them; the model takes the first.
\<close>

definition apply_not_clause ::
    "eval_env \<Rightarrow> bindings list \<Rightarrow> where_clause list \<Rightarrow> fact list \<Rightarrow> value_t \<Rightarrow> bindings list result" where
  "apply_not_clause E bs body fs vat =
     (let U = uuids E; has_expr = list_ex is_expr body; ps = body_patterns body;
          slow = (\<lambda>b. not_body_matches E body b fs vat)
      in if ps = [] then reject_rows slow bs
         else
           let excl = map (exclusion_key U) (match_patterns U (from_slice_with_valid_at fs vat) ps)
           in if excl = [] \<and> \<not> has_expr then Ok bs
              else reject_rows (\<lambda>b.
                if \<not> has_expr \<and> excl \<noteq> [] then
                  (let sample = hd excl; key = project U (map fst sample) b in
                   if length key = length sample then Ok (has_key excl key) else slow b)
                else slow b) bs)"

definition apply_not_join_clause ::
    "eval_env \<Rightarrow> bindings list \<Rightarrow> string list \<Rightarrow> where_clause list \<Rightarrow> fact list \<Rightarrow> value_t \<Rightarrow> bindings list result" where
  "apply_not_join_clause E bs join_vars cs fs vat =
     (let U = uuids E; has_expr = list_ex is_expr cs; ps = body_patterns cs;
          slow = (\<lambda>b. evaluate_not_join E join_vars cs b fs vat)
      in if ps = [] then reject_rows slow bs
         else
           let body = match_patterns U (from_slice_with_valid_at fs vat) ps;
               key_vars = (if body = [] then join_vars
                 else filter (\<lambda>v. list_all (\<lambda>b. map_of b v \<noteq> None) body) join_vars);
               excl = map (\<lambda>b. sort_key fst (project U key_vars b)) body
           in reject_rows (\<lambda>b.
                if has_expr then slow b
                else if key_vars = [] then Ok (excl \<noteq> [])
                else
                  let key = sort_key fst (project U key_vars b) in
                  if length key = length key_vars then Ok (has_key excl key) else slow b) bs)"

section \<open>Substitution and solutions\<close>

definition no_null :: "bindings \<Rightarrow> bool" where
  "no_null b \<longleftrightarrow> VNull \<notin> snd ` set b"

lemma take_question: "take (Suc 0) s = ''?'' \<longleftrightarrow> prefix ''?'' s"
  by (cases s) auto

lemma substitute_value_eq: "no_null b \<Longrightarrow> substitute_value b c = apply_binding_to_component b c"
proof -
  assume nn: "no_null b"
  have "ev_value_to_edn x = value_to_edn x" if "map_of b s = Some x" for s x
  proof -
    have "x \<noteq> VNull" using nn map_of_SomeD [OF that] by (force simp: no_null_def)
    then show ?thesis by (cases x) simp_all
  qed
  then show ?thesis
    by (cases c) (auto simp: substitute_value_def apply_binding_to_component_def take_question split: option.splits)
qed

lemma substitute_pattern_eq: "no_null b \<Longrightarrow> substitute_pattern b p = apply_bindings_to_pattern b p"
  by (simp add: substitute_pattern_def apply_bindings_to_pattern_def substitute_value_eq cong: attribute_spec.case_cong)

lemma pairs_applied:
  "pat_attribute p = Real a \<Longrightarrow>
     pairs (apply_bindings_to_pattern b p) (apply_binding_to_component b a) f =
     map (\<lambda>(c, v). (apply_binding_to_component b c, v)) (pairs p a f)"
  by (simp add: apply_bindings_to_pattern_def pairs_def)

lemma plain_applied:
  assumes "plain_pattern p" "no_wildcards b"
  shows "plain_pattern (apply_bindings_to_pattern b p)"
proof -
  obtain a where a: "pat_attribute p = Real a" "linear_pattern p" using assms(1) by (auto simp: plain_pattern_def)
  let ?f = "fact_new 0 [] VNull 0"
  have "distinct (map fst (filter (\<lambda>(s, v). map_of b s = None) (vars_row (pairs p a ?f))))"
    using linear_pairs [OF a(2,1), of ?f] by (rule distinct_map_filter)
  then have "distinct (map fst (vars_row (pairs (apply_bindings_to_pattern b p) (apply_binding_to_component b a) ?f)))"
    unfolding pairs_applied [OF a(1)] resolved_pairs(1) [OF assms(2)] .
  then have "linear_pattern (apply_bindings_to_pattern b p)"
    unfolding vars_row_names using a(1) by (simp add: linear_pattern_def apply_bindings_to_pattern_def pairs_def)
  then show ?thesis using a(1) by (simp add: plain_pattern_def apply_bindings_to_pattern_def)
qed

lemma solves_applied:
  assumes "plain_pattern p" "no_wildcards b" "keywords_apart U fs [b]" "f \<in> set fs"
  shows "solves U \<sigma> (apply_bindings_to_pattern b p) f \<longleftrightarrow> solves U (\<sigma> ++ map_of b) p f"
proof -
  obtain a where a: "pat_attribute p = Real a" using assms(1) by (auto simp: plain_pattern_def)
  then have a': "pat_attribute (apply_bindings_to_pattern b p) = Real (apply_binding_to_component b a)"
    by (simp add: apply_bindings_to_pattern_def)
  have "agrees U b (vars_row (pairs p a f)) \<longleftrightarrow>
      (\<forall>s v. (s, v) \<in> set (vars_row (pairs p a f)) \<longrightarrow> (\<forall>x. map_of b s = Some x \<longrightarrow> same U x v))"
    by (auto simp: agrees_def same_def)
  then show ?thesis
    unfolding solves_def a a' attribute_spec.case pairs_applied [OF a] resolved_pairs [OF assms(2)]
      agrees_constants [OF assms(3) _ assms(4), of b p a, simplified]
    by (auto simp: map_add_def split: option.splits)
qed

lemma solution_applied:
  assumes "\<forall>p \<in> set ps. plain_pattern p" "no_wildcards b" "keywords_apart U fs [b]"
  shows "solution U fs \<sigma> (map (apply_bindings_to_pattern b) ps) \<longleftrightarrow> solution U fs (\<sigma> ++ map_of b) ps"
  using assms solves_applied [of _ b U fs] by (auto simp: solution_def)

lemma match_patterns_nonempty:
  assumes "\<forall>f \<in> set (get_facts m). \<not> value_is_nan (val f)"
    and "inj_on (keyword_id U) (fact_keywords (get_facts m))" and "\<forall>p \<in> set ps. plain_pattern p"
  shows "match_patterns U m ps \<noteq> [] \<longleftrightarrow> (\<exists>\<sigma>. solution U (get_facts m) \<sigma> ps)"
  using match_patterns_rows [OF assms] by (cases "match_patterns U m ps") (auto simp: row_inv_def)

lemma get_facts_slice [simp]: "get_facts (from_slice_with_valid_at fs v) = fs"
  by (simp add: get_facts_def from_slice_with_valid_at_def)

text \<open>A body of patterns matches under a row when the row's values extend to a solution.\<close>

lemma substituted_nonempty:
  assumes facts: "\<forall>f \<in> set fs. \<not> value_is_nan (val f)" and ps: "\<forall>p \<in> set ps. plain_pattern p"
    and b: "no_wildcards b" "no_null b" "keywords_apart U fs [b]"
  shows "match_patterns U (from_slice_with_valid_at fs vat) (map (substitute_pattern b) ps) \<noteq> [] \<longleftrightarrow>
    (\<exists>\<sigma>. solution U fs (\<sigma> ++ map_of b) ps)"
proof -
  have sub: "map (substitute_pattern b) ps = map (apply_bindings_to_pattern b) ps"
    by (simp add: substitute_pattern_eq [OF b(2)])
  have "inj_on (keyword_id U) (fact_keywords fs)" using b(3) by (auto simp: keywords_apart_def intro: inj_on_subset)
  then show ?thesis
    unfolding sub using match_patterns_nonempty [of "from_slice_with_valid_at fs vat" U "map (apply_bindings_to_pattern b) ps"]
      facts ps plain_applied [OF _ b(1)] solution_applied [OF ps b(1,3)] by simp
qed

lemma solution_cong:
  assumes "solution U fs \<sigma> ps"
    and "\<And>p s x. p \<in> set ps \<Longrightarrow> s \<in> pattern_vars p \<Longrightarrow> \<sigma> s = Some x \<Longrightarrow> \<exists>y. \<tau> s = Some y \<and> same U y x"
  shows "solution U fs \<tau> ps"
  unfolding solution_def
proof
  fix p assume p: "p \<in> set ps"
  then obtain f where f: "f \<in> set fs" "solves U \<sigma> p f" using assms(1) by (auto simp: solution_def)
  obtain a where a: "pat_attribute p = Real a" using f(2) by (auto simp: solves_def split: attribute_spec.splits)
  have "\<exists>y. \<tau> s = Some y \<and> same U y v" if sv: "(s, v) \<in> set (vars_row (pairs p a f))" for s v
  proof -
    from f(2) sv a obtain x where x: "\<sigma> s = Some x" "same U x v" by (force simp: solves_def)
    have "s \<in> pattern_vars p" using sv vars_row_pattern_vars [OF a, of f] by force
    from assms(2) [OF p this x(1)] x(2) same_trans show ?thesis by blast
  qed
  then have "solves U \<tau> p f" using f(2) a by (auto simp: solves_def)
  then show "\<exists>f \<in> set fs. solves U \<tau> p f" using f(1) by blast
qed

lemma row_binds_vars:
  assumes "row_inv U fs ps r" "p \<in> set ps" "s \<in> pattern_vars p"
  shows "\<exists>x. map_of r s = Some x"
proof -
  obtain f where f: "solves U (map_of r) p f" using assms(1,2) by (auto simp: row_inv_def solution_def)
  then obtain a where a: "pat_attribute p = Real a" by (auto simp: solves_def split: attribute_spec.splits)
  have "s \<in> fst ` set (vars_row (pairs p a f))" using assms(3) vars_row_pattern_vars [OF a] by simp
  then obtain v where "(s, v) \<in> set (vars_row (pairs p a f))" by force
  then show ?thesis using f a by (auto simp: solves_def)
qed

section \<open>Keys\<close>

lemma normalize_value_eq: "value_eq (normalize_value U x) (normalize_value U y) \<longleftrightarrow> same U x y"
proof -
  have "normalize_value U x = normalize_join_value U x" for x by (cases x) simp_all
  then show ?thesis by (simp add: same_def)
qed

lemma project_full:
  "\<forall>v \<in> set V. map_of b v \<noteq> None \<Longrightarrow> project U V b = map (\<lambda>v. (v, normalize_value U (the (map_of b v)))) V"
  by (induction V) (auto simp: project_def map_filter_simps)

lemma length_project_le: "length (project U V b) \<le> length V"
  by (induction V) (auto simp: project_def map_filter_simps split: option.splits)

lemma length_project: "length (project U V b) = length V \<longleftrightarrow> (\<forall>v \<in> set V. map_of b v \<noteq> None)"
proof (induction V)
  case (Cons v V)
  show ?case using Cons length_project_le [of U V b] by (cases "map_of b v") (auto simp: project_def map_filter_simps)
qed (simp add: project_def map_filter_simps)

lemma project_names:
  "\<forall>k w. (k, w) \<in> set ks \<longrightarrow> (\<exists>v. map_of r k = Some v \<and> w = normalize_value U v) \<Longrightarrow> project U (map fst ks) r = ks"
  by (induction ks) (fastforce simp: project_def map_filter_simps)+

lemma key_eq_map:
  "key_eq (map (\<lambda>v. (v, normalize_value U (f v))) V) (map (\<lambda>v. (v, normalize_value U (g v))) V) \<longleftrightarrow>
     (\<forall>v \<in> set V. same U (f v) (g v))"
  by (induction V) (auto simp: key_eq_def normalize_value_eq)

lemma sort_key_graph: "sort_key fst (map (\<lambda>v. (v, g v)) V) = map (\<lambda>v. (v, g v)) (sort V)"
proof -
  have "insort_key fst (v, g v) (map (\<lambda>v. (v, g v)) W) = map (\<lambda>v. (v, g v)) (insort v W)" for v W
    by (induction W) auto
  then show ?thesis by (induction V) simp_all
qed

definition all_vars :: "pattern list \<Rightarrow> string set" where
  "all_vars ps = (\<Union>p \<in> set ps. pattern_vars p)"

lemma var_of_question: "var_of c = Some s \<Longrightarrow> prefix ''?'' s"
  by (cases c) (auto simp: var_of_def split: if_splits)

lemma pattern_vars_question: "s \<in> pattern_vars p \<Longrightarrow> prefix ''?'' s"
  unfolding pattern_vars_def set_map_filter using var_of_question by blast

lemma row_vars:
  assumes "row_inv U fs ps r"
  shows "{k \<in> fst ` set r. \<not> prefix ''__f'' k} = all_vars ps"
proof (intro set_eqI iffI)
  fix k assume "k \<in> {k \<in> fst ` set r. \<not> prefix ''__f'' k}"
  then have k: "k \<in> fst ` set r" "prefix ''?'' k" using assms by (auto simp: row_inv_def)
  then have "map_of r k \<noteq> None" by (simp add: map_of_eq_None_iff)
  with k(2) assms show "k \<in> all_vars ps" by (auto simp: row_inv_def all_vars_def)
next
  fix k assume "k \<in> all_vars ps"
  then obtain p where p: "p \<in> set ps" "k \<in> pattern_vars p" by (auto simp: all_vars_def)
  have "\<not> prefix ''__f'' k" using pattern_vars_question [OF p(2)] by (auto simp: prefix_def)
  moreover have "k \<in> fst ` set r" using row_binds_vars [OF assms p] by (force dest: map_of_SomeD)
  ultimately show "k \<in> {k \<in> fst ` set r. \<not> prefix ''__f'' k}" by simp
qed

lemma exclusion_names:
  assumes "row_inv U fs ps r"
  shows "set (map fst (exclusion_key U r)) = all_vars ps" "sorted (map fst (exclusion_key U r))"
    "distinct (map fst (exclusion_key U r))" "exclusion_key U r = project U (map fst (exclusion_key U r)) r"
proof -
  let ?r = "filter (\<lambda>(k, v). \<not> prefix ''__f'' k) r"
  have d: "distinct (map fst r)" using assms by (simp add: row_inv_def)
  have n: "map fst (normalized U ?r) = map fst ?r" by (induction r) (auto simp: normalized_def)
  have "set (map fst (exclusion_key U r)) = set (map fst (normalized U ?r))" by (simp add: exclusion_key_def)
  also have "\<dots> = set (map fst ?r)" unfolding n ..
  also have "\<dots> = {k \<in> fst ` set r. \<not> prefix ''__f'' k}" by force
  finally show "set (map fst (exclusion_key U r)) = all_vars ps" using row_vars [OF assms] by simp
  show "sorted (map fst (exclusion_key U r))" by (simp add: exclusion_key_def)
  have "distinct (map fst ?r)" using d by (rule distinct_map_filter)
  then have "distinct (map fst (normalized U ?r))" by (simp add: n)
  then show "distinct (map fst (exclusion_key U r))"
    by (simp add: exclusion_key_def distinct_map inj_on_def)
  have "\<exists>v. map_of r k = Some v \<and> w = normalize_value U v" if "(k, w) \<in> set (exclusion_key U r)" for k w
    using that d by (auto simp: exclusion_key_def normalized_def)
  then show "exclusion_key U r = project U (map fst (exclusion_key U r)) r"
    using project_names [of "exclusion_key U r" r U] by simp
qed

lemma exclusion_same_names:
  assumes "row_inv U fs ps r" "row_inv U fs ps r'"
  shows "map fst (exclusion_key U r) = map fst (exclusion_key U r')"
  using exclusion_names [OF assms(1)] exclusion_names [OF assms(2)] by (intro sorted_distinct_set_unique) auto

section \<open>Deciding by a set of keys\<close>

text \<open>
  Rows of a body and a binding that fixes some variables \<open>V\<close>, among which are all the
  variables of the body that the binding touches: the binding extends to a solution exactly
  when some row agrees with it on \<open>V\<close>.
\<close>

lemma agreeing_row:
  assumes facts: "\<forall>f \<in> set fs. \<not> value_is_nan (val f)" and inj: "inj_on (keyword_id U) (fact_keywords fs)"
    and ps: "\<forall>p \<in> set ps. plain_pattern p" and rows: "rows = match_patterns U (from_slice_with_valid_at fs vat) ps"
    and V: "\<And>r v. r \<in> set rows \<Longrightarrow> v \<in> V \<Longrightarrow> map_of r v \<noteq> None \<and> map_of b v \<noteq> None \<and> prefix ''?'' v"
    and rest: "rows \<noteq> [] \<Longrightarrow> dom (map_of b) \<inter> all_vars ps \<subseteq> V"
  shows "(\<exists>r \<in> set rows. \<forall>v \<in> V. same U (the (map_of b v)) (the (map_of r v))) \<longleftrightarrow> (\<exists>\<sigma>. solution U fs (\<sigma> ++ map_of b) ps)"
proof
  note R = match_patterns_rows [of "from_slice_with_valid_at fs vat" U ps, simplified, OF facts inj ps, folded rows]
  assume "\<exists>r \<in> set rows. \<forall>v \<in> V. same U (the (map_of b v)) (the (map_of r v))"
  then obtain r where r: "r \<in> set rows" "\<And>v. v \<in> V \<Longrightarrow> same U (the (map_of b v)) (the (map_of r v))" by blast
  have sol: "solution U fs (map_of r) ps" using R r(1) by (auto simp: row_inv_def)
  have "solution U fs (map_of r ++ map_of b) ps"
    unfolding solution_def
  proof
    fix p assume p: "p \<in> set ps"
    then obtain f where f: "f \<in> set fs" "solves U (map_of r) p f" using sol by (auto simp: solution_def)
    obtain a where a: "pat_attribute p = Real a" using f(2) by (auto simp: solves_def split: attribute_spec.splits)
    have "\<exists>y. (map_of r ++ map_of b) s = Some y \<and> same U y v" if sv: "(s, v) \<in> set (vars_row (pairs p a f))" for s v
    proof -
      from f(2) sv a obtain x where x: "map_of r s = Some x" "same U x v" by (force simp: solves_def)
      have "s \<in> pattern_vars p" using sv vars_row_pattern_vars [OF a, of f] by force
      then have "s \<in> all_vars ps" using p by (auto simp: all_vars_def)
      then have "same U y x" if "map_of b s = Some y" for y
        using rest r that x(1) by (fastforce simp: dom_def)
      then show ?thesis using x same_trans by (cases "map_of b s") (auto simp: map_add_def)
    qed
    then have "solves U (map_of r ++ map_of b) p f" using f(2) a by (auto simp: solves_def)
    then show "\<exists>f \<in> set fs. solves U (map_of r ++ map_of b) p f" using f(1) by blast
  qed
  then show "\<exists>\<sigma>. solution U fs (\<sigma> ++ map_of b) ps" by blast
next
  note R = match_patterns_rows [of "from_slice_with_valid_at fs vat" U ps, simplified, OF facts inj ps, folded rows]
  assume "\<exists>\<sigma>. solution U fs (\<sigma> ++ map_of b) ps"
  then obtain \<sigma> r where r: "r \<in> set rows" "compatible U (\<sigma> ++ map_of b) r" using R by blast
  have "same U (the (map_of b v)) (the (map_of r v))" if v: "v \<in> V" for v
  proof -
    obtain x y where xy: "map_of r v = Some x" "map_of b v = Some y" "prefix ''?'' v" using V [OF r(1) v] by auto
    then have "same U x y" using r(2) by (fastforce simp: compatible_def)
    then show ?thesis using xy same_sym by simp
  qed
  then show "\<exists>r \<in> set rows. \<forall>v \<in> V. same U (the (map_of b v)) (the (map_of r v))" using r(1) by blast
qed

section \<open>The exclusion set decides as the body does\<close>

lemma filter_map_result_id: "filter_map_result (\<lambda>x. Ok (Some x)) xs = Ok xs"
  by (induction xs) simp_all

lemma no_exprs: "apply_expr_clauses_in_evaluator E rows [] = Ok rows"
  unfolding apply_expr_clauses_in_evaluator_def by (induction rows) simp_all

lemma reject_rows_cong:
  "(\<And>b. b \<in> set bs \<Longrightarrow> s b = t b) \<Longrightarrow> reject_rows s bs = reject_rows t bs"
  unfolding reject_rows_def filter_result_def by (rule filter_map_result_cong) simp

lemma reject_rows_none: "(\<And>b. b \<in> set bs \<Longrightarrow> s b = Ok False) \<Longrightarrow> reject_rows s bs = Ok bs"
  using reject_rows_cong [of bs s "\<lambda>_. Ok False"] by (simp add: reject_rows_def filter_result_def filter_map_result_id)

lemma apply_expr_clauses_none:
  assumes "\<not> list_ex is_expr body"
  shows "apply_expr_clauses E rows body = Ok rows"
proof -
  have "\<not> list_ex (unknown_predicate R) body" for R
    using assms by (auto simp: list_ex_iff unknown_predicate_def is_expr_def split: where_clause.splits)
  moreover have "expr_passes E body rows = Ok rows" using assms
  proof (induction body)
    case (Cons c cs)
    then have "expr_on_row E c = (\<lambda>b. Ok (Some b))" by (cases c) (auto simp: expr_on_row_def is_expr_def)
    with Cons show ?case by (simp add: filter_map_result_id)
  qed simp
  ultimately show ?thesis by (simp add: apply_expr_clauses_def)
qed

lemma keywords_apart_one: "keywords_apart U fs bs \<Longrightarrow> b \<in> set bs \<Longrightarrow> keywords_apart U fs [b]"
  by (auto simp: keywords_apart_def row_keywords_def intro: inj_on_subset)

lemma not_body_matches_iff:
  assumes "\<forall>f \<in> set fs. \<not> value_is_nan (val f)" "\<forall>p \<in> set (body_patterns body). plain_pattern p"
    and "no_wildcards b" "no_null b" "keywords_apart (uuids E) fs [b]" and "\<not> list_ex is_expr body" "body_patterns body \<noteq> []"
  shows "not_body_matches E body b fs vat = Ok (\<exists>\<sigma>. solution (uuids E) fs (\<sigma> ++ map_of b) (body_patterns body))"
  using substituted_nonempty [OF assms(1-5), of vat] assms(7)
  by (simp add: not_body_matches_def apply_expr_clauses_none [OF assms(6)] unwrap_or_default_def body_rows_def)

lemma exclusion_test:
  assumes facts: "\<forall>f \<in> set fs. \<not> value_is_nan (val f)" and inj: "inj_on (keyword_id U) (fact_keywords fs)"
    and ps: "\<forall>p \<in> set ps. plain_pattern p" and rows: "match_patterns U (from_slice_with_valid_at fs vat) ps = r0 # rs"
    and len: "length (project U (map fst (exclusion_key U r0)) b) = length (exclusion_key U r0)"
  shows "has_key (map (exclusion_key U) (r0 # rs)) (project U (map fst (exclusion_key U r0)) b) \<longleftrightarrow>
    (\<exists>\<sigma>. solution U fs (\<sigma> ++ map_of b) ps)"
proof -
  define V where "V = map fst (exclusion_key U r0)"
  have inv: "row_inv U fs ps r" if "r \<in> set (r0 # rs)" for r
    using match_patterns_rows [of "from_slice_with_valid_at fs vat" U ps] facts inj ps that rows by auto
  have sV: "set V = all_vars ps" using exclusion_names(1) [OF inv [of r0]] by (simp add: V_def)
  have b: "\<forall>v \<in> set V. map_of b v \<noteq> None" using len length_project [of U V b] by (simp add: V_def)
  have r: "map_of r v \<noteq> None \<and> prefix ''?'' v" if "r \<in> set (r0 # rs)" "v \<in> set V" for r v
    using row_binds_vars [OF inv [OF that(1)]] pattern_vars_question that(2) unfolding sV all_vars_def by fastforce
  have key: "exclusion_key U r = map (\<lambda>v. (v, normalize_value U (the (map_of r v)))) V" if "r \<in> set (r0 # rs)" for r
    using exclusion_names(4) [OF inv [OF that]] exclusion_same_names [OF inv [OF that] inv [of r0]] r [OF that]
      project_full [of V r U] by (simp add: V_def)
  have "has_key (map (exclusion_key U) (r0 # rs)) (project U V b) \<longleftrightarrow>
      (\<exists>r \<in> set (r0 # rs). key_eq (project U V b) (exclusion_key U r))"
    by (auto simp: has_key_def list_ex_iff)
  also have "\<dots> \<longleftrightarrow> (\<exists>r \<in> set (r0 # rs). \<forall>v \<in> set V. same U (the (map_of b v)) (the (map_of r v)))"
    using key by (intro bex_cong refl) (simp add: project_full [OF b] key_eq_map)
  also have "\<dots> \<longleftrightarrow> (\<exists>\<sigma>. solution U fs (\<sigma> ++ map_of b) ps)"
    using r b by (intro agreeing_row [OF facts inj ps rows [symmetric]]) (auto simp: sV)
  finally show ?thesis by (simp add: V_def)
qed

lemma no_rows_no_solution:
  assumes "\<forall>f \<in> set fs. \<not> value_is_nan (val f)" "inj_on (keyword_id U) (fact_keywords fs)" "\<forall>p \<in> set ps. plain_pattern p"
    and "match_patterns U (from_slice_with_valid_at fs vat) ps = []"
  shows "\<not> solution U fs \<sigma> ps"
  using match_patterns_nonempty [of "from_slice_with_valid_at fs vat" U ps] assms by auto

text \<open>
  C18. The exclusion set of a \<^verbatim>\<open>not\<close> clause is an optimisation: filtering rows through it keeps
  exactly the rows that testing the body row by row keeps, in the same order. The body is
  of patterns over stored attributes that use each variable once; no row binds nil or a
  wildcard, no stored value is NaN, and the keywords in play name different entities.
\<close>

theorem not_exclusion_set_exact:
  assumes "\<forall>f \<in> set fs. \<not> value_is_nan (val f)" and "\<forall>p \<in> set (body_patterns body). plain_pattern p"
    and "\<not> list_ex is_expr body" and "\<forall>b \<in> set bs. no_wildcards b \<and> no_null b" and "keywords_apart (uuids E) fs bs"
  shows "apply_not_clause E bs body fs vat = reject_rows (\<lambda>b. not_body_matches E body b fs vat) bs"
proof (cases "body_patterns body = []")
  case True
  then show ?thesis by (simp add: apply_not_clause_def)
next
  case False
  let ?U = "uuids E" and ?ps = "body_patterns body"
  have inj: "inj_on (keyword_id ?U) (fact_keywords fs)"
    using assms(5) by (auto simp: keywords_apart_def intro: inj_on_subset)
  have slow: "not_body_matches E body b fs vat = Ok (\<exists>\<sigma>. solution ?U fs (\<sigma> ++ map_of b) ?ps)" if "b \<in> set bs" for b
    using not_body_matches_iff [OF assms(1,2) _ _ keywords_apart_one [OF assms(5) that] assms(3) False] assms(4) that by blast
  show ?thesis
  proof (cases "match_patterns ?U (from_slice_with_valid_at fs vat) ?ps")
    case Nil
    then have "reject_rows (\<lambda>b. not_body_matches E body b fs vat) bs = Ok bs"
      using no_rows_no_solution [OF assms(1) inj assms(2)] slow by (intro reject_rows_none) simp
    with Nil False assms(3) show ?thesis by (simp add: apply_not_clause_def)
  next
    case (Cons r0 rs)
    have "apply_not_clause E bs body fs vat = reject_rows (\<lambda>b.
        if length (project ?U (map fst (exclusion_key ?U r0)) b) = length (exclusion_key ?U r0)
        then Ok (has_key (map (exclusion_key ?U) (r0 # rs)) (project ?U (map fst (exclusion_key ?U r0)) b))
        else not_body_matches E body b fs vat) bs"
      unfolding apply_not_clause_def Let_def Cons list.map list.sel using False assms(3) by simp
    also have "\<dots> = reject_rows (\<lambda>b. not_body_matches E body b fs vat) bs"
    proof (rule reject_rows_cong)
      fix b assume b: "b \<in> set bs"
      show "(if length (project ?U (map fst (exclusion_key ?U r0)) b) = length (exclusion_key ?U r0)
        then Ok (has_key (map (exclusion_key ?U) (r0 # rs)) (project ?U (map fst (exclusion_key ?U r0)) b))
        else not_body_matches E body b fs vat) = not_body_matches E body b fs vat"
        using exclusion_test [OF assms(1) inj assms(2) Cons, of b] slow [OF b] by simp
    qed
    finally show ?thesis .
  qed
qed

theorem not_exclusion_set_exact_witness:
  "apply_not_clause sample_env [[(''?a'', VRef 1)]] [PatternC (sample_patterns ! 0)] (get_facts sample_matcher) VNull =
   reject_rows (\<lambda>b. not_body_matches sample_env [PatternC (sample_patterns ! 0)] b (get_facts sample_matcher) VNull) [[(''?a'', VRef 1)]]"
proof (rule not_exclusion_set_exact)
  show "\<forall>f \<in> set (get_facts sample_matcher). \<not> value_is_nan (val f)" by (simp add: sample_facts fact_new_def)
  show "\<forall>p \<in> set (body_patterns [PatternC (sample_patterns ! 0)]). plain_pattern p"
    using sample_plain by (simp add: body_patterns_def map_filter_simps sample_patterns_def)
  show "keywords_apart (uuids sample_env) (get_facts sample_matcher) [[(''?a'', VRef 1)]]"
    using sample_ids by (simp add: keywords_apart_def sample_keywords row_keywords_def sample_env_def)
qed (simp_all add: no_wildcards_def no_null_def is_expr_def)

section \<open>Not-join\<close>

definition only_patterns :: "where_clause list \<Rightarrow> bool" where
  "only_patterns cs \<longleftrightarrow> list_all is_pattern cs"

lemma only_patterns_parts:
  assumes "only_patterns cs"
  shows "\<not> list_ex is_expr cs" "body_exprs cs = []"
    "List.map_filter (\<lambda>c. case c of PatternC p \<Rightarrow> Some (substitute_pattern b p)
       | RuleInvocation pred args \<Rightarrow>
           map_option (substitute_pattern b) (result_to_option (rule_invocation_to_pattern pred args))
       | _ \<Rightarrow> None) cs = map (substitute_pattern b) (body_patterns cs)"
  using assms
  by (induction cs) (auto simp: only_patterns_def is_pattern_def is_expr_def body_exprs_def body_patterns_def
      map_filter_simps split: where_clause.splits)

lemma map_of_graph:
  "map_of (List.map_filter (\<lambda>v. map_option (Pair v) (f v)) vs) k = (if k \<in> set vs then f k else None)"
  by (induction vs) (auto simp: map_filter_simps split: option.splits)

lemma partial_row:
  assumes "partial = extend_row [] (List.map_filter (\<lambda>v. map_option (Pair v) (map_of b v)) vs)"
  shows "map_of partial k = (if k \<in> set vs then map_of b k else None)" "snd ` set partial \<subseteq> snd ` set b"
proof -
  have ext: "map_of (extend_row r xs) = map_of r ++ map_of (rev xs)" for r xs
    by (induction xs arbitrary: r) (auto simp: update_conv')
  have "rev (List.map_filter g vs) = List.map_filter g (rev vs)" for g :: "string \<Rightarrow> (string \<times> value_t) option"
    by (simp add: map_filter_def rev_map rev_filter)
  then show "map_of partial k = (if k \<in> set vs then map_of b k else None)"
    unfolding assms ext by (simp add: map_of_graph)
  show "snd ` set partial \<subseteq> snd ` set b"
  proof
    fix x assume "x \<in> snd ` set partial"
    then obtain k where "(k, x) \<in> set (List.map_filter (\<lambda>v. map_option (Pair v) (map_of b v)) vs)"
      using extend_row_values [of x "[]"] unfolding assms by force
    then have "map_of b k = Some x" by (auto simp: set_map_filter)
    then show "x \<in> snd ` set b" by (force dest: map_of_SomeD)
  qed
qed

lemma evaluate_not_join_iff:
  assumes "\<forall>f \<in> set fs. \<not> value_is_nan (val f)" "\<forall>p \<in> set (body_patterns cs). plain_pattern p"
    and "no_wildcards b" "no_null b" "keywords_apart (uuids E) fs [b]" and "only_patterns cs" "body_patterns cs \<noteq> []"
  shows "evaluate_not_join E vs cs b fs vat =
    Ok (\<exists>\<sigma>. solution (uuids E) fs (\<sigma> ++ (\<lambda>k. if k \<in> set vs then map_of b k else None)) (body_patterns cs))"
proof -
  define partial where "partial = extend_row [] (List.map_filter (\<lambda>v. map_option (Pair v) (map_of b v)) vs)"
  note P = partial_row [OF partial_def]
  have map: "map_of partial = (\<lambda>k. if k \<in> set vs then map_of b k else None)" using P(1) by (rule ext)
  have "no_wildcards partial" using assms(3) by (simp add: no_wildcards_def P(1))
  moreover have "no_null partial" using assms(4) P(2) by (auto simp: no_null_def)
  moreover have "keywords_apart (uuids E) fs [partial]"
    using assms(5) P(2) by (auto simp: keywords_apart_def row_keywords_def intro: inj_on_subset)
  ultimately have "match_patterns (uuids E) (from_slice_with_valid_at fs vat) (map (substitute_pattern partial) (body_patterns cs)) \<noteq> [] \<longleftrightarrow>
      (\<exists>\<sigma>. solution (uuids E) fs (\<sigma> ++ map_of partial) (body_patterns cs))"
    by (rule substituted_nonempty [OF assms(1,2)])
  then show ?thesis
    using assms(7) unfolding evaluate_not_join_def partial_def [symmetric] Let_def only_patterns_parts(2,3) [OF assms(6)]
    by (simp add: no_exprs body_rows_def map)
qed

lemma not_join_test:
  assumes facts: "\<forall>f \<in> set fs. \<not> value_is_nan (val f)" and inj: "inj_on (keyword_id U) (fact_keywords fs)"
    and ps: "\<forall>p \<in> set ps. plain_pattern p" and rows: "rows = match_patterns U (from_slice_with_valid_at fs vat) ps"
    and ne: "rows \<noteq> []" and vs: "\<forall>v \<in> set vs. prefix ''?'' v"
    and kv: "kv = filter (\<lambda>v. list_all (\<lambda>b. map_of b v \<noteq> None) rows) vs"
    and b: "\<forall>v \<in> set kv. map_of b v \<noteq> None"
  shows "has_key (map (\<lambda>r. sort_key fst (project U kv r)) rows) (sort_key fst (project U kv b)) \<longleftrightarrow>
    (\<exists>\<sigma>. solution U fs (\<sigma> ++ (\<lambda>k. if k \<in> set vs then map_of b k else None)) ps)"
proof -
  define partial where "partial = extend_row [] (List.map_filter (\<lambda>v. map_option (Pair v) (map_of b v)) vs)"
  note P = partial_row(1) [OF partial_def]
  have map: "map_of partial = (\<lambda>k. if k \<in> set vs then map_of b k else None)" using P by (rule ext)
  have r: "\<forall>v \<in> set kv. map_of r v \<noteq> None" if "r \<in> set rows" for r using that by (auto simp: kv list_all_iff)
  have inv: "row_inv U fs ps r" if "r \<in> set rows" for r
    using match_patterns_rows [of "from_slice_with_valid_at fs vat" U ps] facts inj ps that rows by auto
  have "has_key (map (\<lambda>r. sort_key fst (project U kv r)) rows) (sort_key fst (project U kv b)) \<longleftrightarrow>
      (\<exists>r \<in> set rows. key_eq (sort_key fst (project U kv b)) (sort_key fst (project U kv r)))"
    by (auto simp: has_key_def list_ex_iff)
  also have "\<dots> \<longleftrightarrow> (\<exists>r \<in> set rows. \<forall>v \<in> set kv. same U (the (map_of b v)) (the (map_of r v)))"
    using r by (intro bex_cong refl) (simp add: project_full [OF b] project_full sort_key_graph key_eq_map)
  also have "\<dots> \<longleftrightarrow> (\<exists>r \<in> set rows. \<forall>v \<in> set kv. same U (the (map_of partial v)) (the (map_of r v)))"
    by (simp add: P kv)
  also have "\<dots> \<longleftrightarrow> (\<exists>\<sigma>. solution U fs (\<sigma> ++ map_of partial) ps)"
  proof (rule agreeing_row [OF facts inj ps rows])
    fix r v assume "r \<in> set rows" "v \<in> set kv"
    then show "map_of r v \<noteq> None \<and> map_of partial v \<noteq> None \<and> prefix ''?'' v"
      using r b vs P [of v] by (simp add: kv)
  next
    have "v \<in> set kv" if "map_of partial v \<noteq> None" "v \<in> all_vars ps" for v
      using that P [of v] row_binds_vars [OF inv] by (auto simp: kv all_vars_def list_all_iff split: if_splits)
    then show "dom (map_of partial) \<inter> all_vars ps \<subseteq> set kv" by (auto simp: dom_def)
  qed
  finally show ?thesis by (simp only: map)
qed

text \<open>
  The same holds of \<^verbatim>\<open>not-join\<close>, whose exclusion set is keyed by the join variables that the
  body binds: it keeps exactly the rows that evaluating the body under each row's join
  variables keeps.
\<close>

lemma not_join_exclusion_set_exact:
  assumes "\<forall>f \<in> set fs. \<not> value_is_nan (val f)" and "\<forall>p \<in> set (body_patterns cs). plain_pattern p"
    and "only_patterns cs" and "\<forall>b \<in> set bs. no_wildcards b \<and> no_null b" and "keywords_apart (uuids E) fs bs"
    and "\<forall>v \<in> set vs. prefix ''?'' v"
  shows "apply_not_join_clause E bs vs cs fs vat = reject_rows (\<lambda>b. evaluate_not_join E vs cs b fs vat) bs"
proof (cases "body_patterns cs = []")
  case True
  then show ?thesis by (simp add: apply_not_join_clause_def)
next
  case False
  let ?U = "uuids E" and ?ps = "body_patterns cs"
  define rows where "rows = match_patterns ?U (from_slice_with_valid_at fs vat) ?ps"
  define kv where "kv = (if rows = [] then vs else filter (\<lambda>v. list_all (\<lambda>b. map_of b v \<noteq> None) rows) vs)"
  define excl where "excl = map (\<lambda>r. sort_key fst (project ?U kv r)) rows"
  have inj: "inj_on (keyword_id ?U) (fact_keywords fs)"
    using assms(5) by (auto simp: keywords_apart_def intro: inj_on_subset)
  have slow: "evaluate_not_join E vs cs b fs vat =
      Ok (\<exists>\<sigma>. solution ?U fs (\<sigma> ++ (\<lambda>k. if k \<in> set vs then map_of b k else None)) ?ps)" if "b \<in> set bs" for b
    using evaluate_not_join_iff [OF assms(1,2) _ _ keywords_apart_one [OF assms(5) that] assms(3) False] assms(4) that by blast
  have fast: "has_key excl (sort_key fst (project ?U kv b)) \<longleftrightarrow>
      (\<exists>\<sigma>. solution ?U fs (\<sigma> ++ (\<lambda>k. if k \<in> set vs then map_of b k else None)) ?ps)"
    if "\<forall>v \<in> set kv. map_of b v \<noteq> None" for b
  proof (cases "rows = []")
    case True
    then show ?thesis using no_rows_no_solution [OF assms(1) inj assms(2)] rows_def by (simp add: excl_def has_key_def)
  next
    case False
    then show ?thesis
      using not_join_test [OF assms(1) inj assms(2) rows_def False assms(6) _ that] by (simp add: kv_def excl_def)
  qed
  have "apply_not_join_clause E bs vs cs fs vat = reject_rows (\<lambda>b.
      if kv = [] then Ok (excl \<noteq> [])
      else if length (project ?U kv b) = length kv then Ok (has_key excl (sort_key fst (project ?U kv b)))
      else evaluate_not_join E vs cs b fs vat) bs"
    unfolding apply_not_join_clause_def Let_def rows_def [symmetric] kv_def [symmetric] excl_def [symmetric] length_sort
    using False only_patterns_parts(1) [OF assms(3)] by simp
  also have "\<dots> = reject_rows (\<lambda>b. evaluate_not_join E vs cs b fs vat) bs"
  proof (rule reject_rows_cong)
    fix b assume b: "b \<in> set bs"
    show "(if kv = [] then Ok (excl \<noteq> [])
      else if length (project ?U kv b) = length kv then Ok (has_key excl (sort_key fst (project ?U kv b)))
      else evaluate_not_join E vs cs b fs vat) = evaluate_not_join E vs cs b fs vat"
      using fast [of b] slow [OF b] length_project [of ?U kv b]
      by (auto simp: has_key_def key_eq_def project_def map_filter_simps excl_def list_ex_iff)
  qed
  finally show ?thesis .
qed

section \<open>Nil\<close>

text \<open>
  The premise on nil is needed: the evaluator writes a bound nil into a pattern as a symbol,
  which matches nothing. With \<^verbatim>\<open>[1 :a nil]\<close> and \<^verbatim>\<open>[1 :b nil]\<close> stored, the clause
  \<^verbatim>\<open>(not [?e :b ?v])\<close> rejects the row of \<^verbatim>\<open>[?e :a ?v]\<close> in a query without rules and keeps it in a
  query with rules.
\<close>

lemma nil_escapes_negation:
  "apply_not_clause sample_env [[(''?e'', VRef 1), (''?v'', VNull)]]
     [PatternC (pattern_new (Symbol ''?e'') (Keyword '':b'') (Symbol ''?v''))]
     [fact_new 1 '':a'' VNull 0, fact_new 1 '':b'' VNull 0] VNull = Ok [] \<and>
   apply_not_clause_derived sample_env [[(''?e'', VRef 1), (''?v'', VNull)]]
     [PatternC (pattern_new (Symbol ''?e'') (Keyword '':b'') (Symbol ''?v''))]
     [fact_new 1 '':a'' VNull 0, fact_new 1 '':b'' VNull 0] VNull = Ok [[(''?e'', VRef 1), (''?v'', VNull)]]"
  by code_simp

end
