(* ===== verification/Disjunction.thy ===== *)
theory Disjunction
  imports Negation
begin

text \<open>
  Disjunction, from \<^verbatim>\<open>src/query/datalog/executor.rs\<close>: \<^verbatim>\<open>branch_outer_reads\<close>,
  \<^verbatim>\<open>evaluate_branch\<close> and \<^verbatim>\<open>apply_or_clauses\<close>, which call each other. Branches are run from an
  empty row and their union is hash-joined with the incoming rows, cheapest branch first
  and stopping once every incoming row is covered; branches that negate, or read a variable
  only the outer row binds, are seeded with the rows instead.

  The two functions pass the rule registry and the as-of point on to each other and read
  neither, so the model leaves them out. \<^verbatim>\<open>apply_or_with\<close> is \<^verbatim>\<open>apply_or_clauses\<close> with the
  evaluator of branches as an argument.

  Shown: \<^verbatim>\<open>or-join\<close> keeps exactly the incoming rows some branch matches, whatever the order
  of branches and wherever it stops early; \<^verbatim>\<open>or\<close> gives exactly the joined rows.
\<close>

section \<open>Variables of a branch\<close>

definition clause_binds :: "where_clause \<Rightarrow> string list" where
  "clause_binds c = (case c of
      PatternC p \<Rightarrow> pattern_bound_vars p
    | RuleInvocation _ args \<Rightarrow> List.map_filter (\<lambda>a. case a of
        Symbol s \<Rightarrow> if prefix ''?'' s then Some s else None | _ \<Rightarrow> None) args
    | ExprC _ (Some b) \<Rightarrow> [b]
    | _ \<Rightarrow> [])"

definition branch_binds :: "where_clause list \<Rightarrow> string list" where
  "branch_binds branch = concat (map clause_binds branch)"

fun clause_reads :: "where_clause \<Rightarrow> string list" where
  "clause_reads (ExprC e _) = expr_vars e"
| "clause_reads (Or branches) =
     concat (map (\<lambda>b. filter (\<lambda>v. v \<notin> set (branch_binds b)) (concat (map clause_reads b))) branches)"
| "clause_reads (OrJoin _ branches) =
     concat (map (\<lambda>b. filter (\<lambda>v. v \<notin> set (branch_binds b)) (concat (map clause_reads b))) branches)"
| "clause_reads _ = []"

definition branch_outer_reads :: "where_clause list \<Rightarrow> string list" where
  "branch_outer_reads b = filter (\<lambda>v. v \<notin> set (branch_binds b)) (concat (map clause_reads b))"

section \<open>Rows by key\<close>

definition visible :: "bindings \<Rightarrow> bindings" where
  "visible b = filter (\<lambda>(k, v). \<not> prefix ''__'' k) b"

definition sorted_row :: "bindings \<Rightarrow> key" where
  "sorted_row b = sort_key fst b"

definition row_names :: "bindings list \<Rightarrow> string list" where
  "row_names bs = remdups (map fst (concat bs))"

text \<open>Pushing the rows whose key is new, as \<^verbatim>\<open>if seen.insert(key) { result.push(b) }\<close> does.\<close>

definition push_new :: "(bindings \<Rightarrow> key) \<Rightarrow> bindings \<Rightarrow> key list \<times> bindings list \<Rightarrow> key list \<times> bindings list" where
  "push_new kf b = (\<lambda>(seen, out).
     if has_key seen (kf b) then (seen, out) else (seen @ [kf b], out @ [b]))"

text \<open>A \<^verbatim>\<open>HashMap\<close> from keys to rows.\<close>

fun kmap_get :: "(key \<times> bindings list) list \<Rightarrow> key \<Rightarrow> bindings list option" where
  "kmap_get [] k = None"
| "kmap_get ((k', bs) # m) k = (if key_eq k k' then Some bs else kmap_get m k)"

fun kmap_push :: "key \<Rightarrow> bindings \<Rightarrow> (key \<times> bindings list) list \<Rightarrow> (key \<times> bindings list) list" where
  "kmap_push k b [] = [(k, [b])]"
| "kmap_push k b ((k', bs) # m) = (if key_eq k k' then (k', bs @ [b]) # m else (k', bs) # kmap_push k b m)"

definition join_rows ::
    "uuid_ops \<Rightarrow> string list \<Rightarrow> (key \<times> bindings list) list \<Rightarrow> bindings list \<Rightarrow> bindings list" where
  "join_rows U vars m incoming =
     snd (fold (push_new sorted_row)
       (concat (map (\<lambda>inc. case kmap_get m (project U vars inc) of
           Some rows \<Rightarrow> map (\<lambda>r. or_insert_all r inc) rows
         | None \<Rightarrow> []) incoming)) ([], []))"

section \<open>Or\<close>

type_synonym branch_eval = "where_clause list \<Rightarrow> bindings list \<Rightarrow> bindings list result"

definition needs_seed :: "where_clause list \<Rightarrow> bool" where
  "needs_seed b \<longleftrightarrow> list_ex is_not b \<or> branch_outer_reads b \<noteq> []"

fun seeded_branches ::
    "branch_eval \<Rightarrow> where_clause list list \<Rightarrow> bindings list \<Rightarrow> key list \<times> bindings list \<Rightarrow> bindings list result" where
  "seeded_branches ev [] bs acc = Ok (snd acc)"
| "seeded_branches ev (br # brs) bs acc =
     and_then (ev br bs) (\<lambda>rows.
       seeded_branches ev brs bs (fold (push_new (\<lambda>b. sorted_row (visible b))) rows acc))"

definition branch_names :: "bindings list \<Rightarrow> string list" where
  "branch_names bs = filter (\<lambda>k. \<not> prefix ''__'' k) (row_names bs)"

definition fully_covered :: "uuid_ops \<Rightarrow> bindings list \<Rightarrow> bindings list \<Rightarrow> bool" where
  "fully_covered U incoming found =
     (let names = branch_names found in
      names \<noteq> [] \<and> list_all (\<lambda>v. v \<in> set (branch_names incoming)) names \<and>
      (let covered = map (\<lambda>b. sorted_row (project U names b)) found
       in list_all (\<lambda>inc. has_key covered (sorted_row (project U names inc))) incoming))"

fun union_branches ::
    "branch_eval \<Rightarrow> uuid_ops \<Rightarrow> where_clause list list \<Rightarrow> bindings list \<Rightarrow> key list \<times> bindings list \<Rightarrow> bindings list result" where
  "union_branches ev U [] incoming acc = Ok (snd acc)"
| "union_branches ev U (br # brs) incoming acc =
     and_then (ev br [[]]) (\<lambda>rows.
       let acc' = fold (push_new (\<lambda>b. sorted_row (visible b))) rows acc
       in if fully_covered U incoming (snd acc') then Ok (snd acc')
          else union_branches ev U brs incoming acc')"

definition or_clause ::
    "branch_eval \<Rightarrow> uuid_ops \<Rightarrow> where_clause list list \<Rightarrow> bindings list \<Rightarrow> bindings list result" where
  "or_clause ev U branches bs =
     (let sorted = sort_key branch_cost branches in
      if list_ex needs_seed sorted then seeded_branches ev sorted bs ([], [])
      else and_then (union_branches ev U sorted bs ([], [])) (\<lambda>found.
        let shared = filter (\<lambda>v. \<not> prefix ''__'' v \<and> v \<in> set (branch_names found)) (row_names bs);
            m = fold (\<lambda>b. kmap_push (project U shared b) b) found []
        in Ok (join_rows U shared m bs)))"

section \<open>Or-join\<close>

text \<open>Whether some branch has a row from the given seed; later branches are not run.\<close>

fun some_branch :: "branch_eval \<Rightarrow> where_clause list list \<Rightarrow> bindings \<Rightarrow> bool result" where
  "some_branch ev [] seed = Ok False"
| "some_branch ev (br # brs) seed =
     and_then (ev br [seed]) (\<lambda>rows. if rows \<noteq> [] then Ok True else some_branch ev brs seed)"

fun seeded_rows ::
    "branch_eval \<Rightarrow> where_clause list list \<Rightarrow> string list \<Rightarrow> bindings list \<Rightarrow> key list \<times> bindings list \<Rightarrow> bindings list result" where
  "seeded_rows ev brs join_vars [] acc = Ok (snd acc)"
| "seeded_rows ev brs join_vars (inc # incs) acc =
     and_then (some_branch ev brs (extend_row [] (List.map_filter (\<lambda>v. map_option (Pair v) (map_of inc v)) join_vars)))
       (\<lambda>matched. seeded_rows ev brs join_vars incs (if matched then push_new sorted_row inc acc else acc))"

text \<open>One row of a branch: projected to the outer variables and filed under its join values.\<close>

definition file_row ::
    "uuid_ops \<Rightarrow> string list \<Rightarrow> string list \<Rightarrow> bindings \<Rightarrow> key list \<times> (key \<times> bindings list) list \<Rightarrow>
     key list \<times> (key \<times> bindings list) list" where
  "file_row U join_vars outer b = (\<lambda>(seen, m).
     if \<not> list_all (\<lambda>v. map_of b v \<noteq> None) join_vars then (seen, m)
     else let b' = filter (\<lambda>(k, v). k \<in> set outer) b; k = sorted_row b' in
          if has_key seen k then (seen, m)
          else (seen @ [k], kmap_push (project U join_vars b') b' m))"

fun joined_branches ::
    "branch_eval \<Rightarrow> uuid_ops \<Rightarrow> string list \<Rightarrow> string list \<Rightarrow> key list \<Rightarrow> where_clause list list \<Rightarrow>
     key list \<times> (key \<times> bindings list) list \<Rightarrow> (key \<times> bindings list) list result" where
  "joined_branches ev U join_vars outer req [] acc = Ok (snd acc)"
| "joined_branches ev U join_vars outer req (br # brs) acc =
     and_then (ev br [[]]) (\<lambda>rows.
       let acc' = fold (file_row U join_vars outer) rows acc
       in if list_all (\<lambda>k. kmap_get (snd acc') k \<noteq> None) req then Ok (snd acc')
          else joined_branches ev U join_vars outer req brs acc')"

definition or_join_clause ::
    "branch_eval \<Rightarrow> uuid_ops \<Rightarrow> string list \<Rightarrow> where_clause list list \<Rightarrow> bindings list \<Rightarrow> bindings list result" where
  "or_join_clause ev U join_vars branches bs =
     (if bs = [] then Ok []
      else
        let sorted = sort_key branch_cost branches; outer = row_names bs in
        if list_ex (\<lambda>v. v \<notin> set outer) join_vars then Err (Internal 31)
        else if list_ex (\<lambda>b. branch_outer_reads b \<noteq> []) sorted then seeded_rows ev sorted join_vars bs ([], [])
        else and_then (joined_branches ev U join_vars outer (map (project U join_vars) bs) sorted ([], [])) (\<lambda>m.
          Ok (join_rows U join_vars m bs)))"

fun apply_or_with ::
    "branch_eval \<Rightarrow> uuid_ops \<Rightarrow> where_clause list \<Rightarrow> bindings list \<Rightarrow> bindings list result" where
  "apply_or_with ev U [] bs = Ok bs"
| "apply_or_with ev U (Or branches # cs) bs = and_then (or_clause ev U branches bs) (apply_or_with ev U cs)"
| "apply_or_with ev U (OrJoin join_vars branches # cs) bs =
     and_then (or_join_clause ev U join_vars branches bs) (apply_or_with ev U cs)"
| "apply_or_with ev U (_ # cs) bs = apply_or_with ev U cs bs"

section \<open>Branches\<close>

text \<open>The branches whose evaluation a clause can ask for.\<close>

fun clause_branches :: "where_clause \<Rightarrow> where_clause list list" where
  "clause_branches (Or branches) = branches"
| "clause_branches (OrJoin _ branches) = branches"
| "clause_branches _ = []"

lemma seeded_branches_cong:
  "(\<And>br i. br \<in> set brs \<Longrightarrow> ev br i = ev' br i) \<Longrightarrow> seeded_branches ev brs bs acc = seeded_branches ev' brs bs acc"
  by (induction brs arbitrary: acc) (simp_all cong: and_then_cong if_cong)

lemma union_branches_cong:
  "(\<And>br i. br \<in> set brs \<Longrightarrow> ev br i = ev' br i) \<Longrightarrow> union_branches ev U brs bs acc = union_branches ev' U brs bs acc"
  by (induction brs arbitrary: acc) (simp_all add: Let_def cong: and_then_cong if_cong)

lemma some_branch_cong:
  "(\<And>br i. br \<in> set brs \<Longrightarrow> ev br i = ev' br i) \<Longrightarrow> some_branch ev brs seed = some_branch ev' brs seed"
  by (induction brs) (simp_all cong: and_then_cong if_cong)

lemma seeded_rows_cong:
  "(\<And>br i. br \<in> set brs \<Longrightarrow> ev br i = ev' br i) \<Longrightarrow> seeded_rows ev brs vs bs acc = seeded_rows ev' brs vs bs acc"
  using some_branch_cong [of brs ev ev'] by (induction bs arbitrary: acc) (simp_all cong: and_then_cong if_cong)

lemma joined_branches_cong:
  "(\<And>br i. br \<in> set brs \<Longrightarrow> ev br i = ev' br i) \<Longrightarrow>
     joined_branches ev U vs outer req brs acc = joined_branches ev' U vs outer req brs acc"
  by (induction brs arbitrary: acc) (simp_all add: Let_def cong: and_then_cong if_cong)

lemma or_clause_cong:
  assumes "\<And>br i. br \<in> set brs \<Longrightarrow> ev br i = ev' br i"
  shows "or_clause ev U brs bs = or_clause ev' U brs bs" "or_join_clause ev U vs brs bs = or_join_clause ev' U vs brs bs"
  using seeded_branches_cong [of "sort_key branch_cost brs" ev ev'] union_branches_cong [of "sort_key branch_cost brs" ev ev']
    seeded_rows_cong [of "sort_key branch_cost brs" ev ev'] joined_branches_cong [of "sort_key branch_cost brs" ev ev'] assms
  by (simp_all add: or_clause_def or_join_clause_def Let_def cong: if_cong)

lemma apply_or_with_cong [fundef_cong]:
  assumes "U = U'" "cs = cs'" "bs = bs'"
    and "\<And>c br i. c \<in> set cs' \<Longrightarrow> br \<in> set (clause_branches c) \<Longrightarrow> ev br i = ev' br i"
  shows "apply_or_with ev U cs bs = apply_or_with ev' U' cs' bs'"
  unfolding assms(1,2,3) using assms(4)
proof (induction cs' arbitrary: bs')
  case (Cons c cs)
  have c: "or_clause ev U' (clause_branches c) b = or_clause ev' U' (clause_branches c) b"
    "or_join_clause ev U' vs (clause_branches c) b = or_join_clause ev' U' vs (clause_branches c) b" for b vs
    using Cons.prems by (auto intro!: or_clause_cong)
  have "apply_or_with ev U' cs b = apply_or_with ev' U' cs b" for b using Cons by auto
  then have "apply_or_with ev U' cs = apply_or_with ev' U' cs" by (rule ext)
  with c show ?case by (cases c) simp_all
qed simp

lemma branch_smaller:
  assumes "c \<in> set cs" "br \<in> set (clause_branches c)"
  shows "size_list size br < size_list size cs"
proof -
  have "size_list size br < size c"
    using assms(2) size_list_estimation' [of br "clause_branches c" "size_list size br" "size_list size"]
    by (cases c) auto
  also have "\<dots> \<le> size_list size cs" using assms(1) by (simp add: size_list_estimation')
  finally show ?thesis .
qed

definition branch_valid_at_value :: "valid_at option \<Rightarrow> u64 \<Rightarrow> value_t result" where
  "branch_valid_at_value va now = (case va of
      Some (VTimestamp t) \<Rightarrow> Ok (VInteger t)
    | Some AnyValidTime \<Rightarrow> Ok VNull
    | Some (VSlot _) \<Rightarrow> Err (Internal 25)
    | None \<Rightarrow> Ok (VInteger (I64 now)))"

definition branch_patterns :: "where_clause list \<Rightarrow> pattern list" where
  "branch_patterns branch = List.map_filter (\<lambda>c. case c of
      PatternC p \<Rightarrow> Some p
    | RuleInvocation pred args \<Rightarrow> result_to_option (rule_invocation_to_pattern pred args)
    | _ \<Rightarrow> None) branch"

fun any_result :: "bool result list \<Rightarrow> bool result" where
  "any_result [] = Ok False"
| "any_result (r # rs) = and_then r (\<lambda>b. if b then Ok True else any_result rs)"

text \<open>The \<^verbatim>\<open>not\<close> bodies of a branch, then its \<^verbatim>\<open>not-join\<close> bodies, on one row.\<close>

definition branch_violated :: "eval_env \<Rightarrow> fact list \<Rightarrow> value_t \<Rightarrow> where_clause list \<Rightarrow> bindings \<Rightarrow> bool result" where
  "branch_violated E fs vv branch b = any_result
     (List.map_filter (\<lambda>c. case c of Not body \<Rightarrow> Some (not_body_matches E body b fs vv) | _ \<Rightarrow> None) branch @
      List.map_filter (\<lambda>c. case c of NotJoin vs cs \<Rightarrow> Some (evaluate_not_join E vs cs b fs vv) | _ \<Rightarrow> None) branch)"

text \<open>
  The clock is read once and \<open>now\<close> handed to the branches nested in a branch; the source reads
  it again in each, which shows only in \<^verbatim>\<open>:db/valid-at\<close> of a query without a valid time.
\<close>

function evaluate_branch ::
    "eval_env \<Rightarrow> fact list \<Rightarrow> valid_at option \<Rightarrow> u64 \<Rightarrow> where_clause list \<Rightarrow> bindings list \<Rightarrow> bindings list result" where
  "evaluate_branch E fs va now branch incoming =
     (if incoming = [] then Ok []
      else and_then (branch_valid_at_value va now) (\<lambda>vv.
        let ps = branch_patterns branch;
            bs = (if ps = [] then incoming
                  else match_patterns_seeded (uuids E) (from_slice_with_valid_at fs vv) ps incoming)
        in if bs = [] then Ok []
           else and_then (apply_or_with (\<lambda>br i. evaluate_branch E fs va now br i) (uuids E) branch bs) (\<lambda>bs.
             if bs = [] then Ok []
             else and_then (if list_ex is_not branch then reject_rows (branch_violated E fs vv branch) bs else Ok bs)
               (\<lambda>bs. apply_expr_clauses E bs branch))))"
  by pat_completeness auto
termination
  by (relation "measure (\<lambda>(E, fs, va, now, branch, i). size_list size branch)") (auto simp: branch_smaller)

declare evaluate_branch.simps [simp del]

definition apply_or_clauses ::
    "eval_env \<Rightarrow> where_clause list \<Rightarrow> bindings list \<Rightarrow> fact list \<Rightarrow> valid_at option \<Rightarrow> u64 \<Rightarrow> bindings list result" where
  "apply_or_clauses E cs bs fs va now = apply_or_with (evaluate_branch E fs va now) (uuids E) cs bs"

section \<open>Keys and rows\<close>

lemma key_eq_PER: "key_eq a b \<Longrightarrow> key_eq b a" "key_eq a b \<Longrightarrow> key_eq b c \<Longrightarrow> key_eq a c"
proof -
  show "key_eq a b \<Longrightarrow> key_eq b a"
    unfolding key_eq_def by (induction rule: list_all2_induct) (auto intro: value_eq_PER(1))
  show "key_eq a b \<Longrightarrow> key_eq b c \<Longrightarrow> key_eq a c"
    unfolding key_eq_def
    by (rule list_all2_trans [of "\<lambda>(k, v) (k', v'). k = k' \<and> value_eq v v'" "\<lambda>(k, v) (k', v'). k = k' \<and> value_eq v v'"])
       (auto intro: value_eq_PER(2))
qed

lemma key_eq_lookup: "key_eq a b \<Longrightarrow> rel_option value_eq (map_of a k) (map_of b k)"
  unfolding key_eq_def by (induction rule: list_all2_induct) auto

lemma map_of_sorted_row:
  assumes "distinct (map fst b)"
  shows "map_of (sorted_row b) = map_of b"
proof
  fix k
  have d: "distinct (map fst (sorted_row b))"
    using assms by (simp add: sorted_row_def distinct_map inj_on_def)
  have "map_of (sorted_row b) k = Some v \<longleftrightarrow> map_of b k = Some v" for v
    unfolding map_of_eq_Some_iff [OF d] map_of_eq_Some_iff [OF assms] by (simp add: sorted_row_def)
  then show "map_of (sorted_row b) k = map_of b k"
    by (cases "map_of b k"; cases "map_of (sorted_row b) k") auto
qed

lemma key_eq_rows:
  "distinct (map fst a) \<Longrightarrow> distinct (map fst b) \<Longrightarrow> key_eq (sorted_row a) (sorted_row b) \<Longrightarrow>
     rel_option value_eq (map_of a k) (map_of b k)"
  using key_eq_lookup [of "sorted_row a" "sorted_row b" k] by (simp add: map_of_sorted_row)

lemma key_eq_refl: "\<forall>v \<in> snd ` set b. \<not> value_is_nan v \<Longrightarrow> key_eq (sorted_row b) (sorted_row b)"
proof -
  assume "\<forall>v \<in> snd ` set b. \<not> value_is_nan v"
  moreover have "value_eq v v \<longleftrightarrow> \<not> value_is_nan v" for v by (cases v) (simp_all add: value_eq_refl_iff)
  ultimately have "\<forall>v \<in> snd ` set (sorted_row b). value_eq v v" by (simp add: sorted_row_def)
  then show ?thesis unfolding key_eq_def by (intro list_all2_same [THEN iffD2]) auto
qed

lemma value_eq_normalize: "value_eq x y \<Longrightarrow> value_eq (normalize_value U x) (normalize_value U y)"
  by (cases x; cases y) auto

lemma key_eq_project_iff:
  assumes "\<forall>v \<in> set V. map_of a v \<noteq> None" "\<forall>v \<in> set V. map_of b v \<noteq> None"
  shows "key_eq (project U V a) (project U V b) \<longleftrightarrow> (\<forall>v \<in> set V. same U (the (map_of a v)) (the (map_of b v)))"
  using project_full [OF assms(1)] project_full [OF assms(2)] by (simp add: key_eq_map)

lemma kmap_get_push: "kmap_get (kmap_push q b m) k \<noteq> None \<longleftrightarrow> key_eq k q \<or> kmap_get m k \<noteq> None"
proof (induction m)
  case (Cons e m)
  obtain k' bs where e: "e = (k', bs)" by (cases e)
  show ?case
  proof (cases "key_eq q k'")
    case True
    then have "key_eq k q \<longleftrightarrow> key_eq k k'" using key_eq_PER by blast
    with True show ?thesis by (simp add: e)
  qed (use Cons in \<open>auto simp: e\<close>)
qed simp

definition kmap_all :: "(bindings \<Rightarrow> bool) \<Rightarrow> (key \<times> bindings list) list \<Rightarrow> bool" where
  "kmap_all P m \<longleftrightarrow> list_all (\<lambda>(k, bs). bs \<noteq> [] \<and> list_all P bs) m"

lemma kmap_push_rows: "kmap_all P m \<Longrightarrow> P b \<Longrightarrow> kmap_all P (kmap_push q b m)"
  unfolding kmap_all_def by (induction m) auto

lemma kmap_get_rows: "kmap_get m k = Some bs \<Longrightarrow> \<exists>k'. (k', bs) \<in> set m"
  by (induction m) (auto split: if_splits)

lemma or_insert_all_id: "fst ` set r \<subseteq> fst ` set inc \<Longrightarrow> or_insert_all r inc = inc"
proof (induction r)
  case (Cons e r)
  obtain k v where e: "e = (k, v)" by (cases e)
  obtain y where "map_of inc k = Some y" using Cons.prems by (cases "map_of inc k") (auto simp: e map_of_eq_None_iff)
  with Cons show ?case by (simp add: e or_insert_all_def)
qed (simp add: or_insert_all_def)

text \<open>The rows with a new key, in order.\<close>

definition push_rows :: "(bindings \<Rightarrow> key) \<Rightarrow> bindings list \<Rightarrow> bindings list \<Rightarrow> bindings list" where
  "push_rows kf rows out = fold (\<lambda>b out. if list_ex (\<lambda>c. key_eq (kf b) (kf c)) out then out else out @ [b]) rows out"

definition distinct_rows :: "bindings list \<Rightarrow> bindings list" where
  "distinct_rows rows = push_rows sorted_row rows []"

lemma fold_push_new: "fold (push_new kf) rows (map kf out, out) = (map kf (push_rows kf rows out), push_rows kf rows out)"
proof (induction rows arbitrary: out)
  case (Cons b rows)
  have "push_new kf b (map kf out, out) =
      (map kf (if list_ex (\<lambda>c. key_eq (kf b) (kf c)) out then out else out @ [b]),
       if list_ex (\<lambda>c. key_eq (kf b) (kf c)) out then out else out @ [b])"
    by (auto simp: push_new_def has_key_def list_ex_iff)
  with Cons show ?case by (simp add: push_rows_def)
qed (simp add: push_rows_def)

lemma distinct_rows_eq: "snd (fold (push_new sorted_row) rows ([], [])) = distinct_rows rows"
  using fold_push_new [of sorted_row rows "[]"] by (simp add: distinct_rows_def)

lemma push_new_twice: "key_eq (kf b) (kf b) \<Longrightarrow> push_new kf b (push_new kf b acc) = push_new kf b acc"
  by (cases acc) (auto simp: push_new_def has_key_def)

section \<open>Or-join\<close>

definition matched :: "uuid_ops \<Rightarrow> string list \<Rightarrow> bindings list \<Rightarrow> bindings \<Rightarrow> bool" where
  "matched U vars rows inc \<longleftrightarrow> list_ex (\<lambda>r. list_all (\<lambda>v. map_of r v \<noteq> None \<and>
     same U (the (map_of inc v)) (the (map_of r v))) vars) rows"

definition file_inv ::
    "uuid_ops \<Rightarrow> string list \<Rightarrow> string list \<Rightarrow> bindings list \<Rightarrow> key list \<times> (key \<times> bindings list) list \<Rightarrow> bool" where
  "file_inv U vars outer L acc \<longleftrightarrow>
     (\<forall>k. kmap_get (snd acc) k \<noteq> None \<longleftrightarrow> (\<exists>r \<in> set L. list_all (\<lambda>v. map_of r v \<noteq> None) vars \<and> key_eq k (project U vars r))) \<and>
     kmap_all (\<lambda>b. fst ` set b \<subseteq> set outer) (snd acc) \<and>
     (\<forall>k \<in> set (fst acc). \<exists>r \<in> set L. list_all (\<lambda>v. map_of r v \<noteq> None) vars \<and> distinct (map fst r) \<and>
        k = sorted_row (filter (\<lambda>(k, v). k \<in> set outer) r))"

lemma map_of_filter_outer: "k \<in> K \<Longrightarrow> map_of (filter (\<lambda>(k, v). k \<in> K) r) k = map_of r k"
  by (induction r) auto

lemma project_filter_outer:
  "set vars \<subseteq> set outer \<Longrightarrow> project U vars (filter (\<lambda>(k, v). k \<in> set outer) r) = project U vars r"
  by (induction vars) (simp_all add: project_def map_filter_simps map_of_filter_outer split: option.split)

lemma file_row_inv:
  assumes inv: "file_inv U vars outer L acc" and vars: "set vars \<subseteq> set outer" and r: "distinct (map fst r)"
  shows "file_inv U vars outer (L @ [r]) (file_row U vars outer r acc)"
proof -
  obtain seen m where acc: "acc = (seen, m)" by (cases acc)
  let ?r = "filter (\<lambda>(k, v). k \<in> set outer) r"
  have dr: "distinct (map fst ?r)" using r by (rule distinct_map_filter)
  show ?thesis
  proof (cases "list_all (\<lambda>v. map_of r v \<noteq> None) vars")
    case False
    then show ?thesis using inv by (auto simp: file_inv_def file_row_def acc)
  next
    case bound: True
    show ?thesis
    proof (cases "has_key seen (sorted_row ?r)")
      case True
      then obtain r' where r': "r' \<in> set L" "list_all (\<lambda>v. map_of r' v \<noteq> None) vars" "distinct (map fst r')"
          "key_eq (sorted_row ?r) (sorted_row (filter (\<lambda>(k, v). k \<in> set outer) r'))"
        using inv by (auto simp: has_key_def list_ex_iff file_inv_def acc)
      have eq: "rel_option value_eq (map_of r v) (map_of r' v)" if "v \<in> set outer" for v
        using key_eq_rows [OF dr distinct_map_filter [OF r'(3)] r'(4), of v] by (simp add: map_of_filter_outer that)
      have "same U (the (map_of r v)) (the (map_of r' v))" if v: "v \<in> set vars" for v
      proof -
        obtain x y where xy: "map_of r v = Some x" "map_of r' v = Some y" using bound r'(2) v by (simp add: list_all_iff) blast
        then have "value_eq x y" using eq [of v] vars v by auto
        then show ?thesis using value_eq_normalize by (simp add: xy normalize_value_eq [symmetric])
      qed
      then have "key_eq (project U vars r) (project U vars r')"
        using bound r'(2) by (simp add: key_eq_project_iff list_all_iff)
      then have "key_eq k (project U vars r) \<Longrightarrow> key_eq k (project U vars r')" for k using key_eq_PER(2) by blast
      with True inv bound r'(1,2) show ?thesis by (auto simp: file_inv_def file_row_def acc)
    next
      case False
      have keys: "fst ` set ?r \<subseteq> set outer" by auto
      have step: "file_row U vars outer r acc = (seen @ [sorted_row ?r], kmap_push (project U vars r) ?r m)"
        using False bound by (simp add: file_row_def acc project_filter_outer [OF vars] Let_def)
      have "kmap_all (\<lambda>b. fst ` set b \<subseteq> set outer) (kmap_push (project U vars r) ?r m)"
        using inv keys by (intro kmap_push_rows) (simp_all add: file_inv_def acc)
      moreover have "kmap_get (kmap_push (project U vars r) ?r m) k \<noteq> None \<longleftrightarrow>
          (\<exists>r \<in> set (L @ [r]). list_all (\<lambda>v. map_of r v \<noteq> None) vars \<and> key_eq k (project U vars r))" for k
        unfolding kmap_get_push using inv bound by (auto simp: file_inv_def acc)
      moreover have "\<exists>r \<in> set (L @ [r]). list_all (\<lambda>v. map_of r v \<noteq> None) vars \<and> distinct (map fst r) \<and>
          k = sorted_row (filter (\<lambda>(k, v). k \<in> set outer) r)" if "k \<in> set (seen @ [sorted_row ?r])" for k
        using that inv bound r unfolding file_inv_def acc by auto
      ultimately show ?thesis unfolding file_inv_def step by simp
    qed
  qed
qed

lemma fold_file_row_inv:
  "file_inv U vars outer L acc \<Longrightarrow> set vars \<subseteq> set outer \<Longrightarrow> \<forall>r \<in> set rows. distinct (map fst r) \<Longrightarrow>
     file_inv U vars outer (L @ rows) (fold (file_row U vars outer) rows acc)"
proof (induction rows arbitrary: L acc)
  case (Cons r rows)
  from file_row_inv [OF Cons.prems(1,2), of r] Cons.prems Cons.IH [of "L @ [r]" "file_row U vars outer r acc"]
  show ?case by simp
qed simp

lemma joined_branches_inv:
  assumes "file_inv U vars outer L acc" "set vars \<subseteq> set outer" "\<forall>br \<in> set brs. ev br [[]] = Ok (R br)"
    and "\<forall>br \<in> set brs. \<forall>r \<in> set (R br). distinct (map fst r)"
  shows "\<exists>seen m rows. joined_branches ev U vars outer req brs acc = Ok m \<and> file_inv U vars outer (L @ rows) (seen, m) \<and>
    set rows \<subseteq> set (concat (map R brs)) \<and> (set rows = set (concat (map R brs)) \<or> list_all (\<lambda>k. kmap_get m k \<noteq> None) req)"
  using assms
proof (induction brs arbitrary: L acc)
  case Nil
  then show ?case by (intro exI [of _ "fst acc"] exI [of _ "snd acc"] exI [of _ "[]"]) simp
next
  case (Cons br brs)
  define acc' where "acc' = fold (file_row U vars outer) (R br) acc"
  have inv: "file_inv U vars outer (L @ R br) acc'"
    unfolding acc'_def using Cons.prems by (intro fold_file_row_inv) auto
  have step: "joined_branches ev U vars outer req (br # brs) acc =
      (if list_all (\<lambda>k. kmap_get (snd acc') k \<noteq> None) req then Ok (snd acc') else joined_branches ev U vars outer req brs acc')"
    using Cons.prems(3) by (simp add: acc'_def Let_def)
  show ?case
  proof (cases "list_all (\<lambda>k. kmap_get (snd acc') k \<noteq> None) req")
    case True
    then show ?thesis using inv step
      by (intro exI [of _ "fst acc'"] exI [of _ "snd acc'"] exI [of _ "R br"]) auto
  next
    case False
    obtain seen m rows where "joined_branches ev U vars outer req brs acc' = Ok m"
        "file_inv U vars outer ((L @ R br) @ rows) (seen, m)" "set rows \<subseteq> set (concat (map R brs))"
        "set rows = set (concat (map R brs)) \<or> list_all (\<lambda>k. kmap_get m k \<noteq> None) req"
      using Cons.IH [OF inv] Cons.prems(2,3,4) by auto
    with False step show ?thesis
      by (intro exI [of _ seen] exI [of _ m] exI [of _ "R br @ rows"]) auto
  qed
qed

lemma fold_push_replicate:
  "key_eq (kf b) (kf b) \<Longrightarrow> n \<noteq> 0 \<Longrightarrow> fold (push_new kf) (replicate n b) acc = push_new kf b acc"
proof (induction n arbitrary: acc)
  case (Suc n)
  then show ?case by (cases n) (simp_all add: push_new_twice)
qed simp

lemma join_rows_filter:
  assumes m: "kmap_all (\<lambda>b. fst ` set b \<subseteq> D) m"
    and bs: "\<forall>b \<in> set bs. fst ` set b = D \<and> (\<forall>v \<in> snd ` set b. \<not> value_is_nan v)"
  shows "join_rows U vars m bs =
    distinct_rows (filter (\<lambda>b. kmap_get m (project U vars b) \<noteq> None) bs)"
proof -
  let ?rows = "\<lambda>inc. case kmap_get m (project U vars inc) of Some rows \<Rightarrow> map (\<lambda>r. or_insert_all r inc) rows | None \<Rightarrow> []"
  have rep: "\<exists>n. n \<noteq> 0 \<and> ?rows inc = replicate n inc"
    if inc: "inc \<in> set bs" and get: "kmap_get m (project U vars inc) = Some rows" for inc rows
  proof -
    obtain k where "(k, rows) \<in> set m" using kmap_get_rows [OF get] by blast
    then have "rows \<noteq> []" "\<forall>r \<in> set rows. fst ` set r \<subseteq> D" using m by (auto simp: kmap_all_def list_all_iff dest!: bspec)
    then have "map (\<lambda>r. or_insert_all r inc) rows = replicate (length rows) inc"
      using bs inc by (intro replicate_eqI) (auto simp: or_insert_all_id)
    with \<open>rows \<noteq> []\<close> get show ?thesis by (intro exI [of _ "length rows"]) simp
  qed
  have "fold (push_new sorted_row) (concat (map ?rows xs)) acc =
      fold (push_new sorted_row) (filter (\<lambda>b. kmap_get m (project U vars b) \<noteq> None) xs) acc" if "set xs \<subseteq> set bs" for xs acc
    using that
  proof (induction xs arbitrary: acc)
    case (Cons inc xs)
    have "key_eq (sorted_row inc) (sorted_row inc)" using bs Cons.prems by (intro key_eq_refl) auto
    note refl = this
    have IH: "fold (push_new sorted_row) (concat (map ?rows xs)) acc =
        fold (push_new sorted_row) (filter (\<lambda>b. kmap_get m (project U vars b) \<noteq> None) xs) acc" for acc
      using Cons by simp
    show ?case
    proof (cases "kmap_get m (project U vars inc)")
      case None
      with IH show ?thesis by simp
    next
      case (Some rows)
      then obtain n where "n \<noteq> 0" "?rows inc = replicate n inc" using rep Cons.prems by force
      then show ?thesis using IH Some fold_push_replicate [of sorted_row inc n] refl by simp
    qed
  qed simp
  from this [of bs] show ?thesis by (simp add: join_rows_def distinct_rows_eq [symmetric])
qed

text \<open>
  C20. An \<^verbatim>\<open>or-join\<close> is a filter: what it returns are the incoming rows, in order and without
  repetition, that agree on the join variables with some row of some branch. So neither the
  cost order of the branches nor stopping before all of them have run shows in the result.
  The rows bind the same variables, none to NaN, and no branch reads a variable it does not
  bind.
\<close>

theorem or_join_is_filter:
  assumes "\<forall>br \<in> set branches. ev br [[]] = Ok (R br) \<and> branch_outer_reads br = [] \<and> (\<forall>r \<in> set (R br). distinct (map fst r))"
    and "\<forall>b \<in> set bs. fst ` set b = D \<and> (\<forall>v \<in> snd ` set b. \<not> value_is_nan v)" and "set join_vars \<subseteq> D" and "bs \<noteq> []"
  shows "or_join_clause ev U join_vars branches bs =
    Ok (distinct_rows (filter (matched U join_vars (concat (map R branches))) bs))"
proof -
  let ?sorted = "sort_key branch_cost branches" and ?outer = "row_names bs"
  have "set ?outer = (\<Union>b \<in> set bs. fst ` set b)" by (simp add: row_names_def image_UN)
  also have "\<dots> = D" using assms(2,4) by (cases bs) simp_all
  finally have outer: "set ?outer = D" .
  have start: "file_inv U join_vars ?outer [] ([], [])" by (simp add: file_inv_def kmap_all_def)
  obtain seen m rows where J: "joined_branches ev U join_vars ?outer (map (project U join_vars) bs) ?sorted ([], []) = Ok m"
      "file_inv U join_vars ?outer rows (seen, m)" "set rows \<subseteq> set (concat (map R ?sorted))"
      "set rows = set (concat (map R ?sorted)) \<or> list_all (\<lambda>k. kmap_get m k \<noteq> None) (map (project U join_vars) bs)"
    using joined_branches_inv [OF start, of ?sorted ev R "map (project U join_vars) bs"] assms(1,3) outer by auto
  have rows: "set (concat (map R ?sorted)) = set (concat (map R branches))" by simp
  have hit: "kmap_get m (project U join_vars b) \<noteq> None \<longleftrightarrow> matched U join_vars rows b" if b: "b \<in> set bs" for b
  proof -
    have bb: "\<forall>v \<in> set join_vars. map_of b v \<noteq> None" using assms(2,3) b by (auto simp: map_of_eq_None_iff)
    have "kmap_get m (project U join_vars b) \<noteq> None \<longleftrightarrow>
        (\<exists>r \<in> set rows. list_all (\<lambda>v. map_of r v \<noteq> None) join_vars \<and> key_eq (project U join_vars b) (project U join_vars r))"
      using J(2) by (simp add: file_inv_def)
    also have "\<dots> \<longleftrightarrow> matched U join_vars rows b"
      unfolding matched_def list_ex_iff list_all_iff using key_eq_project_iff [OF bb, of _ U] by (intro bex_cong refl) blast
    finally show ?thesis .
  qed
  have "matched U join_vars rows b \<longleftrightarrow> matched U join_vars (concat (map R branches)) b" if b: "b \<in> set bs" for b
  proof (cases "set rows = set (concat (map R ?sorted))")
    case True
    then show ?thesis unfolding rows by (simp add: matched_def list_ex_iff)
  next
    case False
    then have "matched U join_vars rows b" using J(4) hit [OF b] b by (simp add: list_all_iff)
    then show ?thesis using J(3) unfolding rows matched_def list_ex_iff by blast
  qed
  then have "filter (\<lambda>b. kmap_get m (project U join_vars b) \<noteq> None) bs = filter (matched U join_vars (concat (map R branches))) bs"
    using hit by (intro filter_cong) auto
  moreover have "join_rows U join_vars m bs =
      distinct_rows (filter (\<lambda>b. kmap_get m (project U join_vars b) \<noteq> None) bs)"
    using J(2) outer by (intro join_rows_filter [OF _ assms(2)]) (simp add: file_inv_def)
  moreover have "\<not> list_ex (\<lambda>v. v \<notin> set ?outer) join_vars" using assms(3) outer by (auto simp: list_ex_iff)
  moreover have "\<not> list_ex (\<lambda>b. branch_outer_reads b \<noteq> []) ?sorted" using assms(1) by (auto simp: list_ex_iff)
  ultimately show ?thesis using assms(4) J(1) by (simp add: or_join_clause_def)
qed

definition sample_eval :: branch_eval where
  "sample_eval = evaluate_branch sample_env (get_facts sample_matcher) None 0"

theorem or_join_is_filter_witness:
  "or_join_clause sample_eval sample_uuid_ops [''?a''] [[PatternC (sample_patterns ! 0)]] [[(''?a'', VRef 1)], [(''?a'', VRef 2)]] =
   Ok [[(''?a'', VRef 1)]]"
proof -
  let ?brs = "[[PatternC (sample_patterns ! 0)]]" and ?R = "\<lambda>br. projr (sample_eval br [[]])"
  let ?bs = "[[(''?a'', VRef 1)], [(''?a'', VRef 2)]]"
  have ev: "sample_eval [PatternC (sample_patterns ! 0)] [[]] =
      Ok [(''?a'', VRef 1) # (''?b'', VRef 2) # hidden_entries sample_uuid_ops (fact_new 1 '':knows'' (VRef 2) 0)]"
    by code_simp
  have "or_join_clause sample_eval sample_uuid_ops [''?a''] ?brs ?bs =
      Ok (distinct_rows (filter (matched sample_uuid_ops [''?a''] (concat (map ?R ?brs))) ?bs))"
    by (rule or_join_is_filter [where D = "{''?a''}"])
       (simp_all add: ev branch_outer_reads_def hidden_entries_def Let_def)
  then show ?thesis by (simp add: ev matched_def same_def distinct_rows_def push_rows_def)
qed

section \<open>Or\<close>

lemma kmap_get_pushed:
  "kmap_get (kmap_push q b m) k =
     (if key_eq k q then Some ((case kmap_get m k of Some bs \<Rightarrow> bs | None \<Rightarrow> []) @ [b]) else kmap_get m k)"
proof (induction m)
  case (Cons e m)
  obtain k' bs where e: "e = (k', bs)" by (cases e)
  show ?case
  proof (cases "key_eq q k'")
    case True
    then have "key_eq k q \<longleftrightarrow> key_eq k k'" using key_eq_PER by blast
    with True show ?thesis by (simp add: e)
  next
    case False
    then have "\<not> (key_eq k q \<and> key_eq k k')" using key_eq_PER by blast
    with False Cons show ?thesis by (auto simp: e)
  qed
qed simp

lemma kmap_get_fold:
  "kmap_get (fold (\<lambda>b. kmap_push (kf b) b) L []) k =
     (if filter (\<lambda>b. key_eq k (kf b)) L = [] then None else Some (filter (\<lambda>b. key_eq k (kf b)) L))"
  by (induction L rule: rev_induct) (auto simp: kmap_get_pushed)

lemma map_of_or_insert_all: "map_of (or_insert_all r inc) k = (case map_of inc k of Some x \<Rightarrow> Some x | None \<Rightarrow> map_of r k)"
proof (induction r arbitrary: inc)
  case (Cons e r)
  obtain k' v where e: "e = (k', v)" by (cases e)
  have "or_insert_all (e # r) inc = or_insert_all r (if map_of inc k' = None then AList.update k' v inc else inc)"
    by (simp add: e or_insert_all_def)
  with Cons show ?case by (auto simp: e update_conv' split: option.splits)
qed (simp add: or_insert_all_def split: option.splits)

lemma distinct_or_insert_all: "distinct (map fst inc) \<Longrightarrow> distinct (map fst (or_insert_all r inc))"
proof (induction r arbitrary: inc)
  case (Cons e r)
  obtain k' v where e: "e = (k', v)" by (cases e)
  have "or_insert_all (e # r) inc = or_insert_all r (if map_of inc k' = None then AList.update k' v inc else inc)"
    by (simp add: e or_insert_all_def)
  with Cons show ?case by (auto simp: distinct_update)
qed (simp add: or_insert_all_def)

lemma push_rows_subset: "set out \<subseteq> set (push_rows kf rows out)" "set (push_rows kf rows out) \<subseteq> set out \<union> set rows"
proof -
  have "set out \<subseteq> set (push_rows kf rows out) \<and> set (push_rows kf rows out) \<subseteq> set out \<union> set rows"
  proof (induction rows arbitrary: out)
    case (Cons b rows)
    have "push_rows kf (b # rows) out = push_rows kf rows (if list_ex (\<lambda>c. key_eq (kf b) (kf c)) out then out else out @ [b])"
      by (simp add: push_rows_def)
    with Cons [of out] Cons [of "out @ [b]"] show ?case by (simp split: if_splits) auto
  qed (simp add: push_rows_def)
  then show "set out \<subseteq> set (push_rows kf rows out)" "set (push_rows kf rows out) \<subseteq> set out \<union> set rows" by blast+
qed

lemma push_rows_represents: "r \<in> set rows \<Longrightarrow> \<exists>c \<in> set (push_rows kf rows out). c = r \<or> key_eq (kf r) (kf c)"
proof (induction rows arbitrary: out)
  case (Cons b rows)
  let ?out = "if list_ex (\<lambda>c. key_eq (kf b) (kf c)) out then out else out @ [b]"
  have step: "push_rows kf (b # rows) out = push_rows kf rows ?out" by (simp add: push_rows_def)
  show ?case
  proof (cases "r = b")
    case True
    then have "\<exists>c \<in> set ?out. c = r \<or> key_eq (kf r) (kf c)" by (auto simp: list_ex_iff)
    then show ?thesis unfolding step using push_rows_subset(1) by blast
  qed (use Cons step in auto)
qed simp

lemma union_branches_found:
  assumes "\<forall>br \<in> set brs. ev br [[]] = Ok (R br)" "seen = map (\<lambda>b. sorted_row (visible b)) out"
  shows "\<exists>found. union_branches ev U brs incoming (seen, out) = Ok found \<and>
    set out \<subseteq> set found \<and> set found \<subseteq> set out \<union> set (concat (map R brs)) \<and>
    (fully_covered U incoming found \<or>
     (\<forall>r \<in> set (concat (map R brs)). \<exists>c \<in> set found. c = r \<or> key_eq (sorted_row (visible r)) (sorted_row (visible c))))"
  using assms
proof (induction brs arbitrary: seen out)
  case (Cons br brs)
  let ?kf = "\<lambda>b. sorted_row (visible b)"
  define out' where "out' = push_rows ?kf (R br) out"
  define seen' where "seen' = map ?kf out'"
  have f: "fold (push_new ?kf) (R br) (seen, out) = (seen', out')"
    unfolding Cons.prems(2) fold_push_new seen'_def out'_def ..
  have P: "seen' = map ?kf out'" "set out \<subseteq> set out'" "set out' \<subseteq> set out \<union> set (R br)"
      "\<And>r. r \<in> set (R br) \<Longrightarrow> \<exists>c \<in> set out'. c = r \<or> key_eq (?kf r) (?kf c)"
    unfolding out'_def seen'_def by (rule refl push_rows_subset push_rows_represents | assumption)+
  have step: "union_branches ev U (br # brs) incoming (seen, out) =
      (if fully_covered U incoming out' then Ok out' else union_branches ev U brs incoming (seen', out'))"
    using Cons.prems(1) f by simp
  show ?case
  proof (cases "fully_covered U incoming out'")
    case True
    with step P(2,3) show ?thesis by auto
  next
    case False
    obtain found where F: "union_branches ev U brs incoming (seen', out') = Ok found" "set out' \<subseteq> set found"
        "set found \<subseteq> set out' \<union> set (concat (map R brs))"
        "fully_covered U incoming found \<or>
          (\<forall>r \<in> set (concat (map R brs)). \<exists>c \<in> set found. c = r \<or> key_eq (?kf r) (?kf c))"
      using Cons.IH [OF _ P(1)] Cons.prems(1) by auto
    have "\<exists>c \<in> set found. c = r \<or> key_eq (?kf r) (?kf c)" if "r \<in> set (R br)" for r using P(4) [OF that] F(2) by blast
    with F step False P(2,3) show ?thesis by auto
  qed
qed simp

definition agree_visible :: "uuid_ops \<Rightarrow> bindings \<Rightarrow> bindings \<Rightarrow> bool" where
  "agree_visible U inc r \<longleftrightarrow> (\<forall>v x y. \<not> prefix ''__'' v \<longrightarrow> map_of inc v = Some x \<longrightarrow> map_of r v = Some y \<longrightarrow> same U x y)"

text \<open>Rows that show the same variables with equal values.\<close>

definition alike :: "bindings \<Rightarrow> bindings \<Rightarrow> bool" where
  "alike b c \<longleftrightarrow> (\<forall>k. \<not> prefix ''__'' k \<longrightarrow> rel_option (\<lambda>x y. x = y \<or> value_eq x y) (map_of b k) (map_of c k))"

lemma alikeI: "(\<And>k. \<not> prefix ''__'' k \<Longrightarrow> rel_option value_eq (map_of a k) (map_of b k)) \<Longrightarrow> alike a b"
  unfolding alike_def by (intro allI impI, rule option.rel_mono_strong) blast+

lemma alike_refl: "alike a a"
  by (simp add: alike_def option.rel_refl)

lemma alike_trans:
  assumes "alike a b" "alike b c"
  shows "alike a c"
  unfolding alike_def
proof (intro allI impI)
  fix k assume "\<not> prefix ''__'' k"
  then have r: "rel_option (\<lambda>x y. x = y \<or> value_eq x y) (map_of a k) (map_of b k)"
      "rel_option (\<lambda>x y. x = y \<or> value_eq x y) (map_of b k) (map_of c k)"
    using assms by (simp_all add: alike_def)
  from r show "rel_option (\<lambda>x y. x = y \<or> value_eq x y) (map_of a k) (map_of c k)"
    by (cases "map_of a k"; cases "map_of b k"; cases "map_of c k") (auto intro: value_eq_PER(2))
qed

lemma map_of_visible: "\<not> prefix ''__'' k \<Longrightarrow> map_of (visible b) k = map_of b k"
  unfolding visible_def by (induction b) auto

lemma alike_visible:
  assumes "distinct (map fst a)" "distinct (map fst b)" "key_eq (sorted_row (visible a)) (sorted_row (visible b))"
  shows "alike a b"
proof -
  have d: "distinct (map fst (visible b))" if "distinct (map fst b)" for b
    unfolding visible_def using that by (rule distinct_map_filter)
  have vis: "rel_option value_eq (map_of (visible a) k) (map_of (visible b) k)" for k
    by (rule key_eq_rows [OF d [OF assms(1)] d [OF assms(2)] assms(3)])
  have "rel_option value_eq (map_of a k) (map_of b k)" if "\<not> prefix ''__'' k" for k
    using vis [of k] unfolding map_of_visible [OF that] .
  then show ?thesis by (rule alikeI)
qed

lemma alike_sorted:
  assumes "distinct (map fst a)" "distinct (map fst b)" "key_eq (sorted_row a) (sorted_row b)"
  shows "alike a b"
  using key_eq_rows [OF assms] by (rule alikeI)

lemma alike_merge: "alike r r' \<Longrightarrow> alike (or_insert_all r inc) (or_insert_all r' inc)"
  by (auto simp: alike_def map_of_or_insert_all split: option.splits)

lemma alike_agree: "alike r r' \<Longrightarrow> agree_visible U inc r \<Longrightarrow> agree_visible U inc r'"
  unfolding agree_visible_def
proof (intro allI impI)
  fix v x y assume a: "alike r r'" and ag: "\<forall>v x y. \<not> prefix ''__'' v \<longrightarrow> map_of inc v = Some x \<longrightarrow> map_of r v = Some y \<longrightarrow> same U x y"
    and v: "\<not> prefix ''__'' v" "map_of inc v = Some x" "map_of r' v = Some y"
  then have "rel_option (\<lambda>x y. x = y \<or> value_eq x y) (map_of r v) (Some y)" by (metis alike_def)
  then obtain z where z: "map_of r v = Some z" "z = y \<or> value_eq z y" by (cases "map_of r v") auto
  moreover have "same U z y" if "value_eq z y" using value_eq_normalize [OF that, of U] by (simp add: normalize_value_eq)
  ultimately show "same U x y" using ag v same_trans by blast
qed

definition shown :: "bindings \<Rightarrow> string set" where
  "shown b = {k \<in> fst ` set b. \<not> prefix ''__'' k}"

lemma merge_shown:
  assumes "shown r \<subseteq> shown inc" "\<not> prefix ''__'' k"
  shows "map_of (or_insert_all r inc) k = map_of inc k"
proof (cases "map_of inc k")
  case None
  then have "k \<notin> shown r" using assms(1) by (auto simp: shown_def map_of_eq_None_iff)
  then have "map_of r k = None" using assms(2) by (simp add: shown_def map_of_eq_None_iff)
  with None show ?thesis by (simp add: map_of_or_insert_all)
qed (simp add: map_of_or_insert_all)

lemma branch_names_shown: "found \<noteq> [] \<Longrightarrow> \<forall>r \<in> set found. shown r = W \<Longrightarrow> set (branch_names found) = W"
proof -
  assume f: "found \<noteq> []" "\<forall>r \<in> set found. shown r = W"
  have "set (branch_names found) = (\<Union>r \<in> set found. shown r)" by (auto simp: branch_names_def row_names_def shown_def)
  also have "\<dots> = W" using f by (cases found) auto
  finally show ?thesis .
qed

lemma agree_project:
  assumes "set V = shown inc \<inter> shown r"
  shows "key_eq (project U V inc) (project U V r) \<longleftrightarrow> agree_visible U inc r"
proof -
  have b: "\<forall>v \<in> set V. map_of inc v \<noteq> None" "\<forall>v \<in> set V. map_of r v \<noteq> None"
    using assms by (auto simp: shown_def map_of_eq_None_iff)
  have "v \<in> set V" if "\<not> prefix ''__'' v" "map_of inc v = Some x" "map_of r v = Some y" for v x y
    using that assms by (force simp: shown_def dest: map_of_SomeD)
  moreover have "\<not> prefix ''__'' v" if "v \<in> set V" for v using that assms by (simp add: shown_def)
  ultimately show ?thesis
    unfolding key_eq_project_iff [OF b] agree_visible_def using b by fastforce
qed

lemma joined_with:
  assumes "m = fold (\<lambda>b. kmap_push (project U V b) b) found []"
    and "\<And>inc r. inc \<in> set bs \<Longrightarrow> r \<in> set found \<Longrightarrow> set V = shown inc \<inter> shown r"
  shows "join_rows U V m bs =
    distinct_rows (concat (map (\<lambda>inc. map (\<lambda>r. or_insert_all r inc) (filter (agree_visible U inc) found)) bs))"
proof -
  have "(case kmap_get m (project U V inc) of Some rows \<Rightarrow> map (\<lambda>r. or_insert_all r inc) rows | None \<Rightarrow> []) =
      map (\<lambda>r. or_insert_all r inc) (filter (agree_visible U inc) found)" if "inc \<in> set bs" for inc
  proof -
    have "filter (\<lambda>r. key_eq (project U V inc) (project U V r)) found = filter (agree_visible U inc) found"
      using agree_project [OF assms(2) [OF that]] by (intro filter_cong) auto
    then show ?thesis unfolding assms(1) kmap_get_fold by simp
  qed
  then have "map (\<lambda>inc. case kmap_get m (project U V inc) of Some rows \<Rightarrow> map (\<lambda>r. or_insert_all r inc) rows | None \<Rightarrow> []) bs =
      map (\<lambda>inc. map (\<lambda>r. or_insert_all r inc) (filter (agree_visible U inc) found)) bs"
    by (intro map_cong) auto
  then show ?thesis unfolding join_rows_def distinct_rows_eq by (rule arg_cong)
qed

lemma covered_agrees:
  assumes "fully_covered U bs found" "inc \<in> set bs" "\<forall>b \<in> set bs. shown b = D" "\<forall>r \<in> set found. shown r = W"
  shows "W \<subseteq> D \<and> (\<exists>r \<in> set found. agree_visible U inc r)"
proof -
  define names where "names = branch_names found"
  have c: "names \<noteq> []" "list_all (\<lambda>v. v \<in> set (branch_names bs)) names"
      "has_key (map (\<lambda>b. sorted_row (project U names b)) found) (sorted_row (project U names inc))"
    using assms(1,2) by (auto simp: fully_covered_def names_def Let_def list_all_iff)
  then have ne: "found \<noteq> []" by (auto simp: has_key_def)
  have W: "set names = W" unfolding names_def by (rule branch_names_shown [OF ne assms(4)])
  have "set (branch_names bs) = D" using assms(2,3) by (intro branch_names_shown) auto
  then have sub: "W \<subseteq> D" using c(2) W by (auto simp: list_all_iff)
  obtain r where r: "r \<in> set found" "key_eq (sorted_row (project U names inc)) (sorted_row (project U names r))"
    using c(3) by (auto simp: has_key_def list_ex_iff)
  have "set names \<subseteq> shown inc" "set names \<subseteq> shown r" using assms(2,3,4) sub r(1) W by simp_all
  then have b: "\<forall>v \<in> set names. map_of inc v \<noteq> None" "\<forall>v \<in> set names. map_of r v \<noteq> None"
    by (auto simp: shown_def map_of_eq_None_iff)
  have "key_eq (project U (sort names) inc) (project U (sort names) r)"
    using r(2) b by (simp add: sorted_row_def project_full sort_key_graph)
  moreover have "set (sort names) = shown inc \<inter> shown r" using W sub assms(2,3,4) r(1) by auto
  ultimately show ?thesis using agree_project [of "sort names" inc r U] r(1) sub by blast
qed

text \<open>
  C19. An \<^verbatim>\<open>or\<close> joins: what it returns are incoming rows extended by a row of some branch that
  agrees with them on the variables both show, and every such pair is represented by a
  returned row that shows the same values. Running the branches apart, in cost order, and
  stopping once all incoming rows are covered lose nothing. All incoming rows show the same
  variables, and so do all branch rows; branches that must be started from the incoming rows
  (those that need a seed) are not covered.
\<close>

theorem or_is_join:
  assumes ev: "\<forall>br \<in> set branches. ev br [[]] = Ok (R br) \<and> \<not> needs_seed br \<and>
        (\<forall>r \<in> set (R br). distinct (map fst r) \<and> shown r = W)"
    and bs: "\<forall>b \<in> set bs. distinct (map fst b) \<and> shown b = D"
  shows "\<exists>res. or_clause ev U branches bs = Ok res \<and>
    (\<forall>b \<in> set res. \<exists>inc \<in> set bs. \<exists>r \<in> set (concat (map R branches)). agree_visible U inc r \<and> b = or_insert_all r inc) \<and>
    (\<forall>inc \<in> set bs. \<forall>r \<in> set (concat (map R branches)). agree_visible U inc r \<longrightarrow> (\<exists>b \<in> set res. alike (or_insert_all r inc) b))"
proof -
  let ?sorted = "sort_key branch_cost branches" and ?all = "set (concat (map R branches))"
  have "\<exists>found. union_branches ev U ?sorted bs ([], []) = Ok found \<and> set found \<subseteq> ?all \<and>
      (fully_covered U bs found \<or>
       (\<forall>r \<in> ?all. \<exists>c \<in> set found. c = r \<or> key_eq (sorted_row (visible r)) (sorted_row (visible c))))"
    using union_branches_found [of ?sorted ev R "[]" "[]" U bs] ev by auto
  then obtain found where F: "union_branches ev U ?sorted bs ([], []) = Ok found" "set found \<subseteq> ?all"
      "fully_covered U bs found \<or>
       (\<forall>r \<in> ?all. \<exists>c \<in> set found. c = r \<or> key_eq (sorted_row (visible r)) (sorted_row (visible c)))" by blast
  have R: "distinct (map fst r)" "shown r = W" if "r \<in> ?all" for r using ev that by auto
  have W: "\<forall>r \<in> set found. shown r = W" using R(2) F(2) by blast
  define V where "V = filter (\<lambda>v. \<not> prefix ''__'' v \<and> v \<in> set (branch_names found)) (row_names bs)"
  have V: "set V = shown inc \<inter> shown r" if inc: "inc \<in> set bs" and r: "r \<in> set found" for inc r
  proof -
    have "found \<noteq> []" "bs \<noteq> []" using inc r by auto
    then have "set (branch_names found) = W" "set (branch_names bs) = D"
      using branch_names_shown [of found W] branch_names_shown [of bs D] W bs by simp_all
    moreover have "set V = set (branch_names bs) \<inter> set (branch_names found)" by (auto simp: V_def branch_names_def)
    ultimately show ?thesis using bs W inc r by simp
  qed
  define cand where "cand = concat (map (\<lambda>inc. map (\<lambda>r. or_insert_all r inc) (filter (agree_visible U inc) found)) bs)"
  define res where "res = push_rows sorted_row cand []"
  have "\<not> list_ex needs_seed ?sorted" using ev by (auto simp: list_ex_iff)
  then have run: "or_clause ev U branches bs = Ok res"
    unfolding or_clause_def Let_def V_def [symmetric]
    using F(1) joined_with [OF refl V] by (simp add: V_def res_def cand_def distinct_rows_def)
  have sound: "\<exists>inc \<in> set bs. \<exists>r \<in> ?all. agree_visible U inc r \<and> b = or_insert_all r inc" if "b \<in> set res" for b
  proof -
    have "b \<in> set cand" using that push_rows_subset(2) [of sorted_row cand "[]"] unfolding res_def by auto
    then have "\<exists>inc \<in> set bs. \<exists>r \<in> set found. agree_visible U inc r \<and> b = or_insert_all r inc" by (auto simp: cand_def)
    then show ?thesis using F(2) by blast
  qed
  have kept: "\<exists>b \<in> set res. alike (or_insert_all r inc) b" if r: "r \<in> set found" "agree_visible U inc r" and inc: "inc \<in> set bs" for r inc
  proof -
    obtain b where b: "b \<in> set res" "b = or_insert_all r inc \<or> key_eq (sorted_row (or_insert_all r inc)) (sorted_row b)"
      using push_rows_represents [of "or_insert_all r inc" cand sorted_row "[]"] r inc unfolding res_def cand_def by auto
    obtain inc' r' where "inc' \<in> set bs" "b = or_insert_all r' inc'" using sound [OF b(1)] by blast
    then have "distinct (map fst b)" "distinct (map fst (or_insert_all r inc))"
      using bs inc distinct_or_insert_all by auto
    then show ?thesis using b alike_refl alike_sorted by metis
  qed
  have "\<exists>b \<in> set res. alike (or_insert_all r inc) b" if inc: "inc \<in> set bs" and r: "r \<in> ?all" "agree_visible U inc r" for inc r
    using F(3)
  proof
    assume "fully_covered U bs found"
    then obtain r' where r': "W \<subseteq> D" "r' \<in> set found" "agree_visible U inc r'"
      using covered_agrees [OF _ inc, of U found D W] bs W by auto
    have "W \<subseteq> shown inc" using bs inc r'(1) by simp
    then have "map_of (or_insert_all r'' inc) k = map_of inc k" if "shown r'' = W" "\<not> prefix ''__'' k" for r'' k
      using merge_shown that by metis
    then have "alike (or_insert_all r inc) (or_insert_all r' inc)"
      using R(2) [OF r(1)] W r'(2) by (simp add: alike_def option.rel_refl)
    then show ?thesis using kept [OF r'(2,3) inc] alike_trans by blast
  next
    assume "\<forall>r \<in> ?all. \<exists>c \<in> set found. c = r \<or> key_eq (sorted_row (visible r)) (sorted_row (visible c))"
    then obtain c where c: "c \<in> set found" "c = r \<or> key_eq (sorted_row (visible r)) (sorted_row (visible c))" using r(1) by blast
    have "alike r c" using c alike_refl alike_visible R(1) [OF r(1)] R(1) F(2) by blast
    then show ?thesis using kept [OF c(1) alike_agree inc] r(2) alike_merge alike_trans by blast
  qed
  with run sound show ?thesis by blast
qed

theorem or_is_join_witness:
  "\<exists>res. or_clause sample_eval sample_uuid_ops [[PatternC (sample_patterns ! 0)]] [[(''?a'', VRef 1)], [(''?a'', VRef 2)]] = Ok res \<and>
     (\<exists>b. b \<in> set res \<and> map_of b ''?b'' = Some (VRef 2))"
proof -
  let ?r = "(''?a'', VRef 1) # (''?b'', VRef 2) # hidden_entries sample_uuid_ops (fact_new 1 '':knows'' (VRef 2) 0)"
  let ?brs = "[[PatternC (sample_patterns ! 0)]]" and ?R = "\<lambda>br. projr (sample_eval br [[]])"
  let ?bs = "[[(''?a'', VRef 1)], [(''?a'', VRef 2)]]"
  have ev: "sample_eval [PatternC (sample_patterns ! 0)] [[]] = Ok [?r]" by code_simp
  have sh: "shown ?r = {''?a'', ''?b''}" by (auto simp: shown_def hidden_entries_def Let_def)
  have d: "distinct (map fst ?r)" by (simp add: hidden_entries_def Let_def)
  have "\<forall>br \<in> set ?brs. sample_eval br [[]] = Ok (?R br) \<and> \<not> needs_seed br \<and>
      (\<forall>r \<in> set (?R br). distinct (map fst r) \<and> shown r = {''?a'', ''?b''})"
    using ev sh d by (simp add: needs_seed_def is_not_def branch_outer_reads_def)
  moreover have "\<forall>b \<in> set ?bs. distinct (map fst b) \<and> shown b = {''?a''}" by (auto simp: shown_def)
  ultimately obtain res where res: "or_clause sample_eval sample_uuid_ops ?brs ?bs = Ok res"
      "\<forall>inc \<in> set ?bs. \<forall>r \<in> set (concat (map ?R ?brs)). agree_visible sample_uuid_ops inc r \<longrightarrow>
        (\<exists>b \<in> set res. alike (or_insert_all r inc) b)"
    using or_is_join [of ?brs sample_eval ?R "{''?a'', ''?b''}" ?bs "{''?a''}" sample_uuid_ops] by blast
  have "agree_visible sample_uuid_ops [(''?a'', VRef 1)] ?r" by (auto simp: agree_visible_def same_def)
  then obtain b where "b \<in> set res" "alike (or_insert_all ?r [(''?a'', VRef 1)]) b" using res(2) ev by auto
  moreover have "map_of b ''?b'' = Some (VRef 2)" if "alike (or_insert_all ?r [(''?a'', VRef 1)]) b" for b
  proof -
    have "rel_option (\<lambda>x y. x = y \<or> value_eq x y) (Some (VRef 2)) (map_of b ''?b'')"
      using that by (auto simp: alike_def map_of_or_insert_all dest!: spec [of _ "''?b''"])
    moreover have "a = VRef 2" if "value_eq (VRef 2) a" for a using that by (cases a) auto
    ultimately show ?thesis by (cases "map_of b ''?b''") auto
  qed
  ultimately show ?thesis using res(1) by blast
qed

end
