(* ===== verification/Stratification.thy ===== *)
theory Stratification
  imports Datalog_Types Ordered_Map
begin

text \<open>
  Stratified negation, \<^verbatim>\<open>src/query/datalog/stratification.rs\<close>, and the rule registry that
  enforces it, \<^verbatim>\<open>src/query/datalog/rules.rs\<close>: the dependency graph of a rule set, the
  reachability search, the relaxation loop that assigns strata, and registration with
  roll-back. The registry's \<^verbatim>\<open>HashMap\<close> is an association list in iteration order.

  Shown: the search decides reachability; the loop terminates, and it returns the least
  assignment that meets every constraint, failing exactly when some predicate depends on
  itself through a negation; registration keeps the registry stratifiable.
\<close>

section \<open>The dependency graph\<close>

fun negated_invocations :: "where_clause list \<Rightarrow> (string \<times> bool) list" where
  "negated_invocations [] = []"
| "negated_invocations (RuleInvocation p args # cs) = (p, True) # negated_invocations cs"
| "negated_invocations (c # cs) = negated_invocations cs"

fun collect_clause_deps :: "where_clause \<Rightarrow> (string \<times> bool) list" where
  "collect_clause_deps (RuleInvocation p _) = [(p, False)]"
| "collect_clause_deps (Not inner) = negated_invocations inner"
| "collect_clause_deps (NotJoin _ inner) = negated_invocations inner"
| "collect_clause_deps (Or bs) = concat (map (\<lambda>b. concat (map collect_clause_deps b)) bs)"
| "collect_clause_deps (OrJoin _ bs) = concat (map (\<lambda>b. concat (map collect_clause_deps b)) bs)"
| "collect_clause_deps (PatternC _) = []"
| "collect_clause_deps (ExprC _ _) = []"

definition has_mixed_clause :: "where_clause list \<Rightarrow> bool" where
  "has_mixed_clause body = list_ex (\<lambda>c. case c of
       Not _ \<Rightarrow> True | NotJoin _ _ \<Rightarrow> True | Or _ \<Rightarrow> True | OrJoin _ _ \<Rightarrow> True | _ \<Rightarrow> False) body"

type_synonym rule_registry = "(string \<times> rule list) list"

record dependency_graph =
  edges :: "(string, (string \<times> bool) list) btreemap"
  mixed :: "string set"

definition add_rule :: "string \<Rightarrow> rule \<Rightarrow> dependency_graph \<Rightarrow> dependency_graph" where
  "add_rule head_pred r g =
     (let entry = (case btm_get (edges g) head_pred of Some ds \<Rightarrow> ds | None \<Rightarrow> [])
      in \<lparr>edges = btm_insert head_pred (entry @ concat (map collect_clause_deps (rule_body r))) (edges g),
          mixed = (if has_mixed_clause (rule_body r) then insert head_pred (mixed g) else mixed g)\<rparr>)"

definition from_rules :: "rule_registry \<Rightarrow> dependency_graph" where
  "from_rules reg =
     fold (\<lambda>(head_pred, rules) g. fold (add_rule head_pred) rules g) reg \<lparr>edges = [], mixed = {}\<rparr>"

section \<open>Reachability\<close>

definition deps_of :: "dependency_graph \<Rightarrow> string \<Rightarrow> string list" where
  "deps_of g p = (case btm_get (edges g) p of Some ds \<Rightarrow> map fst ds | None \<Rightarrow> [])"

text \<open>The body of the search loop: \<open>None\<close> when the target is found.\<close>

fun scan_deps :: "string \<Rightarrow> string list \<Rightarrow> string set \<Rightarrow> string list \<Rightarrow> (string set \<times> string list) option" where
  "scan_deps to [] seen stack = Some (seen, stack)"
| "scan_deps to (d # ds) seen stack =
     (if d = to then None
      else if d \<in> seen then scan_deps to ds seen stack
      else scan_deps to ds (insert d seen) (d # stack))"

definition all_deps :: "dependency_graph \<Rightarrow> string set" where
  "all_deps g = (\<Union>(h, ds) \<in> set (edges g). fst ` set ds)"

lemma finite_all_deps: "finite (all_deps g)"
  by (auto simp: all_deps_def)

lemma btm_get_Some_in: "btm_get m k = Some v \<Longrightarrow> (k, v) \<in> set m"
  by (induction m) (auto split: if_splits)

lemma deps_of_subset: "set (deps_of g p) \<subseteq> all_deps g"
  using btm_get_Some_in [of "edges g" p]
  by (force simp: deps_of_def all_deps_def split: option.splits)

lemma scan_deps_grows:
  assumes "scan_deps to ds seen stack = Some (seen', stack')" "set ds \<subseteq> U" "finite U"
  shows "card (U - seen') + length stack' \<le> card (U - seen) + length stack \<and> seen \<subseteq> seen'"
  using assms(1,2)
proof (induction to ds seen stack rule: scan_deps.induct)
  case (2 to d ds seen stack)
  show ?case
  proof (cases "d \<in> seen")
    case True
    with 2 show ?thesis by (auto split: if_splits)
  next
    case False
    with "2.prems" have "d \<in> U - seen" by auto
    then have "card (U - insert d seen) + 1 = card (U - seen)"
      using assms(3) by (metis Diff_insert card_Suc_Diff1 finite_Diff Suc_eq_plus1)
    with 2 False show ?thesis by (auto split: if_splits)
  qed
qed auto

text \<open>
  The stack is a list with its top first. Every turn of the loop takes one entry off and
  puts on only predicates not seen before, so the sum of unseen predicates and stack
  entries falls.
\<close>

function reaches_loop :: "dependency_graph \<Rightarrow> string \<Rightarrow> string set \<Rightarrow> string list \<Rightarrow> bool" where
  "reaches_loop g to seen [] = False"
| "reaches_loop g to seen (p # stack) =
     (case scan_deps to (deps_of g p) seen stack of
        None \<Rightarrow> True
      | Some (seen', stack') \<Rightarrow> reaches_loop g to seen' stack')"
  by pat_completeness auto
termination
proof (relation "measure (\<lambda>(g, to, seen, stack). card (all_deps g - seen) + length stack)")
  fix g to seen p stack x seen' stack'
  assume "scan_deps to (deps_of g p) seen stack = Some x" "(seen', stack') = x"
  then have "card (all_deps g - seen') + length stack' \<le> card (all_deps g - seen) + length stack"
    using scan_deps_grows [OF _ deps_of_subset finite_all_deps, of to g p seen stack seen' stack'] by simp
  then show "((g, to, seen', stack'), g, to, seen, p # stack)
    \<in> measure (\<lambda>(g, to, seen, stack). card (all_deps g - seen) + length stack)" by simp
qed simp

definition reaches :: "dependency_graph \<Rightarrow> string \<Rightarrow> string \<Rightarrow> bool" where
  "reaches g from to = reaches_loop g to {} [from]"

section \<open>Strata\<close>

type_synonym strata = "(string \<times> nat) list"

definition stratum :: "strata \<Rightarrow> string \<Rightarrow> nat" where
  "stratum s p = (case map_of s p of Some k \<Rightarrow> k | None \<Rightarrow> 0)"

definition all_predicates :: "dependency_graph \<Rightarrow> string list" where
  "all_predicates g = remdups (concat (map (\<lambda>(h, ds). h # map fst ds) (edges g)))"

definition raised :: "dependency_graph \<Rightarrow> (string \<times> string) set" where
  "raised g = set (concat (map (\<lambda>(h, ds).
     map (\<lambda>(d, _). (h, d)) (filter (\<lambda>(d, neg). \<not> neg \<and> d \<in> mixed g \<and> \<not> reaches g d h) ds)) (edges g)))"

text \<open>The edges in the order the loop visits them.\<close>

definition edge_list :: "dependency_graph \<Rightarrow> (string \<times> string \<times> bool) list" where
  "edge_list g = concat (map (\<lambda>(h, ds). map (\<lambda>(d, neg). (h, d, neg)) ds) (edges g))"

fun relax_edges ::
    "nat \<Rightarrow> (string \<times> string) set \<Rightarrow> (string \<times> string \<times> bool) list \<Rightarrow> strata \<times> bool \<Rightarrow> (strata \<times> bool) result" where
  "relax_edges n rs [] (s, changed) = Ok (s, changed)"
| "relax_edges n rs ((h, d, neg) # es) (s, changed) =
     (let required = (if neg \<or> (h, d) \<in> rs then stratum s d + 1 else stratum s d);
          up = required > stratum s h;
          s' = (if up then AList.update h required s else s)
      in if n \<le> stratum s' h then Err (Internal 54)
         else relax_edges n rs es (s', changed \<or> up))"

lemma stratum_update: "stratum (AList.update h k s) p = (if p = h then k else stratum s p)"
  by (simp add: stratum_def update_conv)

lemma relax_edges_mono:
  assumes "relax_edges n rs es (s, c) = Ok (s', c')"
  shows "(\<forall>p. stratum s p \<le> stratum s' p) \<and> (\<forall>p. stratum s p < stratum s' p \<longrightarrow> stratum s' p < n) \<and>
    (c' \<longrightarrow> c \<or> (\<exists>e \<in> set es. stratum s (fst e) < stratum s' (fst e)))"
  using assms
proof (induction n rs es "(s, c)" arbitrary: s c rule: relax_edges.induct)
  case (2 n rs h d neg es s c)
  let ?req = "if neg \<or> (h, d) \<in> rs then stratum s d + 1 else stratum s d"
  let ?s = "if stratum s h < ?req then AList.update h ?req s else s"
  from "2.prems" have ok: "stratum ?s h < n" "relax_edges n rs es (?s, c \<or> stratum s h < ?req) = Ok (s', c')"
    by (auto simp: Let_def split: if_splits)
  have IH: "(\<forall>p. stratum ?s p \<le> stratum s' p) \<and> (\<forall>p. stratum ?s p < stratum s' p \<longrightarrow> stratum s' p < n) \<and>
    (c' \<longrightarrow> (c \<or> stratum s h < ?req) \<or> (\<exists>e \<in> set es. stratum ?s (fst e) < stratum s' (fst e)))"
    using "2.hyps" [OF refl refl refl _ ok(2)] ok(1) by simp
  have le: "stratum s p \<le> stratum ?s p" for p by (simp add: stratum_update)
  have "stratum s p \<le> stratum s' p" for p using IH le [of p] order_trans by blast
  moreover have "stratum s' p < n" if "stratum s p < stratum s' p" for p
    using that IH ok(1) le [of p] by (cases "stratum ?s p = stratum s' p") (auto simp: stratum_update order.strict_iff_order split: if_splits)
  moreover have "c \<or> (\<exists>e \<in> set ((h, d, neg) # es). stratum s (fst e) < stratum s' (fst e))" if c'
  proof (cases "stratum s h < ?req")
    case True
    then have "stratum s h < stratum ?s h" by (simp add: stratum_update)
    then have "stratum s h < stratum s' h" using IH by (meson less_le_trans)
    then show ?thesis by force
  next
    case False
    with that IH show ?thesis by auto
  qed
  ultimately show ?case by blast
qed simp

function strat_loop ::
    "nat \<Rightarrow> (string \<times> string) set \<Rightarrow> (string \<times> string \<times> bool) list \<Rightarrow> strata \<Rightarrow> strata result" where
  "strat_loop n rs es s =
     (case relax_edges n rs es (s, False) of
        Inl e \<Rightarrow> Err e
      | Inr (s', changed) \<Rightarrow> if changed then strat_loop n rs es s' else Ok s')"
  by pat_completeness auto
termination
proof (relation "measure (\<lambda>(n, rs, es, s). \<Sum>h \<in> fst ` set es. n - stratum s h)")
  fix n rs es s x s' and changed :: bool
  assume "relax_edges n rs es (s, False) = Inr x" "(s', changed) = x" changed
  then have m: "\<And>p. stratum s p \<le> stratum s' p" "\<And>p. stratum s p < stratum s' p \<Longrightarrow> stratum s' p < n"
    "\<exists>e \<in> set es. stratum s (fst e) < stratum s' (fst e)"
    using relax_edges_mono [of n rs es s False s' changed] by auto
  then obtain h where h: "h \<in> fst ` set es" "stratum s h < stratum s' h" by auto
  have "(\<Sum>h \<in> fst ` set es. n - stratum s' h) < (\<Sum>h \<in> fst ` set es. n - stratum s h)"
  proof (rule sum_strict_mono_ex1)
    show "\<forall>x \<in> fst ` set es. n - stratum s' x \<le> n - stratum s x" using m(1) diff_le_mono2 by blast
    show "\<exists>a \<in> fst ` set es. n - stratum s' a < n - stratum s a"
      using h m(2) [OF h(2)] by (intro bexI [of _ h]) auto
  qed simp
  then show "((n, rs, es, s'), n, rs, es, s) \<in> measure (\<lambda>(n, rs, es, s). \<Sum>h \<in> fst ` set es. n - stratum s h)"
    by simp
qed simp

declare strat_loop.simps [simp del]

definition stratify :: "dependency_graph \<Rightarrow> strata result" where
  "stratify g =
     (let preds = all_predicates g
      in strat_loop (length preds) (raised g) (edge_list g) (map (\<lambda>p. (p, 0)) preds))"

section \<open>The search decides reachability\<close>

definition dep_rel :: "dependency_graph \<Rightarrow> (string \<times> string) set" where
  "dep_rel g = {(h, d). d \<in> set (deps_of g h)}"

lemma scan_deps_None: "scan_deps to ds seen stack = None \<longleftrightarrow> to \<in> set ds"
  by (induction to ds seen stack rule: scan_deps.induct) auto

lemma scan_deps_Some:
  "scan_deps to ds seen stack = Some (seen', stack') \<Longrightarrow>
   seen' = seen \<union> set ds \<and> set stack' = set stack \<union> (set ds - seen)"
  by (induction to ds seen stack rule: scan_deps.induct) (auto split: if_splits)

lemma reaches_loop_sound:
  "reaches_loop g to seen stack \<Longrightarrow> \<exists>p \<in> set stack. (p, to) \<in> (dep_rel g)\<^sup>+"
proof (induction g to seen stack rule: reaches_loop.induct)
  case (2 g to seen p stack)
  show ?case
  proof (cases "scan_deps to (deps_of g p) seen stack")
    case None
    then have "(p, to) \<in> dep_rel g" by (simp add: scan_deps_None dep_rel_def)
    then show ?thesis by auto
  next
    case (Some r)
    obtain seen' stack' where r: "r = (seen', stack')" by (cases r)
    from "2.IH" [OF Some r [symmetric]] "2.prems" Some r
    obtain q where q: "q \<in> set stack'" "(q, to) \<in> (dep_rel g)\<^sup>+" by auto
    from scan_deps_Some [of to "deps_of g p"] Some r q(1)
    have "q \<in> set stack \<or> (p, q) \<in> dep_rel g" by (auto simp: dep_rel_def)
    with q(2) show ?thesis by (auto intro: trancl_into_trancl2)
  qed
qed simp

lemma reaches_loop_complete:
  "\<not> reaches_loop g to seen stack \<Longrightarrow>
   \<exists>seen'. seen \<subseteq> seen' \<and> (\<forall>x \<in> set stack \<union> (seen' - seen). set (deps_of g x) \<subseteq> seen' \<and> to \<notin> set (deps_of g x))"
proof (induction g to seen stack rule: reaches_loop.induct)
  case (1 g to seen)
  then show ?case by auto
next
  case (2 g to seen p stack)
  from "2.prems" obtain seen1 stack1 where s: "scan_deps to (deps_of g p) seen stack = Some (seen1, stack1)"
    by (cases "scan_deps to (deps_of g p) seen stack") auto
  from "2.IH" [OF s refl] "2.prems" s obtain seen' where IH: "seen1 \<subseteq> seen'"
    "\<forall>x \<in> set stack1 \<union> (seen' - seen1). set (deps_of g x) \<subseteq> seen' \<and> to \<notin> set (deps_of g x)" by auto
  have n: "to \<notin> set (deps_of g p)" using s scan_deps_None [of to "deps_of g p" seen stack] by auto
  from scan_deps_Some [OF s] IH n show ?case
    by (intro exI [of _ seen']) auto
qed

lemma reaches_iff: "reaches g from to \<longleftrightarrow> (from, to) \<in> (dep_rel g)\<^sup>+"
proof
  assume "reaches g from to"
  then show "(from, to) \<in> (dep_rel g)\<^sup>+" using reaches_loop_sound [of g to "{}" "[from]"] by (simp add: reaches_def)
next
  assume path: "(from, to) \<in> (dep_rel g)\<^sup>+"
  show "reaches g from to"
  proof (rule ccontr)
    assume "\<not> reaches g from to"
    then obtain S where S: "\<forall>x \<in> insert from S. set (deps_of g x) \<subseteq> S \<and> to \<notin> set (deps_of g x)"
      using reaches_loop_complete [of g to "{}" "[from]"] by (auto simp: reaches_def)
    have "y \<in> S \<and> y \<noteq> to" if "(from, y) \<in> (dep_rel g)\<^sup>+" for y
      using that
    proof (induction rule: trancl_induct)
      case (base y)
      then show ?case using S by (auto simp: dep_rel_def)
    next
      case (step y z)
      then show ?case using S by (auto simp: dep_rel_def)
    qed
    with path show False by blast
  qed
qed

section \<open>The loop solves the constraints\<close>

definition satisfied :: "(string \<times> string) set \<Rightarrow> (string \<times> string \<times> bool) list \<Rightarrow> (string \<Rightarrow> nat) \<Rightarrow> bool" where
  "satisfied rs es f \<longleftrightarrow>
     (\<forall>(h, d, neg) \<in> set es. if neg \<or> (h, d) \<in> rs then f d < f h else f d \<le> f h)"

lemma satisfied_Cons:
  "satisfied rs ((h, d, neg) # es) f \<longleftrightarrow>
     (if neg \<or> (h, d) \<in> rs then f d < f h else f d \<le> f h) \<and> satisfied rs es f"
  by (simp add: satisfied_def)

lemma relax_edges_stable:
  "relax_edges n rs es (s, c) = Ok (s', False) \<Longrightarrow> \<not> c \<and> s' = s \<and> satisfied rs es (stratum s)"
proof (induction n rs es "(s, c)" arbitrary: s c rule: relax_edges.induct)
  case (1 n rs s c)
  then show ?case by (simp add: satisfied_def)
next
  case (2 n rs h d neg es s c)
  define req where "req = (if neg \<or> (h, d) \<in> rs then stratum s d + 1 else stratum s d)"
  define s1 where "s1 = (if stratum s h < req then AList.update h req s else s)"
  from "2.prems" have ok: "\<not> n \<le> stratum s1 h" "relax_edges n rs es (s1, c \<or> stratum s h < req) = Ok (s', False)"
    by (auto simp: Let_def req_def s1_def split: if_splits)
  from "2.hyps" [OF req_def refl s1_def ok(1) ok(2)]
  have IH: "\<not> c" "\<not> stratum s h < req" "s' = s1" "satisfied rs es (stratum s1)" by simp_all
  then have "s1 = s" by (simp add: s1_def)
  moreover have "if neg \<or> (h, d) \<in> rs then stratum s d < stratum s h else stratum s d \<le> stratum s h"
    using IH(2) by (auto simp: req_def split: if_splits)
  ultimately show ?case using IH by (simp add: satisfied_Cons)
qed

text \<open>Relaxation stays below every solution, so a solution below \<open>n\<close> rules out the error.\<close>

lemma relax_edges_below:
  assumes "satisfied rs es f" "\<forall>p. stratum s p \<le> f p"
  shows "(\<forall>s' c'. relax_edges n rs es (s, c) = Ok (s', c') \<longrightarrow> (\<forall>p. stratum s' p \<le> f p)) \<and>
    ((\<forall>e \<in> set es. f (fst e) < n) \<longrightarrow> (\<exists>r. relax_edges n rs es (s, c) = Ok r))"
  using assms
proof (induction n rs es "(s, c)" arbitrary: s c rule: relax_edges.induct)
  case (2 n rs h d neg es s c)
  define req where "req = (if neg \<or> (h, d) \<in> rs then stratum s d + 1 else stratum s d)"
  define s1 where "s1 = (if stratum s h < req then AList.update h req s else s)"
  have "req \<le> f h" using "2.prems" unfolding req_def
    by (auto simp: satisfied_Cons Suc_le_eq split: if_splits intro: le_less_trans order_trans)
  then have below: "\<forall>p. stratum s1 p \<le> f p" using "2.prems"(2) by (simp add: s1_def stratum_update)
  have sat: "satisfied rs es f" using "2.prems"(1) by (simp add: satisfied_Cons)
  have step: "relax_edges n rs ((h, d, neg) # es) (s, c) =
      (if n \<le> stratum s1 h then Err (Internal 54) else relax_edges n rs es (s1, c \<or> stratum s h < req))"
    by (simp add: Let_def req_def s1_def)
  show ?case
  proof (cases "n \<le> stratum s1 h")
    case True
    then have "\<not> f h < n" using below by (meson leD order_trans)
    with True show ?thesis unfolding step by simp
  next
    case False
    with "2.hyps" [OF req_def refl s1_def False sat below] show ?thesis unfolding step by simp
  qed
qed simp

lemma strat_loop_correct:
  "(\<forall>r. strat_loop n rs es s = Ok r \<longrightarrow> satisfied rs es (stratum r)) \<and>
   (\<forall>f. satisfied rs es f \<longrightarrow> (\<forall>p. stratum s p \<le> f p) \<longrightarrow>
     (\<forall>r. strat_loop n rs es s = Ok r \<longrightarrow> (\<forall>p. stratum r p \<le> f p)) \<and>
     ((\<forall>e \<in> set es. f (fst e) < n) \<longrightarrow> (\<exists>r. strat_loop n rs es s = Ok r)))"
proof (induction n rs es s rule: strat_loop.induct)
  case (1 n rs es s)
  show ?case
  proof (cases "relax_edges n rs es (s, False)")
    case (Inl e)
    with relax_edges_below [of rs es _ s n False] show ?thesis
      by (subst (1 2 3) strat_loop.simps) (auto simp: Inl)
  next
    case (Inr r)
    obtain s' ch where r: "r = (s', ch)" by (cases r)
    show ?thesis
    proof (cases ch)
      case True
      have eq: "strat_loop n rs es s = strat_loop n rs es s'"
        by (subst strat_loop.simps) (simp add: Inr r True)
      have below: "\<forall>p. stratum s' p \<le> f p" if "satisfied rs es f" "\<forall>p. stratum s p \<le> f p" for f
        using relax_edges_below [OF that, of n False] Inr r by simp
      note IH = "1.IH" [OF Inr r [symmetric] True]
      show ?thesis unfolding eq using IH below by blast
    next
      case False
      have eq: "strat_loop n rs es s = Ok s'" by (subst strat_loop.simps) (simp add: Inr r False)
      from relax_edges_stable [of n rs es s False s'] Inr r False
      have "s' = s" "satisfied rs es (stratum s)" by simp_all
      then show ?thesis by (simp add: eq)
    qed
  qed
qed

section \<open>Stratification\<close>

definition graph_inv :: "dependency_graph \<Rightarrow> bool" where
  "graph_inv g \<longleftrightarrow> ascending (edges g)"

lemma in_edge_list:
  "(h, d, neg) \<in> set (edge_list g) \<longleftrightarrow> (\<exists>ds. (h, ds) \<in> set (edges g) \<and> (d, neg) \<in> set ds)"
  by (auto simp: edge_list_def intro!: bexI)

lemma dep_rel_edges:
  assumes "graph_inv g"
  shows "(h, d) \<in> dep_rel g \<longleftrightarrow> (\<exists>neg. (h, d, neg) \<in> set (edge_list g))"
proof -
  have "btm_get (edges g) h = Some ds \<longleftrightarrow> (h, ds) \<in> set (edges g)" for ds
    using assms btm_get_in_set [of "edges g" h ds] by (simp add: graph_inv_def)
  moreover have "d \<in> set (deps_of g h) \<longleftrightarrow> (\<exists>ds. btm_get (edges g) h = Some ds \<and> d \<in> fst ` set ds)"
    by (cases "btm_get (edges g) h") (simp_all add: deps_of_def)
  ultimately have "d \<in> set (deps_of g h) \<longleftrightarrow> (\<exists>ds. (h, ds) \<in> set (edges g) \<and> d \<in> fst ` set ds)" by simp
  then show ?thesis by (force simp: dep_rel_def in_edge_list)
qed

lemma raised_iff:
  "(h, d) \<in> raised g \<longleftrightarrow> (h, d, False) \<in> set (edge_list g) \<and> d \<in> mixed g \<and> \<not> reaches g d h"
  by (auto simp: raised_def in_edge_list intro!: bexI)

lemma edge_predicates:
  assumes "(h, d, neg) \<in> set (edge_list g)"
  shows "h \<in> set (all_predicates g) \<and> d \<in> set (all_predicates g)"
proof -
  obtain ds where "(h, ds) \<in> set (edges g)" "(d, neg) \<in> set ds" using assms by (auto simp: in_edge_list)
  then show ?thesis by (fastforce simp: all_predicates_def intro: bexI [of _ "(h, ds)"] rev_image_eqI)
qed

text \<open>The predicates strictly below one: those it depends on that do not depend on it.\<close>

definition below :: "dependency_graph \<Rightarrow> string \<Rightarrow> string set" where
  "below g p = {q \<in> set (all_predicates g). (p, q) \<in> (dep_rel g)\<^sup>* \<and> (q, p) \<notin> (dep_rel g)\<^sup>*}"

lemma below_edge:
  assumes "(h, d) \<in> dep_rel g"
  shows "below g d \<subseteq> below g h"
    and "d \<in> set (all_predicates g) \<Longrightarrow> (d, h) \<notin> (dep_rel g)\<^sup>* \<Longrightarrow> below g d \<subset> below g h"
proof -
  show sub: "below g d \<subseteq> below g h"
    using assms by (auto simp: below_def intro: converse_rtrancl_into_rtrancl rtrancl_into_rtrancl)
  assume "d \<in> set (all_predicates g)" "(d, h) \<notin> (dep_rel g)\<^sup>*"
  with assms have "d \<in> below g h" "d \<notin> below g d" by (auto simp: below_def)
  with sub show "below g d \<subset> below g h" by blast
qed

lemma card_below:
  assumes "p \<in> set (all_predicates g)"
  shows "card (below g p) < length (all_predicates g)"
proof -
  have "below g p \<subseteq> set (all_predicates g) - {p}" by (auto simp: below_def)
  then have "card (below g p) \<le> card (set (all_predicates g) - {p})" by (intro card_mono) auto
  also have "\<dots> < card (set (all_predicates g))" using assms by (intro psubset_card_mono) auto
  also have "\<dots> = length (all_predicates g)" by (rule distinct_card) (simp add: all_predicates_def)
  finally show ?thesis .
qed

definition negative_cycle :: "dependency_graph \<Rightarrow> bool" where
  "negative_cycle g \<longleftrightarrow> (\<exists>h d. (h, d, True) \<in> set (edge_list g) \<and> (d, h) \<in> (dep_rel g)\<^sup>*)"

lemma below_satisfied:
  assumes inv: "graph_inv g" and "\<not> negative_cycle g"
  shows "satisfied (raised g) (edge_list g) (\<lambda>p. card (below g p))"
  unfolding satisfied_def
proof (clarify)
  fix h d neg assume e: "(h, d, neg) \<in> set (edge_list g)"
  have fin: "finite (below g p)" for p by (simp add: below_def)
  from e inv have r: "(h, d) \<in> dep_rel g" by (auto simp: dep_rel_edges)
  have "(d, h) \<notin> (dep_rel g)\<^sup>*" if "neg \<or> (h, d) \<in> raised g"
  proof (cases neg)
    case True
    with e assms(2) show ?thesis by (auto simp: negative_cycle_def)
  next
    case False
    with that have nr: "(d, h) \<notin> (dep_rel g)\<^sup>+" by (simp add: raised_iff reaches_iff)
    moreover have "d \<noteq> h" using r nr by auto
    ultimately show ?thesis by (metis rtranclD)
  qed
  then show "if neg \<or> (h, d) \<in> raised g then card (below g d) < card (below g h)
      else card (below g d) \<le> card (below g h)"
    using below_edge [OF r] edge_predicates [OF e] fin by (auto intro: psubset_card_mono card_mono)
qed

lemma satisfied_no_cycle:
  assumes inv: "graph_inv g" and sat: "satisfied rs (edge_list g) f"
  shows "\<not> negative_cycle g"
proof
  assume "negative_cycle g"
  then obtain h d where e: "(h, d, True) \<in> set (edge_list g)" "(d, h) \<in> (dep_rel g)\<^sup>*" by (auto simp: negative_cycle_def)
  have "f q \<le> f p" if "(p, q) \<in> (dep_rel g)\<^sup>*" for p q
    using that
  proof (induction rule: rtrancl_induct)
    case (step y z)
    then show ?case using sat by (fastforce simp: dep_rel_edges [OF inv] satisfied_def split: if_splits)
  qed simp
  from this [OF e(2)] e(1) sat show False by (force simp: satisfied_def)
qed

lemma stratify_facts:
  assumes "graph_inv g"
  shows "(\<exists>r. stratify g = Ok r) \<longleftrightarrow> \<not> negative_cycle g"
    "stratify g = Ok r \<Longrightarrow> satisfied (raised g) (edge_list g) (stratum r)"
    "stratify g = Ok r \<Longrightarrow> satisfied (raised g) (edge_list g) f \<Longrightarrow> stratum r p \<le> f p"
proof -
  let ?s = "map (\<lambda>p. (p, 0)) (all_predicates g)"
  have z: "stratum ?s p = 0" for p by (auto simp: stratum_def dest!: map_of_SomeD split: option.splits)
  note L = strat_loop_correct [of "length (all_predicates g)" "raised g" "edge_list g" ?s]
  have st: "stratify g = strat_loop (length (all_predicates g)) (raised g) (edge_list g) ?s"
    by (simp add: stratify_def Let_def)
  show sat: "satisfied (raised g) (edge_list g) (stratum r)" if "stratify g = Ok r" for r
    using L that by (simp add: st)
  show "stratum r p \<le> f p" if "stratify g = Ok r" "satisfied (raised g) (edge_list g) f" for r f p
    using L that z by (simp add: st)
  show "(\<exists>r. stratify g = Ok r) \<longleftrightarrow> \<not> negative_cycle g"
  proof
    assume "\<exists>r. stratify g = Ok r"
    then show "\<not> negative_cycle g" using sat satisfied_no_cycle [OF assms] by blast
  next
    assume "\<not> negative_cycle g"
    moreover have "\<forall>e \<in> set (edge_list g). card (below g (fst e)) < length (all_predicates g)"
      by (auto intro!: card_below dest: edge_predicates)
    ultimately show "\<exists>r. stratify g = Ok r"
      using L below_satisfied [OF assms] z by (fastforce simp: st)
  qed
qed

section \<open>The graph of a rule set\<close>

definition body_deps :: "rule \<Rightarrow> (string \<times> bool) list" where
  "body_deps r = concat (map collect_clause_deps (rule_body r))"

lemma add_rule_graph:
  assumes "graph_inv g"
  shows "graph_inv (add_rule h r g)"
    "(k, d, neg) \<in> set (edge_list (add_rule h r g)) \<longleftrightarrow>
       (k, d, neg) \<in> set (edge_list g) \<or> k = h \<and> (d, neg) \<in> set (body_deps r)"
proof -
  have g: "btm_get (edges g) a = Some ds \<longleftrightarrow> (a, ds) \<in> set (edges g)" for a ds
    using assms btm_get_in_set [of "edges g" a ds] by (simp add: graph_inv_def)
  show "graph_inv (add_rule h r g)"
    using assms by (simp add: graph_inv_def add_rule_def Let_def ascending_btm_insert)
  have "set (edges (add_rule h r g)) = insert (h, (case btm_get (edges g) h of Some ds \<Rightarrow> ds | None \<Rightarrow> []) @ body_deps r)
      {(a, b) \<in> set (edges g). a \<noteq> h}"
    using assms by (simp add: add_rule_def Let_def set_btm_insert graph_inv_def body_deps_def)
  then have e: "(a, ds) \<in> set (edges (add_rule h r g)) \<longleftrightarrow>
      (if a = h then ds = (case btm_get (edges g) h of Some ds \<Rightarrow> ds | None \<Rightarrow> []) @ body_deps r
       else (a, ds) \<in> set (edges g))" for a ds
    by auto
  show "(k, d, neg) \<in> set (edge_list (add_rule h r g)) \<longleftrightarrow>
       (k, d, neg) \<in> set (edge_list g) \<or> k = h \<and> (d, neg) \<in> set (body_deps r)"
    by (cases "k = h") (simp_all add: in_edge_list e g [symmetric] eq_commute [of "Some _"] split: option.split)
qed

lemma mixed_add_rule: "mixed (add_rule h r g) = mixed g \<union> (if has_mixed_clause (rule_body r) then {h} else {})"
  by (simp add: add_rule_def Let_def)

lemma fold_add_rule:
  assumes "graph_inv g"
  shows "graph_inv (fold (add_rule h) rs g) \<and>
    ((k, d, neg) \<in> set (edge_list (fold (add_rule h) rs g)) \<longleftrightarrow>
       (k, d, neg) \<in> set (edge_list g) \<or> k = h \<and> (\<exists>r \<in> set rs. (d, neg) \<in> set (body_deps r))) \<and>
    (k \<in> mixed (fold (add_rule h) rs g) \<longleftrightarrow>
       k \<in> mixed g \<or> k = h \<and> (\<exists>r \<in> set rs. has_mixed_clause (rule_body r)))"
  using assms
proof (induction rs arbitrary: g)
  case (Cons r rs)
  from Cons.IH [OF add_rule_graph(1) [OF Cons.prems]] add_rule_graph(2) [OF Cons.prems] show ?case
    by (auto simp: mixed_add_rule)
qed simp

lemma from_rules_graph:
  "graph_inv (from_rules reg)"
  "(h, d, neg) \<in> set (edge_list (from_rules reg)) \<longleftrightarrow>
     (\<exists>rs r. (h, rs) \<in> set reg \<and> r \<in> set rs \<and> (d, neg) \<in> set (body_deps r))"
  "h \<in> mixed (from_rules reg) \<longleftrightarrow> (\<exists>rs r. (h, rs) \<in> set reg \<and> r \<in> set rs \<and> has_mixed_clause (rule_body r))"
proof -
  have gen: "graph_inv (fold (\<lambda>(h, rs) g. fold (add_rule h) rs g) reg g) \<and>
      ((h, d, neg) \<in> set (edge_list (fold (\<lambda>(h, rs) g. fold (add_rule h) rs g) reg g)) \<longleftrightarrow>
        (h, d, neg) \<in> set (edge_list g) \<or> (\<exists>rs r. (h, rs) \<in> set reg \<and> r \<in> set rs \<and> (d, neg) \<in> set (body_deps r))) \<and>
      (h \<in> mixed (fold (\<lambda>(h, rs) g. fold (add_rule h) rs g) reg g) \<longleftrightarrow>
        h \<in> mixed g \<or> (\<exists>rs r. (h, rs) \<in> set reg \<and> r \<in> set rs \<and> has_mixed_clause (rule_body r)))"
    if "graph_inv g" for g
    using that
  proof (induction reg arbitrary: g)
    case (Cons e reg)
    obtain p rs where e: "e = (p, rs)" by (cases e)
    from fold_add_rule [OF Cons.prems, of p rs h d neg]
    have f: "graph_inv (fold (add_rule p) rs g)" by blast
    from Cons.IH [OF f] fold_add_rule [OF Cons.prems, of p rs h d neg] show ?case
      by (auto simp: e)
  qed simp
  have "graph_inv \<lparr>edges = [], mixed = {}\<rparr>" by (simp add: graph_inv_def)
  from gen [OF this] show "graph_inv (from_rules reg)"
    "(h, d, neg) \<in> set (edge_list (from_rules reg)) \<longleftrightarrow>
       (\<exists>rs r. (h, rs) \<in> set reg \<and> r \<in> set rs \<and> (d, neg) \<in> set (body_deps r))"
    "h \<in> mixed (from_rules reg) \<longleftrightarrow> (\<exists>rs r. (h, rs) \<in> set reg \<and> r \<in> set rs \<and> has_mixed_clause (rule_body r))"
    by (simp_all add: from_rules_def edge_list_def)
qed

text \<open>
  C36. \<^verbatim>\<open>stratify\<close> always ends, and it accepts a rule set exactly when no predicate depends on
  itself through a negation. Raising the callers of rules that contain a \<open>not\<close> or an \<open>or\<close>
  never makes it reject a rule set that plain stratified negation accepts.
\<close>

theorem stratify_accepts_iff:
  "(\<exists>s. stratify (from_rules reg) = Ok s) \<longleftrightarrow> \<not> negative_cycle (from_rules reg)"
  by (rule stratify_facts(1) [OF from_rules_graph(1)])

text \<open>
  C6. The strata returned order evaluation correctly: the predicates a rule uses are in its
  stratum or below; those it negates are strictly below; so are the predicates with a
  mixed rule (one with a \<open>not\<close> or an \<open>or\<close> in its body) that it uses without being used by
  them. And no assignment that meets these constraints, the one on mixed rules included,
  gives any predicate a lower stratum.
\<close>

theorem stratify_least_solution:
  assumes "stratify (from_rules reg) = Ok s"
  shows "(\<forall>h rs r d neg. (h, rs) \<in> set reg \<longrightarrow> r \<in> set rs \<longrightarrow> (d, neg) \<in> set (body_deps r) \<longrightarrow>
      stratum s d \<le> stratum s h \<and> (neg \<longrightarrow> stratum s d < stratum s h) \<and>
      (d \<in> mixed (from_rules reg) \<longrightarrow> (d, h) \<notin> (dep_rel (from_rules reg))\<^sup>+ \<longrightarrow> stratum s d < stratum s h)) \<and>
    (\<forall>f p. satisfied (raised (from_rules reg)) (edge_list (from_rules reg)) f \<longrightarrow> stratum s p \<le> f p)"
proof -
  let ?g = "from_rules reg"
  have sat: "satisfied (raised ?g) (edge_list ?g) (stratum s)"
    using stratify_facts(2) [OF from_rules_graph(1) assms] .
  have edge: "if neg \<or> (h, d) \<in> raised ?g then stratum s d < stratum s h else stratum s d \<le> stratum s h"
    if "(h, d, neg) \<in> set (edge_list ?g)" for h d neg
    using sat that by (auto simp: satisfied_def)
  have "stratum s d \<le> stratum s h \<and> (neg \<longrightarrow> stratum s d < stratum s h) \<and>
      (d \<in> mixed ?g \<longrightarrow> (d, h) \<notin> (dep_rel ?g)\<^sup>+ \<longrightarrow> stratum s d < stratum s h)"
    if "(h, rs) \<in> set reg" "r \<in> set rs" "(d, neg) \<in> set (body_deps r)" for h rs r d neg
  proof -
    have e: "(h, d, neg) \<in> set (edge_list ?g)" using that by (auto simp: from_rules_graph(2))
    have "(h, d) \<in> raised ?g" if "\<not> neg" "d \<in> mixed ?g" "(d, h) \<notin> (dep_rel ?g)\<^sup>+"
      using e that by (simp add: raised_iff reaches_iff)
    with edge [OF e] show ?thesis by (auto split: if_splits)
  qed
  moreover have "stratum s p \<le> f p" if "satisfied (raised ?g) (edge_list ?g) f" for f p
    using stratify_facts(3) [OF from_rules_graph(1) assms that] .
  ultimately show ?thesis by blast
qed

definition example_rules :: rule_registry where
  "example_rules =
     [(''report'', [\<lparr>rule_head = [Symbol ''report'', Symbol ''?x''], rule_body = [RuleInvocation ''idle'' [Symbol ''?x'']]\<rparr>]),
      (''idle'', [\<lparr>rule_head = [Symbol ''idle'', Symbol ''?x''],
         rule_body = [RuleInvocation ''person'' [Symbol ''?x''], Not [RuleInvocation ''busy'' [Symbol ''?x'']]]\<rparr>]),
      (''busy'', [\<lparr>rule_head = [Symbol ''busy'', Symbol ''?x''],
         rule_body = [RuleInvocation ''person'' [Symbol ''?x'']]\<rparr>])]"

lemma example_strata: "stratify (from_rules example_rules) = Ok [(''person'', 0), (''busy'', 0), (''report'', 2), (''idle'', 1)]"
  by code_simp

lemma example_satisfied: "satisfied (raised (from_rules example_rules)) (edge_list (from_rules example_rules))
    (\<lambda>p. if p = ''report'' then 2 else if p = ''idle'' then 1 else 0)"
  by code_simp

lemma example_mixed: "''idle'' \<in> mixed (from_rules example_rules) \<and> (''idle'', ''report'') \<notin> (dep_rel (from_rules example_rules))\<^sup>+"
  unfolding reaches_iff [symmetric] by code_simp

theorem stratify_least_solution_witness:
  "\<exists>s. stratify (from_rules example_rules) = Ok s \<and> stratum s ''person'' \<le> stratum s ''busy'' \<and>
     stratum s ''busy'' < stratum s ''idle'' \<and> stratum s ''idle'' < stratum s ''report'' \<and> stratum s ''report'' \<le> 2"
proof -
  note S = stratify_least_solution [OF example_strata]
  let ?s = "[(''person'', 0), (''busy'', 0), (''report'', 2), (''idle'', 1)]"
  note edge = S [THEN conjunct1, THEN spec, THEN spec, THEN spec, THEN spec, THEN spec]
  let ?r = "\<lambda>h. hd (the (map_of example_rules h))"
  have defs: "(h, the (map_of example_rules h)) \<in> set example_rules" "?r h \<in> set (the (map_of example_rules h))"
    if "h \<in> {''report'', ''idle'', ''busy''}" for h using that by (auto simp: example_rules_def)
  have "stratum ?s ''idle'' < stratum ?s ''report''"
    using edge [of "''report''" _ "?r ''report''" "''idle''" False] defs [of "''report''"] example_mixed
    by (simp add: example_rules_def body_deps_def)
  moreover have "stratum ?s ''busy'' < stratum ?s ''idle''"
    using edge [of "''idle''" _ "?r ''idle''" "''busy''" True] defs [of "''idle''"]
    by (simp add: example_rules_def body_deps_def)
  moreover have "stratum ?s ''person'' \<le> stratum ?s ''busy''"
    using edge [of "''busy''" _ "?r ''busy''" "''person''" False] defs [of "''busy''"]
    by (simp add: example_rules_def body_deps_def)
  moreover have "stratum ?s ''report'' \<le> 2" using S [THEN conjunct2, rule_format, OF example_satisfied, of "''report''"] by simp
  ultimately show ?thesis using example_strata by blast
qed

section \<open>The rule registry\<close>

definition get_rules :: "rule_registry \<Rightarrow> string \<Rightarrow> rule list" where
  "get_rules reg p = (case map_of reg p of Some rs \<Rightarrow> rs | None \<Rightarrow> [])"

definition has_rule :: "rule_registry \<Rightarrow> string \<Rightarrow> bool" where
  "has_rule reg p \<longleftrightarrow> map_of reg p \<noteq> None"

definition rule_count :: "rule_registry \<Rightarrow> nat" where
  "rule_count reg = sum_list (map (\<lambda>(p, rs). length rs) reg)"

definition predicate_count :: "rule_registry \<Rightarrow> nat" where
  "predicate_count reg = length reg"

definition register_rule_unchecked :: "string \<Rightarrow> rule \<Rightarrow> rule_registry \<Rightarrow> rule_registry" where
  "register_rule_unchecked p r reg = AList.update p (get_rules reg p @ [r]) reg"

definition register_rule :: "string \<Rightarrow> rule \<Rightarrow> rule_registry \<Rightarrow> unit result \<times> rule_registry" where
  "register_rule p r reg =
     (let reg1 = register_rule_unchecked p r reg in
      case stratify (from_rules reg1) of
        Inr _ \<Rightarrow> (Ok (), reg1)
      | Inl e \<Rightarrow>
          (case map_of reg1 p of
             None \<Rightarrow> (Err (Internal 55), reg1)
           | Some rules \<Rightarrow>
               let rules' = butlast rules in
               (Err e, if rules' = [] then AList.delete p reg1 else AList.update p rules' reg1)))"

definition registry_clear :: "rule_registry \<Rightarrow> rule_registry" where
  "registry_clear reg = []"

definition predicate_names :: "rule_registry \<Rightarrow> string list" where
  "predicate_names reg = map fst reg"

text \<open>The registries the program can have: registration is its only operation on them.\<close>

inductive registered :: "rule_registry \<Rightarrow> bool" where
  start: "registered []"
| register: "registered reg \<Longrightarrow> registered (snd (register_rule p r reg))"

definition registry_inv :: "rule_registry \<Rightarrow> bool" where
  "registry_inv reg \<longleftrightarrow> distinct (map fst reg) \<and> (\<forall>(p, rs) \<in> set reg. rs \<noteq> [])"

lemma update_same: "map_of reg p = Some old \<Longrightarrow> AList.update p old reg = reg"
  by (induction reg) auto

lemma delete_new: "map_of reg p = None \<Longrightarrow> AList.delete p (AList.update p new reg) = reg"
  by (induction reg) (auto simp: AList.delete_eq filter_id_conv map_of_eq_None_iff split: if_splits)

lemma map_of_unchecked:
  "map_of (register_rule_unchecked p r reg) = (map_of reg)(p \<mapsto> get_rules reg p @ [r])"
  by (simp add: register_rule_unchecked_def AList.update_conv')

lemma set_update_subset: "set (AList.update p v reg) \<subseteq> insert (p, v) (set reg)"
  by (induction reg) auto

lemma registry_inv_unchecked: "registry_inv reg \<Longrightarrow> registry_inv (register_rule_unchecked p r reg)"
  using set_update_subset [of p "get_rules reg p @ [r]" reg]
  by (auto simp: registry_inv_def register_rule_unchecked_def AList.distinct_update)

lemma roll_back:
  assumes "registry_inv reg"
  shows "(if get_rules reg p = [] then AList.delete p (register_rule_unchecked p r reg)
     else AList.update p (get_rules reg p) (register_rule_unchecked p r reg)) = reg"
proof (cases "map_of reg p")
  case None
  then show ?thesis by (simp add: get_rules_def register_rule_unchecked_def delete_new)
next
  case (Some rs)
  then have "rs \<noteq> []" using assms by (auto simp: registry_inv_def dest: map_of_SomeD)
  with Some show ?thesis by (simp add: get_rules_def register_rule_unchecked_def update_same)
qed

lemma register_rule_cases:
  assumes "registry_inv reg"
  shows "register_rule p r reg =
    (case stratify (from_rules (register_rule_unchecked p r reg)) of
       Inr _ \<Rightarrow> (Ok (), register_rule_unchecked p r reg)
     | Inl e \<Rightarrow> (Err e, reg))"
  using roll_back [OF assms, of p r]
  by (simp add: register_rule_def Let_def map_of_unchecked split: sum.split)

lemma registered_inv: "registered reg \<Longrightarrow> registry_inv reg \<and> \<not> negative_cycle (from_rules reg)"
proof (induction rule: registered.induct)
  case start
  show ?case by (simp add: registry_inv_def negative_cycle_def from_rules_graph(2))
next
  case (register reg p r)
  let ?g = "from_rules (register_rule_unchecked p r reg)"
  have "stratify ?g = Ok s \<Longrightarrow> \<not> negative_cycle ?g" for s
    using stratify_facts(1) [OF from_rules_graph(1), of "register_rule_unchecked p r reg"] by blast
  with register show ?case
    by (simp add: register_rule_cases registry_inv_unchecked split: sum.split)
qed

text \<open>
  Whatever rules are registered, in whatever order, the registry the program holds never
  has a predicate that depends on itself through a negation, holds no predicate without
  rules, and can be stratified; so evaluation never meets an unstratifiable rule set.
\<close>

lemma registered_stratifiable:
  assumes "registered reg"
  shows "\<not> negative_cycle (from_rules reg) \<and> (\<exists>s. stratify (from_rules reg) = Ok s) \<and>
    distinct (predicate_names reg) \<and> (\<forall>p. has_rule reg p \<longleftrightarrow> get_rules reg p \<noteq> [])"
proof -
  from registered_inv [OF assms] have i: "registry_inv reg" "\<not> negative_cycle (from_rules reg)" by auto
  then have "has_rule reg p \<longleftrightarrow> get_rules reg p \<noteq> []" for p
    by (auto simp: has_rule_def get_rules_def registry_inv_def dest: map_of_SomeD split: option.split)
  with i show ?thesis
    by (simp add: registry_inv_def predicate_names_def stratify_facts(1) [OF from_rules_graph(1)])
qed

lemma relax_edges_error: "relax_edges n rs es sc = Err e \<Longrightarrow> e = (Internal 54)"
  by (induction n rs es sc rule: relax_edges.induct) (auto simp: Let_def split: if_splits)

lemma strat_loop_error: "strat_loop n rs es s = Err e \<Longrightarrow> e = (Internal 54)"
proof (induction n rs es s rule: strat_loop.induct)
  case (1 n rs es s)
  then show ?case
    by (subst (asm) (2) strat_loop.simps) (auto dest: relax_edges_error split: sum.splits if_splits)
qed

lemma stratify_error: "stratify g = Err e \<Longrightarrow> e = (Internal 54)"
  by (auto simp: stratify_def Let_def dest: strat_loop_error)

text \<open>
  Registration is atomic. It succeeds exactly when the rule closes no cycle through a
  negation, and then the rule is the last of its predicate's rules and no other predicate's
  rules change; when it fails the registry is the one before, and the internal error of the
  roll-back never shows.
\<close>

lemma register_rule_atomic:
  assumes "registered reg"
  shows "(case register_rule p r reg of
      (Inr _, reg') \<Rightarrow> \<not> negative_cycle (from_rules reg') \<and> get_rules reg' p = get_rules reg p @ [r] \<and>
         (\<forall>q. q \<noteq> p \<longrightarrow> get_rules reg' q = get_rules reg q)
    | (Inl e, reg') \<Rightarrow> reg' = reg \<and> e = (Internal 54) \<and>
         negative_cycle (from_rules (register_rule_unchecked p r reg)))"
proof -
  let ?reg = "register_rule_unchecked p r reg"
  have inv: "registry_inv reg" using registered_inv [OF assms] by blast
  show ?thesis
  proof (cases "stratify (from_rules ?reg)")
    case (Inl e)
    then have "negative_cycle (from_rules ?reg)"
      using stratify_facts(1) [OF from_rules_graph(1), of ?reg] by simp
    with Inl stratify_error [OF Inl] inv show ?thesis by (simp add: register_rule_cases)
  next
    case (Inr s)
    then have "\<not> negative_cycle (from_rules ?reg)"
      using stratify_facts(1) [OF from_rules_graph(1), of ?reg] by blast
    with Inr inv show ?thesis by (simp add: register_rule_cases get_rules_def [of ?reg] map_of_unchecked)
       (simp add: get_rules_def)
  qed
qed

text \<open>A rule that would close a negative cycle is refused and leaves the registry as it was.\<close>

lemma example_refused:
  "fst (register_rule ''p'' \<lparr>rule_head = [], rule_body = [Not [RuleInvocation ''p'' []]]\<rparr> []) = Err (Internal 54)"
  by code_simp

end
