(* ===== verification/Evaluator.thy ===== *)
theory Evaluator
  imports Disjunction Stratification Storage_Lookups
begin

text \<open>
  Rule evaluation, \<^verbatim>\<open>src/query/datalog/evaluator.rs\<close>: instantiating rule heads, one rule, one
  iteration, the fixpoint loop of \<^verbatim>\<open>RecursiveEvaluator\<close> and the strata of
  \<^verbatim>\<open>StratifiedEvaluator\<close>.

  Derived facts are transacted one by one, and each transaction reads the wall clock. The
  clock is an argument: the time at which the store was in a given state. The loops are
  bounded by the limits the code itself keeps (iterations, facts per iteration, facts in
  all), and exceeding one is the error \<open>Internal 20\<close>.

  Shown: what the fixpoint loop returns is closed under the rules and least among the closed
  sets; it returns whenever its limits allow the closure; strata keep every base fact and
  derive no more facts than the limit; the predicates evaluated are those reachable from the
  query.
\<close>

section \<open>Heads\<close>

definition substitute_variable :: "bindings \<Rightarrow> edn_value \<Rightarrow> edn_value result" where
  "substitute_variable b e = (case e of
      Symbol s \<Rightarrow>
        if prefix ''?'' s then
          (case map_of b s of Some v \<Rightarrow> Ok (ev_value_to_edn v) | None \<Rightarrow> Err (Internal 22))
        else Ok e
    | _ \<Rightarrow> Ok e)"

definition instantiate_head :: "uuid_ops \<Rightarrow> edn_value list \<Rightarrow> bindings \<Rightarrow> fact result" where
  "instantiate_head U head b = (case head of
      Symbol pred # h1 # rest \<Rightarrow>
        and_then (substitute_variable b h1) (\<lambda>ent_edn.
        and_then (ok_or (Internal 22) (edn_to_entity_id U ent_edn)) (\<lambda>ent.
        and_then (case rest of
            h2 # _ \<Rightarrow> and_then (substitute_variable b h2) (\<lambda>v. ok_or (Internal 22) (edn_to_value v))
          | [] \<Rightarrow> Ok (VBoolean True)) (\<lambda>v.
        Ok (fact_new ent ('':'' @ pred) v 0))))
    | _ \<Rightarrow> Err (Internal 22))"

section \<open>One rule\<close>

definition rule_list_to_pattern :: "edn_value list \<Rightarrow> pattern result" where
  "rule_list_to_pattern l = (case l of
      Symbol pred # args \<Rightarrow> rule_invocation_to_pattern pred args
    | _ \<Rightarrow> Err (Internal 22))"

text \<open>The first loop of \<^verbatim>\<open>evaluate_rule\<close>: patterns and expressions of a positive body.\<close>

fun split_body :: "where_clause list \<Rightarrow> (pattern list \<times> where_clause list) result" where
  "split_body [] = Ok ([], [])"
| "split_body (PatternC p # cs) = and_then (split_body cs) (\<lambda>(ps, es). Ok (p # ps, es))"
| "split_body (RuleInvocation pred args # cs) =
     and_then (rule_list_to_pattern (Symbol pred # args)) (\<lambda>p.
     and_then (split_body cs) (\<lambda>(ps, es). Ok (p # ps, es)))"
| "split_body (ExprC e out # cs) = and_then (split_body cs) (\<lambda>(ps, es). Ok (ps, ExprC e out # es))"
| "split_body (_ # cs) = Err (Internal 21)"

definition evaluate_rule :: "eval_env \<Rightarrow> value_t \<Rightarrow> rule \<Rightarrow> fact_storage \<Rightarrow> fact list result" where
  "evaluate_rule E vat r s =
     and_then (split_body (rule_body r)) (\<lambda>(ps, es).
       if ps = [] \<and> es = [] then Ok []
       else
         let m = with_valid_at vat (matcher_new s);
             rows = (if ps = [] then [[]] else match_patterns (uuids E) m ps)
         in and_then (apply_expr_clauses_in_evaluator E rows es)
              (collect_map (instantiate_head (uuids E) (rule_head r))))"

definition evaluate_iteration ::
    "eval_env \<Rightarrow> value_t \<Rightarrow> rule_registry \<Rightarrow> string list \<Rightarrow> fact_storage \<Rightarrow> fact list result" where
  "evaluate_iteration E vat reg preds s =
     and_then (collect_map (\<lambda>r. evaluate_rule E vat r s) (concat (map (get_rules reg) preds)))
       (\<lambda>fss. Ok (concat fss))"

section \<open>The fixpoint loop\<close>

record recursive_evaluator =
  re_storage :: fact_storage
  re_rules :: rule_registry
  re_max_iterations :: nat
  re_max_derived_facts :: nat
  re_max_results :: nat
  re_valid_at :: value_t

definition recursive_evaluator_new ::
    "fact_storage \<Rightarrow> rule_registry \<Rightarrow> nat \<Rightarrow> nat \<Rightarrow> nat \<Rightarrow> recursive_evaluator" where
  "recursive_evaluator_new s reg iters derived results =
     \<lparr>re_storage = s, re_rules = reg, re_max_iterations = iters, re_max_derived_facts = derived,
      re_max_results = results, re_valid_at = VNull\<rparr>"

text \<open>The facts not seen before, and the keys seen after them (a \<^verbatim>\<open>BTreeSet\<close>, as a list without repetition).\<close>

fun compute_delta :: "nat \<Rightarrow> nat \<Rightarrow> fact list \<Rightarrow> eav_key list \<Rightarrow> (fact list \<times> eav_key list) result" where
  "compute_delta limit base [] seen = Ok ([], seen)"
| "compute_delta limit base (f # fs) seen =
     (if eav_of f \<in> set seen then compute_delta limit base fs seen
      else if limit \<le> length seen - base then Err (Internal 20)
      else and_then (compute_delta limit base fs (eav_of f # seen)) (\<lambda>(ds, seen'). Ok (f # ds, seen')))"

fun transact_delta :: "(fact_storage \<Rightarrow> u64) \<Rightarrow> fact list \<Rightarrow> fact_storage \<Rightarrow> fact_storage result" where
  "transact_delta clock [] s = Ok s"
| "transact_delta clock (f # fs) s =
     (case transact (clock s) [(entity f, attribute f, val f)] None s of
        (Inl e, _) \<Rightarrow> Err e
      | (Inr _, s') \<Rightarrow> transact_delta clock fs s')"

text \<open>The loop, by the iterations left.\<close>

fun fixpoint_loop ::
    "eval_env \<Rightarrow> (fact_storage \<Rightarrow> u64) \<Rightarrow> recursive_evaluator \<Rightarrow> string list \<Rightarrow> nat \<Rightarrow> nat \<Rightarrow> fact_storage \<Rightarrow>
     eav_key list \<Rightarrow> fact_storage result" where
  "fixpoint_loop E clock ev preds base 0 s seen = Err (Internal 20)"
| "fixpoint_loop E clock ev preds base (Suc n) s seen =
     and_then (evaluate_iteration E (re_valid_at ev) (re_rules ev) preds s) (\<lambda>new.
       if re_max_derived_facts ev < length new then Err (Internal 20)
       else and_then (compute_delta (re_max_results ev) base new seen) (\<lambda>(delta, seen').
         if delta = [] then Ok s
         else and_then (transact_delta clock delta s) (\<lambda>s'.
           fixpoint_loop E clock ev preds base n s' seen')))"

definition evaluate_recursive_rules ::
    "eval_env \<Rightarrow> (fact_storage \<Rightarrow> u64) \<Rightarrow> recursive_evaluator \<Rightarrow> string list \<Rightarrow> fact_storage result" where
  "evaluate_recursive_rules E clock ev preds =
     and_then (get_asserted_facts (re_storage ev)) (\<lambda>base.
       case load_facts base fact_storage_new of
         (Inl e, _) \<Rightarrow> Err e
       | (Inr _, s) \<Rightarrow>
           let seen = remdups (map eav_of base) in
           fixpoint_loop E clock ev preds (length seen) (re_max_iterations ev) (restore_tx_counter s) seen)"

section \<open>Strata\<close>

text \<open>The predicates to evaluate: \<open>done\<close> and \<open>todo\<close> are the list before and from the loop's index.\<close>

definition called_by :: "rule_registry \<Rightarrow> string \<Rightarrow> string list" where
  "called_by reg p = concat (map (\<lambda>r. concat (map rule_invocations (rule_body r))) (get_rules reg p))"

definition push_deps :: "string list \<Rightarrow> string list \<Rightarrow> string list" where
  "push_deps deps known = fold (\<lambda>d xs. if d \<in> set xs then xs else xs @ [d]) deps known"

lemma push_deps_facts:
  "take (length known) (push_deps deps known) = known" "length known \<le> length (push_deps deps known)"
  "set (push_deps deps known) = set known \<union> set deps"
  "distinct (drop (length known) (push_deps deps known)) \<and> set (drop (length known) (push_deps deps known)) = set deps - set known"
proof -
  have "\<exists>new. push_deps deps known = known @ new \<and> distinct new \<and> set new = set deps - set known"
  proof (induction deps arbitrary: known)
    case (Cons d deps)
    show ?case
    proof (cases "d \<in> set known")
      case True
      with Cons [of known] show ?thesis by (auto simp: push_deps_def)
    next
      case False
      obtain new where "push_deps deps (known @ [d]) = (known @ [d]) @ new" "distinct new" "set new = set deps - set (known @ [d])"
        using Cons [of "known @ [d]"] by auto
      with False show ?thesis by (intro exI [of _ "d # new"]) (auto simp: push_deps_def)
    qed
  qed (simp add: push_deps_def)
  then obtain new where n: "push_deps deps known = known @ new" "distinct new" "set new = set deps - set known" by blast
  then show "take (length known) (push_deps deps known) = known" "length known \<le> length (push_deps deps known)"
    "set (push_deps deps known) = set known \<union> set deps"
    "distinct (drop (length known) (push_deps deps known)) \<and> set (drop (length known) (push_deps deps known)) = set deps - set known"
    by auto
qed

definition all_called :: "rule_registry \<Rightarrow> string set" where
  "all_called reg = \<Union> (set (map (\<lambda>(p, _). set (called_by reg p)) reg))"

lemma finite_all_called: "finite (all_called reg)"
  by (auto simp: all_called_def)

lemma called_by_all: "set (called_by reg p) \<subseteq> all_called reg"
proof (cases "map_of reg p")
  case None
  then show ?thesis by (simp add: called_by_def get_rules_def)
next
  case (Some rs)
  then have "(p, rs) \<in> set reg" by (rule map_of_SomeD)
  then show ?thesis by (force simp: all_called_def)
qed

function all_preds_loop :: "rule_registry \<Rightarrow> nat \<Rightarrow> string list \<Rightarrow> string list" where
  "all_preds_loop reg i preds =
     (if i < length preds then all_preds_loop reg (i + 1) (push_deps (called_by reg (preds ! i)) preds) else preds)"
  by pat_completeness auto

termination
proof (relation "measure (\<lambda>(reg, i, preds). card (all_called reg - set preds) + (length preds - i))")
  fix reg :: rule_registry and i and preds :: "string list" assume i: "i < length preds"
  define new where "new = drop (length preds) (push_deps (called_by reg (preds ! i)) preds)"
  note P = push_deps_facts [of preds "called_by reg (preds ! i)"]
  have eq: "push_deps (called_by reg (preds ! i)) preds = preds @ new"
    using P(1) append_take_drop_id [of "length preds" "push_deps (called_by reg (preds ! i)) preds"] by (simp add: new_def)
  have new: "distinct new" "set new \<subseteq> all_called reg - set preds" using P(4) called_by_all [of reg] by (auto simp: new_def)
  have "all_called reg - set (preds @ new) = (all_called reg - set preds) - set new" by auto
  then have "card (all_called reg - set (preds @ new)) = card (all_called reg - set preds) - length new"
    using new by (simp add: card_Diff_subset distinct_card)
  moreover have "length new \<le> card (all_called reg - set preds)"
    using new card_mono [of "all_called reg - set preds" "set new"] finite_all_called by (simp add: distinct_card)
  ultimately show "((reg, i + 1, push_deps (called_by reg (preds ! i)) preds), reg, i, preds) \<in>
      measure (\<lambda>(reg, i, preds). card (all_called reg - set preds) + (length preds - i))"
    using i by (simp add: eq)
qed simp

declare all_preds_loop.simps [simp del]

fun fold_result :: "('a \<Rightarrow> 'b \<Rightarrow> 'b result) \<Rightarrow> 'a list \<Rightarrow> 'b \<Rightarrow> 'b result" where
  "fold_result f [] st = Ok st"
| "fold_result f (x # xs) st = and_then (f x st) (fold_result f xs)"

record stratified_evaluator =
  se_storage :: fact_storage
  se_rules :: rule_registry
  se_max_iterations :: nat
  se_max_derived_facts :: nat
  se_max_results :: nat
  se_valid_at :: value_t

text \<open>The state of an evaluation: the accumulated store and the number of facts derived.\<close>

record strat_state =
  accumulated :: fact_storage
  derived_total :: nat

subsection \<open>Positive rules\<close>

definition asserted_keys :: "fact_storage \<Rightarrow> eav_key list result" where
  "asserted_keys s = and_then (get_asserted_facts s) (\<lambda>fs. Ok (map eav_of fs))"

fun load_derived :: "nat \<Rightarrow> eav_key list \<Rightarrow> fact list \<Rightarrow> strat_state \<Rightarrow> strat_state result" where
  "load_derived limit existing [] st = Ok st"
| "load_derived limit existing (f # fs) st =
     (if eav_of f \<in> set existing then load_derived limit existing fs st
      else if limit < derived_total st + 1 then Err (Internal 20)
      else load_derived limit existing fs
        \<lparr>accumulated = snd (load_fact f (accumulated st)), derived_total = derived_total st + 1\<rparr>)"

definition positive_pass ::
    "eval_env \<Rightarrow> (fact_storage \<Rightarrow> u64) \<Rightarrow> stratified_evaluator \<Rightarrow> string list \<Rightarrow> (string \<times> rule) list \<Rightarrow>
     strat_state \<Rightarrow> strat_state result" where
  "positive_pass E clock se preds rules st =
     (if rules = [] then Ok st
      else
        let sub = fold (\<lambda>(p, r). register_rule_unchecked p r) rules [];
            ev = (recursive_evaluator_new (accumulated st) sub (se_max_iterations se)
                    (se_max_derived_facts se) (se_max_results se))\<lparr>re_valid_at := se_valid_at se\<rparr>
        in and_then (evaluate_recursive_rules E clock ev preds) (\<lambda>d.
           and_then (asserted_keys (accumulated st)) (\<lambda>existing.
           and_then (get_asserted_facts d) (\<lambda>fs.
           and_then (load_derived (se_max_results se) existing fs st) (\<lambda>st'.
             Ok (st'\<lparr>accumulated := restore_tx_counter (accumulated st')\<rparr>))))))"

subsection \<open>Mixed rules\<close>

definition mixed_plan_clauses :: "where_clause list \<Rightarrow> where_clause list" where
  "mixed_plan_clauses body = List.map_filter (\<lambda>c. case c of
      PatternC _ \<Rightarrow> Some c
    | ExprC _ _ \<Rightarrow> Some c
    | RuleInvocation pred args \<Rightarrow> map_option PatternC (result_to_option (rule_invocation_to_pattern pred args))
    | _ \<Rightarrow> None) body"

fun run_plan ::
    "eval_env \<Rightarrow> pattern_matcher \<Rightarrow> (where_clause \<times> index_hint option) list \<Rightarrow> bindings list \<Rightarrow> bindings list result" where
  "run_plan E m [] rows = Ok rows"
| "run_plan E m ((PatternC p, hint) # cs) rows =
     and_then (match_with_hint_seeded (uuids E) m rows p (case hint of Some h \<Rightarrow> h | None \<Rightarrow> HEavt)) (run_plan E m cs)"
| "run_plan E m ((ExprC e out, hint) # cs) rows =
     and_then (filter_map_result (expr_on_row E (ExprC e out)) rows) (run_plan E m cs)"
| "run_plan E m (_ # cs) rows = run_plan E m cs rows"

definition mixed_not_violated ::
    "eval_env \<Rightarrow> where_clause list \<Rightarrow> bindings \<Rightarrow> fact list \<Rightarrow> value_t \<Rightarrow> bool result" where
  "mixed_not_violated E body b fs vat =
     (let ps = List.map_filter (\<lambda>c. case c of
              PatternC p \<Rightarrow> Some (substitute_pattern b p)
            | RuleInvocation pred args \<Rightarrow>
                result_to_option (rule_invocation_to_pattern pred (map (substitute_value b) args))
            | _ \<Rightarrow> None) body
      in and_then (apply_expr_clauses_in_evaluator E (body_rows (uuids E) fs vat ps b) (body_exprs body))
           (\<lambda>rows. Ok (rows \<noteq> [])))"

definition not_bodies :: "where_clause list \<Rightarrow> where_clause list list" where
  "not_bodies body = List.map_filter (\<lambda>c. case c of Not b \<Rightarrow> Some b | _ \<Rightarrow> None) body"

definition not_join_bodies :: "where_clause list \<Rightarrow> (string list \<times> where_clause list) list" where
  "not_join_bodies body = List.map_filter (\<lambda>c. case c of NotJoin vs b \<Rightarrow> Some (vs, b) | _ \<Rightarrow> None) body"

definition rule_violated ::
    "eval_env \<Rightarrow> value_t \<Rightarrow> fact list \<Rightarrow> where_clause list \<Rightarrow> bindings \<Rightarrow> bool result" where
  "rule_violated E vat fs body b = any_result
     (map (\<lambda>nb. mixed_not_violated E nb b fs vat) (sort_key (\<lambda>nb. clause_cost (Not nb)) (not_bodies body)) @
      map (\<lambda>(vs, nb). evaluate_not_join E vs nb b fs vat)
        (sort_key (\<lambda>(vs, nb). clause_cost (NotJoin vs nb)) (not_join_bodies body)))"

text \<open>During a pass: the keys known and the facts new in it.\<close>

record pass_state = strat_state +
  known :: "eav_key list"
  new_in_pass :: nat

definition derive_row ::
    "eval_env \<Rightarrow> (fact_storage \<Rightarrow> u64) \<Rightarrow> stratified_evaluator \<Rightarrow> rule \<Rightarrow> fact list \<Rightarrow> bindings \<Rightarrow> pass_state \<Rightarrow> pass_state result" where
  "derive_row E clock se r fs b st =
     and_then (rule_violated E (se_valid_at se) fs (rule_body r) b) (\<lambda>violated.
       if violated then Ok st
       else case instantiate_head (uuids E) (rule_head r) b of
         Inl _ \<Rightarrow> Ok st
       | Inr f \<Rightarrow>
           if eav_of f \<in> set (known st) then Ok st
           else if se_max_derived_facts se < new_in_pass st + 1 then Err (Internal 20)
           else if se_max_results se < derived_total st + 1 then Err (Internal 20)
           else Ok \<lparr>accumulated = snd (transact (clock (accumulated st)) [(entity f, attribute f, val f)] None (accumulated st)),
                 derived_total = derived_total st + 1, known = eav_of f # known st, new_in_pass = new_in_pass st + 1\<rparr>)"

text \<open>
  Branches of a disjunction in a rule body are evaluated with the built-in functions only,
  and take the valid time back from the value a pattern would bind.
\<close>

definition branch_valid_at :: "value_t \<Rightarrow> valid_at" where
  "branch_valid_at v = (case v of VInteger t \<Rightarrow> VTimestamp t | _ \<Rightarrow> AnyValidTime)"

definition evaluate_mixed_rule ::
    "eval_env \<Rightarrow> (fact_storage \<Rightarrow> u64) \<Rightarrow> stratified_evaluator \<Rightarrow> string \<times> rule \<Rightarrow> pass_state \<Rightarrow> pass_state result" where
  "evaluate_mixed_rule E clock se = (\<lambda>(p, r) st.
     and_then (get_asserted_facts (accumulated st)) (\<lambda>fs.
       let (planned, deferred) = plan (mixed_plan_clauses (rule_body r)) in
       and_then (run_plan E (from_slice_with_valid_at fs (se_valid_at se)) planned [[]]) (\<lambda>c1.
       and_then (apply_or_clauses (E\<lparr>fn_registry := with_builtins\<rparr>) (rule_body r) c1 fs
           (Some (branch_valid_at (se_valid_at se))) (clock (accumulated st))) (\<lambda>c2.
       and_then (apply_expr_clauses_in_evaluator E c2 deferred) (\<lambda>c3.
         fold_result (derive_row E clock se r fs) c3 st)))))"

subsection \<open>Passes and strata\<close>

definition stratum_pass ::
    "eval_env \<Rightarrow> (fact_storage \<Rightarrow> u64) \<Rightarrow> stratified_evaluator \<Rightarrow> string list \<Rightarrow> (string \<times> rule) list \<Rightarrow>
     (string \<times> rule) list \<Rightarrow> strat_state \<Rightarrow> pass_state result" where
  "stratum_pass E clock se preds positive_rules mixed_rules st =
     and_then (positive_pass E clock se preds positive_rules st) (\<lambda>st1.
     and_then (if mixed_rules = [] then Ok [] else asserted_keys (accumulated st1)) (\<lambda>keys.
       fold_result (evaluate_mixed_rule E clock se) mixed_rules
         \<lparr>accumulated = accumulated st1, derived_total = derived_total st1, known = keys, new_in_pass = 0\<rparr>))"

fun stratum_loop ::
    "eval_env \<Rightarrow> (fact_storage \<Rightarrow> u64) \<Rightarrow> stratified_evaluator \<Rightarrow> string list \<Rightarrow> (string \<times> rule) list \<Rightarrow>
     (string \<times> rule) list \<Rightarrow> bool \<Rightarrow> nat \<Rightarrow> strat_state \<Rightarrow> strat_state result" where
  "stratum_loop E clock se preds positive_rules mixed_rules repeat 0 st = Err (Internal 20)"
| "stratum_loop E clock se preds positive_rules mixed_rules repeat (Suc n) st =
     and_then (stratum_pass E clock se preds positive_rules mixed_rules st) (\<lambda>ps.
       let st' = \<lparr>accumulated = accumulated ps, derived_total = derived_total ps\<rparr> in
       if \<not> repeat \<or> new_in_pass ps = 0 then Ok st'
       else stratum_loop E clock se preds positive_rules mixed_rules repeat n st')"

definition evaluate_stratum ::
    "eval_env \<Rightarrow> (fact_storage \<Rightarrow> u64) \<Rightarrow> stratified_evaluator \<Rightarrow> string list \<Rightarrow> strat_state \<Rightarrow> strat_state result" where
  "evaluate_stratum E clock se preds st =
     (if preds = [] then Ok st
      else
        let rules = concat (map (\<lambda>p. map (Pair p) (get_rules (se_rules se) p)) preds);
            positive_rules = filter (\<lambda>(p, r). \<not> has_mixed_clause (rule_body r)) rules;
            mixed_rules = filter (\<lambda>(p, r). has_mixed_clause (rule_body r)) rules;
            repeat = list_ex (\<lambda>(p, r). list_ex (\<lambda>d. d \<in> fst ` set mixed_rules)
                       (concat (map rule_invocations (rule_body r)))) (positive_rules @ mixed_rules)
        in stratum_loop E clock se preds positive_rules mixed_rules repeat (se_max_iterations se) st)"

definition evaluate ::
    "eval_env \<Rightarrow> (fact_storage \<Rightarrow> u64) \<Rightarrow> stratified_evaluator \<Rightarrow> string list \<Rightarrow> fact_storage result" where
  "evaluate E clock se preds =
     and_then (stratify (from_rules (se_rules se))) (\<lambda>strata.
       let all = all_preds_loop (se_rules se) 0 preds;
           top = fold max (map (stratum strata) all) 0
       in and_then (fold_result (\<lambda>k. evaluate_stratum E clock se (filter (\<lambda>p. stratum strata p = k) all))
            [0..<Suc top] \<lparr>accumulated = se_storage se, derived_total = 0\<rparr>) (\<lambda>st.
          Ok (accumulated st)))"

section \<open>The fixpoint loop computes the closure\<close>

definition keys_of :: "fact_storage \<Rightarrow> eav_key set" where
  "keys_of s = (case get_asserted_facts s of Inr fs \<Rightarrow> eav_of ` set fs | Inl _ \<Rightarrow> {})"

text \<open>A store of derived facts: nothing committed, nothing retracted, and the keys seen are its keys.\<close>

definition loop_inv :: "fact_storage \<Rightarrow> eav_key list \<Rightarrow> bool" where
  "loop_inv s seen \<longleftrightarrow> committed (data s) = None \<and> (\<forall>f \<in> set (facts (data s)). asserted f) \<and>
     set seen = eav_of ` set (facts (data s)) \<and> distinct seen"

lemma loop_inv_keys: "loop_inv s seen \<Longrightarrow> keys_of s = set seen"
  by (simp add: loop_inv_def keys_of_def get_asserted_facts_def get_all_facts_def all_facts_def is_asserted_def)

lemma eav_assert [simp]: "eav_of (assert_fact now c opts e a v) = (e, a, encode_value v)"
  by (simp add: eav_of_def assert_fact_def fact_with_valid_time_def)

lemma transact_one:
  "transact now [(e, a, v)] None s = (r, s') \<Longrightarrow>
     committed (data s') = committed (data s) \<and>
     (case r of
        Inr _ \<Rightarrow> facts (data s') = facts (data s) @ [assert_fact now (next_tx_count s) default_options e a v]
      | Inl _ \<Rightarrow> facts (data s') = facts (data s)) \<and>
     (length (facts (data s)) + 1 \<le> 2 ^ 32 \<longrightarrow> (\<exists>x. r = Inr x))"
  by (auto simp: transact_def split_beta Let_def append_facts_def pending_refs_eq and_then_eq_Inr register_def split: sum.splits if_splits)

lemma transact_delta_Ok:
  assumes "transact_delta clock ds s = Ok s'"
  shows "\<exists>new. facts (data s') = facts (data s) @ new \<and> committed (data s') = committed (data s) \<and>
    (\<forall>f \<in> set new. asserted f) \<and> map eav_of new = map eav_of ds"
  using assms
proof (induction ds arbitrary: s)
  case (Cons f ds)
  obtain r s1 where t: "transact (clock s) [(entity f, attribute f, val f)] None s = (r, s1)" by fastforce
  with Cons.prems obtain x where r: "r = Inr x" "transact_delta clock ds s1 = Ok s'" by (cases r) auto
  from Cons.IH [OF r(2)] transact_one [OF t] show ?case by (auto simp: r(1) eav_of_def [of f])
qed simp

lemma transact_delta_succeeds:
  "length (facts (data s)) + length ds \<le> 2 ^ 32 \<Longrightarrow> \<exists>s'. transact_delta clock ds s = Ok s'"
proof (induction ds arbitrary: s)
  case (Cons f ds)
  obtain r s1 where t: "transact (clock s) [(entity f, attribute f, val f)] None s = (r, s1)" by fastforce
  from transact_one [OF t] Cons.prems obtain x where "r = Inr x" "length (facts (data s1)) = length (facts (data s)) + 1" by auto
  with Cons.IH [of s1] Cons.prems t show ?case by simp
qed simp

lemma compute_delta_Ok:
  assumes "compute_delta limit base fs seen = Ok (ds, seen')"
  shows "set seen' = set seen \<union> eav_of ` set fs" "eav_of ` set ds = eav_of ` set fs - set seen"
    "distinct seen \<Longrightarrow> distinct seen'" "length seen' = length seen + length ds"
    "base \<le> length seen \<Longrightarrow> length seen - base \<le> limit \<Longrightarrow> length seen' - base \<le> limit"
proof -
  have "set seen' = set seen \<union> eav_of ` set fs \<and> eav_of ` set ds = eav_of ` set fs - set seen \<and>
    (distinct seen \<longrightarrow> distinct seen') \<and> length seen' = length seen + length ds \<and>
    (base \<le> length seen \<longrightarrow> length seen - base \<le> limit \<longrightarrow> length seen' - base \<le> limit)"
    using assms
  proof (induction fs arbitrary: seen ds seen')
    case (Cons f fs)
    show ?case
    proof (cases "eav_of f \<in> set seen")
      case True
      with Cons.IH [of seen ds seen'] Cons.prems show ?thesis by auto
    next
      case False
      with Cons.prems obtain es where es: "\<not> limit \<le> length seen - base"
          "compute_delta limit base fs (eav_of f # seen) = Ok (es, seen')" "ds = f # es"
        by (auto simp: and_then_eq_Inr split: if_splits)
      show ?thesis using False es(1,3) Cons.IH [OF es(2)] by auto
    qed
  qed auto
  then show "set seen' = set seen \<union> eav_of ` set fs" "eav_of ` set ds = eav_of ` set fs - set seen"
    "distinct seen \<Longrightarrow> distinct seen'" "length seen' = length seen + length ds"
    "base \<le> length seen \<Longrightarrow> length seen - base \<le> limit \<Longrightarrow> length seen' - base \<le> limit" by blast+
qed

lemma compute_delta_succeeds:
  assumes "finite S" "set seen \<subseteq> S" "eav_of ` set fs \<subseteq> S" "distinct seen" "card S \<le> base + limit" "base \<le> length seen"
  shows "\<exists>ds seen'. compute_delta limit base fs seen = Ok (ds, seen')"
  using assms
proof (induction fs arbitrary: seen)
  case (Cons f fs)
  show ?case
  proof (cases "eav_of f \<in> set seen")
    case True
    with Cons show ?thesis by simp
  next
    case False
    have "card (insert (eav_of f) (set seen)) \<le> card S" using Cons.prems by (intro card_mono) auto
    then have "length seen + 1 \<le> base + limit" using False Cons.prems(4,5) by (simp add: distinct_card)
    then have "\<not> limit \<le> length seen - base" using Cons.prems(6) by simp
    moreover obtain ds seen' where "compute_delta limit base fs (eav_of f # seen) = Ok (ds, seen')"
      using Cons.IH [of "eav_of f # seen"] Cons.prems False by auto
    ultimately show ?thesis using False by simp
  qed
qed simp

abbreviation iteration :: "eval_env \<Rightarrow> recursive_evaluator \<Rightarrow> string list \<Rightarrow> fact_storage \<Rightarrow> fact list result" where
  "iteration E ev preds s \<equiv> evaluate_iteration E (re_valid_at ev) (re_rules ev) preds s"

lemma fixpoint_loop_Ok:
  assumes "fixpoint_loop E clock ev preds base n s seen = Ok d" "loop_inv s seen"
    and "base \<le> length seen" "length seen - base \<le> re_max_results ev"
  shows "\<exists>seen'. loop_inv d seen' \<and> set seen \<subseteq> set seen' \<and> base \<le> length seen' \<and> length seen' - base \<le> re_max_results ev \<and>
    (\<exists>new. iteration E ev preds d = Ok new \<and> eav_of ` set new \<subseteq> set seen') \<and>
    (\<forall>S. set seen \<subseteq> S \<longrightarrow> (\<forall>t new. keys_of t \<subseteq> S \<longrightarrow> iteration E ev preds t = Ok new \<longrightarrow> eav_of ` set new \<subseteq> S) \<longrightarrow> set seen' \<subseteq> S)"
  using assms
proof (induction n arbitrary: s seen)
  case (Suc n)
  from Suc.prems(1) obtain new delta seen1 where new: "iteration E ev preds s = Ok new"
      and delta: "compute_delta (re_max_results ev) base new seen = Ok (delta, seen1)"
      and rest: "(if delta = [] then Ok s else and_then (transact_delta clock delta s) (\<lambda>s'.
        fixpoint_loop E clock ev preds base n s' seen1)) = Ok d"
    by (auto simp: and_then_eq_Inr split: if_splits)
  note D = compute_delta_Ok [OF delta]
  show ?case
  proof (cases "delta = []")
    case True
    then have "eav_of ` set new \<subseteq> set seen" using D(2) by auto
    with True rest new Suc.prems show ?thesis by (intro exI [of _ seen]) auto
  next
    case False
    then obtain s1 where s1: "transact_delta clock delta s = Ok s1" "fixpoint_loop E clock ev preds base n s1 seen1 = Ok d"
      using rest by (auto simp: and_then_eq_Inr)
    obtain add where add: "facts (data s1) = facts (data s) @ add" "committed (data s1) = committed (data s)"
        "\<forall>f \<in> set add. asserted f" "map eav_of add = map eav_of delta" using transact_delta_Ok [OF s1(1)] by blast
    have "eav_of ` set add = eav_of ` set delta" using add(4) by (metis list.set_map)
    then have "loop_inv s1 seen1" using Suc.prems(2) add(1,2,3) D(1,2,3) by (auto simp: loop_inv_def)
    moreover have "base \<le> length seen1" "length seen1 - base \<le> re_max_results ev" using D(4,5) Suc.prems(3,4) by simp_all
    ultimately obtain seen' where I: "loop_inv d seen'" "set seen1 \<subseteq> set seen'" "base \<le> length seen'"
        "length seen' - base \<le> re_max_results ev" "\<exists>new. iteration E ev preds d = Ok new \<and> eav_of ` set new \<subseteq> set seen'"
        "\<And>S. set seen1 \<subseteq> S \<Longrightarrow> \<forall>t new. keys_of t \<subseteq> S \<longrightarrow> iteration E ev preds t = Ok new \<longrightarrow> eav_of ` set new \<subseteq> S \<Longrightarrow> set seen' \<subseteq> S"
      using Suc.IH [OF s1(2)] by blast
    have "set seen1 \<subseteq> S" if "set seen \<subseteq> S"
        "\<forall>t new. keys_of t \<subseteq> S \<longrightarrow> iteration E ev preds t = Ok new \<longrightarrow> eav_of ` set new \<subseteq> S" for S
      using that new loop_inv_keys [OF Suc.prems(2)] unfolding D(1) by blast
    then show ?thesis using I D(1) by (intro exI [of _ seen']) auto
  qed
qed simp

lemma loaded_base:
  assumes "load_facts base fact_storage_new = (Inr n, s)" "\<forall>f \<in> set base. asserted f"
  shows "loop_inv (restore_tx_counter s) (remdups (map eav_of base))" "length (facts (data s)) \<le> length base"
proof -
  have fs: "facts (data s) = new_facts {} base" "committed (data s) = None"
    using assms(1) append_facts_Inr [of "new_facts {} base" "data fact_storage_new"]
    by (auto simp: load_facts_eq fact_storage_new_def fact_data_new_def Let_def split: sum.splits)
  moreover have "eav_of ` set (new_facts {} base) = eav_of ` set base"
  proof -
    have "eav_of f = (\<lambda>(e, a, v, _). (e, a, v)) (pending_key f)" for f by (simp add: eav_of_def pending_key_def)
    then have "eav_of ` X = (\<lambda>(e, a, v, _). (e, a, v)) ` pending_key ` X" for X by (simp add: image_image)
    then show ?thesis by (simp add: new_facts_keys)
  qed
  ultimately show "loop_inv (restore_tx_counter s) (remdups (map eav_of base))"
    using assms(2) new_facts_subset [of "{}" base] by (auto simp: loop_inv_def restore_tx_counter_def)
  have "length (new_facts seen fs) \<le> length fs" for seen fs by (induction seen fs rule: new_facts.induct) auto
  then show "length (facts (data s)) \<le> length base" using fs(1) by simp
qed

lemma base_asserted: "get_asserted_facts s = Ok base \<Longrightarrow> \<forall>f \<in> set base. asserted f"
  by (auto simp: get_asserted_facts_def and_then_eq_Inr is_asserted_def)

text \<open>
  C8. What rule evaluation returns is the closure of the base facts under the rules. It keeps the
  base; one more iteration of the rules over it derives no new fact; and it is contained in
  every set of facts that contains the base and that the rules, run over any store of such
  facts, do not leave. At most \<^verbatim>\<open>max_results\<close> facts were derived.
\<close>

theorem rules_least_fixpoint:
  assumes "evaluate_recursive_rules E clock ev preds = Ok d"
  shows "keys_of (re_storage ev) \<subseteq> keys_of d \<and>
    (\<exists>new. iteration E ev preds d = Ok new \<and> eav_of ` set new \<subseteq> keys_of d) \<and>
    (\<forall>S. keys_of (re_storage ev) \<subseteq> S \<longrightarrow>
      (\<forall>s new. keys_of s \<subseteq> S \<longrightarrow> iteration E ev preds s = Ok new \<longrightarrow> eav_of ` set new \<subseteq> S) \<longrightarrow> keys_of d \<subseteq> S) \<and>
    card (keys_of d - keys_of (re_storage ev)) \<le> re_max_results ev"
proof -
  obtain base n s where base: "get_asserted_facts (re_storage ev) = Ok base" "load_facts base fact_storage_new = (Inr n, s)"
      "fixpoint_loop E clock ev preds (length (remdups (map eav_of base))) (re_max_iterations ev) (restore_tx_counter s)
        (remdups (map eav_of base)) = Ok d"
  proof -
    obtain base where b: "get_asserted_facts (re_storage ev) = Ok base"
      using assms by (auto simp: evaluate_recursive_rules_def and_then_eq_Inr)
    obtain r s where r: "load_facts base fact_storage_new = (r, s)" by fastforce
    show ?thesis
      using assms b r by (cases r) (auto simp: evaluate_recursive_rules_def Let_def intro!: that)
  qed
  let ?seen = "remdups (map eav_of base)"
  have k: "keys_of (re_storage ev) = set ?seen" using base(1) by (simp add: keys_of_def)
  obtain seen' where L: "loop_inv d seen'" "set ?seen \<subseteq> set seen'" "length ?seen \<le> length seen'"
      "length seen' - length ?seen \<le> re_max_results ev" "\<exists>new. iteration E ev preds d = Ok new \<and> eav_of ` set new \<subseteq> set seen'"
      "\<forall>S. set ?seen \<subseteq> S \<longrightarrow> (\<forall>t new. keys_of t \<subseteq> S \<longrightarrow> iteration E ev preds t = Ok new \<longrightarrow> eav_of ` set new \<subseteq> S) \<longrightarrow> set seen' \<subseteq> S"
    using fixpoint_loop_Ok [OF base(3) loaded_base(1) [OF base(2) base_asserted [OF base(1)]]] by auto
  have d: "keys_of d = set seen'" by (rule loop_inv_keys [OF L(1)])
  have "card (set seen' - set ?seen) = length seen' - length ?seen"
    using L(1) card_Diff_subset [OF _ L(2)] distinct_card [of seen'] distinct_card [of ?seen] unfolding loop_inv_def by simp
  then show ?thesis unfolding d k using L(2,4,5,6) by auto
qed

lemma recursive_rules_return:
  assumes "get_asserted_facts (re_storage ev) = Ok base" and "finite S" and "eav_of ` set base \<subseteq> S"
    and closed: "\<forall>s. keys_of s \<subseteq> S \<longrightarrow> length (facts (data s)) \<le> length base + card S \<longrightarrow>
      (\<exists>new. iteration E ev preds s = Ok new \<and> eav_of ` set new \<subseteq> S \<and> length new \<le> re_max_derived_facts ev)"
    and "card (S - eav_of ` set base) \<le> re_max_results ev" and "card (S - eav_of ` set base) < re_max_iterations ev"
    and "length base + card S \<le> 2 ^ 32"
  shows "\<exists>d. evaluate_recursive_rules E clock ev preds = Ok d"
proof -
  let ?seen = "remdups (map eav_of base)"
  have S: "card S \<le> length ?seen + re_max_results ev"
    using assms(2,3,5) by (simp add: card_Diff_subset length_remdups_card_conv)
  have loop: "\<exists>d. fixpoint_loop E clock ev preds (length ?seen) n s seen = Ok d"
    if "loop_inv s seen" "set seen \<subseteq> S" "length ?seen \<le> length seen" "card (S - set seen) < n"
      "length (facts (data s)) + length ?seen \<le> length base + length seen" for n s seen
    using that
  proof (induction n arbitrary: s seen)
    case (Suc n)
    have "card (set seen) \<le> card S" by (rule card_mono [OF assms(2) Suc.prems(2)])
    then have "length seen \<le> card S" using Suc.prems(1) distinct_card [of seen] by (simp add: loop_inv_def)
    then obtain new where new: "iteration E ev preds s = Ok new" "eav_of ` set new \<subseteq> S" "length new \<le> re_max_derived_facts ev"
      using closed [rule_format, of s] loop_inv_keys [OF Suc.prems(1)] Suc.prems(2,5) by auto
    obtain ds seen' where ds: "compute_delta (re_max_results ev) (length ?seen) new seen = Ok (ds, seen')"
      using compute_delta_succeeds [OF assms(2) Suc.prems(2) new(2) _ S Suc.prems(3)] Suc.prems(1) by (auto simp: loop_inv_def)
    note D = compute_delta_Ok [OF ds]
    show ?case
    proof (cases "ds = []")
      case True
      then show ?thesis using new ds by simp
    next
      case False
      have sub: "set seen' \<subseteq> S" using D(1) Suc.prems(2) new(2) by simp
      have ds': "distinct seen'" using D(3) Suc.prems(1) by (simp add: loop_inv_def)
      have len: "length seen' \<le> card S" using card_mono [OF assms(2) sub] ds' by (simp add: distinct_card)
      then have room: "length (facts (data s)) + length ds \<le> 2 ^ 32" using D(4) Suc.prems(5) assms(7) by linarith
      then obtain s1 where s1: "transact_delta clock ds s = Ok s1" using transact_delta_succeeds by blast
      obtain add where add: "facts (data s1) = facts (data s) @ add" "committed (data s1) = committed (data s)"
          "\<forall>f \<in> set add. asserted f" "map eav_of add = map eav_of ds" using transact_delta_Ok [OF s1] by blast
      have "eav_of ` set add = eav_of ` set ds" "length add = length ds" using add(4) by (metis list.set_map, metis length_map)
      then have "loop_inv s1 seen'" "length (facts (data s1)) + length ?seen \<le> length base + length seen'"
        using Suc.prems(1,5) add(1,2,3) D(1,2,4) ds' by (auto simp: loop_inv_def)
      moreover have "card (S - set seen') < n"
      proof -
        have "eav_of (hd ds) \<in> eav_of ` set ds" using False by simp
        then have "eav_of (hd ds) \<in> set seen'" "eav_of (hd ds) \<notin> set seen" unfolding D(1,2) by simp_all
        moreover have "set seen \<subseteq> set seen'" unfolding D(1) by simp
        ultimately have "set seen \<subset> set seen'" by blast
        then have "S - set seen' \<subset> S - set seen" using sub by blast
        then have "card (S - set seen') < card (S - set seen)" using assms(2) by (intro psubset_card_mono) auto
        then show ?thesis using Suc.prems(4) by simp
      qed
      ultimately obtain d where "fixpoint_loop E clock ev preds (length ?seen) n s1 seen' = Ok d"
        using Suc.IH [of s1 seen'] sub D(4) Suc.prems(3) by auto
      then show ?thesis using new ds s1 False by simp
    qed
  qed simp
  have "length (new_facts {} base) \<le> length base"
  proof -
    have "length (new_facts seen fs) \<le> length fs" for seen fs by (induction seen fs rule: new_facts.induct) auto
    then show ?thesis .
  qed
  then obtain n s where load: "load_facts base fact_storage_new = (Inr n, s)"
    using assms(7) by (auto simp: load_facts_eq fact_storage_new_def fact_data_new_def append_facts_def pending_refs_eq Let_def)
  note B = loaded_base [OF load base_asserted [OF assms(1)]]
  have "\<exists>d. fixpoint_loop E clock ev preds (length ?seen) (re_max_iterations ev) (restore_tx_counter s) ?seen = Ok d"
    using B assms(3,6) by (intro loop) (simp_all add: restore_tx_counter_def)
  then show ?thesis using assms(1) load by (simp add: evaluate_recursive_rules_def Let_def)
qed

text \<open>
  C17. Evaluation comes to an end with an answer whenever its limits leave room for the closure:
  if the facts the rules can reach are finitely many, not more than \<^verbatim>\<open>max_results\<close> of them new and
  fewer than \<^verbatim>\<open>max_iterations\<close>, no iteration derives more than \<^verbatim>\<open>max_derived_facts\<close>, and the log
  has room, then a store is returned: no limit is ever reported without cause.
\<close>

theorem rules_return:
  assumes "get_asserted_facts (re_storage ev) = Ok base" and "finite S" and "eav_of ` set base \<subseteq> S"
    and "\<forall>s. keys_of s \<subseteq> S \<longrightarrow> length (facts (data s)) \<le> length base + card S \<longrightarrow>
      (\<exists>new. iteration E ev preds s = Ok new \<and> eav_of ` set new \<subseteq> S \<and> length new \<le> re_max_derived_facts ev)"
    and "card (S - eav_of ` set base) \<le> re_max_results ev" and "card (S - eav_of ` set base) < re_max_iterations ev"
    and "length base + card S \<le> 2 ^ 32"
  shows "\<exists>d. evaluate_recursive_rules E clock ev preds = Ok d"
  using assms by (rule recursive_rules_return)

definition mark_rule :: rule where
  "mark_rule = \<lparr>rule_head = [Symbol ''marked'', Keyword '':k''], rule_body = [ExprC (Lit (VBoolean True)) None]\<rparr>"

definition mark_evaluator :: recursive_evaluator where
  "mark_evaluator = recursive_evaluator_new fact_storage_new [(''marked'', [mark_rule])] 5 5 5"

lemma mark_iteration:
  "iteration sample_env mark_evaluator [''marked''] s = Ok [fact_new (keyword_id sample_uuid_ops '':k'') '':marked'' (VBoolean True) 0]"
  by (simp add: evaluate_iteration_def evaluate_rule_def mark_evaluator_def mark_rule_def recursive_evaluator_new_def
      get_rules_def apply_expr_clauses_in_evaluator_def expr_on_row_def is_truthy_def instantiate_head_def
      substitute_variable_def edn_to_entity_id_def sample_env_def)

lemma mark_closed:
  "get_asserted_facts (re_storage mark_evaluator) = Ok []"
  "\<forall>s. keys_of s \<subseteq> {eav_of (fact_new (keyword_id sample_uuid_ops '':k'') '':marked'' (VBoolean True) 0)} \<longrightarrow>
     length (facts (data s)) \<le> length ([] :: fact list) + card {eav_of (fact_new (keyword_id sample_uuid_ops '':k'') '':marked'' (VBoolean True) 0)} \<longrightarrow>
      (\<exists>new. iteration sample_env mark_evaluator [''marked''] s = Ok new \<and>
        eav_of ` set new \<subseteq> {eav_of (fact_new (keyword_id sample_uuid_ops '':k'') '':marked'' (VBoolean True) 0)} \<and>
        length new \<le> re_max_derived_facts mark_evaluator)"
  using mark_iteration
  by (simp_all add: mark_evaluator_def recursive_evaluator_new_def get_asserted_facts_def get_all_facts_def all_facts_def
      fact_storage_new_def fact_data_new_def)

lemma mark_returns: "\<exists>d. evaluate_recursive_rules sample_env (\<lambda>s. 7) mark_evaluator [''marked''] = Ok d"
  by (rule recursive_rules_return [OF mark_closed(1) _ _ mark_closed(2)])
     (simp_all add: mark_evaluator_def recursive_evaluator_new_def)

theorem rules_return_witness: "\<exists>d. evaluate_recursive_rules sample_env (\<lambda>s. 7) mark_evaluator [''marked''] = Ok d"
  by (rule rules_return [OF mark_closed(1) _ _ mark_closed(2)])
     (simp_all add: mark_evaluator_def recursive_evaluator_new_def)

theorem rules_least_fixpoint_witness:
  "\<exists>d. evaluate_recursive_rules sample_env (\<lambda>s. 7) mark_evaluator [''marked''] = Ok d \<and>
     eav_of (fact_new (keyword_id sample_uuid_ops '':k'') '':marked'' (VBoolean True) 0) \<in> keys_of d \<and>
     card (keys_of d - keys_of (re_storage mark_evaluator)) \<le> 5"
proof -
  obtain d where d: "evaluate_recursive_rules sample_env (\<lambda>s. 7) mark_evaluator [''marked''] = Ok d"
    using mark_returns by blast
  have max: "re_max_results mark_evaluator = 5" by (simp add: mark_evaluator_def recursive_evaluator_new_def)
  note L = rules_least_fixpoint [OF d, unfolded mark_iteration max]
  show ?thesis using d L [THEN conjunct2, THEN conjunct1] L [THEN conjunct2, THEN conjunct2, THEN conjunct2] by auto
qed

section \<open>Strata keep the base and their limit\<close>

definition extends :: "fact_storage \<Rightarrow> nat \<Rightarrow> fact_storage \<Rightarrow> bool" where
  "extends s k t \<longleftrightarrow> (\<exists>new. facts (data t) = facts (data s) @ new \<and> length new \<le> k) \<and> committed (data t) = committed (data s)"

lemma extends_refl: "extends s 0 s"
  by (simp add: extends_def)

lemma extends_trans: "extends s j t \<Longrightarrow> extends t k u \<Longrightarrow> extends s (j + k) u"
  by (force simp: extends_def)

lemma extends_load_fact: "extends s 1 (snd (load_fact f s))"
proof -
  define new where "new = new_facts (pending_keys (data s)) [f]"
  have len: "length new \<le> 1" by (simp add: new_def)
  have eq: "snd (load_fact f s) = (case append_facts new (data s) of Inl _ \<Rightarrow> s | Inr d \<Rightarrow> s\<lparr>data := d\<rparr>)"
    unfolding load_fact_eq load_facts_eq Let_def new_def [symmetric] by (simp add: split_beta split: sum.split)
  show ?thesis
  proof (cases "append_facts new (data s)")
    case (Inr d)
    from append_facts_Inr [OF this] len show ?thesis unfolding eq Inr by (simp add: extends_def)
  qed (simp add: eq extends_def)
qed

lemma extends_transact: "extends s 1 (snd (transact now [(e, a, v)] None s))"
proof -
  obtain r s' where t: "transact now [(e, a, v)] None s = (r, s')" by fastforce
  from transact_one [OF t] show ?thesis by (cases r) (simp_all add: t extends_def)
qed

lemma extends_restore: "extends s k t \<Longrightarrow> extends s k (restore_tx_counter t)"
  by (simp add: extends_def restore_tx_counter_def)

text \<open>A step that adds at most as many facts as it counts and keeps the count within the limit.\<close>

definition counted_step :: "nat \<Rightarrow> ('a strat_state_scheme) \<Rightarrow> ('b strat_state_scheme) \<Rightarrow> bool" where
  "counted_step limit st st' \<longleftrightarrow> derived_total st \<le> derived_total st' \<and>
     extends (accumulated st) (derived_total st' - derived_total st) (accumulated st') \<and>
     (derived_total st \<le> limit \<longrightarrow> derived_total st' \<le> limit)"

lemma counted_refl: "accumulated st' = accumulated st \<Longrightarrow> derived_total st' = derived_total st \<Longrightarrow> counted_step limit st st'"
  by (simp add: counted_step_def extends_refl)

lemma counted_trans: "counted_step l a b \<Longrightarrow> counted_step l b c \<Longrightarrow> counted_step l a c"
  unfolding counted_step_def using extends_trans [of "accumulated a" "derived_total b - derived_total a" "accumulated b"] by fastforce

lemma counted_one:
  assumes "extends (accumulated st) 1 s" "derived_total st + 1 \<le> limit" "accumulated st' = s" "derived_total st' = derived_total st + 1"
  shows "counted_step limit st st'"
  using assms by (simp add: counted_step_def)

lemma fold_result_counted:
  assumes "\<And>x st st'. f x st = Ok st' \<Longrightarrow> counted_step limit st st'"
  shows "fold_result f xs st = Ok st' \<Longrightarrow> counted_step limit st (st' :: 'a strat_state_scheme)"
proof (induction xs arbitrary: st)
  case (Cons x xs)
  then obtain st1 where "f x st = Ok st1" "fold_result f xs st1 = Ok st'" by (auto simp: and_then_eq_Inr)
  then show ?case using assms Cons.IH counted_trans by blast
qed (simp add: counted_refl)

lemma load_derived_counted: "load_derived limit ex fs st = Ok st' \<Longrightarrow> counted_step limit st st'"
proof (induction limit ex fs st rule: load_derived.induct)
  case (2 limit ex f fs st)
  show ?case
  proof (cases "eav_of f \<in> set ex")
    case False
    let ?st = "\<lparr>accumulated = snd (load_fact f (accumulated st)), derived_total = derived_total st + 1\<rparr>"
    have lim: "\<not> limit < derived_total st + 1" "load_derived limit ex fs ?st = Ok st'"
      using 2(3) False by (simp_all split: if_splits)
    have "counted_step limit st ?st" using lim(1) extends_load_fact by (intro counted_one) simp_all
    then show ?thesis using 2(2) [OF False lim] counted_trans by blast
  qed (use 2 in simp)
qed (simp add: counted_refl)

lemma positive_pass_counted: "positive_pass E clock se preds rs st = Ok st' \<Longrightarrow> counted_step (se_max_results se) st st'"
proof -
  assume a: "positive_pass E clock se preds rs st = Ok st'"
  show ?thesis
  proof (cases "rs = []")
    case True
    with a show ?thesis by (simp add: positive_pass_def counted_refl)
  next
    case False
    with a obtain ex fs st1 where l: "load_derived (se_max_results se) ex fs st = Ok st1"
        "st' = st1\<lparr>accumulated := restore_tx_counter (accumulated st1)\<rparr>"
      by (auto simp: positive_pass_def and_then_eq_Inr Let_def)
    from load_derived_counted [OF l(1)] show ?thesis by (simp add: counted_step_def l(2) extends_restore)
  qed
qed

lemma derive_row_counted:
  assumes "derive_row E clock se r fs b st = Ok st'"
  shows "counted_step (se_max_results se) st st'"
proof (cases "st' = st")
  case False
  then obtain f where f: "\<not> se_max_results se < derived_total st + 1"
      "st' = \<lparr>accumulated = snd (transact (clock (accumulated st)) [(entity f, attribute f, val f)] None (accumulated st)),
        derived_total = derived_total st + 1, known = eav_of f # known st, new_in_pass = new_in_pass st + 1\<rparr>"
    using assms by (auto simp: derive_row_def and_then_eq_Inr split: if_splits sum.splits)
  show ?thesis using f(1) by (intro counted_one [OF extends_transact]) (simp_all add: f(2))
qed (simp add: counted_refl)

lemma mixed_rule_counted:
  assumes "evaluate_mixed_rule E clock se pr st = Ok st'"
  shows "counted_step (se_max_results se) st st'"
proof -
  obtain fs rows where "fold_result (derive_row E clock se (snd pr) fs) rows st = Ok st'"
    using assms by (cases pr; cases "plan (mixed_plan_clauses (rule_body (snd pr)))")
      (auto simp: evaluate_mixed_rule_def and_then_eq_Inr)
  then show ?thesis by (rule fold_result_counted [rotated]) (rule derive_row_counted)
qed

lemma stratum_pass_counted:
  assumes "stratum_pass E clock se preds ps ms st = Ok st'"
  shows "counted_step (se_max_results se) st st'"
proof -
  obtain st1 keys where s: "positive_pass E clock se preds ps st = Ok st1"
      "fold_result (evaluate_mixed_rule E clock se) ms
         \<lparr>accumulated = accumulated st1, derived_total = derived_total st1, known = keys, new_in_pass = 0\<rparr> = Ok st'"
    using assms by (auto simp: stratum_pass_def and_then_eq_Inr)
  note P = positive_pass_counted [OF s(1)]
  have "counted_step (se_max_results se) st1 (\<lparr>accumulated = accumulated st1, derived_total = derived_total st1, known = keys, new_in_pass = 0\<rparr> :: pass_state)"
    by (rule counted_refl) simp_all
  from counted_trans [OF counted_trans [OF P this] fold_result_counted [OF mixed_rule_counted s(2)]] show ?thesis .
qed

lemma stratum_loop_counted: "stratum_loop E clock se preds ps ms rep n st = Ok st' \<Longrightarrow> counted_step (se_max_results se) st st'"
proof (induction n arbitrary: st)
  case (Suc n)
  obtain q where q: "stratum_pass E clock se preds ps ms st = Ok q" using Suc.prems by (auto simp: and_then_eq_Inr)
  let ?st = "\<lparr>accumulated = accumulated q, derived_total = derived_total q\<rparr>"
  have s: "counted_step (se_max_results se) st ?st"
    using stratum_pass_counted [OF q] by (simp add: counted_step_def)
  show ?case
  proof (cases "\<not> rep \<or> new_in_pass q = 0")
    case True
    then show ?thesis using Suc.prems q s by (simp add: Let_def)
  next
    case False
    then have "stratum_loop E clock se preds ps ms rep n ?st = Ok st'" using Suc.prems q by (simp add: Let_def)
    from Suc.IH [OF this] s counted_trans show ?thesis by blast
  qed
qed simp

lemma evaluate_stratum_counted: "evaluate_stratum E clock se preds st = Ok st' \<Longrightarrow> counted_step (se_max_results se) st st'"
  by (auto simp: evaluate_stratum_def Let_def intro: counted_refl stratum_loop_counted split: if_splits)

lemma evaluate_appends:
  assumes "evaluate E clock se preds = Ok s"
  shows "\<exists>new. facts (data s) = facts (data (se_storage se)) @ new \<and> length new \<le> se_max_results se \<and>
    committed (data s) = committed (data (se_storage se))"
proof -
  obtain strata ks st where e: "fold_result (\<lambda>k. evaluate_stratum E clock se (filter (\<lambda>p. stratum strata p = k)
        (all_preds_loop (se_rules se) 0 preds))) ks \<lparr>accumulated = se_storage se, derived_total = 0\<rparr> = Ok st" "s = accumulated st"
    using assms by (auto simp: evaluate_def and_then_eq_Inr Let_def simp del: upt_Suc)
  have "counted_step (se_max_results se) \<lparr>accumulated = se_storage se, derived_total = 0\<rparr> st"
    by (rule fold_result_counted [OF evaluate_stratum_counted e(1)])
  then show ?thesis by (auto simp: counted_step_def extends_def e(2))
qed

text \<open>
  C35. Evaluating the strata only ever appends: the log of the store evaluated over is a prefix of
  the result's, what is committed is untouched, and across all strata and repeated passes
  no more than \<^verbatim>\<open>max_results\<close> records are added.
\<close>

theorem evaluate_bounded:
  assumes "evaluate E clock se preds = Ok s"
  shows "\<exists>new. facts (data s) = facts (data (se_storage se)) @ new \<and> length new \<le> se_max_results se \<and>
    committed (data s) = committed (data (se_storage se))"
  using assms by (rule evaluate_appends)

text \<open>A rule that derives one fact from nothing, evaluated over an empty store.\<close>

definition mark_fact :: fact where
  "mark_fact = fact_new (keyword_id sample_uuid_ops '':k'') '':marked'' (VBoolean True) 0"

definition marking_evaluator :: stratified_evaluator where
  "marking_evaluator = \<lparr>se_storage = fact_storage_new, se_rules = [(''marked'', [mark_rule])], se_max_iterations = 5,
     se_max_derived_facts = 5, se_max_results = 5, se_valid_at = VNull\<rparr>"

lemma mark_derived:
  "\<exists>d f. evaluate_recursive_rules sample_env (\<lambda>s. 7) mark_evaluator [''marked''] = Ok d \<and>
     get_asserted_facts d = Ok [f] \<and> eav_of f = eav_of mark_fact"
proof -
  obtain s where s: "load_facts [] fact_storage_new = (Ok 0, s)" "facts (data s) = []" "committed (data s) = None"
    by (simp add: load_facts_def fact_storage_new_def fact_data_new_def pending_refs_eq)
  let ?s = "restore_tx_counter s"
  have c: "facts (data ?s) = []" "committed (data ?s) = None" using s by (simp_all add: restore_tx_counter_def)
  obtain s1 where s1: "transact_delta (\<lambda>s. 7) [mark_fact] ?s = Ok s1"
    using transact_delta_succeeds [of ?s "[mark_fact]" "\<lambda>s. 7"] c by auto
  obtain f where f: "facts (data s1) = [f]" "asserted f" "eav_of f = eav_of mark_fact" "committed (data s1) = None"
    using transact_delta_Ok [OF s1] c by (auto simp: Cons_eq_map_conv map_eq_Cons_conv)
  have it: "iteration sample_env mark_evaluator [''marked''] s = Ok [mark_fact]" for s
    unfolding mark_fact_def by (rule mark_iteration)
  have "fixpoint_loop sample_env (\<lambda>s. 7) mark_evaluator [''marked''] 0 (Suc (Suc n)) ?s [] = Ok s1" for n
    using it s1 by (simp add: mark_evaluator_def recursive_evaluator_new_def)
  from this [of 3] have "fixpoint_loop sample_env (\<lambda>s. 7) mark_evaluator [''marked''] 0 5 ?s [] = Ok s1"
    by (simp add: eval_nat_numeral)
  with s(1) mark_closed(1) have "evaluate_recursive_rules sample_env (\<lambda>s. 7) mark_evaluator [''marked''] = Ok s1"
    by (simp add: evaluate_recursive_rules_def mark_evaluator_def recursive_evaluator_new_def)
  with f show ?thesis by (auto simp: get_asserted_facts_def get_all_facts_def all_facts_def is_asserted_def)
qed

lemma marking_evaluate: "\<exists>s. evaluate sample_env (\<lambda>s. 7) marking_evaluator [''marked''] = Ok s \<and> map eav_of (facts (data s)) = [eav_of mark_fact]"
proof -
  obtain d f where d: "evaluate_recursive_rules sample_env (\<lambda>s. 7) mark_evaluator [''marked''] = Ok d"
     "get_asserted_facts d = Ok [f]" "eav_of f = eav_of mark_fact" using mark_derived by blast
  let ?s = "restore_tx_counter (snd (load_fact f fact_storage_new))"
  have facts: "facts (data ?s) = [f]"
    by (simp add: load_fact_def fact_storage_new_def fact_data_new_def pending_refs_eq Let_def register_def restore_tx_counter_def)
  have "stratify (from_rules [(''marked'', [mark_rule])]) = Ok [(''marked'', 0)]" by code_simp
  moreover have "all_preds_loop [(''marked'', [mark_rule])] 0 [''marked''] = [''marked'']" by code_simp
  moreover have "(recursive_evaluator_new fact_storage_new (register_rule_unchecked ''marked'' mark_rule []) 5 5 5)
      \<lparr>re_valid_at := VNull\<rparr> = mark_evaluator"
    by (simp add: mark_evaluator_def recursive_evaluator_new_def register_rule_unchecked_def get_rules_def)
  moreover have "asserted_keys fact_storage_new = Ok []"
    by (simp add: asserted_keys_def get_asserted_facts_def get_all_facts_def all_facts_def fact_storage_new_def fact_data_new_def)
  moreover have "\<not> has_mixed_clause (rule_body mark_rule)" by code_simp
  moreover have "rule_invocations (ExprC (Lit (VBoolean True)) None) = []" by code_simp
  ultimately have "evaluate sample_env (\<lambda>s. 7) marking_evaluator [''marked''] = Ok ?s"
    using d by (simp add: evaluate_def marking_evaluator_def stratum_def evaluate_stratum_def stratum_pass_def positive_pass_def get_rules_def
      eval_nat_numeral Let_def mark_rule_def)
  with facts d(3) show ?thesis by auto
qed

theorem evaluate_bounded_witness:
  "\<exists>s new. evaluate sample_env (\<lambda>s. 7) marking_evaluator [''marked''] = Ok s \<and>
     facts (data s) = facts (data (se_storage marking_evaluator)) @ new \<and>
     map eav_of new = [eav_of mark_fact] \<and> length new \<le> se_max_results marking_evaluator \<and>
     committed (data s) = committed (data (se_storage marking_evaluator))"
proof -
  obtain s where s: "evaluate sample_env (\<lambda>s. 7) marking_evaluator [''marked''] = Ok s" "map eav_of (facts (data s)) = [eav_of mark_fact]"
    using marking_evaluate by (elim exE conjE) (rule that; assumption)
  have "facts (data (se_storage marking_evaluator)) = []"
    by (simp add: marking_evaluator_def fact_storage_new_def fact_data_new_def)
  with evaluate_bounded [OF s(1)] s show ?thesis by auto
qed

section \<open>The predicates evaluated\<close>

definition calls :: "rule_registry \<Rightarrow> (string \<times> string) set" where
  "calls reg = {(p, q). q \<in> set (called_by reg p)}"

lemma all_preds_loop_reach:
  assumes "\<forall>j < i. j < length preds \<longrightarrow> set (called_by reg (preds ! j)) \<subseteq> set preds" "i \<le> length preds"
    and "set preds \<subseteq> R" "\<forall>p \<in> R. set (called_by reg p) \<subseteq> R"
  shows "set preds \<subseteq> set (all_preds_loop reg i preds) \<and> set (all_preds_loop reg i preds) \<subseteq> R \<and>
    (\<forall>p \<in> set (all_preds_loop reg i preds). set (called_by reg p) \<subseteq> set (all_preds_loop reg i preds))"
  using assms
proof (induction reg i preds rule: all_preds_loop.induct)
  case (1 reg i preds)
  show ?case
  proof (cases "i < length preds")
    case False
    then have "\<forall>p \<in> set preds. set (called_by reg p) \<subseteq> set preds" using 1(2,3) by (metis in_set_conv_nth le_antisym not_less)
    with False 1(4) show ?thesis by (subst (1 2 3 4) all_preds_loop.simps) simp
  next
    case True
    let ?q = "push_deps (called_by reg (preds ! i)) preds"
    note P = push_deps_facts [of preds "called_by reg (preds ! i)"]
    have nth: "?q ! j = preds ! j" if "j < length preds" for j using P(1) that by (metis nth_take)
    have "\<forall>j < i + 1. j < length ?q \<longrightarrow> set (called_by reg (?q ! j)) \<subseteq> set ?q"
    proof (intro allI impI)
      fix j assume j: "j < i + 1"
      then have "?q ! j = preds ! j" using True nth by simp
      then show "set (called_by reg (?q ! j)) \<subseteq> set ?q" using 1(2) True j by (cases "j = i") (auto simp: push_deps_facts(3) less_Suc_eq)
    qed
    moreover have "i + 1 \<le> length ?q" using P(2) True by simp
    moreover have "set ?q \<subseteq> R" using 1(4,5) True unfolding push_deps_facts(3) by (auto dest: nth_mem)
    ultimately have "set ?q \<subseteq> set (all_preds_loop reg (i + 1) ?q) \<and> set (all_preds_loop reg (i + 1) ?q) \<subseteq> R \<and>
        (\<forall>p \<in> set (all_preds_loop reg (i + 1) ?q). set (called_by reg p) \<subseteq> set (all_preds_loop reg (i + 1) ?q))"
      using 1(1) [OF True] 1(5) by blast
    moreover have "all_preds_loop reg i preds = all_preds_loop reg (i + 1) ?q" using True by (subst all_preds_loop.simps) simp
    ultimately show ?thesis unfolding push_deps_facts(3) by simp
  qed
qed

text \<open>
  The evaluator works on exactly the predicates it needs: the list it grows while walking
  through it ends with the requested predicates and all those their rules call, directly or
  through other rules, inside negations and disjunctions too.
\<close>

lemma evaluated_predicates:
  "set (all_preds_loop reg 0 preds) = (calls reg)\<^sup>* `` set preds"
proof
  let ?R = "(calls reg)\<^sup>* `` set preds"
  have "\<forall>p \<in> ?R. set (called_by reg p) \<subseteq> ?R" by (auto simp: calls_def intro: rtrancl_into_rtrancl)
  moreover have "set preds \<subseteq> ?R" by auto
  ultimately have A: "set preds \<subseteq> set (all_preds_loop reg 0 preds)" "set (all_preds_loop reg 0 preds) \<subseteq> ?R"
      "\<forall>p \<in> set (all_preds_loop reg 0 preds). set (called_by reg p) \<subseteq> set (all_preds_loop reg 0 preds)"
    using all_preds_loop_reach [of 0 preds reg ?R] by simp_all
  show "set (all_preds_loop reg 0 preds) \<subseteq> ?R" by (rule A(2))
  show "?R \<subseteq> set (all_preds_loop reg 0 preds)"
  proof
    fix q assume "q \<in> ?R"
    then obtain p where p: "p \<in> set preds" "(p, q) \<in> (calls reg)\<^sup>*" by blast
    from p(2) show "q \<in> set (all_preds_loop reg 0 preds)"
      by (induction rule: rtrancl_induct) (use p(1) A(1,3) in \<open>auto simp: calls_def\<close>)
  qed
qed

section \<open>Nil in a rule head\<close>

text \<open>
  A rule whose head takes a nil value makes the whole evaluation fail: the evaluator turns the
  nil into a symbol, and the symbol is not a value. Over a store with \<^verbatim>\<open>[1 :a nil]\<close> the rule
  \<^verbatim>\<open>(r ?e ?v) <- [?e :a ?v]\<close> is an error.
\<close>

definition sample_store :: fact_storage where
  "sample_store = fact_storage_new\<lparr>data := (data fact_storage_new)\<lparr>facts := [fact_new 1 '':a'' VNull 5]\<rparr>\<rparr>"

lemma nil_fails_rule:
  "evaluate_rule sample_env VNull
     \<lparr>rule_head = [Symbol ''r'', Symbol ''?e'', Symbol ''?v''],
      rule_body = [PatternC (pattern_new (Symbol ''?e'') (Keyword '':a'') (Symbol ''?v''))]\<rparr> sample_store = Err (Internal 22)"
  by code_simp

end
