(* ===== verification/Magic_Sets.thy ===== *)
theory Magic_Sets
  imports Evaluator
begin

text \<open>
  The magic-sets rewriting of \<^verbatim>\<open>src/query/datalog/magic_sets.rs\<close>: which argument of which rule
  predicate the query's literals can bind, the guards and propagation rules that restrict
  evaluation to what is demanded, and the seed facts. The model is the release build:
  \<^verbatim>\<open>debug_assert_eq!\<close> has no effect. An adornment is a string of \<^verbatim>\<open>b\<close> and \<^verbatim>\<open>f\<close>.

  Shown: the search for adornments ends and its result is sound, so that every call site of
  a guarded predicate supplies the demand its guard waits for; a rewritten rule is the
  original rule with at most a guard in front.
\<close>

section \<open>Adornments\<close>

type_synonym adornment = string

definition is_carried_literal :: "uuid_ops \<Rightarrow> nat \<Rightarrow> edn_value \<Rightarrow> bool" where
  "is_carried_literal U i arg \<longleftrightarrow> as_variable arg = None \<and>
     (if i = 0 then edn_to_entity_id U arg \<noteq> None else i = 1 \<and> edn_to_value arg \<noteq> None)"

definition query_call_adornment :: "uuid_ops \<Rightarrow> edn_value list \<Rightarrow> adornment" where
  "query_call_adornment U args =
     map (\<lambda>(i, arg). if is_carried_literal U i arg then CHR ''b'' else CHR ''f'') (enumerate 0 args)"

definition has_bound_arg :: "adornment \<Rightarrow> bool" where
  "has_bound_arg ad \<longleftrightarrow> CHR ''b'' \<in> set ad"

definition magic_pred_name :: "string \<Rightarrow> adornment \<Rightarrow> string" where
  "magic_pred_name pred ad = ''__magic_'' @ pred @ ''_'' @ ad"

definition sentinel_entity :: "uuid_ops \<Rightarrow> string \<Rightarrow> uuid" where
  "sentinel_entity U magic_attr = new_v5_oid U (as_bytes magic_attr)"

definition meet :: "adornment \<Rightarrow> adornment \<Rightarrow> adornment" where
  "meet a b =
     (if length a \<noteq> length b then replicate (max (length a) (length b)) (CHR ''f'')
      else map2 (\<lambda>x y. if x = CHR ''b'' \<and> y = CHR ''b'' then CHR ''b'' else CHR ''f'') a b)"

fun position :: "('a \<Rightarrow> bool) \<Rightarrow> 'a list \<Rightarrow> nat option" where
  "position P [] = None"
| "position P (x # xs) = (if P x then Some 0 else map_option Suc (position P xs))"

definition normalize :: "adornment \<Rightarrow> adornment option" where
  "normalize ad = (case position (\<lambda>c. c = CHR ''b'') ad of
      Some i \<Rightarrow> if i < 2 then Some (map (\<lambda>j. if j = i then CHR ''b'' else CHR ''f'') [0..<length ad]) else None
    | None \<Rightarrow> None)"

definition has_negation :: "rule \<Rightarrow> bool" where
  "has_negation r \<longleftrightarrow> list_ex (\<lambda>c. case c of Not _ \<Rightarrow> True | NotJoin _ _ \<Rightarrow> True | _ \<Rightarrow> False) (rule_body r)"

section \<open>Seeds, guards and propagation\<close>

definition seed_fact :: "uuid_ops \<Rightarrow> (string \<times> adornment) list \<Rightarrow> where_clause \<Rightarrow> (uuid \<times> string \<times> value_t) option" where
  "seed_fact U adorned c = (case c of
      RuleInvocation p args \<Rightarrow> (case map_of adorned p of
          None \<Rightarrow> None
        | Some ad \<Rightarrow>
            if \<not> has_bound_arg ad then None
            else
              let magic_attr = '':'' @ magic_pred_name p ad in
              if elem_get ad 0 = Some (CHR ''b'') then
                map_option (\<lambda>e. (e, magic_attr, VBoolean True)) (Option.bind (elem_get args 0) (edn_to_entity_id U))
              else if elem_get ad 1 = Some (CHR ''b'') then
                map_option (\<lambda>v. (sentinel_entity U magic_attr, magic_attr, v)) (Option.bind (elem_get args 1) edn_to_value)
              else None)
    | _ \<Rightarrow> None)"

definition build_seed_facts :: "uuid_ops \<Rightarrow> where_clause list \<Rightarrow> (string \<times> adornment) list \<Rightarrow> (uuid \<times> string \<times> value_t) list" where
  "build_seed_facts U cs adorned = List.map_filter (seed_fact U adorned) cs"

text \<open>The arguments of the bound positions, where the list has them.\<close>

definition bound_args :: "adornment \<Rightarrow> edn_value list \<Rightarrow> edn_value list" where
  "bound_args ad args = List.map_filter (\<lambda>(i, ch). if ch = CHR ''b'' then elem_get args i else None) (enumerate 0 ad)"

definition first_free :: "adornment \<Rightarrow> bool" where
  "first_free ad \<longleftrightarrow> elem_get ad 0 = Some (CHR ''f'') \<and> has_bound_arg ad"

text \<open>The guard, the same in guarded rules and in propagation rules.\<close>

definition magic_guard :: "uuid_ops \<Rightarrow> rule \<Rightarrow> string \<Rightarrow> adornment \<Rightarrow> where_clause" where
  "magic_guard U r pred ad =
     (let magic_name = magic_pred_name pred ad; bound = bound_args ad (tl (rule_head r)) in
      RuleInvocation magic_name
        (if first_free ad then
           (case bound of [] \<Rightarrow> [] | v # _ \<Rightarrow> [Uuid (sentinel_entity U ('':'' @ magic_name)), v])
         else bound))"

definition inject_magic_guard :: "uuid_ops \<Rightarrow> rule \<Rightarrow> string \<Rightarrow> adornment \<Rightarrow> rule" where
  "inject_magic_guard U r pred ad =
     (if has_negation r then r else r\<lparr>rule_body := magic_guard U r pred ad # rule_body r\<rparr>)"

definition propagation_rule ::
    "uuid_ops \<Rightarrow> where_clause \<Rightarrow> rule \<Rightarrow> (string \<times> adornment) list \<Rightarrow> nat \<times> where_clause \<Rightarrow> (string \<times> rule) option" where
  "propagation_rule U guard r adorned = (\<lambda>(i, c). case c of
      RuleInvocation called args \<Rightarrow> (case map_of adorned called of
          None \<Rightarrow> None
        | Some ad \<Rightarrow>
            if \<not> has_bound_arg ad then None
            else
              let name = magic_pred_name called ad; new_args = bound_args ad args in
              Some (name, \<lparr>rule_head = Symbol name #
                  (if first_free ad then Uuid (sentinel_entity U ('':'' @ name)) # new_args else new_args),
                rule_body = guard # take i (rule_body r)\<rparr>))
    | _ \<Rightarrow> None)"

definition build_propagation_rules ::
    "uuid_ops \<Rightarrow> rule \<Rightarrow> string \<Rightarrow> (string \<times> adornment) list \<Rightarrow> (string \<times> rule) list" where
  "build_propagation_rules U r pred adorned =
     (if has_negation r then []
      else case map_of adorned pred of
        None \<Rightarrow> []
      | Some ad \<Rightarrow> List.map_filter (propagation_rule U (magic_guard U r pred ad) r adorned) (enumerate 0 (rule_body r)))"

section \<open>Which predicates are reached\<close>

text \<open>\<^verbatim>\<open>seen\<close> and \<^verbatim>\<open>order\<close> hold the same predicates; the stack's top is its last element.\<close>

function reach_loop :: "rule_registry \<Rightarrow> string list \<Rightarrow> string list \<Rightarrow> string list" where
  "reach_loop reg stack order =
     (if stack = [] then order
      else
        let pred = last stack; stack' = butlast stack in
        if pred \<in> set order then reach_loop reg stack' order
        else reach_loop reg (stack' @ called_by reg pred) (order @ [pred]))"
  by pat_completeness auto

termination
proof (relation "(\<lambda>(reg, stack, order). card ((set stack \<union> all_called reg) - set order)) <*mlex*>
    measure (\<lambda>(reg, stack, order). length stack)")
  fix reg :: rule_registry and stack order :: "string list" and pred stack'
  assume s: "stack \<noteq> []" "pred = last stack" "stack' = butlast stack"
  then have stack: "stack = stack' @ [pred]" by simp
  have fin: "finite ((set stack \<union> all_called reg) - set order)" using finite_all_called by simp
  show "((reg, stack', order), reg, stack, order) \<in>
      (\<lambda>(reg, stack, order). card ((set stack \<union> all_called reg) - set order)) <*mlex*>
      measure (\<lambda>(reg, stack, order). length stack)"
    by (rule mlex_leq) (use fin in \<open>auto simp: stack intro!: card_mono\<close>)
  assume new: "pred \<notin> set order"
  show "((reg, stack' @ called_by reg pred, order @ [pred]), reg, stack, order) \<in>
      (\<lambda>(reg, stack, order). card ((set stack \<union> all_called reg) - set order)) <*mlex*>
      measure (\<lambda>(reg, stack, order). length stack)"
  proof (rule mlex_less)
    have "(set (stack' @ called_by reg pred) \<union> all_called reg) - set (order @ [pred]) \<subset> (set stack \<union> all_called reg) - set order"
      using called_by_all [of reg pred] new by (auto simp: stack)
    with fin show "(case (reg, stack' @ called_by reg pred, order @ [pred]) of
        (reg, stack, order) \<Rightarrow> card (set stack \<union> all_called reg - set order)) <
      (case (reg, stack, order) of (reg, stack, order) \<Rightarrow> card (set stack \<union> all_called reg - set order))"
      by (simp add: psubset_card_mono)
  qed
qed (auto intro: wf_mlex)

declare reach_loop.simps [simp del]

definition reachable_predicates :: "datalog_query \<Rightarrow> rule_registry \<Rightarrow> string list" where
  "reachable_predicates q reg = reach_loop reg (concat (map rule_invocations (where_clauses q))) []"

section \<open>Solving for adornments\<close>

text \<open>The calls of \<^verbatim>\<open>note\<close> in their order: one adornment per call site.\<close>

definition query_sites :: "uuid_ops \<Rightarrow> where_clause list \<Rightarrow> (string \<times> adornment) list" where
  "query_sites U cs = concat (map (\<lambda>c. case c of
      RuleInvocation p args \<Rightarrow> [(p, query_call_adornment U args)]
    | _ \<Rightarrow> map (\<lambda>p. (p, [])) (rule_invocations c)) cs)"

definition call_adornment :: "uuid_ops \<Rightarrow> string list \<Rightarrow> edn_value list \<Rightarrow> adornment" where
  "call_adornment U grounded args = map (\<lambda>(i, a). case as_variable a of
      Some v \<Rightarrow> if v \<in> set grounded then CHR ''b'' else CHR ''f''
    | None \<Rightarrow> if is_carried_literal U i a then CHR ''b'' else CHR ''f'') (enumerate 0 args)"

fun body_sites :: "uuid_ops \<Rightarrow> bool \<Rightarrow> string list \<Rightarrow> where_clause list \<Rightarrow> (string \<times> adornment) list" where
  "body_sites U guarded grounded [] = []"
| "body_sites U guarded grounded (c # cs) = (case c of
      PatternC p \<Rightarrow> body_sites U guarded
        (List.map_filter as_variable [pat_entity p, pat_value p] @ grounded) cs
    | RuleInvocation p args \<Rightarrow>
        (p, if guarded then call_adornment U grounded args else replicate (length args) (CHR ''f''))
        # body_sites U guarded (List.map_filter as_variable args @ grounded) cs
    | _ \<Rightarrow> map (\<lambda>p. (p, [])) (rule_invocations c) @ body_sites U guarded grounded cs)"

definition head_grounded :: "adornment \<Rightarrow> rule \<Rightarrow> string list" where
  "head_grounded ad r = List.map_filter (\<lambda>(i, ch).
     if ch = CHR ''b'' then Option.bind (elem_get (rule_head r) (i + 1)) as_variable else None) (enumerate 0 ad)"

definition rule_sites :: "uuid_ops \<Rightarrow> adornment option \<Rightarrow> rule \<Rightarrow> (string \<times> adornment) list" where
  "rule_sites U head_adornment r =
     (let guarded = (if has_negation r then None else head_adornment) in
      body_sites U (guarded \<noteq> None) (case guarded of Some ad \<Rightarrow> head_grounded ad r | None \<Rightarrow> []) (rule_body r))"

definition call_sites ::
    "uuid_ops \<Rightarrow> datalog_query \<Rightarrow> rule_registry \<Rightarrow> (string \<times> adornment) list \<Rightarrow> (string \<times> adornment) list" where
  "call_sites U q reg adorned = query_sites U (where_clauses q) @
     concat (map (\<lambda>p. concat (map (rule_sites U (map_of adorned p)) (get_rules reg p))) (reachable_predicates q reg))"

definition note_call :: "string \<times> adornment \<Rightarrow> (string \<times> adornment) list \<Rightarrow> (string \<times> adornment) list" where
  "note_call = (\<lambda>(p, ad) demand. AList.update p (case map_of demand p of Some d \<Rightarrow> meet d ad | None \<Rightarrow> ad) demand)"

definition next_adorned ::
    "uuid_ops \<Rightarrow> datalog_query \<Rightarrow> rule_registry \<Rightarrow> (string \<times> adornment) list \<Rightarrow> (string \<times> adornment) list" where
  "next_adorned U q reg adorned =
     (let demand = fold note_call (call_sites U q reg adorned) [] in
      List.map_filter (\<lambda>(p, ad). Option.bind (map_of demand p) (\<lambda>site.
        map_option (Pair p) (normalize (meet ad site)))) adorned)"

definition open_positions :: "adornment \<Rightarrow> nat" where
  "open_positions ad = length (filter (\<lambda>c. c \<noteq> CHR ''f'') ad)"

lemma position_Some: "position P xs = Some i \<Longrightarrow> i < length xs \<and> P (xs ! i)"
  by (induction xs arbitrary: i) (auto split: if_splits)

lemma meet_bound:
  "i < length (meet a b) \<Longrightarrow> meet a b ! i = CHR ''b'' \<Longrightarrow>
   length a = length b \<and> i < length a \<and> length (meet a b) = length a \<and> a ! i = CHR ''b'' \<and> b ! i = CHR ''b''"
  by (auto simp: meet_def split: if_splits)

lemma normalize_meet:
  assumes "normalize (meet ad site) = Some n"
  shows "length site = length ad \<and> (\<exists>i < 2. i < length ad \<and> ad ! i = CHR ''b'' \<and> site ! i = CHR ''b'' \<and>
    n = map (\<lambda>j. if j = i then CHR ''b'' else CHR ''f'') [0..<length ad])"
proof -
  obtain i where i: "position (\<lambda>c. c = CHR ''b'') (meet ad site) = Some i" "i < 2"
    "n = map (\<lambda>j. if j = i then CHR ''b'' else CHR ''f'') [0..<length (meet ad site)]"
    using assms by (auto simp: normalize_def split: option.splits if_splits)
  with position_Some [OF i(1)] meet_bound [of i ad site] show ?thesis by auto
qed

lemma open_positions_filter: "open_positions ad = card {j. j < length ad \<and> ad ! j \<noteq> CHR ''f''}"
  by (simp add: open_positions_def length_filter_conv_card)

lemma normalize_meet_smaller:
  assumes "normalize (meet ad site) = Some n"
  shows "n = ad \<or> open_positions n < open_positions ad"
proof -
  obtain i where i: "i < length ad" "ad ! i = CHR ''b''"
    "n = map (\<lambda>j. if j = i then CHR ''b'' else CHR ''f'') [0..<length ad]"
    using normalize_meet [OF assms] by auto
  have "{j. j < length n \<and> n ! j \<noteq> CHR ''f''} = {i}" using i by (auto split: if_splits)
  then have one: "open_positions n = 1" by (simp add: open_positions_filter)
  show ?thesis
  proof (cases "\<exists>j < length ad. j \<noteq> i \<and> ad ! j \<noteq> CHR ''f''")
    case True
    then obtain j where "j < length ad" "j \<noteq> i" "ad ! j \<noteq> CHR ''f''" by blast
    then have "{i, j} \<subseteq> {j. j < length ad \<and> ad ! j \<noteq> CHR ''f''}" using i by auto
    then have "card {i, j} \<le> open_positions ad" unfolding open_positions_filter by (intro card_mono) auto
    with one \<open>j \<noteq> i\<close> show ?thesis by simp
  next
    case False
    then have "n = ad" using i by (intro nth_equalityI) auto
    then show ?thesis by simp
  qed
qed

definition adorned_size :: "(string \<times> adornment) list \<Rightarrow> nat" where
  "adorned_size adorned = sum_list (map (\<lambda>(p, ad). Suc (open_positions ad)) adorned)"

lemma map_filter_shrinks:
  assumes "\<And>x y. f x = Some y \<Longrightarrow> y = x \<or> m y < (m x :: nat)" "\<And>x. 0 < m x"
  shows "List.map_filter f xs = xs \<or> sum_list (map m (List.map_filter f xs)) < sum_list (map m xs)"
proof (induction xs)
  case (Cons x xs)
  show ?case
  proof (cases "f x")
    case None
    from Cons have "sum_list (map m (List.map_filter f xs)) \<le> sum_list (map m xs)" by auto
    with None assms(2) [of x] show ?thesis by (simp add: map_filter_simps)
  next
    case (Some y)
    with Cons assms(1) [OF Some] show ?thesis by (auto simp: map_filter_simps)
  qed
qed (simp add: map_filter_simps)

lemma next_adorned_smaller:
  "next_adorned U q reg adorned \<noteq> adorned \<Longrightarrow> adorned_size (next_adorned U q reg adorned) < adorned_size adorned"
proof -
  let ?d = "fold note_call (call_sites U q reg adorned) []"
  let ?f = "\<lambda>(p, ad). Option.bind (map_of ?d p) (\<lambda>site. map_option (Pair p) (normalize (meet ad site)))"
  have step: "y = x \<or> (case y of (p, ad) \<Rightarrow> Suc (open_positions ad)) < (case x of (p, ad) \<Rightarrow> Suc (open_positions ad))"
    if "?f x = Some y" for x y
    using that normalize_meet_smaller by (cases x; cases y) (auto simp: bind_eq_Some_conv)
  have pos: "0 < (case x of (p :: string, ad) \<Rightarrow> Suc (open_positions ad))" for x by (simp split: prod.splits)
  have "List.map_filter ?f adorned = adorned \<or> adorned_size (List.map_filter ?f adorned) < adorned_size adorned"
    unfolding adorned_size_def by (rule map_filter_shrinks [OF step pos])
  then show "next_adorned U q reg adorned \<noteq> adorned \<Longrightarrow> adorned_size (next_adorned U q reg adorned) < adorned_size adorned"
    by (simp add: next_adorned_def Let_def)
qed

function weaken :: "uuid_ops \<Rightarrow> datalog_query \<Rightarrow> rule_registry \<Rightarrow> (string \<times> adornment) list \<Rightarrow> (string \<times> adornment) list" where
  "weaken U q reg adorned =
     (let next = next_adorned U q reg adorned in if next = adorned then adorned else weaken U q reg next)"
  by pat_completeness auto

termination
  by (relation "measure (\<lambda>(U, q, reg, adorned). adorned_size adorned)") (auto simp: next_adorned_smaller)

declare weaken.simps [simp del]

definition initial_adorned :: "datalog_query \<Rightarrow> rule_registry \<Rightarrow> (string \<times> adornment) list" where
  "initial_adorned q reg = List.map_filter (\<lambda>p. case get_rules reg p of
      [] \<Rightarrow> None
    | r # _ \<Rightarrow> if rule_head r = [] then None else Some (p, replicate (length (rule_head r) - 1) (CHR ''b'')))
     (reachable_predicates q reg)"

definition solve_adornments :: "uuid_ops \<Rightarrow> datalog_query \<Rightarrow> rule_registry \<Rightarrow> (string \<times> adornment) list" where
  "solve_adornments U q reg = weaken U q reg (initial_adorned q reg)"

section \<open>The rewriting\<close>

definition build_rewritten_registry :: "uuid_ops \<Rightarrow> rule_registry \<Rightarrow> (string \<times> adornment) list \<Rightarrow> rule_registry" where
  "build_rewritten_registry U reg adorned =
     (let copied = fold (\<lambda>(p, rs). fold (\<lambda>r. register_rule_unchecked p
            (case map_of adorned p of Some ad \<Rightarrow> inject_magic_guard U r p ad | None \<Rightarrow> r)) rs) reg []
      in fold (\<lambda>(p, rs). if map_of adorned p = None then id
           else fold (\<lambda>r. fold (\<lambda>(m, pr). register_rule_unchecked m pr) (build_propagation_rules U r p adorned)) rs) reg copied)"

definition rewrite ::
    "uuid_ops \<Rightarrow> datalog_query \<Rightarrow> rule_registry \<Rightarrow> (rule_registry \<times> (uuid \<times> string \<times> value_t) list) option" where
  "rewrite U q reg =
     (if \<not> list_ex (\<lambda>c. case c of RuleInvocation p args \<Rightarrow> has_bound_arg (query_call_adornment U args) | _ \<Rightarrow> False)
           (where_clauses q) then None
      else
        let adorned = solve_adornments U q reg; seeds = build_seed_facts U (where_clauses q) adorned in
        if seeds = [] then None else Some (build_rewritten_registry U reg adorned, seeds))"

section \<open>Every call site supplies the demand\<close>

lemma weaken_fixpoint: "next_adorned U q reg (weaken U q reg adorned) = weaken U q reg adorned"
proof (induction U q reg adorned rule: weaken.induct)
  case (1 U q reg adorned)
  then show ?case by (subst (1 2) weaken.simps) (simp add: Let_def)
qed

lemma demand_bound:
  assumes "map_of (fold note_call sites []) p = Some site" "i < length site" "site ! i = CHR ''b''" "(p, ad) \<in> set sites"
  shows "length ad = length site \<and> ad ! i = CHR ''b''"
  using assms
proof (induction sites arbitrary: site rule: rev_induct)
  case (snoc s sites)
  let ?d = "fold note_call sites []"
  obtain p' ad' where s: "s = (p', ad')" by (cases s)
  have old: "\<exists>d. map_of ?d p = Some d" if "(p, ad) \<in> set sites"
    using that by (induction sites rule: rev_induct) (auto simp: note_call_def update_conv')
  show ?case
  proof (cases "p' = p")
    case False
    with snoc.prems snoc.IH show ?thesis by (simp add: s note_call_def update_conv')
  next
    case True
    show ?thesis
    proof (cases "map_of ?d p")
      case None
      then have "(p, ad) \<notin> set sites" using old by auto
      with snoc.prems None True show ?thesis by (simp add: s note_call_def update_conv')
    next
      case (Some d)
      with snoc.prems(1) True have site: "site = meet d ad'" by (simp add: s note_call_def update_conv')
      with snoc.prems(2,3) have m: "length d = length ad'" "i < length d" "length site = length d" "d ! i = CHR ''b''" "ad' ! i = CHR ''b''"
        using meet_bound [of i d ad'] by auto
      show ?thesis
      proof (cases "(p, ad) \<in> set sites")
        case True
        then show ?thesis using snoc.IH [OF Some m(2,4)] m by simp
      next
        case False
        with snoc.prems(4) have "ad = ad'" by (simp add: s)
        with m show ?thesis by simp
      qed
    qed
  qed
qed simp

text \<open>What a list of body clauses binds, as the search counts it.\<close>

definition bound_by :: "where_clause list \<Rightarrow> string set" where
  "bound_by cs = (\<Union>c \<in> set cs. case c of
      PatternC p \<Rightarrow> set (List.map_filter as_variable [pat_entity p, pat_value p])
    | RuleInvocation _ args \<Rightarrow> set (List.map_filter as_variable args)
    | _ \<Rightarrow> {})"

lemma body_sites_call:
  "\<exists>gr'. set gr' = set gr \<union> bound_by pre \<and>
     (p, if g then call_adornment U gr' args else replicate (length args) (CHR ''f''))
       \<in> set (body_sites U g gr (pre @ RuleInvocation p args # post))"
proof (induction pre arbitrary: gr)
  case Nil
  then show ?case by (intro exI [of _ gr]) (simp add: bound_by_def)
next
  case (Cons c pre)
  have b: "bound_by (c # pre) = bound_by [c] \<union> bound_by pre" by (simp add: bound_by_def)
  let ?gr = "(case c of PatternC q \<Rightarrow> List.map_filter as_variable [pat_entity q, pat_value q] @ gr
    | RuleInvocation _ as \<Rightarrow> List.map_filter as_variable as @ gr | _ \<Rightarrow> gr)"
  have g: "set ?gr = set gr \<union> bound_by [c]" by (cases c) (auto simp: bound_by_def)
  have sub: "set (body_sites U g ?gr (pre @ RuleInvocation p args # post)) \<subseteq>
      set (body_sites U g gr ((c # pre) @ RuleInvocation p args # post))"
    by (cases c) auto
  from Cons.IH [of ?gr] obtain gr' where "set gr' = set ?gr \<union> bound_by pre"
    "(p, if g then call_adornment U gr' args else replicate (length args) (CHR ''f''))
       \<in> set (body_sites U g ?gr (pre @ RuleInvocation p args # post))" by blast
  then have "set gr' = set gr \<union> bound_by (c # pre)"
    "(p, if g then call_adornment U gr' args else replicate (length args) (CHR ''f''))
       \<in> set (body_sites U g gr ((c # pre) @ RuleInvocation p args # post))"
    using sub g b by (auto simp only: Un_assoc)
  then show ?case by blast
qed

lemma body_sites_nested:
  assumes "\<And>x. c \<noteq> PatternC x" "\<And>x y. c \<noteq> RuleInvocation x y" "p \<in> set (rule_invocations c)"
  shows "(p, []) \<in> set (body_sites U g gr (pre @ c # post))"
proof (induction pre arbitrary: gr)
  case Nil
  show ?case using assms by (cases c) auto
next
  case (Cons d pre)
  then show ?case by (cases d) auto
qed

definition bound_before :: "uuid_ops \<Rightarrow> string set \<Rightarrow> edn_value list \<Rightarrow> nat \<Rightarrow> bool" where
  "bound_before U vs args i \<longleftrightarrow> i < length args \<and>
     (case as_variable (args ! i) of Some v \<Rightarrow> v \<in> vs | None \<Rightarrow> is_carried_literal U i (args ! i))"

lemma call_adornment_bound:
  "i < length (call_adornment U gr args) \<Longrightarrow> call_adornment U gr args ! i = CHR ''b'' \<Longrightarrow> bound_before U (set gr) args i"
  by (auto simp: call_adornment_def bound_before_def nth_enumerate_eq split: option.splits if_splits)

lemma query_call_adornment_bound:
  "i < length (query_call_adornment U args) \<Longrightarrow> query_call_adornment U args ! i = CHR ''b'' \<Longrightarrow>
   i < length args \<and> is_carried_literal U i (args ! i)"
  by (auto simp: query_call_adornment_def nth_enumerate_eq split: if_splits)

lemma reach_loop_closed:
  assumes "\<forall>p \<in> set order. set (called_by reg p) \<subseteq> set order \<union> set stack"
  shows "set order \<union> set stack \<subseteq> set (reach_loop reg stack order) \<and>
    (\<forall>p \<in> set (reach_loop reg stack order). set (called_by reg p) \<subseteq> set (reach_loop reg stack order))"
  using assms
proof (induction reg stack order rule: reach_loop.induct)
  case (1 reg stack order)
  show ?case
  proof (cases "stack = []")
    case True
    then show ?thesis using 1(3) by (subst (1 2 3) reach_loop.simps) simp
  next
    case False
    then obtain pred stack' where st: "stack = stack' @ [pred]" "last stack = pred" "butlast stack = stack'"
      by (metis append_butlast_last_id)
    show ?thesis
    proof (cases "pred \<in> set order")
      case True
      have eq: "reach_loop reg stack order = reach_loop reg stack' order"
        using False True st by (subst reach_loop.simps) simp
      have "\<forall>p \<in> set order. set (called_by reg p) \<subseteq> set order \<union> set stack'"
        using 1(3) True st by auto
      from 1(1) [OF False refl refl] this True show ?thesis unfolding eq st(2,3) by (auto simp: st(1))
    next
      case New: False
      have eq: "reach_loop reg stack order = reach_loop reg (stack' @ called_by reg pred) (order @ [pred])"
        using False New st by (subst reach_loop.simps) simp
      have "\<forall>p \<in> set (order @ [pred]). set (called_by reg p) \<subseteq> set (order @ [pred]) \<union> set (stack' @ called_by reg pred)"
        using 1(3) st by auto
      from 1(2) [OF False refl refl] this New show ?thesis unfolding eq st(2,3) by (auto simp: st(1))
    qed
  qed
qed

lemma reachable_predicates_reach:
  "(calls reg)\<^sup>* `` set (concat (map rule_invocations (where_clauses q))) \<subseteq> set (reachable_predicates q reg)"
proof -
  let ?R = "set (reachable_predicates q reg)"
  have R: "set (concat (map rule_invocations (where_clauses q))) \<subseteq> ?R" "\<forall>p \<in> ?R. set (called_by reg p) \<subseteq> ?R"
    using reach_loop_closed [of "[]" reg "concat (map rule_invocations (where_clauses q))"]
    by (auto simp: reachable_predicates_def)
  have "p' \<in> ?R" if "(p, p') \<in> (calls reg)\<^sup>*" "p \<in> ?R" for p p'
    using that by (induction rule: rtrancl_induct) (use R(2) in \<open>auto simp: calls_def\<close>)
  with R(1) show ?thesis by blast
qed

text \<open>
  C16. Soundness of magic sets. The search for adornments ends, and in its result every
  guarded predicate has exactly one guarded argument, the first or the second, for which
  every place that reads the predicate supplies a demand: a call in the query has a literal
  there, a call in a rule that evaluation can reach sits in a guarded rule without negation
  and its argument is a literal, is bound by the rule's own guard or is bound by the clauses
  before the call, and no call hides inside a negation or a disjunction. So no guard waits
  for a demand that a call site never makes.
\<close>

theorem solve_adornments_sound:
  assumes "map_of (solve_adornments U q reg) p = Some ad"
  shows "\<exists>i < 2. i < length ad \<and> ad = map (\<lambda>j. if j = i then CHR ''b'' else CHR ''f'') [0..<length ad] \<and>
    (\<forall>c \<in> set (where_clauses q). case c of
        RuleInvocation p' args \<Rightarrow> p' = p \<longrightarrow> i < length args \<and> is_carried_literal U i (args ! i)
      | _ \<Rightarrow> p \<notin> set (rule_invocations c)) \<and>
    (\<forall>p' \<in> (calls reg)\<^sup>* `` set (concat (map rule_invocations (where_clauses q))). \<forall>r \<in> set (get_rules reg p').
      \<forall>pre c post. rule_body r = pre @ c # post \<longrightarrow> (case c of
        RuleInvocation p'' args \<Rightarrow> p'' = p \<longrightarrow> \<not> has_negation r \<and> (\<exists>ad'. map_of (solve_adornments U q reg) p' = Some ad' \<and>
          bound_before U (set (head_grounded ad' r) \<union> bound_by pre) args i)
      | _ \<Rightarrow> p \<notin> set (rule_invocations c)))"
proof -
  let ?A = "solve_adornments U q reg" and ?R = "(calls reg)\<^sup>* `` set (concat (map rule_invocations (where_clauses q)))"
  let ?S = "call_sites U q reg ?A"
  have fixp: "next_adorned U q reg ?A = ?A" unfolding solve_adornments_def by (rule weaken_fixpoint)
  have "(p, ad) \<in> set ?A" using assms by (rule map_of_SomeD)
  then have "(p, ad) \<in> set (next_adorned U q reg ?A)" by (simp add: fixp)
  then obtain ad0 site where p0: "(p, ad0) \<in> set ?A" and site: "map_of (fold note_call ?S []) p = Some site"
    and n: "normalize (meet ad0 site) = Some ad"
    by (auto simp: next_adorned_def Let_def map_filter_def bind_eq_Some_conv)
  obtain i where i: "i < 2" "i < length ad0" "length site = length ad0" "site ! i = CHR ''b''"
    "ad = map (\<lambda>j. if j = i then CHR ''b'' else CHR ''f'') [0..<length ad0]"
    using normalize_meet [OF n] by auto
  have len: "length ad = length ad0" by (simp add: i(5))
  have S: "length a = length ad \<and> a ! i = CHR ''b''" if "(p, a) \<in> set ?S" for a
    using demand_bound [OF site _ i(4) that] i len by simp
  have nested: "(p, []) \<notin> set ?S" using S [of "[]"] i(2) len by auto
  have q: "case c of RuleInvocation p' args \<Rightarrow> p' = p \<longrightarrow> i < length args \<and> is_carried_literal U i (args ! i)
      | _ \<Rightarrow> p \<notin> set (rule_invocations c)" if "c \<in> set (where_clauses q)" for c
  proof -
    have sub: "set (query_sites U [c]) \<subseteq> set ?S" using that by (auto simp: call_sites_def query_sites_def)
    show ?thesis
    proof (cases "\<exists>p' args. c = RuleInvocation p' args")
      case True
      then obtain p' args where c: "c = RuleInvocation p' args" by blast
      show ?thesis using sub S [of "query_call_adornment U args"] query_call_adornment_bound [of i U args] i(2) len
        by (auto simp: c query_sites_def)
    next
      case False
      then have "(p, []) \<in> set ?S" if "p \<in> set (rule_invocations c)"
        using that sub by (cases c) (auto simp: query_sites_def)
      with nested False show ?thesis by (cases c) auto
    qed
  qed
  have r: "case c of RuleInvocation p'' args \<Rightarrow> p'' = p \<longrightarrow> \<not> has_negation r \<and> (\<exists>ad'. map_of ?A p' = Some ad' \<and>
          bound_before U (set (head_grounded ad' r) \<union> bound_by pre) args i)
      | _ \<Rightarrow> p \<notin> set (rule_invocations c)"
    if p': "p' \<in> ?R" and r: "r \<in> set (get_rules reg p')" and b: "rule_body r = pre @ c # post" for p' r pre c post
  proof -
    have "p' \<in> set (reachable_predicates q reg)" using p' reachable_predicates_reach by blast
    with r have sub: "set (rule_sites U (map_of ?A p') r) \<subseteq> set ?S" by (auto simp: call_sites_def)
    let ?g = "if has_negation r then None else map_of ?A p'"
    let ?gr = "case ?g of Some ad \<Rightarrow> head_grounded ad r | None \<Rightarrow> []"
    have rs: "rule_sites U (map_of ?A p') r = body_sites U (?g \<noteq> None) ?gr (pre @ c # post)"
      by (simp add: rule_sites_def b Let_def)
    show ?thesis
    proof (cases "\<exists>p'' args. c = RuleInvocation p'' args")
      case True
      then obtain p'' args where c: "c = RuleInvocation p'' args" by blast
      have "\<not> has_negation r \<and> (\<exists>ad'. map_of ?A p' = Some ad' \<and>
          bound_before U (set (head_grounded ad' r) \<union> bound_by pre) args i)" if "p'' = p"
      proof -
        have rs': "rule_sites U (map_of ?A p') r = body_sites U (?g \<noteq> None) ?gr (pre @ RuleInvocation p args # post)"
          unfolding rs c \<open>p'' = p\<close> ..
        obtain gr' where gr': "set gr' = set ?gr \<union> bound_by pre"
          and "(p, if ?g \<noteq> None then call_adornment U gr' args else replicate (length args) (CHR ''f''))
            \<in> set (rule_sites U (map_of ?A p') r)"
          unfolding rs' using body_sites_call [of ?gr pre p "?g \<noteq> None" U args post] by (elim exE conjE)
        then have mem: "(p, if ?g \<noteq> None then call_adornment U gr' args else replicate (length args) (CHR ''f'')) \<in> set ?S"
          using sub by (elim subsetD [rotated])
        show ?thesis
        proof (cases ?g)
          case None
          then have "(p, replicate (length args) (CHR ''f'')) \<in> set ?S" using mem by simp
          from S [OF this] i(2) len show ?thesis by auto
        next
          case (Some ad')
          then have m: "\<not> has_negation r" "map_of ?A p' = Some ad'" by (auto split: if_splits)
          have "(p, call_adornment U gr' args) \<in> set ?S" using mem Some by simp
          from S [OF this] i(2) len have "bound_before U (set gr') args i"
            by (intro call_adornment_bound) auto
          with m gr' Some show ?thesis by auto
        qed
      qed
      then show ?thesis by (simp add: c)
    next
      case False
      have "p \<notin> set (rule_invocations c)"
      proof
        assume p: "p \<in> set (rule_invocations c)"
        then have "\<And>x. c \<noteq> PatternC x" by auto
        with False p have "(p, []) \<in> set (rule_sites U (map_of ?A p') r)"
          unfolding rs by (intro body_sites_nested) auto
        with sub nested show False by blast
      qed
      with False show ?thesis by (cases c) auto
    qed
  qed
  from i(1,2,5) len q r show ?thesis by (intro exI [of _ i]) simp
qed

definition anc_rules :: rule_registry where
  "anc_rules = [(''anc'',
     [\<lparr>rule_head = [Symbol ''anc'', Symbol ''?x'', Symbol ''?y''],
       rule_body = [PatternC (pattern_new (Symbol ''?x'') (Keyword '':parent'') (Symbol ''?y''))]\<rparr>,
      \<lparr>rule_head = [Symbol ''anc'', Symbol ''?x'', Symbol ''?y''],
       rule_body = [PatternC (pattern_new (Symbol ''?x'') (Keyword '':parent'') (Symbol ''?z'')),
         RuleInvocation ''anc'' [Symbol ''?z'', Symbol ''?y'']]\<rparr>])]"

definition anc_query :: datalog_query where
  "anc_query = query_new [FVariable ''?y''] [RuleInvocation ''anc'' [Uuid 7, Symbol ''?y'']]"

lemma anc_adorned: "solve_adornments sample_uuid_ops anc_query anc_rules = [(''anc'', ''bf'')]"
  by code_simp

theorem solve_adornments_sound_witness:
  "solve_adornments sample_uuid_ops anc_query anc_rules = [(''anc'', ''bf'')] \<and>
   (\<exists>i < 2. ''bf'' = map (\<lambda>j. if j = i then CHR ''b'' else CHR ''f'') [0..<2] \<and>
     is_carried_literal sample_uuid_ops i ([Uuid 7, Symbol ''?y''] ! i) \<and>
     bound_before sample_uuid_ops (set (head_grounded ''bf'' (get_rules anc_rules ''anc'' ! 1)) \<union>
         bound_by [PatternC (pattern_new (Symbol ''?x'') (Keyword '':parent'') (Symbol ''?z''))])
       [Symbol ''?z'', Symbol ''?y''] i)"
proof -
  let ?r = "get_rules anc_rules ''anc'' ! 1"
  let ?pre = "[PatternC (pattern_new (Symbol ''?x'') (Keyword '':parent'') (Symbol ''?z''))]"
  have ad: "map_of (solve_adornments sample_uuid_ops anc_query anc_rules) ''anc'' = Some ''bf''" by (simp add: anc_adorned)
  obtain i where i: "i < 2" "''bf'' = map (\<lambda>j. if j = i then CHR ''b'' else CHR ''f'') [0..<length ''bf'']"
    and q: "\<forall>c \<in> set (where_clauses anc_query). case c of
        RuleInvocation p' args \<Rightarrow> p' = ''anc'' \<longrightarrow> i < length args \<and> is_carried_literal sample_uuid_ops i (args ! i)
      | _ \<Rightarrow> ''anc'' \<notin> set (rule_invocations c)"
    and r: "\<forall>p' \<in> (calls anc_rules)\<^sup>* `` set (concat (map rule_invocations (where_clauses anc_query))). \<forall>r \<in> set (get_rules anc_rules p').
      \<forall>pre c post. rule_body r = pre @ c # post \<longrightarrow> (case c of
        RuleInvocation p'' args \<Rightarrow> p'' = ''anc'' \<longrightarrow> \<not> has_negation r \<and>
          (\<exists>ad'. map_of (solve_adornments sample_uuid_ops anc_query anc_rules) p' = Some ad' \<and>
            bound_before sample_uuid_ops (set (head_grounded ad' r) \<union> bound_by pre) args i)
      | _ \<Rightarrow> ''anc'' \<notin> set (rule_invocations c))"
    using solve_adornments_sound [OF ad] by (elim exE conjE) (rule that; assumption)
  have "''anc'' \<in> (calls anc_rules)\<^sup>* `` set (concat (map rule_invocations (where_clauses anc_query)))"
    by (auto simp: anc_query_def query_new_def)
  moreover have "?r \<in> set (get_rules anc_rules ''anc'')" by (simp add: anc_rules_def get_rules_def)
  moreover have "rule_body ?r = ?pre @ RuleInvocation ''anc'' [Symbol ''?z'', Symbol ''?y''] # []" by (simp add: anc_rules_def get_rules_def)
  ultimately have "case RuleInvocation ''anc'' [Symbol ''?z'', Symbol ''?y''] of
        RuleInvocation p'' args \<Rightarrow> p'' = ''anc'' \<longrightarrow> \<not> has_negation ?r \<and>
          (\<exists>ad'. map_of (solve_adornments sample_uuid_ops anc_query anc_rules) ''anc'' = Some ad' \<and>
            bound_before sample_uuid_ops (set (head_grounded ad' ?r) \<union> bound_by ?pre) args i)
      | _ \<Rightarrow> ''anc'' \<notin> set (rule_invocations (RuleInvocation ''anc'' [Symbol ''?z'', Symbol ''?y'']))" using r by blast
  then have "bound_before sample_uuid_ops (set (head_grounded ''bf'' ?r) \<union> bound_by ?pre) [Symbol ''?z'', Symbol ''?y''] i"
    by (simp add: ad)
  moreover have "is_carried_literal sample_uuid_ops i ([Uuid 7, Symbol ''?y''] ! i)" using q by (simp add: anc_query_def query_new_def)
  moreover have "length ''bf'' = 2" by simp
  ultimately show ?thesis using i anc_adorned by metis
qed

section \<open>The rewritten registry\<close>

lemma get_rules_unchecked:
  "get_rules (register_rule_unchecked p r reg) p' = (if p' = p then get_rules reg p @ [r] else get_rules reg p')"
  by (simp add: get_rules_def map_of_unchecked)

lemma get_rules_fold_one:
  "get_rules (fold (\<lambda>r. register_rule_unchecked p (f r)) rs reg) p' =
     (if p' = p then get_rules reg p @ map f rs else get_rules reg p')"
  by (induction rs arbitrary: reg) (auto simp: get_rules_unchecked)

lemma get_rules_fold:
  assumes "distinct (map fst xs)"
  shows "get_rules (fold (\<lambda>(p, rs). fold (\<lambda>r. register_rule_unchecked p (f p r)) rs) xs reg) p' =
    get_rules reg p' @ (case map_of xs p' of Some rs \<Rightarrow> map (f p') rs | None \<Rightarrow> [])"
  using assms
proof (induction xs arbitrary: reg)
  case (Cons x xs)
  obtain p rs where x: "x = (p, rs)" by (cases x)
  have "p' = p \<Longrightarrow> map_of xs p' = None" using Cons.prems by (auto simp: x map_of_eq_None_iff)
  with Cons show ?case by (simp add: x get_rules_fold_one)
qed simp

lemma magic_names: "(m, pr) \<in> set (build_propagation_rules U r p adorned) \<Longrightarrow> prefix ''__magic_'' m"
  by (auto simp: build_propagation_rules_def map_filter_def propagation_rule_def magic_pred_name_def Let_def
      split: if_splits option.splits where_clause.splits)

lemma get_rules_fold_other:
  "\<forall>(m, pr) \<in> set xs. m \<noteq> p' \<Longrightarrow> get_rules (fold (\<lambda>(m, pr). register_rule_unchecked m pr) xs reg) p' = get_rules reg p'"
  by (induction xs arbitrary: reg) (auto simp: get_rules_unchecked)

lemma fold_keeps: "(\<And>x R. x \<in> set xs \<Longrightarrow> g (f x R) = g R) \<Longrightarrow> g (fold f xs R) = g R"
  by (induction xs arbitrary: R) auto

text \<open>
  What rewriting does to the rules. Under every name but the magic ones the rewritten
  registry has the same rules in the same order, each unchanged or, where its predicate is
  adorned and it has no negation, with one guard in front of its body. So a rewritten rule
  derives nothing its original does not.
\<close>

lemma rewritten_rules:
  assumes "registry_inv reg" and "\<not> prefix ''__magic_'' p"
  shows "get_rules (build_rewritten_registry U reg adorned) p =
    map (\<lambda>r. case map_of adorned p of
        Some ad \<Rightarrow> if has_negation r then r else r\<lparr>rule_body := magic_guard U r p ad # rule_body r\<rparr>
      | None \<Rightarrow> r) (get_rules reg p)"
proof -
  let ?g = "\<lambda>p r. case map_of adorned p of Some ad \<Rightarrow> inject_magic_guard U r p ad | None \<Rightarrow> r"
  let ?c = "fold (\<lambda>(p, rs). fold (\<lambda>r. register_rule_unchecked p (?g p r)) rs) reg []"
  let ?step = "\<lambda>(p, rs). if map_of adorned p = None then id
      else fold (\<lambda>r. fold (\<lambda>(m, pr). register_rule_unchecked m pr) (build_propagation_rules U r p adorned)) rs"
  have one: "get_rules (fold (\<lambda>(m, pr). register_rule_unchecked m pr) (build_propagation_rules U r p' adorned) R) p = get_rules R p"
    for r p' R
    using magic_names [of _ _ U r p' adorned] assms(2) by (intro get_rules_fold_other) auto
  have rules: "get_rules (fold (\<lambda>r. fold (\<lambda>(m, pr). register_rule_unchecked m pr) (build_propagation_rules U r p' adorned)) rs R) p
      = get_rules R p" for rs p' R
    by (rule fold_keeps [where g = "\<lambda>R. get_rules R p"]) (rule one)
  have "get_rules (?step x R) p = get_rules R p" for x R
    by (cases x) (simp add: rules)
  then have "get_rules (fold ?step reg ?c) p = get_rules ?c p"
    by (intro fold_keeps [where g = "\<lambda>R. get_rules R p"])
  also have "\<dots> = map (?g p) (get_rules reg p)"
    using assms(1) by (subst get_rules_fold) (auto simp: registry_inv_def get_rules_def split: option.splits)
  finally show ?thesis
    unfolding build_rewritten_registry_def Let_def inject_magic_guard_def by simp
qed

end
