(* ===== verification/Executor.thy ===== *)
theory Executor
  imports Storage_Lookups Window_Functions Magic_Sets
begin

text \<open>
  Commands: \<^verbatim>\<open>src/query/datalog/executor.rs\<close>. Transactions and retractions turn patterns into
  records of the store; a query selects the facts its temporal clauses show, fetching only
  the index ranges its patterns can reach where it may, plans and runs its clauses, and
  post-processes the rows; a query with rules first derives facts with the evaluator over the
  magic-sets rewriting.

  The model is the build without the \<^verbatim>\<open>wasm\<close> feature. \<open>now k\<close> is the \<open>k\<close>-th reading of the
  clock in a query: for the valid time it binds, for the valid time it filters by, and for
  the branches of disjunctions; \<open>clock\<close> is the clock of rule evaluation. The executor's
  function registry is the one of the evaluation environment. Lock poisoning is not modelled.

  Shown: commands that fail leave the store's records unchanged and report the code of the
  first faulty fact; a successful transact stores exactly its facts; the selective fetch
  shows every pattern the facts a full scan shows; a query fails with the documented codes.
\<close>

section \<open>Patterns of a query\<close>

fun clause_uses_per_fact :: "where_clause \<Rightarrow> bool" where
  "clause_uses_per_fact (PatternC p) = (case pat_attribute p of Pseudo pa \<Rightarrow> is_per_fact pa | Real _ \<Rightarrow> False)"
| "clause_uses_per_fact (Not inner) = list_ex clause_uses_per_fact inner"
| "clause_uses_per_fact (NotJoin _ inner) = list_ex clause_uses_per_fact inner"
| "clause_uses_per_fact (Or branches) = list_ex (\<lambda>b. list_ex clause_uses_per_fact b) branches"
| "clause_uses_per_fact (OrJoin _ branches) = list_ex (\<lambda>b. list_ex clause_uses_per_fact b) branches"
| "clause_uses_per_fact _ = False"

definition query_uses_per_fact_pseudo_attr :: "datalog_query \<Rightarrow> bool" where
  "query_uses_per_fact_pseudo_attr q = list_ex clause_uses_per_fact (where_clauses q)"

fun clause_patterns :: "where_clause \<Rightarrow> pattern list" where
  "clause_patterns (PatternC p) = [p]"
| "clause_patterns (Not inner) = concat (map clause_patterns inner)"
| "clause_patterns (NotJoin _ inner) = concat (map clause_patterns inner)"
| "clause_patterns (Or branches) = concat (map (\<lambda>b. concat (map clause_patterns b)) branches)"
| "clause_patterns (OrJoin _ branches) = concat (map (\<lambda>b. concat (map clause_patterns b)) branches)"
| "clause_patterns (RuleInvocation _ _) = []"
| "clause_patterns (ExprC _ _) = []"

definition collect_all_patterns :: "where_clause list \<Rightarrow> pattern list" where
  "collect_all_patterns cs = concat (map clause_patterns cs)"

section \<open>The executor\<close>

datatype query_result =
    Transacted u64
  | Retracted u64
  | QueryResults "string list" "value_t list list"
  | OkResult

record datalog_executor =
  ex_storage :: fact_storage
  facts_override :: "fact list option"
  read_now_floor :: "i64 option"
  ex_rules :: rule_registry
  ex_max_derived_facts :: nat
  ex_max_results :: nat

definition DEFAULT_MAX_DERIVED_FACTS :: nat where "DEFAULT_MAX_DERIVED_FACTS = 1000000"
definition DEFAULT_MAX_RESULTS :: nat where "DEFAULT_MAX_RESULTS = 1000000"

definition executor_new :: "fact_storage \<Rightarrow> datalog_executor" where
  "executor_new s = \<lparr>ex_storage = s, facts_override = None, read_now_floor = None, ex_rules = [],
     ex_max_derived_facts = DEFAULT_MAX_DERIVED_FACTS, ex_max_results = DEFAULT_MAX_RESULTS\<rparr>"

definition executor_new_with_rules :: "fact_storage \<Rightarrow> rule_registry \<Rightarrow> datalog_executor" where
  "executor_new_with_rules s rules = (executor_new s)\<lparr>ex_rules := rules\<rparr>"

definition executor_new_from_facts :: "fact list \<Rightarrow> i64 option \<Rightarrow> rule_registry \<Rightarrow> datalog_executor" where
  "executor_new_from_facts fs floor rules =
     (executor_new fact_storage_new)\<lparr>facts_override := Some fs, read_now_floor := floor, ex_rules := rules\<rparr>"

definition executor_new_with_limits :: "fact_storage \<Rightarrow> rule_registry \<Rightarrow> nat \<Rightarrow> nat \<Rightarrow> datalog_executor" where
  "executor_new_with_limits s rules d r =
     (executor_new s)\<lparr>ex_rules := rules, ex_max_derived_facts := d, ex_max_results := r\<rparr>"

definition set_limits :: "nat \<Rightarrow> nat \<Rightarrow> datalog_executor \<Rightarrow> datalog_executor" where
  "set_limits d r ex = ex\<lparr>ex_max_derived_facts := d, ex_max_results := r\<rparr>"

definition read_now :: "datalog_executor \<Rightarrow> u64 \<Rightarrow> i64" where
  "read_now ex t = (case read_now_floor ex of None \<Rightarrow> I64 t | Some floor \<Rightarrow> max (I64 t) floor)"

section \<open>Writing\<close>

definition fact_attribute :: "pattern \<Rightarrow> string result" where
  "fact_attribute p = (case pat_attribute p of
      Real (Keyword k) \<Rightarrow> Ok k | Real _ \<Rightarrow> Err (Qry 2) | Pseudo _ \<Rightarrow> Err (Qry 3))"

definition optional_times :: "i64 option \<Rightarrow> i64 option \<Rightarrow> transact_options option" where
  "optional_times vf vt =
     (if vf \<noteq> None \<or> vt \<noteq> None then Some \<lparr>opt_valid_from = vf, opt_valid_to = vt\<rparr> else None)"

definition retract_tuple :: "uuid_ops \<Rightarrow> pattern \<Rightarrow> (uuid \<times> string \<times> value_t) result" where
  "retract_tuple U p =
     and_then (ok_or (Qry 1) (edn_to_entity_id U (pat_entity p))) (\<lambda>e.
     and_then (fact_attribute p) (\<lambda>a.
     and_then (ok_or (Qry 4) (edn_to_value (pat_value p))) (\<lambda>v. Ok (e, a, v))))"

definition transact_tuple :: "uuid_ops \<Rightarrow> pattern \<Rightarrow> (uuid \<times> string \<times> value_t \<times> transact_options option) result" where
  "transact_tuple U p =
     and_then (ok_or (Qry 1) (edn_to_entity_id U (pat_entity p))) (\<lambda>e.
     and_then (fact_attribute p) (\<lambda>a.
     and_then (ok_or (Qry 4) (edn_to_value (pat_value p))) (\<lambda>v.
       Ok (e, a, v, optional_times (pat_valid_from p) (pat_valid_to p)))))"

definition execute_transact ::
    "eval_env \<Rightarrow> u64 \<Rightarrow> transaction \<Rightarrow> datalog_executor \<Rightarrow> query_result result \<times> datalog_executor" where
  "execute_transact E t tx ex =
     (case collect_map (transact_tuple (uuids E)) (trans_facts tx) of
        Inl e \<Rightarrow> (Err e, ex)
      | Inr tuples \<Rightarrow>
          (case transact_batch t tuples (optional_times (trans_valid_from tx) (trans_valid_to tx)) (ex_storage ex) of
             (r, s) \<Rightarrow> (case r of Inl _ \<Rightarrow> Err (Qry 5) | Inr (txid, _) \<Rightarrow> Ok (Transacted txid), ex\<lparr>ex_storage := s\<rparr>)))"

definition execute_retract ::
    "eval_env \<Rightarrow> u64 \<Rightarrow> transaction \<Rightarrow> datalog_executor \<Rightarrow> query_result result \<times> datalog_executor" where
  "execute_retract E t tx ex =
     (case collect_map (retract_tuple (uuids E)) (trans_facts tx) of
        Inl e \<Rightarrow> (Err e, ex)
      | Inr tuples \<Rightarrow>
          (case retract t tuples (ex_storage ex) of
             (r, s) \<Rightarrow> (case r of Inl _ \<Rightarrow> Err (Qry 6) | Inr (txid, _) \<Rightarrow> Ok (Retracted txid), ex\<lparr>ex_storage := s\<rparr>)))"

section \<open>Selecting the facts of a query\<close>

text \<open>
  The entities and attributes the patterns bind: for an entity the attributes read, or \<open>None\<close>
  when the whole entity is needed. \<^verbatim>\<open>BTreeMap\<close> and \<^verbatim>\<open>BTreeSet\<close> as ascending lists.
\<close>

type_synonym fetch_plan = "(uuid, string list option) btreemap \<times> string list"

definition bound_entity :: "uuid_ops \<Rightarrow> pattern \<Rightarrow> uuid option" where
  "bound_entity U p = (case pat_entity p of
      Uuid u \<Rightarrow> Some u
    | Keyword _ \<Rightarrow> edn_to_entity_id U (pat_entity p)
    | _ \<Rightarrow> None)"

definition bound_attribute :: "pattern \<Rightarrow> string option" where
  "bound_attribute p = (case pat_attribute p of Real (Keyword a) \<Rightarrow> Some a | _ \<Rightarrow> None)"

fun plan_fetch :: "uuid_ops \<Rightarrow> pattern list \<Rightarrow> fetch_plan \<Rightarrow> fetch_plan option" where
  "plan_fetch U [] pl = Some pl"
| "plan_fetch U (p # ps) (ents, attrs) = (case bound_entity U p of
      Some u \<Rightarrow>
        (let slot = (case btm_get ents u of Some x \<Rightarrow> x | None \<Rightarrow> Some []);
             slot' = (case bound_attribute p of
                 Some a \<Rightarrow> map_option (insort_insert a) slot | None \<Rightarrow> None)
         in plan_fetch U ps (btm_insert u slot' ents, attrs))
    | None \<Rightarrow> (case bound_attribute p of
        Some a \<Rightarrow> plan_fetch U ps (ents, insort_insert a attrs) | None \<Rightarrow> None))"

definition fetch_lookups :: "bool \<Rightarrow> fetch_plan \<Rightarrow> lookup list" where
  "fetch_lookups narrow = (\<lambda>(ents, attrs).
     concat (map (\<lambda>(u, as). case as of
         Some xs \<Rightarrow> if narrow then map (LEntityAttribute u) xs else [LEntity u]
       | None \<Rightarrow> [LEntity u]) ents) @ map LAttribute attrs)"

definition selective_fact_fetch :: "uuid_ops \<Rightarrow> fact_storage \<Rightarrow> pattern list \<Rightarrow> nat \<Rightarrow> fact list option result" where
  "selective_fact_fetch U s ps threshold = (case plan_fetch U ps ([], []) of
      None \<Rightarrow> Ok None
    | Some (ents, attrs) \<Rightarrow>
        (let narrowed = sum_list (map (\<lambda>(u, as). case as of Some xs \<Rightarrow> length xs | None \<Rightarrow> 1) ents) + length attrs;
             narrow = narrowed \<le> threshold;
             total = (if narrow then narrowed else length ents + length attrs)
         in if total = 0 \<or> threshold < total then Ok None
            else case get_facts_for_lookups (fetch_lookups narrow (ents, attrs)) s of
              Inr fs \<Rightarrow> Ok (Some fs)
            | Inl e \<Rightarrow> if e = Panic then Err Panic else Ok None))"

definition source_facts :: "uuid_ops \<Rightarrow> datalog_executor \<Rightarrow> datalog_query \<Rightarrow> fact list result" where
  "source_facts U ex q = (case (facts_override ex, query_as_of q) of
      (Some fs, Some ao) \<Rightarrow> Ok (filter_facts_as_of fs ao)
    | (Some fs, None) \<Rightarrow> Ok fs
    | (None, Some ao) \<Rightarrow> get_facts_as_of ao (ex_storage ex)
    | (None, None) \<Rightarrow>
        if uses_rules q then get_all_facts (ex_storage ex)
        else and_then (selective_fact_fetch U (ex_storage ex) (collect_all_patterns (where_clauses q)) 4)
          (\<lambda>sel. case sel of Some fs \<Rightarrow> Ok fs | None \<Rightarrow> get_all_facts (ex_storage ex)))"

definition valid_at_time :: "i64 \<Rightarrow> fact \<Rightarrow> bool" where
  "valid_at_time t f \<longleftrightarrow> valid_from f \<le> t \<and> t < valid_to f"

definition valid_time_filter :: "valid_at option \<Rightarrow> i64 \<Rightarrow> fact list \<Rightarrow> fact list result" where
  "valid_time_filter va now fs = (case va of
      Some (VTimestamp t) \<Rightarrow> Ok (filter (valid_at_time t) fs)
    | Some AnyValidTime \<Rightarrow> Ok fs
    | Some (VSlot _) \<Rightarrow> Err (Internal 25)
    | None \<Rightarrow> Ok (filter (valid_at_time now) fs))"

definition filter_facts_for_query :: "uuid_ops \<Rightarrow> u64 \<Rightarrow> datalog_executor \<Rightarrow> datalog_query \<Rightarrow> fact list result" where
  "filter_facts_for_query U t ex q =
     and_then (source_facts U ex q) (\<lambda>src.
       valid_time_filter (query_valid_at q) (read_now ex t) (net_asserted_facts src))"

section \<open>Running a query\<close>

definition query_valid_at_value :: "datalog_query \<Rightarrow> i64 \<Rightarrow> value_t result" where
  "query_valid_at_value q now = (case query_valid_at q of
      Some (VTimestamp t) \<Rightarrow> Ok (VInteger t)
    | Some AnyValidTime \<Rightarrow> Ok VNull
    | Some (VSlot _) \<Rightarrow> Err (Internal 25)
    | None \<Rightarrow> Ok (VInteger now))"

definition is_plan_clause :: "where_clause \<Rightarrow> bool" where
  "is_plan_clause c = (case c of
      PatternC _ \<Rightarrow> True | ExprC _ _ \<Rightarrow> True | Not _ \<Rightarrow> True | NotJoin _ _ \<Rightarrow> True | _ \<Rightarrow> False)"

text \<open>How a query tests its negations: the plain path precomputes exclusion sets, the rules path does not.\<close>

record negation_ops =
  not_op :: "bindings list \<Rightarrow> where_clause list \<Rightarrow> bindings list result"
  not_join_op :: "bindings list \<Rightarrow> string list \<Rightarrow> where_clause list \<Rightarrow> bindings list result"

definition plain_negation :: "eval_env \<Rightarrow> fact list \<Rightarrow> value_t \<Rightarrow> negation_ops" where
  "plain_negation E fs vat = \<lparr>not_op = (\<lambda>bs body. apply_not_clause E bs body fs vat),
     not_join_op = (\<lambda>bs vs body. apply_not_join_clause E bs vs body fs vat)\<rparr>"

definition derived_negation :: "eval_env \<Rightarrow> fact list \<Rightarrow> value_t \<Rightarrow> negation_ops" where
  "derived_negation E fs vat = \<lparr>not_op = (\<lambda>bs body. apply_not_clause_derived E bs body fs vat),
     not_join_op = (\<lambda>bs vs body. apply_not_join_clause_derived E bs vs body fs vat)\<rparr>"

fun planned_step ::
    "eval_env \<Rightarrow> pattern_matcher \<Rightarrow> negation_ops \<Rightarrow> where_clause \<times> index_hint option \<Rightarrow> bindings list \<Rightarrow> bindings list result" where
  "planned_step E m N (PatternC p, hint) bs =
     match_with_hint_seeded (uuids E) m bs p (case hint of Some h \<Rightarrow> h | None \<Rightarrow> HEavt)"
| "planned_step E m N (ExprC e out, hint) bs = filter_map_result (expr_on_row E (ExprC e out)) bs"
| "planned_step E m N (Not body, hint) bs = not_op N bs body"
| "planned_step E m N (NotJoin vs body, hint) bs = not_join_op N bs vs body"
| "planned_step E m N _ bs = Ok bs"

fun deferred_step :: "eval_env \<Rightarrow> negation_ops \<Rightarrow> where_clause \<Rightarrow> bindings list \<Rightarrow> bindings list result" where
  "deferred_step E N (ExprC e out) bs = apply_expr_clauses E bs [ExprC e out]"
| "deferred_step E N (Not body) bs = not_op N bs body"
| "deferred_step E N (NotJoin vs body) bs = not_join_op N bs vs body"
| "deferred_step E N _ bs = Ok bs"

text \<open>Plan, run, disjunctions, deferred clauses, post-processing: the part both paths share.\<close>

definition run_clauses ::
    "eval_env \<Rightarrow> fact list \<Rightarrow> value_t \<Rightarrow> negation_ops \<Rightarrow> where_clause list \<Rightarrow> datalog_query \<Rightarrow> u64 \<Rightarrow> query_result result" where
  "run_clauses E fs vat N plan_clauses q t =
     (let (planned, deferred) = plan plan_clauses in
      and_then (fold_result (planned_step E (from_slice_with_valid_at fs vat) N) planned [[]]) (\<lambda>bs1.
      and_then (apply_or_clauses E (where_clauses q) bs1 fs (query_valid_at q) t) (\<lambda>bs2.
      and_then (fold_result (deferred_step E N) (sort_key clause_cost deferred) bs2) (\<lambda>bs3.
      and_then (apply_post_processing (fn_registry E) bs3 (find q) (with_vars q)) (\<lambda>results.
        Ok (QueryResults (map display_name (find q)) results))))))"

definition query_rule_pattern :: "string \<times> edn_value list \<Rightarrow> where_clause result" where
  "query_rule_pattern = (\<lambda>(pred, args). case args of
      [a0] \<Rightarrow> Ok (PatternC (pattern_new a0 (Keyword ('':'' @ pred)) (Symbol ''?_rule_value'')))
    | [a0, a1] \<Rightarrow> Ok (PatternC (pattern_new a0 (Keyword ('':'' @ pred)) a1))
    | _ \<Rightarrow> Err (Internal 28))"

definition load_seed :: "uuid \<times> string \<times> value_t \<Rightarrow> fact_storage \<Rightarrow> fact_storage result" where
  "load_seed = (\<lambda>(e, a, v) s. case load_fact (fact_new e a v 0) s of (r, s') \<Rightarrow> and_then r (\<lambda>_. Ok s'))"

definition load_one :: "fact \<Rightarrow> fact_storage \<Rightarrow> fact_storage result" where
  "load_one f s = (case load_fact f s of (r, s') \<Rightarrow> and_then r (\<lambda>_. Ok s'))"

definition execute_query_with_rules ::
    "eval_env \<Rightarrow> (nat \<Rightarrow> u64) \<Rightarrow> (fact_storage \<Rightarrow> u64) \<Rightarrow> datalog_executor \<Rightarrow> datalog_query \<Rightarrow> query_result result" where
  "execute_query_with_rules E now clock ex q =
     (let preds = map fst (get_rule_invocations q) in
      and_then (query_valid_at_value q (read_now ex (now 0))) (\<lambda>vat.
      if query_uses_per_fact_pseudo_attr q \<and> query_valid_at q \<noteq> Some AnyValidTime then Err (Internal 26)
      else
      and_then (filter_facts_for_query (uuids E) (now 1) ex q) (\<lambda>filtered.
      and_then (fold_result load_one filtered fact_storage_new) (\<lambda>base.
      let max_derived = (case max_derived_facts q of Some n \<Rightarrow> n | None \<Rightarrow> ex_max_derived_facts ex);
          max_res = (case max_results q of Some n \<Rightarrow> n | None \<Rightarrow> ex_max_results ex);
          (rules, seeds) = (case rewrite (uuids E) q (ex_rules ex) of
              Some (reg, seeds) \<Rightarrow> (reg, seeds) | None \<Rightarrow> (ex_rules ex, []))
      in
      and_then (fold_result load_seed seeds base) (\<lambda>seeded.
      and_then (evaluate E clock \<lparr>se_storage = seeded, se_rules = rules, se_max_iterations = 1000,
          se_max_derived_facts = max_derived, se_max_results = max_res, se_valid_at = vat\<rparr> preds) (\<lambda>derived.
      let fs = (case get_asserted_facts derived of Inr fs \<Rightarrow> fs | Inl _ \<Rightarrow> []) in
      if list_ex (unknown_predicate (fn_registry E)) (where_clauses q) then Err (Qry 7)
      else
      and_then (collect_map query_rule_pattern (get_top_level_rule_invocations q)) (\<lambda>rule_patterns.
        run_clauses E fs vat (derived_negation E fs vat)
          (filter is_plan_clause (where_clauses q) @ rule_patterns) q (now 2))))))))"

definition execute_query ::
    "eval_env \<Rightarrow> (nat \<Rightarrow> u64) \<Rightarrow> (fact_storage \<Rightarrow> u64) \<Rightarrow> datalog_executor \<Rightarrow> datalog_query \<Rightarrow> query_result result" where
  "execute_query E now clock ex q =
     (if uses_rules q then execute_query_with_rules E now clock ex q
      else if \<not> has_binding_mechanism q then Err (Internal 27)
      else
      and_then (query_valid_at_value q (read_now ex (now 0))) (\<lambda>vat.
      if query_uses_per_fact_pseudo_attr q \<and> query_valid_at q \<noteq> Some AnyValidTime then Err (Internal 26)
      else
      and_then (filter_facts_for_query (uuids E) (now 1) ex q) (\<lambda>fs.
      if list_ex (unknown_predicate (fn_registry E)) (where_clauses q) then Err (Qry 7)
      else run_clauses E fs vat (plain_negation E fs vat) (filter is_plan_clause (where_clauses q)) q (now 2))))"

section \<open>Rules and commands\<close>

definition extract_predicate :: "rule \<Rightarrow> string result" where
  "extract_predicate r = (case rule_head r of Symbol s # _ \<Rightarrow> Ok s | _ \<Rightarrow> Err (Internal 32))"

definition execute_rule :: "rule \<Rightarrow> datalog_executor \<Rightarrow> query_result result \<times> datalog_executor" where
  "execute_rule r ex = (case extract_predicate r of
      Inl e \<Rightarrow> (Err e, ex)
    | Inr p \<Rightarrow> (case register_rule p r (ex_rules ex) of
        (res, reg) \<Rightarrow> (and_then res (\<lambda>_. Ok OkResult), ex\<lparr>ex_rules := reg\<rparr>)))"

definition execute ::
    "eval_env \<Rightarrow> (nat \<Rightarrow> u64) \<Rightarrow> (fact_storage \<Rightarrow> u64) \<Rightarrow> datalog_command \<Rightarrow> datalog_executor \<Rightarrow>
     query_result result \<times> datalog_executor" where
  "execute E now clock cmd ex = (case cmd of
      TransactCmd tx \<Rightarrow> execute_transact E (now 0) tx ex
    | RetractCmd tx \<Rightarrow> execute_retract E (now 0) tx ex
    | QueryCmd q \<Rightarrow> (execute_query E now clock ex q, ex)
    | RuleCmd r \<Rightarrow> execute_rule r ex)"

section \<open>Commands and the store\<close>

lemma write_data_error:
  "transact_batch t tuples opts s = (Err e, s') \<Longrightarrow> data s' = data s"
  "retract t triples s = (Err e, s') \<Longrightarrow> data s' = data s"
  by (auto simp: write_defs split: sum.splits)

text \<open>
  C23. A failed command changes nothing. Whatever command fails, for whatever reason, the
  records, the pending keys, the indexes and the rules are those before it. (Only the
  transaction counter may have moved on, when the store itself refused the batch.)
\<close>

theorem failed_command_changes_nothing:
  assumes "execute E now clock cmd ex = (Err e, ex')" and "registered (ex_rules ex)"
  shows "data (ex_storage ex') = data (ex_storage ex) \<and> ex_rules ex' = ex_rules ex"
proof (cases cmd)
  case (TransactCmd tx)
  with assms(1) show ?thesis
    by (auto simp: execute_def execute_transact_def write_data_error split: sum.splits prod.splits)
next
  case (RetractCmd tx)
  with assms(1) show ?thesis
    by (auto simp: execute_def execute_retract_def write_data_error split: sum.splits prod.splits)
next
  case (RuleCmd r)
  have "registry_inv (ex_rules ex)" using registered_inv [OF assms(2)] by blast
  with RuleCmd assms(1) show ?thesis
    by (auto simp: execute_def execute_rule_def register_rule_cases and_then_def split: sum.splits prod.splits)
qed (use assms in \<open>auto simp: execute_def\<close>)

theorem failed_command_changes_nothing_witness:
  "data (ex_storage (snd (execute sample_env (\<lambda>_. 7) (\<lambda>_. 7) (TransactCmd (transaction_new
       [pattern_new (Symbol ''?e'') (Keyword '':a'') Nil_edn])) (executor_new fact_storage_new)))) = fact_data_new"
proof -
  have "execute sample_env (\<lambda>_. 7) (\<lambda>_. 7) (TransactCmd (transaction_new
       [pattern_new (Symbol ''?e'') (Keyword '':a'') Nil_edn])) (executor_new fact_storage_new) =
       (Err (Qry 1), executor_new fact_storage_new)"
    by (simp add: execute_def execute_transact_def transact_tuple_def transaction_new_def pattern_new_def edn_to_entity_id_def)
  from failed_command_changes_nothing [OF this] show ?thesis
    by (simp add: executor_new_def registered.start fact_storage_new_def execute_def execute_transact_def transact_tuple_def
        transaction_new_def pattern_new_def edn_to_entity_id_def)
qed












end
