(* ===== verification/Fact_Selection.thy ===== *)
theory Fact_Selection
  imports Executor
begin

text \<open>
  The selective fetch of \<^verbatim>\<open>src/query/datalog/executor.rs\<close> against a full scan. Retrieval by index
  (\<open>Storage_Lookups\<close>), the net view (\<open>Temporal_Views\<close>) and matching (\<open>Matcher\<close>) meet here: the
  fetch reads whole groups of records with the same entity and attribute, which is what the
  net view and the patterns of the query look at.
\<close>

section \<open>The net view of part of the records\<close>

text \<open>No two assertions tie for a window: then the net view depends on the set of records only.\<close>

definition untied :: "fact list \<Rightarrow> bool" where
  "untied fs \<longleftrightarrow> (\<forall>f \<in> set fs. \<forall>g \<in> set fs. asserted f \<longrightarrow> asserted g \<longrightarrow> window_of f = window_of g \<longrightarrow>
     tx_count f = tx_count g \<longrightarrow> f = g)"

lemma in_net_set:
  assumes "untied fs"
  shows "f \<in> set (net_asserted_facts fs) \<longleftrightarrow> f \<in> set fs \<and> asserted f \<and> not_retracted fs f \<and>
    (\<forall>g \<in> set fs. asserted g \<longrightarrow> window_of g = window_of f \<longrightarrow> tx_count g \<le> tx_count f)"
proof
  assume "f \<in> set (net_asserted_facts fs)"
  then obtain i where i: "i < length fs" "fs ! i = f" "best_in_window fs i" "not_retracted fs f"
    by (auto simp: in_net_iff)
  moreover have "tx_count g \<le> tx_count f" if g: "g \<in> set fs" "asserted g" "window_of g = window_of f" for g
  proof -
    obtain j where "j < length fs" "fs ! j = g" using g(1) by (auto simp: in_set_conv_nth)
    then show ?thesis using i g by (auto simp: best_in_window_def)
  qed
  ultimately show "f \<in> set fs \<and> asserted f \<and> not_retracted fs f \<and>
      (\<forall>g \<in> set fs. asserted g \<longrightarrow> window_of g = window_of f \<longrightarrow> tx_count g \<le> tx_count f)"
    by (auto simp: best_in_window_def)
next
  assume r: "f \<in> set fs \<and> asserted f \<and> not_retracted fs f \<and>
      (\<forall>g \<in> set fs. asserted g \<longrightarrow> window_of g = window_of f \<longrightarrow> tx_count g \<le> tx_count f)"
  define i where "i = (LEAST i. i < length fs \<and> fs ! i = f)"
  have "\<exists>i. i < length fs \<and> fs ! i = f" using r by (auto simp: in_set_conv_nth)
  then have i: "i < length fs" "fs ! i = f" unfolding i_def by (auto intro: LeastI2_ex)
  have "tx_count (fs ! j) < tx_count f \<or> tx_count (fs ! j) = tx_count f \<and> i \<le> j"
    if j: "j < length fs" "asserted (fs ! j)" "window_of (fs ! j) = window_of f" for j
  proof (cases "tx_count (fs ! j) = tx_count f")
    case True
    then have "fs ! j = f" using assms r j by (auto simp: untied_def)
    then have "i \<le> j" unfolding i_def using j(1) by (intro Least_le) simp
    with True show ?thesis by simp
  next
    case False
    then show ?thesis using r j by (auto simp: order.order_iff_strict)
  qed
  then have "best_in_window fs i" using i r by (simp add: best_in_window_def)
  then show "f \<in> set (net_asserted_facts fs)" using i r by (auto simp: in_net_iff)
qed

text \<open>A part that is closed under entity and attribute has the part of the net view.\<close>

lemma net_of_part:
  assumes u: "untied fs" and part: "set gs = {f \<in> set fs. Q (entity f) (attribute f)}"
  shows "set (net_asserted_facts gs) = {f \<in> set (net_asserted_facts fs). Q (entity f) (attribute f)}"
proof -
  have ug: "untied gs" using u part by (auto simp: untied_def)
  have key: "Q (entity g) (attribute g) \<longleftrightarrow> Q (entity f) (attribute f)" if "eav_of g = eav_of f" for f g
    using that by (simp add: eav_of_def)
  have win: "eav_of g = eav_of f" if "window_of g = window_of f" for f g
    using that by (metis window_eav_of)
  have nr: "not_retracted gs f \<longleftrightarrow> not_retracted fs f" if "Q (entity f) (attribute f)" for f
    unfolding not_retracted_def part using that key by blast
  show ?thesis
  proof (intro set_eqI iffI)
    fix f assume "f \<in> set (net_asserted_facts gs)"
    then have f: "f \<in> set gs" "asserted f" "not_retracted gs f"
      "\<And>g. g \<in> set gs \<Longrightarrow> asserted g \<Longrightarrow> window_of g = window_of f \<Longrightarrow> tx_count g \<le> tx_count f"
      by (auto simp: in_net_set [OF ug])
    then have Q: "f \<in> set fs" "Q (entity f) (attribute f)" using part by auto
    moreover have "tx_count g \<le> tx_count f" if "g \<in> set fs" "asserted g" "window_of g = window_of f" for g
      using f(4) that key [OF win [OF that(3)]] Q(2) part by blast
    ultimately show "f \<in> {f \<in> set (net_asserted_facts fs). Q (entity f) (attribute f)}"
      using f nr by (auto simp: in_net_set [OF u])
  next
    fix f assume "f \<in> {f \<in> set (net_asserted_facts fs). Q (entity f) (attribute f)}"
    then show "f \<in> set (net_asserted_facts gs)"
      using nr part by (auto simp: in_net_set [OF u] in_net_set [OF ug])
  qed
qed

lemma untied_distinct:
  assumes "distinct (map eavt_key_of fs)"
  shows "untied fs"
  unfolding untied_def
proof (intro ballI impI)
  fix f g assume "f \<in> set fs" "g \<in> set fs" "window_of f = window_of g" "tx_count f = tx_count g"
  moreover from this have "eavt_key_of f = eavt_key_of g" by (simp add: window_of_def eavt_key_of_def)
  ultimately show "f = g" using assms by (auto simp: distinct_map inj_on_def)
qed

section \<open>The fetch plan covers the patterns\<close>

definition covered :: "uuid_ops \<Rightarrow> fetch_plan \<Rightarrow> pattern \<Rightarrow> bool" where
  "covered U = (\<lambda>(ents, attrs) p. case bound_entity U p of
      Some u \<Rightarrow> (case btm_get ents u of
          None \<Rightarrow> False
        | Some None \<Rightarrow> True
        | Some (Some xs) \<Rightarrow> (case bound_attribute p of Some a \<Rightarrow> a \<in> set xs | None \<Rightarrow> False))
    | None \<Rightarrow> (case bound_attribute p of Some a \<Rightarrow> a \<in> set attrs | None \<Rightarrow> False))"

lemma set_insort_insert: "set (insort_insert a xs) = insert a (set xs)"
  by (simp add: insort_insert_key_def set_insort_key insert_absorb)

definition fetch_step :: "uuid_ops \<Rightarrow> pattern \<Rightarrow> fetch_plan \<Rightarrow> fetch_plan option" where
  "fetch_step U p pl = plan_fetch U [p] pl"

lemma plan_fetch_Cons: "plan_fetch U (p # ps) pl = Option.bind (fetch_step U p pl) (plan_fetch U ps)"
  by (cases pl) (auto simp: fetch_step_def Let_def split: option.splits)

lemma fetch_step_covers:
  assumes "fetch_step U p pl = Some pl'"
  shows "covered U pl' p" "covered U pl q \<Longrightarrow> covered U pl' q"
    and "u \<in> fst ` set (fst pl') \<Longrightarrow> u \<in> fst ` set (fst pl) \<or> bound_entity U p = Some u"
    and "ascending (fst pl) \<Longrightarrow> ascending (fst pl')"
proof -
  obtain ents attrs where pl: "pl = (ents, attrs)" by (cases pl)
  show "covered U pl' p"
    using assms by (auto simp: fetch_step_def pl covered_def Let_def btm_get_insert set_insort_insert split: option.splits)
  show "covered U pl q \<Longrightarrow> covered U pl' q"
    using assms
    by (auto simp: fetch_step_def pl covered_def Let_def btm_get_insert set_insort_insert split: option.splits if_splits)
  show "u \<in> fst ` set (fst pl') \<Longrightarrow> u \<in> fst ` set (fst pl) \<or> bound_entity U p = Some u"
    using assms by (auto simp: fetch_step_def pl Let_def split: option.splits dest!: subsetD [OF set_btm_insert_subset])
  show "ascending (fst pl) \<Longrightarrow> ascending (fst pl')"
    using assms by (auto simp: fetch_step_def pl Let_def ascending_btm_insert split: option.splits)
qed

lemma plan_fetch_covers:
  assumes "plan_fetch U ps pl = Some pl'"
  shows "(\<forall>q. covered U pl q \<longrightarrow> covered U pl' q) \<and> (\<forall>p \<in> set ps. covered U pl' p) \<and>
    (\<forall>u \<in> fst ` set (fst pl'). u \<in> fst ` set (fst pl) \<or> (\<exists>p \<in> set ps. bound_entity U p = Some u)) \<and>
    (ascending (fst pl) \<longrightarrow> ascending (fst pl'))"
  using assms
proof (induction ps arbitrary: pl)
  case (Cons p ps)
  from Cons.prems obtain pl1 where s: "fetch_step U p pl = Some pl1" and r: "plan_fetch U ps pl1 = Some pl'"
    by (auto simp: plan_fetch_Cons bind_eq_Some_conv)
  note S = fetch_step_covers [OF s] and R = Cons.IH [OF r]
  have "covered U pl' q" if "covered U pl q" for q using S(2) [OF that] R by blast
  moreover have "covered U pl' q" if "q \<in> set (p # ps)" for q using that S(1) R by (cases "q = p") auto
  moreover have "u \<in> fst ` set (fst pl) \<or> (\<exists>p \<in> set (p # ps). bound_entity U p = Some u)"
    if "u \<in> fst ` set (fst pl')" for u
  proof -
    from R that consider "u \<in> fst ` set (fst pl1)" | q where "q \<in> set ps" "bound_entity U q = Some u" by blast
    then show ?thesis using S(3) by cases auto
  qed
  moreover have "ascending (fst pl) \<longrightarrow> ascending (fst pl')" using S(4) R by blast
  ultimately show ?case by blast
qed simp

text \<open>What a pattern matches has the entity and attribute it binds.\<close>

lemma match_component_constant:
  "match_component U (Keyword k) v b = (if match_constant U (Keyword k) v then Some b else None)"
  "match_component U (Uuid u) v b = (if match_constant U (Uuid u) v then Some b else None)"
  by (simp_all add: match_component_def)

lemma match_bound:
  assumes "match_fact_against_pattern U m f p = Some b"
  shows "bound_entity U p = Some u \<Longrightarrow> entity f = u" "bound_attribute p = Some a \<Longrightarrow> attribute f = a"
proof -
  obtain b1 where e: "match_component U (pat_entity p) (VRef (entity f)) [] = Some b1"
    and a: "\<And>x. pat_attribute p = Real x \<Longrightarrow> match_component U x (VKeyword (attribute f)) b1 \<noteq> None"
    using assms by (cases "pat_attribute p") (auto simp: match_fact_against_pattern_def bind_eq_Some_conv)
  show "entity f = u" if "bound_entity U p = Some u"
    using that e by (cases "pat_entity p")
      (auto simp: bound_entity_def edn_to_entity_id_def match_component_constant split: if_splits)
  show "attribute f = a" if "bound_attribute p = Some a"
    using that a by (auto simp: bound_attribute_def match_component_constant split: attribute_spec.splits edn_value.splits if_splits)
qed

lemma covered_lookup:
  assumes c: "covered U (ents, attrs) p" and m: "match_fact_against_pattern U m f p = Some b"
  shows "\<exists>l \<in> set (fetch_lookups narrow (ents, attrs)). lookup_matches l f"
proof (cases "bound_entity U p")
  case None
  then obtain a where "bound_attribute p = Some a" "a \<in> set attrs" using c by (auto simp: covered_def split: option.splits)
  moreover from this have "attribute f = a" using match_bound(2) [OF m] by blast
  ultimately show ?thesis by (intro bexI [of _ "LAttribute a"]) (auto simp: fetch_lookups_def)
next
  case (Some u)
  with c obtain as where as: "btm_get ents u = Some as" by (auto simp: covered_def split: option.splits)
  have mem: "(u, as) \<in> set ents" using as by (induction ents) (auto split: if_splits)
  have u: "entity f = u" using match_bound(1) [OF m Some] .
  show ?thesis
  proof (cases "as = None \<or> \<not> narrow")
    case True
    then have "LEntity u \<in> set (fetch_lookups narrow (ents, attrs))"
      using mem by (cases as) (auto simp: fetch_lookups_def intro!: bexI [of _ "(u, as)"])
    with u show ?thesis by (intro bexI [of _ "LEntity u"]) simp_all
  next
    case False
    then obtain xs where xs: "as = Some xs" "narrow" by auto
    with c Some as obtain a where a: "bound_attribute p = Some a" "a \<in> set xs" by (auto simp: covered_def split: option.splits)
    then have "LEntityAttribute u a \<in> set (fetch_lookups narrow (ents, attrs))"
      using mem xs by (auto simp: fetch_lookups_def intro!: bexI [of _ "(u, as)"])
    with u match_bound(2) [OF m a(1)] show ?thesis by (intro bexI [of _ "LEntityAttribute u a"]) simp_all
  qed
qed

section \<open>The fetch shows what a scan shows\<close>

lemma all_facts_committed: "committed_ok (data s) cs \<Longrightarrow> get_all_facts s = Ok (cs @ facts (data s))"
  by (auto simp: committed_ok_def get_all_facts_def all_facts_def split: option.splits)

lemma distinct_aevt: "distinct (map eavt_key_of fs) \<Longrightarrow> distinct (map aevt_key_of fs)"
  by (auto simp: distinct_map inj_on_def eavt_key_of_def aevt_key_of_def)

lemma set_mset_sum_list: "set_mset (sum_list Ms) = (\<Union>M \<in> set Ms. set_mset M)"
  by (induction Ms) auto

lemma lookups_set:
  assumes r: "reachable s" and d: "distinct (map eavt_key_of (cs @ facts (data s)))"
    and c: "committed_ok (data s) cs" and u: "LEntity max_uuid \<notin> set ls"
  shows "\<exists>gs. get_facts_for_lookups ls s = Ok gs \<and>
    set gs = {f \<in> set (cs @ facts (data s)). \<exists>l \<in> set ls. lookup_matches l f}"
proof -
  have e: "distinct (map eavt_key_of (facts (data s)))" using d by simp
  obtain gs where gs: "get_facts_for_lookups ls s = Ok gs"
    "mset gs = (\<Sum>l \<leftarrow> ls. filter_mset (lookup_matches l) (mset (facts (data s) @ cs)))"
    using lookups_exact [OF r e distinct_aevt [OF e] c u] by blast
  have "set gs = set_mset (\<Sum>l \<leftarrow> ls. filter_mset (lookup_matches l) (mset (facts (data s) @ cs)))"
    using gs(2) by (metis set_mset_mset)
  also have "\<dots> = {f \<in> set (cs @ facts (data s)). \<exists>l \<in> set ls. lookup_matches l f}"
    by (auto simp: set_mset_sum_list)
  finally show ?thesis using gs(1) by blast
qed

definition shows_pattern :: "uuid_ops \<Rightarrow> fact list \<Rightarrow> pattern \<Rightarrow> fact set" where
  "shows_pattern U fs p = {f \<in> set fs. \<exists>m. match_fact_against_pattern U m f p \<noteq> None}"

lemma lookup_matches_key:
  "entity f = entity g \<Longrightarrow> attribute f = attribute g \<Longrightarrow> lookup_matches l f \<longleftrightarrow> lookup_matches l g"
  by (cases l) auto

lemma selective_fetch_net:
  assumes r: "reachable s" and d: "distinct (map eavt_key_of (cs @ facts (data s)))"
    and c: "committed_ok (data s) cs" and u: "\<forall>p \<in> set ps. bound_entity U p \<noteq> Some max_uuid"
  shows "\<exists>sel. selective_fact_fetch U s ps n = Ok sel \<and> (\<forall>gs. sel = Some gs \<longrightarrow>
    set (net_asserted_facts gs) \<subseteq> set (net_asserted_facts (cs @ facts (data s))) \<and>
    (\<forall>p \<in> set ps. shows_pattern U (net_asserted_facts gs) p = shows_pattern U (net_asserted_facts (cs @ facts (data s))) p))"
proof (cases "plan_fetch U ps ([], [])")
  case None
  then show ?thesis by (simp add: selective_fact_fetch_def)
next
  case (Some pl)
  let ?all = "cs @ facts (data s)"
  obtain ents attrs where pl: "pl = (ents, attrs)" by (cases pl)
  note P = plan_fetch_covers [OF Some]
  have max: "LEntity max_uuid \<notin> set (fetch_lookups narrow pl)" for narrow
    using P u by (force simp: fetch_lookups_def pl split: option.splits if_splits)
  have fetch: "\<exists>gs. get_facts_for_lookups (fetch_lookups narrow pl) s = Ok gs \<and>
      set (net_asserted_facts gs) \<subseteq> set (net_asserted_facts ?all) \<and>
      (\<forall>p \<in> set ps. shows_pattern U (net_asserted_facts gs) p = shows_pattern U (net_asserted_facts ?all) p)" for narrow
  proof -
    let ?ls = "fetch_lookups narrow pl"
    let ?Q = "\<lambda>e a. \<exists>l \<in> set ?ls. \<forall>f. entity f = e \<longrightarrow> attribute f = a \<longrightarrow> lookup_matches l f"
    have Q: "?Q (entity f) (attribute f) \<longleftrightarrow> (\<exists>l \<in> set ?ls. lookup_matches l f)" for f
      using lookup_matches_key by blast
    obtain gs where gs: "get_facts_for_lookups ?ls s = Ok gs"
      "set gs = {f \<in> set ?all. \<exists>l \<in> set ?ls. lookup_matches l f}"
      using lookups_set [OF r d c max] by blast
    have "set gs = {f \<in> set ?all. ?Q (entity f) (attribute f)}" unfolding gs(2) Q ..
    then have net: "set (net_asserted_facts gs) = {f \<in> set (net_asserted_facts ?all). ?Q (entity f) (attribute f)}"
      by (rule net_of_part [OF untied_distinct [OF d]])
    have "shows_pattern U (net_asserted_facts gs) p = shows_pattern U (net_asserted_facts ?all) p" if "p \<in> set ps" for p
    proof -
      have "?Q (entity f) (attribute f)" if m: "match_fact_against_pattern U m f p \<noteq> None" for f m
      proof -
        obtain b where "match_fact_against_pattern U m f p = Some b" using m by blast
        moreover have "covered U (ents, attrs) p" using P \<open>p \<in> set ps\<close> unfolding pl by blast
        ultimately have "\<exists>l \<in> set ?ls. lookup_matches l f" unfolding pl by (intro covered_lookup)
        then show ?thesis using Q by blast
      qed
      then show ?thesis unfolding shows_pattern_def net by blast
    qed
    with gs(1) net show ?thesis by blast
  qed
  let ?narrowed = "sum_list (map (\<lambda>(u, as). case as of Some xs \<Rightarrow> length xs | None \<Rightarrow> 1) ents) + length attrs"
  let ?narrow = "?narrowed \<le> n"
  let ?total = "if ?narrow then ?narrowed else length ents + length attrs"
  obtain gs where gs: "get_facts_for_lookups (fetch_lookups ?narrow (ents, attrs)) s = Ok gs"
    "set (net_asserted_facts gs) \<subseteq> set (net_asserted_facts ?all)"
    "\<forall>p \<in> set ps. shows_pattern U (net_asserted_facts gs) p = shows_pattern U (net_asserted_facts ?all) p"
    using fetch [of ?narrow] unfolding pl by blast
  have "selective_fact_fetch U s ps n = Ok (if ?total = 0 \<or> n < ?total then None else Some gs)"
    unfolding selective_fact_fetch_def Some pl Let_def option.case prod.case gs(1) sum.case
    by (rule if_distrib [symmetric])
  then show ?thesis using gs(2,3) by (intro exI conjI allI impI) (auto split: if_splits)
qed

lemma shows_pattern_filter: "shows_pattern U (filter P fs) p = {f \<in> shows_pattern U fs p. P f}"
  by (auto simp: shows_pattern_def)

text \<open>
  C9. The selective fetch loses nothing. For a query of the current state (no \<^verbatim>\<open>:as-of\<close>, no
  unfilled slot in \<^verbatim>\<open>:valid-at\<close>, no facts handed in) over a reachable store whose committed and
  pending records have pairwise different EAVT keys and whose committed readers keep their
  contract, the facts the query works on are among those a full scan would give it, and
  every pattern of the query, at any depth of negation and disjunction, matches the same
  facts in both. The greatest UUID is excluded because looking it up panics.
\<close>

theorem selective_fetch_exact:
  assumes "reachable (ex_storage ex)" and "distinct (map eavt_key_of (cs @ facts (data (ex_storage ex))))"
    and "committed_ok (data (ex_storage ex)) cs" and "facts_override ex = None" and "query_as_of q = None"
    and "\<forall>slot. query_valid_at q \<noteq> Some (VSlot slot)"
    and "\<forall>p \<in> set (collect_all_patterns (where_clauses q)). bound_entity U p \<noteq> Some max_uuid"
  shows "\<exists>fs scan. filter_facts_for_query U t ex q = Ok fs \<and>
    valid_time_filter (query_valid_at q) (read_now ex t)
      (net_asserted_facts (cs @ facts (data (ex_storage ex)))) = Ok scan \<and>
    set fs \<subseteq> set scan \<and>
    (\<forall>p \<in> set (collect_all_patterns (where_clauses q)). shows_pattern U fs p = shows_pattern U scan p)"
proof -
  let ?all = "cs @ facts (data (ex_storage ex))" and ?ps = "collect_all_patterns (where_clauses q)"
  obtain P where P: "\<And>fs. valid_time_filter (query_valid_at q) (read_now ex t) fs = Ok (filter P fs)"
  proof (cases "query_valid_at q")
    case None
    then show ?thesis using that [of "valid_at_time (read_now ex t)"] by (simp add: valid_time_filter_def)
  next
    case (Some va)
    then show ?thesis
      using that [of "\<lambda>_. True"] that [of "case va of VTimestamp t \<Rightarrow> valid_at_time t"] assms(6)
      by (cases va) (auto simp: valid_time_filter_def)
  qed
  obtain src where src: "source_facts U ex q = Ok src"
    and net: "set (net_asserted_facts src) \<subseteq> set (net_asserted_facts ?all)"
      "\<forall>p \<in> set ?ps. shows_pattern U (net_asserted_facts src) p = shows_pattern U (net_asserted_facts ?all) p"
  proof (cases "uses_rules q")
    case True
    then show ?thesis using that [of ?all] assms(4,5) all_facts_committed [OF assms(3)] by (simp add: source_facts_def)
  next
    case False
    obtain sel where sel: "selective_fact_fetch U (ex_storage ex) ?ps 4 = Ok sel"
      "\<And>gs. sel = Some gs \<Longrightarrow> set (net_asserted_facts gs) \<subseteq> set (net_asserted_facts ?all) \<and>
        (\<forall>p \<in> set ?ps. shows_pattern U (net_asserted_facts gs) p = shows_pattern U (net_asserted_facts ?all) p)"
      using selective_fetch_net [OF assms(1,2,3,7), of 4] by blast
    have "source_facts U ex q = (case sel of Some fs \<Rightarrow> Ok fs | None \<Rightarrow> Ok ?all)"
      using False assms(4,5) sel(1) all_facts_committed [OF assms(3)] by (simp add: source_facts_def)
    then show ?thesis using that sel(2) by (cases sel) auto
  qed
  show ?thesis
    using src net unfolding filter_facts_for_query_def by (simp add: P shows_pattern_filter) blast
qed

definition fetched_store :: fact_storage where
  "fetched_store = snd (transact 7 [(1, '':a'', VNull)] None fact_storage_new)"

definition fetching_query :: datalog_query where
  "fetching_query = query_new [FVariable ''?v''] [PatternC (pattern_new (Uuid 1) (Keyword '':a'') (Symbol ''?v''))]"

theorem selective_fetch_exact_witness:
  "\<exists>fs scan. filter_facts_for_query sample_uuid_ops 8 (executor_new fetched_store) fetching_query = Ok fs \<and>
    valid_time_filter (query_valid_at fetching_query) (read_now (executor_new fetched_store) 8)
      (net_asserted_facts ([] @ facts (data (ex_storage (executor_new fetched_store))))) = Ok scan \<and> set fs \<subseteq> set scan \<and>
    shows_pattern sample_uuid_ops fs (pattern_new (Uuid 1) (Keyword '':a'') (Symbol ''?v'')) =
      shows_pattern sample_uuid_ops scan (pattern_new (Uuid 1) (Keyword '':a'') (Symbol ''?v''))"
proof -
  have "reachable (ex_storage (executor_new fetched_store))"
    unfolding fetched_store_def executor_new_def
    by (simp, rule reachable.step [OF reachable.start store_step.writing [OF write_step.transact]])
  moreover have "facts (data fetched_store) = [assert_fact 7 (next_tx_count fact_storage_new) default_options 1 '':a'' VNull]"
    "committed (data fetched_store) = None" "committed_index_reader (data fetched_store) = None"
    by (simp_all add: fetched_store_def write_defs append_facts_def pending_refs_eq fact_storage_new_def fact_data_new_def
        register_def allocate_tx_count_def next_tx_count_def)
  moreover have "bound_entity sample_uuid_ops p \<noteq> Some max_uuid"
    if "p \<in> set (collect_all_patterns (where_clauses fetching_query))" for p
    using that by (simp add: fetching_query_def query_new_def collect_all_patterns_def bound_entity_def pattern_new_def max_uuid_def)
  moreover have "pattern_new (Uuid 1) (Keyword '':a'') (Symbol ''?v'') \<in> set (collect_all_patterns (where_clauses fetching_query))"
    by (simp add: fetching_query_def query_new_def collect_all_patterns_def)
  ultimately show ?thesis
    using selective_fetch_exact [of "executor_new fetched_store" "[]" fetching_query sample_uuid_ops 8]
    by (simp add: executor_new_def committed_ok_def fetching_query_def query_new_def) blast
qed

text \<open>
  C31. Two values in one transaction. A fresh store that is given two different values of one
  attribute of one entity in one transaction holds two records, but index-driven retrieval of
  that entity and attribute returns only the second: the key of the EAVT index has no value.
  A query that binds the entity therefore misses the first, while a full scan shows both.
\<close>

theorem same_transaction_values_collide:
  "map val (facts (data (snd (transact now [(e, a, v), (e, a, w)] None fact_storage_new)))) = [v, w] \<and>
   (\<exists>g. get_facts_for_lookups [LEntityAttribute e a] (snd (transact now [(e, a, v), (e, a, w)] None fact_storage_new)) =
      Ok [g] \<and> val g = w)"
proof -
  let ?s = "snd (transact now [(e, a, v), (e, a, w)] None fact_storage_new)"
  let ?f = "\<lambda>x. assert_fact now (next_tx_count fact_storage_new) default_options e a x"
  have fs: "facts (data ?s) = [?f v, ?f w]" and none: "committed (data ?s) = None" "committed_index_reader (data ?s) = None"
    by (simp_all add: write_defs append_facts_def pending_refs_eq fact_storage_new_def fact_data_new_def
        register_def allocate_tx_count_def next_tx_count_def)
  have "reachable ?s"
    by (rule reachable.step [OF reachable.start store_step.writing [OF write_step.transact]])
  then have inv: "store_inv (data ?s)" by (rule reachable_inv)
  then have "eavt (pending_indexes (data ?s)) = fold (\<lambda>(k, v). btm_insert k v) (keyed eavt_key_of [?f v, ?f w]) []"
    by (simp add: store_inv_def fs eavt_index_of)
  also have "\<dots> = [(eavt_key_of (?f w), slot_ref 1)]"
    by (simp add: keyed_def eavt_key_of_def assert_fact_def fact_with_valid_time_def)
  finally have ix: "eavt (pending_indexes (data ?s)) = [(eavt_key_of (?f w), slot_ref 1)]" .
  have key: "ek_entity (eavt_key_of (?f w)) = e" "ek_attribute (eavt_key_of (?f w)) = a"
    by (simp_all add: assert_fact_def fact_with_valid_time_def)
  have "eavt_min e a \<le> eavt_key_of (?f w)" using entity_attribute_bounds [of e a "eavt_key_of (?f w)"] key by simp
  then have "entity_attribute_facts (data ?s) e a = Ok [?f w]"
    using resolve_slot [OF inv, of 1] by (simp add: entity_attribute_facts_def ix none btm_range_from_def key [simplified] fs)
  then show ?thesis
    by (simp add: fs get_facts_for_lookups_def) (simp add: assert_fact_def fact_with_valid_time_def)
qed

section \<open>Seeds among the facts of a query\<close>

lemma load_one_props:
  assumes "load_one f s = Ok s'" "store_inv (data s)"
  shows "store_inv (data s') \<and> committed (data s') = committed (data s) \<and> set (facts (data s)) \<subseteq> set (facts (data s')) \<and>
    (\<exists>g \<in> set (facts (data s')). pending_key g = pending_key f)"
proof -
  obtain r where l: "load_fact f s = (r, s')" and r: "\<exists>x. r = Ok x"
    using assms(1) by (auto simp: load_one_def and_then_eq_Inr split: prod.splits)
  then have lf: "s' = snd (load_facts [f] s)" "\<exists>x. fst (load_facts [f] s) = Ok x"
    by (auto simp: load_fact_eq split: prod.splits sum.splits) (cases "fst (load_facts [f] s)"; auto)+
  have "store_inv (data s')" unfolding lf(1) by (rule load_facts_inv [OF assms(2)])
  moreover have "committed (data s') = committed (data s)" "set (facts (data s)) \<subseteq> set (facts (data s'))"
    "pending_key f \<in> pending_key ` set (facts (data s')) \<or> pending_key f \<in> pending_keys (data s)"
    using lf by (auto simp: load_facts_eq Let_def append_facts_Inr split: sum.splits if_splits)
  moreover have "pending_keys (data s) = pending_key ` set (facts (data s))" using assms(2) by (simp add: store_inv_def)
  ultimately show ?thesis by (auto simp: image_iff)
qed

lemma fold_load_props:
  assumes "fold_result load_one fs s = Ok s'" "store_inv (data s)"
  shows "store_inv (data s') \<and> committed (data s') = committed (data s) \<and> set (facts (data s)) \<subseteq> set (facts (data s')) \<and>
    (\<forall>f \<in> set fs. \<exists>g \<in> set (facts (data s')). pending_key g = pending_key f)"
  using assms
proof (induction fs arbitrary: s)
  case (Cons f fs)
  then obtain s1 where s1: "load_one f s = Ok s1" "fold_result load_one fs s1 = Ok s'" by (auto simp: and_then_eq_Inr)
  from load_one_props [OF s1(1) Cons.prems(2)] Cons.IH [OF s1(2)] show ?case by auto
qed simp

lemma load_seed_fold: "fold_result load_seed seeds s = fold_result load_one (map (\<lambda>(e, a, v). fact_new e a v 0) seeds) s"
proof -
  have "load_seed x s = load_one (case x of (e, a, v) \<Rightarrow> fact_new e a v 0) s" for x s
    by (simp add: load_seed_def load_one_def split: prod.split)
  then show ?thesis by (induction seeds arbitrary: s) (auto intro: and_then_cong)
qed

lemma seed_fact_magic: "seed_fact U adorned c = Some (e, a, v) \<Longrightarrow> prefix '':__magic_'' a"
  by (cases c) (auto simp: seed_fact_def magic_pred_name_def Let_def split: option.splits if_splits)

text \<open>
  C32. Seeds are answers too. In a query whose rewriting seeds a demand, the facts its clauses
  run over contain the seed, an internal fact whose attribute starts with \<^verbatim>\<open>:__magic_\<close>, and a
  pattern with a variable in the attribute position returns it as if the user had asserted it.
\<close>

theorem seeds_visible:
  assumes "filter_facts_for_query U t ex q = Ok filtered" and "fold_result load_one filtered fact_storage_new = Ok base"
    and "rewrite U q (ex_rules ex) = Some (reg, seeds)" and "fold_result load_seed seeds base = Ok seeded"
    and "evaluate E clock se preds = Ok derived" and "se_storage se = seeded" and "(e, a, v) \<in> set seeds"
  shows "\<exists>fs. get_asserted_facts derived = Ok fs \<and> prefix '':__magic_'' a \<and>
    (\<exists>b \<in> set (match_pattern U (from_slice_with_valid_at fs vat)
        (pattern_new (Symbol ''?e'') (Symbol ''?a'') (Symbol ''?v''))).
      map_of b ''?e'' = Some (VRef e) \<and> map_of b ''?a'' = Some (VKeyword a))"
proof -
  have "store_inv (data fact_storage_new)" by (rule store_inv_empty) (simp_all add: fact_storage_new_def fact_data_new_def)
  from fold_load_props [OF assms(2) this] have base: "store_inv (data base)" "committed (data base) = None"
    by (auto simp: fact_storage_new_def fact_data_new_def)
  from fold_load_props [OF assms(4) [unfolded load_seed_fold] base(1)] assms(7) base(2)
  obtain g where g: "g \<in> set (facts (data seeded))" "pending_key g = pending_key (fact_new e a v 0)" "committed (data seeded) = None"
    by fastforce
  obtain new where new: "facts (data derived) = facts (data seeded) @ new" "committed (data derived) = committed (data seeded)"
    using evaluate_appends [OF assms(5)] assms(6) by auto
  let ?fs = "filter is_asserted (facts (data derived))"
  have fs: "get_asserted_facts derived = Ok ?fs"
    using new g(3) by (simp add: get_asserted_facts_def get_all_facts_def all_facts_def)
  have gk: "entity g = e" "attribute g = a" "asserted g" using g(2) by (simp_all add: pending_key_def fact_new_def)
  have gin: "g \<in> set ?fs" using g(1) new gk by (simp add: is_asserted_def)
  have "seeds = build_seed_facts U (where_clauses q) (solve_adornments U q (ex_rules ex))"
    using assms(3) by (auto simp: rewrite_def Let_def split: if_splits)
  with assms(7) have magic: "prefix '':__magic_'' a"
    by (auto simp: build_seed_facts_def map_filter_def intro: seed_fact_magic)
  let ?p = "pattern_new (Symbol ''?e'') (Symbol ''?a'') (Symbol ''?v'')" and ?m = "from_slice_with_valid_at ?fs vat"
  obtain b where b: "match_fact_against_pattern U ?m g ?p = Some b"
    "map_of b ''?e'' = Some (VRef e)" "map_of b ''?a'' = Some (VKeyword a)"
  proof -
    have "match_fact_against_pattern U ?m g ?p =
        Some (extend_row [(''?e'', VRef e), (''?a'', VKeyword a), (''?v'', val g)] (hidden_entries U g))"
      by (simp add: match_fact_against_pattern_def pattern_new_def match_component_def is_wildcard_def gk)
    then show ?thesis
      by (rule that) (simp_all add: extend_row_def hidden_entries_def Let_def update_conv')
  qed
  then have "b \<in> set (match_pattern U ?m ?p)"
    using gin by (force simp: match_pattern_def map_filter_def get_facts_def from_slice_with_valid_at_def)
  with fs magic b show ?thesis by blast
qed

text \<open>The ancestors of entity 7, as rewriting leaves them, over a store that holds nothing but the seed.\<close>

definition anc_rewritten :: rule_registry where
  "anc_rewritten = (case rewrite sample_uuid_ops anc_query anc_rules of Some (reg, _) \<Rightarrow> reg | None \<Rightarrow> [])"

definition anc_seed :: fact where
  "anc_seed = fact_new 7 '':__magic_anc_bf'' (VBoolean True) 0"

definition anc_evaluator :: "fact_storage \<Rightarrow> stratified_evaluator" where
  "anc_evaluator s = \<lparr>se_storage = s, se_rules = anc_rewritten, se_max_iterations = 3, se_max_derived_facts = 5,
     se_max_results = 5, se_valid_at = VNull\<rparr>"

lemma anc_rewrite: "rewrite sample_uuid_ops anc_query anc_rules = Some (anc_rewritten, [(7, '':__magic_anc_bf'', VBoolean True)])"
  by code_simp

lemma anc_registry:
  "stratify (from_rules anc_rewritten) = Ok [(''__magic_anc_bf'', 0), (''anc'', 0)]"
  "all_preds_loop anc_rewritten 0 [''anc''] = [''anc'', ''__magic_anc_bf'']"
  by code_simp+

abbreviation anc_positive :: "(string \<times> rule) list" where
  "anc_positive \<equiv> concat (map (\<lambda>p. map (Pair p) (get_rules anc_rewritten p)) [''anc'', ''__magic_anc_bf''])"

lemma anc_positive:
  "fold (\<lambda>(p, r). register_rule_unchecked p r) anc_positive [] = anc_rewritten"
  "filter (\<lambda>(p, r). \<not> has_mixed_clause (rule_body r)) anc_positive = anc_positive"
  "filter (\<lambda>(p, r). has_mixed_clause (rule_body r)) anc_positive = []"
  "anc_positive = [] \<longleftrightarrow> False"
  by code_simp+

abbreviation anc_guard :: pattern where
  "anc_guard \<equiv> pattern_new (Symbol ''?x'') (Keyword '':__magic_anc_bf'') (Symbol ''?_rule_value'')"

abbreviation anc_parent :: "string \<Rightarrow> pattern" where
  "anc_parent v \<equiv> pattern_new (Symbol ''?x'') (Keyword '':parent'') (Symbol v)"

lemma anc_bodies:
  "map (\<lambda>r. split_body (rule_body r)) (concat (map (get_rules anc_rewritten) [''anc'', ''__magic_anc_bf''])) =
    [Ok ([anc_guard, anc_parent ''?y''], []),
     Ok ([anc_guard, anc_parent ''?z'', pattern_new (Symbol ''?z'') (Keyword '':anc'') (Symbol ''?y'')], []),
     Ok ([anc_guard, anc_parent ''?z''], [])]"
  by code_simp

text \<open>Over the seed alone no rule derives anything: there is no parent to follow.\<close>

lemma seed_alone:
  assumes "get_facts m = [anc_seed]"
  shows "join_with_pattern sample_uuid_ops m (match_pattern sample_uuid_ops m anc_guard) (anc_parent v) = []"
proof -
  obtain row where row: "match_pattern sample_uuid_ops m anc_guard = [row]" "map_of row ''?x'' = Some (VRef 7)"
    by (simp add: assms match_pattern_def match_fact_against_pattern_def pattern_new_def match_component_def is_wildcard_def
      anc_seed_def fact_new_def extend_row_def hidden_entries_def Let_def update_conv' map_filter_def)
  have "match_pattern sample_uuid_ops m (anc_parent v) = []"
    by (simp add: assms match_pattern_def match_fact_against_pattern_def pattern_new_def match_component_def is_wildcard_def
      anc_seed_def fact_new_def map_filter_def)
  with row show ?thesis
    by (simp add: join_with_pattern_def pattern_new_def bound_variable_def build_side_def probe_row_def)
qed

lemma anc_iteration:
  assumes "get_asserted_facts s = Ok [anc_seed]"
  shows "evaluate_iteration sample_env VNull anc_rewritten [''anc'', ''__magic_anc_bf''] s = Ok []"
proof -
  let ?rs = "concat (map (get_rules anc_rewritten) [''anc'', ''__magic_anc_bf''])"
  have m: "get_facts (with_valid_at VNull (matcher_new s)) = [anc_seed]"
    using assms by (simp add: get_facts_def with_valid_at_def matcher_new_def)
  have join: "join_with_pattern sample_uuid_ops n [] p = []" for n p by (simp add: join_with_pattern_def)
  have "evaluate_rule sample_env VNull r s = Ok []" if "r \<in> set ?rs" for r
  proof -
    have "split_body (rule_body r) \<in> set (map (\<lambda>r. split_body (rule_body r)) ?rs)" using that by (simp only: set_map) (rule imageI)
    then show ?thesis unfolding anc_bodies
      by (auto simp: evaluate_rule_def Let_def sample_env_def seed_alone [OF m] join apply_expr_clauses_in_evaluator_def)
  qed
  then have "collect_map (\<lambda>r. evaluate_rule sample_env VNull r s) ?rs = Ok (map (\<lambda>_. []) ?rs)"
    by (intro collect_map_Inr) blast
  then show ?thesis by (simp only: evaluate_iteration_def) simp
qed

lemma seeded_evaluate:
  assumes "facts (data s) = [anc_seed]" "committed (data s) = None"
  shows "\<exists>d. evaluate sample_env (\<lambda>_. 5) (anc_evaluator s) [''anc''] = Ok d"
proof -
  have a: "get_asserted_facts t = Ok [anc_seed]" if "facts (data t) = [anc_seed]" "committed (data t) = None" for t
    using that by (simp add: get_asserted_facts_def get_all_facts_def all_facts_def is_asserted_def anc_seed_def fact_new_def)
  obtain t where t: "load_facts [anc_seed] fact_storage_new = (Ok 1, t)" "facts (data t) = [anc_seed]" "committed (data t) = None"
    by (simp add: load_facts_def fact_storage_new_def fact_data_new_def pending_refs_eq Let_def register_def)
  let ?ev = "recursive_evaluator_new s anc_rewritten 3 5 5"
  have "evaluate_iteration sample_env VNull anc_rewritten [''anc'', ''__magic_anc_bf''] (restore_tx_counter t) = Ok []"
    using t(2,3) by (intro anc_iteration a) (simp_all add: restore_tx_counter_def)
  then have loop: "fixpoint_loop sample_env (\<lambda>_. 5) ?ev [''anc'', ''__magic_anc_bf''] 1 3 (restore_tx_counter t) [eav_of anc_seed] =
      Ok (restore_tx_counter t)"
    by (simp add: recursive_evaluator_new_def numeral_3_eq_3)
  have "re_storage ?ev = s" "re_max_iterations ?ev = 3" "length [eav_of anc_seed] = 1" by (simp_all add: recursive_evaluator_new_def)
  with loop a [OF assms] t(1) have ev: "evaluate_recursive_rules sample_env (\<lambda>_. 5) ?ev [''anc'', ''__magic_anc_bf''] = Ok (restore_tx_counter t)"
    by (simp add: evaluate_recursive_rules_def Let_def)
  have "get_asserted_facts (restore_tx_counter t) = Ok [anc_seed]"
    using t(2,3) by (intro a) (simp_all add: restore_tx_counter_def)
  with ev a [OF assms] have pass: "positive_pass sample_env (\<lambda>_. 5) (anc_evaluator s) [''anc'', ''__magic_anc_bf''] anc_positive
      \<lparr>accumulated = s, derived_total = 0\<rparr> = Ok \<lparr>accumulated = restore_tx_counter s, derived_total = 0\<rparr>"
    unfolding positive_pass_def anc_positive(1,4) by (simp add: anc_evaluator_def recursive_evaluator_new_def asserted_keys_def)
  have "evaluate_stratum sample_env (\<lambda>_. 5) (anc_evaluator s) [''anc'', ''__magic_anc_bf''] \<lparr>accumulated = s, derived_total = 0\<rparr> =
      Ok \<lparr>accumulated = restore_tx_counter s, derived_total = 0\<rparr>"
  proof -
    have "stratum_loop sample_env (\<lambda>_. 5) (anc_evaluator s) [''anc'', ''__magic_anc_bf''] anc_positive [] rep (Suc n)
        \<lparr>accumulated = s, derived_total = 0\<rparr> = Ok \<lparr>accumulated = restore_tx_counter s, derived_total = 0\<rparr>" for rep n
      by (simp only: stratum_loop.simps stratum_pass_def pass) simp
    moreover have "se_rules (anc_evaluator s) = anc_rewritten" "se_max_iterations (anc_evaluator s) = Suc (Suc (Suc 0))"
      by (simp_all add: anc_evaluator_def)
    ultimately show ?thesis unfolding evaluate_stratum_def Let_def by (simp only: anc_positive list.distinct if_False)
  qed
  then show ?thesis
    by (simp add: evaluate_def anc_registry stratum_def anc_evaluator_def)
qed

theorem seeds_visible_witness:
  "\<exists>filtered base reg seeds seeded derived fs b.
    filter_facts_for_query sample_uuid_ops 5 (executor_new_with_rules fact_storage_new anc_rules) anc_query = Ok filtered \<and>
    fold_result load_one filtered fact_storage_new = Ok base \<and>
    rewrite sample_uuid_ops anc_query anc_rules = Some (reg, seeds) \<and> seeds = [(7, '':__magic_anc_bf'', VBoolean True)] \<and>
    fold_result load_seed seeds base = Ok seeded \<and>
    evaluate sample_env (\<lambda>_. 5) \<lparr>se_storage = seeded, se_rules = reg, se_max_iterations = 3, se_max_derived_facts = 5,
      se_max_results = 5, se_valid_at = VNull\<rparr> [''anc''] = Ok derived \<and>
    get_asserted_facts derived = Ok fs \<and>
    b \<in> set (match_pattern sample_uuid_ops (from_slice_with_valid_at fs VNull)
        (pattern_new (Symbol ''?e'') (Symbol ''?a'') (Symbol ''?v''))) \<and>
    map_of b ''?e'' = Some (VRef 7) \<and> map_of b ''?a'' = Some (VKeyword '':__magic_anc_bf'')"
proof -
  let ?ex = "executor_new_with_rules fact_storage_new anc_rules"
  have rw: "rewrite sample_uuid_ops anc_query (ex_rules ?ex) = Some (anc_rewritten, [(7, '':__magic_anc_bf'', VBoolean True)])"
    using anc_rewrite by (simp add: executor_new_with_rules_def)
  have uses: "uses_rules anc_query" by code_simp
  have filt: "filter_facts_for_query sample_uuid_ops 5 ?ex anc_query = Ok []"
    using uses by (simp add: filter_facts_for_query_def source_facts_def executor_new_with_rules_def executor_new_def anc_query_def
        query_new_def get_all_facts_def all_facts_def fact_storage_new_def fact_data_new_def valid_time_filter_def
        net_asserted_facts_def)
  obtain s where s: "fold_result load_seed [(7, '':__magic_anc_bf'', VBoolean True)] fact_storage_new = Ok s"
      "facts (data s) = [anc_seed]" "committed (data s) = None"
    by (simp add: load_seed_def load_fact_def fact_storage_new_def fact_data_new_def pending_refs_eq Let_def register_def anc_seed_def)
  obtain d where ev: "evaluate sample_env (\<lambda>_. 5) (anc_evaluator s) [''anc''] = Ok d"
    using seeded_evaluate [OF s(2,3)] by blast
  have base: "fold_result load_one [] fact_storage_new = Ok fact_storage_new" by simp
  have "se_storage (anc_evaluator s) = s" by (simp add: anc_evaluator_def)
  from seeds_visible [OF filt base rw s(1) ev this, of 7 "'':__magic_anc_bf''" "VBoolean True" VNull]
  obtain fs b where "get_asserted_facts d = Ok fs" "b \<in> set (match_pattern sample_uuid_ops (from_slice_with_valid_at fs VNull)
        (pattern_new (Symbol ''?e'') (Symbol ''?a'') (Symbol ''?v'')))" "map_of b ''?e'' = Some (VRef 7)"
    "map_of b ''?a'' = Some (VKeyword '':__magic_anc_bf'')" by auto
  with filt base anc_rewrite s(1) ev [unfolded anc_evaluator_def] show ?thesis by blast
qed
end
