(* ===== verification/Prepared.thy ===== *)
theory Prepared
  imports Executor
begin

text \<open>
  \<^verbatim>\<open>query/datalog/prepared.rs\<close>: query templates with bind slots (\<^verbatim>\<open>$name\<close>), their validation, the
  collection of slot names and the substitution of bind values. The thread-local flag
  \<^verbatim>\<open>is_write_tx_active\<close> of \<^verbatim>\<open>db.rs\<close> is an argument. A \<^verbatim>\<open>HashMap\<close> collected from a slice of
  pairs keeps the last pair of each name. The store and the rules a prepared query holds are
  handles on those of the database, so they are arguments of its execution, not a snapshot.
\<close>

datatype bind_value = BEntity uuid | BVal value_t | BTxCount u64 | BTimestamp i64 | BAnyValidTime

type_synonym bind_map = "string \<Rightarrow> bind_value option"

definition binding_map :: "(string \<times> bind_value) list \<Rightarrow> bind_map" where
  "binding_map bs = map_of (rev bs)"

record prepared_query =
  template :: datalog_query
  slot_names :: "string list"
  pq_limits :: "nat \<times> nat"

section \<open>Validation and slot collection\<close>

lemma fold_result_cong [fundef_cong]:
  "xs = ys \<Longrightarrow> st = st' \<Longrightarrow> (\<And>x s. x \<in> set ys \<Longrightarrow> f x s = g x s) \<Longrightarrow> fold_result f xs st = fold_result g ys st'"
proof (induction ys arbitrary: xs st st')
  case (Cons y ys)
  then show ?case by (cases "g y st'") simp_all
qed simp

fun attr_slot_check :: "where_clause \<Rightarrow> unit result" where
  "attr_slot_check (PatternC p) = (case pat_attribute p of Real (BindSlot _) \<Rightarrow> Err (Internal 34) | _ \<Rightarrow> Ok ())"
| "attr_slot_check (Not cs) = fold_result (\<lambda>c _. attr_slot_check c) cs ()"
| "attr_slot_check (NotJoin _ cs) = fold_result (\<lambda>c _. attr_slot_check c) cs ()"
| "attr_slot_check (Or brs) = fold_result (\<lambda>b _. fold_result (\<lambda>c _. attr_slot_check c) b ()) brs ()"
| "attr_slot_check (OrJoin _ brs) = fold_result (\<lambda>b _. fold_result (\<lambda>c _. attr_slot_check c) b ()) brs ()"
| "attr_slot_check (ExprC _ _) = Ok ()"
| "attr_slot_check (RuleInvocation _ _) = Ok ()"

definition validate_no_attribute_slots :: "datalog_query \<Rightarrow> unit result" where
  "validate_no_attribute_slots q = fold_result (\<lambda>c _. attr_slot_check c) (where_clauses q) ()"

definition slot_of :: "edn_value \<Rightarrow> string list" where
  "slot_of v = (case v of BindSlot n \<Rightarrow> [n] | _ \<Rightarrow> [])"

fun slots_from_expr :: "expr \<Rightarrow> string list" where
  "slots_from_expr (Slot n) = [n]"
| "slots_from_expr (BinOp _ l r) = slots_from_expr l @ slots_from_expr r"
| "slots_from_expr (UnaryOp _ a) = slots_from_expr a"
| "slots_from_expr (Var _) = []"
| "slots_from_expr (Lit _) = []"

fun slots_from_clause :: "where_clause \<Rightarrow> string list" where
  "slots_from_clause (PatternC p) = slot_of (pat_entity p) @
     (case pat_attribute p of Real v \<Rightarrow> slot_of v | Pseudo _ \<Rightarrow> []) @ slot_of (pat_value p)"
| "slots_from_clause (Not cs) = concat (map slots_from_clause cs)"
| "slots_from_clause (NotJoin _ cs) = concat (map slots_from_clause cs)"
| "slots_from_clause (Or brs) = concat (map (\<lambda>b. concat (map slots_from_clause b)) brs)"
| "slots_from_clause (OrJoin _ brs) = concat (map (\<lambda>b. concat (map slots_from_clause b)) brs)"
| "slots_from_clause (ExprC e _) = slots_from_expr e"
| "slots_from_clause (RuleInvocation _ args) = concat (map slot_of args)"

text \<open>A hash set of names, then sorted: the sorted list of distinct names.\<close>

definition collect_slot_names :: "datalog_query \<Rightarrow> string list" where
  "collect_slot_names q = sort (remdups (
     (case query_as_of q of Some (AsOfSlot n) \<Rightarrow> [n] | _ \<Rightarrow> []) @
     (case query_valid_at q of Some (VSlot n) \<Rightarrow> [n] | _ \<Rightarrow> []) @
     concat (map slots_from_clause (where_clauses q))))"

definition reject_unbound_slots :: "datalog_query \<Rightarrow> unit result" where
  "reject_unbound_slots q = (if collect_slot_names q \<noteq> [] then Err (Api 10) else Ok ())"

definition prepare_query ::
    "datalog_query \<Rightarrow> nat \<times> nat \<Rightarrow> prepared_query result" where
  "prepare_query q limits = and_then (validate_no_attribute_slots q) (\<lambda>_.
     Ok \<lparr>template = q, slot_names = collect_slot_names q, pq_limits = limits\<rparr>)"

section \<open>Slot resolution and substitution\<close>

definition resolve_entity_slot :: "bind_map \<Rightarrow> string \<Rightarrow> edn_value result" where
  "resolve_entity_slot m n = (case m n of
      Some (BEntity u) \<Rightarrow> Ok (Uuid u) | Some _ \<Rightarrow> Err (Internal 35) | None \<Rightarrow> Err (Internal 33))"

definition resolve_value_slot :: "bind_map \<Rightarrow> string \<Rightarrow> edn_value result" where
  "resolve_value_slot m n = (case m n of
      Some (BVal v) \<Rightarrow> Ok (Matcher.value_to_edn v) | Some _ \<Rightarrow> Err (Internal 35) | None \<Rightarrow> Err (Internal 33))"

definition resolve_val_slot :: "bind_map \<Rightarrow> string \<Rightarrow> value_t result" where
  "resolve_val_slot m n = (case m n of
      Some (BVal v) \<Rightarrow> Ok v | Some _ \<Rightarrow> Err (Internal 35) | None \<Rightarrow> Err (Internal 33))"

definition resolve_as_of_slot :: "bind_map \<Rightarrow> string \<Rightarrow> as_of result" where
  "resolve_as_of_slot m n = (case m n of
      Some (BTxCount c) \<Rightarrow> Ok (Counter c) | Some (BTimestamp t) \<Rightarrow> Ok (Timestamp t)
    | Some _ \<Rightarrow> Err (Internal 35) | None \<Rightarrow> Err (Internal 33))"

definition resolve_valid_at_slot :: "bind_map \<Rightarrow> string \<Rightarrow> valid_at result" where
  "resolve_valid_at_slot m n = (case m n of
      Some (BTimestamp t) \<Rightarrow> Ok (VTimestamp t) | Some BAnyValidTime \<Rightarrow> Ok AnyValidTime
    | Some _ \<Rightarrow> Err (Internal 35) | None \<Rightarrow> Err (Internal 33))"

definition substitute_edn_value :: "bind_map \<Rightarrow> edn_value \<Rightarrow> edn_value result" where
  "substitute_edn_value m v = (case v of BindSlot n \<Rightarrow> resolve_value_slot m n | _ \<Rightarrow> Ok v)"

definition pq_substitute_pattern :: "bind_map \<Rightarrow> pattern \<Rightarrow> pattern result" where
  "pq_substitute_pattern m p =
     and_then (case pat_entity p of BindSlot n \<Rightarrow> resolve_entity_slot m n | _ \<Rightarrow> Ok (pat_entity p)) (\<lambda>e.
     and_then (case pat_value p of BindSlot n \<Rightarrow> resolve_value_slot m n | _ \<Rightarrow> Ok (pat_value p)) (\<lambda>v.
       Ok (p\<lparr>pat_entity := e, pat_value := v\<rparr>)))"

fun substitute_expr :: "bind_map \<Rightarrow> expr \<Rightarrow> expr result" where
  "substitute_expr m (Slot n) = and_then (resolve_val_slot m n) (\<lambda>v. Ok (Lit v))"
| "substitute_expr m (BinOp op l r) = and_then (substitute_expr m l) (\<lambda>l'.
     and_then (substitute_expr m r) (\<lambda>r'. Ok (BinOp op l' r')))"
| "substitute_expr m (UnaryOp op a) = and_then (substitute_expr m a) (\<lambda>a'. Ok (UnaryOp op a'))"
| "substitute_expr m (Var v) = Ok (Var v)"
| "substitute_expr m (Lit v) = Ok (Lit v)"

fun substitute_where_clause :: "bind_map \<Rightarrow> where_clause \<Rightarrow> where_clause result" where
  "substitute_where_clause m (PatternC p) = and_then (pq_substitute_pattern m p) (\<lambda>p'. Ok (PatternC p'))"
| "substitute_where_clause m (Not cs) =
     and_then (collect_map (substitute_where_clause m) cs) (\<lambda>cs'. Ok (Not cs'))"
| "substitute_where_clause m (NotJoin vs cs) =
     and_then (collect_map (substitute_where_clause m) cs) (\<lambda>cs'. Ok (NotJoin vs cs'))"
| "substitute_where_clause m (Or brs) =
     and_then (collect_map (collect_map (substitute_where_clause m)) brs) (\<lambda>brs'. Ok (Or brs'))"
| "substitute_where_clause m (OrJoin vs brs) =
     and_then (collect_map (collect_map (substitute_where_clause m)) brs) (\<lambda>brs'. Ok (OrJoin vs brs'))"
| "substitute_where_clause m (ExprC e b) = and_then (substitute_expr m e) (\<lambda>e'. Ok (ExprC e' b))"
| "substitute_where_clause m (RuleInvocation p args) =
     and_then (collect_map (substitute_edn_value m) args) (\<lambda>args'. Ok (RuleInvocation p args'))"

definition pq_substitute :: "bind_map \<Rightarrow> datalog_query \<Rightarrow> datalog_query result" where
  "pq_substitute m q =
     and_then (case query_as_of q of
         Some (AsOfSlot n) \<Rightarrow> and_then (resolve_as_of_slot m n) (\<lambda>a. Ok (Some a)) | a \<Rightarrow> Ok a) (\<lambda>ao.
     and_then (case query_valid_at q of
         Some (VSlot n) \<Rightarrow> and_then (resolve_valid_at_slot m n) (\<lambda>a. Ok (Some a)) | a \<Rightarrow> Ok a) (\<lambda>va.
     and_then (collect_map (substitute_where_clause m) (where_clauses q)) (\<lambda>cs.
       Ok (q\<lparr>query_as_of := ao, query_valid_at := va, where_clauses := cs\<rparr>))))"

definition execute_prepared ::
    "eval_env \<Rightarrow> (nat \<Rightarrow> u64) \<Rightarrow> (fact_storage \<Rightarrow> u64) \<Rightarrow> bool \<Rightarrow> (string \<times> bind_value) list \<Rightarrow>
     fact_storage \<Rightarrow> rule_registry \<Rightarrow> prepared_query \<Rightarrow> query_result result" where
  "execute_prepared E now clock write_tx_active bs s rules pq =
     (if write_tx_active then Err (Internal 1)
      else let m = binding_map bs in
      if list_ex (\<lambda>n. m n = None) (slot_names pq) then Err (Internal 33)
      else and_then (pq_substitute m (template pq)) (\<lambda>q.
        fst (execute E now clock (QueryCmd q)
          (set_limits (fst (pq_limits pq)) (snd (pq_limits pq)) (executor_new_with_rules s rules)))))"

section \<open>What substitution does\<close>

text \<open>The places a slot can stand in, and the bind values each place accepts.\<close>

datatype slot_place = EntityPlace | ValuePlace | AsOfPlace | ValidAtPlace

fun accepts :: "slot_place \<Rightarrow> bind_value option \<Rightarrow> bool" where
  "accepts EntityPlace (Some (BEntity _)) = True"
| "accepts ValuePlace (Some (BVal _)) = True"
| "accepts AsOfPlace (Some (BTxCount _)) = True"
| "accepts AsOfPlace (Some (BTimestamp _)) = True"
| "accepts ValidAtPlace (Some (BTimestamp _)) = True"
| "accepts ValidAtPlace (Some BAnyValidTime) = True"
| "accepts _ _ = False"

fun clause_places :: "where_clause \<Rightarrow> (slot_place \<times> string) list" where
  "clause_places (PatternC p) = map (Pair EntityPlace) (slot_of (pat_entity p)) @ map (Pair ValuePlace) (slot_of (pat_value p))"
| "clause_places (Not cs) = concat (map clause_places cs)"
| "clause_places (NotJoin _ cs) = concat (map clause_places cs)"
| "clause_places (Or brs) = concat (map (\<lambda>b. concat (map clause_places b)) brs)"
| "clause_places (OrJoin _ brs) = concat (map (\<lambda>b. concat (map clause_places b)) brs)"
| "clause_places (ExprC e _) = map (Pair ValuePlace) (slots_from_expr e)"
| "clause_places (RuleInvocation _ args) = map (Pair ValuePlace) (concat (map slot_of args))"

definition query_places :: "datalog_query \<Rightarrow> (slot_place \<times> string) list" where
  "query_places q =
     (case query_as_of q of Some (AsOfSlot n) \<Rightarrow> [(AsOfPlace, n)] | _ \<Rightarrow> []) @
     (case query_valid_at q of Some (VSlot n) \<Rightarrow> [(ValidAtPlace, n)] | _ \<Rightarrow> []) @
     concat (map clause_places (where_clauses q))"

text \<open>The instance of a template: every slot replaced by the value bound to it.\<close>

definition fill_entity :: "bind_map \<Rightarrow> edn_value \<Rightarrow> edn_value" where
  "fill_entity m v = (case v of BindSlot n \<Rightarrow> (case m n of Some (BEntity u) \<Rightarrow> Uuid u | _ \<Rightarrow> v) | _ \<Rightarrow> v)"

definition fill_value :: "bind_map \<Rightarrow> edn_value \<Rightarrow> edn_value" where
  "fill_value m v = (case v of BindSlot n \<Rightarrow> (case m n of Some (BVal x) \<Rightarrow> Matcher.value_to_edn x | _ \<Rightarrow> v) | _ \<Rightarrow> v)"

fun fill_expr :: "bind_map \<Rightarrow> expr \<Rightarrow> expr" where
  "fill_expr m (Slot n) = (case m n of Some (BVal x) \<Rightarrow> Lit x | _ \<Rightarrow> Slot n)"
| "fill_expr m (BinOp op l r) = BinOp op (fill_expr m l) (fill_expr m r)"
| "fill_expr m (UnaryOp op a) = UnaryOp op (fill_expr m a)"
| "fill_expr m e = e"

fun fill_clause :: "bind_map \<Rightarrow> where_clause \<Rightarrow> where_clause" where
  "fill_clause m (PatternC p) = PatternC (p\<lparr>pat_entity := fill_entity m (pat_entity p), pat_value := fill_value m (pat_value p)\<rparr>)"
| "fill_clause m (Not cs) = Not (map (fill_clause m) cs)"
| "fill_clause m (NotJoin vs cs) = NotJoin vs (map (fill_clause m) cs)"
| "fill_clause m (Or brs) = Or (map (map (fill_clause m)) brs)"
| "fill_clause m (OrJoin vs brs) = OrJoin vs (map (map (fill_clause m)) brs)"
| "fill_clause m (ExprC e b) = ExprC (fill_expr m e) b"
| "fill_clause m (RuleInvocation p args) = RuleInvocation p (map (fill_value m) args)"

definition instance_of :: "bind_map \<Rightarrow> datalog_query \<Rightarrow> datalog_query" where
  "instance_of m q = q\<lparr>
     query_as_of := (case query_as_of q of
         Some (AsOfSlot n) \<Rightarrow> (case m n of Some (BTxCount c) \<Rightarrow> Some (Counter c)
           | Some (BTimestamp t) \<Rightarrow> Some (Timestamp t) | _ \<Rightarrow> query_as_of q)
       | a \<Rightarrow> a),
     query_valid_at := (case query_valid_at q of
         Some (VSlot n) \<Rightarrow> (case m n of Some (BTimestamp t) \<Rightarrow> Some (VTimestamp t)
           | Some BAnyValidTime \<Rightarrow> Some AnyValidTime | _ \<Rightarrow> query_valid_at q)
       | a \<Rightarrow> a),
     where_clauses := map (fill_clause m) (where_clauses q)\<rparr>"

definition suits :: "bind_map \<Rightarrow> (slot_place \<times> string) list \<Rightarrow> bool" where
  "suits m = list_all (\<lambda>(k, n). accepts k (m n))"

definition decided :: "bool \<Rightarrow> 'a \<Rightarrow> 'a result" where
  "decided b x = (if b then Ok x else Err (Internal 35))"

lemma accepts_iff:
  "accepts EntityPlace x \<longleftrightarrow> (\<exists>u. x = Some (BEntity u))"
  "accepts ValuePlace x \<longleftrightarrow> (\<exists>v. x = Some (BVal v))"
  "accepts AsOfPlace x \<longleftrightarrow> (\<exists>c. x = Some (BTxCount c)) \<or> (\<exists>t. x = Some (BTimestamp t))"
  "accepts ValidAtPlace x \<longleftrightarrow> x = Some BAnyValidTime \<or> (\<exists>t. x = Some (BTimestamp t))"
  by (cases x rule: option.exhaust; cases "the x"; simp)+

lemma suits_simps [simp]:
  "suits m []" "suits m ((k, n) # xs) \<longleftrightarrow> accepts k (m n) \<and> suits m xs" "suits m (xs @ ys) \<longleftrightarrow> suits m xs \<and> suits m ys"
  "suits m (concat xss) \<longleftrightarrow> (\<forall>xs \<in> set xss. suits m xs)"
  "suits m (map (Pair k) ns) \<longleftrightarrow> (\<forall>n \<in> set ns. accepts k (m n))"
  by (auto simp: suits_def list_all_iff)

lemma and_then_decided [simp]:
  "and_then (decided b x) (\<lambda>y. Ok (f y)) = decided b (f x)"
  "and_then (decided b x) (\<lambda>y. decided c (f y)) = decided (b \<and> c) (f x)"
  by (auto simp: decided_def)

lemma collect_map_decided:
  "(\<And>x. x \<in> set xs \<Longrightarrow> f x = decided (P x) (g x)) \<Longrightarrow> collect_map f xs = decided (\<forall>x \<in> set xs. P x) (map g xs)"
proof (induction xs)
  case (Cons x xs)
  then show ?case by (cases "P x") (auto simp: decided_def)
qed (simp add: decided_def)

lemma resolve_decided:
  assumes "m n \<noteq> None"
  shows "resolve_value_slot m n = decided (accepts ValuePlace (m n)) (fill_value m (BindSlot n))"
    and "resolve_entity_slot m n = decided (accepts EntityPlace (m n)) (fill_entity m (BindSlot n))"
    and "and_then (resolve_val_slot m n) (\<lambda>v. Ok (Lit v)) = decided (accepts ValuePlace (m n)) (fill_expr m (Slot n))"
  using assms by (cases "the (m n)"; auto simp: resolve_value_slot_def resolve_entity_slot_def resolve_val_slot_def decided_def
      fill_value_def fill_entity_def)+

lemma substitute_edn_decided:
  assumes "\<forall>n \<in> set (slot_of v). m n \<noteq> None"
  shows "substitute_edn_value m v = decided (\<forall>n \<in> set (slot_of v). accepts ValuePlace (m n)) (fill_value m v)"
proof (cases v)
  case (BindSlot n)
  with assms resolve_decided(1) [of m n] show ?thesis by (simp add: substitute_edn_value_def slot_of_def)
qed (simp_all add: substitute_edn_value_def slot_of_def fill_value_def decided_def)

lemma substitute_entity_decided:
  assumes "\<forall>n \<in> set (slot_of v). m n \<noteq> None"
  shows "(case v of BindSlot n \<Rightarrow> resolve_entity_slot m n | _ \<Rightarrow> Ok v) =
    decided (\<forall>n \<in> set (slot_of v). accepts EntityPlace (m n)) (fill_entity m v)"
proof (cases v)
  case (BindSlot n)
  with assms resolve_decided(2) [of m n] show ?thesis by (simp add: slot_of_def)
qed (simp_all add: slot_of_def fill_entity_def decided_def)

lemma substitute_expr_decided:
  "\<forall>n \<in> set (slots_from_expr e). m n \<noteq> None \<Longrightarrow>
    substitute_expr m e = decided (\<forall>n \<in> set (slots_from_expr e). accepts ValuePlace (m n)) (fill_expr m e)"
proof (induction e)
  case (BinOp op l r)
  then show ?case by (auto simp: decided_def)
next
  case (Slot n)
  then show ?case using resolve_decided(3) [of m n] by simp
qed (auto simp: decided_def)

lemma substitute_clause_decided:
  "\<forall>n \<in> set (slots_from_clause c). m n \<noteq> None \<Longrightarrow>
    substitute_where_clause m c = decided (suits m (clause_places c)) (fill_clause m c)"
proof (induction m c rule: substitute_where_clause.induct)
  case (1 m p)
  then show ?case
    using substitute_entity_decided [of "pat_entity p" m] substitute_edn_decided [of "pat_value p" m]
    by (simp add: pq_substitute_pattern_def substitute_edn_value_def)
next
  case (2 m cs)
  then show ?case using collect_map_decided [of cs "substitute_where_clause m"] by simp
next
  case (3 m vs cs)
  then show ?case using collect_map_decided [of cs "substitute_where_clause m"] by simp
next
  case (4 m brs)
  have "collect_map (substitute_where_clause m) b = decided (\<forall>c \<in> set b. suits m (clause_places c)) (map (fill_clause m) b)"
    if "b \<in> set brs" for b
    using 4 that by (intro collect_map_decided) auto
  then show ?case using collect_map_decided [of brs "collect_map (substitute_where_clause m)"] by simp
next
  case (5 m vs brs)
  have "collect_map (substitute_where_clause m) b = decided (\<forall>c \<in> set b. suits m (clause_places c)) (map (fill_clause m) b)"
    if "b \<in> set brs" for b
    using 5 that by (intro collect_map_decided) auto
  then show ?case using collect_map_decided [of brs "collect_map (substitute_where_clause m)"] by simp
next
  case (6 m e b)
  then show ?case using substitute_expr_decided [of e m] by simp
next
  case (7 m p args)
  then have "collect_map (substitute_edn_value m) args =
      decided (\<forall>a \<in> set args. \<forall>n \<in> set (slot_of a). accepts ValuePlace (m n)) (map (fill_value m) args)"
    by (intro collect_map_decided substitute_edn_decided) auto
  then show ?case by simp
qed

lemma fold_result_unit: "fold_result f xs () = Ok () \<longleftrightarrow> (\<forall>x \<in> set xs. f x () = Ok ())"
proof (induction xs)
  case (Cons x xs)
  then show ?case by (cases "f x ()") auto
qed simp

lemma filled_slots:
  "\<forall>n \<in> set (slot_of v). accepts EntityPlace (m n) \<Longrightarrow> slot_of (fill_entity m v) = []"
  "\<forall>n \<in> set (slot_of v). accepts ValuePlace (m n) \<Longrightarrow> slot_of (fill_value m v) = []"
proof -
  have "slot_of (Matcher.value_to_edn x) = []" for x by (cases x) (simp_all add: slot_of_def)
  then show "\<forall>n \<in> set (slot_of v). accepts EntityPlace (m n) \<Longrightarrow> slot_of (fill_entity m v) = []"
    and "\<forall>n \<in> set (slot_of v). accepts ValuePlace (m n) \<Longrightarrow> slot_of (fill_value m v) = []"
    by (cases v; auto simp: slot_of_def fill_entity_def fill_value_def accepts_iff)+
qed

lemma filled_expr: "\<forall>n \<in> set (slots_from_expr e). accepts ValuePlace (m n) \<Longrightarrow> slots_from_expr (fill_expr m e) = []"
  by (induction e) (auto simp: accepts_iff)

lemma filled_clause:
  "attr_slot_check c = Ok () \<Longrightarrow> suits m (clause_places c) \<Longrightarrow> slots_from_clause (fill_clause m c) = []"
proof (induction m c rule: fill_clause.induct)
  case (1 m p)
  have "(case pat_attribute p of Real v \<Rightarrow> slot_of v | Pseudo _ \<Rightarrow> []) = []"
    using 1(1) by (auto simp: slot_of_def split: attribute_spec.splits edn_value.splits)
  with 1(2) show ?case by (simp add: filled_slots)
next
  case (6 m e b)
  then show ?case by (simp add: filled_expr)
next
  case (7 m p args)
  then show ?case by (auto simp: filled_slots)
qed (auto simp: fold_result_unit)

lemma set_slot_names: "set (collect_slot_names q) = (case query_as_of q of Some (AsOfSlot n) \<Rightarrow> {n} | _ \<Rightarrow> {}) \<union>
    (case query_valid_at q of Some (VSlot n) \<Rightarrow> {n} | _ \<Rightarrow> {}) \<union> (\<Union>c \<in> set (where_clauses q). set (slots_from_clause c))"
  by (auto simp: collect_slot_names_def split: option.splits as_of.splits valid_at.splits)

lemma substitute_query_decided:
  assumes "\<forall>n \<in> set (collect_slot_names q). m n \<noteq> None"
  shows "pq_substitute m q = decided (suits m (query_places q)) (instance_of m q)"
proof -
  have cs: "collect_map (substitute_where_clause m) (where_clauses q) =
      decided (\<forall>c \<in> set (where_clauses q). suits m (clause_places c)) (map (fill_clause m) (where_clauses q))"
    using assms by (intro collect_map_decided substitute_clause_decided) (auto simp: set_slot_names)
  have ao: "(case query_as_of q of Some (AsOfSlot n) \<Rightarrow> and_then (resolve_as_of_slot m n) (\<lambda>a. Ok (Some a)) | a \<Rightarrow> Ok a) =
      decided (case query_as_of q of Some (AsOfSlot n) \<Rightarrow> accepts AsOfPlace (m n) | _ \<Rightarrow> True) (query_as_of (instance_of m q))"
    using assms by (auto simp: set_slot_names resolve_as_of_slot_def decided_def instance_of_def
        split: option.splits as_of.splits bind_value.splits)
  have va: "(case query_valid_at q of Some (VSlot n) \<Rightarrow> and_then (resolve_valid_at_slot m n) (\<lambda>a. Ok (Some a)) | a \<Rightarrow> Ok a) =
      decided (case query_valid_at q of Some (VSlot n) \<Rightarrow> accepts ValidAtPlace (m n) | _ \<Rightarrow> True) (query_valid_at (instance_of m q))"
    using assms by (auto simp: set_slot_names resolve_valid_at_slot_def decided_def instance_of_def
        split: option.splits valid_at.splits bind_value.splits)
  show ?thesis
    unfolding pq_substitute_def ao va cs and_then_decided
    by (auto simp: decided_def query_places_def instance_of_def split: option.splits as_of.splits valid_at.splits)
qed

lemma instance_slot_free:
  assumes suits: "suits m (query_places q)" and attrs: "\<forall>c \<in> set (where_clauses q). attr_slot_check c = Ok ()"
  shows "reject_unbound_slots (instance_of m q) = Ok ()"
proof -
  have "slots_from_clause (fill_clause m c) = []" if "c \<in> set (where_clauses q)" for c
    using that attrs suits by (intro filled_clause) (auto simp: query_places_def)
  then have "concat (map slots_from_clause (where_clauses (instance_of m q))) = []" by (simp add: instance_of_def)
  moreover have "(case query_as_of (instance_of m q) of Some (AsOfSlot n) \<Rightarrow> [n] | _ \<Rightarrow> []) = []"
    using suits by (cases "query_as_of q"; cases "the (query_as_of q)") (auto simp: instance_of_def query_places_def accepts_iff)
  moreover have "(case query_valid_at (instance_of m q) of Some (VSlot n) \<Rightarrow> [n] | _ \<Rightarrow> []) = []"
    using suits by (cases "query_valid_at q"; cases "the (query_valid_at q)") (auto simp: instance_of_def query_places_def accepts_iff)
  ultimately have "collect_slot_names (instance_of m q) = []"
    unfolding collect_slot_names_def by (simp only: append_Nil remdups.simps sort_key_simps)
  then show ?thesis by (simp add: reject_unbound_slots_def)
qed

text \<open>
  C12. Prepared queries. Executing a template outside a write transaction fails with
  \<^verbatim>\<open>INT-033\<close> exactly when some slot of it has no bind value, and else with \<^verbatim>\<open>INT-035\<close> exactly
  when a value does not fit a place its slot stands in; otherwise it runs, under the limits
  it was prepared with, the query in which every slot is replaced by its value and nothing
  else is changed (a literal \<^verbatim>\<open>:as-of\<close> or \<^verbatim>\<open>:valid-at\<close> stays), and no slot is left in it, so it is
  one the unprepared path accepts too.
\<close>

theorem prepared_runs_instance:
  assumes "prepare_query q limits = Ok pq"
  shows "execute_prepared E now clock False bs s rules pq =
      (if \<exists>n \<in> set (collect_slot_names q). binding_map bs n = None then Err (Internal 33)
       else if \<not> suits (binding_map bs) (query_places q) then Err (Internal 35)
       else fst (execute E now clock (QueryCmd (instance_of (binding_map bs) q))
         (set_limits (fst limits) (snd limits) (executor_new_with_rules s rules)))) \<and>
    (suits (binding_map bs) (query_places q) \<longrightarrow> reject_unbound_slots (instance_of (binding_map bs) q) = Ok ())"
proof -
  have pq: "pq = \<lparr>template = q, slot_names = collect_slot_names q, pq_limits = limits\<rparr>"
    and attrs: "\<forall>c \<in> set (where_clauses q). attr_slot_check c = Ok ()"
    using assms by (auto simp: prepare_query_def validate_no_attribute_slots_def fold_result_unit and_then_eq_Inr)
  show ?thesis
    using substitute_query_decided [of q "binding_map bs"] instance_slot_free [OF _ attrs]
    by (auto simp: execute_prepared_def pq list_ex_iff decided_def Let_def)
qed

definition age_template :: datalog_query where
  "age_template = (query_new [FVariable ''?e''] [PatternC (pattern_new (Symbol ''?e'') (Keyword '':age'') (BindSlot ''age''))])
     \<lparr>query_valid_at := Some (VSlot ''at'')\<rparr>"

theorem prepared_runs_instance_witness:
  "\<exists>pq. prepare_query age_template (10, 10) = Ok pq \<and> (\<forall>E now clock s rules.
    execute_prepared E now clock False [(''at'', BTimestamp (I64 7))] s rules pq = Err (Internal 33) \<and>
    execute_prepared E now clock False [(''at'', BTimestamp (I64 7)), (''age'', BEntity 1)] s rules pq = Err (Internal 35) \<and>
    execute_prepared E now clock False [(''at'', BTimestamp (I64 7)), (''age'', BVal (VInteger (I64 30)))] s rules pq =
      fst (execute E now clock (QueryCmd ((query_new [FVariable ''?e'']
          [PatternC (pattern_new (Symbol ''?e'') (Keyword '':age'') (EInteger (I64 30)))])\<lparr>query_valid_at := Some (VTimestamp (I64 7))\<rparr>))
        (set_limits 10 10 (executor_new_with_rules s rules))))"
proof -
  let ?pq = "\<lparr>template = age_template, slot_names = [''age'', ''at''], pq_limits = (10, 10)\<rparr>"
  have names: "collect_slot_names age_template = [''age'', ''at'']"
    by (simp add: collect_slot_names_def age_template_def query_new_def pattern_new_def slot_of_def)
  then have pq: "prepare_query age_template (10, 10) = Ok ?pq"
    by (simp add: prepare_query_def validate_no_attribute_slots_def age_template_def query_new_def pattern_new_def)
  note run = prepared_runs_instance [OF pq, THEN conjunct1]
  have inst: "instance_of (binding_map [(''at'', BTimestamp (I64 7)), (''age'', BVal (VInteger (I64 30)))]) age_template =
      (query_new [FVariable ''?e''] [PatternC (pattern_new (Symbol ''?e'') (Keyword '':age'') (EInteger (I64 30)))])
        \<lparr>query_valid_at := Some (VTimestamp (I64 7))\<rparr>"
    by (simp add: binding_map_def age_template_def query_new_def pattern_new_def instance_of_def fill_entity_def fill_value_def)
  have places: "query_places age_template = [(ValidAtPlace, ''at''), (ValuePlace, ''age'')]"
    by (simp add: query_places_def age_template_def query_new_def pattern_new_def slot_of_def)
  show ?thesis
    using pq by (intro exI [of _ ?pq]) (simp only: run names places inst, simp add: binding_map_def)
qed

end
