(* ===== verification/Tokenizer.thy ===== *)
theory Tokenizer
  imports Prepared
begin

text \<open>
  The tokenizer of \<^verbatim>\<open>src/query/datalog/parser.rs\<close>. The input is the list of code points that
  \<^verbatim>\<open>chars()\<close> yields; the strings in tokens are UTF-8, as everywhere. What the standard library
  knows of characters beyond ASCII is a table, an argument of the definitions, like the crates
  \<^verbatim>\<open>uuid\<close>, \<^verbatim>\<open>regex_lite\<close> and \<^verbatim>\<open>chrono\<close>.
\<close>

section \<open>Characters\<close>

record parse_env =
  wide_alphabetic :: "nat \<Rightarrow> bool"
  wide_numeric :: "nat \<Rightarrow> bool"
  pe_uuid :: uuid_ops
  regex_valid :: "string \<Rightarrow> bool"
  chrono_datetime :: "string \<Rightarrow> i64 option"
  chrono_date :: "string \<Rightarrow> i64 option"

abbreviation ch :: "char \<Rightarrow> nat" where "ch \<equiv> of_char"

definition utf8 :: "nat \<Rightarrow> string" where
  "utf8 c = map char_of
     (if c < 0x80 then [c]
      else if c < 0x800 then [0xC0 + c div 64, 0x80 + c mod 64]
      else if c < 0x10000 then [0xE0 + c div 4096, 0x80 + c div 64 mod 64, 0x80 + c mod 64]
      else [0xF0 + c div 262144, 0x80 + c div 4096 mod 64, 0x80 + c div 64 mod 64, 0x80 + c mod 64])"

definition char_is_numeric :: "parse_env \<Rightarrow> nat \<Rightarrow> bool" where
  "char_is_numeric E c \<longleftrightarrow> (if c < 128 then ch CHR ''0'' \<le> c \<and> c \<le> ch CHR ''9'' else wide_numeric E c)"

definition char_is_alphabetic :: "parse_env \<Rightarrow> nat \<Rightarrow> bool" where
  "char_is_alphabetic E c \<longleftrightarrow> (if c < 128 then ch CHR ''a'' \<le> c \<and> c \<le> ch CHR ''z'' \<or> ch CHR ''A'' \<le> c \<and> c \<le> ch CHR ''Z''
     else wide_alphabetic E c)"

definition char_is_alphanumeric :: "parse_env \<Rightarrow> nat \<Rightarrow> bool" where
  "char_is_alphanumeric E c \<longleftrightarrow> char_is_alphabetic E c \<or> char_is_numeric E c"

definition one_of :: "string \<Rightarrow> nat \<Rightarrow> bool" where
  "one_of s c \<longleftrightarrow> list_ex (\<lambda>d. ch d = c) s"

definition MAX_STRING_LENGTH :: nat where "MAX_STRING_LENGTH = 1024 * 1024"
definition MAX_KEYWORD_LENGTH :: nat where "MAX_KEYWORD_LENGTH = 1024"
definition MAX_SYMBOL_LENGTH :: nat where "MAX_SYMBOL_LENGTH = 1024"

section \<open>Tokens\<close>

datatype token =
    LeftParen | RightParen | LeftBracket | RightBracket | LeftBrace | RightBrace
  | TKeyword string | TSymbol string | TString string | TInteger i64 | TFloat f64 | TBoolean bool
  | TaggedLiteral string | TNil | TBindSlot string

text \<open>A maximal run of characters, under a length limit with its own error.\<close>

fun take_chars :: "(nat \<Rightarrow> bool) \<Rightarrow> nat \<Rightarrow> error_code \<Rightarrow> string \<Rightarrow> nat list \<Rightarrow> (string \<times> nat list) result" where
  "take_chars P limit e acc [] = Ok (acc, [])"
| "take_chars P limit e acc (c # cs) =
     (if \<not> P c then Ok (acc, c # cs)
      else if limit \<le> length acc then Err e
      else take_chars P limit e (acc @ utf8 c) cs)"

definition unescape :: "nat \<Rightarrow> nat" where
  "unescape c = (if c = ch CHR ''n'' then 10 else if c = ch CHR ''t'' then 9 else if c = ch CHR ''r'' then 13 else c)"

fun string_body :: "string \<Rightarrow> nat list \<Rightarrow> (string \<times> nat list) result" where
  "string_body acc [] = Ok (acc, [])"
| "string_body acc (c # cs) =
     (if c = ch CHR 0x22 then Ok (acc, cs)
      else if c = ch CHR 0x5C then
        (case cs of [] \<Rightarrow> Ok (acc, []) | e # cs' \<Rightarrow> string_body (acc @ utf8 (unescape e)) cs')
      else if MAX_STRING_LENGTH \<le> length acc then Err (Prs 7)
      else string_body (acc @ utf8 c) cs)"

fun parse_number :: "parse_env \<Rightarrow> bool \<Rightarrow> nat list \<Rightarrow> nat list \<Rightarrow> bool \<times> nat list \<times> nat list" where
  "parse_number E fl num [] = (fl, num, [])"
| "parse_number E fl num (c # cs) =
     (if char_is_numeric E c then parse_number E fl (num @ [c]) cs
      else if c = ch CHR ''.'' \<and> \<not> fl then parse_number E True (num @ [c]) cs
      else (fl, num, c # cs))"

text \<open>\<^verbatim>\<open>str::parse\<close> for \<^verbatim>\<open>i64\<close> and, without exponents, \<^verbatim>\<open>f64\<close>: ASCII digits only, correctly rounded.\<close>

definition is_digit :: "nat \<Rightarrow> bool" where
  "is_digit c \<longleftrightarrow> ch CHR ''0'' \<le> c \<and> c \<le> ch CHR ''9''"

definition digits_val :: "nat list \<Rightarrow> nat" where
  "digits_val cs = foldl (\<lambda>n c. 10 * n + (c - ch CHR ''0'')) 0 cs"

definition i64_from_str :: "bool \<Rightarrow> nat list \<Rightarrow> i64 option" where
  "i64_from_str neg cs =
     (let k = (if neg then - int (digits_val cs) else int (digits_val cs)) in
      if cs \<noteq> [] \<and> list_all is_digit cs \<and> - (2 ^ 63) \<le> k \<and> k < 2 ^ 63 then Some (i64_of_int k) else None)"

definition f64_from_str :: "bool \<Rightarrow> nat list \<Rightarrow> f64 option" where
  "f64_from_str neg cs =
     (let whole = takeWhile (\<lambda>c. c \<noteq> ch CHR ''.'') cs;
          frac = drop 1 (dropWhile (\<lambda>c. c \<noteq> ch CHR ''.'') cs);
          n = digits_val (whole @ frac)
      in if whole @ frac \<noteq> [] \<and> list_all is_digit (whole @ frac)
         then Some (if n = 0 then f64_zero neg else f64_round neg (int n) (10 ^ length frac) 0)
         else None)"

definition number_token :: "parse_env \<Rightarrow> bool \<Rightarrow> nat list \<Rightarrow> (token \<times> nat list) result" where
  "number_token E neg cs = (case parse_number E False [] cs of (fl, num, rest) \<Rightarrow>
     if fl then (case f64_from_str neg num of Some f \<Rightarrow> Ok (TFloat f, rest) | None \<Rightarrow> Err (Internal 7))
     else (case i64_from_str neg num of Some i \<Rightarrow> Ok (TInteger i, rest) | None \<Rightarrow> Err (Internal 8)))"

definition keyword_char :: "parse_env \<Rightarrow> nat \<Rightarrow> bool" where
  "keyword_char E c \<longleftrightarrow> char_is_alphanumeric E c \<or> one_of ''/-_?'' c"

definition symbol_char :: "parse_env \<Rightarrow> nat \<Rightarrow> bool" where
  "symbol_char E c \<longleftrightarrow> char_is_alphanumeric E c \<or> one_of ''?_-/'' c"

definition parse_symbol :: "parse_env \<Rightarrow> string \<Rightarrow> nat list \<Rightarrow> (string \<times> nat list) result" where
  "parse_symbol E = take_chars (symbol_char E) MAX_SYMBOL_LENGTH (Internal 9)"

definition symbol_token :: "string \<Rightarrow> token" where
  "symbol_token s = (if s = ''true'' then TBoolean True else if s = ''false'' then TBoolean False
     else if s = ''nil'' then TNil else TSymbol s)"

text \<open>One round of the loop on a character and what follows it: a token or nothing, and the rest.\<close>

definition lex_minus :: "parse_env \<Rightarrow> nat list \<Rightarrow> (token \<times> nat list) result" where
  "lex_minus E cs = (case cs of
      [] \<Rightarrow> Ok (TSymbol ''-'', [])
    | c # _ \<Rightarrow> if char_is_numeric E c then number_token E True cs
        else and_then (parse_symbol E ''-'' cs) (\<lambda>(s, rest). Ok (TSymbol s, rest)))"

definition lex_slot :: "parse_env \<Rightarrow> nat list \<Rightarrow> (token \<times> nat list) result" where
  "lex_slot E cs = and_then (take_chars (\<lambda>c. char_is_alphanumeric E c \<or> one_of ''_-'' c) MAX_SYMBOL_LENGTH (Prs 74) [] cs)
     (\<lambda>(name, rest). if name = [] then Err (Internal 19) else Ok (TBindSlot name, rest))"

definition bracket_token :: "nat \<Rightarrow> token option" where
  "bracket_token c = map_of [(ch CHR ''('', LeftParen), (ch CHR '')'', RightParen), (ch CHR ''['', LeftBracket),
     (ch CHR '']'', RightBracket), (ch CHR ''{'', LeftBrace), (ch CHR ''}'', RightBrace)] c"

definition lex_step :: "parse_env \<Rightarrow> nat \<Rightarrow> nat list \<Rightarrow> (token list \<times> nat list) result" where
  "lex_step E c cs =
     (let one = (\<lambda>r. and_then r (\<lambda>(t, rest). Ok ([t], rest))) in
      if c \<in> {32, 9, 10, 13, ch CHR '',''} then Ok ([], cs)
      else case bracket_token c of Some t \<Rightarrow> Ok ([t], cs) | None \<Rightarrow>
      if c = ch CHR 0x22 then and_then (string_body [] cs) (\<lambda>(s, rest). Ok ([TString s], rest))
      else if c = ch CHR '':'' then
        and_then (take_chars (keyword_char E) MAX_KEYWORD_LENGTH (Prs 8) '':'' cs) (\<lambda>(k, rest). Ok ([TKeyword k], rest))
      else if c = ch CHR ''#'' then
        and_then (take_chars (\<lambda>c. char_is_alphanumeric E c \<or> one_of ''-'' c) MAX_SYMBOL_LENGTH (Prs 9) [] cs)
          (\<lambda>(t, rest). Ok ([TaggedLiteral t], rest))
      else if c = ch CHR ''-'' then one (lex_minus E cs)
      else if is_digit c then one (number_token E False (c # cs))
      else if char_is_alphabetic E c \<or> one_of ''?_'' c then
        and_then (parse_symbol E [] (c # cs)) (\<lambda>(s, rest). Ok ([symbol_token s], rest))
      else if one_of ''<>=+*/'' c then
        (if one_of ''<>'' c \<and> take 1 cs = [ch CHR ''='']
         then Ok ([TSymbol (utf8 c @ ''='')], drop 1 cs) else Ok ([TSymbol (utf8 c)], cs))
      else if c = ch CHR ''!'' then
        (if take 1 cs = [ch CHR ''=''] then Ok ([TSymbol ''!=''], drop 1 cs) else Err (Prs 2))
      else if c = ch CHR '';'' then Ok ([], dropWhile (\<lambda>d. d \<noteq> 10) cs)
      else if c = ch CHR ''$'' then one (lex_slot E cs)
      else Err (Prs 2))"

lemma take_chars_length: "take_chars P limit e acc cs = Ok (s, rest) \<Longrightarrow> length rest \<le> length cs"
  by (induction P limit e acc cs rule: take_chars.induct) (auto split: if_splits)

lemma string_body_length: "string_body acc cs = Ok (s, rest) \<Longrightarrow> length rest \<le> length cs"
  by (induction acc cs rule: string_body.induct) (auto split: if_splits list.splits)

lemma parse_number_length: "parse_number E fl num cs = (fl', num', rest) \<Longrightarrow> length rest \<le> length cs"
  by (induction E fl num cs rule: parse_number.induct) (auto split: if_splits)

lemma number_token_length: "number_token E neg cs = Ok (t, rest) \<Longrightarrow> length rest \<le> length cs"
  by (auto simp: number_token_def dest: parse_number_length split: prod.splits if_splits option.splits)

lemma lex_minus_length: "lex_minus E cs = Ok (t, rest) \<Longrightarrow> length rest \<le> length cs"
  by (auto simp: lex_minus_def parse_symbol_def and_then_eq_Inr dest: take_chars_length number_token_length
      split: list.splits if_splits)

lemma lex_step_length:
  assumes "lex_step E c cs = Ok (ts, rest)"
  shows "length rest \<le> length cs"
proof -
  have num: "is_digit c \<Longrightarrow> number_token E False (c # cs) = Ok (t, rest) \<Longrightarrow> length rest \<le> length cs" for t
  proof -
    assume "is_digit c" and n: "number_token E False (c # cs) = Ok (t, rest)"
    then have "char_is_numeric E c" by (auto simp: is_digit_def char_is_numeric_def)
    with n show ?thesis by (auto simp: number_token_def dest: parse_number_length split: prod.splits if_splits option.splits)
  qed
  have sym: "parse_symbol E [] (c # cs) = Ok (s, rest) \<Longrightarrow> char_is_alphabetic E c \<or> one_of ''?_'' c \<Longrightarrow> length rest \<le> length cs" for s
    by (auto simp: parse_symbol_def symbol_char_def char_is_alphanumeric_def one_of_def dest: take_chars_length split: if_splits)
  show ?thesis using assms unfolding lex_step_def Let_def
    by (auto simp: and_then_eq_Inr lex_slot_def dest: take_chars_length string_body_length lex_minus_length num sym
        split: if_splits option.splits intro: length_dropWhile_le)
qed

function tokenize :: "parse_env \<Rightarrow> nat list \<Rightarrow> token list result" where
  "tokenize E [] = Ok []"
| "tokenize E (c # cs) = and_then (lex_step E c cs) (\<lambda>(ts, rest). and_then (tokenize E rest) (\<lambda>us. Ok (ts @ us)))"
  by pat_completeness auto
termination
  by (relation "measure (\<lambda>(_, cs). length cs)") (auto dest!: lex_step_length)

end
