(* ===== verification/Edn_Parser.thy ===== *)
theory Edn_Parser
  imports Tokenizer
begin

text \<open>
  The recursive-descent parser for EDN values of \<^verbatim>\<open>src/query/datalog/parser.rs\<close>. The position in
  the token vector is the list of tokens that are left; \<open>d\<close> is the field \<^verbatim>\<open>depth\<close>.
\<close>

section \<open>The parser\<close>

definition MAX_RECURSION_DEPTH :: nat where "MAX_RECURSION_DEPTH = 100"

definition uuid_token :: "parse_env \<Rightarrow> string \<Rightarrow> token list \<Rightarrow> (edn_value \<times> token list) result" where
  "uuid_token E tag ts =
     (if tag \<noteq> ''uuid'' then Err (Prs 73)
      else case ts of
        TString s # ts' \<Rightarrow> (case parse_str (pe_uuid E) s of Some u \<Rightarrow> Ok (Uuid u, ts') | None \<Rightarrow> Err (Prs 72))
      | _ \<Rightarrow> Err (Prs 71))"

text \<open>
  \<open>parse_elements\<close> is the loop of \<^verbatim>\<open>parse_list\<close> and \<^verbatim>\<open>parse_vector\<close>, with the closing token and
  the error for a missing one; \<open>parse_pairs\<close> is the loop of \<^verbatim>\<open>parse_map\<close>.
\<close>

function (sequential) parse_value :: "parse_env \<Rightarrow> nat \<Rightarrow> token list \<Rightarrow> (edn_value \<times> token list) result"
  and parse_elements :: "parse_env \<Rightarrow> nat \<Rightarrow> token \<Rightarrow> error_code \<Rightarrow> token list \<Rightarrow> (edn_value list \<times> token list) result"
  and parse_pairs :: "parse_env \<Rightarrow> nat \<Rightarrow> token list \<Rightarrow> ((edn_value \<times> edn_value) list \<times> token list) result" where
  "parse_value E d ts =
     (if MAX_RECURSION_DEPTH < d + 1 then Err (Internal 10)
      else case ts of
        [] \<Rightarrow> Err (Prs 1)
      | t # ts' \<Rightarrow> (case t of
          LeftParen \<Rightarrow> and_then (parse_elements E (d + 1) RightParen (Prs 5) ts') (\<lambda>(vs, rest). Ok (List vs, rest))
        | LeftBracket \<Rightarrow> and_then (parse_elements E (d + 1) RightBracket (Prs 4) ts') (\<lambda>(vs, rest). Ok (Vector vs, rest))
        | LeftBrace \<Rightarrow> and_then (parse_pairs E (d + 1) ts') (\<lambda>(ps, rest). Ok (Map ps, rest))
        | TKeyword k \<Rightarrow> Ok (Keyword k, ts')
        | TSymbol s \<Rightarrow> Ok (Symbol s, ts')
        | TString s \<Rightarrow> Ok (EString s, ts')
        | TInteger i \<Rightarrow> Ok (EInteger i, ts')
        | TFloat f \<Rightarrow> Ok (EFloat f, ts')
        | TBoolean b \<Rightarrow> Ok (EBoolean b, ts')
        | TaggedLiteral tag \<Rightarrow> uuid_token E tag ts'
        | TNil \<Rightarrow> Ok (Nil_edn, ts')
        | TBindSlot n \<Rightarrow> Ok (BindSlot n, ts')
        | _ \<Rightarrow> Err (Prs 3)))"
| "parse_elements E d closing e [] = Err e"
| "parse_elements E d closing e (t # ts) =
     (if t = closing then Ok ([], ts)
      else and_then (parse_value E d (t # ts)) (\<lambda>(v, rest).
        and_then (parse_elements E d closing e rest) (\<lambda>(vs, rest'). Ok (v # vs, rest'))))"
| "parse_pairs E d [] = Err (Prs 6)"
| "parse_pairs E d (t # ts) =
     (if t = RightBrace then Ok ([], ts)
      else and_then (parse_value E d (t # ts)) (\<lambda>(k, rest).
        and_then (parse_value E d rest) (\<lambda>(v, rest').
        and_then (parse_pairs E d rest') (\<lambda>(ps, rest''). Ok ((k, v) # ps, rest'')))))"
  by pat_completeness auto

lemma uuid_token_shorter: "uuid_token E tag ts = Ok (v, rest) \<Longrightarrow> length rest < length ts"
  by (auto simp: uuid_token_def split: if_splits list.splits token.splits option.splits)

lemma parse_shorter:
  "parse_value_parse_elements_parse_pairs_dom (Inl (E, d, ts)) \<Longrightarrow> parse_value E d ts = Ok (v, rest) \<Longrightarrow> length rest < length ts"
  "parse_value_parse_elements_parse_pairs_dom (Inr (Inl (E, d, c, e, ts))) \<Longrightarrow>
    parse_elements E d c e ts = Ok (vs, rest) \<Longrightarrow> length rest < length ts"
  "parse_value_parse_elements_parse_pairs_dom (Inr (Inr (E, d, ts))) \<Longrightarrow>
    parse_pairs E d ts = Ok (ps, rest) \<Longrightarrow> length rest < length ts"
proof (induction E d ts and E d c e ts and E d ts arbitrary: v rest and vs rest and ps rest
    rule: parse_value_parse_elements_parse_pairs.pinduct)
  case (1 E d ts)
  show ?case
  proof (cases ts)
    case Nil
    with 1 show ?thesis by (simp add: parse_value.psimps split: if_splits)
  next
    case (Cons t ts')
    with 1 show ?thesis
      by (cases t) (auto simp: parse_value.psimps and_then_eq_Inr less_Suc_eq dest: uuid_token_shorter split: if_splits)
  qed
next
  case (3 E d c e t ts)
  show ?case
  proof (cases "t = c")
    case False
    with 3 obtain v rest1 vs' where p: "parse_value E d (t # ts) = Ok (v, rest1)" "parse_elements E d c e rest1 = Ok (vs', rest)"
      by (auto simp: parse_elements.psimps and_then_eq_Inr)
    have "length rest1 < length (t # ts)" using False p(1) by (rule "3.IH"(1))
    moreover have "length rest < length rest1" using "3.IH"(2) [OF False p(1) refl p(2)] .
    ultimately show ?thesis by simp
  qed (use 3 in \<open>simp add: parse_elements.psimps\<close>)
next
  case (5 E d t ts)
  show ?case
  proof (cases "t = RightBrace")
    case False
    with 5 obtain k rest1 v rest2 ps' where p: "parse_value E d (t # ts) = Ok (k, rest1)" "parse_value E d rest1 = Ok (v, rest2)"
      "parse_pairs E d rest2 = Ok (ps', rest)"
      by (auto simp: parse_pairs.psimps and_then_eq_Inr)
    have "length rest1 < length (t # ts)" using False p(1) by (rule "5.IH"(1))
    moreover have "length rest2 < length rest1" using "5.IH"(2) [OF False p(1) refl p(2)] .
    moreover have "length rest < length rest2" using "5.IH"(3) [OF False p(1) refl p(2) refl p(3)] .
    ultimately show ?thesis by simp
  qed (use 5 in \<open>simp add: parse_pairs.psimps\<close>)
qed (simp_all add: parse_elements.psimps parse_pairs.psimps)

termination parse_value
  by (relation "measure (\<lambda>x. case x of Inl (E, d, ts) \<Rightarrow> 2 * length ts
      | Inr (Inl (E, d, c, e, ts)) \<Rightarrow> 2 * length ts + 1 | Inr (Inr (E, d, ts)) \<Rightarrow> 2 * length ts + 1)")
    (auto dest!: parse_shorter)

declare parse_value.simps [simp del]

text \<open>\<^verbatim>\<open>parse_edn\<close> after the tokenizer, and the whole of it.\<close>

definition parse_tokens :: "parse_env \<Rightarrow> token list \<Rightarrow> edn_value result" where
  "parse_tokens E ts = and_then (parse_value E 0 ts) (\<lambda>(v, rest). if rest = [] then Ok v else Err (Prs 77))"

definition parse_edn :: "parse_env \<Rightarrow> nat list \<Rightarrow> edn_value result" where
  "parse_edn E cs = and_then (tokenize E cs) (parse_tokens E)"

section \<open>The language it accepts\<close>

text \<open>The tokens of a value, and how deep it is nested.\<close>

fun atom_tokens :: "parse_env \<Rightarrow> edn_value \<Rightarrow> token list \<Rightarrow> bool" where
  "atom_tokens E (Keyword k) ts \<longleftrightarrow> ts = [TKeyword k]"
| "atom_tokens E (Symbol s) ts \<longleftrightarrow> ts = [TSymbol s]"
| "atom_tokens E (EString s) ts \<longleftrightarrow> ts = [TString s]"
| "atom_tokens E (EInteger i) ts \<longleftrightarrow> ts = [TInteger i]"
| "atom_tokens E (EFloat f) ts \<longleftrightarrow> ts = [TFloat f]"
| "atom_tokens E (EBoolean b) ts \<longleftrightarrow> ts = [TBoolean b]"
| "atom_tokens E (Uuid u) ts \<longleftrightarrow> (\<exists>s. ts = [TaggedLiteral ''uuid'', TString s] \<and> parse_str (pe_uuid E) s = Some u)"
| "atom_tokens E Nil_edn ts \<longleftrightarrow> ts = [TNil]"
| "atom_tokens E (BindSlot n) ts \<longleftrightarrow> ts = [TBindSlot n]"
| "atom_tokens E _ ts \<longleftrightarrow> False"

inductive derives :: "parse_env \<Rightarrow> edn_value \<Rightarrow> token list \<Rightarrow> bool" for E where
  atom: "atom_tokens E v ts \<Longrightarrow> derives E v ts"
| list: "list_all2 (derives E) vs tss \<Longrightarrow> derives E (List vs) (LeftParen # concat tss @ [RightParen])"
| vector: "list_all2 (derives E) vs tss \<Longrightarrow> derives E (Vector vs) (LeftBracket # concat tss @ [RightBracket])"
| map: "list_all2 (derives E) (map fst ps) kss \<Longrightarrow> list_all2 (derives E) (map snd ps) vss \<Longrightarrow>
    derives E (Map ps) (LeftBrace # concat (map2 (@) kss vss) @ [RightBrace])"

fun nesting :: "edn_value \<Rightarrow> nat" where
  "nesting (List vs) = Suc (fold max (map nesting vs) 0)"
| "nesting (Vector vs) = Suc (fold max (map nesting vs) 0)"
| "nesting (Map ps) = Suc (max (fold max (map (\<lambda>(k, v). nesting k) ps) 0) (fold max (map (\<lambda>(k, v). nesting v) ps) 0))"
| "nesting _ = 1"

lemma fold_max_le: "fold max ns (a :: nat) \<le> m \<longleftrightarrow> a \<le> m \<and> (\<forall>n \<in> set ns. n \<le> m)"
  by (induction ns arbitrary: a) auto

lemma nesting_le:
  "d + nesting (List vs) \<le> m \<longleftrightarrow> Suc d \<le> m \<and> (\<forall>v \<in> set vs. Suc d + nesting v \<le> m)"
  "d + nesting (Vector vs) \<le> m \<longleftrightarrow> Suc d \<le> m \<and> (\<forall>v \<in> set vs. Suc d + nesting v \<le> m)"
  "d + nesting (Map ps) \<le> m \<longleftrightarrow> Suc d \<le> m \<and> (\<forall>(k, v) \<in> set ps. Suc d + nesting k \<le> m \<and> Suc d + nesting v \<le> m)"
proof -
  have *: "d + Suc (fold max ns 0) \<le> m \<longleftrightarrow> Suc d \<le> m \<and> (\<forall>n \<in> set ns. Suc d + n \<le> m)" for ns
  proof -
    have "d + Suc (fold max ns 0) \<le> m \<longleftrightarrow> Suc d \<le> m \<and> fold max ns 0 \<le> m - Suc d" by linarith
    also have "\<dots> \<longleftrightarrow> Suc d \<le> m \<and> (\<forall>n \<in> set ns. n \<le> m - Suc d)" by (simp add: fold_max_le)
    also have "\<dots> \<longleftrightarrow> Suc d \<le> m \<and> (\<forall>n \<in> set ns. Suc d + n \<le> m)" by (metis Nat.le_diff_conv2 add.commute)
    finally show ?thesis .
  qed
  show "d + nesting (List vs) \<le> m \<longleftrightarrow> Suc d \<le> m \<and> (\<forall>v \<in> set vs. Suc d + nesting v \<le> m)"
    "d + nesting (Vector vs) \<le> m \<longleftrightarrow> Suc d \<le> m \<and> (\<forall>v \<in> set vs. Suc d + nesting v \<le> m)"
    using * [of "map nesting vs"] by simp_all
  have "d + nesting (Map ps) \<le> m \<longleftrightarrow> d + Suc (fold max (map (\<lambda>(k, v). nesting k) ps) 0) \<le> m \<and>
      d + Suc (fold max (map (\<lambda>(k, v). nesting v) ps) 0) \<le> m" by auto
  then show "d + nesting (Map ps) \<le> m \<longleftrightarrow> Suc d \<le> m \<and> (\<forall>(k, v) \<in> set ps. Suc d + nesting k \<le> m \<and> Suc d + nesting v \<le> m)"
    unfolding * by auto
qed

lemma uuid_token_eq: "uuid_token E tag ts = Ok (v, rest) \<longleftrightarrow>
    (\<exists>s u. tag = ''uuid'' \<and> ts = TString s # rest \<and> parse_str (pe_uuid E) s = Some u \<and> v = Uuid u)"
  by (auto simp: uuid_token_def split: list.splits token.splits option.splits)

lemma parse_sound:
  "parse_value E d ts = Ok (v, rest) \<Longrightarrow> \<exists>us. ts = us @ rest \<and> derives E v us \<and> d + nesting v \<le> MAX_RECURSION_DEPTH"
  "parse_elements E d c e ts = Ok (vs, rest) \<Longrightarrow> \<exists>tss. ts = concat tss @ c # rest \<and> list_all2 (derives E) vs tss \<and>
    (\<forall>v \<in> set vs. d + nesting v \<le> MAX_RECURSION_DEPTH)"
  "parse_pairs E d ts = Ok (ps, rest) \<Longrightarrow> \<exists>kss vss. ts = concat (map2 (@) kss vss) @ RightBrace # rest \<and>
    list_all2 (derives E) (map fst ps) kss \<and> list_all2 (derives E) (map snd ps) vss \<and>
    (\<forall>(k, v) \<in> set ps. d + nesting k \<le> MAX_RECURSION_DEPTH \<and> d + nesting v \<le> MAX_RECURSION_DEPTH)"
proof (induction E d ts and E d c e ts and E d ts arbitrary: v rest and vs rest and ps rest
    rule: parse_value_parse_elements_parse_pairs.induct)
  case (1 E d ts)
  then have depth: "\<not> MAX_RECURSION_DEPTH < d + 1" by (auto simp: parse_value.simps)
  with "1.prems" obtain t ts' where ts: "ts = t # ts'" by (cases ts) (auto simp: parse_value.simps)
  note run = "1.prems" [unfolded ts parse_value.simps [of E d "t # ts'"] if_not_P [OF depth] list.case]
  show ?case
  proof (cases t)
    case LeftParen
    with run obtain vs where p: "parse_elements E (d + 1) RightParen (Prs 5) ts' = Ok (vs, rest)" "v = List vs"
      by (auto simp: and_then_eq_Inr)
    from "1.IH"(1) [OF depth ts LeftParen p(1)] obtain tss where
      "ts' = concat tss @ RightParen # rest" "list_all2 (derives E) vs tss" "\<forall>v \<in> set vs. d + 1 + nesting v \<le> MAX_RECURSION_DEPTH" by blast
    then show ?thesis using depth unfolding p(2) nesting_le
      by (intro exI [of _ "LeftParen # concat tss @ [RightParen]"]) (auto simp: ts LeftParen intro: derives.list)
  next
    case LeftBracket
    with run obtain vs where p: "parse_elements E (d + 1) RightBracket (Prs 4) ts' = Ok (vs, rest)" "v = Vector vs"
      by (auto simp: and_then_eq_Inr)
    from "1.IH"(2) [OF depth ts LeftBracket p(1)] obtain tss where
      "ts' = concat tss @ RightBracket # rest" "list_all2 (derives E) vs tss" "\<forall>v \<in> set vs. d + 1 + nesting v \<le> MAX_RECURSION_DEPTH" by blast
    then show ?thesis using depth unfolding p(2) nesting_le
      by (intro exI [of _ "LeftBracket # concat tss @ [RightBracket]"]) (auto simp: ts LeftBracket intro: derives.vector)
  next
    case LeftBrace
    with run obtain ps where p: "parse_pairs E (d + 1) ts' = Ok (ps, rest)" "v = Map ps" by (auto simp: and_then_eq_Inr)
    from "1.IH"(3) [OF depth ts LeftBrace p(1)] obtain kss vss where
      "ts' = concat (map2 (@) kss vss) @ RightBrace # rest" "list_all2 (derives E) (map fst ps) kss" "list_all2 (derives E) (map snd ps) vss"
      "\<forall>(k, v) \<in> set ps. d + 1 + nesting k \<le> MAX_RECURSION_DEPTH \<and> d + 1 + nesting v \<le> MAX_RECURSION_DEPTH" by blast
    then show ?thesis using depth unfolding p(2) nesting_le
      by (intro exI [of _ "LeftBrace # concat (map2 (@) kss vss) @ [RightBrace]"]) (auto simp: ts LeftBrace intro: derives.map)
  next
    case (TaggedLiteral tag)
    with run obtain s u where "tag = ''uuid''" "ts' = TString s # rest" "parse_str (pe_uuid E) s = Some u" "v = Uuid u"
      by (auto simp: uuid_token_eq)
    then show ?thesis using depth
      by (intro exI [of _ "[TaggedLiteral ''uuid'', TString s]"]) (auto simp: ts TaggedLiteral intro: derives.atom)
  qed (use run depth in \<open>auto simp: ts intro!: derives.atom exI [of _ "[t]"]\<close>)
next
  case (3 E d c e t ts)
  show ?case
  proof (cases "t = c")
    case True
    with 3 show ?thesis by (auto intro: exI [of _ "[]"])
  next
    case False
    with "3.prems" obtain v rest1 vs' where p: "parse_value E d (t # ts) = Ok (v, rest1)" "parse_elements E d c e rest1 = Ok (vs', rest)" "vs = v # vs'"
      by (auto simp: and_then_eq_Inr)
    from "3.IH"(1) [OF False p(1)] obtain us where us: "t # ts = us @ rest1" "derives E v us" "d + nesting v \<le> MAX_RECURSION_DEPTH" by blast
    from "3.IH"(2) [OF False p(1) refl p(2)] obtain tss where "rest1 = concat tss @ c # rest" "list_all2 (derives E) vs' tss"
      "\<forall>v \<in> set vs'. d + nesting v \<le> MAX_RECURSION_DEPTH" by blast
    with us show ?thesis by (intro exI [of _ "us # tss"]) (simp add: p(3))
  qed
next
  case (5 E d t ts)
  show ?case
  proof (cases "t = RightBrace")
    case True
    with 5 show ?thesis by (auto intro: exI [of _ "[]"])
  next
    case False
    with "5.prems" obtain k rest1 v rest2 ps' where p: "parse_value E d (t # ts) = Ok (k, rest1)" "parse_value E d rest1 = Ok (v, rest2)"
      "parse_pairs E d rest2 = Ok (ps', rest)" "ps = (k, v) # ps'" by (auto simp: and_then_eq_Inr)
    from "5.IH"(1) [OF False p(1)] obtain us where us: "t # ts = us @ rest1" "derives E k us" "d + nesting k \<le> MAX_RECURSION_DEPTH" by blast
    from "5.IH"(2) [OF False p(1) refl p(2)] obtain ws where ws: "rest1 = ws @ rest2" "derives E v ws" "d + nesting v \<le> MAX_RECURSION_DEPTH" by blast
    from "5.IH"(3) [OF False p(1) refl p(2) refl p(3)] obtain kss vss where "rest2 = concat (map2 (@) kss vss) @ RightBrace # rest"
      "list_all2 (derives E) (map fst ps') kss" "list_all2 (derives E) (map snd ps') vss"
      "\<forall>(k, v) \<in> set ps'. d + nesting k \<le> MAX_RECURSION_DEPTH \<and> d + nesting v \<le> MAX_RECURSION_DEPTH" by blast
    with us ws show ?thesis by (intro exI [of _ "us # kss"] exI [of _ "ws # vss"]) (simp add: p(4))
  qed
qed auto

definition opens :: "token list \<Rightarrow> bool" where
  "opens ts \<longleftrightarrow> (case ts of [] \<Rightarrow> False | t # _ \<Rightarrow> t \<notin> {RightParen, RightBracket, RightBrace})"

definition reads :: "parse_env \<Rightarrow> edn_value \<Rightarrow> token list \<Rightarrow> bool" where
  "reads E v us \<longleftrightarrow> opens us \<and> (\<forall>d rest. d + nesting v \<le> MAX_RECURSION_DEPTH \<longrightarrow> parse_value E d (us @ rest) = Ok (v, rest))"

lemma opens_append: "opens us \<Longrightarrow> \<exists>t ts. us @ rest = t # ts \<and> t \<notin> {RightParen, RightBracket, RightBrace}"
  by (auto simp: opens_def split: list.splits)

lemma read_elements:
  assumes "list_all2 (reads E) vs tss" "c \<in> {RightParen, RightBracket}" "\<forall>v \<in> set vs. d + nesting v \<le> MAX_RECURSION_DEPTH"
  shows "parse_elements E d c e (concat tss @ c # rest) = Ok (vs, rest)"
  using assms(1,3)
proof (induction vs tss rule: list_all2_induct)
  case (Cons v vs us tss)
  from Cons.hyps(1) have r: "opens us" "parse_value E d (us @ concat tss @ c # rest) = Ok (v, concat tss @ c # rest)"
    using Cons.prems by (auto simp: reads_def)
  from opens_append [OF r(1)] obtain t ts where ts: "us @ concat tss @ c # rest = t # ts" "t \<notin> {RightParen, RightBracket, RightBrace}" by blast
  have "parse_elements E d c e (t # ts) = Ok (v # vs, rest)"
    using r(2) ts Cons.IH Cons.prems assms(2) by auto
  then show ?case using ts(1) by simp
qed simp

lemma read_pairs:
  assumes "list_all2 (reads E) (map fst ps) kss" "list_all2 (reads E) (map snd ps) vss"
    "\<forall>(k, v) \<in> set ps. d + nesting k \<le> MAX_RECURSION_DEPTH \<and> d + nesting v \<le> MAX_RECURSION_DEPTH"
  shows "parse_pairs E d (concat (map2 (@) kss vss) @ RightBrace # rest) = Ok (ps, rest)"
  using assms
proof (induction ps arbitrary: kss vss)
  case (Cons p ps)
  obtain k v where p: "p = (k, v)" by force
  from Cons.prems(1,2) obtain us kss' ws vss' where s: "kss = us # kss'" "vss = ws # vss'" "reads E k us" "reads E v ws"
    "list_all2 (reads E) (map fst ps) kss'" "list_all2 (reads E) (map snd ps) vss'"
    by (auto simp: p list_all2_Cons1)
  let ?r = "concat (map2 (@) kss' vss') @ RightBrace # rest"
  have r: "opens us" "parse_value E d (us @ ws @ ?r) = Ok (k, ws @ ?r)" "parse_value E d (ws @ ?r) = Ok (v, ?r)"
    using s(3,4) Cons.prems(3) by (auto simp: reads_def p)
  from opens_append [OF r(1)] obtain t ts where ts: "us @ ws @ ?r = t # ts" "t \<notin> {RightParen, RightBracket, RightBrace}" by blast
  have "parse_pairs E d ?r = Ok (ps, rest)" using s(5,6) Cons.prems(3) by (intro Cons.IH) auto
  with r(2,3) ts have "parse_pairs E d (t # ts) = Ok (p # ps, rest)" by (auto simp: p)
  then show ?case using ts(1) by (simp add: s(1,2))
qed simp

lemma derives_reads: "derives E v us \<Longrightarrow> reads E v us"
proof (induction rule: derives.induct)
  case (atom v ts)
  then show ?case by (cases "(E, v, ts)" rule: atom_tokens.cases) (auto simp: reads_def opens_def parse_value.simps uuid_token_def)
next
  case (list vs tss)
  then have "list_all2 (reads E) vs tss" by (auto elim: list_all2_mono)
  then show ?case by (auto simp: reads_def opens_def nesting_le parse_value.simps read_elements simp del: nesting.simps)
next
  case (vector vs tss)
  then have "list_all2 (reads E) vs tss" by (auto elim: list_all2_mono)
  then show ?case by (auto simp: reads_def opens_def nesting_le parse_value.simps read_elements simp del: nesting.simps)
next
  case (map ps kss vss)
  then have "list_all2 (reads E) (List.map fst ps) kss" "list_all2 (reads E) (List.map snd ps) vss" by (auto elim: list_all2_mono)
  then show ?case by (auto simp: reads_def opens_def nesting_le parse_value.simps read_pairs simp del: nesting.simps)
qed

lemma parse_tokens_exact:
  "parse_tokens E ts = Ok v \<longleftrightarrow> derives E v ts \<and> nesting v \<le> MAX_RECURSION_DEPTH"
proof
  assume "parse_tokens E ts = Ok v"
  then have "parse_value E 0 ts = Ok (v, [])" by (auto simp: parse_tokens_def and_then_eq_Inr split: if_splits)
  from parse_sound(1) [OF this] show "derives E v ts \<and> nesting v \<le> MAX_RECURSION_DEPTH" by auto
next
  assume v: "derives E v ts \<and> nesting v \<le> MAX_RECURSION_DEPTH"
  then have "parse_value E 0 (ts @ []) = Ok (v, [])" using derives_reads [of E v ts] by (auto simp: reads_def simp del: append_Nil2)
  then show "parse_tokens E ts = Ok v" by (simp add: parse_tokens_def)
qed

text \<open>
  C13. The parser accepts exactly the token sequences of the grammar up to the recursion limit:
  parsing ends, and it returns a value if and only if the tokens derive this value and its
  nesting is at most 100. So no text is read in two ways, none of the grammar is refused, and
  nothing is accepted after a complete value.
\<close>

theorem parse_tokens_iff:
  "parse_tokens E ts = Ok v \<longleftrightarrow> derives E v ts \<and> nesting v \<le> MAX_RECURSION_DEPTH"
  by (rule parse_tokens_exact)

end
