(* ===== verification/Query_Parser.thy ===== *)
theory Query_Parser
  imports Edn_Parser
begin

text \<open>
  The commands of \<^verbatim>\<open>src/query/datalog/parser.rs\<close>, built from EDN values: queries with their
  find, with and where parts, transactions, retractions and rules, and the checks that every
  variable is bound before it is used. \<^verbatim>\<open>parse_timestamp\<close> is from \<^verbatim>\<open>src/temporal.rs\<close>.
\<close>

section \<open>Timestamps\<close>

text \<open>\<^verbatim>\<open>str::get(10..)\<close>: nothing beyond the end or inside a character.\<close>

definition str_from :: "nat \<Rightarrow> string \<Rightarrow> string option" where
  "str_from n s = (if n = length s then Some []
     else if n < length s \<and> \<not> (0x80 \<le> (ch (s ! n) :: nat) \<and> (ch (s ! n) :: nat) < 0xC0) then Some (drop n s) else None)"

definition parse_timestamp :: "parse_env \<Rightarrow> string \<Rightarrow> i64 result" where
  "parse_timestamp E s =
     (if CHR ''+'' \<in> set s \<or> (case str_from 10 s of Some r \<Rightarrow> CHR ''-'' \<in> set r | None \<Rightarrow> False) then Err (Internal 4)
      else if CHR ''T'' \<in> set s then ok_or (Internal 4) (chrono_datetime E s)
      else ok_or (Internal 4) (chrono_date E s))"

section \<open>Find specifications\<close>

definition is_over :: "edn_value option \<Rightarrow> bool" where
  "is_over v \<longleftrightarrow> v = Some (Keyword '':over'')"

definition as_var :: "error_code \<Rightarrow> edn_value option \<Rightarrow> string result" where
  "as_var e v = (case v of Some x \<Rightarrow> ok_or e (as_variable x) | None \<Rightarrow> Err e)"

definition window_func_of :: "string \<Rightarrow> window_func result" where
  "window_func_of f =
     (if f = ''lag'' \<or> f = ''lead'' then Err (Prs 30)
      else if f = ''sum'' then Ok WSum else if f = ''count'' then Ok WCount else if f = ''min'' then Ok WMin
      else if f = ''max'' then Ok WMax else if f = ''avg'' then Ok WAvg else if f = ''rank'' then Ok WRank
      else if f = ''row-number'' then Ok WRowNumber
      else if f = ''count-distinct'' \<or> f = ''sum-distinct'' then Err (Prs 31)
      else Ok (WUdf f))"

record over_clause =
  ov_partition :: "string option"
  ov_order_by :: "string option"
  ov_order :: sort_order

fun over_loop :: "over_clause \<Rightarrow> edn_value list \<Rightarrow> over_clause result" where
  "over_loop ov [] = Ok ov"
| "over_loop ov (Keyword k # vs) =
     (if k = '':partition-by'' then
        (case vs of
           [] \<Rightarrow> Err (Prs 37)
         | v # vs' \<Rightarrow> and_then (as_var (Prs 37) (Some v)) (\<lambda>x. over_loop (ov\<lparr>ov_partition := Some x\<rparr>) vs'))
      else if k = '':order-by'' then
        (case vs of
           [] \<Rightarrow> Err (Prs 38)
         | v # vs' \<Rightarrow> and_then (as_var (Prs 38) (Some v)) (\<lambda>x. over_loop (ov\<lparr>ov_order_by := Some x\<rparr>) vs'))
      else if k = '':desc'' then over_loop (ov\<lparr>ov_order := Desc\<rparr>) vs
      else if k = '':asc'' then over_loop (ov\<lparr>ov_order := Asc\<rparr>) vs
      else Err (Prs 39))"
| "over_loop ov (_ # vs) = Err (Prs 40)"

definition window_var :: "window_func \<Rightarrow> edn_value list \<Rightarrow> (string option \<times> nat) result" where
  "window_var f elems =
     (if f = WRank \<or> f = WRowNumber then (if is_over (elem_get elems 1) then Ok (None, 1) else Err (Prs 34))
      else and_then (as_var (Prs 32) (elem_get elems 1)) (\<lambda>v.
        if is_over (elem_get elems 2) then Ok (Some v, 2) else Err (Prs 33)))"

definition parse_window_expr :: "edn_value list \<Rightarrow> find_spec result" where
  "parse_window_expr elems = (case elems of
      [] \<Rightarrow> Err (Prs 28)
    | Symbol name # _ \<Rightarrow>
        and_then (window_func_of name) (\<lambda>f.
        and_then (window_var f elems) (\<lambda>(v, i).
        if i + 2 \<noteq> length elems then Err (Prs 36)
        else case elem_get elems (i + 1) of
          Some (List over_list) \<Rightarrow>
            and_then (over_loop \<lparr>ov_partition = None, ov_order_by = None, ov_order = Asc\<rparr> over_list) (\<lambda>ov.
            and_then (ok_or (Internal 19) (ov_order_by ov)) (\<lambda>ob.
              Ok (FWindow \<lparr>ws_func = f, ws_var = v, ws_partition_by = ov_partition ov, ws_order_by = ob, ws_order = ov_order ov\<rparr>)))
        | _ \<Rightarrow> Err (Prs 35)))
    | _ \<Rightarrow> Err (Prs 29))"

definition parse_aggregate :: "edn_value list \<Rightarrow> find_spec result" where
  "parse_aggregate elems =
     (if list_ex (\<lambda>v. is_over (Some v)) elems then parse_window_expr elems
      else case elems of
        [f, v] \<Rightarrow> (case f of
            Symbol name \<Rightarrow> if name \<in> {''avg'', ''rank'', ''row-number''} then Err (Prs 27)
              else and_then (as_var (Prs 26) (Some v)) (\<lambda>x. Ok (FAggregate name x))
          | _ \<Rightarrow> Err (Prs 25))
      | _ \<Rightarrow> Err (Prs 24))"

section \<open>Expressions\<close>

definition unary_type_op :: "string \<Rightarrow> unary_op option" where
  "unary_type_op = map_of [(''string?'', StringQ), (''integer?'', IntegerQ), (''float?'', FloatQ), (''boolean?'', BooleanQ), (''nil?'', NilQ)]"

definition binary_op :: "string \<Rightarrow> bin_op option" where
  "binary_op = map_of [(''<'', Lt), (''>'', Gt), (''<='', Lte), (''>='', Gte), (''='', EqOp), (''!='', Neq), (''+'', Add), (''-'', Sub),
     (''*'', Mul), (''/'', Div), (''starts-with?'', StartsWith), (''ends-with?'', EndsWith), (''contains?'', Contains)]"

fun parse_expr_arg :: "parse_env \<Rightarrow> edn_value \<Rightarrow> expr result"
  and parse_expr :: "parse_env \<Rightarrow> edn_value list \<Rightarrow> expr result" where
  "parse_expr_arg E v = (case v of
      Symbol s \<Rightarrow> if take 1 s = ''?'' then Ok (Var s) else Err (Prs 70)
    | EInteger n \<Rightarrow> Ok (Lit (VInteger n))
    | EFloat f \<Rightarrow> Ok (Lit (VFloat f))
    | EString s \<Rightarrow> Ok (Lit (VString s))
    | EBoolean b \<Rightarrow> Ok (Lit (VBoolean b))
    | Nil_edn \<Rightarrow> Ok (Lit VNull)
    | Keyword k \<Rightarrow> Ok (Lit (VKeyword k))
    | List inner \<Rightarrow> parse_expr E inner
    | BindSlot n \<Rightarrow> Ok (Slot n)
    | _ \<Rightarrow> Err (Prs 70))"
| "parse_expr E [] = Err (Prs 62)"
| "parse_expr E (h # args) = (case h of
      Symbol head \<Rightarrow>
        (case unary_type_op head of
           Some op \<Rightarrow> (case args of [a] \<Rightarrow> and_then (parse_expr_arg E a) (\<lambda>x. Ok (UnaryOp op x)) | _ \<Rightarrow> Err (Prs 64))
         | None \<Rightarrow>
        if head = ''matches?'' then
          (case args of
             [a, b] \<Rightarrow> and_then (parse_expr_arg E a) (\<lambda>l. and_then (parse_expr_arg E b) (\<lambda>r.
               case r of
                 Lit (VString p) \<Rightarrow> if regex_valid E p then Ok (BinOp (Matches p) l (Lit (VString p))) else Err (Internal 19)
               | _ \<Rightarrow> Err (Prs 66)))
           | _ \<Rightarrow> Err (Prs 65))
        else case binary_op head of
           Some op \<Rightarrow> (case args of
               [a, b] \<Rightarrow> and_then (parse_expr_arg E a) (\<lambda>l. and_then (parse_expr_arg E b) (\<lambda>r. Ok (BinOp op l r)))
             | _ \<Rightarrow> Err (Prs 65))
         | None \<Rightarrow> (case args of
               [a] \<Rightarrow> and_then (parse_expr_arg E a) (\<lambda>x. Ok (UnaryOp (UUdf head) x))
             | _ \<Rightarrow> Err (Prs 67)))
    | _ \<Rightarrow> Err (Prs 63))"

definition parse_expr_clause :: "parse_env \<Rightarrow> edn_value list \<Rightarrow> where_clause result" where
  "parse_expr_clause E vs = (case vs of
      List inner # binding \<Rightarrow> and_then (parse_expr E inner) (\<lambda>e. case binding of
          [] \<Rightarrow> Ok (ExprC e None)
        | [v] \<Rightarrow> and_then (as_var (Prs 69) (Some v)) (\<lambda>x. Ok (ExprC e (Some x)))
        | _ \<Rightarrow> Err (Prs 68))
    | _ \<Rightarrow> Err (Internal 19))"

section \<open>Where clauses\<close>

definition parse_query_pattern :: "edn_value list \<Rightarrow> pattern result" where
  "parse_query_pattern vs = (case vs of
      [e, a, v] \<Rightarrow>
        (let pseudo = (\<lambda>x. Option.bind (edn_as_keyword x) from_keyword) in
         if pseudo e \<noteq> None \<or> pseudo v \<noteq> None then Err (Internal 17)
         else case pseudo a of Some p \<Rightarrow> Ok (pattern_pseudo e p v) | None \<Rightarrow> ok_or Message (from_edn vs))
    | _ \<Rightarrow> Err (Internal 19))"

text \<open>The vector form of a clause: an expression when it starts with a list, else a pattern.\<close>

definition parse_vector_clause :: "parse_env \<Rightarrow> edn_value list \<Rightarrow> where_clause result" where
  "parse_vector_clause E vs = (case vs of
      List _ # _ \<Rightarrow> parse_expr_clause E vs
    | _ \<Rightarrow> and_then (parse_query_pattern vs) (\<lambda>p. Ok (PatternC p)))"

definition is_sym :: "string list \<Rightarrow> edn_value list \<Rightarrow> bool" where
  "is_sym names vs \<longleftrightarrow> (case vs of Symbol s # _ \<Rightarrow> s \<in> set names | _ \<Rightarrow> False)"

definition and_group :: "edn_value \<Rightarrow> edn_value list option" where
  "and_group v = (case v of List (Symbol s # rest) \<Rightarrow> if s = ''and'' then Some rest else None | _ \<Rightarrow> None)"

lemma and_group_size [termination_simp]: "and_group v = Some rest \<Longrightarrow> x \<in> set rest \<Longrightarrow> size x < size v"
  by (auto simp: and_group_def dest: size_list_estimation' [of _ _ "size x" size] split: edn_value.splits list.splits if_splits)

text \<open>\<^verbatim>\<open>parse_list_as_where_clause\<close>, with its nested item loops as functions of their own.\<close>

fun parse_list_clause :: "parse_env \<Rightarrow> bool \<Rightarrow> edn_value list \<Rightarrow> where_clause result"
  and parse_negated :: "parse_env \<Rightarrow> edn_value \<Rightarrow> where_clause result"
  and parse_or_branch :: "parse_env \<Rightarrow> edn_value \<Rightarrow> where_clause list result"
  and parse_or_branch_item :: "parse_env \<Rightarrow> edn_value \<Rightarrow> where_clause result" where
  "parse_list_clause E allow_not [] = Err (Prs 50)"
| "parse_list_clause E allow_not (h # rest) = (case h of
      Symbol s \<Rightarrow>
        if s = ''not'' then
          (if \<not> allow_not then Err (Prs 51)
           else if rest = [] then Err (Prs 52)
           else and_then (collect_map (parse_negated E) rest) (\<lambda>cs. Ok (Not cs)))
        else if s = ''not-join'' then
          (if \<not> allow_not then Err (Internal 19)
           else case rest of
             jv # items \<Rightarrow>
               if items = [] then Err (Prs 59)
               else and_then (ok_or (Internal 19) (as_vector jv)) (\<lambda>v.
                 and_then (collect_map (\<lambda>x. as_var (Internal 19) (Some x)) v) (\<lambda>join.
                 and_then (collect_map (parse_negated E) items) (\<lambda>cs. Ok (NotJoin join cs))))
           | [] \<Rightarrow> Err (Prs 59))
        else if s = ''or'' then
          (if rest = [] then Err (Prs 53)
           else and_then (collect_map (parse_or_branch E) rest) (\<lambda>bs. Ok (Or bs)))
        else if s = ''or-join'' then
          (case rest of
             jv # items \<Rightarrow>
               if items = [] then Err (Prs 54)
               else and_then (ok_or (Prs 55) (as_vector jv)) (\<lambda>v.
                 and_then (collect_map (\<lambda>x. as_var (Prs 56) (Some x)) v) (\<lambda>join.
                 and_then (collect_map (parse_or_branch E) items) (\<lambda>bs. Ok (OrJoin join bs))))
           | [] \<Rightarrow> Err (Prs 54))
        else Ok (RuleInvocation s rest)
    | _ \<Rightarrow> Err (Internal 19))"
| "parse_negated E item = (case item of
      Vector vs \<Rightarrow> parse_vector_clause E vs
    | List inner \<Rightarrow> if is_sym [''or'', ''or-join''] inner then Err (Internal 16) else parse_list_clause E False inner
    | _ \<Rightarrow> Err (Internal 19))"
| "parse_or_branch E item = (case and_group item of
      Some rest \<Rightarrow> if rest = [] then Err (Prs 58) else collect_map (parse_or_branch_item E) rest
    | None \<Rightarrow> and_then (parse_or_branch_item E item) (\<lambda>c. Ok [c]))"
| "parse_or_branch_item E item = (case item of
      Vector vs \<Rightarrow> parse_vector_clause E vs
    | List inner \<Rightarrow> parse_list_clause E True inner
    | _ \<Rightarrow> Err (Internal 19))"

section \<open>Safety checks\<close>

definition visible_var :: "edn_value \<Rightarrow> string set" where
  "visible_var v = (case as_variable v of Some s \<Rightarrow> if take 2 s = ''?_'' then {} else {s} | None \<Rightarrow> {})"

text \<open>
  The code returns vectors, and for an \<^verbatim>\<open>or\<close> the iteration order of a hash set; they are only
  searched and inserted into sets, so the model has sets.
\<close>

fun outer_vars_from_clause :: "where_clause \<Rightarrow> string set" where
  "outer_vars_from_clause (PatternC p) = visible_var (pat_entity p) \<union>
     (case pat_attribute p of Real a \<Rightarrow> visible_var a | Pseudo _ \<Rightarrow> {}) \<union> visible_var (pat_value p)"
| "outer_vars_from_clause (RuleInvocation _ args) = \<Union> (set (map visible_var args))"
| "outer_vars_from_clause (Not _) = {}"
| "outer_vars_from_clause (NotJoin _ _) = {}"
| "outer_vars_from_clause (Or bs) =
     (case map (\<lambda>b. \<Union> (set (map outer_vars_from_clause b))) bs of
        [] \<Rightarrow> {} | s # ss \<Rightarrow> Set.filter (\<lambda>v. list_all (\<lambda>t. v \<in> t) ss) s)"
| "outer_vars_from_clause (OrJoin join _) = set join"
| "outer_vars_from_clause (ExprC _ b) = set_option b"

definition vars_in_not :: "where_clause \<Rightarrow> string set" where
  "vars_in_not c = (case c of Not inner \<Rightarrow> \<Union> (set (map outer_vars_from_clause inner)) | _ \<Rightarrow> {})"

definition check_not_safety :: "where_clause list \<Rightarrow> string set \<Rightarrow> unit result" where
  "check_not_safety cs outer_bound = (if list_all (\<lambda>c. vars_in_not c \<subseteq> outer_bound) cs then Ok () else Err (Internal 18))"

definition join_bound :: "string set \<Rightarrow> string list \<Rightarrow> bool" where
  "join_bound B join \<longleftrightarrow> list_all (\<lambda>v. take 2 v = ''?_'' \<or> v \<in> B) join"

definition check_not_join_safety :: "where_clause list \<Rightarrow> string set \<Rightarrow> unit result" where
  "check_not_join_safety cs outer_bound =
     (if list_all (\<lambda>c. case c of NotJoin join _ \<Rightarrow> join_bound outer_bound join | _ \<Rightarrow> True) cs then Ok () else Err (Internal 18))"

fun all_equal :: "'a list \<Rightarrow> bool" where
  "all_equal (x # y # zs) \<longleftrightarrow> x = y \<and> all_equal (y # zs)"
| "all_equal _ \<longleftrightarrow> True"

fun check_expr_safety_with_bound :: "string set \<Rightarrow> where_clause list \<Rightarrow> string set result"
  and check_clause_safety :: "string set \<Rightarrow> where_clause \<Rightarrow> string set result" where
  "check_expr_safety_with_bound B [] = Ok B"
| "check_expr_safety_with_bound B (c # cs) = and_then (check_clause_safety B c) (\<lambda>B'. check_expr_safety_with_bound B' cs)"
| "check_clause_safety B (ExprC e b) = (if set (expr_vars e) \<subseteq> B then Ok (B \<union> set_option b) else Err (Internal 18))"
| "check_clause_safety B (Not inner) = and_then (check_expr_safety_with_bound B inner) (\<lambda>_. Ok B)"
| "check_clause_safety B (NotJoin join inner) = and_then (check_expr_safety_with_bound B inner) (\<lambda>_. Ok B)"
| "check_clause_safety B (Or bs) =
     (if bs = [] then Ok B
      else and_then (collect_map (\<lambda>b. and_then (check_expr_safety_with_bound B b) (\<lambda>B'. Ok (B' - B))) bs) (\<lambda>news.
        if \<not> all_equal news then Err (Prs 57)
        else case news of n # _ \<Rightarrow> Ok (B \<union> n) | [] \<Rightarrow> Ok B))"
| "check_clause_safety B (OrJoin join bs) =
     (if join_bound B join then and_then (collect_map (check_expr_safety_with_bound B) bs) (\<lambda>_. Ok B) else Err (Internal 18))"
| "check_clause_safety B (PatternC p) = Ok (B \<union> outer_vars_from_clause (PatternC p))"
| "check_clause_safety B (RuleInvocation q args) = Ok (B \<union> outer_vars_from_clause (RuleInvocation q args))"

definition check_expr_safety :: "where_clause list \<Rightarrow> unit result" where
  "check_expr_safety cs = and_then (check_expr_safety_with_bound {} cs) (\<lambda>_. Ok ())"

section \<open>Queries\<close>

record query_parts =
  qp_find :: "find_spec list"
  qp_with :: "string list"
  qp_where :: "where_clause list"
  current_clause :: "string option"
  qp_as_of :: "as_of option"
  qp_valid_at :: "valid_at option"
  qp_max_derived_facts :: "nat option"
  qp_max_results :: "nat option"

definition as_of_value :: "parse_env \<Rightarrow> edn_value \<Rightarrow> as_of result" where
  "as_of_value E v = (case v of
      EInteger n \<Rightarrow> if 0 \<le> i64_val n then Ok (Counter (cast_unsigned n)) else Err (Prs 15)
    | EString s \<Rightarrow> and_then (parse_timestamp E s) (\<lambda>t. Ok (Timestamp t))
    | BindSlot n \<Rightarrow> Ok (AsOfSlot n)
    | _ \<Rightarrow> Err (Prs 16))"

definition valid_at_value :: "parse_env \<Rightarrow> edn_value \<Rightarrow> valid_at result" where
  "valid_at_value E v = (case v of
      EString s \<Rightarrow> and_then (parse_timestamp E s) (\<lambda>t. Ok (VTimestamp t))
    | Keyword k \<Rightarrow> if k = '':any-valid-time'' then Ok AnyValidTime else Err (Prs 18)
    | BindSlot n \<Rightarrow> Ok (VSlot n)
    | _ \<Rightarrow> Err (Prs 18))"

definition limit_value :: "nat option \<Rightarrow> edn_value list \<Rightarrow> (nat \<times> edn_value list) result" where
  "limit_value old vs =
     (if old \<noteq> None then Err (Internal 12)
      else case vs of
        [] \<Rightarrow> Err (Internal 13)
      | EInteger n # vs' \<Rightarrow> if 1 \<le> i64_val n then Ok (nat (i64_val n), vs') else Err (Internal 14)
      | _ \<Rightarrow> Err (Internal 15))"

definition with_names :: "edn_value list \<Rightarrow> (string list \<times> edn_value list) result" where
  "with_names vs =
     (let rest = dropWhile is_variable vs in
      if rest = [] \<or> is_keyword (hd rest)
      then Ok (List.map_filter as_variable (takeWhile is_variable vs), rest)
      else Err (Internal 19))"

definition find_item :: "edn_value \<Rightarrow> find_spec result" where
  "find_item v = (case v of
      Symbol s \<Rightarrow> if take 1 s = ''?'' then Ok (FVariable s) else Err (Internal 19)
    | List elems \<Rightarrow> parse_aggregate elems
    | _ \<Rightarrow> Err (Internal 19))"

definition where_item :: "parse_env \<Rightarrow> error_code \<Rightarrow> edn_value \<Rightarrow> where_clause result" where
  "where_item E e v = (case v of
      Vector vs \<Rightarrow> parse_vector_clause E vs
    | List l \<Rightarrow> parse_list_clause E True l
    | _ \<Rightarrow> Err e)"

lemma with_names_length: "with_names vs = Ok (ns, rest) \<Longrightarrow> length rest \<le> length vs"
  by (auto simp: with_names_def Let_def length_dropWhile_le split: if_splits)

lemma limit_value_length: "limit_value old vs = Ok (n, rest) \<Longrightarrow> length rest \<le> length vs"
  by (auto simp: limit_value_def split: if_splits list.splits edn_value.splits)

function query_loop :: "parse_env \<Rightarrow> query_parts \<Rightarrow> edn_value list \<Rightarrow> query_parts result" where
  "query_loop E st [] = Ok st"
| "query_loop E st (v # vs) = (case edn_as_keyword v of
      Some k \<Rightarrow>
        if k = '':as-of'' then
          (case vs of [] \<Rightarrow> Err (Prs 14)
           | x # vs' \<Rightarrow> and_then (as_of_value E x) (\<lambda>a. query_loop E (st\<lparr>qp_as_of := Some a\<rparr>) vs'))
        else if k = '':valid-at'' then
          (case vs of [] \<Rightarrow> Err (Prs 17)
           | x # vs' \<Rightarrow> and_then (valid_at_value E x) (\<lambda>a. query_loop E (st\<lparr>qp_valid_at := Some a\<rparr>) vs'))
        else if k = '':any-valid-time'' then query_loop E (st\<lparr>qp_valid_at := Some AnyValidTime\<rparr>) vs
        else if k = '':max-derived-facts'' then
          and_then (limit_value (qp_max_derived_facts st) vs) (\<lambda>(n, rest). query_loop E (st\<lparr>qp_max_derived_facts := Some n\<rparr>) rest)
        else if k = '':max-results'' then
          and_then (limit_value (qp_max_results st) vs) (\<lambda>(n, rest). query_loop E (st\<lparr>qp_max_results := Some n\<rparr>) rest)
        else if k = '':with'' then
          and_then (with_names vs) (\<lambda>(ns, rest). query_loop E (st\<lparr>qp_with := qp_with st @ ns\<rparr>) rest)
        else query_loop E (st\<lparr>current_clause := Some k\<rparr>) vs
    | None \<Rightarrow>
        if current_clause st = Some '':find'' then
          and_then (find_item v) (\<lambda>f. query_loop E (st\<lparr>qp_find := qp_find st @ [f]\<rparr>) vs)
        else if current_clause st = Some '':where'' then
          and_then (where_item E (Prs 60) v) (\<lambda>c. query_loop E (st\<lparr>qp_where := qp_where st @ [c]\<rparr>) vs)
        else Err (Prs 61))"
  by pat_completeness auto
termination
  by (relation "measure (\<lambda>(_, _, vs). length vs)") (auto dest!: with_names_length limit_value_length)

definition empty_parts :: query_parts where
  "empty_parts = \<lparr>qp_find = [], qp_with = [], qp_where = [], current_clause = None, qp_as_of = None, qp_valid_at = None,
     qp_max_derived_facts = None, qp_max_results = None\<rparr>"

definition check_find :: "query_parts \<Rightarrow> string set \<Rightarrow> unit result" where
  "check_find st outer_bound =
     (if \<not> list_all (\<lambda>f. case f of FAggregate _ v \<Rightarrow> v \<in> outer_bound | _ \<Rightarrow> True) (qp_find st) then Err (Prs 23)
      else if \<not> set (qp_with st) \<subseteq> outer_bound then Err (Prs 22)
      else if qp_with st \<noteq> [] \<and> \<not> list_ex (\<lambda>f. case f of FAggregate _ _ \<Rightarrow> True | _ \<Rightarrow> False) (qp_find st) then Err (Prs 21)
      else Ok ())"

definition parse_query :: "parse_env \<Rightarrow> edn_value list \<Rightarrow> datalog_command result" where
  "parse_query E elements = (case elements of
      [] \<Rightarrow> Err (Prs 13)
    | [v] \<Rightarrow>
        and_then (ok_or (Internal 19) (as_vector v)) (\<lambda>query_vector.
        and_then (query_loop E empty_parts query_vector) (\<lambda>st.
        let outer_bound = \<Union> (set (map outer_vars_from_clause (qp_where st))) in
        and_then (check_not_safety (qp_where st) outer_bound) (\<lambda>_.
        and_then (check_not_join_safety (qp_where st) outer_bound) (\<lambda>_.
        and_then (check_expr_safety (qp_where st)) (\<lambda>_.
        and_then (check_find st outer_bound) (\<lambda>_.
          Ok (QueryCmd ((query_new (qp_find st) (qp_where st))\<lparr>query_as_of := qp_as_of st, query_valid_at := qp_valid_at st,
            with_vars := qp_with st, max_derived_facts := qp_max_derived_facts st, max_results := qp_max_results st\<rparr>))))))))
    | _ \<Rightarrow> Err (Prs 78))"

section \<open>Transactions and rules\<close>

fun parse_valid_time_map :: "parse_env \<Rightarrow> i64 option \<Rightarrow> i64 option \<Rightarrow> (edn_value \<times> edn_value) list \<Rightarrow> (i64 option \<times> i64 option) result" where
  "parse_valid_time_map E vf vt [] = Ok (vf, vt)"
| "parse_valid_time_map E vf vt ((key, x) # ps) =
     (if edn_as_keyword key = Some '':valid-from'' then
        (case x of EString s \<Rightarrow> and_then (parse_timestamp E s) (\<lambda>t. parse_valid_time_map E (Some t) vt ps) | _ \<Rightarrow> Err (Prs 19))
      else if edn_as_keyword key = Some '':valid-to'' then
        (case x of EString s \<Rightarrow> and_then (parse_timestamp E s) (\<lambda>t. parse_valid_time_map E vf (Some t) ps) | _ \<Rightarrow> Err (Prs 20))
      else Err (Internal 19))"

definition or_opt :: "'a option \<Rightarrow> 'a option \<Rightarrow> 'a option" where
  "or_opt a b = (case a of None \<Rightarrow> b | Some _ \<Rightarrow> a)"

definition parse_fact :: "parse_env \<Rightarrow> i64 option \<Rightarrow> i64 option \<Rightarrow> edn_value \<Rightarrow> pattern result" where
  "parse_fact E tx_from tx_to f =
     and_then (ok_or (Prs 45) (as_vector f)) (\<lambda>vs.
     if length vs < 3 then Err (Prs 46) else if 4 < length vs then Err (Prs 108)
     else and_then (case vs of
         [e, a, v, Map ps] \<Rightarrow> parse_valid_time_map E None None ps
       | [e, a, v, _] \<Rightarrow> Err (Prs 47)
       | _ \<Rightarrow> Ok (None, None)) (\<lambda>(vf, vt).
       Ok (pattern_with_valid_time (vs ! 0) (vs ! 1) (vs ! 2) (or_opt vf tx_from) (or_opt vt tx_to))))"

definition parse_transact :: "parse_env \<Rightarrow> edn_value list \<Rightarrow> datalog_command result" where
  "parse_transact E elements = (case elements of
      [] \<Rightarrow> Err (Prs 41)
    | first # rest \<Rightarrow>
        and_then (case first of
            Map ps \<Rightarrow> and_then (parse_valid_time_map E None None ps) (\<lambda>(vf, vt).
              case rest of [] \<Rightarrow> Err (Prs 48) | fv # rest' \<Rightarrow> Ok (vf, vt, fv, rest'))
          | _ \<Rightarrow> Ok (None, None, first, rest)) (\<lambda>(tx_from, tx_to, fv, extra).
        if extra \<noteq> [] then Err (Prs 75)
        else and_then (ok_or (Prs 42) (as_vector fv)) (\<lambda>fs.
          and_then (collect_map (parse_fact E tx_from tx_to) fs) (\<lambda>ps.
            Ok (TransactCmd ((transaction_new ps)\<lparr>trans_valid_from := tx_from, trans_valid_to := tx_to\<rparr>))))))"

definition parse_retract :: "edn_value list \<Rightarrow> datalog_command result" where
  "parse_retract elements = (case elements of
      [] \<Rightarrow> Err (Prs 43)
    | [v] \<Rightarrow> and_then (ok_or (Prs 44) (as_vector v)) (\<lambda>fs.
        and_then (collect_map (\<lambda>f. and_then (ok_or (Internal 19) (as_vector f)) (\<lambda>vs. ok_or Message (from_edn vs))) fs) (\<lambda>ps.
          Ok (RetractCmd (transaction_new ps))))
    | _ \<Rightarrow> Err (Prs 76))"

definition parse_rule :: "parse_env \<Rightarrow> edn_value list \<Rightarrow> datalog_command result" where
  "parse_rule E elements = (case elements of
      [] \<Rightarrow> Err (Internal 19)
    | [v] \<Rightarrow> (case v of
        Vector (List (Symbol p # args) # items) \<Rightarrow>
          and_then (collect_map (where_item E (Internal 19)) items) (\<lambda>body.
          if body = [] then Err (Internal 19)
          else let outer_bound = set (List.map_filter as_variable args) \<union> \<Union> (set (map outer_vars_from_clause body)) in
            and_then (check_not_safety body outer_bound) (\<lambda>_.
            and_then (check_not_join_safety body outer_bound) (\<lambda>_.
            and_then (check_expr_safety body) (\<lambda>_.
              Ok (RuleCmd \<lparr>rule_head = Symbol p # args, rule_body = body\<rparr>)))))
      | _ \<Rightarrow> Err (Internal 19))
    | _ \<Rightarrow> Err (Prs 79))"

definition parse_command :: "parse_env \<Rightarrow> edn_value \<Rightarrow> datalog_command result" where
  "parse_command E v = (case v of
      List (h # rest) \<Rightarrow>
        and_then (case h of Symbol s \<Rightarrow> Ok s | Keyword k \<Rightarrow> Ok k | _ \<Rightarrow> Err (Prs 10)) (\<lambda>command.
        if command = ''query'' then parse_query E rest
        else if command = ''transact'' then parse_transact E rest
        else if command = ''retract'' then parse_retract rest
        else if command = ''rule'' then parse_rule E rest
        else Err (Prs 11))
    | _ \<Rightarrow> Err (Prs 12))"

definition parse_datalog_command :: "parse_env \<Rightarrow> nat list \<Rightarrow> datalog_command result" where
  "parse_datalog_command E input = and_then (parse_edn E input) (parse_command E)"

end
