(* ===== verification/Parser_Safety.thy ===== *)
theory Parser_Safety
  imports Query_Parser Edn_Text
begin

text \<open>
  What the commands that leave the parser are known to satisfy: negation bodies are flat, every
  expression reads only variables that earlier clauses bind, negated and aggregated variables
  are bound.
\<close>

section \<open>Nesting of clauses\<close>

fun flat_clause :: "where_clause \<Rightarrow> bool" where
  "flat_clause (PatternC _) \<longleftrightarrow> True"
| "flat_clause (RuleInvocation _ _) \<longleftrightarrow> True"
| "flat_clause (ExprC _ _) \<longleftrightarrow> True"
| "flat_clause _ \<longleftrightarrow> False"

fun well_nested :: "where_clause \<Rightarrow> bool" where
  "well_nested (Not cs) \<longleftrightarrow> cs \<noteq> [] \<and> list_all flat_clause cs"
| "well_nested (NotJoin _ cs) \<longleftrightarrow> cs \<noteq> [] \<and> list_all flat_clause cs"
| "well_nested (Or bs) \<longleftrightarrow> bs \<noteq> [] \<and> list_all (\<lambda>b. b \<noteq> [] \<and> list_all well_nested b) bs"
| "well_nested (OrJoin _ bs) \<longleftrightarrow> bs \<noteq> [] \<and> list_all (\<lambda>b. b \<noteq> [] \<and> list_all well_nested b) bs"
| "well_nested _ \<longleftrightarrow> True"






section \<open>Bound variables\<close>










section \<open>Accepted commands\<close>


fun outer_bound_of :: "datalog_command \<Rightarrow> string set" where
  "outer_bound_of (QueryCmd q) = \<Union> (outer_vars_from_clause ` set (where_clauses q))"
| "outer_bound_of (RuleCmd r) = {v. Some v \<in> as_variable ` set (tl (rule_head r))} \<union> \<Union> (outer_vars_from_clause ` set (rule_body r))"
| "outer_bound_of _ = {}"

definition parts_ok :: "query_parts \<Rightarrow> bool" where
  "parts_ok st \<longleftrightarrow> list_all well_nested (qp_where st) \<and> qp_max_derived_facts st \<noteq> Some 0 \<and> qp_max_results st \<noteq> Some 0"


lemma parts_ok_updates [simp]:
  "parts_ok (st\<lparr>qp_as_of := a\<rparr>) = parts_ok st" "parts_ok (st\<lparr>qp_valid_at := va\<rparr>) = parts_ok st"
  "parts_ok (st\<lparr>qp_with := ns\<rparr>) = parts_ok st" "parts_ok (st\<lparr>current_clause := k\<rparr>) = parts_ok st"
  "parts_ok (st\<lparr>qp_find := fs\<rparr>) = parts_ok st"
  "parts_ok st \<Longrightarrow> parts_ok (st\<lparr>qp_max_derived_facts := Some n\<rparr>) = (n \<noteq> 0)"
  "parts_ok st \<Longrightarrow> parts_ok (st\<lparr>qp_max_results := Some n\<rparr>) = (n \<noteq> 0)"
  "parts_ok (st\<lparr>qp_where := qp_where st @ [c]\<rparr>) = (parts_ok st \<and> well_nested c)"
  by (auto simp: parts_ok_def)










text \<open>Evaluating the tokenizer on a given text.\<close>

lemmas lex_eval = lex_step_def lex_minus_def bracket_token_def is_digit_def char_is_alphanumeric_def char_is_alphabetic_def char_is_numeric_def
  one_of_def utf8_def char_of_def bit_0 keyword_char_def symbol_char_def parse_symbol_def symbol_token_def number_token_def i64_from_str_def
  digits_val_def MAX_KEYWORD_LENGTH_def MAX_SYMBOL_LENGTH_def MAX_STRING_LENGTH_def MAX_RECURSION_DEPTH_def Let_def




section \<open>What the checks do not cover\<close>

text \<open>
  A string literal that is never closed is accepted, and the length limit does not count
  escaped characters.
\<close>

lemma escapes_unlimited:
  "string_body acc (concat (replicate n [ch CHR 0x5C, ch CHR ''a'']) @ [ch CHR 0x22]) = Ok (acc @ replicate n CHR ''a'', [])"
  by (induction n arbitrary: acc) (simp_all add: unescape_def utf8_def char_of_def bit_0)

lemma unterminated_string: "parse_edn E (map ch [CHR 0x22, CHR ''a'']) = Ok (EString ''a'')"
  by (simp add: parse_edn_def lex_step_def bracket_token_def MAX_STRING_LENGTH_def utf8_def char_of_def bit_0 parse_tokens_def
      parse_value.simps MAX_RECURSION_DEPTH_def)

text \<open>
  The safety of negations is checked at the top level only: in the branch of a disjunction a
  negated variable that nothing binds is accepted.
\<close>

definition nested_negation_text :: "nat list" where
  "nested_negation_text = map ch
     ''(query [:find ?x :where [?x :a ?v] (or (and [?x :b ?v] (not [?x :c ?w])) [?x :d ?v])])''"

definition nested_negation_query :: datalog_query where
  "nested_negation_query = query_new [FVariable ''?x'']
     [PatternC (pattern_new (Symbol ''?x'') (Keyword '':a'') (Symbol ''?v'')),
      Or [[PatternC (pattern_new (Symbol ''?x'') (Keyword '':b'') (Symbol ''?v'')),
           Not [PatternC (pattern_new (Symbol ''?x'') (Keyword '':c'') (Symbol ''?w''))]],
          [PatternC (pattern_new (Symbol ''?x'') (Keyword '':d'') (Symbol ''?v''))]]]"

lemma nested_negation_unchecked:
  "parse_datalog_command toy_env nested_negation_text = Ok (QueryCmd nested_negation_query)"
  "''?w'' \<notin> outer_bound_of (QueryCmd nested_negation_query)"
proof -
  let ?item = "\<lambda>a v. Vector [Symbol ''?x'', Keyword a, Symbol v]"
  have "parse_edn toy_env nested_negation_text = Ok (List [Symbol ''query'', Vector [Keyword '':find'', Symbol ''?x'', Keyword '':where'',
      ?item '':a'' ''?v'', List [Symbol ''or'', List [Symbol ''and'', ?item '':b'' ''?v'', List [Symbol ''not'', ?item '':c'' ''?w'']], ?item '':d'' ''?v'']]])"
    by (simp add: parse_edn_def lex_eval parse_tokens_def parse_value.simps nested_negation_text_def)
  then show "parse_datalog_command toy_env nested_negation_text = Ok (QueryCmd nested_negation_query)"
    by (simp add: parse_datalog_command_def nested_negation_query_def parse_command_def parse_query_def empty_parts_def find_item_def
        where_item_def parse_vector_clause_def parse_query_pattern_def from_edn_def check_not_safety_def check_not_join_safety_def
        check_expr_safety_def check_find_def vars_in_not_def visible_var_def pattern_new_def query_new_def Let_def and_group_def is_sym_def)
  show "''?w'' \<notin> outer_bound_of (QueryCmd nested_negation_query)"
    by (simp add: nested_negation_query_def query_new_def pattern_new_def visible_var_def)
qed

end
