(* ===== verification/File_Header.thy ===== *)
theory File_Header
  imports Prelude
begin

text \<open>
  The header page of a \<^verbatim>\<open>.graph\<close> file, \<^verbatim>\<open>src/storage/mod.rs\<close>: the fixed layout of format 7,
  reading headers of formats 1 to 7, and validation. Shown: what is read back after a
  write for every format version, that no internal error can arise, and that a header
  read from a format 7 page reproduces the page's first 84 bytes.
\<close>

definition PAGE_SIZE :: nat where "PAGE_SIZE = 4096"

definition MAGIC_NUMBER :: bytes where "MAGIC_NUMBER = as_bytes ''MGRF''"

definition FORMAT_VERSION :: u32 where "FORMAT_VERSION = 7"

definition FACT_PAGE_FORMAT_ONE_PER_PAGE :: u8 where "FACT_PAGE_FORMAT_ONE_PER_PAGE = 1"

definition FACT_PAGE_FORMAT_PACKED :: u8 where "FACT_PAGE_FORMAT_PACKED = 2"

text \<open>
  \<^verbatim>\<open>try_into\<close> on a slice of the right length cannot fail, so \<^verbatim>\<open>Int037\<close> never arises.
\<close>

definition read_u32_le :: "bytes \<Rightarrow> nat \<Rightarrow> u32 result" where
  "read_u32_le bs off =
     and_then (ok_or (Internal 36) (slice_get bs off (off + 4))) (\<lambda>b. Ok (u32_from_le b))"

definition read_u64_le :: "bytes \<Rightarrow> nat \<Rightarrow> u64 result" where
  "read_u64_le bs off =
     and_then (ok_or (Internal 36) (slice_get bs off (off + 8))) (\<lambda>b. Ok (u64_from_le b))"

record file_header =
  magic :: bytes
  version :: u32
  page_count :: u64
  node_count :: u64
  last_checkpointed_tx_count :: u64
  eavt_root_page :: u64
  aevt_root_page :: u64
  avet_root_page :: u64
  vaet_root_page :: u64
  index_checksum :: u32
  fact_page_format :: u8
  padding :: bytes
  fact_page_count :: u64
  header_checksum :: u32

definition file_header_new :: file_header where
  "file_header_new =
     \<lparr>magic = MAGIC_NUMBER, version = FORMAT_VERSION, page_count = 1, node_count = 0,
      last_checkpointed_tx_count = 0, eavt_root_page = 0, aevt_root_page = 0, avet_root_page = 0,
      vaet_root_page = 0, index_checksum = 0, fact_page_format = FACT_PAGE_FORMAT_PACKED,
      padding = [0, 0, 0], fact_page_count = 0, header_checksum = 0\<rparr>"

definition to_bytes :: "file_header \<Rightarrow> bytes" where
  "to_bytes h =
     magic h @ u32_to_le (version h) @ u64_to_le (page_count h) @ u64_to_le (node_count h) @
     u64_to_le (last_checkpointed_tx_count h) @ u64_to_le (eavt_root_page h) @
     u64_to_le (aevt_root_page h) @ u64_to_le (avet_root_page h) @ u64_to_le (vaet_root_page h) @
     u32_to_le (index_checksum h) @ [fact_page_format h] @ padding h @
     u64_to_le (fact_page_count h) @ u32_to_le (header_checksum h)"

definition from_bytes :: "bytes \<Rightarrow> file_header result" where
  "from_bytes bs =
     (if length bs < 64 then Err (Stg 1) else
      and_then (ok_or (Internal 38) (slice_get bs 0 4)) (\<lambda>mg.
      if mg \<noteq> MAGIC_NUMBER then Err (Stg 2) else
      and_then (read_u32_le bs 4) (\<lambda>ver.
      and_then (read_u64_le bs 8) (\<lambda>pages.
      and_then (read_u64_le bs 16) (\<lambda>nodes.
      and_then (read_u64_le bs 24) (\<lambda>last_tx.
      if ver \<le> 3 then
        Ok \<lparr>magic = mg, version = ver, page_count = pages, node_count = nodes,
            last_checkpointed_tx_count = last_tx, eavt_root_page = 0, aevt_root_page = 0,
            avet_root_page = 0, vaet_root_page = 0, index_checksum = 0, fact_page_format = 0,
            padding = [0, 0, 0], fact_page_count = 0, header_checksum = 0\<rparr>
      else if length bs < 72 then Err (Stg 3) else
      and_then (if 6 \<le> ver then (if length bs < 80 then Err (Stg 4) else read_u64_le bs 72)
                else Ok 0) (\<lambda>fact_pages.
      and_then (if 7 \<le> ver then (if length bs < 84 then Err (Stg 5) else read_u32_le bs 80)
                else Ok 0) (\<lambda>hsum.
      and_then (read_u64_le bs 32) (\<lambda>ev.
      and_then (read_u64_le bs 40) (\<lambda>ae.
      and_then (read_u64_le bs 48) (\<lambda>av.
      and_then (read_u64_le bs 56) (\<lambda>va.
      and_then (read_u32_le bs 64) (\<lambda>isum.
      and_then (ok_or (Internal 38) (elem_get bs 68)) (\<lambda>fmt.
      and_then (ok_or (Internal 38) (elem_get bs 69)) (\<lambda>p0.
      and_then (ok_or (Internal 38) (elem_get bs 70)) (\<lambda>p1.
      and_then (ok_or (Internal 38) (elem_get bs 71)) (\<lambda>p2.
      Ok \<lparr>magic = mg, version = ver, page_count = pages, node_count = nodes,
          last_checkpointed_tx_count = last_tx, eavt_root_page = ev, aevt_root_page = ae,
          avet_root_page = av, vaet_root_page = va, index_checksum = isum, fact_page_format = fmt,
          padding = [p0, p1, p2], fact_page_count = fact_pages,
          header_checksum = hsum\<rparr>)))))))))))))))))"

definition validate :: "file_header \<Rightarrow> unit result" where
  "validate h =
     (if magic h \<noteq> MAGIC_NUMBER then Err (Internal 39)
      else if version h < 1 \<or> version h > FORMAT_VERSION then Err (Stg 6)
      else if page_count h = 0 then Err (Stg 7)
      else if eavt_root_page h \<noteq> 0 \<and> eavt_root_page h \<ge> page_count h then Err (Stg 8)
      else if fact_page_count h > page_count h then Err (Stg 9)
      else Ok ())"

section \<open>Reading what was written\<close>

text \<open>The fields that format \<open>version h\<close> stores; the others read as zero.\<close>

definition stored_fields :: "file_header \<Rightarrow> file_header" where
  "stored_fields h =
     (if version h \<le> 3 then
        h\<lparr>eavt_root_page := 0, aevt_root_page := 0, avet_root_page := 0, vaet_root_page := 0,
          index_checksum := 0, fact_page_format := 0, padding := [0, 0, 0], fact_page_count := 0,
          header_checksum := 0\<rparr>
      else h\<lparr>fact_page_count := (if 6 \<le> version h then fact_page_count h else 0),
             header_checksum := (if 7 \<le> version h then header_checksum h else 0)\<rparr>)"

lemma MAGIC_NUMBER_length [simp]: "length MAGIC_NUMBER = 4"
  by (simp add: MAGIC_NUMBER_def as_bytes_def)

text \<open>Splitting a page into the fields of the layout; reading a field finds its bytes.\<close>

lemma slice_get_skip [slice_simps]:
  "length xs \<le> a \<Longrightarrow> slice_get (xs @ ys) a b =
     (if a \<le> b then slice_get ys (a - length xs) (b - length xs) else None)"
  by (auto simp: slice_get_def)

lemma slice_get_head [slice_simps]:
  "b = length xs \<Longrightarrow> slice_get (xs @ ys) 0 b = Some xs"
  by (simp add: slice_get_def)

lemma elem_get_skip [slice_simps]:
  "length xs \<le> i \<Longrightarrow> elem_get (xs @ ys) i = elem_get ys (i - length xs)"
  by (auto simp: elem_get_def nth_append)

lemma elem_get_Cons [slice_simps]:
  "elem_get (x # xs) i = (if i = 0 then Some x else elem_get xs (i - 1))"
  by (cases i) (auto simp: elem_get_def)

lemma slice_get_Cons [slice_simps]:
  "0 < a \<Longrightarrow> slice_get (x # xs) a b = (if a \<le> b then slice_get xs (a - 1) (b - 1) else None)"
  using slice_get_skip [of "[x]" a xs b] by simp

lemma length_3: "length xs = 3 \<longleftrightarrow> (\<exists>x y z. xs = [x, y, z])"
  by (auto simp: numeral_3_eq_3 length_Suc_conv)

lemma from_bytes_to_bytes:
  assumes "magic h = MAGIC_NUMBER" and "length (padding h) = 3"
  shows "from_bytes (to_bytes h @ rest) = Ok (stored_fields h)"
proof -
  obtain x y z where p: "padding h = [x, y, z]" using assms(2) by (auto simp: length_3)
  show ?thesis
    unfolding from_bytes_def to_bytes_def read_u32_le_def read_u64_le_def
    using assms(1) p
    by (cases h) (simp add: slice_get_skip slice_get_head slice_get_Cons elem_get_skip elem_get_Cons stored_fields_def)
qed

section \<open>Arbitrary input\<close>

lemma read_in_range:
  "off + 4 \<le> length bs \<Longrightarrow> read_u32_le bs off = Ok (u32_from_le (take 4 (drop off bs)))"
  "off + 8 \<le> length bs \<Longrightarrow> read_u64_le bs off = Ok (u64_from_le (take 8 (drop off bs)))"
  by (simp_all add: read_u32_le_def read_u64_le_def slice_get_def)

definition stored_version :: "bytes \<Rightarrow> u32" where
  "stored_version bs = u32_from_le (take 4 (drop 4 bs))"

text \<open>
  On any input \<^verbatim>\<open>from_bytes\<close> fails exactly with the storage error its length, magic and
  version call for; the internal errors (\<^verbatim>\<open>Int036\<close>, \<^verbatim>\<open>Int037\<close>, \<^verbatim>\<open>Int038\<close>) never arise,
  and input that is long enough for its version is accepted.
\<close>

lemma from_bytes_error_iff:
  "from_bytes bs = Err e \<longleftrightarrow>
     (length bs < 64 \<and> e = (Stg 1) \<or>
      64 \<le> length bs \<and> take 4 bs \<noteq> MAGIC_NUMBER \<and> e = (Stg 2) \<or>
      64 \<le> length bs \<and> take 4 bs = MAGIC_NUMBER \<and> 3 < stored_version bs \<and>
        (length bs < 72 \<and> e = (Stg 3) \<or>
         72 \<le> length bs \<and> length bs < 80 \<and> 6 \<le> stored_version bs \<and> e = (Stg 4) \<or>
         80 \<le> length bs \<and> length bs < 84 \<and> 7 \<le> stored_version bs \<and> e = (Stg 5)))"
proof -
  have "\<not> (7 \<le> stored_version bs \<and> stored_version bs < 6)"
    by (simp add: word_le_nat_alt word_less_nat_alt)
  then show ?thesis
    by (auto simp: from_bytes_def read_in_range slice_get_def elem_get_def stored_version_def not_less not_le)
qed

lemma chunks_of:
  "length b = n + k \<Longrightarrow> \<exists>x y. b = x @ y \<and> length x = n \<and> length y = k"
  by (rule exI [of _ "take n b"], rule exI [of _ "drop n b"]) simp

lemma header_of_84_bytes:
  assumes "length b = 84"
  obtains h where "to_bytes h = b" "magic h = take 4 b" "length (padding h) = 3" "version h = stored_version b"
proof -
  obtain m b1 where b: "b = m @ b1" "length m = 4" "length b1 = 4 + 76"
    using chunks_of [of b 4 80] assms by auto
  obtain v b2 where b1: "b1 = v @ b2" "length v = 4" "length b2 = 8 + 68" using chunks_of [OF b(3)] by auto
  obtain c1 b3 where b2: "b2 = c1 @ b3" "length c1 = 8" "length b3 = 8 + 60" using chunks_of [OF b1(3)] by auto
  obtain c2 b4 where b3: "b3 = c2 @ b4" "length c2 = 8" "length b4 = 8 + 52" using chunks_of [OF b2(3)] by auto
  obtain c3 b5 where b4: "b4 = c3 @ b5" "length c3 = 8" "length b5 = 8 + 44" using chunks_of [OF b3(3)] by auto
  obtain c4 b6 where b5: "b5 = c4 @ b6" "length c4 = 8" "length b6 = 8 + 36" using chunks_of [OF b4(3)] by auto
  obtain c5 b7 where b6: "b6 = c5 @ b7" "length c5 = 8" "length b7 = 8 + 28" using chunks_of [OF b5(3)] by auto
  obtain c6 b8 where b7: "b7 = c6 @ b8" "length c6 = 8" "length b8 = 8 + 20" using chunks_of [OF b6(3)] by auto
  obtain c7 b9 where b8: "b8 = c7 @ b9" "length c7 = 8" "length b9 = 4 + 16" using chunks_of [OF b7(3)] by auto
  obtain s1 b10 where b9: "b9 = s1 @ b10" "length s1 = 4" "length b10 = 1 + 15" using chunks_of [OF b8(3)] by auto
  obtain f b11 where b10: "b10 = f # b11" "length b11 = 3 + 12" using b9(3) by (cases b10) auto
  obtain p b12 where b11: "b11 = p @ b12" "length p = 3" "length b12 = 8 + 4" using chunks_of [OF b10(2)] by auto
  obtain c8 s2 where b12: "b12 = c8 @ s2" "length c8 = 8" "length s2 = 4" using chunks_of [OF b11(3)] by auto
  let ?h = "\<lparr>magic = m, version = u32_from_le v, page_count = u64_from_le c1, node_count = u64_from_le c2,
    last_checkpointed_tx_count = u64_from_le c3, eavt_root_page = u64_from_le c4,
    aevt_root_page = u64_from_le c5, avet_root_page = u64_from_le c6, vaet_root_page = u64_from_le c7,
    index_checksum = u32_from_le s1, fact_page_format = f, padding = p, fact_page_count = u64_from_le c8,
    header_checksum = u32_from_le s2\<rparr>"
  note parts = b b1 b2 b3 b4 b5 b6 b7 b8 b9 b10 b11 b12
  show thesis
  proof (rule that)
    show "to_bytes ?h = b" using parts by (simp add: to_bytes_def to_from_le)
    show "magic ?h = take 4 b" using parts by simp
    show "length (padding ?h) = 3" using parts by simp
    show "version ?h = stored_version b" using parts by (simp add: stored_version_def)
  qed
qed

text \<open>
  A header read from a format 7 page carries everything the page's first 84 bytes say:
  writing it again reproduces them. So reading loses nothing, padding included.
\<close>

lemma header_reread:
  assumes "from_bytes bs = Ok h" and "7 \<le> version h"
  shows "to_bytes h = take 84 bs"
proof -
  have small: "\<not> (7 \<le> v \<and> (v < 6 \<or> v \<le> 3))" for v :: u32
    by (simp add: word_le_nat_alt word_less_nat_alt)
  have len: "84 \<le> length bs" and mg: "take 4 bs = MAGIC_NUMBER"
    using assms small
    by (auto simp: from_bytes_def read_in_range slice_get_def and_then_eq_Inr not_less split: if_splits)
  obtain h' where h': "to_bytes h' = take 84 bs" "magic h' = take 4 (take 84 bs)"
    "length (padding h') = 3" "version h' = stored_version (take 84 bs)"
    using len by (auto intro: header_of_84_bytes [of "take 84 bs"])
  have "from_bytes (to_bytes h' @ drop 84 bs) = Ok (stored_fields h')"
    using h' mg by (intro from_bytes_to_bytes) simp_all
  then have h: "h = stored_fields h'" using assms(1) h'(1) by simp
  then have "version h' = version h" by (simp add: stored_fields_def)
  with assms(2) small [of "version h"] have "stored_fields h' = h'"
    by (simp add: stored_fields_def not_less)
  with h h'(1) show ?thesis by simp
qed

end
