(* ===== verification/Backend.thy ===== *)
theory Backend
  imports File_Header "HOL-Library.AList"
begin

text \<open>
  Page stores: the contract of the \<^verbatim>\<open>StorageBackend\<close> trait as the locale \<open>backend\<close>, and its two
  native implementations, \<^verbatim>\<open>src/storage/backend/memory.rs\<close> and \<^verbatim>\<open>src/storage/backend/file.rs\<close>.
  Page 0 holds the header and is special to the file backend (it rewrites it when the
  store grows), so the contract is about the data pages, 1 and up.

  A file is its byte sequence. Operating-system failures other than reading past the end
  are not modelled; the lock and the path registry of \<^verbatim>\<open>open_with\<close> are not modelled either.
\<close>

section \<open>The contract\<close>

record 'b backend_ops =
  write_page :: "u64 \<Rightarrow> bytes \<Rightarrow> 'b \<Rightarrow> unit result \<times> 'b"
  read_page :: "'b \<Rightarrow> u64 \<Rightarrow> bytes result"
  backend_page_count :: "'b \<Rightarrow> u64 result"

locale backend =
  fixes ops :: "'b backend_ops" and invar :: "'b \<Rightarrow> bool"
  assumes write_bad: "length d \<noteq> PAGE_SIZE \<Longrightarrow> write_page ops p d b = (Err (Internal 51), b)"
    and invar_write: "invar b \<Longrightarrow> p \<noteq> 0 \<Longrightarrow> write_page ops p d b = (Ok (), b') \<Longrightarrow> invar b'"
    and read_length: "invar b \<Longrightarrow> read_page ops b p = Ok d \<Longrightarrow> length d = PAGE_SIZE"
    and read_same: "invar b \<Longrightarrow> p \<noteq> 0 \<Longrightarrow> write_page ops p d b = (Ok (), b') \<Longrightarrow>
      read_page ops b' p = Ok d"
    and read_other: "invar b \<Longrightarrow> p \<noteq> 0 \<Longrightarrow> q \<noteq> 0 \<Longrightarrow> q \<noteq> p \<Longrightarrow>
      write_page ops p d b = (Ok (), b') \<Longrightarrow> read_page ops b q = Ok x \<Longrightarrow> read_page ops b' q = Ok x"
begin

lemma write_length: "write_page ops p d b = (Ok (), b') \<Longrightarrow> length d = PAGE_SIZE"
  using write_bad [of d p b] by force

end

section \<open>The memory backend\<close>

type_synonym memory_backend = "(u64 \<times> bytes) list"

definition memory_backend_new :: memory_backend where
  "memory_backend_new = []"

definition memory_write_page :: "u64 \<Rightarrow> bytes \<Rightarrow> memory_backend \<Rightarrow> unit result \<times> memory_backend" where
  "memory_write_page p d b =
     (if length d \<noteq> PAGE_SIZE then (Err (Internal 51), b) else (Ok (), AList.update p d b))"

definition memory_read_page :: "memory_backend \<Rightarrow> u64 \<Rightarrow> bytes result" where
  "memory_read_page b p = ok_or (Internal 52) (map_of b p)"

definition memory_page_count :: "memory_backend \<Rightarrow> u64 result" where
  "memory_page_count b = Ok (of_nat (length b))"

definition memory_ops :: "memory_backend backend_ops" where
  "memory_ops = \<lparr>write_page = memory_write_page, read_page = memory_read_page,
     backend_page_count = memory_page_count\<rparr>"

definition memory_inv :: "memory_backend \<Rightarrow> bool" where
  "memory_inv b \<longleftrightarrow> distinct (map fst b) \<and> list_all (\<lambda>(p, d). length d = PAGE_SIZE) b"

section \<open>The file backend\<close>

definition file_write :: "nat \<Rightarrow> bytes \<Rightarrow> bytes \<Rightarrow> bytes" where
  "file_write off d f =
     take off (f @ replicate (off - length f) 0) @ d @ drop (off + length d) f"

definition file_read_exact :: "bytes \<Rightarrow> nat \<Rightarrow> nat \<Rightarrow> bytes result" where
  "file_read_exact f off n = ok_or Io (slice_get f off (off + n))"

record file_backend =
  contents :: bytes
  header :: file_header
  backend_is_new :: bool

text \<open>\<^verbatim>\<open>compute_header_checksum\<close> of \<^verbatim>\<open>persistent_facts.rs\<close>; \<open>crc\<close> is the \<^verbatim>\<open>crc32fast\<close> hash.\<close>

definition compute_header_checksum :: "(bytes \<Rightarrow> u32) \<Rightarrow> file_header \<Rightarrow> u32" where
  "compute_header_checksum crc h = crc (take 80 (to_bytes h))"

definition read_header :: "bytes \<Rightarrow> file_header result" where
  "read_header f =
     and_then (file_read_exact f 0 PAGE_SIZE) (\<lambda>page.
     and_then (from_bytes page) (\<lambda>h.
     and_then (validate h) (\<lambda>_. Ok h)))"

definition write_header :: "file_header \<Rightarrow> bytes \<Rightarrow> bytes result" where
  "write_header h f =
     and_then (copy_at (Internal 49) (replicate PAGE_SIZE 0) 0 (to_bytes h)) (\<lambda>page.
       Ok (file_write 0 page f))"

text \<open>What a torn write of the initial header can leave: a prefix of it, then zeros.\<close>

definition is_initial_header_prefix :: "bytes \<Rightarrow> bool" where
  "is_initial_header_prefix bs =
     (let expected = to_bytes file_header_new;
          written = length bs - length (takeWhile (\<lambda>b. b = 0) (rev bs))
      in slice_get bs 0 written = slice_get expected 0 written)"

text \<open>\<^verbatim>\<open>open_with\<close> once the lock is held: from the file's contents to the backend.\<close>

definition open_contents :: "bytes \<Rightarrow> file_backend result" where
  "open_contents f =
     (if PAGE_SIZE \<le> length f then
        and_then (case read_header f of Inl Io \<Rightarrow> Err (Stg 10) | r \<Rightarrow> r) (\<lambda>h.
          Ok \<lparr>contents = f, header = h, backend_is_new = False\<rparr>)
      else if f \<noteq> [] \<and> \<not> is_initial_header_prefix f then Err (Stg 45)
      else and_then (write_header file_header_new f) (\<lambda>f'.
          Ok \<lparr>contents = f', header = file_header_new, backend_is_new = True\<rparr>))"

datatype try_lock = Locked | WouldBlock | LockError

datatype lock_outcome = Acquired | Held | Unsupported | ProceedUnlocked

fun classify :: "try_lock \<Rightarrow> bool \<Rightarrow> lock_outcome" where
  "classify Locked allow_unlocked = Acquired"
| "classify WouldBlock allow_unlocked = Held"
| "classify LockError allow_unlocked = (if allow_unlocked then ProceedUnlocked else Unsupported)"

definition page_offset :: "u64 \<Rightarrow> nat result" where
  "page_offset p = (if unat p * PAGE_SIZE < 2 ^ 64 then Ok (unat p * PAGE_SIZE) else Err (Internal 48))"

definition file_write_page ::
    "(bytes \<Rightarrow> u32) \<Rightarrow> u64 \<Rightarrow> bytes \<Rightarrow> file_backend \<Rightarrow> unit result \<times> file_backend" where
  "file_write_page crc p d b =
     (if length d \<noteq> PAGE_SIZE then (Err (Internal 51), b)
      else case page_offset p of
        Inl e \<Rightarrow> (Err e, b)
      | Inr off \<Rightarrow>
          (let b1 = b\<lparr>contents := file_write off d (contents b)\<rparr> in
           if p = 0 then
             (case from_bytes d of
                Inl e \<Rightarrow> (Err e, b1)
              | Inr h \<Rightarrow> (Ok (), b1\<lparr>header := h\<rparr>))
           else if page_count (header b) \<le> p then
             (if unat p + 1 < 2 ^ 64 then
                let h1 = (header b)\<lparr>page_count := p + 1\<rparr>;
                    h2 = h1\<lparr>header_checksum := compute_header_checksum crc h1\<rparr>;
                    b2 = b1\<lparr>header := h2\<rparr>
                in case write_header h2 (contents b1) of
                     Inl e \<Rightarrow> (Err e, b2)
                   | Inr f \<Rightarrow> (Ok (), b2\<lparr>contents := f\<rparr>)
              else (Err (Internal 48), b1))
           else (Ok (), b1)))"

definition file_read_page :: "file_backend \<Rightarrow> u64 \<Rightarrow> bytes result" where
  "file_read_page b p =
     (if page_count (header b) \<le> p then Err (Internal 49)
      else and_then (page_offset p) (\<lambda>off. file_read_exact (contents b) off PAGE_SIZE))"

definition file_page_count :: "file_backend \<Rightarrow> u64 result" where
  "file_page_count b = Ok (page_count (header b))"

definition file_ops :: "(bytes \<Rightarrow> u32) \<Rightarrow> file_backend backend_ops" where
  "file_ops crc = \<lparr>write_page = file_write_page crc, read_page = file_read_page,
     backend_page_count = file_page_count\<rparr>"

definition file_inv :: "file_backend \<Rightarrow> bool" where
  "file_inv b \<longleftrightarrow> length (magic (header b)) = 4 \<and> length (padding (header b)) = 3"

section \<open>Both keep the contract\<close>

lemma set_alist_update: "set (AList.update k v xs) \<subseteq> insert (k, v) (set xs)"
  by (induction xs) auto

interpretation memory: backend memory_ops memory_inv
proof unfold_locales
  fix d p b b' q x
  show "length d \<noteq> PAGE_SIZE \<Longrightarrow> write_page memory_ops p d b = (Err (Internal 51), b)"
    by (simp add: memory_ops_def memory_write_page_def)
  show "memory_inv b \<Longrightarrow> write_page memory_ops p d b = (Ok (), b') \<Longrightarrow> memory_inv b'"
    using set_alist_update [of p d b]
    by (auto simp: memory_ops_def memory_write_page_def memory_inv_def distinct_update list_all_iff split: if_splits)
  show "memory_inv b \<Longrightarrow> read_page memory_ops b p = Ok d \<Longrightarrow> length d = PAGE_SIZE"
    by (auto simp: memory_ops_def memory_read_page_def memory_inv_def list_all_iff dest!: map_of_SomeD)
  show "write_page memory_ops p d b = (Ok (), b') \<Longrightarrow> read_page memory_ops b' p = Ok d"
    by (auto simp: memory_ops_def memory_write_page_def memory_read_page_def update_conv split: if_splits)
  show "q \<noteq> p \<Longrightarrow> write_page memory_ops p d b = (Ok (), b') \<Longrightarrow>
    read_page memory_ops b q = Ok x \<Longrightarrow> read_page memory_ops b' q = Ok x"
    by (auto simp: memory_ops_def memory_write_page_def memory_read_page_def update_conv split: if_splits)
qed

lemma length_to_bytes:
  "length (magic h) = 4 \<Longrightarrow> length (padding h) = 3 \<Longrightarrow> length (to_bytes h) = 84"
  by (simp add: to_bytes_def)

lemma min_plus_diff [simp]: "min (n :: nat) m + (m - n) = m"
  by simp

lemma length_file_write: "length (file_write off d f) = max (off + length d) (length f)"
  by (simp add: file_write_def max_def flip: add.assoc)

lemma file_write_same: "slice_get (file_write off d f) off (off + length d) = Some d"
  by (auto simp: slice_get_def file_write_def)

lemma nth_file_write:
  "i < length (file_write off d f) \<Longrightarrow> file_write off d f ! i =
     (if off \<le> i \<and> i < off + length d then d ! (i - off) else if i < length f then f ! i else 0)"
  by (auto simp: file_write_def nth_append simp flip: add.assoc)

lemma file_write_other:
  assumes "slice_get f a b = Some x" "b \<le> off \<or> off + length d \<le> a"
  shows "slice_get (file_write off d f) a b = Some x"
proof (rule slice_get_eqI)
  from assms have x: "a \<le> b" "b \<le> length f" "x = take (b - a) (drop a f)"
    by (auto simp: slice_get_def split: if_splits)
  then show "b = a + length x" by simp
  show "b \<le> length (file_write off d f)" using x by (simp add: length_file_write)
  show "file_write off d f ! (a + i) = x ! i" if "i < length x" for i
    using that x assms(2) by (subst nth_file_write) (auto simp: length_file_write)
qed


lemma write_header_Ok:
  assumes "length (magic h) = 4" "length (padding h) = 3"
  shows "\<exists>page. write_header h f = Ok (file_write 0 page f) \<and> length page = PAGE_SIZE"
  using assms
  by (intro exI [of _ "overwrite (replicate PAGE_SIZE 0) 0 (to_bytes h)"])
    (simp add: write_header_def copy_at_def length_to_bytes PAGE_SIZE_def)

lemma from_bytes_wf:
  "from_bytes bs = Ok h \<Longrightarrow> length (magic h) = 4 \<and> length (padding h) = 3"
  by (auto simp: from_bytes_def and_then_eq_Inr split: if_splits)

text \<open>The effect of a successful write to a data page, growing the file or not.\<close>

lemma file_write_page_Ok:
  assumes "file_inv b" "p \<noteq> 0" "file_write_page crc p d b = (Ok (), b')"
  shows "length d = PAGE_SIZE \<and> unat p * PAGE_SIZE < 2 ^ 64 \<and>
    page_count (header b') = max (page_count (header b)) (p + 1) \<and> p < page_count (header b') \<and>
    (\<exists>page. contents b' = file_write (unat p * PAGE_SIZE) d (contents b) \<or>
       length page = PAGE_SIZE \<and>
       contents b' = file_write 0 page (file_write (unat p * PAGE_SIZE) d (contents b)))"
proof (cases "page_count (header b) \<le> p")
  case True
  let ?h = "(header b)\<lparr>page_count := p + 1\<rparr>"
  obtain page where "write_header (?h\<lparr>header_checksum := compute_header_checksum crc ?h\<rparr>)
      (file_write (unat p * PAGE_SIZE) d (contents b)) =
      Ok (file_write 0 page (file_write (unat p * PAGE_SIZE) d (contents b)))" "length page = PAGE_SIZE"
    using write_header_Ok [of "?h\<lparr>header_checksum := compute_header_checksum crc ?h\<rparr>"] assms(1)
    by (auto simp: file_inv_def)
  moreover have "p < p + 1" "page_count (header b) \<le> p + 1" if "unat p + 1 < 2 ^ 64"
    using that True by (simp_all add: word_less_nat_alt word_le_nat_alt unat_word_ariths(1))
  ultimately show ?thesis
    using assms True
    by (auto simp: file_write_page_def page_offset_def max_def Let_def split: if_splits)
next
  case False
  then have "p + 1 \<le> page_count (header b)" by (simp add: inc_le)
  with False show ?thesis
    using assms
    by (auto simp: file_write_page_def page_offset_def max_def Let_def not_le split: if_splits)
qed

interpretation filed: backend "file_ops crc" file_inv for crc
proof unfold_locales
  fix d p b b' q x
  show "length d \<noteq> PAGE_SIZE \<Longrightarrow> write_page (file_ops crc) p d b = (Err (Internal 51), b)"
    by (simp add: file_ops_def file_write_page_def)
  show "file_inv b \<Longrightarrow> write_page (file_ops crc) p d b = (Ok (), b') \<Longrightarrow> file_inv b'"
    by (auto simp: file_ops_def file_write_page_def file_inv_def Let_def split: sum.splits if_splits
      dest: from_bytes_wf)
  show "read_page (file_ops crc) b p = Ok d \<Longrightarrow> length d = PAGE_SIZE"
    by (auto simp: file_ops_def file_read_page_def file_read_exact_def slice_get_def and_then_eq_Inr
      split: if_splits)
  assume inv: "file_inv b" and p: "p \<noteq> 0" and w: "write_page (file_ops crc) p d b = (Ok (), b')"
  let ?off = "unat p * PAGE_SIZE"
  from w have "file_write_page crc p d b = (Ok (), b')" by (simp add: file_ops_def)
  with inv p obtain page where len: "length d = PAGE_SIZE" "?off < 2 ^ 64"
    and pc: "page_count (header b') = max (page_count (header b)) (p + 1)" "p < page_count (header b')"
    and c: "contents b' = file_write ?off d (contents b) \<or>
      length page = PAGE_SIZE \<and> contents b' = file_write 0 page (file_write ?off d (contents b))"
    using file_write_page_Ok [of b p crc d b'] by blast
  have pos: "0 < unat p" "PAGE_SIZE \<le> ?off" using p by (simp_all add: unat_gt_0 Suc_leI)
  have "slice_get (contents b') ?off (?off + PAGE_SIZE) = Some d"
    using c file_write_same [of ?off d "contents b"] pos len by (auto intro!: file_write_other)
  then show "read_page (file_ops crc) b' p = Ok d"
    using pc(2) len by (simp add: file_ops_def file_read_page_def file_read_exact_def page_offset_def not_le)
  assume q: "q \<noteq> 0" "q \<noteq> p" and r: "read_page (file_ops crc) b q = Ok x"
  let ?qoff = "unat q * PAGE_SIZE"
  from r have rq: "q < page_count (header b)" "?qoff < 2 ^ 64"
    "slice_get (contents b) ?qoff (?qoff + PAGE_SIZE) = Some x"
    by (auto simp: file_ops_def file_read_page_def file_read_exact_def page_offset_def not_le and_then_eq_Inr
      split: if_splits)
  have disj: "?qoff + PAGE_SIZE \<le> ?off \<or> ?off + PAGE_SIZE \<le> ?qoff"
  proof -
    have "unat q < unat p \<or> unat p < unat q" using q(2) by (metis nat_neq_iff word_unat_eq_iff)
    then have "unat q + 1 \<le> unat p \<or> unat p + 1 \<le> unat q" by linarith
    then show ?thesis by (metis add_mult_distrib mult_le_mono1 nat_mult_1)
  qed
  have "PAGE_SIZE \<le> ?qoff" using q(1) by (simp add: unat_gt_0 Suc_leI)
  then have "slice_get (contents b') ?qoff (?qoff + PAGE_SIZE) = Some x"
    using c rq(3) disj len by (auto intro!: file_write_other)
  moreover have "q < page_count (header b')" using rq(1) by (simp add: pc(1) less_max_iff_disj)
  ultimately show "read_page (file_ops crc) b' q = Ok x"
    using rq(2) by (simp add: file_ops_def file_read_page_def file_read_exact_def page_offset_def not_le)
qed

text \<open>A write of one page at a representable offset succeeds.\<close>

lemma file_write_succeeds:
  assumes "file_inv b" "p \<noteq> 0" "length d = PAGE_SIZE" "unat p * PAGE_SIZE < 2 ^ 64"
  shows "\<exists>b'. file_write_page crc p d b = (Ok (), b')"
proof -
  let ?h = "(header b)\<lparr>page_count := p + 1\<rparr>"
  have "unat p + 1 < 2 ^ 64" using assms(4) by (simp add: PAGE_SIZE_def)
  moreover obtain f where "write_header (?h\<lparr>header_checksum := compute_header_checksum crc ?h\<rparr>)
      (file_write (unat p * PAGE_SIZE) d (contents b)) = Ok f"
    using write_header_Ok [of "?h\<lparr>header_checksum := compute_header_checksum crc ?h\<rparr>"] assms(1)
    by (auto simp: file_inv_def)
  ultimately show ?thesis
    using assms by (auto simp: file_write_page_def page_offset_def Let_def)
qed

section \<open>Properties of the file backend\<close>

text \<open>
  Data pages of the file backend behave as independent cells: after a successful write of
  page \<open>p\<close>, page \<open>p\<close> reads back as written, every other data page that could be read reads
  the same, and growing the file (which rewrites the header page) disturbs neither.
\<close>

lemma file_pages_independent:
  assumes "file_inv b" and "p \<noteq> 0" and "file_write_page crc p d b = (Ok (), b')"
  shows "file_read_page b' p = Ok d \<and>
    (\<forall>q x. q \<noteq> 0 \<longrightarrow> q \<noteq> p \<longrightarrow> file_read_page b q = Ok x \<longrightarrow> file_read_page b' q = Ok x)"
  using assms filed.read_same [of b p crc d b'] filed.read_other [of b p _ crc d b']
  by (simp add: file_ops_def)

text \<open>The header on disk is the one in memory, and valid.\<close>

definition header_synced :: "file_backend \<Rightarrow> bool" where
  "header_synced b \<longleftrightarrow> read_header (contents b) = Ok (header b) \<and> version (header b) = 7"

lemma read_header_Ok:
  "read_header f = Ok h \<longleftrightarrow>
     (\<exists>page. slice_get f 0 PAGE_SIZE = Some page \<and> from_bytes page = Ok h) \<and> validate h = Ok ()"
  by (auto simp: read_header_def file_read_exact_def and_then_eq_Inr)

lemma read_header_written:
  assumes "magic h = MAGIC_NUMBER" "length (padding h) = 3" "version h = 7" "validate h = Ok ()"
    "write_header h f = Ok f'"
  shows "read_header f' = Ok h"
proof -
  let ?page = "to_bytes h @ replicate (PAGE_SIZE - 84) 0"
  have "length (to_bytes h) = 84" using assms by (simp add: length_to_bytes)
  then have "overwrite (replicate PAGE_SIZE 0) 0 (to_bytes h) = ?page" "length ?page = PAGE_SIZE"
    by (simp_all add: overwrite_def PAGE_SIZE_def)
  then have "f' = file_write 0 ?page f"
    using assms(5) by (auto simp: write_header_def copy_at_def split: if_splits)
  then have "slice_get f' 0 PAGE_SIZE = Some ?page"
    using file_write_same [of 0 ?page f] \<open>length ?page = PAGE_SIZE\<close> by simp
  moreover have "stored_fields h = h" using assms(3) by (simp add: stored_fields_def)
  with assms have "from_bytes ?page = Ok h" by (simp add: from_bytes_to_bytes)
  ultimately show ?thesis using assms(4) by (auto simp: read_header_Ok)
qed

lemma validate_grow:
  assumes "validate h = Ok ()" "page_count h \<le> p" "unat p + 1 < 2 ^ 64"
  shows "validate (h\<lparr>page_count := p + 1, header_checksum := c\<rparr>) = Ok ()"
proof -
  have p: "p < p + 1" "p + 1 \<noteq> 0"
    using assms(3) by (auto simp: word_less_nat_alt unat_word_ariths(1) word_unat_eq_iff)
  with assms show ?thesis
    by (auto simp: validate_def not_less not_le split: if_splits)
qed

lemma validate_magic: "validate h = Ok () \<Longrightarrow> magic h = MAGIC_NUMBER"
  by (simp add: validate_def split: if_splits)

text \<open>
  The header on disk is self-consistent after every page write, not only at commits: if it
  was in step with memory before, it is after, so closing or crashing there and reopening
  the file gives the same header and the same pages. When the file grows the new
  header's checksum is the one its own bytes call for.
\<close>

lemma file_write_reopen:
  assumes sync: "header_synced b" and p: "p \<noteq> 0" and w: "file_write_page crc p d b = (Ok (), b')"
  shows "header_synced b' \<and> open_contents (contents b') = Ok (b'\<lparr>backend_is_new := False\<rparr>) \<and>
    (page_count (header b) \<le> p \<longrightarrow>
       header_checksum (header b') = compute_header_checksum crc (header b'))"
proof -
  from sync have v: "validate (header b) = Ok ()" "version (header b) = 7"
    and wf: "length (magic (header b)) = 4" "length (padding (header b)) = 3"
    by (auto simp: header_synced_def read_header_Ok dest: from_bytes_wf)
  have synced: "header_synced b' \<and> (page_count (header b) \<le> p \<longrightarrow>
       header_checksum (header b') = compute_header_checksum crc (header b'))"
  proof (cases "page_count (header b) \<le> p")
    case True
    let ?h1 = "(header b)\<lparr>page_count := p + 1\<rparr>"
    let ?h = "?h1\<lparr>header_checksum := compute_header_checksum crc ?h1\<rparr>"
    from w True p have n: "unat p + 1 < 2 ^ 64"
      and h: "header b' = ?h" "write_header ?h (file_write (unat p * PAGE_SIZE) d (contents b)) = Ok (contents b')"
      by (auto simp: file_write_page_def page_offset_def Let_def split: if_splits sum.splits)
    have "read_header (contents b') = Ok ?h"
      by (rule read_header_written [OF _ _ _ validate_grow [OF v(1) True n] h(2)])
        (use v wf validate_magic [OF v(1)] in simp_all)
    moreover have "take 80 (to_bytes ?h) = take 80 (to_bytes ?h1)" using wf by (simp add: to_bytes_def)
    ultimately show ?thesis using v(2) h(1) by (simp add: header_synced_def compute_header_checksum_def)
  next
    case False
    with w p have b': "header b' = header b" "length d = PAGE_SIZE"
      "contents b' = file_write (unat p * PAGE_SIZE) d (contents b)"
      by (auto simp: file_write_page_def page_offset_def Let_def split: if_splits)
    have "PAGE_SIZE \<le> unat p * PAGE_SIZE" using p by (simp add: unat_gt_0 Suc_leI)
    then have "slice_get (contents b') 0 PAGE_SIZE = Some page"
      if "slice_get (contents b) 0 PAGE_SIZE = Some page" for page
      using that by (simp only: b'(3)) (rule file_write_other, simp_all)
    with sync have "read_header (contents b') = Ok (header b)"
      by (auto simp: header_synced_def read_header_Ok)
    with False b' v(2) show ?thesis by (simp add: header_synced_def)
  qed
  moreover from this have "read_header (contents b') = Ok (header b')" by (simp add: header_synced_def)
  then have "PAGE_SIZE \<le> length (contents b')"
    by (auto simp: read_header_Ok slice_get_def split: if_splits)
  with \<open>read_header (contents b') = Ok (header b')\<close>
  have "open_contents (contents b') = Ok (b'\<lparr>backend_is_new := False\<rparr>)"
    by (simp add: open_contents_def)
  ultimately show ?thesis by simp
qed

text \<open>A store just created, for the instances.\<close>

definition fresh_backend :: file_backend where
  "fresh_backend = \<lparr>contents = to_bytes file_header_new @ replicate (PAGE_SIZE - 84) 0,
     header = file_header_new, backend_is_new = True\<rparr>"

lemma header_new_wf [simp]:
  "magic file_header_new = MAGIC_NUMBER" "padding file_header_new = [0, 0, 0]"
  "version file_header_new = 7" "page_count file_header_new = 1" "validate file_header_new = Ok ()"
  by (simp_all add: file_header_new_def FORMAT_VERSION_def validate_def)

lemma open_empty: "open_contents [] = Ok fresh_backend"
proof -
  have "overwrite (replicate PAGE_SIZE 0) 0 (to_bytes file_header_new) =
      to_bytes file_header_new @ replicate (PAGE_SIZE - 84) 0"
    by (simp add: overwrite_def length_to_bytes PAGE_SIZE_def)
  then show ?thesis
    by (simp add: open_contents_def write_header_def copy_at_def length_to_bytes file_write_def
      fresh_backend_def PAGE_SIZE_def)
qed

lemma fresh_backend_synced: "header_synced fresh_backend" "file_inv fresh_backend"
proof -
  have "write_header file_header_new [] = Ok (contents fresh_backend)"
    using open_empty by (auto simp: open_contents_def fresh_backend_def and_then_eq_Inr PAGE_SIZE_def)
  from read_header_written [OF _ _ _ _ this] show "header_synced fresh_backend"
    by (simp add: header_synced_def fresh_backend_def)
  show "file_inv fresh_backend" by (simp add: file_inv_def fresh_backend_def)
qed

lemma fresh_backend_write:
  "fst (file_write_page crc 1 (replicate PAGE_SIZE 7) fresh_backend) = Ok ()"
  using file_write_succeeds [OF fresh_backend_synced(2), of 1 "replicate PAGE_SIZE 7" crc]
  by (auto simp: PAGE_SIZE_def)

lemma takeWhile_replicate_append:
  "takeWhile (\<lambda>b. b = x) (replicate k x @ ys) = replicate k x @ takeWhile (\<lambda>b. b = x) ys"
  by (induction k) simp_all

lemma initial_header_prefix:
  "is_initial_header_prefix (take n (to_bytes file_header_new) @ replicate k 0)"
proof -
  let ?h = "take n (to_bytes file_header_new)" and ?f = "take n (to_bytes file_header_new) @ replicate k 0"
  define w where "w = length ?f - length (takeWhile (\<lambda>b. b = 0) (rev ?f))"
  have "takeWhile (\<lambda>b. b = 0) (rev ?f) = replicate k 0 @ takeWhile (\<lambda>b. b = 0) (rev ?h)"
    by (simp add: takeWhile_replicate_append)
  then have "w = length ?h - length (takeWhile (\<lambda>b. b = 0) (rev ?h))" by (simp add: w_def)
  then have w: "w \<le> length ?h" by linarith
  then have "w \<le> length (to_bytes file_header_new)" "w \<le> n" by simp_all
  with w have "slice_get ?f 0 w = slice_get (to_bytes file_header_new) 0 w"
    by (simp add: slice_get_def min_absorb1 trans_le_add1)
  then show ?thesis unfolding is_initial_header_prefix_def w_def Let_def .
qed

lemma open_short:
  assumes "length f < PAGE_SIZE" "f = [] \<or> is_initial_header_prefix f"
  shows "open_contents f = Ok fresh_backend"
proof -
  have "overwrite (replicate PAGE_SIZE 0) 0 (to_bytes file_header_new) = contents fresh_backend"
    "length (contents fresh_backend) = PAGE_SIZE"
    by (simp_all add: overwrite_def length_to_bytes fresh_backend_def PAGE_SIZE_def)
  then have "write_header file_header_new f = Ok (contents fresh_backend)"
    using assms(1) by (simp add: write_header_def copy_at_def length_to_bytes file_write_def PAGE_SIZE_def)
  with assms show ?thesis by (auto simp: open_contents_def fresh_backend_def)
qed

text \<open>
  Opening an empty file creates a store, and a file left short by a torn write of that
  initial header is a new store again, whatever prefix of the page reached the disk; it is
  never refused.
\<close>

lemma open_torn_header:
  "open_contents (take n (contents fresh_backend)) =
     Ok (if n < PAGE_SIZE then fresh_backend else fresh_backend\<lparr>backend_is_new := False\<rparr>)"
proof (cases "n < PAGE_SIZE")
  case True
  have "take n (contents fresh_backend) =
      take n (to_bytes file_header_new) @ replicate (min (n - 84) (PAGE_SIZE - 84)) 0"
    by (simp add: fresh_backend_def length_to_bytes)
  moreover have "length (take n (contents fresh_backend)) < PAGE_SIZE" using True by simp
  ultimately show ?thesis using True by (simp add: open_short initial_header_prefix)
next
  case False
  then have "take n (contents fresh_backend) = contents fresh_backend"
    "length (contents fresh_backend) = PAGE_SIZE"
    by (simp_all add: fresh_backend_def length_to_bytes PAGE_SIZE_def)
  with False fresh_backend_synced(1) show ?thesis
    by (simp add: open_contents_def header_synced_def)
qed

end
