(* ===== verification/Packed_Pages.thy ===== *)
theory Packed_Pages
  imports Backend Index
begin

text \<open>
  Packed fact pages, \<^verbatim>\<open>src/storage/packed_pages.rs\<close>: facts serialised by \<^verbatim>\<open>postcard\<close> are laid
  out in pages of 4096 bytes, the slot directory growing up from the header and the
  records growing down from the end. The codec is a pair of arguments, \<open>enc\<close> and \<open>dec\<close>; what
  is relied on is that an encoding is not empty and decodes to the fact it came from.

  Shown: packing and reading back is the identity on the facts and their references, every
  reference addresses its own fact, and the layout never overlaps.
\<close>

definition PAGE_TYPE_PACKED :: u8 where "PAGE_TYPE_PACKED = 2"

definition PACKED_HEADER_SIZE :: nat where "PACKED_HEADER_SIZE = 12"

definition MAX_FACT_BYTES :: nat where "MAX_FACT_BYTES = PAGE_SIZE - PACKED_HEADER_SIZE - 4"

definition codec_ok :: "(fact \<Rightarrow> bytes result) \<Rightarrow> (bytes \<Rightarrow> fact result) \<Rightarrow> bool" where
  "codec_ok enc dec \<longleftrightarrow> (\<forall>f b. enc f = Ok b \<longrightarrow> b \<noteq> [] \<and> dec b = Ok f)"

section \<open>Packing\<close>

definition new_packed_page :: bytes where
  "new_packed_page = (replicate PAGE_SIZE 0)[0 := PAGE_TYPE_PACKED]"

definition write_record_count :: "u16 \<Rightarrow> bytes \<Rightarrow> bytes" where
  "write_record_count n page = (if 4 \<le> length page then overwrite page 2 (u16_to_le n) else page)"

record pack_state =
  pages :: "bytes list"
  fact_refs :: "fact_ref list"
  current_page :: bytes
  current_record_count :: u16
  dir_offset :: nat
  data_offset :: nat

definition pack_start :: pack_state where
  "pack_start = \<lparr>pages = [], fact_refs = [], current_page = new_packed_page, current_record_count = 0,
     dir_offset = PACKED_HEADER_SIZE, data_offset = PAGE_SIZE\<rparr>"

definition u16_try_from :: "nat \<Rightarrow> u16 result" where
  "u16_try_from n = (if n < 2 ^ 16 then Ok (of_nat n) else Err (Internal 24))"

definition usize_wrapping_sub :: "nat \<Rightarrow> nat \<Rightarrow> nat" where
  "usize_wrapping_sub a b = (a + 2 ^ 64 - b) mod 2 ^ 64"

definition flush_page :: "pack_state \<Rightarrow> pack_state" where
  "flush_page st =
     st\<lparr>pages := pages st @ [write_record_count (current_record_count st) (current_page st)],
        current_page := new_packed_page, current_record_count := 0,
        dir_offset := PACKED_HEADER_SIZE, data_offset := PAGE_SIZE\<rparr>"

text \<open>Placing one serialised record on the current page.\<close>

definition place_record :: "u64 \<Rightarrow> bytes \<Rightarrow> pack_state \<Rightarrow> pack_state result" where
  "place_record start_page_id ser st =
     (let off = usize_wrapping_sub (data_offset st) (length ser) in
      and_then (copy_at (Internal 24) (current_page st) off ser) (\<lambda>page1.
      and_then (u16_try_from off) (\<lambda>off16.
      and_then (u16_try_from (length ser)) (\<lambda>len16.
      and_then (copy_at (Internal 24) page1 (dir_offset st) (u16_to_le off16)) (\<lambda>page2.
      and_then (copy_at (Internal 24) page2 (dir_offset st + 2) (u16_to_le len16)) (\<lambda>page3.
      Ok (st\<lparr>current_page := page3, data_offset := off, dir_offset := dir_offset st + 4,
             fact_refs := fact_refs st @
               [\<lparr>page_id = u64_saturating_add start_page_id (of_nat (length (pages st))),
                 slot_index = ucast (current_record_count st)\<rparr>],
             current_record_count := (if current_record_count st = 0xFFFF then 0xFFFF
                                      else current_record_count st + 1)\<rparr>)))))))"

definition pack_one :: "(fact \<Rightarrow> bytes result) \<Rightarrow> u64 \<Rightarrow> fact \<Rightarrow> pack_state \<Rightarrow> pack_state result" where
  "pack_one enc start_page_id f st =
     and_then (enc f) (\<lambda>ser.
       if MAX_FACT_BYTES < length ser then Err (Internal 23)
       else
         let free = data_offset st - (dir_offset st + 4);
             st1 = (if free < length ser \<or> current_record_count st = 0xFFFF then flush_page st else st)
         in place_record start_page_id ser st1)"

fun pack_loop :: "(fact \<Rightarrow> bytes result) \<Rightarrow> u64 \<Rightarrow> fact list \<Rightarrow> pack_state \<Rightarrow> pack_state result" where
  "pack_loop enc start_page_id [] st = Ok st"
| "pack_loop enc start_page_id (f # fs) st =
     and_then (pack_one enc start_page_id f st) (pack_loop enc start_page_id fs)"

definition pack_facts ::
    "(fact \<Rightarrow> bytes result) \<Rightarrow> fact list \<Rightarrow> u64 \<Rightarrow> (bytes list \<times> fact_ref list) result" where
  "pack_facts enc fs start_page_id =
     and_then (pack_loop enc start_page_id fs pack_start) (\<lambda>st.
       Ok (pages (flush_page st), fact_refs st))"

section \<open>Reading\<close>

definition read_slot :: "(bytes \<Rightarrow> fact result) \<Rightarrow> bytes \<Rightarrow> u32 \<Rightarrow> fact result" where
  "read_slot dec page slot =
     (if length page < PAGE_SIZE then Err (Internal 24) else
      and_then (ok_or (Internal 24) (elem_get page 0)) (\<lambda>page_type.
      if page_type \<noteq> PAGE_TYPE_PACKED then Err (Stg 14) else
      and_then (ok_or (Internal 24) (elem_get page 2)) (\<lambda>b2.
      and_then (ok_or (Internal 24) (elem_get page 3)) (\<lambda>b3.
      let record_count = u16_from_le [b2, b3] in
      if unat record_count \<le> unat slot then Err (Internal 24) else
      let dir_base = PACKED_HEADER_SIZE + unat slot * 4 in
      and_then (ok_or (Internal 24) (elem_get page dir_base)) (\<lambda>db0.
      and_then (ok_or (Internal 24) (elem_get page (dir_base + 1))) (\<lambda>db1.
      and_then (ok_or (Internal 24) (elem_get page (dir_base + 2))) (\<lambda>db2.
      and_then (ok_or (Internal 24) (elem_get page (dir_base + 3))) (\<lambda>db3.
      let off = unat (u16_from_le [db0, db1]); len = unat (u16_from_le [db2, db3]) in
      if PAGE_SIZE < off + len then Err (Stg 15)
      else and_then (ok_or (Internal 24) (slice_get page off (off + len))) dec)))))))) "

text \<open>The body of the page loop of \<^verbatim>\<open>read_all_with_refs\<close>; pages of other types are skipped.\<close>

definition page_records ::
    "(bytes \<Rightarrow> fact result) \<Rightarrow> u64 \<Rightarrow> bytes \<Rightarrow> (fact list \<times> fact_ref list) result" where
  "page_records dec pid page =
     (let page_type = (case elem_get page 0 of Some b \<Rightarrow> b | None \<Rightarrow> 0) in
      if length page < PAGE_SIZE \<or> page_type \<noteq> PAGE_TYPE_PACKED then Ok ([], [])
      else
        let b2 = (case elem_get page 2 of Some b \<Rightarrow> b | None \<Rightarrow> 0);
            b3 = (case elem_get page 3 of Some b \<Rightarrow> b | None \<Rightarrow> 0);
            slots = map of_nat [0..<unat (u16_from_le [b2, b3])]
        in and_then (collect_map (read_slot dec page) slots) (\<lambda>fs.
             Ok (fs, map (\<lambda>s. \<lparr>page_id = pid, slot_index = s\<rparr>) slots)))"

fun read_pages ::
    "(bytes \<Rightarrow> fact result) \<Rightarrow> (u64 \<Rightarrow> bytes result) \<Rightarrow> u64 list \<Rightarrow> (fact list \<times> fact_ref list) result" where
  "read_pages dec rd [] = Ok ([], [])"
| "read_pages dec rd (pid # pids) =
     and_then (rd pid) (\<lambda>page.
     and_then (page_records dec pid page) (\<lambda>(fs, rs).
     and_then (read_pages dec rd pids) (\<lambda>(fs', rs'). Ok (fs @ fs', rs @ rs'))))"

definition read_all_with_refs ::
    "(bytes \<Rightarrow> fact result) \<Rightarrow> (u64 \<Rightarrow> bytes result) \<Rightarrow> u64 \<Rightarrow> u64 \<Rightarrow> (fact list \<times> fact_ref list) result" where
  "read_all_with_refs dec rd first_page_id num_pages =
     read_pages dec rd (map (\<lambda>i. u64_saturating_add first_page_id (of_nat i)) [0..<unat num_pages])"

definition read_all_from_pages ::
    "(bytes \<Rightarrow> fact result) \<Rightarrow> (u64 \<Rightarrow> bytes result) \<Rightarrow> u64 \<Rightarrow> u64 \<Rightarrow> fact list result" where
  "read_all_from_pages dec rd first_page_id num_pages =
     and_then (read_all_with_refs dec rd first_page_id num_pages) (\<lambda>(fs, _). Ok fs)"

section \<open>The layout of a page\<close>

text \<open>Directory entry at \<open>pos\<close> describing the record \<open>b\<close> stored at or after \<open>lo\<close>.\<close>

definition entry_at :: "bytes \<Rightarrow> nat \<Rightarrow> nat \<Rightarrow> bytes \<Rightarrow> bool" where
  "entry_at page pos lo b \<longleftrightarrow> (\<exists>off. lo \<le> off \<and> off + length b \<le> PAGE_SIZE \<and>
     slice_get page pos (pos + 2) = Some (u16_to_le (of_nat off)) \<and>
     slice_get page (pos + 2) (pos + 4) = Some (u16_to_le (of_nat (length b))) \<and>
     slice_get page off (off + length b) = Some b)"

definition filling :: "bytes list \<Rightarrow> pack_state \<Rightarrow> bool" where
  "filling recs st \<longleftrightarrow> length (current_page st) = PAGE_SIZE \<and> current_page st ! 0 = PAGE_TYPE_PACKED \<and>
     unat (current_record_count st) = length recs \<and>
     dir_offset st = PACKED_HEADER_SIZE + 4 * length recs \<and> dir_offset st \<le> data_offset st \<and>
     data_offset st \<le> PAGE_SIZE \<and>
     (\<forall>k < length recs. entry_at (current_page st) (PACKED_HEADER_SIZE + 4 * k) (data_offset st) (recs ! k))"

definition full_page :: "bytes list \<Rightarrow> bytes \<Rightarrow> bool" where
  "full_page recs page \<longleftrightarrow> length page = PAGE_SIZE \<and> page ! 0 = PAGE_TYPE_PACKED \<and>
     length recs < 2 ^ 16 \<and> slice_get page 2 4 = Some (u16_to_le (of_nat (length recs))) \<and>
     (\<forall>k < length recs. entry_at page (PACKED_HEADER_SIZE + 4 * k) 0 (recs ! k) \<and>
        PACKED_HEADER_SIZE + 4 * k + 4 \<le> PAGE_SIZE)"

lemma filling_start: "filling [] pack_start" "filling [] (flush_page st)"
  by (simp_all add: filling_def pack_start_def flush_page_def new_packed_page_def PACKED_HEADER_SIZE_def PAGE_SIZE_def)

lemma entry_at_overwrite:
  assumes "entry_at page pos lo b" "length page = PAGE_SIZE" "a + length ys \<le> PAGE_SIZE"
    and "a + length ys \<le> pos \<or> pos + 4 \<le> a" "a + length ys \<le> lo" "pos + 4 \<le> PAGE_SIZE" "lo' \<le> lo"
  shows "entry_at (overwrite page a ys) pos lo' b"
proof -
  obtain off where off: "lo \<le> off" "off + length b \<le> PAGE_SIZE"
    "slice_get page pos (pos + 2) = Some (u16_to_le (of_nat off))"
    "slice_get page (pos + 2) (pos + 4) = Some (u16_to_le (of_nat (length b)))"
    "slice_get page off (off + length b) = Some b"
    using assms(1) by (auto simp: entry_at_def)
  have "slice_get (overwrite page a ys) c d = slice_get page c d"
    if "d \<le> a \<or> a + length ys \<le> c" "d \<le> PAGE_SIZE" for c d
    using that assms(2,3) by (intro slice_get_overwrite_disjoint) auto
  with off assms show ?thesis unfolding entry_at_def by (intro exI [of _ off]) auto
qed

lemma entry_at_new:
  assumes "length page = PAGE_SIZE" "pos + 4 \<le> off" "off + length b \<le> PAGE_SIZE"
  shows "entry_at (overwrite (overwrite (overwrite page off b) pos (u16_to_le (of_nat off)))
    (pos + 2) (u16_to_le (of_nat (length b)))) pos off b"
proof -
  let ?p1 = "overwrite page off b"
  let ?p2 = "overwrite ?p1 pos (u16_to_le (of_nat off))"
  let ?p3 = "overwrite ?p2 (pos + 2) (u16_to_le (of_nat (length b)))"
  have l: "length ?p1 = PAGE_SIZE" "length ?p2 = PAGE_SIZE" using assms by simp_all
  have "slice_get ?p3 pos (pos + 2) = slice_get ?p2 pos (pos + 2)"
    using assms l by (intro slice_get_overwrite_disjoint) simp_all
  also have "\<dots> = Some (u16_to_le (of_nat off))"
    using slice_get_overwrite_same [of pos "u16_to_le (of_nat off)" ?p1] assms l by simp
  finally have a: "slice_get ?p3 pos (pos + 2) = Some (u16_to_le (of_nat off))" .
  have b: "slice_get ?p3 (pos + 2) (pos + 4) = Some (u16_to_le (of_nat (length b)))"
  proof -
    have e: "pos + 4 = pos + 2 + length (u16_to_le (of_nat (length b)))" by simp
    show ?thesis unfolding e by (rule slice_get_overwrite_same) (use assms l in simp)
  qed
  have "slice_get ?p3 off (off + length b) = slice_get ?p1 off (off + length b)"
    using assms l by (simp add: slice_get_overwrite_disjoint)
  also have "\<dots> = Some b" using slice_get_overwrite_same [of off b page] assms by simp
  finally show ?thesis using a b assms(3) by (auto simp: entry_at_def)
qed

lemma place_record_Ok:
  assumes fill: "filling recs st" and len: "length ser \<le> data_offset st - (dir_offset st + 4)" "ser \<noteq> []"
    and cnt: "current_record_count st \<noteq> 0xFFFF"
  shows "\<exists>st'. place_record sp ser st = Ok st' \<and> filling (recs @ [ser]) st' \<and> pages st' = pages st \<and>
    fact_refs st' = fact_refs st @ [\<lparr>page_id = u64_saturating_add sp (of_nat (length (pages st))),
      slot_index = of_nat (length recs)\<rparr>]"
proof -
  define pos off where "pos = dir_offset st" and "off = data_offset st - length ser"
  have len0: "0 < length ser" using len(2) by simp
  from fill have f: "length (current_page st) = PAGE_SIZE" "current_page st ! 0 = PAGE_TYPE_PACKED"
    "unat (current_record_count st) = length recs" "pos = PACKED_HEADER_SIZE + 4 * length recs"
    "data_offset st \<le> PAGE_SIZE"
    "\<And>k. k < length recs \<Longrightarrow> entry_at (current_page st) (PACKED_HEADER_SIZE + 4 * k) (data_offset st) (recs ! k)"
    by (simp_all add: filling_def pos_def)
  have room: "pos + 4 \<le> off" "off + length ser = data_offset st" "off \<le> PAGE_SIZE"
    using len(1) len0 f(5) unfolding pos_def off_def by linarith+
  have sub: "usize_wrapping_sub (data_offset st) (length ser) = off"
    using room f(5) by (simp add: usize_wrapping_sub_def PAGE_SIZE_def flip: room(2))
  let ?p1 = "overwrite (current_page st) off ser"
  let ?p2 = "overwrite ?p1 pos (u16_to_le (of_nat off))"
  let ?p3 = "overwrite ?p2 (pos + 2) (u16_to_le (of_nat (length ser)))"
  have l: "length ?p1 = PAGE_SIZE" "length ?p2 = PAGE_SIZE" "length ?p3 = PAGE_SIZE"
    using f(1,5) room by simp_all
  have cnt': "unat (current_record_count st + 1) = Suc (length recs)"
    using cnt f(3) unat_bounds(1) [of "current_record_count st"]
    by (auto simp: unat_word_ariths(1) word_unat_eq_iff)
  have slot: "(ucast (current_record_count st) :: u32) = of_nat (length recs)"
    by (simp flip: f(3))
  let ?st = "st\<lparr>current_page := ?p3, data_offset := off, dir_offset := pos + 4,
    fact_refs := fact_refs st @ [\<lparr>page_id = u64_saturating_add sp (of_nat (length (pages st))),
      slot_index = of_nat (length recs)\<rparr>],
    current_record_count := current_record_count st + 1\<rparr>"
  have "place_record sp ser st = Ok ?st"
    using f(1,5) room l cnt
    by (simp add: place_record_def sub copy_at_def u16_try_from_def PAGE_SIZE_def slot flip: pos_def)
  moreover have "entry_at ?p3 (PACKED_HEADER_SIZE + 4 * k) off ((recs @ [ser]) ! k)" if "k < length (recs @ [ser])" for k
  proof (cases "k < length recs")
    case True
    have e: "entry_at (current_page st) (PACKED_HEADER_SIZE + 4 * k) (data_offset st) (recs ! k)" using f(6) True .
    have pos: "PACKED_HEADER_SIZE + 4 * k + 4 \<le> pos" using True f(4) by simp
    have "entry_at ?p1 (PACKED_HEADER_SIZE + 4 * k) (data_offset st) (recs ! k)"
      by (rule entry_at_overwrite [OF e f(1)]) (use room pos f(5) in simp_all)
    then have "entry_at ?p2 (PACKED_HEADER_SIZE + 4 * k) (data_offset st) (recs ! k)"
      by (rule entry_at_overwrite [OF _ l(1)]) (use room pos f(5) in simp_all)
    then have "entry_at ?p3 (PACKED_HEADER_SIZE + 4 * k) off (recs ! k)"
      by (rule entry_at_overwrite [OF _ l(2)]) (use room pos f(5) in simp_all)
    with True show ?thesis by (simp add: nth_append)
  next
    case False
    with that have "k = length recs" by simp
    then show ?thesis using entry_at_new [OF f(1) room(1)] room f(4,5) by simp
  qed
  moreover have "?p3 ! 0 = PAGE_TYPE_PACKED"
    using f(1,2,4,5) room l by (simp add: nth_overwrite PACKED_HEADER_SIZE_def PAGE_SIZE_def)
  ultimately show ?thesis
    using l(3) cnt' f(4) room by (intro exI [of _ ?st]) (simp add: filling_def)
qed

lemma flush_full_page:
  assumes "filling recs st"
  shows "full_page recs (write_record_count (current_record_count st) (current_page st))"
proof -
  let ?n = "u16_to_le (current_record_count st)"
  from assms have f: "length (current_page st) = PAGE_SIZE" "current_page st ! 0 = PAGE_TYPE_PACKED"
    "unat (current_record_count st) = length recs"
    "PACKED_HEADER_SIZE + 4 * length recs \<le> data_offset st" "data_offset st \<le> PAGE_SIZE"
    "\<And>k. k < length recs \<Longrightarrow> entry_at (current_page st) (PACKED_HEADER_SIZE + 4 * k) (data_offset st) (recs ! k)"
    by (auto simp: filling_def)
  have n: "current_record_count st = of_nat (length recs)" "length recs < 2 ^ 16"
    using unat_bounds(1) [of "current_record_count st"] by (simp_all flip: f(3))
  have w: "write_record_count (current_record_count st) (current_page st) = overwrite (current_page st) 2 ?n"
    using f(1) by (simp add: write_record_count_def PAGE_SIZE_def)
  have "slice_get (overwrite (current_page st) 2 ?n) 2 (2 + length ?n) = Some ?n"
    using f(1) by (intro slice_get_overwrite_same) (simp add: PAGE_SIZE_def)
  moreover have "entry_at (overwrite (current_page st) 2 ?n) (PACKED_HEADER_SIZE + 4 * k) 0 (recs ! k) \<and>
      PACKED_HEADER_SIZE + 4 * k + 4 \<le> PAGE_SIZE" if "k < length recs" for k
    using f(4,5) that
    by (intro conjI entry_at_overwrite [OF f(6) [OF that] f(1)]) (simp_all add: PACKED_HEADER_SIZE_def PAGE_SIZE_def)
  ultimately show ?thesis
    using f(1,2) n unfolding full_page_def w
    by (simp add: nth_overwrite PAGE_SIZE_def)
qed

lemma slice_get_pair:
  assumes "slice_get page a (a + 2) = Some b"
  obtains x y where "elem_get page a = Some x" "elem_get page (Suc a) = Some y" "b = [x, y]"
proof -
  from assms have "a + 2 \<le> length page" "b = take 2 (drop a page)"
    by (auto simp: slice_get_def split: if_splits)
  then have "b = [page ! a, page ! Suc a]"
    by (simp add: numeral_2_eq_2 take_Suc_conv_app_nth)
  with \<open>a + 2 \<le> length page\<close> that show thesis by (simp add: elem_get_def)
qed

lemma read_slot_full:
  assumes full: "full_page recs page" and k: "k < length recs"
  shows "read_slot dec page (of_nat k) = dec (recs ! k)"
proof -
  let ?pos = "PACKED_HEADER_SIZE + 4 * k"
  from full k have f: "length page = PAGE_SIZE" "page ! 0 = PAGE_TYPE_PACKED" "length recs < 2 ^ 16"
    "slice_get page 2 (2 + 2) = Some (u16_to_le (of_nat (length recs)))" "entry_at page ?pos 0 (recs ! k)"
    by (auto simp: full_page_def)
  obtain off where off: "off + length (recs ! k) \<le> PAGE_SIZE"
    "slice_get page ?pos (?pos + 2) = Some (u16_to_le (of_nat off))"
    "slice_get page (?pos + 2) (?pos + 4) = Some (u16_to_le (of_nat (length (recs ! k))))"
    "slice_get page off (off + length (recs ! k)) = Some (recs ! k)"
    using f(5) unfolding entry_at_def by blast
  have "?pos + 4 = ?pos + 2 + 2" by simp
  with off(3) have off3: "slice_get page (?pos + 2) (?pos + 2 + 2) = Some (u16_to_le (of_nat (length (recs ! k))))"
    by (simp only:)
  obtain b2 b3 where n: "elem_get page 2 = Some b2" "elem_get page 3 = Some b3"
    "u16_to_le (of_nat (length recs)) = [b2, b3]"
  proof -
    have "Suc 2 = (3 :: nat)" by simp
    with slice_get_pair [OF f(4)] that show thesis by (metis (no_types))
  qed
  obtain d0 d1 where d: "elem_get page ?pos = Some d0" "elem_get page (Suc ?pos) = Some d1"
    "u16_to_le (of_nat off) = [d0, d1]"
    using off(2) by (rule slice_get_pair)
  obtain d2 d3 where e: "elem_get page (?pos + 2) = Some d2" "elem_get page (Suc (?pos + 2)) = Some d3"
    "u16_to_le (of_nat (length (recs ! k))) = [d2, d3]"
    using off3 by (rule slice_get_pair)
  have small: "k < 2 ^ 32" "off < 2 ^ 16" "length (recs ! k) < 2 ^ 16"
    using k f(3) off(1) by (simp_all add: PAGE_SIZE_def)
  then have u: "unat (of_nat k :: u32) = k" "unat (of_nat off :: u16) = off"
    "unat (of_nat (length (recs ! k)) :: u16) = length (recs ! k)"
    "unat (of_nat (length recs) :: u16) = length recs"
    using f(3) by (simp_all add: unat_of_nat)
  have r: "u16_from_le [b2, b3] = of_nat (length recs)" "u16_from_le [d0, d1] = of_nat off"
    "u16_from_le [d2, d3] = of_nat (length (recs ! k))"
    by (simp_all flip: n(3) d(3) e(3))
  have z: "elem_get page 0 = Some PAGE_TYPE_PACKED" using f(1,2) by (simp add: elem_get_def PAGE_SIZE_def)
  have e3: "elem_get page (?pos + 3) = Some d3" using e(2) by (simp add: numeral_3_eq_3)
  show ?thesis
    using f(1) k n(1,2) d(1,2) e(1) e3 off(1,4)
    by (simp add: read_slot_def z u r Let_def mult.commute [of k 4])
qed

section \<open>Packing and reading back\<close>

fun refs_from :: "u64 \<Rightarrow> nat \<Rightarrow> bytes list list \<Rightarrow> fact_ref list" where
  "refs_from sp i [] = []"
| "refs_from sp i (c # cs) =
     map (\<lambda>k. \<lparr>page_id = u64_saturating_add sp (of_nat i), slot_index = of_nat k\<rparr>) [0..<length c] @
     refs_from sp (Suc i) cs"

lemma refs_from_append:
  "refs_from sp i (cs @ ds) = refs_from sp i cs @ refs_from sp (i + length cs) ds"
  by (induction cs arbitrary: i) simp_all

text \<open>
  The loop invariant: the finished pages hold the chunks, the current page the records since,
  and the references number them all in order.
\<close>

definition packed :: "u64 \<Rightarrow> bytes list list \<Rightarrow> bytes list \<Rightarrow> pack_state \<Rightarrow> bool" where
  "packed sp chunks recs st \<longleftrightarrow> list_all2 full_page chunks (pages st) \<and> filling recs st \<and>
     fact_refs st = refs_from sp 0 (chunks @ [recs])"

lemma place_packed:
  assumes "packed sp chunks recs st" "length ser \<le> data_offset st - (dir_offset st + 4)" "ser \<noteq> []"
    "current_record_count st \<noteq> 0xFFFF"
  shows "\<exists>st'. place_record sp ser st = Ok st' \<and> packed sp chunks (recs @ [ser]) st'"
proof -
  have "length (pages st) = length chunks"
    using assms(1) by (auto simp: packed_def dest: list_all2_lengthD)
  with place_record_Ok [OF _ assms(2-4), of recs sp] assms(1) show ?thesis
    by (auto simp: packed_def refs_from_append)
qed

lemma flush_packed:
  assumes "packed sp chunks recs st"
  shows "packed sp (chunks @ [recs]) [] (flush_page st)"
proof -
  have "list_all2 full_page (chunks @ [recs]) (pages (flush_page st))"
    using assms flush_full_page by (simp add: packed_def flush_page_def list_all2_appendI)
  with assms filling_start(2) show ?thesis
    by (simp add: packed_def refs_from_append) (simp add: flush_page_def)
qed

lemma pack_one_Ok:
  assumes p: "packed sp chunks recs st" and e: "enc f = Ok ser" "ser \<noteq> []" "length ser \<le> MAX_FACT_BYTES"
  shows "\<exists>st' chunks' recs'. pack_one enc sp f st = Ok st' \<and> packed sp chunks' recs' st' \<and>
    concat chunks' @ recs' = concat chunks @ recs @ [ser]"
proof (cases "data_offset st - (dir_offset st + 4) < length ser \<or> current_record_count st = 0xFFFF")
  case True
  have "length ser \<le> data_offset (flush_page st) - (dir_offset (flush_page st) + 4)"
    "current_record_count (flush_page st) \<noteq> 0xFFFF"
    using e(3) by (simp_all add: flush_page_def MAX_FACT_BYTES_def)
  from place_packed [OF flush_packed [OF p] this(1) e(2) this(2)] True e(1,3) show ?thesis
    by (auto simp: pack_one_def intro!: exI [of _ "chunks @ [recs]"] exI [of _ "[ser]"])
next
  case False
  then have "length ser \<le> data_offset st - (dir_offset st + 4)" "current_record_count st \<noteq> 0xFFFF" by auto
  from place_packed [OF p this(1) e(2) this(2)] False e(1,3) show ?thesis
    by (auto simp: pack_one_def intro!: exI [of _ chunks] exI [of _ "recs @ [ser]"])
qed

lemma pack_loop_Ok:
  assumes "packed sp chunks recs st" "collect_map enc fs = Ok sers"
    and "\<forall>b \<in> set sers. b \<noteq> [] \<and> length b \<le> MAX_FACT_BYTES"
  shows "\<exists>st' chunks' recs'. pack_loop enc sp fs st = Ok st' \<and> packed sp chunks' recs' st' \<and>
    concat chunks' @ recs' = concat chunks @ recs @ sers"
  using assms
proof (induction fs arbitrary: st chunks recs sers)
  case Nil
  then show ?case by auto
next
  case (Cons f fs)
  from Cons.prems(2) obtain b bs where b: "enc f = Ok b" "collect_map enc fs = Ok bs" "sers = b # bs"
    by (auto simp: and_then_eq_Inr)
  with Cons.prems pack_one_Ok [of sp chunks recs st enc f b] obtain st1 c1 r1
    where s1: "pack_one enc sp f st = Ok st1" "packed sp c1 r1 st1" "concat c1 @ r1 = concat chunks @ recs @ [b]"
    by auto
  from Cons.IH [OF s1(2) b(2)] Cons.prems(3) b(3) obtain st2 c2 r2
    where "pack_loop enc sp fs st1 = Ok st2" "packed sp c2 r2 st2" "concat c2 @ r2 = concat c1 @ r1 @ bs"
    by auto
  moreover from this(3) s1(3) b(3) have "concat c2 @ r2 = concat chunks @ recs @ sers"
    by (metis append.assoc append_Cons append_Nil)
  ultimately show ?case using s1(1) by auto
qed

lemma packed_start: "packed sp [] [] pack_start"
  by (simp add: packed_def filling_start) (simp add: pack_start_def)

lemma pack_facts_chunks:
  assumes "collect_map enc fs = Ok sers" "\<forall>b \<in> set sers. b \<noteq> [] \<and> length b \<le> MAX_FACT_BYTES"
  shows "\<exists>chunks ps. pack_facts enc fs sp = Ok (ps, refs_from sp 0 chunks) \<and>
    list_all2 full_page chunks ps \<and> concat chunks = sers"
proof -
  obtain st chunks recs where st: "pack_loop enc sp fs pack_start = Ok st" "packed sp chunks recs st"
    "concat chunks @ recs = sers"
    using pack_loop_Ok [OF packed_start assms, of sp] by auto
  with flush_packed [OF st(2)] show ?thesis
    by (auto simp: pack_facts_def packed_def intro!: exI [of _ "chunks @ [recs]"])
qed

text \<open>Packing fails if some fact cannot be encoded or is too large.\<close>

lemma pack_loop_fits:
  "pack_loop enc sp fs st = Ok st' \<Longrightarrow> \<exists>sers. collect_map enc fs = Ok sers \<and> (\<forall>b \<in> set sers. length b \<le> MAX_FACT_BYTES)"
proof (induction fs arbitrary: st)
  case (Cons f fs)
  then show ?case by (fastforce simp: and_then_eq_Inr pack_one_def Let_def split: if_splits)
qed simp


lemma page_records_full:
  assumes full: "full_page recs page" and dec: "collect_map dec recs = Ok fs"
  shows "page_records dec pid page =
    Ok (fs, map (\<lambda>k. \<lparr>page_id = pid, slot_index = of_nat k\<rparr>) [0..<length recs])"
proof -
  from full have f: "length page = PAGE_SIZE" "elem_get page 0 = Some PAGE_TYPE_PACKED" "length recs < 2 ^ 16"
    "slice_get page 2 (2 + 2) = Some (u16_to_le (of_nat (length recs)))"
    by (auto simp: full_page_def elem_get_def PAGE_SIZE_def)
  obtain b2 b3 where n: "elem_get page 2 = Some b2" "elem_get page 3 = Some b3"
    "u16_to_le (of_nat (length recs)) = [b2, b3]"
  proof -
    have "Suc 2 = (3 :: nat)" by simp
    with slice_get_pair [OF f(4)] that show thesis by (metis (no_types))
  qed
  have r: "u16_from_le [b2, b3] = of_nat (length recs)" by (simp flip: n(3))
  have u: "unat (of_nat (length recs) :: u16) = length recs" using f(3) by (simp add: unat_of_nat)
  have "collect_map (read_slot dec page) (map of_nat [0..<length recs]) = collect_map dec recs"
  proof -
    have "collect_map (read_slot dec page) (map of_nat ks) = collect_map dec (map ((!) recs) ks)"
      if "\<forall>k \<in> set ks. k < length recs" for ks
      using that by (induction ks) (simp_all add: read_slot_full [OF full])
    from this [of "[0..<length recs]"] show ?thesis by (simp add: map_nth)
  qed
  with dec f(1,2) show ?thesis by (simp add: page_records_def n(1,2) r u Let_def)
qed

lemma collect_map_concat:
  "collect_map g (concat xss) = Ok ys \<Longrightarrow>
   \<exists>yss. collect_map (collect_map g) xss = Ok yss \<and> concat yss = ys"
proof (induction xss arbitrary: ys)
  case (Cons xs xss)
  then obtain as bs where ab: "collect_map g xs = Ok as" "collect_map g (concat xss) = Ok bs" "ys = as @ bs"
    by (auto simp: collect_map_append and_then_eq_Inr)
  with Cons.IH [OF ab(2)] show ?case by auto
qed simp

lemma read_pages_full:
  assumes "list_all2 full_page chunks ps" "collect_map (collect_map dec) chunks = Ok fss"
    and "\<forall>j < length ps. rd (u64_saturating_add sp (of_nat (i + j))) = Ok (ps ! j)"
  shows "read_pages dec rd (map (\<lambda>j. u64_saturating_add sp (of_nat j)) [i..<i + length ps]) =
    Ok (concat fss, refs_from sp i chunks)"
  using assms
proof (induction chunks ps arbitrary: i fss rule: list_all2_induct)
  case Nil
  then show ?case by simp
next
  case (Cons c cs p ps)
  from Cons.prems(1) obtain fs fss' where f: "collect_map dec c = Ok fs" "collect_map (collect_map dec) cs = Ok fss'"
    "fss = fs # fss'" by (auto simp: and_then_eq_Inr)
  have "rd (u64_saturating_add sp (of_nat (Suc i + j))) = Ok (ps ! j)" if "j < length ps" for j
    using Cons.prems(2) [rule_format, of "Suc j"] that by simp
  then have "read_pages dec rd (map (\<lambda>j. u64_saturating_add sp (of_nat j)) [Suc i..<Suc i + length ps]) =
    Ok (concat fss', refs_from sp (Suc i) cs)"
    by (intro Cons.IH f(2)) blast
  moreover have "rd (u64_saturating_add sp (of_nat i)) = Ok p" using Cons.prems(2) [rule_format, of 0] by simp
  moreover have "[i..<i + length (p # ps)] = i # [Suc i..<Suc i + length ps]" by (simp add: upt_rec)
  ultimately show ?case
    using page_records_full [OF Cons.hyps(1) f(1)] f(3) by simp
qed

text \<open>
  Packing facts into pages and reading the pages back gives the same facts in the same
  order with the references that packing returned, wherever the pages are stored. Packing
  succeeds whenever every fact encodes within the slot limit.
\<close>

lemma pack_read_roundtrip:
  assumes codec: "codec_ok enc dec" and enc: "collect_map enc fs = Ok sers"
    and fits: "\<forall>b \<in> set sers. length b \<le> MAX_FACT_BYTES"
  shows "\<exists>ps refs. pack_facts enc fs sp = Ok (ps, refs) \<and>
    (\<forall>rd. length ps < 2 ^ 64 \<longrightarrow> (\<forall>i < length ps. rd (u64_saturating_add sp (of_nat i)) = Ok (ps ! i)) \<longrightarrow>
      read_all_with_refs dec rd sp (of_nat (length ps)) = Ok (fs, refs))"
proof -
  have "\<exists>sers. collect_map enc fs = Ok sers \<and> (\<forall>b \<in> set sers. b \<noteq> []) \<and> collect_map dec sers = Ok fs"
    using enc codec
  proof (induction fs arbitrary: sers)
    case (Cons f fs)
    then show ?case by (fastforce simp: and_then_eq_Inr codec_ok_def)
  qed simp
  with enc have ne: "\<forall>b \<in> set sers. b \<noteq> []" and dec: "collect_map dec sers = Ok fs" by auto
  obtain chunks ps where p: "pack_facts enc fs sp = Ok (ps, refs_from sp 0 chunks)"
    "list_all2 full_page chunks ps" "concat chunks = sers"
    using pack_facts_chunks [OF enc, of sp] ne fits by blast
  obtain fss where fss: "collect_map (collect_map dec) chunks = Ok fss" "concat fss = fs"
    using collect_map_concat [of dec chunks fs] dec p(3) by auto
  have "read_all_with_refs dec rd sp (of_nat (length ps)) = Ok (fs, refs_from sp 0 chunks)"
    if "length ps < 2 ^ 64" "\<forall>i < length ps. rd (u64_saturating_add sp (of_nat i)) = Ok (ps ! i)" for rd
    using read_pages_full [OF p(2) fss(1), of rd sp 0] that fss(2)
    by (simp add: read_all_with_refs_def unat_of_nat)
  with p(1) show ?thesis by auto
qed

text \<open>A codec for one sample fact, for the instances.\<close>

definition sample_fact :: fact where
  "sample_fact = fact_new 1 '':a'' (VBoolean True) 7"

definition sample_enc :: "fact \<Rightarrow> bytes result" where
  "sample_enc f = (if f = sample_fact then Ok [42] else Err Postcard)"

definition sample_dec :: "bytes \<Rightarrow> fact result" where
  "sample_dec b = (if b = [42] then Ok sample_fact else Err Postcard)"

lemma sample_codec: "codec_ok sample_enc sample_dec" "collect_map sample_enc [sample_fact, sample_fact] = Ok [[42], [42]]"
  by (simp_all add: codec_ok_def sample_enc_def sample_dec_def)

lemma refs_from_nth:
  assumes "list_all2 full_page chunks ps" "j < length (concat chunks)"
  shows "\<exists>m k. m < length ps \<and> refs_from sp i chunks ! j =
      \<lparr>page_id = u64_saturating_add sp (of_nat (i + m)), slot_index = of_nat k\<rparr> \<and>
      read_slot dec (ps ! m) (of_nat k) = dec (concat chunks ! j)"
  using assms
proof (induction chunks ps arbitrary: i j rule: list_all2_induct)
  case (Cons c cs p ps)
  show ?case
  proof (cases "j < length c")
    case True
    with read_slot_full [OF Cons.hyps(1) True] show ?thesis
      by (intro exI [of _ 0] exI [of _ j]) (simp add: nth_append)
  next
    case False
    with Cons.prems have "j - length c < length (concat cs)" by simp
    from Cons.IH [OF this, of "Suc i"] obtain m k where "m < length ps"
      "refs_from sp (Suc i) cs ! (j - length c) =
         \<lparr>page_id = u64_saturating_add sp (of_nat (Suc i + m)), slot_index = of_nat k\<rparr>"
      "read_slot dec (ps ! m) (of_nat k) = dec (concat cs ! (j - length c))" by blast
    with False show ?thesis by (intro exI [of _ "Suc m"] exI [of _ k]) (simp add: nth_append)
  qed
qed simp

lemma length_refs_from [simp]: "length (refs_from sp i chunks) = length (concat chunks)"
  by (induction chunks arbitrary: i) simp_all

text \<open>
  Whenever packing returns, every page is exactly one page long and the reference returned
  for a fact addresses that fact: reading the slot it names on the page it names gives
  the fact. No two records overlap, or this would fail for one of them.
\<close>

lemma pack_refs_address:
  assumes codec: "codec_ok enc dec" and ok: "pack_facts enc fs sp = Ok (ps, refs)"
  shows "list_all (\<lambda>p. length p = PAGE_SIZE) ps \<and> length refs = length fs \<and>
    (\<forall>j < length fs. \<exists>m k. m < length ps \<and>
       refs ! j = \<lparr>page_id = u64_saturating_add sp (of_nat m), slot_index = of_nat k\<rparr> \<and>
       read_slot dec (ps ! m) (of_nat k) = Ok (fs ! j))"
proof -
  from ok obtain sers where enc: "collect_map enc fs = Ok sers" and fits: "\<forall>b \<in> set sers. length b \<le> MAX_FACT_BYTES"
    by (auto simp: pack_facts_def and_then_eq_Inr dest: pack_loop_fits)
  have s: "length sers = length fs" "\<And>j. j < length fs \<Longrightarrow> enc (fs ! j) = Ok (sers ! j)"
    using collect_map_eq_InrD [OF enc] by auto
  then have sd: "b \<noteq> []" if "b \<in> set sers" for b
    using that codec by (auto simp: in_set_conv_nth codec_ok_def)
  obtain chunks ps' where p: "pack_facts enc fs sp = Ok (ps', refs_from sp 0 chunks)"
    "list_all2 full_page chunks ps'" "concat chunks = sers"
    using pack_facts_chunks [OF enc, of sp] sd fits by blast
  then have eq: "ps = ps'" "refs = refs_from sp 0 chunks" using ok by simp_all
  have "dec (sers ! j) = Ok (fs ! j)" if "j < length fs" for j
    using that s codec by (simp add: codec_ok_def)
  with refs_from_nth [OF p(2), of _ sp 0 dec] p(3) s(1) eq
  have "\<forall>j < length fs. \<exists>m k. m < length ps \<and>
       refs ! j = \<lparr>page_id = u64_saturating_add sp (of_nat m), slot_index = of_nat k\<rparr> \<and>
       read_slot dec (ps ! m) (of_nat k) = Ok (fs ! j)" by simp
  moreover have "list_all (\<lambda>p. length p = PAGE_SIZE) ps"
    using p(2) eq(1) by (auto simp: list_all_length list_all2_conv_all_nth full_page_def)
  ultimately show ?thesis using p(3) s(1) eq(2) by simp
qed

end
