(* ===== verification/BTree_Pages.thy ===== *)
theory BTree_Pages
  imports Packed_Pages
begin

text \<open>
  The node pages of \<^verbatim>\<open>src/storage/btree_v6.rs\<close> as bytes: leaf pages and internal pages, their
  encoders, the readers of slots and pointers, and the checks on them. Both kinds of page are
  slotted: a directory growing up from the header, data growing down from the end. Shown: a
  node that fits its page is read back as it was written, and changing the link of a leaf
  changes nothing else of it.
\<close>

definition PAGE_TYPE_LEAF :: u8 where "PAGE_TYPE_LEAF = 0x21"
definition PAGE_TYPE_INTERNAL :: u8 where "PAGE_TYPE_INTERNAL = 0x22"
definition LEAF_HEADER_SIZE :: nat where "LEAF_HEADER_SIZE = 12"
definition INTERNAL_HEADER_SIZE :: nat where "INTERNAL_HEADER_SIZE = 12"
definition SLOT_SIZE :: nat where "SLOT_SIZE = 4"
definition PAGE_FILL_BYTES :: nat where "PAGE_FILL_BYTES = PAGE_SIZE * 3 div 4"

lemmas node_sizes = LEAF_HEADER_SIZE_def INTERNAL_HEADER_SIZE_def SLOT_SIZE_def PAGE_SIZE_def

section \<open>Reading\<close>

definition read_u16_at :: "bytes \<Rightarrow> nat \<Rightarrow> u16 result" where
  "read_u16_at page off = and_then (ok_or (Internal 49) (slice_get page off (off + 2))) (\<lambda>b. Ok (u16_from_le b))"

definition read_u64_at :: "bytes \<Rightarrow> nat \<Rightarrow> u64 result" where
  "read_u64_at page off = and_then (ok_or (Internal 49) (slice_get page off (off + 8))) (\<lambda>b. Ok (u64_from_le b))"

text \<open>The bytes a slot of the directory points to.\<close>

definition slot_bytes :: "bytes \<Rightarrow> nat \<Rightarrow> bytes result" where
  "slot_bytes page slot_off =
     and_then (read_u16_at page slot_off) (\<lambda>off.
     and_then (read_u16_at page (slot_off + 2)) (\<lambda>len.
     ok_or (Internal 49) (slice_get page (unat off) (unat off + unat len))))"

definition read_leaf_entries :: "(bytes \<Rightarrow> 'e result) \<Rightarrow> bytes \<Rightarrow> 'e list result" where
  "read_leaf_entries dec page =
     and_then (read_u16_at page 2) (\<lambda>entry_count.
     collect_map (\<lambda>i. and_then (slot_bytes page (LEAF_HEADER_SIZE + i * SLOT_SIZE)) dec) [0..<unat entry_count])"

definition leaf_first_key :: "(bytes \<Rightarrow> ('k \<times> fact_ref) result) \<Rightarrow> bytes \<Rightarrow> 'k option result" where
  "leaf_first_key dec page =
     and_then (read_u16_at page 2) (\<lambda>n.
     if n = 0 then Ok None
     else and_then (slot_bytes page LEAF_HEADER_SIZE) (\<lambda>b.
       and_then (dec b) (\<lambda>(k, _). Ok (Some k))))"

definition check_slot :: "bytes \<Rightarrow> nat \<Rightarrow> nat \<Rightarrow> unit result" where
  "check_slot page data_start i =
     (let slot_off = LEAF_HEADER_SIZE + i * SLOT_SIZE in
      and_then (read_u16_at page slot_off) (\<lambda>off.
      and_then (read_u16_at page (slot_off + 2)) (\<lambda>len.
      if unat off < data_start \<or> length page < unat off + unat len then Err (Internal 49) else Ok ())))"

definition validate_leaf_slots :: "bytes \<Rightarrow> unit result" where
  "validate_leaf_slots page =
     and_then (read_u16_at page 2) (\<lambda>n.
     let data_start = LEAF_HEADER_SIZE + unat n * SLOT_SIZE in
     if length page < data_start then Err (Internal 49)
     else and_then (collect_map (check_slot page data_start) [0..<unat n]) (\<lambda>_. Ok ()))"

text \<open>
  One step down the tree: \<open>None\<close> at a leaf, else the child to visit, the leftmost one for
  \<^verbatim>\<open>find_leftmost_leaf\<close>, the one that covers the key for \<^verbatim>\<open>find_leaf_for_key\<close>.
\<close>

definition leftmost_step :: "bytes \<Rightarrow> u64 option result" where
  "leftmost_step page = and_then (ok_or (Internal 49) (elem_get page 0)) (\<lambda>t.
     if t = PAGE_TYPE_LEAF then Ok None
     else if t = PAGE_TYPE_INTERNAL then
       and_then (read_u16_at page 2) (\<lambda>key_count.
       and_then (read_u64_at page (if key_count = 0 then 4 else INTERNAL_HEADER_SIZE)) (\<lambda>c. Ok (Some c)))
     else Err (Internal 49))"

fun pick_child :: "(bytes \<Rightarrow> 'k::linorder result) \<Rightarrow> 'k \<Rightarrow> bytes \<Rightarrow> nat \<Rightarrow> u64 \<Rightarrow> nat list \<Rightarrow> u64 result" where
  "pick_child dec key page slot_dir rightmost [] = Ok rightmost"
| "pick_child dec key page slot_dir rightmost (i # is) =
     and_then (slot_bytes page (slot_dir + i * SLOT_SIZE)) (\<lambda>b.
     and_then (dec b) (\<lambda>sep.
     if key < sep then read_u64_at page (INTERNAL_HEADER_SIZE + i * 8)
     else pick_child dec key page slot_dir rightmost is))"

definition key_step :: "(bytes \<Rightarrow> 'k::linorder result) \<Rightarrow> 'k \<Rightarrow> bytes \<Rightarrow> u64 option result" where
  "key_step dec key page = and_then (ok_or (Internal 49) (elem_get page 0)) (\<lambda>t.
     if t = PAGE_TYPE_LEAF then Ok None
     else if t = PAGE_TYPE_INTERNAL then
       and_then (read_u16_at page 2) (\<lambda>key_count.
       and_then (read_u64_at page 4) (\<lambda>rightmost.
       and_then (pick_child dec key page (INTERNAL_HEADER_SIZE + unat key_count * 8) rightmost [0..<unat key_count])
         (\<lambda>c. Ok (Some c))))
     else Err (Internal 49))"

section \<open>Writing\<close>

definition u16_or_48 :: "nat \<Rightarrow> u16 result" where
  "u16_or_48 n = (if n < 2 ^ 16 then Ok (of_nat n) else Err (Internal 48))"

text \<open>
  One entry: its data below \<^verbatim>\<open>write_pos\<close>, its slot in the directory. A \<^verbatim>\<open>write_pos\<close> that would
  go below zero wraps around and the slice panics, as does a slot beyond the page.
\<close>

definition place_entry :: "nat \<Rightarrow> nat \<Rightarrow> bytes \<Rightarrow> bytes \<times> nat \<Rightarrow> (bytes \<times> nat) result" where
  "place_entry dir i e = (\<lambda>(page, write_pos).
     if write_pos < length e then Err Panic
     else let pos = write_pos - length e; slot_off = dir + i * SLOT_SIZE; page1 = overwrite page pos e in
       and_then (u16_or_48 pos) (\<lambda>pos16.
       and_then (u16_or_48 (length e)) (\<lambda>len16.
       if length page < slot_off + 4 then Err Panic
       else Ok (overwrite (overwrite page1 slot_off (u16_to_le pos16)) (slot_off + 2) (u16_to_le len16), pos))))"

fun place_entries :: "nat \<Rightarrow> nat \<Rightarrow> bytes list \<Rightarrow> bytes \<times> nat \<Rightarrow> (bytes \<times> nat) result" where
  "place_entries dir i [] st = Ok st"
| "place_entries dir i (e # es) st = and_then (place_entry dir i e st) (place_entries dir (i + 1) es)"

definition node_header :: "u8 \<Rightarrow> u16 \<Rightarrow> u64 \<Rightarrow> bytes" where
  "node_header t n link = overwrite (overwrite ((replicate PAGE_SIZE 0)[0 := t]) 2 (u16_to_le n)) 4 (u64_to_le link)"

definition encode_leaf_page :: "bytes list \<Rightarrow> u64 \<Rightarrow> bytes result" where
  "encode_leaf_page es next_leaf =
     (if 2 ^ 16 \<le> length es then Err (Internal 49)
      else and_then (place_entries LEAF_HEADER_SIZE 0 es
        (node_header PAGE_TYPE_LEAF (of_nat (length es)) next_leaf, PAGE_SIZE)) (\<lambda>(page, _). Ok page))"

fun place_children :: "nat \<Rightarrow> u64 list \<Rightarrow> bytes \<Rightarrow> bytes result" where
  "place_children i [] page = Ok page"
| "place_children i (c # cs) page =
     (let off = INTERNAL_HEADER_SIZE + i * 8 in
      if length page < off + 8 then Err Panic
      else place_children (i + 1) cs (overwrite page off (u64_to_le c)))"

text \<open>The page that \<^verbatim>\<open>write_internal_page\<close> assembles.\<close>

definition encode_internal_page :: "u64 list \<Rightarrow> bytes list \<Rightarrow> bytes result" where
  "encode_internal_page child_ids seps =
     (if child_ids = [] then Err (Stg 11)
      else if 2 ^ 16 \<le> length seps then Err (Internal 49)
      else and_then (place_children 0 (butlast child_ids)
          (node_header PAGE_TYPE_INTERNAL (of_nat (length seps)) (last child_ids))) (\<lambda>page.
        and_then (place_entries (INTERNAL_HEADER_SIZE + length seps * 8) 0 seps (page, PAGE_SIZE)) (\<lambda>(page, _).
          Ok page)))"

definition leaf_overflows :: "nat \<Rightarrow> nat \<Rightarrow> nat \<Rightarrow> bool" where
  "leaf_overflows n_entries data_bytes entry_len \<longleftrightarrow>
     PAGE_FILL_BYTES < LEAF_HEADER_SIZE + (n_entries + 1) * SLOT_SIZE + data_bytes + entry_len"

section \<open>What is on a page\<close>

definition leaf_at :: "bytes \<Rightarrow> bytes list \<Rightarrow> u64 \<Rightarrow> bool" where
  "leaf_at page es link \<longleftrightarrow> length page = PAGE_SIZE \<and> page ! 0 = PAGE_TYPE_LEAF \<and> length es < 2 ^ 16 \<and>
     slice_get page 2 4 = Some (u16_to_le (of_nat (length es))) \<and> slice_get page 4 12 = Some (u64_to_le link) \<and>
     12 + 4 * length es \<le> PAGE_SIZE \<and>
     (\<forall>k < length es. entry_at page (12 + 4 * k) (12 + 4 * length es) (es ! k))"

definition internal_at :: "bytes \<Rightarrow> u64 list \<Rightarrow> bytes list \<Rightarrow> bool" where
  "internal_at page cs seps \<longleftrightarrow> length page = PAGE_SIZE \<and> page ! 0 = PAGE_TYPE_INTERNAL \<and>
     length cs = length seps + 1 \<and> length seps < 2 ^ 16 \<and>
     slice_get page 2 4 = Some (u16_to_le (of_nat (length seps))) \<and> slice_get page 4 12 = Some (u64_to_le (last cs)) \<and>
     12 + 12 * length seps \<le> PAGE_SIZE \<and>
     (\<forall>k < length seps. slice_get page (12 + 8 * k) (20 + 8 * k) = Some (u64_to_le (cs ! k)) \<and>
        entry_at page (12 + 8 * length seps + 4 * k) 0 (seps ! k))"

lemma place_entries_Ok:
  assumes "length page = PAGE_SIZE" "pos \<le> PAGE_SIZE"
    and "\<forall>k < length ds. entry_at page (dir + 4 * k) pos (ds ! k)"
    and "dir + 4 * (length ds + length es) + sum_list (map length es) \<le> pos"
  shows "\<exists>page' pos'. place_entries dir (length ds) es (page, pos) = Ok (page', pos') \<and>
    length page' = PAGE_SIZE \<and> dir + 4 * (length ds + length es) \<le> pos' \<and>
    (\<forall>k < length (ds @ es). entry_at page' (dir + 4 * k) pos' ((ds @ es) ! k)) \<and>
    (\<forall>a b. b \<le> dir + 4 * length ds \<longrightarrow> slice_get page' a b = slice_get page a b)"
  using assms
proof (induction es arbitrary: page pos ds)
  case Nil
  then show ?case by auto
next
  case (Cons e es)
  define off slot where "off = pos - length e" and "slot = dir + 4 * length ds"
  let ?p1 = "overwrite page off e"
  let ?p2 = "overwrite ?p1 slot (u16_to_le (of_nat off))"
  let ?p3 = "overwrite ?p2 (slot + 2) (u16_to_le (of_nat (length e)))"
  from Cons.prems(4) have sum: "dir + 4 * (length ds + Suc (length es)) + (length e + sum_list (map length es)) \<le> pos" by simp
  have room: "slot + 4 \<le> off" "off + length e = pos" "length e \<le> pos" "pos \<le> PAGE_SIZE"
    using sum Cons.prems(2) unfolding off_def slot_def by (simp_all add: algebra_simps)
  have l: "length ?p1 = PAGE_SIZE" "length ?p2 = PAGE_SIZE" "length ?p3 = PAGE_SIZE" using Cons.prems(1) room by simp_all
  have small: "off < 2 ^ 16" "length e < 2 ^ 16" using room by (simp_all add: PAGE_SIZE_def)
  have place: "place_entry dir (length ds) e (page, pos) = Ok (?p3, off)"
    using room small Cons.prems(1)
    by (simp add: place_entry_def u16_or_48_def SLOT_SIZE_def Let_def off_def slot_def mult.commute)
  have old: "entry_at ?p3 (dir + 4 * k) off (ds ! k)" if "k < length ds" for k
  proof -
    have pos: "dir + 4 * k + 4 \<le> slot" using that by (simp add: slot_def)
    have "entry_at ?p1 (dir + 4 * k) pos (ds ! k)"
      by (rule entry_at_overwrite [OF Cons.prems(3) [rule_format, OF that] Cons.prems(1)]) (use room pos in simp_all)
    then have "entry_at ?p2 (dir + 4 * k) pos (ds ! k)"
      by (rule entry_at_overwrite [OF _ l(1)]) (use room pos in simp_all)
    then show ?thesis by (rule entry_at_overwrite [OF _ l(2)]) (use room pos in simp_all)
  qed
  have new: "entry_at ?p3 (dir + 4 * length ds) off e"
    using entry_at_new [OF Cons.prems(1) room(1)] room by (simp add: slot_def)
  have all: "\<forall>k < length (ds @ [e]). entry_at ?p3 (dir + 4 * k) off ((ds @ [e]) ! k)"
    using old new by (auto simp: nth_append less_Suc_eq)
  have frame: "slice_get ?p3 a b = slice_get page a b" if "b \<le> slot" for a b
    using that room l Cons.prems(1) by (simp add: slice_get_overwrite_disjoint)
  have "\<exists>page' pos'. place_entries dir (length (ds @ [e])) es (?p3, off) = Ok (page', pos') \<and>
    length page' = PAGE_SIZE \<and> dir + 4 * (length (ds @ [e]) + length es) \<le> pos' \<and>
    (\<forall>k < length ((ds @ [e]) @ es). entry_at page' (dir + 4 * k) pos' (((ds @ [e]) @ es) ! k)) \<and>
    (\<forall>a b. b \<le> dir + 4 * length (ds @ [e]) \<longrightarrow> slice_get page' a b = slice_get ?p3 a b)"
    using sum room by (intro Cons.IH [OF l(3) _ all]) (simp_all add: off_def)
  then show ?case using place frame by (fastforce simp: slot_def)
qed

lemma node_header_props:
  "length (node_header t n link) = PAGE_SIZE" "node_header t n link ! 0 = t"
  "slice_get (node_header t n link) 2 4 = Some (u16_to_le n)"
  "slice_get (node_header t n link) 4 12 = Some (u64_to_le link)"
proof -
  let ?p = "overwrite ((replicate PAGE_SIZE 0)[0 := t]) 2 (u16_to_le n)"
  have l: "length ?p = PAGE_SIZE" by (simp add: PAGE_SIZE_def)
  then show "length (node_header t n link) = PAGE_SIZE" by (simp add: node_header_def PAGE_SIZE_def)
  show "node_header t n link ! 0 = t" by (simp add: node_header_def nth_overwrite PAGE_SIZE_def)
  show "slice_get (node_header t n link) 2 4 = Some (u16_to_le n)"
    using slice_get_overwrite_same [of 2 "u16_to_le n" "(replicate PAGE_SIZE 0)[0 := t]"]
      slice_get_overwrite_disjoint [of 4 "u64_to_le link" ?p 4 2] l by (simp add: node_header_def PAGE_SIZE_def)
  show "slice_get (node_header t n link) 4 12 = Some (u64_to_le link)"
    using slice_get_overwrite_same [of 4 "u64_to_le link" ?p] l by (simp add: node_header_def PAGE_SIZE_def)
qed

lemma elem_0_slice: "slice_get page 0 1 = Some b \<Longrightarrow> page ! 0 = b ! 0"
  by (auto simp: slice_get_def split: if_splits)

lemma slice_0: "length page = PAGE_SIZE \<Longrightarrow> slice_get page 0 1 = Some [page ! 0]"
  by (simp add: slice_get_def PAGE_SIZE_def take_Suc_conv_app_nth flip: One_nat_def) (cases page; simp)

lemma same_first: "length page = PAGE_SIZE \<Longrightarrow> slice_get page' 0 1 = slice_get page 0 1 \<Longrightarrow> page' ! 0 = page ! 0"
  using slice_0 [of page] elem_0_slice [of page'] by simp

lemma entry_at_lower: "entry_at page pos lo b \<Longrightarrow> lo' \<le> lo \<Longrightarrow> entry_at page pos lo' b"
  unfolding entry_at_def using order_trans by blast

lemma encode_leaf_page_Ok:
  assumes "12 + 4 * length es + sum_list (map length es) \<le> PAGE_SIZE"
  shows "\<exists>page. encode_leaf_page es link = Ok page \<and> leaf_at page es link"
proof -
  let ?h = "node_header PAGE_TYPE_LEAF (of_nat (length es)) link"
  have n: "length es < 2 ^ 16" using assms by (simp add: PAGE_SIZE_def)
  obtain page pos where p: "place_entries 12 0 es (?h, PAGE_SIZE) = Ok (page, pos)" "length page = PAGE_SIZE"
    "12 + 4 * length es \<le> pos" "\<forall>k < length es. entry_at page (12 + 4 * k) pos (es ! k)"
    "\<forall>a b. b \<le> 12 \<longrightarrow> slice_get page a b = slice_get ?h a b"
    using place_entries_Ok [of ?h PAGE_SIZE "[]" 12 es] node_header_props assms by auto
  have "encode_leaf_page es link = Ok page" using p(1) n by (simp add: encode_leaf_page_def LEAF_HEADER_SIZE_def)
  moreover have "page ! 0 = PAGE_TYPE_LEAF"
    using same_first [of ?h page] p(5) node_header_props by simp
  ultimately show ?thesis
    using p n assms node_header_props by (auto simp: leaf_at_def intro: entry_at_lower)
qed

lemma read_u16_slice: "slice_get page a (a + 2) = Some (u16_to_le n) \<Longrightarrow> read_u16_at page a = Ok n"
  by (simp add: read_u16_at_def)

lemma slot_bytes_entry:
  assumes "entry_at page pos lo b"
  shows "slot_bytes page pos = Ok b"
proof -
  obtain off where off: "off + length b \<le> PAGE_SIZE"
    "slice_get page pos (pos + 2) = Some (u16_to_le (of_nat off))"
    "slice_get page (pos + 2) (pos + 4) = Some (u16_to_le (of_nat (length b)))"
    "slice_get page off (off + length b) = Some b"
    using assms by (auto simp: entry_at_def)
  have u: "unat (of_nat off :: u16) = off" "unat (of_nat (length b) :: u16) = length b"
    using off(1) by (simp_all add: unat_of_nat PAGE_SIZE_def)
  have "pos + 4 = pos + 2 + 2" by simp
  with off(3) have "slice_get page (pos + 2) (pos + 2 + 2) = Some (u16_to_le (of_nat (length b)))" by (simp only:)
  then have r: "read_u16_at page (pos + 2) = Ok (of_nat (length b))" "read_u16_at page pos = Ok (of_nat off)"
    using read_u16_slice off(2) by blast+
  show ?thesis unfolding slot_bytes_def r and_then_simps u using off(4) by simp
qed

lemma leaf_count: "leaf_at page es link \<Longrightarrow> read_u16_at page 2 = Ok (of_nat (length es))"
  "leaf_at page es link \<Longrightarrow> unat (of_nat (length es) :: u16) = length es"
  using read_u16_slice [of page 2] by (simp_all add: leaf_at_def unat_of_nat)

lemma leaf_link: "leaf_at page es link \<Longrightarrow> read_u64_at page 4 = Ok link"
  by (simp add: leaf_at_def read_u64_at_def)

lemma leaf_type: "leaf_at page es link \<Longrightarrow> elem_get page 0 = Some PAGE_TYPE_LEAF"
  by (simp add: leaf_at_def elem_get_def PAGE_SIZE_def)

lemma leaf_slot:
  assumes "leaf_at page es link" "k < length es"
  shows "slot_bytes page (LEAF_HEADER_SIZE + k * SLOT_SIZE) = Ok (es ! k)"
proof -
  have "entry_at page (12 + 4 * k) (12 + 4 * length es) (es ! k)" using assms by (simp add: leaf_at_def)
  from slot_bytes_entry [OF this] show ?thesis by (simp add: LEAF_HEADER_SIZE_def SLOT_SIZE_def mult.commute)
qed

lemma collect_map_nth: "collect_map (\<lambda>i. f (xs ! i)) [0..<length xs] = collect_map f xs"
proof -
  have "collect_map (\<lambda>i. f (xs ! i)) is = collect_map f (map ((!) xs) is)" for "is" by (induction "is") simp_all
  then show ?thesis by (simp add: map_nth)
qed

lemma read_leaf: "leaf_at page es link \<Longrightarrow> read_leaf_entries dec page = collect_map dec es"
  unfolding read_leaf_entries_def leaf_count(1) and_then_simps leaf_count(2) collect_map_nth [of dec, symmetric]
  by (rule collect_map_cong [OF refl]) (simp add: leaf_slot)

lemma read_first_key:
  assumes "leaf_at page es link"
  shows "leaf_first_key dec page = (case es of [] \<Rightarrow> Ok None | e # _ \<Rightarrow> and_then (dec e) (\<lambda>(k, _). Ok (Some k)))"
proof (cases es)
  case Nil
  with leaf_count(1) [OF assms] show ?thesis by (simp add: leaf_first_key_def)
next
  case (Cons e es')
  then have "(of_nat (length es) :: u16) \<noteq> 0" using leaf_count(2) [OF assms] by (metis length_0_conv list.distinct(1) unat_0)
  with Cons leaf_count(1) [OF assms] leaf_slot [OF assms, of 0] show ?thesis by (simp add: leaf_first_key_def)
qed

lemma validate_leaf:
  assumes "leaf_at page es link"
  shows "validate_leaf_slots page = Ok ()"
proof -
  have "check_slot page (LEAF_HEADER_SIZE + length es * SLOT_SIZE) k = Ok ()" if "k < length es" for k
  proof -
    from assms that have "entry_at page (12 + 4 * k) (12 + 4 * length es) (es ! k)" "length page = PAGE_SIZE"
      by (simp_all add: leaf_at_def)
    then obtain off where off: "12 + 4 * length es \<le> off" "off + length (es ! k) \<le> PAGE_SIZE"
      "slice_get page (12 + 4 * k) (12 + 4 * k + 2) = Some (u16_to_le (of_nat off))"
      "slice_get page (12 + 4 * k + 2) (12 + 4 * k + 4) = Some (u16_to_le (of_nat (length (es ! k))))"
      by (auto simp: entry_at_def)
    have u: "unat (of_nat off :: u16) = off" "unat (of_nat (length (es ! k)) :: u16) = length (es ! k)"
      using off(2) by (simp_all add: unat_of_nat PAGE_SIZE_def)
    have "12 + 4 * k + 4 = 12 + 4 * k + 2 + 2" by simp
    with off(4) have "slice_get page (12 + 4 * k + 2) (12 + 4 * k + 2 + 2) = Some (u16_to_le (of_nat (length (es ! k))))" by (simp only:)
    then have r: "read_u16_at page (12 + 4 * k + 2) = Ok (of_nat (length (es ! k)))" "read_u16_at page (12 + 4 * k) = Ok (of_nat off)"
      using read_u16_slice off(3) by blast+
    have s: "LEAF_HEADER_SIZE + k * SLOT_SIZE = 12 + 4 * k" "LEAF_HEADER_SIZE + length es * SLOT_SIZE = 12 + 4 * length es"
      by (simp_all add: LEAF_HEADER_SIZE_def SLOT_SIZE_def)
    show ?thesis
      unfolding check_slot_def s Let_def r and_then_simps u using off(1,2) \<open>length page = PAGE_SIZE\<close> by simp
  qed
  then have "collect_map (check_slot page (LEAF_HEADER_SIZE + length es * SLOT_SIZE)) [0..<length es] = Ok (map (\<lambda>_. ()) [0..<length es])"
    by (intro collect_map_Inr) simp
  moreover have "LEAF_HEADER_SIZE + length es * SLOT_SIZE \<le> length page"
    using assms by (simp add: leaf_at_def LEAF_HEADER_SIZE_def SLOT_SIZE_def)
  ultimately show ?thesis
    unfolding validate_leaf_slots_def leaf_count(1) [OF assms] and_then_simps leaf_count(2) [OF assms] Let_def by simp
qed

lemma leaf_relink:
  assumes "leaf_at page es link"
  shows "leaf_at (overwrite page 4 (u64_to_le link')) es link'"
proof -
  let ?p = "overwrite page 4 (u64_to_le link')"
  from assms have l: "length page = PAGE_SIZE" and fits: "12 + 4 * length es \<le> PAGE_SIZE"
    and e: "\<And>k. k < length es \<Longrightarrow> entry_at page (12 + 4 * k) (12 + 4 * length es) (es ! k)" by (simp_all add: leaf_at_def)
  have "entry_at ?p (12 + 4 * k) (12 + 4 * length es) (es ! k)" if "k < length es" for k
    by (rule entry_at_overwrite [OF e [OF that] l]) (use that fits in \<open>simp_all add: PAGE_SIZE_def\<close>)
  moreover have "slice_get ?p 2 4 = slice_get page 2 4"
    using l by (intro slice_get_overwrite_disjoint) (simp_all add: PAGE_SIZE_def)
  moreover have "slice_get ?p 4 12 = Some (u64_to_le link')"
    using slice_get_overwrite_same [of 4 "u64_to_le link'" page] l by (simp add: PAGE_SIZE_def)
  moreover have "?p ! 0 = page ! 0" using l by (simp add: nth_overwrite PAGE_SIZE_def)
  ultimately show ?thesis using assms by (simp add: leaf_at_def PAGE_SIZE_def)
qed

lemma place_children_Ok:
  assumes "length page = PAGE_SIZE" "12 + 8 * (length ds + length cs) \<le> PAGE_SIZE"
    and "\<forall>k < length ds. slice_get page (12 + 8 * k) (20 + 8 * k) = Some (u64_to_le (ds ! k))"
  shows "\<exists>page'. place_children (length ds) cs page = Ok page' \<and> length page' = PAGE_SIZE \<and>
    (\<forall>k < length (ds @ cs). slice_get page' (12 + 8 * k) (20 + 8 * k) = Some (u64_to_le ((ds @ cs) ! k))) \<and>
    (\<forall>a b. b \<le> 12 \<longrightarrow> slice_get page' a b = slice_get page a b)"
  using assms
proof (induction cs arbitrary: page ds)
  case (Cons c cs)
  define off where "off = 12 + 8 * length ds"
  let ?p = "overwrite page off (u64_to_le c)"
  have room: "off + 8 \<le> PAGE_SIZE" using Cons.prems(2) by (simp add: off_def)
  have l: "length ?p = PAGE_SIZE" using Cons.prems(1) room by simp
  have "slice_get ?p off (off + length (u64_to_le c)) = Some (u64_to_le c)"
    by (rule slice_get_overwrite_same) (use room Cons.prems(1) in simp)
  then have new: "slice_get ?p (12 + 8 * length ds) (20 + 8 * length ds) = Some (u64_to_le c)" by (simp add: off_def)
  have frame: "slice_get ?p a b = slice_get page a b" if "b \<le> off" for a b
    using that room Cons.prems(1) by (intro slice_get_overwrite_disjoint) simp_all
  have all: "\<forall>k < length (ds @ [c]). slice_get ?p (12 + 8 * k) (20 + 8 * k) = Some (u64_to_le ((ds @ [c]) ! k))"
    using Cons.prems(3) new frame by (auto simp: nth_append less_Suc_eq off_def)
  have step: "place_children (length ds) (c # cs) page = place_children (length (ds @ [c])) cs ?p"
    using room Cons.prems(1) by (simp add: off_def INTERNAL_HEADER_SIZE_def mult.commute)
  have "\<exists>page'. place_children (length (ds @ [c])) cs ?p = Ok page' \<and> length page' = PAGE_SIZE \<and>
    (\<forall>k < length ((ds @ [c]) @ cs). slice_get page' (12 + 8 * k) (20 + 8 * k) = Some (u64_to_le (((ds @ [c]) @ cs) ! k))) \<and>
    (\<forall>a b. b \<le> 12 \<longrightarrow> slice_get page' a b = slice_get ?p a b)"
    using Cons.prems(2) by (intro Cons.IH [OF l _ all]) simp
  then show ?case unfolding step using frame by (fastforce simp: off_def)
qed simp

lemma encode_internal_page_Ok:
  assumes "length cs = length seps + 1" "12 + 12 * length seps + sum_list (map length seps) \<le> PAGE_SIZE"
  shows "\<exists>page. encode_internal_page cs seps = Ok page \<and> internal_at page cs seps"
proof -
  let ?h = "node_header PAGE_TYPE_INTERNAL (of_nat (length seps)) (last cs)"
  have n: "length seps < 2 ^ 16" using assms(2) by (simp add: PAGE_SIZE_def)
  have b: "length (butlast cs) = length seps" "cs \<noteq> []" using assms(1) by auto
  have nth: "butlast cs ! k = cs ! k" if "k < length seps" for k using that b(1) by (simp add: nth_butlast)
  obtain p1 where p1: "place_children 0 (butlast cs) ?h = Ok p1" "length p1 = PAGE_SIZE"
    "\<forall>k < length seps. slice_get p1 (12 + 8 * k) (20 + 8 * k) = Some (u64_to_le (cs ! k))"
    "\<forall>a b. b \<le> 12 \<longrightarrow> slice_get p1 a b = slice_get ?h a b"
    using place_children_Ok [of ?h "[]" "butlast cs"] node_header_props assms(2) b(1) nth by auto
  obtain page pos where p: "place_entries (12 + 8 * length seps) 0 seps (p1, PAGE_SIZE) = Ok (page, pos)" "length page = PAGE_SIZE"
    "\<forall>k < length seps. entry_at page (12 + 8 * length seps + 4 * k) pos (seps ! k)"
    "\<forall>a b. b \<le> 12 + 8 * length seps \<longrightarrow> slice_get page a b = slice_get p1 a b"
    using place_entries_Ok [of p1 PAGE_SIZE "[]" "12 + 8 * length seps" seps] p1(2) assms(2) by auto
  have "encode_internal_page cs seps = Ok page"
    using p(1) p1(1) n b(2) by (simp add: encode_internal_page_def INTERNAL_HEADER_SIZE_def mult.commute)
  moreover have "page ! 0 = PAGE_TYPE_INTERNAL"
    using same_first [of ?h page] p(4) p1(4) node_header_props by simp
  moreover have "slice_get page (12 + 8 * k) (20 + 8 * k) = Some (u64_to_le (cs ! k))" if "k < length seps" for k
    using that p(4) p1(3) by simp
  ultimately show ?thesis
    using p p1(4) n assms node_header_props by (auto simp: internal_at_def intro: entry_at_lower)
qed

lemma internal_props:
  assumes "internal_at page cs seps"
  shows "elem_get page 0 = Some PAGE_TYPE_INTERNAL" "read_u16_at page 2 = Ok (of_nat (length seps))"
    "unat (of_nat (length seps) :: u16) = length seps" "read_u64_at page 4 = Ok (last cs)"
    "k < length seps \<Longrightarrow> slot_bytes page (INTERNAL_HEADER_SIZE + length seps * 8 + k * SLOT_SIZE) = Ok (seps ! k)"
    "k < length seps \<Longrightarrow> read_u64_at page (INTERNAL_HEADER_SIZE + k * 8) = Ok (cs ! k)"
proof -
  show "elem_get page 0 = Some PAGE_TYPE_INTERNAL" using assms by (simp add: internal_at_def elem_get_def PAGE_SIZE_def)
  show "read_u16_at page 2 = Ok (of_nat (length seps))" using assms read_u16_slice [of page 2] by (simp add: internal_at_def)
  show "unat (of_nat (length seps) :: u16) = length seps" using assms by (simp add: internal_at_def unat_of_nat)
  show "read_u64_at page 4 = Ok (last cs)" using assms by (simp add: internal_at_def read_u64_at_def)
  assume "k < length seps"
  with assms have e: "entry_at page (12 + 8 * length seps + 4 * k) 0 (seps ! k)"
    and c: "slice_get page (12 + 8 * k) (20 + 8 * k) = Some (u64_to_le (cs ! k))" by (simp_all add: internal_at_def)
  from slot_bytes_entry [OF e] show "slot_bytes page (INTERNAL_HEADER_SIZE + length seps * 8 + k * SLOT_SIZE) = Ok (seps ! k)"
    by (simp add: INTERNAL_HEADER_SIZE_def SLOT_SIZE_def mult.commute)
  have "12 + 8 * k + 8 = 20 + 8 * k" by simp
  with c have "read_u64_at page (12 + 8 * k) = Ok (cs ! k)" by (simp add: read_u64_at_def)
  then show "read_u64_at page (INTERNAL_HEADER_SIZE + k * 8) = Ok (cs ! k)"
    by (simp add: INTERNAL_HEADER_SIZE_def mult.commute)
qed

lemma leftmost_internal:
  assumes "internal_at page cs seps"
  shows "leftmost_step page = Ok (Some (hd cs))"
proof (cases seps)
  case Nil
  then have "hd cs = last cs" using assms by (cases cs) (auto simp: internal_at_def)
  with Nil internal_props(1,2,4) [OF assms] show ?thesis
    by (simp add: leftmost_step_def PAGE_TYPE_LEAF_def PAGE_TYPE_INTERNAL_def)
next
  case (Cons s ss)
  then have "hd cs = cs ! 0" using assms by (cases cs) (auto simp: internal_at_def)
  moreover have "(of_nat (length seps) :: u16) \<noteq> 0"
    using internal_props(3) [OF assms] Cons by (metis length_0_conv list.distinct(1) unat_0)
  ultimately show ?thesis
    using Cons internal_props(1,2) [OF assms] internal_props(6) [OF assms, of 0]
    by (simp add: leftmost_step_def PAGE_TYPE_LEAF_def PAGE_TYPE_INTERNAL_def)
qed

lemma key_step_leaf: "leaf_at page es link \<Longrightarrow> key_step dec key page = Ok None"
  "leaf_at page es link \<Longrightarrow> leftmost_step page = Ok None"
  by (simp_all add: key_step_def leftmost_step_def leaf_type)

lemma key_step_internal:
  assumes at: "internal_at page cs seps" and dec: "collect_map dec seps = Ok ks"
  shows "key_step dec key page = Ok (Some (cs ! length (takeWhile (\<lambda>s. s \<le> key) ks)))"
proof -
  let ?n = "length seps" and ?dir = "INTERNAL_HEADER_SIZE + length seps * 8"
  have ks: "length ks = ?n" "\<And>i. i < ?n \<Longrightarrow> dec (seps ! i) = Ok (ks ! i)"
    using collect_map_eq_InrD [OF dec] by auto
  have cs: "length cs = ?n + 1" using at by (simp add: internal_at_def)
  have "pick_child dec key page ?dir (last cs) [i..<?n] = Ok (cs ! (i + length (takeWhile (\<lambda>s. s \<le> key) (drop i ks))))"
    if "i \<le> ?n" for i
    using that
  proof (induction "?n - i" arbitrary: i)
    case 0
    then have "i = ?n" by simp
    moreover have "last cs = cs ! ?n" using cs by (cases cs rule: rev_cases) (auto simp: nth_append)
    ultimately show ?case using ks(1) by simp
  next
    case (Suc m)
    then have i: "i < ?n" by simp
    then have d: "drop i ks = ks ! i # drop (Suc i) ks" "[i..<?n] = i # [Suc i..<?n]"
      using ks(1) by (simp_all add: Cons_nth_drop_Suc upt_conv_Cons)
    have ih: "pick_child dec key page ?dir (last cs) [Suc i..<?n] = Ok (cs ! (Suc i + length (takeWhile (\<lambda>s. s \<le> key) (drop (Suc i) ks))))"
      using Suc by (intro Suc.hyps(1)) simp_all
    show ?case
      unfolding d pick_child.simps internal_props(5) [OF at i] and_then_simps ks(2) [OF i]
      using internal_props(6) [OF at i] ih by (auto simp: not_less)
  qed
  from this [of 0] show ?thesis
    unfolding key_step_def using internal_props(1-4) [OF at]
    by (simp add: PAGE_TYPE_LEAF_def PAGE_TYPE_INTERNAL_def)
qed

end
