(* ===== verification/Page_Cache.thy ===== *)
theory Page_Cache
  imports Backend
begin

text \<open>
  The LRU page cache of \<^verbatim>\<open>src/storage/cache.rs\<close>. Each operation runs under the cache's lock;
  \<^verbatim>\<open>get_or_load\<close> releases it between the miss and the fill, while its caller holds the
  backend, so no write can come between. \<^verbatim>\<open>HashMap\<close> entries are an association list; the
  order in which \<^verbatim>\<open>flush\<close> visits them is an argument.
\<close>

record cache_entry =
  ce_data :: bytes
  ce_dirty :: bool

record page_cache =
  entries :: "(u64 \<times> cache_entry) list"
  order :: "u64 list"
  capacity :: nat

definition page_cache_new :: "nat \<Rightarrow> page_cache" where
  "page_cache_new cap = \<lparr>entries = [], order = [], capacity = cap\<rparr>"

definition touch :: "u64 \<Rightarrow> page_cache \<Rightarrow> page_cache" where
  "touch p c =
     (if p \<in> set (order c) then
        (if last (order c) = p then c else c\<lparr>order := remove1 p (order c) @ [p]\<rparr>)
      else c\<lparr>order := order c @ [p]\<rparr>)"

text \<open>The eviction loop: drop from the front of the order until there is room.\<close>

fun evict :: "nat \<Rightarrow> (u64 \<times> cache_entry) list \<Rightarrow> u64 list \<Rightarrow> (u64 \<times> cache_entry) list \<times> u64 list" where
  "evict cap es [] = (es, [])"
| "evict cap es (p # ps) =
     (if cap \<le> length es \<and> 0 < cap then evict cap (AList.delete p es) ps else (es, p # ps))"

definition insert_entry :: "u64 \<Rightarrow> cache_entry \<Rightarrow> page_cache \<Rightarrow> page_cache" where
  "insert_entry p e c =
     (let (es, ps) = evict (capacity c) (entries c) (order c)
      in c\<lparr>entries := AList.update p e es, order := ps @ [p]\<rparr>)"

definition get_or_load :: "u64 \<Rightarrow> (u64 \<Rightarrow> bytes result) \<Rightarrow> page_cache \<Rightarrow> bytes result \<times> page_cache" where
  "get_or_load p rd c =
     (if capacity c = 0 then (rd p, c)
      else case map_of (entries c) p of
        Some e \<Rightarrow> (Ok (ce_data e), c)
      | None \<Rightarrow>
          (case rd p of
             Inl err \<Rightarrow> (Err err, c)
           | Inr d \<Rightarrow> (Ok d, insert_entry p \<lparr>ce_data = d, ce_dirty = False\<rparr> c)))"

definition put_dirty :: "u64 \<Rightarrow> bytes \<Rightarrow> page_cache \<Rightarrow> page_cache" where
  "put_dirty p d c =
     (if capacity c = 0 then c
      else if map_of (entries c) p \<noteq> None then
        touch p (c\<lparr>entries := AList.update p \<lparr>ce_data = d, ce_dirty = True\<rparr> (entries c)\<rparr>)
      else insert_entry p \<lparr>ce_data = d, ce_dirty = True\<rparr> c)"

fun flush :: "'b backend_ops \<Rightarrow> u64 list \<Rightarrow> 'b \<Rightarrow> page_cache \<Rightarrow> unit result \<times> 'b \<times> page_cache" where
  "flush ops [] b c = (Ok (), b, c)"
| "flush ops (p # ps) b c =
     (case map_of (entries c) p of
        Some e \<Rightarrow>
          (if ce_dirty e then
             (case write_page ops p (ce_data e) b of
                (Inl err, b') \<Rightarrow> (Err err, b', c)
              | (Inr _, b') \<Rightarrow>
                  flush ops ps b' (c\<lparr>entries := AList.update p (e\<lparr>ce_dirty := False\<rparr>) (entries c)\<rparr>))
           else flush ops ps b c)
      | None \<Rightarrow> flush ops ps b c)"

definition invalidate :: "u64 \<Rightarrow> page_cache \<Rightarrow> page_cache" where
  "invalidate p c =
     c\<lparr>entries := AList.delete p (entries c), order := filter (\<lambda>q. q \<noteq> p) (order c)\<rparr>"

definition invalidate_from :: "u64 \<Rightarrow> page_cache \<Rightarrow> page_cache" where
  "invalidate_from from c =
     c\<lparr>entries := filter (\<lambda>(q, e). q < from) (entries c), order := filter (\<lambda>q. q < from) (order c)\<rparr>"

definition cached_page_count :: "page_cache \<Rightarrow> nat" where
  "cached_page_count c = length (entries c)"

text \<open>
  How the index builder uses it: a page goes to the backend and, if that succeeds, into the
  cache.
\<close>

definition write_through ::
    "'b backend_ops \<Rightarrow> u64 \<Rightarrow> bytes \<Rightarrow> 'b \<times> page_cache \<Rightarrow> unit result \<times> 'b \<times> page_cache" where
  "write_through ops p d = (\<lambda>(b, c).
     case write_page ops p d b of
       (Inl err, b') \<Rightarrow> (Err err, b', c)
     | (Inr _, b') \<Rightarrow> (Ok (), b', put_dirty p d c))"

section \<open>The invariant\<close>

definition cache_inv :: "page_cache \<Rightarrow> bool" where
  "cache_inv c \<longleftrightarrow> distinct (map fst (entries c)) \<and> distinct (order c) \<and>
     set (order c) = fst ` set (entries c) \<and> length (entries c) \<le> capacity c"

lemma cache_inv_length: "cache_inv c \<Longrightarrow> length (order c) = length (entries c)"
  unfolding cache_inv_def by (metis distinct_card length_map list.set_map)

lemma delete_filter: "AList.delete p es = filter (\<lambda>(q, e). q \<noteq> p) es"
  by (auto simp: AList.delete_eq intro: filter_cong)

lemma evict_result:
  assumes "evict cap es ps = (es', ps')" "distinct (map fst es)" "distinct ps"
    "set ps = fst ` set es" "length es \<le> cap" "0 < cap"
  shows "distinct (map fst es') \<and> distinct ps' \<and> set ps' = fst ` set es' \<and> length es' < cap \<and>
    set es' \<subseteq> set es"
  using assms
proof (induction cap es ps arbitrary: es' ps' rule: evict.induct)
  case (1 cap es)
  then show ?case by auto
next
  case (2 cap es p ps)
  show ?case
  proof (cases "cap \<le> length es")
    case True
    let ?es = "filter (\<lambda>(q, e). q \<noteq> p) es"
    have sub: "fst ` set ?es = fst ` set es - {p}" by force
    have "distinct (map fst ?es)" using "2.prems"(2) by (induction es) auto
    moreover have "set ps = fst ` set ?es" unfolding sub "2.prems"(4) [symmetric] using "2.prems"(3) by auto
    moreover have "length ?es \<le> cap" using "2.prems"(5) by (meson length_filter_le order_trans)
    ultimately have "distinct (map fst es') \<and> distinct ps' \<and> set ps' = fst ` set es' \<and> length es' < cap \<and>
        set es' \<subseteq> set ?es"
      using "2.IH" [of es' ps'] "2.prems" True by (simp add: delete_filter)
    then show ?thesis by auto
  next
    case False
    with "2.prems" show ?thesis by auto
  qed
qed

lemma evict_subset:
  "evict cap es ps = (es', ps') \<Longrightarrow> set es' \<subseteq> set es"
  by (induction cap es ps arbitrary: es' ps' rule: evict.induct)
    (auto simp: delete_filter split: if_splits)

lemma insert_entry_inv:
  assumes "cache_inv c" "0 < capacity c" "map_of (entries c) p = None"
  shows "cache_inv (insert_entry p e c)"
proof -
  obtain es ps where ev: "evict (capacity c) (entries c) (order c) = (es, ps)" by (metis prod.exhaust)
  with evict_result [OF ev] assms have r: "distinct (map fst es)" "distinct ps" "set ps = fst ` set es"
    "length es < capacity c" "set es \<subseteq> set (entries c)"
    by (auto simp: cache_inv_def)
  have "p \<notin> fst ` set es" using assms(3) r(5) by (force simp: map_of_eq_None_iff)
  then have "AList.update p e es = es @ [(p, e)]"
    by (induction es) auto
  with r \<open>p \<notin> fst ` set es\<close> show ?thesis
    by (simp add: insert_entry_def ev cache_inv_def)
qed

lemma touch_inv:
  assumes "cache_inv c" "p \<in> set (order c)"
  shows "cache_inv (touch p c)" "entries (touch p c) = entries c"
  using assms by (auto simp: touch_def cache_inv_def)

lemma update_present:
  "map_of es p \<noteq> None \<Longrightarrow> length (AList.update p e es) = length es \<and> map fst (AList.update p e es) = map fst es"
  by (induction es) auto

lemma entries_update_inv:
  assumes "cache_inv c" "map_of (entries c) p \<noteq> None"
  shows "cache_inv (c\<lparr>entries := AList.update p e (entries c)\<rparr>)"
proof -
  note u = update_present [OF assms(2), of e]
  then have "fst ` set (AList.update p e (entries c)) = fst ` set (entries c)" by (metis list.set_map)
  with assms(1) u show ?thesis by (simp add: cache_inv_def)
qed

lemma put_dirty_inv: "cache_inv c \<Longrightarrow> cache_inv (put_dirty p d c)"
proof (cases "capacity c = 0 \<or> map_of (entries c) p = None")
  case True
  then show "cache_inv c \<Longrightarrow> cache_inv (put_dirty p d c)"
    using insert_entry_inv [of c p] by (auto simp: put_dirty_def)
next
  case False
  assume c: "cache_inv c"
  let ?c = "c\<lparr>entries := AList.update p \<lparr>ce_data = d, ce_dirty = True\<rparr> (entries c)\<rparr>"
  have "p \<in> set (order ?c)"
    using c False by (auto simp: cache_inv_def dest: map_of_SomeD intro: rev_image_eqI)
  moreover have "cache_inv ?c" using entries_update_inv [OF c] False by blast
  ultimately have "cache_inv (touch p ?c)" by (intro touch_inv)
  with False show ?thesis by (simp add: put_dirty_def)
qed

lemma get_or_load_inv: "cache_inv c \<Longrightarrow> cache_inv (snd (get_or_load p rd c))"
  using insert_entry_inv [of c p] by (auto simp: get_or_load_def split: option.splits sum.splits)

lemma filter_inv:
  assumes "cache_inv c"
  shows "cache_inv (c\<lparr>entries := filter (\<lambda>(q, e). P q) (entries c), order := filter P (order c)\<rparr>)"
proof -
  have "distinct (map fst (filter (\<lambda>(q, e). P q) es))" if "distinct (map fst es)" for es :: "(u64 \<times> cache_entry) list"
    using that by (induction es) auto
  moreover have "length (filter (\<lambda>(q, e). P q) (entries c)) \<le> capacity c"
    using assms by (meson cache_inv_def length_filter_le order_trans)
  ultimately show ?thesis using assms by (force simp: cache_inv_def)
qed

lemma invalidate_inv: "cache_inv c \<Longrightarrow> cache_inv (invalidate p c)"
  "cache_inv c \<Longrightarrow> cache_inv (invalidate_from p c)"
  using filter_inv [of c "\<lambda>q. q \<noteq> p"] filter_inv [of c "\<lambda>q. q < p"]
  by (simp_all add: invalidate_def invalidate_from_def delete_filter)

lemma flush_inv: "cache_inv c \<Longrightarrow> cache_inv (snd (snd (flush ops ps b c)))"
proof (induction ops ps b c rule: flush.induct)
  case (2 ops p ps b c)
  then show ?case
    using entries_update_inv [of c p] by (auto split: option.splits prod.splits sum.splits)
qed simp

section \<open>Coherence\<close>

text \<open>Every cached page is what the backend holds.\<close>

definition coherent :: "(u64 \<Rightarrow> bytes result) \<Rightarrow> page_cache \<Rightarrow> bool" where
  "coherent rd c \<longleftrightarrow> (\<forall>(p, e) \<in> set (entries c). p \<noteq> 0 \<and> rd p = Ok (ce_data e))"

lemma insert_entry_subset:
  "set (entries (insert_entry p e c)) \<subseteq> insert (p, e) (set (entries c))"
proof -
  obtain es ps where ev: "evict (capacity c) (entries c) (order c) = (es, ps)" by (metis prod.exhaust)
  with evict_subset [OF ev] set_alist_update [of p e es] show ?thesis
    by (auto simp: insert_entry_def)
qed

lemma put_dirty_subset:
  assumes "cache_inv c"
  shows "set (entries (put_dirty p d c)) \<subseteq>
    insert (p, \<lparr>ce_data = d, ce_dirty = True\<rparr>) {(q, e) \<in> set (entries c). q \<noteq> p}"
proof -
  let ?e = "\<lparr>ce_data = d, ce_dirty = True\<rparr>"
  have "set (AList.update p ?e es) \<subseteq> insert (p, ?e) {(q, e) \<in> set es. q \<noteq> p}" if "distinct (map fst es)" for es
    using that by (induction es) (auto simp: rev_image_eqI)
  moreover have "entries (touch p c') = entries c'" for c' by (simp add: touch_def)
  moreover have "map_of (entries c) p = None \<Longrightarrow> q \<noteq> p" if "(q, e) \<in> set (entries c)" for q e
    using that by (force simp: map_of_eq_None_iff)
  ultimately show ?thesis
    using assms insert_entry_subset [of p ?e c]
    by (auto simp: put_dirty_def cache_inv_def)
qed

lemma coherent_subset:
  "set (entries c') \<subseteq> S \<Longrightarrow> (\<And>p e. (p, e) \<in> S \<Longrightarrow> p \<noteq> 0 \<and> rd p = Ok (ce_data e)) \<Longrightarrow> coherent rd c'"
  by (auto simp: coherent_def dest!: subsetD)

lemma coherentD: "coherent rd c \<Longrightarrow> (p, e) \<in> set (entries c) \<Longrightarrow> p \<noteq> 0 \<and> rd p = Ok (ce_data e)"
  by (auto simp: coherent_def)

lemma insert_entry_coherent:
  "coherent rd c \<Longrightarrow> p \<noteq> 0 \<Longrightarrow> rd p = Ok (ce_data e) \<Longrightarrow> coherent rd (insert_entry p e c)"
  by (rule coherent_subset [OF insert_entry_subset]) (auto dest: coherentD)

lemma get_or_load_coherent:
  assumes "coherent rd c" "p \<noteq> 0"
  shows "fst (get_or_load p rd c) = rd p" "coherent rd (snd (get_or_load p rd c))"
  using assms insert_entry_coherent [OF assms] coherentD [OF assms(1) map_of_SomeD, of p]
  by (auto simp: get_or_load_def split: option.splits sum.splits)

lemma invalidate_coherent:
  "coherent rd c \<Longrightarrow> coherent rd (invalidate p c)" "coherent rd c \<Longrightarrow> coherent rd (invalidate_from p c)"
  by (auto simp: coherent_def invalidate_def invalidate_from_def delete_filter)

text \<open>
  The states a client reaches by reading through the cache, writing through it,
  invalidating, and writing pages that are not cached straight to the backend.
\<close>

inductive cached_run :: "'b backend_ops \<Rightarrow> 'b \<Rightarrow> nat \<Rightarrow> 'b \<Rightarrow> page_cache \<Rightarrow> bool" for ops b0 cap where
  start: "cached_run ops b0 cap b0 (page_cache_new cap)"
| load: "cached_run ops b0 cap b c \<Longrightarrow> p \<noteq> 0 \<Longrightarrow>
    cached_run ops b0 cap b (snd (get_or_load p (read_page ops b) c))"
| through: "cached_run ops b0 cap b c \<Longrightarrow> p \<noteq> 0 \<Longrightarrow> write_through ops p d (b, c) = (Ok (), b', c') \<Longrightarrow>
    cached_run ops b0 cap b' c'"
| invalidate: "cached_run ops b0 cap b c \<Longrightarrow> cached_run ops b0 cap b (invalidate p c)"
| invalidate_from: "cached_run ops b0 cap b c \<Longrightarrow> cached_run ops b0 cap b (invalidate_from p c)"
| direct: "cached_run ops b0 cap b c \<Longrightarrow> p \<noteq> 0 \<Longrightarrow> map_of (entries c) p = None \<Longrightarrow>
    write_page ops p d b = (Ok (), b') \<Longrightarrow> cached_run ops b0 cap b' c"

context backend
begin

lemma write_coherent:
  assumes "invar b" "p \<noteq> 0" "write_page ops p d b = (Ok (), b')"
    and "(q, e) \<in> set (entries c)" "coherent (read_page ops b) c" "q \<noteq> p"
  shows "q \<noteq> 0 \<and> read_page ops b' q = Ok (ce_data e)"
  using assms read_other [of b p q d b' "ce_data e"] coherentD [of "read_page ops b" c q e] by simp

lemma write_through_coherent:
  assumes "invar b" "cache_inv c" "coherent (read_page ops b) c" "p \<noteq> 0"
    and "write_through ops p d (b, c) = (Ok (), b', c')"
  shows "invar b' \<and> cache_inv c' \<and> coherent (read_page ops b') c'"
proof -
  from assms(5) have w: "write_page ops p d b = (Ok (), b')" "c' = put_dirty p d c"
    by (auto simp: write_through_def split: prod.splits sum.splits)
  have "invar b'" using invar_write [OF assms(1,4) w(1)] .
  moreover have "coherent (read_page ops b') c'"
    unfolding w(2)
  proof (rule coherent_subset [OF put_dirty_subset [OF assms(2)]])
    fix q e assume "(q, e) \<in> insert (p, \<lparr>ce_data = d, ce_dirty = True\<rparr>) {(q, e) \<in> set (entries c). q \<noteq> p}"
    then show "q \<noteq> 0 \<and> read_page ops b' q = Ok (ce_data e)"
      using write_coherent [OF assms(1,4) w(1) _ assms(3)] read_same [OF assms(1,4) w(1)] assms(4) by auto
  qed
  ultimately show ?thesis using put_dirty_inv [OF assms(2)] w(2) by simp
qed

lemma cached_run_invariant:
  assumes "cached_run ops b0 cap b c" "invar b0"
  shows "invar b \<and> cache_inv c \<and> coherent (read_page ops b) c \<and> capacity c = cap"
  using assms
proof (induction rule: cached_run.induct)
  case start
  then show ?case by (simp add: page_cache_new_def cache_inv_def coherent_def)
next
  case (load b c p)
  have "capacity (snd (get_or_load p rd c)) = capacity c" for rd
    by (simp add: get_or_load_def insert_entry_def split_beta split: option.splits sum.splits)
  with load show ?case by (simp add: get_or_load_inv get_or_load_coherent)
next
  case (through b c p d b' c')
  have "capacity (put_dirty p d c) = capacity c"
    by (simp add: put_dirty_def touch_def insert_entry_def split_beta)
  moreover have "c' = put_dirty p d c"
    using through.hyps by (auto simp: write_through_def split: prod.splits sum.splits)
  ultimately show ?case using through write_through_coherent [of b c p d b' c'] by auto
next
  case (invalidate b c p)
  then show ?case by (simp add: invalidate_inv invalidate_coherent) (simp add: invalidate_def)
next
  case (invalidate_from b c p)
  then show ?case by (simp add: invalidate_inv invalidate_coherent) (simp add: invalidate_from_def)
next
  case (direct b c p d b')
  then have "coherent (read_page ops b') c"
    using write_coherent [of b p d b' _ _ c]
    by (intro coherent_subset [OF order_refl]) (force simp: map_of_eq_None_iff)
  with direct invar_write [of b p d b'] show ?case by simp
qed

end

text \<open>
  C25. Reading through the cache is reading the file: in every state reached from an open file
  by cached reads, write-throughs, invalidations and direct writes of uncached pages,
  \<^verbatim>\<open>get_or_load\<close> of a data page gives exactly what \<^verbatim>\<open>read_page\<close> gives, errors included, and
  the cache never holds more pages than its capacity.
\<close>

theorem cache_transparent:
  assumes "cached_run (file_ops crc) b0 cap b c" and "file_inv b0" and "p \<noteq> 0"
  shows "fst (get_or_load p (file_read_page b) c) = file_read_page b p \<and> cached_page_count c \<le> cap"
  using filed.cached_run_invariant [OF assms(1,2)] get_or_load_coherent(1) [of "file_read_page b" c p] assms(3)
  by (simp add: file_ops_def cached_page_count_def cache_inv_def)

theorem cache_transparent_witness:
  "fst (get_or_load 1 (file_read_page fresh_backend)
     (snd (get_or_load 1 (read_page (file_ops (\<lambda>_. 0)) fresh_backend) (page_cache_new 2)))) =
   file_read_page fresh_backend 1 \<and>
   cached_page_count (snd (get_or_load 1 (read_page (file_ops (\<lambda>_. 0)) fresh_backend) (page_cache_new 2))) \<le> 2"
  by (rule cache_transparent [OF cached_run.load [OF cached_run.start] fresh_backend_synced(2)]) simp_all

text \<open>
  A page marked dirty that is evicted before \<^verbatim>\<open>flush\<close> is lost: with capacity 1, after
  \<^verbatim>\<open>put_dirty\<close> of pages 1 and 2, flushing writes page 2 only. The cache is safe only because
  its clients write every page to the backend before marking it.
\<close>

lemma evicted_dirty_page_not_flushed:
  "\<exists>b c. flush memory_ops [2] [] (put_dirty 2 (replicate PAGE_SIZE 8) (put_dirty 1 (replicate PAGE_SIZE 7) (page_cache_new 1))) =
     (Ok (), b, c) \<and> memory_read_page b 2 = Ok (replicate PAGE_SIZE 8) \<and> memory_read_page b 1 = Err (Internal 52)"
  by (simp add: put_dirty_def insert_entry_def page_cache_new_def memory_ops_def memory_write_page_def
    memory_read_page_def)

end
