(* ===== verification/BTree_Index.thy ===== *)
theory BTree_Index
  imports BTree_Pages Page_Cache
begin

text \<open>
  The B+tree of file format 6, \<^verbatim>\<open>src/storage/btree_v6.rs\<close>: bulk build, incremental rebuild over
  the old leaves, and range scans, over any backend and through the page cache. The state is
  the backend and the cache; \<^verbatim>\<open>postcard\<close> is a \<open>key_codec\<close>. The descents and the walk along the
  leaves have no bound in the code, so they are partial functions: \<open>None\<close> is not returning.
\<close>

type_synonym 'b io = "'b \<times> page_cache"

text \<open>Rust's \<^verbatim>\<open>?\<close> in a function that also changes the state.\<close>

definition and_io :: "'a result \<times> 's \<Rightarrow> ('a \<Rightarrow> 's \<Rightarrow> 'c result \<times> 's) \<Rightarrow> 'c result \<times> 's" where
  "and_io x f = (case x of (Inl e, s) \<Rightarrow> (Err e, s) | (Inr a, s) \<Rightarrow> f a s)"

lemma and_io_simps [simp]: "and_io (Inl e, s) f = (Err e, s)" "and_io (Inr a, s) f = f a s"
  by (simp_all add: and_io_def)

record 'k key_codec =
  enc_entry :: "'k \<times> fact_ref \<Rightarrow> bytes result"
  dec_entry :: "bytes \<Rightarrow> ('k \<times> fact_ref) result"
  enc_key :: "'k \<Rightarrow> bytes result"
  dec_key :: "bytes \<Rightarrow> 'k result"

definition load_page :: "'b backend_ops \<Rightarrow> u64 \<Rightarrow> 'b io \<Rightarrow> bytes result \<times> 'b io" where
  "load_page ops p = (\<lambda>(b, c). case get_or_load p (read_page ops b) c of (r, c') \<Rightarrow> (r, (b, c')))"

definition write_leaf_page :: "'b backend_ops \<Rightarrow> u64 \<Rightarrow> bytes list \<Rightarrow> u64 \<Rightarrow> 'b io \<Rightarrow> unit result \<times> 'b io" where
  "write_leaf_page ops p es next_leaf io = (case encode_leaf_page es next_leaf of
      Inl e \<Rightarrow> (Err e, io) | Inr page \<Rightarrow> write_through ops p page io)"

definition write_internal_page :: "'b backend_ops \<Rightarrow> u64 \<Rightarrow> u64 list \<Rightarrow> bytes list \<Rightarrow> 'b io \<Rightarrow> unit result \<times> 'b io" where
  "write_internal_page ops p child_ids seps io = (case encode_internal_page child_ids seps of
      Inl e \<Rightarrow> (Err e, io) | Inr page \<Rightarrow> write_through ops p page io)"

section \<open>Internal levels\<close>

text \<open>
  The children after the first that share a node: taken while the projected size stays under
  the fill threshold; the first separator is taken whatever its size.
\<close>

fun take_children :: "nat \<Rightarrow> nat \<Rightarrow> (u64 \<times> bytes) list \<Rightarrow> (u64 \<times> bytes) list \<times> (u64 \<times> bytes) list" where
  "take_children n sep_data_bytes [] = ([], [])"
| "take_children n sep_data_bytes ((p, sep) # xs) =
     (if PAGE_FILL_BYTES < INTERNAL_HEADER_SIZE + n * 8 + (n + 1) * SLOT_SIZE + sep_data_bytes + length sep \<and> n \<noteq> 0
      then ([], (p, sep) # xs)
      else case take_children (n + 1) (sep_data_bytes + length sep) xs of (t, r) \<Rightarrow> ((p, sep) # t, r))"

lemma take_children_append: "take_children n d xs = (t, r) \<Longrightarrow> xs = t @ r"
  by (induction n d xs arbitrary: t r rule: take_children.induct) (auto split: if_splits prod.splits)

function build_level :: "'b backend_ops \<Rightarrow> (u64 \<times> bytes) list \<Rightarrow> u64 \<Rightarrow> 'b io \<Rightarrow> ((u64 \<times> bytes) list \<times> u64) result \<times> 'b io" where
  "build_level ops [] next_page io = (Ok ([], next_page), io)"
| "build_level ops ((p, k) # xs) next_page io =
     (case take_children 0 0 xs of (t, r) \<Rightarrow>
        and_io (write_internal_page ops next_page (p # map fst t) (map snd t) io) (\<lambda>_ io.
        and_io (build_level ops r (next_page + 1) io) (\<lambda>(level, np) io.
          (Ok ((next_page, k) # level, np), io))))"
  by pat_completeness auto
termination
  by (relation "measure (\<lambda>(_, xs, _). length xs)") (auto dest!: take_children_append [OF sym])

lemma build_level_length:
  "build_level ops xs np io = (Ok (level, np'), io') \<Longrightarrow> length level \<le> (length xs + 1) div 2"
proof (induction ops xs np io arbitrary: level np' io' rule: build_level.induct)
  case (2 ops p k xs np io)
  obtain t r where tr: "take_children 0 0 xs = (t, r)" by (metis prod.exhaust)
  from "2.prems" obtain io1 level1 where w: "write_internal_page ops np (p # map fst t) (map snd t) io = (Ok (), io1)"
    and l: "build_level ops r (np + 1) io1 = (Ok (level1, np'), io')" "level = (np, k) # level1"
    by (auto simp: tr and_io_def split: prod.splits sum.splits)
  have ih: "length level1 \<le> (length r + 1) div 2" using "2.IH" [OF tr [symmetric] l(1)] .
  have split: "length xs = length t + length r" using take_children_append [OF tr] by simp
  have "xs = [] \<or> t \<noteq> []" using tr by (cases xs) (auto split: prod.splits)
  then have "length xs = 0 \<or> 1 \<le> length t" by (cases t) auto
  with ih split have "length level1 + 1 \<le> (length xs + 1 + 1) div 2" by presburger
  then show ?case using l(2) by simp
qed simp

function build_internal_levels :: "'b backend_ops \<Rightarrow> (u64 \<times> bytes) list \<Rightarrow> u64 \<Rightarrow> 'b io \<Rightarrow> (u64 \<times> u64) result \<times> 'b io" where
  "build_internal_levels ops level next_page io =
     (case level of
        [] \<Rightarrow> (Err (Internal 49), io)
      | [(p, _)] \<Rightarrow> (Ok (p, next_page), io)
      | _ \<Rightarrow> (case build_level ops level next_page io of
          (Inl e, io') \<Rightarrow> (Err e, io')
        | (Inr (level', next_page'), io') \<Rightarrow> build_internal_levels ops level' next_page' io'))"
  by pat_completeness auto
termination
  by (relation "measure (\<lambda>(_, xs, _). length xs)") (auto dest: build_level_length [OF sym])

declare build_internal_levels.simps [simp del]

section \<open>Bulk build\<close>

record leaf_build =
  leaf_infos :: "(u64 \<times> bytes) list"
  cur_entries :: "bytes list"
  cur_data_bytes :: nat
  cur_first_key :: "bytes option"
  build_next :: u64

definition flush_leaf :: "'b backend_ops \<Rightarrow> leaf_build \<Rightarrow> 'b io \<Rightarrow> leaf_build result \<times> 'b io" where
  "flush_leaf ops st io =
     and_io (write_leaf_page ops (build_next st) (cur_entries st) 0 io) (\<lambda>_ io.
       case cur_first_key st of
         None \<Rightarrow> (Err (Internal 49), io)
       | Some k \<Rightarrow> (Ok (st\<lparr>leaf_infos := leaf_infos st @ [(build_next st, k)], cur_entries := [],
           cur_data_bytes := 0, cur_first_key := None, build_next := build_next st + 1\<rparr>), io))"

definition add_entry :: "bytes \<times> bytes \<Rightarrow> leaf_build \<Rightarrow> leaf_build" where
  "add_entry = (\<lambda>(entry, key) st. st\<lparr>
     cur_first_key := (case cur_first_key st of None \<Rightarrow> Some key | Some k \<Rightarrow> Some k),
     cur_data_bytes := cur_data_bytes st + length entry, cur_entries := cur_entries st @ [entry]\<rparr>)"

fun leaf_loop :: "'b backend_ops \<Rightarrow> (bytes \<times> bytes) list \<Rightarrow> leaf_build \<Rightarrow> 'b io \<Rightarrow> leaf_build result \<times> 'b io" where
  "leaf_loop ops [] st io = (Ok st, io)"
| "leaf_loop ops (x # xs) st io =
     and_io (if cur_entries st \<noteq> [] \<and> leaf_overflows (length (cur_entries st)) (cur_data_bytes st) (length (fst x))
             then flush_leaf ops st io else (Ok st, io))
       (\<lambda>st io. leaf_loop ops xs (add_entry x st) io)"

fun link_leaves :: "'b backend_ops \<Rightarrow> (u64 \<times> bytes) list \<Rightarrow> 'b io \<Rightarrow> unit result \<times> 'b io" where
  "link_leaves ops ((p, _) # (q, k) # rest) io =
     and_io (load_page ops p io) (\<lambda>page io.
       if length page < 12 then (Err (Internal 49), io)
       else and_io (write_through ops p (overwrite page 4 (u64_to_le q)) io) (\<lambda>_ io.
         link_leaves ops ((q, k) # rest) io))"
| "link_leaves ops _ io = (Ok (), io)"

definition build_btree :: "'b backend_ops \<Rightarrow> (bytes \<times> bytes) list \<Rightarrow> u64 \<Rightarrow> 'b io \<Rightarrow> (u64 \<times> u64) result \<times> 'b io" where
  "build_btree ops sorted_entries start io =
     and_io (leaf_loop ops sorted_entries
         \<lparr>leaf_infos = [], cur_entries = [], cur_data_bytes = 0, cur_first_key = None, build_next = start\<rparr> io) (\<lambda>st io.
     if cur_entries st = [] \<and> leaf_infos st = [] then
       and_io (write_leaf_page ops (build_next st) [] 0 io) (\<lambda>_ io. (Ok (build_next st, build_next st + 1), io))
     else
       and_io (if cur_entries st \<noteq> [] then flush_leaf ops st io else (Ok st, io)) (\<lambda>st io.
       and_io (link_leaves ops (leaf_infos st) io) (\<lambda>_ io.
         build_internal_levels ops (leaf_infos st) (build_next st) io)))"

definition btree_entries :: "'k key_codec \<Rightarrow> ('k \<times> fact_ref) list \<Rightarrow> (bytes \<times> bytes) list result" where
  "btree_entries C = collect_map (\<lambda>x. and_then (enc_entry C x) (\<lambda>e. and_then (enc_key C (fst x)) (\<lambda>k. Ok (e, k))))"

section \<open>Scans\<close>

partial_function (option) find_leaf ::
    "(bytes \<Rightarrow> u64 option result) \<Rightarrow> 'b backend_ops \<Rightarrow> u64 \<Rightarrow> 'b io \<Rightarrow> (u64 result \<times> 'b io) option" where
  "find_leaf step ops p io = (case load_page ops p io of
      (Inl e, io') \<Rightarrow> Some (Err e, io')
    | (Inr page, io') \<Rightarrow> (case step page of
        Inl e \<Rightarrow> Some (Err e, io')
      | Inr None \<Rightarrow> Some (Ok p, io')
      | Inr (Some child) \<Rightarrow> find_leaf step ops child io'))"

definition find_leftmost_leaf :: "'b backend_ops \<Rightarrow> u64 \<Rightarrow> 'b io \<Rightarrow> (u64 result \<times> 'b io) option" where
  "find_leftmost_leaf = find_leaf leftmost_step"

definition find_leaf_for_key :: "'k::linorder key_codec \<Rightarrow> 'b backend_ops \<Rightarrow> 'k \<Rightarrow> u64 \<Rightarrow> 'b io \<Rightarrow> (u64 result \<times> 'b io) option" where
  "find_leaf_for_key C ops key = find_leaf (key_step (dec_key C) key) ops"

text \<open>The entry loop on one leaf, and whether it left the outer loop.\<close>

fun scan_leaf :: "'k::linorder \<Rightarrow> 'k option \<Rightarrow> ('k \<times> fact_ref) list \<Rightarrow> fact_ref list \<times> bool" where
  "scan_leaf start stop_key [] = ([], False)"
| "scan_leaf start stop_key ((k, r) # xs) =
     (if k < start then scan_leaf start stop_key xs
      else if (case stop_key of Some e \<Rightarrow> e \<le> k | None \<Rightarrow> False) then ([], True)
      else case scan_leaf start stop_key xs of (rs, stop) \<Rightarrow> (r # rs, stop))"

definition scan_page :: "'k::linorder key_codec \<Rightarrow> 'k \<Rightarrow> 'k option \<Rightarrow> bytes \<Rightarrow> (fact_ref list \<times> u64 option) result" where
  "scan_page C start stop_key page =
     and_then (ok_or (Internal 49) (elem_get page 0)) (\<lambda>t.
     if t \<noteq> PAGE_TYPE_LEAF then Err (Stg 13) else
     and_then (read_u64_at page 4) (\<lambda>next_leaf.
     and_then (read_leaf_entries (dec_entry C) page) (\<lambda>es.
     case scan_leaf start stop_key es of (rs, stop) \<Rightarrow>
       Ok (rs, if stop \<or> next_leaf = 0 then None else Some next_leaf))))"

partial_function (option) scan_leaves ::
    "'k::linorder key_codec \<Rightarrow> 'b backend_ops \<Rightarrow> 'k \<Rightarrow> 'k option \<Rightarrow> u64 \<Rightarrow> fact_ref list \<Rightarrow> 'b io \<Rightarrow> (fact_ref list result \<times> 'b io) option" where
  "scan_leaves C ops start stop_key p acc io = (case load_page ops p io of
      (Inl e, io') \<Rightarrow> Some (Err e, io')
    | (Inr page, io') \<Rightarrow> (case scan_page C start stop_key page of
        Inl e \<Rightarrow> Some (Err e, io')
      | Inr x \<Rightarrow> (case snd x of
          None \<Rightarrow> Some (Ok (acc @ fst x), io')
        | Some next_leaf \<Rightarrow> scan_leaves C ops start stop_key next_leaf (acc @ fst x) io')))"

definition range_scan :: "'k::linorder key_codec \<Rightarrow> 'b backend_ops \<Rightarrow> u64 \<Rightarrow> 'k \<Rightarrow> 'k option \<Rightarrow> 'b io \<Rightarrow> (fact_ref list result \<times> 'b io) option" where
  "range_scan C ops root start stop_key io =
     Option.bind (find_leaf_for_key C ops start root io) (\<lambda>(r, io'). case r of
       Inl e \<Rightarrow> Some (Err e, io') | Inr p \<Rightarrow> scan_leaves C ops start stop_key p [] io')"

section \<open>Incremental rebuild\<close>

text \<open>
  The walk over the old leaves. It is bounded by the number of pages of the file, so it ends
  even on a chain with a cycle.
\<close>

function collect_loop :: "'b backend_ops \<Rightarrow> nat \<Rightarrow> u64 \<Rightarrow> bytes list \<Rightarrow> 'b io \<Rightarrow> bytes list result \<times> 'b io" where
  "collect_loop ops max_leaves p leaves io = (case load_page ops p io of
      (Inl e, io') \<Rightarrow> (Err e, io')
    | (Inr page, io') \<Rightarrow>
        if elem_get page 0 \<noteq> Some PAGE_TYPE_LEAF then (Err (Internal 49), io')
        else if max_leaves \<le> length leaves then (Err (Internal 49), io')
        else case and_then (validate_leaf_slots page) (\<lambda>_. read_u64_at page 4) of
          Inl e \<Rightarrow> (Err e, io')
        | Inr next_leaf \<Rightarrow>
            if next_leaf = 0 then (Ok (leaves @ [page]), io')
            else collect_loop ops max_leaves next_leaf (leaves @ [page]) io')"
  by pat_completeness auto
termination by (relation "measure (\<lambda>(_, n, _, xs, _). n - length xs)") auto

declare collect_loop.simps [simp del]

definition collect_leaf_pages :: "'b backend_ops \<Rightarrow> u64 \<Rightarrow> 'b io \<Rightarrow> (bytes list result \<times> 'b io) option" where
  "collect_leaf_pages ops root io = (case backend_page_count ops (fst io) of
      Inl e \<Rightarrow> Some (Err e, io)
    | Inr max_leaves \<Rightarrow> Option.bind (find_leftmost_leaf ops root io) (\<lambda>(r, io'). case r of
        Inl e \<Rightarrow> Some (Err e, io')
      | Inr p \<Rightarrow> Some (collect_loop ops (unat max_leaves) p [] io')))"

text \<open>\<^verbatim>\<open>LeafEmitter\<close>: the last page is held back until the number of the next is known.\<close>

record leaf_emitter =
  em_next :: u64
  held :: "(u64 \<times> bytes) option"
  em_infos :: "(u64 \<times> bytes) list"

definition release_held :: "'b backend_ops \<Rightarrow> u64 \<Rightarrow> leaf_emitter \<Rightarrow> 'b io \<Rightarrow> leaf_emitter result \<times> 'b io" where
  "release_held ops next_leaf em io = (case held em of
      None \<Rightarrow> (Ok em, io)
    | Some (p, page) \<Rightarrow>
        if length page < 12 then (Err (Internal 49), io)
        else and_io (write_through ops p (overwrite page 4 (u64_to_le next_leaf)) io) (\<lambda>_ io. (Ok (em\<lparr>held := None\<rparr>), io)))"

definition em_push :: "'b backend_ops \<Rightarrow> bytes \<Rightarrow> bytes \<Rightarrow> leaf_emitter \<Rightarrow> 'b io \<Rightarrow> leaf_emitter result \<times> 'b io" where
  "em_push ops page first_key em io =
     (let p = em_next em in
      and_io (release_held ops p (em\<lparr>em_next := p + 1\<rparr>) io) (\<lambda>em io.
        (Ok (em\<lparr>held := Some (p, page), em_infos := em_infos em @ [(p, first_key)]\<rparr>), io)))"

definition em_finish :: "'b backend_ops \<Rightarrow> leaf_emitter \<Rightarrow> 'b io \<Rightarrow> ((u64 \<times> bytes) list \<times> u64) result \<times> 'b io" where
  "em_finish ops em io = and_io (release_held ops 0 em io) (\<lambda>em io. (Ok (em_infos em, em_next em), io))"

definition emit_page :: "'b backend_ops \<Rightarrow> bytes list \<Rightarrow> bytes \<Rightarrow> leaf_emitter \<Rightarrow> 'b io \<Rightarrow> leaf_emitter result \<times> 'b io" where
  "emit_page ops cur first_key em io = (case encode_leaf_page cur 0 of
      Inl e \<Rightarrow> (Err e, io) | Inr page \<Rightarrow> em_push ops page first_key em io)"

text \<open>The packing loop of \<^verbatim>\<open>emit_packed\<close>; \<open>first\<close> is \<^verbatim>\<open>cur_first\<close>.\<close>

fun emit_loop :: "'k key_codec \<Rightarrow> 'b backend_ops \<Rightarrow> nat \<Rightarrow> (bytes \<times> 'k) list \<Rightarrow> bytes list \<Rightarrow> nat \<Rightarrow> bytes option \<Rightarrow>
    leaf_emitter \<Rightarrow> 'b io \<Rightarrow> leaf_emitter result \<times> 'b io" where
  "emit_loop C ops target [] cur cur_size first em io = (case first of
      Some f \<Rightarrow> emit_page ops cur f em io | None \<Rightarrow> (Ok em, io))"
| "emit_loop C ops target ((entry, key) # xs) cur cur_size first em io =
     (let size = length entry + SLOT_SIZE in
      if cur \<noteq> [] \<and> target < cur_size + size then
        (case first of
           None \<Rightarrow> (Err (Internal 49), io)
         | Some f \<Rightarrow> and_io (emit_page ops cur f em io) (\<lambda>em io.
             case enc_key C key of
               Inl e \<Rightarrow> (Err e, io)
             | Inr kb \<Rightarrow> emit_loop C ops target xs [entry] size (Some kb) em io))
      else case (case first of Some f \<Rightarrow> Ok f | None \<Rightarrow> enc_key C key) of
          Inl e \<Rightarrow> (Err e, io)
        | Inr f \<Rightarrow> emit_loop C ops target xs (cur @ [entry]) (cur_size + size) (Some f) em io)"

definition div_ceil :: "nat \<Rightarrow> nat \<Rightarrow> nat" where
  "div_ceil a b = (a + b - 1) div b"

definition emit_packed :: "'k key_codec \<Rightarrow> 'b backend_ops \<Rightarrow> ('k \<times> fact_ref) list \<Rightarrow> leaf_emitter \<Rightarrow> 'b io \<Rightarrow> leaf_emitter result \<times> 'b io" where
  "emit_packed C ops es em io =
     (case collect_map (\<lambda>x. and_then (enc_entry C x) (\<lambda>b. Ok (b, fst x))) es of
        Inl e \<Rightarrow> (Err e, io)
      | Inr serialised \<Rightarrow>
          if serialised = [] then (Ok em, io)
          else let total = sum_list (map (\<lambda>(b, k). length b + SLOT_SIZE) serialised);
                   target = (if LEAF_HEADER_SIZE + total \<le> PAGE_SIZE then total
                     else let usable = PAGE_FILL_BYTES - LEAF_HEADER_SIZE in div_ceil total (div_ceil total usable))
               in emit_loop C ops target serialised [] 0 None em io)"

text \<open>The derived order of \<^verbatim>\<open>(K, FactRef)\<close> and the merge of two sorted vectors.\<close>

definition entry_le :: "'k::linorder \<times> fact_ref \<Rightarrow> 'k \<times> fact_ref \<Rightarrow> bool" where
  "entry_le x y \<longleftrightarrow> fst x < fst y \<or> fst x = fst y \<and>
     (page_id (snd x) < page_id (snd y) \<or> page_id (snd x) = page_id (snd y) \<and> slot_index (snd x) \<le> slot_index (snd y))"

fun merge_sorted_vecs :: "('k::linorder \<times> fact_ref) list \<Rightarrow> ('k \<times> fact_ref) list \<Rightarrow> ('k \<times> fact_ref) list" where
  "merge_sorted_vecs (a # as) (b # bs) =
     (if entry_le a b then a # merge_sorted_vecs as (b # bs) else b # merge_sorted_vecs (a # as) bs)"
| "merge_sorted_vecs as [] = as"
| "merge_sorted_vecs [] bs = bs"

fun rebuild_loop :: "'k::linorder key_codec \<Rightarrow> 'b backend_ops \<Rightarrow> (bytes \<times> 'k) list \<Rightarrow> ('k \<times> fact_ref) list \<Rightarrow> leaf_emitter \<Rightarrow> 'b io \<Rightarrow>
    leaf_emitter result \<times> 'b io" where
  "rebuild_loop C ops [] pending em io = (Ok em, io)"
| "rebuild_loop C ops ((page, first_key) # leaves) pending em io =
     (let below = (\<lambda>x. case leaves of [] \<Rightarrow> True | (_, u) # _ \<Rightarrow> fst x < u);
          batch = takeWhile below pending;
          rest = dropWhile below pending
      in and_io
        (if batch = [] then
           (case enc_key C first_key of Inl e \<Rightarrow> (Err e, io) | Inr kb \<Rightarrow> em_push ops page kb em io)
         else
           (case read_leaf_entries (dec_entry C) page of
              Inl e \<Rightarrow> (Err e, io) | Inr old \<Rightarrow> emit_packed C ops (merge_sorted_vecs old batch) em io))
        (\<lambda>em io. rebuild_loop C ops leaves rest em io))"

definition rebuild_btree_incremental :: "'k::linorder key_codec \<Rightarrow> 'b backend_ops \<Rightarrow> bytes list \<Rightarrow> ('k \<times> fact_ref) list \<Rightarrow> u64 \<Rightarrow> 'b io \<Rightarrow>
    (u64 \<times> u64) result \<times> 'b io" where
  "rebuild_btree_incremental C ops old_leaves pending start io =
     (case collect_map (\<lambda>page. and_then (leaf_first_key (dec_entry C) page) (\<lambda>k. Ok (map_option (Pair page) k))) old_leaves of
        Inl e \<Rightarrow> (Err e, io)
      | Inr found \<Rightarrow>
          let leaves = List.map_filter id found in
          if leaves = [] then
            (case btree_entries C pending of Inl e \<Rightarrow> (Err e, io) | Inr bks \<Rightarrow> build_btree ops bks start io)
          else
            and_io (rebuild_loop C ops leaves pending \<lparr>em_next = start, held = None, em_infos = []\<rparr> io) (\<lambda>em io.
            and_io (em_finish ops em io) (\<lambda>(leaf_infos, next_page) io.
              build_internal_levels ops leaf_infos next_page io)))"

end
