(* ===== verification/BTree_Scan.thy ===== *)
theory BTree_Scan
  imports BTree_Index
begin

text \<open>
  What a B+tree on disk is, and that a range scan over it returns exactly the references whose
  keys lie in the range, in key order. The statements hold over any backend that keeps the
  contract of the locale \<open>backend\<close>, through a coherent page cache.
\<close>

section \<open>Trees on disk\<close>

definition sound_io :: "'b backend_ops \<Rightarrow> ('b \<Rightarrow> bool) \<Rightarrow> 'b io \<Rightarrow> bool" where
  "sound_io ops invar io \<longleftrightarrow> invar (fst io) \<and> cache_inv (snd io) \<and> coherent (read_page ops (fst io)) (snd io)"

text \<open>
  \<open>subtree dec rd n p ls\<close>: the node \<open>p\<close> and all below it are pages under \<open>n\<close>; \<open>ls\<close> are its
  leaves from left to right, each with the first key of its part of the tree.
\<close>

inductive subtree ::
    "(bytes \<Rightarrow> 'k result) \<Rightarrow> (u64 \<Rightarrow> bytes result) \<Rightarrow> nat \<Rightarrow> u64 \<Rightarrow> (u64 \<times> 'k) list \<Rightarrow> bool" for dec rd n where
  leaf: "p \<noteq> 0 \<Longrightarrow> unat p < n \<Longrightarrow> rd p = Ok page \<Longrightarrow> leaf_at page es link \<Longrightarrow> subtree dec rd n p [(p, k)]"
| node: "p \<noteq> 0 \<Longrightarrow> unat p < n \<Longrightarrow> rd p = Ok page \<Longrightarrow> internal_at page cs seps \<Longrightarrow> collect_map dec seps = Ok ks \<Longrightarrow>
    length Ls = length cs \<Longrightarrow> (\<forall>i < length cs. subtree dec rd n (cs ! i) (Ls ! i)) \<Longrightarrow>
    (\<forall>i < length ks. ks ! i = snd (hd (Ls ! Suc i))) \<Longrightarrow> subtree dec rd n p (concat Ls)"

fun leaf_chain :: "(u64 \<Rightarrow> bytes result) \<Rightarrow> nat \<Rightarrow> (u64 \<times> bytes list) list \<Rightarrow> bool" where
  "leaf_chain rd n [] \<longleftrightarrow> True"
| "leaf_chain rd n ((p, es) # rest) \<longleftrightarrow> p \<noteq> 0 \<and> unat p < n \<and>
     (\<exists>page. rd p = Ok page \<and> leaf_at page es (case rest of [] \<Rightarrow> 0 | (q, _) # _ \<Rightarrow> q)) \<and> leaf_chain rd n rest"

text \<open>A leaf of the tree: its page, the entries as bytes and the entries.\<close>

type_synonym 'k tree_leaf = "u64 \<times> bytes list \<times> ('k \<times> fact_ref) list"

definition tree_at :: "'k key_codec \<Rightarrow> (u64 \<Rightarrow> bytes result) \<Rightarrow> nat \<Rightarrow> u64 \<Rightarrow> 'k tree_leaf list \<Rightarrow> bool" where
  "tree_at C rd n root ls \<longleftrightarrow> ls \<noteq> [] \<and> leaf_chain rd n (map (\<lambda>(p, es, ys). (p, es)) ls) \<and>
     subtree (dec_key C) rd n root (map (\<lambda>(p, es, ys). (p, fst (hd ys))) ls) \<and>
     (\<forall>(p, es, ys) \<in> set ls. collect_map (dec_entry C) es = Ok ys \<and> (ys \<noteq> [] \<or> length ls = 1))"

definition tree_entries :: "'k tree_leaf list \<Rightarrow> ('k \<times> fact_ref) list" where
  "tree_entries ls = concat (map (\<lambda>(p, es, ys). ys) ls)"

definition in_range :: "'k::linorder \<Rightarrow> 'k option \<Rightarrow> 'k \<Rightarrow> bool" where
  "in_range a b k \<longleftrightarrow> a \<le> k \<and> (case b of None \<Rightarrow> True | Some e \<Rightarrow> k < e)"

section \<open>Finding a leaf\<close>

definition covers :: "'k::linorder \<Rightarrow> (u64 \<times> 'k) list \<Rightarrow> u64 \<Rightarrow> bool" where
  "covers key ls p \<longleftrightarrow> (\<exists>a k b. ls = a @ (p, k) # b \<and> (a \<noteq> [] \<longrightarrow> k \<le> key) \<and> (\<forall>x \<in> set b. key < snd x))"

lemma subtree_nonempty: "subtree dec rd n p ls \<Longrightarrow> ls \<noteq> []"
proof (induction rule: subtree.induct)
  case (node p page cs seps ks Ls)
  then have "0 < length cs" by (simp add: internal_at_def)
  with node have "Ls ! 0 \<noteq> []" "Ls ! 0 \<in> set Ls" by auto
  then show ?case by auto
qed simp

lemma covers_concat:
  assumes i: "i < length Ls" and c: "covers key (Ls ! i) q" and ne: "\<forall>L \<in> set Ls. L \<noteq> []"
    and sorted: "sorted (map snd (concat Ls))"
    and low: "0 < i \<longrightarrow> snd (hd (Ls ! i)) \<le> key" and high: "Suc i < length Ls \<longrightarrow> key < snd (hd (Ls ! Suc i))"
  shows "covers key (concat Ls) q"
proof -
  from c obtain a k b where L: "Ls ! i = a @ (q, k) # b" "a \<noteq> [] \<longrightarrow> k \<le> key" "\<forall>x \<in> set b. key < snd x"
    by (auto simp: covers_def)
  let ?r = "concat (drop (Suc i) Ls)"
  have split: "concat Ls = concat (take i Ls) @ (a @ (q, k) # b) @ ?r"
    using i L(1) by (metis append_take_drop_id concat.simps(2) concat_append Cons_nth_drop_Suc)
  have "key < snd x" if x: "x \<in> set ?r" for x
  proof (cases "Suc i < length Ls")
    case True
    have r: "?r = (Ls ! Suc i) @ concat (drop (Suc (Suc i)) Ls)"
      using True by (metis Cons_nth_drop_Suc concat.simps(2))
    have "Ls ! Suc i \<noteq> []" using True ne by simp
    then obtain y ys where y: "Ls ! Suc i = y # ys" by (cases "Ls ! Suc i") auto
    have "sorted (map snd ?r)" using sorted by (simp add: split sorted_append)
    then have "\<forall>z \<in> set ?r. snd y \<le> snd z" unfolding r y by auto
    with x high True y show ?thesis by (fastforce dest: order_less_le_trans)
  next
    case False
    with x show ?thesis by simp
  qed
  moreover have "k \<le> key" if "concat (take i Ls) @ a \<noteq> []"
  proof (cases "a = []")
    case True
    with that have "0 < i" by (cases i) auto
    with True L(1) low show ?thesis by simp
  next
    case False
    with L(2) show ?thesis by blast
  qed
  ultimately show ?thesis
    unfolding covers_def split using L(3)
    by (intro exI [of _ "concat (take i Ls) @ a"] exI [of _ k] exI [of _ "b @ ?r"]) auto
qed

context backend
begin

lemma load_page_sound:
  assumes "sound_io ops invar io" "p \<noteq> 0"
  obtains c where "load_page ops p io = (read_page ops (fst io) p, (fst io, c))" "sound_io ops invar (fst io, c)"
proof -
  obtain b c where io: "io = (b, c)" by force
  have "fst (get_or_load p (read_page ops b) c) = read_page ops b p"
    "coherent (read_page ops b) (snd (get_or_load p (read_page ops b) c))"
    using assms io by (auto intro!: get_or_load_coherent simp: sound_io_def)
  moreover have "cache_inv (snd (get_or_load p (read_page ops b) c))"
    using assms io by (simp add: sound_io_def get_or_load_inv)
  ultimately show thesis
    using that [of "snd (get_or_load p (read_page ops b) c)"] assms io
    by (simp add: load_page_def sound_io_def split_beta)
qed

lemma find_leaf_covers:
  assumes "subtree dec rd n p ls" "sorted (map snd ls)" "sound_io ops invar io" "rd = read_page ops (fst io)"
  shows "\<exists>q c. find_leaf (key_step dec key) ops p io = Some (Ok q, (fst io, c)) \<and> sound_io ops invar (fst io, c) \<and> covers key ls q"
  using assms
proof (induction arbitrary: io rule: subtree.induct)
  case (leaf p page es link k)
  from load_page_sound [OF leaf.prems(2) leaf.hyps(1)] obtain c where
    c: "load_page ops p io = (read_page ops (fst io) p, (fst io, c))" "sound_io ops invar (fst io, c)" .
  have "find_leaf (key_step dec key) ops p io = Some (Ok p, (fst io, c))"
    using c(1) leaf by (simp add: find_leaf.simps [of _ _ p] key_step_leaf)
  moreover have "covers key [(p, k)] p" unfolding covers_def by (intro exI [of _ "[]"] exI [of _ k]) simp
  ultimately show ?case using c(2) by blast
next
  case (node p page cs seps ks Ls)
  from load_page_sound [OF node.prems(2) node.hyps(1)] obtain c where
    c: "load_page ops p io = (read_page ops (fst io) p, (fst io, c))" "sound_io ops invar (fst io, c)" .
  define i where "i = length (takeWhile (\<lambda>s. s \<le> key) ks)"
  have len: "length ks = length seps" "length cs = length seps + 1"
    using collect_map_eq_InrD [OF node.hyps(5)] node.hyps(4) by (auto simp: internal_at_def)
  have i: "i < length cs" unfolding i_def using length_takeWhile_le [of _ ks] len by (metis Suc_eq_plus1 le_imp_less_Suc)
  have step: "find_leaf (key_step dec key) ops p io = find_leaf (key_step dec key) ops (cs ! i) (fst io, c)"
    unfolding i_def by (subst find_leaf.simps)
      (use c(1) node.hyps(3) node.prems(3) key_step_internal [OF node.hyps(4,5), of key] in simp)
  have "sorted (map snd (Ls ! i))"
  proof -
    have "concat Ls = concat (take i Ls) @ Ls ! i @ concat (drop (Suc i) Ls)"
      using i node.hyps(6) by (metis append_take_drop_id concat.simps(2) concat_append Cons_nth_drop_Suc)
    with node.prems(1) show ?thesis by (simp add: sorted_append)
  qed
  with node.IH i c(2) node.prems(3) obtain q c' where
    q: "find_leaf (key_step dec key) ops (cs ! i) (fst io, c) = Some (Ok q, (fst io, c'))" "sound_io ops invar (fst io, c')"
      "covers key (Ls ! i) q" by fastforce
  have ne: "\<forall>L \<in> set Ls. L \<noteq> []" using node.IH node.hyps(6) subtree_nonempty by (metis in_set_conv_nth)
  have "0 < i \<longrightarrow> snd (hd (Ls ! i)) \<le> key"
  proof
    assume "0 < i"
    then obtain j where j: "i = Suc j" by (cases i) auto
    then have "ks ! j \<in> set (takeWhile (\<lambda>s. s \<le> key) ks)" unfolding i_def by (metis lessI nth_mem takeWhile_nth)
    then have "ks ! j \<le> key" by (auto dest: set_takeWhileD)
    with node.hyps(7) j i len show "snd (hd (Ls ! i)) \<le> key" by simp
  qed
  moreover have "Suc i < length Ls \<longrightarrow> key < snd (hd (Ls ! Suc i))"
  proof
    assume "Suc i < length Ls"
    then have "i < length ks" using len node.hyps(6) by simp
    then have "\<not> ks ! i \<le> key" unfolding i_def by (rule nth_length_takeWhile)
    with node.hyps(7) \<open>i < length ks\<close> show "key < snd (hd (Ls ! Suc i))" by (simp add: not_le)
  qed
  ultimately have "covers key (concat Ls) q"
    using i node.hyps(6) q(3) ne node.prems(1) by (intro covers_concat) simp_all
  with step q show ?case by auto
qed

end

section \<open>Scanning\<close>

lemma scan_leaf_sorted:
  assumes "sorted (map fst xs)"
  shows "scan_leaf a b xs = (map snd (filter (\<lambda>x. in_range a b (fst x)) xs),
    \<exists>x \<in> set xs. a \<le> fst x \<and> (case b of None \<Rightarrow> False | Some e \<Rightarrow> e \<le> fst x))"
  using assms
proof (induction a b xs rule: scan_leaf.induct)
  case (2 a b k r xs)
  show ?case
  proof (cases "a \<le> k \<and> (case b of None \<Rightarrow> False | Some e \<Rightarrow> e \<le> k)")
    case True
    then obtain e where e: "b = Some e" "e \<le> k" by (auto split: option.splits)
    with "2.prems" have "filter (\<lambda>x. in_range a b (fst x)) ((k, r) # xs) = []"
      by (auto simp: in_range_def filter_empty_conv)
    with True show ?thesis by (auto simp: e)
  next
    case False
    then show ?thesis
      using 2 by (cases b) (auto simp: in_range_def not_le)
  qed
qed simp

definition chain_of :: "'k tree_leaf list \<Rightarrow> (u64 \<times> bytes list) list" where
  "chain_of ls = map (\<lambda>(p, es, ys). (p, es)) ls"

lemma chain_link: "(case chain_of ls of [] \<Rightarrow> 0 | (q, _) # _ \<Rightarrow> q) = (case ls of [] \<Rightarrow> 0 | (q, _) # _ \<Rightarrow> q)"
  by (auto simp: chain_of_def split: list.splits)

lemma leaf_chain_suffix: "leaf_chain rd n (xs @ ys) \<Longrightarrow> leaf_chain rd n ys"
  by (induction xs) auto

lemma tree_entries_append: "tree_entries (xs @ ys) = tree_entries xs @ tree_entries ys"
  by (simp add: tree_entries_def)

lemma sorted_firsts:
  assumes "sorted_wrt (<) (map fst (tree_entries ls))" "\<forall>(p, es, ys) \<in> set ls. ys \<noteq> [] \<or> length ls = 1"
  shows "sorted (map snd (map (\<lambda>(p :: u64, es :: bytes list, ys). (p, fst (hd ys))) ls))"
proof (cases "length ls = 1")
  case True
  then show ?thesis by (cases ls) auto
next
  case False
  with assms(2) have "\<forall>(p, es, ys) \<in> set ls. ys \<noteq> []" by auto
  with assms(1) show ?thesis
  proof (induction ls)
    case (Cons l ls)
    obtain p es ys where l: "l = (p, es, ys)" by (cases l) auto
    have split: "tree_entries (l # ls) = ys @ tree_entries ls" by (simp add: tree_entries_def l)
    have ys: "hd ys \<in> set ys" using Cons.prems(2) l by auto
    have "fst (hd ys) \<le> fst (hd zs)" if "(q, fs, zs) \<in> set ls" for q fs zs
    proof -
      have "zs \<noteq> []" using that Cons.prems(2) by auto
      then have "hd zs \<in> set (tree_entries ls)" using that by (force simp: tree_entries_def)
      with ys Cons.prems(1) show ?thesis unfolding split by (auto simp: sorted_wrt_append intro: less_imp_le)
    qed
    moreover have "sorted_wrt (<) (map fst (tree_entries ls))" using Cons.prems(1) unfolding split by (simp add: sorted_wrt_append)
    ultimately show ?case using Cons by (auto simp: l)
  qed simp
qed

context backend
begin

lemma scan_leaves_exact:
  assumes "leaf_chain (read_page ops (fst io)) n (chain_of ((p, es, ys) # ls))"
    and "\<forall>(p, es, ys) \<in> set ((p, es, ys) # ls). collect_map (dec_entry C) es = Ok ys"
    and "sorted (map fst (tree_entries ((p, es, ys) # ls)))" and "sound_io ops invar io"
  shows "\<exists>c. scan_leaves C ops a b p acc io =
      Some (Ok (acc @ map snd (filter (\<lambda>x. in_range a b (fst x)) (tree_entries ((p, es, ys) # ls)))), (fst io, c)) \<and>
    sound_io ops invar (fst io, c)"
  using assms
proof (induction ls arbitrary: p es ys acc io)
  case Nil
  then obtain page where page: "p \<noteq> 0" "read_page ops (fst io) p = Ok page" "leaf_at page es 0"
    and dec: "collect_map (dec_entry C) es = Ok ys" and sorted: "sorted (map fst ys)"
    by (auto simp: chain_of_def tree_entries_def)
  from load_page_sound [OF Nil.prems(4) page(1)] obtain c where
    c: "load_page ops p io = (read_page ops (fst io) p, (fst io, c))" "sound_io ops invar (fst io, c)" .
  show ?case
    using c page(2) by (subst scan_leaves.simps)
      (simp add: scan_page_def leaf_type [OF page(3)] leaf_link [OF page(3)] read_leaf [OF page(3)] dec
        scan_leaf_sorted [OF sorted] tree_entries_def)
next
  case (Cons l ls)
  obtain q es' ys' where l: "l = (q, es', ys')" by (cases l) auto
  from Cons.prems(1) obtain page where page: "p \<noteq> 0" "read_page ops (fst io) p = Ok page" "leaf_at page es q"
    and chain: "leaf_chain (read_page ops (fst io)) n (chain_of ((q, es', ys') # ls))" and q: "q \<noteq> 0"
    by (auto simp: chain_of_def l)
  have dec: "collect_map (dec_entry C) es = Ok ys" using Cons.prems(2) by auto
  have split: "tree_entries ((p, es, ys) # l # ls) = ys @ tree_entries (l # ls)" by (simp add: tree_entries_def)
  have sorted: "sorted (map fst ys)" "sorted (map fst (tree_entries (l # ls)))"
    and above: "\<forall>x \<in> set ys. \<forall>y \<in> set (tree_entries (l # ls)). fst x \<le> fst y"
    using Cons.prems(3) by (auto simp: split sorted_append)
  from load_page_sound [OF Cons.prems(4) page(1)] obtain c where
    c: "load_page ops p io = (read_page ops (fst io) p, (fst io, c))" "sound_io ops invar (fst io, c)" .
  let ?stop = "\<exists>x \<in> set ys. a \<le> fst x \<and> (case b of None \<Rightarrow> False | Some e \<Rightarrow> e \<le> fst x)"
  let ?here = "map snd (filter (\<lambda>x. in_range a b (fst x)) ys)"
  have page_scan: "scan_page C a b page = Ok (?here, if ?stop then None else Some q)"
    using q by (simp add: scan_page_def leaf_type [OF page(3)] leaf_link [OF page(3)] read_leaf [OF page(3)] dec
        scan_leaf_sorted [OF sorted(1)])
  show ?case
  proof (cases ?stop)
    case True
    then have "filter (\<lambda>x. in_range a b (fst x)) (tree_entries (l # ls)) = []"
      using above by (fastforce simp: filter_empty_conv in_range_def split: option.splits)
    moreover have "scan_page C a b page = Ok (?here, None)" using page_scan by (simp only: if_P [OF True])
    ultimately show ?thesis using c page(2) unfolding split by (subst scan_leaves.simps) simp
  next
    case False
    have "\<exists>c'. scan_leaves C ops a b q (acc @ ?here) (fst io, c) =
        Some (Ok ((acc @ ?here) @ map snd (filter (\<lambda>x. in_range a b (fst x)) (tree_entries ((q, es', ys') # ls)))), (fst (fst io, c), c')) \<and>
      sound_io ops invar (fst (fst io, c), c')"
      using Cons.prems(2) chain sorted(2) c(2) by (intro Cons.IH) (auto simp: l)
    moreover have "scan_page C a b page = Ok (?here, Some q)" using page_scan by (simp only: if_not_P [OF False])
    ultimately show ?thesis using c page(2) unfolding split by (subst scan_leaves.simps) (simp add: l)
  qed
qed

lemma range_scan_tree:
  assumes tree: "tree_at C (read_page ops (fst io)) n root ls" and io: "sound_io ops invar io"
    and keys: "sorted_wrt (<) (map fst (tree_entries ls))"
  shows "\<exists>c. range_scan C ops root a b io =
      Some (Ok (map snd (filter (\<lambda>x. in_range a b (fst x)) (tree_entries ls))), (fst io, c)) \<and> sound_io ops invar (fst io, c)"
proof -
  let ?first = "\<lambda>(p :: u64, es :: bytes list, ys). (p, fst (hd ys))"
  have chain: "leaf_chain (read_page ops (fst io)) n (chain_of ls)" and sub: "subtree (dec_key C) (read_page ops (fst io)) n root (map ?first ls)"
    and dec: "\<forall>(p, es, ys) \<in> set ls. collect_map (dec_entry C) es = Ok ys"
    and ne: "\<forall>(p, es, ys) \<in> set ls. ys \<noteq> [] \<or> length ls = 1"
    using tree by (auto simp: tree_at_def chain_of_def)
  have "sorted (map snd (map ?first ls))" using sorted_firsts [OF keys] ne by blast
  from find_leaf_covers [OF sub this io, of a] obtain q c where
    q: "find_leaf (key_step (dec_key C) a) ops root io = Some (Ok q, (fst io, c))" "sound_io ops invar (fst io, c)" "covers a (map ?first ls) q"
    by auto
  from q(3) obtain la es ys lb where ls: "ls = la @ (q, es, ys) # lb" and low: "la \<noteq> [] \<longrightarrow> fst (hd ys) \<le> a"
    unfolding covers_def map_eq_append_conv map_eq_Cons_conv by (force simp: split_beta)
  have before: "filter (\<lambda>x. in_range a b (fst x)) (tree_entries la) = []"
  proof (cases "la = []")
    case False
    with ls ne have "ys \<noteq> []" by auto
    then have "hd ys \<in> set (tree_entries ((q, es, ys) # lb))" by (simp add: tree_entries_def)
    then have "\<forall>x \<in> set (tree_entries la). fst x < fst (hd ys)"
      using keys unfolding ls tree_entries_append by (auto simp: sorted_wrt_append)
    with low False show ?thesis by (fastforce simp: filter_empty_conv in_range_def)
  qed (simp add: tree_entries_def)
  have "leaf_chain (read_page ops (fst (fst io, c))) n (chain_of ((q, es, ys) # lb))"
    using chain leaf_chain_suffix [of _ _ "chain_of la" "chain_of ((q, es, ys) # lb)"] by (simp add: ls chain_of_def)
  moreover have "sorted (map fst (tree_entries ((q, es, ys) # lb)))"
    using keys strict_sorted_imp_sorted unfolding ls tree_entries_append by (auto simp: sorted_wrt_append)
  ultimately obtain c' where "scan_leaves C ops a b q [] (fst io, c) =
      Some (Ok ([] @ map snd (filter (\<lambda>x. in_range a b (fst x)) (tree_entries ((q, es, ys) # lb)))), (fst (fst io, c), c'))"
    "sound_io ops invar (fst (fst io, c), c')"
    using scan_leaves_exact [of "(fst io, c)" n q es ys lb C a b "[]"] dec q(2) ls by auto
  then show ?thesis
    using q(1) before by (simp add: range_scan_def find_leaf_for_key_def ls tree_entries_append)
qed

end

end
