(* ===== verification/BTree_Build.thy ===== *)
theory BTree_Build
  imports BTree_Scan
begin

text \<open>
  Building the B+tree of format 6: the internal levels, the bulk build and the incremental
  rebuild return, whenever the backend takes their writes, a tree that holds exactly the
  entries they were given, in order.
\<close>

section \<open>Writing pages\<close>

definition writable :: "'b backend_ops \<Rightarrow> ('b \<Rightarrow> bool) \<Rightarrow> nat \<Rightarrow> bool" where
  "writable ops invar n \<longleftrightarrow> (\<forall>b p d. invar b \<longrightarrow> p \<noteq> 0 \<longrightarrow> unat p < n \<longrightarrow> length d = PAGE_SIZE \<longrightarrow>
     fst (write_page ops p d b) = Ok ())"

definition keeps :: "(u64 \<Rightarrow> bool) \<Rightarrow> (u64 \<Rightarrow> bytes result) \<Rightarrow> (u64 \<Rightarrow> bytes result) \<Rightarrow> bool" where
  "keeps P rd rd' \<longleftrightarrow> (\<forall>q x. q \<noteq> 0 \<longrightarrow> P q \<longrightarrow> rd q = Ok x \<longrightarrow> rd' q = Ok x)"

lemma keeps_refl [simp]: "keeps P rd rd" by (simp add: keeps_def)

lemma keeps_trans: "keeps P a b \<Longrightarrow> keeps Q b c \<Longrightarrow> (\<And>q. R q \<Longrightarrow> P q \<and> Q q) \<Longrightarrow> keeps R a c"
  by (simp add: keeps_def)

lemma keeps_weaken: "keeps P a b \<Longrightarrow> (\<And>q. R q \<Longrightarrow> P q) \<Longrightarrow> keeps R a b"
  by (simp add: keeps_def)

lemma subtree_keeps:
  "subtree dec rd n p ls \<Longrightarrow> keeps (\<lambda>q. unat q < n) rd rd' \<Longrightarrow> n \<le> n' \<Longrightarrow> subtree dec rd' n' p ls"
proof (induction rule: subtree.induct)
  case (leaf p page es link k)
  then show ?case by (intro subtree.leaf [of p n' rd' page es link]) (auto simp: keeps_def)
next
  case (node p page cs seps ks Ls)
  then show ?case by (intro subtree.node [of p n' rd' page cs seps dec ks Ls]) (auto simp: keeps_def)
qed

lemma leaf_chain_keeps:
  "leaf_chain rd n bs \<Longrightarrow> keeps (\<lambda>q. unat q < n) rd rd' \<Longrightarrow> n \<le> n' \<Longrightarrow> leaf_chain rd' n' bs"
proof (induction bs)
  case (Cons b bs)
  obtain p es where b: "b = (p, es)" by force
  with Cons.prems obtain page where "rd p = Ok page" "leaf_at page es (case bs of [] \<Rightarrow> 0 | (q, _) # _ \<Rightarrow> q)"
    "p \<noteq> 0" "unat p < n" "leaf_chain rd n bs" by auto
  moreover from this Cons.prems(2) have "rd' p = Ok page" by (simp add: keeps_def)
  ultimately show ?case using Cons by (auto simp: b)
qed simp

context backend
begin

lemma write_through_sound:
  assumes "sound_io ops invar io" "p \<noteq> 0" "length d = PAGE_SIZE" "writable ops invar n" "unat p < n"
  obtains io' where "write_through ops p d io = (Ok (), io')" "sound_io ops invar io'"
    "read_page ops (fst io') p = Ok d" "keeps (\<lambda>q. q \<noteq> p) (read_page ops (fst io)) (read_page ops (fst io'))"
proof -
  obtain b c where io: "io = (b, c)" by force
  have b: "invar b" "cache_inv c" "coherent (read_page ops b) c" using assms(1) io by (simp_all add: sound_io_def)
  have "fst (write_page ops p d b) = Ok ()" using assms b by (simp add: writable_def)
  then obtain b' where w: "write_page ops p d b = (Ok (), b')" by (cases "write_page ops p d b") auto
  then have t: "write_through ops p d (b, c) = (Ok (), b', put_dirty p d c)" by (simp add: write_through_def)
  show thesis
  proof (rule that [of "(b', put_dirty p d c)"])
    show "write_through ops p d io = (Ok (), (b', put_dirty p d c))" using t io by simp
    show "sound_io ops invar (b', put_dirty p d c)"
      using write_through_coherent [OF b assms(2) t] by (simp add: sound_io_def)
    show "read_page ops (fst (b', put_dirty p d c)) p = Ok d" using read_same [OF b(1) assms(2) w] by simp
    show "keeps (\<lambda>q. q \<noteq> p) (read_page ops (fst io)) (read_page ops (fst (b', put_dirty p d c)))"
      using read_other [OF b(1) assms(2) _ _ w] io by (auto simp: keeps_def)
  qed
qed

end

section \<open>Internal levels\<close>

definition MAX_KEY_BYTES :: nat where "MAX_KEY_BYTES = PAGE_SIZE - 24"
definition MAX_ENTRY_BYTES :: nat where "MAX_ENTRY_BYTES = PAGE_SIZE - 16"

lemma take_children_fits:
  assumes "take_children n d xs = (t, r)" "\<forall>(p, sep) \<in> set xs. length sep \<le> MAX_KEY_BYTES"
    "12 + 12 * n + d \<le> PAGE_SIZE" "n = 0 \<longrightarrow> d = 0"
  shows "12 + 12 * (n + length t) + d + sum_list (map length (map snd t)) \<le> PAGE_SIZE"
  using assms
proof (induction n d xs arbitrary: t r rule: take_children.induct)
  case (2 n d p sep xs)
  show ?case
  proof (cases "PAGE_FILL_BYTES < INTERNAL_HEADER_SIZE + n * 8 + (n + 1) * SLOT_SIZE + d + length sep \<and> n \<noteq> 0")
    case True
    with 2 show ?thesis by auto
  next
    case False
    obtain t' where t: "take_children (n + 1) (d + length sep) xs = (t', r)" "t = (p, sep) # t'"
      using "2.prems"(1) by (simp only: take_children.simps if_not_P [OF False] split: prod.splits) auto
    have "12 + 12 * (n + 1) + (d + length sep) \<le> PAGE_SIZE"
    proof (cases "n = 0")
      case True
      with "2.prems" show ?thesis by (auto simp: MAX_KEY_BYTES_def PAGE_SIZE_def)
    next
      case n: False
      with False show ?thesis by (auto simp: PAGE_FILL_BYTES_def INTERNAL_HEADER_SIZE_def SLOT_SIZE_def PAGE_SIZE_def)
    qed
    with "2.IH" [OF False t(1)] "2.prems"(2) show ?thesis by (simp add: t(2) algebra_simps)
  qed
qed simp

definition level_ok :: "(bytes \<Rightarrow> 'k result) \<Rightarrow> (u64 \<Rightarrow> bytes result) \<Rightarrow> nat \<Rightarrow> (u64 \<times> bytes) list \<Rightarrow> (u64 \<times> 'k) list list \<Rightarrow> bool" where
  "level_ok dec rd n lev Ls \<longleftrightarrow>
     list_all2 (\<lambda>(p, kb) L. subtree dec rd n p L \<and> dec kb = Ok (snd (hd L)) \<and> length kb \<le> MAX_KEY_BYTES) lev Ls"

lemma level_ok_keeps:
  "level_ok dec rd n lev Ls \<Longrightarrow> keeps (\<lambda>q. unat q < n) rd rd' \<Longrightarrow> n \<le> n' \<Longrightarrow> level_ok dec rd' n' lev Ls"
  unfolding level_ok_def by (erule list.rel_mono_strong) (auto intro: subtree_keeps)

lemma level_ok_node:
  assumes lev: "level_ok dec rd n ((p, kb) # t) Ls" and p: "np \<noteq> 0" "unat np < n'" "n \<le> n'"
    and page: "rd np = Ok page" "internal_at page (p # map fst t) (map snd t)"
  shows "subtree dec rd n' np (concat Ls) \<and> dec kb = Ok (snd (hd (concat Ls)))"
proof -
  from lev obtain L Lt where Ls: "Ls = L # Lt" and L: "subtree dec rd n p L" "dec kb = Ok (snd (hd L))"
    and t: "list_all2 (\<lambda>(p, kb) L. subtree dec rd n p L \<and> dec kb = Ok (snd (hd L)) \<and> length kb \<le> MAX_KEY_BYTES) t Lt"
    by (auto simp: level_ok_def list_all2_Cons1)
  from t have len: "length Lt = length t" by (simp add: list_all2_lengthD)
  have "collect_map dec (map snd t) = Ok (map (\<lambda>L. snd (hd L)) Lt)"
    using t by (induction rule: list_all2_induct) auto
  moreover have "\<forall>i < length (p # map fst t). subtree dec rd n' ((p # map fst t) ! i) (Ls ! i)"
    using L(1) t len
    by (auto simp: Ls list_all2_conv_all_nth nth_Cons split_beta split: nat.splits intro: subtree_keeps [OF _ keeps_refl p(3)])
  ultimately have "subtree dec rd n' np (concat Ls)"
    using p page by (intro subtree.node [of np n' rd page "p # map fst t" "map snd t" dec]) (auto simp: Ls len)
  moreover have "hd (concat Ls) = hd L" using subtree_nonempty [OF L(1)] by (simp add: Ls)
  ultimately show ?thesis using L(2) by simp
qed

lemma level_ok_sizes: "level_ok dec rd n lev Ls \<Longrightarrow> \<forall>(p, sep) \<in> set lev. length sep \<le> MAX_KEY_BYTES"
  by (force simp: level_ok_def list_all2_conv_all_nth in_set_conv_nth split_beta)

lemma level_ok_append:
  "level_ok dec rd n (xs @ ys) Ls \<Longrightarrow> \<exists>Xs Ys. Ls = Xs @ Ys \<and> level_ok dec rd n xs Xs \<and> level_ok dec rd n ys Ys"
  unfolding level_ok_def by (auto simp: list_all2_append1)

context backend
begin

lemma write_node_correct:
  assumes lev: "level_ok dec (read_page ops (fst io)) n ((p, kb) # t) Ls" and np: "n \<le> unat np" "np \<noteq> 0"
    and fits: "12 + 12 * length t + sum_list (map length (map snd t)) \<le> PAGE_SIZE"
    and w: "writable ops invar m" "unat np < m" and io: "sound_io ops invar io"
  obtains io' where "write_internal_page ops np (p # map fst t) (map snd t) io = (Ok (), io')" "sound_io ops invar io'"
    "keeps (\<lambda>q. unat q < unat np) (read_page ops (fst io)) (read_page ops (fst io'))"
    "level_ok dec (read_page ops (fst io')) (unat np + 1) [(np, kb)] [concat Ls]"
proof -
  obtain page where page: "encode_internal_page (p # map fst t) (map snd t) = Ok page" "internal_at page (p # map fst t) (map snd t)"
    using encode_internal_page_Ok [of "p # map fst t" "map snd t"] fits by auto
  have "length page = PAGE_SIZE" using page(2) by (simp add: internal_at_def)
  then obtain io' where io': "write_through ops np page io = (Ok (), io')" "sound_io ops invar io'"
    "read_page ops (fst io') np = Ok page" "keeps (\<lambda>q. q \<noteq> np) (read_page ops (fst io)) (read_page ops (fst io'))"
    using write_through_sound [OF io np(2) _ w] by blast
  have "level_ok dec (read_page ops (fst io')) n ((p, kb) # t) Ls"
    by (rule level_ok_keeps [OF lev keeps_weaken [OF io'(4)] order_refl]) (use np in auto)
  then have "subtree dec (read_page ops (fst io')) (unat np + 1) np (concat Ls) \<and> dec kb = Ok (snd (hd (concat Ls)))"
    by (rule level_ok_node) (use np page io' in auto)
  moreover have "length kb \<le> MAX_KEY_BYTES" using lev by (auto simp: level_ok_def list_all2_Cons1)
  ultimately show thesis
    using that [of io'] io' page(1) keeps_weaken [OF io'(4), of "\<lambda>q. unat q < unat np"]
    by (auto simp: write_internal_page_def level_ok_def)
qed

lemma build_level_correct:
  assumes "level_ok dec (read_page ops (fst io)) n lev Ls" "n \<le> unat np" "np \<noteq> 0"
    "unat np + length lev < 2 ^ 64" "writable ops invar (unat np + length lev)" "sound_io ops invar io"
  shows "\<exists>lev' np' io' Ls'. build_level ops lev np io = (Ok (lev', np'), io') \<and> sound_io ops invar io' \<and>
    unat np' = unat np + length lev' \<and> level_ok dec (read_page ops (fst io')) (unat np') lev' Ls' \<and> concat Ls' = concat Ls \<and>
    keeps (\<lambda>q. unat q < unat np) (read_page ops (fst io)) (read_page ops (fst io'))"
  using assms
proof (induction "length lev" arbitrary: lev Ls np io n rule: less_induct)
  case less
  show ?case
  proof (cases lev)
    case Nil
    with less.prems show ?thesis by (auto simp: level_ok_def)
  next
    case (Cons x xs)
    obtain p kb where x: "x = (p, kb)" by force
    obtain t r where tr: "take_children 0 0 xs = (t, r)" by (metis prod.exhaust)
    have xs: "xs = t @ r" by (rule take_children_append [OF tr])
    have "level_ok dec (read_page ops (fst io)) n (((p, kb) # t) @ r) Ls" using less.prems(1) by (simp add: Cons x xs)
    then obtain Lt Lr where L: "Ls = Lt @ Lr" "level_ok dec (read_page ops (fst io)) n ((p, kb) # t) Lt" "level_ok dec (read_page ops (fst io)) n r Lr"
      by (auto dest: level_ok_append simp del: append_Cons)
    have "\<forall>(p, sep) \<in> set xs. length sep \<le> MAX_KEY_BYTES" using level_ok_sizes [OF less.prems(1)] by (auto simp: Cons)
    from take_children_fits [OF tr this] have fits: "12 + 12 * length t + sum_list (map length (map snd t)) \<le> PAGE_SIZE"
      by (simp add: PAGE_SIZE_def)
    have "unat np < unat np + length lev" by (simp add: Cons)
    from write_node_correct [OF L(2) less.prems(2,3) fits less.prems(5) this less.prems(6)] obtain io1 where
      w: "write_internal_page ops np (p # map fst t) (map snd t) io = (Ok (), io1)" "sound_io ops invar io1"
      "keeps (\<lambda>q. unat q < unat np) (read_page ops (fst io)) (read_page ops (fst io1))"
      "level_ok dec (read_page ops (fst io1)) (unat np + 1) [(np, kb)] [concat Lt]" .
    have np1: "unat (np + 1) = unat np + 1" using less.prems(4) by (simp add: Cons unat_word_ariths)
    have "level_ok dec (read_page ops (fst io1)) n r Lr"
      by (rule level_ok_keeps [OF L(3) keeps_weaken [OF w(3)] order_refl]) (use less.prems(2) in simp)
    moreover have "np + 1 \<noteq> 0" using np1 by auto
    moreover have "writable ops invar (unat (np + 1) + length r)"
      using less.prems(5) by (auto simp: writable_def Cons xs np1)
    ultimately obtain lev' np' io' Ls' where r: "build_level ops r (np + 1) io1 = (Ok (lev', np'), io')" "sound_io ops invar io'"
      "unat np' = unat (np + 1) + length lev'" "level_ok dec (read_page ops (fst io')) (unat np') lev' Ls'" "concat Ls' = concat Lr"
      "keeps (\<lambda>q. unat q < unat (np + 1)) (read_page ops (fst io1)) (read_page ops (fst io'))"
      using less.hyps [of r io1 n Lr "np + 1"] less.prems(2,4) np1 w(2) by (auto simp: Cons xs)
    have "level_ok dec (read_page ops (fst io')) (unat np') [(np, kb)] [concat Lt]"
      by (rule level_ok_keeps [OF w(4)]) (use r(3,6) np1 in simp_all)
    with r(4) have "level_ok dec (read_page ops (fst io')) (unat np') ((np, kb) # lev') (concat Lt # Ls')"
      by (simp add: level_ok_def)
    moreover have "keeps (\<lambda>q. unat q < unat np) (read_page ops (fst io)) (read_page ops (fst io'))"
      by (rule keeps_trans [OF w(3) r(6)]) (simp add: np1)
    moreover have "build_level ops lev np io = (Ok ((np, kb) # lev', np'), io')"
      using w(1) r(1) by (simp add: Cons x tr)
    ultimately show ?thesis using r np1 L(1)
      by (intro exI [of _ "(np, kb) # lev'"] exI [of _ np'] exI [of _ io'] exI [of _ "concat Lt # Ls'"]) simp
  qed
qed

lemma build_internal_levels_correct:
  assumes "level_ok dec (read_page ops (fst io)) n lev Ls" "n \<le> unat np" "np \<noteq> 0" "lev \<noteq> []"
    "unat np + 2 * length lev < 2 ^ 64" "writable ops invar (unat np + 2 * length lev)" "sound_io ops invar io"
  shows "\<exists>root np' io'. build_internal_levels ops lev np io = (Ok (root, np'), io') \<and> sound_io ops invar io' \<and>
    unat np \<le> unat np' \<and> unat np' + 2 \<le> unat np + 2 * length lev \<and> subtree dec (read_page ops (fst io')) (unat np') root (concat Ls) \<and>
    keeps (\<lambda>q. unat q < unat np) (read_page ops (fst io)) (read_page ops (fst io'))"
  using assms
proof (induction "length lev" arbitrary: lev Ls np io n rule: less_induct)
  case less
  show ?case
  proof (cases "length lev = 1")
    case True
    then obtain p kb where lev: "lev = [(p, kb)]" by (cases lev) auto
    with less.prems(1) obtain L where L: "Ls = [L]" "subtree dec (read_page ops (fst io)) n p L"
      by (auto simp: level_ok_def list_all2_Cons1)
    moreover have "build_internal_levels ops lev np io = (Ok (p, np), io)"
      by (subst build_internal_levels.simps) (simp add: lev)
    ultimately show ?thesis
      using less.prems(7) subtree_keeps [OF L(2) keeps_refl less.prems(2)] lev by fastforce
  next
    case False
    with less.prems(4) have long: "2 \<le> length lev" by (cases lev; cases "tl lev") auto
    have "writable ops invar (unat np + length lev)" using less.prems(6) by (auto simp: writable_def)
    with build_level_correct [OF less.prems(1-3)] less.prems(5,7) obtain lev' np' io' Ls' where
      l: "build_level ops lev np io = (Ok (lev', np'), io')" "sound_io ops invar io'"
      "unat np' = unat np + length lev'" "level_ok dec (read_page ops (fst io')) (unat np') lev' Ls'" "concat Ls' = concat Ls"
      "keeps (\<lambda>q. unat q < unat np) (read_page ops (fst io)) (read_page ops (fst io'))" by fastforce
    have shrinks: "length lev' \<le> (length lev + 1) div 2" by (rule build_level_length [OF l(1)])
    have "lev' \<noteq> []"
    proof
      assume "lev' = []"
      then have "concat Ls = []" using l(4,5) by (simp add: level_ok_def)
      with less.prems(1,4) show False
        by (cases lev) (auto simp: level_ok_def list_all2_Cons1 dest: subtree_nonempty)
    qed
    have small: "length lev' < length lev" "3 * length lev' \<le> 2 * length lev" using shrinks long by presburger+
    have "np' \<noteq> 0" using l(3) less.prems(3) by (metis add_is_0 unat_eq_zero)
    moreover have "writable ops invar (unat np' + 2 * length lev')"
      using less.prems(6) small l(3) by (auto simp: writable_def)
    ultimately obtain root np'' io'' where r: "build_internal_levels ops lev' np' io' = (Ok (root, np''), io'')" "sound_io ops invar io''"
      "unat np' \<le> unat np''" "unat np'' + 2 \<le> unat np' + 2 * length lev'" "subtree dec (read_page ops (fst io'')) (unat np'') root (concat Ls')"
      "keeps (\<lambda>q. unat q < unat np') (read_page ops (fst io')) (read_page ops (fst io''))"
      using less.hyps [OF small(1) l(4) order_refl] l(2,3) less.prems(5) small \<open>lev' \<noteq> []\<close> by fastforce
    have "build_internal_levels ops lev np io = (Ok (root, np''), io'')"
      using l(1) r(1) long by (subst build_internal_levels.simps) (auto split: list.splits)
    moreover have "keeps (\<lambda>q. unat q < unat np) (read_page ops (fst io)) (read_page ops (fst io''))"
      by (rule keeps_trans [OF l(6) r(6)]) (simp add: l(3))
    ultimately show ?thesis using r l(3,5) small by auto
  qed
qed

end

section \<open>Bulk build\<close>

definition infos_from :: "u64 \<Rightarrow> (bytes \<times> bytes) list list \<Rightarrow> (u64 \<times> bytes) list" where
  "infos_from start gs = map (\<lambda>i. (start + of_nat i, snd (hd (gs ! i)))) [0..<length gs]"

definition page_fits :: "(bytes \<times> bytes) list \<Rightarrow> bool" where
  "page_fits g \<longleftrightarrow> 12 + 4 * length g + sum_list (map length (map fst g)) \<le> PAGE_SIZE"

definition fresh_leaves :: "(u64 \<Rightarrow> bytes result) \<Rightarrow> u64 \<Rightarrow> (bytes \<times> bytes) list list \<Rightarrow> bool" where
  "fresh_leaves rd start gs \<longleftrightarrow> (\<forall>i < length gs. gs ! i \<noteq> [] \<and>
     (\<exists>page. rd (start + of_nat i) = Ok page \<and> leaf_at page (map fst (gs ! i)) 0))"

text \<open>The state of the packing loop: the groups written and the group being filled.\<close>

definition packing :: "(u64 \<Rightarrow> bytes result) \<Rightarrow> u64 \<Rightarrow> leaf_build \<Rightarrow> (bytes \<times> bytes) list list \<Rightarrow> (bytes \<times> bytes) list \<Rightarrow> bool" where
  "packing rd start st gs g \<longleftrightarrow> leaf_infos st = infos_from start gs \<and> build_next st = start + of_nat (length gs) \<and>
     cur_entries st = map fst g \<and> cur_data_bytes st = sum_list (map length (map fst g)) \<and>
     cur_first_key st = (if g = [] then None else Some (snd (hd g))) \<and> page_fits g \<and> fresh_leaves rd start gs"

lemma unat_add_small: "unat (p :: u64) + i < 2 ^ 64 \<Longrightarrow> unat (p + of_nat i) = unat p + i"
  by (simp add: unat_word_ariths unat_of_nat mod_less)

lemma fresh_leaves_length: "fresh_leaves rd start gs \<Longrightarrow> length gs \<le> length (concat gs)"
proof -
  assume "fresh_leaves rd start gs"
  then have "\<forall>g \<in> set gs. g \<noteq> []" by (auto simp: fresh_leaves_def in_set_conv_nth)
  then show ?thesis by (induction gs) (auto simp: Suc_le_eq add_strict_increasing)
qed

lemma infos_from_snoc: "infos_from start (gs @ [g]) = infos_from start gs @ [(start + of_nat (length gs), snd (hd g))]"
  by (simp add: infos_from_def nth_append)

context backend
begin

lemma write_leaf_correct:
  assumes "sound_io ops invar io" "p \<noteq> 0" "12 + 4 * length es + sum_list (map length es) \<le> PAGE_SIZE"
    "writable ops invar m" "unat p < m"
  obtains io' page where "write_leaf_page ops p es link io = (Ok (), io')" "sound_io ops invar io'"
    "read_page ops (fst io') p = Ok page" "leaf_at page es link"
    "keeps (\<lambda>q. q \<noteq> p) (read_page ops (fst io)) (read_page ops (fst io'))"
proof -
  obtain page where page: "encode_leaf_page es link = Ok page" "leaf_at page es link"
    using encode_leaf_page_Ok [OF assms(3)] by blast
  then have "length page = PAGE_SIZE" by (simp add: leaf_at_def)
  from write_through_sound [OF assms(1,2) this assms(4,5)] obtain io' where
    "write_through ops p page io = (Ok (), io')" "sound_io ops invar io'" "read_page ops (fst io') p = Ok page"
    "keeps (\<lambda>q. q \<noteq> p) (read_page ops (fst io)) (read_page ops (fst io'))" .
  with page that show thesis by (simp add: write_leaf_page_def)
qed

lemma flush_leaf_correct:
  assumes pack: "packing (read_page ops (fst io)) start st gs g" and g: "g \<noteq> []" and io: "sound_io ops invar io"
    and room: "unat start + length gs < m" "m \<le> 2 ^ 64" "start \<noteq> 0" "writable ops invar m"
  obtains st' io' where "flush_leaf ops st io = (Ok st', io')" "sound_io ops invar io'"
    "packing (read_page ops (fst io')) start st' (gs @ [g]) []"
    "keeps (\<lambda>q. unat q < unat start) (read_page ops (fst io)) (read_page ops (fst io'))"
proof -
  let ?p = "start + of_nat (length gs)"
  have p: "unat (start + of_nat i) = unat start + i" if "i \<le> length gs" for i
    using that room by (intro unat_add_small) simp
  have p0: "?p \<noteq> 0" using p [of "length gs"] room(3) by (metis add_is_0 order_refl unat_eq_zero)
  have fits: "12 + 4 * length (map fst g) + sum_list (map length (map fst g)) \<le> PAGE_SIZE"
    using pack by (simp add: packing_def page_fits_def)
  have "unat ?p < m" using p [of "length gs"] room(1) by simp
  from write_leaf_correct [OF io p0 fits room(4) this, of 0] obtain io' page where
    w: "write_leaf_page ops ?p (map fst g) 0 io = (Ok (), io')" "sound_io ops invar io'"
    "read_page ops (fst io') ?p = Ok page" "leaf_at page (map fst g) 0"
    "keeps (\<lambda>q. q \<noteq> ?p) (read_page ops (fst io)) (read_page ops (fst io'))" .
  let ?st = "st\<lparr>leaf_infos := leaf_infos st @ [(?p, snd (hd g))], cur_entries := [], cur_data_bytes := 0,
    cur_first_key := None, build_next := ?p + 1\<rparr>"
  have run: "flush_leaf ops st io = (Ok ?st, io')" using w(1) pack g by (simp add: flush_leaf_def packing_def)
  have "\<exists>page. read_page ops (fst io') (start + of_nat i) = Ok page \<and> leaf_at page (map fst ((gs @ [g]) ! i)) 0"
    if "i < length (gs @ [g])" for i
  proof (cases "i < length gs")
    case True
    with pack obtain page' where "read_page ops (fst io) (start + of_nat i) = Ok page'" "leaf_at page' (map fst (gs ! i)) 0"
      by (auto simp: packing_def fresh_leaves_def)
    moreover have "start + of_nat i \<noteq> ?p" "start + of_nat i \<noteq> 0"
      using True p [of i] p [of "length gs"] room(3) by (auto dest: arg_cong [of _ _ unat]) 
    ultimately show ?thesis using w(5) True by (auto simp: keeps_def nth_append)
  next
    case False
    with that w(3,4) show ?thesis by (auto simp: nth_append less_Suc_eq)
  qed
  then have "fresh_leaves (read_page ops (fst io')) start (gs @ [g])"
    using pack g by (auto simp: fresh_leaves_def packing_def nth_append)
  then have "packing (read_page ops (fst io')) start ?st (gs @ [g]) []"
    using pack by (simp add: packing_def infos_from_snoc page_fits_def PAGE_SIZE_def)
  moreover have "keeps (\<lambda>q. unat q < unat start) (read_page ops (fst io)) (read_page ops (fst io'))"
    by (rule keeps_weaken [OF w(5)]) (use p [of "length gs"] in auto)
  ultimately show thesis using that run w(2) by blast
qed

lemma leaf_loop_correct:
  assumes "packing (read_page ops (fst io)) start st gs g" "sound_io ops invar io"
    "\<forall>(e, k) \<in> set bks. length e \<le> MAX_ENTRY_BYTES"
    "unat start + length (concat gs @ g @ bks) < m" "m \<le> 2 ^ 64" "start \<noteq> 0" "writable ops invar m"
  shows "\<exists>st' io' gs' g'. leaf_loop ops bks st io = (Ok st', io') \<and> sound_io ops invar io' \<and>
    packing (read_page ops (fst io')) start st' gs' g' \<and> concat gs' @ g' = concat gs @ g @ bks \<and>
    (g \<noteq> [] \<or> bks \<noteq> [] \<longrightarrow> g' \<noteq> []) \<and>
    keeps (\<lambda>q. unat q < unat start) (read_page ops (fst io)) (read_page ops (fst io'))"
  using assms
proof (induction bks arbitrary: st io gs g)
  case Nil
  then show ?case by auto
next
  case (Cons x bks)
  obtain e k where x: "x = (e, k)" by force
  define flushed where "flushed \<longleftrightarrow> cur_entries st \<noteq> [] \<and> leaf_overflows (length (cur_entries st)) (cur_data_bytes st) (length e)"
  obtain st1 io1 gs1 g1 where s1: "(if flushed then flush_leaf ops st io else (Ok st, io)) = (Ok st1, io1)" "sound_io ops invar io1"
    "packing (read_page ops (fst io1)) start st1 gs1 g1" "concat gs1 @ g1 = concat gs @ g"
    "keeps (\<lambda>q. unat q < unat start) (read_page ops (fst io)) (read_page ops (fst io1))"
    "g1 = [] \<or> g1 = g \<and> \<not> flushed"
  proof (cases flushed)
    case True
    then have "g \<noteq> []" using Cons.prems(1) by (auto simp: flushed_def packing_def)
    moreover have "unat start + length gs < m"
      using fresh_leaves_length [of "read_page ops (fst io)" start gs] Cons.prems(1,4) by (simp add: packing_def)
    ultimately show ?thesis
      using flush_leaf_correct [OF Cons.prems(1) _ Cons.prems(2) _ Cons.prems(5-7)] True that
      by (metis append_Nil2 concat.simps concat_append)
  next
    case False
    with Cons.prems(1,2) that show ?thesis by simp
  qed
  have "page_fits (g1 @ [x])"
  proof (cases "g1 = []")
    case True
    with Cons.prems(3) show ?thesis by (simp add: x page_fits_def MAX_ENTRY_BYTES_def PAGE_SIZE_def)
  next
    case False
    with s1(6) have "g1 = g" "\<not> flushed" by auto
    with False Cons.prems(1) have "LEAF_HEADER_SIZE + (length g + 1) * SLOT_SIZE + sum_list (map length (map fst g)) + length e \<le> PAGE_FILL_BYTES"
      by (auto simp: flushed_def packing_def leaf_overflows_def)
    with \<open>g1 = g\<close> show ?thesis
      by (simp add: x page_fits_def PAGE_FILL_BYTES_def LEAF_HEADER_SIZE_def SLOT_SIZE_def PAGE_SIZE_def)
  qed
  with s1(3) have packed: "packing (read_page ops (fst io1)) start (add_entry x st1) gs1 (g1 @ [x])"
    by (cases g1) (auto simp: packing_def add_entry_def x)
  have same: "concat gs1 @ (g1 @ [x]) @ bks = concat gs @ g @ x # bks" using s1(4) by (metis append.assoc append_Cons append_Nil)
  have rest: "\<forall>(e, k) \<in> set bks. length e \<le> MAX_ENTRY_BYTES" using Cons.prems(3) by simp
  obtain st' io' gs' g' where r: "leaf_loop ops bks (add_entry x st1) io1 = (Ok st', io')" "sound_io ops invar io'"
    "packing (read_page ops (fst io')) start st' gs' g'" "concat gs' @ g' = concat gs @ g @ x # bks" "g' \<noteq> []"
    "keeps (\<lambda>q. unat q < unat start) (read_page ops (fst io1)) (read_page ops (fst io'))"
    using Cons.IH [OF packed s1(2) rest _ Cons.prems(5-7)] Cons.prems(4) unfolding same by auto
  have "leaf_loop ops (x # bks) st io = (Ok st', io')"
    using s1(1) r(1) by (simp add: flushed_def x)
  with r s1(5) show ?case by (auto intro: keeps_trans)
qed

lemma link_leaves_correct:
  assumes "map fst infos = map fst bs" "distinct (map fst bs)"
    "\<forall>(p, es) \<in> set bs. p \<noteq> 0 \<and> unat p < n \<and> (\<exists>page. read_page ops (fst io) p = Ok page \<and> leaf_at page es 0)"
    "sound_io ops invar io" "writable ops invar n"
  shows "\<exists>io'. link_leaves ops infos io = (Ok (), io') \<and> sound_io ops invar io' \<and> leaf_chain (read_page ops (fst io')) n bs \<and>
    keeps (\<lambda>q. q \<notin> fst ` set bs) (read_page ops (fst io)) (read_page ops (fst io'))"
  using assms
proof (induction bs arbitrary: infos io rule: induct_list012)
  case (3 b b' bs)
  obtain p es q es' where b: "b = (p, es)" "b' = (q, es')" by (cases b; cases b') auto
  from "3.prems"(1) obtain k k' infos' where i: "infos = (p, k) # (q, k') # infos'" "map fst infos' = map fst bs"
    by (auto simp: b map_eq_Cons_conv)
  from "3.prems"(3) obtain page where page: "p \<noteq> 0" "unat p < n" "read_page ops (fst io) p = Ok page" "leaf_at page es 0"
    by (auto simp: b)
  from load_page_sound [OF "3.prems"(4) page(1)] obtain c where
    c: "load_page ops p io = (read_page ops (fst io) p, (fst io, c))" "sound_io ops invar (fst io, c)" .
  let ?page = "overwrite page 4 (u64_to_le q)"
  have leaf: "leaf_at ?page es q" by (rule leaf_relink [OF page(4)])
  then have len: "length ?page = PAGE_SIZE" by (simp add: leaf_at_def)
  from write_through_sound [OF c(2) page(1) len "3.prems"(5) page(2)] obtain io1 where
    w: "write_through ops p ?page (fst io, c) = (Ok (), io1)" "sound_io ops invar io1" "read_page ops (fst io1) p = Ok ?page"
    "keeps (\<lambda>q. q \<noteq> p) (read_page ops (fst io)) (read_page ops (fst io1))" by auto
  have "\<forall>(p', es) \<in> set (b' # bs). p' \<noteq> 0 \<and> unat p' < n \<and> (\<exists>page. read_page ops (fst io1) p' = Ok page \<and> leaf_at page es 0)"
  proof clarify
    fix p' es2 assume m: "(p', es2) \<in> set (b' # bs)"
    then have "p' \<noteq> p" using "3.prems"(2) by (force simp: b)
    with m "3.prems"(3) w(4) show "p' \<noteq> 0 \<and> unat p' < n \<and> (\<exists>page. read_page ops (fst io1) p' = Ok page \<and> leaf_at page es2 0)"
      by (fastforce simp: keeps_def)
  qed
  with "3.IH"(2) [of "(q, k') # infos'" io1] i "3.prems"(2,5) w(2) obtain io' where
    r: "link_leaves ops ((q, k') # infos') io1 = (Ok (), io')" "sound_io ops invar io'" "leaf_chain (read_page ops (fst io')) n (b' # bs)"
    "keeps (\<lambda>q. q \<notin> fst ` set (b' # bs)) (read_page ops (fst io1)) (read_page ops (fst io'))" by (auto simp: b)
  have "p \<notin> fst ` set (b' # bs)" using "3.prems"(2) by (force simp: b)
  then have "read_page ops (fst io') p = Ok ?page" using r(4) w(3) page(1) by (auto simp: keeps_def)
  then have "leaf_chain (read_page ops (fst io')) n (b # b' # bs)" using r(3) leaf page by (auto simp: b)
  moreover have "link_leaves ops infos io = (Ok (), io')"
    using c(1) w(1) r(1) page(3,4) by (simp add: i leaf_at_def PAGE_SIZE_def)
  moreover have "keeps (\<lambda>q. q \<notin> fst ` set (b # b' # bs)) (read_page ops (fst io)) (read_page ops (fst io'))"
    by (rule keeps_trans [OF w(4) r(4)]) (auto simp: b)
  ultimately show ?case using r(2) by blast
qed auto

text \<open>A linked chain of leaves becomes a tree once the internal levels are built over it.\<close>

lemma tree_over_leaves:
  assumes chain: "leaf_chain (read_page ops (fst io)) n (chain_of ls)" and ls: "ls \<noteq> []"
    and infos: "list_all2 (\<lambda>(p, kb) (q, es, ys). q = p \<and> dec_key C kb = Ok (fst (hd ys)) \<and> length kb \<le> MAX_KEY_BYTES \<and>
      collect_map (dec_entry C) es = Ok ys \<and> ys \<noteq> []) infos ls"
    and np: "n \<le> unat np" "np \<noteq> 0" "unat np + 2 * length ls < 2 ^ 64" "writable ops invar (unat np + 2 * length ls)"
    and io: "sound_io ops invar io"
  obtains root np' io' where "build_internal_levels ops infos np io = (Ok (root, np'), io')" "sound_io ops invar io'"
    "unat np \<le> unat np' \<and> unat np' \<le> unat np + 2 * length ls" "tree_at C (read_page ops (fst io')) (unat np') root ls"
    "keeps (\<lambda>q. unat q < unat np) (read_page ops (fst io)) (read_page ops (fst io'))"
proof -
  let ?Ls = "map (\<lambda>(p, es, ys). [(p, fst (hd ys))]) ls"
  have len: "length infos = length ls" using infos by (simp add: list_all2_lengthD)
  have leaves: "subtree (dec_key C) (read_page ops (fst io)) n p [(p, k)]" if "(p, es, ys) \<in> set ls" for p es ys k
    using that chain
  proof (induction ls)
    case (Cons l ls)
    then show ?case by (cases "l = (p, es, ys)") (auto simp: chain_of_def split_beta intro: subtree.leaf)
  qed simp
  have "level_ok (dec_key C) (read_page ops (fst io)) n infos ?Ls"
    unfolding level_ok_def list_all2_map2
    by (rule list.rel_mono_strong [OF infos]) (auto intro: leaves)
  from build_internal_levels_correct [OF this np(1,2) _ _ _ io] len np(3,4) ls obtain root np' io' where
    r: "build_internal_levels ops infos np io = (Ok (root, np'), io')" "sound_io ops invar io'" "unat np \<le> unat np'"
    "unat np' + 2 \<le> unat np + 2 * length ls" "subtree (dec_key C) (read_page ops (fst io')) (unat np') root (concat ?Ls)"
    "keeps (\<lambda>q. unat q < unat np) (read_page ops (fst io)) (read_page ops (fst io'))" by fastforce
  have "concat ?Ls = map (\<lambda>(p, es, ys). (p, fst (hd ys))) ls" by (induction ls) auto
  moreover have "leaf_chain (read_page ops (fst io')) (unat np') (chain_of ls)"
    by (rule leaf_chain_keeps [OF chain keeps_weaken [OF r(6)]]) (use np(1) r(3) in auto)
  moreover have "\<forall>(p, es, ys) \<in> set ls. collect_map (dec_entry C) es = Ok ys \<and> ys \<noteq> []"
    using infos by (fastforce simp: list_all2_conv_all_nth in_set_conv_nth split_beta)
  ultimately have "tree_at C (read_page ops (fst io')) (unat np') root ls"
    using r(5) ls by (auto simp: tree_at_def chain_of_def)
  with that r show thesis by auto
qed

end

section \<open>The bulk build holds its entries\<close>

definition key_codec_ok :: "'k key_codec \<Rightarrow> bool" where
  "key_codec_ok C \<longleftrightarrow> (\<forall>x b. enc_entry C x = Ok b \<longrightarrow> dec_entry C b = Ok x) \<and> (\<forall>k b. enc_key C k = Ok b \<longrightarrow> dec_key C b = Ok k)"

definition entry_of :: "'k key_codec \<Rightarrow> bytes \<times> bytes \<Rightarrow> 'k \<times> fact_ref" where
  "entry_of C x = projr (dec_entry C (fst x))"

definition encodes :: "'k key_codec \<Rightarrow> bytes \<times> bytes \<Rightarrow> bool" where
  "encodes C x \<longleftrightarrow> dec_entry C (fst x) = Ok (entry_of C x) \<and> dec_key C (snd x) = Ok (fst (entry_of C x)) \<and>
     length (fst x) \<le> MAX_ENTRY_BYTES \<and> length (snd x) \<le> MAX_KEY_BYTES"

definition leaf_of :: "'k key_codec \<Rightarrow> u64 \<Rightarrow> (bytes \<times> bytes) list \<Rightarrow> 'k tree_leaf" where
  "leaf_of C p g = (p, map fst g, map (entry_of C) g)"

definition leaves_of :: "'k key_codec \<Rightarrow> u64 \<Rightarrow> (bytes \<times> bytes) list list \<Rightarrow> 'k tree_leaf list" where
  "leaves_of C start gs = map (\<lambda>i. leaf_of C (start + of_nat i) (gs ! i)) [0..<length gs]"

lemma tree_entries_leaves: "tree_entries (leaves_of C start gs) = map (entry_of C) (concat gs)"
proof -
  have "tree_entries (leaves_of C start gs) = concat (map (\<lambda>i. map (entry_of C) (gs ! i)) [0..<length gs])"
    by (simp add: tree_entries_def leaves_of_def leaf_of_def comp_def)
  also have "\<dots> = concat (map (map (entry_of C)) gs)" by (metis (no_types, lifting) map_nth map_map comp_def map_eq_conv)
  finally show ?thesis by (simp add: map_concat)
qed

lemma encodes_group: "\<forall>x \<in> set g. encodes C x \<Longrightarrow> collect_map (dec_entry C) (map fst g) = Ok (map (entry_of C) g)"
  by (induction g) (auto simp: encodes_def)

lemma btree_entries_encodes:
  assumes "key_codec_ok C" "btree_entries C xs = Ok bks"
    "\<forall>(e, k) \<in> set bks. length e \<le> MAX_ENTRY_BYTES \<and> length k \<le> MAX_KEY_BYTES"
  shows "map (entry_of C) bks = xs \<and> (\<forall>x \<in> set bks. encodes C x)"
  using assms(2,3)
proof (induction xs arbitrary: bks)
  case (Cons x xs)
  from Cons.prems(1) obtain e k bks' where b: "enc_entry C x = Ok e" "enc_key C (fst x) = Ok k" "btree_entries C xs = Ok bks'" "bks = (e, k) # bks'"
    by (auto simp: btree_entries_def and_then_eq_Inr)
  with assms(1) have "dec_entry C e = Ok x" "dec_key C k = Ok (fst x)" unfolding key_codec_ok_def by blast+
  with Cons.IH [OF b(3)] Cons.prems(2) show ?case by (auto simp: b(4) entry_of_def encodes_def)
qed (simp add: btree_entries_def)

context backend
begin

lemma link_and_build:
  assumes pack: "packing (read_page ops (fst io)) start st gs []" and gs: "gs \<noteq> []" and enc: "\<forall>x \<in> set (concat gs). encodes C x"
    and start: "start \<noteq> 0" and io: "sound_io ops invar io"
    and room: "unat start + 3 * length gs < 2 ^ 64" "writable ops invar (unat start + 3 * length gs)"
  obtains root np io' where "and_io (link_leaves ops (leaf_infos st) io) (\<lambda>_ io. build_internal_levels ops (leaf_infos st) (build_next st) io) =
      (Ok (root, np), io')" "sound_io ops invar io'"
    "unat start < unat np \<and> unat np \<le> unat start + 3 * length gs" "tree_at C (read_page ops (fst io')) (unat np) root (leaves_of C start gs)"
    "keeps (\<lambda>q. unat q < unat start) (read_page ops (fst io)) (read_page ops (fst io'))"
proof -
  let ?ls = "leaves_of C start gs" and ?n = "unat start + length gs"
  have p: "unat (start + of_nat i) = unat start + i" if "i \<le> length gs" for i
    using that room(1) by (intro unat_add_small) simp
  have p0: "start + of_nat i \<noteq> 0" if "i \<le> length gs" for i
    using p [OF that] start by (metis add_is_0 unat_eq_zero)
  have infos: "leaf_infos st = infos_from start gs" "build_next st = start + of_nat (length gs)"
    and fresh: "fresh_leaves (read_page ops (fst io)) start gs" using pack by (simp_all add: packing_def)
  have chain: "chain_of ?ls = map (\<lambda>i. (start + of_nat i, map fst (gs ! i))) [0..<length gs]"
    by (simp add: chain_of_def leaves_of_def leaf_of_def comp_def)
  have "map fst (infos_from start gs) = map fst (chain_of ?ls)" by (simp add: chain infos_from_def comp_def)
  moreover have "distinct (map fst (chain_of ?ls))"
  proof -
    have "i = j" if "i < length gs" "j < length gs" "start + of_nat i = start + of_nat j" for i j
    proof -
      have "unat start + i = unat start + j" using p [of i] p [of j] that(1,2) unfolding that(3) by simp
      then show ?thesis by simp
    qed
    then have "inj_on (\<lambda>i. start + of_nat i) (set [0..<length gs])" unfolding inj_on_def by (metis atLeastLessThan_iff set_upt)
    then show ?thesis unfolding chain map_map comp_def fst_conv by (simp add: distinct_map)
  qed
  moreover have "\<forall>(p, es) \<in> set (chain_of ?ls). p \<noteq> 0 \<and> unat p < ?n \<and> (\<exists>page. read_page ops (fst io) p = Ok page \<and> leaf_at page es 0)"
    using fresh p0 p by (auto simp: chain fresh_leaves_def)
  moreover have "writable ops invar ?n" using room(2) by (auto simp: writable_def)
  ultimately obtain io1 where l: "link_leaves ops (infos_from start gs) io = (Ok (), io1)" "sound_io ops invar io1"
    "leaf_chain (read_page ops (fst io1)) ?n (chain_of ?ls)"
    "keeps (\<lambda>q. q \<notin> fst ` set (chain_of ?ls)) (read_page ops (fst io)) (read_page ops (fst io1))"
    using link_leaves_correct [OF _ _ _ io] by blast
  have np: "unat (start + of_nat (length gs)) = ?n" "start + of_nat (length gs) \<noteq> 0" using p p0 by auto
  have lvl: "list_all2 (\<lambda>(p, kb) (q, es, ys). q = p \<and> dec_key C kb = Ok (fst (hd ys)) \<and> length kb \<le> MAX_KEY_BYTES \<and>
      collect_map (dec_entry C) es = Ok ys \<and> ys \<noteq> []) (infos_from start gs) ?ls"
    unfolding infos_from_def leaves_of_def list_all2_map1 list_all2_map2
  proof (rule list.rel_refl_strong, clarsimp simp: leaf_of_def, intro conjI)
    fix i assume "i < length gs"
    then have g: "gs ! i \<noteq> []" "\<forall>x \<in> set (gs ! i). encodes C x" using fresh enc by (auto simp: fresh_leaves_def)
    then have "encodes C (hd (gs ! i))" by simp
    with g(1) show "dec_key C (snd (hd (gs ! i))) = Ok (fst (hd (map (entry_of C) (gs ! i))))" "length (snd (hd (gs ! i))) \<le> MAX_KEY_BYTES"
      by (simp_all add: encodes_def hd_map)
    show "collect_map (dec_entry C) (map fst (gs ! i)) = Ok (map (entry_of C) (gs ! i))" by (rule encodes_group [OF g(2)])
    show "gs ! i \<noteq> []" by (rule g(1))
  qed
  have len: "length ?ls = length gs" by (simp add: leaves_of_def)
  then have "?ls \<noteq> []" using gs by auto
  moreover have "?n \<le> unat (start + of_nat (length gs))" using np(1) by simp
  moreover have "unat (start + of_nat (length gs)) + 2 * length ?ls < 2 ^ 64" using np(1) len room(1) by simp
  moreover have "writable ops invar (unat (start + of_nat (length gs)) + 2 * length ?ls)"
    unfolding np(1) len using room(2) by (simp add: add.assoc)
  ultimately obtain root np' io' where
    r: "build_internal_levels ops (infos_from start gs) (start + of_nat (length gs)) io1 = (Ok (root, np'), io')" "sound_io ops invar io'"
    "unat (start + of_nat (length gs)) \<le> unat np' \<and> unat np' \<le> unat (start + of_nat (length gs)) + 2 * length ?ls" "tree_at C (read_page ops (fst io')) (unat np') root ?ls"
    "keeps (\<lambda>q. unat q < unat (start + of_nat (length gs))) (read_page ops (fst io1)) (read_page ops (fst io'))"
    using tree_over_leaves [OF l(3) _ lvl _ np(2) _ _ l(2)] by blast
  have "keeps (\<lambda>q. unat q < unat start) (read_page ops (fst io)) (read_page ops (fst io'))"
    by (rule keeps_trans [OF l(4) r(5)]) (auto simp: chain p)
  moreover have "unat start < unat np'" using r(3) gs unfolding np(1) length_greater_0_conv [symmetric] by linarith
  ultimately show thesis using that [OF _ r(2) _ r(4)] r(1,3) l(1) by (simp add: infos np(1) len)
qed

lemma build_btree_correct:
  assumes enc: "\<forall>x \<in> set bks. encodes C x" and start: "start \<noteq> 0"
    and room: "unat start + 3 * length bks + 1 < 2 ^ 64" "writable ops invar (unat start + 3 * length bks + 1)"
    and io: "sound_io ops invar io"
  obtains root np io' ls where "build_btree ops bks start io = (Ok (root, np), io')" "sound_io ops invar io'"
    "unat start < unat np \<and> unat np \<le> unat start + 3 * length bks + 1" "tree_at C (read_page ops (fst io')) (unat np) root ls"
    "tree_entries ls = map (entry_of C) bks" "keeps (\<lambda>q. unat q < unat start) (read_page ops (fst io)) (read_page ops (fst io'))"
proof (cases "bks = []")
  case True
  have "unat start < unat start + 3 * length bks + 1" by simp
  from write_leaf_correct [OF io start _ room(2) this, of "[]" 0] obtain io' page where
    w: "write_leaf_page ops start [] 0 io = (Ok (), io')" "sound_io ops invar io'" "read_page ops (fst io') start = Ok page"
    "leaf_at page [] 0" "keeps (\<lambda>q. q \<noteq> start) (read_page ops (fst io)) (read_page ops (fst io'))" by (auto simp: PAGE_SIZE_def)
  have np: "unat (start + 1) = unat start + 1" using room(1) unat_add_small [of start 1] by simp
  have "build_btree ops bks start io = (Ok (start, start + 1), io')" using w(1) by (simp add: build_btree_def True)
  moreover have "tree_at C (read_page ops (fst io')) (unat (start + 1)) start [(start, [], [])]"
    using w(3,4) start np by (auto simp: tree_at_def intro: subtree.leaf)
  moreover have "keeps (\<lambda>q. unat q < unat start) (read_page ops (fst io)) (read_page ops (fst io'))"
    by (rule keeps_weaken [OF w(5)]) auto
  ultimately show thesis using that w(2) np True by (simp add: tree_entries_def)
next
  case False
  let ?st0 = "\<lparr>leaf_infos = [], cur_entries = [], cur_data_bytes = 0, cur_first_key = None, build_next = start\<rparr>"
  let ?m = "unat start + 3 * length bks + 1"
  have pack0: "packing (read_page ops (fst io)) start ?st0 [] []"
    by (simp add: packing_def infos_from_def page_fits_def fresh_leaves_def PAGE_SIZE_def)
  have sizes: "\<forall>(e, k) \<in> set bks. length e \<le> MAX_ENTRY_BYTES" using enc by (auto simp: encodes_def)
  have "unat start + length (concat [] @ [] @ bks) < ?m" "?m \<le> 2 ^ 64" using room(1) by simp_all
  from leaf_loop_correct [OF pack0 io sizes this start room(2)] obtain st1 io1 gs g where
    l: "leaf_loop ops bks ?st0 io = (Ok st1, io1)" "sound_io ops invar io1" "packing (read_page ops (fst io1)) start st1 gs g"
    "concat gs @ g = bks" "bks \<noteq> [] \<longrightarrow> g \<noteq> []" "keeps (\<lambda>q. unat q < unat start) (read_page ops (fst io)) (read_page ops (fst io1))"
    unfolding concat.simps append_Nil by blast
  have g: "g \<noteq> []" using l(5) False by simp
  have count: "length gs + 1 \<le> length bks"
    using fresh_leaves_length [of "read_page ops (fst io1)" start gs] l(3) g unfolding l(4) [symmetric] by (cases g) (auto simp: packing_def)
  have "unat start + length gs < ?m" "?m \<le> 2 ^ 64" using count room(1) by simp_all
  from flush_leaf_correct [OF l(3) g l(2) this start room(2)] obtain st2 io2 where
    f: "flush_leaf ops st1 io1 = (Ok st2, io2)" "sound_io ops invar io2" "packing (read_page ops (fst io2)) start st2 (gs @ [g]) []"
    "keeps (\<lambda>q. unat q < unat start) (read_page ops (fst io1)) (read_page ops (fst io2))" .
  have all: "concat (gs @ [g]) = bks" using l(4) by simp
  have wr: "writable ops invar (unat start + 3 * length (gs @ [g]))" using room(2) count by (auto simp: writable_def)
  have "gs @ [g] \<noteq> []" "\<forall>x \<in> set (concat (gs @ [g])). encodes C x" "unat start + 3 * length (gs @ [g]) < 2 ^ 64"
    using enc all count room(1) by auto
  from link_and_build [OF f(3) this(1,2) start f(2) this(3) wr] obtain root np io' where
    r: "and_io (link_leaves ops (leaf_infos st2) io2) (\<lambda>_ io. build_internal_levels ops (leaf_infos st2) (build_next st2) io) = (Ok (root, np), io')"
    "sound_io ops invar io'" "unat start < unat np \<and> unat np \<le> unat start + 3 * length (gs @ [g])"
    "tree_at C (read_page ops (fst io')) (unat np) root (leaves_of C start (gs @ [g]))"
    "keeps (\<lambda>q. unat q < unat start) (read_page ops (fst io2)) (read_page ops (fst io'))" .
  have "cur_entries st1 \<noteq> []" using l(3) g by (simp add: packing_def)
  then have "build_btree ops bks start io = (Ok (root, np), io')"
    using l(1) f(1) r(1) by (simp add: build_btree_def)
  moreover have "keeps (\<lambda>q. unat q < unat start) (read_page ops (fst io)) (read_page ops (fst io'))"
    using keeps_trans [OF keeps_trans [OF l(6) f(4)] r(5)] by auto
  moreover have "tree_entries (leaves_of C start (gs @ [g])) = map (entry_of C) bks" unfolding tree_entries_leaves all ..
  ultimately show thesis using that r(2-4) count by fastforce
qed

end

end
