(* ===== verification/BTree_Rebuild.thy ===== *)
theory BTree_Rebuild
  imports BTree_Build
begin

text \<open>
  The incremental rebuild of the B+tree of format 6: leaves without new entries are copied
  byte for byte, the others are merged and repacked, and a scan of the new tree sees exactly
  the old and the new entries.
\<close>

section \<open>Emitting leaves\<close>

fun linked :: "(u64 \<Rightarrow> bytes result) \<Rightarrow> nat \<Rightarrow> (u64 \<times> bytes list) list \<Rightarrow> u64 \<Rightarrow> bool" where
  "linked rd n [] z \<longleftrightarrow> True"
| "linked rd n ((p, es) # rest) z \<longleftrightarrow> p \<noteq> 0 \<and> unat p < n \<and>
     (\<exists>page. rd p = Ok page \<and> leaf_at page es (case rest of [] \<Rightarrow> z | (q, _) # _ \<Rightarrow> q)) \<and> linked rd n rest z"

lemma linked_chain: "linked rd n bs 0 \<longleftrightarrow> leaf_chain rd n bs"
  by (induction bs) auto

lemma linked_snoc: "linked rd n (bs @ [(p, es)]) z \<longleftrightarrow> linked rd n bs p \<and> p \<noteq> 0 \<and> unat p < n \<and>
    (\<exists>page. rd p = Ok page \<and> leaf_at page es z)"
proof (induction bs)
  case (Cons b bs)
  then show ?case by (cases b; cases bs) (auto split: prod.splits)
qed simp

lemma linked_keeps:
  assumes "linked rd n bs z" "keeps P rd rd'" "\<And>q. q \<in> fst ` set bs \<Longrightarrow> P q" "n \<le> n'"
  shows "linked rd' n' bs z"
  using assms(1,3)
proof (induction bs)
  case (Cons b bs)
  obtain p es where b: "b = (p, es)" by force
  with Cons.prems obtain page where "rd p = Ok page" "leaf_at page es (case bs of [] \<Rightarrow> z | (q, _) # _ \<Rightarrow> q)"
    "p \<noteq> 0" "unat p < n" "linked rd n bs z" by auto
  moreover from this assms(2) Cons.prems(2) have "rd' p = Ok page" by (auto simp: keeps_def b)
  ultimately show ?case using Cons assms(4) by (auto simp: b)
qed simp

definition info_ok :: "'k key_codec \<Rightarrow> u64 \<times> bytes \<Rightarrow> 'k tree_leaf \<Rightarrow> bool" where
  "info_ok C = (\<lambda>(p, kb) (q, es, ys). q = p \<and> dec_key C kb = Ok (fst (hd ys)) \<and> length kb \<le> MAX_KEY_BYTES \<and>
      collect_map (dec_entry C) es = Ok ys \<and> ys \<noteq> [])"

text \<open>
  The emitter after the leaves \<open>ls\<close>: all but the last are on disk, each linked to the next;
  the last is held back.
\<close>

definition emitted :: "'k key_codec \<Rightarrow> (u64 \<Rightarrow> bytes result) \<Rightarrow> u64 \<Rightarrow> leaf_emitter \<Rightarrow> 'k tree_leaf list \<Rightarrow> bool" where
  "emitted C rd start em ls \<longleftrightarrow> em_next em = start + of_nat (length ls) \<and> list_all2 (info_ok C) (em_infos em) ls \<and>
     map fst ls = map (\<lambda>i. start + of_nat i) [0..<length ls] \<and>
     (case held em of
        None \<Rightarrow> ls = []
      | Some (p, page) \<Rightarrow> \<exists>ks es ys link. ls = ks @ [(p, es, ys)] \<and> leaf_at page es link \<and>
          linked rd (unat start + length ks) (chain_of ks) p)"

lemma chain_pages: "map fst (chain_of ls) = map fst ls"
  by (simp add: chain_of_def comp_def split_beta)

context backend
begin

lemma release_held_correct:
  assumes em: "emitted C (read_page ops (fst io)) start em ls" and io: "sound_io ops invar io" and start: "start \<noteq> 0"
    and room: "unat start + length ls \<le> m" "m \<le> 2 ^ 64" "writable ops invar m"
  obtains io' where "release_held ops z em io = (Ok (em\<lparr>held := None\<rparr>), io')" "sound_io ops invar io'"
    "linked (read_page ops (fst io')) (unat start + length ls) (chain_of ls) z"
    "keeps (\<lambda>q. unat q < unat start) (read_page ops (fst io)) (read_page ops (fst io'))"
proof (cases "held em")
  case None
  with em have "ls = []" by (simp add: emitted_def)
  moreover have "release_held ops z em io = (Ok (em\<lparr>held := None\<rparr>), io)" using None by (cases em) (simp add: release_held_def)
  ultimately show thesis using that io by (simp add: chain_of_def)
next
  case (Some h)
  obtain p page where h: "h = (p, page)" by force
  with em Some obtain ks es ys link where ls: "ls = ks @ [(p, es, ys)]" and leaf: "leaf_at page es link"
    and lk: "linked (read_page ops (fst io)) (unat start + length ks) (chain_of ks) p" by (auto simp: emitted_def)
  have pages: "map fst ls = map (\<lambda>i. start + of_nat i) [0..<length ls]" using em by (simp add: emitted_def)
  have at: "fst (ls ! i) = start + of_nat i" if "i < length ls" for i
    using arg_cong [OF pages, of "\<lambda>xs. xs ! i"] that by simp
  have u: "unat (start + of_nat i) = unat start + i" if "i < length ls" for i
    using that room by (intro unat_add_small) simp
  have p: "p = start + of_nat (length ks)" "unat p = unat start + length ks"
    using at [of "length ks"] u [of "length ks"] by (simp_all add: ls)
  have p0: "p \<noteq> 0" using p start by (metis add_is_0 unat_eq_zero)
  let ?page = "overwrite page 4 (u64_to_le z)"
  have new: "leaf_at ?page es z" by (rule leaf_relink [OF leaf])
  then have len: "length ?page = PAGE_SIZE" by (simp add: leaf_at_def)
  have "unat p < m" using p(2) room(1) by (simp add: ls)
  from write_through_sound [OF io p0 len room(3) this] obtain io' where
    w: "write_through ops p ?page io = (Ok (), io')" "sound_io ops invar io'" "read_page ops (fst io') p = Ok ?page"
    "keeps (\<lambda>q. q \<noteq> p) (read_page ops (fst io)) (read_page ops (fst io'))" .
  have run: "release_held ops z em io = (Ok (em\<lparr>held := None\<rparr>), io')"
    using w(1) Some leaf by (simp add: release_held_def h leaf_at_def PAGE_SIZE_def)
  have other: "q \<noteq> p" if "q \<in> fst ` set (chain_of ks)" for q
  proof -
    from that obtain i where "i < length ks" "q = fst (ks ! i)"
      unfolding list.set_map [symmetric] chain_pages by (auto simp: in_set_conv_nth)
    then have "q = start + of_nat i" "i < length ls" using at [of i] by (auto simp: ls nth_append)
    then show ?thesis using u [of i] p(2) \<open>i < length ks\<close> by auto
  qed
  have "linked (read_page ops (fst io')) (unat start + length ls) (chain_of ls) z"
    using linked_keeps [OF lk w(4) other, of "unat start + length ls"] w(3) new p p0
    by (simp add: ls chain_of_def linked_snoc)
  moreover have "keeps (\<lambda>q. unat q < unat start) (read_page ops (fst io)) (read_page ops (fst io'))"
    by (rule keeps_weaken [OF w(4)]) (use p(2) in auto)
  ultimately show thesis using that run w(2) by blast
qed

lemma em_push_correct:
  assumes em: "emitted C (read_page ops (fst io)) start em ls" and io: "sound_io ops invar io" and start: "start \<noteq> 0"
    and room: "unat start + length ls \<le> m" "m \<le> 2 ^ 64" "writable ops invar m"
    and leaf: "leaf_at page es link" "info_ok C (em_next em, kb) (em_next em, es, ys)"
  obtains em' io' where "em_push ops page kb em io = (Ok em', io')" "sound_io ops invar io'"
    "emitted C (read_page ops (fst io')) start em' (ls @ [(em_next em, es, ys)])"
    "keeps (\<lambda>q. unat q < unat start) (read_page ops (fst io)) (read_page ops (fst io'))"
proof -
  let ?em = "em\<lparr>em_next := em_next em + 1\<rparr>" and ?p = "em_next em"
  from release_held_correct [OF em io start room, of ?p] obtain io' where
    r: "release_held ops ?p em io = (Ok (em\<lparr>held := None\<rparr>), io')" "sound_io ops invar io'"
    "linked (read_page ops (fst io')) (unat start + length ls) (chain_of ls) ?p"
    "keeps (\<lambda>q. unat q < unat start) (read_page ops (fst io)) (read_page ops (fst io'))" .
  let ?em' = "em\<lparr>em_next := ?p + 1, held := Some (?p, page), em_infos := em_infos em @ [(?p, kb)]\<rparr>"
  have "release_held ops ?p ?em io = (Ok (?em\<lparr>held := None\<rparr>), io')"
    using r(1) by (auto simp: release_held_def and_io_def split: option.splits prod.splits sum.splits if_splits)
  then have "em_push ops page kb em io = (Ok ?em', io')" by (simp add: em_push_def Let_def)
  moreover have "emitted C (read_page ops (fst io')) start ?em' (ls @ [(?p, es, ys)])"
    using em leaf r(3) by (auto simp: emitted_def list_all2_appendI)
  ultimately show thesis using that r(2,4) by blast
qed

end

section \<open>Repacking\<close>

definition fits_entry :: "'k key_codec \<Rightarrow> 'k \<times> fact_ref \<Rightarrow> bool" where
  "fits_entry C x \<longleftrightarrow> (\<exists>b kb. enc_entry C x = Ok b \<and> length b \<le> MAX_ENTRY_BYTES \<and> enc_key C (fst x) = Ok kb \<and> length kb \<le> MAX_KEY_BYTES)"

definition eb :: "'k key_codec \<Rightarrow> 'k \<times> fact_ref \<Rightarrow> bytes" where "eb C x = projr (enc_entry C x)"
definition kb :: "'k key_codec \<Rightarrow> 'k \<times> fact_ref \<Rightarrow> bytes" where "kb C x = projr (enc_key C (fst x))"

definition group_size :: "'k key_codec \<Rightarrow> ('k \<times> fact_ref) list \<Rightarrow> nat" where
  "group_size C g = sum_list (map (\<lambda>x. length (eb C x) + 4) g)"

lemma group_size_simps [simp]: "group_size C [] = 0" "group_size C (g @ g') = group_size C g + group_size C g'"
  "group_size C (x # g) = length (eb C x) + 4 + group_size C g"
  by (simp_all add: group_size_def)

lemma key_codec_okD:
  "key_codec_ok C \<Longrightarrow> enc_entry C x = Ok b \<Longrightarrow> dec_entry C b = Ok x"
  "key_codec_ok C \<Longrightarrow> enc_key C k = Ok b \<Longrightarrow> dec_key C b = Ok k"
  unfolding key_codec_ok_def by blast+

lemma fits_entryD:
  "fits_entry C x \<Longrightarrow> enc_entry C x = Ok (eb C x) \<and> length (eb C x) \<le> MAX_ENTRY_BYTES \<and>
    enc_key C (fst x) = Ok (kb C x) \<and> length (kb C x) \<le> MAX_KEY_BYTES"
  by (auto simp: fits_entry_def eb_def kb_def)

lemma group_leaf:
  assumes "12 + group_size C g \<le> PAGE_SIZE"
  shows "\<exists>page. encode_leaf_page (map (eb C) g) 0 = Ok page \<and> leaf_at page (map (eb C) g) 0"
proof (rule encode_leaf_page_Ok)
  have "group_size C g = 4 * length g + sum_list (map length (map (eb C) g))" by (induction g) simp_all
  with assms show "12 + 4 * length (map (eb C) g) + sum_list (map length (map (eb C) g)) \<le> PAGE_SIZE" by simp
qed

lemma group_info:
  assumes "key_codec_ok C" "\<forall>x \<in> set g. fits_entry C x" "g \<noteq> []"
  shows "info_ok C (p, kb C (hd g)) (p, map (eb C) g, g)"
proof -
  have f: "enc_entry C x = Ok (eb C x)" "enc_key C (fst x) = Ok (kb C x)" "length (kb C x) \<le> MAX_KEY_BYTES" if "x \<in> set g" for x
    using assms(2) that by (auto dest: fits_entryD)
  then have "collect_map (dec_entry C) (map (eb C) g) = Ok g" using assms(1)
  proof (induction g)
    case (Cons x g)
    then have "enc_entry C x = Ok (eb C x)" by simp
    from key_codec_okD(1) [OF assms(1) this] have "dec_entry C (eb C x) = Ok x" .
    with Cons show ?case by simp
  qed simp
  moreover have "dec_key C (kb C (hd g)) = Ok (fst (hd g))"
    using key_codec_okD(2) [OF assms(1) f(2)] assms(3) by simp
  ultimately show ?thesis using assms(3) f(3) by (simp add: info_ok_def)
qed

context backend
begin

lemma emit_page_correct:
  assumes em: "emitted C (read_page ops (fst io)) start em ls" and io: "sound_io ops invar io" and start: "start \<noteq> 0"
    and room: "unat start + length ls \<le> m" "m \<le> 2 ^ 64" "writable ops invar m"
    and g: "key_codec_ok C" "\<forall>x \<in> set g. fits_entry C x" "g \<noteq> []" "12 + group_size C g \<le> PAGE_SIZE"
  obtains em' io' where "emit_page ops (map (eb C) g) (kb C (hd g)) em io = (Ok em', io')" "sound_io ops invar io'"
    "emitted C (read_page ops (fst io')) start em' (ls @ [(em_next em, map (eb C) g, g)])"
    "keeps (\<lambda>q. unat q < unat start) (read_page ops (fst io)) (read_page ops (fst io'))"
proof -
  from group_leaf [OF g(4)] obtain page where page: "encode_leaf_page (map (eb C) g) 0 = Ok page" "leaf_at page (map (eb C) g) 0" by blast
  from em_push_correct [OF em io start room page(2) group_info [OF g(1-3)]] obtain em' io' where
    "em_push ops page (kb C (hd g)) em io = (Ok em', io')" "sound_io ops invar io'"
    "emitted C (read_page ops (fst io')) start em' (ls @ [(em_next em, map (eb C) g, g)])"
    "keeps (\<lambda>q. unat q < unat start) (read_page ops (fst io)) (read_page ops (fst io'))" .
  with that page(1) show thesis by (simp add: emit_page_def)
qed

lemma emit_loop_correct:
  assumes "emitted C (read_page ops (fst io)) start em ls" "sound_io ops invar io" "start \<noteq> 0"
    "unat start + length ls + length g + length xs \<le> m" "m \<le> 2 ^ 64" "writable ops invar m" "key_codec_ok C"
    "\<forall>x \<in> set (g @ xs). fits_entry C x" "g = [] \<or> 12 + group_size C g \<le> PAGE_SIZE" "12 + target \<le> PAGE_SIZE"
  shows "\<exists>em' io' ls'. emit_loop C ops target (map (\<lambda>x. (eb C x, fst x)) xs) (map (eb C) g) (group_size C g)
      (if g = [] then None else Some (kb C (hd g))) em io = (Ok em', io') \<and> sound_io ops invar io' \<and>
    emitted C (read_page ops (fst io')) start em' (ls @ ls') \<and> tree_entries ls' = g @ xs \<and> length ls' \<le> length g + length xs \<and>
    keeps (\<lambda>q. unat q < unat start) (read_page ops (fst io)) (read_page ops (fst io'))"
  using assms
proof (induction xs arbitrary: g em io ls)
  case Nil
  show ?case
  proof (cases "g = []")
    case True
    with Nil show ?thesis by (auto simp: tree_entries_def intro!: exI [of _ "[]"])
  next
    case False
    have "unat start + length ls \<le> m" "\<forall>x \<in> set g. fits_entry C x" "12 + group_size C g \<le> PAGE_SIZE"
      using Nil.prems(4,8,9) False by auto
    from emit_page_correct [OF Nil.prems(1-3) this(1) Nil.prems(5-7) this(2) False this(3)] obtain em' io' where
      "emit_page ops (map (eb C) g) (kb C (hd g)) em io = (Ok em', io')" "sound_io ops invar io'"
      "emitted C (read_page ops (fst io')) start em' (ls @ [(em_next em, map (eb C) g, g)])"
      "keeps (\<lambda>q. unat q < unat start) (read_page ops (fst io)) (read_page ops (fst io'))" .
    with False show ?thesis
      by (intro exI [of _ em'] exI [of _ io'] exI [of _ "[(em_next em, map (eb C) g, g)]"])
        (cases g, auto simp: tree_entries_def)
  qed
next
  case (Cons x xs)
  have x: "enc_key C (fst x) = Ok (kb C x)" "length (eb C x) \<le> MAX_ENTRY_BYTES" using Cons.prems(8) by (auto dest: fits_entryD)
  have fit: "\<forall>y \<in> set g. fits_entry C y" "\<forall>y \<in> set ([x] @ xs). fits_entry C y" "\<forall>y \<in> set ((g @ [x]) @ xs). fits_entry C y"
    using Cons.prems(8) by auto
  have single: "12 + group_size C [x] \<le> PAGE_SIZE" using x(2) by (simp add: MAX_ENTRY_BYTES_def PAGE_SIZE_def)
  show ?case
  proof (cases "g \<noteq> [] \<and> target < group_size C g + (length (eb C x) + SLOT_SIZE)")
    case True
    then have g: "g \<noteq> []" "12 + group_size C g \<le> PAGE_SIZE" using Cons.prems(9) by auto
    have "unat start + length ls \<le> m" using Cons.prems(4) by simp
    from emit_page_correct [OF Cons.prems(1-3) this Cons.prems(5-7) fit(1) g] obtain em1 io1 where
      e: "emit_page ops (map (eb C) g) (kb C (hd g)) em io = (Ok em1, io1)" "sound_io ops invar io1"
      "emitted C (read_page ops (fst io1)) start em1 (ls @ [(em_next em, map (eb C) g, g)])"
      "keeps (\<lambda>q. unat q < unat start) (read_page ops (fst io)) (read_page ops (fst io1))" .
    have room: "unat start + length (ls @ [(em_next em, map (eb C) g, g)]) + length [x] + length xs \<le> m"
      using Cons.prems(4) g(1) by (cases g) auto
    from Cons.IH [OF e(3,2) Cons.prems(3) room Cons.prems(5-7) fit(2) disjI2 [OF single] Cons.prems(10)] obtain em' io' ls' where
      r: "emit_loop C ops target (map (\<lambda>x. (eb C x, fst x)) xs) [eb C x] (length (eb C x) + SLOT_SIZE) (Some (kb C x)) em1 io1 = (Ok em', io')"
      "sound_io ops invar io'" "emitted C (read_page ops (fst io')) start em' ((ls @ [(em_next em, map (eb C) g, g)]) @ ls')"
      "tree_entries ls' = [x] @ xs" "length ls' \<le> 1 + length xs"
      "keeps (\<lambda>q. unat q < unat start) (read_page ops (fst io1)) (read_page ops (fst io'))" by (auto simp: SLOT_SIZE_def)
    have "keeps (\<lambda>q. unat q < unat start) (read_page ops (fst io)) (read_page ops (fst io'))"
      by (rule keeps_trans [OF e(4) r(6)]) simp
    moreover have "emit_loop C ops target (map (\<lambda>x. (eb C x, fst x)) (x # xs)) (map (eb C) g) (group_size C g)
        (if g = [] then None else Some (kb C (hd g))) em io = (Ok em', io')"
      using True e(1) r(1) x(1) by (simp add: Let_def)
    ultimately show ?thesis using r(2-5) g(1)
      by (intro exI [of _ em'] exI [of _ io'] exI [of _ "(em_next em, map (eb C) g, g) # ls'"])
        (cases g, auto simp: tree_entries_def)
  next
    case False
    have size: "12 + group_size C (g @ [x]) \<le> PAGE_SIZE"
      using False Cons.prems(10) single by (cases "g = []") (auto simp: SLOT_SIZE_def)
    have room: "unat start + length ls + length (g @ [x]) + length xs \<le> m" using Cons.prems(4) by simp
    from Cons.IH [OF Cons.prems(1-3) room Cons.prems(5-7) fit(3) disjI2 [OF size] Cons.prems(10)] obtain em' io' ls' where
      r: "emit_loop C ops target (map (\<lambda>x. (eb C x, fst x)) xs) (map (eb C) (g @ [x])) (group_size C (g @ [x]))
        (Some (kb C (hd (g @ [x])))) em io = (Ok em', io')"
      "sound_io ops invar io'" "emitted C (read_page ops (fst io')) start em' (ls @ ls')"
      "tree_entries ls' = (g @ [x]) @ xs" "length ls' \<le> length (g @ [x]) + length xs"
      "keeps (\<lambda>q. unat q < unat start) (read_page ops (fst io)) (read_page ops (fst io'))" by auto
    have "emit_loop C ops target (map (\<lambda>x. (eb C x, fst x)) (x # xs)) (map (eb C) g) (group_size C g)
        (if g = [] then None else Some (kb C (hd g))) em io = (Ok em', io')"
      using False r(1) x(1) by (cases g) (auto simp: Let_def SLOT_SIZE_def add.assoc)
    with r show ?thesis by (intro exI [of _ em'] exI [of _ io'] exI [of _ ls']) simp
  qed
qed

end

end
