(* ===== verification/BTree_Merge.thy ===== *)
theory BTree_Merge
  imports BTree_Rebuild "HOL-Library.Multiset"
begin

text \<open>
  The incremental rebuild of the B+tree of format 6 as a whole: the walk over the old leaves,
  the merge of the pending entries into them, and the new tree.
\<close>

section \<open>Merging\<close>

lemma merge_mset: "mset (merge_sorted_vecs a b) = mset a + mset b"
  by (induction a b rule: merge_sorted_vecs.induct) auto

lemma merge_set: "set (merge_sorted_vecs a b) = set a \<union> set b"
  by (metis merge_mset set_mset_mset set_mset_union)

lemma merge_sorted:
  "sorted (map fst a) \<Longrightarrow> sorted (map fst b) \<Longrightarrow> sorted (map fst (merge_sorted_vecs a b))"
proof (induction a b rule: merge_sorted_vecs.induct)
  case (1 a as b bs)
  then show ?case by (cases "entry_le a b") (auto simp: merge_set entry_le_def)
qed simp_all

lemma div_ceil_mult:
  assumes "0 < u"
  shows "t \<le> div_ceil t u * u"
proof -
  have "(t + u - 1) div u * u + (t + u - 1) mod u = t + u - 1" "(t + u - 1) mod u < u" using assms by simp_all
  then show ?thesis unfolding div_ceil_def by linarith
qed

lemma div_ceil_le:
  assumes "t \<le> d * u" "0 < d"
  shows "div_ceil t d \<le> u"
proof -
  have "t + d - 1 < (u + 1) * d" using assms by (simp add: algebra_simps)
  then have "(t + d - 1) div d < u + 1" by (rule less_mult_imp_div_less)
  then show ?thesis by (simp add: div_ceil_def)
qed

lemma div_ceil_twice:
  assumes "0 < u" "0 < t"
  shows "div_ceil t (div_ceil t u) \<le> u"
proof (rule div_ceil_le)
  show "t \<le> div_ceil t u * u" by (rule div_ceil_mult [OF assms(1)])
  then show "0 < div_ceil t u" using assms(2) by (cases "div_ceil t u") auto
qed

context backend
begin

lemma emit_packed_correct:
  assumes em: "emitted C (read_page ops (fst io)) start em ls" and io: "sound_io ops invar io" and start: "start \<noteq> 0"
    and room: "unat start + length ls + length xs \<le> m" "m \<le> 2 ^ 64" "writable ops invar m"
    and xs: "key_codec_ok C" "\<forall>x \<in> set xs. fits_entry C x"
  shows "\<exists>em' io' ls'. emit_packed C ops xs em io = (Ok em', io') \<and> sound_io ops invar io' \<and>
    emitted C (read_page ops (fst io')) start em' (ls @ ls') \<and> tree_entries ls' = xs \<and> length ls' \<le> length xs \<and>
    keeps (\<lambda>q. unat q < unat start) (read_page ops (fst io)) (read_page ops (fst io'))"
proof (cases "xs = []")
  case True
  then show ?thesis using em io by (auto simp: emit_packed_def tree_entries_def intro!: exI [of _ "[]"])
next
  case False
  let ?ser = "map (\<lambda>x. (eb C x, fst x)) xs"
  define total where "total = group_size C xs"
  define target where "target = (if LEAF_HEADER_SIZE + total \<le> PAGE_SIZE then total
      else let usable = PAGE_FILL_BYTES - LEAF_HEADER_SIZE in div_ceil total (div_ceil total usable))"
  have ser: "collect_map (\<lambda>x. and_then (enc_entry C x) (\<lambda>b. Ok (b, fst x))) xs = Ok ?ser"
    using xs(2) by (intro collect_map_Inr) (auto dest!: fits_entryD)
  have tot: "sum_list (map (\<lambda>(b, k). length b + SLOT_SIZE) ?ser) = total"
    by (simp add: total_def group_size_def SLOT_SIZE_def comp_def)
  have "0 < total" using False by (cases xs) (auto simp: total_def)
  then have target: "12 + target \<le> PAGE_SIZE"
    using div_ceil_twice [of "PAGE_FILL_BYTES - LEAF_HEADER_SIZE" total]
    by (auto simp: target_def Let_def LEAF_HEADER_SIZE_def PAGE_FILL_BYTES_def PAGE_SIZE_def)
  have "unat start + length ls + length ([] :: ('a \<times> fact_ref) list) + length xs \<le> m" using room(1) by simp
  from emit_loop_correct [OF em io start _ room(2,3) xs(1), of "[]" xs target] room(1) xs(2) target
  have "\<exists>em' io' ls'. emit_loop C ops target ?ser [] 0 None em io = (Ok em', io') \<and> sound_io ops invar io' \<and>
    emitted C (read_page ops (fst io')) start em' (ls @ ls') \<and> tree_entries ls' = xs \<and> length ls' \<le> length xs \<and>
    keeps (\<lambda>q. unat q < unat start) (read_page ops (fst io)) (read_page ops (fst io'))" by simp
  moreover have "emit_packed C ops xs em io = emit_loop C ops target ?ser [] 0 None em io"
    using False unfolding emit_packed_def ser sum.case Let_def tot by (simp add: target_def Let_def)
  ultimately show ?thesis by simp
qed

end

section \<open>The rebuilt leaves\<close>

definition old_leaf :: "'k key_codec \<Rightarrow> bytes \<times> 'k \<Rightarrow> ('k \<times> fact_ref) list \<Rightarrow> bool" where
  "old_leaf C = (\<lambda>(page, fk) ys. \<exists>es link. leaf_at page es link \<and> collect_map (dec_entry C) es = Ok ys \<and> ys \<noteq> [] \<and> fk = fst (hd ys))"

context backend
begin

lemma rebuild_step_correct:
  assumes em: "emitted C (read_page ops (fst io)) start em ls" and io: "sound_io ops invar io" and start: "start \<noteq> 0"
    and room: "unat start + length ls + length ys + length batch \<le> m" "m \<le> 2 ^ 64" "writable ops invar m"
    and codec: "key_codec_ok C" "\<forall>x \<in> set ys \<union> set batch. fits_entry C x" and old: "old_leaf C (page, fk) ys"
  shows "\<exists>em' io' ls'. (if batch = [] then
           (case enc_key C fk of Inl e \<Rightarrow> (Err e, io) | Inr k \<Rightarrow> em_push ops page k em io)
         else
           (case read_leaf_entries (dec_entry C) page of
              Inl e \<Rightarrow> (Err e, io) | Inr old \<Rightarrow> emit_packed C ops (merge_sorted_vecs old batch) em io)) = (Ok em', io') \<and>
    sound_io ops invar io' \<and> emitted C (read_page ops (fst io')) start em' (ls @ ls') \<and>
    tree_entries ls' = merge_sorted_vecs ys batch \<and> length ls' \<le> length ys + length batch \<and>
    keeps (\<lambda>q. unat q < unat start) (read_page ops (fst io)) (read_page ops (fst io'))"
proof -
  from old obtain es link where leaf: "leaf_at page es link" "collect_map (dec_entry C) es = Ok ys" "ys \<noteq> []" "fk = fst (hd ys)"
    by (auto simp: old_leaf_def)
  show ?thesis
  proof (cases "batch = []")
    case True
    have "fits_entry C (hd ys)" using codec(2) leaf(3) by simp
    then have k: "enc_key C fk = Ok (kb C (hd ys))" "length (kb C (hd ys)) \<le> MAX_KEY_BYTES" by (auto dest: fits_entryD simp: leaf(4))
    have "dec_key C (kb C (hd ys)) = Ok fk" by (rule key_codec_okD(2) [OF codec(1) k(1)])
    with leaf k have info: "info_ok C (em_next em, kb C (hd ys)) (em_next em, es, ys)" by (simp add: info_ok_def)
    have "unat start + length ls \<le> m" using room(1) by simp
    from em_push_correct [OF em io start this room(2,3) leaf(1) info] obtain em' io' where
      r: "em_push ops page (kb C (hd ys)) em io = (Ok em', io')" "sound_io ops invar io'"
      "emitted C (read_page ops (fst io')) start em' (ls @ [(em_next em, es, ys)])"
      "keeps (\<lambda>q. unat q < unat start) (read_page ops (fst io)) (read_page ops (fst io'))" .
    have "merge_sorted_vecs ys [] = ys" by (cases ys) simp_all
    with r k(1) leaf(3) True show ?thesis
      by (intro exI [of _ em'] exI [of _ io'] exI [of _ "[(em_next em, es, ys)]"])
        (cases ys, auto simp: tree_entries_def)
  next
    case False
    let ?m = "merge_sorted_vecs ys batch"
    have len: "length ?m = length ys + length batch" using arg_cong [OF merge_mset, of size ys batch] by simp
    then have "unat start + length ls + length ?m \<le> m" using room(1) by simp
    moreover have "\<forall>x \<in> set ?m. fits_entry C x" using codec(2) by (simp add: merge_set)
    ultimately have "\<exists>em' io' ls'. emit_packed C ops ?m em io = (Ok em', io') \<and> sound_io ops invar io' \<and>
      emitted C (read_page ops (fst io')) start em' (ls @ ls') \<and> tree_entries ls' = ?m \<and> length ls' \<le> length ?m \<and>
      keeps (\<lambda>q. unat q < unat start) (read_page ops (fst io)) (read_page ops (fst io'))"
      by (intro emit_packed_correct [OF em io start _ room(2,3) codec(1)])
    with False show ?thesis by (simp add: read_leaf [OF leaf(1)] leaf(2) len)
  qed
qed

lemma rebuild_loop_correct:
  assumes "emitted C (read_page ops (fst io)) start em ls" "sound_io ops invar io" "start \<noteq> 0"
    "unat start + length ls + length (concat yss) + length pending \<le> m" "m \<le> 2 ^ 64" "writable ops invar m" "key_codec_ok C"
    "\<forall>x \<in> set (concat yss) \<union> set pending. fits_entry C x" "list_all2 (old_leaf C) leaves yss"
    "sorted (map fst (concat yss))" "sorted (map fst pending)" "leaves \<noteq> []"
  shows "\<exists>em' io' ls'. rebuild_loop C ops leaves pending em io = (Ok em', io') \<and> sound_io ops invar io' \<and>
    emitted C (read_page ops (fst io')) start em' (ls @ ls') \<and> mset (tree_entries ls') = mset (concat yss) + mset pending \<and>
    sorted (map fst (tree_entries ls')) \<and> length ls' \<le> length (concat yss) + length pending \<and>
    keeps (\<lambda>q. unat q < unat start) (read_page ops (fst io)) (read_page ops (fst io'))"
  using assms
proof (induction leaves arbitrary: yss pending em io ls)
  case (Cons l leaves)
  obtain page fk where l: "l = (page, fk)" by force
  from Cons.prems(9) obtain ys yss' where yss: "yss = ys # yss'" "old_leaf C (page, fk) ys" "list_all2 (old_leaf C) leaves yss'"
    by (auto simp: list_all2_Cons1 l)
  define below where "below = (\<lambda>x :: 'a \<times> fact_ref. case leaves of [] \<Rightarrow> True | (_, u) # _ \<Rightarrow> fst x < u)"
  define batch rest where "batch = takeWhile below pending" and "rest = dropWhile below pending"
  have pend: "pending = batch @ rest" by (simp add: batch_def rest_def)
  have sizes: "length (concat yss) = length ys + length (concat yss')" "length pending = length batch + length rest"
    using arg_cong [OF pend, of length] by (simp_all add: yss)
  have "unat start + length ls + length ys + length batch \<le> m" using Cons.prems(4) sizes by simp
  moreover have "\<forall>x \<in> set ys \<union> set batch. fits_entry C x" using Cons.prems(8) by (auto simp: yss pend)
  ultimately obtain em1 io1 ls1 where s: "(if batch = [] then
           (case enc_key C fk of Inl e \<Rightarrow> (Err e, io) | Inr k \<Rightarrow> em_push ops page k em io)
         else
           (case read_leaf_entries (dec_entry C) page of
              Inl e \<Rightarrow> (Err e, io) | Inr old \<Rightarrow> emit_packed C ops (merge_sorted_vecs old batch) em io)) = (Ok em1, io1)"
    "sound_io ops invar io1" "emitted C (read_page ops (fst io1)) start em1 (ls @ ls1)"
    "tree_entries ls1 = merge_sorted_vecs ys batch" "length ls1 \<le> length ys + length batch"
    "keeps (\<lambda>q. unat q < unat start) (read_page ops (fst io)) (read_page ops (fst io1))"
    using rebuild_step_correct [OF Cons.prems(1-3) _ Cons.prems(5-7) _ yss(2)] by blast
  have step: "rebuild_loop C ops (l # leaves) pending em io = rebuild_loop C ops leaves rest em1 io1"
    unfolding l rebuild_loop.simps Let_def below_def [symmetric] batch_def [symmetric] rest_def [symmetric] s(1) and_io_simps ..
  have sorted1: "sorted (map fst (merge_sorted_vecs ys batch))"
    using Cons.prems(10,11) by (intro merge_sorted) (auto simp: yss pend sorted_append)
  show ?case
  proof (cases "leaves = []")
    case True
    then have last: "batch = pending" "rest = []" "yss' = []" using yss(3) by (auto simp: batch_def rest_def below_def)
    have "rebuild_loop C ops (l # leaves) pending em io = (Ok em1, io1)"
      using step last(2) True by simp
    moreover have "mset (tree_entries ls1) = mset (concat yss) + mset pending"
      by (simp add: s(4) merge_mset yss(1) last(1,3))
    moreover have "sorted (map fst (tree_entries ls1))" using sorted1 by (simp only: s(4))
    moreover have "length ls1 \<le> length (concat yss) + length pending" using s(5) sizes by linarith
    ultimately show ?thesis using s(2,3,6) by blast
  next
    case False
    then obtain page2 u leaves2 where lv: "leaves = (page2, u) # leaves2" by (cases leaves) auto
    with yss(3) obtain ys2 yss2 where y2: "yss' = ys2 # yss2" "ys2 \<noteq> []" "u = fst (hd ys2)" by (auto simp: list_all2_Cons1 old_leaf_def)
    have prems: "unat start + length (ls @ ls1) + length (concat yss') + length rest \<le> m"
      "\<forall>x \<in> set (concat yss') \<union> set rest. fits_entry C x" "sorted (map fst (concat yss'))" "sorted (map fst rest)"
      using Cons.prems(4,8,10,11) sizes s(5) by (auto simp: yss pend sorted_append)
    from Cons.IH [OF s(3,2) Cons.prems(3) prems(1) Cons.prems(5-7) prems(2) yss(3) prems(3,4) False] obtain em' io' ls2 where
      r: "rebuild_loop C ops leaves rest em1 io1 = (Ok em', io')" "sound_io ops invar io'"
      "emitted C (read_page ops (fst io')) start em' ((ls @ ls1) @ ls2)" "mset (tree_entries ls2) = mset (concat yss') + mset rest"
      "sorted (map fst (tree_entries ls2))" "length ls2 \<le> length (concat yss') + length rest"
      "keeps (\<lambda>q. unat q < unat start) (read_page ops (fst io1)) (read_page ops (fst io'))" by blast
    have hd2: "hd ys2 \<in> set (concat yss')" using y2 by simp
    have low: "fst x \<le> u" if "x \<in> set (merge_sorted_vecs ys batch)" for x
    proof -
      have "fst x < u" if "x \<in> set batch" using that by (auto simp: batch_def below_def lv dest: set_takeWhileD)
      moreover have "fst x \<le> u" if "x \<in> set ys" using that Cons.prems(10) hd2 by (auto simp: yss sorted_append y2(3))
      ultimately show ?thesis using that by (auto simp: merge_set)
    qed
    have high: "u \<le> fst x" if "x \<in> set (tree_entries ls2)" for x
    proof -
      have "u \<le> fst y" if "y \<in> set (concat yss')" for y
        using that prems(3) y2 by (cases ys2) auto
      moreover have "u \<le> fst y" if "y \<in> set rest" for y
      proof -
        from that have "rest \<noteq> []" by auto
        then have "u \<le> fst (hd rest)" using hd_dropWhile [of below pending] by (simp add: rest_def below_def lv not_less)
        moreover have "fst (hd rest) \<le> fst y" using that prems(4) by (cases rest) auto
        ultimately show ?thesis by simp
      qed
      moreover have "x \<in> set (concat yss') \<union> set rest" using that arg_cong [OF r(4), of set_mset] by simp
      ultimately show ?thesis by blast
    qed
    have "sorted (map fst (tree_entries (ls1 @ ls2)))"
      using sorted1 r(5) low high by (fastforce simp: tree_entries_append s(4) sorted_append)
    moreover have "mset (tree_entries (ls1 @ ls2)) = mset (concat yss) + mset pending"
      by (simp add: tree_entries_append s(4) merge_mset r(4) yss pend)
    moreover have "keeps (\<lambda>q. unat q < unat start) (read_page ops (fst io)) (read_page ops (fst io'))"
      by (rule keeps_trans [OF s(6) r(7)]) simp
    ultimately show ?thesis using r step s(5) sizes
      by (intro exI [of _ em'] exI [of _ io'] exI [of _ "ls1 @ ls2"]) simp
  qed
qed simp

end

section \<open>The walk over the old leaves\<close>

lemma leaf_chain_length:
  "leaf_chain rd n ((p, es) # r1) \<Longrightarrow> leaf_chain rd n ((p, es') # r2) \<Longrightarrow> length r1 = length r2"
proof (induction r1 arbitrary: p es es' r2)
  case Nil
  then have "(case r2 of [] \<Rightarrow> 0 | (q, _) # _ \<Rightarrow> q) = 0" by (auto dest!: leaf_link)
  with Nil show ?case by (cases r2) auto
next
  case (Cons x r1)
  obtain q ds where x: "x = (q, ds)" by force
  from Cons.prems have link: "(case r2 of [] \<Rightarrow> 0 | (q, _) # _ \<Rightarrow> q) = q" "q \<noteq> 0" by (auto simp: x dest!: leaf_link)
  then obtain ds' r2' where r2: "r2 = (q, ds') # r2'" by (cases r2) auto
  with Cons.IH [of q ds ds' r2'] Cons.prems show ?case by (simp add: x)
qed

lemma leaf_chain_distinct: "leaf_chain rd n bs \<Longrightarrow> distinct (map fst bs)"
proof (induction bs)
  case (Cons b bs)
  obtain p es where b: "b = (p, es)" by force
  have "p \<notin> fst ` set bs"
  proof
    assume "p \<in> fst ` set bs"
    then obtain es' a c where bs: "bs = a @ (p, es') # c" by (metis imageE split_list surjective_pairing)
    have "leaf_chain rd n (((p, es) # a) @ (p, es') # c)" using Cons.prems by (simp only: b bs append_Cons)
    then have "leaf_chain rd n ((p, es') # c)" by (rule leaf_chain_suffix)
    from leaf_chain_length [OF Cons.prems [unfolded b] this] show False by (simp add: bs)
  qed
  with Cons show ?case by (simp add: b)
qed simp

lemma leaf_chain_bound:
  assumes "leaf_chain rd n bs"
  shows "length bs \<le> n - 1"
proof -
  have "\<forall>b \<in> set bs. fst b \<noteq> 0 \<and> unat (fst b) < n" using assms
  proof (induction bs)
    case (Cons b bs)
    then show ?case by (cases b) simp
  qed simp
  then have "unat ` set (map fst bs) \<subseteq> {1..<n}" by (auto simp: Suc_le_eq unat_gt_0)
  then have "card (unat ` set (map fst bs)) \<le> n - 1" using card_mono [of "{1..<n}"] by fastforce
  moreover have "inj_on unat (set (map fst bs))" by (intro inj_onI) (simp add: word_unat_eq_iff)
  ultimately show ?thesis
    using distinct_card [OF leaf_chain_distinct [OF assms]] by (simp add: card_image)
qed

definition old_pages :: "'k key_codec \<Rightarrow> 'k tree_leaf list \<Rightarrow> bytes list \<Rightarrow> bool" where
  "old_pages C ls ps \<longleftrightarrow> list_all2 (\<lambda>(p, es, ys) page. \<exists>link. leaf_at page es link) ls ps"

context backend
begin

lemma find_leftmost_first:
  assumes "subtree dec rd n p ls" "sound_io ops invar io" "rd = read_page ops (fst io)"
  shows "\<exists>c. find_leaf leftmost_step ops p io = Some (Ok (fst (hd ls)), (fst io, c)) \<and> sound_io ops invar (fst io, c)"
  using assms
proof (induction arbitrary: io rule: subtree.induct)
  case (leaf p page es link k)
  from load_page_sound [OF leaf.prems(1) leaf.hyps(1)] obtain c where
    c: "load_page ops p io = (read_page ops (fst io) p, (fst io, c))" "sound_io ops invar (fst io, c)" .
  with leaf show ?case by (auto simp: find_leaf.simps [of _ _ p] key_step_leaf)
next
  case (node p page cs seps ks Ls)
  from load_page_sound [OF node.prems(1) node.hyps(1)] obtain c where
    c: "load_page ops p io = (read_page ops (fst io) p, (fst io, c))" "sound_io ops invar (fst io, c)" .
  have ne: "cs \<noteq> []" "0 < length cs" using node.hyps(4) by (auto simp: internal_at_def)
  have step: "find_leaf leftmost_step ops p io = find_leaf leftmost_step ops (cs ! 0) (fst io, c)"
    by (subst find_leaf.simps) (use c(1) node.hyps(3) node.prems(2) leftmost_internal [OF node.hyps(4)] ne in \<open>simp add: hd_conv_nth\<close>)
  have L0: "Ls ! 0 \<noteq> []" using node.IH ne(2) subtree_nonempty by blast
  have "Ls = Ls ! 0 # tl Ls" using ne(2) node.hyps(6) by (cases Ls) auto
  then have "concat Ls = Ls ! 0 @ concat (tl Ls)" by (metis concat.simps(2))
  then have "hd (concat Ls) = hd (Ls ! 0)" using L0 by simp
  moreover have "\<exists>c'. find_leaf leftmost_step ops (cs ! 0) (fst io, c) = Some (Ok (fst (hd (Ls ! 0))), (fst (fst io, c), c')) \<and>
      sound_io ops invar (fst (fst io, c), c')" using node.IH ne(2) c(2) node.prems(2) by auto
  ultimately show ?case using step by auto
qed

lemma collect_loop_chain:
  assumes "leaf_chain (read_page ops (fst io)) n (chain_of ls)" "ls \<noteq> []" "sound_io ops invar io" "length acc + length ls \<le> m"
  shows "\<exists>ps c. collect_loop ops m (fst (hd ls)) acc io = (Ok (acc @ ps), (fst io, c)) \<and> sound_io ops invar (fst io, c) \<and> old_pages C ls ps"
  using assms
proof (induction ls arbitrary: acc io)
  case (Cons l ls)
  obtain p es ys where l: "l = (p, es, ys)" by (metis prod.exhaust)
  from Cons.prems(1) obtain page where page: "p \<noteq> 0" "read_page ops (fst io) p = Ok page"
    "leaf_at page es (case ls of [] \<Rightarrow> 0 | (q, _) # _ \<Rightarrow> q)" "leaf_chain (read_page ops (fst io)) n (chain_of ls)"
    by (auto simp: l chain_link [symmetric]) (auto simp: chain_of_def)
  from load_page_sound [OF Cons.prems(3) page(1)] obtain c where
    c: "load_page ops p io = (read_page ops (fst io) p, (fst io, c))" "sound_io ops invar (fst io, c)" .
  note leaf = leaf_type [OF page(3)] validate_leaf [OF page(3)] leaf_link [OF page(3)]
  have room: "\<not> m \<le> length acc" using Cons.prems(4) by simp
  show ?case
  proof (cases ls)
    case Nil
    with c page leaf room show ?thesis
      by (auto simp: collect_loop.simps [of _ _ p] l old_pages_def)
  next
    case second: (Cons l' ls')
    obtain q w where l': "l' = (q, w)" by (cases l')
    have "q \<noteq> 0" using page(4) by (cases w) (simp add: second l' chain_of_def)
    then have step: "collect_loop ops m p acc io = collect_loop ops m q (acc @ [page]) (fst io, c)"
      using c page leaf room by (simp add: collect_loop.simps [of _ _ p] second l')
    have "\<exists>ps c'. collect_loop ops m (fst (hd ls)) (acc @ [page]) (fst io, c) = (Ok ((acc @ [page]) @ ps), (fst (fst io, c), c')) \<and>
        sound_io ops invar (fst (fst io, c), c') \<and> old_pages C ls ps"
      using Cons.prems(4) page(4) c(2) second by (intro Cons.IH) simp_all
    then obtain ps c' where "collect_loop ops m q (acc @ [page]) (fst io, c) = (Ok (acc @ page # ps), (fst io, c'))"
      "sound_io ops invar (fst io, c')" "old_pages C ls ps" by (auto simp: second l')
    with step page(3) show ?thesis by (auto simp: l old_pages_def intro!: exI [of _ "page # ps"])
  qed
qed simp

lemma collect_leaf_pages_tree:
  assumes "tree_at C (read_page ops (fst io)) n root ls" "sound_io ops invar io"
    "backend_page_count ops (fst io) = Ok pc" "n \<le> unat pc + 1"
  obtains ps c where "collect_leaf_pages ops root io = Some (Ok ps, (fst io, c))" "sound_io ops invar (fst io, c)" "old_pages C ls ps"
proof -
  have chain: "leaf_chain (read_page ops (fst io)) n (chain_of ls)" and ls: "ls \<noteq> []"
    and sub: "subtree (dec_key C) (read_page ops (fst io)) n root (map (\<lambda>(p, es, ys). (p, fst (hd ys))) ls)"
    using assms(1) by (auto simp: tree_at_def chain_of_def)
  from find_leftmost_first [OF sub assms(2) refl] obtain c where
    c: "find_leaf leftmost_step ops root io = Some (Ok (fst (hd ls)), (fst io, c))" "sound_io ops invar (fst io, c)"
    using ls by (auto simp: hd_map split_beta)
  have "length ls \<le> unat pc" using leaf_chain_bound [OF chain] assms(4) by (simp add: chain_of_def)
  with collect_loop_chain [of "(fst io, c)" n ls "[]" "unat pc" C] chain ls c(2) obtain ps c' where
    "collect_loop ops (unat pc) (fst (hd ls)) [] (fst io, c) = (Ok ps, (fst io, c'))" "sound_io ops invar (fst io, c')" "old_pages C ls ps" by auto
  with that c(1) assms(3) show thesis by (simp add: collect_leaf_pages_def find_leftmost_leaf_def)
qed

end

section \<open>The rebuilt tree\<close>

lemma first_keys:
  assumes "old_pages C ls ps" "\<forall>(p, es, ys) \<in> set ls. collect_map (dec_entry C) es = Ok ys \<and> ys \<noteq> []"
  shows "\<exists>found. collect_map (\<lambda>page. and_then (leaf_first_key (dec_entry C) page) (\<lambda>k. Ok (map_option (Pair page) k))) ps = Ok found \<and>
    list_all2 (old_leaf C) (List.map_filter id found) (map (\<lambda>(p, es, ys). ys) ls)"
  using assms unfolding old_pages_def
proof (induction ls arbitrary: ps)
  case (Cons l ls)
  obtain p es ys where l: "l = (p, es, ys)" by (metis prod.exhaust)
  from Cons.prems(1) obtain page ps' link where ps: "ps = page # ps'" "leaf_at page es link"
    "list_all2 (\<lambda>(p, es, ys) page. \<exists>link. leaf_at page es link) ls ps'" by (auto simp: l list_all2_Cons1)
  from Cons.prems(2) have ys: "collect_map (dec_entry C) es = Ok ys" "ys \<noteq> []" by (auto simp: l)
  then obtain e es' y ys' where es: "es = e # es'" "ys = y # ys'" "dec_entry C e = Ok y"
    by (cases es) (auto simp: and_then_eq_Inr)
  then have "leaf_first_key (dec_entry C) page = Ok (Some (fst y))" using read_first_key [OF ps(2), of "dec_entry C"] by (simp add: split_beta)
  moreover have "\<forall>(p, es, ys) \<in> set ls. collect_map (dec_entry C) es = Ok ys \<and> ys \<noteq> []" using Cons.prems(2) by simp
  then obtain found where
    "collect_map (\<lambda>page. and_then (leaf_first_key (dec_entry C) page) (\<lambda>k. Ok (map_option (Pair page) k))) ps' = Ok found"
    "list_all2 (old_leaf C) (List.map_filter id found) (map (\<lambda>(p, es, ys). ys) ls)" using Cons.IH [OF ps(3)] by blast
  moreover have "old_leaf C (page, fst y) ys" using ps(2) ys es(2) by (auto simp: old_leaf_def)
  ultimately show ?case by (simp add: ps(1) l List.map_filter_simps id_def)
qed (simp add: List.map_filter_simps)

lemma keyed_sort:
  assumes "mset ys = mset xs" "sorted (map fst ys)" "distinct (map fst xs)"
  shows "ys = sort_key fst xs"
proof (rule sym, rule properties_for_sort_key)
  have d: "distinct (map fst ys)" 
    using assms(3) mset_eq_imp_distinct_iff [of "map fst ys" "map fst xs"] assms(1) by simp
  have one: "filter (\<lambda>x. fst k = fst x) zs = [k]" if "distinct (map fst zs)" "k \<in> set zs" for k :: "'a \<times> 'b" and zs
    using that by (induction zs) (auto simp: filter_empty_conv image_iff)
  show "filter (\<lambda>x. fst k = fst x) ys = filter (\<lambda>x. fst k = fst x) xs" if "k \<in> set ys" for k
    using one [OF d that] one [OF assms(3), of k] that mset_eq_setD [OF assms(1)] by simp
qed (use assms in simp_all)

context backend
begin

lemma rebuild_leaves_correct:
  assumes leaves: "list_all2 (old_leaf C) leaves yss" "leaves \<noteq> []" and start: "start \<noteq> 0" and io: "sound_io ops invar io"
    and room: "unat start + 3 * (length (concat yss) + length pending) < 2 ^ 64"
      "writable ops invar (unat start + 3 * (length (concat yss) + length pending))"
    and codec: "key_codec_ok C" "\<forall>x \<in> set (concat yss) \<union> set pending. fits_entry C x"
    and sorted: "sorted (map fst (concat yss))" "sorted (map fst pending)"
  obtains root np io' ls where "and_io (rebuild_loop C ops leaves pending \<lparr>em_next = start, held = None, em_infos = []\<rparr> io) (\<lambda>em io.
      and_io (em_finish ops em io) (\<lambda>(leaf_infos, next_page) io. build_internal_levels ops leaf_infos next_page io)) = (Ok (root, np), io')"
    "sound_io ops invar io'" "unat start < unat np \<and> unat np \<le> unat start + 3 * (length (concat yss) + length pending)"
    "tree_at C (read_page ops (fst io')) (unat np) root ls"
    "mset (tree_entries ls) = mset (concat yss) + mset pending" "sorted (map fst (tree_entries ls))"
    "keeps (\<lambda>q. unat q < unat start) (read_page ops (fst io)) (read_page ops (fst io'))"
proof -
  let ?em0 = "\<lparr>em_next = start, held = None, em_infos = []\<rparr>" and ?size = "length (concat yss) + length pending"
  let ?m = "unat start + 3 * ?size"
  have em0: "emitted C (read_page ops (fst io)) start ?em0 []" by (simp add: emitted_def)
  have "unat start + length ([] :: 'a tree_leaf list) + length (concat yss) + length pending \<le> ?m" "?m \<le> 2 ^ 64" using room(1) by simp_all
  from rebuild_loop_correct [OF em0 io start this room(2) codec leaves(1) sorted leaves(2)] obtain em io1 ls where
    r: "rebuild_loop C ops leaves pending ?em0 io = (Ok em, io1)" "sound_io ops invar io1"
    "emitted C (read_page ops (fst io1)) start em ls" "mset (tree_entries ls) = mset (concat yss) + mset pending"
    "sorted (map fst (tree_entries ls))" "length ls \<le> ?size"
    "keeps (\<lambda>q. unat q < unat start) (read_page ops (fst io)) (read_page ops (fst io1))" by auto
  have "unat start + length ls \<le> ?m" using r(6) by simp
  from release_held_correct [OF r(3,2) start this \<open>?m \<le> 2 ^ 64\<close> room(2), of 0] obtain io2 where
    f: "release_held ops 0 em io1 = (Ok (em\<lparr>held := None\<rparr>), io2)" "sound_io ops invar io2"
    "leaf_chain (read_page ops (fst io2)) (unat start + length ls) (chain_of ls)"
    "keeps (\<lambda>q. unat q < unat start) (read_page ops (fst io1)) (read_page ops (fst io2))" by (auto simp: linked_chain)
  have em: "em_next em = start + of_nat (length ls)" "list_all2 (info_ok C) (em_infos em) ls" using r(3) by (simp_all add: emitted_def)
  have np: "unat (em_next em) = unat start + length ls" unfolding em(1) using r(6) room(1) by (intro unat_add_small) simp
  then have np0: "em_next em \<noteq> 0" using start by (metis add_is_0 unat_eq_zero)
  obtain l yss' where "yss = l # yss'" "l \<noteq> []" using leaves by (cases leaves) (auto simp: list_all2_Cons1 old_leaf_def)
  then have "ls \<noteq> []" using r(4) by (auto simp: tree_entries_def)
  moreover have "unat start + length ls \<le> unat (em_next em)" using np by simp
  moreover have "unat (em_next em) + 2 * length ls < 2 ^ 64" using np r(6) room(1) by simp
  moreover have "writable ops invar (unat (em_next em) + 2 * length ls)" using room(2) np r(6) by (auto simp: writable_def)
  ultimately obtain root np' io' where
    b: "build_internal_levels ops (em_infos em) (em_next em) io2 = (Ok (root, np'), io')" "sound_io ops invar io'"
    "unat (em_next em) \<le> unat np' \<and> unat np' \<le> unat (em_next em) + 2 * length ls" "tree_at C (read_page ops (fst io')) (unat np') root ls"
    "keeps (\<lambda>q. unat q < unat (em_next em)) (read_page ops (fst io2)) (read_page ops (fst io'))"
    using tree_over_leaves [OF f(3) _ em(2) [unfolded info_ok_def] _ np0 _ _ f(2)] by blast
  have "keeps (\<lambda>q. unat q < unat start) (read_page ops (fst io)) (read_page ops (fst io'))"
    using keeps_trans [OF keeps_trans [OF r(7) f(4)] b(5)] np by auto
  moreover have "unat start < unat np'" using b(3) \<open>ls \<noteq> []\<close> unfolding np length_greater_0_conv [symmetric] by linarith
  ultimately show thesis using that [OF _ b(2) _ b(4) r(4,5)] b(1,3) r(1,6) f(1) np by (simp add: em_finish_def)
qed

lemma fits_btree_entries:
  assumes "key_codec_ok C" "\<forall>x \<in> set xs. fits_entry C x"
  obtains bks where "btree_entries C xs = Ok bks" "\<forall>x \<in> set bks. encodes C x" "map (entry_of C) bks = xs"
proof -
  have "btree_entries C xs = Ok (map (\<lambda>x. (eb C x, kb C x)) xs)"
    unfolding btree_entries_def using assms(2) by (intro collect_map_Inr) (auto dest!: fits_entryD)
  moreover have "\<forall>(e, k) \<in> set (map (\<lambda>x. (eb C x, kb C x)) xs). length e \<le> MAX_ENTRY_BYTES \<and> length k \<le> MAX_KEY_BYTES"
    using assms(2) by (auto dest!: fits_entryD)
  ultimately show thesis using btree_entries_encodes [OF assms(1)] that by blast
qed

lemma rebuild_tree_correct:
  assumes old: "old_pages C ls ps" "\<forall>(p, es, ys) \<in> set ls. collect_map (dec_entry C) es = Ok ys \<and> (ys \<noteq> [] \<or> length ls = 1)" "ls \<noteq> []"
    and start: "start \<noteq> 0" and io: "sound_io ops invar io"
    and room: "unat start + 3 * (length (tree_entries ls) + length pending) + 1 < 2 ^ 64"
      "writable ops invar (unat start + 3 * (length (tree_entries ls) + length pending) + 1)"
    and codec: "key_codec_ok C" "\<forall>x \<in> set (tree_entries ls) \<union> set pending. fits_entry C x"
    and keys: "sorted (map fst (tree_entries ls))" "sorted (map fst pending)"
  obtains root np io' ls' where "rebuild_btree_incremental C ops ps pending start io = (Ok (root, np), io')" "sound_io ops invar io'"
    "unat start < unat np \<and> unat np \<le> unat start + 3 * (length (tree_entries ls) + length pending) + 1"
    "tree_at C (read_page ops (fst io')) (unat np) root ls'" "mset (tree_entries ls') = mset (tree_entries ls) + mset pending"
    "sorted (map fst (tree_entries ls'))" "keeps (\<lambda>q. unat q < unat start) (read_page ops (fst io)) (read_page ops (fst io'))"
proof (cases "\<forall>(p, es, ys) \<in> set ls. ys \<noteq> []")
  case True
  with old(2) have "\<forall>(p, es, ys) \<in> set ls. collect_map (dec_entry C) es = Ok ys \<and> ys \<noteq> []" by auto
  from first_keys [OF old(1) this] obtain found where
    found: "collect_map (\<lambda>page. and_then (leaf_first_key (dec_entry C) page) (\<lambda>k. Ok (map_option (Pair page) k))) ps = Ok found"
    "list_all2 (old_leaf C) (List.map_filter id found) (map (\<lambda>(p, es, ys). ys) ls)" by blast
  let ?yss = "map (\<lambda>(p, es, ys). ys) ls"
  have te: "concat ?yss = tree_entries ls" by (simp add: tree_entries_def)
  have ne: "List.map_filter id found \<noteq> []" using list_all2_lengthD [OF found(2)] old(3) by auto
  have room': "unat start + 3 * (length (concat ?yss) + length pending) < 2 ^ 64"
    "writable ops invar (unat start + 3 * (length (concat ?yss) + length pending))"
    unfolding te using room by (auto simp: writable_def)
  note all = codec(2) [folded te] keys(1) [folded te]
  from rebuild_leaves_correct [OF found(2) ne start io room' codec(1) all keys(2)] obtain root np io' ls' where
    r: "and_io (rebuild_loop C ops (List.map_filter id found) pending \<lparr>em_next = start, held = None, em_infos = []\<rparr> io) (\<lambda>em io.
      and_io (em_finish ops em io) (\<lambda>(leaf_infos, next_page) io. build_internal_levels ops leaf_infos next_page io)) = (Ok (root, np), io')"
    "sound_io ops invar io'" "unat start < unat np \<and> unat np \<le> unat start + 3 * (length (concat ?yss) + length pending)"
    "tree_at C (read_page ops (fst io')) (unat np) root ls'"
    "mset (tree_entries ls') = mset (concat ?yss) + mset pending" "sorted (map fst (tree_entries ls'))"
    "keeps (\<lambda>q. unat q < unat start) (read_page ops (fst io)) (read_page ops (fst io'))" .
  have "rebuild_btree_incremental C ops ps pending start io = (Ok (root, np), io')"
    using r(1) ne by (simp add: rebuild_btree_incremental_def found(1))
  with that r(2-7) show thesis by (simp add: te)
next
  case False
  with old(2) obtain p where ls: "ls = [(p, [], [])]"
    by (cases ls; cases "tl ls") (auto split: prod.splits dest!: collect_map_eq_InrD)
  then obtain page link where ps: "ps = [page]" "leaf_at page [] link" using old(1) by (auto simp: old_pages_def list_all2_Cons1)
  have fk: "leaf_first_key (dec_entry C) page = Ok None" using read_first_key [OF ps(2), of "dec_entry C"] by simp
  from fits_btree_entries [OF codec(1), of pending] codec(2) obtain bks where
    b: "btree_entries C pending = Ok bks" "\<forall>x \<in> set bks. encodes C x" "map (entry_of C) bks = pending" by blast
  have len: "length bks = length pending" using arg_cong [OF b(3), of length] by simp
  have room': "unat start + 3 * length bks + 1 < 2 ^ 64" "writable ops invar (unat start + 3 * length bks + 1)"
    using room unfolding len by (simp_all add: ls tree_entries_def)
  from build_btree_correct [OF b(2) start room' io] obtain root np io' ls' where
    r: "build_btree ops bks start io = (Ok (root, np), io')" "sound_io ops invar io'" "unat start < unat np \<and> unat np \<le> unat start + 3 * length bks + 1"
    "tree_at C (read_page ops (fst io')) (unat np) root ls'" "tree_entries ls' = map (entry_of C) bks"
    "keeps (\<lambda>q. unat q < unat start) (read_page ops (fst io)) (read_page ops (fst io'))" .
  have "rebuild_btree_incremental C ops ps pending start io = (Ok (root, np), io')"
    using r(1) b(1) by (simp add: rebuild_btree_incremental_def ps(1) fk List.map_filter_simps)
  with that r(2-6) b(3) keys(2) show thesis by (simp add: ls tree_entries_def len)
qed

end

end
