(* ===== verification/BTree_Contents.thy ===== *)
theory BTree_Contents
  imports BTree_Merge
begin

text \<open>
  What the B+tree of format 6 promises to its users: a built or rebuilt tree holds exactly its
  entries, and its range scans find them.
\<close>

section \<open>Contents of a tree\<close>

text \<open>
  The tree with root \<open>root\<close> on the pages below \<open>n\<close> holds the entries \<open>xs\<close>, from left to right.
\<close>

definition index_tree :: "'k key_codec \<Rightarrow> 'b backend_ops \<Rightarrow> nat \<Rightarrow> u64 \<Rightarrow> ('k \<times> fact_ref) list \<Rightarrow> 'b \<Rightarrow> bool" where
  "index_tree C ops n root xs b \<longleftrightarrow> (\<exists>ls. tree_at C (read_page ops b) n root ls \<and> tree_entries ls = xs)"

definition scans :: "'k::linorder key_codec \<Rightarrow> 'b backend_ops \<Rightarrow> u64 \<Rightarrow> ('k \<times> fact_ref) list \<Rightarrow> 'b io \<Rightarrow> bool" where
  "scans C ops root xs io \<longleftrightarrow> (\<forall>a b. \<exists>c. range_scan C ops root a b io =
     Some (Ok (map snd (filter (\<lambda>x. in_range a b (fst x)) xs)), (fst io, c)))"

lemma index_tree_keeps:
  assumes "index_tree C ops n root xs b" "keeps (\<lambda>q. unat q < m) (read_page ops b) (read_page ops b')" "n \<le> m"
  shows "index_tree C ops n root xs b'"
proof -
  from assms(1) obtain ls where ls: "tree_at C (read_page ops b) n root ls" "tree_entries ls = xs" by (auto simp: index_tree_def)
  have k: "keeps (\<lambda>q. unat q < n) (read_page ops b) (read_page ops b')" by (rule keeps_weaken [OF assms(2)]) (use assms(3) in simp)
  have "tree_at C (read_page ops b') n root ls"
    using ls(1) unfolding tree_at_def by (blast intro: subtree_keeps [OF _ k order_refl] leaf_chain_keeps [OF _ k order_refl])
  with ls(2) show ?thesis by (auto simp: index_tree_def)
qed

context backend
begin

lemma index_tree_scans:
  "index_tree C ops n root xs (fst io) \<Longrightarrow> sound_io ops invar io \<Longrightarrow> sorted_wrt (<) (map fst xs) \<Longrightarrow> scans C ops root xs io"
  unfolding index_tree_def scans_def using range_scan_tree by blast

lemma build_index_tree:
  assumes "sound_io ops invar io" "key_codec_ok C" "\<forall>x \<in> set xs. fits_entry C x" "start \<noteq> 0"
    "unat start + 3 * length xs + 1 < 2 ^ 64" "writable ops invar (unat start + 3 * length xs + 1)"
  shows "\<exists>bks root np io'. btree_entries C xs = Ok bks \<and> build_btree ops bks start io = (Ok (root, np), io') \<and>
    sound_io ops invar io' \<and> index_tree C ops (unat np) root xs (fst io') \<and> unat start < unat np \<and> unat np \<le> unat start + 3 * length xs + 1 \<and>
    keeps (\<lambda>q. unat q < unat start) (read_page ops (fst io)) (read_page ops (fst io'))"
proof -
  from fits_btree_entries [OF assms(2,3)] obtain bks where
    b: "btree_entries C xs = Ok bks" "\<forall>x \<in> set bks. encodes C x" "map (entry_of C) bks = xs" .
  have len: "length bks = length xs" using arg_cong [OF b(3), of length] by simp
  from build_btree_correct [OF b(2) assms(4) _ _ assms(1)] assms(5,6) obtain root np io' ls where
    "build_btree ops bks start io = (Ok (root, np), io')" "sound_io ops invar io'" "unat start < unat np \<and> unat np \<le> unat start + 3 * length xs + 1"
    "tree_at C (read_page ops (fst io')) (unat np) root ls" "tree_entries ls = map (entry_of C) bks"
    "keeps (\<lambda>q. unat q < unat start) (read_page ops (fst io)) (read_page ops (fst io'))" unfolding len by blast
  with b show ?thesis unfolding index_tree_def by blast
qed

lemma rebuild_index_tree:
  assumes old: "index_tree C ops n root xs (fst io)" "backend_page_count ops (fst io) = Ok pc" "n \<le> unat pc + 1"
    and io: "sound_io ops invar io" and codec: "key_codec_ok C" "\<forall>x \<in> set xs \<union> set pending. fits_entry C x"
    and keys: "sorted (map fst xs)" "sorted (map fst pending)" "distinct (map fst (xs @ pending))"
  shows "\<exists>ps c. collect_leaf_pages ops root io = Some (Ok ps, (fst io, c)) \<and> sound_io ops invar (fst io, c) \<and>
    (\<forall>io1 start. sound_io ops invar io1 \<and> start \<noteq> 0 \<and> unat start + 3 * (length xs + length pending) + 1 < 2 ^ 64 \<and>
      writable ops invar (unat start + 3 * (length xs + length pending) + 1) \<longrightarrow>
      (\<exists>root' np io2. rebuild_btree_incremental C ops ps pending start io1 = (Ok (root', np), io2) \<and> sound_io ops invar io2 \<and>
        unat start < unat np \<and> unat np \<le> unat start + 3 * (length xs + length pending) + 1 \<and>
        index_tree C ops (unat np) root' (sort_key fst (xs @ pending)) (fst io2) \<and>
        scans C ops root' (sort_key fst (xs @ pending)) io2 \<and>
        keeps (\<lambda>q. unat q < unat start) (read_page ops (fst io1)) (read_page ops (fst io2))))"
proof -
  from old(1) obtain ls where ls: "tree_at C (read_page ops (fst io)) n root ls" "tree_entries ls = xs" by (auto simp: index_tree_def)
  from collect_leaf_pages_tree [OF ls(1) io old(2,3)] obtain ps c where
    c: "collect_leaf_pages ops root io = Some (Ok ps, (fst io, c))" "sound_io ops invar (fst io, c)" "old_pages C ls ps" .
  have shape: "\<forall>(p, es, ys) \<in> set ls. collect_map (dec_entry C) es = Ok ys \<and> (ys \<noteq> [] \<or> length ls = 1)" "ls \<noteq> []"
    using ls(1) by (simp_all add: tree_at_def)
  have "\<exists>root' np io2. rebuild_btree_incremental C ops ps pending start io1 = (Ok (root', np), io2) \<and> sound_io ops invar io2 \<and>
        unat start < unat np \<and> unat np \<le> unat start + 3 * (length xs + length pending) + 1 \<and>
        index_tree C ops (unat np) root' (sort_key fst (xs @ pending)) (fst io2) \<and> scans C ops root' (sort_key fst (xs @ pending)) io2 \<and>
        keeps (\<lambda>q. unat q < unat start) (read_page ops (fst io1)) (read_page ops (fst io2))"
    if io1: "sound_io ops invar io1" and start: "start \<noteq> 0" and room: "unat start + 3 * (length xs + length pending) + 1 < 2 ^ 64"
      "writable ops invar (unat start + 3 * (length xs + length pending) + 1)" for io1 and start :: u64
  proof -
    from rebuild_tree_correct [OF c(3) shape start io1 room [folded ls(2)] codec(1) codec(2) [folded ls(2)] keys(1) [folded ls(2)] keys(2)]
    obtain root' np io2 ls' where
      r: "rebuild_btree_incremental C ops ps pending start io1 = (Ok (root', np), io2)" "sound_io ops invar io2"
      "unat start < unat np \<and> unat np \<le> unat start + 3 * (length (tree_entries ls) + length pending) + 1"
      "tree_at C (read_page ops (fst io2)) (unat np) root' ls'" "mset (tree_entries ls') = mset (tree_entries ls) + mset pending"
      "sorted (map fst (tree_entries ls'))" "keeps (\<lambda>q. unat q < unat start) (read_page ops (fst io1)) (read_page ops (fst io2))" .
    have e: "tree_entries ls' = sort_key fst (xs @ pending)" using r(5,6) keys(3) ls(2) by (intro keyed_sort) simp_all
    have "mset (map fst (sort_key fst (xs @ pending))) = mset (map fst (xs @ pending))" by simp
    then have "distinct (map fst (sort_key fst (xs @ pending)))" using keys(3) mset_eq_imp_distinct_iff by blast
    then have "sorted_wrt (<) (map fst (sort_key fst (xs @ pending)))" by (simp add: strict_sorted_iff)
    moreover have "index_tree C ops (unat np) root' (sort_key fst (xs @ pending)) (fst io2)" using r(4) e by (auto simp: index_tree_def)
    ultimately show ?thesis using r(1,2,7) r(3) [unfolded ls(2)] index_tree_scans by blast
  qed
  with c(1,2) show ?thesis by blast
qed

end

text \<open>
  C11. Bulk build and range scan. On any backend that keeps the contract of \<open>backend\<close>, with a
  sound cache, building a tree over entries with strictly increasing keys that fit a page
  returns a root; the tree holds exactly these entries; every range scan of it ends and returns
  the references of the keys in the half-open range, in key order; and no page below the
  first page of the tree changes.
\<close>

theorem btree_build_then_scan:
  assumes "backend ops invar" "sound_io ops invar io" "key_codec_ok C" "\<forall>x \<in> set xs. fits_entry C x" "sorted_wrt (<) (map fst xs)"
    "start \<noteq> 0" "unat start + 3 * length xs + 1 < 2 ^ 64" "writable ops invar (unat start + 3 * length xs + 1)"
  shows "\<exists>bks root np io'. btree_entries C xs = Ok bks \<and> build_btree ops bks start io = (Ok (root, np), io') \<and>
    sound_io ops invar io' \<and> index_tree C ops (unat np) root xs (fst io') \<and>
    (\<forall>a b. \<exists>c. range_scan C ops root a b io' = Some (Ok (map snd (filter (\<lambda>x. in_range a b (fst x)) xs)), (fst io', c))) \<and>
    keeps (\<lambda>q. unat q < unat start) (read_page ops (fst io)) (read_page ops (fst io'))"
  using backend.build_index_tree [OF assms(1-4,6-8)] backend.index_tree_scans [OF assms(1) _ _ assms(5)]
  unfolding scans_def by blast

text \<open>
  C10. Incremental rebuild. Collecting the leaves of a tree ends and succeeds; from then on the
  file may change in any way, also under the old tree, and rebuilding from the collected leaves
  with pending entries, the old and the pending keys all distinct, returns a root whose tree
  holds the old and the new entries in key order, with exact scans of half-open ranges, and
  touches no page below its first.
\<close>

theorem btree_rebuild_exact:
  assumes "backend ops invar" "index_tree C ops n root xs (fst io)" "backend_page_count ops (fst io) = Ok pc" "n \<le> unat pc + 1"
    "sound_io ops invar io" "key_codec_ok C" "\<forall>x \<in> set xs \<union> set pending. fits_entry C x"
    "sorted (map fst xs)" "sorted (map fst pending)" "distinct (map fst (xs @ pending))"
  shows "\<exists>ps c. collect_leaf_pages ops root io = Some (Ok ps, (fst io, c)) \<and> sound_io ops invar (fst io, c) \<and>
    (\<forall>io1 start. sound_io ops invar io1 \<and> start \<noteq> 0 \<and> unat start + 3 * (length xs + length pending) + 1 < 2 ^ 64 \<and>
      writable ops invar (unat start + 3 * (length xs + length pending) + 1) \<longrightarrow>
      (\<exists>root' np io2. rebuild_btree_incremental C ops ps pending start io1 = (Ok (root', np), io2) \<and> sound_io ops invar io2 \<and>
        unat start < unat np \<and> unat np \<le> unat start + 3 * (length xs + length pending) + 1 \<and>
        index_tree C ops (unat np) root' (sort_key fst (xs @ pending)) (fst io2) \<and>
        (\<forall>a b. \<exists>c. range_scan C ops root' a b io2 =
          Some (Ok (map snd (filter (\<lambda>x. in_range a b (fst x)) (sort_key fst (xs @ pending)))), (fst io2, c))) \<and>
        keeps (\<lambda>q. unat q < unat start) (read_page ops (fst io1)) (read_page ops (fst io2))))"
  using backend.rebuild_index_tree [OF assms] unfolding scans_def .

section \<open>A small tree\<close>

definition byte_codec :: "u8 key_codec" where
  "byte_codec = \<lparr>enc_entry = \<lambda>(k, r). Ok (k # u64_to_le (page_id r) @ u32_to_le (slot_index r)),
     dec_entry = \<lambda>bs. case bs of
         k # rest \<Rightarrow> Ok (k, \<lparr>page_id = u64_from_le (take 8 rest), slot_index = u32_from_le (drop 8 rest)\<rparr>)
       | [] \<Rightarrow> Err Postcard,
     enc_key = \<lambda>k. Ok [k], dec_key = \<lambda>bs. case bs of [k] \<Rightarrow> Ok k | _ \<Rightarrow> Err Postcard\<rparr>"

lemma byte_codec_ok: "key_codec_ok byte_codec"
  by (auto simp: key_codec_ok_def byte_codec_def)

lemma byte_codec_fits: "fits_entry byte_codec x"
  by (cases x) (simp add: fits_entry_def byte_codec_def MAX_ENTRY_BYTES_def MAX_KEY_BYTES_def PAGE_SIZE_def)

lemma memory_writable: "writable memory_ops memory_inv n"
  by (simp add: writable_def memory_ops_def memory_write_page_def)

definition small_ref :: "u64 \<Rightarrow> fact_ref" where "small_ref p = \<lparr>page_id = p, slot_index = 0\<rparr>"

abbreviation "fresh_io \<equiv> (memory_backend_new, page_cache_new 4)"

lemma fresh_io_sound: "sound_io memory_ops memory_inv fresh_io"
  by (simp add: sound_io_def memory_backend_new_def memory_inv_def page_cache_new_def cache_inv_def coherent_def)

theorem btree_build_then_scan_witness:
  "\<exists>bks root np io' c. btree_entries byte_codec [(3, small_ref 7), (5, small_ref 8), (9, small_ref 6)] = Ok bks \<and>
    build_btree memory_ops bks 1 fresh_io = (Ok (root, np), io') \<and>
    range_scan byte_codec memory_ops root 4 (Some 9) io' = Some (Ok [small_ref 8], (fst io', c))"
proof -
  let ?xs = "[(3 :: u8, small_ref 7), (5, small_ref 8), (9, small_ref 6)]"
  have f: "filter (\<lambda>x. in_range 4 (Some 9) (fst x)) ?xs = [(5, small_ref 8)]" by (simp add: in_range_def)
  have "\<forall>x \<in> set ?xs. fits_entry byte_codec x" "sorted_wrt (<) (map fst ?xs)" "(1 :: u64) \<noteq> 0"
    "unat (1 :: u64) + 3 * length ?xs + 1 < 2 ^ 64" by (simp_all add: byte_codec_fits)
  from btree_build_then_scan [OF memory.backend_axioms fresh_io_sound byte_codec_ok this memory_writable] obtain bks root np io' where
    "btree_entries byte_codec ?xs = Ok bks" "build_btree memory_ops bks 1 fresh_io = (Ok (root, np), io')"
    "\<forall>a b. \<exists>c. range_scan byte_codec memory_ops root a b io' =
      Some (Ok (map snd (filter (\<lambda>x. in_range a b (fst x)) ?xs)), (fst io', c))"
by blast
  moreover from this(3) obtain c where "range_scan byte_codec memory_ops root 4 (Some 9) io' =
      Some (Ok (map snd (filter (\<lambda>x. in_range 4 (Some 9) (fst x)) ?xs)), (fst io', c))" by blast
  ultimately show ?thesis unfolding f list.map snd_conv by blast
qed

lemma one_leaf_tree:
  assumes "leaf_at page es 0" "collect_map (dec_entry C) es = Ok xs"
  shows "index_tree C memory_ops 2 1 xs [(1, page)]"
  unfolding index_tree_def using assms
  by (intro exI [of _ "[(1, es, xs)]"])
    (auto simp: tree_at_def tree_entries_def memory_ops_def memory_read_page_def intro!: subtree.leaf)

lemma one_page_sound: "leaf_at page es link \<Longrightarrow> sound_io memory_ops memory_inv ([(1, page)], page_cache_new 4)"
  by (simp add: sound_io_def memory_inv_def leaf_at_def page_cache_new_def cache_inv_def coherent_def)

theorem btree_rebuild_exact_witness:
  "\<exists>page ps io1 root np io2 c.
    encode_leaf_page (map (eb byte_codec) [(3, small_ref 7), (9, small_ref 6)]) 0 = Ok page \<and>
    collect_leaf_pages memory_ops 1 ([(1, page)], page_cache_new 4) = Some (Ok ps, io1) \<and>
    rebuild_btree_incremental byte_codec memory_ops ps [(5, small_ref 8)] 2 io1 = (Ok (root, np), io2) \<and>
    range_scan byte_codec memory_ops root 4 None io2 = Some (Ok [small_ref 8, small_ref 6], (fst io2, c))"
proof -
  let ?xs = "[(3 :: u8, small_ref 7), (9, small_ref 6)]" and ?ys = "[(5 :: u8, small_ref 8)]"
  obtain page where page: "encode_leaf_page (map (eb byte_codec) ?xs) 0 = Ok page" "leaf_at page (map (eb byte_codec) ?xs) 0"
    using group_leaf [of byte_codec ?xs] by (auto simp: eb_def byte_codec_def PAGE_SIZE_def)
  let ?io = "([(1 :: u64, page)], page_cache_new 4)"
  have "collect_map (dec_entry byte_codec) (map (eb byte_codec) ?xs) = Ok ?xs" by (simp add: eb_def byte_codec_def)
  from one_leaf_tree [OF page(2) this] have tree: "index_tree byte_codec memory_ops 2 1 ?xs (fst ?io)" by simp
  have "backend_page_count memory_ops (fst ?io) = Ok 1" "2 \<le> unat (1 :: u64) + 1" by (simp_all add: memory_ops_def memory_page_count_def)
  note pre = this one_page_sound [OF page(2)] byte_codec_ok
  have "\<forall>x \<in> set ?xs \<union> set ?ys. fits_entry byte_codec x" "sorted (map fst ?xs)" "sorted (map fst ?ys)" "distinct (map fst (?xs @ ?ys))"
    by (simp_all add: byte_codec_fits)
  note whole = btree_rebuild_exact [OF memory.backend_axioms tree pre this]
  then obtain ps c where c: "collect_leaf_pages memory_ops 1 ?io = Some (Ok ps, (fst ?io, c))" "sound_io memory_ops memory_inv (fst ?io, c)" and
    re: "\<forall>io1 start. sound_io memory_ops memory_inv io1 \<and> start \<noteq> 0 \<and> unat start + 3 * (length ?xs + length ?ys) + 1 < 2 ^ 64 \<and>
      writable memory_ops memory_inv (unat start + 3 * (length ?xs + length ?ys) + 1) \<longrightarrow>
      (\<exists>root' np io2. rebuild_btree_incremental byte_codec memory_ops ps ?ys start io1 = (Ok (root', np), io2) \<and> sound_io memory_ops memory_inv io2 \<and>
        unat start < unat np \<and> unat np \<le> unat start + 3 * (length ?xs + length ?ys) + 1 \<and>
        index_tree byte_codec memory_ops (unat np) root' (sort_key fst (?xs @ ?ys)) (fst io2) \<and>
        (\<forall>a b. \<exists>c. range_scan byte_codec memory_ops root' a b io2 =
          Some (Ok (map snd (filter (\<lambda>x. in_range a b (fst x)) (sort_key fst (?xs @ ?ys)))), (fst io2, c))) \<and>
        keeps (\<lambda>q. unat q < unat start) (read_page memory_ops (fst io1)) (read_page memory_ops (fst io2)))" by (elim exE conjE)
  have "sound_io memory_ops memory_inv (fst ?io, c) \<and> (2 :: u64) \<noteq> 0 \<and> unat (2 :: u64) + 3 * (length ?xs + length ?ys) + 1 < 2 ^ 64 \<and>
      writable memory_ops memory_inv (unat (2 :: u64) + 3 * (length ?xs + length ?ys) + 1)" using c(2) memory_writable by simp
  from mp [OF spec [OF spec [OF re]] this] obtain root np io2 where
    r: "rebuild_btree_incremental byte_codec memory_ops ps ?ys 2 (fst ?io, c) = (Ok (root, np), io2)"
    "\<forall>a b. \<exists>c. range_scan byte_codec memory_ops root a b io2 =
      Some (Ok (map snd (filter (\<lambda>x. in_range a b (fst x)) (sort_key fst (?xs @ ?ys)))), (fst io2, c))" by blast
  have "map snd (filter (\<lambda>x. in_range 4 None (fst x)) (sort_key fst (?xs @ ?ys))) = [small_ref 8, small_ref 6]" by (simp add: in_range_def)
  with r(2) obtain c' where "range_scan byte_codec memory_ops root 4 None io2 = Some (Ok [small_ref 8, small_ref 6], (fst io2, c'))" by metis
  with page(1) c(1) r(1) show ?thesis by blast
qed

end
