(* ===== verification/Index_Blob.thy ===== *)
theory Index_Blob
  imports Backend Index
begin

text \<open>
  The index format of file format 5, \<^verbatim>\<open>src/storage/btree.rs\<close>, still read on migration: each
  index is one \<^verbatim>\<open>postcard\<close> byte string, split over consecutive pages. The backend is any
  one that keeps the contract of the locale \<open>backend\<close>; the codec of an index is a pair of
  arguments. Shown: an index written is the index read back, and writing the four indexes
  one after the other disturbs none of them nor any other page.
\<close>

definition PAGE_TYPE_INDEX :: u8 where "PAGE_TYPE_INDEX = 0x11"

definition PAGE_HEADER_SIZE :: nat where "PAGE_HEADER_SIZE = 10"

definition DATA_BYTES_PER_PAGE :: nat where "DATA_BYTES_PER_PAGE = PAGE_SIZE - PAGE_HEADER_SIZE"

definition u64_checked_add :: "u64 \<Rightarrow> nat \<Rightarrow> u64 result" where
  "u64_checked_add a n = (if unat a + n < 2 ^ 64 then Ok (a + of_nat n) else Err (Internal 48))"

definition blob_pages :: "bytes \<Rightarrow> nat" where
  "blob_pages blob = (if blob = [] then 1
     else (length blob + DATA_BYTES_PER_PAGE - 1) div DATA_BYTES_PER_PAGE)"

definition blob_chunk :: "bytes \<Rightarrow> nat \<Rightarrow> bytes" where
  "blob_chunk blob i =
     (let off = i * DATA_BYTES_PER_PAGE in
      if off < length blob then take (min (length blob) (off + DATA_BYTES_PER_PAGE) - off) (drop off blob)
      else [])"

definition blob_page :: "bytes \<Rightarrow> nat \<Rightarrow> nat \<Rightarrow> bytes result" where
  "blob_page blob num_pages i =
     (let chunk = blob_chunk blob i;
          page1 = (replicate PAGE_SIZE 0)[0 := PAGE_TYPE_INDEX];
          page2 = overwrite page1 1 (u32_to_le (of_nat (length blob)));
          page3 = overwrite page2 5 (u32_to_le (of_nat (length chunk)));
          page4 = page3[9 := (if i = num_pages - 1 then 1 else 0)]
      in if chunk = [] then Ok page4 else copy_at (Internal 49) page4 PAGE_HEADER_SIZE chunk)"

fun write_chunks ::
    "'b backend_ops \<Rightarrow> bytes \<Rightarrow> nat \<Rightarrow> u64 \<Rightarrow> nat list \<Rightarrow> 'b \<Rightarrow> unit result \<times> 'b" where
  "write_chunks ops blob num_pages start [] b = (Ok (), b)"
| "write_chunks ops blob num_pages start (i # is) b =
     (case and_then (blob_page blob num_pages i) (\<lambda>page.
             and_then (u64_checked_add start i) (\<lambda>pid. Ok (pid, page))) of
        Inl e \<Rightarrow> (Err e, b)
      | Inr (pid, page) \<Rightarrow>
          (case write_page ops pid page b of
             (Inl e, b') \<Rightarrow> (Err e, b')
           | (Inr _, b') \<Rightarrow> write_chunks ops blob num_pages start is b'))"

definition write_blob :: "'b backend_ops \<Rightarrow> bytes \<Rightarrow> u64 \<Rightarrow> 'b \<Rightarrow> u64 result \<times> 'b" where
  "write_blob ops blob start b =
     (if u32_MAX < length blob then (Err (Internal 48), b)
      else case write_chunks ops blob (blob_pages blob) start [0..<blob_pages blob] b of
        (Inl e, b') \<Rightarrow> (Err e, b')
      | (Inr _, b') \<Rightarrow> (u64_checked_add start (blob_pages blob), b'))"

text \<open>One page of a blob: its data and whether it is the last.\<close>

definition blob_page_data :: "bytes \<Rightarrow> (bytes \<times> bool) result" where
  "blob_page_data page =
     and_then (ok_or (Internal 49) (elem_get page 0)) (\<lambda>page_byte.
     if page_byte \<noteq> PAGE_TYPE_INDEX then Err (Stg 12) else
     and_then (ok_or (Internal 49) (slice_get page 5 9)) (\<lambda>len_bytes.
     let chunk_len = unat (u32_from_le len_bytes) in
     and_then (ok_or (Internal 49) (elem_get page 9)) (\<lambda>last_byte.
     and_then (if 0 < chunk_len
               then ok_or (Internal 49) (slice_get page PAGE_HEADER_SIZE (PAGE_HEADER_SIZE + chunk_len))
               else Ok []) (\<lambda>d.
     Ok (d, last_byte = 1)))))"

text \<open>The page loop ends: the page number grows and must not overflow.\<close>

function read_blob_loop :: "(u64 \<Rightarrow> bytes result) \<Rightarrow> u64 \<Rightarrow> bytes result" where
  "read_blob_loop rd pid =
     and_then (rd pid) (\<lambda>page.
     and_then (blob_page_data page) (\<lambda>(d, is_last).
     if is_last then Ok d
     else case u64_checked_add pid 1 of
       Inl e \<Rightarrow> Err e
     | Inr pid' \<Rightarrow> and_then (read_blob_loop rd pid') (\<lambda>ds. Ok (d @ ds))))"
  by pat_completeness auto
termination
proof (relation "measure (\<lambda>(_, pid). 2 ^ 64 - unat pid)")
  fix pid pid' :: u64
  assume "u64_checked_add pid 1 = Inr pid'"
  then have "unat pid + 1 < 2 ^ 64" "pid' = pid + 1"
    by (simp_all add: u64_checked_add_def split: if_splits)
  then have "unat pid' = unat pid + 1" by (simp add: unat_word_ariths(1))
  with \<open>unat pid + 1 < 2 ^ 64\<close>
  show "((rd, pid'), rd, pid) \<in> measure (\<lambda>(_, pid). 2 ^ 64 - unat pid)" for rd :: "u64 \<Rightarrow> bytes result"
    by simp
qed simp

declare read_blob_loop.simps [simp del]

definition read_blob :: "(u64 \<Rightarrow> bytes result) \<Rightarrow> u64 \<Rightarrow> bytes result" where
  "read_blob rd start =
     and_then (rd start) (\<lambda>first_page.
     and_then (ok_or (Internal 49) (elem_get first_page 0)) (\<lambda>first_byte.
     if first_byte \<noteq> PAGE_TYPE_INDEX then Err (Internal 49) else
     and_then (ok_or (Internal 49) (slice_get first_page 1 5)) (\<lambda>_. read_blob_loop rd start)))"

definition write_index_generic ::
    "(('k \<times> fact_ref) list \<Rightarrow> bytes result) \<Rightarrow> 'b backend_ops \<Rightarrow> ('k, fact_ref) btreemap \<Rightarrow> u64 \<Rightarrow> 'b
     \<Rightarrow> u64 result \<times> 'b" where
  "write_index_generic enc ops m start b =
     (case enc m of Inl e \<Rightarrow> (Err e, b) | Inr blob \<Rightarrow> write_blob ops blob start b)"

definition read_index_generic ::
    "(bytes \<Rightarrow> ('k :: linorder \<times> fact_ref) list result) \<Rightarrow> u64 \<Rightarrow> (u64 \<Rightarrow> bytes result)
     \<Rightarrow> ('k, fact_ref) btreemap result" where
  "read_index_generic dec root rd =
     and_then (read_blob rd root) (\<lambda>blob.
     and_then (dec blob) (\<lambda>es. Ok (fold (\<lambda>(k, v). btm_insert k v) es [])))"

definition write_all_indexes ::
    "((eavt_key \<times> fact_ref) list \<Rightarrow> bytes result) \<Rightarrow> ((aevt_key \<times> fact_ref) list \<Rightarrow> bytes result) \<Rightarrow>
     ((avet_key \<times> fact_ref) list \<Rightarrow> bytes result) \<Rightarrow> ((vaet_key \<times> fact_ref) list \<Rightarrow> bytes result) \<Rightarrow>
     'b backend_ops \<Rightarrow> indexes \<Rightarrow> u64 \<Rightarrow> 'b \<Rightarrow> (u64 \<times> u64 \<times> u64 \<times> u64) result \<times> 'b" where
  "write_all_indexes enc1 enc2 enc3 enc4 ops ix start b =
     (case write_index_generic enc1 ops (eavt ix) start b of
        (Inl e, b1) \<Rightarrow> (Err e, b1)
      | (Inr after_eavt, b1) \<Rightarrow>
     (case write_index_generic enc2 ops (aevt ix) after_eavt b1 of
        (Inl e, b2) \<Rightarrow> (Err e, b2)
      | (Inr after_aevt, b2) \<Rightarrow>
     (case write_index_generic enc3 ops (avet ix) after_aevt b2 of
        (Inl e, b3) \<Rightarrow> (Err e, b3)
      | (Inr after_avet, b3) \<Rightarrow>
     (case write_index_generic enc4 ops (vaet ix) after_avet b3 of
        (Inl e, b4) \<Rightarrow> (Err e, b4)
      | (Inr _, b4) \<Rightarrow> (Ok (start, after_eavt, after_aevt, after_avet), b4)))))"

section \<open>Pages of a blob\<close>

lemma chunk_bounds:
  "length (blob_chunk blob i) \<le> DATA_BYTES_PER_PAGE"
  "blob_chunk blob i = take DATA_BYTES_PER_PAGE (drop (i * DATA_BYTES_PER_PAGE) blob)"
  by (auto simp: blob_chunk_def Let_def min_def)

lemma update_overwrite: "i < length xs \<Longrightarrow> xs[i := v] = overwrite xs i [v]"
  by (simp add: overwrite_def upd_conv_take_nth_drop)

lemma blob_page_Ok:
  "\<exists>page. blob_page blob n i = Ok page \<and> length page = PAGE_SIZE \<and> elem_get page 0 = Some PAGE_TYPE_INDEX \<and>
     slice_get page 1 5 \<noteq> None \<and> blob_page_data page = Ok (blob_chunk blob i, i = n - 1)"
proof -
  define chunk where "chunk = blob_chunk blob i"
  define flag :: u8 where "flag = (if i = n - 1 then 1 else 0)"
  define len where "len = u32_to_le (of_nat (length chunk))"
  define page3 where "page3 = overwrite (overwrite ((replicate PAGE_SIZE 0)[0 := PAGE_TYPE_INDEX]) 1
    (u32_to_le (of_nat (length blob)))) 5 len"
  define page where "page = overwrite (overwrite page3 9 [flag]) 10 chunk"
  have c: "10 + length chunk \<le> PAGE_SIZE"
    using chunk_bounds(1) [of blob i] by (simp add: chunk_def DATA_BYTES_PER_PAGE_def PAGE_HEADER_SIZE_def PAGE_SIZE_def)
  have l3: "length page3 = PAGE_SIZE" by (simp add: page3_def len_def PAGE_SIZE_def)
  have l4: "length (overwrite page3 9 [flag]) = PAGE_SIZE" using l3 by (simp add: PAGE_SIZE_def)
  have l: "length page = PAGE_SIZE" using c l4 by (simp add: page_def)
  have "blob_page blob n i = (if chunk = [] then Ok (page3[9 := flag])
      else copy_at (Internal 49) (page3[9 := flag]) PAGE_HEADER_SIZE chunk)"
    by (simp only: blob_page_def Let_def chunk_def len_def page3_def flag_def)
  moreover have "page3[9 := flag] = overwrite page3 9 [flag]" "overwrite xs 10 [] = xs" for xs :: bytes
    using l3 by (simp add: update_overwrite PAGE_SIZE_def, simp add: overwrite_def)
  ultimately have page: "blob_page blob n i = Ok page"
    using c l4 by (simp add: page_def copy_at_def PAGE_HEADER_SIZE_def)
  have z: "elem_get page 0 = Some PAGE_TYPE_INDEX"
    using l c l3 l4 by (simp add: elem_get_def page_def nth_overwrite page3_def len_def PAGE_SIZE_def)
  moreover have f: "elem_get page 9 = Some flag"
    using l c l3 l4 by (simp add: elem_get_def page_def nth_overwrite PAGE_SIZE_def)
  moreover have n: "slice_get page 5 9 = Some len"
  proof -
    have "slice_get page 5 9 = slice_get (overwrite page3 9 [flag]) 5 9"
      unfolding page_def by (rule slice_get_overwrite_disjoint) (use c l4 in \<open>simp_all add: PAGE_SIZE_def\<close>)
    also have "\<dots> = slice_get page3 5 9"
      by (rule slice_get_overwrite_disjoint) (use l3 in \<open>simp_all add: PAGE_SIZE_def\<close>)
    also have "\<dots> = Some len"
      using slice_get_overwrite_same [of 5 len "overwrite ((replicate PAGE_SIZE 0)[0 := PAGE_TYPE_INDEX]) 1
        (u32_to_le (of_nat (length blob)))"]
      by (simp add: page3_def len_def PAGE_SIZE_def)
    finally show ?thesis .
  qed
  moreover have d: "slice_get page 10 (10 + length chunk) = Some chunk"
    unfolding page_def by (rule slice_get_overwrite_same) (use c l4 in simp)
  moreover have "unat (u32_from_le len) = length chunk"
    using c by (simp add: len_def unat_of_nat PAGE_SIZE_def)
  moreover have "flag = 1 \<longleftrightarrow> i = n - 1" by (simp add: flag_def)
  ultimately have "blob_page_data page = Ok (chunk, i = n - 1)"
    by (auto simp: blob_page_data_def PAGE_HEADER_SIZE_def Let_def)
  with page z l show ?thesis
    by (auto simp: chunk_def slice_get_def PAGE_SIZE_def)
qed

lemma blob_pages_cover:
  "0 < blob_pages blob" "length blob \<le> blob_pages blob * DATA_BYTES_PER_PAGE"
proof -
  define D where "D = DATA_BYTES_PER_PAGE"
  have D: "0 < D" by (simp add: D_def DATA_BYTES_PER_PAGE_def PAGE_SIZE_def PAGE_HEADER_SIZE_def)
  show "length blob \<le> blob_pages blob * DATA_BYTES_PER_PAGE"
  proof (cases "blob = []")
    case False
    have "length blob + D - 1 < ((length blob + D - 1) div D + 1) * D"
      using D by (simp add: dividend_less_div_times)
    with False D show ?thesis by (simp add: blob_pages_def flip: D_def)
  qed simp
  show "0 < blob_pages blob"
    using D by (cases blob) (auto simp: blob_pages_def D_def [symmetric] div_greater_zero_iff simp del: neq0_conv)
qed

section \<open>Writing and reading a blob\<close>

text \<open>Page \<open>i\<close> of the blob is in place, for all \<open>i\<close> from \<open>k\<close> on.\<close>

definition blob_at :: "(u64 \<Rightarrow> bytes result) \<Rightarrow> u64 \<Rightarrow> bytes \<Rightarrow> nat \<Rightarrow> bool" where
  "blob_at rd start blob k \<longleftrightarrow> unat start + blob_pages blob \<le> 2 ^ 64 \<and>
     (\<forall>i. k \<le> i \<and> i < blob_pages blob \<longrightarrow> rd (start + of_nat i) = blob_page blob (blob_pages blob) i)"

lemma read_blob_loop_at:
  assumes "blob_at rd start blob k" "k < blob_pages blob"
  shows "read_blob_loop rd (start + of_nat k) = Ok (drop (k * DATA_BYTES_PER_PAGE) blob)"
  using assms
proof (induction "blob_pages blob - k" arbitrary: k)
  case (Suc m)
  let ?n = "blob_pages blob"
  from Suc.prems have "rd (start + of_nat k) = blob_page blob ?n k" by (simp add: blob_at_def)
  then obtain page where page: "rd (start + of_nat k) = Ok page"
    "blob_page_data page = Ok (blob_chunk blob k, k = ?n - 1)"
    using blob_page_Ok [of blob ?n k] by auto
  show ?case
  proof (cases "k = ?n - 1")
    case True
    have "length (drop (k * DATA_BYTES_PER_PAGE) blob) \<le> DATA_BYTES_PER_PAGE"
      using blob_pages_cover [of blob] True by (cases ?n) (simp_all add: algebra_simps)
    with page True show ?thesis by (subst read_blob_loop.simps) (simp add: chunk_bounds(2))
  next
    case False
    with Suc.prems have k: "Suc k < ?n" by simp
    have "unat (start + of_nat k) = unat start + k" 
      using Suc.prems k unat_of_nat [of k, where ?'a = 64] by (simp add: blob_at_def unat_word_ariths(1))
    then have "u64_checked_add (start + of_nat k) 1 = Ok (start + of_nat (Suc k))"
      using Suc.prems(1) k by (simp add: u64_checked_add_def blob_at_def add.assoc)
    moreover have "read_blob_loop rd (start + of_nat (Suc k)) = Ok (drop (Suc k * DATA_BYTES_PER_PAGE) blob)"
      using Suc.hyps(2) Suc.prems k by (intro Suc.hyps(1)) (auto simp: blob_at_def)
    ultimately show ?thesis
      using page False
      by (subst read_blob_loop.simps) (simp add: chunk_bounds(2) flip: drop_drop)
  qed
qed simp

lemma read_blob_at:
  assumes "blob_at rd start blob 0"
  shows "read_blob rd start = Ok blob"
proof -
  have p: "0 < blob_pages blob" by (rule blob_pages_cover)
  with assms have "rd start = blob_page blob (blob_pages blob) 0" by (force simp: blob_at_def)
  then obtain page where "rd start = Ok page" "elem_get page 0 = Some PAGE_TYPE_INDEX" "slice_get page 1 5 \<noteq> None"
    using blob_page_Ok [of blob "blob_pages blob" 0] by auto
  with read_blob_loop_at [OF assms p] show ?thesis by (auto simp: read_blob_def)
qed

lemma u64_checked_add_Ok: "u64_checked_add a n = Ok c \<longleftrightarrow> unat a + n < 2 ^ 64 \<and> c = a + of_nat n"
  by (auto simp: u64_checked_add_def)

lemma unat_add_of_nat: "unat a + n < 2 ^ 64 \<Longrightarrow> unat (a + of_nat n :: u64) = unat a + n"
  using unat_of_nat [of n, where ?'a = 64] by (simp add: unat_word_ariths(1))

text \<open>Pages outside an interval that the store could read still read the same.\<close>

definition untouched :: "(u64 \<Rightarrow> bytes result) \<Rightarrow> (u64 \<Rightarrow> bytes result) \<Rightarrow> nat \<Rightarrow> nat \<Rightarrow> bool" where
  "untouched rd rd' lo hi \<longleftrightarrow>
     (\<forall>q x. q \<noteq> 0 \<longrightarrow> (unat q < lo \<or> hi \<le> unat q) \<longrightarrow> rd q = Ok x \<longrightarrow> rd' q = Ok x)"

context backend
begin

lemma write_chunks_step:
  assumes "write_chunks ops blob n start (i # is) b = (Ok (), b')"
  obtains page c where "blob_page blob n i = Ok page" "unat start + i < 2 ^ 64"
    "write_page ops (start + of_nat i) page b = (Ok (), c)" "write_chunks ops blob n start is c = (Ok (), b')"
  using assms by (auto simp: u64_checked_add_Ok and_then_eq_Inr split: sum.splits prod.splits)

lemma write_chunks_result:
  assumes "invar b" "0 < unat start" "write_chunks ops blob n start [k..<m] b = (Ok (), b')"
  shows "invar b' \<and> (\<forall>i. k \<le> i \<and> i < m \<longrightarrow> read_page ops b' (start + of_nat i) = blob_page blob n i) \<and>
    untouched (read_page ops b) (read_page ops b') (unat start + k) (unat start + m) \<and>
    (k < m \<longrightarrow> unat start + m \<le> 2 ^ 64)"
  using assms
proof (induction "m - k" arbitrary: k b)
  case 0
  then show ?case by (auto simp: untouched_def)
next
  case (Suc j)
  then have k: "k < m" "[k..<m] = k # [Suc k..<m]" by (simp_all add: upt_conv_Cons)
  from Suc.prems(3) obtain page c where w: "blob_page blob n k = Ok page" "unat start + k < 2 ^ 64"
    "write_page ops (start + of_nat k) page b = (Ok (), c)" "write_chunks ops blob n start [Suc k..<m] c = (Ok (), b')"
    unfolding k(2) by (rule write_chunks_step)
  have u: "unat (start + of_nat k) = unat start + k" using w(2) by (rule unat_add_of_nat)
  then have p: "start + of_nat k \<noteq> 0" using Suc.prems(2) by auto
  have c: "invar c" "read_page ops c (start + of_nat k) = Ok page"
    using invar_write [OF Suc.prems(1) p w(3)] read_same [OF Suc.prems(1) p w(3)] w(3) by simp_all
  from Suc.hyps(1) [of "Suc k" c] Suc.hyps(2) Suc.prems(2) c(1) w(4)
  have IH: "invar b'" "\<And>i. Suc k \<le> i \<Longrightarrow> i < m \<Longrightarrow> read_page ops b' (start + of_nat i) = blob_page blob n i"
    "untouched (read_page ops c) (read_page ops b') (unat start + Suc k) (unat start + m)"
    "Suc k < m \<Longrightarrow> unat start + m \<le> 2 ^ 64"
    by auto
  have "read_page ops b' (start + of_nat k) = Ok page"
    using IH(3) c(2) p u by (simp add: untouched_def)
  then have "read_page ops b' (start + of_nat i) = blob_page blob n i" if "k \<le> i" "i < m" for i
    using that IH(2) w(1) by (cases "i = k") auto
  moreover have "read_page ops b' q = Ok x"
    if "q \<noteq> 0" "unat q < unat start + k \<or> unat start + m \<le> unat q" "read_page ops b q = Ok x" for q x
  proof -
    have "q \<noteq> start + of_nat k" using that(2) u k(1) by auto
    then have "read_page ops c q = Ok x" using read_other [OF Suc.prems(1) p that(1) _ w(3) that(3)] by simp
    then show ?thesis using IH(3) that(1,2) by (auto simp: untouched_def)
  qed
  moreover have "unat start + m \<le> 2 ^ 64"
    using IH(4) w(2) k(1) by (cases "Suc k < m") auto
  ultimately show ?case using IH(1) by (simp add: untouched_def)
qed

lemma write_blob_result:
  assumes "invar b" "start \<noteq> 0" "write_blob ops blob start b = (Ok next, b')"
  shows "invar b' \<and> read_blob (read_page ops b') start = Ok blob \<and>
    untouched (read_page ops b) (read_page ops b') (unat start) (unat next) \<and>
    blob_at (read_page ops b') start blob 0 \<and> unat next = unat start + blob_pages blob"
proof -
  let ?n = "blob_pages blob"
  from assms(3) have w: "write_chunks ops blob ?n start [0..<?n] b = (Ok (), b')" "u64_checked_add start ?n = Ok next"
    by (auto simp: write_blob_def split: if_splits sum.splits prod.splits)
  have s: "0 < unat start" using assms(2) by (simp add: unat_gt_0)
  from w(2) have n: "unat start + ?n < 2 ^ 64" "unat next = unat start + ?n"
    by (auto simp: u64_checked_add_Ok unat_add_of_nat)
  from write_chunks_result [OF assms(1) s w(1)] n
  have r: "invar b'" "blob_at (read_page ops b') start blob 0"
    "untouched (read_page ops b) (read_page ops b') (unat start) (unat next)"
    by (auto simp: blob_at_def)
  with read_blob_at [OF r(2)] n(2) show ?thesis by simp
qed

lemma blob_at_untouched:
  assumes "blob_at (read_page ops b) start blob 0" "start \<noteq> 0"
    "untouched (read_page ops b) (read_page ops b') lo hi" "unat start + blob_pages blob \<le> lo"
  shows "read_blob (read_page ops b') start = Ok blob"
proof (rule read_blob_at)
  have "read_page ops b' (start + of_nat i) = blob_page blob (blob_pages blob) i" if "i < blob_pages blob" for i
  proof -
    obtain page where "blob_page blob (blob_pages blob) i = Ok page" using blob_page_Ok by blast
    moreover have "unat (start + of_nat i) = unat start + i"
      using that assms(1) by (intro unat_add_of_nat) (simp add: blob_at_def)
    moreover have "start + of_nat i \<noteq> 0"
      using calculation(2) assms(2) by (metis add_is_0 unat_0 unat_gt_0 word_unat_eq_iff)
    ultimately show ?thesis
      using assms that by (simp add: untouched_def blob_at_def)
  qed
  with assms(1) show "blob_at (read_page ops b') start blob 0" by (simp add: blob_at_def)
qed

end

section \<open>Indexes\<close>

definition index_codec_ok ::
    "(('k \<times> fact_ref) list \<Rightarrow> bytes result) \<Rightarrow> (bytes \<Rightarrow> ('k \<times> fact_ref) list result) \<Rightarrow> bool" where
  "index_codec_ok enc dec \<longleftrightarrow> (\<forall>es b. enc es = Ok b \<longrightarrow> dec b = Ok es)"

lemma btm_insert_last: "\<forall>(a, b) \<in> set m. a < k \<Longrightarrow> btm_insert k v m = m @ [(k, v)]"
  by (induction m) auto

lemma fold_insert_ascending:
  "ascending (m @ es) \<Longrightarrow> fold (\<lambda>(k, v). btm_insert k v) es m = m @ es"
proof (induction es arbitrary: m)
  case (Cons e es)
  obtain k v where e: "e = (k, v)" by (cases e)
  have "\<forall>(a, b) \<in> set m. a < k" using Cons.prems by (auto simp: ascending_def e sorted_wrt_append)
  with Cons.IH [of "m @ [(k, v)]"] Cons.prems show ?case by (simp add: e btm_insert_last)
qed simp

lemma read_index_blob:
  assumes "index_codec_ok enc dec" "enc m = Ok blob" "ascending m" "read_blob rd root = Ok blob"
  shows "read_index_generic dec root rd = Ok m"
  using assms fold_insert_ascending [of "[]" m] by (simp add: read_index_generic_def index_codec_ok_def)

context backend
begin

lemma write_index_result:
  assumes "invar b" "start \<noteq> 0" "write_index_generic enc ops m start b = (Ok next, b')"
  shows "\<exists>blob. enc m = Ok blob \<and> invar b' \<and> unat start < unat next \<and>
    untouched (read_page ops b) (read_page ops b') (unat start) (unat next) \<and>
    blob_at (read_page ops b') start blob 0 \<and> unat start + blob_pages blob = unat next"
proof -
  from assms(3) obtain blob where "enc m = Ok blob" "write_blob ops blob start b = (Ok next, b')"
    by (auto simp: write_index_generic_def split: sum.splits)
  with write_blob_result [OF assms(1,2) this(2)] blob_pages_cover(1) [of blob] show ?thesis by auto
qed

lemma untouched_mono:
  "untouched rd rd' lo hi \<Longrightarrow> lo' \<le> lo \<Longrightarrow> hi \<le> hi' \<Longrightarrow> untouched rd rd' lo' hi'"
  by (auto simp: untouched_def)

lemma untouched_trans:
  "untouched rd rd' lo hi \<Longrightarrow> untouched rd' rd'' lo hi \<Longrightarrow> untouched rd rd'' lo hi"
  by (auto simp: untouched_def)

lemma blob_kept:
  assumes "blob_at (read_page ops b) start blob 0" "start \<noteq> 0" "unat start + blob_pages blob = unat next"
    and "untouched (read_page ops b) (read_page ops b') lo hi" "unat next \<le> lo"
  shows "read_blob (read_page ops b') start = Ok blob"
  using assms by (intro blob_at_untouched) auto

lemma write_all_result:
  assumes inv: "invar b" and s: "start \<noteq> 0"
    and w: "write_all_indexes enc1 enc2 enc3 enc4 ops ix start b = (Ok (r1, r2, r3, r4), b')"
    and codecs: "index_codec_ok enc1 dec1" "index_codec_ok enc2 dec2" "index_codec_ok enc3 dec3" "index_codec_ok enc4 dec4"
    and asc: "indexes_inv ix"
  shows "read_index_generic dec1 r1 (read_page ops b') = Ok (eavt ix)"
    "read_index_generic dec2 r2 (read_page ops b') = Ok (aevt ix)"
    "read_index_generic dec3 r3 (read_page ops b') = Ok (avet ix)"
    "read_index_generic dec4 r4 (read_page ops b') = Ok (vaet ix)"
    "untouched (read_page ops b) (read_page ops b') (unat start) (2 ^ 64)"
proof -
  from w obtain b1 b2 b3 r5 where w: "r1 = start"
    "write_index_generic enc1 ops (eavt ix) r1 b = (Ok r2, b1)"
    "write_index_generic enc2 ops (aevt ix) r2 b1 = (Ok r3, b2)"
    "write_index_generic enc3 ops (avet ix) r3 b2 = (Ok r4, b3)"
    "write_index_generic enc4 ops (vaet ix) r4 b3 = (Ok r5, b')"
    by (auto simp: write_all_indexes_def split: sum.splits prod.splits)
  obtain m1 where i1: "enc1 (eavt ix) = Ok m1" "invar b1" "unat r1 < unat r2"
    "untouched (read_page ops b) (read_page ops b1) (unat r1) (unat r2)"
    "blob_at (read_page ops b1) r1 m1 0" "unat r1 + blob_pages m1 = unat r2"
    using write_index_result [OF inv _ w(2)] s w(1) by blast
  have "r2 \<noteq> 0" using i1(3) by auto
  with write_index_result [OF i1(2) this w(3)] obtain m2 where i2: "enc2 (aevt ix) = Ok m2" "invar b2" "unat r2 < unat r3"
    "untouched (read_page ops b1) (read_page ops b2) (unat r2) (unat r3)"
    "blob_at (read_page ops b2) r2 m2 0" "unat r2 + blob_pages m2 = unat r3" by blast
  have "r3 \<noteq> 0" using i2(3) by auto
  with write_index_result [OF i2(2) this w(4)] obtain m3 where i3: "enc3 (avet ix) = Ok m3" "invar b3" "unat r3 < unat r4"
    "untouched (read_page ops b2) (read_page ops b3) (unat r3) (unat r4)"
    "blob_at (read_page ops b3) r3 m3 0" "unat r3 + blob_pages m3 = unat r4" by blast
  have "r4 \<noteq> 0" using i3(3) by auto
  with write_index_result [OF i3(2) this w(5)] obtain m4 where i4: "enc4 (vaet ix) = Ok m4" "invar b'" "unat r4 < unat r5"
    "untouched (read_page ops b3) (read_page ops b') (unat r4) (unat r5)"
    "blob_at (read_page ops b') r4 m4 0" "unat r4 + blob_pages m4 = unat r5" by blast
  have r5: "unat r5 \<le> 2 ^ 64" using unat_bounds(3) [of r5] by simp
  have u3: "untouched (read_page ops b3) (read_page ops b') (unat r4) (2 ^ 64)"
    using i4(4) by (rule untouched_mono) (use r5 in simp_all)
  have u2: "untouched (read_page ops b2) (read_page ops b') (unat r3) (2 ^ 64)"
    by (rule untouched_trans [OF untouched_mono [OF i3(4)] untouched_mono [OF u3]]) (use i3(3) i4(3) r5 in simp_all)
  have u1: "untouched (read_page ops b1) (read_page ops b') (unat r2) (2 ^ 64)"
    by (rule untouched_trans [OF untouched_mono [OF i2(4)] untouched_mono [OF u2]]) (use i2(3) i3(3) i4(3) r5 in simp_all)
  show "untouched (read_page ops b) (read_page ops b') (unat start) (2 ^ 64)"
    by (rule untouched_trans [OF untouched_mono [OF i1(4)] untouched_mono [OF u1]])
      (use i1(3) i2(3) i3(3) i4(3) r5 w(1) in simp_all)
  have a: "ascending (eavt ix)" "ascending (aevt ix)" "ascending (avet ix)" "ascending (vaet ix)"
    using asc by (simp_all add: indexes_inv_def)
  show "read_index_generic dec1 r1 (read_page ops b') = Ok (eavt ix)"
    using blob_kept [OF i1(5) _ i1(6) u1] s w(1) by (intro read_index_blob [OF codecs(1) i1(1) a(1)]) simp
  show "read_index_generic dec2 r2 (read_page ops b') = Ok (aevt ix)"
    using blob_kept [OF i2(5) \<open>r2 \<noteq> 0\<close> i2(6) u2] by (intro read_index_blob [OF codecs(2) i2(1) a(2)]) simp
  show "read_index_generic dec3 r3 (read_page ops b') = Ok (avet ix)"
    using blob_kept [OF i3(5) \<open>r3 \<noteq> 0\<close> i3(6) u3] by (intro read_index_blob [OF codecs(3) i3(1) a(3)]) simp
  show "read_index_generic dec4 r4 (read_page ops b') = Ok (vaet ix)"
    using read_blob_at [OF i4(5)] by (rule read_index_blob [OF codecs(4) i4(1) a(4)])
qed

end

text \<open>
  C37. Writing the four indexes of a store one after the other to a file and reading each from
  its root gives the four indexes back, and no data page below the first root changes.
\<close>

theorem index_blobs_roundtrip:
  assumes "file_inv b" and "start \<noteq> 0" and "indexes_inv ix"
    and "index_codec_ok enc1 dec1" "index_codec_ok enc2 dec2" "index_codec_ok enc3 dec3" "index_codec_ok enc4 dec4"
    and "write_all_indexes enc1 enc2 enc3 enc4 (file_ops crc) ix start b = (Ok (r1, r2, r3, r4), b')"
  shows "read_index_generic dec1 r1 (file_read_page b') = Ok (eavt ix) \<and>
    read_index_generic dec2 r2 (file_read_page b') = Ok (aevt ix) \<and>
    read_index_generic dec3 r3 (file_read_page b') = Ok (avet ix) \<and>
    read_index_generic dec4 r4 (file_read_page b') = Ok (vaet ix) \<and>
    (\<forall>q x. q \<noteq> 0 \<longrightarrow> q < start \<longrightarrow> file_read_page b q = Ok x \<longrightarrow> file_read_page b' q = Ok x)"
  using filed.write_all_result [OF assms(1,2,8,4,5,6,7,3)]
  by (simp add: file_ops_def untouched_def word_less_nat_alt)

text \<open>A codec for empty indexes, for the instance.\<close>

definition empty_enc :: "('k \<times> fact_ref) list \<Rightarrow> bytes result" where
  "empty_enc es = (if es = [] then Ok [] else Err Postcard)"

definition empty_dec :: "bytes \<Rightarrow> ('k \<times> fact_ref) list result" where
  "empty_dec b = (if b = [] then Ok [] else Err Postcard)"

lemma empty_codec: "index_codec_ok empty_enc empty_dec"
  by (simp add: index_codec_ok_def empty_enc_def empty_dec_def)

lemma write_empty_index:
  assumes "file_inv b" "start \<noteq> 0" "unat start < 100"
  shows "\<exists>b'. write_index_generic empty_enc (file_ops crc) [] start b = (Ok (start + 1), b') \<and> file_inv b'"
proof -
  obtain page where page: "blob_page [] 1 0 = Ok page" "length page = PAGE_SIZE"
    using blob_page_Ok [of "[]" 1 0] by blast
  have p: "blob_pages [] = 1" by (simp add: blob_pages_def)
  have "unat start * PAGE_SIZE < 2 ^ 64" using assms(3) by (simp add: PAGE_SIZE_def)
  from file_write_succeeds [OF assms(1,2) page(2) this] obtain b'
    where w: "file_write_page crc start page b = (Ok (), b')" by blast
  have "file_inv b'" using filed.invar_write [OF assms(1), of start crc page b'] w assms by (simp add: file_ops_def)
  moreover have "write_blob (file_ops crc) [] start b = (Ok (start + 1), b')"
    using page(1) w assms(3)
    by (simp add: write_blob_def p u64_checked_add_def file_ops_def)
  ultimately show ?thesis by (simp add: write_index_generic_def empty_enc_def)
qed

theorem index_blobs_roundtrip_witness:
  "\<exists>b'. write_all_indexes empty_enc empty_enc empty_enc empty_enc (file_ops (\<lambda>_. 0)) indexes_new 1 fresh_backend =
      (Ok (1, 2, 3, 4), b') \<and> read_index_generic empty_dec 3 (file_read_page b') = Ok (avet indexes_new)"
proof -
  obtain b1 where b1: "write_index_generic empty_enc (file_ops (\<lambda>_. 0)) ([] :: (eavt_key, fact_ref) btreemap) 1 fresh_backend = (Ok 2, b1)" "file_inv b1"
    using write_empty_index [OF fresh_backend_synced(2), of 1] by auto
  obtain b2 where b2: "write_index_generic empty_enc (file_ops (\<lambda>_. 0)) ([] :: (aevt_key, fact_ref) btreemap) 2 b1 = (Ok 3, b2)" "file_inv b2"
    using write_empty_index [OF b1(2), of 2] by auto
  obtain b3 where b3: "write_index_generic empty_enc (file_ops (\<lambda>_. 0)) ([] :: (avet_key, fact_ref) btreemap) 3 b2 = (Ok 4, b3)" "file_inv b3"
    using write_empty_index [OF b2(2), of 3] by auto
  obtain b4 where b4: "write_index_generic empty_enc (file_ops (\<lambda>_. 0)) ([] :: (vaet_key, fact_ref) btreemap) 4 b3 = (Ok 5, b4)"
    using write_empty_index [OF b3(2), of 4] by auto
  have "write_all_indexes empty_enc empty_enc empty_enc empty_enc (file_ops (\<lambda>_. 0)) indexes_new 1 fresh_backend =
      (Ok (1, 2, 3, 4), b4)"
    by (simp add: write_all_indexes_def indexes_new_def b1 b2 b3 b4)
  with index_blobs_roundtrip [OF fresh_backend_synced(2) _ indexes_inv_new empty_codec empty_codec empty_codec empty_codec this]
  show ?thesis by auto
qed

end
