(* ===== verification/Persistent.thy ===== *)
theory Persistent
  imports BTree_Contents Packed_Pages Storage_Lookups Index_Blob
begin

text \<open>
  Persistent fact storage, \<^verbatim>\<open>src/storage/persistent_facts.rs\<close>: opening and loading a file of any
  format with its migrations, integrity checks and index rebuild, and the checkpoint (\<^verbatim>\<open>save\<close>)
  that packs the pending facts behind the committed ones and merges them into the four B+trees.
  With it, \<^verbatim>\<open>OnDiskIndexReader\<close> of \<^verbatim>\<open>src/storage/btree_v6.rs\<close>.

  \<^verbatim>\<open>postcard\<close> and \<^verbatim>\<open>crc32fast\<close> are the record \<open>crates\<close>; a CRC hasher is the bytes fed to it so far.
  The readers handed to the fact store share the backend and the cache with the storage object,
  so they are wired again (\<open>wire\<close>) whenever these change. Building a tree and scanning it are partial in
  \<^theory_text>\<open>BTree_Index\<close>; here \<open>None\<close> is again not returning, and inside a reader, whose type has no room
  for it, \<open>Diverges\<close>. Locks are not modelled: every method holds them for its whole effect.
\<close>

section \<open>What the file is made with\<close>

record 'b storage_backend =
  page_ops :: "'b backend_ops"
  sync_op :: "'b \<Rightarrow> unit result \<times> 'b"
  is_new_op :: "'b \<Rightarrow> bool"

text \<open>A fact of format 1, before valid time and transaction counts.\<close>

record fact_v1 =
  v1_entity :: uuid
  v1_attribute :: string
  v1_value :: value_t
  v1_tx_id :: u64
  v1_asserted :: bool

record crates =
  fact_enc :: "fact \<Rightarrow> bytes result"
  fact_dec :: "bytes \<Rightarrow> fact result"
  v1_dec :: "bytes \<Rightarrow> fact_v1 result"
  eavt_codec :: "eavt_key key_codec"
  aevt_codec :: "aevt_key key_codec"
  avet_codec :: "avet_key key_codec"
  vaet_codec :: "vaet_key key_codec"
  eavt_blob :: "bytes \<Rightarrow> (eavt_key \<times> fact_ref) list result"
  aevt_blob :: "bytes \<Rightarrow> (aevt_key \<times> fact_ref) list result"
  avet_blob :: "bytes \<Rightarrow> (avet_key \<times> fact_ref) list result"
  vaet_blob :: "bytes \<Rightarrow> (vaet_key \<times> fact_ref) list result"
  crc32 :: "bytes \<Rightarrow> u32"

type_synonym roots = "u64 \<times> u64 \<times> u64 \<times> u64"

text \<open>
  The storage object. \<open>has_reader\<close> and \<open>index_roots\<close> are the readers registered with the fact
  store: whether there is one for facts, and the roots of the one for indexes.
\<close>

record 'b persistent =
  pf_io :: "'b io"
  storage :: fact_storage
  dirty :: bool
  last_checkpointed :: u64
  committed_fact_pages :: u64
  fact_prefix_crc :: "(u64 \<times> bytes) option"
  has_reader :: bool
  index_roots :: "roots option"

definition checked_add :: "error_code \<Rightarrow> u64 \<Rightarrow> u64 \<Rightarrow> u64 result" where
  "checked_add e a b = (if unat a + unat b < 2 ^ 64 then Ok (a + b) else Err e)"

definition u64_saturating_sub :: "u64 \<Rightarrow> u64 \<Rightarrow> u64" where
  "u64_saturating_sub a b = (if b \<le> a then a - b else 0)"

text \<open>Rust's \<^verbatim>\<open>?\<close> in a method that changes the state and may not return.\<close>

type_synonym ('s, 'a) run = "'s \<Rightarrow> ('a result \<times> 's) option"

definition and_run :: "('a result \<times> 's) option \<Rightarrow> ('a \<Rightarrow> 's \<Rightarrow> ('c result \<times> 's) option) \<Rightarrow> ('c result \<times> 's) option" where
  "and_run x f = Option.bind x (\<lambda>(r, s). case r of Inl e \<Rightarrow> Some (Err e, s) | Inr a \<Rightarrow> f a s)"

lemma and_run_simps [simp]:
  "and_run None f = None" "and_run (Some (Inl e, s)) f = Some (Err e, s)" "and_run (Some (Inr a, s)) f = f a s"
  by (simp_all add: and_run_def)

section \<open>The readers\<close>

definition returned :: "('a result \<times> 's) option \<Rightarrow> 'a result" where
  "returned x = (case x of Some (r, _) \<Rightarrow> r | None \<Rightarrow> Err Diverges)"

definition on_disk_scan :: "'k::linorder key_codec \<Rightarrow> 'b backend_ops \<Rightarrow> 'b io \<Rightarrow> u64 \<Rightarrow> 'k \<Rightarrow> 'k option \<Rightarrow> fact_ref list result" where
  "on_disk_scan C ops io root start stop_key =
     (if root = 0 then Ok [] else returned (range_scan C ops root start stop_key io))"

definition on_disk_index_reader :: "crates \<Rightarrow> 'b backend_ops \<Rightarrow> 'b io \<Rightarrow> roots \<Rightarrow> index_reader" where
  "on_disk_index_reader K ops io = (\<lambda>(er, ar, vr, rr).
     \<lparr>range_scan_eavt = on_disk_scan (eavt_codec K) ops io er, range_scan_aevt = on_disk_scan (aevt_codec K) ops io ar,
      range_scan_avet = on_disk_scan (avet_codec K) ops io vr, range_scan_vaet = on_disk_scan (vaet_codec K) ops io rr\<rparr>)"

definition committed_fact_loader :: "crates \<Rightarrow> 'b backend_ops \<Rightarrow> 'b io \<Rightarrow> u64 \<Rightarrow> fact_reader" where
  "committed_fact_loader K ops = (\<lambda>(b, c) n.
     \<lparr>resolve = \<lambda>r. and_then (fst (get_or_load (page_id r) (read_page ops b) c)) (\<lambda>page. read_slot (fact_dec K) page (slot_index r)),
      stream_all = read_all_from_pages (fact_dec K) (read_page ops b) 1 n,
      committed_page_count = n\<rparr>)"

definition wire :: "crates \<Rightarrow> 'b storage_backend \<Rightarrow> 'b persistent \<Rightarrow> 'b persistent" where
  "wire K B P = P\<lparr>storage := (storage P)\<lparr>data := (data (storage P))\<lparr>
     committed := (if has_reader P then Some (committed_fact_loader K (page_ops B) (pf_io P) (committed_fact_pages P)) else None),
     committed_index_reader := map_option (on_disk_index_reader K (page_ops B) (pf_io P)) (index_roots P)\<rparr>\<rparr>\<rparr>"

section \<open>Checksums\<close>

definition hash_pages :: "(u64 \<Rightarrow> bytes result) \<Rightarrow> bytes \<Rightarrow> u64 \<Rightarrow> u64 \<Rightarrow> bytes result" where
  "hash_pages rd hasher first_page num_pages =
     and_then (collect_map (\<lambda>i. and_then (checked_add (Stg 21) first_page (of_nat i)) rd) [0..<unat num_pages]) (\<lambda>ps.
       Ok (hasher @ concat ps))"

definition compute_page_checksum :: "crates \<Rightarrow> (u64 \<Rightarrow> bytes result) \<Rightarrow> u64 \<Rightarrow> u64 \<Rightarrow> u32 result" where
  "compute_page_checksum K rd first_page num_pages =
     and_then (hash_pages rd [] first_page num_pages) (\<lambda>h. Ok (crc32 K h))"

definition compute_header_checksum_from_bytes :: "crates \<Rightarrow> bytes \<Rightarrow> u32" where
  "compute_header_checksum_from_bytes K bs =
     crc32 K (take 80 (if length bs < 84 then bs @ replicate (84 - length bs) 0 else bs))"

section \<open>Index entries\<close>

text \<open>
  The entries of a batch of facts, sorted by key. The source sorts unstably: among equal keys
  the order is any; the theorems are about distinct keys, where there is no choice.
\<close>

definition vaet_entries_of :: "(fact \<times> fact_ref) list \<Rightarrow> (vaet_key \<times> fact_ref) list" where
  "vaet_entries_of = List.map_filter (\<lambda>(f, r). case val f of VRef target \<Rightarrow> Some (vaet_key_of target f, r) | _ \<Rightarrow> None)"

definition build_sorted_index_entries :: "fact list \<Rightarrow> fact_ref list \<Rightarrow>
    (eavt_key \<times> fact_ref) list \<times> (aevt_key \<times> fact_ref) list \<times> (avet_key \<times> fact_ref) list \<times> (vaet_key \<times> fact_ref) list" where
  "build_sorted_index_entries fs refs =
     (sort_key fst (map (\<lambda>(f, r). (eavt_key_of f, r)) (zip fs refs)),
      sort_key fst (map (\<lambda>(f, r). (aevt_key_of f, r)) (zip fs refs)),
      sort_key fst (map (\<lambda>(f, r). (avet_key_of f, r)) (zip fs refs)),
      sort_key fst (vaet_entries_of (zip fs refs)))"

section \<open>Saving\<close>

definition sync_io :: "'b storage_backend \<Rightarrow> 'b io \<Rightarrow> unit result \<times> 'b io" where
  "sync_io B = (\<lambda>(b, c). case sync_op B b of (r, b') \<Rightarrow> (r, (b', c)))"

definition pure_io :: "'a result \<Rightarrow> 'b io \<Rightarrow> ('a result \<times> 'b io) option" where
  "pure_io r io = Some (r, io)"

text \<open>The header as \<^verbatim>\<open>save\<close> reads it.\<close>

definition current_header :: "'b storage_backend \<Rightarrow> 'b \<Rightarrow> file_header result" where
  "current_header B b = (case read_page (page_ops B) b 0 of
      Inr bs \<Rightarrow> from_bytes bs
    | Inl _ \<Rightarrow> if is_new_op B b then Ok file_header_new else Err (Stg 10))"

definition old_leaves :: "'b backend_ops \<Rightarrow> u64 \<Rightarrow> 'b io \<Rightarrow> (bytes list result \<times> 'b io) option" where
  "old_leaves ops root io = (if root = 0 then Some (Ok [], io) else collect_leaf_pages ops root io)"

definition all_old_leaves :: "'b backend_ops \<Rightarrow> file_header \<Rightarrow> 'b io \<Rightarrow>
    ((bytes list \<times> bytes list \<times> bytes list \<times> bytes list) result \<times> 'b io) option" where
  "all_old_leaves ops h io =
     and_run (old_leaves ops (eavt_root_page h) io) (\<lambda>old_eavt io.
     and_run (old_leaves ops (aevt_root_page h) io) (\<lambda>old_aevt io.
     and_run (old_leaves ops (avet_root_page h) io) (\<lambda>old_avet io.
     and_run (old_leaves ops (vaet_root_page h) io) (\<lambda>old_vaet io.
       Some (Ok (old_eavt, old_aevt, old_avet, old_vaet), io)))))"

text \<open>The new fact pages go straight to the backend; the cache has been invalidated from there on.\<close>

fun write_fact_pages :: "'b backend_ops \<Rightarrow> u64 \<Rightarrow> nat \<Rightarrow> bytes list \<Rightarrow> 'b io \<Rightarrow> unit result \<times> 'b io" where
  "write_fact_pages ops start i [] io = (Ok (), io)"
| "write_fact_pages ops start i (page # rest) io = (case checked_add (Stg 22) start (of_nat i) of
      Inl e \<Rightarrow> (Err e, io)
    | Inr p \<Rightarrow> (case write_page ops p page (fst io) of
        (Inl e, b) \<Rightarrow> (Err e, (b, snd io))
      | (Inr _, b) \<Rightarrow> write_fact_pages ops start (i + 1) rest (b, snd io)))"

definition rebuild_all :: "crates \<Rightarrow> 'b backend_ops \<Rightarrow> bytes list \<times> bytes list \<times> bytes list \<times> bytes list \<Rightarrow>
    fact list \<Rightarrow> fact_ref list \<Rightarrow> u64 \<Rightarrow> 'b io \<Rightarrow> (roots \<times> u64) result \<times> 'b io" where
  "rebuild_all K ops = (\<lambda>(old_eavt, old_aevt, old_avet, old_vaet) fs refs start io.
     case build_sorted_index_entries fs refs of (pending_eavt, pending_aevt, pending_avet, pending_vaet) \<Rightarrow>
     and_io (rebuild_btree_incremental (eavt_codec K) ops old_eavt pending_eavt start io) (\<lambda>(er, next1) io.
     and_io (rebuild_btree_incremental (aevt_codec K) ops old_aevt pending_aevt next1 io) (\<lambda>(ar, next2) io.
     and_io (rebuild_btree_incremental (avet_codec K) ops old_avet pending_avet next2 io) (\<lambda>(vr, next3) io.
     and_io (rebuild_btree_incremental (vaet_codec K) ops old_vaet pending_vaet next3 io) (\<lambda>(rr, next4) io.
       (Ok ((er, ar, vr, rr), next4), io))))))"

text \<open>
  Steps A to D: from the pages as they are to the new fact and index pages, all synced. It
  returns the old header, the roots, the end of the file and the number of fact pages.
\<close>

definition write_checkpoint :: "crates \<Rightarrow> 'b storage_backend \<Rightarrow> u64 \<Rightarrow> fact list \<Rightarrow> 'b io \<Rightarrow>
    ((file_header \<times> roots \<times> u64 \<times> u64 \<times> u64) result \<times> 'b io) option" where
  "write_checkpoint K B old_fact_page_count pending io =
     (let ops = page_ops B in
     and_run (pure_io (checked_add (Stg 19) 1 old_fact_page_count) io) (\<lambda>new_fact_start io.
     and_run (pure_io (current_header B (fst io)) io) (\<lambda>curr_header io.
     and_run (all_old_leaves ops curr_header io) (\<lambda>old (b, c).
     and_run (pure_io (pack_facts (fact_enc K) pending new_fact_start) (b, invalidate_from new_fact_start c)) (\<lambda>(new_pages, new_refs) io.
     and_run (Some (write_fact_pages ops new_fact_start 0 new_pages io)) (\<lambda>_ io.
     and_run (pure_io (checked_add (Internal 48) old_fact_page_count (of_nat (length new_pages))) io) (\<lambda>total_fact_pages io.
     and_run (Some (sync_io B io)) (\<lambda>_ io.
     and_run (pure_io (checked_add (Stg 17) 1 total_fact_pages) io) (\<lambda>index_start io.
     and_run (Some (rebuild_all K ops old pending new_refs index_start io)) (\<lambda>(roots, next4) io.
     and_run (Some (sync_io B io)) (\<lambda>_ io.
       Some (Ok (curr_header, roots, next4, total_fact_pages, of_nat (length new_pages)), io))))))))))))"

text \<open>The hasher over the fact pages: the kept state extended by the new pages, or a full pass.\<close>

definition fact_pages_hash :: "(u64 \<Rightarrow> bytes result) \<Rightarrow> (u64 \<times> bytes) option \<Rightarrow> u64 \<Rightarrow> u64 \<Rightarrow> u64 \<Rightarrow> bytes result" where
  "fact_pages_hash rd prefix_crc old_count new_len total_fact_pages = (case prefix_crc of
      Some (n, prefix) \<Rightarrow> if n = old_count then hash_pages rd prefix (1 + old_count) new_len else hash_pages rd [] 1 total_fact_pages
    | None \<Rightarrow> hash_pages rd [] 1 total_fact_pages)"

definition header_page :: "file_header \<Rightarrow> bytes" where
  "header_page h = to_bytes h @ replicate (PAGE_SIZE - length (to_bytes h)) 0"

definition sealed :: "crates \<Rightarrow> file_header \<Rightarrow> file_header" where
  "sealed K h = h\<lparr>header_checksum := compute_header_checksum (crc32 K) h\<rparr>"

definition write_header_page :: "'b storage_backend \<Rightarrow> file_header \<Rightarrow> 'b io \<Rightarrow> unit result \<times> 'b io" where
  "write_header_page B h = (\<lambda>(b, c). case write_page (page_ops B) 0 (header_page h) b of
      (Inl e, b') \<Rightarrow> (Err e, (b', c)) | (Inr _, b') \<Rightarrow> sync_io B (b', c))"

definition roots_in :: "roots \<Rightarrow> file_header \<Rightarrow> file_header" where
  "roots_in = (\<lambda>(er, ar, vr, rr) h. h\<lparr>eavt_root_page := er, aevt_root_page := ar, avet_root_page := vr, vaet_root_page := rr\<rparr>)"

text \<open>Checksum and step E, the commit point. The result is the hasher over the fact pages.\<close>

definition commit_checkpoint :: "crates \<Rightarrow> 'b storage_backend \<Rightarrow> (u64 \<times> bytes) option \<Rightarrow> u64 \<Rightarrow> nat \<Rightarrow> u64 \<Rightarrow>
    file_header \<Rightarrow> roots \<Rightarrow> u64 \<Rightarrow> u64 \<Rightarrow> u64 \<Rightarrow> 'b io \<Rightarrow> (bytes result \<times> 'b io) option" where
  "commit_checkpoint K B prefix_crc old_count pending_len tx_now curr_header roots next4 total_fact_pages new_len io =
     (let rd = read_page (page_ops B) (fst io); index_start = 1 + total_fact_pages in
     and_run (pure_io (fact_pages_hash rd prefix_crc old_count new_len total_fact_pages) io) (\<lambda>new_prefix io.
     and_run (pure_io (hash_pages rd new_prefix index_start (u64_saturating_sub next4 index_start)) io) (\<lambda>h io.
     and_run (pure_io (checked_add (Internal 48) (node_count curr_header) (of_nat pending_len)) io) (\<lambda>nodes io.
     let header = sealed K (roots_in roots (file_header_new\<lparr>page_count := next4, node_count := nodes,
           last_checkpointed_tx_count := tx_now, index_checksum := crc32 K h,
           fact_page_format := FACT_PAGE_FORMAT_PACKED, fact_page_count := total_fact_pages\<rparr>))
     in and_run (Some (write_header_page B header io)) (\<lambda>_ io. Some (Ok new_prefix, io))))))"

definition save :: "crates \<Rightarrow> 'b storage_backend \<Rightarrow> ('b persistent, unit) run" where
  "save K B P =
     (if \<not> dirty P then Some (Ok (), P)
      else let pending = guard_pending_facts (storage P); old_count = committed_fact_pages P in
        case write_checkpoint K B old_count pending (pf_io P) of
          None \<Rightarrow> None
        | Some (Inl e, io) \<Rightarrow> Some (Err e, wire K B (P\<lparr>pf_io := io\<rparr>))
        | Some (Inr (curr_header, roots, next4, total_fact_pages, new_len), io) \<Rightarrow>
            (case commit_checkpoint K B (fact_prefix_crc P) old_count (length pending) (current_tx_count (storage P))
                    curr_header roots next4 total_fact_pages new_len io of
               None \<Rightarrow> None
             | Some (Inl e, io) \<Rightarrow> Some (Err e, wire K B (P\<lparr>pf_io := io, fact_prefix_crc := None\<rparr>))
             | Some (Inr new_prefix, io) \<Rightarrow>
                 let loader = committed_fact_loader K (page_ops B) io total_fact_pages;
                     index_reader = on_disk_index_reader K (page_ops B) io roots
                 in Some (Ok (), P\<lparr>pf_io := io, committed_fact_pages := total_fact_pages,
                      fact_prefix_crc := Some (total_fact_pages, new_prefix),
                      last_checkpointed := current_tx_count (storage P), dirty := False, has_reader := True,
                      index_roots := Some roots, storage := guard_publish loader index_reader (storage P)\<rparr>)))"

definition drop_storage :: "crates \<Rightarrow> 'b storage_backend \<Rightarrow> 'b persistent \<Rightarrow> 'b persistent option" where
  "drop_storage K B P = (if dirty P then map_option snd (save K B P) else Some P)"

definition mark_dirty :: "'b persistent \<Rightarrow> 'b persistent" where
  "mark_dirty P = P\<lparr>dirty := True\<rparr>"

definition discard :: "'b persistent \<Rightarrow> 'b persistent" where
  "discard P = P\<lparr>dirty := False\<rparr>"

section \<open>Loading\<close>

definition first_index_page :: "file_header \<Rightarrow> u64" where
  "first_index_page h = (case filter (\<lambda>p. 0 < p) [eavt_root_page h, aevt_root_page h, avet_root_page h, vaet_root_page h] of
      [] \<Rightarrow> page_count h | p # ps \<Rightarrow> fold min ps p)"

definition num_fact_pages :: "file_header \<Rightarrow> u64" where
  "num_fact_pages h = (if 6 \<le> version h \<and> 0 < fact_page_count h then fact_page_count h
     else u64_saturating_sub (first_index_page h) 1)"

text \<open>
  Whether the indexes have to be rebuilt, and the hasher over the fact pages to keep: a checksum
  over all data pages, else (older files) over the fact pages only.
\<close>

definition check_integrity :: "crates \<Rightarrow> (u64 \<Rightarrow> bytes result) \<Rightarrow> file_header \<Rightarrow> u64 \<Rightarrow> (u64 \<times> bytes) option \<Rightarrow>
    (bool \<times> (u64 \<times> bytes) option) result" where
  "check_integrity K rd h n kept =
     (if n = 0 \<or> eavt_root_page h = 0 then Ok (0 < n, kept)
      else let stored = index_checksum h; total_data_pages = u64_saturating_sub (page_count h) 1 in
        and_then
          (if n \<le> total_data_pages then
             and_then (hash_pages rd [] 1 n) (\<lambda>prefix.
             and_then (checked_add (Stg 21) n 1) (\<lambda>index_start.
             and_then (hash_pages rd prefix index_start (u64_saturating_sub total_data_pages n)) (\<lambda>all.
               Ok (crc32 K all, Some prefix))))
           else and_then (compute_page_checksum K rd 1 total_data_pages) (\<lambda>c. Ok (c, None)))
          (\<lambda>(full_checksum, fact_prefix).
             if full_checksum = stored then Ok (False, map_option (Pair n) fact_prefix)
             else and_then (compute_page_checksum K rd 1 n) (\<lambda>fact_checksum. Ok (fact_checksum \<noteq> stored, kept))))"

definition build_tree :: "'k key_codec \<Rightarrow> 'b backend_ops \<Rightarrow> ('k \<times> fact_ref) list \<Rightarrow> u64 \<Rightarrow> 'b io \<Rightarrow> (u64 \<times> u64) result \<times> 'b io" where
  "build_tree C ops es start io = (case btree_entries C es of Inl e \<Rightarrow> (Err e, io) | Inr bks \<Rightarrow> build_btree ops bks start io)"

definition build_all :: "crates \<Rightarrow> 'b backend_ops \<Rightarrow>
    (eavt_key \<times> fact_ref) list \<times> (aevt_key \<times> fact_ref) list \<times> (avet_key \<times> fact_ref) list \<times> (vaet_key \<times> fact_ref) list \<Rightarrow>
    u64 \<Rightarrow> 'b io \<Rightarrow> (roots \<times> u64) result \<times> 'b io" where
  "build_all K ops = (\<lambda>(es, as, vs, rs) start io.
     and_io (build_tree (eavt_codec K) ops es start io) (\<lambda>(er, next1) io.
     and_io (build_tree (aevt_codec K) ops as next1 io) (\<lambda>(ar, next2) io.
     and_io (build_tree (avet_codec K) ops vs next2 io) (\<lambda>(vr, next3) io.
     and_io (build_tree (vaet_codec K) ops rs next3 io) (\<lambda>(rr, next4) io.
       (Ok ((er, ar, vr, rr), next4), io))))))"

text \<open>The header over freshly built trees, shared by the rebuild on load and the migration from format 5.\<close>

definition write_rebuilt :: "crates \<Rightarrow> 'b storage_backend \<Rightarrow> u64 \<Rightarrow> u64 \<Rightarrow> u8 \<Rightarrow> u64 \<Rightarrow> roots \<times> u64 \<Rightarrow> 'b io \<Rightarrow> roots result \<times> 'b io" where
  "write_rebuilt K B nodes last_tx fmt n = (\<lambda>(roots, next4) io.
     case compute_page_checksum K (read_page (page_ops B) (fst io)) 1 (u64_saturating_sub next4 1) of
       Inl e \<Rightarrow> (Err e, io)
     | Inr checksum \<Rightarrow>
         and_io (write_header_page B (sealed K (roots_in roots (file_header_new\<lparr>page_count := next4, node_count := nodes,
             last_checkpointed_tx_count := last_tx, index_checksum := checksum, fact_page_format := fmt,
             fact_page_count := n\<rparr>))) io) (\<lambda>_ io. (Ok roots, io)))"

definition rebuild_indexes :: "crates \<Rightarrow> 'b storage_backend \<Rightarrow> u64 \<Rightarrow> 'b io \<Rightarrow> (roots \<times> u64) result \<times> 'b io" where
  "rebuild_indexes K B n io =
     (case read_all_with_refs (fact_dec K) (read_page (page_ops B) (fst io)) 1 n of
        Inl e \<Rightarrow> (Err e, io)
      | Inr (fs, refs) \<Rightarrow>
          let max_tx = fold max (map tx_count fs) 0 in
          case checked_add (Stg 17) 1 n of
            Inl e \<Rightarrow> (Err e, io)
          | Inr index_start \<Rightarrow>
              and_io (build_all K (page_ops B) (build_sorted_index_entries fs refs) index_start io) (\<lambda>built io.
              and_io (write_rebuilt K B (of_nat (length fs)) max_tx FACT_PAGE_FORMAT_PACKED n built io) (\<lambda>roots io.
                (Ok (roots, max_tx), io))))"

definition recheck_header :: "crates \<Rightarrow> (u64 \<Rightarrow> bytes result) \<Rightarrow> file_header \<Rightarrow> unit result" where
  "recheck_header K rd h =
     (if 7 \<le> version h \<and> header_checksum h \<noteq> 0 then
        and_then (rd 0) (\<lambda>bs. and_then (from_bytes bs) (\<lambda>current.
          if header_checksum current \<noteq> compute_header_checksum_from_bytes K bs then Err (Internal 53) else Ok ()))
      else Ok ())"

text \<open>\<^verbatim>\<open>load\<close> for files with packed pages, formats 6 and 7.\<close>

definition load_packed :: "crates \<Rightarrow> 'b storage_backend \<Rightarrow> file_header \<Rightarrow> 'b persistent \<Rightarrow> unit result \<times> 'b persistent" where
  "load_packed K B h P =
     (let n = num_fact_pages h; rd = read_page (page_ops B) (fst (pf_io P)); P1 = P\<lparr>committed_fact_pages := n\<rparr> in
      case check_integrity K rd h n (fact_prefix_crc P) of
        Inl e \<Rightarrow> (Err e, wire K B P1)
      | Inr (needs_rebuild, prefix) \<Rightarrow>
          let P2 = P1\<lparr>fact_prefix_crc := prefix, has_reader := True,
                storage := restore_tx_counter_from (last_checkpointed_tx_count h) (storage P1)\<rparr> in
          if needs_rebuild then
            (case rebuild_indexes K B n (pf_io P2) of
               (Inl e, io) \<Rightarrow> (Err e, wire K B (P2\<lparr>pf_io := io\<rparr>))
             | (Inr (roots, max_tx), io) \<Rightarrow>
                 (Ok (), wire K B (P2\<lparr>pf_io := io, last_checkpointed := max_tx, index_roots := Some roots, dirty := False,
                    storage := restore_tx_counter_from max_tx (storage P2)\<rparr>)))
          else
            (case recheck_header K rd h of
               Inl e \<Rightarrow> (Err e, wire K B P2)
             | Inr _ \<Rightarrow>
                 (Ok (), wire K B (P2\<lparr>dirty := False,
                    index_roots := (if eavt_root_page h \<noteq> 0
                      then Some (eavt_root_page h, aevt_root_page h, avet_root_page h, vaet_root_page h)
                      else index_roots P2)\<rparr>))))"

text \<open>Formats up to 4, one fact per page: pages that do not decode are skipped with a warning.\<close>

fun load_one_per_page_legacy :: "crates \<Rightarrow> (u64 \<Rightarrow> bytes result) \<Rightarrow> u64 list \<Rightarrow> fact_storage \<Rightarrow> unit result \<times> fact_storage" where
  "load_one_per_page_legacy K rd [] s = (Ok (), s)"
| "load_one_per_page_legacy K rd (p # ps) s = (case rd p of
      Inl e \<Rightarrow> (Err e, s)
    | Inr page \<Rightarrow> (case fact_dec K page of
        Inl _ \<Rightarrow> load_one_per_page_legacy K rd ps s
      | Inr f \<Rightarrow> (case load_fact f s of
          (Inl e, s') \<Rightarrow> (Err e, s')
        | (Inr _, s') \<Rightarrow> load_one_per_page_legacy K rd ps s')))"

fun read_v1_facts :: "crates \<Rightarrow> (u64 \<Rightarrow> bytes result) \<Rightarrow> u64 list \<Rightarrow> fact_v1 list result" where
  "read_v1_facts K rd [] = Ok []"
| "read_v1_facts K rd (p # ps) = and_then (rd p) (\<lambda>page. and_then (read_v1_facts K rd ps) (\<lambda>fs.
     Ok (case v1_dec K page of Inl _ \<Rightarrow> fs | Inr f \<Rightarrow> f # fs)))"

text \<open>Facts of one transaction share a count; counts are handed out in the order of the transaction identifiers.\<close>

fun number_v1_facts :: "u64 \<Rightarrow> u64 option \<Rightarrow> fact_v1 list \<Rightarrow> fact list" where
  "number_v1_facts n prev [] = []"
| "number_v1_facts n prev (v1 # rest) =
     (let n' = (if prev \<noteq> Some (v1_tx_id v1) then u64_saturating_add n 1 else n) in
      (fact_with_valid_time (v1_entity v1) (v1_attribute v1) (v1_value v1) (v1_tx_id v1) n'
         (I64 (v1_tx_id v1)) VALID_TIME_FOREVER)\<lparr>asserted := v1_asserted v1\<rparr>
      # number_v1_facts n' (Some (v1_tx_id v1)) rest)"

fun load_each :: "fact list \<Rightarrow> fact_storage \<Rightarrow> unit result \<times> fact_storage" where
  "load_each [] s = (Ok (), s)"
| "load_each (f # fs) s = (case load_fact f s of (Inl e, s') \<Rightarrow> (Err e, s') | (Inr _, s') \<Rightarrow> load_each fs s')"

text \<open>\<^verbatim>\<open>storage.clear()\<close> also drops the readers.\<close>

definition clear_storage :: "'b persistent \<Rightarrow> 'b persistent" where
  "clear_storage P = P\<lparr>storage := clear (storage P), has_reader := False, index_roots := None\<rparr>"

definition save_loaded :: "crates \<Rightarrow> 'b storage_backend \<Rightarrow> ('b persistent, unit) run" where
  "save_loaded K B P = save K B (mark_dirty (P\<lparr>storage := restore_tx_counter (storage P)\<rparr>))"

definition data_page_ids :: "file_header \<Rightarrow> u64 list" where
  "data_page_ids h = map of_nat [1..<unat (page_count h)]"

definition migrate_v1_to_v2 :: "crates \<Rightarrow> 'b storage_backend \<Rightarrow> ('b persistent, unit) run" where
  "migrate_v1_to_v2 K B P =
     (let rd = read_page (page_ops B) (fst (pf_io P)) in
      case and_then (rd 0) from_bytes of
        Inl e \<Rightarrow> Some (Err e, P)
      | Inr h \<Rightarrow> (case read_v1_facts K rd (data_page_ids h) of
          Inl e \<Rightarrow> Some (Err e, P)
        | Inr v1 \<Rightarrow>
            let P1 = clear_storage P; migrated = number_v1_facts 0 None (sort_key v1_tx_id v1) in
            (case load_each migrated (storage P1) of
               (Inl e, s) \<Rightarrow> Some (Err e, P1\<lparr>storage := s\<rparr>)
             | (Inr _, s) \<Rightarrow> save_loaded K B (P1\<lparr>storage := s\<rparr>))))"

text \<open>The four indexes of a format-5 file, read from their blobs or rebuilt from the facts.\<close>

definition read_old_index :: "(bytes \<Rightarrow> ('k::linorder \<times> fact_ref) list result) \<Rightarrow> (u64 \<Rightarrow> bytes result) \<Rightarrow> u64 \<Rightarrow> ('k, fact_ref) btreemap result" where
  "read_old_index dec rd root = (if 0 < root then read_index_generic dec root rd else Ok [])"

definition index_migrated_fact :: "nat \<times> fact \<Rightarrow> indexes \<Rightarrow> indexes" where
  "index_migrated_fact = (\<lambda>(i, f). indexes_insert f \<lparr>page_id = 1, slot_index = of_nat i\<rparr>)"

definition indexes_from_facts :: "fact list \<Rightarrow> indexes result" where
  "indexes_from_facts fs =
     (if length fs \<le> 2 ^ 16 then Ok (fold index_migrated_fact (zip [0..<length fs] fs) indexes_new) else Err (Stg 20))"

definition migrated_indexes :: "crates \<Rightarrow> (u64 \<Rightarrow> bytes result) \<Rightarrow> file_header \<Rightarrow> u64 \<Rightarrow> indexes result" where
  "migrated_indexes K rd h n =
     and_then
       (if 0 < n \<and> 0 < index_checksum h then
          and_then (compute_page_checksum K rd 1 (u64_saturating_sub (page_count h) 1)) (\<lambda>full.
            if full = index_checksum h then Ok True
            else and_then (compute_page_checksum K rd 1 n) (\<lambda>fact_only. Ok (fact_only = index_checksum h)))
        else Ok False) (\<lambda>use_old_indexes.
     if use_old_indexes then
       and_then (read_old_index (eavt_blob K) rd (eavt_root_page h)) (\<lambda>e.
       and_then (read_old_index (aevt_blob K) rd (aevt_root_page h)) (\<lambda>a.
       and_then (read_old_index (avet_blob K) rd (avet_root_page h)) (\<lambda>av.
       and_then (read_old_index (vaet_blob K) rd (vaet_root_page h)) (\<lambda>v.
         Ok \<lparr>eavt = e, aevt = a, avet = av, vaet = v\<rparr>))))
     else and_then (read_all_from_pages (fact_dec K) rd 1 n) indexes_from_facts)"

definition migrate_v5_to_v6 :: "crates \<Rightarrow> 'b storage_backend \<Rightarrow> file_header \<Rightarrow> 'b persistent \<Rightarrow> unit result \<times> 'b persistent" where
  "migrate_v5_to_v6 K B h P =
     (let rd = read_page (page_ops B) (fst (pf_io P));
          claimed = u64_saturating_sub (first_index_page h) 1;
          n = (if 0 < claimed then (case rd 1 of Inr _ \<Rightarrow> claimed | Inl _ \<Rightarrow> 0) else claimed);
          P1 = P\<lparr>committed_fact_pages := n\<rparr>
      in case migrated_indexes K rd h n of
           Inl e \<Rightarrow> (Err e, P1)
         | Inr ix \<Rightarrow> (case checked_add (Stg 18) 1 n of
             Inl e \<Rightarrow> (Err e, P1)
           | Inr next_free \<Rightarrow>
               (case and_io (build_all K (page_ops B) (eavt ix, aevt ix, avet ix, vaet ix) next_free (pf_io P1)) (\<lambda>built io.
                       write_rebuilt K B (node_count h) (last_checkpointed_tx_count h) (fact_page_format h) n built io) of
                  (Inl e, io) \<Rightarrow> (Err e, P1\<lparr>pf_io := io\<rparr>)
                | (Inr roots, io) \<Rightarrow>
                    (Ok (), wire K B (P1\<lparr>pf_io := io, last_checkpointed := last_checkpointed_tx_count h, has_reader := True,
                       index_roots := Some roots, dirty := False,
                       storage := restore_tx_counter_from (last_checkpointed_tx_count h) (storage P1)\<rparr>)))))"

definition load :: "crates \<Rightarrow> 'b storage_backend \<Rightarrow> ('b persistent, unit) run" where
  "load K B P =
     (let rd = read_page (page_ops B) (fst (pf_io P)) in
      case and_then (rd 0) (\<lambda>bs. and_then (from_bytes bs) (\<lambda>h. and_then (validate h) (\<lambda>_. Ok (h, bs)))) of
        Inl e \<Rightarrow> Some (Err e, P)
      | Inr (h, raw) \<Rightarrow>
          if version h < 2 then migrate_v1_to_v2 K B P
          else if version h = 5 then Some (migrate_v5_to_v6 K B h P)
          else if 7 \<le> version h \<and> header_checksum h \<noteq> 0 \<and> header_checksum h \<noteq> compute_header_checksum_from_bytes K raw
          then Some (Err (Internal 53), P)
          else
            let P1 = clear_storage (P\<lparr>last_checkpointed := last_checkpointed_tx_count h\<rparr>) in
            if fact_page_format h = 0 \<or> fact_page_format h = FACT_PAGE_FORMAT_ONE_PER_PAGE then
              (case load_one_per_page_legacy K rd (data_page_ids h) (storage P1) of
                 (Inl e, s) \<Rightarrow> Some (Err e, P1\<lparr>storage := s\<rparr>)
               | (Inr _, s) \<Rightarrow> save_loaded K B (P1\<lparr>storage := s\<rparr>))
            else Some (load_packed K B h P1))"

definition persistent_new :: "crates \<Rightarrow> 'b storage_backend \<Rightarrow> 'b \<Rightarrow> nat \<Rightarrow> ('b persistent result) option" where
  "persistent_new K B b cap =
     (let P = \<lparr>pf_io = (b, page_cache_new cap), storage = fact_storage_new, dirty = False, last_checkpointed = 0,
        committed_fact_pages = 0, fact_prefix_crc = None, has_reader = False, index_roots = None\<rparr>
      in case backend_page_count (page_ops B) b of
           Inl e \<Rightarrow> Some (Err e)
         | Inr total_pages \<Rightarrow>
             if \<not> is_new_op B b \<or> 1 < total_pages then
               map_option (\<lambda>(r, P'). case r of Inl e \<Rightarrow> Err e | Inr _ \<Rightarrow> Ok P') (load K B P)
             else Some (Ok P))"

end
