(* ===== verification/Tree_End.thy ===== *)
theory Tree_End
  imports Persistent
begin

text \<open>
  The pages of a tree end with its root: what the builders return as the next free page is the
  page after the root. So a file that holds the root holds every page of the tree.
\<close>

lemma unat_add_lt: "unat (a :: u64) + unat b < 2 ^ 64 \<Longrightarrow> unat (a + b) = unat a + unat b"
  by (simp add: unat_word_ariths(1))

lemma and_io_Inr: "and_io x f = (Ok y, s') \<longleftrightarrow> (\<exists>a s. x = (Ok a, s) \<and> f a s = (Ok y, s'))"
  by (auto simp: and_io_def split: prod.splits sum.splits)

definition ends :: "(u64 \<times> bytes) list \<Rightarrow> u64 \<Rightarrow> bool" where
  "ends infos np \<longleftrightarrow> (infos \<noteq> [] \<longrightarrow> fst (last infos) + 1 = np)"

lemma build_level_last:
  "build_level ops lev np io = (Ok (lev', np'), io') \<Longrightarrow> lev \<noteq> [] \<Longrightarrow> lev' \<noteq> [] \<and> fst (last lev') + 1 = np'"
proof (induction ops lev np io arbitrary: lev' np' io' rule: build_level.induct)
  case (2 ops p k xs np io)
  obtain t r where tr: "take_children 0 0 xs = (t, r)" by (metis prod.exhaust)
  from "2.prems"(1) obtain io1 lev1 where
    l: "build_level ops r (np + 1) io1 = (Ok (lev1, np'), io')" "lev' = (np, k) # lev1"
    by (auto simp: tr and_io_Inr)
  show ?case
  proof (cases "r = []")
    case True
    with l show ?thesis by simp
  next
    case False
    with "2.IH" [OF tr [symmetric] l(1)] l(2) show ?thesis by simp
  qed
qed simp

lemma build_internal_levels_root:
  "build_internal_levels ops lev np io = (Ok (root, np'), io') \<Longrightarrow> ends lev np \<Longrightarrow> root + 1 = np'"
proof (induction ops lev np io arbitrary: root np' io' rule: build_internal_levels.induct)
  case (1 ops lev np io)
  from "1.prems"(1) consider p k where "lev = [(p, k)]" "root = p" "np' = np"
    | lev1 np1 io1 x y zs where "lev = x # y # zs" "build_level ops lev np io = (Ok (lev1, np1), io1)"
      "build_internal_levels ops lev1 np1 io1 = (Ok (root, np'), io')"
    by (subst (asm) build_internal_levels.simps) (auto split: list.splits prod.splits sum.splits)
  then show ?case
  proof cases
    case 1
    with "1.prems"(2) show ?thesis by (simp add: ends_def)
  next
    case 2
    have "ends lev1 np1" using build_level_last [OF 2(2)] 2(1) by (simp add: ends_def)
    show ?thesis by (cases x) (rule "1.IH" [OF _ _ _ 2(2) [symmetric] refl refl 2(3) \<open>ends lev1 np1\<close>], use 2(1) in auto)
  qed
qed

lemma flush_leaf_ends:
  "flush_leaf ops st io = (Ok st', io') \<Longrightarrow> ends (leaf_infos st') (build_next st')"
  by (auto simp: flush_leaf_def and_io_Inr ends_def split: option.splits)

lemma leaf_loop_ends:
  "leaf_loop ops xs st io = (Ok st', io') \<Longrightarrow> ends (leaf_infos st) (build_next st) \<Longrightarrow> ends (leaf_infos st') (build_next st')"
proof (induction ops xs st io rule: leaf_loop.induct)
  case (2 ops x xs st io)
  from "2.prems"(1) obtain st1 io1 where s: "(if cur_entries st \<noteq> [] \<and> leaf_overflows (length (cur_entries st)) (cur_data_bytes st) (length (fst x))
      then flush_leaf ops st io else (Ok st, io)) = (Ok st1, io1)" "leaf_loop ops xs (add_entry x st1) io1 = (Ok st', io')"
    by (auto simp: and_io_Inr)
  from s(1) "2.prems"(2) have "ends (leaf_infos st1) (build_next st1)"
    by (auto split: if_splits dest: flush_leaf_ends)
  then show ?case using "2.IH" [OF s(2)] by (simp add: add_entry_def split: prod.splits)
qed simp

lemma build_btree_root:
  assumes "build_btree ops bks start io = (Ok (root, np), io')"
  shows "root + 1 = np"
proof -
  let ?st0 = "\<lparr>leaf_infos = [], cur_entries = [], cur_data_bytes = 0, cur_first_key = None, build_next = start\<rparr>"
  from assms obtain st io1 where l: "leaf_loop ops bks ?st0 io = (Ok st, io1)" and
    rest: "(if cur_entries st = [] \<and> leaf_infos st = [] then
       and_io (write_leaf_page ops (build_next st) [] 0 io1) (\<lambda>_ io. (Ok (build_next st, build_next st + 1), io))
     else and_io (if cur_entries st \<noteq> [] then flush_leaf ops st io1 else (Ok st, io1)) (\<lambda>st io.
       and_io (link_leaves ops (leaf_infos st) io) (\<lambda>_ io. build_internal_levels ops (leaf_infos st) (build_next st) io))) = (Ok (root, np), io')"
    by (auto simp: build_btree_def and_io_Inr)
  have e: "ends (leaf_infos st) (build_next st)" by (rule leaf_loop_ends [OF l]) (simp add: ends_def)
  show ?thesis
  proof (cases "cur_entries st = [] \<and> leaf_infos st = []")
    case True
    with rest show ?thesis by (auto simp: and_io_Inr)
  next
    case False
    with rest obtain st1 io2 io3 where f: "(if cur_entries st \<noteq> [] then flush_leaf ops st io1 else (Ok st, io1)) = (Ok st1, io2)"
      "build_internal_levels ops (leaf_infos st1) (build_next st1) io3 = (Ok (root, np), io')" by (auto simp: and_io_Inr)
    from f(1) False e have "ends (leaf_infos st1) (build_next st1)"
      by (auto split: if_splits dest: flush_leaf_ends)
    with build_internal_levels_root [OF f(2)] show ?thesis .
  qed
qed

definition em_ends :: "leaf_emitter \<Rightarrow> bool" where
  "em_ends em \<longleftrightarrow> ends (em_infos em) (em_next em)"

lemma release_held_keeps:
  "release_held ops q em io = (Ok em', io') \<Longrightarrow> em_infos em' = em_infos em \<and> em_next em' = em_next em"
  by (auto simp: release_held_def and_io_Inr split: option.splits prod.splits if_splits)

lemma em_push_ends: "em_push ops page k em io = (Ok em', io') \<Longrightarrow> em_ends em'"
  by (auto simp: em_push_def Let_def and_io_Inr em_ends_def ends_def dest: release_held_keeps)

lemma emit_page_ends: "emit_page ops cur k em io = (Ok em', io') \<Longrightarrow> em_ends em'"
  by (auto simp: emit_page_def split: sum.splits dest: em_push_ends)

lemma emit_loop_ends:
  "emit_loop C ops target xs cur cur_size first em io = (Ok em', io') \<Longrightarrow> em_ends em \<Longrightarrow> em_ends em'"
proof (induction C ops target xs cur cur_size first em io rule: emit_loop.induct)
  case (2 C ops target entry key xs cur cur_size first em io)
  show ?case
  proof (cases "cur \<noteq> [] \<and> target < cur_size + (length entry + SLOT_SIZE)")
    case True
    with "2.prems"(1) obtain f em1 io1 k where f: "first = Some f" "emit_page ops cur f em io = (Ok em1, io1)" "enc_key C key = Ok k"
      "emit_loop C ops target xs [entry] (length entry + SLOT_SIZE) (Some k) em1 io1 = (Ok em', io')"
      by (cases first; cases "enc_key C key") (auto simp: and_io_Inr)
    show ?thesis by (rule "2.IH"(1) [OF refl True f(1) f(3,4) emit_page_ends [OF f(2)]])
  next
    case False
    with "2.prems"(1) obtain f where f: "(case first of Some f \<Rightarrow> Ok f | None \<Rightarrow> enc_key C key) = Ok f"
      "emit_loop C ops target xs (cur @ [entry]) (cur_size + (length entry + SLOT_SIZE)) (Some f) em io = (Ok em', io')"
      by (auto split: if_splits sum.splits)
    show ?thesis by (rule "2.IH"(2) [OF refl False f(1,2) "2.prems"(2)])
  qed
qed (auto split: option.splits dest: emit_page_ends)

lemma emit_packed_ends:
  "emit_packed C ops es em io = (Ok em', io') \<Longrightarrow> em_ends em \<Longrightarrow> em_ends em'"
  by (auto simp: emit_packed_def Let_def split: sum.splits if_splits dest: emit_loop_ends)

lemma rebuild_loop_ends:
  "rebuild_loop C ops leaves pending em io = (Ok em', io') \<Longrightarrow> em_ends em \<Longrightarrow> em_ends em'"
proof (induction C ops leaves pending em io rule: rebuild_loop.induct)
  case (2 C ops page fk leaves pending em io)
  let ?below = "\<lambda>x. case leaves of [] \<Rightarrow> True | (_, u) # _ \<Rightarrow> fst x < u"
  from "2.prems"(1) obtain em1 io1 where s: "(if takeWhile ?below pending = [] then
        (case enc_key C fk of Inl e \<Rightarrow> (Err e, io) | Inr k \<Rightarrow> em_push ops page k em io)
      else (case read_leaf_entries (dec_entry C) page of
        Inl e \<Rightarrow> (Err e, io) | Inr old \<Rightarrow> emit_packed C ops (merge_sorted_vecs old (takeWhile ?below pending)) em io)) = (Ok em1, io1)"
    "rebuild_loop C ops leaves (dropWhile ?below pending) em1 io1 = (Ok em', io')"
    unfolding rebuild_loop.simps Let_def and_io_Inr by blast
  from s(1) "2.prems"(2) have "em_ends em1"
    by (auto split: if_splits sum.splits dest: em_push_ends emit_packed_ends)
  with "2.IH" [OF refl refl refl s(2)] show ?case .
qed simp

lemma rebuild_root:
  assumes "rebuild_btree_incremental C ops ps pending start io = (Ok (root, np), io')"
  shows "root + 1 = np"
proof -
  from assms consider bks where "build_btree ops bks start io = (Ok (root, np), io')"
    | leaves em io1 io2 where "rebuild_loop C ops leaves pending \<lparr>em_next = start, held = None, em_infos = []\<rparr> io = (Ok em, io1)"
      "build_internal_levels ops (em_infos em) (em_next em) io2 = (Ok (root, np), io')"
    by (fastforce simp: rebuild_btree_incremental_def and_io_Inr em_finish_def Let_def split: sum.splits if_splits dest: release_held_keeps)
  then show ?thesis
  proof cases
    case 1
    then show ?thesis by (rule build_btree_root)
  next
    case 2
    have "em_ends em" by (rule rebuild_loop_ends [OF 2(1)]) (simp add: em_ends_def ends_def)
    with build_internal_levels_root [OF 2(2)] show ?thesis by (simp add: em_ends_def)
  qed
qed

section \<open>Which pages get cached\<close>

text \<open>
  Building a tree leaves no page behind its end in the cache. Where page numbers of successful
  writes are bounded, as in a file, the running page number does not wrap.
\<close>

definition bounded_writes :: "'b backend_ops \<Rightarrow> bool" where
  "bounded_writes ops \<longleftrightarrow> (\<forall>p d b b'. write_page ops p d b = (Ok (), b') \<longrightarrow> unat p < 2 ^ 52)"

definition cached_below :: "u64 \<Rightarrow> 'b io \<Rightarrow> bool" where
  "cached_below np io \<longleftrightarrow> (\<forall>q \<in> fst ` set (entries (snd io)). q < np)"

lemma fst_set_update: "fst ` set (AList.update k v xs) = insert k (fst ` set xs)"
  by (induction xs) auto

lemma evict_keys: "fst ` set (fst (evict cap es ps)) \<subseteq> fst ` set es"
  by (induction cap es ps rule: evict.induct) (auto simp: delete_filter split: if_splits)

lemma insert_entry_keys: "fst ` set (entries (insert_entry p e c)) \<subseteq> insert p (fst ` set (entries c))"
  using evict_keys [of "capacity c" "entries c" "order c"]
  by (cases "evict (capacity c) (entries c) (order c)") (simp add: insert_entry_def fst_set_update subset_insertI2)

lemma get_or_load_keys: "fst ` set (entries (snd (get_or_load p rd c))) \<subseteq> insert p (fst ` set (entries c))"
  using insert_entry_keys [of p _ c] by (auto simp: get_or_load_def touch_def split: option.splits sum.splits)

lemma put_dirty_keys: "fst ` set (entries (put_dirty p d c)) \<subseteq> insert p (fst ` set (entries c))"
  using insert_entry_keys [of p _ c] by (auto simp: put_dirty_def touch_def fst_set_update split: if_splits option.splits)

lemma cached_below_insert:
  "fst ` set (entries (snd io')) \<subseteq> insert p (fst ` set (entries (snd io))) \<Longrightarrow> cached_below np io \<Longrightarrow> p < np \<Longrightarrow> cached_below np io'"
  unfolding cached_below_def by blast

lemma cached_below_mono: "cached_below np io \<Longrightarrow> np \<le> np' \<Longrightarrow> cached_below np' io"
  unfolding cached_below_def by (meson order_less_le_trans)

lemma load_page_below: "load_page ops p io = (r, io') \<Longrightarrow> cached_below np io \<Longrightarrow> p < np \<Longrightarrow> cached_below np io'"
proof -
  assume l: "load_page ops p io = (r, io')" and b: "cached_below np io" "p < np"
  from l have "snd io' = snd (get_or_load p (read_page ops (fst io)) (snd io))" by (cases io) (auto simp: load_page_def split: prod.splits)
  with get_or_load_keys [of p "read_page ops (fst io)" "snd io"] show ?thesis by (intro cached_below_insert [OF _ b]) simp
qed

lemma write_through_below:
  assumes "bounded_writes ops" "write_through ops p d io = (Ok (), io')"
  shows "cached_below np io \<Longrightarrow> p < np \<Longrightarrow> cached_below np io'" "cached_below p io \<Longrightarrow> cached_below (p + 1) io'" "p < p + 1"
proof -
  from assms(2) obtain b' where w: "write_page ops p d (fst io) = (Ok (), b')" "io' = (b', put_dirty p d (snd io))"
    by (cases io) (auto simp: write_through_def split: prod.splits sum.splits)
  from w(1) assms(1) have "unat p < 2 ^ 52" by (auto simp: bounded_writes_def)
  then have "unat (p + 1) = unat p + 1" using unat_add_lt [of p 1] by simp
  then show p: "p < p + 1" by (simp add: word_less_nat_alt)
  show "cached_below np io \<Longrightarrow> p < np \<Longrightarrow> cached_below np io'" for np
    using put_dirty_keys [of p d "snd io"] cached_below_insert [of io' p io np] by (simp add: w(2))
  show "cached_below p io \<Longrightarrow> cached_below (p + 1) io'"
    using put_dirty_keys [of p d "snd io"] cached_below_insert [of io' p io "p + 1"] cached_below_mono [of p io "p + 1"] p by (simp add: w(2))
qed

definition infos_below :: "(u64 \<times> bytes) list \<Rightarrow> u64 \<Rightarrow> bool" where
  "infos_below infos np \<longleftrightarrow> (\<forall>q \<in> fst ` set infos. q < np)"

lemma build_level_below:
  "build_level ops lev np io = (Ok (lev', np'), io') \<Longrightarrow> bounded_writes ops \<Longrightarrow> cached_below np io \<Longrightarrow> cached_below np' io'"
proof (induction ops lev np io arbitrary: lev' np' io' rule: build_level.induct)
  case (2 ops p k xs np io)
  obtain t r where tr: "take_children 0 0 xs = (t, r)" by (metis prod.exhaust)
  from "2.prems"(1) obtain io1 lev1 page where l: "write_through ops np page io = (Ok (), io1)"
    "build_level ops r (np + 1) io1 = (Ok (lev1, np'), io')"
    by (auto simp: tr and_io_Inr write_internal_page_def split: sum.splits)
  show ?case using "2.IH" [OF tr [symmetric] l(2) "2.prems"(2)] write_through_below(2) [OF "2.prems"(2) l(1) "2.prems"(3)] .
qed simp

lemma build_internal_levels_below:
  "build_internal_levels ops lev np io = (Ok (root, np'), io') \<Longrightarrow> bounded_writes ops \<Longrightarrow> cached_below np io \<Longrightarrow> cached_below np' io'"
proof (induction ops lev np io arbitrary: root np' io' rule: build_internal_levels.induct)
  case (1 ops lev np io)
  from "1.prems"(1) consider p k where "lev = [(p, k)]" "root = p" "np' = np" "io' = io"
    | lev1 np1 io1 x y zs where "lev = x # y # zs" "build_level ops lev np io = (Ok (lev1, np1), io1)"
      "build_internal_levels ops lev1 np1 io1 = (Ok (root, np'), io')"
    by (subst (asm) build_internal_levels.simps) (auto split: list.splits prod.splits sum.splits)
  then show ?case
  proof cases
    case 1
    with "1.prems"(3) show ?thesis by simp
  next
    case 2
    show ?thesis
      by (cases x) (rule "1.IH" [OF _ _ _ 2(2) [symmetric] refl refl 2(3) "1.prems"(2) build_level_below [OF 2(2) "1.prems"(2,3)]],
        use 2(1) in auto)
  qed
qed

lemma flush_leaf_below:
  assumes "flush_leaf ops st io = (Ok st', io')" "bounded_writes ops" "cached_below (build_next st) io" "infos_below (leaf_infos st) (build_next st)"
  shows "cached_below (build_next st') io' \<and> infos_below (leaf_infos st') (build_next st')"
proof -
  from assms(1) obtain page k where f: "write_through ops (build_next st) page io = (Ok (), io')"
    "st' = st\<lparr>leaf_infos := leaf_infos st @ [(build_next st, k)], cur_entries := [], cur_data_bytes := 0, cur_first_key := None, build_next := build_next st + 1\<rparr>"
    by (auto simp: flush_leaf_def and_io_Inr write_leaf_page_def split: option.splits sum.splits)
  note w = write_through_below [OF assms(2) f(1)]
  from w(2) [OF assms(3)] w(3) assms(4) show ?thesis
    by (auto simp: f(2) infos_below_def intro: less_trans)
qed

lemma leaf_loop_below:
  "leaf_loop ops xs st io = (Ok st', io') \<Longrightarrow> bounded_writes ops \<Longrightarrow> cached_below (build_next st) io \<Longrightarrow> infos_below (leaf_infos st) (build_next st) \<Longrightarrow>
    cached_below (build_next st') io' \<and> infos_below (leaf_infos st') (build_next st')"
proof (induction ops xs st io rule: leaf_loop.induct)
  case (2 ops x xs st io)
  from "2.prems"(1) obtain st1 io1 where s: "(if cur_entries st \<noteq> [] \<and> leaf_overflows (length (cur_entries st)) (cur_data_bytes st) (length (fst x))
      then flush_leaf ops st io else (Ok st, io)) = (Ok st1, io1)" "leaf_loop ops xs (add_entry x st1) io1 = (Ok st', io')"
    by (auto simp: and_io_Inr)
  from s(1) "2.prems"(2-4) have "cached_below (build_next st1) io1 \<and> infos_below (leaf_infos st1) (build_next st1)"
    by (auto split: if_splits dest: flush_leaf_below)
  then show ?case using "2.IH" [OF s(2) "2.prems"(2)] by (simp add: add_entry_def split: prod.splits)
qed simp

lemma link_leaves_below:
  "link_leaves ops infos io = (Ok (), io') \<Longrightarrow> bounded_writes ops \<Longrightarrow> cached_below np io \<Longrightarrow> infos_below infos np \<Longrightarrow> cached_below np io'"
proof (induction ops infos io rule: link_leaves.induct)
  case (1 ops p u q k rest io)
  from "1.prems"(1) obtain page io1 io2 d where l: "load_page ops p io = (Ok page, io1)" "write_through ops p d io1 = (Ok (), io2)"
    "link_leaves ops ((q, k) # rest) io2 = (Ok (), io')" "\<not> length page < 12"
    by (auto simp: and_io_Inr split: if_splits)
  from "1.prems"(4) have p: "p < np" "infos_below ((q, k) # rest) np" by (simp_all add: infos_below_def)
  show ?case
    using "1.IH" [OF l(4) l(3) "1.prems"(2) _ p(2)] write_through_below(1) [OF "1.prems"(2) l(2) load_page_below [OF l(1) "1.prems"(3) p(1)] p(1)]
    by simp
qed simp_all

lemma build_btree_below:
  assumes "build_btree ops bks start io = (Ok (root, np), io')" "bounded_writes ops" "cached_below start io"
  shows "cached_below np io'"
proof -
  let ?st0 = "\<lparr>leaf_infos = [], cur_entries = [], cur_data_bytes = 0, cur_first_key = None, build_next = start\<rparr>"
  from assms(1) obtain st io1 where l: "leaf_loop ops bks ?st0 io = (Ok st, io1)" and
    rest: "(if cur_entries st = [] \<and> leaf_infos st = [] then
       and_io (write_leaf_page ops (build_next st) [] 0 io1) (\<lambda>_ io. (Ok (build_next st, build_next st + 1), io))
     else and_io (if cur_entries st \<noteq> [] then flush_leaf ops st io1 else (Ok st, io1)) (\<lambda>st io.
       and_io (link_leaves ops (leaf_infos st) io) (\<lambda>_ io. build_internal_levels ops (leaf_infos st) (build_next st) io))) = (Ok (root, np), io')"
    by (auto simp: build_btree_def and_io_Inr)
  have b: "cached_below (build_next st) io1" "infos_below (leaf_infos st) (build_next st)"
    using leaf_loop_below [OF l assms(2)] assms(3) by (simp_all add: infos_below_def)
  show ?thesis
  proof (cases "cur_entries st = [] \<and> leaf_infos st = []")
    case True
    with rest write_through_below(2) [OF assms(2) _ b(1)] show ?thesis
      by (auto simp: and_io_Inr write_leaf_page_def split: sum.splits)
  next
    case False
    with rest obtain st1 io2 io3 where f: "(if cur_entries st \<noteq> [] then flush_leaf ops st io1 else (Ok st, io1)) = (Ok st1, io2)"
      "link_leaves ops (leaf_infos st1) io2 = (Ok (), io3)" "build_internal_levels ops (leaf_infos st1) (build_next st1) io3 = (Ok (root, np), io')"
      by (auto simp: and_io_Inr)
    from f(1) b flush_leaf_below [OF _ assms(2) b] have "cached_below (build_next st1) io2" "infos_below (leaf_infos st1) (build_next st1)"
      by (auto split: if_splits)
    from build_internal_levels_below [OF f(3) assms(2) link_leaves_below [OF f(2) assms(2) this]] show ?thesis .
  qed
qed

text \<open>The emitter holds its last page back: what is cached lies below that page.\<close>

definition em_below :: "leaf_emitter \<Rightarrow> 'b io \<Rightarrow> bool" where
  "em_below em io \<longleftrightarrow> (case held em of None \<Rightarrow> cached_below (em_next em) io | Some (p, _) \<Rightarrow> em_next em = p + 1 \<and> cached_below p io)"

lemma release_held_below:
  assumes "release_held ops q em io = (Ok em', io')" "bounded_writes ops" "em_below em io"
  shows "held em' = None \<and> em_next em' = em_next em \<and> cached_below (em_next em) io'"
proof (cases "held em")
  case None
  with assms show ?thesis by (auto simp: release_held_def em_below_def)
next
  case (Some x)
  then obtain p page where h: "held em = Some (p, page)" by (cases x) auto
  with assms(1) have w: "write_through ops p (overwrite page 4 (u64_to_le q)) io = (Ok (), io')" "em' = em\<lparr>held := None\<rparr>"
    by (auto simp: release_held_def and_io_Inr split: if_splits)
  with write_through_below(2) [OF assms(2) w(1)] assms(3) h show ?thesis by (simp add: em_below_def)
qed

lemma em_push_below:
  assumes "em_push ops page k em io = (Ok em', io')" "bounded_writes ops" "em_below em io"
  shows "em_below em' io'"
proof -
  let ?em = "em\<lparr>em_next := em_next em + 1\<rparr>"
  from assms(1) obtain em1 where r: "release_held ops (em_next em) ?em io = (Ok em1, io')"
    "em' = em1\<lparr>held := Some (em_next em, page), em_infos := em_infos em1 @ [(em_next em, k)]\<rparr>"
    by (auto simp: em_push_def Let_def and_io_Inr)
  have r': "release_held ops (em_next em) em io = (Ok (em1\<lparr>em_next := em_next em\<rparr>), io')" "em_next em1 = em_next em + 1"
    using r(1) by (auto simp: release_held_def and_io_Inr split: option.splits prod.splits if_splits)
  from release_held_below [OF r'(1) assms(2,3)] r'(2) show ?thesis by (simp add: r(2) em_below_def)
qed

lemma emit_page_below: "emit_page ops cur k em io = (Ok em', io') \<Longrightarrow> bounded_writes ops \<Longrightarrow> em_below em io \<Longrightarrow> em_below em' io'"
  by (auto simp: emit_page_def split: sum.splits dest: em_push_below)

lemma emit_loop_below:
  "emit_loop C ops target xs cur cur_size first em io = (Ok em', io') \<Longrightarrow> bounded_writes ops \<Longrightarrow> em_below em io \<Longrightarrow> em_below em' io'"
proof (induction C ops target xs cur cur_size first em io rule: emit_loop.induct)
  case (1 C ops target cur cur_size first em io)
  then show ?case by (auto split: option.splits dest: emit_page_below)
next
  case (2 C ops target entry key xs cur cur_size first em io)
  show ?case
  proof (cases "cur \<noteq> [] \<and> target < cur_size + (length entry + SLOT_SIZE)")
    case True
    with "2.prems"(1) obtain f em1 io1 k where f: "first = Some f" "emit_page ops cur f em io = (Ok em1, io1)" "enc_key C key = Ok k"
      "emit_loop C ops target xs [entry] (length entry + SLOT_SIZE) (Some k) em1 io1 = (Ok em', io')"
      by (cases first; cases "enc_key C key") (auto simp: and_io_Inr)
    show ?thesis by (rule "2.IH"(1) [OF refl True f(1) f(3,4) "2.prems"(2) emit_page_below [OF f(2) "2.prems"(2,3)]])
  next
    case False
    with "2.prems"(1) obtain f where f: "(case first of Some f \<Rightarrow> Ok f | None \<Rightarrow> enc_key C key) = Ok f"
      "emit_loop C ops target xs (cur @ [entry]) (cur_size + (length entry + SLOT_SIZE)) (Some f) em io = (Ok em', io')"
      by (auto split: if_splits sum.splits)
    show ?thesis by (rule "2.IH"(2) [OF refl False f(1,2) "2.prems"(2,3)])
  qed
qed

lemma emit_packed_below:
  "emit_packed C ops es em io = (Ok em', io') \<Longrightarrow> bounded_writes ops \<Longrightarrow> em_below em io \<Longrightarrow> em_below em' io'"
  by (auto simp: emit_packed_def Let_def split: sum.splits if_splits dest: emit_loop_below)

lemma rebuild_loop_below:
  "rebuild_loop C ops leaves pending em io = (Ok em', io') \<Longrightarrow> bounded_writes ops \<Longrightarrow> em_below em io \<Longrightarrow> em_below em' io'"
proof (induction C ops leaves pending em io rule: rebuild_loop.induct)
  case (2 C ops page fk leaves pending em io)
  let ?below = "\<lambda>x. case leaves of [] \<Rightarrow> True | (_, u) # _ \<Rightarrow> fst x < u"
  from "2.prems"(1) obtain em1 io1 where s: "(if takeWhile ?below pending = [] then
        (case enc_key C fk of Inl e \<Rightarrow> (Err e, io) | Inr k \<Rightarrow> em_push ops page k em io)
      else (case read_leaf_entries (dec_entry C) page of
        Inl e \<Rightarrow> (Err e, io) | Inr old \<Rightarrow> emit_packed C ops (merge_sorted_vecs old (takeWhile ?below pending)) em io)) = (Ok em1, io1)"
    "rebuild_loop C ops leaves (dropWhile ?below pending) em1 io1 = (Ok em', io')"
    unfolding rebuild_loop.simps Let_def and_io_Inr by blast
  from s(1) "2.prems"(2,3) have "em_below em1 io1"
    by (auto split: if_splits sum.splits dest: em_push_below emit_packed_below)
  with "2.IH" [OF refl refl refl s(2) "2.prems"(2)] show ?case .
qed simp

lemma rebuild_below:
  assumes "rebuild_btree_incremental C ops ps pending start io = (Ok (root, np), io')" "bounded_writes ops" "cached_below start io"
  shows "cached_below np io'"
proof -
  from assms(1) consider bks where "build_btree ops bks start io = (Ok (root, np), io')"
    | leaves em em1 io1 io2 where "rebuild_loop C ops leaves pending \<lparr>em_next = start, held = None, em_infos = []\<rparr> io = (Ok em, io1)"
      "release_held ops 0 em io1 = (Ok em1, io2)" "build_internal_levels ops (em_infos em1) (em_next em1) io2 = (Ok (root, np), io')"
    by (fastforce simp: rebuild_btree_incremental_def and_io_Inr em_finish_def Let_def split: sum.splits if_splits)
  then show ?thesis
  proof cases
    case 1
    then show ?thesis using assms(2,3) by (rule build_btree_below)
  next
    case 2
    have "em_below em io1" by (rule rebuild_loop_below [OF 2(1) assms(2)]) (use assms(3) in \<open>simp add: em_below_def\<close>)
    from release_held_below [OF 2(2) assms(2) this] build_internal_levels_below [OF 2(3) assms(2)] show ?thesis by simp
  qed
qed

end
