(* ===== verification/File_Store.thy ===== *)
theory File_Store
  imports Tree_End
begin

text \<open>
  What persistent storage needs of a backend beyond its data pages: a header page that follows
  page writes and is replaced at commits. The locale \<open>headed\<close> states it; the file backend
  provides it.
\<close>

section \<open>The contract of the header page\<close>

definition hdr_of :: "'b storage_backend \<Rightarrow> 'b \<Rightarrow> file_header" where
  "hdr_of B b = projr (and_then (read_page (page_ops B) b 0) from_bytes)"

text \<open>The same header but for the page count, which the backend keeps itself, and the checksum over it.\<close>

definition grown :: "file_header \<Rightarrow> file_header \<Rightarrow> bool" where
  "grown h h' \<longleftrightarrow> (\<exists>pc ck. h' = h\<lparr>page_count := pc, header_checksum := ck\<rparr>)"

definition checksum_ok :: "crates \<Rightarrow> file_header \<Rightarrow> bool" where
  "checksum_ok K h \<longleftrightarrow> header_checksum h = 0 \<or> header_checksum h = compute_header_checksum (crc32 K) h"

definition good_header :: "crates \<Rightarrow> file_header \<Rightarrow> bool" where
  "good_header K h \<longleftrightarrow> validate h = Ok () \<and> version h = 7 \<and> length (padding h) = 3 \<and> checksum_ok K h"

locale headed =
  fixes K :: crates and B :: "'b storage_backend" and holds :: "file_header \<Rightarrow> 'b \<Rightarrow> bool"
  assumes data_pages: "backend (page_ops B) (holds h)"
    and header_page_at: "holds h b \<Longrightarrow> \<exists>page. read_page (page_ops B) b 0 = Ok page \<and> from_bytes page = Ok (hdr_of B b) \<and>
      84 \<le> length page \<and> take 80 page = take 80 (to_bytes (hdr_of B b))"
    and header_good: "holds h b \<Longrightarrow> grown h (hdr_of B b) \<and> good_header K (hdr_of B b)"
    and holds_self: "holds h b \<Longrightarrow> holds (hdr_of B b) b"
    and page_count_header: "holds h b \<Longrightarrow> backend_page_count (page_ops B) b = Ok (page_count (hdr_of B b))"
    and readable: "holds h b \<Longrightarrow> (\<exists>x. read_page (page_ops B) b q = Ok x) \<longleftrightarrow> q < page_count (hdr_of B b)"
    and space: "writable (page_ops B) (holds h) (2 ^ 52)"
    and bounded: "bounded_writes (page_ops B)"
    and synced: "sync_op B b = (Ok (), b)"
    and commit_header: "holds h b \<Longrightarrow> good_header K h' \<Longrightarrow> page_count h' \<le> page_count (hdr_of B b) \<Longrightarrow>
      \<exists>b'. write_page (page_ops B) 0 (header_page h') b = (Ok (), b') \<and> holds h' b' \<and> hdr_of B b' = h' \<and>
        (\<forall>q. q \<noteq> 0 \<longrightarrow> q < page_count h' \<longrightarrow> read_page (page_ops B) b' q = read_page (page_ops B) b q)"

section \<open>The file backend keeps it\<close>

text \<open>Operating-system failures of \<^verbatim>\<open>sync_all\<close> are not modelled, like those of the other file operations.\<close>

definition file_store :: "crates \<Rightarrow> file_backend storage_backend" where
  "file_store K = \<lparr>page_ops = file_ops (crc32 K), sync_op = \<lambda>b. (Ok (), b), is_new_op = backend_is_new\<rparr>"

lemma file_store_simps [simp]:
  "page_ops (file_store K) = file_ops (crc32 K)" "sync_op (file_store K) b = (Ok (), b)" "is_new_op (file_store K) = backend_is_new"
  by (simp_all add: file_store_def)

text \<open>The file starts with the header in memory, and holds as many whole pages as it says.\<close>

definition file_holds :: "crates \<Rightarrow> file_header \<Rightarrow> file_backend \<Rightarrow> bool" where
  "file_holds K h b \<longleftrightarrow> take 84 (contents b) = to_bytes (header b) \<and> grown h (header b) \<and> good_header K (header b) \<and>
     unat (page_count (header b)) \<le> 2 ^ 52 \<and> unat (page_count (header b)) * PAGE_SIZE \<le> length (contents b)"

lemma good_header_bytes: "good_header K h \<Longrightarrow> length (magic h) = 4 \<and> length (to_bytes h) = 84"
  by (auto simp: good_header_def length_to_bytes dest: validate_magic)

lemma good_header_from_bytes: "good_header K h \<Longrightarrow> from_bytes (to_bytes h @ rest) = Ok h"
  using from_bytes_to_bytes [of h rest] by (auto simp: good_header_def stored_fields_def dest: validate_magic)

lemma length_header_page: "good_header K h \<Longrightarrow> length (header_page h) = PAGE_SIZE"
  by (simp add: header_page_def good_header_bytes PAGE_SIZE_def)

lemma file_holds_inv: "file_holds K h b \<Longrightarrow> file_inv b"
  by (simp add: file_holds_def file_inv_def good_header_bytes good_header_def) (auto dest: validate_magic)

lemma page_count_pos: "good_header K h \<Longrightarrow> 1 \<le> unat (page_count h)"
  by (auto simp: good_header_def validate_def unat_gt_0 Suc_le_eq split: if_splits)

lemma file_page_zero:
  assumes "file_holds K h b"
  shows "\<exists>rest. file_read_page b 0 = Ok (to_bytes (header b) @ rest) \<and> length (to_bytes (header b) @ rest) = PAGE_SIZE"
proof -
  have g: "good_header K (header b)" and t: "take 84 (contents b) = to_bytes (header b)"
    and l: "unat (page_count (header b)) * PAGE_SIZE \<le> length (contents b)" using assms by (simp_all add: file_holds_def)
  have "1 * PAGE_SIZE \<le> unat (page_count (header b)) * PAGE_SIZE" using page_count_pos [OF g] by (rule mult_le_mono1)
  with l have len: "PAGE_SIZE \<le> length (contents b)" by linarith
  have "page_count (header b) \<noteq> 0" using page_count_pos [OF g] by auto
  then have "file_read_page b 0 = Ok (take PAGE_SIZE (contents b))"
    using len by (simp add: file_read_page_def page_offset_def file_read_exact_def slice_get_def word_le_nat_alt unat_eq_zero)
  moreover have "take PAGE_SIZE (contents b) = to_bytes (header b) @ drop 84 (take PAGE_SIZE (contents b))"
    using append_take_drop_id [of 84 "take PAGE_SIZE (contents b)"] t by (simp add: PAGE_SIZE_def)
  ultimately show ?thesis using len by (intro exI [of _ "drop 84 (take PAGE_SIZE (contents b))"]) simp
qed

lemma file_hdr_of: "file_holds K h b \<Longrightarrow> hdr_of (file_store K') b = header b"
  using file_page_zero [of K h b] good_header_from_bytes [of K "header b"]
  by (auto simp: hdr_of_def file_ops_def file_holds_def)

lemma file_holds_readable:
  assumes "file_holds K h b"
  shows "(\<exists>x. file_read_page b q = Ok x) \<longleftrightarrow> q < page_count (header b)"
proof
  assume q: "q < page_count (header b)"
  then have "unat q + 1 \<le> unat (page_count (header b))" by (simp add: word_less_nat_alt)
  then have "(unat q + 1) * PAGE_SIZE \<le> unat (page_count (header b)) * PAGE_SIZE" by (rule mult_le_mono1)
  moreover have "unat q < 2 ^ 52" using q assms by (simp add: file_holds_def word_less_nat_alt)
  ultimately show "\<exists>x. file_read_page b q = Ok x"
    using assms q by (auto simp: file_holds_def file_read_page_def page_offset_def file_read_exact_def slice_get_def PAGE_SIZE_def)
qed (auto simp: file_read_page_def not_le split: if_splits)

lemma take_file_write_head: "84 \<le> off \<Longrightarrow> 84 \<le> length f \<Longrightarrow> take 84 (file_write off d f) = take 84 f"
  by (auto simp: file_write_def min_def)

lemma grown_trans: "grown h h' \<Longrightarrow> grown h (h'\<lparr>page_count := pc, header_checksum := ck\<rparr>)"
  unfolding grown_def by (elim exE, rule exI [of _ pc], rule exI [of _ ck]) simp

lemma good_header_grow:
  assumes "good_header K h" "page_count h \<le> p" "unat p + 1 < 2 ^ 64"
  shows "good_header K (h\<lparr>page_count := p + 1, header_checksum := compute_header_checksum (crc32 K) (h\<lparr>page_count := p + 1\<rparr>)\<rparr>)"
  using validate_grow [of h p] assms good_header_bytes [OF assms(1)]
  by (simp add: good_header_def checksum_ok_def compute_header_checksum_def to_bytes_def)

lemma file_holds_write:
  assumes "file_holds K h b" "p \<noteq> 0" "file_write_page (crc32 K) p d b = (Ok (), b')"
  shows "file_holds K h b'"
proof -
  have g: "good_header K (header b)" and t: "take 84 (contents b) = to_bytes (header b)" and gr: "grown h (header b)"
    and l: "unat (page_count (header b)) * PAGE_SIZE \<le> length (contents b)" "unat (page_count (header b)) \<le> 2 ^ 52"
    using assms(1) by (simp_all add: file_holds_def)
  have len: "84 \<le> length (contents b)" using arg_cong [OF t, of length] good_header_bytes [OF g] by simp
  from assms(3) have d: "length d = PAGE_SIZE" and off: "unat p * PAGE_SIZE < 2 ^ 64"
    by (auto simp: file_write_page_def page_offset_def split: if_splits)
  have pos: "84 \<le> unat p * PAGE_SIZE" using assms(2) by (cases "unat p") (simp_all add: PAGE_SIZE_def unat_eq_zero)
  show ?thesis
  proof (cases "page_count (header b) \<le> p")
    case False
    with assms d off have b': "b' = b\<lparr>contents := file_write (unat p * PAGE_SIZE) d (contents b)\<rparr>"
      by (auto simp: file_write_page_def page_offset_def Let_def)
    show ?thesis using assms(1) by (simp add: b' file_holds_def take_file_write_head [OF pos len] length_file_write le_max_iff_disj)
  next
    case True
    let ?h1 = "(header b)\<lparr>page_count := p + 1\<rparr>"
    let ?h = "?h1\<lparr>header_checksum := compute_header_checksum (crc32 K) ?h1\<rparr>"
    from assms True have n: "unat p + 1 < 2 ^ 64" and h: "header b' = ?h"
      "write_header ?h (file_write (unat p * PAGE_SIZE) d (contents b)) = Ok (contents b')"
      by (auto simp: file_write_page_def page_offset_def Let_def split: if_splits sum.splits)
    have g': "good_header K ?h" by (rule good_header_grow [OF g True n])
    have c: "contents b' = file_write 0 (overwrite (replicate PAGE_SIZE 0) 0 (to_bytes ?h)) (file_write (unat p * PAGE_SIZE) d (contents b))"
      using h(2) by (auto simp: write_header_def copy_at_def split: if_splits)
    have "take 84 (contents b') = to_bytes ?h"
      using good_header_bytes [OF g'] by (simp add: c file_write_def overwrite_def PAGE_SIZE_def)
    moreover have u: "unat (p + 1) = unat p + 1" using n by (simp add: unat_word_ariths(1))
    moreover have "unat p + 1 \<le> 2 ^ 52" using off by (simp add: PAGE_SIZE_def)
    moreover have "(unat p + 1) * PAGE_SIZE \<le> length (contents b')" using d by (simp add: c length_file_write)
    ultimately show ?thesis using g' grown_trans [OF gr] by (simp add: file_holds_def h(1))
  qed
qed

lemma file_holds_self: "file_holds K h b \<Longrightarrow> file_holds K (header b) b"
  by (simp add: file_holds_def) (simp add: grown_def, metis file_header.surjective file_header.update_convs(3,14))

lemma file_commit_header:
  assumes "file_holds K h b" "good_header K h'" "page_count h' \<le> page_count (header b)"
  shows "\<exists>b'. file_write_page (crc32 K) 0 (header_page h') b = (Ok (), b') \<and> file_holds K h' b' \<and> header b' = h' \<and>
    (\<forall>q. q \<noteq> 0 \<longrightarrow> q < page_count h' \<longrightarrow> file_read_page b' q = file_read_page b q)"
proof -
  let ?b = "b\<lparr>contents := file_write 0 (header_page h') (contents b), header := h'\<rparr>"
  have len: "length (header_page h') = PAGE_SIZE" by (rule length_header_page [OF assms(2)])
  have w: "file_write_page (crc32 K) 0 (header_page h') b = (Ok (), ?b)"
    using len good_header_from_bytes [OF assms(2)] by (simp add: file_write_page_def page_offset_def header_page_def Let_def)
  have le: "unat (page_count h') \<le> unat (page_count (header b))" using assms(3) by (simp add: word_le_nat_alt)
  have "unat (page_count (header b)) * PAGE_SIZE \<le> length (contents b)" using assms(1) by (simp add: file_holds_def)
  with mult_le_mono1 [OF le] have room: "unat (page_count h') * PAGE_SIZE \<le> length (contents b)" by (rule order_trans)
  have "take 84 (contents ?b) = to_bytes h'"
    using good_header_bytes [OF assms(2)] by (simp add: file_write_def header_page_def)
  moreover have "grown h' h'" by (simp add: grown_def, metis file_header.surjective file_header.update_convs(3,14))
  ultimately have holds: "file_holds K h' ?b" using assms(1,2) le room by (simp add: file_holds_def length_file_write le_max_iff_disj)
  have "file_read_page ?b q = file_read_page b q" if "q \<noteq> 0" "q < page_count h'" for q
  proof -
    have q: "q < page_count (header b)" using that(2) assms(3) by simp
    with file_holds_readable [OF assms(1)] obtain x where x: "file_read_page b q = Ok x" by blast
    have "PAGE_SIZE \<le> unat q * PAGE_SIZE" using that(1) by (simp add: unat_gt_0 Suc_leI)
    moreover from x q have x': "page_offset q = Ok (unat q * PAGE_SIZE)"
      "slice_get (contents b) (unat q * PAGE_SIZE) (unat q * PAGE_SIZE + PAGE_SIZE) = Some x"
      by (auto simp: file_read_page_def file_read_exact_def page_offset_def and_then_eq_Inr split: if_splits)
    ultimately have "slice_get (contents ?b) (unat q * PAGE_SIZE) (unat q * PAGE_SIZE + PAGE_SIZE) = Some x"
      by (simp add: len file_write_other)
    then show ?thesis using that(2) x x'(1) by (simp add: file_read_page_def file_read_exact_def not_le [symmetric])
  qed
  with w holds show ?thesis by (intro exI [of _ ?b]) simp
qed

lemma file_store_backend: "backend (file_ops (crc32 K)) (file_holds K h)"
proof unfold_locales
  fix d p b b' q x
  show "length d \<noteq> PAGE_SIZE \<Longrightarrow> write_page (file_ops (crc32 K)) p d b = (Err (Internal 51), b)" by (rule filed.write_bad)
  show "file_holds K h b \<Longrightarrow> p \<noteq> 0 \<Longrightarrow> write_page (file_ops (crc32 K)) p d b = (Ok (), b') \<Longrightarrow> file_holds K h b'"
    using file_holds_write by (simp add: file_ops_def)
  show "file_holds K h b \<Longrightarrow> read_page (file_ops (crc32 K)) b p = Ok d \<Longrightarrow> length d = PAGE_SIZE"
    using filed.read_length [OF file_holds_inv] .
  show "file_holds K h b \<Longrightarrow> p \<noteq> 0 \<Longrightarrow> write_page (file_ops (crc32 K)) p d b = (Ok (), b') \<Longrightarrow> read_page (file_ops (crc32 K)) b' p = Ok d"
    using filed.read_same [OF file_holds_inv] .
  show "file_holds K h b \<Longrightarrow> p \<noteq> 0 \<Longrightarrow> q \<noteq> 0 \<Longrightarrow> q \<noteq> p \<Longrightarrow> write_page (file_ops (crc32 K)) p d b = (Ok (), b') \<Longrightarrow>
      read_page (file_ops (crc32 K)) b q = Ok x \<Longrightarrow> read_page (file_ops (crc32 K)) b' q = Ok x"
    using filed.read_other [OF file_holds_inv] .
qed

interpretation stored_file: headed K "file_store K" "file_holds K" for K
proof (rule headed.intro)
  fix h h' b q
  show "backend (page_ops (file_store K)) (file_holds K h)" by (simp add: file_store_backend)
  show "sync_op (file_store K) b = (Ok (), b)" by simp
  show "bounded_writes (page_ops (file_store K))"
    by (auto simp: bounded_writes_def file_ops_def file_write_page_def page_offset_def PAGE_SIZE_def split: if_splits)
  show "writable (page_ops (file_store K)) (file_holds K h) (2 ^ 52)"
    unfolding writable_def
  proof (intro allI impI)
    fix b and d :: bytes and p :: u64
    assume "file_holds K h b" "p \<noteq> 0" "unat p < 2 ^ 52" "length d = PAGE_SIZE"
    then show "fst (write_page (page_ops (file_store K)) p d b) = Ok ()"
      using file_write_succeeds [OF file_holds_inv, of K h b p d "crc32 K"] by (auto simp: file_ops_def PAGE_SIZE_def)
  qed
  assume h: "file_holds K h b"
  note hdr = file_hdr_of [OF h, of K]
  show "\<exists>page. read_page (page_ops (file_store K)) b 0 = Ok page \<and> from_bytes page = Ok (hdr_of (file_store K) b) \<and>
      84 \<le> length page \<and> take 80 page = take 80 (to_bytes (hdr_of (file_store K) b))"
    using file_page_zero [OF h] good_header_from_bytes [of K "header b"] good_header_bytes [of K "header b"] h
    by (auto simp: hdr file_ops_def file_holds_def)
  show "grown h (hdr_of (file_store K) b) \<and> good_header K (hdr_of (file_store K) b)" using h by (simp add: hdr file_holds_def)
  show "file_holds K (hdr_of (file_store K) b) b" using file_holds_self [OF h] by (simp add: hdr)
  show "backend_page_count (page_ops (file_store K)) b = Ok (page_count (hdr_of (file_store K) b))"
    by (simp add: hdr file_ops_def file_page_count_def)
  show "(\<exists>x. read_page (page_ops (file_store K)) b q = Ok x) \<longleftrightarrow> q < page_count (hdr_of (file_store K) b)"
    using file_holds_readable [OF h] by (simp add: hdr file_ops_def)
  assume "good_header K h'" "page_count h' \<le> page_count (hdr_of (file_store K) b)"
  with file_commit_header [OF h] show "\<exists>b'. write_page (page_ops (file_store K)) 0 (header_page h') b = (Ok (), b') \<and> file_holds K h' b' \<and>
      hdr_of (file_store K) b' = h' \<and>
      (\<forall>q. q \<noteq> 0 \<longrightarrow> q < page_count h' \<longrightarrow> read_page (page_ops (file_store K)) b' q = read_page (page_ops (file_store K)) b q)"
    using file_hdr_of [of K _ _ K] by (fastforce simp: hdr file_ops_def)
qed

text \<open>Closing the file, or losing the process, and opening it again.\<close>

lemma file_holds_reopen: "file_holds K h b \<Longrightarrow> open_contents (contents b) = Ok (b\<lparr>backend_is_new := False\<rparr>)"
proof -
  assume h: "file_holds K h b"
  from file_page_zero [OF h] obtain rest where r: "file_read_page b 0 = Ok (to_bytes (header b) @ rest)" by blast
  then have "slice_get (contents b) 0 PAGE_SIZE = Some (to_bytes (header b) @ rest)"
    by (auto simp: file_read_page_def page_offset_def file_read_exact_def split: if_splits)
  moreover have "validate (header b) = Ok ()" "good_header K (header b)" using h by (simp_all add: file_holds_def good_header_def)
  ultimately have "read_header (contents b) = Ok (header b)" "PAGE_SIZE \<le> length (contents b)"
    using good_header_from_bytes [of K "header b" rest] by (auto simp: read_header_Ok slice_get_def split: if_splits)
  then show ?thesis by (simp add: open_contents_def)
qed

end
