(* ===== verification/Stored_Facts.thy ===== *)
theory Stored_Facts
  imports File_Store
begin

text \<open>
  Facts on pages and their index entries: reading a range of packed pages, hashing it, and what a
  range scan over the entries of a list of facts resolves to.
\<close>

section \<open>Ranges of pages\<close>

lemma checked_add_Inr: "checked_add e a b = Ok c \<longleftrightarrow> unat a + unat b < 2 ^ 64 \<and> c = a + b"
  by (auto simp: checked_add_def)

lemma unat_of_nat_sum: "a + b < 2 ^ 64 \<Longrightarrow> unat (of_nat a + of_nat b :: u64) = a + b"
  by (simp flip: of_nat_add add: unat_of_nat)

text \<open>The contents of the pages \<open>first\<close> to \<open>first + n - 1\<close>.\<close>

definition page_range :: "(u64 \<Rightarrow> bytes result) \<Rightarrow> nat \<Rightarrow> nat \<Rightarrow> bytes list result" where
  "page_range rd first n = collect_map (\<lambda>i. rd (of_nat (first + i))) [0..<n]"

lemma page_range_Suc_split:
  "page_range rd first (m + n) = and_then (page_range rd first m) (\<lambda>xs. and_then (page_range rd (first + m) n) (\<lambda>ys. Ok (xs @ ys)))"
proof -
  have "collect_map f (map g xs) = collect_map (\<lambda>x. f (g x)) xs" for f :: "nat \<Rightarrow> bytes result" and g :: "nat \<Rightarrow> nat" and xs
    by (induction xs) simp_all
  from this [of "\<lambda>i. rd (of_nat (first + i))" "\<lambda>i. i + m" "[0..<n]"] show ?thesis
    unfolding page_range_def upt_add_eq_append [OF le0] collect_map_append by (simp add: map_add_upt add.assoc add.commute [of m])
qed

lemma page_range_Suc:
  "page_range rd first (Suc n) = and_then (page_range rd first n) (\<lambda>xs. and_then (rd (of_nat first + of_nat n)) (\<lambda>x. Ok (xs @ [x])))"
  by (auto simp: page_range_def collect_map_append and_then_def split: sum.splits)

lemma page_range_cong:
  "(\<And>q. first \<le> unat q \<Longrightarrow> unat q < first + n \<Longrightarrow> rd q = rd' q) \<Longrightarrow> first + n \<le> 2 ^ 64 \<Longrightarrow> page_range rd first n = page_range rd' first n"
  unfolding page_range_def by (intro collect_map_cong refl) (auto simp: unat_of_nat_sum)

lemma page_range_readable:
  "(\<And>q. first \<le> unat q \<Longrightarrow> unat q < first + n \<Longrightarrow> \<exists>x. rd q = Ok x) \<Longrightarrow> first + n \<le> 2 ^ 64 \<Longrightarrow> \<exists>ps. page_range rd first n = Ok ps"
proof (induction n)
  case (Suc n)
  then obtain ps where ps: "page_range rd first n = Ok ps" by force
  obtain x where "rd (of_nat (first + n)) = Ok x" using Suc.prems(1) [of "of_nat (first + n)"] Suc.prems(2) by (auto simp: unat_of_nat_sum)
  with ps show ?case by (simp add: page_range_Suc)
qed (simp add: page_range_def)

lemma hash_pages_eq:
  assumes "unat first + unat n \<le> 2 ^ 64"
  shows "hash_pages rd hasher first n = and_then (page_range rd (unat first) (unat n)) (\<lambda>ps. Ok (hasher @ concat ps))"
proof -
  have "and_then (checked_add (Stg 21) first (of_nat i)) rd = rd (of_nat (unat first + i))" if "i < unat n" for i
    using that assms by (simp add: checked_add_def unat_of_nat)
  then have "collect_map (\<lambda>i. and_then (checked_add (Stg 21) first (of_nat i)) rd) [0..<unat n] =
      collect_map (\<lambda>i. rd (of_nat (unat first + i))) [0..<unat n]" by (intro collect_map_cong) simp_all
  then show ?thesis by (simp add: hash_pages_def page_range_def)
qed

lemma hash_pages_append:
  assumes "hash_pages rd [] 1 n = Ok h" "unat n + unat k < 2 ^ 64"
  shows "hash_pages rd h (1 + n) k = hash_pages rd [] 1 (n + k)"
proof -
  have u: "unat (n + k) = unat n + unat k" "unat (1 + n) = 1 + unat n" if "k \<noteq> 0"
    using assms(2) that unat_add_lt [of n k] unat_add_lt [of 1 n] unat_gt_0 [of k] by simp_all
  show ?thesis
  proof (cases "k = 0")
    case True
    have "hash_pages rd h (1 + n) 0 = Ok h" by (simp add: hash_pages_def)
    with True assms(1) show ?thesis by simp
  next
    case False
    from assms(1,2) have h: "and_then (page_range rd 1 (unat n)) (\<lambda>ps. Ok (concat ps)) = Ok h" by (subst (asm) hash_pages_eq) auto
    have "hash_pages rd h (1 + n) k = and_then (page_range rd (1 + unat n) (unat k)) (\<lambda>ps. Ok (h @ concat ps))"
      using assms(2) by (subst hash_pages_eq) (simp_all add: u [OF False])
    moreover have "hash_pages rd [] 1 (n + k) = and_then (page_range rd 1 (unat n + unat k)) (\<lambda>ps. Ok (concat ps))"
      using assms(2) by (subst hash_pages_eq) (simp_all add: u [OF False])
    ultimately show ?thesis using h by (auto simp: page_range_Suc_split and_then_eq_Inr split: sum.splits)
        (auto simp: and_then_def split: sum.splits)
  qed
qed

lemma page_range_keeps:
  "page_range rd first n = Ok ps \<Longrightarrow> keeps P rd rd' \<Longrightarrow> (\<And>q. first \<le> unat q \<Longrightarrow> unat q < first + n \<Longrightarrow> P q) \<Longrightarrow>
    0 < first \<Longrightarrow> first + n \<le> 2 ^ 64 \<Longrightarrow> page_range rd' first n = Ok ps"
proof (induction n arbitrary: ps)
  case (Suc n)
  let ?q = "of_nat first + of_nat n :: u64"
  have u: "unat ?q = first + n" using Suc.prems(5) by (intro unat_of_nat_sum) simp
  from Suc.prems(1) obtain qs x where
    qs: "page_range rd first n = Ok qs" "rd ?q = Ok x" "ps = qs @ [x]" by (auto simp: page_range_Suc and_then_eq_Inr)
  have "P ?q" by (rule Suc.prems(3)) (simp_all add: u)
  moreover have "?q \<noteq> 0" using u Suc.prems(4) by (metis add_gr_0 less_irrefl unat_0)
  ultimately have "rd' ?q = Ok x" using Suc.prems(2) qs(2) by (simp add: keeps_def)
  moreover have "page_range rd' first n = Ok qs" using Suc.prems by (intro Suc.IH qs(1)) auto
  ultimately show ?case using qs(3) by (simp add: page_range_Suc)
qed (simp add: page_range_def)

lemma hash_pages_keeps:
  assumes "hash_pages rd h first n = Ok h'" "keeps P rd rd'" "\<And>q. unat first \<le> unat q \<Longrightarrow> unat q < unat first + unat n \<Longrightarrow> P q"
    "first \<noteq> 0" "unat first + unat n \<le> 2 ^ 64"
  shows "hash_pages rd' h first n = Ok h'"
proof -
  from assms(1) obtain ps where ps: "page_range rd (unat first) (unat n) = Ok ps" "h' = h @ concat ps"
    by (auto simp: hash_pages_eq [OF assms(5)] and_then_eq_Inr)
  have "page_range rd' (unat first) (unat n) = Ok ps"
    using ps(1) assms(2,3) by (rule page_range_keeps) (use assms(4,5) in \<open>auto simp: unat_gt_0\<close>)
  with ps(2) show ?thesis by (simp add: hash_pages_eq [OF assms(5)])
qed

section \<open>Facts on packed pages\<close>

lemma saturating_add_small: "unat a + unat b < 2 ^ 64 \<Longrightarrow> u64_saturating_add a b = a + b"
  by (auto simp: u64_saturating_add_def word_le_nat_alt unat_word_ariths(1))

lemma read_pages_append:
  "read_pages dec rd (xs @ ys) = and_then (read_pages dec rd xs) (\<lambda>(fs, rs).
     and_then (read_pages dec rd ys) (\<lambda>(fs', rs'). Ok (fs @ fs', rs @ rs')))"
proof (induction xs)
  case (Cons x xs)
  then show ?case by (auto simp: and_then_def split: sum.splits)
qed (auto simp: and_then_def split: sum.splits)

lemma read_pages_keeps:
  "read_pages dec rd ids = Ok r \<Longrightarrow> keeps P rd rd' \<Longrightarrow> (\<forall>q \<in> set ids. q \<noteq> 0 \<and> P q) \<Longrightarrow> read_pages dec rd' ids = Ok r"
proof (induction ids arbitrary: r)
  case (Cons q ids)
  from Cons.prems(1) obtain page fs rs fs' rs' where q: "rd q = Ok page" "page_records dec q page = Ok (fs, rs)"
    "read_pages dec rd ids = Ok (fs', rs')" "r = (fs @ fs', rs @ rs')" by (auto simp: and_then_eq_Inr)
  have "rd' q = Ok page" using Cons.prems(2,3) q(1) by (simp add: keeps_def)
  with q(2,4) Cons.IH [OF q(3) Cons.prems(2)] Cons.prems(3) show ?case by simp
qed simp

definition fact_page_ids :: "u64 \<Rightarrow> u64 list" where
  "fact_page_ids n = map (\<lambda>i. u64_saturating_add 1 (of_nat i)) [0..<unat n]"

lemma read_all_ids: "read_all_with_refs dec rd 1 n = read_pages dec rd (fact_page_ids n)"
  by (simp add: read_all_with_refs_def fact_page_ids_def)

lemma fact_page_idsD: "q \<in> set (fact_page_ids n) \<Longrightarrow> unat n + 1 < 2 ^ 64 \<Longrightarrow> q \<noteq> 0 \<and> unat q \<le> unat n"
proof -
  assume "q \<in> set (fact_page_ids n)" and n: "unat n + 1 < 2 ^ 64"
  then obtain i where i: "i < unat n" "q = u64_saturating_add 1 (of_nat i)" by (auto simp: fact_page_ids_def)
  then have u: "unat (of_nat i :: u64) = i" using n by (simp add: unat_of_nat)
  with i n have "q = 1 + of_nat i" by (simp add: saturating_add_small)
  moreover have "unat (1 + of_nat i :: u64) = 1 + i" using unat_add_lt [of 1 "of_nat i"] u i n by simp
  ultimately show ?thesis using i(1) by (auto simp: unat_eq_zero)
qed

lemma read_all_append:
  assumes "read_all_with_refs dec rd 1 n = Ok (fs, refs)" "read_all_with_refs dec rd (1 + n) k = Ok (gs, rs)" "unat n + unat k + 1 < 2 ^ 64"
  shows "read_all_with_refs dec rd 1 (n + k) = Ok (fs @ gs, refs @ rs)"
proof -
  have u: "unat (n + k) = unat n + unat k" "unat (1 + n) = 1 + unat n" using assms(3) unat_add_lt [of n k] unat_add_lt [of 1 n] by simp_all
  have "u64_saturating_add 1 (of_nat (unat n + i)) = u64_saturating_add (1 + n) (of_nat i)" if "i < unat k" for i
  proof -
    have i: "unat (of_nat i :: u64) = i" using that assms(3) by (simp add: unat_of_nat)
    have "unat (n + of_nat i) = unat n + i" using unat_add_lt [of n "of_nat i"] i that assms(3) by simp
    then have "u64_saturating_add 1 (n + of_nat i) = 1 + (n + of_nat i)" using that assms(3) by (intro saturating_add_small) simp
    moreover have "u64_saturating_add (1 + n) (of_nat i) = 1 + n + of_nat i" using i u that assms(3) by (intro saturating_add_small) simp
    ultimately show ?thesis by (simp add: add.assoc)
  qed
  then have "map (\<lambda>i. u64_saturating_add 1 (of_nat i)) [unat n..<unat n + unat k] = map (\<lambda>i. u64_saturating_add (1 + n) (of_nat i)) [0..<unat k]"
    by (intro nth_equalityI) simp_all
  then have "fact_page_ids (n + k) = fact_page_ids n @ map (\<lambda>i. u64_saturating_add (1 + n) (of_nat i)) [0..<unat k]"
    by (simp add: fact_page_ids_def u(1) upt_add_eq_append [OF le0])
  with assms(1,2) show ?thesis by (simp add: read_all_ids read_pages_append) (simp add: read_all_with_refs_def)
qed

text \<open>Every reference names a page of the range and the slot of its fact there.\<close>

definition addresses :: "(bytes \<Rightarrow> fact result) \<Rightarrow> (u64 \<Rightarrow> bytes result) \<Rightarrow> u64 set \<Rightarrow> fact_ref \<Rightarrow> fact \<Rightarrow> bool" where
  "addresses dec rd Q r f \<longleftrightarrow> page_id r \<in> Q \<and> (\<exists>page. rd (page_id r) = Ok page \<and> read_slot dec page (slot_index r) = Ok f)"

lemma collect_map_list_all2: "collect_map g xs = Ok ys \<Longrightarrow> list_all2 (\<lambda>x y. g x = Ok y) xs ys"
  by (auto simp: list_all2_conv_all_nth dest: collect_map_eq_InrD)

lemma page_records_addresses:
  assumes "page_records dec pid page = Ok (fs, rs)" "rd pid = Ok page" "pid \<in> Q"
  shows "list_all2 (addresses dec rd Q) rs fs"
proof (cases "length page < PAGE_SIZE \<or> (case elem_get page 0 of Some b \<Rightarrow> b | None \<Rightarrow> 0) \<noteq> PAGE_TYPE_PACKED")
  case True
  with assms(1) show ?thesis by (simp add: page_records_def)
next
  case False
  with assms(1) obtain slots where s: "collect_map (read_slot dec page) slots = Ok fs" "rs = map (\<lambda>s. \<lparr>page_id = pid, slot_index = s\<rparr>) slots"
    by (auto simp: page_records_def Let_def and_then_eq_Inr)
  from collect_map_list_all2 [OF s(1)] show ?thesis
    unfolding s(2) list_all2_map1 by (rule list_all2_mono) (use assms(2,3) in \<open>simp add: addresses_def\<close>)
qed

lemma read_pages_addresses:
  "read_pages dec rd ids = Ok (fs, rs) \<Longrightarrow> set ids \<subseteq> Q \<Longrightarrow> list_all2 (addresses dec rd Q) rs fs"
proof (induction ids arbitrary: fs rs)
  case (Cons q ids)
  then show ?case by (fastforce simp: and_then_eq_Inr intro: list_all2_appendI page_records_addresses)
qed simp

section \<open>Index entries\<close>

lemma sort_key_append_sorted: "sort_key f (sort_key f xs @ sort_key f ys) = sort_key f (xs @ ys)"
proof (rule properties_for_sort_key)
  have stable: "filter (\<lambda>x. f k = f x) (sort_key f zs) = filter (\<lambda>x. f k = f x) zs" for k zs
    unfolding eq_commute [of "f k"] by (rule sort_key_stable)
  show "filter (\<lambda>x. f k = f x) (sort_key f (xs @ ys)) = filter (\<lambda>x. f k = f x) (sort_key f xs @ sort_key f ys)" for k
    by (simp only: stable filter_append)
qed simp_all

definition entries_by :: "(fact \<Rightarrow> 'k::linorder) \<Rightarrow> fact list \<Rightarrow> fact_ref list \<Rightarrow> ('k \<times> fact_ref) list" where
  "entries_by key fs refs = sort_key fst (map (\<lambda>(f, r). (key f, r)) (zip fs refs))"

definition ref_entries :: "fact list \<Rightarrow> fact_ref list \<Rightarrow> (vaet_key \<times> fact_ref) list" where
  "ref_entries fs refs = sort_key fst (vaet_entries_of (zip fs refs))"

lemma build_sorted_index_entries_eq:
  "build_sorted_index_entries fs refs =
     (entries_by eavt_key_of fs refs, entries_by aevt_key_of fs refs, entries_by avet_key_of fs refs, ref_entries fs refs)"
  by (simp add: build_sorted_index_entries_def entries_by_def ref_entries_def)

lemma entries_by_append:
  "length fs = length refs \<Longrightarrow> sort_key fst (entries_by key fs refs @ entries_by key gs rs) = entries_by key (fs @ gs) (refs @ rs)"
  by (simp add: entries_by_def sort_key_append_sorted)

lemma ref_entries_append:
  "length fs = length refs \<Longrightarrow> sort_key fst (ref_entries fs refs @ ref_entries gs rs) = ref_entries (fs @ gs) (refs @ rs)"
  by (simp add: ref_entries_def sort_key_append_sorted vaet_entries_of_def List.map_filter_def)

lemma entries_by_sorted [simp]: "sorted (map fst (entries_by key fs refs))" "sorted (map fst (ref_entries fs refs))"
  by (simp_all add: entries_by_def ref_entries_def)

lemma length_entries_by: "length fs = length refs \<Longrightarrow> length (entries_by key fs refs) = length fs"
  by (simp add: entries_by_def)

lemma length_ref_entries: "length (ref_entries fs refs) \<le> length fs"
  by (simp add: ref_entries_def vaet_entries_of_def List.map_filter_def) (rule order_trans [OF length_filter_le], simp)

lemma set_entries_by: "set (entries_by key fs refs) = (\<lambda>(f, r). (key f, r)) ` set (zip fs refs)"
  by (simp add: entries_by_def)

lemma set_ref_entries: "x \<in> set (ref_entries fs refs) \<longleftrightarrow> (\<exists>f r t. (f, r) \<in> set (zip fs refs) \<and> val f = VRef t \<and> x = (vaet_key_of t f, r))"
  by (force simp: ref_entries_def vaet_entries_of_def List.map_filter_def split: value_t.splits)

lemma distinct_map_factor: "distinct (map f xs) \<Longrightarrow> (\<And>x y. g x = g y \<Longrightarrow> f x = f y) \<Longrightarrow> distinct (map g xs)"
  by (metis (no_types, opaque_lifting) distinct_map inj_on_def)

lemma distinct_entries_by:
  assumes "distinct (map eavt_key_of fs)" "length fs = length refs" "\<And>f g. key f = key g \<Longrightarrow> eavt_key_of f = eavt_key_of g"
  shows "distinct (map fst (entries_by key fs refs))"
proof -
  have "map fst (map (\<lambda>(f, r). (key f, r)) (zip fs refs)) = map key fs"
    using arg_cong [OF map_fst_zip [OF assms(2)], of "map key"] by (simp add: comp_def case_prod_unfold)
  moreover have "distinct (map key fs)" using assms(1,3) by (rule distinct_map_factor)
  moreover have "mset (map fst (entries_by key fs refs)) = mset (map fst (map (\<lambda>(f, r). (key f, r)) (zip fs refs)))"
    unfolding entries_by_def mset_map [of fst] mset_sort ..
  ultimately show ?thesis by (metis mset_eq_imp_distinct_iff)
qed

lemma keys_determine:
  "aevt_key_of f = aevt_key_of g \<Longrightarrow> eavt_key_of f = eavt_key_of g" "avet_key_of f = avet_key_of g \<Longrightarrow> eavt_key_of f = eavt_key_of g"
  "vaet_key_of t f = vaet_key_of u g \<Longrightarrow> eavt_key_of f = eavt_key_of g"
  by (simp_all add: aevt_key_of_def avet_key_of_def vaet_key_of_def eavt_key_of_def)

lemma vaet_entries_keyD: "k \<in> fst ` set (vaet_entries_of (zip fs refs)) \<Longrightarrow> \<exists>g \<in> set fs. \<exists>t. k = vaet_key_of t g"
  by (auto simp: vaet_entries_of_def List.map_filter_def split: value_t.splits dest!: set_zip_leftD) blast

lemma distinct_ref_entries:
  assumes "distinct (map eavt_key_of fs)"
  shows "distinct (map fst (ref_entries fs refs))"
proof -
  have "distinct (map fst (vaet_entries_of (zip fs refs)))"
    using assms
  proof (induction fs arbitrary: refs)
    case (Cons f fs)
    show ?case
    proof (cases refs)
      case (Cons r rs)
      have "vaet_key_of t f \<notin> fst ` set (vaet_entries_of (zip fs rs))" for t
        using Cons.prems by (auto dest!: vaet_entries_keyD keys_determine(3))
      then show ?thesis using Cons.IH [of rs] Cons.prems Cons
        by (auto simp: vaet_entries_of_def List.map_filter_simps split: value_t.splits)
    qed (simp add: vaet_entries_of_def List.map_filter_simps)
  qed (simp add: vaet_entries_of_def List.map_filter_simps)
  then show ?thesis unfolding ref_entries_def by (metis mset_eq_imp_distinct_iff mset_map mset_sort)
qed

text \<open>A range of the entries of some facts resolves to the facts whose key is in the range.\<close>

lemma entries_resolve:
  assumes "list_all2 (\<lambda>r f. res r = Ok f) refs fs"
  shows "\<exists>gs. collect_map res (map snd (filter (\<lambda>x. P (fst x)) (entries_by key fs refs))) = Ok gs \<and>
    mset gs = filter_mset (\<lambda>f. P (key f)) (mset fs)"
proof -
  let ?g = "\<lambda>r. projr (res r)" and ?rs = "map snd (filter (\<lambda>x. P (fst x)) (entries_by key fs refs))"
  have len: "length fs = length refs" using assms by (simp add: list_all2_lengthD)
  have z: "res r = Ok f" if "(f, r) \<in> set (zip fs refs)" for f r
    using that assms by (auto simp: list_all2_conv_all_nth set_zip)
  then have "res r = Ok (?g r)" if "r \<in> set ?rs" for r using that by (auto simp: set_entries_by)
  then have "collect_map res ?rs = Ok (map ?g ?rs)" by (rule collect_map_Inr)
  moreover have "mset (map ?g ?rs) = image_mset (\<lambda>x. ?g (snd x)) (filter_mset (\<lambda>x. P (key (fst x))) (mset (zip fs refs)))"
    by (simp add: entries_by_def mset_filter image_mset_filter_mset_swap [symmetric] multiset.map_comp comp_def case_prod_unfold
        filter_mset_image_mset)
  moreover have "\<dots> = image_mset fst (filter_mset (\<lambda>x. P (key (fst x))) (mset (zip fs refs)))"
    using z by (intro image_mset_cong) auto
  moreover have "\<dots> = filter_mset (\<lambda>f. P (key f)) (image_mset fst (mset (zip fs refs)))"
    by (simp add: filter_mset_image_mset comp_def)
  moreover have "image_mset fst (mset (zip fs refs)) = mset fs" using len by (metis map_fst_zip mset_map)
  ultimately show ?thesis by auto
qed

end
