(* ===== verification/Checkpoint.thy ===== *)
theory Checkpoint
  imports Stored_Facts
begin

text \<open>
  What a file of format 7 holds and that a checkpoint keeps it: the facts on the fact pages, four
  B+trees that index exactly these facts, a header that points to them, and checksums over all
  data pages.
\<close>

section \<open>What is required of the facts and the serialisation\<close>

definition crates_ok :: "crates \<Rightarrow> bool" where
  "crates_ok K \<longleftrightarrow> codec_ok (fact_enc K) (fact_dec K) \<and> key_codec_ok (eavt_codec K) \<and> key_codec_ok (aevt_codec K) \<and>
     key_codec_ok (avet_codec K) \<and> key_codec_ok (vaet_codec K)"

definition fits_fact :: "crates \<Rightarrow> fact \<Rightarrow> bool" where
  "fits_fact K f \<longleftrightarrow> (\<exists>b. fact_enc K f = Ok b \<and> length b \<le> MAX_FACT_BYTES) \<and>
     (\<forall>r. fits_entry (eavt_codec K) (eavt_key_of f, r) \<and> fits_entry (aevt_codec K) (aevt_key_of f, r) \<and>
       fits_entry (avet_codec K) (avet_key_of f, r) \<and> (\<forall>t. val f = VRef t \<longrightarrow> fits_entry (vaet_codec K) (vaet_key_of t f, r)))"

section \<open>Packing\<close>

lemma pack_one_pages: "pack_one enc sp f st = Ok st' \<Longrightarrow> length (pages st') \<le> length (pages st) + 1"
  by (auto simp: pack_one_def place_record_def flush_page_def Let_def and_then_eq_Inr split: if_splits)

lemma pack_loop_pages: "pack_loop enc sp fs st = Ok st' \<Longrightarrow> length (pages st') \<le> length (pages st) + length fs"
  by (induction fs arbitrary: st) (fastforce simp: and_then_eq_Inr dest: pack_one_pages)+

lemma pack_ok:
  assumes "codec_ok enc dec" "\<forall>f \<in> set fs. \<exists>b. enc f = Ok b \<and> length b \<le> MAX_FACT_BYTES"
  shows "\<exists>ps refs. pack_facts enc fs sp = Ok (ps, refs) \<and> ps \<noteq> [] \<and> length ps \<le> length fs + 1 \<and> (\<forall>p \<in> set ps. length p = PAGE_SIZE) \<and> length fs = length refs \<and>
    (\<forall>rd. length ps < 2 ^ 64 \<longrightarrow> (\<forall>i < length ps. rd (u64_saturating_add sp (of_nat i)) = Ok (ps ! i)) \<longrightarrow>
      read_all_with_refs dec rd sp (of_nat (length ps)) = Ok (fs, refs))"
proof -
  define sers where "sers = map (\<lambda>f. projr (enc f)) fs"
  have s: "collect_map enc fs = Ok sers" unfolding sers_def by (rule collect_map_Inr) (use assms(2) in auto)
  have fits: "\<forall>b \<in> set sers. length b \<le> MAX_FACT_BYTES" using assms(2) by (auto simp: sers_def)
  moreover have "\<forall>b \<in> set sers. b \<noteq> []" using assms by (fastforce simp: sers_def codec_ok_def)
  ultimately obtain chunks ps where c: "pack_facts enc fs sp = Ok (ps, refs_from sp 0 chunks)" "list_all2 full_page chunks ps" "concat chunks = sers"
    using pack_facts_chunks [OF s, of sp] by blast
  have "ps \<noteq> []" "length ps \<le> length fs + 1"
    using c(1) pack_loop_pages [of enc sp fs pack_start] by (auto simp: pack_facts_def and_then_eq_Inr flush_page_def pack_start_def)
  moreover have "\<forall>p \<in> set ps. length p = PAGE_SIZE"
    using c(2) by (auto simp: list_all2_conv_all_nth full_page_def in_set_conv_nth)
  moreover have "length fs = length (refs_from sp 0 chunks)" by (simp add: c(3) sers_def)
  ultimately show ?thesis using pack_read_roundtrip [OF assms(1) s fits, of sp] c(1) by auto
qed

section \<open>What the file holds\<close>

definition header_roots :: "file_header \<Rightarrow> roots" where
  "header_roots h = (eavt_root_page h, aevt_root_page h, avet_root_page h, vaet_root_page h)"

definition index_at :: "'k key_codec \<Rightarrow> 'b backend_ops \<Rightarrow> nat \<Rightarrow> u64 \<Rightarrow> ('k \<times> fact_ref) list \<Rightarrow> 'b \<Rightarrow> bool" where
  "index_at C ops n root xs b \<longleftrightarrow> (if root = 0 then xs = [] else index_tree C ops n root xs b)"

definition indexed :: "crates \<Rightarrow> 'b storage_backend \<Rightarrow> nat \<Rightarrow> roots \<Rightarrow> fact list \<Rightarrow> fact_ref list \<Rightarrow> 'b \<Rightarrow> bool" where
  "indexed K B n = (\<lambda>(er, ar, vr, rr) fs refs b.
     index_at (eavt_codec K) (page_ops B) n er (entries_by eavt_key_of fs refs) b \<and>
     index_at (aevt_codec K) (page_ops B) n ar (entries_by aevt_key_of fs refs) b \<and>
     index_at (avet_codec K) (page_ops B) n vr (entries_by avet_key_of fs refs) b \<and>
     index_at (vaet_codec K) (page_ops B) n rr (ref_entries fs refs) b)"

text \<open>\<open>n\<close> fact pages with these facts at these references, indexed and sealed.\<close>

definition stored :: "crates \<Rightarrow> 'b storage_backend \<Rightarrow> u64 \<Rightarrow> fact list \<Rightarrow> fact_ref list \<Rightarrow> 'b \<Rightarrow> bool" where
  "stored K B n fs refs b \<longleftrightarrow> (let h = hdr_of B b; rd = read_page (page_ops B) b in
     read_all_with_refs (fact_dec K) rd 1 n = Ok (fs, refs) \<and> unat n < unat (page_count h) \<and> fact_page_count h = n \<and>
     fact_page_format h = FACT_PAGE_FORMAT_PACKED \<and> node_count h = of_nat (length fs) \<and> indexed K B (unat (page_count h)) (header_roots h) fs refs b \<and>
     (if n = 0 then header_roots h = (0, 0, 0, 0) \<and> page_count h = 1
      else eavt_root_page h \<noteq> 0 \<and>
        (\<exists>bs. hash_pages rd [] 1 (page_count h - 1) = Ok bs \<and> index_checksum h = crc32 K bs)))"

lemma index_tree_root:
  assumes "index_tree C ops n root xs b"
  shows "root \<noteq> 0" "unat root < n" "\<exists>x. read_page ops b root = Ok x"
proof -
  from assms obtain ls where "subtree (dec_key C) (read_page ops b) n root ls" by (auto simp: index_tree_def tree_at_def)
  then show "root \<noteq> 0" "unat root < n" "\<exists>x. read_page ops b root = Ok x" by (cases, auto)+
qed

lemma index_tree_moves:
  assumes "index_tree C ops n root xs b" "keeps (\<lambda>q. unat q < n) (read_page ops b) (read_page ops b')" "n \<le> m"
  shows "index_tree C ops m root xs b'"
proof -
  from assms(1) obtain ls where ls: "tree_at C (read_page ops b) n root ls" "tree_entries ls = xs" by (auto simp: index_tree_def)
  have "tree_at C (read_page ops b') m root ls"
    using ls(1) unfolding tree_at_def by (blast intro: subtree_keeps [OF _ assms(2,3)] leaf_chain_keeps [OF _ assms(2,3)])
  with ls(2) show ?thesis by (auto simp: index_tree_def)
qed

section \<open>Building the four trees\<close>

text \<open>\<open>F start\<close> builds, from page \<open>start\<close> on, a tree that holds \<open>ys\<close> and ends with its root.\<close>

definition grows_tree :: "'k key_codec \<Rightarrow> 'b backend_ops \<Rightarrow> ('b \<Rightarrow> bool) \<Rightarrow> (u64 \<Rightarrow> 'b io \<Rightarrow> (u64 \<times> u64) result \<times> 'b io) \<Rightarrow>
    ('k \<times> fact_ref) list \<Rightarrow> bool" where
  "grows_tree C ops invar F ys \<longleftrightarrow> (\<forall>io start. sound_io ops invar io \<and> cached_below start io \<and> start \<noteq> 0 \<and> unat start + 3 * length ys + 1 < 2 ^ 52 \<longrightarrow>
     (\<exists>root np io'. F start io = (Ok (root, np), io') \<and> sound_io ops invar io' \<and> cached_below np io' \<and> index_tree C ops (unat np) root ys (fst io') \<and>
       unat start < unat np \<and> unat np \<le> unat start + 3 * length ys + 1 \<and> root + 1 = np \<and>
       keeps (\<lambda>q. unat q < unat start) (read_page ops (fst io)) (read_page ops (fst io'))))"

lemma grows_treeE:
  assumes "grows_tree C ops invar F ys" "sound_io ops invar io \<and> cached_below start io" "start \<noteq> 0" "unat start + 3 * length ys + 1 < 2 ^ 52"
  obtains root np io' where "F start io = (Ok (root, np), io')" "sound_io ops invar io' \<and> cached_below np io'" "index_tree C ops (unat np) root ys (fst io')"
    "unat start < unat np" "unat np \<le> unat start + 3 * length ys + 1" "root + 1 = np" "np \<noteq> 0"
    "keeps (\<lambda>q. unat q < unat start) (read_page ops (fst io)) (read_page ops (fst io'))"
proof -
  from assms obtain root np io' where r: "F start io = (Ok (root, np), io')" "sound_io ops invar io' \<and> cached_below np io'"
    "index_tree C ops (unat np) root ys (fst io')" "unat start < unat np" "unat np \<le> unat start + 3 * length ys + 1" "root + 1 = np"
    "keeps (\<lambda>q. unat q < unat start) (read_page ops (fst io)) (read_page ops (fst io'))" unfolding grows_tree_def by blast
  moreover from r(4) have "np \<noteq> 0" by auto
  ultimately show thesis using that by blast
qed

lemma four_trees:
  assumes F: "grows_tree C1 ops invar F1 ys1" "grows_tree C2 ops invar F2 ys2" "grows_tree C3 ops invar F3 ys3" "grows_tree C4 ops invar F4 ys4"
    and io: "sound_io ops invar io \<and> cached_below start io" "start \<noteq> 0"
      "unat start + 3 * (length ys1 + length ys2 + length ys3 + length ys4) + 4 < 2 ^ 52"
  shows "\<exists>er ar vr rr next4 io'.
    and_io (F1 start io) (\<lambda>(er, next1) io. and_io (F2 next1 io) (\<lambda>(ar, next2) io. and_io (F3 next2 io) (\<lambda>(vr, next3) io.
      and_io (F4 next3 io) (\<lambda>(rr, next4) io. (Ok ((er, ar, vr, rr), next4), io))))) = (Ok ((er, ar, vr, rr), next4), io') \<and>
    sound_io ops invar io' \<and> cached_below next4 io' \<and> index_tree C1 ops (unat next4) er ys1 (fst io') \<and> index_tree C2 ops (unat next4) ar ys2 (fst io') \<and>
    index_tree C3 ops (unat next4) vr ys3 (fst io') \<and> index_tree C4 ops (unat next4) rr ys4 (fst io') \<and> rr + 1 = next4 \<and>
    unat start < unat next4 \<and> unat next4 \<le> unat start + 3 * (length ys1 + length ys2 + length ys3 + length ys4) + 4 \<and>
    keeps (\<lambda>q. unat q < unat start) (read_page ops (fst io)) (read_page ops (fst io'))"
proof -
  have r1: "unat start + 3 * length ys1 + 1 < 2 ^ 52" using io(3) by simp
  from grows_treeE [OF F(1) io(1,2) r1] obtain er n1 io1 where
    1: "F1 start io = (Ok (er, n1), io1)" "sound_io ops invar io1 \<and> cached_below n1 io1" "index_tree C1 ops (unat n1) er ys1 (fst io1)" "unat start < unat n1"
    "unat n1 \<le> unat start + 3 * length ys1 + 1" "n1 \<noteq> 0" "keeps (\<lambda>q. unat q < unat start) (read_page ops (fst io)) (read_page ops (fst io1))" by blast
  have r2: "unat n1 + 3 * length ys2 + 1 < 2 ^ 52" using 1(5) io(3) by simp
  from grows_treeE [OF F(2) 1(2,6) r2] obtain ar n2 io2 where
    2: "F2 n1 io1 = (Ok (ar, n2), io2)" "sound_io ops invar io2 \<and> cached_below n2 io2" "index_tree C2 ops (unat n2) ar ys2 (fst io2)" "unat n1 < unat n2"
    "unat n2 \<le> unat n1 + 3 * length ys2 + 1" "n2 \<noteq> 0" "keeps (\<lambda>q. unat q < unat n1) (read_page ops (fst io1)) (read_page ops (fst io2))" by blast
  have r3: "unat n2 + 3 * length ys3 + 1 < 2 ^ 52" using 1(5) 2(5) io(3) by simp
  from grows_treeE [OF F(3) 2(2,6) r3] obtain vr n3 io3 where
    3: "F3 n2 io2 = (Ok (vr, n3), io3)" "sound_io ops invar io3 \<and> cached_below n3 io3" "index_tree C3 ops (unat n3) vr ys3 (fst io3)" "unat n2 < unat n3"
    "unat n3 \<le> unat n2 + 3 * length ys3 + 1" "n3 \<noteq> 0" "keeps (\<lambda>q. unat q < unat n2) (read_page ops (fst io2)) (read_page ops (fst io3))" by blast
  have r4: "unat n3 + 3 * length ys4 + 1 < 2 ^ 52" using 1(5) 2(5) 3(5) io(3) by simp
  from grows_treeE [OF F(4) 3(2,6) r4] obtain rr n4 io4 where
    4: "F4 n3 io3 = (Ok (rr, n4), io4)" "sound_io ops invar io4 \<and> cached_below n4 io4" "index_tree C4 ops (unat n4) rr ys4 (fst io4)" "unat n3 < unat n4"
    "unat n4 \<le> unat n3 + 3 * length ys4 + 1" "rr + 1 = n4" "keeps (\<lambda>q. unat q < unat n3) (read_page ops (fst io3)) (read_page ops (fst io4))" by blast
  have k24: "keeps (\<lambda>q. unat q < unat n2) (read_page ops (fst io2)) (read_page ops (fst io4))"
    by (rule keeps_trans [OF 3(7) 4(7)]) (use 3(4) in auto)
  have k14: "keeps (\<lambda>q. unat q < unat n1) (read_page ops (fst io1)) (read_page ops (fst io4))"
    by (rule keeps_trans [OF 2(7) k24]) (use 2(4) in auto)
  have "keeps (\<lambda>q. unat q < unat start) (read_page ops (fst io)) (read_page ops (fst io4))"
    by (rule keeps_trans [OF 1(7) k14]) (use 1(4) in auto)
  moreover have "index_tree C1 ops (unat n4) er ys1 (fst io4)" using index_tree_moves [OF 1(3) k14] 2(4) 3(4) 4(4) by simp
  moreover have "index_tree C2 ops (unat n4) ar ys2 (fst io4)" using index_tree_moves [OF 2(3) k24] 3(4) 4(4) by simp
  moreover have "index_tree C3 ops (unat n4) vr ys3 (fst io4)" using index_tree_moves [OF 3(3) 4(7)] 4(4) by simp
  moreover have "unat start < unat n4" "unat n4 \<le> unat start + 3 * (length ys1 + length ys2 + length ys3 + length ys4) + 4"
    using 1(4,5) 2(4,5) 3(4,5) 4(4,5) by simp_all
  ultimately show ?thesis using 1(1) 2(1) 3(1) 4(1-3,6) by auto
qed

context backend
begin

lemma build_tree_grows:
  assumes "key_codec_ok C" "\<forall>x \<in> set ys. fits_entry C x" "writable ops invar (2 ^ 52)" "bounded_writes ops"
  shows "grows_tree C ops invar (build_tree C ops ys) ys"
  unfolding grows_tree_def
proof (intro allI impI, elim conjE)
  fix io and start :: u64
  assume io: "sound_io ops invar io" "start \<noteq> 0" and c: "cached_below start io" and room: "unat start + 3 * length ys + 1 < 2 ^ 52"
  have "writable ops invar (unat start + 3 * length ys + 1)" using assms(3) room by (auto simp: writable_def)
  from build_index_tree [OF io(1) assms(1,2) io(2) _ this] room obtain bks root np io' where
    b: "btree_entries C ys = Ok bks" "build_btree ops bks start io = (Ok (root, np), io')" "sound_io ops invar io'"
    "index_tree C ops (unat np) root ys (fst io')" "unat start < unat np" "unat np \<le> unat start + 3 * length ys + 1"
    "keeps (\<lambda>q. unat q < unat start) (read_page ops (fst io)) (read_page ops (fst io'))" by auto
  then show "\<exists>root np io'. build_tree C ops ys start io = (Ok (root, np), io') \<and> sound_io ops invar io' \<and> cached_below np io' \<and>
      index_tree C ops (unat np) root ys (fst io') \<and> unat start < unat np \<and> unat np \<le> unat start + 3 * length ys + 1 \<and> root + 1 = np \<and>
      keeps (\<lambda>q. unat q < unat start) (read_page ops (fst io)) (read_page ops (fst io'))"
    using build_btree_root [OF b(2)] build_btree_below [OF b(2) assms(4) c] by (auto simp: build_tree_def)
qed

lemma rebuild_old_grows:
  assumes io: "sound_io ops invar io" and old: "index_at C ops n root xs (fst io)" "backend_page_count ops (fst io) = Ok pc" "n \<le> unat pc"
    and codec: "key_codec_ok C" "\<forall>x \<in> set xs \<union> set pending. fits_entry C x" "writable ops invar (2 ^ 52)" "bounded_writes ops"
    and keys: "sorted (map fst xs)" "sorted (map fst pending)" "distinct (map fst (xs @ pending))"
  shows "\<exists>ps c. old_leaves ops root io = Some (Ok ps, (fst io, c)) \<and> sound_io ops invar (fst io, c) \<and>
    grows_tree C ops invar (rebuild_btree_incremental C ops ps pending) (sort_key fst (xs @ pending))"
proof (cases "root = 0")
  case True
  with old(1) have xs: "xs = []" by (simp add: index_at_def)
  have "rebuild_btree_incremental C ops [] pending = build_tree C ops pending"
    by (intro ext) (simp add: rebuild_btree_incremental_def build_tree_def List.map_filter_simps)
  moreover have "grows_tree C ops invar (build_tree C ops pending) pending"
    by (rule build_tree_grows) (use codec in auto)
  moreover have "sort_key fst pending = pending" using keys(2) by (rule sort_key_id_if_sorted)
  ultimately show ?thesis using True io xs by (intro exI [of _ "[]"] exI [of _ "snd io"]) (simp add: old_leaves_def)
next
  case False
  with old(1) have tree: "index_tree C ops n root xs (fst io)" by (simp add: index_at_def)
  have "n \<le> unat pc + 1" using old(3) by simp
  from rebuild_index_tree [OF tree old(2) this io codec(1,2) keys] obtain ps c where
    c: "collect_leaf_pages ops root io = Some (Ok ps, (fst io, c))" "sound_io ops invar (fst io, c)" and
    r: "\<And>io1 start. sound_io ops invar io1 \<and> start \<noteq> 0 \<and> unat start + 3 * (length xs + length pending) + 1 < 2 ^ 64 \<and>
      writable ops invar (unat start + 3 * (length xs + length pending) + 1) \<Longrightarrow>
      \<exists>root' np io2. rebuild_btree_incremental C ops ps pending start io1 = (Ok (root', np), io2) \<and> sound_io ops invar io2 \<and>
        unat start < unat np \<and> unat np \<le> unat start + 3 * (length xs + length pending) + 1 \<and>
        index_tree C ops (unat np) root' (sort_key fst (xs @ pending)) (fst io2) \<and>
        scans C ops root' (sort_key fst (xs @ pending)) io2 \<and>
        keeps (\<lambda>q. unat q < unat start) (read_page ops (fst io1)) (read_page ops (fst io2))" by (elim exE conjE) blast
  have "grows_tree C ops invar (rebuild_btree_incremental C ops ps pending) (sort_key fst (xs @ pending))"
    unfolding grows_tree_def
  proof (intro allI impI, elim conjE)
    fix io1 and start :: u64
    assume io1: "sound_io ops invar io1" "start \<noteq> 0" and c1: "cached_below start io1" and room: "unat start + 3 * length (sort_key fst (xs @ pending)) + 1 < 2 ^ 52"
    then have "writable ops invar (unat start + 3 * (length xs + length pending) + 1)" using codec(3) by (auto simp: writable_def)
    with io1 room have "sound_io ops invar io1 \<and> start \<noteq> 0 \<and> unat start + 3 * (length xs + length pending) + 1 < 2 ^ 64 \<and>
      writable ops invar (unat start + 3 * (length xs + length pending) + 1)" by simp
    from r [OF this] obtain root' np io2 where "rebuild_btree_incremental C ops ps pending start io1 = (Ok (root', np), io2)" "sound_io ops invar io2"
        "unat start < unat np" "unat np \<le> unat start + 3 * (length xs + length pending) + 1"
        "index_tree C ops (unat np) root' (sort_key fst (xs @ pending)) (fst io2)"
        "keeps (\<lambda>q. unat q < unat start) (read_page ops (fst io1)) (read_page ops (fst io2))" by blast
    with rebuild_root [OF this(1)] rebuild_below [OF this(1) codec(4) c1] show "\<exists>root np io'. rebuild_btree_incremental C ops ps pending start io1 = (Ok (root, np), io') \<and>
        sound_io ops invar io' \<and> cached_below np io' \<and> index_tree C ops (unat np) root (sort_key fst (xs @ pending)) (fst io') \<and> unat start < unat np \<and>
        unat np \<le> unat start + 3 * length (sort_key fst (xs @ pending)) + 1 \<and> root + 1 = np \<and>
        keeps (\<lambda>q. unat q < unat start) (read_page ops (fst io1)) (read_page ops (fst io'))" by auto
  qed
  with c False show ?thesis by (auto simp: old_leaves_def)
qed

lemma write_fact_pages_correct:
  assumes "sound_io ops invar (b, c)" "start \<noteq> 0" "\<forall>x \<in> set (entries c). fst x < start" "\<forall>p \<in> set ps. length p = PAGE_SIZE"
    "unat start + i + length ps < 2 ^ 52" "writable ops invar (2 ^ 52)"
  shows "\<exists>b'. write_fact_pages ops start i ps (b, c) = (Ok (), (b', c)) \<and> sound_io ops invar (b', c) \<and>
    (\<forall>j < length ps. read_page ops b' (start + of_nat (i + j)) = Ok (ps ! j)) \<and>
    keeps (\<lambda>q. unat q < unat start + i) (read_page ops b) (read_page ops b')"
  using assms
proof (induction ps arbitrary: i b)
  case (Cons page ps)
  let ?p = "start + of_nat i"
  have p: "unat ?p = unat start + i" "?p \<noteq> 0"
  proof -
    show u: "unat ?p = unat start + i" using Cons.prems(5) unat_add_lt [of start "of_nat i"] by (simp add: unat_of_nat)
    show "?p \<noteq> 0" using u Cons.prems(2) by (metis add_is_0 unat_eq_zero)
  qed
  have inv: "invar b" "cache_inv c" "coherent (read_page ops b) c" using Cons.prems(1) by (simp_all add: sound_io_def)
  have "fst (write_page ops ?p page b) = Ok ()"
    using Cons.prems(4,5,6) inv(1) p by (auto simp: writable_def)
  then obtain b1 where w: "write_page ops ?p page b = (Ok (), b1)" by (metis prod.collapse)
  have "q \<noteq> ?p" if "(q, e) \<in> set (entries c)" for q e
    using that Cons.prems(3) p(1) by (force simp: word_less_nat_alt)
  then have s1: "sound_io ops invar (b1, c)"
    using invar_write [OF inv(1) p(2) w] inv(2,3) write_coherent [OF inv(1) p(2) w _ inv(3)] by (auto simp: sound_io_def coherent_def)
  have k1: "keeps (\<lambda>q. unat q < unat start + i) (read_page ops b) (read_page ops b1)"
    unfolding keeps_def p(1) [symmetric] using read_other [OF inv(1) p(2) _ _ w] by (metis less_irrefl)
  have "unat start + (i + 1) + length ps < 2 ^ 52" "\<forall>p \<in> set ps. length p = PAGE_SIZE" using Cons.prems(4,5) by simp_all
  from Cons.IH [OF s1 Cons.prems(2,3) this(2,1) Cons.prems(6)] obtain b' where
    r: "write_fact_pages ops start (i + 1) ps (b1, c) = (Ok (), (b', c))" "sound_io ops invar (b', c)"
    "\<forall>j < length ps. read_page ops b' (start + of_nat (i + 1 + j)) = Ok (ps ! j)"
    "keeps (\<lambda>q. unat q < unat start + (i + 1)) (read_page ops b1) (read_page ops b')" by blast
  have "read_page ops b' ?p = Ok page" using r(4) read_same [OF inv(1) p(2) w] p by (simp add: keeps_def)
  then have "\<forall>j < length (page # ps). read_page ops b' (start + of_nat (i + j)) = Ok ((page # ps) ! j)"
    using r(3) by (auto simp: less_Suc_eq_0_disj ac_simps)
  moreover have "keeps (\<lambda>q. unat q < unat start + i) (read_page ops b) (read_page ops b')"
    by (rule keeps_trans [OF k1 r(4)]) simp
  moreover have "checked_add (Stg 22) start (of_nat i) = Ok ?p"
    using Cons.prems(5) by (simp add: checked_add_def unat_of_nat)
  ultimately show ?case using w r(1,2) by simp
qed simp

end

section \<open>The checkpoint\<close>

text \<open>The room a checkpoint needs: its fact pages and at most three pages for an entry of each of four trees.\<close>

definition room_for :: "u64 \<Rightarrow> nat \<Rightarrow> nat \<Rightarrow> bool" where
  "room_for n pending all \<longleftrightarrow> unat n + pending + 12 * all + 8 < 2 ^ 52"

lemma distinct_sort_key: "distinct (map fst (sort_key fst zs)) \<longleftrightarrow> distinct (map fst zs)"
  by (metis mset_eq_imp_distinct_iff mset_map mset_sort)

lemma entries_fit:
  assumes "\<forall>f \<in> set fs. fits_fact K f"
  shows "\<forall>x \<in> set (entries_by eavt_key_of fs refs). fits_entry (eavt_codec K) x"
    "\<forall>x \<in> set (entries_by aevt_key_of fs refs). fits_entry (aevt_codec K) x"
    "\<forall>x \<in> set (entries_by avet_key_of fs refs). fits_entry (avet_codec K) x"
    "\<forall>x \<in> set (ref_entries fs refs). fits_entry (vaet_codec K) x"
  using assms by (auto simp: set_entries_by set_ref_entries fits_fact_def dest!: set_zip_leftD)

lemma distinct_both:
  assumes "distinct (map eavt_key_of (fs @ gs))" "length fs = length refs" "length gs = length rs"
  shows "(\<And>f g. key f = key g \<Longrightarrow> eavt_key_of f = eavt_key_of g) \<Longrightarrow> distinct (map fst (entries_by key fs refs @ entries_by key gs rs))"
    "distinct (map fst (ref_entries fs refs @ ref_entries gs rs))"
proof -
  assume k: "\<And>f g. key f = key g \<Longrightarrow> eavt_key_of f = eavt_key_of g"
  have "length (fs @ gs) = length (refs @ rs)" using assms(2,3) by simp
  from distinct_entries_by [OF assms(1) this k] show "distinct (map fst (entries_by key fs refs @ entries_by key gs rs))"
    unfolding entries_by_append [OF assms(2), symmetric] distinct_sort_key .
next
  show "distinct (map fst (ref_entries fs refs @ ref_entries gs rs))"
    using distinct_ref_entries [OF assms(1), of "refs @ rs"] unfolding ref_entries_append [OF assms(2), symmetric] distinct_sort_key .
qed

lemma indexedI:
  assumes "index_tree (eavt_codec K) (page_ops B) n er (entries_by eavt_key_of fs refs) b"
    "index_tree (aevt_codec K) (page_ops B) n ar (entries_by aevt_key_of fs refs) b"
    "index_tree (avet_codec K) (page_ops B) n vr (entries_by avet_key_of fs refs) b"
    "index_tree (vaet_codec K) (page_ops B) n rr (ref_entries fs refs) b"
  shows "indexed K B n (er, ar, vr, rr) fs refs b"
  using assms index_tree_root(1) [OF assms(1)] index_tree_root(1) [OF assms(2)] index_tree_root(1) [OF assms(3)] index_tree_root(1) [OF assms(4)]
  by (simp add: indexed_def index_at_def)

context headed
begin

lemma all_old_leaves_grow:
  assumes "crates_ok K" "sound_io (page_ops B) (holds h) io" "stored K B n fs refs (fst io)" "length fs = length refs" "length gs = length rs"
    "\<forall>f \<in> set (fs @ gs). fits_fact K f" "distinct (map eavt_key_of (fs @ gs))"
  shows "\<exists>l1 l2 l3 l4 c. all_old_leaves (page_ops B) (hdr_of B (fst io)) io = Some (Ok (l1, l2, l3, l4), (fst io, c)) \<and>
    sound_io (page_ops B) (holds h) (fst io, c) \<and>
    grows_tree (eavt_codec K) (page_ops B) (holds h) (rebuild_btree_incremental (eavt_codec K) (page_ops B) l1 (entries_by eavt_key_of gs rs)) (entries_by eavt_key_of (fs @ gs) (refs @ rs)) \<and>
    grows_tree (aevt_codec K) (page_ops B) (holds h) (rebuild_btree_incremental (aevt_codec K) (page_ops B) l2 (entries_by aevt_key_of gs rs)) (entries_by aevt_key_of (fs @ gs) (refs @ rs)) \<and>
    grows_tree (avet_codec K) (page_ops B) (holds h) (rebuild_btree_incremental (avet_codec K) (page_ops B) l3 (entries_by avet_key_of gs rs)) (entries_by avet_key_of (fs @ gs) (refs @ rs)) \<and>
    grows_tree (vaet_codec K) (page_ops B) (holds h) (rebuild_btree_incremental (vaet_codec K) (page_ops B) l4 (ref_entries gs rs)) (ref_entries (fs @ gs) (refs @ rs))"
proof -
  let ?h = "hdr_of B (fst io)"
  let ?n = "unat (page_count ?h)"
  have "holds h (fst io)" using assms(2) by (simp add: sound_io_def)
  note count = page_count_header [OF this]
  note old = backend.rebuild_old_grows [OF data_pages, of h]
  have ix: "indexed K B ?n (header_roots ?h) fs refs (fst io)" using assms(3) by (simp add: stored_def Let_def)
  have fit: "\<forall>f \<in> set fs. fits_fact K f" "\<forall>f \<in> set gs. fits_fact K f" using assms(6) by auto
  note d = distinct_both(1) [OF assms(7,4,5)] and dr = distinct_both(2) [OF assms(7,4,5)]
  note app = entries_by_append [OF assms(4)] ref_entries_append [OF assms(4)]
  have t1: "\<forall>x \<in> set (entries_by eavt_key_of fs refs) \<union> set (entries_by eavt_key_of gs rs). fits_entry (eavt_codec K) x"
    "\<forall>x \<in> set (entries_by aevt_key_of fs refs) \<union> set (entries_by aevt_key_of gs rs). fits_entry (aevt_codec K) x"
    "\<forall>x \<in> set (entries_by avet_key_of fs refs) \<union> set (entries_by avet_key_of gs rs). fits_entry (avet_codec K) x"
    "\<forall>x \<in> set (ref_entries fs refs) \<union> set (ref_entries gs rs). fits_entry (vaet_codec K) x"
    using entries_fit [OF fit(1), of refs] entries_fit [OF fit(2), of rs] by blast+
  have codec: "key_codec_ok (eavt_codec K)" "key_codec_ok (aevt_codec K)" "key_codec_ok (avet_codec K)" "key_codec_ok (vaet_codec K)"
    using assms(1) by (simp_all add: crates_ok_def)
  have i: "index_at (eavt_codec K) (page_ops B) ?n (eavt_root_page ?h) (entries_by eavt_key_of fs refs) (fst io)"
    "index_at (aevt_codec K) (page_ops B) ?n (aevt_root_page ?h) (entries_by aevt_key_of fs refs) (fst io)"
    "index_at (avet_codec K) (page_ops B) ?n (avet_root_page ?h) (entries_by avet_key_of fs refs) (fst io)"
    "index_at (vaet_codec K) (page_ops B) ?n (vaet_root_page ?h) (ref_entries fs refs) (fst io)"
    using ix by (simp_all add: indexed_def header_roots_def)
  from old [OF assms(2) i(1) count order_refl codec(1) t1(1) space bounded entries_by_sorted(1,1) d] obtain l1 c1 where
    1: "old_leaves (page_ops B) (eavt_root_page ?h) io = Some (Ok l1, (fst io, c1))" "sound_io (page_ops B) (holds h) (fst io, c1)"
    "grows_tree (eavt_codec K) (page_ops B) (holds h) (rebuild_btree_incremental (eavt_codec K) (page_ops B) l1 (entries_by eavt_key_of gs rs)) (entries_by eavt_key_of (fs @ gs) (refs @ rs))"
    unfolding app by blast
  from old [OF 1(2), unfolded fst_conv, OF i(2) count order_refl codec(2) t1(2) space bounded entries_by_sorted(1,1) d [OF keys_determine(1)]] obtain l2 c2 where
    2: "old_leaves (page_ops B) (aevt_root_page ?h) (fst io, c1) = Some (Ok l2, (fst io, c2))" "sound_io (page_ops B) (holds h) (fst io, c2)"
    "grows_tree (aevt_codec K) (page_ops B) (holds h) (rebuild_btree_incremental (aevt_codec K) (page_ops B) l2 (entries_by aevt_key_of gs rs)) (entries_by aevt_key_of (fs @ gs) (refs @ rs))"
    unfolding app by blast
  from old [OF 2(2), unfolded fst_conv, OF i(3) count order_refl codec(3) t1(3) space bounded entries_by_sorted(1,1) d [OF keys_determine(2)]] obtain l3 c3 where
    3: "old_leaves (page_ops B) (avet_root_page ?h) (fst io, c2) = Some (Ok l3, (fst io, c3))" "sound_io (page_ops B) (holds h) (fst io, c3)"
    "grows_tree (avet_codec K) (page_ops B) (holds h) (rebuild_btree_incremental (avet_codec K) (page_ops B) l3 (entries_by avet_key_of gs rs)) (entries_by avet_key_of (fs @ gs) (refs @ rs))"
    unfolding app by blast
  from old [OF 3(2), unfolded fst_conv, OF i(4) count order_refl codec(4) t1(4) space bounded entries_by_sorted(2,2) dr] obtain l4 c4 where
    4: "old_leaves (page_ops B) (vaet_root_page ?h) (fst io, c3) = Some (Ok l4, (fst io, c4))" "sound_io (page_ops B) (holds h) (fst io, c4)"
    "grows_tree (vaet_codec K) (page_ops B) (holds h) (rebuild_btree_incremental (vaet_codec K) (page_ops B) l4 (ref_entries gs rs)) (ref_entries (fs @ gs) (refs @ rs))"
    unfolding app by blast
  show ?thesis
    by (intro exI [of _ l1] exI [of _ l2] exI [of _ l3] exI [of _ l4] exI [of _ c4]) (simp add: all_old_leaves_def 1 2 3 4)
qed

lemma write_checkpoint_correct:
  assumes K: "crates_ok K" and io: "sound_io (page_ops B) (holds h) io" and st: "stored K B n fs refs (fst io)"
    and len: "length fs = length refs" and fit: "\<forall>f \<in> set (fs @ gs). fits_fact K f" and keys: "distinct (map eavt_key_of (fs @ gs))"
    and room: "room_for n (length gs) (length fs + length gs)"
  obtains roots next4 k io' rs where
    "write_checkpoint K B n gs io = Some (Ok (hdr_of B (fst io), roots, next4, n + k, k), io')" "sound_io (page_ops B) (holds h) io'" "cached_below next4 io'"
    "read_all_with_refs (fact_dec K) (read_page (page_ops B) (fst io')) 1 (n + k) = Ok (fs @ gs, refs @ rs)" "length gs = length rs"
    "indexed K B (unat next4) roots (fs @ gs) (refs @ rs) (fst io')" "fst roots \<noteq> 0" "k \<noteq> 0" "unat k \<le> length gs + 1"
    "unat n + unat k + 1 < unat next4" "next4 \<le> page_count (hdr_of B (fst io'))" "unat next4 < 2 ^ 52"
    "keeps (\<lambda>q. unat q \<le> unat n) (read_page (page_ops B) (fst io)) (read_page (page_ops B) (fst io'))"
proof -
  let ?ops = "page_ops B" and ?start = "1 + n"
  have n: "unat n + length gs + 12 * (length fs + length gs) + 8 < 2 ^ 52" using room by (simp add: room_for_def)
  have u: "unat ?start = 1 + unat n" using n unat_add_lt [of 1 n] by simp
  then have start: "?start \<noteq> 0" by (metis Suc_neq_Zero plus_1_eq_Suc unat_0)
  have h: "holds h (fst io)" using io by (simp add: sound_io_def)
  have "codec_ok (fact_enc K) (fact_dec K)" "\<forall>f \<in> set gs. \<exists>b. fact_enc K f = Ok b \<and> length b \<le> MAX_FACT_BYTES"
    using K fit by (auto simp: crates_ok_def fits_fact_def)
  from pack_ok [OF this, of ?start] obtain ps rs where
    p: "pack_facts (fact_enc K) gs ?start = Ok (ps, rs)" "ps \<noteq> []" "length ps \<le> length gs + 1" "\<forall>p \<in> set ps. length p = PAGE_SIZE"
    "length gs = length rs" "\<And>rd. length ps < 2 ^ 64 \<Longrightarrow> (\<forall>i < length ps. rd (u64_saturating_add ?start (of_nat i)) = Ok (ps ! i)) \<Longrightarrow>
      read_all_with_refs (fact_dec K) rd ?start (of_nat (length ps)) = Ok (gs, rs)" by blast
  let ?k = "of_nat (length ps) :: u64"
  have k: "unat ?k = length ps" using p(3) n by (simp add: unat_of_nat)
  have k0: "?k \<noteq> 0" using p(2) k by (metis length_0_conv unat_0)
  note rs = p(5)
  from all_old_leaves_grow [OF K io st len rs fit keys] obtain l1 l2 l3 l4 c where
    old: "all_old_leaves ?ops (hdr_of B (fst io)) io = Some (Ok (l1, l2, l3, l4), (fst io, c))" "sound_io ?ops (holds h) (fst io, c)"
    "grows_tree (eavt_codec K) ?ops (holds h) (rebuild_btree_incremental (eavt_codec K) ?ops l1 (entries_by eavt_key_of gs rs)) (entries_by eavt_key_of (fs @ gs) (refs @ rs))"
    "grows_tree (aevt_codec K) ?ops (holds h) (rebuild_btree_incremental (aevt_codec K) ?ops l2 (entries_by aevt_key_of gs rs)) (entries_by aevt_key_of (fs @ gs) (refs @ rs))"
    "grows_tree (avet_codec K) ?ops (holds h) (rebuild_btree_incremental (avet_codec K) ?ops l3 (entries_by avet_key_of gs rs)) (entries_by avet_key_of (fs @ gs) (refs @ rs))"
    "grows_tree (vaet_codec K) ?ops (holds h) (rebuild_btree_incremental (vaet_codec K) ?ops l4 (ref_entries gs rs)) (ref_entries (fs @ gs) (refs @ rs))"
    by blast
  let ?c = "invalidate_from ?start c"
  have inv: "sound_io ?ops (holds h) (fst io, ?c)" "\<forall>x \<in> set (entries ?c). fst x < ?start"
    using old(2) by (auto simp: sound_io_def invalidate_inv invalidate_coherent) (auto simp: invalidate_from_def)
  have "unat ?start + 0 + length ps < 2 ^ 52" using u p(3) n by simp
  from backend.write_fact_pages_correct [OF data_pages inv(1) start inv(2) p(4) this space] obtain b1 where
    w: "write_fact_pages ?ops ?start 0 ps (fst io, ?c) = (Ok (), (b1, ?c))" "sound_io ?ops (holds h) (b1, ?c)"
    "\<forall>j < length ps. read_page ?ops b1 (?start + of_nat j) = Ok (ps ! j)"
    "keeps (\<lambda>q. unat q < unat ?start) (read_page ?ops (fst io)) (read_page ?ops b1)"
    by auto
  have cb1: "cached_below ?start (b1, ?c)" using inv(2) by (auto simp: cached_below_def)
  let ?total = "n + ?k" and ?index = "1 + (n + ?k)"
  have ut: "unat ?total = unat n + length ps" using unat_add_lt [of n ?k] k p(3) n by simp
  have ui: "unat ?index = 1 + unat n + length ps" using unat_add_lt [of 1 ?total] ut p(3) n by simp
  then have i0: "?index \<noteq> 0" by (metis Suc_neq_Zero add_Suc plus_1_eq_Suc unat_0)
  let ?N = "length fs + length gs"
  have sizes: "length (entries_by eavt_key_of (fs @ gs) (refs @ rs)) = ?N" "length (entries_by aevt_key_of (fs @ gs) (refs @ rs)) = ?N"
    "length (entries_by avet_key_of (fs @ gs) (refs @ rs)) = ?N" "length (ref_entries (fs @ gs) (refs @ rs)) \<le> ?N"
    using len rs length_ref_entries [of "fs @ gs"] by (simp_all add: length_entries_by)
  have "unat ?index + 3 * (length (entries_by eavt_key_of (fs @ gs) (refs @ rs)) + length (entries_by aevt_key_of (fs @ gs) (refs @ rs)) +
      length (entries_by avet_key_of (fs @ gs) (refs @ rs)) + length (ref_entries (fs @ gs) (refs @ rs))) + 4 < 2 ^ 52"
    using sizes ui p(3) n by simp
  have "?start \<le> ?index" using u ui by (simp add: word_le_nat_alt)
  with cached_below_mono [OF cb1] have cb: "sound_io ?ops (holds h) (b1, ?c) \<and> cached_below ?index (b1, ?c)" using w(2) by simp
  note four = \<open>unat ?index + 3 * (length (entries_by eavt_key_of (fs @ gs) (refs @ rs)) + length (entries_by aevt_key_of (fs @ gs) (refs @ rs)) +
      length (entries_by avet_key_of (fs @ gs) (refs @ rs)) + length (ref_entries (fs @ gs) (refs @ rs))) + 4 < 2 ^ 52\<close>
  from four_trees [OF old(3-6) cb i0 four] obtain er ar vr rr next4 io' where
    f: "rebuild_all K ?ops (l1, l2, l3, l4) gs rs ?index (b1, ?c) = (Ok ((er, ar, vr, rr), next4), io')" "sound_io ?ops (holds h) io' \<and> cached_below next4 io'"
    "indexed K B (unat next4) (er, ar, vr, rr) (fs @ gs) (refs @ rs) (fst io')" "er \<noteq> 0" "rr + 1 = next4" "unat ?index < unat next4"
    "unat next4 \<le> unat ?index + 12 * ?N + 4" "index_tree (vaet_codec K) ?ops (unat next4) rr (ref_entries (fs @ gs) (refs @ rs)) (fst io')"
    "keeps (\<lambda>q. unat q < unat ?index) (read_page ?ops b1) (read_page ?ops (fst io'))"
    using sizes indexedI index_tree_root(1) by (fastforce simp: rebuild_all_def build_sorted_index_entries_eq)
  have k02: "keeps (\<lambda>q. unat q \<le> unat n) (read_page ?ops (fst io)) (read_page ?ops (fst io'))"
    by (rule keeps_trans [OF w(4) f(9)]) (simp add: u ui)
  have "read_all_with_refs (fact_dec K) (read_page ?ops (fst io')) 1 n = Ok (fs, refs)"
    using st read_pages_keeps [OF _ k02, of "fact_dec K" "fact_page_ids n"] fact_page_idsD [of _ n] n
    by (auto simp: stored_def Let_def read_all_ids)
  moreover have "read_all_with_refs (fact_dec K) (read_page ?ops (fst io')) ?start ?k = Ok (gs, rs)"
  proof (rule p(6))
    show "length ps < 2 ^ 64" using p(3) n by simp
    show "\<forall>i < length ps. read_page ?ops (fst io') (u64_saturating_add ?start (of_nat i)) = Ok (ps ! i)"
    proof (intro allI impI)
      fix i assume i: "i < length ps"
      have ui': "unat (of_nat i :: u64) = i" using i p(3) n by (simp add: unat_of_nat)
      have q: "unat (?start + of_nat i) = 1 + unat n + i" using unat_add_lt [of ?start "of_nat i"] ui' u i p(3) n by simp
      have "u64_saturating_add ?start (of_nat i) = ?start + of_nat i" using ui' u i p(3) n by (intro saturating_add_small) simp
      moreover have "?start + of_nat i \<noteq> 0" using q by (metis Suc_neq_Zero add_Suc plus_1_eq_Suc unat_0)
      ultimately show "read_page ?ops (fst io') (u64_saturating_add ?start (of_nat i)) = Ok (ps ! i)"
        using w(3) f(9) i q ui unfolding keeps_def by simp
    qed
  qed
  ultimately have all: "read_all_with_refs (fact_dec K) (read_page ?ops (fst io')) 1 (n + ?k) = Ok (fs @ gs, refs @ rs)"
    using n p(3) k by (intro read_all_append) simp_all
  have h': "holds h (fst io')" using f(2) by (simp add: sound_io_def)
  have "rr < page_count (hdr_of B (fst io'))" using readable [OF h'] index_tree_root(3) [OF f(8)] by blast
  then have last: "next4 \<le> page_count (hdr_of B (fst io'))" using f(5) by (metis inc_le)
  have "write_checkpoint K B n gs io = Some (Ok (hdr_of B (fst io), (er, ar, vr, rr), next4, n + ?k, ?k), io')"
    using n p(3) k ut old(1) p(1) w(1) f(1) header_page_at [OF h]
    by (auto simp: write_checkpoint_def pure_io_def checked_add_def current_header_def sync_io_def synced)
  then show thesis
    using that [OF _ conjunct1 [OF f(2)] conjunct2 [OF f(2)] all rs f(3) _ k0 _ _ last _ k02] f(4,6,7) k ui p(3) n by simp
qed

end

end
