(* ===== verification/Save_Load.thy ===== *)
theory Save_Load
  imports Checkpoint
begin

text \<open>
  Saving and loading: a checkpoint turns pending facts into stored ones without changing what the
  store holds, and opening a file gives back what was saved.
\<close>

section \<open>The readers over a stored file\<close>

lemma nz_entries: "\<forall>r \<in> set refs. page_id r \<noteq> 0 \<Longrightarrow> \<forall>r \<in> set (map snd (filter P (entries_by key fs refs))). page_id r \<noteq> 0"
  by (auto simp: set_entries_by dest: set_zip_rightD)

lemma unat_lt2p_64: "unat (x :: u64) < 2 ^ 64"
  using unsigned_less [of x] by simp

context headed
begin

lemma stored_refs:
  assumes "stored K B n fs refs b" "holds h b"
  shows "list_all2 (addresses (fact_dec K) (read_page (page_ops B) b) (set (fact_page_ids n))) refs fs" "length fs = length refs"
    "unat n + 1 < 2 ^ 64"
proof -
  show "list_all2 (addresses (fact_dec K) (read_page (page_ops B) b) (set (fact_page_ids n))) refs fs"
    using assms(1) by (auto simp: stored_def Let_def read_all_ids intro: read_pages_addresses)
  then show "length fs = length refs" by (simp add: list_all2_lengthD)
  have "unat n < unat (page_count (hdr_of B b))" using assms(1) by (simp add: stored_def Let_def)
  moreover have "unat (page_count (hdr_of B b)) < 2 ^ 64" by (rule unat_lt2p_64)
  ultimately show "unat n + 1 < 2 ^ 64" by linarith
qed

lemma index_at_scan:
  assumes "index_at C (page_ops B) n root xs (fst io)" "sound_io (page_ops B) (holds h) io" "sorted (map fst xs)" "distinct (map fst xs)"
  shows "on_disk_scan C (page_ops B) io root a e = Ok (map snd (filter (\<lambda>x. in_range a e (fst x)) xs))"
proof (cases "root = 0")
  case True
  with assms(1) show ?thesis by (simp add: index_at_def on_disk_scan_def)
next
  case False
  have "sorted_wrt (<) (map fst xs)" using assms(3,4) by (simp add: strict_sorted_iff)
  moreover have "index_tree C (page_ops B) n root xs (fst io)" using False assms(1) by (simp add: index_at_def)
  ultimately have "scans C (page_ops B) root xs io" using backend.index_tree_scans [OF data_pages _ assms(2)] by blast
  then obtain c where "range_scan C (page_ops B) root a e io = Some (Ok (map snd (filter (\<lambda>x. in_range a e (fst x)) xs)), (fst io, c))"
    by (auto simp: scans_def)
  with False show ?thesis by (simp add: on_disk_scan_def returned_def)
qed

lemma loader_resolves:
  assumes "stored K B n fs refs (fst io)" "sound_io (page_ops B) (holds h) io"
  shows "list_all2 (\<lambda>r f. resolve (committed_fact_loader K (page_ops B) io n) r = Ok f) refs fs" "\<forall>r \<in> set refs. page_id r \<noteq> 0"
proof -
  have h: "holds h (fst io)" "coherent (read_page (page_ops B) (fst io)) (snd io)" using assms(2) by (simp_all add: sound_io_def)
  note refs = stored_refs [OF assms(1) h(1)]
  have p: "page_id r \<noteq> 0 \<and> resolve (committed_fact_loader K (page_ops B) io n) r = Ok f"
    if "addresses (fact_dec K) (read_page (page_ops B) (fst io)) (set (fact_page_ids n)) r f" for r f
  proof -
    have "page_id r \<noteq> 0" using that fact_page_idsD [OF _ refs(3)] by (simp add: addresses_def)
    moreover from get_or_load_coherent(1) [OF h(2) this] that show ?thesis
      using calculation by (auto simp: addresses_def committed_fact_loader_def split: prod.splits)
  qed
  show "list_all2 (\<lambda>r f. resolve (committed_fact_loader K (page_ops B) io n) r = Ok f) refs fs"
    using refs(1) by (rule list_all2_mono) (use p in blast)
  show "\<forall>r \<in> set refs. page_id r \<noteq> 0"
  proof
    fix r assume "r \<in> set refs"
    then obtain i where "i < length refs" "r = refs ! i" by (auto simp: in_set_conv_nth)
    with list_all2_nthD [OF refs(1)] p show "page_id r \<noteq> 0" by blast
  qed
qed

lemma readers_ok:
  assumes "stored K B n fs refs (fst io)" "sound_io (page_ops B) (holds h) io" "distinct (map eavt_key_of fs)"
    "committed d = Some (committed_fact_loader K (page_ops B) io n)"
    "committed_index_reader d = Some (on_disk_index_reader K (page_ops B) io (header_roots (hdr_of B (fst io))))"
  shows "committed_ok d fs"
proof -
  let ?l = "committed_fact_loader K (page_ops B) io n" and ?h = "hdr_of B (fst io)"
  let ?ir = "on_disk_index_reader K (page_ops B) io (header_roots ?h)"
  have h: "holds h (fst io)" using assms(2) by (simp add: sound_io_def)
  note refs = stored_refs [OF assms(1) h] and res = loader_resolves [OF assms(1,2)]
  have ix: "indexed K B (unat (page_count ?h)) (header_roots ?h) fs refs (fst io)" using assms(1) by (simp add: stored_def Let_def)
  have i: "index_at (eavt_codec K) (page_ops B) (unat (page_count ?h)) (eavt_root_page ?h) (entries_by eavt_key_of fs refs) (fst io)"
    "index_at (aevt_codec K) (page_ops B) (unat (page_count ?h)) (aevt_root_page ?h) (entries_by aevt_key_of fs refs) (fst io)"
    using ix by (simp_all add: indexed_def header_roots_def)
  have e: "range_scan_eavt ?ir a (Some b) = Ok (map snd (filter (\<lambda>x. in_range a (Some b) (fst x)) (entries_by eavt_key_of fs refs)))" for a b
    using index_at_scan [OF i(1) assms(2) entries_by_sorted(1) distinct_entries_by [OF assms(3) refs(2)]]
    by (simp add: on_disk_index_reader_def header_roots_def)
  have ae: "range_scan_aevt ?ir a (Some b) = Ok (map snd (filter (\<lambda>x. in_range a (Some b) (fst x)) (entries_by aevt_key_of fs refs)))" for a b
    using index_at_scan [OF i(2) assms(2) entries_by_sorted(1) distinct_entries_by [OF assms(3) refs(2) keys_determine(1)]]
    by (simp add: on_disk_index_reader_def header_roots_def)
  have "scan_ok (resolve ?l) (range_scan_eavt ?ir a (Some b)) (filter_mset (\<lambda>f. a \<le> eavt_key_of f \<and> eavt_key_of f < b) (mset fs))" for a b
    using entries_resolve [OF res(1), of "in_range a (Some b)" eavt_key_of] nz_entries [OF res(2)] unfolding scan_ok_def e in_range_def option.case by blast
  moreover have "scan_ok (resolve ?l) (range_scan_aevt ?ir a (Some b)) (filter_mset (\<lambda>f. a \<le> aevt_key_of f \<and> aevt_key_of f < b) (mset fs))" for a b
    using entries_resolve [OF res(1), of "in_range a (Some b)" aevt_key_of] nz_entries [OF res(2)] unfolding scan_ok_def ae in_range_def option.case by blast
  moreover have "stream_all ?l = Ok fs"
    using assms(1) by (cases io) (auto simp: committed_fact_loader_def read_all_from_pages_def stored_def Let_def)
  ultimately show ?thesis unfolding committed_ok_def by (simp add: assms(4,5))
qed

end

section \<open>The commit\<close>

lemma index_at_moves:
  "index_at C ops n root xs b \<Longrightarrow> keeps (\<lambda>q. unat q < n) (read_page ops b) (read_page ops b') \<Longrightarrow> index_at C ops n root xs b'"
  by (auto simp: index_at_def dest: index_tree_moves)

lemma indexed_moves:
  "indexed K B n roots fs refs b \<Longrightarrow> keeps (\<lambda>q. unat q < n) (read_page (page_ops B) b) (read_page (page_ops B) b') \<Longrightarrow> indexed K B n roots fs refs b'"
  by (cases roots) (auto simp: indexed_def intro: index_at_moves)

definition checkpoint_header :: "crates \<Rightarrow> roots \<Rightarrow> u64 \<Rightarrow> u64 \<Rightarrow> u64 \<Rightarrow> u64 \<Rightarrow> u32 \<Rightarrow> file_header" where
  "checkpoint_header K roots next4 nodes tx n checksum = sealed K (roots_in roots (file_header_new\<lparr>page_count := next4, node_count := nodes,
     last_checkpointed_tx_count := tx, index_checksum := checksum, fact_page_format := FACT_PAGE_FORMAT_PACKED, fact_page_count := n\<rparr>))"

lemma checkpoint_header_simps [simp]:
  "page_count (checkpoint_header K roots next4 nodes tx n checksum) = next4" "node_count (checkpoint_header K roots next4 nodes tx n checksum) = nodes"
  "last_checkpointed_tx_count (checkpoint_header K roots next4 nodes tx n checksum) = tx" "fact_page_count (checkpoint_header K roots next4 nodes tx n checksum) = n"
  "fact_page_format (checkpoint_header K roots next4 nodes tx n checksum) = FACT_PAGE_FORMAT_PACKED"
  "index_checksum (checkpoint_header K roots next4 nodes tx n checksum) = checksum" "header_roots (checkpoint_header K roots next4 nodes tx n checksum) = roots"
  "eavt_root_page (checkpoint_header K roots next4 nodes tx n checksum) = fst roots"
  by (cases roots; simp add: checkpoint_header_def sealed_def roots_in_def header_roots_def)+

lemma checkpoint_header_good:
  assumes "fst roots < next4" "n \<le> next4"
  shows "good_header K (checkpoint_header K roots next4 nodes tx n checksum)"
proof -
  obtain er ar vr rr where r: "roots = (er, ar, vr, rr)" by (cases roots)
  have "next4 \<noteq> 0" using assms(1) by auto
  then show ?thesis using assms
    by (auto simp: r checkpoint_header_def sealed_def roots_in_def good_header_def validate_def file_header_new_def FORMAT_VERSION_def
        checksum_ok_def compute_header_checksum_def to_bytes_def not_le not_less)
qed

context headed
begin

text \<open>Writing the header over finished pages: from then on the file holds the facts.\<close>

lemma commit_stored:
  assumes io: "sound_io (page_ops B) (holds h) (b, c)" "cached_below next4 (b, c)" and all: "read_all_with_refs (fact_dec K) (read_page (page_ops B) b) 1 n = Ok (fs, refs)"
    and ix: "indexed K B (unat next4) roots fs refs b" "fst roots \<noteq> 0" and n: "n \<noteq> 0" "unat n + 1 < unat next4" "next4 \<le> page_count (hdr_of B b)"
    and hash: "hash_pages (read_page (page_ops B) b) [] 1 (next4 - 1) = Ok bs"
  obtains b' where "write_header_page B (checkpoint_header K roots next4 (of_nat (length fs)) tx n (crc32 K bs)) (b, c) = (Ok (), (b', c))"
    "sound_io (page_ops B) (holds (checkpoint_header K roots next4 (of_nat (length fs)) tx n (crc32 K bs))) (b', c)"
    "hdr_of B b' = checkpoint_header K roots next4 (of_nat (length fs)) tx n (crc32 K bs)" "stored K B n fs refs b'"
    "\<forall>q. q \<noteq> 0 \<longrightarrow> q < next4 \<longrightarrow> read_page (page_ops B) b' q = read_page (page_ops B) b q"
proof -
  let ?h = "checkpoint_header K roots next4 (of_nat (length fs)) tx n (crc32 K bs)" and ?rd = "read_page (page_ops B)"
  have h: "holds h b" using io(1) by (simp add: sound_io_def)
  obtain er ar vr rr where r: "roots = (er, ar, vr, rr)" by (cases roots)
  have "unat er < unat next4" using ix index_tree_root(2) by (auto simp: r indexed_def index_at_def)
  then have "good_header K ?h" using n(2) by (intro checkpoint_header_good) (simp_all add: r word_less_nat_alt word_le_nat_alt)
  from commit_header [OF h this] n(3) obtain b' where
    b': "write_page (page_ops B) 0 (header_page ?h) b = (Ok (), b')" "holds ?h b'" "hdr_of B b' = ?h"
    "\<And>q. q \<noteq> 0 \<Longrightarrow> q < next4 \<Longrightarrow> ?rd b' q = ?rd b q" by auto
  have k: "keeps (\<lambda>q. unat q < unat next4) (?rd b) (?rd b')" using b'(4) by (simp add: keeps_def word_less_nat_alt)
  have "coherent (?rd b') c"
    using io b'(4) by (fastforce simp: sound_io_def coherent_def cached_below_def)
  then have s: "sound_io (page_ops B) (holds ?h) (b', c)" using io(1) b'(2) by (simp add: sound_io_def)
  have lt: "unat next4 < 2 ^ 64" by (rule unat_lt2p_64)
  have "read_all_with_refs (fact_dec K) (?rd b') 1 n = Ok (fs, refs)"
    using all read_pages_keeps [OF _ k, of "fact_dec K" "fact_page_ids n"] fact_page_idsD [of _ n] n(2) lt by (fastforce simp: read_all_ids)
  moreover have "indexed K B (unat next4) roots fs refs b'"
    using ix(1) k by (rule indexed_moves)
  moreover have "hash_pages (?rd b') [] 1 (next4 - 1) = Ok bs"
  proof -
    have "1 \<le> next4" using n(2) by (simp add: word_le_nat_alt)
    then have "unat (next4 - 1) = unat next4 - 1" by (simp add: unat_sub word_le_nat_alt)
    with n(2) lt show ?thesis by (intro hash_pages_keeps [OF hash k]) auto
  qed
  ultimately have "stored K B n fs refs b'" using n ix(2) by (auto simp: stored_def Let_def b'(3))
  with that s b' show thesis by (auto simp: write_header_page_def sync_io_def synced)
qed

end

section \<open>Saving\<close>

text \<open>
  The storage object and its file agree: the file holds \<open>fs\<close>, the store shows them followed by
  the pending facts, and the kept hasher state is over the fact pages.
\<close>

definition consistent :: "crates \<Rightarrow> 'b storage_backend \<Rightarrow> (file_header \<Rightarrow> 'b \<Rightarrow> bool) \<Rightarrow> fact list \<Rightarrow> fact_ref list \<Rightarrow> 'b persistent \<Rightarrow> bool" where
  "consistent K B holds fs refs P \<longleftrightarrow> (\<exists>h. sound_io (page_ops B) (holds h) (pf_io P)) \<and>
     stored K B (committed_fact_pages P) fs refs (fst (pf_io P)) \<and>
     (\<forall>prefix. fact_prefix_crc P = Some (committed_fact_pages P, prefix) \<longrightarrow>
        hash_pages (read_page (page_ops B) (fst (pf_io P))) [] 1 (committed_fact_pages P) = Ok prefix) \<and>
     all_facts (data (storage P)) = Ok (fs @ facts (data (storage P))) \<and>
     (committed_fact_pages P \<noteq> 0 \<longrightarrow> committed_ok (data (storage P)) fs)"

context headed
begin

lemma hash_all_readable:
  assumes "holds h b" "m \<le> page_count (hdr_of B b)" "m \<noteq> 0"
  shows "\<exists>bs. hash_pages (read_page (page_ops B) b) [] 1 (m - 1) = Ok bs"
proof -
  have "1 \<le> m" using assms(3) by (simp add: word_le_nat_alt unat_gt_0 Suc_leI)
  then have u: "unat (m - 1) = unat m - 1" "1 \<le> unat m" by (simp_all add: unat_sub word_le_nat_alt)
  have lt: "unat m < 2 ^ 64" by (rule unat_lt2p_64)
  have "\<exists>ps. page_range (read_page (page_ops B) b) 1 (unat m - 1) = Ok ps"
  proof (rule page_range_readable)
    fix q :: u64 assume "unat q < 1 + (unat m - 1)"
    then have "q < page_count (hdr_of B b)" using assms(2) u(2) by (simp add: word_less_nat_alt word_le_nat_alt)
    with readable [OF assms(1)] show "\<exists>x. read_page (page_ops B) b q = Ok x" by blast
  qed (use lt in simp)
  then show ?thesis using lt u by (subst hash_pages_eq) auto
qed

lemma fact_pages_hash_ok:
  assumes k: "keeps (\<lambda>q. unat q \<le> unat n) rd rd'" and prefix: "\<forall>p. prefix_crc = Some (n, p) \<longrightarrow> hash_pages rd [] 1 n = Ok p"
    and m: "hash_pages rd' [] 1 (n + m) = Ok bs" "unat n + unat m + 1 < 2 ^ 64"
  shows "fact_pages_hash rd' prefix_crc n m (n + m) = Ok bs"
proof (cases "\<exists>p. prefix_crc = Some (n, p)")
  case True
  then obtain p where p: "prefix_crc = Some (n, p)" "hash_pages rd [] 1 n = Ok p" using prefix by auto
  have "hash_pages rd' [] 1 n = Ok p" using m(2) by (intro hash_pages_keeps [OF p(2) k]) auto
  from hash_pages_append [OF this, of m] m p(1) show ?thesis by (simp add: fact_pages_hash_def)
next
  case False
  with m(1) show ?thesis by (auto simp: fact_pages_hash_def split: option.splits)
qed

lemma save_correct:
  assumes K: "crates_ok K" and P: "consistent K B holds fs refs P" "dirty P" and gs: "facts (data (storage P)) = gs"
    and fit: "\<forall>f \<in> set (fs @ gs). fits_fact K f" and keys: "distinct (map eavt_key_of (fs @ gs))"
    and room: "room_for (committed_fact_pages P) (length gs) (length fs + length gs)"
  shows "\<exists>P' rs. save K B P = Some (Ok (), P') \<and> consistent K B holds (fs @ gs) (refs @ rs) P' \<and> facts (data (storage P')) = [] \<and>
    committed_fact_pages P' \<noteq> 0 \<and> \<not> dirty P' \<and> tx_counter (storage P') = tx_counter (storage P) \<and>
    last_checkpointed_tx_count (hdr_of B (fst (pf_io P'))) = tx_counter (storage P) \<and>
    last_checkpointed P' = tx_counter (storage P) \<and> store_inv (data (storage P'))"
proof -
  let ?n = "committed_fact_pages P" and ?tx = "tx_counter (storage P)"
  from P(1) obtain h where io: "sound_io (page_ops B) (holds h) (pf_io P)" and st: "stored K B ?n fs refs (fst (pf_io P))"
    and prefix: "\<forall>p. fact_prefix_crc P = Some (?n, p) \<longrightarrow> hash_pages (read_page (page_ops B) (fst (pf_io P))) [] 1 ?n = Ok p"
    by (auto simp: consistent_def)
  have "holds h (fst (pf_io P))" using io by (simp add: sound_io_def)
  note len = stored_refs(2) [OF st this]
  from write_checkpoint_correct [OF K io st len fit keys room] obtain roots next4 k io' rs where
    w: "write_checkpoint K B ?n gs (pf_io P) = Some (Ok (hdr_of B (fst (pf_io P)), roots, next4, ?n + k, k), io')"
    "sound_io (page_ops B) (holds h) io'" "cached_below next4 io'"
    "read_all_with_refs (fact_dec K) (read_page (page_ops B) (fst io')) 1 (?n + k) = Ok (fs @ gs, refs @ rs)"
    "length gs = length rs" "indexed K B (unat next4) roots (fs @ gs) (refs @ rs) (fst io')" "fst roots \<noteq> 0" "k \<noteq> 0" "unat k \<le> length gs + 1"
    "unat ?n + unat k + 1 < unat next4" "next4 \<le> page_count (hdr_of B (fst io'))" "unat next4 < 2 ^ 52"
    "keeps (\<lambda>q. unat q \<le> unat ?n) (read_page (page_ops B) (fst (pf_io P))) (read_page (page_ops B) (fst io'))" .
  obtain b c where bc: "io' = (b, c)" by (cases io')
  let ?rd = "read_page (page_ops B) b" and ?m = "?n + k"
  have hb: "holds h b" using w(2) by (simp add: bc sound_io_def)
  have um: "unat ?m = unat ?n + unat k" using w(10,12) unat_add_lt [of ?n k] by simp
  have m0: "?m \<noteq> 0" using um w(8) by (metis add_is_0 unat_0 unat_eq_zero)
  have "1 + ?m \<noteq> 0" and u1: "unat (1 + ?m) = 1 + unat ?m"
  proof -
    show "unat (1 + ?m) = 1 + unat ?m" using um w(10,12) unat_add_lt [of 1 ?m] by simp
    then show "1 + ?m \<noteq> 0" by (metis Suc_neq_Zero plus_1_eq_Suc unat_0)
  qed
  have next0: "next4 \<noteq> 0" using w(10) by auto
  have "1 + ?m \<le> page_count (hdr_of B b)" using w(10,11) um u1 by (simp add: bc word_le_nat_alt)
  from hash_all_readable [OF hb this \<open>1 + ?m \<noteq> 0\<close>] obtain pre where pre: "hash_pages ?rd [] 1 ?m = Ok pre" by auto
  from hash_all_readable [OF hb _ next0] w(11) obtain bs where bs: "hash_pages ?rd [] 1 (next4 - 1) = Ok bs" by (auto simp: bc)
  have fp: "fact_pages_hash ?rd (fact_prefix_crc P) ?n k ?m = Ok pre"
    using w(13) prefix pre w(10,12) by (intro fact_pages_hash_ok [where rd = "read_page (page_ops B) (fst (pf_io P))"]) (simp_all add: bc)
  have le: "1 + ?m \<le> next4" using w(10) um u1 by (simp add: word_le_nat_alt)
  have usub: "unat (next4 - (1 + ?m)) = unat next4 - (1 + unat ?m)" using le u1 by (simp add: unat_sub word_le_nat_alt)
  have "hash_pages ?rd pre (1 + ?m) (next4 - (1 + ?m)) = hash_pages ?rd [] 1 (?m + (next4 - (1 + ?m)))"
    by (rule hash_pages_append [OF pre]) (use usub w(10,12) um in simp)
  then have hash: "hash_pages ?rd pre (1 + ?m) (u64_saturating_sub next4 (1 + ?m)) = Ok bs"
    using bs le by (simp add: u64_saturating_sub_def algebra_simps)
  have r12: "length fs + length gs < 2 ^ 52" using room by (simp add: room_for_def)
  have nodes: "checked_add (Internal 48) (node_count (hdr_of B (fst (pf_io P)))) (of_nat (length gs)) = Ok (of_nat (length (fs @ gs)))"
  proof -
    have "node_count (hdr_of B (fst (pf_io P))) = of_nat (length fs)" using st by (simp add: stored_def Let_def)
    with r12 show ?thesis by (simp add: checked_add_def unat_of_nat)
  qed
  have "unat ?m + 1 < unat next4" using w(10) um by simp
  from commit_stored [OF w(2) [unfolded bc] w(3) [unfolded bc] w(4) [unfolded bc fst_conv] w(6) [unfolded bc fst_conv] w(7) m0 this w(11) [unfolded bc fst_conv] bs, of ?tx]
  obtain b' where b': "write_header_page B (checkpoint_header K roots next4 (of_nat (length (fs @ gs))) ?tx ?m (crc32 K bs)) (b, c) = (Ok (), (b', c))"
    "sound_io (page_ops B) (holds (checkpoint_header K roots next4 (of_nat (length (fs @ gs))) ?tx ?m (crc32 K bs))) (b', c)"
    "hdr_of B b' = checkpoint_header K roots next4 (of_nat (length (fs @ gs))) ?tx ?m (crc32 K bs)" "stored K B ?m (fs @ gs) (refs @ rs) b'"
    "\<forall>q. q \<noteq> 0 \<longrightarrow> q < next4 \<longrightarrow> read_page (page_ops B) b' q = read_page (page_ops B) b q" .
  have commit: "commit_checkpoint K B (fact_prefix_crc P) ?n (length gs) ?tx (hdr_of B (fst (pf_io P))) roots next4 ?m k (b, c) = Some (Ok pre, (b', c))"
    using fp hash nodes b'(1) by (simp add: commit_checkpoint_def pure_io_def checkpoint_header_def)
  let ?P = "P\<lparr>pf_io := (b', c), committed_fact_pages := ?m, fact_prefix_crc := Some (?m, pre), last_checkpointed := ?tx, dirty := False,
    has_reader := True, index_roots := Some roots,
    storage := guard_publish (committed_fact_loader K (page_ops B) (b', c) ?m) (on_disk_index_reader K (page_ops B) (b', c) roots) (storage P)\<rparr>"
  have saved: "save K B P = Some (Ok (), ?P)"
    using w(1) commit P(2) by (simp add: save_def guard_pending_facts_def gs current_tx_count_def bc Let_def)
  have "hash_pages (read_page (page_ops B) b') [] 1 ?m = Ok pre"
  proof (rule hash_pages_keeps [OF pre, of "\<lambda>q. unat q < unat next4"])
    show "keeps (\<lambda>q. unat q < unat next4) ?rd (read_page (page_ops B) b')" using b'(5) by (simp add: keeps_def word_less_nat_alt)
  qed (use w(10,12) um in auto)
  moreover have "committed_ok (data (storage ?P)) (fs @ gs)"
    by (rule readers_ok [where io = "(b', c)", unfolded fst_conv, OF b'(4,2) keys]) (simp_all add: guard_publish_def b'(3))
  moreover have "all_facts (data (storage ?P)) = Ok (fs @ gs)"
    using b'(4) by (simp add: all_facts_def guard_publish_def committed_fact_loader_def read_all_from_pages_def stored_def Let_def)
  ultimately have "consistent K B holds (fs @ gs) (refs @ rs) ?P"
    using b'(2,4) by (auto simp: consistent_def guard_publish_def)
  then show ?thesis using saved m0 b'(3)
    by (intro exI [of _ ?P] exI [of _ rs]) (simp add: guard_publish_def store_inv_empty)
qed

end

section \<open>Loading\<close>

definition unopened :: "'b \<Rightarrow> nat \<Rightarrow> 'b persistent" where
  "unopened b cap = \<lparr>pf_io = (b, page_cache_new cap), storage = fact_storage_new, dirty = False, last_checkpointed = 0,
     committed_fact_pages = 0, fact_prefix_crc = None, has_reader = False, index_roots = None\<rparr>"

lemma new_cache_sound: "invar b \<Longrightarrow> sound_io ops invar (b, page_cache_new cap)"
  by (simp add: sound_io_def page_cache_new_def cache_inv_def coherent_def)

context headed
begin

lemma header_checks:
  assumes "holds h b"
  obtains page where "read_page (page_ops B) b 0 = Ok page" "from_bytes page = Ok (hdr_of B b)" "validate (hdr_of B b) = Ok ()" "version (hdr_of B b) = 7"
    "header_checksum (hdr_of B b) = 0 \<or> header_checksum (hdr_of B b) = compute_header_checksum_from_bytes K page"
proof -
  from header_page_at [OF assms] obtain page where p: "read_page (page_ops B) b 0 = Ok page" "from_bytes page = Ok (hdr_of B b)" "84 \<le> length page"
    "take 80 page = take 80 (to_bytes (hdr_of B b))" by blast
  then have "compute_header_checksum_from_bytes K page = compute_header_checksum (crc32 K) (hdr_of B b)"
    by (simp add: compute_header_checksum_from_bytes_def compute_header_checksum_def)
  with header_good [OF assms] that p show thesis by (auto simp: good_header_def checksum_ok_def)
qed

text \<open>Up to the packed pages, loading a file of format 7 goes through.\<close>

lemma load_version7:
  assumes "holds h b" "fact_page_format (hdr_of B b) = FACT_PAGE_FORMAT_PACKED"
  shows "load K B (unopened b cap) =
    Some (load_packed K B (hdr_of B b) ((unopened b cap)\<lparr>last_checkpointed := last_checkpointed_tx_count (hdr_of B b), storage := clear fact_storage_new\<rparr>))"
proof -
  from header_checks [OF assms(1)] obtain page where "read_page (page_ops B) b 0 = Ok page" "from_bytes page = Ok (hdr_of B b)" "validate (hdr_of B b) = Ok ()"
    "version (hdr_of B b) = 7" "header_checksum (hdr_of B b) = 0 \<or> header_checksum (hdr_of B b) = compute_header_checksum_from_bytes K page" .
  with assms(2) show ?thesis
    by (auto simp: load_def unopened_def clear_storage_def FACT_PAGE_FORMAT_PACKED_def FACT_PAGE_FORMAT_ONE_PER_PAGE_def)
qed

lemma recheck_ok: "holds h b \<Longrightarrow> recheck_header K (read_page (page_ops B) b) (hdr_of B b) = Ok ()"
  by (rule header_checks [of h b]) (auto simp: recheck_header_def)

lemma stored_num_fact_pages:
  assumes "stored K B n fs refs b" "holds h b"
  shows "num_fact_pages (hdr_of B b) = n"
proof -
  have v: "version (hdr_of B b) = 7" using header_good [OF assms(2)] by (simp add: good_header_def)
  show ?thesis
  proof (cases "n = 0")
    case True
    with assms(1) v show ?thesis
      by (auto simp: stored_def Let_def num_fact_pages_def first_index_page_def header_roots_def u64_saturating_sub_def)
  next
    case False
    with assms(1) v show ?thesis by (auto simp: stored_def Let_def num_fact_pages_def word_gt_0)
  qed
qed

lemma stored_integrity:
  assumes "stored K B n fs refs b" "holds h b"
  shows "\<exists>prefix. check_integrity K (read_page (page_ops B) b) (hdr_of B b) n None = Ok (False, prefix) \<and>
    (\<forall>p. prefix = Some (n, p) \<longrightarrow> hash_pages (read_page (page_ops B) b) [] 1 n = Ok p)"
proof (cases "n = 0")
  case True
  then show ?thesis using assms(1) by (auto simp: check_integrity_def)
next
  case False
  let ?h = "hdr_of B b" and ?rd = "read_page (page_ops B) b"
  let ?total = "page_count ?h - 1"
  from False assms(1) obtain bs where s: "unat n < unat (page_count ?h)" "eavt_root_page ?h \<noteq> 0" "hash_pages ?rd [] 1 ?total = Ok bs" "index_checksum ?h = crc32 K bs"
    by (auto simp: stored_def Let_def)
  have lt: "unat (page_count ?h) < 2 ^ 64" by (rule unat_lt2p_64)
  have one: "1 \<le> page_count ?h" using s(1) by (simp add: word_le_nat_alt)
  then have ut: "unat ?total = unat (page_count ?h) - 1" by (simp add: unat_sub word_le_nat_alt)
  have nt: "n \<le> ?total" using ut s(1) by (simp add: word_le_nat_alt)
  have un: "unat (1 + n) = 1 + unat n" using unat_add_lt [of 1 n] s(1) lt by simp
  then have n1: "1 + n \<noteq> 0" "1 + n \<le> page_count ?h" using s(1) by (auto simp: word_le_nat_alt unat_eq_zero)
  from hash_all_readable [OF assms(2) n1(2,1)] obtain pre where pre: "hash_pages ?rd [] 1 n = Ok pre" by auto
  have "unat (?total - n) = unat ?total - unat n" using nt by (simp add: unat_sub word_le_nat_alt)
  then have "hash_pages ?rd pre (1 + n) (?total - n) = hash_pages ?rd [] 1 (n + (?total - n))"
    using ut s(1) lt by (intro hash_pages_append [OF pre]) simp
  then have all: "hash_pages ?rd pre (n + 1) (?total - n) = Ok bs" using s(3) by (simp add: add.commute)
  have "checked_add (Stg 21) n 1 = Ok (n + 1)" using s(1) lt by (simp add: checked_add_def)
  with pre all s(2,4) nt one False show ?thesis
    by (intro exI [of _ "Some (n, pre)"]) (simp add: check_integrity_def u64_saturating_sub_def Let_def)
qed

lemma load_correct:
  assumes st: "stored K B n fs refs b" and h: "holds h b" and new: "\<not> is_new_op B b" and keys: "distinct (map eavt_key_of fs)"
  shows "\<exists>P. persistent_new K B b cap = Some (Ok P) \<and> consistent K B holds fs refs P \<and> facts (data (storage P)) = [] \<and>
    tx_counter (storage P) = last_checkpointed_tx_count (hdr_of B b) \<and> last_checkpointed P = last_checkpointed_tx_count (hdr_of B b) \<and>
    committed_fact_pages P = n \<and> \<not> dirty P \<and> pf_io P = (b, page_cache_new cap) \<and> store_inv (data (storage P))"
proof -
  let ?h = "hdr_of B b"
  from stored_integrity [OF st h] obtain prefix where ok: "check_integrity K (read_page (page_ops B) b) ?h n None = Ok (False, prefix)"
    and pre: "\<forall>p. prefix = Some (n, p) \<longrightarrow> hash_pages (read_page (page_ops B) b) [] 1 n = Ok p" by blast
  let ?P = "wire K B ((unopened b cap)\<lparr>last_checkpointed := last_checkpointed_tx_count ?h, committed_fact_pages := n, fact_prefix_crc := prefix,
    has_reader := True, storage := restore_tx_counter_from (last_checkpointed_tx_count ?h) (clear fact_storage_new),
    index_roots := (if eavt_root_page ?h \<noteq> 0 then Some (header_roots ?h) else None)\<rparr>)"
  have fmt: "fact_page_format ?h = FACT_PAGE_FORMAT_PACKED" using st by (simp add: stored_def Let_def)
  have "load K B (unopened b cap) = Some (Ok (), ?P)"
    using ok recheck_ok [OF h] unfolding load_version7 [OF h fmt]
    by (simp add: load_packed_def stored_num_fact_pages [OF st h] unopened_def Let_def header_roots_def)
  then have new': "persistent_new K B b cap = Some (Ok ?P)"
    using page_count_header [OF h] new by (simp add: persistent_new_def unopened_def)
  have s: "sound_io (page_ops B) (holds h) (b, page_cache_new cap)" using h by (rule new_cache_sound)
  have "committed_ok (data (storage ?P)) fs" if "n \<noteq> 0"
  proof (rule readers_ok [where io = "(b, page_cache_new cap)", unfolded fst_conv, OF st s keys])
    show "committed (data (storage ?P)) = Some (committed_fact_loader K (page_ops B) (b, page_cache_new cap) n)"
      by (simp add: wire_def unopened_def)
    show "committed_index_reader (data (storage ?P)) = Some (on_disk_index_reader K (page_ops B) (b, page_cache_new cap) (header_roots ?h))"
      using that st by (simp add: wire_def unopened_def stored_def Let_def)
  qed
  moreover have "all_facts (data (storage ?P)) = Ok fs"
    using st by (simp add: wire_def unopened_def all_facts_def committed_fact_loader_def read_all_from_pages_def stored_def Let_def
      restore_tx_counter_from_def clear_def fact_storage_new_def fact_data_new_def)
  moreover have f: "facts (data (storage ?P)) = []" "pending_keys (data (storage ?P)) = {}" "pending_indexes (data (storage ?P)) = indexes_new"
    by (simp_all add: wire_def unopened_def restore_tx_counter_from_def clear_def)
  ultimately have "consistent K B holds fs refs ?P"
    unfolding consistent_def using s st pre f(1) by (auto simp: wire_def unopened_def)
  then show ?thesis using new' f
    by (intro exI [of _ ?P]) (simp add: store_inv_empty, simp add: wire_def unopened_def restore_tx_counter_from_def)
qed

end

end
