(* ===== verification/Durable_File.thy ===== *)
theory Durable_File
  imports Save_Load
begin

text \<open>
  Durability of the file: a checkpoint followed by a reopening, a new file, and recovery when the
  process was lost while a checkpoint was writing.
\<close>

section \<open>Reopening a file\<close>

lemma reopened_simps [simp]:
  "read_page (file_ops crc) (b\<lparr>backend_is_new := x\<rparr>) = read_page (file_ops crc) b"
  "file_holds K h (b\<lparr>backend_is_new := x\<rparr>) \<longleftrightarrow> file_holds K h b"
  "hdr_of (file_store K) (b\<lparr>backend_is_new := x\<rparr>) = hdr_of (file_store K) b"
  by (auto simp: file_ops_def file_read_page_def file_holds_def hdr_of_def intro!: ext)

lemma index_tree_cong: "read_page ops b = read_page ops b' \<Longrightarrow> index_tree C ops n root xs b = index_tree C ops n root xs b'"
  by (simp add: index_tree_def)

lemma stored_reopened: "stored K (file_store K) n fs refs (b\<lparr>backend_is_new := x\<rparr>) = stored K (file_store K) n fs refs b"
proof -
  have i: "index_at C (file_ops (crc32 K)) m root xs (b\<lparr>backend_is_new := x\<rparr>) = index_at C (file_ops (crc32 K)) m root xs b"
    for C :: "'k key_codec" and m root xs
    by (simp add: index_at_def index_tree_cong [of "file_ops (crc32 K)" "b\<lparr>backend_is_new := x\<rparr>" b])
  show ?thesis by (simp add: stored_def Let_def indexed_def i split: prod.splits)
qed

section \<open>A new file\<close>

lemma fresh_file_holds: "file_holds K file_header_new fresh_backend"
proof -
  have "grown file_header_new file_header_new" by (simp add: grown_def, metis file_header.surjective file_header.update_convs(3,14))
  moreover have "length (to_bytes file_header_new) = 84" by (simp add: length_to_bytes)
  ultimately show ?thesis
    by (simp add: file_holds_def fresh_backend_def good_header_def checksum_ok_def PAGE_SIZE_def)
      (simp add: file_header_new_def)
qed

lemma fresh_hdr: "hdr_of (file_store K) fresh_backend = file_header_new"
  by (rule trans [OF file_hdr_of [OF fresh_file_holds]]) (simp add: fresh_backend_def)

lemma fresh_stored: "stored K (file_store K) 0 [] [] fresh_backend"
  by (simp add: stored_def Let_def fresh_hdr read_all_ids fact_page_ids_def header_roots_def indexed_def index_at_def entries_by_def
      ref_entries_def vaet_entries_of_def List.map_filter_simps)
    (simp add: file_header_new_def)

lemma fresh_consistent:
  assumes "committed (data s) = None" "committed_index_reader (data s) = None"
  shows "consistent K (file_store K) (file_holds K) [] [] ((unopened fresh_backend cap)\<lparr>storage := s, dirty := True\<rparr>)"
  using assms fresh_stored [of K] new_cache_sound [of "file_holds K file_header_new" fresh_backend, OF fresh_file_holds]
  by (auto simp: consistent_def unopened_def all_facts_def)

section \<open>Checkpoint and reopening\<close>

text \<open>
  C3. A checkpoint loses nothing and is durable. Let the file hold the facts \<open>fs\<close> and the store
  the pending facts \<open>gs\<close>, all within the size limits and with distinct keys. Then \<^verbatim>\<open>save\<close> returns;
  afterwards nothing is pending, the store shows the same facts as before and answers index
  lookups exactly; and opening the file again, even without closing it, gives a store with
  the same facts, exact lookups, and the transaction counter as it was.
\<close>

theorem save_reopen:
  assumes "crates_ok K" "consistent K (file_store K) (file_holds K) fs refs P" "dirty P" "facts (data (storage P)) = gs"
    "\<forall>f \<in> set (fs @ gs). fits_fact K f" "distinct (map eavt_key_of (fs @ gs))"
    "room_for (committed_fact_pages P) (length gs) (length fs + length gs)"
  shows "\<exists>P' b P'' rs. save K (file_store K) P = Some (Ok (), P') \<and>
    consistent K (file_store K) (file_holds K) (fs @ gs) (refs @ rs) P' \<and> facts (data (storage P')) = [] \<and>
    get_all_facts (storage P') = get_all_facts (storage P) \<and> committed_ok (data (storage P')) (fs @ gs) \<and>
    open_contents (contents (fst (pf_io P'))) = Ok b \<and> persistent_new K (file_store K) b cap = Some (Ok P'') \<and>
    consistent K (file_store K) (file_holds K) (fs @ gs) (refs @ rs) P'' \<and> facts (data (storage P'')) = [] \<and>
    get_all_facts (storage P'') = get_all_facts (storage P) \<and> committed_ok (data (storage P'')) (fs @ gs) \<and>
    tx_counter (storage P'') = tx_counter (storage P) \<and> last_checkpointed P'' = tx_counter (storage P)"
proof -
  from stored_file.save_correct [OF assms] obtain P' rs where
    s: "save K (file_store K) P = Some (Ok (), P')" "consistent K (file_store K) (file_holds K) (fs @ gs) (refs @ rs) P'" "facts (data (storage P')) = []"
    "committed_fact_pages P' \<noteq> 0" "last_checkpointed_tx_count (hdr_of (file_store K) (fst (pf_io P'))) = tx_counter (storage P)" by blast
  let ?b = "fst (pf_io P')"
  let ?r = "?b\<lparr>backend_is_new := False\<rparr>"
  from s(2) obtain h where h: "file_holds K h ?b" and st: "stored K (file_store K) (committed_fact_pages P') (fs @ gs) (refs @ rs) ?b"
    by (auto simp: consistent_def sound_io_def)
  have "stored K (file_store K) (committed_fact_pages P') (fs @ gs) (refs @ rs) ?r" "file_holds K h ?r" "\<not> is_new_op (file_store K) ?r"
    using st h by (simp_all add: stored_reopened)
  from stored_file.load_correct [OF this assms(6), of cap] obtain P'' where
    l: "persistent_new K (file_store K) ?r cap = Some (Ok P'')" "consistent K (file_store K) (file_holds K) (fs @ gs) (refs @ rs) P''"
    "facts (data (storage P'')) = []" "tx_counter (storage P'') = last_checkpointed_tx_count (hdr_of (file_store K) ?r)"
    "last_checkpointed P'' = last_checkpointed_tx_count (hdr_of (file_store K) ?r)" "committed_fact_pages P'' = committed_fact_pages P'" by blast
  have all: "get_all_facts (storage P') = get_all_facts (storage P)" "get_all_facts (storage P'') = get_all_facts (storage P)"
    using assms(2,4) s(2,3) l(2,3) by (auto simp: consistent_def get_all_facts_def)
  have "committed_ok (data (storage P')) (fs @ gs)" "committed_ok (data (storage P'')) (fs @ gs)"
    using s(2,4) l(2,6) by (simp_all add: consistent_def)
  with s all l file_holds_reopen [OF h] show ?thesis
    by (intro exI [of _ P'] exI [of _ ?r] exI [of _ P''] exI [of _ rs]) simp
qed

section \<open>An instance\<close>

definition one_key_codec :: "'k \<Rightarrow> 'k key_codec" where
  "one_key_codec k0 = \<lparr>enc_entry = \<lambda>(k, r). if k = k0 then Ok (u64_to_le (page_id r) @ u32_to_le (slot_index r)) else Err Postcard,
     dec_entry = \<lambda>bs. Ok (k0, \<lparr>page_id = u64_from_le (take 8 bs), slot_index = u32_from_le (drop 8 bs)\<rparr>),
     enc_key = \<lambda>k. if k = k0 then Ok [] else Err Postcard, dec_key = \<lambda>bs. Ok k0\<rparr>"

lemma one_key_codec_ok: "key_codec_ok (one_key_codec k0)" "fits_entry (one_key_codec k0) (k0, r)"
  by (auto simp: key_codec_ok_def one_key_codec_def fits_entry_def MAX_ENTRY_BYTES_def MAX_KEY_BYTES_def PAGE_SIZE_def split: if_splits)

definition sample_crates :: crates where
  "sample_crates = \<lparr>fact_enc = sample_enc, fact_dec = sample_dec, v1_dec = \<lambda>_. Err Postcard,
     eavt_codec = one_key_codec (eavt_key_of sample_fact), aevt_codec = one_key_codec (aevt_key_of sample_fact),
     avet_codec = one_key_codec (avet_key_of sample_fact), vaet_codec = one_key_codec (vaet_key_of 0 sample_fact),
     eavt_blob = \<lambda>_. Err Postcard, aevt_blob = \<lambda>_. Err Postcard, avet_blob = \<lambda>_. Err Postcard, vaet_blob = \<lambda>_. Err Postcard,
     crc32 = \<lambda>bs. of_nat (length bs)\<rparr>"

lemma sample_fact_value: "val sample_fact \<noteq> VRef t"
  by (simp add: sample_fact_def fact_new_def)

lemma sample_crates_ok: "crates_ok sample_crates" "fits_fact sample_crates sample_fact"
proof -
  have "sample_enc sample_fact = Ok [42]" by (simp add: sample_enc_def)
  then show "fits_fact sample_crates sample_fact"
    by (simp add: fits_fact_def sample_crates_def one_key_codec_ok sample_fact_value MAX_FACT_BYTES_def PAGE_SIZE_def PACKED_HEADER_SIZE_def)
  show "crates_ok sample_crates"
    using sample_codec(1) by (simp add: crates_ok_def sample_crates_def one_key_codec_ok)
qed

definition sample_pending :: fact_storage where
  "sample_pending = snd (load_facts [sample_fact] fact_storage_new)"

lemma sample_pending_facts:
  "facts (data sample_pending) = [sample_fact]" "committed (data sample_pending) = None" "committed_index_reader (data sample_pending) = None"
  by (simp_all add: sample_pending_def load_facts_def fact_storage_new_def fact_data_new_def pending_refs_def register_def u32_MAX_def Let_def)

theorem save_reopen_witness:
  "\<exists>P' b P''. save sample_crates (file_store sample_crates) ((unopened fresh_backend 4)\<lparr>storage := sample_pending, dirty := True\<rparr>) = Some (Ok (), P') \<and>
    open_contents (contents (fst (pf_io P'))) = Ok b \<and> persistent_new sample_crates (file_store sample_crates) b 4 = Some (Ok P'') \<and>
    get_all_facts (storage P'') = Ok [sample_fact]"
proof -
  let ?P = "(unopened fresh_backend 4)\<lparr>storage := sample_pending, dirty := True\<rparr>"
  have c: "consistent sample_crates (file_store sample_crates) (file_holds sample_crates) [] [] ?P"
    using sample_pending_facts(2,3) by (rule fresh_consistent)
  have all: "get_all_facts (storage ?P) = Ok [sample_fact]" using sample_pending_facts by (simp add: get_all_facts_def all_facts_def)
  have "dirty ?P" "facts (data (storage ?P)) = [sample_fact]" "\<forall>f \<in> set ([] @ [sample_fact]). fits_fact sample_crates f"
    "distinct (map eavt_key_of ([] @ [sample_fact]))" "room_for (committed_fact_pages ?P) (length [sample_fact]) (length ([] :: fact list) + length [sample_fact])"
    using sample_pending_facts(1) sample_crates_ok(2) by (simp_all add: room_for_def unopened_def)
  from save_reopen [OF sample_crates_ok(1) c this, of 4] show ?thesis unfolding all by blast
qed

end
