(* ===== verification/Wal.thy ===== *)
theory Wal
  imports Packed_Pages
begin

text \<open>
  The write-ahead log, \<^verbatim>\<open>src/wal.rs\<close>: the header, one checksummed entry per transaction,
  appending (with the sticky failure flag) and the recovery scan. A log file is its byte
  sequence; \<open>crc\<close> is the \<^verbatim>\<open>crc32fast\<close> hash, \<open>enc\<close> and \<open>dec\<close> the \<^verbatim>\<open>postcard\<close> codec. A
  write that fails part-way is an argument of the append: how many bytes reached the file.

  Shown: scanning returns exactly the entries appended, a torn tail of any length is cut
  off and never hides or alters an earlier entry, and reopening after a crash leaves a log
  on which later appends are found again.
\<close>

definition WAL_MAGIC :: bytes where "WAL_MAGIC = as_bytes ''MWAL''"

definition WAL_VERSION :: u32 where "WAL_VERSION = 1"

definition WAL_HEADER_SIZE :: nat where "WAL_HEADER_SIZE = 32"

definition MAX_FACT_SIZE :: nat where "MAX_FACT_SIZE = 10 * 1024 * 1024"

section \<open>Header\<close>

definition wal_header :: bytes where
  "wal_header = WAL_MAGIC @ u32_to_le WAL_VERSION @ replicate 24 0"

definition write_wal_header :: "bytes \<Rightarrow> bytes" where
  "write_wal_header f = file_write 0 wal_header f"

definition validate_wal_header :: "bytes \<Rightarrow> unit result" where
  "validate_wal_header f =
     and_then (file_read_exact f 0 WAL_HEADER_SIZE) (\<lambda>buf.
       if take 4 buf \<noteq> WAL_MAGIC then Err (Wal 1)
       else if u32_from_le (take 4 (drop 4 buf)) \<noteq> WAL_VERSION then Err (Wal 2)
       else Ok ())"

datatype wal_header_state = Present | Absent

definition check_wal_header_length :: "bytes \<Rightarrow> wal_header_state" where
  "check_wal_header_length f = (if length f < WAL_HEADER_SIZE then Absent else Present)"

section \<open>Entries\<close>

record wal_entry =
  we_tx_count :: u64
  we_facts :: "fact list"

definition serialize_fact :: "(fact \<Rightarrow> bytes result) \<Rightarrow> fact \<Rightarrow> bytes result" where
  "serialize_fact enc f =
     and_then (enc f) (\<lambda>b.
       if MAX_FACT_BYTES < length b then Err (Wal 3)
       else if length b < 2 ^ 32 then Ok (u32_to_le (of_nat (length b)) @ b)
       else Err (Wal 4))"

definition serialize_entry ::
    "(bytes \<Rightarrow> u32) \<Rightarrow> (fact \<Rightarrow> bytes result) \<Rightarrow> u64 \<Rightarrow> fact list \<Rightarrow> bytes result" where
  "serialize_entry crc enc txc fs =
     and_then (collect_map (serialize_fact enc) fs) (\<lambda>bs.
       let payload = u64_to_le txc @ u64_to_le (of_nat (length fs)) @ concat bs
       in Ok (u32_to_le (crc payload) @ payload))"

text \<open>\<^verbatim>\<open>read_exact\<close> at the cursor: the bytes read and those left, or end of file.\<close>

definition read_exact :: "nat \<Rightarrow> bytes \<Rightarrow> (bytes \<times> bytes) option" where
  "read_exact n rest = (if n \<le> length rest then Some (take n rest, drop n rest) else None)"

text \<open>The loop over the facts of one entry; \<open>None\<close> is \<^verbatim>\<open>truncated = true\<close>.\<close>

fun read_facts :: "(bytes \<Rightarrow> fact result) \<Rightarrow> nat \<Rightarrow> bytes \<Rightarrow> (bytes \<times> fact list \<times> bytes) option" where
  "read_facts dec 0 rest = Some ([], [], rest)"
| "read_facts dec (Suc n) rest =
     (case read_exact 4 rest of
        None \<Rightarrow> None
      | Some (len_buf, r1) \<Rightarrow>
          let fact_len = unat (u32_from_le len_buf) in
          if MAX_FACT_SIZE < fact_len then None
          else case read_exact fact_len r1 of
            None \<Rightarrow> None
          | Some (fact_bytes, r2) \<Rightarrow>
              (case dec fact_bytes of
                 Inl _ \<Rightarrow> None
               | Inr f \<Rightarrow>
                   (case read_facts dec n r2 of
                      None \<Rightarrow> None
                    | Some (payload, fs, r3) \<Rightarrow> Some (len_buf @ fact_bytes @ payload, f # fs, r3))))"

text \<open>One turn of the scan loop: the entry at the cursor and the bytes after it, or stop.\<close>

definition scan_entry ::
    "(bytes \<Rightarrow> u32) \<Rightarrow> (bytes \<Rightarrow> fact result) \<Rightarrow> nat \<Rightarrow> nat \<Rightarrow> bytes \<Rightarrow> (wal_entry \<times> bytes) option" where
  "scan_entry crc dec file_len valid_end rest =
     (case read_exact 4 rest of
        None \<Rightarrow> None
      | Some (csum_buf, r1) \<Rightarrow>
          (case read_exact 8 r1 of
             None \<Rightarrow> None
           | Some (tx_count_buf, r2) \<Rightarrow>
               (case read_exact 8 r2 of
                  None \<Rightarrow> None
                | Some (num_facts_buf, r3) \<Rightarrow>
                    let num_facts = unat (u64_from_le num_facts_buf);
                        left = file_len - (valid_end + 20) in
                    if left div 4 < num_facts then None
                    else case read_facts dec num_facts r3 of
                      None \<Rightarrow> None
                    | Some (payload, fs, r4) \<Rightarrow>
                        if u32_from_le csum_buf \<noteq> crc (tx_count_buf @ num_facts_buf @ payload) then None
                        else Some (\<lparr>we_tx_count = u64_from_le tx_count_buf, we_facts = fs\<rparr>, r4))))"

lemma read_exact_Some: "read_exact n r = Some (a, b) \<longleftrightarrow> r = a @ b \<and> length a = n"
  by (auto simp: read_exact_def append_eq_conv_conj)

lemma read_facts_length: "read_facts dec n r = Some (p, fs, r') \<Longrightarrow> length r' \<le> length r"
proof (induction n arbitrary: r p fs)
  case (Suc n)
  then show ?case
    by (fastforce simp: Let_def read_exact_Some split: option.splits if_splits sum.splits prod.splits)
qed simp

lemma scan_entry_length: "scan_entry crc dec fl ve r = Some (e, r') \<Longrightarrow> length r' < length r"
  by (auto simp: scan_entry_def Let_def read_exact_Some split: option.splits if_splits prod.splits
    dest!: read_facts_length)

function scan_loop ::
    "(bytes \<Rightarrow> u32) \<Rightarrow> (bytes \<Rightarrow> fact result) \<Rightarrow> nat \<Rightarrow> nat \<Rightarrow> bytes \<Rightarrow> wal_entry list \<times> nat" where
  "scan_loop crc dec file_len valid_end rest =
     (case scan_entry crc dec file_len valid_end rest of
        None \<Rightarrow> ([], valid_end)
      | Some (e, rest') \<Rightarrow>
          (let (es, v) = scan_loop crc dec file_len (file_len - length rest') rest'
           in (e # es, v)))"
  by pat_completeness auto
termination by (relation "measure (\<lambda>(_, _, _, _, rest). length rest)") (auto dest: scan_entry_length)

declare scan_loop.simps [simp del]

definition scan_entries :: "(bytes \<Rightarrow> u32) \<Rightarrow> (bytes \<Rightarrow> fact result) \<Rightarrow> bytes \<Rightarrow> wal_entry list \<times> nat" where
  "scan_entries crc dec f = scan_loop crc dec (length f) WAL_HEADER_SIZE (drop WAL_HEADER_SIZE f)"

section \<open>Writer and reader\<close>

record wal_writer =
  wal_file :: bytes
  failed :: bool

text \<open>\<open>None\<close>: no file at the path yet.\<close>

fun open_or_create :: "(bytes \<Rightarrow> u32) \<Rightarrow> (bytes \<Rightarrow> fact result) \<Rightarrow> bytes option \<Rightarrow> wal_writer result" where
  "open_or_create crc dec None = Ok \<lparr>wal_file = write_wal_header [], failed = False\<rparr>"
| "open_or_create crc dec (Some f) =
     (case check_wal_header_length f of
        Present \<Rightarrow>
          and_then (validate_wal_header f) (\<lambda>_.
            let (_, valid_end) = scan_entries crc dec f
            in Ok \<lparr>wal_file = (if valid_end < length f then take valid_end f else f), failed = False\<rparr>)
      | Absent \<Rightarrow> Ok \<lparr>wal_file = write_wal_header f, failed = False\<rparr>)"

text \<open>
  \<open>torn = None\<close>: the write and sync succeed; \<open>Some n\<close>: \<open>n\<close> bytes reach the file and the
  call fails.
\<close>

definition append_entry ::
    "(bytes \<Rightarrow> u32) \<Rightarrow> (fact \<Rightarrow> bytes result) \<Rightarrow> nat option \<Rightarrow> u64 \<Rightarrow> fact list \<Rightarrow> wal_writer
     \<Rightarrow> unit result \<times> wal_writer" where
  "append_entry crc enc torn txc fs w =
     (if failed w then (Err (Wal 7), w)
      else case serialize_entry crc enc txc fs of
        Inl e \<Rightarrow> (Err e, w)
      | Inr entry_bytes \<Rightarrow>
          (case torn of
             None \<Rightarrow> (Ok (), w\<lparr>wal_file := wal_file w @ entry_bytes\<rparr>)
           | Some n \<Rightarrow> (Err Io, w\<lparr>wal_file := wal_file w @ take n entry_bytes, failed := True\<rparr>)))"

definition wal_reader_open :: "bytes \<Rightarrow> bytes result" where
  "wal_reader_open f =
     (case check_wal_header_length f of
        Present \<Rightarrow> and_then (validate_wal_header f) (\<lambda>_. Ok f)
      | Absent \<Rightarrow> Ok f)"

definition read_entries :: "(bytes \<Rightarrow> u32) \<Rightarrow> (bytes \<Rightarrow> fact result) \<Rightarrow> bytes \<Rightarrow> wal_entry list" where
  "read_entries crc dec f = fst (scan_entries crc dec f)"

section \<open>Scanning what was written\<close>

lemma read_exact_append [simp]: "length a = n \<Longrightarrow> read_exact n (a @ r) = Some (a, r)"
  by (simp add: read_exact_def)

lemma read_exact_short: "length r < n \<Longrightarrow> read_exact n r = None"
  by (simp add: read_exact_def)

lemma serialize_fact_Ok:
  assumes "serialize_fact enc f = Ok b" "codec_ok enc dec"
  obtains d where "b = u32_to_le (of_nat (length d)) @ d" "dec d = Ok f" "length d \<le> MAX_FACT_BYTES"
  using assms by (auto simp: serialize_fact_def and_then_eq_Inr codec_ok_def not_less split: if_splits)

lemma fact_len_roundtrip:
  assumes "length d \<le> MAX_FACT_BYTES"
  shows "unat (u32_from_le (u32_to_le (of_nat (length d)))) = length d" "\<not> MAX_FACT_SIZE < length d"
  using assms
  by (simp_all add: unat_of_nat MAX_FACT_SIZE_def MAX_FACT_BYTES_def PAGE_SIZE_def PACKED_HEADER_SIZE_def)

lemma read_facts_written:
  assumes codec: "codec_ok enc dec" and "collect_map (serialize_fact enc) fs = Ok bs"
  shows "read_facts dec (length fs) (concat bs @ rest) = Some (concat bs, fs, rest)"
  using assms(2)
proof (induction fs arbitrary: bs)
  case (Cons f fs)
  from Cons.prems obtain b bs' where b: "serialize_fact enc f = Ok b" "collect_map (serialize_fact enc) fs = Ok bs'"
    "bs = b # bs'" by (auto simp: and_then_eq_Inr)
  obtain d where d: "b = u32_to_le (of_nat (length d)) @ d" "dec d = Ok f" "length d \<le> MAX_FACT_BYTES"
    using serialize_fact_Ok [OF b(1) codec] .
  from Cons.IH [OF b(2)] show ?case
    by (simp add: b(3) d(1,2) Let_def fact_len_roundtrip [OF d(3)] del: from_to_le)
qed simp

text \<open>A cut anywhere in the facts of an entry is noticed without looking at the checksum.\<close>

lemma read_facts_torn:
  assumes codec: "codec_ok enc dec" and "collect_map (serialize_fact enc) fs = Ok bs" "m < length (concat bs)"
  shows "read_facts dec (length fs) (take m (concat bs)) = None"
  using assms(2,3)
proof (induction fs arbitrary: bs m)
  case (Cons f fs)
  from Cons.prems obtain b bs' where b: "serialize_fact enc f = Ok b" "collect_map (serialize_fact enc) fs = Ok bs'"
    "bs = b # bs'" by (auto simp: and_then_eq_Inr)
  obtain d where d: "b = u32_to_le (of_nat (length d)) @ d" "dec d = Ok f" "length d \<le> MAX_FACT_BYTES"
    using serialize_fact_Ok [OF b(1) codec] .
  note len = fact_len_roundtrip [OF d(3)]
  consider "m < 4" | "4 \<le> m" "m < 4 + length d" | "4 + length d \<le> m" by linarith
  then show ?case
  proof cases
    case 1
    then show ?thesis by (simp add: read_exact_short)
  next
    case 2
    then show ?thesis by (simp add: b(3) d(1) Let_def len read_exact_short del: from_to_le)
  next
    case 3
    then have "m - (4 + length d) < length (concat bs')" using Cons.prems(2) by (simp add: b(3) d(1))
    from Cons.IH [OF b(2) this] 3 show ?thesis
      by (simp add: b(3) d(1,2) Let_def len del: from_to_le)
  qed
qed simp

lemma concat_facts_length:
  "collect_map (serialize_fact enc) fs = Ok bs \<Longrightarrow> 4 * length fs \<le> length (concat bs)"
proof (induction fs arbitrary: bs)
  case (Cons f fs)
  from Cons.prems obtain b bs' where b: "serialize_fact enc f = Ok b" "collect_map (serialize_fact enc) fs = Ok bs'"
    "bs = b # bs'" by (auto simp: and_then_eq_Inr)
  have "4 \<le> length b" using b(1) by (auto simp: serialize_fact_def and_then_eq_Inr split: if_splits)
  with Cons.IH [OF b(2)] b(3) show ?case by simp
qed simp

abbreviation serialize :: "(bytes \<Rightarrow> u32) \<Rightarrow> (fact \<Rightarrow> bytes result) \<Rightarrow> wal_entry \<Rightarrow> bytes result" where
  "serialize crc enc x \<equiv> serialize_entry crc enc (we_tx_count x) (we_facts x)"

lemma serialize_entry_Ok:
  assumes "serialize_entry crc enc txc fs = Ok e"
  obtains bs where "collect_map (serialize_fact enc) fs = Ok bs"
    "e = u32_to_le (crc (u64_to_le txc @ u64_to_le (of_nat (length fs)) @ concat bs)) @
      u64_to_le txc @ u64_to_le (of_nat (length fs)) @ concat bs"
  using assms by (auto simp: serialize_entry_def and_then_eq_Inr Let_def)

lemma scan_entry_written:
  assumes codec: "codec_ok enc dec" and e: "serialize crc enc x = Ok e"
    and n: "length (we_facts x) < 2 ^ 64" and fl: "fl = ve + length e + length rest"
  shows "scan_entry crc dec fl ve (e @ rest) = Some (x, rest)"
proof -
  obtain bs where bs: "collect_map (serialize_fact enc) (we_facts x) = Ok bs"
    "e = u32_to_le (crc (u64_to_le (we_tx_count x) @ u64_to_le (of_nat (length (we_facts x))) @ concat bs)) @
      u64_to_le (we_tx_count x) @ u64_to_le (of_nat (length (we_facts x))) @ concat bs"
    using serialize_entry_Ok [OF e] .
  have u: "unat (of_nat (length (we_facts x)) :: u64) = length (we_facts x)"
    using n by (simp add: unat_of_nat)
  have "length (we_facts x) \<le> (fl - (ve + 20)) div 4"
    using concat_facts_length [OF bs(1)] by (simp add: fl bs(2))
  then show ?thesis
    using read_facts_written [OF codec bs(1), of rest]
    by (simp add: scan_entry_def bs(2) u Let_def not_less)
qed

lemma scan_entry_torn:
  assumes codec: "codec_ok enc dec" and e: "serialize crc enc x = Ok e"
    and n: "length (we_facts x) < 2 ^ 64" and m: "m < length e"
  shows "scan_entry crc dec fl ve (take m e) = None"
proof -
  obtain bs where bs: "collect_map (serialize_fact enc) (we_facts x) = Ok bs"
    "e = u32_to_le (crc (u64_to_le (we_tx_count x) @ u64_to_le (of_nat (length (we_facts x))) @ concat bs)) @
      u64_to_le (we_tx_count x) @ u64_to_le (of_nat (length (we_facts x))) @ concat bs"
    using serialize_entry_Ok [OF e] .
  have u: "unat (of_nat (length (we_facts x)) :: u64) = length (we_facts x)"
    using n by (simp add: unat_of_nat)
  consider "m < 4" | "4 \<le> m" "m < 12" | "12 \<le> m" "m < 20" | "20 \<le> m" by linarith
  then show ?thesis
  proof cases
    case 4
    then have "m - 20 < length (concat bs)" using m by (simp add: bs(2))
    from read_facts_torn [OF codec bs(1) this] 4 show ?thesis
      by (simp add: scan_entry_def bs(2) u Let_def)
  qed (simp_all add: scan_entry_def bs(2) read_exact_short)
qed

definition loggable :: "(bytes \<Rightarrow> u32) \<Rightarrow> (fact \<Rightarrow> bytes result) \<Rightarrow> wal_entry list \<Rightarrow> bytes \<Rightarrow> bool" where
  "loggable crc enc es b \<longleftrightarrow> (\<exists>bs. collect_map (serialize crc enc) es = Ok bs \<and> b = concat bs) \<and>
     list_all (\<lambda>x. length (we_facts x) < 2 ^ 64) es"

lemma loggable_simps:
  "loggable crc enc [] b \<longleftrightarrow> b = []"
  "loggable crc enc (x # es) b \<longleftrightarrow>
     (\<exists>e b'. serialize crc enc x = Ok e \<and> length (we_facts x) < 2 ^ 64 \<and> loggable crc enc es b' \<and> b = e @ b')"
  by (auto simp: loggable_def and_then_eq_Inr)

lemma loggable_append:
  "loggable crc enc (es @ fs) b \<longleftrightarrow> (\<exists>b1 b2. loggable crc enc es b1 \<and> loggable crc enc fs b2 \<and> b = b1 @ b2)"
  by (induction es arbitrary: b) (force simp: loggable_simps)+

lemma loggable_snoc:
  "loggable crc enc es b \<Longrightarrow> loggable crc enc [x] e \<Longrightarrow> loggable crc enc (es @ [x]) (b @ e)"
  unfolding loggable_append by blast

lemma scan_loop_written:
  assumes codec: "codec_ok enc dec" and "loggable crc enc es b" "fl = ve + length b + length tail"
  shows "scan_loop crc dec fl ve (b @ tail) =
    (let (es', v) = scan_loop crc dec fl (ve + length b) tail in (es @ es', v))"
  using assms(2,3)
proof (induction es arbitrary: b ve)
  case Nil
  then show ?case by (simp add: loggable_simps split_beta)
next
  case (Cons x es)
  then obtain e b' where e: "serialize crc enc x = Ok e" "length (we_facts x) < 2 ^ 64"
    "loggable crc enc es b'" "b = e @ b'" by (auto simp: loggable_simps)
  have "scan_entry crc dec fl ve (e @ b' @ tail) = Some (x, b' @ tail)"
    using Cons.prems(2) e(4) by (intro scan_entry_written [OF codec e(1,2)]) simp
  then have "scan_loop crc dec fl ve (b @ tail) =
      (let (es', v) = scan_loop crc dec fl (fl - length (b' @ tail)) (b' @ tail) in (x # es', v))"
    by (subst scan_loop.simps) (simp add: e(4))
  also have "fl - length (b' @ tail) = ve + length e" using Cons.prems(2) e(4) by simp
  finally show ?case
    using Cons.IH [OF e(3), of "ve + length e"] Cons.prems(2) e(4) by (simp add: split_beta add.assoc Let_def)
qed

lemma scan_entries_written:
  assumes "codec_ok enc dec" "loggable crc enc es b"
  shows "scan_entries crc dec (wal_header @ b @ tail) =
    (let (es', v) = scan_loop crc dec (32 + length b + length tail) (32 + length b) tail in (es @ es', v))"
proof -
  have "length wal_header = 32" by (simp add: wal_header_def WAL_MAGIC_def as_bytes_def)
  then show ?thesis
    using scan_loop_written [OF assms, of "32 + length b + length tail" 32 tail]
    by (simp add: scan_entries_def WAL_HEADER_SIZE_def add.assoc)
qed

lemma scan_torn:
  assumes "codec_ok enc dec" "loggable crc enc es b" "loggable crc enc [x] e" "n < length e"
  shows "scan_entries crc dec (wal_header @ b @ take n e) = (es, WAL_HEADER_SIZE + length b)"
proof -
  from assms(3) have "serialize crc enc x = Ok e" "length (we_facts x) < 2 ^ 64"
    by (auto simp: loggable_simps)
  then have "scan_entry crc dec fl ve (take n e) = None" for fl ve
    using scan_entry_torn [OF assms(1) _ _ assms(4)] by blast
  then have "scan_loop crc dec fl ve (take n e) = ([], ve)" for fl ve
    by (subst scan_loop.simps) simp
  then show ?thesis
    using scan_entries_written [OF assms(1,2)] by (simp add: WAL_HEADER_SIZE_def)
qed

text \<open>
  Replay is exact up to a torn tail: a log holding any number of complete entries and then
  any proper prefix of one more entry scans to exactly the complete entries, in order,
  and the offset reported is where they end. An intact log is the case of an empty
  prefix. The checksum is not needed for this: the lengths give a cut away.
\<close>

lemma wal_scan_torn:
  assumes "codec_ok enc dec" and "loggable crc enc es b"
    and "loggable crc enc [x] e" and "n < length e"
  shows "scan_entries crc dec (wal_header @ b @ take n e) = (es, WAL_HEADER_SIZE + length b)"
  using assms by (rule scan_torn)

lemma sample_loggable:
  "loggable (\<lambda>_. 0) sample_enc [\<lparr>we_tx_count = 1, we_facts = [sample_fact]\<rparr>]
     (u32_to_le 0 @ u64_to_le 1 @ u64_to_le 1 @ u32_to_le 1 @ [42])"
  by (simp add: loggable_simps serialize_entry_def serialize_fact_def sample_enc_def Let_def
    MAX_FACT_BYTES_def PAGE_SIZE_def PACKED_HEADER_SIZE_def)

text \<open>
  Damage never reaches back: whatever bytes follow a run of complete entries, those
  entries are scanned first and unchanged.
\<close>

lemma wal_scan_prefix:
  assumes "codec_ok enc dec" and "loggable crc enc es b"
  shows "\<exists>es'. read_entries crc dec (wal_header @ b @ tail) = es @ es'"
  using scan_entries_written [OF assms] by (simp add: read_entries_def split_beta Let_def)

section \<open>Crash recovery\<close>

text \<open>
  The life of a log: entries appended; appends refused with the file untouched (an entry that
  cannot be serialised, an earlier failure); appends torn after \<open>n\<close> bytes; reopening. \<open>es\<close>
  lists the entries acknowledged or replayed so far, \<open>doubt\<close> the entry whose append was torn
  since the log was last opened, with the number of its bytes let through.
\<close>

inductive wal_run ::
    "(bytes \<Rightarrow> u32) \<Rightarrow> (fact \<Rightarrow> bytes result) \<Rightarrow> (bytes \<Rightarrow> fact result) \<Rightarrow>
     wal_entry list \<Rightarrow> (wal_entry \<times> nat) option \<Rightarrow> wal_writer \<Rightarrow> bool"
  for crc enc dec where
  created: "open_or_create crc dec None = Ok w \<Longrightarrow> wal_run crc enc dec [] None w"
| appended: "wal_run crc enc dec es doubt w \<Longrightarrow> length fs < 2 ^ 64 \<Longrightarrow>
    append_entry crc enc None txc fs w = (Ok (), w') \<Longrightarrow>
    wal_run crc enc dec (es @ [\<lparr>we_tx_count = txc, we_facts = fs\<rparr>]) doubt w'"
| append_refused: "wal_run crc enc dec es doubt w \<Longrightarrow>
    append_entry crc enc torn txc fs w = (Err err, w) \<Longrightarrow> wal_run crc enc dec es doubt w"
| append_torn: "wal_run crc enc dec es doubt w \<Longrightarrow> length fs < 2 ^ 64 \<Longrightarrow> \<not> failed w \<Longrightarrow>
    append_entry crc enc (Some n) txc fs w = (Err err, w') \<Longrightarrow> failed w' \<Longrightarrow>
    wal_run crc enc dec es (Some (\<lparr>we_tx_count = txc, we_facts = fs\<rparr>, n)) w'"
| reopened: "wal_run crc enc dec es doubt w \<Longrightarrow> open_or_create crc dec (Some (wal_file w)) = Ok w' \<Longrightarrow>
    wal_run crc enc dec (read_entries crc dec (wal_file w)) None w'"

text \<open>Every failing append is one of the two kinds.\<close>

lemma append_fails:
  "append_entry crc enc torn txc fs w = (Err err, w') \<Longrightarrow>
   w' = w \<or> \<not> failed w \<and> failed w' \<and> (\<exists>n. torn = Some n)"
  by (auto simp: append_entry_def split: if_splits sum.splits option.splits)

definition wal_inv ::
    "(bytes \<Rightarrow> u32) \<Rightarrow> (fact \<Rightarrow> bytes result) \<Rightarrow> wal_entry list \<Rightarrow> (wal_entry \<times> nat) option \<Rightarrow> wal_writer \<Rightarrow> bool" where
  "wal_inv crc enc es doubt w \<longleftrightarrow> (failed w \<longleftrightarrow> doubt \<noteq> None) \<and> (\<exists>b. loggable crc enc es b \<and>
     (case doubt of
        None \<Rightarrow> wal_file w = wal_header @ b
      | Some (x, n) \<Rightarrow> \<exists>e. loggable crc enc [x] e \<and> wal_file w = wal_header @ b @ take n e))"

lemma scan_clean:
  "codec_ok enc dec \<Longrightarrow> loggable crc enc es b \<Longrightarrow>
   scan_entries crc dec (wal_header @ b) = (es, WAL_HEADER_SIZE + length b)"
  using scan_entries_written [of enc dec crc es b "[]"]
  by (simp add: scan_loop.simps scan_entry_def read_exact_def WAL_HEADER_SIZE_def)

text \<open>
  What replay finds: the acknowledged entries, and the torn one exactly when all its bytes
  had reached the file.
\<close>

definition replayed ::
    "(bytes \<Rightarrow> u32) \<Rightarrow> (fact \<Rightarrow> bytes result) \<Rightarrow> wal_entry list \<Rightarrow> (wal_entry \<times> nat) option \<Rightarrow> wal_entry list" where
  "replayed crc enc es doubt = (case doubt of
      None \<Rightarrow> es
    | Some (x, n) \<Rightarrow> (case serialize_entry crc enc (we_tx_count x) (we_facts x) of
          Inl err \<Rightarrow> es
        | Inr e \<Rightarrow> if n < length e then es else es @ [x]))"

lemma wal_inv_scan:
  assumes codec: "codec_ok enc dec" and inv: "wal_inv crc enc es doubt w"
  shows "\<exists>b tail. scan_entries crc dec (wal_file w) = (replayed crc enc es doubt, WAL_HEADER_SIZE + length b) \<and>
    loggable crc enc (replayed crc enc es doubt) b \<and> wal_file w = wal_header @ b @ tail"
proof (cases doubt)
  case None
  with inv obtain b where "loggable crc enc es b" "wal_file w = wal_header @ b" by (auto simp: wal_inv_def)
  with scan_clean [OF codec this(1)] None show ?thesis
    by (intro exI [of _ b] exI [of _ "[]"]) (simp add: replayed_def)
next
  case (Some d)
  obtain x n where d: "d = (x, n)" by fastforce
  with inv Some obtain b e where w: "loggable crc enc es b" "loggable crc enc [x] e"
    "wal_file w = wal_header @ b @ take n e" by (auto simp: wal_inv_def)
  from w(2) have s: "serialize_entry crc enc (we_tx_count x) (we_facts x) = Ok e" by (auto simp: loggable_simps)
  show ?thesis
  proof (cases "n < length e")
    case True
    with Some d s have "replayed crc enc es doubt = es" by (simp add: replayed_def)
    with scan_torn [OF codec w(1,2) True] w show ?thesis by auto
  next
    case False
    with Some d s have r: "replayed crc enc es doubt = es @ [x]" by (simp add: replayed_def)
    have l: "loggable crc enc (es @ [x]) (b @ e)" using w(1,2) by (rule loggable_snoc)
    have "wal_file w = wal_header @ (b @ e) @ []" using w(3) False by simp
    with scan_clean [OF codec l] l r show ?thesis by (intro exI [of _ "b @ e"] exI [of _ "[]"]) simp
  qed
qed

lemma wal_inv_read:
  "codec_ok enc dec \<Longrightarrow> wal_inv crc enc es doubt w \<Longrightarrow> read_entries crc dec (wal_file w) = replayed crc enc es doubt"
  using wal_inv_scan [of enc dec crc es doubt w] by (auto simp: read_entries_def)

lemma reopen_log:
  assumes codec: "codec_ok enc dec" and inv: "wal_inv crc enc es doubt w"
  shows "\<exists>b w'. open_or_create crc dec (Some (wal_file w)) = Ok w' \<and> \<not> failed w' \<and>
    wal_file w' = wal_header @ b \<and> loggable crc enc (read_entries crc dec (wal_file w)) b"
proof -
  obtain es' b tail where s: "scan_entries crc dec (wal_file w) = (es', WAL_HEADER_SIZE + length b)"
    "loggable crc enc es' b" "wal_file w = wal_header @ b @ tail"
    using wal_inv_scan [OF assms] by blast
  have h: "length wal_header = WAL_HEADER_SIZE" "take 4 wal_header = WAL_MAGIC"
    "u32_from_le (take 4 (drop 4 wal_header)) = WAL_VERSION"
    by (simp_all add: wal_header_def WAL_MAGIC_def as_bytes_def WAL_HEADER_SIZE_def)
  have "validate_wal_header (wal_file w) = Ok ()" "check_wal_header_length (wal_file w) = Present"
    using h by (simp_all add: s(3) validate_wal_header_def file_read_exact_def slice_get_def check_wal_header_length_def)
  moreover have "(if WAL_HEADER_SIZE + length b < length (wal_file w)
      then take (WAL_HEADER_SIZE + length b) (wal_file w) else wal_file w) = wal_header @ b"
    using h(1) by (simp add: s(3))
  ultimately have "open_or_create crc dec (Some (wal_file w)) = Ok \<lparr>wal_file = wal_header @ b, failed = False\<rparr>"
    by (simp add: s(1))
  with s(1,2) show ?thesis by (auto simp: read_entries_def)
qed

lemma append_Ok:
  assumes "append_entry crc enc None txc fs w = (Ok (), w')" "length fs < 2 ^ 64"
  obtains e where "\<not> failed w" "\<not> failed w'" "wal_file w' = wal_file w @ e"
    "loggable crc enc [\<lparr>we_tx_count = txc, we_facts = fs\<rparr>] e"
  using assms by (auto simp: append_entry_def loggable_simps split: if_splits sum.splits)

lemma wal_run_inv:
  assumes "wal_run crc enc dec es doubt w" "codec_ok enc dec"
  shows "wal_inv crc enc es doubt w"
  using assms
proof (induction rule: wal_run.induct)
  case (created w)
  then show ?case
    by (auto simp: wal_inv_def loggable_simps write_wal_header_def file_write_def)
next
  case (appended es doubt w fs txc w')
  obtain e where e: "\<not> failed w" "\<not> failed w'" "wal_file w' = wal_file w @ e"
    "loggable crc enc [\<lparr>we_tx_count = txc, we_facts = fs\<rparr>] e"
    using append_Ok [OF appended.hyps(3,2)] .
  have inv: "wal_inv crc enc es doubt w" using appended.IH appended.prems .
  with e(1) have "doubt = None" unfolding wal_inv_def by blast
  with inv e show ?case by (auto simp: wal_inv_def intro: loggable_snoc)
next
  case (append_refused es doubt w torn txc fs err)
  then show ?case by blast
next
  case (append_torn es doubt w fs n txc err w')
  have inv: "wal_inv crc enc es doubt w" using append_torn.IH append_torn.prems .
  with append_torn.hyps(3) have "doubt = None" unfolding wal_inv_def by blast
  with inv obtain b where b: "loggable crc enc es b" "wal_file w = wal_header @ b" by (auto simp: wal_inv_def)
  obtain e where e: "serialize_entry crc enc txc fs = Ok e"
    "w' = w\<lparr>wal_file := wal_file w @ take n e, failed := True\<rparr>"
    using append_torn.hyps(3-5) by (auto simp: append_entry_def split: sum.splits)
  have "loggable crc enc [\<lparr>we_tx_count = txc, we_facts = fs\<rparr>] e"
    using e(1) append_torn.hyps(2) by (simp add: loggable_simps)
  with b show ?case unfolding wal_inv_def by (auto simp: e(2))
next
  case (reopened es doubt w w')
  with reopen_log [of enc dec crc es doubt w] show ?case by (auto simp: wal_inv_def)
qed

text \<open>
  C2. Crash recovery. After any history of appends, refused and torn appends and reopenings:
  replay returns exactly the acknowledged entries when no append was torn since the log was
  last opened, and otherwise those entries followed by the very entry whose append was torn
  if and only if all its bytes had reached the file; reopening then succeeds, keeps exactly
  what replay returned, and an entry appended afterwards is replayed after them. Without the
  truncation on reopening that last part would fail.
\<close>

theorem wal_crash_recovery:
  assumes run: "wal_run crc enc dec es doubt w" and codec: "codec_ok enc dec"
  shows "(case doubt of
      None \<Rightarrow> read_entries crc dec (wal_file w) = es
    | Some (x, n) \<Rightarrow> \<exists>e. serialize_entry crc enc (we_tx_count x) (we_facts x) = Ok e \<and>
        read_entries crc dec (wal_file w) = (if n < length e then es else es @ [x])) \<and>
    (\<exists>w'. open_or_create crc dec (Some (wal_file w)) = Ok w' \<and>
      read_entries crc dec (wal_file w') = read_entries crc dec (wal_file w) \<and>
      (\<forall>txc fs w''. length fs < 2 ^ 64 \<longrightarrow> append_entry crc enc None txc fs w' = (Ok (), w'') \<longrightarrow>
        read_entries crc dec (wal_file w'') =
          read_entries crc dec (wal_file w) @ [\<lparr>we_tx_count = txc, we_facts = fs\<rparr>]))"
proof -
  have inv: "wal_inv crc enc es doubt w" using wal_run_inv [OF assms] .
  obtain b w' where w': "open_or_create crc dec (Some (wal_file w)) = Ok w'" "\<not> failed w'"
    "wal_file w' = wal_header @ b" "loggable crc enc (read_entries crc dec (wal_file w)) b"
    using reopen_log [OF codec inv] by blast
  have "read_entries crc dec (wal_file w') = read_entries crc dec (wal_file w)"
    using scan_clean [OF codec w'(4)] by (simp add: read_entries_def w'(3))
  moreover have "read_entries crc dec (wal_file w'') =
      read_entries crc dec (wal_file w) @ [\<lparr>we_tx_count = txc, we_facts = fs\<rparr>]"
    if a: "length fs < 2 ^ 64" "append_entry crc enc None txc fs w' = (Ok (), w'')" for txc fs w''
  proof -
    obtain e where e: "wal_file w'' = wal_file w' @ e" "loggable crc enc [\<lparr>we_tx_count = txc, we_facts = fs\<rparr>] e"
      using append_Ok [OF a(2,1)] by blast
    from w'(4) e(2) have "loggable crc enc (read_entries crc dec (wal_file w) @ [\<lparr>we_tx_count = txc, we_facts = fs\<rparr>]) (b @ e)"
      by (rule loggable_snoc)
    from scan_clean [OF codec this] show ?thesis by (simp add: read_entries_def e(1) w'(3))
  qed
  moreover have "case doubt of
      None \<Rightarrow> read_entries crc dec (wal_file w) = es
    | Some (x, n) \<Rightarrow> \<exists>e. serialize_entry crc enc (we_tx_count x) (we_facts x) = Ok e \<and>
        read_entries crc dec (wal_file w) = (if n < length e then es else es @ [x])"
    using wal_inv_read [OF codec inv] inv
    by (auto simp: replayed_def wal_inv_def loggable_simps split: option.splits)
  ultimately show ?thesis using w'(1) by blast
qed

theorem wal_crash_recovery_witness:
  "(\<exists>w w'. append_entry (\<lambda>_. 0) sample_enc (Some 10) 1 [sample_fact]
      \<lparr>wal_file = write_wal_header [], failed = False\<rparr> = (Err Io, w) \<and>
    read_entries (\<lambda>_. 0) sample_dec (wal_file w) = [] \<and>
    open_or_create (\<lambda>_. 0) sample_dec (Some (wal_file w)) = Ok w') \<and>
   (\<exists>w w'. append_entry (\<lambda>_. 0) sample_enc (Some 25) 1 [sample_fact]
      \<lparr>wal_file = write_wal_header [], failed = False\<rparr> = (Err Io, w) \<and>
    read_entries (\<lambda>_. 0) sample_dec (wal_file w) = [\<lparr>we_tx_count = 1, we_facts = [sample_fact]\<rparr>] \<and>
    open_or_create (\<lambda>_. 0) sample_dec (Some (wal_file w)) = Ok w')"
proof -
  let ?v = "\<lparr>wal_file = write_wal_header [], failed = False\<rparr>"
  let ?e = "u32_to_le 0 @ u64_to_le 1 @ u64_to_le 1 @ u32_to_le 1 @ [42]"
  have ser: "serialize_entry (\<lambda>_. 0) sample_enc 1 [sample_fact] = Ok ?e"
    by (simp add: serialize_entry_def serialize_fact_def sample_enc_def Let_def
      MAX_FACT_BYTES_def PAGE_SIZE_def PACKED_HEADER_SIZE_def)
  have len: "length ?e = 25" by simp
  have start: "wal_run (\<lambda>_. 0) sample_enc sample_dec [] None ?v" by (rule wal_run.created) simp
  have "\<exists>w w'. append_entry (\<lambda>_. 0) sample_enc (Some n) 1 [sample_fact] ?v = (Err Io, w) \<and>
      read_entries (\<lambda>_. 0) sample_dec (wal_file w) =
        (if n < length ?e then [] else [] @ [\<lparr>we_tx_count = 1, we_facts = [sample_fact]\<rparr>]) \<and>
      open_or_create (\<lambda>_. 0) sample_dec (Some (wal_file w)) = Ok w'" for n
  proof -
    let ?w = "\<lparr>wal_file = write_wal_header [] @ take n ?e, failed = True\<rparr>"
    have torn: "append_entry (\<lambda>_. 0) sample_enc (Some n) 1 [sample_fact] ?v = (Err Io, ?w)" "failed ?w"
      by (simp_all add: append_entry_def ser)
    have "wal_run (\<lambda>_. 0) sample_enc sample_dec [] (Some (\<lparr>we_tx_count = 1, we_facts = [sample_fact]\<rparr>, n)) ?w"
      by (rule wal_run.append_torn [OF start _ _ torn]) simp_all
    from wal_crash_recovery [OF this sample_codec(1), unfolded option.case prod.case wal_entry.simps ser]
    have "read_entries (\<lambda>_. 0) sample_dec (wal_file ?w) =
        (if n < length ?e then [] else [] @ [\<lparr>we_tx_count = 1, we_facts = [sample_fact]\<rparr>])"
      "\<exists>w'. open_or_create (\<lambda>_. 0) sample_dec (Some (wal_file ?w)) = Ok w'" by blast+
    with torn(1) show ?thesis by blast
  qed
  from this [of 10] this [of 25] show ?thesis unfolding len by (simp only: append_Nil) simp
qed

end
