(* ===== verification/Database.thy ===== *)
theory Database
  imports Durable_File Wal Prepared Query_Parser
begin

text \<open>
  The database handle, \<^verbatim>\<open>src/db.rs\<close>: opening a file with its log, executing commands, explicit
  write transactions, checkpoints and closing.

  A handle and the persistent storage behind it share one fact store: for a database in a file
  it is the store of the persistent storage, for one in memory \<open>own_storage\<close>. The log file is a
  component of the state (\<open>None\<close>: no file), since operations create, extend and delete it. The
  thread-local flag is a component too; the model is one thread, so locks are always free.
  The path of the log and the lock on the file are left out. What may go wrong with the log
  is an argument: an append that fails part-way, and a deletion that fails.
\<close>

section \<open>Options\<close>

datatype sync_mode = FullSync | NormalSync

record open_options =
  wal_checkpoint_threshold :: nat
  page_cache_size :: nat
  opt_max_derived_facts :: nat
  opt_max_results :: nat
  allow_unlocked :: bool
  synchronous :: sync_mode

definition default_open_options :: open_options where
  "default_open_options = \<lparr>wal_checkpoint_threshold = 1000, page_cache_size = 256,
     opt_max_derived_facts = DEFAULT_MAX_DERIVED_FACTS, opt_max_results = DEFAULT_MAX_RESULTS,
     allow_unlocked = False, synchronous = FullSync\<rparr>"

definition memory_page_cache_capacity :: "open_options \<Rightarrow> nat" where
  "memory_page_cache_capacity opts = 0"

definition usize_MAX :: nat where "usize_MAX = 2 ^ 64 - 1"

section \<open>State\<close>

text \<open>How a deletion of the log ends: done, refused, or done but its directory not synced.\<close>

datatype delete_outcome = Deleted | NotDeleted | NotSynced

record io_faults =
  torn_append :: "nat option"
  delete_outcome :: delete_outcome

definition no_faults :: io_faults where
  "no_faults = \<lparr>torn_append = None, delete_outcome = Deleted\<rparr>"

record file_context =
  ctx_pfs :: "file_backend persistent"
  ctx_wal :: "wal_writer option"
  wal_entry_count :: nat

datatype write_context = Memory | File file_context

record minigraf =
  own_storage :: fact_storage
  db_rules :: rule_registry
  db_functions :: function_registry
  write_ctx :: write_context
  db_options :: open_options
  write_tx_active :: bool
  wal_disk :: "bytes option"

definition shared_storage :: "minigraf \<Rightarrow> fact_storage" where
  "shared_storage D = (case write_ctx D of Memory \<Rightarrow> own_storage D | File c \<Rightarrow> storage (ctx_pfs c))"

definition with_storage :: "fact_storage \<Rightarrow> minigraf \<Rightarrow> minigraf" where
  "with_storage s D = (case write_ctx D of
      Memory \<Rightarrow> D\<lparr>own_storage := s\<rparr>
    | File c \<Rightarrow> D\<lparr>write_ctx := File (c\<lparr>ctx_pfs := (ctx_pfs c)\<lparr>storage := s\<rparr>\<rparr>)\<rparr>)"

text \<open>The code around the handle: parser and evaluation environments, crates, and the clock.\<close>

record db_env =
  de_parse :: parse_env
  de_eval :: eval_env
  de_crates :: crates
  de_now :: "nat \<Rightarrow> u64"
  de_clock :: "fact_storage \<Rightarrow> u64"

definition db_eval :: "db_env \<Rightarrow> minigraf \<Rightarrow> eval_env" where
  "db_eval E D = (de_eval E)\<lparr>fn_registry := db_functions D\<rparr>"

section \<open>Opening\<close>

fun replay_entries :: "u64 \<Rightarrow> wal_entry list \<Rightarrow> fact_storage \<Rightarrow> nat result \<times> fact_storage" where
  "replay_entries cp [] s = (Ok 0, s)"
| "replay_entries cp (e # es) s =
     (if we_tx_count e \<le> cp then replay_entries cp es s
      else case load_facts (we_facts e) s of
        (Inl err, s') \<Rightarrow> (Err err, s')
      | (Inr _, s') \<Rightarrow> (case replay_entries cp es s' of (r, s'') \<Rightarrow> (and_then r (\<lambda>n. Ok (n + 1)), s'')))"

definition replay_wal :: "crates \<Rightarrow> bytes option \<Rightarrow> 'b persistent \<Rightarrow> nat result \<times> 'b persistent" where
  "replay_wal K wal P = (case wal of
      None \<Rightarrow> (Ok 0, P)
    | Some f \<Rightarrow> (case wal_reader_open f of
        Inl e \<Rightarrow> (Err e, P)
      | Inr g \<Rightarrow> (case replay_entries (last_checkpointed P) (read_entries (crc32 K) (fact_dec K) g) (storage P) of
          (Inl e, s) \<Rightarrow> (Err e, P\<lparr>storage := s\<rparr>)
        | (Inr n, s) \<Rightarrow> (Ok n, P\<lparr>storage := restore_tx_counter s\<rparr>))))"

definition open_with_options :: "crates \<Rightarrow> open_options \<Rightarrow> bytes \<Rightarrow> bytes option \<Rightarrow> minigraf result option" where
  "open_with_options K opts graph wal = (case open_contents graph of
      Inl e \<Rightarrow> Some (Err e)
    | Inr b \<Rightarrow> (case persistent_new K (file_store K) b (page_cache_size opts) of
        None \<Rightarrow> None
      | Some (Inl e) \<Rightarrow> Some (Err e)
      | Some (Inr P) \<Rightarrow> (case replay_wal K wal P of
          (Inl e, _) \<Rightarrow> Some (Err e)
        | (Inr n, P') \<Rightarrow>
            Some (and_then (case wal of None \<Rightarrow> Ok None
                | Some _ \<Rightarrow> and_then (open_or_create (crc32 K) (fact_dec K) wal) (\<lambda>w. Ok (Some w))) (\<lambda>writer.
              Ok \<lparr>own_storage = fact_storage_new, db_rules = [], db_functions = with_builtins,
                write_ctx = File \<lparr>ctx_pfs = P', ctx_wal = writer, wal_entry_count = n\<rparr>, db_options = opts,
                write_tx_active = False, wal_disk = map_option wal_file writer\<rparr>)))))"

definition memory_store :: "memory_backend storage_backend" where
  "memory_store = \<lparr>page_ops = memory_ops, sync_op = \<lambda>b. (Ok (), b), is_new_op = \<lambda>_. True\<rparr>"

definition in_memory_with_options :: "crates \<Rightarrow> open_options \<Rightarrow> minigraf result option" where
  "in_memory_with_options K opts =
     map_option (\<lambda>r. and_then r (\<lambda>P. Ok \<lparr>own_storage = storage P, db_rules = [], db_functions = with_builtins,
       write_ctx = Memory, db_options = opts, write_tx_active = False, wal_disk = None\<rparr>))
     (persistent_new K memory_store memory_backend_new (memory_page_cache_capacity opts))"

section \<open>Checkpoints\<close>

definition delete_wal_file :: "io_faults \<Rightarrow> minigraf \<Rightarrow> unit result \<times> minigraf" where
  "delete_wal_file F D = (case delete_outcome F of
      Deleted \<Rightarrow> (Ok (), D\<lparr>wal_disk := None\<rparr>)
    | NotDeleted \<Rightarrow> (Err Io, D)
    | NotSynced \<Rightarrow> (Err Io, D\<lparr>wal_disk := None\<rparr>))"

definition do_checkpoint :: "crates \<Rightarrow> io_faults \<Rightarrow> (minigraf, unit) run" where
  "do_checkpoint K F D = (case write_ctx D of
      Memory \<Rightarrow> Some (Ok (), D)
    | File c \<Rightarrow>
        if wal_entry_count c = 0 \<and> \<not> dirty (ctx_pfs c) then
          (if wal_disk D \<noteq> None then Some (delete_wal_file F (D\<lparr>write_ctx := File (c\<lparr>ctx_wal := None\<rparr>)\<rparr>)) else Some (Ok (), D))
        else case save K (file_store K) (mark_dirty (ctx_pfs c)) of
          None \<Rightarrow> None
        | Some (Inl e, P) \<Rightarrow> Some (Err e, D\<lparr>write_ctx := File (c\<lparr>ctx_pfs := P\<rparr>)\<rparr>)
        | Some (Inr _, P) \<Rightarrow>
            let c' = c\<lparr>ctx_pfs := P, ctx_wal := None\<rparr>; D' = D\<lparr>write_ctx := File c'\<rparr> in
            (case (if wal_disk D \<noteq> None then delete_wal_file F D' else (Ok (), D')) of
               (Inl e, D2) \<Rightarrow> Some (Err e, D2)
             | (Inr _, D2) \<Rightarrow> Some (Ok (), D2\<lparr>write_ctx := File (c'\<lparr>wal_entry_count := 0\<rparr>)\<rparr>)))"

definition checkpoint :: "crates \<Rightarrow> io_faults \<Rightarrow> (minigraf, unit) run" where
  "checkpoint K F D = (if write_tx_active D then Some (Err (Internal 1), D) else do_checkpoint K F D)"

text \<open>
  Dropping the handle: a last checkpoint, then the persistent storage is dropped, which saves if it
  is still dirty. The result is the two files as they are left.
\<close>

definition close_db :: "crates \<Rightarrow> io_faults \<Rightarrow> minigraf \<Rightarrow> (bytes \<times> bytes option) option" where
  "close_db K F D =
     Option.bind
       (if wal_checkpoint_threshold (db_options D) = usize_MAX
        then Some (case write_ctx D of Memory \<Rightarrow> D | File c \<Rightarrow> D\<lparr>write_ctx := File (c\<lparr>ctx_pfs := discard (ctx_pfs c)\<rparr>)\<rparr>)
        else map_option snd (do_checkpoint K F D))
       (\<lambda>D'. case write_ctx D' of
          Memory \<Rightarrow> Some ([], None)
        | File c \<Rightarrow> map_option (\<lambda>P. (contents (fst (pf_io P)), wal_disk D')) (drop_storage K (file_store K) (ctx_pfs c)))"

section \<open>Writing\<close>

definition VALID_FROM_USE_TX_TIME :: i64 where "VALID_FROM_USE_TX_TIME = i64_MIN"

definition materialized_triple :: "uuid_ops \<Rightarrow> pattern \<Rightarrow> (uuid \<times> string \<times> value_t) result" where
  "materialized_triple U p =
     and_then (ok_or (Internal 2) (edn_to_entity_id U (pat_entity p))) (\<lambda>e.
     and_then (case pat_attribute p of Real (Keyword k) \<Rightarrow> Ok k | Real _ \<Rightarrow> Err (Api 3) | Pseudo _ \<Rightarrow> Err (Api 4)) (\<lambda>a.
     and_then (ok_or (Internal 3) (edn_to_value (pat_value p))) (\<lambda>v. Ok (e, a, v))))"

definition or_else :: "'a option \<Rightarrow> 'a option \<Rightarrow> 'a \<Rightarrow> 'a" where
  "or_else x y d = (case x of Some a \<Rightarrow> a | None \<Rightarrow> (case y of Some b \<Rightarrow> b | None \<Rightarrow> d))"

definition materialize_transaction :: "uuid_ops \<Rightarrow> transaction \<Rightarrow> fact list result" where
  "materialize_transaction U tx = collect_map (\<lambda>p. and_then (materialized_triple U p) (\<lambda>(e, a, v).
     Ok (fact_with_valid_time e a v 0 0 (or_else (pat_valid_from p) (trans_valid_from tx) VALID_FROM_USE_TX_TIME)
       (or_else (pat_valid_to p) (trans_valid_to tx) VALID_TIME_FOREVER)))) (trans_facts tx)"

definition materialize_retraction :: "uuid_ops \<Rightarrow> transaction \<Rightarrow> fact list result" where
  "materialize_retraction U tx = collect_map (\<lambda>p. and_then (materialized_triple U p) (\<lambda>(e, a, v).
     Ok ((fact_retract e a v 0)\<lparr>tx_count := 0\<rparr>))) (trans_facts tx)"

definition resolve_valid_from :: "fact \<Rightarrow> fact" where
  "resolve_valid_from f = (if asserted f \<and> valid_from f = VALID_FROM_USE_TX_TIME then f\<lparr>valid_from := I64 (tx_id f)\<rparr> else f)"

definition stamp :: "u64 \<Rightarrow> u64 \<Rightarrow> fact \<Rightarrow> fact" where
  "stamp txid n f = resolve_valid_from (f\<lparr>tx_id := txid, tx_count := n\<rparr>)"

text \<open>
  Opening the log fails only on a damaged header here, with the file unchanged; a log whose
  creation is itself cut off by the file system is left out.
\<close>

definition wal_write_stamped_batch :: "crates \<Rightarrow> io_faults \<Rightarrow> u64 \<Rightarrow> fact list \<Rightarrow> minigraf \<Rightarrow> bool result \<times> minigraf" where
  "wal_write_stamped_batch K F txc fs D = (case write_ctx D of
      Memory \<Rightarrow> (Ok False, D)
    | File c \<Rightarrow>
        (case (case ctx_wal c of Some w \<Rightarrow> Ok w | None \<Rightarrow> open_or_create (crc32 K) (fact_dec K) (wal_disk D)) of
           Inl e \<Rightarrow> (Err e, D)
         | Inr w \<Rightarrow>
             (case append_entry (crc32 K) (fact_enc K) (torn_append F) txc fs w of
                (Inl e, w') \<Rightarrow> (Err e, D\<lparr>write_ctx := File (c\<lparr>ctx_wal := Some w'\<rparr>), wal_disk := Some (wal_file w')\<rparr>)
              | (Inr _, w') \<Rightarrow>
                  let n = min (wal_entry_count c + 1) usize_MAX in
                  (Ok (wal_checkpoint_threshold (db_options D) \<le> n),
                   D\<lparr>write_ctx := File (c\<lparr>ctx_pfs := mark_dirty (ctx_pfs c), ctx_wal := Some w', wal_entry_count := n\<rparr>),
                     wal_disk := Some (wal_file w')\<rparr>))))"

text \<open>
  The part \<^verbatim>\<open>execute\<close> and \<^verbatim>\<open>commit\<close> have in common: number and stamp the facts, log them, apply them,
  checkpoint if the log has grown long enough.
\<close>

definition commit_facts :: "crates \<Rightarrow> io_faults \<Rightarrow> u64 \<Rightarrow> fact list \<Rightarrow> (minigraf, u64) run" where
  "commit_facts K F now fs D =
     (let (txc, s) = allocate_tx_count (shared_storage D); stamped = map (stamp now txc) fs in
      case wal_write_stamped_batch K F txc stamped (with_storage s D) of
        (Inl e, D') \<Rightarrow> Some (Err e, D')
      | (Inr should_checkpoint, D') \<Rightarrow>
          (case load_facts stamped (shared_storage D') of
             (Inl e, s') \<Rightarrow> Some (Err e, with_storage s' D')
           | (Inr _, s') \<Rightarrow>
               if should_checkpoint then and_run (do_checkpoint K F (with_storage s' D')) (\<lambda>_ D''. Some (Ok now, D''))
               else Some (Ok now, with_storage s' D')))"

definition db_executor :: "minigraf \<Rightarrow> datalog_executor" where
  "db_executor D = executor_new_with_rules (shared_storage D) (db_rules D)"

definition limited :: "minigraf \<Rightarrow> datalog_executor \<Rightarrow> datalog_executor" where
  "limited D = set_limits (opt_max_derived_facts (db_options D)) (opt_max_results (db_options D))"

definition db_execute :: "db_env \<Rightarrow> io_faults \<Rightarrow> nat list \<Rightarrow> (minigraf, query_result) run" where
  "db_execute E F input D =
     (if write_tx_active D then Some (Err (Internal 1), D)
      else case parse_datalog_command (de_parse E) input of
        Inl e \<Rightarrow> Some (Err e, D)
      | Inr cmd \<Rightarrow> (case cmd of
          TransactCmd tx \<Rightarrow> (case materialize_transaction (uuids (de_eval E)) tx of
              Inl e \<Rightarrow> Some (Err e, D)
            | Inr fs \<Rightarrow> and_run (commit_facts (de_crates E) F (de_now E 0) fs D) (\<lambda>id D'. Some (Ok (Transacted id), D')))
        | RetractCmd tx \<Rightarrow> (case materialize_retraction (uuids (de_eval E)) tx of
              Inl e \<Rightarrow> Some (Err e, D)
            | Inr fs \<Rightarrow> and_run (commit_facts (de_crates E) F (de_now E 0) fs D) (\<lambda>id D'. Some (Ok (Retracted id), D')))
        | RuleCmd r \<Rightarrow> (case execute (db_eval E D) (de_now E) (de_clock E) cmd (db_executor D) of
              (res, ex) \<Rightarrow> Some (res, D\<lparr>db_rules := ex_rules ex\<rparr>))
        | QueryCmd q \<Rightarrow> Some (and_then (reject_unbound_slots q) (\<lambda>_.
              fst (execute (db_eval E D) (de_now E) (de_clock E) cmd (limited D (db_executor D)))), D)))"

section \<open>Write transactions\<close>

text \<open>
  The buffer of an open transaction. Committing and rolling back consume it; dropping it without
  either is a rollback, so a failed commit ends the transaction too.
\<close>

record write_transaction =
  pending_facts :: "fact list"
  next_pending_tx_count :: u64
  next_pending_tx_id :: u64

definition begin_write :: "u64 \<Rightarrow> minigraf \<Rightarrow> write_transaction result \<times> minigraf" where
  "begin_write now D =
     (if write_tx_active D then (Err (Internal 1), D)
      else (Ok \<lparr>pending_facts = [], next_pending_tx_count = u64_saturating_add (current_tx_count (shared_storage D)) 1,
              next_pending_tx_id = now\<rparr>, D\<lparr>write_tx_active := True\<rparr>))"

definition stage_pending_facts :: "u64 \<Rightarrow> fact list \<Rightarrow> write_transaction \<Rightarrow> write_transaction" where
  "stage_pending_facts now fs W =
     (let txid = max now (next_pending_tx_id W); n = next_pending_tx_count W in
      W\<lparr>pending_facts := pending_facts W @ map (\<lambda>f. f\<lparr>tx_id := txid, tx_count := n\<rparr>) fs,
        next_pending_tx_id := u64_saturating_add txid 1, next_pending_tx_count := u64_saturating_add n 1\<rparr>)"

definition merged_query_facts :: "write_transaction \<Rightarrow> minigraf \<Rightarrow> fact list result" where
  "merged_query_facts W D =
     and_then (get_all_facts (shared_storage D)) (\<lambda>cs. Ok (cs @ map resolve_valid_from (pending_facts W)))"

definition pending_read_now_floor :: "write_transaction \<Rightarrow> i64 option" where
  "pending_read_now_floor W = (case map (\<lambda>f. I64 (tx_id f)) (pending_facts W) of [] \<Rightarrow> None | t # ts \<Rightarrow> Some (fold max ts t))"

definition execute_read_command :: "db_env \<Rightarrow> datalog_query \<Rightarrow> write_transaction \<Rightarrow> minigraf \<Rightarrow> query_result result" where
  "execute_read_command E q W D =
     and_then (if pending_facts W = [] then Ok (db_executor D)
       else and_then (merged_query_facts W D) (\<lambda>fs. Ok (executor_new_from_facts fs (pending_read_now_floor W) (db_rules D))))
     (\<lambda>ex. fst (execute (db_eval E D) (de_now E) (de_clock E) (QueryCmd q) (limited D ex)))"

definition execute_rule_command :: "db_env \<Rightarrow> rule \<Rightarrow> minigraf \<Rightarrow> query_result result \<times> minigraf" where
  "execute_rule_command E r D =
     (case execute (db_eval E D) (de_now E) (de_clock E) (RuleCmd r) (limited D (db_executor D)) of
        (res, ex) \<Rightarrow> (res, D\<lparr>db_rules := ex_rules ex\<rparr>))"

definition tx_execute :: "db_env \<Rightarrow> nat list \<Rightarrow> write_transaction \<Rightarrow> minigraf \<Rightarrow> query_result result \<times> write_transaction \<times> minigraf" where
  "tx_execute E input W D = (case parse_datalog_command (de_parse E) input of
      Inl e \<Rightarrow> (Err e, W, D)
    | Inr cmd \<Rightarrow> (case cmd of
        TransactCmd tx \<Rightarrow> (case materialize_transaction (uuids (de_eval E)) tx of
            Inl e \<Rightarrow> (Err e, W, D) | Inr fs \<Rightarrow> (Ok OkResult, stage_pending_facts (de_now E 0) fs W, D))
      | RetractCmd tx \<Rightarrow> (case materialize_retraction (uuids (de_eval E)) tx of
            Inl e \<Rightarrow> (Err e, W, D) | Inr fs \<Rightarrow> (Ok OkResult, stage_pending_facts (de_now E 0) fs W, D))
      | QueryCmd q \<Rightarrow> (and_then (reject_unbound_slots q) (\<lambda>_. execute_read_command E q W D), W, D)
      | RuleCmd r \<Rightarrow> (case execute_rule_command E r D of (res, D') \<Rightarrow> (res, W, D'))))"

definition rollback :: "write_transaction \<Rightarrow> minigraf \<Rightarrow> minigraf" where
  "rollback W D = D\<lparr>write_tx_active := False\<rparr>"

definition commit :: "crates \<Rightarrow> io_faults \<Rightarrow> u64 \<Rightarrow> write_transaction \<Rightarrow> (minigraf, unit) run" where
  "commit K F now W D =
     map_option (\<lambda>(r, D'). (r, D'\<lparr>write_tx_active := False\<rparr>))
       (if pending_facts W = [] then Some (Ok (), D)
        else and_run (commit_facts K F now (pending_facts W) D) (\<lambda>_ D'. Some (Ok (), D')))"

section \<open>Queries prepared and functions registered\<close>

definition prepare :: "db_env \<Rightarrow> nat list \<Rightarrow> minigraf \<Rightarrow> prepared_query result" where
  "prepare E input D =
     (if write_tx_active D then Err (Internal 1)
      else and_then (parse_datalog_command (de_parse E) input) (\<lambda>cmd. case cmd of
          QueryCmd q \<Rightarrow> prepare_query q (opt_max_derived_facts (db_options D), opt_max_results (db_options D))
        | TransactCmd _ \<Rightarrow> Err (Api 5) | RetractCmd _ \<Rightarrow> Err (Api 6) | RuleCmd _ \<Rightarrow> Err (Api 7)))"

definition register_aggregate :: "string \<Rightarrow> (value_t list \<Rightarrow> nat \<Rightarrow> value_t) \<Rightarrow> minigraf \<Rightarrow> unit result \<times> minigraf" where
  "register_aggregate name f D = (case register_aggregate_desc name \<lparr>agg_impl = Udf f, agg_is_builtin = False\<rparr> (db_functions D) of
     (r, reg) \<Rightarrow> (r, D\<lparr>db_functions := reg\<rparr>))"

definition register_predicate :: "string \<Rightarrow> (value_t \<Rightarrow> bool) \<Rightarrow> minigraf \<Rightarrow> unit result \<times> minigraf" where
  "register_predicate name f D = (case register_predicate_desc name \<lparr>pred_f = f, pred_is_builtin = False\<rparr> (db_functions D) of
     (r, reg) \<Rightarrow> (r, D\<lparr>db_functions := reg\<rparr>))"

definition db_current_tx_count :: "minigraf \<Rightarrow> u64" where
  "db_current_tx_count D = current_tx_count (shared_storage D)"

end
