(* ===== verification/Log_Replay.thy ===== *)
theory Log_Replay
  imports Database
begin

text \<open>
  Replaying the log into the store: loading facts with new keys appends them all, and the log file
  after complete entries and a failed append reads back as those entries, with or without the
  one in doubt.
\<close>

section \<open>Loading into a store\<close>

lemma distinct_pending_keys: "distinct (map eavt_key_of fs) \<Longrightarrow> distinct (map pending_key fs)"
proof -
  have "eavt_key_of f = eavt_key_of g" if "pending_key f = pending_key g" for f g
    using that by (auto simp: pending_key_def eavt_key_of_def)
  then show "distinct (map eavt_key_of fs) \<Longrightarrow> distinct (map pending_key fs)"
    unfolding distinct_map inj_on_def by blast
qed

lemma new_facts_all: "distinct (map pending_key xs) \<Longrightarrow> seen \<inter> pending_key ` set xs = {} \<Longrightarrow> new_facts seen xs = xs"
  by (induction xs arbitrary: seen) auto

definition same_readers :: "fact_storage \<Rightarrow> fact_storage \<Rightarrow> bool" where
  "same_readers s s' \<longleftrightarrow> committed (data s') = committed (data s) \<and> committed_index_reader (data s') = committed_index_reader (data s)"

lemma load_facts_fresh:
  assumes "store_inv (data s)" "facts (data s) = gs" "distinct (map eavt_key_of (gs @ xs))" "length gs + length xs \<le> 2 ^ 32"
  obtains s' where "load_facts xs s = (Ok (length xs), s')" "facts (data s') = gs @ xs" "store_inv (data s')"
    "tx_counter s' = tx_counter s" "same_readers s s'"
proof -
  have "new_facts (pending_keys (data s)) xs = xs"
    using assms(1,2) distinct_pending_keys [OF assms(3)] by (intro new_facts_all) (auto simp: store_inv_def)
  moreover obtain d where d: "append_facts xs (data s) = Ok d"
    using assms(2,4) by (auto simp: append_facts_def pending_refs_eq Let_def)
  ultimately have "load_facts xs s = (Ok (length xs), s\<lparr>data := d\<rparr>)" by (simp add: load_facts_eq)
  with that append_facts_Inr [OF d] append_facts_inv [OF assms(1) d] assms(2) show thesis
    by (simp add: same_readers_def)
qed

text \<open>What replay makes of a log, given the last checkpoint.\<close>

definition newer :: "u64 \<Rightarrow> wal_entry list \<Rightarrow> fact list" where
  "newer cp es = concat (map we_facts (filter (\<lambda>e. cp < we_tx_count e) es))"

lemma newer_simps [simp]:
  "newer cp [] = []" "newer cp (e # es) = (if cp < we_tx_count e then we_facts e else []) @ newer cp es"
  "newer cp (es @ es') = newer cp es @ newer cp es'"
  by (auto simp: newer_def)

lemma newer_stale: "\<forall>e \<in> set es. we_tx_count e \<le> cp \<Longrightarrow> newer cp es = []"
  by (induction es) auto

lemma replay_entries_fresh:
  assumes "store_inv (data s)" "facts (data s) = gs" "distinct (map eavt_key_of (gs @ newer cp es))" "length gs + length (newer cp es) \<le> 2 ^ 32"
  shows "\<exists>s'. replay_entries cp es s = (Ok (length (filter (\<lambda>e. cp < we_tx_count e) es)), s') \<and> facts (data s') = gs @ newer cp es \<and>
    store_inv (data s') \<and> tx_counter s' = tx_counter s \<and> same_readers s s'"
  using assms
proof (induction es arbitrary: s gs)
  case Nil
  then show ?case by (simp add: same_readers_def)
next
  case (Cons e es)
  show ?case
  proof (cases "cp < we_tx_count e")
    case False
    with Cons.IH [OF Cons.prems(1,2)] Cons.prems(3,4) show ?thesis by (auto simp: not_less)
  next
    case True
    with Cons.prems(3,4) have "distinct (map eavt_key_of (gs @ we_facts e))" "length gs + length (we_facts e) \<le> 2 ^ 32" by auto
    from load_facts_fresh [OF Cons.prems(1,2) this] obtain s1 where s1: "load_facts (we_facts e) s = (Ok (length (we_facts e)), s1)"
      "facts (data s1) = gs @ we_facts e" "store_inv (data s1)" "tx_counter s1 = tx_counter s" "same_readers s s1" .
    have "distinct (map eavt_key_of ((gs @ we_facts e) @ newer cp es))" "length (gs @ we_facts e) + length (newer cp es) \<le> 2 ^ 32"
      using Cons.prems(3,4) True by simp_all
    from Cons.IH [OF s1(3,2) this] s1 True show ?thesis by (auto simp: same_readers_def)
  qed
qed

lemma consistent_storage:
  assumes "Save_Load.consistent K B holds fs refs P" "same_readers (storage P) s"
  shows "Save_Load.consistent K B holds fs refs (P\<lparr>storage := s\<rparr>)"
  using assms
  by (auto simp: Save_Load.consistent_def same_readers_def all_facts_def committed_ok_def and_then_eq_Inr split: option.splits)

lemma consistent_dirty: "Save_Load.consistent K B holds fs refs (P\<lparr>dirty := x\<rparr>) = Save_Load.consistent K B holds fs refs P"
  by (simp add: Save_Load.consistent_def)

section \<open>The log file\<close>

text \<open>The entries \<open>es\<close>, and after them what a failed append of \<open>x\<close> left behind.\<close>

definition logged :: "crates \<Rightarrow> wal_entry list \<Rightarrow> wal_entry option \<Rightarrow> bytes \<Rightarrow> bool" where
  "logged K es torn f \<longleftrightarrow> (\<exists>b. loggable (crc32 K) (fact_enc K) es b \<and> (case torn of
      None \<Rightarrow> f = wal_header @ b
    | Some x \<Rightarrow> \<exists>e n. loggable (crc32 K) (fact_enc K) [x] e \<and> f = wal_header @ b @ take n e))"

lemma logged_read:
  assumes "crates_ok K" "logged K es torn f"
  shows "read_entries (crc32 K) (fact_dec K) f = es \<or> (\<exists>x. torn = Some x \<and> read_entries (crc32 K) (fact_dec K) f = es @ [x])"
proof -
  have c: "codec_ok (fact_enc K) (fact_dec K)" using assms(1) by (simp add: crates_ok_def)
  from assms(2) obtain b where b: "loggable (crc32 K) (fact_enc K) es b" "case torn of None \<Rightarrow> f = wal_header @ b
    | Some x \<Rightarrow> \<exists>e n. loggable (crc32 K) (fact_enc K) [x] e \<and> f = wal_header @ b @ take n e" by (auto simp: logged_def)
  show ?thesis
  proof (cases torn)
    case None
    with b scan_clean [OF c b(1)] show ?thesis by (simp add: read_entries_def)
  next
    case (Some x)
    with b(2) obtain e n where e: "loggable (crc32 K) (fact_enc K) [x] e" "f = wal_header @ b @ take n e" by auto
    show ?thesis
    proof (cases "n < length e")
      case True
      with scan_torn [OF c b(1) e(1)] e(2) show ?thesis by (simp add: read_entries_def)
    next
      case False
      with scan_clean [OF c loggable_snoc [OF b(1) e(1)]] e(2) Some show ?thesis by (simp add: read_entries_def)
    qed
  qed
qed

lemma logged_reopen:
  assumes "crates_ok K" "logged K es torn f"
  obtains w where "open_or_create (crc32 K) (fact_dec K) (Some f) = Ok w" "\<not> failed w"
    "logged K (read_entries (crc32 K) (fact_dec K) f) None (wal_file w)"
proof -
  have c: "codec_ok (fact_enc K) (fact_dec K)" using assms(1) by (simp add: crates_ok_def)
  obtain n where "wal_inv (crc32 K) (fact_enc K) es (map_option (\<lambda>x. (x, n)) torn) \<lparr>wal_file = f, failed = torn \<noteq> None\<rparr>"
    using assms(2) unfolding logged_def wal_inv_def by (cases torn) (simp, auto)
  from reopen_log [OF c this] that show thesis by (fastforce simp: logged_def)
qed

lemma logged_new: "open_or_create (crc32 K) (fact_dec K) None = Ok \<lparr>wal_file = wal_header, failed = False\<rparr>" "logged K [] None wal_header"
  by (simp_all add: write_wal_header_def file_write_def logged_def loggable_simps)

lemma logged_reader: "logged K es torn f \<Longrightarrow> wal_reader_open f = Ok f"
proof -
  have h: "length wal_header = WAL_HEADER_SIZE" "take 4 wal_header = WAL_MAGIC" "u32_from_le (take 4 (drop 4 wal_header)) = WAL_VERSION"
    by (simp_all add: wal_header_def WAL_MAGIC_def as_bytes_def WAL_HEADER_SIZE_def)
  assume "logged K es torn f"
  then obtain tail where "f = wal_header @ tail" by (auto simp: logged_def split: option.splits)
  with h show ?thesis
    by (simp add: wal_reader_open_def validate_wal_header_def file_read_exact_def slice_get_def check_wal_header_length_def)
qed

lemma collect_map_total: "\<forall>x \<in> set xs. \<exists>y. f x = Ok y \<Longrightarrow> \<exists>ys. collect_map f xs = Ok ys"
  by (induction xs) auto

text \<open>An append to a sound log, and one that fails part-way.\<close>

lemma append_logged:
  assumes "logged K es None (wal_file w)" "\<not> failed w" "\<forall>f \<in> set fs. fits_fact K f" "length fs < 2 ^ 64"
  shows "\<exists>w'. append_entry (crc32 K) (fact_enc K) None txc fs w = (Ok (), w') \<and> \<not> failed w' \<and>
      logged K (es @ [\<lparr>we_tx_count = txc, we_facts = fs\<rparr>]) None (wal_file w')"
    "\<exists>w'. append_entry (crc32 K) (fact_enc K) (Some n) txc fs w = (Err Io, w') \<and> failed w' \<and>
      logged K es (Some \<lparr>we_tx_count = txc, we_facts = fs\<rparr>) (wal_file w')"
proof -
  let ?x = "\<lparr>we_tx_count = txc, we_facts = fs\<rparr>"
  have "\<exists>y. serialize_fact (fact_enc K) f = Ok y" if "f \<in> set fs" for f
    using assms(3) that by (fastforce simp: fits_fact_def serialize_fact_def MAX_FACT_BYTES_def PAGE_SIZE_def PACKED_HEADER_SIZE_def)
  then obtain bs where "collect_map (serialize_fact (fact_enc K)) fs = Ok bs" by (meson collect_map_total)
  then obtain e where e: "serialize_entry (crc32 K) (fact_enc K) txc fs = Ok e" by (simp add: serialize_entry_def Let_def)
  then have l: "loggable (crc32 K) (fact_enc K) [?x] e" using assms(4) by (simp add: loggable_simps)
  from assms(1) obtain b where b: "loggable (crc32 K) (fact_enc K) es b" "wal_file w = wal_header @ b" by (auto simp: logged_def)
  from loggable_snoc [OF b(1) l] have "logged K (es @ [?x]) None (wal_file w @ e)" using b(2) by (auto simp: logged_def)
  with e assms(2) show "\<exists>w'. append_entry (crc32 K) (fact_enc K) None txc fs w = (Ok (), w') \<and> \<not> failed w' \<and> logged K (es @ [?x]) None (wal_file w')"
    by (simp add: append_entry_def)
  have "logged K es (Some ?x) (wal_file w @ take n e)" using b l by (auto simp: logged_def)
  with e assms(2) show "\<exists>w'. append_entry (crc32 K) (fact_enc K) (Some n) txc fs w = (Err Io, w') \<and> failed w' \<and> logged K es (Some ?x) (wal_file w')"
    by (simp add: append_entry_def)
qed

end
