(* ===== verification/Database_Invariant.thy ===== *)
theory Database_Invariant
  imports Log_Replay
begin

text \<open>
  The invariant of a database in a file. The abstract database is its log of facts together with the
  batch in doubt after a failed append; \<open>db_ok\<close> relates it to the handle, the file and the log file.
  Opening establishes it; checkpoints keep it; losing the process and opening the files again gives
  the same log, with the batch in doubt or without it.
\<close>

section \<open>The invariant\<close>

definition good_facts :: "crates \<Rightarrow> fact list \<Rightarrow> bool" where
  "good_facts K fs \<longleftrightarrow> (\<forall>f \<in> set fs. fits_fact K f) \<and> distinct (map eavt_key_of fs)"

definition numbered :: "u64 \<Rightarrow> wal_entry list \<Rightarrow> bool" where
  "numbered n es \<longleftrightarrow> (\<forall>e \<in> set es. \<forall>f \<in> set (we_facts e). tx_count f = we_tx_count e \<and> we_tx_count e \<le> n)"

lemma numbered_simps [simp]:
  "numbered n []" "numbered n (e # es) \<longleftrightarrow> (\<forall>f \<in> set (we_facts e). tx_count f = we_tx_count e \<and> we_tx_count e \<le> n) \<and> numbered n es"
  "numbered n (es @ es') \<longleftrightarrow> numbered n es \<and> numbered n es'"
  by (auto simp: numbered_def)

lemma numbered_mono: "numbered n es \<Longrightarrow> n \<le> m \<Longrightarrow> numbered m es"
  by (fastforce simp: numbered_def)

lemma numbered_stale: "numbered n es \<Longrightarrow> newer n es = []"
proof (induction es)
  case (Cons e es)
  then show ?case by (cases "we_facts e") auto
qed simp

abbreviation doubtful :: "fact list option \<Rightarrow> fact list" where
  "doubtful doubt \<equiv> (case doubt of None \<Rightarrow> [] | Some xs \<Rightarrow> xs)"

text \<open>The file holds \<open>fs\<close>, the store shows \<open>gs\<close> after them; counts are below the counters.\<close>

definition storage_ok :: "crates \<Rightarrow> fact list \<Rightarrow> fact list \<Rightarrow> file_backend persistent \<Rightarrow> bool" where
  "storage_ok K fs gs P \<longleftrightarrow> (\<exists>refs. Save_Load.consistent K (file_store K) (file_holds K) fs refs P) \<and>
     facts (data (storage P)) = gs \<and> store_inv (data (storage P)) \<and>
     last_checkpointed P = last_checkpointed_tx_count (hdr_of (file_store K) (fst (pf_io P))) \<and>
     last_checkpointed P \<le> tx_counter (storage P) \<and> (\<forall>f \<in> set fs. tx_count f \<le> last_checkpointed P) \<and>
     (\<forall>f \<in> set gs. tx_count f \<le> tx_counter (storage P))"

text \<open>The log file holds \<open>gs\<close> since the last checkpoint; a failed append leaves its batch in doubt.\<close>

definition log_ok :: "crates \<Rightarrow> u64 \<Rightarrow> u64 \<Rightarrow> fact list \<Rightarrow> wal_writer option \<Rightarrow> bytes option \<Rightarrow> fact list option \<Rightarrow> bool" where
  "log_ok K cp n gs writer disk doubt \<longleftrightarrow> (case writer of
      None \<Rightarrow> disk = None \<and> gs = [] \<and> doubt = None
    | Some w \<Rightarrow> disk = Some (wal_file w) \<and> (\<exists>es torn. logged K es torn (wal_file w) \<and> (failed w \<longleftrightarrow> torn \<noteq> None) \<and>
        newer cp es = gs \<and> doubt = map_option we_facts torn \<and> numbered n es \<and>
        (\<forall>x. torn = Some x \<longrightarrow> cp < we_tx_count x \<and> numbered n [x])))"

definition db_ok :: "crates \<Rightarrow> fact list \<Rightarrow> fact list option \<Rightarrow> minigraf \<Rightarrow> bool" where
  "db_ok K log doubt D \<longleftrightarrow> (\<exists>c fs gs. write_ctx D = File c \<and> log = fs @ gs \<and> storage_ok K fs gs (ctx_pfs c) \<and>
     log_ok K (last_checkpointed (ctx_pfs c)) (tx_counter (storage (ctx_pfs c))) gs (ctx_wal c) (wal_disk D) doubt \<and>
     good_facts K (log @ doubtful doubt) \<and> length gs + length (doubtful doubt) \<le> 2 ^ 32 \<and>
     (wal_entry_count c = 0 \<and> \<not> dirty (ctx_pfs c) \<longrightarrow> gs = []))"

lemma db_okI:
  assumes "write_ctx D = File c" "storage_ok K fs gs (ctx_pfs c)"
    "log_ok K (last_checkpointed (ctx_pfs c)) (tx_counter (storage (ctx_pfs c))) gs (ctx_wal c) (wal_disk D) doubt"
    "good_facts K (fs @ gs @ doubtful doubt)" "length gs + length (doubtful doubt) \<le> 2 ^ 32"
    "wal_entry_count c = 0 \<Longrightarrow> \<not> dirty (ctx_pfs c) \<Longrightarrow> gs = []"
  shows "db_ok K (fs @ gs) doubt D"
  unfolding db_ok_def using assms by (intro exI [of _ c] exI [of _ fs] exI [of _ gs]) simp

text \<open>Room for \<open>n\<close> more facts: in the store, in the file at the next checkpoint, and in the counter.\<close>

definition save_room :: "nat \<Rightarrow> nat \<Rightarrow> minigraf \<Rightarrow> bool" where
  "save_room k n D \<longleftrightarrow> (case write_ctx D of Memory \<Rightarrow> False
     | File c \<Rightarrow> room_for (committed_fact_pages (ctx_pfs c)) (length (facts (data (shared_storage D))) + n) (k + n))"

definition db_room :: "nat \<Rightarrow> nat \<Rightarrow> minigraf \<Rightarrow> bool" where
  "db_room k n D \<longleftrightarrow> save_room k n D \<and> length (facts (data (shared_storage D))) + n \<le> 2 ^ 32 \<and>
     tx_counter (shared_storage D) \<noteq> u64_MAX"

lemma db_ok_shows: "db_ok K log doubt D \<Longrightarrow> get_all_facts (shared_storage D) = Ok log"
  by (auto simp: db_ok_def storage_ok_def Save_Load.consistent_def shared_storage_def get_all_facts_def)

lemma good_facts_append: "good_facts K (fs @ gs) \<Longrightarrow> good_facts K fs"
  by (simp add: good_facts_def)

section \<open>Opening\<close>

lemma consistent_parts:
  assumes "Save_Load.consistent K (file_store K) (file_holds K) fs refs P"
  obtains h where "file_holds K h (fst (pf_io P))" "stored K (file_store K) (committed_fact_pages P) fs refs (fst (pf_io P))"
  using assms by (auto simp: Save_Load.consistent_def sound_io_def)

lemma fold_max_ge: "m \<le> fold max xs m \<and> (\<forall>x \<in> set xs. x \<le> fold max xs m)" for m :: "'a::linorder"
proof (induction xs arbitrary: m)
  case (Cons x xs)
  from Cons [of "max x m"] show ?case by (auto intro: order_trans)
qed simp

lemma open_storage_ok:
  assumes b: "file_holds K h b" "stored K (file_store K) n fs refs b" and keys: "distinct (map eavt_key_of fs)"
    and tx: "\<forall>f \<in> set fs. tx_count f \<le> last_checkpointed_tx_count (hdr_of (file_store K) b)"
  obtains P where "open_contents (contents b) = Ok (b\<lparr>backend_is_new := False\<rparr>)"
    "persistent_new K (file_store K) (b\<lparr>backend_is_new := False\<rparr>) cap = Some (Ok P)" "storage_ok K fs [] P"
    "last_checkpointed P = last_checkpointed_tx_count (hdr_of (file_store K) b)"
proof -
  let ?b = "b\<lparr>backend_is_new := False\<rparr>"
  have "stored K (file_store K) n fs refs ?b" "file_holds K h ?b" "\<not> is_new_op (file_store K) ?b"
    using b by (simp_all add: stored_reopened)
  from stored_file.load_correct [OF this keys, of cap] obtain P where
    "persistent_new K (file_store K) ?b cap = Some (Ok P)" "Save_Load.consistent K (file_store K) (file_holds K) fs refs P"
    "facts (data (storage P)) = []" "tx_counter (storage P) = last_checkpointed_tx_count (hdr_of (file_store K) b)"
    "last_checkpointed P = last_checkpointed_tx_count (hdr_of (file_store K) b)" "pf_io P = (?b, page_cache_new cap)" "store_inv (data (storage P))" by auto
  with that file_holds_reopen [OF b(1)] tx show thesis by (auto simp: storage_ok_def)
qed

lemma open_ok:
  assumes K: "crates_ok K" and b: "file_holds K h b" "stored K (file_store K) n fs refs b" and good: "good_facts K (fs @ gs)"
    and cp: "cp = last_checkpointed_tx_count (hdr_of (file_store K) b)" and tx: "\<forall>f \<in> set fs. tx_count f \<le> cp" and len: "length gs \<le> 2 ^ 32"
    and wal: "wal = None \<and> gs = [] \<or> (\<exists>f es torn m. wal = Some f \<and> logged K es torn f \<and>
      newer cp (read_entries (crc32 K) (fact_dec K) f) = gs \<and> numbered m (read_entries (crc32 K) (fact_dec K) f))"
  shows "\<exists>D. open_with_options K opts (contents b) wal = Some (Ok D) \<and> db_ok K (fs @ gs) None D"
proof -
  have keys: "distinct (map eavt_key_of fs)" using good by (simp add: good_facts_def)
  from open_storage_ok [OF b keys tx [unfolded cp], of "page_cache_size opts"] obtain P where
    P: "open_contents (contents b) = Ok (b\<lparr>backend_is_new := False\<rparr>)"
    "persistent_new K (file_store K) (b\<lparr>backend_is_new := False\<rparr>) (page_cache_size opts) = Some (Ok P)" "storage_ok K fs [] P" "last_checkpointed P = cp"
    unfolding cp by metis
  show ?thesis
  proof (cases wal)
    case None
    with wal have "gs = []" by simp
    then have "db_ok K (fs @ gs) None \<lparr>own_storage = fact_storage_new, db_rules = [], db_functions = with_builtins,
        write_ctx = File \<lparr>ctx_pfs = P, ctx_wal = None, wal_entry_count = 0\<rparr>, db_options = opts, write_tx_active = False, wal_disk = None\<rparr>"
      using P(3) good by (rule_tac db_okI, simp) (simp_all add: log_ok_def)
    with None P show ?thesis by (simp add: open_with_options_def replay_wal_def)
  next
    case (Some f)
    let ?es = "read_entries (crc32 K) (fact_dec K) f"
    from Some wal obtain es torn m where f: "logged K es torn f" "newer cp ?es = gs" "numbered m ?es" by auto
    from logged_reopen [OF K f(1)] obtain w where w: "open_or_create (crc32 K) (fact_dec K) (Some f) = Ok w" "\<not> failed w" "logged K ?es None (wal_file w)" .
    have "store_inv (data (storage P))" "facts (data (storage P)) = []" using P(3) by (simp_all add: storage_ok_def)
    from replay_entries_fresh [OF this, of cp ?es] obtain s where s: "replay_entries cp ?es (storage P) = (Ok (length (filter (\<lambda>e. cp < we_tx_count e) ?es)), s)"
      "facts (data s) = gs" "store_inv (data s)" "tx_counter s = tx_counter (storage P)" "same_readers (storage P) s"
      using good len f(2) by (auto simp: good_facts_def)
    let ?s = "restore_tx_counter s"
    have cnt: "tx_counter (storage P) \<le> tx_counter ?s" "\<forall>f \<in> set gs. tx_count f \<le> tx_counter ?s"
      using fold_max_ge [of 0 "map tx_count gs"] s(2,4) by (auto simp: restore_tx_counter_def le_max_iff_disj)
    obtain refs' where "Save_Load.consistent K (file_store K) (file_holds K) fs refs' P" using P(3) by (auto simp: storage_ok_def)
    moreover have "same_readers (storage P) ?s" "data ?s = data s" using s(5) by (simp_all add: restore_tx_counter_def same_readers_def)
    ultimately have "Save_Load.consistent K (file_store K) (file_holds K) fs refs' (P\<lparr>storage := ?s\<rparr>)" by (simp add: consistent_storage)
    then have st: "storage_ok K fs gs (P\<lparr>storage := ?s\<rparr>)"
      using P(3) s(2,3) cnt \<open>data ?s = data s\<close> by (auto simp: storage_ok_def intro: order_trans)
    have "numbered (tx_counter ?s) ?es"
      unfolding numbered_def
    proof (intro ballI conjI)
      fix e g assume e: "e \<in> set ?es" "g \<in> set (we_facts e)"
      then show g: "tx_count g = we_tx_count e" using f(3) by (auto simp: numbered_def)
      show "we_tx_count e \<le> tx_counter ?s"
      proof (cases "cp < we_tx_count e")
        case True
        with e f(2) have "g \<in> set gs" by (auto simp: newer_def)
        with cnt(2) g show ?thesis by auto
      next
        case False
        with P(3,4) cnt(1) show ?thesis by (auto simp: storage_ok_def)
      qed
    qed
    with w f(2) P(4) have "log_ok K cp (tx_counter ?s) gs (Some w) (Some (wal_file w)) None" by (auto simp: log_ok_def)
    moreover have "length (filter (\<lambda>e. cp < we_tx_count e) ?es) = 0 \<Longrightarrow> gs = []" using f(2) by (simp add: newer_def)
    ultimately have "db_ok K (fs @ gs) None \<lparr>own_storage = fact_storage_new, db_rules = [], db_functions = with_builtins,
        write_ctx = File \<lparr>ctx_pfs = P\<lparr>storage := ?s\<rparr>, ctx_wal = Some w, wal_entry_count = length (filter (\<lambda>e. cp < we_tx_count e) ?es)\<rparr>,
        db_options = opts, write_tx_active = False, wal_disk = Some (wal_file w)\<rparr>"
      using P(4) st good len by (rule_tac db_okI, simp) simp_all
    then show ?thesis
      using P s(1) w(1) logged_reader [OF f(1)] Some
      by (simp add: open_with_options_def replay_wal_def del: open_or_create.simps)
  qed
qed

section \<open>Checkpoints\<close>

lemma saved_storage_ok:
  assumes K: "crates_ok K" and P: "storage_ok K fs gs P" and good: "good_facts K (fs @ gs)"
    and room: "room_for (committed_fact_pages P) (length gs) (length fs + length gs)"
  obtains P' where "save K (file_store K) (mark_dirty P) = Some (Ok (), P')" "storage_ok K (fs @ gs) [] P'" "\<not> dirty P'"
    "last_checkpointed P' = tx_counter (storage P)" "tx_counter (storage P') = tx_counter (storage P)"
proof -
  from P obtain refs where "Save_Load.consistent K (file_store K) (file_holds K) fs refs (mark_dirty P)"
    by (auto simp: storage_ok_def mark_dirty_def consistent_dirty)
  moreover have "dirty (mark_dirty P)" "facts (data (storage (mark_dirty P))) = gs" "room_for (committed_fact_pages (mark_dirty P)) (length gs) (length fs + length gs)"
    using P room by (simp_all add: mark_dirty_def storage_ok_def)
  ultimately obtain P' rs where s: "save K (file_store K) (mark_dirty P) = Some (Ok (), P')"
    "Save_Load.consistent K (file_store K) (file_holds K) (fs @ gs) (refs @ rs) P'" "facts (data (storage P')) = []" "\<not> dirty P'"
    "tx_counter (storage P') = tx_counter (storage P)" "last_checkpointed_tx_count (hdr_of (file_store K) (fst (pf_io P'))) = tx_counter (storage P)"
    "last_checkpointed P' = tx_counter (storage P)" "store_inv (data (storage P'))"
    using stored_file.save_correct [OF K, of fs refs "mark_dirty P" gs] good by (auto simp: good_facts_def mark_dirty_def)
  moreover have "\<forall>f \<in> set (fs @ gs). tx_count f \<le> tx_counter (storage P)"
    using P by (auto simp: storage_ok_def intro: order_trans)
  ultimately have "storage_ok K (fs @ gs) [] P'" by (auto simp: storage_ok_def)
  with that s show thesis by blast
qed

lemma db_ok_file: "db_ok K log doubt D \<Longrightarrow> \<exists>c. write_ctx D = File c"
  by (auto simp: db_ok_def)

lemma db_ok_parts:
  assumes "db_ok K log doubt D" "write_ctx D = File c"
  obtains fs gs where "log = fs @ gs" "storage_ok K fs gs (ctx_pfs c)" "facts (data (storage (ctx_pfs c))) = gs"
    "log_ok K (last_checkpointed (ctx_pfs c)) (tx_counter (storage (ctx_pfs c))) gs (ctx_wal c) (wal_disk D) doubt"
    "good_facts K (log @ doubtful doubt)" "good_facts K (fs @ gs)" "length gs + length (doubtful doubt) \<le> 2 ^ 32"
    "wal_entry_count c = 0 \<and> \<not> dirty (ctx_pfs c) \<longrightarrow> gs = []"
proof -
  from assms obtain fs gs where c: "log = fs @ gs" "storage_ok K fs gs (ctx_pfs c)"
    "log_ok K (last_checkpointed (ctx_pfs c)) (tx_counter (storage (ctx_pfs c))) gs (ctx_wal c) (wal_disk D) doubt"
    "good_facts K (log @ doubtful doubt)" "length gs + length (doubtful doubt) \<le> 2 ^ 32"
    "wal_entry_count c = 0 \<and> \<not> dirty (ctx_pfs c) \<longrightarrow> gs = []"
    unfolding db_ok_def by (metis write_context.inject)
  have "facts (data (storage (ctx_pfs c))) = gs" using c(2) by (simp add: storage_ok_def)
  moreover have "good_facts K (fs @ gs)" using good_facts_append [OF c(4)] c(1) by simp
  ultimately show thesis using that c by blast
qed

lemma no_wal_disk:
  "wal_disk D = None \<Longrightarrow> D\<lparr>write_ctx := x, wal_disk := None\<rparr> = D\<lparr>write_ctx := x\<rparr>"
  "D\<lparr>wal_disk := y, write_ctx := x\<rparr> = D\<lparr>write_ctx := x, wal_disk := y\<rparr>"
  by (cases D, simp)+

lemma checkpoint_ok:
  assumes K: "crates_ok K" and D: "db_ok K log doubt D" and F: "delete_outcome F = Deleted" and room: "save_room (length log) 0 D"
  shows "\<exists>D'. do_checkpoint K F D = Some (Ok (), D') \<and> db_ok K log None D'"
proof -
  obtain c where f: "write_ctx D = File c" using db_ok_file [OF D] by blast
  obtain fs gs where c: "log = fs @ gs" "storage_ok K fs gs (ctx_pfs c)" "facts (data (storage (ctx_pfs c))) = gs"
    "log_ok K (last_checkpointed (ctx_pfs c)) (tx_counter (storage (ctx_pfs c))) gs (ctx_wal c) (wal_disk D) doubt"
    "good_facts K (log @ doubtful doubt)" "good_facts K (fs @ gs)" "length gs + length (doubtful doubt) \<le> 2 ^ 32"
    "wal_entry_count c = 0 \<and> \<not> dirty (ctx_pfs c) \<longrightarrow> gs = []"
    using db_ok_parts [OF D f] .
  show ?thesis
  proof (cases "wal_entry_count c = 0 \<and> \<not> dirty (ctx_pfs c)")
    case True
    with c(8) have gs: "gs = []" by simp
    let ?D = "D\<lparr>write_ctx := File (c\<lparr>ctx_wal := None\<rparr>), wal_disk := None\<rparr>"
    have "db_ok K (fs @ []) None ?D"
      by (rule db_okI, simp) (use c(2,6) gs in \<open>simp_all add: log_ok_def\<close>)
    moreover have "doubt = None" if "wal_disk D = None" using c(4) that by (auto simp: log_ok_def split: option.splits)
    ultimately show ?thesis
      using True f c(1) gs F D by (cases "wal_disk D") (auto simp: do_checkpoint_def delete_wal_file_def)
  next
    case False
    have "room_for (committed_fact_pages (ctx_pfs c)) (length gs) (length fs + length gs)"
      using room f c(1,3) by (simp add: save_room_def shared_storage_def)
    from saved_storage_ok [OF K c(2,6) this] obtain P' where
      s: "save K (file_store K) (mark_dirty (ctx_pfs c)) = Some (Ok (), P')" "storage_ok K (fs @ gs) [] P'" .
    let ?D = "D\<lparr>write_ctx := File (c\<lparr>ctx_pfs := P', ctx_wal := None, wal_entry_count := 0\<rparr>), wal_disk := None\<rparr>"
    have "db_ok K ((fs @ gs) @ []) None ?D"
      by (rule db_okI, simp) (use s(2) c(6) in \<open>simp_all add: log_ok_def\<close>)
    then show ?thesis
      using False s(1) f c(1) F by (cases "wal_disk D") (auto simp: do_checkpoint_def delete_wal_file_def no_wal_disk)
  qed
qed

section \<open>Losing the process\<close>

lemma log_read:
  assumes "crates_ok K" "log_ok K cp n gs writer (Some f) doubt"
  obtains es torn where "logged K es torn f" "numbered n (read_entries (crc32 K) (fact_dec K) f)"
    "newer cp (read_entries (crc32 K) (fact_dec K) f) = gs \<or> (\<exists>xs. doubt = Some xs \<and> newer cp (read_entries (crc32 K) (fact_dec K) f) = gs @ xs)"
proof -
  from assms(2) obtain es torn where l: "logged K es torn f" "newer cp es = gs" "doubt = map_option we_facts torn" "numbered n es"
    "\<forall>x. torn = Some x \<longrightarrow> cp < we_tx_count x \<and> numbered n [x]"
    by (auto simp: log_ok_def split: option.splits)
  with logged_read [OF assms(1) l(1)] that show thesis by auto
qed

lemma reopen_ok:
  assumes K: "crates_ok K" and D: "db_ok K log doubt D" and c: "write_ctx D = File c"
  shows "\<exists>D' log'. open_with_options K opts (contents (fst (pf_io (ctx_pfs c)))) (wal_disk D) = Some (Ok D') \<and> db_ok K log' None D' \<and>
    (log' = log \<or> (\<exists>xs. doubt = Some xs \<and> log' = log @ xs))"
proof -
  let ?P = "ctx_pfs c"
  obtain fs gs where d: "log = fs @ gs" "storage_ok K fs gs (ctx_pfs c)" "facts (data (storage (ctx_pfs c))) = gs"
    "log_ok K (last_checkpointed (ctx_pfs c)) (tx_counter (storage (ctx_pfs c))) gs (ctx_wal c) (wal_disk D) doubt"
    "good_facts K (log @ doubtful doubt)" "good_facts K (fs @ gs)" "length gs + length (doubtful doubt) \<le> 2 ^ 32"
    "wal_entry_count c = 0 \<and> \<not> dirty (ctx_pfs c) \<longrightarrow> gs = []"
    using db_ok_parts [OF D c] .
  from d(2) obtain refs where "Save_Load.consistent K (file_store K) (file_holds K) fs refs ?P" by (auto simp: storage_ok_def)
  then obtain h where b: "file_holds K h (fst (pf_io ?P))" "stored K (file_store K) (committed_fact_pages ?P) fs refs (fst (pf_io ?P))"
    by (rule consistent_parts)
  have cp: "last_checkpointed ?P = last_checkpointed_tx_count (hdr_of (file_store K) (fst (pf_io ?P)))" "\<forall>f \<in> set fs. tx_count f \<le> last_checkpointed ?P"
    using d(2) unfolding storage_ok_def by blast+
  note op = open_ok [OF K b _ cp]
  show ?thesis
  proof (cases "wal_disk D")
    case None
    with d(4) have "gs = []" by (auto simp: log_ok_def split: option.splits)
    with op [of "[]" None opts] d(6) have "\<exists>D'. open_with_options K opts (contents (fst (pf_io ?P))) None = Some (Ok D') \<and> db_ok K log None D'"
      using d(1) by simp
    with None show ?thesis by auto
  next
    case (Some f)
    from log_read [OF K d(4) [unfolded Some]] obtain es torn where l: "logged K es torn f" "numbered (tx_counter (storage ?P)) (read_entries (crc32 K) (fact_dec K) f)"
      "newer (last_checkpointed ?P) (read_entries (crc32 K) (fact_dec K) f) = gs \<or>
        (\<exists>xs. doubt = Some xs \<and> newer (last_checkpointed ?P) (read_entries (crc32 K) (fact_dec K) f) = gs @ xs)" .
    let ?gs = "newer (last_checkpointed ?P) (read_entries (crc32 K) (fact_dec K) f)"
    have "good_facts K (fs @ ?gs)" "length ?gs \<le> 2 ^ 32" using l(3) d(1,5,7,6) by auto
    from op [OF this(1,2), of "Some f"] l d(1) Some show ?thesis by fastforce
  qed
qed

text \<open>The process is lost after a checkpoint has committed and before it has deleted the log.\<close>

lemma reopen_checkpointed:
  assumes K: "crates_ok K" and D: "db_ok K log doubt D" and c: "write_ctx D = File c" and room: "save_room (length log) 0 D"
  shows "\<exists>P' D'. save K (file_store K) (mark_dirty (ctx_pfs c)) = Some (Ok (), P') \<and>
    open_with_options K opts (contents (fst (pf_io P'))) (wal_disk D) = Some (Ok D') \<and> db_ok K log None D'"
proof -
  let ?P = "ctx_pfs c"
  obtain fs gs where d: "log = fs @ gs" "storage_ok K fs gs (ctx_pfs c)" "facts (data (storage (ctx_pfs c))) = gs"
    "log_ok K (last_checkpointed (ctx_pfs c)) (tx_counter (storage (ctx_pfs c))) gs (ctx_wal c) (wal_disk D) doubt"
    "good_facts K (log @ doubtful doubt)" "good_facts K (fs @ gs)" "length gs + length (doubtful doubt) \<le> 2 ^ 32"
    "wal_entry_count c = 0 \<and> \<not> dirty (ctx_pfs c) \<longrightarrow> gs = []"
    using db_ok_parts [OF D c] .
  have "room_for (committed_fact_pages ?P) (length gs) (length fs + length gs)" using room c d(1,3) by (simp add: save_room_def shared_storage_def)
  from saved_storage_ok [OF K d(2,6) this] obtain P' where s: "save K (file_store K) (mark_dirty ?P) = Some (Ok (), P')" "storage_ok K (fs @ gs) [] P'"
    "last_checkpointed P' = tx_counter (storage ?P)" .
  from s(2) obtain refs where "Save_Load.consistent K (file_store K) (file_holds K) (fs @ gs) refs P'" by (auto simp: storage_ok_def)
  then obtain h where b: "file_holds K h (fst (pf_io P'))" "stored K (file_store K) (committed_fact_pages P') (fs @ gs) refs (fst (pf_io P'))"
    by (rule consistent_parts)
  have cp: "last_checkpointed P' = last_checkpointed_tx_count (hdr_of (file_store K) (fst (pf_io P')))" "\<forall>f \<in> set (fs @ gs). tx_count f \<le> last_checkpointed P'"
    using s(2) by (auto simp: storage_ok_def)
  have wal: "wal_disk D = None \<or> (\<exists>f es torn m. wal_disk D = Some f \<and> logged K es torn f \<and>
      newer (last_checkpointed P') (read_entries (crc32 K) (fact_dec K) f) = [] \<and> numbered m (read_entries (crc32 K) (fact_dec K) f))"
  proof (cases "wal_disk D")
    case (Some f)
    from log_read [OF K d(4) [unfolded Some]] Some s(3) numbered_stale show ?thesis by metis
  qed simp
  from open_ok [OF K b _ cp, of "[]" "wal_disk D"] wal d(1,6) s(1) show ?thesis by auto
qed

end
