(* ===== verification/Durability.thy ===== *)
theory Durability
  imports Database_Invariant
begin

text \<open>
  Durability of the database: over any history of commits, commits whose log append fails
  part-way, checkpoints, and losses of the process followed by reopening, the database shows
  every transaction it acknowledged, in order, and at most one more, whole.
\<close>

section \<open>Commits\<close>

lemma writer_ready:
  assumes "log_ok K cp n gs writer disk doubt"
  obtains w where "(case writer of Some w \<Rightarrow> Ok w | None \<Rightarrow> open_or_create (crc32 K) (fact_dec K) disk) = Ok w"
    "log_ok K cp n gs (Some w) (Some (wal_file w)) doubt"
proof (cases writer)
  case None
  let ?w = "\<lparr>wal_file = wal_header, failed = False\<rparr>"
  have "log_ok K cp n gs (Some ?w) (Some (wal_file ?w)) doubt"
    using assms None logged_new(2) [of K] by (auto simp: log_ok_def intro!: exI [of _ "[]"])
  with that [of ?w] assms None logged_new(1) [of K] show thesis by (simp add: log_ok_def)
next
  case (Some w)
  with assms that show thesis by (simp add: log_ok_def)
qed

lemma log_ok_mono: "log_ok K cp n gs writer disk doubt \<Longrightarrow> n \<le> m \<Longrightarrow> log_ok K cp m gs writer disk doubt"
proof (cases writer)
  case (Some w)
  assume a: "log_ok K cp n gs writer disk doubt" "n \<le> m"
  with Some obtain es torn where "logged K es torn (wal_file w)" "failed w \<longleftrightarrow> torn \<noteq> None" "newer cp es = gs" "doubt = map_option we_facts torn"
    "numbered n es" "\<forall>x. torn = Some x \<longrightarrow> cp < we_tx_count x \<and> numbered n [x]" "disk = Some (wal_file w)" by (auto simp: log_ok_def)
  with a(2) Some show ?thesis
    unfolding log_ok_def by (simp del: numbered_simps) (intro exI [of _ es] exI [of _ torn], auto intro: numbered_mono simp del: numbered_simps)
qed (simp add: log_ok_def)

lemma append_ok:
  assumes "log_ok K cp n gs (Some w) disk None" "cp \<le> n" "n < txc" "\<forall>f \<in> set xs. tx_count f = txc" "\<forall>f \<in> set xs. fits_fact K f" "length xs < 2 ^ 64"
  shows "\<exists>w'. append_entry (crc32 K) (fact_enc K) None txc xs w = (Ok (), w') \<and> log_ok K cp txc (gs @ xs) (Some w') (Some (wal_file w')) None"
    "\<exists>w'. append_entry (crc32 K) (fact_enc K) (Some m) txc xs w = (Err Io, w') \<and> log_ok K cp txc gs (Some w') (Some (wal_file w')) (Some xs)"
proof -
  let ?x = "\<lparr>we_tx_count = txc, we_facts = xs\<rparr>"
  from assms(1) obtain es where es: "logged K es None (wal_file w)" "\<not> failed w" "newer cp es = gs" "numbered n es"
    by (auto simp: log_ok_def)
  have n: "numbered txc es" "numbered txc [?x]" "cp < txc" using numbered_mono [OF es(4), of txc] assms(2-4) by auto
  from append_logged(1) [OF es(1,2) assms(5,6)] obtain w' where "append_entry (crc32 K) (fact_enc K) None txc xs w = (Ok (), w')" "\<not> failed w'"
    "logged K (es @ [?x]) None (wal_file w')" by blast
  with n es(3) show "\<exists>w'. append_entry (crc32 K) (fact_enc K) None txc xs w = (Ok (), w') \<and> log_ok K cp txc (gs @ xs) (Some w') (Some (wal_file w')) None"
    by (intro exI [of _ w']) (auto simp: log_ok_def intro!: exI [of _ "es @ [?x]"])
  from append_logged(2) [OF es(1,2) assms(5,6)] obtain w' where "append_entry (crc32 K) (fact_enc K) (Some m) txc xs w = (Err Io, w')" "failed w'"
    "logged K es (Some ?x) (wal_file w')" by blast
  with n es(3) show "\<exists>w'. append_entry (crc32 K) (fact_enc K) (Some m) txc xs w = (Err Io, w') \<and> log_ok K cp txc gs (Some w') (Some (wal_file w')) (Some xs)"
    by (intro exI [of _ w']) (auto simp: log_ok_def intro!: exI [of _ es] exI [of _ "Some ?x"])
qed

text \<open>After a failed append the writer refuses; so does one whose facts do not serialise.\<close>

lemma append_refused:
  assumes "log_ok K cp n gs (Some w) disk doubt" "doubt \<noteq> None \<or> serialize_entry (crc32 K) (fact_enc K) txc xs = Err e"
  shows "\<exists>e. append_entry (crc32 K) (fact_enc K) torn txc xs w = (Err e, w)"
  using assms by (auto simp: log_ok_def append_entry_def)

definition stamped_batch :: "u64 \<Rightarrow> fact list \<Rightarrow> minigraf \<Rightarrow> fact list" where
  "stamped_batch now fs D = map (stamp now (next_tx_count (shared_storage D))) fs"

definition unserialisable :: "crates \<Rightarrow> u64 \<Rightarrow> fact list \<Rightarrow> minigraf \<Rightarrow> bool" where
  "unserialisable K now fs D \<longleftrightarrow>
     (\<exists>e. serialize_entry (crc32 K) (fact_enc K) (next_tx_count (shared_storage D)) (stamped_batch now fs D) = Err e)"

lemma stamp_tx_count [simp]: "tx_count (stamp now n f) = n"
  by (simp add: stamp_def resolve_valid_from_def)

lemma stamped_batch_simps [simp]:
  "length (stamped_batch now fs D) = length fs" "f \<in> set (stamped_batch now fs D) \<Longrightarrow> tx_count f = next_tx_count (shared_storage D)"
  by (auto simp: stamped_batch_def)

lemma good_facts_fresh:
  assumes "good_facts K log" "good_facts K xs" "\<forall>f \<in> set log. tx_count f \<le> n" "\<forall>f \<in> set xs. tx_count f = m" "n < m"
  shows "good_facts K (log @ xs)"
proof -
  have "eavt_key_of f \<noteq> eavt_key_of g" if "f \<in> set log" "g \<in> set xs" for f g
    using assms(3-5) that by (auto simp: eavt_key_of_def)
  with assms(1,2) show ?thesis by (auto simp: good_facts_def)
qed

lemma storage_ok_counts: "storage_ok K fs gs P \<Longrightarrow> f \<in> set (fs @ gs) \<Longrightarrow> tx_count f \<le> tx_counter (storage P)"
  by (auto simp: storage_ok_def intro: order_trans)

lemma storage_ok_step:
  assumes "storage_ok K fs gs P" "tx_counter (storage P) \<le> tx_counter s" "facts (data s) = gs'" "store_inv (data s)" "same_readers (storage P) s"
    "\<forall>f \<in> set gs'. tx_count f \<le> tx_counter s"
  shows "storage_ok K fs gs' (P\<lparr>storage := s, dirty := x\<rparr>)"
proof -
  from assms(1) obtain refs where "Save_Load.consistent K (file_store K) (file_holds K) fs refs P" by (auto simp: storage_ok_def)
  from consistent_storage [OF this assms(5)] have "Save_Load.consistent K (file_store K) (file_holds K) fs refs (P\<lparr>storage := s, dirty := x\<rparr>)"
    using consistent_dirty [of K "file_store K" "file_holds K" fs refs x "P\<lparr>storage := s\<rparr>"] by simp
  with assms show ?thesis unfolding storage_ok_def by (intro conjI exI [of _ refs]) auto
qed

text \<open>What a commit does once its append has been decided.\<close>

lemma commit_append:
  assumes "write_ctx D = File c" "(case ctx_wal c of Some w \<Rightarrow> Ok w | None \<Rightarrow> open_or_create (crc32 K) (fact_dec K) (wal_disk D)) = Ok w"
    "append_entry (crc32 K) (fact_enc K) (torn_append F) (next_tx_count (shared_storage D)) (stamped_batch now fs D) w = (r, w')"
  shows "commit_facts K F now fs D =
    (let s = (storage (ctx_pfs c))\<lparr>tx_counter := tx_counter (storage (ctx_pfs c)) + 1\<rparr>; k = min (wal_entry_count c + 1) usize_MAX;
         logged_ctx = (\<lambda>s'. D\<lparr>write_ctx := File (c\<lparr>ctx_pfs := (ctx_pfs c)\<lparr>storage := s', dirty := True\<rparr>, ctx_wal := Some w', wal_entry_count := k\<rparr>),
           wal_disk := Some (wal_file w')\<rparr>) in
     case r of
       Inl e \<Rightarrow> Some (Err e, D\<lparr>write_ctx := File (c\<lparr>ctx_pfs := (ctx_pfs c)\<lparr>storage := s\<rparr>, ctx_wal := Some w'\<rparr>), wal_disk := Some (wal_file w')\<rparr>)
     | Inr _ \<Rightarrow> (case load_facts (stamped_batch now fs D) s of
         (Inl e, s') \<Rightarrow> Some (Err e, logged_ctx s')
       | (Inr _, s') \<Rightarrow> if wal_checkpoint_threshold (db_options D) \<le> k
           then and_run (do_checkpoint K F (logged_ctx s')) (\<lambda>_ D3. Some (Ok now, D3)) else Some (Ok now, logged_ctx s')))"
proof -
  let ?s = "(storage (ctx_pfs c))\<lparr>tx_counter := tx_counter (storage (ctx_pfs c)) + 1\<rparr>"
  have s: "shared_storage D = storage (ctx_pfs c)" using assms(1) by (simp add: shared_storage_def)
  let ?D = "D\<lparr>write_ctx := File (c\<lparr>ctx_pfs := (ctx_pfs c)\<lparr>storage := ?s\<rparr>\<rparr>)\<rparr>"
  have with_s: "with_storage ?s D = ?D" using assms(1) by (simp add: with_storage_def)
  have w: "wal_write_stamped_batch K F (next_tx_count (shared_storage D)) (stamped_batch now fs D) ?D =
      (case r of Inl e \<Rightarrow> (Err e, ?D\<lparr>write_ctx := File (c\<lparr>ctx_pfs := (ctx_pfs c)\<lparr>storage := ?s\<rparr>, ctx_wal := Some w'\<rparr>), wal_disk := Some (wal_file w')\<rparr>)
       | Inr _ \<Rightarrow> (Ok (wal_checkpoint_threshold (db_options D) \<le> min (wal_entry_count c + 1) usize_MAX),
           ?D\<lparr>write_ctx := File (c\<lparr>ctx_pfs := (ctx_pfs c)\<lparr>storage := ?s, dirty := True\<rparr>, ctx_wal := Some w',
             wal_entry_count := min (wal_entry_count c + 1) usize_MAX\<rparr>), wal_disk := Some (wal_file w')\<rparr>))"
    using assms by (cases r; cases "ctx_wal c") (simp_all add: wal_write_stamped_batch_def mark_dirty_def Let_def)
  have commute: "d\<lparr>ctx_pfs := P, ctx_wal := v, wal_entry_count := k, ctx_pfs := P'\<rparr> = d\<lparr>ctx_pfs := P', ctx_wal := v, wal_entry_count := k\<rparr>" for d P P' v k
    by (cases d) simp
  have commute': "p\<lparr>storage := s1, dirty := x, storage := s2\<rparr> = p\<lparr>storage := s2, dirty := x\<rparr>" for p :: "file_backend persistent" and s1 s2 x
    by (cases p) simp
  obtain lr s' where l: "load_facts (stamped_batch now fs D) ?s = (lr, s')" by fastforce
  have "commit_facts K F now fs D = (case wal_write_stamped_batch K F (next_tx_count (shared_storage D)) (stamped_batch now fs D)
      (with_storage ((shared_storage D)\<lparr>tx_counter := tx_counter (shared_storage D) + 1\<rparr>) D) of
      (Inl e, D') \<Rightarrow> Some (Err e, D')
    | (Inr cp, D') \<Rightarrow> (case load_facts (stamped_batch now fs D) (shared_storage D') of
        (Inl e, s') \<Rightarrow> Some (Err e, with_storage s' D')
      | (Inr _, s') \<Rightarrow> if cp then and_run (do_checkpoint K F (with_storage s' D')) (\<lambda>_ D''. Some (Ok now, D'')) else Some (Ok now, with_storage s' D')))"
    unfolding commit_facts_def allocate_tx_count_def stamped_batch_def Let_def by simp
  then show ?thesis
    unfolding s with_s w [unfolded s] using l by (cases r; cases lr; cases "wal_checkpoint_threshold (db_options D) \<le> min (wal_entry_count c + 1) usize_MAX") (simp_all add: Let_def shared_storage_def with_storage_def no_wal_disk(2) commute commute' del: min.bounded_iff)
qed

lemma commit_ok:
  assumes K: "crates_ok K" and D: "db_ok K log None D" and F: "torn_append F = None" "delete_outcome F = Deleted"
    and good: "good_facts K (stamped_batch now fs D)" and room: "db_room (length log) (length fs) D"
  shows "\<exists>D'. commit_facts K F now fs D = Some (Ok now, D') \<and> db_ok K (log @ stamped_batch now fs D) None D'"
proof -
  obtain c where f: "write_ctx D = File c" using db_ok_file [OF D] by blast
  let ?P = "ctx_pfs c" and ?xs = "stamped_batch now fs D"
  let ?s = "(storage ?P)\<lparr>tx_counter := tx_counter (storage ?P) + 1\<rparr>"
  obtain hs gs where c: "log = hs @ gs" "storage_ok K hs gs ?P" "facts (data (storage ?P)) = gs"
    "log_ok K (last_checkpointed ?P) (tx_counter (storage ?P)) gs (ctx_wal c) (wal_disk D) None"
    "good_facts K (log @ doubtful None)" "good_facts K (hs @ gs)" "length gs + length (doubtful (None :: fact list option)) \<le> 2 ^ 32"
    "wal_entry_count c = 0 \<and> \<not> dirty ?P \<longrightarrow> gs = []"
    using db_ok_parts [OF D f] .
  have r: "room_for (committed_fact_pages ?P) (length gs + length fs) (length log + length fs)" "length gs + length fs \<le> 2 ^ 32" "tx_counter (storage ?P) \<noteq> u64_MAX"
    using room f c(3) by (simp_all add: db_room_def save_room_def shared_storage_def)
  have s: "shared_storage D = storage ?P" using f by (simp add: shared_storage_def)
  note tx = next_tx_count_greater [OF r(3)]
  have cnt: "tx_counter ?s = next_tx_count (storage ?P)" "tx_counter (storage ?P) < next_tx_count (storage ?P)" using tx by simp_all
  have le: "last_checkpointed ?P \<le> tx_counter (storage ?P)" and inv: "store_inv (data (storage ?P))" using c(2) unfolding storage_ok_def by blast+
  from writer_ready [OF c(4)] obtain w where w: "(case ctx_wal c of Some w \<Rightarrow> Ok w | None \<Rightarrow> open_or_create (crc32 K) (fact_dec K) (wal_disk D)) = Ok w"
    "log_ok K (last_checkpointed ?P) (tx_counter (storage ?P)) gs (Some w) (Some (wal_file w)) None" .
  have fit: "\<forall>g \<in> set ?xs. fits_fact K g" "\<forall>g \<in> set ?xs. tx_count g = next_tx_count (storage ?P)" "length ?xs < 2 ^ 64"
    using good r(2) s by (auto simp: good_facts_def)
  from append_ok(1) [OF w(2) le cnt(2) fit(2,1,3)] obtain w' where
    a: "append_entry (crc32 K) (fact_enc K) None (next_tx_count (storage ?P)) ?xs w = (Ok (), w')"
    "log_ok K (last_checkpointed ?P) (next_tx_count (storage ?P)) (gs @ ?xs) (Some w') (Some (wal_file w')) None" by blast
  have all: "good_facts K (log @ ?xs)"
    using c(1,6) good storage_ok_counts [OF c(2)] fit(2) cnt(2) by (intro good_facts_fresh) auto
  have "distinct (map eavt_key_of (gs @ ?xs))" using all c(1) by (auto simp: good_facts_def)
  from load_facts_fresh [of ?s gs ?xs, OF _ _ this] inv c(3) r(2) obtain s' where
    l: "load_facts ?xs ?s = (Ok (length ?xs), s')" "facts (data s') = gs @ ?xs" "store_inv (data s')" "tx_counter s' = tx_counter ?s" "same_readers ?s s'" by auto
  let ?P' = "?P\<lparr>storage := s', dirty := True\<rparr>"
  let ?D = "D\<lparr>write_ctx := File (c\<lparr>ctx_pfs := ?P', ctx_wal := Some w', wal_entry_count := min (wal_entry_count c + 1) usize_MAX\<rparr>), wal_disk := Some (wal_file w')\<rparr>"
  have "storage_ok K hs (gs @ ?xs) ?P'"
  proof (rule storage_ok_step [OF c(2) _ l(2,3)])
    show "\<forall>g \<in> set (gs @ ?xs). tx_count g \<le> tx_counter s'"
    proof
      fix g assume "g \<in> set (gs @ ?xs)"
      then have "tx_count g \<le> tx_counter (storage ?P) \<or> tx_count g = next_tx_count (storage ?P)"
        using storage_ok_counts [OF c(2), of g] fit(2) by auto
      with cnt l(4) show "tx_count g \<le> tx_counter s'" by auto
    qed
  qed (use cnt l(4,5) in \<open>simp_all add: same_readers_def\<close>)
  then have ok: "db_ok K (hs @ gs @ ?xs) None ?D"
    by (rule_tac db_okI, simp) (use a(2) all c(1) r(2) l(4) cnt(1) in simp_all)
  have sr: "save_room (length (hs @ gs @ ?xs)) 0 ?D"
    using r(1) c(1) l(2) by (simp add: save_room_def shared_storage_def add.assoc)
  have run: "commit_facts K F now fs D = (if wal_checkpoint_threshold (db_options D) \<le> min (wal_entry_count c + 1) usize_MAX
      then and_run (do_checkpoint K F ?D) (\<lambda>_ D3. Some (Ok now, D3)) else Some (Ok now, ?D))"
    using commit_append [OF f w(1), of F now fs "Ok ()" w'] a(1) l(1) F(1) s by (simp add: Let_def)
  show ?thesis
    using run ok checkpoint_ok [OF K ok F(2) sr] c(1) by (auto split: if_splits)
qed

lemma commit_failed:
  assumes D: "db_ok K log doubt D" and tx: "tx_counter (shared_storage D) \<noteq> u64_MAX"
    and cause: "doubt \<noteq> None \<or> unserialisable K now fs D \<or>
      torn_append F \<noteq> None \<and> good_facts K (stamped_batch now fs D) \<and> db_room (length log) (length fs) D"
  shows "\<exists>e D'. commit_facts K F now fs D = Some (Err e, D') \<and>
    db_ok K log (if doubt \<noteq> None \<or> unserialisable K now fs D then doubt else Some (stamped_batch now fs D)) D'"
proof -
  obtain c where f: "write_ctx D = File c" using db_ok_file [OF D] by blast
  let ?P = "ctx_pfs c" and ?xs = "stamped_batch now fs D"
  let ?s = "(storage ?P)\<lparr>tx_counter := tx_counter (storage ?P) + 1\<rparr>"
  obtain hs gs where c: "log = hs @ gs" "storage_ok K hs gs ?P" "facts (data (storage ?P)) = gs"
    "log_ok K (last_checkpointed ?P) (tx_counter (storage ?P)) gs (ctx_wal c) (wal_disk D) doubt"
    "good_facts K (log @ doubtful doubt)" "good_facts K (hs @ gs)" "length gs + length (doubtful doubt) \<le> 2 ^ 32"
    "wal_entry_count c = 0 \<and> \<not> dirty ?P \<longrightarrow> gs = []"
    using db_ok_parts [OF D f] .
  have s: "shared_storage D = storage ?P" using f by (simp add: shared_storage_def)
  note txc = next_tx_count_greater [OF tx [unfolded s]]
  have cnt: "tx_counter ?s = next_tx_count (storage ?P)" "tx_counter (storage ?P) < next_tx_count (storage ?P)" using txc by simp_all
  have le: "last_checkpointed ?P \<le> tx_counter (storage ?P)" and inv: "store_inv (data (storage ?P))" using c(2) unfolding storage_ok_def by blast+
  from writer_ready [OF c(4)] obtain w where w: "(case ctx_wal c of Some w \<Rightarrow> Ok w | None \<Rightarrow> open_or_create (crc32 K) (fact_dec K) (wal_disk D)) = Ok w"
    "log_ok K (last_checkpointed ?P) (tx_counter (storage ?P)) gs (Some w) (Some (wal_file w)) doubt" .
  have P': "storage_ok K hs gs (?P\<lparr>storage := ?s\<rparr>)"
    using storage_ok_step [OF c(2), of ?s gs "dirty ?P"] cnt inv c(3) storage_ok_counts [OF c(2)]
    by (auto simp: same_readers_def intro: order_trans less_imp_le)
  have fin: "\<exists>e D'. commit_facts K F now fs D = Some (Err e, D') \<and> db_ok K log doubt' D'"
    if a: "append_entry (crc32 K) (fact_enc K) (torn_append F) (next_tx_count (storage ?P)) ?xs w = (Err e', w')"
      and log: "log_ok K (last_checkpointed ?P) (next_tx_count (storage ?P)) gs (Some w') (Some (wal_file w')) doubt'"
      and good: "good_facts K (log @ doubtful doubt')" "length gs + length (doubtful doubt') \<le> 2 ^ 32"
      for e' w' doubt'
  proof -
    let ?D = "D\<lparr>write_ctx := File (c\<lparr>ctx_pfs := ?P\<lparr>storage := ?s\<rparr>, ctx_wal := Some w'\<rparr>), wal_disk := Some (wal_file w')\<rparr>"
    have "db_ok K (hs @ gs) doubt' ?D"
      by (rule_tac db_okI, simp) (use P' log good c(1,8) cnt(1) in simp_all)
    moreover have "commit_facts K F now fs D = Some (Err e', ?D)"
      using commit_append [OF f w(1), of F now fs "Err e'" w'] a s by simp
    ultimately show ?thesis using c(1) by blast
  qed
  show ?thesis
  proof (cases "doubt \<noteq> None \<or> unserialisable K now fs D")
    case True
    then obtain e where "doubt \<noteq> None \<or> serialize_entry (crc32 K) (fact_enc K) (next_tx_count (storage ?P)) ?xs = Err e"
      by (auto simp: unserialisable_def s)
    from append_refused [OF w(2) this, of "torn_append F"] obtain e' where
      "append_entry (crc32 K) (fact_enc K) (torn_append F) (next_tx_count (storage ?P)) ?xs w = (Err e', w)" by blast
    from fin [OF this log_ok_mono [OF w(2)] c(5,7)] cnt(2) True show ?thesis by simp
  next
    case False
    with cause obtain m where m: "torn_append F = Some m" "good_facts K ?xs" "db_room (length log) (length fs) D" "doubt = None" by auto
    have fit: "\<forall>g \<in> set ?xs. fits_fact K g" "\<forall>g \<in> set ?xs. tx_count g = next_tx_count (storage ?P)" "length gs + length ?xs \<le> 2 ^ 32"
      using m(2,3) s c(3) by (auto simp: good_facts_def db_room_def)
    from append_ok(2) [OF w(2) [unfolded m(4)] le cnt(2) fit(2,1), of m] fit(3) obtain w' where
      a: "append_entry (crc32 K) (fact_enc K) (Some m) (next_tx_count (storage ?P)) ?xs w = (Err Io, w')"
      "log_ok K (last_checkpointed ?P) (next_tx_count (storage ?P)) gs (Some w') (Some (wal_file w')) (Some ?xs)" by auto
    have "good_facts K (log @ ?xs)"
      using c(1,6) m(2) storage_ok_counts [OF c(2)] fit(2) cnt(2) by (intro good_facts_fresh) auto
    with fin [of Io w' "Some ?xs"] a m(1,4) fit(3) False show ?thesis by simp
  qed
qed

section \<open>Histories\<close>

lemma created_ok:
  obtains D where "open_with_options K opts [] None = Some (Ok D)" "db_ok K [] None D" "tx_counter (shared_storage D) = 0"
    "\<And>k n. db_room k n D \<longleftrightarrow> n + 12 * (k + n) + 8 < 2 ^ 52 \<and> n \<le> 2 ^ 32"
proof -
  let ?P = "unopened fresh_backend (page_cache_size opts)"
  let ?D = "\<lparr>own_storage = fact_storage_new, db_rules = [], db_functions = with_builtins, write_ctx = File \<lparr>ctx_pfs = ?P, ctx_wal = None, wal_entry_count = 0\<rparr>,
    db_options = opts, write_tx_active = False, wal_disk = None\<rparr>"
  have "backend_page_count (page_ops (file_store K)) fresh_backend = Ok 1" "backend_is_new fresh_backend"
    by (simp_all add: file_ops_def file_page_count_def fresh_backend_def)
  then have "persistent_new K (file_store K) fresh_backend (page_cache_size opts) = Some (Ok ?P)"
    by (simp add: persistent_new_def unopened_def)
  then have o: "open_with_options K opts [] None = Some (Ok ?D)"
    by (simp add: open_with_options_def open_empty replay_wal_def)
  have new: "committed (data fact_storage_new) = None" "committed_index_reader (data fact_storage_new) = None" "facts (data fact_storage_new) = []"
    "pending_keys (data fact_storage_new) = {}" "pending_indexes (data fact_storage_new) = indexes_new" "tx_counter fact_storage_new = 0"
    by (simp_all add: fact_storage_new_def fact_data_new_def)
  have "?P\<lparr>storage := fact_storage_new\<rparr> = ?P" by (simp add: unopened_def)
  with fresh_consistent [OF new(1,2), of K "page_cache_size opts"]
  have "Save_Load.consistent K (file_store K) (file_holds K) [] [] ?P"
    using consistent_dirty [of K "file_store K" "file_holds K" "[]" "[]" True ?P] by (simp add: unopened_def)
  moreover have "last_checkpointed_tx_count (hdr_of (file_store K) fresh_backend) = 0" unfolding fresh_hdr by (simp add: file_header_new_def)
  ultimately have "storage_ok K [] [] ?P" using new by (auto simp: storage_ok_def unopened_def store_inv_empty)
  then have "db_ok K ([] @ []) None ?D" by (rule_tac db_okI, simp) (simp_all add: log_ok_def good_facts_def)
  with that [OF o] new show thesis by (simp add: shared_storage_def db_room_def save_room_def room_for_def unopened_def u64_MAX_def)
qed

text \<open>
  The life of a database: created, commits that succeed and that fail (a torn append, facts that do
  not serialise, a log that an earlier failure has closed), checkpoints, and the process lost and
  the files opened again, between operations or within a checkpoint when it has
  committed. The log of the history is what has been acknowledged and what a reopening shows.
\<close>

inductive db_run :: "crates \<Rightarrow> fact list \<Rightarrow> fact list option \<Rightarrow> minigraf \<Rightarrow> bool" for K where
  created: "open_with_options K opts [] None = Some (Ok D) \<Longrightarrow> db_run K [] None D"
| committed: "db_run K log doubt D \<Longrightarrow> delete_outcome F = Deleted \<Longrightarrow> good_facts K (stamped_batch now fs D) \<Longrightarrow>
    db_room (length log) (length fs) D \<Longrightarrow> commit_facts K F now fs D = Some (Ok txid, D') \<Longrightarrow>
    db_run K (log @ stamped_batch now fs D) None D'"
| failed: "db_run K log doubt D \<Longrightarrow> delete_outcome F = Deleted \<Longrightarrow> tx_counter (shared_storage D) \<noteq> u64_MAX \<Longrightarrow>
    unserialisable K now fs D \<or> good_facts K (stamped_batch now fs D) \<and> db_room (length log) (length fs) D \<Longrightarrow>
    commit_facts K F now fs D = Some (Err e, D') \<Longrightarrow>
    db_run K log (if doubt \<noteq> None \<or> unserialisable K now fs D then doubt else Some (stamped_batch now fs D)) D'"
| checkpointed: "db_run K log doubt D \<Longrightarrow> delete_outcome F = Deleted \<Longrightarrow> save_room (length log) 0 D \<Longrightarrow>
    do_checkpoint K F D = Some (Ok (), D') \<Longrightarrow> db_run K log None D'"
| reopened: "db_run K log doubt D \<Longrightarrow> write_ctx D = File c \<Longrightarrow>
    open_with_options K opts (contents (fst (pf_io (ctx_pfs c)))) (wal_disk D) = Some (Ok D') \<Longrightarrow>
    get_all_facts (shared_storage D') = Ok log' \<Longrightarrow> db_run K log' None D'"
| lost_in_checkpoint: "db_run K log doubt D \<Longrightarrow> write_ctx D = File c \<Longrightarrow> save_room (length log) 0 D \<Longrightarrow>
    save K (file_store K) (mark_dirty (ctx_pfs c)) = Some (Ok (), P) \<Longrightarrow>
    open_with_options K opts (contents (fst (pf_io P))) (wal_disk D) = Some (Ok D') \<Longrightarrow>
    get_all_facts (shared_storage D') = Ok log' \<Longrightarrow> db_run K log' None D'"

lemma db_ok_log: "db_ok K log doubt D \<Longrightarrow> get_all_facts (shared_storage D) = Ok log' \<Longrightarrow> log' = log"
  using db_ok_shows [of K log doubt D] by simp

lemma db_run_ok:
  assumes "db_run K log doubt D" "crates_ok K"
  shows "db_ok K log doubt D"
  using assms
proof (induction rule: db_run.induct)
  case (created opts D)
  show ?case by (rule created_ok [of K opts]) (use created in simp)
next
  case (committed log doubt D F now fs txid D')
  then have D: "db_ok K log doubt D" and tx: "tx_counter (shared_storage D) \<noteq> u64_MAX" by (simp_all add: db_room_def)
  show ?case
  proof (cases "doubt = None \<and> torn_append F = None")
    case True
    with D commit_ok [OF committed.prems _ _ committed.hyps(2-4)] committed.hyps(5) show ?thesis by auto
  next
    case False
    with commit_failed [OF D tx, of now fs F] committed.hyps(3-5) show ?thesis by auto
  qed
next
  case (failed log doubt D F now fs e D')
  then have D: "db_ok K log doubt D" by simp
  show ?case
  proof (cases "doubt \<noteq> None \<or> unserialisable K now fs D \<or> torn_append F \<noteq> None")
    case True
    with commit_failed [OF D failed.hyps(3), of now fs F] failed.hyps(4,5) show ?thesis by auto
  next
    case False
    with commit_ok [OF failed.prems, of log D F now fs] D failed.hyps(2,4,5) show ?thesis by auto
  qed
next
  case (checkpointed log doubt D F D')
  with checkpoint_ok [OF checkpointed.prems, of log doubt D F] show ?case by auto
next
  case (reopened log doubt D c opts D' log')
  with reopen_ok [OF reopened.prems, of log doubt D c opts] show ?case by (auto dest: db_ok_log)
next
  case (lost_in_checkpoint log doubt D c P opts D' log')
  with reopen_checkpointed [OF lost_in_checkpoint.prems, of log doubt D c opts] show ?case by (auto dest: db_ok_log)
qed

text \<open>
  C1. Durability. In every state of every history, with \<open>log\<close> the transactions acknowledged: the
  database shows exactly \<open>log\<close>; if the process is lost now, opening the files succeeds and shows \<open>log\<close>,
  followed at most by the one batch whose append failed, in full; if it is lost after a checkpoint
  has committed and before the log is deleted, opening shows \<open>log\<close>; a checkpoint succeeds and
  keeps \<open>log\<close>; and with no append in doubt a commit of acceptable facts succeeds and adds
  exactly its batch, stamped with one transaction count. The batches of a history fit their
  pages and have distinct index keys, and the files have room for them.
\<close>

theorem database_durable:
  assumes "crates_ok K" "db_run K log doubt D" "write_ctx D = File c"
  shows "get_all_facts (shared_storage D) = Ok log \<and>
    (\<exists>D' log'. open_with_options K opts (contents (fst (pf_io (ctx_pfs c)))) (wal_disk D) = Some (Ok D') \<and>
      get_all_facts (shared_storage D') = Ok log' \<and> (log' = log \<or> (\<exists>xs. doubt = Some xs \<and> log' = log @ xs))) \<and>
    (save_room (length log) 0 D \<longrightarrow>
      (\<exists>P' D'. save K (file_store K) (mark_dirty (ctx_pfs c)) = Some (Ok (), P') \<and>
        open_with_options K opts (contents (fst (pf_io P'))) (wal_disk D) = Some (Ok D') \<and> get_all_facts (shared_storage D') = Ok log) \<and>
      (\<exists>D'. do_checkpoint K no_faults D = Some (Ok (), D') \<and> get_all_facts (shared_storage D') = Ok log)) \<and>
    (doubt = None \<longrightarrow> good_facts K (stamped_batch now fs D) \<longrightarrow> db_room (length log) (length fs) D \<longrightarrow>
      (\<exists>D'. commit_facts K no_faults now fs D = Some (Ok now, D') \<and>
        get_all_facts (shared_storage D') = Ok (log @ stamped_batch now fs D)))"
proof -
  have D: "db_ok K log doubt D" using assms(2,1) by (rule db_run_ok)
  have F: "torn_append no_faults = None" "delete_outcome no_faults = Deleted" by (simp_all add: no_faults_def)
  show ?thesis
  proof (intro conjI impI)
    show "get_all_facts (shared_storage D) = Ok log" using D by (rule db_ok_shows)
    from reopen_ok [OF assms(1) D assms(3), of opts]
    show "\<exists>D' log'. open_with_options K opts (contents (fst (pf_io (ctx_pfs c)))) (wal_disk D) = Some (Ok D') \<and>
      get_all_facts (shared_storage D') = Ok log' \<and> (log' = log \<or> (\<exists>xs. doubt = Some xs \<and> log' = log @ xs))"
      by (blast dest: db_ok_shows)
  next
    assume room: "save_room (length log) 0 D"
    from reopen_checkpointed [OF assms(1) D assms(3) room, of opts]
    show "\<exists>P' D'. save K (file_store K) (mark_dirty (ctx_pfs c)) = Some (Ok (), P') \<and>
        open_with_options K opts (contents (fst (pf_io P'))) (wal_disk D) = Some (Ok D') \<and> get_all_facts (shared_storage D') = Ok log"
      by (blast dest: db_ok_shows)
    from checkpoint_ok [OF assms(1) D F(2) room]
    show "\<exists>D'. do_checkpoint K no_faults D = Some (Ok (), D') \<and> get_all_facts (shared_storage D') = Ok log"
      by (blast dest: db_ok_shows)
  next
    assume "doubt = None" "good_facts K (stamped_batch now fs D)" "db_room (length log) (length fs) D"
    with commit_ok [OF assms(1) _ F] D
    show "\<exists>D'. commit_facts K no_faults now fs D = Some (Ok now, D') \<and> get_all_facts (shared_storage D') = Ok (log @ stamped_batch now fs D)"
      by (blast dest: db_ok_shows)
  qed
qed

text \<open>The same for the text of a command: what \<^verbatim>\<open>execute\<close> acknowledges is in the log of the history.\<close>

lemma execute_transact_logged:
  assumes "crates_ok (de_crates E)" "db_run (de_crates E) log None D" "\<not> write_tx_active D"
    "parse_datalog_command (de_parse E) input = Ok (TransactCmd tx)" "materialize_transaction (uuids (de_eval E)) tx = Ok fs"
    "good_facts (de_crates E) (stamped_batch (de_now E 0) fs D)" "db_room (length log) (length fs) D"
  shows "\<exists>D'. db_execute E no_faults input D = Some (Ok (Transacted (de_now E 0)), D') \<and>
    db_run (de_crates E) (log @ stamped_batch (de_now E 0) fs D) None D'"
proof -
  have F: "torn_append no_faults = None" "delete_outcome no_faults = Deleted" by (simp_all add: no_faults_def)
  from commit_ok [OF assms(1) db_run_ok [OF assms(2,1)] F assms(6,7)] obtain D' where
    D': "commit_facts (de_crates E) no_faults (de_now E 0) fs D = Some (Ok (de_now E 0), D')" by blast
  from db_run.committed [OF assms(2) F(2) assms(6,7) this] D' assms(3-5) show ?thesis by (simp add: db_execute_def)
qed

section \<open>An instance\<close>

definition one_fact_crates :: "fact \<Rightarrow> crates" where
  "one_fact_crates f = sample_crates\<lparr>fact_enc := \<lambda>g. if g = f then Ok [42] else Err Postcard, fact_dec := \<lambda>b. if b = [42] then Ok f else Err Postcard,
     eavt_codec := one_key_codec (eavt_key_of f), aevt_codec := one_key_codec (aevt_key_of f), avet_codec := one_key_codec (avet_key_of f)\<rparr>"

lemma one_fact_crates_ok:
  assumes "\<And>t. val f \<noteq> VRef t"
  shows "crates_ok (one_fact_crates f)" "good_facts (one_fact_crates f) [f]"
  using assms by (simp_all add: crates_ok_def codec_ok_def good_facts_def fits_fact_def one_fact_crates_def sample_crates_def one_key_codec_ok
      MAX_FACT_BYTES_def PAGE_SIZE_def PACKED_HEADER_SIZE_def)

theorem database_durable_witness:
  "\<exists>D D' c D''. open_with_options (one_fact_crates (stamp 7 1 sample_fact)) default_open_options [] None = Some (Ok D) \<and>
    commit_facts (one_fact_crates (stamp 7 1 sample_fact)) no_faults 7 [sample_fact] D = Some (Ok 7, D') \<and> write_ctx D' = File c \<and>
    open_with_options (one_fact_crates (stamp 7 1 sample_fact)) default_open_options (contents (fst (pf_io (ctx_pfs c)))) (wal_disk D') = Some (Ok D'') \<and>
    get_all_facts (shared_storage D'') = Ok [stamp 7 1 sample_fact]"
proof -
  let ?f = "stamp 7 1 sample_fact" and ?o = default_open_options
  let ?K = "one_fact_crates ?f"
  have "val ?f \<noteq> VRef t" for t by (simp add: stamp_def resolve_valid_from_def sample_fact_value)
  note K = one_fact_crates_ok [of ?f, OF this]
  from created_ok [of ?K ?o] obtain D where D: "open_with_options ?K ?o [] None = Some (Ok D)" "db_ok ?K [] None D" "tx_counter (shared_storage D) = 0"
    "\<And>k n. db_room k n D \<longleftrightarrow> n + 12 * (k + n) + 8 < 2 ^ 52 \<and> n \<le> 2 ^ 32" by metis
  have batch: "stamped_batch 7 [sample_fact] D = [?f]" using D(3) by (simp add: stamped_batch_def next_tx_count_def u64_saturating_add_def)
  have run: "db_run ?K [] None D" using D(1) by (rule db_run.created)
  have room: "db_room (length ([] :: fact list)) (length [sample_fact]) D" by (simp add: D(4))
  obtain c where "write_ctx D = File c" using db_ok_file [OF D(2)] by blast
  from database_durable [OF K(1) run this, of ?o 7 "[sample_fact]"] batch K(2) room obtain D' where
    D': "commit_facts ?K no_faults 7 [sample_fact] D = Some (Ok 7, D')" by auto
  have run': "db_run ?K ([] @ stamped_batch 7 [sample_fact] D) None D'"
    by (rule db_run.committed [OF run _ _ room D']) (simp_all add: no_faults_def batch K(2))
  from db_ok_file [OF db_run_ok [OF this K(1)]] obtain c' where c': "write_ctx D' = File c'" by blast
  from database_durable [OF K(1) run' this, of ?o] D(1) D' c' batch show ?thesis by auto
qed

end
