(* ===== verification/Write_Transactions.thy ===== *)
theory Write_Transactions
  imports Log_Replay
begin

text \<open>
  Explicit write transactions, \<^verbatim>\<open>WriteTransaction\<close> of \<^verbatim>\<open>src/db.rs\<close>: rolling back restores the database,
  a commit whose log append fails leaves what is shown as it was, and what a transaction reads before its commit
  is not always what the commit leaves: the staged writes are read with a transaction count each
  and committed with one for all.
\<close>

section \<open>What stays as it was\<close>

lemma with_storage_simps [simp]:
  "shared_storage (with_storage s D) = s" "db_rules (with_storage s D) = db_rules D"
  by (simp_all add: shared_storage_def with_storage_def split: write_context.splits)

lemma rollback_restores:
  assumes "begin_write now D = (Ok W, D')"
  shows "rollback W' D' = D"
  using assms by (cases D) (auto simp: begin_write_def rollback_def split: if_splits)

lemma wal_write_shows:
  assumes "wal_write_stamped_batch K F n fs D = (r, D')"
  shows "data (shared_storage D') = data (shared_storage D)"
  using assms
  by (auto simp: wal_write_stamped_batch_def shared_storage_def mark_dirty_def Let_def
      split: write_context.splits sum.splits prod.splits)

lemma failed_append_shows:
  assumes "wal_write_stamped_batch K F (next_tx_count (shared_storage D)) (map (stamp now (next_tx_count (shared_storage D))) fs)
    (with_storage ((shared_storage D)\<lparr>tx_counter := tx_counter (shared_storage D) + 1\<rparr>) D) = (Err e, D')"
  shows "commit_facts K F now fs D = Some (Err e, D') \<and> get_all_facts (shared_storage D') = get_all_facts (shared_storage D)"
  using assms wal_write_shows [OF assms] by (simp add: commit_facts_def allocate_tx_count_def Let_def get_all_facts_def)

section \<open>Reading and committing\<close>

lemma resolve_valid_from_simps [simp]:
  "eav_of (resolve_valid_from f) = eav_of f" "tx_count (resolve_valid_from f) = tx_count f" "asserted (resolve_valid_from f) = asserted f"
  by (simp_all add: resolve_valid_from_def eav_of_def)

lemma stamp_simps [simp]: "eav_of (stamp now n f) = eav_of f" "tx_count (stamp now n f) = n" "asserted (stamp now n f) = asserted f"
  by (simp_all add: stamp_def) (simp add: eav_of_def)

lemma reassertion_read:
  assumes "\<forall>f \<in> set cs. tx_count f < tx_count a" "tx_count r < tx_count a" "asserted a" "\<not> asserted r"
  shows "a \<in> set (net_asserted_facts (cs @ [r, a]))"
proof -
  let ?fs = "cs @ [r, a]" and ?i = "length cs + 1"
  have i: "?i < length ?fs" "?fs ! ?i = a" by (simp_all add: nth_append)
  have less: "tx_count (?fs ! j) < tx_count a" if "j < length ?fs" "j \<noteq> ?i" for j
    using that assms(1,2) by (auto simp: nth_append nth_Cons' less_Suc_eq)
  have "best_in_window ?fs ?i"
    unfolding best_in_window_def i(2) using i(1) less assms(3) by (metis order_refl i(2))
  moreover have "not_retracted ?fs a" using assms by (auto simp: not_retracted_def)
  ultimately show ?thesis using i by (auto simp: in_net_iff)
qed

lemma reassertion_lost:
  assumes "\<forall>f \<in> set fs. tx_count f \<le> tx_count r" "r \<in> set fs" "\<not> asserted r"
  shows "\<forall>f \<in> set (net_asserted_facts fs). eav_of f \<noteq> eav_of r"
  using assms not_retractedD in_netD by (metis leD)

text \<open>
  C29. A fact that is retracted and asserted again in one write transaction is shown to the queries
  of the transaction, and is gone once the transaction has been committed: the two records get the
  same transaction count, and a retraction wins over an assertion of its own count.
\<close>

theorem commit_drops_reassertion:
  assumes "write_ctx D = Memory" "store_inv (data (own_storage D))" "get_all_facts (own_storage D) = Ok cs"
    "\<forall>f \<in> set cs. tx_count f \<le> tx_counter (own_storage D)" "unat (tx_counter (own_storage D)) + 2 < 2 ^ 64"
    "length (facts (data (own_storage D))) + 2 \<le> 2 ^ 32" "asserted a" "\<not> asserted r" "eav_of r = eav_of a"
    "begin_write t D = (Ok W, D1)" "W' = stage_pending_facts t2 [a] (stage_pending_facts t1 [r] W)"
  shows "(\<exists>ms. merged_query_facts W' D1 = Ok ms \<and> (\<exists>f \<in> set (net_asserted_facts ms). eav_of f = eav_of a)) \<and>
    (\<exists>D' fs. commit K F now W' D1 = Some (Ok (), D') \<and> get_all_facts (shared_storage D') = Ok fs \<and>
      (\<forall>f \<in> set (net_asserted_facts fs). eav_of f \<noteq> eav_of a))"
proof -
  let ?s = "own_storage D" and ?n = "tx_counter (own_storage D)"
  have D1: "D1 = D\<lparr>write_tx_active := True\<rparr>" and W: "pending_facts W = []" "next_pending_tx_count W = u64_saturating_add ?n 1"
    using assms(10,1) by (auto simp: begin_write_def current_tx_count_def shared_storage_def split: if_splits)
  have sat: "u64_saturating_add ?n 1 = ?n + 1" "u64_saturating_add (?n + 1) 1 = ?n + 2" and un: "unat (?n + 1) = unat ?n + 1" "unat (?n + 2) = unat ?n + 2"
  proof -
    show u: "unat (?n + 1) = unat ?n + 1" "unat (?n + 2) = unat ?n + 2"
      using assms(5) unat_add_lt [of ?n 1] unat_add_lt [of ?n 2] by simp_all
    show "u64_saturating_add ?n 1 = ?n + 1" "u64_saturating_add (?n + 1) 1 = ?n + 2"
      using assms(5) u by (simp_all add: saturating_add_small)
  qed
  obtain i1 i2 where p: "pending_facts W' = [r\<lparr>tx_id := i1, tx_count := ?n + 1\<rparr>, a\<lparr>tx_id := i2, tx_count := ?n + 2\<rparr>]"
    using W sat by (simp add: assms(11) stage_pending_facts_def Let_def)
  let ?r = "resolve_valid_from (r\<lparr>tx_id := i1, tx_count := ?n + 1\<rparr>)" and ?a = "resolve_valid_from (a\<lparr>tx_id := i2, tx_count := ?n + 2\<rparr>)"
  have "merged_query_facts W' D1 = Ok (cs @ [?r, ?a])"
    using assms(1,3) by (simp add: merged_query_facts_def p D1 shared_storage_def)
  moreover have "?a \<in> set (net_asserted_facts (cs @ [?r, ?a]))"
  proof (rule reassertion_read)
    show "\<forall>f \<in> set cs. tx_count f < tx_count ?a" using assms(4) un by (auto simp: word_le_nat_alt word_less_nat_alt)
  qed (use assms(7,8) un in \<open>simp_all add: word_less_nat_alt\<close>)
  moreover have "eav_of ?a = eav_of a" by simp (simp add: eav_of_def)
  ultimately have read: "\<exists>ms. merged_query_facts W' D1 = Ok ms \<and> (\<exists>f \<in> set (net_asserted_facts ms). eav_of f = eav_of a)" by blast
  let ?xs = "map (stamp now (?n + 1)) (pending_facts W')"
  have xs: "length ?xs = 2" "\<forall>f \<in> set ?xs. tx_count f = ?n + 1" "stamp now (?n + 1) r \<in> set ?xs"
    by (auto simp: p stamp_def)
  have cs: "set (facts (data ?s)) \<subseteq> set cs" using assms(3) by (auto simp: get_all_facts_def all_facts_def and_then_eq_Inr split: option.splits)
  have "new_facts (pending_keys (data ?s)) ?xs = ?xs"
  proof (rule new_facts_all)
    show "distinct (map pending_key ?xs)" using assms(7,8) by (auto simp: p pending_key_def)
    show "pending_keys (data ?s) \<inter> pending_key ` set ?xs = {}"
    proof -
      have h: "pending_key f \<noteq> pending_key x" if "f \<in> set (facts (data ?s))" "x \<in> set ?xs" for f x
      proof -
        have "tx_count f \<le> ?n" "tx_count x = ?n + 1" using that cs assms(4) xs(2) by auto
        then have "tx_count f \<noteq> tx_count x" using un(1) by (auto simp: word_le_nat_alt)
        then show ?thesis by (simp add: pending_key_def)
      qed
      have keys: "pending_keys (data ?s) = pending_key ` set (facts (data ?s))" using assms(2) by (simp add: store_inv_def)
      show ?thesis unfolding keys using h by blast
    qed
  qed
  moreover obtain d where d2: "append_facts ?xs (data ?s) = Ok d"
    using assms(6) xs(1) by (auto simp: append_facts_def pending_refs_eq Let_def)
  ultimately have d: "load_facts ?xs (?s\<lparr>tx_counter := ?n + 1\<rparr>) = (Ok 2, ?s\<lparr>tx_counter := ?n + 1, data := d\<rparr>)" "append_facts ?xs (data ?s) = Ok d"
    using xs(1) by (simp_all add: load_facts_eq)
  have "next_tx_count ?s = ?n + 1" using sat(1) by (simp add: next_tx_count_def)
  then have "commit_facts K F now (pending_facts W') D1 = Some (Ok now, D1\<lparr>own_storage := ?s\<lparr>tx_counter := ?n + 1, data := d\<rparr>\<rparr>)"
    using d(1) assms(1) by (simp add: commit_facts_def allocate_tx_count_def shared_storage_def with_storage_def wal_write_stamped_batch_def D1 Let_def)
  moreover have "all_facts d = Ok (cs @ ?xs)"
    using append_facts_Inr [OF d(2)] assms(3) by (auto simp: get_all_facts_def all_facts_def and_then_eq_Inr split: option.splits)
  moreover have "\<forall>f \<in> set (net_asserted_facts (cs @ ?xs)). eav_of f \<noteq> eav_of (stamp now (?n + 1) r)"
  proof (rule reassertion_lost)
    show "\<forall>f \<in> set (cs @ ?xs). tx_count f \<le> tx_count (stamp now (?n + 1) r)"
      using assms(4) xs(2) un by (fastforce simp: word_le_nat_alt)
  qed (use xs(3) assms(8) in simp_all)
  ultimately have "\<exists>D' fs. commit K F now W' D1 = Some (Ok (), D') \<and> get_all_facts (shared_storage D') = Ok fs \<and>
      (\<forall>f \<in> set (net_asserted_facts fs). eav_of f \<noteq> eav_of a)"
    using p assms(1,9) by (simp add: commit_def shared_storage_def D1 get_all_facts_def)
  with read show ?thesis by blast
qed

theorem commit_drops_reassertion_witness:
  "\<exists>D W D1 W'. in_memory_with_options sample_crates default_open_options = Some (Ok D) \<and> begin_write 5 D = (Ok W, D1) \<and>
    W' = stage_pending_facts 7 [fact_new 1 '':a'' (VBoolean True) 0] (stage_pending_facts 6 [fact_retract 1 '':a'' (VBoolean True) 0] W) \<and>
    (\<exists>ms. merged_query_facts W' D1 = Ok ms \<and> net_asserted_facts ms \<noteq> []) \<and>
    (\<exists>D' fs. commit sample_crates no_faults 8 W' D1 = Some (Ok (), D') \<and> get_all_facts (shared_storage D') = Ok fs \<and>
      (\<forall>f \<in> set (net_asserted_facts fs). eav_of f \<noteq> (1, '':a'', encode_value (VBoolean True))))"
proof -
  let ?a = "fact_new 1 '':a'' (VBoolean True) 0" and ?r = "fact_retract 1 '':a'' (VBoolean True) 0"
  let ?D = "\<lparr>own_storage = fact_storage_new, db_rules = [], db_functions = with_builtins, write_ctx = Memory, db_options = default_open_options,
    write_tx_active = False, wal_disk = None\<rparr>"
  have D: "in_memory_with_options sample_crates default_open_options = Some (Ok ?D)"
    by (simp add: in_memory_with_options_def persistent_new_def memory_store_def memory_ops_def memory_page_count_def memory_backend_new_def Let_def)
  obtain W D1 where W: "begin_write 5 ?D = (Ok W, D1)" by (simp add: begin_write_def)
  let ?W = "stage_pending_facts 7 [?a] (stage_pending_facts 6 [?r] W)"
  have "eav_of ?a = (1, '':a'', encode_value (VBoolean True))" by (simp add: eav_of_def fact_new_def)
  moreover have "(\<exists>ms. merged_query_facts ?W D1 = Ok ms \<and> (\<exists>f \<in> set (net_asserted_facts ms). eav_of f = eav_of ?a)) \<and>
    (\<exists>D' fs. commit sample_crates no_faults 8 ?W D1 = Some (Ok (), D') \<and> get_all_facts (shared_storage D') = Ok fs \<and>
      (\<forall>f \<in> set (net_asserted_facts fs). eav_of f \<noteq> eav_of ?a))"
    by (rule commit_drops_reassertion [of ?D "[]" ?a ?r 5 W D1 ?W 7 6])
      (use W in \<open>simp_all add: fact_storage_new_def fact_data_new_def store_inv_empty get_all_facts_def all_facts_def fact_new_def fact_retract_def eav_of_def\<close>)
  ultimately show ?thesis using D W by (intro exI [of _ ?D] exI [of _ W] exI [of _ D1] exI [of _ ?W]) auto
qed

end
