(* ===== verification/Spec2Isabelle.thy ===== *)
theory Spec2Isabelle
  imports Fact_Selection Parser_Safety Edn_Text Durability Write_Transactions
begin

text \<open>
  Minigraf: a bi-temporal graph database with a Datalog query language, kept in one file.
  Paths below are relative to the crate, \<^verbatim>\<open>src/\<close>.

  \<^bold>\<open>How the program is put together.\<close> A fact is an (entity, attribute, value) triple with a
  validity interval, a transaction identifier and a transaction count. The fact store
  (\<^verbatim>\<open>graph/storage.rs\<close>) keeps a log of the facts since the last checkpoint, four covering
  indexes over it (\<^verbatim>\<open>storage/index.rs\<close>) and readers for the facts already in the file. Every
  commit appends an entry to the write-ahead log (\<^verbatim>\<open>wal.rs\<close>). A checkpoint packs the facts into
  pages (\<^verbatim>\<open>storage/packed_pages.rs\<close>), merges them into four B+trees (\<^verbatim>\<open>storage/btree_v6.rs\<close>) and
  writes the header (\<^verbatim>\<open>storage/mod.rs\<close>); \<^verbatim>\<open>storage/persistent_facts.rs\<close> does it, through a page
  cache (\<^verbatim>\<open>storage/cache.rs\<close>) and a backend (\<^verbatim>\<open>storage/backend/\<close>), and loads it all again. Text is
  parsed (\<^verbatim>\<open>query/datalog/parser.rs\<close>) into the types of \<^verbatim>\<open>types.rs\<close>; rules enter a registry that
  keeps them stratified; the executor selects facts, plans clauses, matches patterns, evaluates
  rules and post-processes rows. The handle in \<^verbatim>\<open>db.rs\<close> joins them: it opens the file and replays
  the log, runs commands, logs and applies what they write, and takes checkpoints.

  \<^bold>\<open>Which theory models what.\<close>

  Basics.
  \<^item> \<open>Prelude\<close>: machine integers (\<open>u8\<close> to \<open>u64\<close> as words, \<open>i64\<close> as its own ordered type, \<open>f64\<close>
    as its bit pattern), errors as values of \<open>error_code\<close> in a sum, little-endian codecs,
    checked slices. \<open>Ordered_Map\<close>: \<^verbatim>\<open>BTreeMap\<close> as an ascending association list behind the
    locale \<open>ordered_map\<close>. \<open>Float64\<close>: arithmetic of doubles on bit patterns.
  \<^item> \<open>Graph_Types\<close>: \<^verbatim>\<open>graph/types.rs\<close>. Equality, order and hashing of values agree.

  The store.
  \<^item> \<open>Index\<close>: \<^verbatim>\<open>storage/index.rs\<close>. The byte encoding of values orders them by type, and within
    a type as \<^verbatim>\<open>Ord for Value\<close> does; keys are totally ordered; lookups find what was inserted.
  \<^item> \<open>Fact_Storage\<close>: \<^verbatim>\<open>graph/storage.rs\<close>, every operation; \<open>Temporal_Views\<close>: its as-of and net
    views against declarative specifications; \<open>Storage_Lookups\<close>: the reachable states, their
    invariant, idempotence of replay, and exactness of index-driven retrieval over readers
    that keep the contract \<open>committed_ok\<close>.

  The file.
  \<^item> \<open>File_Header\<close>, \<open>Backend\<close>: the header's byte layout; the memory and file backends as
    interpretations of the locale \<open>backend\<close>, the contract their clients use; reopening.
  \<^item> \<open>Page_Cache\<close>: \<^verbatim>\<open>storage/cache.rs\<close>, proved transparent over any backend that keeps the
    contract. \<open>Index_Blob\<close>: \<^verbatim>\<open>storage/btree.rs\<close>, round trip of the indexes over any backend.
  \<^item> \<open>Packed_Pages\<close>: \<^verbatim>\<open>storage/packed_pages.rs\<close>, round trip and addressing of fact pages.
  \<^item> \<open>BTree_Pages\<close> (node layout), \<open>BTree_Index\<close> (the operations), \<open>BTree_Scan\<close> (trees on disk and
    scans over them), \<open>BTree_Build\<close>, \<open>BTree_Rebuild\<close>, \<open>BTree_Merge\<close> (what building and merging
    write) and \<open>BTree_Contents\<close>: \<^verbatim>\<open>storage/btree_v6.rs\<close>. A built or rebuilt tree holds exactly its
    entries, and scans of it end with exactly those in the half-open range.
  \<^item> \<open>Wal\<close>: \<^verbatim>\<open>wal.rs\<close>, torn writes, replay and crash recovery over all histories.
  \<^item> \<open>Persistent\<close>: \<^verbatim>\<open>storage/persistent_facts.rs\<close>, loading files of every format, the migrations,
    integrity check and rebuild, and the checkpoint. \<open>Tree_End\<close>: where trees end and which pages
    get cached. \<open>File_Store\<close>: the locale \<open>headed\<close>, what a checkpoint needs of a backend, and its
    interpretation on the file backend. \<open>Stored_Facts\<close>: facts and index entries of a page range.
    \<open>Checkpoint\<close> and \<open>Save_Load\<close>: writing and loading a file, inside \<open>headed\<close>; the on-disk readers
    keep \<open>committed_ok\<close>. \<open>Durable_File\<close>: a checkpoint followed by a reopening loses nothing.

  Queries.
  \<^item> \<open>Tokenizer\<close>, \<open>Edn_Parser\<close>, \<open>Query_Parser\<close>: \<^verbatim>\<open>query/datalog/parser.rs\<close> and the timestamps of
    \<^verbatim>\<open>temporal.rs\<close>. The EDN parser accepts a grammar exactly; \<open>Edn_Text\<close>: how tokens
    are spelled and laid out, and that every such text is read as its value; \<open>Parser_Safety\<close>:
    accepted commands bind the variables of their expressions and top-level negations.
  \<^item> \<open>Datalog_Types\<close>, \<open>Stratification\<close>: \<^verbatim>\<open>types.rs\<close>, \<^verbatim>\<open>stratification.rs\<close>, \<^verbatim>\<open>rules.rs\<close>;
    stratification is total, exact and least, registration is atomic.
  \<^item> \<open>Matcher\<close>: \<^verbatim>\<open>matcher.rs\<close>, joins return the solutions of their patterns. \<open>Optimizer\<close>:
    \<^verbatim>\<open>optimizer.rs\<close>, planning keeps the answers of patterns over stored attributes and binds before
    it reads.
  \<^item> \<open>Expressions\<close>: expressions and \<^verbatim>\<open>functions.rs\<close>. \<open>Negation\<close>, \<open>Disjunction\<close>: \<^verbatim>\<open>not\<close>, \<^verbatim>\<open>or\<close> and
    their join forms as filters and joins. \<open>Post_Processing\<close>, \<open>Window_Functions\<close>: projection,
    grouping and windows.
  \<^item> \<open>Evaluator\<close>: \<^verbatim>\<open>evaluator.rs\<close>, semi-naive evaluation returns the closure under the rules.
    \<open>Magic_Sets\<close>: \<^verbatim>\<open>magic_sets.rs\<close>, every guarded call is supplied with demand.
  \<^item> \<open>Executor\<close>: \<^verbatim>\<open>executor.rs\<close>, commands: what transacting stores and when it fails; a failed command
    changes nothing. \<open>Fact_Selection\<close>: the selective fetch shows each
    pattern what a full scan shows. \<open>Prepared\<close>: \<^verbatim>\<open>prepared.rs\<close>, a prepared query runs its instance.

  The whole.
  \<^item> \<open>Database\<close>: \<^verbatim>\<open>db.rs\<close>, from opening to closing, with write transactions. \<open>Log_Replay\<close>: what replay
    makes of a log. \<open>Database_Invariant\<close> and \<open>Durability\<close>: the invariant between handle, file and
    log file, and that no history of commits, failures, checkpoints and lost processes loses an
    acknowledged transaction. \<open>Write_Transactions\<close>: what a transaction reads and what it commits.

  \<^bold>\<open>External code.\<close> The crates \<^verbatim>\<open>postcard\<close>, \<^verbatim>\<open>crc32fast\<close>, \<^verbatim>\<open>uuid\<close>, \<^verbatim>\<open>regex_lite\<close> and \<^verbatim>\<open>chrono\<close>, the Unicode
  classes beyond ASCII and the wall clock are arguments of the definitions that use them. The
  hypotheses \<open>codec_ok\<close>, \<open>index_codec_ok\<close> and \<open>key_codec_ok\<close> state that decoding undoes encoding; of the
  hash nothing is assumed. The model is a release build without the \<^verbatim>\<open>wasm\<close> feature.

  \<^bold>\<open>Loops.\<close> No definition uses fuel. Loops over data recurse on it; reachability, the relaxation of
  strata, the branches of disjunctions, the levels of a tree under construction, the collection
  of leaves, the tokenizer and the nested recursion of the EDN parser carry termination
  proofs. The descent to a leaf and the walk along the leaves follow pointers on disk and may
  cycle in a damaged file: they are partial functions, \<open>None\<close> is not returning, and the theorems
  show that they return on trees the program wrote. Sorting without stability is modelled by
  the stable sort; theorems that depend on it assume distinct keys.

  \<^bold>\<open>Failure.\<close> Every error return is a branch; codes are indexed by their number. A Rust panic that
  the code can reach is the error value \<open>Panic\<close>. Failed log appends leave any prefix of the
  entry in the file.

  \<^bold>\<open>Not modelled.\<close> Locks and poisoning (every operation is one step), the file lock retry, \<^verbatim>\<open>fsync\<close>
  and the directory sync, failing operating-system calls of the file backend, the fault-injecting
  backend of the tests, the loss of the process within the page writes of a checkpoint (histories
  lose it between operations and between the commit of a checkpoint and the deletion of the
  log), the message table \<^verbatim>\<open>error.rs\<close>, the terminal, the browser backends and the language
  bindings.
\<close>

end
